(* ===== verification/Targetcore_Prelude.thy ===== *)
theory Targetcore_Prelude
  imports Main "HOL-Library.Word" "HOL-Library.Sublist"
begin

text \<open>
  Shared vocabulary of the development: bytes and wide strings, big-endian integer fields,
  slices of a byte block, and the generic facts about them the component theories use.

  A byte is an \<open>8 word\<close>; \<open>std::string\<close>, \<open>std::vector<unsigned char>\<close> and pointer/length pairs
  are byte lists.  A wide string (\<open>wchar_t*\<close>, \<open>T_ADDR*\<close>, \<open>CString\<close>) is the list of its code
  units without the terminating NUL; a code unit is a natural number (below \<open>2^16\<close> on Windows,
  below \<open>2^32\<close> elsewhere).
\<close>

unbundle bit_operations_syntax

type_synonym byte = "8 word"
type_synonym bytes = "byte list"
type_synonym wchar = nat
type_synonym wstr = "wchar list"

named_theorems wire_simps \<open>lengths and round trips of wire fields\<close>

text \<open>Literals: \<open>wide ''abc''\<close> is \<open>L"abc"\<close>, \<open>narrow ''abc''\<close> the bytes of \<open>"abc"\<close>.\<close>

definition wide :: "string \<Rightarrow> wstr" where
  "wide s = map of_char s"

definition narrow :: "string \<Rightarrow> bytes" where
  "narrow s = map (\<lambda>c. word_of_nat (of_char c)) s"

abbreviation chDot :: wchar where "chDot \<equiv> 46"
abbreviation chColon :: wchar where "chColon \<equiv> 58"
abbreviation chStar :: wchar where "chStar \<equiv> 42"
abbreviation chQuery :: wchar where "chQuery \<equiv> 63"
abbreviation chHash :: wchar where "chHash \<equiv> 35"

text \<open>\<open>isdigit\<close> in the C locale, for the code units the standard defines it on.\<close>

definition isdigit :: "wchar \<Rightarrow> bool" where
  "isdigit c \<longleftrightarrow> 48 \<le> c \<and> c \<le> 57"

subsection \<open>Slices of a block\<close>

definition block_at :: "nat \<Rightarrow> nat \<Rightarrow> 'a list \<Rightarrow> 'a list" where
  "block_at off n xs = take n (drop off xs)"

lemma length_block_at [wire_simps]: "off + n \<le> length xs \<Longrightarrow> length (block_at off n xs) = n"
  by (simp add: block_at_def)

lemma block_at_append_left: "off + n \<le> length xs \<Longrightarrow> block_at off n (xs @ ys) = block_at off n xs"
  by (simp add: block_at_def)

lemma block_at_append_right: "length xs \<le> off \<Longrightarrow> block_at off n (xs @ ys) = block_at (off - length xs) n ys"
  by (simp add: block_at_def)

lemma block_at_all: "length xs = n \<Longrightarrow> block_at 0 n xs = xs"
  by (simp add: block_at_def)

lemma block_at_prefix: "length xs = n \<Longrightarrow> block_at 0 n (xs @ ys) = xs"
  by (simp add: block_at_def)

text \<open>Records of one size, one after the other.\<close>

lemma length_concat_const: "list_all (\<lambda>xs. length xs = k) xss \<Longrightarrow> length (concat xss) = k * length xss"
  by (induction xss) simp_all

lemma concat_slice:
  assumes "list_all (\<lambda>xs. length xs = k) xss" and "i < length xss" and "a + n \<le> k"
  shows "block_at (i * k + a) n (concat xss) = block_at a n (xss ! i)"
  using assms(1,2)
proof (induction xss arbitrary: i)
  case (Cons xs xss)
  show ?case
  proof (cases i)
    case 0
    with Cons.prems assms(3) show ?thesis by (simp add: block_at_append_left)
  next
    case (Suc j)
    with Cons.prems assms(3) have "block_at (i * k + a) n (concat (xs # xss)) = block_at (j * k + a) n (concat xss)"
      by (simp add: block_at_append_right)
    with Cons Suc show ?thesis by simp
  qed
qed simp

subsection \<open>Big-endian integer fields\<close>

text \<open>
  The \<open>for ( i = n-1; i >= 0; --i ) \{ p[i] = v & 0xFF; v >>= 8; \}\<close> loop every field writer of the
  wire formats uses, and the \<open>v = ( v << 8 ) | p[i]\<close> loop every reader uses, on unsigned values.
\<close>

fun be_put :: "nat \<Rightarrow> nat \<Rightarrow> bytes" where
  "be_put 0 v = []"
| "be_put (Suc n) v = be_put n (drop_bit 8 v) @ [word_of_nat (v AND 255)]"

definition be_get :: "bytes \<Rightarrow> nat" where
  "be_get bs = foldl (\<lambda>v b. push_bit 8 v OR unat b) 0 bs"

lemma and_255: "(v::nat) AND 255 = v mod 256"
proof -
  have "v AND 255 = take_bit 8 v"
    by (simp add: take_bit_eq_mask mask_eq_exp_minus_1)
  then show ?thesis by (simp add: take_bit_eq_mod)
qed

lemma and_63: "(v::nat) AND 63 = v mod 64"
proof -
  have "v AND 63 = take_bit 6 v"
    by (simp add: take_bit_eq_mask mask_eq_exp_minus_1)
  then show ?thesis by (simp add: take_bit_eq_mod)
qed

text \<open>Setting low bits below a shifted value is an addition.\<close>

lemma push_or_add:
  assumes "(b::nat) < 2 ^ n"
  shows "push_bit n v OR b = 2 ^ n * v + b"
proof -
  have low: "bit b i \<Longrightarrow> i < n" for i
    using assms by (metis bit_take_bit_iff take_bit_nat_eq_self_iff)
  have "push_bit n v AND b = 0"
    by (rule bit_eqI) (auto simp: bit_simps dest: low)
  then have "push_bit n v OR b = push_bit n v + b"
    by (simp add: disjunctive_add_eq_or)
  then show ?thesis by (simp add: push_bit_eq_mult)
qed

lemma unat_byte_less: "unat (b::byte) < 256"
  using unsigned_less [where ?'a = nat, of b] by simp

lemma be_put_length [simp, wire_simps]: "length (be_put n v) = n"
  by (induction n arbitrary: v) simp_all

lemma be_get_snoc: "be_get (bs @ [b]) = 256 * be_get bs + unat b"
  using push_or_add [of "unat b" 8 "be_get bs"] unat_byte_less [of b]
  by (simp add: be_get_def)

lemma be_get_put [wire_simps]: "be_get (be_put n v) = v mod 256 ^ n"
proof (induction n arbitrary: v)
  case 0
  show ?case by (simp add: be_get_def)
next
  case (Suc n)
  have "be_get (be_put (Suc n) v) = 256 * ((v div 256) mod 256 ^ n) + v mod 256"
    by (simp add: be_get_snoc Suc.IH and_255 drop_bit_eq_div unat_of_nat)
  also have "\<dots> = v mod (256 * 256 ^ n)"
    by (simp add: mod_mult2_eq)
  finally show ?case by simp
qed

lemma be_put_get:
  "length bs = n \<Longrightarrow> be_put n (be_get bs) = bs"
proof (induction n arbitrary: bs)
  case 0
  then show ?case by simp
next
  case (Suc n)
  then obtain cs b where bs: "bs = cs @ [b]" and n: "length cs = n"
    by (metis length_Suc_conv_rev)
  have "(256 * be_get cs + unat b) div 256 = be_get cs"
    using unat_byte_less [of b] by simp
  moreover have "(256 * be_get cs + unat b) mod 256 = unat b"
    using unat_byte_less [of b] by simp
  ultimately show ?case
    using Suc.IH [OF n] by (simp add: bs be_get_snoc and_255 drop_bit_eq_div)
qed

lemma be_get_bound: "be_get bs < 256 ^ length bs"
proof (induction bs rule: rev_induct)
  case Nil
  show ?case by (simp add: be_get_def)
next
  case (snoc b bs)
  then have "be_get bs + 1 \<le> 256 ^ length bs" by simp
  then have "256 * (be_get bs + 1) \<le> 256 * 256 ^ length bs" by (rule mult_le_mono2)
  with unat_byte_less [of b] show ?case by (simp add: be_get_snoc)
qed

subsection \<open>The interface of a fixed-width field\<close>

text \<open>
  Every fixed-width value of a wire block is written by one function and read back by another;
  the readers of a block rely on the width and the round trip only.
\<close>

locale field_codec =
  fixes put :: "'v \<Rightarrow> bytes"
    and get :: "bytes \<Rightarrow> 'v"
    and width :: nat
    and valid :: "'v \<Rightarrow> bool"
  assumes put_length: "length (put v) = width"
    and get_put: "valid v \<Longrightarrow> get (put v) = v"
begin

lemma put_inject: "valid v \<Longrightarrow> valid w \<Longrightarrow> put v = put w \<longleftrightarrow> v = w"
  by (metis get_put)

lemma put_append_inject:
  assumes "valid v" and "valid w"
  shows "put v @ xs = put w @ ys \<longleftrightarrow> v = w \<and> xs = ys"
proof -
  have "put v @ xs = put w @ ys \<longleftrightarrow> put v = put w \<and> xs = ys"
    by (rule append_eq_append_conv) (simp add: put_length)
  then show ?thesis using assms by (simp add: put_inject)
qed

lemma get_at:
  assumes "valid v" and "length pre = off"
  shows "get (block_at off width (pre @ put v @ post)) = v"
  using assms by (simp add: block_at_def put_length get_put)

end

subsection \<open>The interface of a replay cache\<close>

text \<open>
  Three caches remember what was accepted.  What their clients rely on: a mark just noted is guarded
  for as many further notes as the cache has room, every note near it in time takes away at most one,
  and a guarded mark is refused.  No bound on the room is \<open>None\<close>.
\<close>

definition fits :: "nat \<Rightarrow> nat option \<Rightarrow> bool" where
  "fits n room = (case room of None \<Rightarrow> True | Some r \<Rightarrow> n \<le> r)"

locale replay_cache =
  fixes remember :: "'m \<Rightarrow> 'c \<Rightarrow> 'c"
    and refuses :: "'c \<Rightarrow> 'm \<Rightarrow> bool"
    and guards :: "nat \<Rightarrow> 'm \<Rightarrow> 'c \<Rightarrow> bool"
    and near :: "'m \<Rightarrow> 'm \<Rightarrow> bool"
    and room :: "nat option"
  assumes remember_guards: "fits n room \<Longrightarrow> guards n m (remember m c)"
    and guards_step: "guards (Suc n) m c \<Longrightarrow> near m m' \<Longrightarrow> guards n m (remember m' c)"
    and guards_refuses: "guards n m c \<Longrightarrow> refuses c m"
begin

lemma guards_run: "guards (n + length ms) m c \<Longrightarrow> list_all (near m) ms \<Longrightarrow> guards n m (fold remember ms c)"
proof (induction ms arbitrary: c)
  case (Cons m' ms)
  then show ?case using guards_step [of "n + length ms" m c m'] by simp
qed simp

lemma replay_refused:
  assumes "fits (length ms) room" and "list_all (near m) ms"
  shows "refuses (fold remember ms (remember m c)) m"
  using guards_refuses [OF guards_run [of 0 ms m "remember m c"]] remember_guards [OF assms(1)] assms(2) by simp

end

end
