(* ===== verification/Wildcards.thy ===== *)
theory Wildcards
  imports Targetcore_Prelude
begin

text \<open>
  The three wildcard matchers of the library: \<open>P2Paddr::IsMapped\<close> (P2Peer.cpp),
  \<open>P2PeerMsg::Map_MatchName\<close> and the free function \<open>Wildcard\<close> (P2PeerMsg.cpp).  All three are the
  same backtracking loop with the same \<open>Top:\<close>/\<open>starCheck:\<close> labels; they differ in the pattern
  elements they know: the first two also have \<open>#\<close> (a run of digits).  The loop is modelled once,
  over the element step, and each matcher instantiates it.
\<close>

subsection \<open>One pattern element\<close>

text \<open>
  One turn of the \<open>switch (*p)\<close>: the pattern character \<open>pc\<close> (never \<open>*\<close> here) against the subject
  \<open>c # s\<close>; the result is what is left of the subject, or \<open>None\<close> for \<open>goto starCheck\<close>.
\<close>

definition hash_elem :: "wchar \<Rightarrow> wchar \<Rightarrow> wstr \<Rightarrow> wstr option" where
  "hash_elem pc c s =
     (if pc = chQuery then (if c = chDot then None else Some s)
      else if pc = chHash then (if \<not> isdigit c then None else Some (dropWhile isdigit s))
      else (if c \<noteq> pc then None else Some s))"

definition plain_elem :: "wchar \<Rightarrow> wchar \<Rightarrow> wstr \<Rightarrow> wstr option" where
  "plain_elem pc c s =
     (if pc = chQuery then (if c = chDot then None else Some s)
      else (if c \<noteq> pc then None else Some s))"

subsection \<open>The loop\<close>

text \<open>
  The \<open>for ( s = pszHub, p = pszMapWildcard; *s; ++s, ++p )\<close> loop, until it returns, meets a \<open>*\<close>
  that is not the last pattern character (\<open>Again s q\<close>: the subject position and the pattern behind
  the star), or fails (\<open>Mismatch\<close>, i.e. \<open>goto starCheck\<close>).  A subject that outlives the pattern is a
  mismatch: the pattern's terminating NUL equals no subject character.
\<close>

datatype attempt = Return bool | Again wstr wstr | Mismatch

fun match_from :: "(wchar \<Rightarrow> wchar \<Rightarrow> wstr \<Rightarrow> wstr option) \<Rightarrow> wstr \<Rightarrow> wstr \<Rightarrow> attempt" where
  "match_from el [] p = Return (p = [] \<or> p = [chStar])"
| "match_from el (c # s) [] = Mismatch"
| "match_from el (c # s) (pc # q) =
     (if pc = chStar then (if q = [] then Return True else Again (c # s) q)
      else (case el pc c s of None \<Rightarrow> Mismatch | Some s' \<Rightarrow> match_from el s' q))"

lemma match_from_Again_shorter: "match_from el s p = Again s' q \<Longrightarrow> length q < length p"
  by (induction el s p rule: match_from.induct) (auto split: if_splits option.splits)

lemma match_from_Mismatch_nonempty: "match_from el s p = Mismatch \<Longrightarrow> s \<noteq> []"
  by (cases s) auto

text \<open>
  The \<open>goto Top\<close> loop around it: a star restarts behind itself and arms \<open>star\<close>; a mismatch after a
  star moves the subject start on by one character (\<open>pszHub++\<close>), without one it fails.
\<close>

function wild_loop ::
  "(wchar \<Rightarrow> wchar \<Rightarrow> wstr \<Rightarrow> wstr option) \<Rightarrow> bool \<Rightarrow> wstr \<Rightarrow> wstr \<Rightarrow> bool" where
  "wild_loop el star hub pat =
     (case match_from el hub pat of
        Return b \<Rightarrow> b
      | Again s q \<Rightarrow> wild_loop el True s q
      | Mismatch \<Rightarrow> (if star then wild_loop el True (tl hub) pat else False))"
  by pat_completeness auto
termination
proof (relation "measures [\<lambda>(el, star, hub, pat). length pat, \<lambda>(el, star, hub, pat). length hub]")
  show "wf (measures [\<lambda>(el :: wchar \<Rightarrow> wchar \<Rightarrow> wstr \<Rightarrow> wstr option, star :: bool, hub :: wstr, pat :: wstr). length pat,
      \<lambda>(el, star, hub, pat). length hub])"
    by simp
qed (auto dest: match_from_Again_shorter match_from_Mismatch_nonempty)

declare wild_loop.simps [simp del]

text \<open>The three matchers, pattern first.\<close>

definition IsMapped :: "wstr \<Rightarrow> wstr \<Rightarrow> bool" where
  "IsMapped this strP2Paddr = wild_loop hash_elem False strP2Paddr this"

definition Map_MatchName :: "wstr \<Rightarrow> wstr \<Rightarrow> bool" where
  "Map_MatchName name pszMsgWildcard = wild_loop hash_elem False name pszMsgWildcard"

definition Wildcard :: "wstr \<Rightarrow> wstr \<Rightarrow> bool" where
  "Wildcard strMsgWildcard strMsgName = wild_loop plain_elem False strMsgName strMsgWildcard"

subsection \<open>The reference semantics of a pattern\<close>

text \<open>
  What a pattern denotes, with no loop state: a star stands for any part of the subject, every
  other element consumes what its step consumes, and nothing may be left over.
\<close>

fun glob :: "(wchar \<Rightarrow> wchar \<Rightarrow> wstr \<Rightarrow> wstr option) \<Rightarrow> wstr \<Rightarrow> wstr \<Rightarrow> bool" where
  "glob el [] s \<longleftrightarrow> s = []"
| "glob el (pc # q) s \<longleftrightarrow>
     (if pc = chStar then list_ex (glob el q) (suffixes s)
      else (case s of [] \<Rightarrow> False
            | c # s' \<Rightarrow> (case el pc c s' of None \<Rightarrow> False | Some t \<Rightarrow> glob el q t)))"

lemma glob_star: "glob el (chStar # q) s \<longleftrightarrow> (\<exists>t. suffix t s \<and> glob el q t)"
  by (auto simp: list_ex_iff)

lemma glob_nil: "glob el p [] \<longleftrightarrow> set p \<subseteq> {chStar}"
  by (induction p) auto

lemma glob_cons: "pc \<noteq> chStar \<Longrightarrow>
  glob el (pc # q) s \<longleftrightarrow> (\<exists>c s' t. s = c # s' \<and> el pc c s' = Some t \<and> glob el q t)"
  by (auto split: list.splits option.splits)

declare glob.simps(2) [simp del]

lemma all_stars:
  assumes "set p \<subseteq> {chStar}" and "\<not> suffix [chStar, chStar] p"
  shows "p = [] \<or> p = [chStar]"
proof (cases p rule: rev_cases)
  case (snoc r x)
  show ?thesis
  proof (cases r rule: rev_cases)
    case (snoc r' y)
    with \<open>p = r @ [x]\<close> assms(1) have "p = r' @ [chStar, chStar]" by auto
    with assms(2) show ?thesis by (simp add: suffix_def)
  qed (use \<open>p = r @ [x]\<close> assms(1) in auto)
qed simp

subsection \<open>The contract of an element step, and what it gives the loop\<close>

text \<open>
  All the loop needs of an element: it consumes from the front, and a later start never leaves
  more behind than an earlier one.  The second law is what makes giving up the earlier positions
  for good (as \<open>pszHub++\<close> does) lose no match, also for the greedy digit run.
\<close>

locale star_elem =
  fixes el :: "wchar \<Rightarrow> wchar \<Rightarrow> wstr \<Rightarrow> wstr option"
  assumes el_suffix: "el pc c s = Some t \<Longrightarrow> suffix t s"
    and el_mono: "suffix (c # s) (d # u) \<Longrightarrow> el pc c s = Some t \<Longrightarrow> el pc d u = Some v \<Longrightarrow> suffix t v"
begin

lemma match_Mismatch: "match_from el hub p = Mismatch \<Longrightarrow> \<not> glob el p hub"
proof (induction el hub p rule: match_from.induct)
  case (3 el c s pc q)
  then show ?case by (auto simp: glob_cons split: if_splits option.splits)
qed simp_all

lemma match_Return:
  "match_from el hub p = Return b \<Longrightarrow> \<not> suffix [chStar, chStar] p \<Longrightarrow> suffix h hub \<Longrightarrow>
   (glob el p hub \<longleftrightarrow> b) \<and> (glob el p h \<longrightarrow> b)"
proof (induction p arbitrary: hub h)
  case Nil
  then show ?case by (cases hub) auto
next
  case (Cons pc q)
  show ?case
  proof (cases hub)
    case Nil
    with Cons.prems all_stars [of "pc # q"] show ?thesis by (auto simp: glob_nil)
  next
    case hub: (Cons c s)
    show ?thesis
    proof (cases "pc = chStar")
      case True
      with Cons.prems hub show ?thesis
        by (auto simp: glob_star intro: exI [of _ "[]"] split: if_splits)
    next
      case False
      with Cons.prems(1) hub obtain s' where s': "el pc c s = Some s'" "match_from el s' q = Return b"
        by (auto split: option.splits)
      have q: "\<not> suffix [chStar, chStar] q" using Cons.prems(2) by (auto simp: suffix_Cons)
      have "glob el (pc # q) h \<longrightarrow> b"
      proof
        assume "glob el (pc # q) h"
        with False obtain d u v where h: "h = d # u" "el pc d u = Some v" "glob el q v"
          by (auto simp: glob_cons)
        have "suffix v s'" using Cons.prems(3) h(1,2) hub s'(1) el_mono by metis
        with Cons.IH [OF s'(2) q] h(3) show b by blast
      qed
      moreover have "glob el (pc # q) hub \<longleftrightarrow> b"
        using Cons.IH [OF s'(2) q suffix_order.refl] s'(1) hub False by (simp add: glob_cons)
      ultimately show ?thesis by simp
    qed
  qed
qed

lemma match_Again:
  "match_from el hub p = Again s q \<Longrightarrow> suffix h hub \<Longrightarrow>
   suffix q p \<and> (glob el p h \<longrightarrow> glob el (chStar # q) s) \<and> (glob el (chStar # q) s \<longrightarrow> glob el p hub)"
proof (induction p arbitrary: hub h)
  case Nil
  then show ?case by (cases hub) auto
next
  case (Cons pc p)
  then obtain c r where hub: "hub = c # r" by (cases hub) auto
  show ?case
  proof (cases "pc = chStar")
    case True
    with Cons.prems(1) hub have "s = hub" and "q = p" by (auto split: if_splits)
    with True Cons.prems(2) show ?thesis
      by (auto simp: glob_star intro: suffix_order.trans suffix_ConsI)
  next
    case False
    with Cons.prems(1) hub obtain s' where s': "el pc c r = Some s'" "match_from el s' p = Again s q"
      by (auto split: option.splits)
    have "glob el (pc # p) h \<longrightarrow> glob el (chStar # q) s"
    proof
      assume "glob el (pc # p) h"
      with False obtain d u v where h: "h = d # u" "el pc d u = Some v" "glob el p v"
        by (auto simp: glob_cons)
      have "suffix v s'" using Cons.prems(2) h(1,2) hub s'(1) el_mono by metis
      with Cons.IH [OF s'(2)] h(3) show "glob el (chStar # q) s" by blast
    qed
    with Cons.IH [OF s'(2) suffix_order.refl] s'(1) hub False show ?thesis
      by (simp add: glob_cons suffix_Cons)
  qed
qed

lemma wild_loop_step:
  "\<not> suffix [chStar, chStar] pat \<Longrightarrow> el' = el \<Longrightarrow>
   wild_loop el' star hub pat \<longleftrightarrow> (if star then glob el (chStar # pat) hub else glob el pat hub)"
proof (induction el' star hub pat rule: wild_loop.induct)
  case (1 el' star hub pat)
  note el = \<open>el' = el\<close> and nostar = \<open>\<not> suffix [chStar, chStar] pat\<close>
  show ?case
  proof (cases "match_from el hub pat")
    case (Return b)
    have "glob el (chStar # pat) hub \<longleftrightarrow> b"
      using match_Return [OF Return nostar] by (auto simp: glob_star)
    moreover have "glob el pat hub \<longleftrightarrow> b"
      using match_Return [OF Return nostar suffix_order.refl] by simp
    ultimately show ?thesis by (simp add: el Return wild_loop.simps [of el star hub pat])
  next
    case (Again s q)
    note again = match_Again [OF Again]
    have "suffix q pat" using again by blast
    with nostar have "\<not> suffix [chStar, chStar] q" by (meson suffix_order.trans)
    with "1.IH"(1) Again el have "wild_loop el True s q \<longleftrightarrow> glob el (chStar # q) s" by simp
    moreover have "glob el (chStar # pat) hub \<longleftrightarrow> glob el (chStar # q) s"
      using again by (auto simp: glob_star [of el pat])
    moreover have "glob el pat hub \<longleftrightarrow> glob el (chStar # q) s"
      using again [OF suffix_order.refl] by blast
    ultimately show ?thesis by (simp add: el Again wild_loop.simps [of el star hub pat])
  next
    case Mismatch
    note no = match_Mismatch [OF Mismatch]
    obtain c r where hub: "hub = c # r"
      using match_from_Mismatch_nonempty [OF Mismatch] by (cases hub) auto
    have "glob el (chStar # pat) hub \<longleftrightarrow> glob el (chStar # pat) (tl hub)"
      using no hub by (auto simp: glob_star suffix_Cons)
    with "1.IH"(2) [OF _ _ nostar el] Mismatch el no show ?thesis
      by (simp add: wild_loop.simps [of el star hub pat])
  qed
qed

lemma wild_loop_correct:
  "\<not> suffix [chStar, chStar] pat \<Longrightarrow> wild_loop el False hub pat \<longleftrightarrow> glob el pat hub"
  using wild_loop_step [of pat el False hub] by simp

end

subsection \<open>Both element steps keep the contract\<close>

lemma dropWhile_mono_suffix:
  assumes "suffix (c # s) (d # u)" and "P c"
  shows "suffix (dropWhile P s) (dropWhile P u)"
proof (cases "c # s = d # u")
  case False
  with assms(1) have "suffix (c # s) u" by (auto simp: suffix_Cons)
  then obtain x where u: "u = x @ c # s" by (auto simp: suffix_def)
  show ?thesis
  proof (cases "\<forall>y \<in> set x. P y")
    case True
    with assms(2) show ?thesis by (simp add: u dropWhile_append2)
  next
    case False
    then have "dropWhile P u = dropWhile P x @ c # s"
      by (auto simp: u dropWhile_append1)
    then show ?thesis
      by (metis suffix_ConsI suffix_appendI suffix_dropWhile)
  qed
qed simp

interpretation hash: star_elem hash_elem
proof
  show "suffix t s" if "hash_elem pc c s = Some t" for pc c s t
    using that by (auto simp: hash_elem_def suffix_dropWhile split: if_splits)
next
  show "suffix t v" if "suffix (c # s) (d # u)" "hash_elem pc c s = Some t" "hash_elem pc d u = Some v"
    for pc c d s u t v
    using that dropWhile_mono_suffix [of c s d u isdigit]
    by (auto simp: hash_elem_def suffix_Cons dest: suffix_ConsD split: if_splits)
qed

interpretation plain: star_elem plain_elem
proof
  show "suffix t s" if "plain_elem pc c s = Some t" for pc c s t
    using that by (auto simp: plain_elem_def split: if_splits)
next
  show "suffix t v" if "suffix (c # s) (d # u)" "plain_elem pc c s = Some t" "plain_elem pc d u = Some v"
    for pc c d s u t v
    using that by (auto simp: plain_elem_def suffix_Cons dest: suffix_ConsD split: if_splits)
qed

subsection \<open>What the matchers decide\<close>

text \<open>
  C23: An address pattern that does not end in two stars maps exactly the addresses it denotes: the
  backtracking loop of \<open>P2Paddr::IsMapped\<close>, which gives up every earlier start position for good
  when it meets a further star or fails, misses no match and admits none.  The same holds of
  \<open>P2PeerMsg::Map_MatchName\<close> for message names.
\<close>

theorem IsMapped_denotes:
  assumes "\<not> suffix [chStar, chStar] pat"
  shows "IsMapped pat a = glob hash_elem pat a \<and> Map_MatchName a pat = glob hash_elem pat a"
  using hash.wild_loop_correct [OF assms] by (simp add: IsMapped_def Map_MatchName_def)

theorem IsMapped_denotes_witness:
  "\<not> suffix [chStar, chStar] (wide ''Root.*.Dev#'') \<and>
   glob hash_elem (wide ''Root.*.Dev#'') (wide ''Root.A.B.Dev12'') \<and>
   IsMapped (wide ''Root.*.Dev#'') (wide ''Root.A.B.Dev12'')"
proof -
  have h: "\<not> suffix [chStar, chStar] (wide ''Root.*.Dev#'')"
    by (simp add: wide_def suffix_def)
  have g: "glob hash_elem (wide ''Root.*.Dev#'') (wide ''Root.A.B.Dev12'')"
    by code_simp
  show ?thesis using h g IsMapped_denotes [OF h] by simp
qed

lemma match_from_no_hash:
  "chHash \<notin> set p \<Longrightarrow> match_from plain_elem s p = match_from hash_elem s p"
proof (induction p arbitrary: s)
  case Nil
  then show ?case by (cases s) auto
next
  case (Cons pc q)
  then show ?case by (cases s) (auto simp: plain_elem_def hash_elem_def)
qed

lemma wild_loop_no_hash:
  "el = plain_elem \<Longrightarrow> chHash \<notin> set p \<Longrightarrow> wild_loop el star s p = wild_loop hash_elem star s p"
proof (induction el star s p rule: wild_loop.induct)
  case (1 el star hub pat)
  note same = match_from_no_hash [OF "1.prems"(2), of hub]
  show ?case
  proof (cases "match_from hash_elem hub pat")
    case (Again s q)
    have "set q \<subseteq> set pat"
      using hash.match_Again [OF Again suffix_order.refl] by (auto dest: set_mono_suffix)
    with Again same "1.prems" "1.IH"(1) show ?thesis
      by (auto simp: wild_loop.simps [of plain_elem star hub pat] wild_loop.simps [of hash_elem star hub pat])
  next
    case (Return b)
    with same "1.prems" show ?thesis
      by (simp add: wild_loop.simps [of plain_elem star hub pat] wild_loop.simps [of hash_elem star hub pat])
  next
    case Mismatch
    with same "1.prems" "1.IH"(2) show ?thesis
      by (simp add: wild_loop.simps [of plain_elem star hub pat] wild_loop.simps [of hash_elem star hub pat])
  qed
qed

text \<open>
  On a pattern without \<open>#\<close> the free function \<open>Wildcard\<close> and \<open>P2PeerMsg::Map_MatchName\<close> decide
  the same, whatever stars the pattern has; \<open>#\<close> is the only element they read differently.
\<close>

theorem Wildcard_agrees_without_hash:
  assumes "chHash \<notin> set pat"
  shows "Wildcard pat name = Map_MatchName name pat"
  using wild_loop_no_hash [OF refl assms] by (simp add: Wildcard_def Map_MatchName_def)

theorem Wildcard_agrees_without_hash_witness:
  "chHash \<notin> set (wide ''P2Pmsg*Log?n'') \<and>
   Wildcard (wide ''P2Pmsg*Log?n'') (wide ''P2PmsgXXLogin'') = Map_MatchName (wide ''P2PmsgXXLogin'') (wide ''P2Pmsg*Log?n'')"
proof -
  have h: "chHash \<notin> set (wide ''P2Pmsg*Log?n'')" by (simp add: wide_def)
  show ?thesis using h Wildcard_agrees_without_hash [OF h] by blast
qed

lemma match_from_literal:
  "set p \<inter> {chStar, chQuery, chHash} = {} \<Longrightarrow> match_from hash_elem p (p @ r) = match_from hash_elem [] r"
  by (induction p) (auto simp: hash_elem_def)

lemma glob_literal_stars:
  "set p \<inter> {chStar, chQuery, chHash} = {} \<Longrightarrow> set r \<subseteq> {chStar} \<Longrightarrow> glob hash_elem (p @ r) p"
  by (induction p) (auto simp: glob_nil glob_cons hash_elem_def)

text \<open>
  The hypothesis of \<open>IsMapped_denotes\<close> is needed.  A literal address followed by two stars denotes that address
  (each star may stand for nothing), and one trailing star maps it, but the loop refuses it with
  two: when the subject is exhausted it skips a single remaining star and requires the end.
\<close>

theorem trailing_double_star_refused:
  assumes "set a \<inter> {chStar, chQuery, chHash} = {}"
  shows "glob hash_elem (a @ [chStar, chStar]) a \<and> IsMapped (a @ [chStar]) a
    \<and> \<not> IsMapped (a @ [chStar, chStar]) a"
  using glob_literal_stars [OF assms, of "[chStar, chStar]"] match_from_literal [OF assms]
  by (simp add: IsMapped_def wild_loop.simps [of hash_elem False])

theorem trailing_double_star_refused_witness:
  "set (wide ''Root.Hub'') \<inter> {chStar, chQuery, chHash} = {} \<and>
   \<not> IsMapped (wide ''Root.Hub'' @ [chStar, chStar]) (wide ''Root.Hub'')"
proof -
  have h: "set (wide ''Root.Hub'') \<inter> {chStar, chQuery, chHash} = {}" by (simp add: wide_def)
  show ?thesis using h trailing_double_star_refused [OF h] by blast
qed

end
