(* ===== verification/Address.thy ===== *)
theory Address
  imports Wildcards
begin

text \<open>
  \<open>P2Paddr\<close> (P2Peer.h, P2Peer.cpp): dotted virtual addresses \<open>[VNet:]Root.Hub...\<close>.  An address is
  the wide string \<open>m_strP2Paddr\<close>, its only state; the operations below are its methods, the address
  itself (\<open>this\<close>) first.  \<open>P2Paddr::IsMapped\<close> is in theory \<open>Wildcards\<close>.  The per-thread ring that
  holds the text of \<open>c_name\<close> and its kin is not modelled: the functions return the text.
\<close>

definition P2PaddrIsHopBoundary :: "wchar \<Rightarrow> bool" where
  "P2PaddrIsHopBoundary c \<longleftrightarrow> c = chDot \<or> c = chColon"

text \<open>\<open>P2Paddr ( hub, format, ... )\<close>, with the formatted connection name given.\<close>

definition P2Paddr_join :: "wstr \<Rightarrow> wstr \<Rightarrow> wstr" where
  "P2Paddr_join strP2PaddrHub szBuffer = strP2PaddrHub @ [chDot] @ szBuffer"

subsection \<open>Routing predicates\<close>

definition IsChild :: "wstr \<Rightarrow> wstr \<Rightarrow> bool" where
  "IsChild this strP2PaddrChild =
     (let lenP2PaddrThis = length this
      in if lenP2PaddrThis \<ge> length strP2PaddrChild then False
         else if take lenP2PaddrThis strP2PaddrChild \<noteq> this then False
         else P2PaddrIsHopBoundary (strP2PaddrChild ! lenP2PaddrThis))"

text \<open>The character at the index of the length is the terminating NUL.\<close>

definition IsRable :: "wstr \<Rightarrow> wstr \<Rightarrow> bool" where
  "IsRable this strP2PaddrDestin =
     (let lenP2PaddrThis = length this
      in if lenP2PaddrThis > length strP2PaddrDestin then False
         else if take lenP2PaddrThis strP2PaddrDestin \<noteq> this then False
         else length strP2PaddrDestin = lenP2PaddrThis
           \<or> P2PaddrIsHopBoundary (strP2PaddrDestin ! lenP2PaddrThis))"

subsection \<open>Hop names\<close>

text \<open>The loops build the name character by character and clear it at a dot.\<close>

definition c_name :: "wstr \<Rightarrow> wstr" where
  "c_name this = foldl (\<lambda>strHubname c. if c = chDot then [] else strHubname @ [c]) [] this"

fun c_hopname_loop :: "wstr \<Rightarrow> int \<Rightarrow> wstr \<Rightarrow> wstr" where
  "c_hopname_loop [] nLevel strHubname = (if nLevel > 0 then [] else strHubname)"
| "c_hopname_loop (c # cs) nLevel strHubname =
     (if c \<noteq> chDot then c_hopname_loop cs nLevel (strHubname @ [c])
      else if nLevel \<le> 0 then strHubname
      else c_hopname_loop cs (nLevel - 1) [])"

definition c_hopname :: "wstr \<Rightarrow> int \<Rightarrow> wstr" where
  "c_hopname this nLevel = c_hopname_loop this nLevel []"

subsection \<open>The VNet qualifier\<close>

fun P2PaddrVNetColon_from :: "nat \<Rightarrow> wstr \<Rightarrow> int" where
  "P2PaddrVNetColon_from i [] = -1"
| "P2PaddrVNetColon_from i (c # cs) = (if c = chColon then int i else P2PaddrVNetColon_from (Suc i) cs)"

definition P2PaddrVNetColon :: "wstr \<Rightarrow> int" where
  "P2PaddrVNetColon str = P2PaddrVNetColon_from 0 str"

definition GetVNet :: "wstr \<Rightarrow> wstr" where
  "GetVNet this = take (nat (P2PaddrVNetColon this)) this"

definition GetVNetAddr :: "wstr \<Rightarrow> wstr" where
  "GetVNetAddr this = drop (nat (P2PaddrVNetColon this + 1)) this"

definition HasVNet :: "wstr \<Rightarrow> bool" where
  "HasVNet this \<longleftrightarrow> P2PaddrVNetColon this \<ge> 0"

subsection \<open>The address hierarchy\<close>

lemma take_eq_conv: "take (length a) d = a \<longleftrightarrow> (\<exists>r. d = a @ r)"
  by (metis append_eq_conv_conj append_take_drop_id)

lemma IsChild_iff: "IsChild a d \<longleftrightarrow> (\<exists>b r. d = a @ b # r \<and> P2PaddrIsHopBoundary b)"
proof
  assume "IsChild a d"
  then obtain r where r: "d = a @ r" "length a < length d" "P2PaddrIsHopBoundary (d ! length a)"
    by (auto simp: IsChild_def Let_def take_eq_conv split: if_splits)
  then show "\<exists>b r. d = a @ b # r \<and> P2PaddrIsHopBoundary b"
    by (cases r) auto
next
  assume "\<exists>b r. d = a @ b # r \<and> P2PaddrIsHopBoundary b"
  then show "IsChild a d" by (auto simp: IsChild_def)
qed

lemma IsRable_iff: "IsRable a d \<longleftrightarrow> d = a \<or> IsChild a d"
proof (cases "\<exists>r. d = a @ r")
  case True
  then obtain r where "d = a @ r" by blast
  then show ?thesis by (cases r) (auto simp: IsRable_def IsChild_def)
next
  case False
  then have "take (length a) d \<noteq> a" and "d \<noteq> a" by (auto simp: take_eq_conv)
  then show ?thesis by (simp add: IsRable_def IsChild_def)
qed

lemma IsChild_irrefl [simp]: "\<not> IsChild a a"
  by (simp add: IsChild_def)

lemma IsRable_refl [simp]: "IsRable a a"
  by (simp add: IsRable_iff)

lemma IsChild_shorter: "IsChild a d \<Longrightarrow> length a < length d"
  by (auto simp: IsChild_iff)

lemma IsChild_trans: "IsChild a b \<Longrightarrow> IsChild b c \<Longrightarrow> IsChild a c"
  by (auto simp: IsChild_iff)

lemma IsRable_trans: "IsRable a b \<Longrightarrow> IsRable b c \<Longrightarrow> IsRable a c"
  by (auto simp: IsRable_iff intro: IsChild_trans)

lemma IsRable_antisym: "IsRable a b \<Longrightarrow> IsRable b a \<Longrightarrow> a = b"
  using IsChild_shorter [of a b] IsChild_shorter [of b a] by (auto simp: IsRable_iff)

text \<open>Two addresses a destination is below are one below the other.\<close>

lemma IsChild_chain:
  assumes "IsChild a d" and "IsChild b d"
  shows "IsRable a b \<or> IsRable b a"
proof -
  obtain x r where a: "d = a @ x # r" "P2PaddrIsHopBoundary x"
    using assms(1) by (auto simp: IsChild_iff)
  obtain y u where b: "d = b @ y # u" "P2PaddrIsHopBoundary y"
    using assms(2) by (auto simp: IsChild_iff)
  consider us where "a @ us = b" "x # r = us @ y # u" | us where "a = b @ us" "us @ x # r = y # u"
    using a(1) b(1) by (auto simp: append_eq_append_conv2)
  then show ?thesis
  proof cases
    case 1
    with a(2) show ?thesis by (cases us) (auto simp: IsRable_iff IsChild_iff)
  next
    case 2
    with b(2) show ?thesis by (cases us) (auto simp: IsRable_iff IsChild_iff)
  qed
qed

lemma IsRable_chain: "IsRable a d \<Longrightarrow> IsRable b d \<Longrightarrow> IsRable a b \<or> IsRable b a"
  using IsChild_chain by (auto simp: IsRable_iff)

subsection \<open>Hops\<close>

text \<open>The dot-separated hops of an address.\<close>

fun hops :: "wstr \<Rightarrow> wstr list" where
  "hops [] = [[]]"
| "hops (c # cs) = (if c = chDot then [] # hops cs else (c # hd (hops cs)) # tl (hops cs))"

lemma hops_nonempty [simp]: "hops s \<noteq> []"
  by (induction s) auto

lemma hops_Cons: "c \<noteq> chDot \<Longrightarrow> \<exists>h t. hops s = h # t \<and> hops (c # s) = (c # h) # t"
  using hops_nonempty [of s] by (cases "hops s") auto

lemma hops_join: "hd (hops s) @ concat (map (\<lambda>h. chDot # h) (tl (hops s))) = s"
proof (induction s)
  case (Cons c s)
  then show ?case using hops_nonempty [of s] by (cases "hops s") auto
qed simp

lemma hops_no_dot: "h \<in> set (hops s) \<Longrightarrow> chDot \<notin> set h"
proof (induction s arbitrary: h)
  case (Cons c s)
  then show ?case using hops_nonempty [of s] by (cases "hops s") (auto split: if_splits)
qed simp

lemma last_hops: "foldl (\<lambda>n c. if c = chDot then [] else n @ [c]) acc s = (if tl (hops s) = [] then acc @ last (hops s) else last (hops s))"
proof (induction s arbitrary: acc)
  case (Cons c s)
  then show ?case
    using hops_nonempty [of s] by (cases "hops s") auto
qed simp

lemma c_hopname_loop_hops:
  "c_hopname_loop s n acc =
     (if n \<le> 0 then acc @ hd (hops s)
      else if nat n < length (hops s) then hops s ! nat n else [])"
proof (induction s n acc rule: c_hopname_loop.induct)
  case (2 c cs n acc)
  show ?case
  proof (cases "c = chDot")
    case True
    show ?thesis
    proof (cases "n \<le> 0")
      case False
      with True have "c_hopname_loop (c # cs) n acc = c_hopname_loop cs (n - 1) []" by simp
      moreover have "nat n = Suc (nat (n - 1))" using False by simp
      ultimately show ?thesis
        using "2.IH"(2) False True hops_nonempty [of cs]
        by (cases "hops cs") (auto simp: hd_conv_nth)
    qed (use True in simp)
  next
    case False
    then show ?thesis
      using "2.IH"(1) hops_nonempty [of cs] by (cases "hops cs") (auto simp: nth_Cons split: nat.splits)
  qed
qed auto

text \<open>
  Cut at its dots, an address is a list of dot-free hops that joins back to it; \<open>c_name\<close> is the
  last hop, and \<open>c_hopname n\<close> is the \<open>n\<close>-th hop: the first one for every level up to 0, the empty
  name for a level the address does not have.
\<close>

theorem hop_names:
  "hd (hops a) @ concat (map (\<lambda>h. chDot # h) (tl (hops a))) = a \<and> chDot \<notin> \<Union> (set ` set (hops a))
   \<and> c_name a = last (hops a)
   \<and> c_hopname a n = (if n \<le> 0 then hd (hops a)
                      else if nat n < length (hops a) then hops a ! nat n else [])"
  using hops_join [of a] hops_no_dot [of _ a]
  by (auto simp: c_name_def last_hops c_hopname_def c_hopname_loop_hops)

subsection \<open>Routing below a hub, and into a mounted network\<close>

text \<open>
  An address cut before every dot and every colon: the first hop, then each later one behind its separator.
\<close>

fun hop_path :: "wstr \<Rightarrow> wstr list" where
  "hop_path [] = [[]]"
| "hop_path (c # cs) = (if c \<in> {chDot, chColon} then [] # (c # hd (hop_path cs)) # tl (hop_path cs)
     else (c # hd (hop_path cs)) # tl (hop_path cs))"

lemma hop_path_nonempty [simp]: "hop_path s \<noteq> []"
  by (induction s) auto

lemma hop_path_join: "concat (hop_path s) = s"
proof (induction s)
  case (Cons c s)
  then show ?case using hop_path_nonempty [of s] by (cases "hop_path s") auto
qed simp

lemma prefix_hop_path: "prefix (hop_path a) (hop_path d) \<longleftrightarrow> (\<exists>r. d = a @ r \<and> (r = [] \<or> hd r \<in> {chDot, chColon}))"
proof (induction a arbitrary: d)
  case Nil
  then show ?case by (cases d) auto
next
  case (Cons c a)
  show ?case
  proof (cases d)
    case Nil
    then show ?thesis using hop_path_nonempty [of a] by (cases "hop_path a") auto
  next
    case (Cons x e)
    obtain h t where h: "hop_path a = h # t" using hop_path_nonempty [of a] by (cases "hop_path a") auto
    obtain k u where k: "hop_path e = k # u" using hop_path_nonempty [of e] by (cases "hop_path e") auto
    have "prefix (hop_path (c # a)) (hop_path (x # e)) \<longleftrightarrow> c = x \<and> prefix (hop_path a) (hop_path e)"
      by (auto simp: h k)
    then show ?thesis using Cons.IH [of e] Cons by auto
  qed
qed

lemma IsRable_hop_path: "IsRable a d \<longleftrightarrow> prefix (hop_path a) (hop_path d)"
proof -
  have "IsRable a d \<longleftrightarrow> (\<exists>r. d = a @ r \<and> (r = [] \<or> hd r \<in> {chDot, chColon}))"
    unfolding IsRable_iff IsChild_iff P2PaddrIsHopBoundary_def
    by (metis append.right_neutral insert_iff list.exhaust_sel list.sel(1) list.discI singletonD)
  then show ?thesis by (simp only: prefix_hop_path)
qed

lemma IsChild_hop_path: "IsChild a d \<longleftrightarrow> strict_prefix (hop_path a) (hop_path d)"
proof -
  have "hop_path a = hop_path d \<Longrightarrow> a = d" by (metis hop_path_join)
  then show ?thesis using IsRable_hop_path [of a d] IsRable_iff [of a d] by (auto simp: strict_prefix_def)
qed

text \<open>
  C39: The addresses form a tree by their hops.  Cut before its dots and colons, an address is the path of its
  hops, and no two addresses have the same path.  \<open>IsRable\<close> says that the path of the one is a prefix of the
  path of the other, whole hops being compared, and \<open>IsChild\<close> that it is a proper prefix: \<open>IsRable\<close> is reflexive,
  transitive and antisymmetric, \<open>IsChild\<close> is its strict part and holds of no address and itself, and two hubs a
  destination is routable through lie on one path.
\<close>

theorem routable_tree:
  "concat (hop_path a) = a
   \<and> (IsRable a b \<longleftrightarrow> prefix (hop_path a) (hop_path b))
   \<and> (IsChild a b \<longleftrightarrow> strict_prefix (hop_path a) (hop_path b))
   \<and> IsRable a a \<and> \<not> IsChild a a
   \<and> (IsRable a b \<longrightarrow> IsRable b c \<longrightarrow> IsRable a c)
   \<and> (IsRable a b \<longrightarrow> IsRable b a \<longrightarrow> a = b)
   \<and> (IsChild a b \<longleftrightarrow> IsRable a b \<and> a \<noteq> b)
   \<and> (IsRable a d \<longrightarrow> IsRable b d \<longrightarrow> IsRable a b \<or> IsRable b a)"
proof (intro conjI impI)
  show "concat (hop_path a) = a" by (rule hop_path_join)
  show "IsRable a b \<longleftrightarrow> prefix (hop_path a) (hop_path b)" by (rule IsRable_hop_path)
  show "IsChild a b \<longleftrightarrow> strict_prefix (hop_path a) (hop_path b)" by (rule IsChild_hop_path)
  show "IsRable a a" "\<not> IsChild a a" by simp_all
  show "IsRable a c" if "IsRable a b" "IsRable b c" using that by (rule IsRable_trans)
  show "a = b" if "IsRable a b" "IsRable b a" using that by (rule IsRable_antisym)
  show "IsChild a b \<longleftrightarrow> IsRable a b \<and> a \<noteq> b" by (auto simp: IsRable_iff)
  show "IsRable a b \<or> IsRable b a" if "IsRable a d" "IsRable b d" using that by (rule IsRable_chain)
qed

theorem routable_tree_witness:
  "IsRable (wide ''CEX'') (wide ''CEX.SDrvs'') \<and> IsRable (wide ''CEX.SDrvs'') (wide ''CEX.SDrvs.AAD'')
   \<and> IsRable (wide ''CEX'') (wide ''CEX.SDrvs.AAD'') \<and> IsChild (wide ''CEX'') (wide ''CEX.SDrvs'')
   \<and> \<not> IsRable (wide ''CEX.SDrvs'') (wide ''CEX.SDrvs2'') \<and> IsChild (wide ''CEX'') (wide ''CEX:Root'')"
proof -
  have 1: "IsRable (wide ''CEX'') (wide ''CEX.SDrvs'')" by code_simp
  have 2: "IsRable (wide ''CEX.SDrvs'') (wide ''CEX.SDrvs.AAD'')" by code_simp
  have 3: "wide ''CEX'' \<noteq> wide ''CEX.SDrvs''" by code_simp
  have 4: "\<not> prefix (hop_path (wide ''CEX.SDrvs'')) (hop_path (wide ''CEX.SDrvs2''))"
    and 5: "strict_prefix (hop_path (wide ''CEX'')) (hop_path (wide ''CEX:Root''))" by (simp_all add: wide_def)
  show ?thesis using 1 2 3 4 5 routable_tree [of "wide ''CEX''" "wide ''CEX.SDrvs''" "wide ''CEX.SDrvs.AAD''"]
      routable_tree [of "wide ''CEX.SDrvs''" "wide ''CEX.SDrvs2''"] routable_tree [of "wide ''CEX''" "wide ''CEX:Root''"] by blast
qed

lemma VNetColon_from:
  "P2PaddrVNetColon_from i s = (if chColon \<in> set s then int (i + length (takeWhile (\<lambda>c. c \<noteq> chColon) s)) else -1)"
  by (induction s arbitrary: i) auto

lemma GetVNet_takeWhile: "HasVNet s \<Longrightarrow> GetVNet s = takeWhile (\<lambda>c. c \<noteq> chColon) s"
  by (auto simp: HasVNet_def GetVNet_def P2PaddrVNetColon_def VNetColon_from takeWhile_eq_take [symmetric]
      split: if_splits)

lemma HasVNet_iff: "HasVNet s \<longleftrightarrow> chColon \<in> set s"
  by (simp add: HasVNet_def P2PaddrVNetColon_def VNetColon_from)

lemma VNet_split:
  assumes "HasVNet s"
  shows "s = GetVNet s @ chColon # GetVNetAddr s"
proof -
  let ?p = "\<lambda>c. c \<noteq> chColon"
  let ?n = "length (takeWhile ?p s)"
  have mem: "chColon \<in> set s" using assms by (simp add: HasVNet_iff)
  then have "dropWhile ?p s \<noteq> []" by (auto simp: dropWhile_eq_Nil_conv)
  then obtain x r where r: "dropWhile ?p s = x # r" by (cases "dropWhile ?p s") auto
  then have x: "x = chColon" using hd_dropWhile [of ?p s] by simp
  have "nat (P2PaddrVNetColon s + 1) = Suc ?n"
    using mem by (simp add: P2PaddrVNetColon_def VNetColon_from nat_add_distrib)
  then have "GetVNetAddr s = drop 1 (drop ?n s)"
    by (simp add: GetVNetAddr_def)
  also have "\<dots> = r" using r by (simp add: dropWhile_eq_drop [symmetric])
  finally show ?thesis
    using r x GetVNet_takeWhile [OF assms] takeWhile_dropWhile_id [of ?p s] by simp
qed

text \<open>
  An address with a VNet qualifier is its VNet, a colon and the address inside it; the VNet has
  no colon of its own (the split is at the first one), the address is below its VNet in the routing
  tree, and qualifying any address with a colon-free hub and reading it back returns both parts.
  An address without a qualifier has an empty VNet and is its own inner address.
\<close>

theorem VNet_qualifier:
  "(HasVNet s \<longrightarrow> s = GetVNet s @ chColon # GetVNetAddr s \<and> chColon \<notin> set (GetVNet s) \<and> IsChild (GetVNet s) s)
   \<and> (\<not> HasVNet s \<longrightarrow> GetVNet s = [] \<and> GetVNetAddr s = s)
   \<and> (chColon \<notin> set v \<longrightarrow> HasVNet (v @ chColon # a) \<and> GetVNet (v @ chColon # a) = v \<and> GetVNetAddr (v @ chColon # a) = a)"
proof (intro conjI impI)
  assume h: "HasVNet s"
  show "s = GetVNet s @ chColon # GetVNetAddr s" using VNet_split [OF h] .
  then show "IsChild (GetVNet s) s" by (auto simp: IsChild_iff P2PaddrIsHopBoundary_def)
  show "chColon \<notin> set (GetVNet s)"
    using GetVNet_takeWhile [OF h] by (auto dest: set_takeWhileD)
next
  assume "\<not> HasVNet s"
  then have "P2PaddrVNetColon s = -1" by (auto simp: HasVNet_iff P2PaddrVNetColon_def VNetColon_from)
  then show "GetVNet s = []" and "GetVNetAddr s = s" by (simp_all add: GetVNet_def GetVNetAddr_def)
next
  assume v: "chColon \<notin> set v"
  show h: "HasVNet (v @ chColon # a)" by (simp add: HasVNet_iff)
  have "takeWhile (\<lambda>c. c \<noteq> chColon) (v @ chColon # a) = v"
    using v by (induction v) auto
  then show g: "GetVNet (v @ chColon # a) = v" using GetVNet_takeWhile [OF h] by simp
  show "GetVNetAddr (v @ chColon # a) = a" using VNet_split [OF h] g by simp
qed

theorem VNet_qualifier_witness:
  "HasVNet (wide ''CEX:Root.Svc'') \<and> GetVNet (wide ''CEX:Root.Svc'') = wide ''CEX''
   \<and> GetVNetAddr (wide ''CEX:Root.Svc'') = wide ''Root.Svc'' \<and> IsChild (wide ''CEX'') (wide ''CEX:Root.Svc'')"
proof -
  have v: "chColon \<notin> set (wide ''CEX'')" by (simp add: wide_def)
  have e: "wide ''CEX:Root.Svc'' = wide ''CEX'' @ chColon # wide ''Root.Svc''" by (simp add: wide_def)
  show ?thesis
    using v VNet_qualifier [of "wide ''CEX:Root.Svc''" "wide ''CEX''" "wide ''Root.Svc''"] unfolding e by metis
qed

subsection \<open>Assignment\<close>

text \<open>
  The methods that change an address, over a store of the strings of all addresses: \<open>Empty\<close>, and the
  assignment from another address, which empties its own string before it reads the other one.
\<close>

definition P2Paddr_Empty :: "('l \<Rightarrow> wstr) \<Rightarrow> 'l \<Rightarrow> 'l \<Rightarrow> wstr" where
  "P2Paddr_Empty st this = st(this := [])"

definition P2Paddr_assign :: "('l \<Rightarrow> wstr) \<Rightarrow> 'l \<Rightarrow> 'l \<Rightarrow> 'l \<Rightarrow> wstr" where
  "P2Paddr_assign st this rhs = (let st1 = P2Paddr_Empty st this in st1(this := st1 rhs))"

definition P2Paddr_assign_text :: "('l \<Rightarrow> wstr) \<Rightarrow> 'l \<Rightarrow> wstr \<Rightarrow> 'l \<Rightarrow> wstr" where
  "P2Paddr_assign_text st this strP2Paddr = (P2Paddr_Empty st this)(this := strP2Paddr)"

text \<open>
  Assigning one address to another copies it and leaves every other address as it was - except
  for an address assigned to itself, which is erased.
\<close>

theorem assign_copies_unless_self:
  "P2Paddr_assign st a b = st(a := (if a = b then [] else st b))"
  by (auto simp: P2Paddr_assign_def P2Paddr_Empty_def Let_def)

end
