(* ===== verification/MsgQue.thy ===== *)
theory MsgQue
  imports Targetcore_Prelude "HOL-Library.Multiset"
begin

text \<open>
  \<open>P2PeerMsgQue\<close> (P2PeerMsgQue.h, P2PeerMsgQue.cpp): the priority queue of messages between
  hubs and pumps.  A queue is its list of messages, head first, whether it was given a notification
  event, and whether that event is signalled.  \<open>prio\<close> is \<open>P2PeerMsg::Priority\<close>; a smaller number is a
  more urgent message.  Each operation runs under the queue's critical section, so an interleaving
  of callers is a sequence of the operations below.
\<close>

record 'm msg_que =
  m_hNotnEvent :: bool
  m_bSignalled :: bool
  m_oCListP2PeerMsg :: "'m list"

definition que_new :: "bool \<Rightarrow> 'm msg_que" where
  "que_new hNotnEvent = \<lparr>m_hNotnEvent = hNotnEvent, m_bSignalled = False, m_oCListP2PeerMsg = []\<rparr>"

definition que_notify :: "'m msg_que \<Rightarrow> 'm msg_que" where
  "que_notify q = (if m_hNotnEvent q then q\<lparr>m_bSignalled := True\<rparr> else q)"

text \<open>
  The scan of \<open>Append\<close>: from the tail (first argument, tail first), past every entry of a greater
  priority number; behind the first other entry, or at the head, the message goes in.
\<close>

fun append_scan :: "('m \<Rightarrow> nat) \<Rightarrow> 'm list \<Rightarrow> 'm \<Rightarrow> 'm list \<Rightarrow> 'm list" where
  "append_scan prio [] pMsg passed = pMsg # passed"
| "append_scan prio (x # before) pMsg passed =
     (if prio x > prio pMsg then append_scan prio before pMsg (x # passed)
      else rev before @ x # pMsg # passed)"

definition Append :: "('m \<Rightarrow> nat) \<Rightarrow> 'm msg_que \<Rightarrow> 'm \<Rightarrow> 'm msg_que" where
  "Append prio q pMsg =
     que_notify (q\<lparr>m_oCListP2PeerMsg :=
       (if length (m_oCListP2PeerMsg q) > 1
        then append_scan prio (rev (m_oCListP2PeerMsg q)) pMsg []
        else m_oCListP2PeerMsg q @ [pMsg])\<rparr>)"

definition Preppend :: "'m msg_que \<Rightarrow> 'm option \<Rightarrow> 'm msg_que" where
  "Preppend q pMsg =
     que_notify (case pMsg of None \<Rightarrow> q
                 | Some m \<Rightarrow> q\<lparr>m_oCListP2PeerMsg := m # m_oCListP2PeerMsg q\<rparr>)"

text \<open>The overload that queues a copy and reports the count.\<close>

definition Append_copy :: "('m \<Rightarrow> nat) \<Rightarrow> 'm msg_que \<Rightarrow> 'm \<Rightarrow> 'm msg_que \<times> nat" where
  "Append_copy prio q oMsg = (let q' = Append prio q oMsg in (q', length (m_oCListP2PeerMsg q')))"

definition Remove :: "'m msg_que \<Rightarrow> 'm option \<times> 'm msg_que" where
  "Remove q = (case m_oCListP2PeerMsg q of [] \<Rightarrow> (None, q)
               | m # ms \<Rightarrow> (Some m, q\<lparr>m_oCListP2PeerMsg := ms\<rparr>))"

definition Flush :: "'m msg_que \<Rightarrow> 'm msg_que" where
  "Flush q = q\<lparr>m_oCListP2PeerMsg := []\<rparr>"

definition que_GetCount :: "'m msg_que \<Rightarrow> nat" where
  "que_GetCount q = length (m_oCListP2PeerMsg q)"

definition que_IsEmpty :: "'m msg_que \<Rightarrow> bool" where
  "que_IsEmpty q = (m_oCListP2PeerMsg q = [])"

lemma content_notify [simp]: "m_oCListP2PeerMsg (que_notify q) = m_oCListP2PeerMsg q"
  by (simp add: que_notify_def)

subsection \<open>The scan is a stable insertion\<close>

lemma append_scan_eq:
  "append_scan prio before m passed =
     rev (dropWhile (\<lambda>x. prio x > prio m) before) @ m # rev (takeWhile (\<lambda>x. prio x > prio m) before) @ passed"
  by (induction prio before m passed rule: append_scan.induct) auto

definition ins_back :: "('m \<Rightarrow> nat) \<Rightarrow> 'm \<Rightarrow> 'm list \<Rightarrow> 'm list" where
  "ins_back prio m xs =
     rev (dropWhile (\<lambda>x. prio x > prio m) (rev xs)) @ m # rev (takeWhile (\<lambda>x. prio x > prio m) (rev xs))"

lemma content_Append:
  "m_oCListP2PeerMsg (Append prio q m) =
     (if length (m_oCListP2PeerMsg q) > 1 then ins_back prio m (m_oCListP2PeerMsg q)
      else m_oCListP2PeerMsg q @ [m])"
  by (simp add: Append_def append_scan_eq ins_back_def)

lemma last_rev_dropWhile:
  "rev (dropWhile P xs) = [] \<or> \<not> P (last (rev (dropWhile P xs)))"
  using hd_dropWhile [of P xs] by (cases "dropWhile P xs") (simp_all add: last_rev)

lemma ins_back_split:
  obtains xs1 xs2 where "xs = xs1 @ xs2" and "ins_back prio m xs = xs1 @ m # xs2"
    and "\<forall>x \<in> set xs2. prio x > prio m" and "xs1 = [] \<or> prio (last xs1) \<le> prio m"
proof -
  let ?P = "\<lambda>x. prio x > prio m"
  let ?xs1 = "rev (dropWhile ?P (rev xs))" and ?xs2 = "rev (takeWhile ?P (rev xs))"
  have 1: "xs = ?xs1 @ ?xs2"
    by (metis rev_append rev_rev_ident takeWhile_dropWhile_id)
  have 2: "\<forall>x \<in> set ?xs2. ?P x" by (auto dest: set_takeWhileD)
  have 3: "?xs1 = [] \<or> prio (last ?xs1) \<le> prio m"
    using last_rev_dropWhile [of ?P "rev xs"] by (simp only: not_less)
  show ?thesis by (rule that [OF 1 _ 2 3]) (simp only: ins_back_def)
qed

lemma mset_ins_back: "mset (ins_back prio m xs) = add_mset m (mset xs)"
  by (rule ins_back_split [of xs prio m]) auto

lemma filter_ins_back:
  "filter (\<lambda>x. prio x = p) (ins_back prio m xs) =
     filter (\<lambda>x. prio x = p) xs @ (if prio m = p then [m] else [])"
proof (rule ins_back_split [of xs prio m])
  fix xs1 xs2
  assume s: "xs = xs1 @ xs2" "ins_back prio m xs = xs1 @ m # xs2" "\<forall>x \<in> set xs2. prio x > prio m"
  have "prio m = p \<Longrightarrow> filter (\<lambda>x. prio x = p) xs2 = []"
    using s(3) by (auto simp: filter_empty_conv)
  with s(1,2) show ?thesis by simp
qed

lemma sorted_ins_back:
  assumes "sorted (map prio xs)"
  shows "sorted (map prio (ins_back prio m xs))"
proof (rule ins_back_split [of xs prio m])
  fix xs1 xs2
  assume s: "xs = xs1 @ xs2" "ins_back prio m xs = xs1 @ m # xs2" "\<forall>x \<in> set xs2. prio x > prio m"
    "xs1 = [] \<or> prio (last xs1) \<le> prio m"
  have "\<forall>x \<in> set xs1. prio x \<le> prio m"
  proof (cases xs1 rule: rev_cases)
    case (snoc ys y)
    with assms s(1,4) show ?thesis by (fastforce simp: sorted_append)
  qed simp
  with assms s show ?thesis by (fastforce simp: sorted_append)
qed

subsection \<open>The interface of a message queue\<close>

text \<open>
  What a pump relies on: a message put in is in the queue once, behind the messages of its class
  that are already there, and a removal takes the head.  A class is what two messages the queue
  must not reorder have in common.
\<close>

locale message_queue =
  fixes add :: "'q \<Rightarrow> 'm \<Rightarrow> 'q"
    and remove :: "'q \<Rightarrow> 'm option \<times> 'q"
    and content :: "'q \<Rightarrow> 'm list"
    and class_of :: "'m \<Rightarrow> nat"
  assumes add_mset: "mset (content (add q m)) = add_mset m (mset (content q))"
    and add_class: "filter (\<lambda>x. class_of x = k) (content (add q m)) =
          filter (\<lambda>x. class_of x = k) (content q) @ filter (\<lambda>x. class_of x = k) [m]"
    and remove_Nil: "content q = [] \<Longrightarrow> remove q = (None, q)"
    and remove_Cons: "content q = m # ms \<Longrightarrow> fst (remove q) = Some m \<and> content (snd (remove q)) = ms"
begin

text \<open>One call, \<open>Some m\<close> for putting \<open>m\<close> in and \<open>None\<close> for a removal, and what it hands out.\<close>

lemma call_conserves:
  "mset (case c of Some m \<Rightarrow> [] | None \<Rightarrow> (case fst (remove q) of None \<Rightarrow> [] | Some m \<Rightarrow> [m]))
     + mset (content (case c of Some m \<Rightarrow> add q m | None \<Rightarrow> snd (remove q)))
   = mset (content q) + mset (case c of Some m \<Rightarrow> [m] | None \<Rightarrow> [])"
proof (cases c)
  case None
  then show ?thesis
    using remove_Nil [of q] remove_Cons [of q] by (cases "content q") auto
qed (simp add: add_mset)

lemma call_keeps_class_order:
  "filter (\<lambda>x. class_of x = k)
     (case c of Some m \<Rightarrow> [] | None \<Rightarrow> (case fst (remove q) of None \<Rightarrow> [] | Some m \<Rightarrow> [m]))
     @ filter (\<lambda>x. class_of x = k) (content (case c of Some m \<Rightarrow> add q m | None \<Rightarrow> snd (remove q)))
   = filter (\<lambda>x. class_of x = k) (content q)
     @ filter (\<lambda>x. class_of x = k) (case c of Some m \<Rightarrow> [m] | None \<Rightarrow> [])"
proof (cases c)
  case None
  then show ?thesis
    using remove_Nil [of q] remove_Cons [of q] by (cases "content q") auto
qed (simp add: add_class)

end

interpretation que: message_queue "Append prio" Remove m_oCListP2PeerMsg prio for prio
proof
  show "mset (m_oCListP2PeerMsg (Append prio q m)) = add_mset m (mset (m_oCListP2PeerMsg q))"
    for q :: "'a msg_que" and m
    by (simp add: content_Append mset_ins_back)
next
  show "filter (\<lambda>x. prio x = k) (m_oCListP2PeerMsg (Append prio q m)) =
          filter (\<lambda>x. prio x = k) (m_oCListP2PeerMsg q) @ filter (\<lambda>x. prio x = k) [m]"
    for q :: "'a msg_que" and m k
    by (simp add: content_Append filter_ins_back)
qed (simp_all add: Remove_def)

subsection \<open>Runs of calls\<close>

text \<open>Calls in the order they get the critical section, and the messages the removals hand out.\<close>

fun que_run :: "('m \<Rightarrow> nat) \<Rightarrow> 'm msg_que \<Rightarrow> 'm option list \<Rightarrow> 'm list \<times> 'm msg_que" where
  "que_run prio q [] = ([], q)"
| "que_run prio q (c # cs) =
     (let outs = (case c of Some m \<Rightarrow> [] | None \<Rightarrow> (case fst (Remove q) of None \<Rightarrow> [] | Some m \<Rightarrow> [m]));
          (rest, q') = que_run prio (case c of Some m \<Rightarrow> Append prio q m | None \<Rightarrow> snd (Remove q)) cs
      in (outs @ rest, q'))"

definition que_inputs :: "'m option list \<Rightarrow> 'm list" where
  "que_inputs cs = concat (map (\<lambda>c. case c of Some m \<Rightarrow> [m] | None \<Rightarrow> []) cs)"

text \<open>
  C24: Over any run of appends and removals the queue neither loses, duplicates nor invents a
  message, and the messages of one priority come out in the order they went in.
\<close>

theorem que_run_fair:
  "mset (fst (que_run prio q cs)) + mset (m_oCListP2PeerMsg (snd (que_run prio q cs)))
     = mset (m_oCListP2PeerMsg q) + mset (que_inputs cs)
   \<and> filter (\<lambda>x. prio x = k) (fst (que_run prio q cs))
       @ filter (\<lambda>x. prio x = k) (m_oCListP2PeerMsg (snd (que_run prio q cs)))
     = filter (\<lambda>x. prio x = k) (m_oCListP2PeerMsg q) @ filter (\<lambda>x. prio x = k) (que_inputs cs)"
proof (induction cs arbitrary: q)
  case (Cons c cs)
  let ?outs = "case c of Some m \<Rightarrow> [] | None \<Rightarrow> (case fst (Remove q) of None \<Rightarrow> [] | Some m \<Rightarrow> [m])"
  let ?q1 = "case c of Some m \<Rightarrow> Append prio q m | None \<Rightarrow> snd (Remove q)"
  let ?inp = "case c of Some m \<Rightarrow> [m] | None \<Rightarrow> []"
  obtain rest q2 where r: "que_run prio ?q1 cs = (rest, q2)" by fastforce
  have run: "que_run prio q (c # cs) = (?outs @ rest, q2)"
    using r by (simp add: Let_def)
  have inp: "que_inputs (c # cs) = ?inp @ que_inputs cs"
    by (simp add: que_inputs_def)
  have "mset rest + mset (m_oCListP2PeerMsg q2) = mset (m_oCListP2PeerMsg ?q1) + mset (que_inputs cs)"
    using Cons.IH [of ?q1] r by simp
  then have m: "mset (?outs @ rest) + mset (m_oCListP2PeerMsg q2)
      = (mset ?outs + mset (m_oCListP2PeerMsg ?q1)) + mset (que_inputs cs)"
    by (simp only: mset_append add.assoc)
  have "filter (\<lambda>x. prio x = k) rest @ filter (\<lambda>x. prio x = k) (m_oCListP2PeerMsg q2) =
      filter (\<lambda>x. prio x = k) (m_oCListP2PeerMsg ?q1) @ filter (\<lambda>x. prio x = k) (que_inputs cs)"
    using Cons.IH [of ?q1] r by simp
  then have f: "filter (\<lambda>x. prio x = k) (?outs @ rest) @ filter (\<lambda>x. prio x = k) (m_oCListP2PeerMsg q2) =
      (filter (\<lambda>x. prio x = k) ?outs @ filter (\<lambda>x. prio x = k) (m_oCListP2PeerMsg ?q1))
        @ filter (\<lambda>x. prio x = k) (que_inputs cs)"
    by (simp only: filter_append append.assoc)
  show ?case
    unfolding run inp fst_conv snd_conv m f que.call_conserves que.call_keeps_class_order
    by (simp only: mset_append filter_append add.assoc append.assoc simp_thms)
qed (simp add: que_inputs_def)

subsection \<open>Priority order\<close>

text \<open>
  Appending to a queue in priority order keeps it in priority order exactly when the queue did
  not hold a single, less urgent message; the notification event is signalled if there is one.
\<close>

theorem Append_keeps_order_iff:
  assumes "sorted (map prio (m_oCListP2PeerMsg q))"
  shows "(sorted (map prio (m_oCListP2PeerMsg (Append prio q m)))
      \<longleftrightarrow> \<not> (\<exists>x. m_oCListP2PeerMsg q = [x] \<and> prio x > prio m))
    \<and> m_bSignalled (Append prio q m) = (m_hNotnEvent q \<or> m_bSignalled q)"
proof
  show "sorted (map prio (m_oCListP2PeerMsg (Append prio q m)))
      \<longleftrightarrow> \<not> (\<exists>x. m_oCListP2PeerMsg q = [x] \<and> prio x > prio m)"
  proof (cases "length (m_oCListP2PeerMsg q) > 1")
    case True
    then show ?thesis using sorted_ins_back [OF assms] by (auto simp: content_Append)
  next
    case False
    then consider "m_oCListP2PeerMsg q = []" | x where "m_oCListP2PeerMsg q = [x]"
      by (cases "m_oCListP2PeerMsg q") auto
    then show ?thesis by cases (auto simp: content_Append)
  qed
  show "m_bSignalled (Append prio q m) = (m_hNotnEvent q \<or> m_bSignalled q)"
    by (auto simp: Append_def que_notify_def)
qed

theorem Append_keeps_order_iff_witness:
  "sorted (map (\<lambda>x::nat. x) (m_oCListP2PeerMsg \<lparr>m_hNotnEvent = True, m_bSignalled = False, m_oCListP2PeerMsg = [2, 7]\<rparr>))
   \<and> sorted (map (\<lambda>x::nat. x) (m_oCListP2PeerMsg
        (Append (\<lambda>x. x) \<lparr>m_hNotnEvent = True, m_bSignalled = False, m_oCListP2PeerMsg = [2, 7]\<rparr> 3)))"
proof -
  let ?q = "\<lparr>m_hNotnEvent = True, m_bSignalled = False, m_oCListP2PeerMsg = [2, 7::nat]\<rparr>"
  have h: "sorted (map (\<lambda>x::nat. x) (m_oCListP2PeerMsg ?q))" by simp
  show ?thesis using h Append_keeps_order_iff [OF h, of 3] by simp
qed

text \<open>
  The exception of \<open>Append_keeps_order_iff\<close> is real from a new queue: whenever a less urgent message is alone in the
  queue and a more urgent one is appended behind it, the next removal hands out the less urgent
  one.  The highest-priority message does not always leave first.
\<close>

theorem lone_message_not_overtaken:
  assumes "prio low > prio high"
  shows "fst (Remove (Append prio (Append prio (que_new ev) low) high)) = Some low"
  by (simp add: Append_def Remove_def que_notify_def que_new_def)

theorem lone_message_not_overtaken_witness:
  "(12::nat) > 2 \<and> fst (Remove (Append (\<lambda>x. x) (Append (\<lambda>x. x) (que_new True) (12::nat)) 2)) = Some 12"
proof -
  have h: "(\<lambda>x::nat. x) 12 > (\<lambda>x. x) 2" by simp
  show ?thesis using h lone_message_not_overtaken [of "\<lambda>x. x" 2 12 True] by simp
qed

text \<open>
  How far the order can be off: a queue reached by appends, removals and flushes is never worse than
  two ascending runs one behind the other.
\<close>

inductive que_reachable :: "('m \<Rightarrow> nat) \<Rightarrow> 'm msg_que \<Rightarrow> bool" for prio where
  new: "que_reachable prio (que_new ev)"
| append: "que_reachable prio q \<Longrightarrow> que_reachable prio (Append prio q m)"
| remove: "que_reachable prio q \<Longrightarrow> que_reachable prio (snd (Remove q))"
| flush: "que_reachable prio q \<Longrightarrow> que_reachable prio (Flush q)"

definition two_runs :: "('m \<Rightarrow> nat) \<Rightarrow> 'm list \<Rightarrow> bool" where
  "two_runs prio xs \<longleftrightarrow> (\<exists>as bs. xs = as @ bs \<and> sorted (map prio as) \<and> sorted (map prio bs))"

lemma two_runs_ins_back:
  assumes "two_runs prio xs"
  shows "two_runs prio (ins_back prio m xs)"
proof -
  let ?P = "\<lambda>x. prio x > prio m"
  obtain as bs where s: "xs = as @ bs" "sorted (map prio as)" "sorted (map prio bs)"
    using assms by (auto simp: two_runs_def)
  show ?thesis
  proof (cases "\<forall>x \<in> set bs. ?P x")
    case True
    then have "ins_back prio m xs = ins_back prio m as @ bs"
      by (simp add: ins_back_def s(1) dropWhile_append takeWhile_append)
    with sorted_ins_back [OF s(2)] s(3) show ?thesis unfolding two_runs_def by blast
  next
    case False
    then have "ins_back prio m xs = as @ ins_back prio m bs"
      by (auto simp: ins_back_def s(1) dropWhile_append takeWhile_append)
    with sorted_ins_back [OF s(3)] s(2) show ?thesis unfolding two_runs_def by blast
  qed
qed

lemma two_runs_tl: "two_runs prio (x # xs) \<Longrightarrow> two_runs prio xs"
proof -
  assume "two_runs prio (x # xs)"
  then obtain as bs where s: "x # xs = as @ bs" "sorted (map prio as)" "sorted (map prio bs)"
    by (auto simp: two_runs_def)
  have "xs = tl as @ (if as = [] then tl bs else bs)" using s(1) by (cases as) auto
  moreover have "sorted (map prio (tl as))" using s(2) by (cases as) auto
  moreover have "sorted (map prio (if as = [] then tl bs else bs))" using s(3) by (cases bs) auto
  ultimately show ?thesis unfolding two_runs_def by blast
qed

lemma two_runs_short: "length xs \<le> 1 \<Longrightarrow> two_runs prio (xs @ [m])"
  unfolding two_runs_def by (rule exI [of _ xs], rule exI [of _ "[m]"]) (cases xs, auto)

text \<open>
  Every queue reached from a new one by \<open>Append\<close>, \<open>Remove\<close> and \<open>Flush\<close> is two ascending runs of
  priorities, one behind the other (either may be empty).
\<close>

theorem reachable_two_runs:
  assumes "que_reachable prio q"
  shows "\<exists>as bs. m_oCListP2PeerMsg q = as @ bs \<and> sorted (map prio as) \<and> sorted (map prio bs)"
proof -
  from assms have "two_runs prio (m_oCListP2PeerMsg q)"
  proof induction
    case (append q m)
    then show ?case
      by (cases "length (m_oCListP2PeerMsg q) > 1")
         (simp_all add: content_Append two_runs_ins_back two_runs_short)
  next
    case (remove q)
    then show ?case
      by (cases "m_oCListP2PeerMsg q") (auto simp: Remove_def dest: two_runs_tl)
  qed (simp_all add: que_new_def Flush_def two_runs_def)
  then show ?thesis by (simp add: two_runs_def)
qed

theorem reachable_two_runs_witness:
  "\<exists>as bs. m_oCListP2PeerMsg (Append (\<lambda>x. x) (Append (\<lambda>x. x) (Append (\<lambda>x. x) (que_new False) (12::nat)) 2) 7) = as @ bs
     \<and> sorted (map (\<lambda>x. x) as) \<and> sorted (map (\<lambda>x. x) bs)"
  by (rule reachable_two_runs) (intro que_reachable.intros)

end
