(* ===== verification/PeerMsg.thy ===== *)
theory PeerMsg
  imports Wildcards
begin

text \<open>
  \<open>P2PeerMsg\<close> (P2PeerMsg.h, P2PeerMsg.cpp): the message that travels between hubs.

  The container underneath, \<open>P3PmsgBSTR\<close>, is a library outside src/.  The model keeps what the accessors
  see of it: the message's name; the prefix the root data holds; the NET item's named fields; the
  MSG item's blob; the WRP item's image of a wrapped message; the EVT item's named events.  An item
  or field that does not exist is \<open>None\<close>.  The serialiser (\<open>P2Piomage\<close> and the constructor from an
  image) is a parameter of the definitions that use it, and so is the prefix \<open>AllocBLOB08\<close> hands to
  a new message.  The parsed copy of a wrapped message \<open>m_pP2PmsgWrap\<close> caches is recomputed from the
  WRP item on each access.
\<close>

record p2p_prefix =
  eType :: "8 word"
  nSourceID :: "32 word"
  dwAddrTag :: "64 word"
  nDestinID :: "32 word"
  nMsg :: "16 word"
  uiCtrl :: "8 word"
  ucPriority :: "8 word"
  uiState :: "16 word"
  uiP2Pexpump :: "8 word"

text \<open>A \<open>Src\<close> or \<open>Dst\<close> field: its string, its attributes, and its stack with the stack's name.\<close>

record addr_field =
  f_wstr :: wstr
  f_attr :: "bytes option"
  f_stck :: "(wstr \<times> bytes) option"

record net_item =
  Src :: "addr_field option"
  Dst :: "addr_field option"
  Scp :: "wstr option"
  Ups :: "wstr option"
  Conmap :: "wstr option"
  Att :: "bytes option"
  Sld :: "bytes option"

record peer_msg =
  m_name :: wstr
  m_prefix :: p2p_prefix
  m_net :: "net_item option"
  m_msg :: "bytes option"
  m_wrp :: "bytes option"
  m_evt :: "(wstr \<Rightarrow> bytes option) option"

definition empty_net :: net_item where
  "empty_net = \<lparr>Src = None, Dst = None, Scp = None, Ups = None, Conmap = None, Att = None, Sld = None\<rparr>"

text \<open>\<open>r_item(VBLockBSTR_NET)\<close>: the fields of the NET item; an item that does not exist has none.\<close>

definition net_of :: "peer_msg \<Rightarrow> net_item" where
  "net_of m = (case m_net m of None \<Rightarrow> empty_net | Some n \<Rightarrow> n)"

definition TMsg_Src :: wstr where "TMsg_Src = wide ''Src''"
definition TMsg_Dst :: wstr where "TMsg_Dst = wide ''Dst''"

definition P2Pmsg_Poll :: wstr where "P2Pmsg_Poll = wide ''P2PmsgPoll''"
definition P2Pmsg_Ping :: wstr where "P2Pmsg_Ping = wide ''P2PmsgPing''"
definition P2Pmsg_BCast :: wstr where "P2Pmsg_BCast = wide ''P2PmsgBCast''"
definition P2Pmsg_UCast :: wstr where "P2Pmsg_UCast = wide ''P2PmsgUCast''"
definition P2Pmsg_Exception :: wstr where "P2Pmsg_Exception = wide ''P2PmsgException''"

definition MAX_P2Psize :: nat where "MAX_P2Psize = 32768"
definition MAX_P2PmsgWrapEmbed :: nat where "MAX_P2PmsgWrapEmbed = MAX_P2Psize div 2"
definition P2P_Reflected :: "16 word" where "P2P_Reflected = push_bit 15 1"
definition P2PeerMsgState_Posted :: "16 word" where "P2PeerMsgState_Posted = push_bit 3 1"
definition P2PeerMsgCtrl_HANDLED :: "8 word" where "P2PeerMsgCtrl_HANDLED = push_bit 1 1"

subsection \<open>The prefix\<close>

definition Priority :: "peer_msg \<Rightarrow> 8 word" where
  "Priority m = ucPriority (m_prefix m)"

definition SetPriority :: "peer_msg \<Rightarrow> 8 word \<Rightarrow> peer_msg" where
  "SetPriority m p = m\<lparr>m_prefix := (m_prefix m)\<lparr>ucPriority := p\<rparr>\<rparr>"

definition AddrTag :: "peer_msg \<Rightarrow> 64 word" where
  "AddrTag m = dwAddrTag (m_prefix m)"

definition SetAddrTag :: "peer_msg \<Rightarrow> 64 word \<Rightarrow> peer_msg" where
  "SetAddrTag m tag = m\<lparr>m_prefix := (m_prefix m)\<lparr>dwAddrTag := tag\<rparr>\<rparr>"

definition IsReflected :: "peer_msg \<Rightarrow> bool" where
  "IsReflected m \<longleftrightarrow> nMsg (m_prefix m) AND P2P_Reflected = P2P_Reflected"

definition P2PeerMsg_SetReflected :: "peer_msg \<Rightarrow> bool \<Rightarrow> peer_msg" where
  "P2PeerMsg_SetReflected m bReflected =
     m\<lparr>m_prefix := (m_prefix m)\<lparr>nMsg := (if bReflected then nMsg (m_prefix m) OR P2P_Reflected
                                        else nMsg (m_prefix m) AND NOT P2P_Reflected)\<rparr>\<rparr>"

definition Map_MatchState :: "peer_msg \<Rightarrow> 16 word \<Rightarrow> bool" where
  "Map_MatchState m uiMsgStateFilter =
     ((nMsg (m_prefix m) AND P2P_Reflected \<noteq> 0) = (uiMsgStateFilter AND P2P_Reflected \<noteq> 0))"

definition P2PeerMsg_IsPosted :: "peer_msg \<Rightarrow> bool" where
  "P2PeerMsg_IsPosted m \<longleftrightarrow> uiState (m_prefix m) AND P2PeerMsgState_Posted = P2PeerMsgState_Posted"

definition P2PeerMsg_SetCtrlOptions :: "peer_msg \<Rightarrow> 32 word \<Rightarrow> 8 word \<Rightarrow> 8 word \<times> peer_msg" where
  "P2PeerMsg_SetCtrlOptions m uiCtrlOptionAdd uiCtrlOptionRemove =
     (let c = (uiCtrl (m_prefix m) AND uiCtrlOptionRemove) OR ucast uiCtrlOptionAdd
      in (c, m\<lparr>m_prefix := (m_prefix m)\<lparr>uiCtrl := c\<rparr>\<rparr>))"

text \<open>Every constructor but the default and the addressed ones drops the posted state.\<close>

definition clear_posted :: "peer_msg \<Rightarrow> peer_msg" where
  "clear_posted m =
     m\<lparr>m_prefix := (m_prefix m)\<lparr>uiState := uiState (m_prefix m) AND NOT P2PeerMsgState_Posted\<rparr>\<rparr>"

definition copy_msg :: "peer_msg \<Rightarrow> peer_msg" where
  "copy_msg rhs = clear_posted rhs"

definition image_msg :: "(bytes \<Rightarrow> peer_msg) \<Rightarrow> bytes \<Rightarrow> peer_msg" where
  "image_msg parse oIOmage = clear_posted (parse oIOmage)"

subsection \<open>Addresses, scopes, attestation and seal marks\<close>

definition GetSource :: "peer_msg \<Rightarrow> wstr" where
  "GetSource m = (case Src (net_of m) of None \<Rightarrow> [] | Some f \<Rightarrow> f_wstr f)"

definition GetDestin :: "peer_msg \<Rightarrow> wstr" where
  "GetDestin m = (case Dst (net_of m) of None \<Rightarrow> [] | Some f \<Rightarrow> f_wstr f)"

text \<open>Setting the string of a field keeps its attributes and stack; a new field has neither.\<close>

definition set_wstr :: "addr_field option \<Rightarrow> wstr \<Rightarrow> addr_field" where
  "set_wstr f s = (case f of None \<Rightarrow> \<lparr>f_wstr = s, f_attr = None, f_stck = None\<rparr> | Some g \<Rightarrow> g\<lparr>f_wstr := s\<rparr>)"

definition SetSource :: "peer_msg \<Rightarrow> wstr \<Rightarrow> peer_msg" where
  "SetSource m strSource = m\<lparr>m_net := Some ((net_of m)\<lparr>Src := Some (set_wstr (Src (net_of m)) strSource)\<rparr>)\<rparr>"

definition SetDestin :: "peer_msg \<Rightarrow> wstr \<Rightarrow> peer_msg" where
  "SetDestin m strDestin = m\<lparr>m_net := Some ((net_of m)\<lparr>Dst := Some (set_wstr (Dst (net_of m)) strDestin)\<rparr>)\<rparr>"

text \<open>Setting a field from a field takes its string, its attributes and its stack, renamed.\<close>

definition take_field :: "wstr \<Rightarrow> addr_field \<Rightarrow> addr_field" where
  "take_field nam f = \<lparr>f_wstr = f_wstr f, f_attr = f_attr f, f_stck = map_option (\<lambda>s. (nam, snd s)) (f_stck f)\<rparr>"

definition SetSource_field :: "peer_msg \<Rightarrow> addr_field \<Rightarrow> peer_msg" where
  "SetSource_field m oSource = m\<lparr>m_net := Some ((net_of m)\<lparr>Src := Some (take_field TMsg_Src oSource)\<rparr>)\<rparr>"

definition SetDestin_field :: "peer_msg \<Rightarrow> addr_field \<Rightarrow> peer_msg" where
  "SetDestin_field m oDestin = m\<lparr>m_net := Some ((net_of m)\<lparr>Dst := Some (take_field TMsg_Dst oDestin)\<rparr>)\<rparr>"

definition GetScope :: "peer_msg \<Rightarrow> wstr" where
  "GetScope m = (case Scp (net_of m) of None \<Rightarrow> [] | Some s \<Rightarrow> s)"

definition SetScope :: "peer_msg \<Rightarrow> wstr \<Rightarrow> peer_msg" where
  "SetScope m strScope = m\<lparr>m_net := Some ((net_of m)\<lparr>Scp := Some strScope\<rparr>)\<rparr>"

definition HasScope :: "peer_msg \<Rightarrow> bool" where
  "HasScope m \<longleftrightarrow> Scp (net_of m) \<noteq> None"

definition GetUpScope :: "peer_msg \<Rightarrow> wstr" where
  "GetUpScope m = (case Ups (net_of m) of None \<Rightarrow> [] | Some s \<Rightarrow> s)"

definition SetUpScope :: "peer_msg \<Rightarrow> wstr \<Rightarrow> peer_msg" where
  "SetUpScope m strScope = m\<lparr>m_net := Some ((net_of m)\<lparr>Ups := Some strScope\<rparr>)\<rparr>"

definition HasUpScope :: "peer_msg \<Rightarrow> bool" where
  "HasUpScope m \<longleftrightarrow> Ups (net_of m) \<noteq> None"

definition IsFannedOut :: "peer_msg \<Rightarrow> bool" where
  "IsFannedOut m \<longleftrightarrow> (if Scp (net_of m) \<noteq> None then True else Ups (net_of m) \<noteq> None)"

definition GetScopeOrDestin :: "peer_msg \<Rightarrow> wstr" where
  "GetScopeOrDestin m =
     (case Scp (net_of m) of Some s \<Rightarrow> s
      | None \<Rightarrow> (case Ups (net_of m) of Some s \<Rightarrow> s
        | None \<Rightarrow> (case Dst (net_of m) of Some f \<Rightarrow> f_wstr f | None \<Rightarrow> [])))"

definition GetConmap :: "peer_msg \<Rightarrow> wstr" where
  "GetConmap m = (case Conmap (net_of m) of None \<Rightarrow> [] | Some s \<Rightarrow> s)"

definition SetConmap :: "peer_msg \<Rightarrow> wstr \<Rightarrow> peer_msg" where
  "SetConmap m strConmap = m\<lparr>m_net := Some ((net_of m)\<lparr>Conmap := Some strConmap\<rparr>)\<rparr>"

text \<open>An empty blob reads as an absent one: that is how the two marks below are cleared.\<close>

definition GetRelayAttest :: "peer_msg \<Rightarrow> bytes option" where
  "GetRelayAttest m =
     (case m_net m of None \<Rightarrow> None
      | Some n \<Rightarrow> (case Att n of None \<Rightarrow> None | Some pv \<Rightarrow> if pv = [] then None else Some pv))"

definition SetRelayAttest :: "peer_msg \<Rightarrow> bytes \<Rightarrow> peer_msg" where
  "SetRelayAttest m pvBlock =
     (if pvBlock = [] then m else m\<lparr>m_net := Some ((net_of m)\<lparr>Att := Some pvBlock\<rparr>)\<rparr>)"

definition HasRelayAttest :: "peer_msg \<Rightarrow> bool" where
  "HasRelayAttest m \<longleftrightarrow> GetRelayAttest m \<noteq> None"

definition ClearRelayAttest :: "peer_msg \<Rightarrow> peer_msg" where
  "ClearRelayAttest m =
     (case m_net m of None \<Rightarrow> m
      | Some n \<Rightarrow> (case Att n of None \<Rightarrow> m | Some pv \<Rightarrow> m\<lparr>m_net := Some (n\<lparr>Att := Some []\<rparr>)\<rparr>))"

text \<open>The result and the plaintext size the mark carries, 0 when it carries none.\<close>

definition IsSealed :: "peer_msg \<Rightarrow> bool \<times> nat" where
  "IsSealed m =
     (case m_net m of None \<Rightarrow> (False, 0)
      | Some n \<Rightarrow> (case Sld n of None \<Rightarrow> (False, 0)
        | Some p \<Rightarrow> if p = [] then (False, 0)
                   else (True, if length p = 4
                               then push_bit 24 (unat (p ! 0)) OR push_bit 16 (unat (p ! 1))
                                    OR push_bit 8 (unat (p ! 2)) OR unat (p ! 3)
                               else 0)))"

definition SetSealed :: "peer_msg \<Rightarrow> nat \<Rightarrow> peer_msg" where
  "SetSealed m cbPlainHint =
     (let aLen = [word_of_nat (drop_bit 24 cbPlainHint AND 255), word_of_nat (drop_bit 16 cbPlainHint AND 255),
                  word_of_nat (drop_bit 8 cbPlainHint AND 255), word_of_nat (cbPlainHint AND 255)]
      in m\<lparr>m_net := Some ((net_of m)\<lparr>Sld := Some aLen\<rparr>)\<rparr>)"

definition ClearSealed :: "peer_msg \<Rightarrow> peer_msg" where
  "ClearSealed m =
     (case m_net m of None \<Rightarrow> m
      | Some n \<Rightarrow> (case Sld n of None \<Rightarrow> m | Some p \<Rightarrow> m\<lparr>m_net := Some (n\<lparr>Sld := Some []\<rparr>)\<rparr>))"

definition Data :: "peer_msg \<Rightarrow> bytes" where
  "Data m = (case m_msg m of None \<Rightarrow> [] | Some d \<Rightarrow> d)"

definition DataSize :: "peer_msg \<Rightarrow> nat" where
  "DataSize m = length (Data m)"

definition SetData :: "peer_msg \<Rightarrow> wstr option \<Rightarrow> bytes \<Rightarrow> peer_msg" where
  "SetData m pszMsg pvData =
     (let m1 = (case pszMsg of None \<Rightarrow> m | Some n \<Rightarrow> if length n > 0 then m\<lparr>m_name := n\<rparr> else m)
      in m1\<lparr>m_msg := Some pvData\<rparr>)"

subsection \<open>Construction and factories\<close>

text \<open>The constructors from a name alone, from two addresses, and from two address fields.\<close>

definition msg_named :: "p2p_prefix \<Rightarrow> wstr \<Rightarrow> peer_msg" where
  "msg_named prefix0 pszMsgID =
     \<lparr>m_name = pszMsgID, m_prefix = prefix0, m_net = Some empty_net, m_msg = Some [], m_wrp = None, m_evt = None\<rparr>"

definition plain_field :: "wstr \<Rightarrow> addr_field" where
  "plain_field s = \<lparr>f_wstr = s, f_attr = None, f_stck = None\<rparr>"

definition msg_between_fields :: "p2p_prefix \<Rightarrow> addr_field \<Rightarrow> addr_field \<Rightarrow> wstr \<Rightarrow> bytes \<Rightarrow> peer_msg" where
  "msg_between_fields prefix0 oSource oDestin pszMsg pvMsgData =
     (SetDestin_field (SetSource_field
        \<lparr>m_name = pszMsg, m_prefix = prefix0, m_net = Some empty_net, m_msg = None, m_wrp = None, m_evt = None\<rparr>
        oSource) oDestin)\<lparr>m_msg := Some pvMsgData\<rparr>"

definition msg_between :: "p2p_prefix \<Rightarrow> wstr \<Rightarrow> wstr \<Rightarrow> wstr \<Rightarrow> bytes \<Rightarrow> peer_msg" where
  "msg_between prefix0 oSrcSTR oDstSTR pszMsg pvMsgData =
     msg_between_fields prefix0 (plain_field oSrcSTR) (plain_field oDstSTR) pszMsg pvMsgData"

text \<open>
  \<open>r_Source\<close> and \<open>r_Destin\<close>: the field itself.  A message without the field is outside what the
  source handles: the factories that read them are \<open>None\<close> there.
\<close>

definition r_Source :: "peer_msg \<Rightarrow> addr_field option" where
  "r_Source m = Src (net_of m)"

definition r_Destin :: "peer_msg \<Rightarrow> addr_field option" where
  "r_Destin m = Dst (net_of m)"

definition ResponseFactory :: "p2p_prefix \<Rightarrow> peer_msg \<Rightarrow> wstr \<Rightarrow> bytes \<Rightarrow> peer_msg option" where
  "ResponseFactory prefix0 m pszMsg pvMsgData =
     (case (r_Destin m, r_Source m) of
        (Some d, Some s) \<Rightarrow>
          Some (clear_posted ((msg_between_fields prefix0 d s pszMsg pvMsgData)\<lparr>m_prefix := m_prefix m\<rparr>))
      | _ \<Rightarrow> None)"

definition RedirectFactory :: "peer_msg \<Rightarrow> wstr \<Rightarrow> peer_msg" where
  "RedirectFactory m strDestin = SetDestin (copy_msg m) strDestin"

definition RedirectFactory_as :: "p2p_prefix \<Rightarrow> peer_msg \<Rightarrow> wstr \<Rightarrow> wstr \<Rightarrow> bytes \<Rightarrow> peer_msg" where
  "RedirectFactory_as prefix0 m strP2PaddrDst pszMsg pvMsgData =
     msg_between prefix0 (GetSource m) strP2PaddrDst pszMsg pvMsgData"

definition LoopbackFactory :: "peer_msg \<Rightarrow> peer_msg option" where
  "LoopbackFactory m =
     (case (r_Destin m, r_Source m) of
        (Some d, Some s) \<Rightarrow> Some (SetDestin_field (SetSource_field (copy_msg m) d) s)
      | _ \<Rightarrow> None)"

definition ReflectFactory :: "peer_msg \<Rightarrow> peer_msg option" where
  "ReflectFactory m =
     map_option (\<lambda>r. r\<lparr>m_prefix := (m_prefix r)\<lparr>nMsg :=
         (if nMsg (m_prefix r) AND P2P_Reflected = P2P_Reflected
          then nMsg (m_prefix r) XOR P2P_Reflected
          else nMsg (m_prefix r) OR P2P_Reflected)\<rparr>\<rparr>) (LoopbackFactory m)"

definition P2PeerMsg_DstSwapSrc :: "peer_msg \<Rightarrow> peer_msg option" where
  "P2PeerMsg_DstSwapSrc m =
     (case m_net m of None \<Rightarrow> None
      | Some n \<Rightarrow> (case (Src n, Dst n) of
          (Some s, Some d) \<Rightarrow> Some (m\<lparr>m_net := Some (n\<lparr>Src := Some d, Dst := Some s\<rparr>)\<rparr>)
        | _ \<Rightarrow> None))"

definition IsWrapped :: "peer_msg \<Rightarrow> bool" where
  "IsWrapped m \<longleftrightarrow> m_wrp m \<noteq> None"

definition WrapFactory :: "(peer_msg \<Rightarrow> bytes) \<Rightarrow> p2p_prefix \<Rightarrow> peer_msg \<Rightarrow> wstr \<Rightarrow> bytes \<Rightarrow> peer_msg" where
  "WrapFactory to_image prefix0 m szMsg pvMsgData =
     (msg_between prefix0 (GetDestin m) (GetSource m) szMsg pvMsgData)
       \<lparr>m_prefix := m_prefix m, m_wrp := Some (to_image m)\<rparr>"

definition WrappedResponseFactory ::
  "(peer_msg \<Rightarrow> bytes) \<Rightarrow> p2p_prefix \<Rightarrow> peer_msg \<Rightarrow> wstr \<Rightarrow> bytes \<Rightarrow> peer_msg" where
  "WrappedResponseFactory to_image prefix0 m pszMsg pvMsgData =
     (let strDestin = GetDestin m; strSource = GetSource m;
          spMsg = clear_posted ((msg_between prefix0 strDestin strSource pszMsg pvMsgData)\<lparr>m_prefix := m_prefix m\<rparr>)
      in if length (to_image m) \<le> MAX_P2PmsgWrapEmbed then spMsg\<lparr>m_wrp := Some (to_image m)\<rparr>
         else (let oStub = SetDestin (SetSource (msg_named prefix0 (m_name m)) strSource) strDestin
               in spMsg\<lparr>m_wrp := Some (to_image oStub)\<rparr>))"

text \<open>\<open>Inl ()\<close> is the event the source throws when there is no wrapped message.\<close>

definition UnwrapFactory :: "(bytes \<Rightarrow> peer_msg) \<Rightarrow> peer_msg \<Rightarrow> unit + peer_msg" where
  "UnwrapFactory parse m =
     (case m_wrp m of None \<Rightarrow> Inl () | Some w \<Rightarrow> Inr (image_msg parse w))"

text \<open>\<open>operator[]\<close>: the message 0 levels down is the message itself; at most 16 levels.\<close>

datatype index_error = InvalidIndex | NotWrapped

fun wrapped_at :: "(bytes \<Rightarrow> peer_msg) \<Rightarrow> peer_msg \<Rightarrow> nat \<Rightarrow> index_error + peer_msg" where
  "wrapped_at parse m 0 = Inr m"
| "wrapped_at parse m (Suc e) =
     (if Suc e > 16 then Inl InvalidIndex
      else (case m_wrp m of None \<Rightarrow> Inl NotWrapped
            | Some w \<Rightarrow> wrapped_at parse (image_msg parse w) e))"

definition index_msg :: "(bytes \<Rightarrow> peer_msg) \<Rightarrow> peer_msg \<Rightarrow> int \<Rightarrow> index_error + peer_msg" where
  "index_msg parse m e = (if e < 0 then Inl InvalidIndex else wrapped_at parse m (nat e))"

definition default_event_name :: wstr where "default_event_name = wide ''P2Pevent''"

definition AttachP2Pevent :: "peer_msg \<Rightarrow> bytes \<Rightarrow> wstr \<Rightarrow> peer_msg" where
  "AttachP2Pevent m pEVT lpszFieldname =
     (let nam = (if lpszFieldname = [] then default_event_name else lpszFieldname);
          evts = (case m_evt m of None \<Rightarrow> Map.empty | Some e \<Rightarrow> e)
      in m\<lparr>m_evt := Some (evts(nam \<mapsto> pEVT))\<rparr>)"

definition ExtractP2Pevent :: "peer_msg \<Rightarrow> wstr \<Rightarrow> bytes option" where
  "ExtractP2Pevent m lpszFieldname =
     (let nam = (if lpszFieldname = [] then default_event_name else lpszFieldname)
      in (case m_evt m of None \<Rightarrow> None | Some e \<Rightarrow> e nam))"

definition ExceptionFactory :: "(peer_msg \<Rightarrow> bytes) \<Rightarrow> p2p_prefix \<Rightarrow> peer_msg \<Rightarrow> bytes \<Rightarrow> peer_msg" where
  "ExceptionFactory to_image prefix0 m pEVT =
     AttachP2Pevent (WrappedResponseFactory to_image prefix0 m P2Pmsg_Exception []) pEVT []"

subsection \<open>Rewriting\<close>

lemmas net_defs = net_of_def empty_net_def SetSource_def SetDestin_def SetSource_field_def
  SetDestin_field_def SetScope_def SetUpScope_def SetConmap_def SetSealed_def SetRelayAttest_def

lemmas get_defs = GetSource_def GetDestin_def GetScope_def GetUpScope_def GetConmap_def
  r_Source_def r_Destin_def

lemmas make_defs = msg_named_def msg_between_def msg_between_fields_def plain_field_def
  copy_msg_def clear_posted_def image_msg_def take_field_def set_wstr_def

lemma bit_reflected: "bit P2P_Reflected i \<longleftrightarrow> i = 15"
  unfolding P2P_Reflected_def by (auto simp only: bit_push_bit_iff bit_1_iff possible_bit_word) simp_all

lemma bit_posted: "bit P2PeerMsgState_Posted i \<longleftrightarrow> i = 3"
  unfolding P2PeerMsgState_Posted_def by (auto simp only: bit_push_bit_iff bit_1_iff possible_bit_word) simp_all

lemma reflected_bit: "(x::16 word) AND P2P_Reflected = (if bit x 15 then P2P_Reflected else 0)"
  by (rule bit_eqI) (auto simp: bit_reflected bit_and_iff)

lemma P2P_Reflected_nonzero [simp]: "P2P_Reflected \<noteq> 0"
  using bit_reflected [of 15] by (metis bit_0_eq bot_apply bot_bool_def)

lemma IsReflected_bit: "IsReflected m = bit (nMsg (m_prefix m)) 15"
  by (auto simp: IsReflected_def reflected_bit)

lemma posted_cleared [simp]: "(u AND NOT P2PeerMsgState_Posted) AND P2PeerMsgState_Posted \<noteq> P2PeerMsgState_Posted"
proof
  assume "(u AND NOT P2PeerMsgState_Posted) AND P2PeerMsgState_Posted = P2PeerMsgState_Posted"
  then have "bit ((u AND NOT P2PeerMsgState_Posted) AND P2PeerMsgState_Posted) 3" by (simp add: bit_posted)
  then show False by (simp add: bit_and_iff bit_not_iff bit_posted)
qed

lemma clear_posted_idem: "clear_posted (clear_posted m) = clear_posted m"
  by (simp add: clear_posted_def and.assoc)

subsection \<open>Properties\<close>

text \<open>\<open>x\<close> takes the route of \<open>m\<close> back, unposted, with its priority and the tag of its target.\<close>

definition return_leg :: "peer_msg \<Rightarrow> peer_msg \<Rightarrow> bool" where
  "return_leg m x \<longleftrightarrow> GetSource x = GetDestin m \<and> GetDestin x = GetSource m
     \<and> \<not> P2PeerMsg_IsPosted x \<and> Priority x = Priority m \<and> AddrTag x = AddrTag m"

text \<open>
  A response, a loopback and a reflection of a message that carries both addresses exist and
  return to its source, from its destination.  The first two match the map entries (normal or
  reflected) the message itself matches; the reflection matches exactly the others.
\<close>

theorem replies_reverse_route:
  assumes "r_Source m = Some s" and "r_Destin m = Some d"
  shows "(\<exists>x. ResponseFactory prefix0 m nam dat = Some x \<and> return_leg m x \<and> m_name x = nam \<and> Data x = dat
            \<and> Map_MatchState x flt = Map_MatchState m flt)
       \<and> (\<exists>x. LoopbackFactory m = Some x \<and> return_leg m x \<and> m_name x = m_name m \<and> Data x = Data m
            \<and> Map_MatchState x flt = Map_MatchState m flt)
       \<and> (\<exists>x. ReflectFactory m = Some x \<and> return_leg m x \<and> m_name x = m_name m \<and> Data x = Data m
            \<and> Map_MatchState x flt = (\<not> Map_MatchState m flt))"
proof (intro conjI)
  note simps = return_leg_def get_defs net_defs make_defs Priority_def AddrTag_def Data_def Map_MatchState_def P2PeerMsg_IsPosted_def
  show "\<exists>x. ResponseFactory prefix0 m nam dat = Some x \<and> return_leg m x \<and> m_name x = nam \<and> Data x = dat
            \<and> Map_MatchState x flt = Map_MatchState m flt"
    using assms by (auto simp: ResponseFactory_def simps)
  show "\<exists>x. LoopbackFactory m = Some x \<and> return_leg m x \<and> m_name x = m_name m \<and> Data x = Data m
            \<and> Map_MatchState x flt = Map_MatchState m flt"
    using assms by (auto simp: LoopbackFactory_def simps)
  show "\<exists>x. ReflectFactory m = Some x \<and> return_leg m x \<and> m_name x = m_name m \<and> Data x = Data m
            \<and> Map_MatchState x flt = (\<not> Map_MatchState m flt)"
    using assms by (auto simp: ReflectFactory_def LoopbackFactory_def simps reflected_bit bit_reflected
        bit_or_iff bit_xor_iff)
qed

theorem replies_reverse_route_witness:
  "\<exists>m x. GetSource m = wide ''Hub.A'' \<and> GetDestin m = wide ''Hub.B'' \<and> ReflectFactory m = Some x
     \<and> GetSource x = wide ''Hub.B'' \<and> GetDestin x = wide ''Hub.A''"
proof -
  let ?p = "\<lparr>eType = 0, nSourceID = 0, dwAddrTag = 0, nDestinID = 0, nMsg = 0, uiCtrl = 0, ucPriority = 7,
      uiState = 8, uiP2Pexpump = 0\<rparr>"
  let ?m = "msg_between ?p (wide ''Hub.A'') (wide ''Hub.B'') (wide ''Login'') [1, 2]"
  have r: "r_Source ?m = Some (plain_field (wide ''Hub.A''))" "r_Destin ?m = Some (plain_field (wide ''Hub.B''))"
    by (simp_all add: get_defs net_defs make_defs)
  have a: "GetSource ?m = wide ''Hub.A''" "GetDestin ?m = wide ''Hub.B''"
    by (simp_all add: get_defs net_defs make_defs)
  obtain x where x: "ReflectFactory ?m = Some x" "return_leg ?m x"
    using replies_reverse_route [OF r, of ?p "[]" "[]" 0] by blast
  then have "GetSource x = wide ''Hub.B''" "GetDestin x = wide ''Hub.A''"
    by (simp_all only: return_leg_def a)
  with a x(1) show ?thesis by blast
qed

text \<open>
  Reflecting twice gives the message back, unposted, up to the name of the stacks of its two
  address fields: the reflected state and both addresses are as they were.
\<close>

theorem reflect_twice:
  assumes "r_Source m = Some s" and "r_Destin m = Some d"
  shows "Option.bind (ReflectFactory m) ReflectFactory =
     Some (SetDestin_field (SetSource_field (copy_msg m) s) d)"
proof -
  have x: "(u XOR P2P_Reflected) OR P2P_Reflected = u" if "bit u 15" for u
    using that by (auto intro!: bit_eqI simp: bit_or_iff bit_xor_iff bit_reflected)
  have y: "(u OR P2P_Reflected) XOR P2P_Reflected = u" if "\<not> bit u 15" for u
    using that by (auto intro!: bit_eqI simp: bit_or_iff bit_xor_iff bit_reflected)
  show ?thesis
    using assms
    by (auto simp: ReflectFactory_def LoopbackFactory_def get_defs net_defs make_defs reflected_bit
        bit_or_iff bit_xor_iff bit_reflected x y and.assoc option.map_comp comp_def)
qed

theorem reflect_twice_witness:
  "\<exists>m r. GetSource m = [65] \<and> GetDestin m = [66] \<and> Option.bind (ReflectFactory m) ReflectFactory = Some r
     \<and> GetSource r = [65] \<and> GetDestin r = [66]"
proof -
  let ?p = "\<lparr>eType = 0, nSourceID = 0, dwAddrTag = 0, nDestinID = 0, nMsg = 0, uiCtrl = 0, ucPriority = 7,
      uiState = 8, uiP2Pexpump = 0\<rparr>"
  let ?m = "msg_between ?p [65] [66] (wide ''Login'') [1, 2]"
  have r: "r_Source ?m = Some (plain_field [65])" "r_Destin ?m = Some (plain_field [66])"
    by (simp_all add: get_defs net_defs make_defs)
  have a: "GetSource ?m = [65]" "GetDestin ?m = [66]"
    by (simp_all add: get_defs net_defs make_defs)
  let ?r = "SetDestin_field (SetSource_field (copy_msg ?m) (plain_field [65])) (plain_field [66])"
  have "GetSource ?r = [65]" "GetDestin ?r = [66]"
    by (simp_all add: get_defs net_defs make_defs)
  with a reflect_twice [OF r] show ?thesis by blast
qed

text \<open>
  An exception report about a message travels back to its source, carries its diagnostic, and
  wraps a message with the name and both addresses of the one it reports on: the message itself
  when its image fits \<open>MAX_P2PmsgWrapEmbed\<close>, an empty one otherwise.  What is relied on is that the
  serialiser's image of the message that is embedded parses back to it.
\<close>

theorem exception_report:
  assumes "\<forall>e \<in> {m, SetDestin (SetSource (msg_named prefix0 (m_name m)) (GetSource m)) (GetDestin m)}.
             parse (to_image e) = e"
  shows "\<exists>w. UnwrapFactory parse (ExceptionFactory to_image prefix0 m pEVT) = Inr w
     \<and> m_name w = m_name m \<and> GetSource w = GetSource m \<and> GetDestin w = GetDestin m
     \<and> (if length (to_image m) \<le> MAX_P2PmsgWrapEmbed then w = copy_msg m else Data w = [])
     \<and> m_name (ExceptionFactory to_image prefix0 m pEVT) = P2Pmsg_Exception
     \<and> return_leg m (ExceptionFactory to_image prefix0 m pEVT)
     \<and> ExtractP2Pevent (ExceptionFactory to_image prefix0 m pEVT) [] = Some pEVT"
proof (cases "length (to_image m) \<le> MAX_P2PmsgWrapEmbed")
  case True
  with assms show ?thesis
    by (auto simp: UnwrapFactory_def ExceptionFactory_def AttachP2Pevent_def ExtractP2Pevent_def
        WrappedResponseFactory_def Let_def return_leg_def Priority_def AddrTag_def
        P2PeerMsg_IsPosted_def image_msg_def get_defs net_of_def copy_msg_def clear_posted_def
        msg_between_def msg_between_fields_def SetSource_field_def SetDestin_field_def take_field_def
        plain_field_def)
next
  case False
  with assms show ?thesis
    by (auto simp: UnwrapFactory_def ExceptionFactory_def AttachP2Pevent_def ExtractP2Pevent_def
        WrappedResponseFactory_def Let_def return_leg_def Priority_def AddrTag_def Data_def
        P2PeerMsg_IsPosted_def get_defs net_defs make_defs)
qed

theorem exception_report_witness:
  "\<exists>m w. GetSource m = [65] \<and> GetDestin m = [66] \<and>
     UnwrapFactory (\<lambda>b. m) (ExceptionFactory (\<lambda>m. [1, 2, 3]) (m_prefix m) m [9]) = Inr w
     \<and> w = copy_msg m"
proof -
  let ?p = "\<lparr>eType = 0, nSourceID = 0, dwAddrTag = 0, nDestinID = 0, nMsg = 0, uiCtrl = 0, ucPriority = 7,
      uiState = 8, uiP2Pexpump = 0\<rparr>"
  let ?m = "SetDestin (SetSource (msg_named ?p (wide ''Order'')) [65]) [66]"
  have a: "GetSource ?m = [65]" "GetDestin ?m = [66]" "m_name ?m = wide ''Order''" "m_prefix ?m = ?p"
    by (simp_all add: get_defs net_defs make_defs)
  have h: "\<forall>e \<in> {?m, SetDestin (SetSource (msg_named ?p (m_name ?m)) (GetSource ?m)) (GetDestin ?m)}.
             (\<lambda>b. ?m) ((\<lambda>m. [1, 2, 3::byte]) e) = e"
    by (simp add: a)
  from exception_report [where parse = "\<lambda>b. ?m" and to_image = "\<lambda>m. [1, 2, 3]", OF h, of "[9]"]
  obtain w where "UnwrapFactory (\<lambda>b. ?m) (ExceptionFactory (\<lambda>m. [1, 2, 3]) ?p ?m [9]) = Inr w"
    and "w = copy_msg ?m"
    by (auto simp: MAX_P2PmsgWrapEmbed_def MAX_P2Psize_def)
  with a show ?thesis by metis
qed

text \<open>The same message for whoever routes or reads it.\<close>

definition same_parcel :: "peer_msg \<Rightarrow> peer_msg \<Rightarrow> bool" where
  "same_parcel m m' \<longleftrightarrow> GetSource m' = GetSource m \<and> GetDestin m' = GetDestin m
     \<and> GetScopeOrDestin m' = GetScopeOrDestin m \<and> m_name m' = m_name m \<and> Data m' = Data m"

lemma same_parcel_marks:
  "same_parcel m (SetSealed m n)" "same_parcel m (ClearSealed m)"
  "same_parcel m (SetRelayAttest m blk)" "same_parcel m (ClearRelayAttest m)"
  by (simp_all add: same_parcel_def SetSealed_def ClearSealed_def SetRelayAttest_def ClearRelayAttest_def
      Let_def GetSource_def GetDestin_def GetScopeOrDestin_def Data_def net_of_def empty_net_def
      split: option.split)

text \<open>
  The seal mark and the relay attestation can be written, read back and taken away, and neither
  of them changes who the message is from, who it is for, its name or its payload.  The size in a
  seal mark is kept in 32 bits; an empty attestation is not written.
\<close>

theorem marks_read_back:
  "IsSealed (SetSealed m n) = (True, n mod 2 ^ 32) \<and> IsSealed (ClearSealed m) = (False, 0)
   \<and> GetRelayAttest (SetRelayAttest m blk) = (if blk = [] then GetRelayAttest m else Some blk)
   \<and> GetRelayAttest (ClearRelayAttest m) = None
   \<and> same_parcel m (SetSealed m n) \<and> same_parcel m (ClearSealed m)
   \<and> same_parcel m (SetRelayAttest m blk) \<and> same_parcel m (ClearRelayAttest m)"
proof (intro conjI)
  let ?p = "be_put 4 n"
  have p: "?p = [word_of_nat (drop_bit 24 n AND 255), word_of_nat (drop_bit 16 n AND 255),
      word_of_nat (drop_bit 8 n AND 255), word_of_nat (n AND 255)]"
    by (simp add: numeral_eq_Suc)
  have "be_get ?p = push_bit 24 (unat (?p ! 0)) OR push_bit 16 (unat (?p ! 1))
      OR push_bit 8 (unat (?p ! 2)) OR unat (?p ! 3)"
    unfolding p by (simp add: be_get_def push_bit_or or.assoc del: push_bit_of_nat)
  then show "IsSealed (SetSealed m n) = (True, n mod 2 ^ 32)"
    using be_get_put [of 4 n] unfolding p by (simp add: IsSealed_def SetSealed_def Let_def)
  show "IsSealed (ClearSealed m) = (False, 0)"
    by (auto simp: IsSealed_def ClearSealed_def split: option.splits)
  show "GetRelayAttest (SetRelayAttest m blk) = (if blk = [] then GetRelayAttest m else Some blk)"
    by (auto simp: GetRelayAttest_def SetRelayAttest_def net_of_def empty_net_def split: option.splits)
  show "GetRelayAttest (ClearRelayAttest m) = None"
    by (auto simp: GetRelayAttest_def ClearRelayAttest_def split: option.splits)
qed (fact same_parcel_marks)+

text \<open>
  However often a message is redirected on its way, its source stays, and the address it was
  fanned out for stays: a message that was fanned out answers \<open>GetScopeOrDestin\<close> with its scope
  for ever, any other with the destination of the last redirection.
\<close>

theorem scope_survives_redirection:
  "GetSource (foldl RedirectFactory m ds) = GetSource m
   \<and> IsFannedOut (foldl RedirectFactory m ds) = IsFannedOut m
   \<and> GetScopeOrDestin (foldl RedirectFactory m ds) =
       (if IsFannedOut m \<or> ds = [] then GetScopeOrDestin m else last ds)"
proof (induction ds arbitrary: m)
  case (Cons d ds)
  have "GetSource (RedirectFactory m d) = GetSource m"
    and "IsFannedOut (RedirectFactory m d) = IsFannedOut m"
    and "GetScopeOrDestin (RedirectFactory m d) = (if IsFannedOut m then GetScopeOrDestin m else d)"
    by (auto simp: RedirectFactory_def SetDestin_def copy_msg_def clear_posted_def set_wstr_def
        GetSource_def IsFannedOut_def GetScopeOrDestin_def net_of_def split: option.splits)
  with Cons.IH [of "RedirectFactory m d"] show ?case by simp
qed simp

text \<open>
  \<open>P2PeerMsg_SetCtrlOptions\<close> keeps the options its last argument names and drops the others, so
  the query \<open>SetCtrlOptions ( pMsg, 0, 0 )\<close> of \<open>P2PeerTarget::NotHandled\<close> answers 0 whatever the
  message's options are, and clears them: the HANDLED option is never seen there.
\<close>

theorem ctrl_options_dropped:
  "(\<forall>i. bit (fst (P2PeerMsg_SetCtrlOptions m add rem)) i
       = (bit (uiCtrl (m_prefix m)) i \<and> bit rem i \<or> bit add i \<and> i < 8))
   \<and> fst (P2PeerMsg_SetCtrlOptions m 0 0) AND P2PeerMsgCtrl_HANDLED = 0
   \<and> uiCtrl (m_prefix (snd (P2PeerMsg_SetCtrlOptions m 0 0))) = 0"
  by (auto simp: P2PeerMsg_SetCtrlOptions_def Let_def bit_or_iff bit_and_iff bit_ucast_iff)

end
