(* ===== verification/Utf8.thy ===== *)
theory Utf8
  imports Targetcore_Prelude
begin

text \<open>
  The UTF-8 encoder and decoder of P2PAuthLogin.cpp (\<open>Utf8FromWide\<close>, \<open>WideFromUtf8\<close>), through which
  every address goes on its way into a signed transcript or out of a relay block, and the encoder of
  P2PeerSeal.cpp.  \<open>w4\<close> says that \<open>sizeof(wchar_t)\<close> is 4; otherwise a code point above \<open>0xFFFF\<close> is a pair
  of surrogates.  A C string has no zero code unit before its end; the NUL a scan meets there is
  the end of the list.
\<close>

subsection \<open>Encoding\<close>

definition utf8_bytes :: "nat \<Rightarrow> bytes" where
  "utf8_bytes cp =
     (if cp < 0x80 then [word_of_nat cp]
      else if cp < 0x800 then
        [word_of_nat (0xC0 OR drop_bit 6 cp), word_of_nat (0x80 OR (cp AND 0x3F))]
      else if cp < 0x10000 then
        [word_of_nat (0xE0 OR drop_bit 12 cp), word_of_nat (0x80 OR (drop_bit 6 cp AND 0x3F)),
         word_of_nat (0x80 OR (cp AND 0x3F))]
      else
        [word_of_nat (0xF0 OR drop_bit 18 cp), word_of_nat (0x80 OR (drop_bit 12 cp AND 0x3F)),
         word_of_nat (0x80 OR (drop_bit 6 cp AND 0x3F)), word_of_nat (0x80 OR (cp AND 0x3F))])"

text \<open>One round of the loop: the code point read and the rest of the string; \<open>None\<close> is \<open>return false\<close>.\<close>

definition next_code_point :: "bool \<Rightarrow> wchar \<Rightarrow> wstr \<Rightarrow> (nat \<times> wstr) option" where
  "next_code_point w4 c rest =
     (if \<not> w4 then
        (if 0xD800 \<le> c \<and> c \<le> 0xDBFF then
           (let lo = (case rest of [] \<Rightarrow> 0 | l # _ \<Rightarrow> l)
            in if lo < 0xDC00 \<or> lo > 0xDFFF then None
               else Some (0x10000 + push_bit 10 (c - 0xD800) + (lo - 0xDC00), tl rest))
         else if 0xDC00 \<le> c \<and> c \<le> 0xDFFF then None
         else Some (c, rest))
      else if 0xD800 \<le> c \<and> c \<le> 0xDFFF then None
      else Some (c, rest))"

lemma next_code_point_shorter: "next_code_point w4 c rest = Some (cp, rest') \<Longrightarrow> length rest' < Suc (length rest)"
  by (auto simp: next_code_point_def Let_def split: if_splits)

function Utf8FromWide :: "bool \<Rightarrow> wstr \<Rightarrow> bytes option" where
  "Utf8FromWide w4 [] = Some []"
| "Utf8FromWide w4 (c # rest) =
     (case next_code_point w4 c rest of
        None \<Rightarrow> None
      | Some (cp, rest') \<Rightarrow>
          if cp > 0x10FFFF then None
          else map_option (\<lambda>bs. utf8_bytes cp @ bs) (Utf8FromWide w4 rest'))"
  by pat_completeness auto
termination
  by (relation "measure (length \<circ> snd)") (auto dest: next_code_point_shorter)

text \<open>The encoder of P2PeerSeal.cpp has no upper bound on the code point.\<close>

function SealUtf8FromWide :: "bool \<Rightarrow> wstr \<Rightarrow> bytes option" where
  "SealUtf8FromWide w4 [] = Some []"
| "SealUtf8FromWide w4 (c # rest) =
     (case next_code_point w4 c rest of
        None \<Rightarrow> None
      | Some (cp, rest') \<Rightarrow> map_option (\<lambda>bs. utf8_bytes cp @ bs) (SealUtf8FromWide w4 rest'))"
  by pat_completeness auto
termination
  by (relation "measure (length \<circ> snd)") (auto dest: next_code_point_shorter)

subsection \<open>Decoding\<close>

text \<open>The lead byte: the bits it carries and the length of the sequence it announces.\<close>

definition utf8_lead :: "byte \<Rightarrow> (nat \<times> nat) option" where
  "utf8_lead c0 =
     (if c0 < 0x80 then Some (unat c0, 1)
      else if c0 AND 0xE0 = 0xC0 then Some (unat (c0 AND 0x1F), 2)
      else if c0 AND 0xF0 = 0xE0 then Some (unat (c0 AND 0x0F), 3)
      else if c0 AND 0xF8 = 0xF0 then Some (unat (c0 AND 0x07), 4)
      else None)"

fun utf8_continue :: "nat \<Rightarrow> bytes \<Rightarrow> nat option" where
  "utf8_continue cp [] = Some cp"
| "utf8_continue cp (ck # cs) =
     (if ck AND 0xC0 \<noteq> 0x80 then None
      else utf8_continue (push_bit 6 cp OR unat (ck AND 0x3F)) cs)"

definition utf8_decode_one :: "bytes \<Rightarrow> (nat \<times> nat) option" where
  "utf8_decode_one bs =
     (case bs of [] \<Rightarrow> None
      | c0 # cs \<Rightarrow>
        (case utf8_lead c0 of None \<Rightarrow> None
         | Some (cp0, n) \<Rightarrow>
           if n > length bs then None
           else (case utf8_continue cp0 (take (n - 1) cs) of None \<Rightarrow> None
             | Some cp \<Rightarrow>
               if n = 2 \<and> cp < 0x80 then None
               else if n = 3 \<and> cp < 0x800 then None
               else if n = 4 \<and> cp < 0x10000 then None
               else if cp > 0x10FFFF then None
               else if 0xD800 \<le> cp \<and> cp \<le> 0xDFFF then None
               else if cp = 0 then None
               else Some (cp, n))))"

lemma utf8_decode_one_progress: "utf8_decode_one bs = Some (cp, n) \<Longrightarrow> 0 < n \<and> n \<le> length bs"
  by (auto simp: utf8_decode_one_def utf8_lead_def Suc_le_eq split: list.splits option.splits if_splits)

text \<open>The loop: \<open>w\<close> code units are written, \<open>cchOut\<close> fit, one of them the terminating NUL.\<close>

function WideFromUtf8_from :: "bool \<Rightarrow> nat \<Rightarrow> nat \<Rightarrow> bytes \<Rightarrow> wstr option" where
  "WideFromUtf8_from w4 cchOut w bs =
     (if bs = [] then Some []
      else case utf8_decode_one bs of None \<Rightarrow> None
      | Some (cp, n) \<Rightarrow>
        if \<not> w4 \<and> cp \<ge> 0x10000 then
          (if w + 2 \<ge> cchOut then None
           else map_option (\<lambda>s. (0xD800 + drop_bit 10 (cp - 0x10000)) # (0xDC00 + ((cp - 0x10000) AND 0x3FF)) # s)
                  (WideFromUtf8_from w4 cchOut (w + 2) (drop n bs)))
        else
          (if w + 1 \<ge> cchOut then None
           else map_option (\<lambda>s. cp # s) (WideFromUtf8_from w4 cchOut (w + 1) (drop n bs))))"
  by pat_completeness auto
termination
  by (relation "measure (\<lambda>(w4, cch, w, bs). length bs)") (auto dest: utf8_decode_one_progress)

declare WideFromUtf8_from.simps [simp del]

definition WideFromUtf8 :: "bool \<Rightarrow> bytes \<Rightarrow> nat \<Rightarrow> wstr option" where
  "WideFromUtf8 w4 pIn cchOut = (if cchOut = 0 then None else WideFromUtf8_from w4 cchOut 0 pIn)"

subsection \<open>Bytes of one code point\<close>

text \<open>The tables below are evaluated, once for all values of the byte.\<close>

lemma list_all_uptD: "list_all P [0..<n] \<Longrightarrow> a < n \<Longrightarrow> P (a::nat)"
  by (simp add: list_all_iff)

definition lead_fits :: "byte \<Rightarrow> bool" where
  "lead_fits c = (case utf8_lead c of None \<Rightarrow> True
   | Some (a, n) \<Rightarrow> (n = 1 \<and> a < 128 \<and> c = word_of_nat a) \<or> (n = 2 \<and> a < 32 \<and> c = word_of_nat (0xC0 OR a))
       \<or> (n = 3 \<and> a < 16 \<and> c = word_of_nat (0xE0 OR a)) \<or> (n = 4 \<and> a < 8 \<and> c = word_of_nat (0xF0 OR a)))"

definition cont_fits :: "byte \<Rightarrow> bool" where
  "cont_fits c = (c AND 0xC0 \<noteq> 0x80 \<or> unat (c AND 0x3F) < 64 \<and> c = word_of_nat (0x80 OR unat (c AND 0x3F)))"

lemma upt_from_0: "2 \<le> (numeral n::nat) \<Longrightarrow> [0..<numeral n] = 0 # 1 # [2..<numeral n]"
  by (simp add: upt_conv_Cons numeral_2_eq_2)

lemma lead_1: "a < 128 \<Longrightarrow> utf8_lead (word_of_nat a) = Some (a, 1)"
  by (simp add: utf8_lead_def word_less_nat_alt unat_of_nat)

lemma lead_2_table: "list_all (\<lambda>a. utf8_lead (word_of_nat (0xC0 OR a)) = Some (a, 2)) [0..<32]"
  by (simp add: utf8_lead_def upt_from_0 upt_rec_numeral)

lemma lead_3_table: "list_all (\<lambda>a. utf8_lead (word_of_nat (0xE0 OR a)) = Some (a, 3)) [0..<16]"
  by (simp add: utf8_lead_def upt_from_0 upt_rec_numeral)

lemma lead_4_table: "list_all (\<lambda>a. utf8_lead (word_of_nat (0xF0 OR a)) = Some (a, 4)) [0..<8]"
  by (simp add: utf8_lead_def upt_from_0 upt_rec_numeral)

lemma cont_table:
  "list_all (\<lambda>b. word_of_nat (0x80 OR b) AND 0xC0 = (0x80::byte)
      \<and> unat (word_of_nat (0x80 OR b) AND (0x3F::byte)) = b) [0..<64]"
  by (simp add: upt_from_0 upt_rec_numeral)

lemma fits_table: "list_all (\<lambda>n. lead_fits (word_of_nat n) \<and> cont_fits (word_of_nat n)) [0..<256]"
  by (simp add: upt_from_0 upt_rec_numeral lead_fits_def cont_fits_def utf8_lead_def)

lemma all_bytes: "list_all (\<lambda>n. P (word_of_nat n)) [0..<256] \<Longrightarrow> P (b::byte)"
  using list_all_uptD [of "\<lambda>n. P (word_of_nat n)" 256 "unat b"] unat_byte_less [of b] by simp

lemmas utf8_lead_of = lead_1 lead_2_table [THEN list_all_uptD]
  lead_3_table [THEN list_all_uptD] lead_4_table [THEN list_all_uptD]

lemmas fits_inv = fits_table [THEN all_bytes [of "\<lambda>b. lead_fits b \<and> cont_fits b"]]

lemmas utf8_lead_inv = fits_inv [THEN conjunct1, unfolded lead_fits_def]

lemmas utf8_cont_of = cont_table [THEN list_all_uptD]

lemmas utf8_cont_inv = fits_inv [THEN conjunct2, unfolded cont_fits_def]

subsection \<open>One code point, both ways\<close>

lemma split_six: "push_bit 6 (drop_bit 6 cp) OR (cp AND 63) = (cp::nat)"
  using push_or_add [of "cp AND 63" 6 "drop_bit 6 cp"] by (simp add: and_63 drop_bit_eq_div)

definition code_point_ok :: "nat \<Rightarrow> bool" where
  "code_point_ok cp \<longleftrightarrow> 0 < cp \<and> cp \<le> 0x10FFFF \<and> \<not> (0xD800 \<le> cp \<and> cp \<le> 0xDFFF)"

lemma utf8_continue_step:
  "b < 64 \<Longrightarrow> utf8_continue c (word_of_nat (0x80 OR b) # cs) = utf8_continue (push_bit 6 c OR b) cs"
  using utf8_cont_of [of b] by simp

lemma and_63_less: "(x::nat) AND 63 < 64"
  by (simp add: and_63)

lemma utf8_decode_lead:
  assumes "utf8_lead c0 = Some (cp0, n)" and "length cs = n - 1" and "0 < n"
    and "utf8_continue cp0 cs = Some cp" and "code_point_ok cp"
    and "n = 2 \<Longrightarrow> 0x80 \<le> cp" and "n = 3 \<Longrightarrow> 0x800 \<le> cp" and "n = 4 \<Longrightarrow> 0x10000 \<le> cp"
  shows "utf8_decode_one (c0 # cs @ rest) = Some (cp, n)"
  using assms by (auto simp: utf8_decode_one_def code_point_ok_def)

lemma utf8_decode_bytes:
  assumes "code_point_ok cp"
  shows "utf8_decode_one (utf8_bytes cp @ rest) = Some (cp, length (utf8_bytes cp))"
proof -
  have d12: "drop_bit 12 cp = drop_bit 6 (drop_bit 6 cp)"
    and d18: "drop_bit 18 cp = drop_bit 6 (drop_bit 6 (drop_bit 6 cp))" by (simp_all add: drop_bit_drop_bit)
  consider "cp < 0x80" | "0x80 \<le> cp" "cp < 0x800" | "0x800 \<le> cp" "cp < 0x10000"
    | "0x10000 \<le> cp" "cp \<le> 0x10FFFF"
    using assms unfolding code_point_ok_def by linarith
  then show ?thesis
  proof cases
    case 1
    have "utf8_decode_one (word_of_nat cp # [] @ rest) = Some (cp, 1)"
      using utf8_lead_of(1) [of cp] 1 assms by (intro utf8_decode_lead) auto
    with 1 show ?thesis by (simp add: utf8_bytes_def)
  next
    case 2
    have "drop_bit 6 cp < 32" using 2 by (simp add: drop_bit_eq_div)
    from utf8_lead_of(2) [OF this]
    have "utf8_decode_one (word_of_nat (0xC0 OR drop_bit 6 cp) # [word_of_nat (0x80 OR (cp AND 63))] @ rest)
        = Some (cp, 2)"
      by (rule utf8_decode_lead) (use 2 assms in \<open>simp_all only: utf8_continue_step and_63_less
          split_six utf8_continue.simps(1) list.size One_nat_def add_0 diff_Suc_1 numeral_2_eq_2\<close>)
    with 2 show ?thesis by (simp add: utf8_bytes_def)
  next
    case 3
    have "drop_bit 12 cp < 16" using 3 by (simp add: drop_bit_eq_div)
    from utf8_lead_of(3) [OF this]
    have "utf8_decode_one (word_of_nat (0xE0 OR drop_bit 12 cp)
        # [word_of_nat (0x80 OR (drop_bit 6 cp AND 63)), word_of_nat (0x80 OR (cp AND 63))] @ rest)
        = Some (cp, 3)"
      by (rule utf8_decode_lead) (use 3 assms in \<open>simp_all only: utf8_continue_step and_63_less
          split_six utf8_continue.simps(1) d12\<close>, simp_all)
    with 3 show ?thesis by (simp add: utf8_bytes_def)
  next
    case 4
    have "drop_bit 18 cp < 8" using 4 by (simp add: drop_bit_eq_div)
    from utf8_lead_of(4) [OF this]
    have "utf8_decode_one (word_of_nat (0xF0 OR drop_bit 18 cp)
        # [word_of_nat (0x80 OR (drop_bit 12 cp AND 63)), word_of_nat (0x80 OR (drop_bit 6 cp AND 63)),
           word_of_nat (0x80 OR (cp AND 63))] @ rest) = Some (cp, 4)"
      by (rule utf8_decode_lead) (use 4 assms in \<open>simp_all only: utf8_continue_step and_63_less
          split_six utf8_continue.simps(1) d12 d18\<close>, simp_all)
    with 4 show ?thesis by (simp add: utf8_bytes_def)
  qed
qed

lemma six_join:
  assumes "(b::nat) < 64"
  shows "drop_bit 6 (push_bit 6 a OR b) = a" and "(push_bit 6 a OR b) AND 63 = b"
  using push_or_add [of b 6 a] assms by (simp_all add: drop_bit_eq_div and_63)

lemma utf8_continue_inv:
  assumes "utf8_continue c (ck # cs) = Some cp"
  obtains b where "b < 64" "ck = word_of_nat (0x80 OR b)" "utf8_continue (push_bit 6 c OR b) cs = Some cp"
  using assms utf8_cont_inv [of ck] by (auto split: if_splits)

lemma utf8_decode_one_inv:
  assumes "utf8_decode_one bs = Some (cp, n)"
  shows "code_point_ok cp \<and> bs = utf8_bytes cp @ drop n bs \<and> length (utf8_bytes cp) = n"
proof -
  obtain c0 cs a where bs: "bs = c0 # cs" and l: "utf8_lead c0 = Some (a, n)"
    and n: "n \<le> length bs" and c: "utf8_continue a (take (n - 1) cs) = Some cp" and ok: "code_point_ok cp"
    and min: "n = 2 \<Longrightarrow> 0x80 \<le> cp" "n = 3 \<Longrightarrow> 0x800 \<le> cp" "n = 4 \<Longrightarrow> 0x10000 \<le> cp"
    using assms
    by (auto simp: utf8_decode_one_def code_point_ok_def split: list.splits option.splits if_splits)
  have d12: "drop_bit 12 cp = drop_bit 6 (drop_bit 6 cp)"
    and d18: "drop_bit 18 cp = drop_bit 6 (drop_bit 6 (drop_bit 6 cp))" by (simp_all add: drop_bit_drop_bit)
  consider (one) "n = 1" "a < 128" "c0 = word_of_nat a" | (two) "n = 2" "a < 32" "c0 = word_of_nat (192 OR a)"
    | (three) "n = 3" "a < 16" "c0 = word_of_nat (224 OR a)" | (four) "n = 4" "a < 8" "c0 = word_of_nat (240 OR a)"
    using utf8_lead_inv [of c0] l by force
  then have "bs = utf8_bytes cp @ drop n bs \<and> length (utf8_bytes cp) = n"
  proof cases
    case one
    with c show ?thesis by (simp add: bs utf8_bytes_def)
  next
    case two
    with n obtain k1 rest where cs: "cs = k1 # rest"
      by (cases cs) (auto simp: bs)
    from c two cs have "utf8_continue a [k1] = Some cp" by (simp only: diff_Suc_1 take_Suc_Cons take_0 numeral_2_eq_2)
    then obtain b1 where b1: "b1 < 64" "k1 = word_of_nat (128 OR b1)" "cp = push_bit 6 a OR b1"
      by (elim utf8_continue_inv) simp
    have "cp < 0x800" using push_or_add [of b1 6 a] b1 two by simp
    moreover have "drop_bit 6 cp = a" "cp AND 63 = b1" using six_join b1 by simp_all
    ultimately show ?thesis using two b1(2) min by (simp add: bs cs utf8_bytes_def)
  next
    case three
    with n obtain k1 k2 rest where cs: "cs = k1 # k2 # rest"
      by (cases cs; cases "tl cs") (auto simp: bs)
    from c three cs have "utf8_continue a [k1, k2] = Some cp" by (simp add: numeral_2_eq_2)
    then obtain b1 b2 where b: "b1 < 64" "k1 = word_of_nat (128 OR b1)"
        "b2 < 64" "k2 = word_of_nat (128 OR b2)" "cp = push_bit 6 (push_bit 6 a OR b1) OR b2"
      by (elim utf8_continue_inv) simp
    have "cp < 0x10000"
      using push_or_add [of b1 6 a] push_or_add [of b2 6 "push_bit 6 a OR b1"] b three by simp
    moreover have "drop_bit 12 cp = a" "drop_bit 6 cp AND 63 = b1" "cp AND 63 = b2"
      unfolding d12 unfolding b(5) by (simp_all only: six_join b)
    ultimately show ?thesis using three b(2,4) min by (simp add: bs cs utf8_bytes_def)
  next
    case four
    with n obtain k1 k2 k3 rest where cs: "cs = k1 # k2 # k3 # rest"
      by (cases cs; cases "tl cs"; cases "tl (tl cs)") (auto simp: bs)
    from c four cs have "utf8_continue a [k1, k2, k3] = Some cp" by (simp add: numeral_3_eq_3)
    then obtain b1 b2 b3 where b: "b1 < 64" "k1 = word_of_nat (128 OR b1)"
        "b2 < 64" "k2 = word_of_nat (128 OR b2)" "b3 < 64" "k3 = word_of_nat (128 OR b3)"
        "cp = push_bit 6 (push_bit 6 (push_bit 6 a OR b1) OR b2) OR b3"
      by (elim utf8_continue_inv) simp
    have "\<not> cp < 0x80" "\<not> cp < 0x800" "\<not> cp < 0x10000" using min(3) four by simp_all
    moreover have "drop_bit 18 cp = a" "drop_bit 12 cp AND 63 = b1" "drop_bit 6 cp AND 63 = b2" "cp AND 63 = b3"
      unfolding d12 d18 unfolding b(7) by (simp_all only: six_join b)
    ultimately show ?thesis using four b(2,4,6) by (simp add: bs cs utf8_bytes_def)
  qed
  with ok show ?thesis by blast
qed

subsection \<open>Strings\<close>

text \<open>The code units a wide string can hold on the platform.\<close>

definition wide_units_ok :: "bool \<Rightarrow> wstr \<Rightarrow> bool" where
  "wide_units_ok w4 s \<longleftrightarrow> (\<forall>c \<in> set s. 0 < c \<and> (w4 \<or> c < 0x10000))"

lemma and_1023: "(v::nat) AND 1023 = v mod 1024"
proof -
  have "v AND 1023 = take_bit 10 v"
    by (simp add: take_bit_eq_mask mask_eq_exp_minus_1)
  then show ?thesis by (simp add: take_bit_eq_mod)
qed

abbreviation high_surrogate :: "nat \<Rightarrow> wchar" where
  "high_surrogate cp \<equiv> 0xD800 + drop_bit 10 (cp - 0x10000)"

abbreviation low_surrogate :: "nat \<Rightarrow> wchar" where
  "low_surrogate cp \<equiv> 0xDC00 + ((cp - 0x10000) AND 0x3FF)"

lemma next_code_point_units:
  assumes "next_code_point w4 c rest = Some (cp, rest')" and "wide_units_ok w4 (c # rest)" and "cp \<le> 0x10FFFF"
  shows "code_point_ok cp \<and> wide_units_ok w4 rest' \<and>
     (if \<not> w4 \<and> cp \<ge> 0x10000 then c = high_surrogate cp \<and> rest = low_surrogate cp # rest'
      else c = cp \<and> rest' = rest)"
proof (cases "\<not> w4 \<and> 0xD800 \<le> c \<and> c \<le> 0xDBFF")
  case True
  with assms(1) obtain lo where lo: "rest = lo # rest'" "0xDC00 \<le> lo" "lo \<le> 0xDFFF"
    and cp: "cp = 0x10000 + push_bit 10 (c - 0xD800) + (lo - 0xDC00)"
    by (auto simp: next_code_point_def Let_def split: if_splits list.splits)
  define l where "l = lo - 0xDC00"
  have "l < 1024" and lo_l: "lo = 0xDC00 + l" using lo by (simp_all add: l_def)
  have "cp - 0x10000 = 1024 * (c - 0xD800) + l"
    by (simp add: cp push_bit_eq_mult l_def)
  with \<open>l < 1024\<close> have "drop_bit 10 (cp - 0x10000) = c - 0xD800" "(cp - 0x10000) AND 0x3FF = l"
    by (simp_all add: drop_bit_eq_div and_1023)
  with True lo(1) lo_l cp assms(2,3) show ?thesis
    by (simp add: code_point_ok_def wide_units_ok_def)
next
  case False
  with assms show ?thesis
    by (auto simp: next_code_point_def code_point_ok_def wide_units_ok_def split: if_splits)
qed

lemma next_code_point_pair:
  assumes "code_point_ok cp" and "0x10000 \<le> cp"
  shows "next_code_point False (high_surrogate cp) (low_surrogate cp # s) = Some (cp, s)"
proof -
  have "cp = 0x10000 + 1024 * ((cp - 0x10000) div 1024) + (cp - 0x10000) mod 1024"
    using assms(2) by simp
  moreover have "(cp - 0x10000) div 1024 < 1024" "(cp - 0x10000) mod 1024 < 1024"
    using assms by (simp_all add: code_point_ok_def less_mult_imp_div_less)
  ultimately show ?thesis
    by (auto simp: next_code_point_def Let_def drop_bit_eq_div and_1023 push_bit_eq_mult)
qed

lemma WideFromUtf8_from_strict:
  "WideFromUtf8_from w4 cch w bs = Some s \<Longrightarrow>
     Utf8FromWide w4 s = Some bs \<and> wide_units_ok w4 s \<and> (s = [] \<or> w + length s < cch)"
proof (induction w4 cch w bs arbitrary: s rule: WideFromUtf8_from.induct)
  case (1 w4 cch w bs)
  show ?case
  proof (cases "bs = []")
    case True
    with 1(3) show ?thesis by (simp add: WideFromUtf8_from.simps wide_units_ok_def)
  next
    case False
    with 1(3) obtain cp n where d: "utf8_decode_one bs = Some (cp, n)"
      by (subst (asm) WideFromUtf8_from.simps) (auto split: option.splits)
    note inv = utf8_decode_one_inv [OF d]
    show ?thesis
    proof (cases "\<not> w4 \<and> cp \<ge> 0x10000")
      case True
      with 1(3) False d obtain s' where "\<not> w + 2 \<ge> cch" and s: "s = high_surrogate cp # low_surrogate cp # s'"
        and r: "WideFromUtf8_from w4 cch (w + 2) (drop n bs) = Some s'"
        by (subst (asm) WideFromUtf8_from.simps) (auto split: if_splits)
      with 1(1) [OF False d refl True] have IH: "Utf8FromWide w4 s' = Some (drop n bs)"
        "wide_units_ok w4 s'" "s' = [] \<or> w + 2 + length s' < cch" by auto
      have "Utf8FromWide w4 s = Some bs"
        using next_code_point_pair [of cp s'] True inv IH(1) by (simp add: s code_point_ok_def)
      moreover have "wide_units_ok w4 s"
        using IH(2) inv True by (auto simp: s wide_units_ok_def code_point_ok_def and_1023 drop_bit_eq_div)
      ultimately show ?thesis using IH(3) \<open>\<not> w + 2 \<ge> cch\<close> by (auto simp: s)
    next
      case no_pair: False
      with 1(3) False d obtain s' where "\<not> w + 1 \<ge> cch" and s: "s = cp # s'"
        and r: "WideFromUtf8_from w4 cch (w + 1) (drop n bs) = Some s'"
        by (subst (asm) WideFromUtf8_from.simps) (auto split: if_splits)
      with 1(2) [OF False d refl no_pair] have IH: "Utf8FromWide w4 s' = Some (drop n bs)"
        "wide_units_ok w4 s'" "s' = [] \<or> w + 1 + length s' < cch" by auto
      have "Utf8FromWide w4 s = Some bs"
        using no_pair inv IH(1) by (auto simp: s code_point_ok_def next_code_point_def)
      moreover have "wide_units_ok w4 s"
        using IH(2) inv no_pair by (auto simp: s wide_units_ok_def code_point_ok_def)
      ultimately show ?thesis using IH(3) \<open>\<not> w + 1 \<ge> cch\<close> by (auto simp: s)
    qed
  qed
qed

lemma WideFromUtf8_from_complete:
  "Utf8FromWide w4 s = Some bs \<Longrightarrow> wide_units_ok w4 s \<Longrightarrow> s = [] \<or> w + length s < cch \<Longrightarrow>
     WideFromUtf8_from w4 cch w bs = Some s"
proof (induction w4 s arbitrary: w bs rule: Utf8FromWide.induct)
  case (1 w4)
  then show ?case by (simp add: WideFromUtf8_from.simps)
next
  case (2 w4 c rest)
  from 2(2) obtain cp rest' bs' where n: "next_code_point w4 c rest = Some (cp, rest')"
    and le: "\<not> cp > 0x10FFFF" and bs': "Utf8FromWide w4 rest' = Some bs'" and bs: "bs = utf8_bytes cp @ bs'"
    by (auto split: option.splits if_splits)
  from next_code_point_units [OF n 2(3)] le
  have u: "code_point_ok cp" "wide_units_ok w4 rest'"
    "if \<not> w4 \<and> cp \<ge> 0x10000 then c = high_surrogate cp \<and> rest = low_surrogate cp # rest'
     else c = cp \<and> rest' = rest" by auto
  note dec = utf8_decode_bytes [OF u(1), of bs']
  have ne: "utf8_bytes cp \<noteq> []" by (simp add: utf8_bytes_def)
  note IH = 2(1) [OF n refl le bs' u(2)]
  show ?case
  proof (cases "\<not> w4 \<and> cp \<ge> 0x10000")
    case True
    with u(3) have s: "c = high_surrogate cp" "rest = low_surrogate cp # rest'" by auto
    have "WideFromUtf8_from w4 cch (w + 2) bs' = Some rest'"
      using IH [of "w + 2"] 2(4) s by auto
    with True s 2(4) show ?thesis
      by (subst WideFromUtf8_from.simps) (auto simp: bs ne dec)
  next
    case False
    with u(3) have s: "c = cp" "rest' = rest" by auto
    have "WideFromUtf8_from w4 cch (w + 1) bs' = Some rest'"
      using IH [of "w + 1"] 2(4) s by auto
    with False s 2(4) show ?thesis
      by (subst WideFromUtf8_from.simps) (auto simp: bs ne dec)
  qed
qed

text \<open>
  C40: The decoder accepts exactly what the encoder writes: a byte string decodes to \<open>s\<close> in a buffer
  of \<open>cchOut\<close> code units exactly when \<open>s\<close> is a string of the platform that encodes to these bytes and
  fits the buffer with its terminator.  No overlong form, surrogate code point, zero or truncated
  sequence is accepted, and no address has two encodings, on either width of \<open>wchar_t\<close>.
\<close>

theorem WideFromUtf8_iff:
  "WideFromUtf8 w4 bs cchOut = Some s \<longleftrightarrow>
     Utf8FromWide w4 s = Some bs \<and> wide_units_ok w4 s \<and> length s < cchOut"
  using WideFromUtf8_from_strict [of w4 cchOut 0 bs s] WideFromUtf8_from_complete [of w4 s bs 0 cchOut]
  by (auto simp: WideFromUtf8_def)

lemma Utf8FromWide_inject:
  assumes "Utf8FromWide w4 s = Some bs" and "Utf8FromWide w4 t = Some bs"
    and "wide_units_ok w4 s" and "wide_units_ok w4 t"
  shows "s = t"
  using WideFromUtf8_from_complete [of w4 s bs 0 "Suc (length s + length t)"]
    WideFromUtf8_from_complete [of w4 t bs 0 "Suc (length s + length t)"] assms by simp

text \<open>The encoder of P2PeerSeal.cpp agrees where this one succeeds.\<close>

lemma SealUtf8FromWide_agrees: "Utf8FromWide w4 s = Some bs \<Longrightarrow> SealUtf8FromWide w4 s = Some bs"
  by (induction w4 s arbitrary: bs rule: Utf8FromWide.induct) (auto split: option.splits if_splits)

lemma utf8_bytes_length: "1 \<le> length (utf8_bytes cp)" "0x10000 \<le> cp \<Longrightarrow> length (utf8_bytes cp) = 4"
  by (simp_all add: utf8_bytes_def)

lemma Utf8FromWide_length: "Utf8FromWide w4 s = Some bs \<Longrightarrow> length s \<le> length bs"
proof (induction w4 s arbitrary: bs rule: Utf8FromWide.induct)
  case (2 w4 c rest)
  then obtain cp rest' bs' where n: "next_code_point w4 c rest = Some (cp, rest')" "Utf8FromWide w4 rest' = Some bs'"
    "bs = utf8_bytes cp @ bs'" "\<not> cp > 0x10FFFF"
    by (auto split: option.splits if_splits)
  then have IH: "length rest' \<le> length bs'" using 2 by simp
  have "length (c # rest) \<le> length rest' + length (utf8_bytes cp)"
  proof (cases "rest' = rest")
    case True
    then show ?thesis using utf8_bytes_length(1) [of cp] by simp
  next
    case False
    then have "0x10000 \<le> cp" "rest' = tl rest" using n(1) by (auto simp: next_code_point_def Let_def split: if_splits)
    then show ?thesis using utf8_bytes_length(2) [of cp] by simp
  qed
  with IH n(3) show ?case by simp
qed simp

end
