(* ===== verification/AuthWire.thy ===== *)
theory AuthWire
  imports Utf8 "HOL-Library.Monad_Syntax"
begin

text \<open>
  The wire formats under P2PAuthLogin.cpp and P2PeerSeal.cpp: integer fields, the length-prefixed
  fields a signed transcript is made of, the transcripts, and the offsets of the login, ack, relay
  and revocation-list blocks.  SHA-256 is a parameter: it belongs to the platform's crypto library.
  The lemmas show that a transcript determines what was signed, and that no transcript of one kind
  is a transcript of another.
\<close>

subsection \<open>Integers\<close>

definition PutU16 :: "nat \<Rightarrow> bytes" where
  "PutU16 v = [word_of_nat (drop_bit 8 v AND 255), word_of_nat (v AND 255)]"

text \<open>A \<open>long long\<close> is the integer it stands for; the cast to unsigned is modulo \<open>2^64\<close>.\<close>

definition PutI64 :: "int \<Rightarrow> bytes" where
  "PutI64 v = be_put 8 (nat (v mod 2 ^ 64))"

definition GetI64 :: "bytes \<Rightarrow> int" where
  "GetI64 p = (let v = int (be_get (take 8 p)) in if v < 2 ^ 63 then v else v - 2 ^ 64)"

definition PutTime :: "int \<Rightarrow> bytes" where
  "PutTime ll = be_put 8 (nat (ll mod 2 ^ 64))"

definition GetTime :: "bytes \<Rightarrow> int" where
  "GetTime p = (let u = int (be_get (take 8 p)) in if u < 2 ^ 63 then u else u - 2 ^ 64)"

definition is_i64 :: "int \<Rightarrow> bool" where
  "is_i64 v \<longleftrightarrow> - (2 ^ 63) \<le> v \<and> v < 2 ^ 63"

lemma PutU16_be: "PutU16 v = be_put 2 v"
  by (simp add: PutU16_def numeral_2_eq_2)

lemma PutTime_I64: "PutTime = PutI64" and GetTime_I64: "GetTime = GetI64"
  by (simp_all add: fun_eq_iff PutTime_def PutI64_def GetTime_def GetI64_def)

interpretation u16: field_codec PutU16 be_get 2 "\<lambda>v. v < 65536"
  by unfold_locales (simp_all add: PutU16_be be_get_put)

lemma i64_mod:
  assumes "is_i64 v"
  shows "v mod 2 ^ 64 = (if 0 \<le> v then v else v + 2 ^ 64)"
  using assms mod_pos_pos_trivial [of "v + 2 ^ 64" "2 ^ 64 :: int"] mod_add_self2 [of v "2 ^ 64"]
  by (auto simp: is_i64_def)

lemma GetI64_PutI64_append: "is_i64 v \<Longrightarrow> GetI64 (PutI64 v @ rest) = v"
  using be_get_put [of 8 "nat (v mod 2 ^ 64)"] i64_mod [of v]
  by (auto simp: GetI64_def PutI64_def is_i64_def Let_def nat_less_iff split: if_splits)

interpretation i64: field_codec PutI64 GetI64 8 is_i64
  by unfold_locales (use GetI64_PutI64_append [of _ "[]"] in \<open>simp_all add: PutI64_def\<close>)

interpretation time64: field_codec PutTime GetTime 8 is_i64
  unfolding PutTime_I64 GetTime_I64 by (rule i64.field_codec_axioms)

lemma GetI64_i64 [simp]: "is_i64 (GetI64 p)"
  using be_get_bound [of "take 8 p"] power_increasing [of "length (take 8 p)" 8 "256::nat"]
  by (simp add: GetI64_def is_i64_def Let_def)

lemma PutI64_GetI64: "length p = 8 \<Longrightarrow> PutI64 (GetI64 p) = p"
proof -
  assume p: "length p = 8"
  let ?u = "be_get p"
  have u: "?u < 2 ^ 64" using be_get_bound [of p] p by simp
  have "nat (GetI64 p mod 2 ^ 64) = ?u"
  proof (cases "int ?u < 2 ^ 63")
    case True
    with p have "GetI64 p = int ?u" by (simp add: GetI64_def)
    with u show ?thesis by (simp add: nat_mod_distrib)
  next
    case False
    with p have "GetI64 p = int ?u - 2 ^ 64" by (simp add: GetI64_def)
    then have "GetI64 p mod 2 ^ 64 = int ?u"
      using u minus_mod_self2 [of "int ?u" "2 ^ 64"] by simp
    then show ?thesis by (metis nat_int)
  qed
  with p show ?thesis by (simp add: PutI64_def be_put_get)
qed

lemma PutTime_GetTime: "length p = 8 \<Longrightarrow> PutTime (GetTime p) = p"
  by (simp add: PutTime_I64 GetTime_I64 PutI64_GetI64)

lemma GetTime_append: "8 \<le> length p \<Longrightarrow> GetTime (p @ q) = GetTime p"
  by (simp add: GetTime_def)

subsection \<open>Length-prefixed fields\<close>

definition AppendField :: "bytes \<Rightarrow> bytes \<Rightarrow> bytes" where
  "AppendField s p = s @ PutU16 (take_bit 32 (length p)) @ p"

definition frame :: "bytes list \<Rightarrow> bytes" where
  "frame fs = foldl AppendField [] fs"

definition short :: "bytes \<Rightarrow> bool" where
  "short p \<longleftrightarrow> length p < 65536"

lemma AppendField_short: "short p \<Longrightarrow> AppendField s p = s @ PutU16 (length p) @ p"
  by (simp add: AppendField_def short_def take_bit_nat_eq_self)

lemma foldl_AppendField: "foldl AppendField s fs = s @ foldl AppendField [] fs"
proof (induction fs arbitrary: s)
  case (Cons f fs)
  show ?case
    using Cons [of "AppendField s f"] Cons [of "AppendField [] f"] by (simp add: AppendField_def)
qed simp

lemma frame_Nil [simp]: "frame [] = []"
  by (simp add: frame_def)

lemma frame_Cons: "frame (f # fs) = AppendField [] f @ frame fs"
  using foldl_AppendField [of "AppendField [] f" fs] by (simp add: frame_def)

lemma AppendField_frame: "AppendField (frame fs) p = frame (fs @ [p])"
  by (simp add: frame_def)

lemma frame_append: "frame (fs @ gs) = frame fs @ frame gs"
  using foldl_AppendField [of "frame fs" gs] by (simp add: frame_def)

text \<open>Two framings agree only field by field, whatever follows them.\<close>

lemma field_inject:
  assumes "short p" and "short q"
  shows "AppendField [] p @ xs = AppendField [] q @ ys \<longleftrightarrow> p = q \<and> xs = ys"
proof -
  have "PutU16 (length p) @ p @ xs = PutU16 (length q) @ q @ ys \<longleftrightarrow> length p = length q \<and> p @ xs = q @ ys"
    by (rule u16.put_append_inject) (use assms in \<open>simp_all add: short_def\<close>)
  with assms show ?thesis by (auto simp: AppendField_short)
qed

lemma frame_inject:
  assumes "length fs = length gs" and "list_all short fs" and "list_all short gs"
  shows "frame fs @ xs = frame gs @ ys \<longleftrightarrow> fs = gs \<and> xs = ys"
  using assms
proof (induction fs gs rule: list_induct2)
  case (Cons f fs g gs)
  then show ?case by (simp add: frame_Cons field_inject)
qed simp

lemma frame_inject_end:
  assumes "length fs = length gs" and "list_all short fs" and "list_all short gs"
  shows "frame fs = frame gs \<longleftrightarrow> fs = gs"
  using frame_inject [OF assms, of "[]" "[]"] by simp

subsection \<open>Login and ack\<close>

definition kAuthNonceLen :: nat where "kAuthNonceLen = 16"
definition kAuthLoginLen :: nat where "kAuthLoginLen = 91"
definition kAuthAckLen :: nat where "kAuthAckLen = 67"
definition kAuthBindLen :: nat where "kAuthBindLen = 32"
definition kEcdsaPubLen :: nat where "kEcdsaPubLen = 64"
definition kEcdsaSigLen :: nat where "kEcdsaSigLen = 64"
definition kEcdhPubLen :: nat where "kEcdhPubLen = 64"
definition kSha256Len :: nat where "kSha256Len = 32"

definition kMagic0 :: byte where "kMagic0 = 0x50"
definition kMagic1 :: byte where "kMagic1 = 0x41"
definition kVersion :: byte where "kVersion = 2"
definition kLabelLogin :: bytes where "kLabelLogin = narrow ''P2P-login-v2''"
definition kLabelAck :: bytes where "kLabelAck = narrow ''P2P-ack-v2''"
definition kLabelBind :: bytes where "kLabelBind = narrow ''P2P-kx-v1''"
definition kOffNonce :: nat where "kOffNonce = 3"
definition kOffTs :: nat where "kOffTs = 19"
definition kOffSig :: nat where "kOffSig = 27"
definition kOffAckSig :: nat where "kOffAckSig = 3"

definition Transcript ::
  "bool \<Rightarrow> bytes \<Rightarrow> wstr \<Rightarrow> wstr \<Rightarrow> bytes \<Rightarrow> int option \<Rightarrow> bytes option \<Rightarrow> bytes option" where
  "Transcript w4 pszLabel pSrc pDst pNonce pTs pBind =
     do {
       sSrc \<leftarrow> Utf8FromWide w4 pSrc;
       sDst \<leftarrow> Utf8FromWide w4 pDst;
       let s1 = AppendField [] pszLabel;
       let s2 = AppendField s1 sSrc;
       let s3 = AppendField s2 sDst;
       let s4 = AppendField s3 (take kAuthNonceLen pNonce);
       let s5 = (case pTs of None \<Rightarrow> s4 | Some ts \<Rightarrow> AppendField s4 (PutI64 ts));
       Some (AppendField s5 (case pBind of None \<Rightarrow> [] | Some b \<Rightarrow> take kAuthBindLen b))
     }"

datatype auth_header = HeaderGood | HeaderFormat | HeaderVersion

definition HeaderOk :: "bytes \<Rightarrow> auth_header" where
  "HeaderOk p = (if p ! 0 \<noteq> kMagic0 \<or> p ! 1 \<noteq> kMagic1 then HeaderFormat
                 else if p ! 2 \<noteq> kVersion then HeaderVersion else HeaderGood)"

subsection \<open>Relay attestations\<close>

definition kRelayAttesterMax :: nat where "kRelayAttesterMax = 255"
definition kRelayFixedLen :: nat where "kRelayFixedLen = 77"
definition kRelayMagic0 :: byte where "kRelayMagic0 = 0x50"
definition kRelayMagic1 :: byte where "kRelayMagic1 = 0x52"
definition kRelayVersion :: byte where "kRelayVersion = 1"
definition kLabelRelay :: bytes where "kLabelRelay = narrow ''P2P-relay-v1''"
definition kOffRelayAlen :: nat where "kOffRelayAlen = 3"
definition kOffRelayAddr :: nat where "kOffRelayAddr = 5"
definition OffRelayTs :: "nat \<Rightarrow> nat" where "OffRelayTs cbAddr = kOffRelayAddr + cbAddr"
definition OffRelaySig :: "nat \<Rightarrow> nat" where "OffRelaySig cbAddr = OffRelayTs cbAddr + 8"
definition RelayLen :: "nat \<Rightarrow> nat" where "RelayLen cbAddr = kRelayFixedLen + cbAddr"

definition RelayTranscript ::
  "(bytes \<Rightarrow> bytes option) \<Rightarrow> bool \<Rightarrow> wstr \<Rightarrow> wstr \<Rightarrow> wstr \<Rightarrow> wstr option \<Rightarrow> bytes \<Rightarrow> int \<Rightarrow> bytes option" where
  "RelayTranscript Sha256 w4 pAttester pSrc pDst pMsgName pBody llTs =
     do {
       sAtt \<leftarrow> Utf8FromWide w4 pAttester;
       sSrc \<leftarrow> Utf8FromWide w4 pSrc;
       sDst \<leftarrow> Utf8FromWide w4 pDst;
       sMsg \<leftarrow> Utf8FromWide w4 (case pMsgName of None \<Rightarrow> [] | Some n \<Rightarrow> n);
       aHash \<leftarrow> Sha256 pBody;
       let s1 = AppendField [] kLabelRelay;
       let s2 = AppendField s1 sAtt;
       let s3 = AppendField s2 sSrc;
       let s4 = AppendField s3 sDst;
       let s5 = AppendField s4 sMsg;
       let s6 = AppendField s5 (PutI64 llTs);
       Some (AppendField s6 aHash)
     }"

subsection \<open>Revocation lists\<close>

definition kRevMagic0 :: byte where "kRevMagic0 = 0x50"
definition kRevMagic1 :: byte where "kRevMagic1 = 0x56"
definition kRevVersion :: byte where "kRevVersion = 1"
definition kLabelRevList :: bytes where "kLabelRevList = narrow ''P2P-revlist-v1''"
definition kRevPointLen :: nat where "kRevPointLen = 64"
definition kRevEntryLen :: nat where "kRevEntryLen = 72"
definition kRevFixedLen :: nat where "kRevFixedLen = 2 + 1 + 8 + 2 + 64 + 64"
definition kRevMaxEntries :: nat where "kRevMaxEntries = 4096"
definition kOffRevEpoch :: nat where "kOffRevEpoch = 3"
definition kOffRevCount :: nat where "kOffRevCount = 11"
definition kOffRevEntries :: nat where "kOffRevEntries = 13"
definition OffRevIssuer :: "nat \<Rightarrow> nat" where "OffRevIssuer n = kOffRevEntries + n * kRevEntryLen"
definition OffRevSig :: "nat \<Rightarrow> nat" where "OffRevSig n = OffRevIssuer n + 64"
definition RevListLen :: "nat \<Rightarrow> nat" where "RevListLen nCount = kRevFixedLen + nCount * kRevEntryLen"

definition RevListTranscript ::
  "(bytes \<Rightarrow> bytes option) \<Rightarrow> int \<Rightarrow> nat \<Rightarrow> bytes \<Rightarrow> bytes \<Rightarrow> bytes option" where
  "RevListTranscript Sha256 llEpoch nCount pEntries pIssuer =
     do {
       aHash \<leftarrow> Sha256 (take (nCount * kRevEntryLen) pEntries);
       let s1 = AppendField [] kLabelRevList;
       let s2 = AppendField s1 (PutI64 llEpoch);
       let s3 = AppendField s2 (PutI64 (int nCount));
       let s4 = AppendField s3 aHash;
       Some (AppendField s4 (take 64 pIssuer))
     }"

subsection \<open>Sealed bodies\<close>

definition kSealVersion :: byte where "kSealVersion = 2"
definition kSealVersion1 :: byte where "kSealVersion1 = 1"
definition kSealEphLen :: nat where "kSealEphLen = 64"
definition kSealRTagLen :: nat where "kSealRTagLen = 8"
definition kSealWrapLen :: nat where "kSealWrapLen = 12 + 32 + 16"
definition kLabelAad :: bytes where "kLabelAad = narrow ''P2P-seal-aad-v1''"
definition kLabelSig :: bytes where "kLabelSig = narrow ''P2P-seal-sig-v1''"
definition kLabelKdf :: bytes where "kLabelKdf = narrow ''P2P-seal-kdf-v1''"
definition kLabelRcp :: bytes where "kLabelRcp = narrow ''P2P-seal-rcp-v2''"
definition kLabelKek :: bytes where "kLabelKek = narrow ''P2P-seal-kek-v2''"
definition kLabelWrp :: bytes where "kLabelWrp = narrow ''P2P-seal-wrp-v2''"

definition SealTranscript ::
  "bool \<Rightarrow> bytes \<Rightarrow> wstr \<Rightarrow> wstr \<Rightarrow> byte \<Rightarrow> int \<Rightarrow> bytes \<Rightarrow> bytes \<Rightarrow> bytes option" where
  "SealTranscript w4 pszLabel pSrc pDst ucVer llWhen pEph pBody =
     do {
       sSrc \<leftarrow> SealUtf8FromWide w4 pSrc;
       sDst \<leftarrow> SealUtf8FromWide w4 pDst;
       let s1 = AppendField [] pszLabel;
       let s2 = AppendField s1 [ucVer];
       let s3 = AppendField s2 (PutTime llWhen);
       let s4 = AppendField s3 sSrc;
       let s5 = AppendField s4 sDst;
       let s6 = AppendField s5 (take kSealEphLen pEph);
       Some (AppendField s6 pBody)
     }"

definition TranscriptV2 ::
  "bool \<Rightarrow> bytes \<Rightarrow> wstr \<Rightarrow> wstr \<Rightarrow> byte \<Rightarrow> int \<Rightarrow> bytes \<Rightarrow> nat \<Rightarrow> bytes \<Rightarrow> bytes option \<Rightarrow> bytes \<Rightarrow> bytes option" where
  "TranscriptV2 w4 pszLabel pSrc pDst ucVer llWhen pEph nReaders pTags pWraps pBody =
     do {
       sSrc \<leftarrow> SealUtf8FromWide w4 pSrc;
       sDst \<leftarrow> SealUtf8FromWide w4 pDst;
       let s1 = AppendField [] pszLabel;
       let s2 = AppendField s1 [ucVer];
       let s3 = AppendField s2 (PutTime llWhen);
       let s4 = AppendField s3 sSrc;
       let s5 = AppendField s4 sDst;
       let s6 = AppendField s5 (take kSealEphLen pEph);
       let s7 = AppendField s6 [word_of_nat nReaders];
       let s8 = AppendField s7 (take (nReaders * kSealRTagLen) pTags);
       let s9 = (case pWraps of None \<Rightarrow> s8 | Some w \<Rightarrow> AppendField s8 (take (nReaders * kSealWrapLen) w));
       Some (AppendField s9 pBody)
     }"

subsection \<open>What a transcript determines\<close>

definition login_fields :: "bytes \<Rightarrow> bytes \<Rightarrow> bytes \<Rightarrow> bytes \<Rightarrow> int option \<Rightarrow> bytes option \<Rightarrow> bytes list" where
  "login_fields lab src dst nonce ts bnd =
     [lab, src, dst, take kAuthNonceLen nonce] @ (case ts of None \<Rightarrow> [] | Some t \<Rightarrow> [PutI64 t])
       @ [case bnd of None \<Rightarrow> [] | Some b \<Rightarrow> take kAuthBindLen b]"

lemma Transcript_frame:
  "Transcript w4 lab src dst nonce ts bnd = Some tr \<longleftrightarrow>
     (\<exists>s d. Utf8FromWide w4 src = Some s \<and> Utf8FromWide w4 dst = Some d
        \<and> tr = frame (login_fields lab s d nonce ts bnd))"
  by (auto simp: Transcript_def login_fields_def frame_def Let_def split: option.splits bind_splits)

lemma RelayTranscript_frame:
  "RelayTranscript sha w4 att src dst nam body ts = Some tr \<longleftrightarrow>
     (\<exists>a s d n h. Utf8FromWide w4 att = Some a \<and> Utf8FromWide w4 src = Some s \<and> Utf8FromWide w4 dst = Some d
        \<and> Utf8FromWide w4 (case nam of None \<Rightarrow> [] | Some n \<Rightarrow> n) = Some n \<and> sha body = Some h
        \<and> tr = frame [kLabelRelay, a, s, d, n, PutI64 ts, h])"
  by (auto simp: RelayTranscript_def frame_def Let_def split: bind_splits)

lemma RevListTranscript_frame:
  "RevListTranscript sha epoch n entries issuer = Some tr \<longleftrightarrow>
     (\<exists>h. sha (take (n * kRevEntryLen) entries) = Some h
        \<and> tr = frame [kLabelRevList, PutI64 epoch, PutI64 (int n), h, take 64 issuer])"
  by (auto simp: RevListTranscript_def frame_def Let_def split: bind_splits)

lemma SealTranscript_frame:
  "SealTranscript w4 lab src dst ver when eph body = Some tr \<longleftrightarrow>
     (\<exists>s d. SealUtf8FromWide w4 src = Some s \<and> SealUtf8FromWide w4 dst = Some d
        \<and> tr = frame [lab, [ver], PutTime when, s, d, take kSealEphLen eph, body])"
  by (auto simp: SealTranscript_def frame_def Let_def split: bind_splits)

lemma TranscriptV2_frame:
  "TranscriptV2 w4 lab src dst ver when eph n tags wraps body = Some tr \<longleftrightarrow>
     (\<exists>s d. SealUtf8FromWide w4 src = Some s \<and> SealUtf8FromWide w4 dst = Some d
        \<and> tr = frame ([lab, [ver], PutTime when, s, d, take kSealEphLen eph, [word_of_nat n],
              take (n * kSealRTagLen) tags] @ (case wraps of None \<Rightarrow> [] | Some w \<Rightarrow> [take (n * kSealWrapLen) w]) @ [body]))"
  by (auto simp: TranscriptV2_def frame_def Let_def split: bind_splits option.splits)

lemmas label_defs = kLabelLogin_def kLabelAck_def kLabelRelay_def kLabelRevList_def
  kLabelAad_def kLabelSig_def kLabelWrp_def kLabelRcp_def narrow_def

lemma short_label: "length l \<le> 100 \<Longrightarrow> short l"
  by (simp add: short_def)

lemma short_fixed [simp]: "short (PutI64 v)" "short (PutTime v)" "short [b]"
  "short (take kAuthNonceLen n)" "short (take kAuthBindLen n)" "short []"
  by (simp_all add: short_def PutI64_def PutTime_def kAuthNonceLen_def kAuthBindLen_def)

lemma frame_Cons_eq: "short l \<Longrightarrow> short m \<Longrightarrow> frame (l # fs) = frame (m # gs) \<longleftrightarrow> l = m \<and> frame fs = frame gs"
  by (simp add: frame_Cons field_inject)

lemma labels_short [simp]:
  "short kLabelLogin" "short kLabelAck" "short kLabelRelay" "short kLabelRevList"
  "short kLabelAad" "short kLabelSig" "short kLabelWrp" "short kLabelRcp"
  by (simp_all add: short_def label_defs)

lemma labels_distinct:
  "distinct [kLabelLogin, kLabelAck, kLabelRelay, kLabelRevList, kLabelAad, kLabelSig, kLabelWrp, kLabelRcp]"
  by (simp add: label_defs)

text \<open>An address that fits a 16-bit length field when encoded.\<close>

definition address_ok :: "bool \<Rightarrow> wstr \<Rightarrow> bool" where
  "address_ok w4 a \<longleftrightarrow> wide_units_ok w4 a \<and> (case Utf8FromWide w4 a of None \<Rightarrow> False | Some b \<Rightarrow> short b)"

text \<open>
  A login or ack transcript determines what was signed: the kind, source, destination, nonce, timestamp
  and channel binding (an absent binding is not an empty one).
\<close>

lemma Transcript_determines:
  assumes "Transcript w4 l src dst nonce ts bnd = Some tr" and "Transcript w4 l' src' dst' nonce' ts' bnd' = Some tr"
    and "(l, ts = None) \<in> {(kLabelLogin, False), (kLabelAck, True)}"
    and "(l', ts' = None) \<in> {(kLabelLogin, False), (kLabelAck, True)}"
    and "list_all (address_ok w4) [src, dst, src', dst']"
    and "length nonce = kAuthNonceLen" and "length nonce' = kAuthNonceLen"
    and "\<forall>t \<in> set_option ts \<union> set_option ts'. is_i64 t"
    and "\<forall>b \<in> set_option bnd \<union> set_option bnd'. length b = kAuthBindLen"
  shows "l = l' \<and> src = src' \<and> dst = dst' \<and> nonce = nonce' \<and> ts = ts' \<and> bnd = bnd'"
proof -
  have lab: "kLabelLogin \<noteq> kLabelAck"
    using labels_distinct by simp
  obtain s d where u: "Utf8FromWide w4 src = Some s" "Utf8FromWide w4 dst = Some d"
    and t: "tr = frame (login_fields l s d nonce ts bnd)"
    using assms(1) by (auto simp: Transcript_frame)
  obtain s' d' where u': "Utf8FromWide w4 src' = Some s'" "Utf8FromWide w4 dst' = Some d'"
    and t': "tr = frame (login_fields l' s' d' nonce' ts' bnd')"
    using assms(2) by (auto simp: Transcript_frame)
  have sh: "short s" "short d" "short s'" "short d'"
    using assms(5) u u' by (simp_all add: address_ok_def)
  have "short l" "short l'" using assms(3,4) by auto
  then have ll: "l = l'"
    using t t' by (simp add: login_fields_def frame_Cons_eq)
  have "login_fields l s d nonce ts bnd = login_fields l' s' d' nonce' ts' bnd'"
  proof (rule frame_inject_end [THEN iffD1])
    show "length (login_fields l s d nonce ts bnd) = length (login_fields l' s' d' nonce' ts' bnd')"
      using ll lab assms(3,4) by (auto simp: login_fields_def split: option.splits)
    show "list_all short (login_fields l s d nonce ts bnd)"
      using sh lab assms(3) by (auto simp: login_fields_def split: option.splits)
    show "list_all short (login_fields l' s' d' nonce' ts' bnd')"
      using sh lab assms(4) by (auto simp: login_fields_def split: option.splits)
    show "frame (login_fields l s d nonce ts bnd) = frame (login_fields l' s' d' nonce' ts' bnd')"
      using t t' by simp
  qed
  then have f: "s = s'" "d = d'" "nonce = nonce'" "ts = ts'" "bnd = bnd'"
    using ll lab assms(3,4,6-9)
    by (auto simp: login_fields_def i64.put_inject kAuthBindLen_def split: option.splits)
  moreover have "src = src'" "dst = dst'"
    using f u u' assms(5) Utf8FromWide_inject by (auto simp: address_ok_def)
  ultimately show ?thesis using ll by blast
qed

lemma RelayTranscript_determines:
  assumes "RelayTranscript sha w4 att src dst nam body ts = Some tr" and "RelayTranscript sha w4 att' src' dst' nam' body' ts' = Some tr"
    and "list_all (address_ok w4) [att, src, dst, att', src', dst']"
    and "address_ok w4 (case nam of None \<Rightarrow> [] | Some n \<Rightarrow> n)" and "address_ok w4 (case nam' of None \<Rightarrow> [] | Some n \<Rightarrow> n)"
    and "is_i64 ts" and "is_i64 ts'" and "\<forall>b h. sha b = Some h \<longrightarrow> length h = kSha256Len"
  shows "att = att' \<and> src = src' \<and> dst = dst' \<and> (case nam of None \<Rightarrow> [] | Some n \<Rightarrow> n) = (case nam' of None \<Rightarrow> [] | Some n \<Rightarrow> n)
     \<and> sha body = sha body' \<and> ts = ts'"
proof -
  define nm where "nm = (case nam of None \<Rightarrow> [] | Some n \<Rightarrow> n)"
  define nm' where "nm' = (case nam' of None \<Rightarrow> [] | Some n \<Rightarrow> n)"
  obtain a s d n h where u: "Utf8FromWide w4 att = Some a" "Utf8FromWide w4 src = Some s" "Utf8FromWide w4 dst = Some d"
      "Utf8FromWide w4 nm = Some n" "sha body = Some h" and t: "tr = frame [kLabelRelay, a, s, d, n, PutI64 ts, h]"
    using assms(1) by (auto simp: RelayTranscript_frame nm_def)
  obtain a' s' d' n' h' where u': "Utf8FromWide w4 att' = Some a'" "Utf8FromWide w4 src' = Some s'" "Utf8FromWide w4 dst' = Some d'"
      "Utf8FromWide w4 nm' = Some n'" "sha body' = Some h'" and t': "tr = frame [kLabelRelay, a', s', d', n', PutI64 ts', h']"
    using assms(2) by (auto simp: RelayTranscript_frame nm'_def)
  have ok: "list_all (address_ok w4) [att, src, dst, nm, att', src', dst', nm']"
    using assms(3-5) by (simp add: nm_def nm'_def)
  have "short h" "short h'" using assms(8) u(5) u'(5) by (auto simp: short_def kSha256Len_def)
  then have "[kLabelRelay, a, s, d, n, PutI64 ts, h] = [kLabelRelay, a', s', d', n', PutI64 ts', h']"
    using t t' ok u u' by (intro frame_inject_end [THEN iffD1]) (simp_all add: address_ok_def)
  then have f: "a = a'" "s = s'" "d = d'" "n = n'" "PutI64 ts = PutI64 ts'" "h = h'" by simp_all
  have "att = att'" "src = src'" "dst = dst'" "nm = nm'"
    using f u u' ok Utf8FromWide_inject by (auto simp: address_ok_def)
  with f assms(6,7) u(5) u'(5) show ?thesis by (simp add: i64.put_inject nm_def nm'_def)
qed

text \<open>
  Domain separation.  The byte strings signed for a login or ack, a relay attestation, a
  revocation list, a version 1 sealed body and a version 2 sealed body (and those its keys are wrapped
  and its content is bound under) are all different: no signature made for one purpose is a signature
  for another, whoever chooses the fields.
\<close>

theorem transcripts_separated:
  assumes "Transcript w4 l0 src0 dst0 nonce ts bnd = Some t0" and "l0 \<in> {kLabelLogin, kLabelAck}"
    and "RelayTranscript sha w4 att src1 dst1 nam body1 ts1 = Some t1"
    and "RevListTranscript sha epoch n entries issuer = Some t2"
    and "SealTranscript w4 l3 src3 dst3 kSealVersion1 when3 eph3 body3 = Some t3" and "l3 \<in> {kLabelAad, kLabelSig}"
    and "TranscriptV2 w4 l4 src4 dst4 kSealVersion when4 eph4 m tags wraps body4 = Some t4"
    and "l4 \<in> {kLabelAad, kLabelSig, kLabelWrp}"
  shows "distinct [t0, t1, t2, t3, t4]"
proof -
  obtain f0 where 0: "t0 = frame (l0 # f0)"
    using assms(1) by (auto simp: Transcript_frame login_fields_def)
  obtain f1 where 1: "t1 = frame (kLabelRelay # f1)"
    using assms(3) by (auto simp: RelayTranscript_frame)
  obtain f2 where 2: "t2 = frame (kLabelRevList # f2)"
    using assms(4) by (auto simp: RevListTranscript_frame)
  obtain f3 where 3: "t3 = frame (l3 # [kSealVersion1] # f3)"
    using assms(5) by (auto simp: SealTranscript_frame)
  obtain f4 where 4: "t4 = frame (l4 # [kSealVersion] # f4)"
    using assms(7) by (auto simp: TranscriptV2_frame)
  have sh: "short l0" "short l3" "short l4" using assms(2,6,8) by auto
  have d: "l0 \<noteq> kLabelRelay" "l0 \<noteq> kLabelRevList" "l0 \<noteq> l3" "l0 \<noteq> l4" "kLabelRelay \<noteq> kLabelRevList"
    "kLabelRelay \<noteq> l3" "kLabelRelay \<noteq> l4" "kLabelRevList \<noteq> l3" "kLabelRevList \<noteq> l4"
    using assms(2,6,8) labels_distinct by auto
  have "[kSealVersion1] \<noteq> [kSealVersion]" by (simp add: kSealVersion_def kSealVersion1_def)
  with sh d show ?thesis by (simp add: 0 1 2 3 4 frame_Cons_eq)
qed

theorem transcripts_separated_witness:
  "\<exists>t0 t1 t2 t3 t4.
     Transcript True kLabelAck [65] [66] [] None None = Some t0
     \<and> RelayTranscript (\<lambda>b. Some [1]) True [65] [65] [66] None [] 7 = Some t1
     \<and> RevListTranscript (\<lambda>b. Some [1]) 7 0 [] [] = Some t2
     \<and> SealTranscript True kLabelSig [65] [66] kSealVersion1 7 [] [] = Some t3
     \<and> TranscriptV2 True kLabelSig [65] [66] kSealVersion 7 [] 1 [] None [] = Some t4
     \<and> distinct [t0, t1, t2, t3, t4]"
proof -
  obtain t0 t1 t2 t3 t4 where t:
    "Transcript True kLabelAck [65] [66] [] None None = Some t0"
    "RelayTranscript (\<lambda>b. Some [1]) True [65] [65] [66] None [] 7 = Some t1"
    "RevListTranscript (\<lambda>b. Some [1]) 7 0 [] [] = Some t2"
    "SealTranscript True kLabelSig [65] [66] kSealVersion1 7 [] [] = Some t3"
    "TranscriptV2 True kLabelSig [65] [66] kSealVersion 7 [] 1 [] None [] = Some t4"
    by (simp add: next_code_point_def utf8_bytes_def Transcript_def RelayTranscript_def RevListTranscript_def SealTranscript_def TranscriptV2_def)
  from transcripts_separated [OF t(1) _ t(2) t(3) t(4) _ t(5)]
  have "distinct [t0, t1, t2, t3, t4]" by simp
  with t show ?thesis by blast
qed

end
