(* ===== verification/IdentityStore.thy ===== *)
theory IdentityStore
  imports AuthWire
begin

text \<open>
  P2PIdentityStore.cpp: the key container, the text lists (allow-list, revocation list, public key
  files), and the key files.  A text is its bytes.  The file system and the operating system's key
  protection are parameters: a file is \<open>NoFile\<close>, \<open>BadFile\<close> (opening or reading fails) or its bytes
  with a flag telling that only its owner can reach it; a write either fails or leaves the file with
  the new contents (the source writes a temporary file and renames it).
\<close>

datatype IdResult = IdOk | IdErrArgs | IdErrIo | IdErrNotFound | IdErrExists | IdErrFormat
  | IdErrVersion | IdErrIntegrity | IdErrProtect | IdErrUnprotect | IdErrKey | IdErrPerms
  | IdErrUnsupported | IdErrRevoked

datatype KeyKind = KindIdentity | KindAgreement

datatype IdProtection = IdProtect_Default | IdProtect_None | IdProtect_DpapiMachine
  | IdProtect_DpapiUser | IdProtect_External

datatype disk_file = NoFile | BadFile | File (f_bytes: bytes) (f_private: bool)

definition kIdHeaderLen :: nat where "kIdHeaderLen = 48"
definition kIdPubHexChars :: nat where "kIdPubHexChars = 128"
definition kIdMaxIdentity :: nat where "kIdMaxIdentity = 255"
definition kIdRevokePointLen :: nat where "kIdRevokePointLen = 64"
definition kMaxPayload :: nat where "kMaxPayload = 64 * 1024"
definition kMaxTextFile :: nat where "kMaxTextFile = 4 * 1024 * 1024"
definition kMaxLine :: nat where "kMaxLine = 4096"

definition MagicOf :: "KeyKind \<Rightarrow> bytes" where
  "MagicOf eKind = (case eKind of
      KindAgreement \<Rightarrow> narrow ''P2PAGKY'' @ [0x1A]
    | KindIdentity \<Rightarrow> narrow ''P2PIDKY'' @ [0x1A])"

subsection \<open>Little-endian integers and hexadecimal text\<close>

definition IdPutU16 :: "nat \<Rightarrow> bytes" where
  "IdPutU16 v = [word_of_nat (v AND 255), word_of_nat (drop_bit 8 v AND 255)]"

definition IdGetU16 :: "bytes \<Rightarrow> nat" where
  "IdGetU16 p = unat (p ! 0) OR push_bit 8 (unat (p ! 1))"

definition IdPutU32 :: "nat \<Rightarrow> bytes" where
  "IdPutU32 v = [word_of_nat (v AND 255), word_of_nat (drop_bit 8 v AND 255),
                 word_of_nat (drop_bit 16 v AND 255), word_of_nat (drop_bit 24 v AND 255)]"

definition IdGetU32 :: "bytes \<Rightarrow> nat" where
  "IdGetU32 p = unat (p ! 0) OR push_bit 8 (unat (p ! 1)) OR push_bit 16 (unat (p ! 2))
                 OR push_bit 24 (unat (p ! 3))"

definition hex_digit :: "nat \<Rightarrow> byte" where
  "hex_digit n = (if n < 10 then word_of_nat (48 + n) else word_of_nat (87 + n))"

definition HexEncode :: "bytes \<Rightarrow> bytes" where
  "HexEncode pIn = concat (map (\<lambda>b. [hex_digit (drop_bit 4 (unat b)), hex_digit (unat b AND 15)]) pIn)"

definition HexNibble :: "byte \<Rightarrow> nat option" where
  "HexNibble c =
     (let n = unat c in
      if 48 \<le> n \<and> n \<le> 57 then Some (n - 48)
      else if 97 \<le> n \<and> n \<le> 102 then Some (n - 97 + 10)
      else if 65 \<le> n \<and> n \<le> 70 then Some (n - 65 + 10)
      else None)"

fun hex_pairs :: "bytes \<Rightarrow> bytes option" where
  "hex_pairs (h # l # rest) =
     do { hi \<leftarrow> HexNibble h; lo \<leftarrow> HexNibble l; bs \<leftarrow> hex_pairs rest;
          Some (word_of_nat (push_bit 4 hi OR lo) # bs) }"
| "hex_pairs _ = Some []"

definition HexDecodeExact :: "bytes \<Rightarrow> nat \<Rightarrow> bytes option" where
  "HexDecodeExact pszHex cbOut = (if length pszHex \<noteq> cbOut * 2 then None else hex_pairs pszHex)"

definition IsSpace :: "byte \<Rightarrow> bool" where
  "IsSpace c \<longleftrightarrow> c = 32 \<or> c = 9 \<or> c = 13 \<or> c = 10 \<or> c = 11 \<or> c = 12"

text \<open>The digits are added up in a \<open>long long\<close>: a value above its range wraps, as compiled.\<close>

definition wrap64 :: "int \<Rightarrow> int" where
  "wrap64 v = (v + 2 ^ 63) mod 2 ^ 64 - 2 ^ 63"

fun epoch_digits :: "int \<Rightarrow> bytes \<Rightarrow> int option" where
  "epoch_digits ll [] = Some ll"
| "epoch_digits ll (c # cs) =
     (if c < 48 \<or> c > 57 then None
      else epoch_digits (wrap64 (wrap64 (ll * 10) + (uint c - 48))) cs)"

definition ParseEpoch :: "bytes \<Rightarrow> int option" where
  "ParseEpoch psz = (if psz = [] \<or> length psz > 19 then None else epoch_digits 0 psz)"

subsection \<open>The key container\<close>

text \<open>The digest covers the first 16 bytes of the header and the payload.\<close>

definition DigestOf :: "(bytes \<Rightarrow> bytes option) \<Rightarrow> bytes \<Rightarrow> bytes \<Rightarrow> bytes option" where
  "DigestOf Sha256 pHdr pPayload = Sha256 (take 16 pHdr @ pPayload)"

definition protection_code :: "IdProtection \<Rightarrow> nat" where
  "protection_code e = (case e of IdProtect_Default \<Rightarrow> 2 ^ 32 - 1 | IdProtect_None \<Rightarrow> 0
     | IdProtect_DpapiMachine \<Rightarrow> 1 | IdProtect_DpapiUser \<Rightarrow> 2 | IdProtect_External \<Rightarrow> 3)"

definition protection_of_code :: "nat \<Rightarrow> IdProtection option" where
  "protection_of_code n = (if n = 0 then Some IdProtect_None else if n = 1 then Some IdProtect_DpapiMachine
     else if n = 2 then Some IdProtect_DpapiUser else if n = 3 then Some IdProtect_External else None)"

definition BuildContainer ::
  "(bytes \<Rightarrow> bytes option) \<Rightarrow> IdProtection \<Rightarrow> KeyKind \<Rightarrow> bytes \<Rightarrow> IdResult + bytes" where
  "BuildContainer Sha256 eProtect eKind vPayload =
     (if vPayload = [] \<or> length vPayload > kMaxPayload then Inl IdErrArgs
      else (let hdr = MagicOf eKind @ IdPutU16 1 @ IdPutU16 (protection_code eProtect) @ IdPutU32 (length vPayload)
            in case DigestOf Sha256 hdr vPayload of
                 None \<Rightarrow> Inl IdErrIo
               | Some digest \<Rightarrow> Inr (hdr @ digest @ vPayload)))"

definition ParseContainer ::
  "(bytes \<Rightarrow> bytes option) \<Rightarrow> bytes \<Rightarrow> KeyKind \<Rightarrow> IdResult + (IdProtection \<times> bytes)" where
  "ParseContainer Sha256 vFile eKind =
     (if length vFile < kIdHeaderLen then Inl IdErrFormat
      else if take 8 vFile \<noteq> MagicOf eKind then Inl IdErrFormat
      else (let nVersion = IdGetU16 (drop 8 vFile); nProtect = IdGetU16 (drop 10 vFile);
                cbClaim = IdGetU32 (drop 12 vFile)
            in if nVersion \<noteq> 1 then Inl IdErrVersion
               else case protection_of_code nProtect of None \<Rightarrow> Inl IdErrFormat
               | Some eProtect \<Rightarrow>
                 if cbClaim = 0 \<or> cbClaim > kMaxPayload then Inl IdErrFormat
                 else if length vFile \<noteq> kIdHeaderLen + cbClaim then Inl IdErrFormat
                 else case DigestOf Sha256 vFile (drop kIdHeaderLen vFile) of
                   None \<Rightarrow> Inl IdErrIo
                 | Some digest \<Rightarrow>
                   if digest \<noteq> block_at 16 kSha256Len vFile then Inl IdErrIntegrity
                   else Inr (eProtect, drop kIdHeaderLen vFile)))"

subsection \<open>Text lines\<close>

fun Tokenise :: "nat \<Rightarrow> bytes \<Rightarrow> bytes list" where
  "Tokenise 0 pLine = []"
| "Tokenise (Suc nMax) pLine =
     (let l = dropWhile IsSpace pLine
      in if l = [] \<or> hd l = 35 then []
         else takeWhile (\<lambda>c. \<not> IsSpace c \<and> c \<noteq> 35) l
              # Tokenise nMax (dropWhile (\<lambda>c. \<not> IsSpace c \<and> c \<noteq> 35) l))"

text \<open>
  The callback sees the tokens of each line that has any, in order, and its state; the first result
  that is not \<open>IdOk\<close> ends the scan.
\<close>

function ForEachLine :: "(bytes list \<Rightarrow> 's \<Rightarrow> IdResult \<times> 's) \<Rightarrow> bytes \<Rightarrow> 's \<Rightarrow> IdResult \<times> 's" where
  "ForEachLine pfnLine vText s =
     (if vText = [] then (IdOk, s)
      else (let pLine = takeWhile (\<lambda>c. c \<noteq> 10) vText
            in if length pLine > kMaxLine then (IdErrFormat, s)
               else (let aTok = Tokenise 4 pLine;
                         (r, s') = (if aTok = [] then (IdOk, s) else pfnLine aTok s)
                     in if r \<noteq> IdOk then (r, s')
                        else ForEachLine pfnLine (drop (Suc (length pLine)) vText) s')))"
  by pat_completeness auto
termination
  by (relation "measure (\<lambda>(f, t, s). length t)") auto

declare ForEachLine.simps [simp del]

definition ReadWholeFile :: "disk_file \<Rightarrow> bool \<Rightarrow> nat \<Rightarrow> IdResult + bytes" where
  "ReadWholeFile f bSecret cbMax =
     (case f of NoFile \<Rightarrow> Inl IdErrNotFound | BadFile \<Rightarrow> Inl IdErrIo
      | File bs priv \<Rightarrow> if bSecret \<and> \<not> priv then Inl IdErrPerms
                       else if length bs > cbMax then Inl IdErrFormat else Inr bs)"

text \<open>\<open>wr\<close> says whether the operating system completes the write.\<close>

definition WriteWholeFile :: "bool \<Rightarrow> disk_file \<Rightarrow> bytes \<Rightarrow> bool \<Rightarrow> bool \<Rightarrow> IdResult \<times> disk_file" where
  "WriteWholeFile wr f pData bSecret bExclusive =
     (if \<not> wr then (IdErrIo, f)
      else if bExclusive \<and> f \<noteq> NoFile then (IdErrExists, f)
      else (IdOk, File pData bSecret))"

subsection \<open>The allow-list\<close>

record allow_line =
  al_identity :: bytes
  al_pub :: bytes
  al_agree :: "bytes option"

text \<open>One line; an identity is handed over as a C string, so it ends at a NUL.\<close>

definition allow_line_of :: "bytes list \<Rightarrow> allow_line option" where
  "allow_line_of pTok =
     (if length pTok < 2 then None
      else if length (pTok ! 0) > kIdMaxIdentity then None
      else if length (pTok ! 1) \<noteq> kIdPubHexChars then None
      else do {
        pub \<leftarrow> HexDecodeExact (pTok ! 1) kEcdsaPubLen;
        agree \<leftarrow> (if length pTok \<ge> 3 then
                    (if length (pTok ! 2) \<noteq> kIdPubHexChars then None
                     else map_option Some (HexDecodeExact (pTok ! 2) kEcdhPubLen))
                  else Some None);
        Some \<lparr>al_identity = takeWhile (\<lambda>c. c \<noteq> 0) (pTok ! 0), al_pub = pub, al_agree = agree\<rparr>
      })"

definition LoadAllowList :: "disk_file \<Rightarrow> (allow_line \<Rightarrow> 's \<Rightarrow> 's) \<Rightarrow> 's \<Rightarrow> IdResult \<times> 's" where
  "LoadAllowList f pfnEntry ctx =
     (case ReadWholeFile f False kMaxTextFile of Inl r \<Rightarrow> (r, ctx)
      | Inr vText \<Rightarrow>
        ForEachLine (\<lambda>pTok s. case allow_line_of pTok of None \<Rightarrow> (IdErrFormat, s)
                              | Some e \<Rightarrow> (IdOk, pfnEntry e s)) vText ctx)"

definition allow_head :: bytes where
  "allow_head = narrow ''# Targetcore peer allow-list:'' @ [10]
     @ narrow ''#   <identity> <identity key, hex> [<agreement key, hex>]'' @ [10]"

definition allow_text :: "bytes \<Rightarrow> bytes \<Rightarrow> bytes option \<Rightarrow> bytes" where
  "allow_text pszIdentity pPub pAgree =
     pszIdentity @ [9] @ HexEncode pPub
       @ (case pAgree of None \<Rightarrow> [] | Some a \<Rightarrow> [9] @ HexEncode a) @ [10]"

text \<open>A last line without its newline is completed before the new line goes in.\<close>

definition end_line :: "bytes \<Rightarrow> bytes" where
  "end_line vText = (if vText \<noteq> [] \<and> last vText \<noteq> 10 then vText @ [10] else vText)"

definition AppendAllowList :: "bool \<Rightarrow> disk_file \<Rightarrow> bytes \<Rightarrow> bytes \<Rightarrow> bytes option \<Rightarrow> IdResult \<times> disk_file" where
  "AppendAllowList wr f pszIdentity pPub pAgree =
     (if pszIdentity = [] \<or> length pszIdentity > kIdMaxIdentity then (IdErrArgs, f)
      else if list_ex (\<lambda>c. IsSpace c \<or> c = 35) pszIdentity then (IdErrArgs, f)
      else case (case ReadWholeFile f False kMaxTextFile of
                   Inl IdErrNotFound \<Rightarrow> Inr allow_head | x \<Rightarrow> x) of
        Inl r \<Rightarrow> (r, f)
      | Inr vText \<Rightarrow> WriteWholeFile wr f (end_line vText @ allow_text pszIdentity pPub pAgree) False False)"

definition FindAllowed :: "disk_file \<Rightarrow> bytes \<Rightarrow> IdResult + allow_line" where
  "FindAllowed f pszIdentity =
     (case LoadAllowList f (\<lambda>e found. case found of Some x \<Rightarrow> Some x
          | None \<Rightarrow> if al_identity e \<noteq> pszIdentity then None else Some e) None of
        (r, found) \<Rightarrow> if r \<noteq> IdOk then Inl r
          else (case found of None \<Rightarrow> Inl IdErrNotFound | Some e \<Rightarrow> Inr e))"

subsection \<open>The revocation list\<close>

text \<open>A point and when it was revoked, 0 when the line does not say.\<close>

definition revocation_line_of :: "bytes list \<Rightarrow> (bytes \<times> int) option" where
  "revocation_line_of pTok =
     (if length pTok < 1 then None
      else if length (pTok ! 0) \<noteq> kIdPubHexChars then None
      else do {
        point \<leftarrow> HexDecodeExact (pTok ! 0) kIdRevokePointLen;
        llWhen \<leftarrow> (if length pTok \<ge> 2 then ParseEpoch (pTok ! 1) else Some 0);
        (if length pTok \<ge> 3 then None else Some (point, llWhen))
      })"

definition LoadRevocationList :: "disk_file \<Rightarrow> (bytes \<Rightarrow> int \<Rightarrow> 's \<Rightarrow> 's) \<Rightarrow> 's \<Rightarrow> IdResult \<times> 's" where
  "LoadRevocationList f pfnEntry ctx =
     (case ReadWholeFile f False kMaxTextFile of Inl r \<Rightarrow> (r, ctx)
      | Inr vText \<Rightarrow>
        ForEachLine (\<lambda>pTok s. case revocation_line_of pTok of None \<Rightarrow> (IdErrFormat, s)
                              | Some (p, w) \<Rightarrow> (IdOk, pfnEntry p w s)) vText ctx)"

definition revocation_head :: bytes where
  "revocation_head = narrow ''# Targetcore revocation list:'' @ [10]
     @ narrow ''#   <public point, hex> [<revoked-at, epoch seconds>]  # why'' @ [10]
     @ narrow ''# A listed point is refused wherever it appears - login and'' @ [10]
     @ narrow ''# sealing, identity keys and agreement keys alike. The timestamp'' @ [10]
     @ narrow ''# is a record, not a window: it is never compared to the clock.'' @ [10]"

text \<open>\<open>%lld\<close> of a value that is not negative.\<close>

fun decimal :: "nat \<Rightarrow> bytes" where
  "decimal n = (if n < 10 then [word_of_nat (48 + n)] else decimal (n div 10) @ [word_of_nat (48 + n mod 10)])"

declare decimal.simps [simp del]

definition upper_hex_digit :: "nat \<Rightarrow> byte" where
  "upper_hex_digit n = (if n < 10 then word_of_nat (48 + n) else word_of_nat (55 + n))"

definition Fingerprint :: "(bytes \<Rightarrow> bytes option) \<Rightarrow> bytes \<Rightarrow> bytes option" where
  "Fingerprint Sha256 pPub =
     do { hash \<leftarrow> Sha256 (take kEcdsaPubLen pPub);
          Some (concat (map (\<lambda>i. (if i \<noteq> 0 \<and> i mod 2 = 0 then [45] else [])
                  @ [upper_hex_digit (drop_bit 4 (unat (hash ! i))), upper_hex_digit (unat (hash ! i) AND 15)])
                [0..<16])) }"

definition revocation_text ::
  "(bytes \<Rightarrow> bytes option) \<Rightarrow> bytes \<Rightarrow> int \<Rightarrow> bytes option \<Rightarrow> bytes" where
  "revocation_text Sha256 pPoint llRevokedAt pszReason =
     HexEncode pPoint @ [9] @ decimal (nat llRevokedAt) @ [9, 35, 32]
       @ (case Fingerprint Sha256 pPoint of None \<Rightarrow> [] | Some szFp \<Rightarrow> szFp @ [32])
       @ (case pszReason of None \<Rightarrow> [] | Some r \<Rightarrow> filter (\<lambda>c. c \<noteq> 10 \<and> c \<noteq> 13) r) @ [10]"

definition AppendRevocationList ::
  "(bytes \<Rightarrow> bytes option) \<Rightarrow> int \<Rightarrow> bool \<Rightarrow> disk_file \<Rightarrow> bytes \<Rightarrow> int \<Rightarrow> bytes option \<Rightarrow> IdResult \<times> disk_file" where
  "AppendRevocationList Sha256 now wr f pPoint llRevokedAt pszReason =
     (let ll = (if llRevokedAt = 0 then now else llRevokedAt)
      in if ll < 0 then (IdErrArgs, f)
         else case (case ReadWholeFile f False kMaxTextFile of
                      Inl IdErrNotFound \<Rightarrow> Inr revocation_head | x \<Rightarrow> x) of
           Inl r \<Rightarrow> (r, f)
         | Inr vText \<Rightarrow>
           WriteWholeFile wr f (end_line vText @ revocation_text Sha256 pPoint ll pszReason) False False)"

definition IsRevoked :: "disk_file \<Rightarrow> bytes \<Rightarrow> IdResult + bool" where
  "IsRevoked f pPoint =
     (case LoadRevocationList f (\<lambda>p w hit. hit \<or> p = take kIdRevokePointLen pPoint) False of
        (r, hit) \<Rightarrow> if r \<noteq> IdOk then Inl r else Inr hit)"

subsection \<open>Key files and public key files\<close>

text \<open>
  \<open>protect\<close> and \<open>unprotect\<close> are what the platform does with a payload: nothing, DPAPI, or the external
  protector the application set.  A key is its private half.
\<close>

definition ResolveProtection :: "IdProtection \<Rightarrow> IdProtection \<Rightarrow> IdProtection" where
  "ResolveProtection platform_default eProtect =
     (if eProtect \<noteq> IdProtect_Default then eProtect else platform_default)"

definition ProtectPayload ::
  "(IdProtection \<Rightarrow> KeyKind \<Rightarrow> bytes \<Rightarrow> IdResult + bytes) \<Rightarrow> IdProtection \<Rightarrow> KeyKind \<Rightarrow> bytes \<Rightarrow> IdResult + bytes" where
  "ProtectPayload protect eProtect eKind pIn =
     (if eProtect = IdProtect_None then Inr pIn else protect eProtect eKind pIn)"

definition UnprotectPayload ::
  "(IdProtection \<Rightarrow> KeyKind \<Rightarrow> bytes \<Rightarrow> IdResult + bytes) \<Rightarrow> IdProtection \<Rightarrow> KeyKind \<Rightarrow> bytes \<Rightarrow> IdResult + bytes" where
  "UnprotectPayload unprotect eProtect eKind pIn =
     (if eProtect = IdProtect_None then Inr pIn else unprotect eProtect eKind pIn)"

definition SaveKeyFile ::
  "(bytes \<Rightarrow> bytes option) \<Rightarrow> (IdProtection \<Rightarrow> KeyKind \<Rightarrow> bytes \<Rightarrow> IdResult + bytes) \<Rightarrow> IdProtection
   \<Rightarrow> bool \<Rightarrow> disk_file \<Rightarrow> bytes \<Rightarrow> KeyKind \<Rightarrow> IdProtection \<Rightarrow> bool \<Rightarrow> IdResult \<times> disk_file" where
  "SaveKeyFile Sha256 protect platform_default wr f vPriv eKind eProtect bOverwrite =
     (let eUse = ResolveProtection platform_default eProtect
      in if eUse = IdProtect_Default then (IdErrArgs, f)
         else case ProtectPayload protect eUse eKind vPriv of
           Inl r \<Rightarrow> (r, f)
         | Inr vPayload \<Rightarrow> (case BuildContainer Sha256 eUse eKind vPayload of
             Inl r \<Rightarrow> (r, f)
           | Inr vFile \<Rightarrow> WriteWholeFile wr f vFile True (\<not> bOverwrite)))"

definition LoadKeyFile ::
  "(bytes \<Rightarrow> bytes option) \<Rightarrow> (IdProtection \<Rightarrow> KeyKind \<Rightarrow> bytes \<Rightarrow> IdResult + bytes) \<Rightarrow> (bytes \<Rightarrow> bool)
   \<Rightarrow> disk_file \<Rightarrow> KeyKind \<Rightarrow> nat \<Rightarrow> IdResult + bytes" where
  "LoadKeyFile Sha256 unprotect importable f eKind cbPriv =
     (case ReadWholeFile f True (kIdHeaderLen + kMaxPayload) of Inl r \<Rightarrow> Inl r
      | Inr vFile \<Rightarrow> (case ParseContainer Sha256 vFile eKind of Inl r \<Rightarrow> Inl r
        | Inr (eProtect, vPayload) \<Rightarrow> (case UnprotectPayload unprotect eProtect eKind vPayload of Inl r \<Rightarrow> Inl r
          | Inr vPriv \<Rightarrow> if length vPriv \<noteq> cbPriv then Inl IdErrFormat
                        else if importable vPriv then Inr vPriv else Inl IdErrKey)))"

text \<open>
  \<open>fresh\<close> is what \<open>Generate\<close> makes, \<open>f'\<close> the file as it is when the exclusive write is tried: another
  process may have created it since the first load.  The result is the key, whether this call made
  it, and the file.
\<close>

definition LoadOrCreateKeyFile ::
  "(bytes \<Rightarrow> bytes option) \<Rightarrow> (IdProtection \<Rightarrow> KeyKind \<Rightarrow> bytes \<Rightarrow> IdResult + bytes)
   \<Rightarrow> (IdProtection \<Rightarrow> KeyKind \<Rightarrow> bytes \<Rightarrow> IdResult + bytes) \<Rightarrow> (bytes \<Rightarrow> bool) \<Rightarrow> IdProtection \<Rightarrow> bool
   \<Rightarrow> disk_file \<Rightarrow> disk_file \<Rightarrow> bytes option \<Rightarrow> KeyKind \<Rightarrow> nat \<Rightarrow> IdProtection
   \<Rightarrow> (IdResult + bytes \<times> bool) \<times> disk_file" where
  "LoadOrCreateKeyFile Sha256 protect unprotect importable platform_default wr f f' fresh eKind cbPriv eProtect =
     (case LoadKeyFile Sha256 unprotect importable f eKind cbPriv of
        Inr k \<Rightarrow> (Inr (k, False), f')
      | Inl r \<Rightarrow> if r \<noteq> IdErrNotFound then (Inl r, f')
        else (case fresh of None \<Rightarrow> (Inl IdErrKey, f')
          | Some k \<Rightarrow> (case SaveKeyFile Sha256 protect platform_default wr f' k eKind eProtect False of
              (r', f'') \<Rightarrow>
                if r' = IdErrExists then
                  ((case LoadKeyFile Sha256 unprotect importable f'' eKind cbPriv of
                      Inl e \<Rightarrow> Inl e | Inr k' \<Rightarrow> Inr (k', False)), f'')
                else if r' \<noteq> IdOk then (Inl r', f'')
                else (Inr (k, True), f''))))"

definition SavePublicFile ::
  "(bytes \<Rightarrow> bytes option) \<Rightarrow> bool \<Rightarrow> disk_file \<Rightarrow> bytes \<Rightarrow> bytes \<Rightarrow> bytes \<Rightarrow> IdResult \<times> disk_file" where
  "SavePublicFile Sha256 wr f pub pszWhat pszCannot =
     (case Fingerprint Sha256 pub of None \<Rightarrow> (IdErrKey, f)
      | Some szPrint \<Rightarrow>
        WriteWholeFile wr f
          (narrow ''# Targetcore '' @ pszWhat @ narrow '' public key - P-256, raw X||Y, hex.'' @ [10]
           @ narrow ''# Publishable: this is the half a peer needs in order to'' @ [10]
           @ narrow ''# '' @ pszCannot @ [10] @ narrow ''# fingerprint: '' @ szPrint @ [10]
           @ HexEncode pub @ [10]) False False)"

definition public_token :: "bytes list \<Rightarrow> bytes option" where
  "public_token pTok =
     (case List.find (\<lambda>t. length t = kIdPubHexChars \<and> HexDecodeExact t kEcdsaPubLen \<noteq> None) pTok of
        None \<Rightarrow> None | Some t \<Rightarrow> HexDecodeExact t kEcdsaPubLen)"

definition LoadPublicFile :: "(bytes \<Rightarrow> bool) \<Rightarrow> disk_file \<Rightarrow> IdResult + bytes" where
  "LoadPublicFile importable f =
     (case ReadWholeFile f False kMaxTextFile of Inl r \<Rightarrow> Inl r
      | Inr vText \<Rightarrow>
        (case ForEachLine (\<lambda>pTok found. case found of Some p \<Rightarrow> (IdOk, Some p)
               | None \<Rightarrow> (IdOk, public_token pTok)) vText None of
           (r, found) \<Rightarrow> if r \<noteq> IdOk then Inl r
             else (case found of None \<Rightarrow> Inl IdErrFormat
                   | Some pub \<Rightarrow> if importable pub then Inr pub else Inl IdErrKey)))"

subsection \<open>Hexadecimal and decimal text\<close>

text \<open>What the tokeniser keeps in one piece.\<close>

definition token_byte :: "byte \<Rightarrow> bool" where
  "token_byte c \<longleftrightarrow> \<not> IsSpace c \<and> c \<noteq> 35"

lemma hex_digit_table:
  "list_all (\<lambda>n. HexNibble (hex_digit n) = Some n \<and> token_byte (hex_digit n)) [0..<16]"
  by (simp add: upt_from_0 upt_rec_numeral hex_digit_def HexNibble_def token_byte_def IsSpace_def)

lemma hex_digit: "n < 16 \<Longrightarrow> HexNibble (hex_digit n) = Some n" "n < 16 \<Longrightarrow> token_byte (hex_digit n)"
  using hex_digit_table [THEN list_all_uptD, of n] by auto

lemma and_15: "(v::nat) AND 15 = v mod 16"
proof -
  have "v AND 15 = take_bit 4 v"
    by (simp add: take_bit_eq_mask mask_eq_exp_minus_1)
  then show ?thesis by (simp add: take_bit_eq_mod)
qed

lemma nibbles:
  fixes b :: byte
  shows "drop_bit 4 (unat b) < 16" and "unat b AND 15 < 16"
    and "word_of_nat (push_bit 4 (drop_bit 4 (unat b)) OR (unat b AND 15)) = b"
proof -
  show "drop_bit 4 (unat b) < 16" using unat_byte_less [of b] by (simp add: drop_bit_eq_div)
  show *: "unat b AND 15 < 16" by (simp add: and_15)
  have "push_bit 4 (drop_bit 4 (unat b)) OR (unat b AND 15) = unat b"
    using push_or_add [of "unat b AND 15" 4 "drop_bit 4 (unat b)"] * by (simp add: and_15 drop_bit_eq_div)
  then show "word_of_nat (push_bit 4 (drop_bit 4 (unat b)) OR (unat b AND 15)) = b" by simp
qed

lemma HexEncode_simps [simp]:
  "HexEncode [] = []"
  "HexEncode (b # bs) = hex_digit (drop_bit 4 (unat b)) # hex_digit (unat b AND 15) # HexEncode bs"
  by (simp_all add: HexEncode_def)

lemma length_HexEncode [simp]: "length (HexEncode bs) = 2 * length bs"
  by (induction bs) auto

lemma HexEncode_tokens: "list_all token_byte (HexEncode bs)"
  by (induction bs) (auto simp: hex_digit nibbles)

lemma hex_pairs_HexEncode: "hex_pairs (HexEncode bs) = Some bs"
  by (induction bs) (auto simp: hex_digit nibbles)

lemma HexDecodeExact_HexEncode [simp]: "length bs = n \<Longrightarrow> HexDecodeExact (HexEncode bs) n = Some bs"
  by (simp add: HexDecodeExact_def hex_pairs_HexEncode)

lemma wrap64_id: "is_i64 v \<Longrightarrow> wrap64 v = v"
  by (auto simp: wrap64_def is_i64_def)

lemma epoch_digits_append:
  "epoch_digits v (xs @ ys) = Option.bind (epoch_digits v xs) (\<lambda>w. epoch_digits w ys)"
  by (induction xs arbitrary: v) auto

lemma digit_table:
  "list_all (\<lambda>d. token_byte (word_of_nat (48 + d)) \<and> uint (word_of_nat (48 + d) :: byte) = 48 + int d
      \<and> \<not> (word_of_nat (48 + d) :: byte) < 48 \<and> \<not> (word_of_nat (48 + d) :: byte) > 57) [0..<10]"
  by (simp add: upt_from_0 upt_rec_numeral token_byte_def IsSpace_def)

lemmas digit = digit_table [THEN list_all_uptD]

lemma decimal_tokens: "list_all token_byte (decimal n)"
proof (induction n rule: decimal.induct)
  case (1 n)
  have "token_byte (word_of_nat (48 + n mod 10))" using digit [of "n mod 10"] by simp
  moreover have "n < 10 \<Longrightarrow> token_byte (word_of_nat (48 + n))" using digit [of n] by simp
  ultimately show ?case
    using 1 unfolding decimal.simps [of n] by simp
qed

lemma epoch_digit:
  assumes "d < 10" and "is_i64 (v * 10)" and "is_i64 (v * 10 + int d)"
  shows "epoch_digits v [word_of_nat (48 + d)] = Some (v * 10 + int d)"
  using digit [OF assms(1)] assms by (simp only: epoch_digits.simps) (simp add: wrap64_id)

lemma epoch_decimal: "n < 2 ^ 63 \<Longrightarrow> epoch_digits 0 (decimal n) = Some (int n)"
proof (induction n rule: decimal.induct)
  case (1 n)
  show ?case
  proof (cases "n < 10")
    case True
    then have "epoch_digits 0 [word_of_nat (48 + n)] = Some (int n)"
      using epoch_digit [of n 0] by (simp only: is_i64_def mult_zero_left add_0) simp
    with True show ?thesis unfolding decimal.simps [of n] by (simp only: if_True)
  next
    case False
    then have "epoch_digits 0 (decimal (n div 10)) = Some (int (n div 10))"
      using 1 by simp
    moreover have "epoch_digits (int (n div 10)) [word_of_nat (48 + n mod 10)] = Some (int n)"
    proof -
      have e: "int (n div 10) * 10 + int (n mod 10) = int n" by (metis div_mult_mod_eq of_nat_add of_nat_mult of_nat_numeral)
      have "int (n div 10) * 10 \<le> int n" using e by linarith
      then show ?thesis
        using epoch_digit [of "n mod 10" "int (n div 10)"] 1(2) e by (simp add: is_i64_def)
    qed
    ultimately show ?thesis
      using False unfolding decimal.simps [of n] by (simp only: epoch_digits_append if_False bind.bind_lunit)
  qed
qed

lemma decimal_length: "n < 10 ^ k \<Longrightarrow> 0 < k \<Longrightarrow> length (decimal n) \<le> k"
proof (induction k arbitrary: n)
  case (Suc k)
  show ?case
  proof (cases "n < 10")
    case False
    with Suc.prems have "0 < k" by (cases k) auto
    moreover have "n div 10 < 10 ^ k" using Suc.prems by (simp add: less_mult_imp_div_less)
    ultimately have "length (decimal (n div 10)) \<le> k" using Suc.IH by blast
    with False show ?thesis by (subst decimal.simps) simp
  qed (subst decimal.simps, simp)
qed simp

lemma decimal_nonempty: "decimal n \<noteq> []"
  by (subst decimal.simps) simp

lemma ParseEpoch_decimal: "n < 2 ^ 63 \<Longrightarrow> ParseEpoch (decimal n) = Some (int n)"
  using decimal_length [of n 19] by (simp add: ParseEpoch_def decimal_nonempty epoch_decimal)

subsection \<open>Lines\<close>

lemma Tokenise_space: "IsSpace c \<Longrightarrow> Tokenise (Suc n) (c # l) = Tokenise (Suc n) l"
  by simp

lemma Tokenise_end: "Tokenise n [] = []"
  by (cases n) auto

lemma Tokenise_hash: "Tokenise n (35 # l) = []"
  by (cases n) (auto simp: IsSpace_def)

lemma Tokenise_token:
  assumes "list_all token_byte tk" and "tk \<noteq> []" and "rest = [] \<or> \<not> token_byte (hd rest)"
  shows "Tokenise (Suc n) (tk @ rest) = tk # Tokenise n rest"
proof -
  let ?P = "\<lambda>c. \<not> IsSpace c \<and> c \<noteq> (35::byte)"
  have all: "\<forall>c \<in> set tk. ?P c" using assms(1) by (auto simp: list_all_iff token_byte_def)
  obtain c cs where tk: "tk = c # cs" using assms(2) by (cases tk) auto
  have d: "dropWhile IsSpace (tk @ rest) = tk @ rest" using all tk by simp
  have t: "takeWhile ?P (tk @ rest) = tk" and w: "dropWhile ?P (tk @ rest) = rest"
    using all assms(3) by (cases rest; auto simp: takeWhile_append dropWhile_append token_byte_def)+
  show ?thesis
    unfolding Tokenise.simps d Let_def t w using all tk by simp
qed

lemma takeWhile_line: "10 \<notin> set l \<Longrightarrow> takeWhile (\<lambda>c. c \<noteq> (10::byte)) (l @ 10 # rest) = l"
  by (simp add: takeWhile_append2 takeWhile_tail) (metis takeWhile_eq_all_conv)

lemma ForEachLine_step:
  assumes "10 \<notin> set l" and "length l \<le> kMaxLine"
  shows "ForEachLine f (l @ 10 # rest) s =
     (case (if Tokenise 4 l = [] then (IdOk, s) else f (Tokenise 4 l) s) of
        (r, s') \<Rightarrow> if r \<noteq> IdOk then (r, s') else ForEachLine f rest s')"
proof -
  have "takeWhile (\<lambda>c. c \<noteq> 10) (l @ 10 # rest) = l"
    by (rule takeWhile_line [OF assms(1)])
  moreover have "drop (Suc (length l)) (l @ 10 # rest) = rest" by simp
  ultimately show ?thesis
    using assms(2) unfolding ForEachLine.simps [of f "l @ 10 # rest"] by (simp only: Let_def not_less) simp
qed

lemma ForEachLine_long:
  assumes "10 \<notin> set l" and "length l > kMaxLine"
  shows "ForEachLine f (l @ 10 # rest) s = (IdErrFormat, s)"
proof -
  have "takeWhile (\<lambda>c. c \<noteq> 10) (l @ 10 # rest) = l"
    by (rule takeWhile_line [OF assms(1)])
  then show ?thesis
    using assms(2) by (subst ForEachLine.simps) (simp add: Let_def)
qed

lemma ForEachLine_Nil [simp]: "ForEachLine f [] s = (IdOk, s)"
  by (subst ForEachLine.simps) simp

lemma ForEachLine_append:
  assumes "t = [] \<or> last t = 10"
  shows "ForEachLine f (t @ u) s =
     (case ForEachLine f t s of (r, s') \<Rightarrow> if r \<noteq> IdOk then (r, s') else ForEachLine f u s')"
  using assms
proof (induction t arbitrary: s rule: length_induct)
  case (1 t)
  show ?case
  proof (cases "t = []")
    case False
    with 1(2) have "10 \<in> set t" by (metis last_in_set)
    then obtain l t' where t: "t = l @ 10 # t'" and l: "10 \<notin> set l"
      by (meson split_list_first)
    have t': "t' = [] \<or> last t' = 10" using 1(2) t by (cases "t' = []") auto
    have IH: "ForEachLine f (t' @ u) s' =
        (case ForEachLine f t' s' of (r, s') \<Rightarrow> if r \<noteq> IdOk then (r, s') else ForEachLine f u s')" for s'
      using 1(1) [rule_format, of t' s'] t' by (cases "t' = []") (simp_all add: t)
    show ?thesis
    proof (cases "length l > kMaxLine")
      case True
      then show ?thesis using ForEachLine_long [OF l, of f] by (simp add: t)
    next
      case False
      then show ?thesis
        using ForEachLine_step [OF l, of f] by (auto simp: t IH split: prod.splits)
    qed
  qed simp
qed

lemma ForEachLine_end_line: "ForEachLine f (end_line t) s = ForEachLine f t s"
proof (cases "t = [] \<or> last t = 10")
  case False
  let ?P = "\<lambda>c. c \<noteq> (10::byte)"
  define l h where "l = rev (takeWhile ?P (rev t))" and "h = rev (dropWhile ?P (rev t))"
  have t: "t = h @ l"
    unfolding l_def h_def by (metis rev_append rev_rev_ident takeWhile_dropWhile_id)
  have l: "10 \<notin> set l" unfolding l_def by (auto dest: set_takeWhileD)
  have h: "h = [] \<or> last h = 10"
    using hd_dropWhile [of ?P "rev t"] by (cases "dropWhile ?P (rev t)") (simp_all add: h_def last_rev)
  have e1: "takeWhile ?P l = l" by (subst takeWhile_eq_all_conv) (use l in auto)
  have d1: "drop (Suc (length l)) (l @ [10]) = []" and d2: "drop (Suc (length l)) l = []" by simp_all
  have e2: "takeWhile ?P (l @ [10]) = l" by (rule takeWhile_line [OF l])
  have "ForEachLine f (l @ [10]) s' = ForEachLine f l s'" if "l \<noteq> []" for s'
    unfolding ForEachLine.simps [of f "l @ [10]"] ForEachLine.simps [of f l] e1 e2 d1 d2 Let_def
    using that by simp
  moreover have "ForEachLine f [10] s' = (IdOk, s')" for s'
    by (subst ForEachLine.simps) (simp add: kMaxLine_def Let_def Tokenise_end)
  ultimately have "ForEachLine f (l @ [10]) s' = ForEachLine f l s'" for s'
    by (cases "l = []") simp_all
  then show ?thesis
    using ForEachLine_append [OF h, of f l s] ForEachLine_append [OF h, of f "l @ [10]" s] False
    by (simp add: end_line_def t split: prod.split)
qed (auto simp: end_line_def)

lemma ForEachLine_comment:
  assumes "10 \<notin> set l" and "length l < kMaxLine"
  shows "ForEachLine f (35 # l @ 10 # rest) s = ForEachLine f rest s"
  using ForEachLine_step [of "35 # l" f rest s] assms by (simp add: Tokenise_hash)

lemma token_bytes_no_newline: "list_all token_byte tk \<Longrightarrow> 10 \<notin> set tk"
  by (auto simp: list_all_iff token_byte_def IsSpace_def)

lemma IsSpace_tab [simp]: "IsSpace 9" "\<not> token_byte 9"
  by (simp_all add: IsSpace_def token_byte_def)

lemma Tokenise_two:
  assumes "list_all token_byte a" "a \<noteq> []" "list_all token_byte b" "b \<noteq> []"
    and "rest = [] \<or> \<not> token_byte (hd rest)"
  shows "Tokenise (Suc (Suc n)) (a @ 9 # b @ rest) = a # b # Tokenise n rest"
proof -
  have "Tokenise (Suc (Suc n)) (a @ 9 # b @ rest) = a # Tokenise (Suc n) (9 # b @ rest)"
    using assms by (intro Tokenise_token) auto
  also have "Tokenise (Suc n) (9 # b @ rest) = b # Tokenise n rest"
    unfolding Tokenise_space [OF IsSpace_tab(1)] using assms by (intro Tokenise_token)
  finally show ?thesis .
qed

subsection \<open>Appending to a list and reading it back\<close>

lemma allow_line_read:
  assumes who: "who \<noteq> []" "length who \<le> kIdMaxIdentity" "list_all token_byte who" "0 \<notin> set who"
    and pub: "length pub = kEcdsaPubLen" and agree: "\<forall>a \<in> set_option agree. length a = kEcdhPubLen"
  shows "ForEachLine (\<lambda>pTok s. case allow_line_of pTok of None \<Rightarrow> (IdErrFormat, s)
                              | Some e \<Rightarrow> (IdOk, sink e s)) (allow_text who pub agree) s
       = (IdOk, sink \<lparr>al_identity = who, al_pub = pub, al_agree = agree\<rparr> s)"
proof -
  have ne: "HexEncode pub \<noteq> []" using pub by (cases pub) (auto simp: kEcdsaPubLen_def)
  have nul: "takeWhile (\<lambda>c. c \<noteq> 0) who = who" by (subst takeWhile_eq_all_conv) (use who(4) in auto)
  show ?thesis
  proof (cases agree)
    case None
    have tok: "Tokenise 4 (who @ 9 # HexEncode pub) = [who, HexEncode pub]"
      using Tokenise_two [OF who(3,1) HexEncode_tokens ne, of "[]" 2] by (simp add: Tokenise_end)
    have "ForEachLine f (allow_text who pub agree) s = f [who, HexEncode pub] s" for f :: "bytes list \<Rightarrow> 'a \<Rightarrow> IdResult \<times> 'a"
      using ForEachLine_step [of "who @ 9 # HexEncode pub" f "[]" s] who pub None HexEncode_tokens [of pub]
      by (auto simp: allow_text_def tok token_bytes_no_newline kMaxLine_def kIdMaxIdentity_def kEcdsaPubLen_def
          split: prod.splits)
    then show ?thesis
      using who pub None by (simp add: nul allow_line_of_def kIdPubHexChars_def kEcdsaPubLen_def)
  next
    case (Some ag)
    then have ag: "length ag = kEcdhPubLen" using agree by simp
    then have ne': "HexEncode ag \<noteq> []" by (cases ag) (auto simp: kEcdhPubLen_def)
    have "Tokenise (Suc (Suc 2)) (who @ 9 # HexEncode pub @ 9 # HexEncode ag) = who # HexEncode pub # Tokenise 2 (9 # HexEncode ag)"
      using Tokenise_two [OF who(3,1) HexEncode_tokens ne, of "9 # HexEncode ag" 2] by simp
    also have "Tokenise 2 (9 # HexEncode ag) = [HexEncode ag]"
      using Tokenise_token [OF HexEncode_tokens ne', of "[]" 1]
      by (simp add: numeral_2_eq_2 Tokenise_space Tokenise_end del: Tokenise.simps)
    finally have tok: "Tokenise 4 (who @ 9 # HexEncode pub @ 9 # HexEncode ag) = [who, HexEncode pub, HexEncode ag]"
      by simp
    have "ForEachLine f (allow_text who pub agree) s = f [who, HexEncode pub, HexEncode ag] s"
      for f :: "bytes list \<Rightarrow> 'a \<Rightarrow> IdResult \<times> 'a"
      using ForEachLine_step [of "who @ 9 # HexEncode pub @ 9 # HexEncode ag" f "[]" s] who pub ag Some
        HexEncode_tokens [of pub] HexEncode_tokens [of ag]
      by (auto simp: allow_text_def tok token_bytes_no_newline kMaxLine_def kIdMaxIdentity_def kEcdsaPubLen_def
          kEcdhPubLen_def split: prod.splits)
    then show ?thesis
      using who pub ag Some
      by (simp add: nul allow_line_of_def kIdPubHexChars_def kEcdsaPubLen_def kEcdhPubLen_def)
  qed
qed

lemma comment_lines [simp]:
  "10 \<notin> set (narrow '' Targetcore peer allow-list:'')"
  "length (narrow '' Targetcore peer allow-list:'') < kMaxLine"
  "10 \<notin> set (narrow ''   <identity> <identity key, hex> [<agreement key, hex>]'')"
  "length (narrow ''   <identity> <identity key, hex> [<agreement key, hex>]'') < kMaxLine"
  by (simp_all add: narrow_def kMaxLine_def)

lemma allow_head_lines:
  "allow_head = 35 # narrow '' Targetcore peer allow-list:'' @ 10 #
      35 # narrow ''   <identity> <identity key, hex> [<agreement key, hex>]'' @ [10]"
  by (simp add: allow_head_def narrow_def)

lemma allow_head_read: "ForEachLine f allow_head s = (IdOk, s)"
  unfolding allow_head_lines by (simp add: ForEachLine_comment)

subsection \<open>Properties\<close>

lemma AppendAllowList_inv:
  assumes "AppendAllowList True f who pub agree = (IdOk, f')"
  obtains t where "f' = File (end_line t @ allow_text who pub agree) False"
    and "f = NoFile \<and> t = allow_head \<or> ReadWholeFile f False kMaxTextFile = Inr t"
    and "who \<noteq> []" "length who \<le> kIdMaxIdentity" "list_all token_byte who"
  using assms
  by (auto simp: AppendAllowList_def WriteWholeFile_def ReadWholeFile_def token_byte_def list_all_iff list_ex_iff
      split: if_splits sum.splits IdResult.splits disk_file.splits)

text \<open>
  A line \<open>AppendAllowList\<close> adds is read back as it was given, after everything the list held: if
  the file was readable and complete (or did not exist) and the new one is within the size bound,
  loading it hands over the old entries in order and then the new one.  A last line that lacked its
  newline is not glued to the new one.
\<close>

theorem AppendAllowList_adds:
  assumes "AppendAllowList True f who pub agree = (IdOk, f')"
    and "f = NoFile \<and> s' = s \<or> LoadAllowList f sink s = (IdOk, s')"
    and "length pub = kEcdsaPubLen" and "\<forall>a \<in> set_option agree. length a = kEcdhPubLen" and "0 \<notin> set who"
    and "length (f_bytes f') \<le> kMaxTextFile"
  shows "LoadAllowList f' sink s = (IdOk, sink \<lparr>al_identity = who, al_pub = pub, al_agree = agree\<rparr> s')"
proof -
  obtain t where f': "f' = File (end_line t @ allow_text who pub agree) False"
    and t: "f = NoFile \<and> t = allow_head \<or> ReadWholeFile f False kMaxTextFile = Inr t"
    and who: "who \<noteq> []" "length who \<le> kIdMaxIdentity" "list_all token_byte who"
    by (rule AppendAllowList_inv [OF assms(1)])
  let ?cb = "\<lambda>pTok s. case allow_line_of pTok of None \<Rightarrow> (IdErrFormat, s) | Some e \<Rightarrow> (IdOk, sink e s)"
  have old: "ForEachLine ?cb (end_line t) s = (IdOk, s')"
    using t assms(2) by (auto simp: LoadAllowList_def ReadWholeFile_def allow_head_read ForEachLine_end_line)
  have "end_line t = [] \<or> last (end_line t) = 10" by (simp add: end_line_def)
  from ForEachLine_append [OF this, of ?cb "allow_text who pub agree" s]
  have "ForEachLine ?cb (end_line t @ allow_text who pub agree) s
      = (IdOk, sink \<lparr>al_identity = who, al_pub = pub, al_agree = agree\<rparr> s')"
    using old allow_line_read [OF who assms(5,3,4), of sink s'] by simp
  then show ?thesis using assms(6) by (simp add: LoadAllowList_def ReadWholeFile_def f')
qed

theorem AppendAllowList_adds_witness:
  "\<exists>f'. AppendAllowList True NoFile [65] (replicate 64 7) None = (IdOk, f')
     \<and> LoadAllowList f' (\<lambda>e s. al_identity e # s) [] = (IdOk, [[65]])"
proof -
  let ?f' = "File (end_line allow_head @ allow_text [65] (replicate 64 7) None) False"
  have a: "AppendAllowList True NoFile [65] (replicate 64 7) None = (IdOk, ?f')"
    by (simp add: AppendAllowList_def ReadWholeFile_def WriteWholeFile_def IsSpace_def kIdMaxIdentity_def)
  have "LoadAllowList ?f' (\<lambda>e s. al_identity e # s) [] =
      (IdOk, (\<lambda>e s. al_identity e # s) \<lparr>al_identity = [65], al_pub = replicate 64 7, al_agree = None\<rparr> [])"
    by (rule AppendAllowList_adds [OF a])
       (simp_all add: kEcdsaPubLen_def kMaxTextFile_def allow_head_def allow_text_def narrow_def end_line_def)
  with a show ?thesis by auto
qed

subsection \<open>Key containers\<close>

lemma and_255_take: "(v::nat) AND 255 = take_bit 8 v"
  by (simp add: take_bit_eq_mask mask_eq_exp_minus_1)

lemma unat_low_byte: "unat (word_of_nat (v AND 255) :: byte) = take_bit 8 v"
  by (simp add: and_255_take unsigned_of_nat)

lemma IdGetU16_put: "IdGetU16 (IdPutU16 v @ rest) = take_bit 16 v"
proof -
  have "take_bit 8 v OR push_bit 8 (take_bit 8 (drop_bit 8 v)) = take_bit 16 v"
    by (rule bit_eqI) (auto simp: bit_simps)
  then show ?thesis by (simp add: IdGetU16_def IdPutU16_def unat_low_byte)
qed

lemma IdGetU32_put: "IdGetU32 (IdPutU32 v @ rest) = take_bit 32 v"
proof -
  have "take_bit 8 v OR push_bit 8 (take_bit 8 (drop_bit 8 v)) OR push_bit 16 (take_bit 8 (drop_bit 16 v))
      OR push_bit 24 (take_bit 8 (drop_bit 24 v)) = take_bit 32 v"
  proof (rule bit_eqI)
    fix n
    show "bit (take_bit 8 v OR push_bit 8 (take_bit 8 (drop_bit 8 v)) OR push_bit 16 (take_bit 8 (drop_bit 16 v))
      OR push_bit 24 (take_bit 8 (drop_bit 24 v))) n \<longleftrightarrow> bit (take_bit 32 v) n"
      by (cases "n < 8"; cases "n < 16"; cases "n < 24"; cases "n < 32") (auto simp: bit_simps)
  qed
  then show ?thesis by (simp add: IdGetU32_def IdPutU32_def unat_low_byte)
qed

lemma container_lengths [simp]:
  "length (MagicOf k) = 8" "length (IdPutU16 v) = 2" "length (IdPutU32 v) = 4"
  by (simp_all add: MagicOf_def IdPutU16_def IdPutU32_def narrow_def split: KeyKind.split)

lemma MagicOf_inject [simp]: "MagicOf k = MagicOf k' \<longleftrightarrow> k = k'"
  by (cases k; cases k') (simp_all add: MagicOf_def narrow_def)

lemma protection_codec:
  "e \<noteq> IdProtect_Default \<Longrightarrow> protection_of_code (take_bit 16 (protection_code e)) = Some e"
  by (cases e) (simp_all add: protection_of_code_def protection_code_def)

lemma ParseContainer_Build:
  assumes b: "BuildContainer sha e k p = Inr c" and e: "e \<noteq> IdProtect_Default"
    and sha: "\<forall>x d. sha x = Some d \<longrightarrow> length d = kSha256Len"
  shows "ParseContainer sha c k' = (if k' = k then Inr (e, p) else Inl IdErrFormat)"
proof -
  let ?h = "MagicOf k @ IdPutU16 1 @ IdPutU16 (protection_code e) @ IdPutU32 (length p)"
  obtain d where d: "DigestOf sha ?h p = Some d" and c: "c = ?h @ d @ p"
    and p: "p \<noteq> []" "length p \<le> kMaxPayload"
    using b by (auto simp: BuildContainer_def Let_def split: if_splits option.splits)
  have dl: "length d = 32" using d sha by (auto simp: DigestOf_def kSha256Len_def)
  have "ParseContainer sha c k' = Inl IdErrFormat" if "k' \<noteq> k"
    using that dl by (simp add: ParseContainer_def c kIdHeaderLen_def)
  moreover have "ParseContainer sha c k = Inr (e, p)"
  proof -
    have "IdGetU16 (drop 8 c) = 1" "protection_of_code (IdGetU16 (drop 10 c)) = Some e"
      "IdGetU32 (drop 12 c) = length p"
      using IdGetU16_put [of 1] IdGetU16_put [of "protection_code e"] IdGetU32_put [of "length p"] p
      by (simp_all add: c protection_codec [OF e] kMaxPayload_def take_bit_nat_eq_self)
    moreover have "DigestOf sha c (drop kIdHeaderLen c) = Some d"
      using d dl by (simp add: DigestOf_def c kIdHeaderLen_def)
    moreover have "block_at 16 kSha256Len c = d"
      using dl by (simp add: block_at_def c kSha256Len_def)
    ultimately show ?thesis
      using p dl by (simp add: ParseContainer_def Let_def) (simp add: c kIdHeaderLen_def)
  qed
  ultimately show ?thesis by simp
qed

text \<open>The platform's protection: it never claims success without a payload, and it can be undone.\<close>

definition protector_ok ::
  "(IdProtection \<Rightarrow> KeyKind \<Rightarrow> bytes \<Rightarrow> IdResult + bytes) \<Rightarrow> (IdProtection \<Rightarrow> KeyKind \<Rightarrow> bytes \<Rightarrow> IdResult + bytes) \<Rightarrow> bool" where
  "protector_ok protect unprotect \<longleftrightarrow>
     (\<forall>e k p. case protect e k p of Inl r \<Rightarrow> r \<noteq> IdOk | Inr q \<Rightarrow> unprotect e k q = Inr p)"

lemma protector_okD:
  assumes "protector_ok protect unprotect"
  shows "protect e k p \<noteq> Inl IdOk" and "protect e k p = Inr q \<Longrightarrow> unprotect e k q = Inr p"
proof -
  have h: "case protect e k p of Inl r \<Rightarrow> r \<noteq> IdOk | Inr q \<Rightarrow> unprotect e k q = Inr p"
    using assms unfolding protector_ok_def by blast
  show "protect e k p \<noteq> Inl IdOk" using h by (auto split: sum.splits)
  show "protect e k p = Inr q \<Longrightarrow> unprotect e k q = Inr p" using h by simp
qed

lemma BuildContainer_error: "BuildContainer sha e k p = Inl r \<Longrightarrow> r \<noteq> IdOk \<and> r \<noteq> IdErrExists"
  by (auto simp: BuildContainer_def Let_def split: if_splits option.splits)

lemma SaveKeyFile_load:
  assumes "SaveKeyFile sha protect dflt wr f vPriv k e over = (IdOk, f')"
    and "\<forall>x d. sha x = Some d \<longrightarrow> length d = kSha256Len"
    and "protector_ok protect unprotect"
    and "importable vPriv" and "length vPriv = cbPriv"
  shows "LoadKeyFile sha unprotect importable f' k' cbPriv = (if k' = k then Inr vPriv else Inl IdErrFormat)"
proof -
  define u where "u = ResolveProtection dflt e"
  obtain q c where u: "u \<noteq> IdProtect_Default" and q: "ProtectPayload protect u k vPriv = Inr q"
    and c: "BuildContainer sha u k q = Inr c" and f': "f' = File c True"
    using assms(1) protector_okD(1) [OF assms(3)] BuildContainer_error
    by (fastforce simp: SaveKeyFile_def Let_def u_def [symmetric] WriteWholeFile_def ProtectPayload_def
        split: sum.splits if_splits)
  have len: "length c \<le> kIdHeaderLen + kMaxPayload"
    using c assms(2)
    by (auto simp: BuildContainer_def Let_def DigestOf_def kIdHeaderLen_def kSha256Len_def split: if_splits option.splits)
  have "UnprotectPayload unprotect u k q = Inr vPriv"
    using q protector_okD(2) [OF assms(3)] by (auto simp: ProtectPayload_def UnprotectPayload_def split: if_splits)
  then show ?thesis
    using len assms(4,5) ParseContainer_Build [OF c u assms(2), of k']
    by (simp add: LoadKeyFile_def ReadWholeFile_def f')
qed

text \<open>
  A key file that was saved loads back to the same key, whatever protection it was saved under,
  and never as a key of the other kind: an agreement key is not an identity.  What is relied on is
  that a digest has 32 bytes and that the platform undoes its own protection.
\<close>

theorem key_file_roundtrip:
  assumes "SaveKeyFile sha protect dflt wr f vPriv k e over = (IdOk, f')"
    and "\<forall>x d. sha x = Some d \<longrightarrow> length d = kSha256Len"
    and "protector_ok protect unprotect"
    and "importable vPriv" and "length vPriv = cbPriv"
  shows "LoadKeyFile sha unprotect importable f' k' cbPriv = (if k' = k then Inr vPriv else Inl IdErrFormat)"
  by (rule SaveKeyFile_load) (fact assms)+

theorem key_file_roundtrip_witness:
  "\<exists>f'. SaveKeyFile (\<lambda>b. Some (replicate 32 0)) (\<lambda>e k p. Inr (0 # p)) IdProtect_None True NoFile
          [1, 2, 3] KindAgreement IdProtect_External False = (IdOk, f')
     \<and> LoadKeyFile (\<lambda>b. Some (replicate 32 0)) (\<lambda>e k p. Inr (tl p)) (\<lambda>k. True) f' KindAgreement 3 = Inr [1, 2, 3]
     \<and> LoadKeyFile (\<lambda>b. Some (replicate 32 0)) (\<lambda>e k p. Inr (tl p)) (\<lambda>k. True) f' KindIdentity 3 = Inl IdErrFormat"
proof -
  obtain f' where f': "SaveKeyFile (\<lambda>b. Some (replicate 32 0)) (\<lambda>e k p. Inr (0 # p)) IdProtect_None True NoFile
          [1, 2, 3] KindAgreement IdProtect_External False = (IdOk, f')"
    by (simp add: SaveKeyFile_def ResolveProtection_def ProtectPayload_def BuildContainer_def
        DigestOf_def WriteWholeFile_def kMaxPayload_def)
  have "LoadKeyFile (\<lambda>b. Some (replicate 32 0)) (\<lambda>e k p. Inr (tl p)) (\<lambda>k. True) f' k' 3
      = (if k' = KindAgreement then Inr [1, 2, 3] else Inl IdErrFormat)" for k'
    by (rule key_file_roundtrip [OF f']) (simp_all add: kSha256Len_def protector_ok_def)
  with f' show ?thesis by auto
qed

text \<open>
  \<open>LoadOrCreate\<close> never replaces a key file, also when another process creates it between the load
  and the write, and the key it returns is the key the file holds when it is done; it says it
  created the file only when there was none and the key in it is the one generated here.
\<close>

theorem LoadOrCreate_never_replaces:
  assumes "LoadOrCreateKeyFile sha protect unprotect importable dflt wr f f' fresh k cbPriv e = (r, f'')"
    and "f = NoFile \<or> f' = f"
    and "\<forall>x d. sha x = Some d \<longrightarrow> length d = kSha256Len"
    and "protector_ok protect unprotect"
    and "\<forall>g \<in> set_option fresh. importable g \<and> length g = cbPriv"
  shows "(f' = NoFile \<or> f'' = f')
     \<and> (case r of Inl err \<Rightarrow> True
        | Inr (key, made) \<Rightarrow> LoadKeyFile sha unprotect importable f'' k cbPriv = Inr key
            \<and> (if made then f' = NoFile \<and> fresh = Some key else f'' = f'))"
proof (cases "LoadKeyFile sha unprotect importable f k cbPriv")
  case (Inr key)
  then have "f \<noteq> NoFile" by (auto simp: LoadKeyFile_def ReadWholeFile_def)
  with Inr assms(1,2) show ?thesis by (auto simp: LoadOrCreateKeyFile_def)
next
  case (Inl r0)
  show ?thesis
  proof (cases "r0 = IdErrNotFound \<and> fresh \<noteq> None")
    case True
    then obtain g where g: "fresh = Some g" and imp: "importable g" "length g = cbPriv"
      using assms(5) by auto
    obtain r1 where s: "SaveKeyFile sha protect dflt wr f' g k e False = (r1, f'')"
      and r: "r = (if r1 = IdErrExists then (case LoadKeyFile sha unprotect importable f'' k cbPriv of
                    Inl err \<Rightarrow> Inl err | Inr key \<Rightarrow> Inr (key, False))
                   else if r1 \<noteq> IdOk then Inl r1 else Inr (g, True))"
      using assms(1) Inl True g by (auto simp: LoadOrCreateKeyFile_def split: prod.splits if_splits)
    have keep: "r1 = IdOk \<or> f'' = f'" and none: "r1 \<noteq> IdOk \<or> f' = NoFile"
      using s protector_okD(1) [OF assms(4)] BuildContainer_error
      by (fastforce simp: SaveKeyFile_def Let_def WriteWholeFile_def ProtectPayload_def
          split: sum.splits if_splits)+
    show ?thesis
    proof (cases "r1 = IdOk")
      case ok: True
      have "LoadKeyFile sha unprotect importable f'' k cbPriv = Inr g"
        using SaveKeyFile_load [OF _ assms(3,4), of dflt wr f' g k e False f'' importable cbPriv k] s ok imp
        by simp
      then show ?thesis using ok none g r by simp
    next
      case False
      then show ?thesis using keep r by (auto split: sum.splits if_splits)
    qed
  next
    case False
    with Inl assms(1) show ?thesis by (auto simp: LoadOrCreateKeyFile_def split: if_splits option.splits)
  qed
qed

theorem LoadOrCreate_never_replaces_witness:
  "\<exists>r f''. LoadOrCreateKeyFile (\<lambda>b. Some (replicate 32 0)) (\<lambda>e k p. Inr p) (\<lambda>e k p. Inr p) (\<lambda>k. True)
      IdProtect_None True NoFile NoFile (Some [1, 2, 3]) KindIdentity 3 IdProtect_Default = (r, f'')
     \<and> r = Inr ([1, 2, 3], True)
     \<and> LoadKeyFile (\<lambda>b. Some (replicate 32 0)) (\<lambda>e k p. Inr p) (\<lambda>k. True) f'' KindIdentity 3 = Inr [1, 2, 3]"
proof -
  let ?L = "LoadOrCreateKeyFile (\<lambda>b. Some (replicate 32 0)) (\<lambda>e k p. Inr p) (\<lambda>e k p. Inr p) (\<lambda>k. True)
      IdProtect_None True NoFile NoFile (Some [1, 2, 3]) KindIdentity 3 IdProtect_Default"
  have r: "fst ?L = Inr ([1, 2, 3], True)"
    by (simp add: LoadOrCreateKeyFile_def LoadKeyFile_def ReadWholeFile_def SaveKeyFile_def ResolveProtection_def
        ProtectPayload_def BuildContainer_def DigestOf_def WriteWholeFile_def kMaxPayload_def)
  have "?L = (fst ?L, snd ?L)" by simp
  from LoadOrCreate_never_replaces [OF this]
  have "case fst ?L of Inl err \<Rightarrow> True
        | Inr (key, made) \<Rightarrow> LoadKeyFile (\<lambda>b. Some (replicate 32 0)) (\<lambda>e k p. Inr p) (\<lambda>k. True) (snd ?L) KindIdentity 3 = Inr key"
    by (auto simp: kSha256Len_def protector_ok_def split: sum.splits)
  with r show ?thesis by (intro exI [of _ "fst ?L"] exI [of _ "snd ?L"]) (simp add: prod_eq_iff)
qed

subsection \<open>Revocation\<close>

lemma hex_digit_newline: "n < 16 \<Longrightarrow> upper_hex_digit n \<noteq> 10"
proof -
  have "list_all (\<lambda>n. upper_hex_digit n \<noteq> 10) [0..<16]"
    by (simp add: upt_from_0 upt_rec_numeral upper_hex_digit_def)
  then show "n < 16 \<Longrightarrow> upper_hex_digit n \<noteq> 10" by (rule list_all_uptD)
qed

lemma Fingerprint_newline: "Fingerprint sha p = Some fp \<Longrightarrow> 10 \<notin> set fp"
  by (auto simp: Fingerprint_def nibbles hex_digit_newline hex_digit_newline [symmetric] split: bind_splits if_splits)

lemma revocation_line_read:
  assumes p: "length p = kIdRevokePointLen" and ll: "0 \<le> ll" "is_i64 ll"
  shows "ForEachLine (\<lambda>pTok s. case revocation_line_of pTok of None \<Rightarrow> (IdErrFormat, s)
                              | Some (p, w) \<Rightarrow> (IdOk, sink p w s)) (revocation_text sha p ll why) s
       = (if length (revocation_text sha p ll why) > Suc kMaxLine then (IdErrFormat, s) else (IdOk, sink p ll s))"
proof -
  define tail where "tail = (case Fingerprint sha p of None \<Rightarrow> [] | Some szFp \<Rightarrow> szFp @ [32])
       @ (case why of None \<Rightarrow> [] | Some r \<Rightarrow> filter (\<lambda>c. c \<noteq> 10 \<and> c \<noteq> 13) r)"
  have tl: "10 \<notin> set tail"
    using Fingerprint_newline [of sha p] by (auto simp: tail_def split: option.splits)
  define l where "l = HexEncode p @ 9 # decimal (nat ll) @ 9 # 35 # 32 # tail"
  have text_eq: "revocation_text sha p ll why = l @ [10]"
    by (simp add: revocation_text_def l_def tail_def)
  have nl: "10 \<notin> set l"
    using tl token_bytes_no_newline [OF HexEncode_tokens [of p]] token_bytes_no_newline [OF decimal_tokens [of "nat ll"]]
    by (simp add: l_def)
  have ne: "HexEncode p \<noteq> []" using p by (cases p) (auto simp: kIdRevokePointLen_def)
  have "Tokenise (Suc (Suc 2)) l = HexEncode p # decimal (nat ll) # Tokenise 2 (9 # 35 # 32 # tail)"
    unfolding l_def by (rule Tokenise_two [OF HexEncode_tokens ne decimal_tokens decimal_nonempty]) simp
  also have "Tokenise 2 (9 # 35 # 32 # tail) = []"
    using Tokenise_hash [of 2 "32 # tail"] by (simp add: numeral_2_eq_2 IsSpace_def)
  finally have tok: "Tokenise 4 l = [HexEncode p, decimal (nat ll)]" by simp
  have "nat ll < 2 ^ 63" using ll by (simp add: is_i64_def)
  then have line: "revocation_line_of [HexEncode p, decimal (nat ll)] = Some (p, ll)"
    using ll p by (simp add: revocation_line_of_def ParseEpoch_decimal kIdPubHexChars_def kIdRevokePointLen_def)
  let ?cb = "\<lambda>pTok s. case revocation_line_of pTok of None \<Rightarrow> (IdErrFormat, s) | Some (p, w) \<Rightarrow> (IdOk, sink p w s)"
  show ?thesis
    using line ForEachLine_step [OF nl, of ?cb "[]" s] ForEachLine_long [OF nl, of ?cb "[]" s]
    unfolding text_eq by (auto simp: tok)
qed

lemma comment_lines' [simp]:
  "10 \<notin> set (narrow '' Targetcore revocation list:'')"
  "10 \<notin> set (narrow ''   <public point, hex> [<revoked-at, epoch seconds>]  # why'')"
  "10 \<notin> set (narrow '' A listed point is refused wherever it appears - login and'')"
  "10 \<notin> set (narrow '' sealing, identity keys and agreement keys alike. The timestamp'')"
  "10 \<notin> set (narrow '' is a record, not a window: it is never compared to the clock.'')"
  "length (narrow s) = length s"
  by (simp_all add: narrow_def)

lemma revocation_head_lines:
  "revocation_head = 35 # narrow '' Targetcore revocation list:'' @ 10 #
     35 # narrow ''   <public point, hex> [<revoked-at, epoch seconds>]  # why'' @ 10 #
     35 # narrow '' A listed point is refused wherever it appears - login and'' @ 10 #
     35 # narrow '' sealing, identity keys and agreement keys alike. The timestamp'' @ 10 #
     35 # narrow '' is a record, not a window: it is never compared to the clock.'' @ [10]"
  by (simp add: revocation_head_def narrow_def)

lemma revocation_head_read: "ForEachLine f revocation_head s = (IdOk, s)"
  unfolding revocation_head_lines by (simp add: ForEachLine_comment kMaxLine_def)

lemma AppendRevocationList_inv:
  assumes "AppendRevocationList sha now True f p ll why = (IdOk, f')"
  obtains t where "f' = File (end_line t @ revocation_text sha p (if ll = 0 then now else ll) why) False"
    and "f = NoFile \<and> t = revocation_head \<or> ReadWholeFile f False kMaxTextFile = Inr t"
    and "0 \<le> (if ll = 0 then now else ll)"
  using assms
  by (auto simp: AppendRevocationList_def WriteWholeFile_def ReadWholeFile_def Let_def
      split: if_splits sum.splits IdResult.splits disk_file.splits)

text \<open>
  After a point was appended to a readable revocation list the list says that it is revoked, and
  of every other point what it said before - unless the reason given makes the line longer than a
  line may be.  Then the write succeeds and nothing can be read from the file any more.
\<close>

theorem AppendRevocationList_effect:
  assumes "AppendRevocationList sha now True f p ll why = (IdOk, f')"
    and "f = NoFile \<and> b = False \<or> IsRevoked f q = Inr b"
    and "length p = kIdRevokePointLen" and "length q = kIdRevokePointLen" and "is_i64 now" and "is_i64 ll"
    and "length (f_bytes f') \<le> kMaxTextFile"
  shows "IsRevoked f' q =
     (if length (revocation_text sha p (if ll = 0 then now else ll) why) > Suc kMaxLine then Inl IdErrFormat
      else Inr (b \<or> q = p))"
proof -
  let ?ll = "if ll = 0 then now else ll"
  obtain t where f': "f' = File (end_line t @ revocation_text sha p ?ll why) False"
    and t: "f = NoFile \<and> t = revocation_head \<or> ReadWholeFile f False kMaxTextFile = Inr t" and ge: "0 \<le> ?ll"
    by (rule AppendRevocationList_inv [OF assms(1)])
  let ?sink = "\<lambda>x w hit. hit \<or> x = q"
  let ?cb = "\<lambda>pTok s. case revocation_line_of pTok of None \<Rightarrow> (IdErrFormat, s) | Some (x, w) \<Rightarrow> (IdOk, ?sink x w s)"
  have tq: "take kIdRevokePointLen q = q" using assms(4) by simp
  have old: "ForEachLine ?cb (end_line t) False = (IdOk, b)"
    using t assms(2)
    by (auto simp: tq IsRevoked_def LoadRevocationList_def ReadWholeFile_def revocation_head_read
        ForEachLine_end_line split: prod.splits if_splits)
  have "is_i64 ?ll" using assms(5,6) by simp
  note new = revocation_line_read [OF assms(3) ge this, of ?sink sha why b]
  have "end_line t = [] \<or> last (end_line t) = 10" by (simp add: end_line_def)
  from ForEachLine_append [OF this, of ?cb "revocation_text sha p ?ll why" False]
  have "ForEachLine ?cb (end_line t @ revocation_text sha p ?ll why) False
     = (if length (revocation_text sha p ?ll why) > Suc kMaxLine then (IdErrFormat, b)
        else (IdOk, ?sink p ?ll b))"
    using old new by simp
  then show ?thesis
    using assms(7) by (auto simp: tq IsRevoked_def LoadRevocationList_def ReadWholeFile_def f')
qed

theorem AppendRevocationList_effect_witness:
  "\<exists>f'. AppendRevocationList (\<lambda>b. None) 1700000000 True NoFile (replicate 64 7) 0 (Some [108, 111, 115, 116]) = (IdOk, f')
     \<and> IsRevoked f' (replicate 64 7) = Inr True \<and> IsRevoked f' (replicate 64 8) = Inr False"
proof -
  let ?txt = "revocation_text (\<lambda>b. None) (replicate 64 7) 1700000000 (Some [108, 111, 115, 116])"
  let ?f' = "File (end_line revocation_head @ ?txt) False"
  have a: "AppendRevocationList (\<lambda>b. None) 1700000000 True NoFile (replicate 64 7) 0 (Some [108, 111, 115, 116]) = (IdOk, ?f')"
    by (simp add: AppendRevocationList_def ReadWholeFile_def WriteWholeFile_def)
  have len: "length ?txt = 147"
    by (simp add: revocation_text_def Fingerprint_def decimal.simps)
  have "IsRevoked ?f' q = (if length (revocation_text (\<lambda>b. None) (replicate 64 7) (if (0::int) = 0 then 1700000000 else 0)
        (Some [108, 111, 115, 116])) > Suc kMaxLine then Inl IdErrFormat else Inr (False \<or> q = replicate 64 7))"
    if "length q = 64" for q
    by (rule AppendRevocationList_effect [OF a])
       (simp_all add: that is_i64_def kIdRevokePointLen_def len kMaxTextFile_def end_line_def revocation_head_def)
  from this [of "replicate 64 7"] this [of "replicate 64 8"] a show ?thesis
    by (simp add: len kMaxLine_def)
qed

end
