(* ===== verification/Seal.thy ===== *)
theory Seal
  imports AuthWire
begin

text \<open>
  P2PeerSeal.cpp: bodies sealed for one or several readers.  The platform's cryptography is a
  parameter, the record \<open>crypto\<close>: a key pair is its private half (a byte string), and every operation
  that can fail returns an option.  An AES-GCM sealing includes its nonce and tag; the randomness a
  call draws (ephemeral key, content key) is an argument of the call.  The record also holds the widths
  of \<open>wchar_t\<close> and \<open>long\<close> on the platform.  Buffers are byte lists and
  \<open>cbOut\<close> the size of the caller's; required pointers are values, so the null-pointer branches that
  answer \<open>SealErrArgs\<close> do not appear.  Wiping keys from memory has no counterpart.
\<close>

record crypto =
  Sha256 :: "bytes \<Rightarrow> bytes option"
  EcdsaPublic :: "bytes \<Rightarrow> bytes option"
  EcdsaImportOk :: "bytes \<Rightarrow> bool"
  EcdsaSign :: "bytes \<Rightarrow> bytes \<Rightarrow> bytes option"
  EcdsaVerify :: "bytes \<Rightarrow> bytes \<Rightarrow> bytes \<Rightarrow> bool"
  EcdhPublic :: "bytes \<Rightarrow> bytes option"
  EcdhSecret :: "bytes \<Rightarrow> bytes \<Rightarrow> bytes option"
  HkdfSha256 :: "bytes \<Rightarrow> bytes \<Rightarrow> bytes \<Rightarrow> bytes option"
  GcmSeal :: "bytes \<Rightarrow> bytes \<Rightarrow> bytes \<Rightarrow> bytes option"
  GcmOpen :: "bytes \<Rightarrow> bytes \<Rightarrow> bytes \<Rightarrow> bytes option"
  wchar4 :: bool
  long_bits :: nat

datatype SealResult = SealOk | SealErrArgs | SealErrNoIdentity | SealErrNoAgreement | SealErrFormat
  | SealErrSignature | SealErrTag | SealErrRevoked | SealErrInternal | SealErrReplay | SealErrVersion
  | SealErrStale | SealErrReaders | SealErrNotAReader

subsection \<open>Layout\<close>

definition kSealVerLen :: nat where "kSealVerLen = 1"
definition kSealTimeLen :: nat where "kSealTimeLen = 8"
definition kSealNonceLen :: nat where "kSealNonceLen = 12"
definition kSealTagLen :: nat where "kSealTagLen = 16"
definition kSealSigLen :: nat where "kSealSigLen = 64"
definition kSealCountLen :: nat where "kSealCountLen = 1"
definition kSealCekLen :: nat where "kSealCekLen = 32"
definition kSealSlotLen :: nat where "kSealSlotLen = kSealRTagLen + kSealWrapLen"
definition kSealMaxReaders :: nat where "kSealMaxReaders = 8"

definition kSealOverheadV1 :: nat where
  "kSealOverheadV1 = kSealVerLen + kSealTimeLen + kSealEphLen + kSealNonceLen + kSealTagLen + kSealSigLen"

definition SealOverhead :: "nat \<Rightarrow> nat" where
  "SealOverhead nReaders = kSealVerLen + kSealTimeLen + kSealEphLen + kSealCountLen
     + kSealSlotLen * nReaders + kSealNonceLen + kSealTagLen + kSealSigLen"

definition kSealOverhead :: nat where
  "kSealOverhead = kSealVerLen + kSealTimeLen + kSealEphLen + kSealCountLen + kSealSlotLen
     + kSealNonceLen + kSealTagLen + kSealSigLen"

definition SealedSize :: "nat \<Rightarrow> nat \<Rightarrow> nat" where
  "SealedSize cbPlain nReaders = cbPlain + SealOverhead nReaders"

definition OpenedSize :: "nat \<Rightarrow> nat" where
  "OpenedSize cbSealed = (if cbSealed \<ge> kSealOverheadV1 then cbSealed - kSealOverheadV1 else 0)"

text \<open>\<open>AesGcm::SealedSize\<close>.\<close>

definition GcmSealedSize :: "nat \<Rightarrow> nat" where
  "GcmSealedSize cbPlain = cbPlain + 12 + 16"

definition LooksSealed :: "bytes \<Rightarrow> bool" where
  "LooksSealed pv \<longleftrightarrow> length pv > kSealOverhead"

definition SealReaderCount :: "bytes \<Rightarrow> nat" where
  "SealReaderCount p =
     (if length p < kSealVerLen + kSealTimeLen + kSealEphLen + kSealCountLen then 0
      else if p ! 0 \<noteq> kSealVersion then 0
      else (let n = unat (p ! (kSealVerLen + kSealTimeLen + kSealEphLen))
            in if n = 0 \<or> n > kSealMaxReaders then 0
               else if length p < SealOverhead n then 0 else n))"

subsection \<open>Keys and slots\<close>

definition DeriveKek :: "crypto \<Rightarrow> bytes \<Rightarrow> bytes \<Rightarrow> bytes option" where
  "DeriveKek cr pSecret pEph = HkdfSha256 cr pSecret pEph kLabelKek"

definition DeriveKey :: "crypto \<Rightarrow> bytes \<Rightarrow> bytes \<Rightarrow> bytes option" where
  "DeriveKey cr pSecret pEph = HkdfSha256 cr pSecret pEph kLabelKdf"

definition SealSlotTag :: "crypto \<Rightarrow> bytes \<Rightarrow> bytes \<Rightarrow> bytes option" where
  "SealSlotTag cr pEph pReaderPub =
     (let sIn = AppendField (AppendField (AppendField [] kLabelRcp) (take kSealEphLen pEph)) (take kEcdhPubLen pReaderPub)
      in map_option (take kSealRTagLen) (Sha256 cr sIn))"

text \<open>\<open>Inl\<close> is the result the source returns early with.\<close>

definition or_fail :: "SealResult \<Rightarrow> 'a option \<Rightarrow> SealResult + 'a" where
  "or_fail e x = (case x of None \<Rightarrow> Inl e | Some a \<Rightarrow> Inr a)"

abbreviation sum_bind :: "'e + 'a \<Rightarrow> ('a \<Rightarrow> 'e + 'b) \<Rightarrow> 'e + 'b" where
  "sum_bind x k \<equiv> (case x of Inl e \<Rightarrow> Inl e | Inr a \<Rightarrow> k a)"

text \<open>A chain of checks answers \<open>Inr\<close> exactly when every check passes.\<close>

lemma sum_bind_Inr: "sum_bind x k = Inr b \<longleftrightarrow> (\<exists>a. x = Inr a \<and> k a = Inr b)"
  by (cases x) simp_all

lemma or_fail_Inr: "or_fail e x = Inr a \<longleftrightarrow> x = Some a"
  by (simp add: or_fail_def split: option.splits)

lemma check_Inr: "(if c then Inl e else y) = Inr b \<longleftrightarrow> \<not> c \<and> y = Inr b"
  by simp

lemmas passes = sum_bind_Inr or_fail_Inr check_Inr

fun all_tags :: "crypto \<Rightarrow> bytes \<Rightarrow> bytes list \<Rightarrow> bytes list option" where
  "all_tags cr aEph [] = Some []"
| "all_tags cr aEph (r # rs) =
     (case SealSlotTag cr aEph r of None \<Rightarrow> None
      | Some t \<Rightarrow> map_option (\<lambda>ts. t # ts) (all_tags cr aEph rs))"

text \<open>One slot: the reader's tag and the content key wrapped under the key agreed with it.\<close>

definition seal_slot ::
  "crypto \<Rightarrow> wstr \<Rightarrow> wstr \<Rightarrow> int \<Rightarrow> bytes \<Rightarrow> bytes \<Rightarrow> nat \<Rightarrow> bytes list \<Rightarrow> bytes \<Rightarrow> bytes \<Rightarrow> bytes \<Rightarrow> SealResult + bytes" where
  "seal_slot cr pSrc pDst llWhen oEph aEph nReaders aTags aCek pRdr tag =
     sum_bind (or_fail SealErrNoAgreement (EcdhSecret cr oEph pRdr)) (\<lambda>aSecret.
     sum_bind (or_fail SealErrInternal (DeriveKek cr aSecret aEph)) (\<lambda>aKek.
     sum_bind (or_fail SealErrInternal (TranscriptV2 (wchar4 cr) kLabelWrp pSrc pDst kSealVersion llWhen aEph
                 nReaders (concat aTags) None tag)) (\<lambda>sWrapAad.
     sum_bind (or_fail SealErrInternal (GcmSeal cr aKek sWrapAad aCek)) (\<lambda>wrap.
     if length wrap \<noteq> kSealWrapLen then Inl SealErrInternal else Inr (tag @ wrap)))))"

fun seal_slots ::
  "crypto \<Rightarrow> wstr \<Rightarrow> wstr \<Rightarrow> int \<Rightarrow> bytes \<Rightarrow> bytes \<Rightarrow> nat \<Rightarrow> bytes list \<Rightarrow> bytes \<Rightarrow> (bytes \<times> bytes) list \<Rightarrow> SealResult + bytes" where
  "seal_slots cr pSrc pDst llWhen oEph aEph nReaders aTags aCek [] = Inr []"
| "seal_slots cr pSrc pDst llWhen oEph aEph nReaders aTags aCek ((r, t) # rs) =
     sum_bind (seal_slot cr pSrc pDst llWhen oEph aEph nReaders aTags aCek r t) (\<lambda>slot.
     sum_bind (seal_slots cr pSrc pDst llWhen oEph aEph nReaders aTags aCek rs) (\<lambda>slots. Inr (slot @ slots)))"

subsection \<open>Sealing\<close>

text \<open>
  \<open>now\<close> is the clock, \<open>eph\<close> the generated key pair, \<open>cek\<close> the random content key.  Everything up to
  the signature: the bytes written before it, and the bytes signed.
\<close>

definition SealUnsigned ::
  "crypto \<Rightarrow> int \<Rightarrow> bytes option \<Rightarrow> bytes option \<Rightarrow> bytes list \<Rightarrow> wstr \<Rightarrow> wstr \<Rightarrow> bytes \<Rightarrow> nat \<Rightarrow> int
   \<Rightarrow> SealResult + (bytes \<times> bytes)" where
  "SealUnsigned cr now eph cek pReaders pSrc pDst pPlain cbOut llWhen0 =
     (let nReaders = length pReaders in
      if nReaders = 0 \<or> nReaders > kSealMaxReaders then Inl SealErrReaders
      else if cbOut < SealedSize (length pPlain) nReaders then Inl SealErrArgs
      else if \<not> distinct pReaders then Inl SealErrReaders
      else (let llWhen = (if llWhen0 = 0 then now else llWhen0) in
        sum_bind (or_fail SealErrInternal eph) (\<lambda>oEph.
        sum_bind (or_fail SealErrInternal (EcdhPublic cr oEph)) (\<lambda>aEph.
        sum_bind (or_fail SealErrInternal (all_tags cr aEph pReaders)) (\<lambda>aTags.
        sum_bind (or_fail SealErrInternal cek) (\<lambda>aCek.
        sum_bind (or_fail SealErrInternal (TranscriptV2 (wchar4 cr) kLabelAad pSrc pDst kSealVersion llWhen aEph
                    nReaders (concat aTags) None [])) (\<lambda>sAad.
        sum_bind (or_fail SealErrInternal (GcmSeal cr aCek sAad pPlain)) (\<lambda>body.
        if length body \<noteq> GcmSealedSize (length pPlain) then Inl SealErrInternal
        else
        sum_bind (seal_slots cr pSrc pDst llWhen oEph aEph nReaders aTags aCek (zip pReaders aTags)) (\<lambda>slots.
        sum_bind (or_fail SealErrInternal (TranscriptV2 (wchar4 cr) kLabelSig pSrc pDst kSealVersion llWhen aEph
                    nReaders (concat aTags) None body)) (\<lambda>sSig0.
        Inr ([kSealVersion] @ PutTime llWhen @ aEph @ [word_of_nat nReaders] @ slots @ body,
             AppendField sSig0 slots)))))))))))"

definition SealTo ::
  "crypto \<Rightarrow> int \<Rightarrow> bytes option \<Rightarrow> bytes option \<Rightarrow> bytes \<Rightarrow> bytes list \<Rightarrow> wstr \<Rightarrow> wstr \<Rightarrow> bytes \<Rightarrow> nat \<Rightarrow> int
   \<Rightarrow> SealResult + bytes" where
  "SealTo cr now eph cek oSender pReaders pSrc pDst pPlain cbOut llWhen =
     (case SealUnsigned cr now eph cek pReaders pSrc pDst pPlain cbOut llWhen of
        Inl e \<Rightarrow> Inl e
      | Inr (pre, sSig) \<Rightarrow> sum_bind (or_fail SealErrNoIdentity (EcdsaSign cr oSender sSig)) (\<lambda>sig. Inr (pre @ sig)))"

definition Seal_one ::
  "crypto \<Rightarrow> int \<Rightarrow> bytes option \<Rightarrow> bytes option \<Rightarrow> bytes \<Rightarrow> bytes \<Rightarrow> wstr \<Rightarrow> wstr \<Rightarrow> bytes \<Rightarrow> nat \<Rightarrow> int
   \<Rightarrow> SealResult + bytes" where
  "Seal_one cr now eph cek oSender pRecipAgree pSrc pDst pPlain cbOut llWhen =
     SealTo cr now eph cek oSender [pRecipAgree] pSrc pDst pPlain cbOut llWhen"

subsection \<open>Opening\<close>

text \<open>Both versions: the plaintext and the time it was sealed, or the result refused with.\<close>

definition OpenV1 ::
  "crypto \<Rightarrow> bytes \<Rightarrow> bytes \<Rightarrow> wstr \<Rightarrow> wstr \<Rightarrow> bytes \<Rightarrow> nat \<Rightarrow> SealResult + (bytes \<times> int)" where
  "OpenV1 cr oRecipAgree pSenderId pSrc pDst pIn cbOut =
     (if length pIn < kSealOverheadV1 then Inl SealErrFormat
      else if pIn ! 0 \<noteq> kSealVersion1 then Inl SealErrVersion
      else (let llWhen = GetTime (drop kSealVerLen pIn);
                cbHdr = kSealVerLen + kSealTimeLen;
                cbPlain = length pIn - kSealOverheadV1;
                cbSealed = length pIn - cbHdr - kSealEphLen - kSealSigLen
            in if cbOut < cbPlain then Inl SealErrArgs
               else (let pEph = block_at cbHdr kSealEphLen pIn;
                         pBody = block_at (cbHdr + kSealEphLen) cbSealed pIn;
                         pSig = block_at (cbHdr + kSealEphLen + cbSealed) kSealSigLen pIn in
        sum_bind (or_fail SealErrInternal (SealTranscript (wchar4 cr) kLabelSig pSrc pDst (pIn ! 0) llWhen pEph pBody)) (\<lambda>sSig.
        if \<not> EcdsaImportOk cr pSenderId then Inl SealErrInternal
        else if \<not> EcdsaVerify cr pSenderId sSig pSig then Inl SealErrSignature
        else
        sum_bind (or_fail SealErrNoAgreement (EcdhSecret cr oRecipAgree pEph)) (\<lambda>aSecret.
        sum_bind (or_fail SealErrInternal (DeriveKey cr aSecret pEph)) (\<lambda>aKey.
        sum_bind (or_fail SealErrInternal (SealTranscript (wchar4 cr) kLabelAad pSrc pDst (pIn ! 0) llWhen pEph [])) (\<lambda>sAad.
        sum_bind (or_fail SealErrTag (GcmOpen cr aKey sAad pBody)) (\<lambda>plain.
        if length plain \<noteq> cbPlain then Inl SealErrTag else Inr (plain, llWhen)))))))))"

fun slot_index :: "bytes \<Rightarrow> bytes list \<Rightarrow> nat option" where
  "slot_index aWant [] = None"
| "slot_index aWant (t # ts) = (if t = aWant then Some 0 else map_option Suc (slot_index aWant ts))"

text \<open>The checks of \<open>OpenV2\<close> on the fields of a body, once they are located in it.\<close>

definition OpenV2_fields ::
  "crypto \<Rightarrow> bytes \<Rightarrow> bytes \<Rightarrow> wstr \<Rightarrow> wstr \<Rightarrow> byte \<Rightarrow> int \<Rightarrow> bytes \<Rightarrow> nat \<Rightarrow> bytes \<Rightarrow> bytes \<Rightarrow> bytes \<Rightarrow> nat
   \<Rightarrow> SealResult + (bytes \<times> int)" where
  "OpenV2_fields cr oRecipAgree pSenderId pSrc pDst ver llWhen pEph nReaders pSlots pBody pSig cbPlain =
     (let aTags = map (\<lambda>r. block_at (r * kSealSlotLen) kSealRTagLen pSlots) [0..<nReaders] in
        sum_bind (or_fail SealErrInternal (TranscriptV2 (wchar4 cr) kLabelSig pSrc pDst ver llWhen pEph
                    nReaders (concat aTags) None pBody)) (\<lambda>sSig0.
        if \<not> EcdsaImportOk cr pSenderId then Inl SealErrInternal
        else if \<not> EcdsaVerify cr pSenderId (AppendField sSig0 pSlots) pSig then Inl SealErrSignature
        else
        sum_bind (or_fail SealErrNoAgreement (EcdhPublic cr oRecipAgree)) (\<lambda>aOurPub.
        sum_bind (or_fail SealErrInternal (SealSlotTag cr pEph aOurPub)) (\<lambda>aWant.
        sum_bind (or_fail SealErrNotAReader (slot_index aWant aTags)) (\<lambda>iSlot.
        (let pWrap = block_at (iSlot * kSealSlotLen + kSealRTagLen) kSealWrapLen pSlots in
        sum_bind (or_fail SealErrNoAgreement (EcdhSecret cr oRecipAgree pEph)) (\<lambda>aSecret.
        sum_bind (or_fail SealErrInternal (DeriveKek cr aSecret pEph)) (\<lambda>aKek.
        sum_bind (or_fail SealErrInternal (TranscriptV2 (wchar4 cr) kLabelWrp pSrc pDst ver llWhen pEph
                    nReaders (concat aTags) None (aTags ! iSlot))) (\<lambda>sWrapAad.
        sum_bind (or_fail SealErrTag (GcmOpen cr aKek sWrapAad pWrap)) (\<lambda>aCek.
        if length aCek \<noteq> kSealCekLen then Inl SealErrTag
        else
        sum_bind (or_fail SealErrInternal (TranscriptV2 (wchar4 cr) kLabelAad pSrc pDst ver llWhen pEph
                    nReaders (concat aTags) None [])) (\<lambda>sAad.
        sum_bind (or_fail SealErrTag (GcmOpen cr aCek sAad pBody)) (\<lambda>plain.
        if length plain \<noteq> cbPlain then Inl SealErrTag else Inr (plain, llWhen)))))))))))))"

definition OpenV2 ::
  "crypto \<Rightarrow> bytes \<Rightarrow> bytes \<Rightarrow> wstr \<Rightarrow> wstr \<Rightarrow> bytes \<Rightarrow> nat \<Rightarrow> SealResult + (bytes \<times> int)" where
  "OpenV2 cr oRecipAgree pSenderId pSrc pDst pIn cbOut =
     (let nReaders = SealReaderCount pIn in
      if nReaders = 0 then Inl SealErrFormat
      else (let offEph = kSealVerLen + kSealTimeLen;
                offSlots = offEph + kSealEphLen + kSealCountLen;
                offBody = offSlots + kSealSlotLen * nReaders;
                cbPlain = length pIn - SealOverhead nReaders;
                cbSealed = GcmSealedSize cbPlain
            in if cbOut < cbPlain then Inl SealErrArgs
               else OpenV2_fields cr oRecipAgree pSenderId pSrc pDst (pIn ! 0)
                      (GetTime (drop kSealVerLen pIn))
                      (block_at offEph kSealEphLen pIn) nReaders
                      (block_at offSlots (kSealSlotLen * nReaders) pIn)
                      (block_at offBody cbSealed pIn)
                      (block_at (offBody + cbSealed) kSealSigLen pIn) cbPlain))"

definition Open ::
  "crypto \<Rightarrow> bytes \<Rightarrow> bytes \<Rightarrow> wstr \<Rightarrow> wstr \<Rightarrow> bytes \<Rightarrow> nat \<Rightarrow> SealResult + (bytes \<times> int)" where
  "Open cr oRecipAgree pSenderId pSrc pDst pIn cbOut =
     (if length pIn < kSealVerLen then Inl SealErrFormat
      else if pIn ! 0 = kSealVersion then OpenV2 cr oRecipAgree pSenderId pSrc pDst pIn cbOut
      else if pIn ! 0 = kSealVersion1 then OpenV1 cr oRecipAgree pSenderId pSrc pDst pIn cbOut
      else Inl SealErrVersion)"

subsection \<open>The crypto library's contract\<close>

text \<open>
  What the code relies on: signatures verify under the signer's public key, the two halves of a key
  agreement meet, opening inverts sealing, and the sizes the headers of the library state.
\<close>

definition crypto_ok :: "crypto \<Rightarrow> bool" where
  "crypto_ok cr \<longleftrightarrow>
     (\<forall>k p. EcdsaPublic cr k = Some p \<longrightarrow> length p = kEcdsaPubLen \<and> EcdsaImportOk cr p)
   \<and> (\<forall>k p m s. EcdsaPublic cr k = Some p \<longrightarrow> EcdsaSign cr k m = Some s \<longrightarrow> length s = kSealSigLen \<and> EcdsaVerify cr p m s)
   \<and> (\<forall>b h. Sha256 cr b = Some h \<longrightarrow> length h = kSha256Len)
   \<and> (\<forall>a A. EcdhPublic cr a = Some A \<longrightarrow> length A = kEcdhPubLen)
   \<and> (\<forall>a A b B s. EcdhPublic cr a = Some A \<longrightarrow> EcdhPublic cr b = Some B \<longrightarrow> EcdhSecret cr a B = Some s \<longrightarrow>
        EcdhSecret cr b A = Some s)
   \<and> (\<forall>k ad p c. GcmSeal cr k ad p = Some c \<longrightarrow> length c = GcmSealedSize (length p) \<and> GcmOpen cr k ad c = Some p)"

lemma crypto_okD:
  assumes "crypto_ok cr"
  shows "EcdsaPublic cr k = Some p \<Longrightarrow> length p = kEcdsaPubLen \<and> EcdsaImportOk cr p"
    and "EcdsaPublic cr k = Some p \<Longrightarrow> EcdsaSign cr k m = Some s \<Longrightarrow> length s = kSealSigLen \<and> EcdsaVerify cr p m s"
    and "Sha256 cr b = Some h \<Longrightarrow> length h = kSha256Len"
    and "EcdhPublic cr a = Some A \<Longrightarrow> length A = kEcdhPubLen"
    and "EcdhPublic cr a = Some A \<Longrightarrow> EcdhPublic cr c = Some C \<Longrightarrow> EcdhSecret cr a C = Some z \<Longrightarrow> EcdhSecret cr c A = Some z"
    and "GcmSeal cr g ad q = Some w \<Longrightarrow> length w = GcmSealedSize (length q)"
    and "GcmSeal cr g ad q = Some w \<Longrightarrow> GcmOpen cr g ad w = Some q"
  using assms unfolding crypto_ok_def by blast+

subsection \<open>The layout of a version 2 body\<close>

lemmas seal_sizes = kSealVerLen_def kSealTimeLen_def kSealNonceLen_def kSealTagLen_def kSealSigLen_def
  kSealCountLen_def kSealCekLen_def kSealSlotLen_def kSealRTagLen_def kSealWrapLen_def kSealEphLen_def
  kSealMaxReaders_def kSealOverheadV1_def kSealOverhead_def SealOverhead_def SealedSize_def OpenedSize_def GcmSealedSize_def
  kEcdhPubLen_def kSha256Len_def kEcdsaPubLen_def

definition v2_body :: "int \<Rightarrow> bytes \<Rightarrow> nat \<Rightarrow> bytes \<Rightarrow> bytes \<Rightarrow> bytes \<Rightarrow> bytes" where
  "v2_body when eph n slots body sig =
     [kSealVersion] @ PutTime when @ eph @ [word_of_nat n] @ slots @ body @ sig"

definition v2_parts_ok :: "int \<Rightarrow> bytes \<Rightarrow> nat \<Rightarrow> bytes \<Rightarrow> bytes \<Rightarrow> bytes \<Rightarrow> nat \<Rightarrow> bool" where
  "v2_parts_ok when eph n slots body sig m \<longleftrightarrow>
     is_i64 when \<and> length eph = kSealEphLen \<and> 0 < n \<and> n \<le> kSealMaxReaders \<and> length slots = kSealSlotLen * n
     \<and> length body = GcmSealedSize m \<and> length sig = kSealSigLen"

lemma length_PutTime [simp]: "length (PutTime w) = 8"
  by (simp add: PutTime_def)

lemma v2_body_fields:
  assumes "v2_parts_ok when eph n slots body sig m"
  defines "p \<equiv> v2_body when eph n slots body sig"
  shows "length p = m + SealOverhead n" and "SealReaderCount p = n" and "p ! 0 = kSealVersion"
    and "GetTime (drop kSealVerLen p) = when"
    and "block_at (kSealVerLen + kSealTimeLen) kSealEphLen p = eph"
    and "block_at (kSealVerLen + kSealTimeLen + kSealEphLen + kSealCountLen) (kSealSlotLen * n) p = slots"
    and "block_at (kSealVerLen + kSealTimeLen + kSealEphLen + kSealCountLen + kSealSlotLen * n) (GcmSealedSize m) p = body"
    and "block_at (kSealVerLen + kSealTimeLen + kSealEphLen + kSealCountLen + kSealSlotLen * n + GcmSealedSize m) kSealSigLen p = sig"
proof -
  note a = assms(1) [unfolded v2_parts_ok_def]
  show len: "length p = m + SealOverhead n"
    using a by (simp add: p_def v2_body_def seal_sizes)
  show ver: "p ! 0 = kSealVersion"
    by (simp add: p_def v2_body_def)
  have count: "p ! (kSealVerLen + kSealTimeLen + kSealEphLen) = word_of_nat n"
    using a by (simp add: p_def v2_body_def seal_sizes nth_append)
  have "unat (word_of_nat n :: byte) = n"
    using a by (simp add: unat_of_nat seal_sizes)
  with a ver count len show "SealReaderCount p = n"
    by (simp add: SealReaderCount_def seal_sizes)
  show "GetTime (drop kSealVerLen p) = when"
    using a GetI64_PutI64_append [of "when"] by (simp add: p_def v2_body_def seal_sizes GetTime_I64 PutTime_I64)
  let ?pre = "[kSealVersion] @ PutTime when @ eph @ [word_of_nat n] @ slots"
  have pre: "p = ?pre @ body @ sig" "length ?pre = 74 + 68 * n"
    using a by (simp_all add: p_def v2_body_def seal_sizes)
  have "block_at (length ?pre) (GcmSealedSize m) (?pre @ body @ sig) = body"
    using a by (simp only: block_at_append_right diff_self_eq_0 order.refl) (simp add: block_at_def)
  then show "block_at (kSealVerLen + kSealTimeLen + kSealEphLen + kSealCountLen + kSealSlotLen * n) (GcmSealedSize m) p = body"
    unfolding pre(2) pre(1) [symmetric] by (simp add: seal_sizes)
  have "block_at (length (?pre @ body)) kSealSigLen ((?pre @ body) @ sig) = sig"
    using a by (simp only: block_at_append_right diff_self_eq_0 order.refl) (simp add: block_at_def)
  moreover have "length (?pre @ body) = 74 + 68 * n + GcmSealedSize m" "(?pre @ body) @ sig = p"
    using a pre by simp_all
  ultimately show "block_at (kSealVerLen + kSealTimeLen + kSealEphLen + kSealCountLen + kSealSlotLen * n + GcmSealedSize m) kSealSigLen p = sig"
    by (simp add: seal_sizes)
qed (use assms(1) in \<open>simp_all add: p_def v2_body_def v2_parts_ok_def seal_sizes block_at_def\<close>)

lemma OpenV2_v2_body:
  assumes "v2_parts_ok when eph n slots body sig m"
  shows "OpenV2 cr r sp src dst (v2_body when eph n slots body sig) cbOut =
    (if cbOut < m then Inl SealErrArgs
     else OpenV2_fields cr r sp src dst kSealVersion when eph n slots body sig m)"
proof -
  note f = v2_body_fields [OF assms]
  have "0 < n" using assms by (simp add: v2_parts_ok_def)
  then show ?thesis
    by (simp only: OpenV2_def f(2) Let_def f(1) add_diff_cancel_right' f(3-8)) simp
qed

lemma v2_body_parse:
  assumes "SealReaderCount p = n" and "0 < n"
  obtains "when" eph slots body sig where "p = v2_body when eph n slots body sig"
    and "v2_parts_ok when eph n slots body sig (length p - SealOverhead n)"
proof -
  define w where "w = block_at 1 8 p"
  define eph where "eph = block_at 9 64 p"
  define slots where "slots = block_at 74 (68 * n) p"
  define sig where "sig = drop (length p - 64) p"
  define body where "body = block_at (74 + 68 * n) (length p - 64 - (74 + 68 * n)) p"
  have c: "length p \<ge> 166 + 68 * n" "n \<le> 8" "p ! 0 = kSealVersion" "unat (p ! 73) = n"
    using assms by (auto simp: SealReaderCount_def Let_def seal_sizes split: if_splits)
  have split: "drop a p = block_at a k p @ drop (a + k) p" for a k
    by (simp add: block_at_def) (metis append_take_drop_id drop_drop add.commute)
  have "p = [p ! 0] @ w @ eph @ [p ! 73] @ slots @ body @ sig"
  proof -
    have "p = block_at 0 1 p @ drop 1 p" using split [of 0 1] by simp
    also have "drop 1 p = w @ drop 9 p" using split [of 1 8] by (simp add: w_def)
    also have "drop 9 p = eph @ drop 73 p" using split [of 9 64] by (simp add: eph_def)
    also have "drop 73 p = p ! 73 # drop 74 p" using c Cons_nth_drop_Suc [of 73 p] by simp
    also have "drop 74 p = slots @ drop (74 + 68 * n) p" using split [of 74 "68 * n"] by (simp add: slots_def)
    also have "drop (74 + 68 * n) p = body @ sig"
      using c split [of "74 + 68 * n" "length p - 64 - (74 + 68 * n)"] by (simp add: body_def sig_def)
    also have "block_at 0 1 p = [p ! 0]" using c by (cases p) (simp_all add: block_at_def)
    finally show ?thesis by simp
  qed
  moreover have "p ! 73 = word_of_nat n" unfolding c(4) [symmetric] by simp
  moreover have "PutTime (GetTime w) = w" using c by (simp add: PutTime_GetTime w_def block_at_def)
  ultimately have "p = v2_body (GetTime w) eph n slots body sig" using c by (simp add: v2_body_def)
  moreover have "v2_parts_ok (GetTime w) eph n slots body sig (length p - SealOverhead n)"
    using assms(2) c by (simp add: v2_parts_ok_def seal_sizes GetTime_I64 eph_def slots_def body_def sig_def block_at_def)
  ultimately show thesis by (rule that)
qed

subsection \<open>Slots\<close>

lemma all_tags_nth:
  "all_tags cr eph rs = Some ts \<Longrightarrow> length ts = length rs \<and> (\<forall>i < length rs. SealSlotTag cr eph (rs ! i) = Some (ts ! i))"
proof (induction rs arbitrary: ts)
  case (Cons r rs)
  then obtain t us where t: "SealSlotTag cr eph r = Some t" "all_tags cr eph rs = Some us" "ts = t # us"
    by (auto split: option.splits)
  show ?case
    using Cons.IH [OF t(2)] t by (auto simp: nth_Cons split: nat.splits)
qed simp

lemma SealSlotTag_length:
  assumes "crypto_ok cr" and "SealSlotTag cr eph r = Some t"
  shows "length t = kSealRTagLen"
  using assms crypto_okD(3) [OF assms(1)] by (auto simp: SealSlotTag_def Let_def seal_sizes)

lemma slot_index_iff: "slot_index w ts = Some i \<longleftrightarrow> i < length ts \<and> ts ! i = w \<and> w \<notin> set (take i ts)"
proof (induction ts arbitrary: i)
  case (Cons t ts)
  then show ?case by (cases i) auto
qed simp

lemma slot_index_None: "slot_index w ts = None \<longleftrightarrow> w \<notin> set ts"
  by (induction ts) auto

lemma slot_index_distinct: "distinct ts \<Longrightarrow> i < length ts \<Longrightarrow> slot_index (ts ! i) ts = Some i"
  by (auto simp: slot_index_iff in_set_conv_nth nth_eq_iff_index_eq)

text \<open>The slots of a body are records of one size, each with a tag of its reader in front.\<close>

lemma seal_slots_records:
  assumes "seal_slots cr src dst when e eph n tags cek rts = Inr slots"
    and "list_all (\<lambda>rt. length (snd rt) = kSealRTagLen) rts"
  obtains ws where "length ws = length rts" and "list_all (\<lambda>w. length w = kSealSlotLen) ws" and "slots = concat ws"
    and "\<forall>i < length rts. seal_slot cr src dst when e eph n tags cek (fst (rts ! i)) (snd (rts ! i)) = Inr (ws ! i)"
    and "\<forall>i < length rts. take kSealRTagLen (ws ! i) = snd (rts ! i)"
  using assms
proof (induction rts arbitrary: slots thesis)
  case Nil
  then show ?case by simp
next
  case (Cons rt rts)
  obtain r t where rt: "rt = (r, t)" by (cases rt)
  obtain slot rest where s: "seal_slot cr src dst when e eph n tags cek r t = Inr slot"
      "seal_slots cr src dst when e eph n tags cek rts = Inr rest" "slots = slot @ rest"
    using Cons.prems(2) by (auto simp: rt split: sum.splits)
  have len: "length t = kSealRTagLen" "list_all (\<lambda>rt. length (snd rt) = kSealRTagLen) rts"
    using Cons.prems(3) by (simp_all add: rt)
  have slot: "length slot = kSealSlotLen" "take kSealRTagLen slot = t"
    using s(1) len(1) by (auto simp: seal_slot_def seal_sizes split: sum.splits if_splits)
  show ?case
  proof (rule Cons.IH [OF _ s(2) len(2)])
    fix ws
    assume w: "length ws = length rts" "list_all (\<lambda>w. length w = kSealSlotLen) ws" "rest = concat ws"
      "\<forall>i < length rts. seal_slot cr src dst when e eph n tags cek (fst (rts ! i)) (snd (rts ! i)) = Inr (ws ! i)"
      "\<forall>i < length rts. take kSealRTagLen (ws ! i) = snd (rts ! i)"
    show ?thesis
      by (rule Cons.prems(1) [of "slot # ws"])
         (use w s slot in \<open>auto simp: rt nth_Cons split: nat.splits\<close>)
  qed
qed

text \<open>A slot of the reader with tag \<open>t\<close> holds the content key wrapped under the agreed key.\<close>

lemma seal_slot_parts:
  assumes "seal_slot cr src dst when e eph n tags cek r t = Inr slot" and "length t = kSealRTagLen"
  obtains z kek aad wrap where "EcdhSecret cr e r = Some z" and "DeriveKek cr z eph = Some kek"
    and "TranscriptV2 (wchar4 cr) kLabelWrp src dst kSealVersion when eph n (concat tags) None t = Some aad"
    and "GcmSeal cr kek aad cek = Some wrap" and "length wrap = kSealWrapLen"
    and "block_at kSealRTagLen kSealWrapLen slot = wrap" and "slot = t @ wrap"
  using assms by (auto simp: seal_slot_def or_fail_def block_at_def split: sum.splits option.splits if_splits)

lemma all_tags_lengths:
  assumes "crypto_ok cr" and "all_tags cr eph rs = Some ts"
  shows "list_all (\<lambda>t. length t = kSealRTagLen) ts"
  using SealSlotTag_length [OF assms(1)] all_tags_nth [OF assms(2)] by (auto simp: list_all_length)

lemma zip_tags_length:
  "length ts = length rs \<Longrightarrow> list_all (\<lambda>t. length t = k) ts \<Longrightarrow> list_all (\<lambda>rt. length (snd rt) = k) (zip rs ts)"
  by (simp add: list_all_length)

subsection \<open>What a sealer writes\<close>

definition seal_time :: "int \<Rightarrow> int \<Rightarrow> int" where
  "seal_time now when = (if when = 0 then now else when)"

lemma SealUnsigned_parts:
  assumes "crypto_ok cr" and "SealUnsigned cr now eph0 cek0 rdrs src dst plain cb when0 = Inr (pre, msg)"
    and "is_i64 (seal_time now when0)"
  obtains e eph tags cek aad body slots sig0 where "eph0 = Some e" and "EcdhPublic cr e = Some eph"
    and "all_tags cr eph rdrs = Some tags" and "cek0 = Some cek" and "distinct rdrs"
    and "TranscriptV2 (wchar4 cr) kLabelAad src dst kSealVersion (seal_time now when0) eph (length rdrs) (concat tags) None [] = Some aad"
    and "GcmSeal cr cek aad plain = Some body"
    and "seal_slots cr src dst (seal_time now when0) e eph (length rdrs) tags cek (zip rdrs tags) = Inr slots"
    and "TranscriptV2 (wchar4 cr) kLabelSig src dst kSealVersion (seal_time now when0) eph (length rdrs) (concat tags) None body = Some sig0"
    and "msg = AppendField sig0 slots"
    and "pre = [kSealVersion] @ PutTime (seal_time now when0) @ eph @ [word_of_nat (length rdrs)] @ slots @ body"
    and "\<And>sig. length sig = kSealSigLen \<Longrightarrow>
           v2_parts_ok (seal_time now when0) eph (length rdrs) slots body sig (length plain)"
proof -
  have n: "0 < length rdrs" "length rdrs \<le> kSealMaxReaders"
    using assms(2) by (auto simp: SealUnsigned_def Let_def split: if_splits)
  obtain e eph tags cek aad body slots sig0 where p: "eph0 = Some e" "EcdhPublic cr e = Some eph"
    "all_tags cr eph rdrs = Some tags" "cek0 = Some cek" "distinct rdrs"
    "TranscriptV2 (wchar4 cr) kLabelAad src dst kSealVersion (seal_time now when0) eph (length rdrs) (concat tags) None [] = Some aad"
    "GcmSeal cr cek aad plain = Some body" "length body = GcmSealedSize (length plain)"
    "seal_slots cr src dst (seal_time now when0) e eph (length rdrs) tags cek (zip rdrs tags) = Inr slots"
    "TranscriptV2 (wchar4 cr) kLabelSig src dst kSealVersion (seal_time now when0) eph (length rdrs) (concat tags) None body = Some sig0"
    "msg = AppendField sig0 slots"
    "pre = [kSealVersion] @ PutTime (seal_time now when0) @ eph @ [word_of_nat (length rdrs)] @ slots @ body"
    using assms(2) by (auto simp: SealUnsigned_def seal_time_def or_fail_def Let_def split: if_splits sum.splits option.splits)
  have tl: "length tags = length rdrs" "list_all (\<lambda>t. length t = kSealRTagLen) tags"
    using all_tags_nth [OF p(3)] all_tags_lengths [OF assms(1) p(3)] by simp_all
  obtain ws where w: "length ws = length (zip rdrs tags)" "list_all (\<lambda>w. length w = kSealSlotLen) ws" "slots = concat ws"
    by (rule seal_slots_records [OF p(9) zip_tags_length [OF tl]])
  have "length slots = kSealSlotLen * length rdrs"
    using length_concat_const [OF w(2)] w(1,3) tl(1) by simp
  moreover have "length eph = kSealEphLen"
    using crypto_okD(4) [OF assms(1) p(2)] by (simp add: seal_sizes)
  ultimately have "\<And>sig. length sig = kSealSigLen \<Longrightarrow>
      v2_parts_ok (seal_time now when0) eph (length rdrs) slots body sig (length plain)"
    using n p(8) assms(3) by (simp add: v2_parts_ok_def)
  with p show thesis using that by blast
qed

text \<open>A reader's tags are the ones the sealer wrote.\<close>

lemma tags_in_slots:
  assumes "crypto_ok cr" and "all_tags cr eph rdrs = Some tags"
    and "seal_slots cr src dst when e eph n tags cek (zip rdrs tags) = Inr slots"
  obtains "map (\<lambda>r. block_at (r * kSealSlotLen) kSealRTagLen slots) [0..<length rdrs] = tags"
    and "\<And>i. i < length rdrs \<Longrightarrow> seal_slot cr src dst when e eph n tags cek (rdrs ! i) (tags ! i)
           = Inr (block_at (i * kSealSlotLen) kSealSlotLen slots)"
proof -
  have tl: "length tags = length rdrs" "list_all (\<lambda>t. length t = kSealRTagLen) tags"
    using all_tags_nth [OF assms(2)] all_tags_lengths [OF assms(1,2)] by simp_all
  obtain ws where w: "length ws = length (zip rdrs tags)" "list_all (\<lambda>w. length w = kSealSlotLen) ws" "slots = concat ws"
    "\<forall>i < length (zip rdrs tags). seal_slot cr src dst when e eph n tags cek (fst (zip rdrs tags ! i)) (snd (zip rdrs tags ! i)) = Inr (ws ! i)"
    "\<forall>i < length (zip rdrs tags). take kSealRTagLen (ws ! i) = snd (zip rdrs tags ! i)"
    by (rule seal_slots_records [OF assms(3) zip_tags_length [OF tl]])
  have at: "block_at (i * kSealSlotLen) k slots = take k (ws ! i)" if "i < length rdrs" "k \<le> kSealSlotLen" for i k
    using concat_slice [OF w(2), of i 0 k] that w(1,3) tl(1) by (simp add: block_at_def)
  show thesis
  proof (rule that)
    show "map (\<lambda>r. block_at (r * kSealSlotLen) kSealRTagLen slots) [0..<length rdrs] = tags"
      using at w(5) tl(1) by (intro nth_equalityI) (simp_all add: seal_sizes)
    show "seal_slot cr src dst when e eph n tags cek (rdrs ! i) (tags ! i) = Inr (block_at (i * kSealSlotLen) kSealSlotLen slots)"
      if "i < length rdrs" for i
      using w(4) at [of i kSealSlotLen] that tl(1) w(1,2) by (simp add: list_all_length)
  qed
qed

text \<open>Which readers a tag points to.\<close>

definition tags_separate :: "crypto \<Rightarrow> bytes \<Rightarrow> bytes list \<Rightarrow> bool" where
  "tags_separate cr eph rs \<longleftrightarrow> (\<forall>r \<in> set rs. \<forall>s \<in> set rs. SealSlotTag cr eph r = SealSlotTag cr eph s \<longrightarrow> r = s)"

lemma OpenV2_fields_sealed:
  assumes ok: "crypto_ok cr" and u: "EcdhPublic cr e = Some eph" "all_tags cr eph rdrs = Some tags"
    "TranscriptV2 (wchar4 cr) kLabelAad src dst kSealVersion when eph (length rdrs) (concat tags) None [] = Some aad"
    "GcmSeal cr cek aad plain = Some body" "length cek = kSealCekLen"
    "seal_slots cr src dst when e eph (length rdrs) tags cek (zip rdrs tags) = Inr slots"
    "TranscriptV2 (wchar4 cr) kLabelSig src dst kSealVersion when eph (length rdrs) (concat tags) None body = Some sig0"
    and v: "EcdsaImportOk cr sp" "EcdsaVerify cr sp (AppendField sig0 slots) sig"
    and r: "EcdhPublic cr r = Some rp" "rp \<in> set rdrs" "distinct rdrs" "tags_separate cr eph rdrs"
  shows "OpenV2_fields cr r sp src dst kSealVersion when eph (length rdrs) slots body sig (length plain) = Inr (plain, when)"
proof -
  obtain i where i: "i < length rdrs" "rdrs ! i = rp"
    using r(2) by (auto simp: in_set_conv_nth)
  have tn: "length tags = length rdrs" "SealSlotTag cr eph (rdrs ! j) = Some (tags ! j)" if "j < length rdrs" for j
    using all_tags_nth [OF u(2)] that by simp_all
  have "tags ! j \<noteq> tags ! k" if "j < length rdrs" "k < length rdrs" "j \<noteq> k" for j k
    using tn(2) [OF that(1)] tn(2) [OF that(2)] r(3,4) that
    by (metis nth_eq_iff_index_eq nth_mem tags_separate_def)
  then have "distinct tags"
    using tn(1) [OF i(1)] by (simp add: distinct_conv_nth)
  then have idx: "slot_index (tags ! i) tags = Some i"
    using i tn(1) [OF i(1)] by (simp add: slot_index_distinct)
  obtain rd: "map (\<lambda>r. block_at (r * kSealSlotLen) kSealRTagLen slots) [0..<length rdrs] = tags"
    and sl: "seal_slot cr src dst when e eph (length rdrs) tags cek (rdrs ! i) (tags ! i)
           = Inr (block_at (i * kSealSlotLen) kSealSlotLen slots)"
    using tags_in_slots [OF ok u(2,6)] i(1) by metis
  have tl: "length (tags ! i) = kSealRTagLen"
    using SealSlotTag_length [OF ok] tn(2) i(1) by blast
  obtain z kek wad wrap where w: "EcdhSecret cr e rp = Some z" "DeriveKek cr z eph = Some kek"
    "TranscriptV2 (wchar4 cr) kLabelWrp src dst kSealVersion when eph (length rdrs) (concat tags) None (tags ! i) = Some wad"
    "GcmSeal cr kek wad cek = Some wrap" "length wrap = kSealWrapLen"
    "block_at (i * kSealSlotLen) kSealSlotLen slots = tags ! i @ wrap"
    using seal_slot_parts [OF sl tl] i(2) by metis
  have "block_at (i * kSealSlotLen + kSealRTagLen) kSealWrapLen slots
      = block_at kSealRTagLen kSealWrapLen (block_at (i * kSealSlotLen) kSealSlotLen slots)"
    by (simp add: block_at_def seal_sizes drop_take add.commute)
  also have "\<dots> = wrap" using w(5,6) tl by (simp add: block_at_def)
  finally have wr: "block_at (i * kSealSlotLen + kSealRTagLen) kSealWrapLen slots = wrap" .
  have z: "EcdhSecret cr r eph = Some z" using crypto_okD(5) [OF ok u(1) r(1) w(1)] .
  have g: "GcmOpen cr kek wad wrap = Some cek" "GcmOpen cr cek aad body = Some plain"
    using crypto_okD(7) [OF ok] w(4) u(4) by blast+
  have tg: "SealSlotTag cr eph rp = Some (tags ! i)" using tn(2) [OF i(1)] i(2) by simp
  show ?thesis
    unfolding OpenV2_fields_def Let_def rd
    by (simp add: u v r(1) tg idx wr z w(2,3) g or_fail_def)
qed

subsection \<open>Opening what was sealed\<close>

lemma SealTo_split:
  "SealTo cr now eph cek sk rdrs src dst plain cb when = Inr blob \<longleftrightarrow>
     (\<exists>pre msg sig. SealUnsigned cr now eph cek rdrs src dst plain cb when = Inr (pre, msg)
        \<and> EcdsaSign cr sk msg = Some sig \<and> blob = pre @ sig)"
  by (auto simp: SealTo_def or_fail_def split: sum.splits option.splits)

lemma Open_v2_body:
  assumes "v2_parts_ok when eph n slots body sig m"
  shows "Open cr r sp src dst (v2_body when eph n slots body sig) cbOut =
    (if cbOut < m then Inl SealErrArgs
     else OpenV2_fields cr r sp src dst kSealVersion when eph n slots body sig m)"
  using OpenV2_v2_body [OF assms] by (simp add: Open_def v2_body_def seal_sizes)

text \<open>
  A body opens for every reader it was sealed for.  The tags of the readers must differ: the code looks
  its slot up by the tag.
\<close>

lemma SealTo_opens:
  assumes "crypto_ok cr" and "EcdsaPublic cr sk = Some sp"
    and "SealTo cr now (Some e) (Some cek) sk rdrs src dst plain cb when = Inr blob"
    and "EcdhPublic cr r = Some rp" and "rp \<in> set rdrs"
    and "EcdhPublic cr e = Some eph" and "tags_separate cr eph rdrs" and "length cek = kSealCekLen"
    and "is_i64 (seal_time now when)" and "length plain \<le> cbOut"
  shows "Open cr r sp src dst blob cbOut = Inr (plain, seal_time now when)
    \<and> length blob = SealedSize (length plain) (length rdrs) \<and> SealReaderCount blob = length rdrs"
proof -
  obtain pre msg sig where u: "SealUnsigned cr now (Some e) (Some cek) rdrs src dst plain cb when = Inr (pre, msg)"
    and s: "EcdsaSign cr sk msg = Some sig" and blob: "blob = pre @ sig"
    using assms(3) by (auto simp: SealTo_split)
  have sig: "length sig = kSealSigLen" "EcdsaVerify cr sp msg sig" "EcdsaImportOk cr sp"
    using crypto_okD(1,2) [OF assms(1)] assms(2) s by auto
  show ?thesis
  proof (rule SealUnsigned_parts [OF assms(1) u assms(9)])
    fix e' eph' tags cek' aad body slots sig0
    let ?t = "seal_time now when" and ?n = "length rdrs"
    assume q: "Some e = Some e'" "EcdhPublic cr e' = Some eph'" "all_tags cr eph' rdrs = Some tags" "Some cek = Some cek'"
      "distinct rdrs"
      "TranscriptV2 (wchar4 cr) kLabelAad src dst kSealVersion ?t eph' ?n (concat tags) None [] = Some aad"
      "GcmSeal cr cek' aad plain = Some body" "seal_slots cr src dst ?t e' eph' ?n tags cek' (zip rdrs tags) = Inr slots"
      "TranscriptV2 (wchar4 cr) kLabelSig src dst kSealVersion ?t eph' ?n (concat tags) None body = Some sig0"
      "msg = AppendField sig0 slots" "pre = [kSealVersion] @ PutTime ?t @ eph' @ [word_of_nat ?n] @ slots @ body"
      "\<And>sig. length sig = kSealSigLen \<Longrightarrow> v2_parts_ok ?t eph' ?n slots body sig (length plain)"
    have e: "e' = e" "cek' = cek" "eph' = eph" using q(1,2,4) assms(6) by auto
    have parts: "v2_parts_ok ?t eph ?n slots body sig (length plain)" using q(12) sig(1) e by simp
    have b: "blob = v2_body ?t eph ?n slots body sig" using blob q(11) e by (simp add: v2_body_def)
    have "OpenV2_fields cr r sp src dst kSealVersion ?t eph ?n slots body sig (length plain) = Inr (plain, ?t)"
      by (rule OpenV2_fields_sealed [OF assms(1) q(2,3,6,7) _ q(8,9), unfolded e])
         (use assms q sig in \<open>simp_all\<close>)
    then have "Open cr r sp src dst blob cbOut = Inr (plain, ?t)"
      using Open_v2_body [OF parts] assms(10) b by simp
    moreover have "length blob = SealedSize (length plain) ?n" "SealReaderCount blob = ?n"
      using v2_body_fields(1,2) [OF parts] b by (simp_all add: SealedSize_def)
    ultimately show ?thesis by simp
  qed
qed

text \<open>
  An instance of the library's contract to run examples on: keys are their own public halves, a
  signature is the key on the messages the predicate \<open>V\<close> admits, key agreement is bytewise exclusive or.
\<close>

definition example_crypto :: "(bytes \<Rightarrow> bool) \<Rightarrow> crypto" where
  "example_crypto V =
     \<lparr> Sha256 = (\<lambda>b. Some (take 32 (rev b @ replicate 32 0))),
       EcdsaPublic = (\<lambda>k. if length k = 64 then Some k else None),
       EcdsaImportOk = (\<lambda>p. length p = 64),
       EcdsaSign = (\<lambda>k m. if V m \<and> length k = 64 then Some k else None),
       EcdsaVerify = (\<lambda>p m s. V m \<and> s = p),
       EcdhPublic = (\<lambda>k. if length k = 64 then Some k else None),
       EcdhSecret = (\<lambda>k p. if length k = 64 \<and> length p = 64 then Some (take 32 (map2 (XOR) k p)) else None),
       HkdfSha256 = (\<lambda>z salt info. Some z),
       GcmSeal = (\<lambda>k ad p. Some (replicate 12 0 @ p @ replicate 16 0)),
       GcmOpen = (\<lambda>k ad c. if length c < 28 then None else Some (take (length c - 28) (drop 12 c))),
       wchar4 = True,
       long_bits = 64 \<rparr>"

lemma example_simps [simp]:
  "Sha256 (example_crypto V) b = Some (take 32 (rev b @ replicate 32 0))"
  "EcdsaPublic (example_crypto V) k = (if length k = 64 then Some k else None)"
  "EcdsaImportOk (example_crypto V) p = (length p = 64)"
  "EcdsaSign (example_crypto V) k m = (if V m \<and> length k = 64 then Some k else None)"
  "EcdsaVerify (example_crypto V) p m s = (V m \<and> s = p)"
  "EcdhPublic (example_crypto V) k = (if length k = 64 then Some k else None)"
  "EcdhSecret (example_crypto V) k p = (if length k = 64 \<and> length p = 64 then Some (take 32 (map2 (XOR) k p)) else None)"
  "HkdfSha256 (example_crypto V) z salt info = Some z"
  "GcmSeal (example_crypto V) k ad q = Some (replicate 12 0 @ q @ replicate 16 0)"
  "GcmOpen (example_crypto V) k ad c = (if length c < 28 then None else Some (take (length c - 28) (drop 12 c)))"
  "wchar4 (example_crypto V)"
  "long_bits (example_crypto V) = 64"
  by (simp_all add: example_crypto_def)

lemma map2_xor_commute: "map2 (XOR) xs ys = map2 (XOR) ys (xs :: bytes)"
  by (induction xs ys rule: list_induct2') (simp_all add: xor.commute)

lemma example_crypto_ok: "crypto_ok (example_crypto V)"
  unfolding crypto_ok_def
  by (intro conjI allI impI) (auto simp: seal_sizes map2_xor_commute split: if_splits)

lemma example_SealSlotTag:
  "length eph = 64 \<Longrightarrow> length r = 64 \<Longrightarrow> SealSlotTag (example_crypto V) eph r = Some (take 8 (rev r))"
  by (simp add: SealSlotTag_def seal_sizes AppendField_def Let_def)

subsection \<open>What opens was sealed\<close>

record seal_call =
  c_now :: int
  c_eph :: "bytes option"
  c_cek :: "bytes option"
  c_readers :: "bytes list"
  c_src :: wstr
  c_dst :: wstr
  c_plain :: bytes
  c_room :: nat
  c_when :: int

text \<open>The bytes a call of \<open>SealTo\<close> signs.\<close>

definition call_signs :: "crypto \<Rightarrow> seal_call \<Rightarrow> bytes option" where
  "call_signs cr c =
     (case SealUnsigned cr (c_now c) (c_eph c) (c_cek c) (c_readers c) (c_src c) (c_dst c) (c_plain c) (c_room c) (c_when c) of
        Inl e \<Rightarrow> None
      | Inr (pre, msg) \<Rightarrow> Some msg)"

definition call_time :: "seal_call \<Rightarrow> int" where
  "call_time c = seal_time (c_now c) (c_when c)"

text \<open>What else an identity key signs: logins, acks, relay attestations and revocation lists.\<close>

definition other_purpose :: "bool \<Rightarrow> (bytes \<Rightarrow> bytes option) \<Rightarrow> bytes \<Rightarrow> bool" where
  "other_purpose w4 sha m \<longleftrightarrow>
     (\<exists>l \<in> {kLabelLogin, kLabelAck}. \<exists>src dst nonce ts bnd. Transcript w4 l src dst nonce ts bnd = Some m)
   \<or> (\<exists>att src dst nam body ts. RelayTranscript sha w4 att src dst nam body ts = Some m)
   \<or> (\<exists>epoch n entries issuer. RevListTranscript sha epoch n entries issuer = Some m)"

lemma frame_snoc: "AppendField (frame fs) p = frame (fs @ [p])"
  by (simp add: frame_def)

lemma other_purpose_label: "other_purpose w4 sha m \<Longrightarrow> m \<noteq> frame (kLabelSig # fs)"
proof -
  assume "other_purpose w4 sha m"
  then obtain l gs where l: "m = frame (l # gs)" "l \<in> {kLabelLogin, kLabelAck, kLabelRelay, kLabelRevList}"
    by (fastforce simp: other_purpose_def Transcript_frame RelayTranscript_frame RevListTranscript_frame login_fields_def)
  have "l \<noteq> kLabelSig" "short l" using l(2) labels_distinct by auto
  then show ?thesis using l(1) by (simp add: frame_Cons_eq)
qed

lemma address_ok_seal:
  assumes "address_ok w4 a" and "SealUtf8FromWide w4 a = Some s"
  shows "short s" and "Utf8FromWide w4 a = Some s"
  using assms SealUtf8FromWide_agrees by (auto simp: address_ok_def split: option.splits)

lemma length_frame: "length (frame fs) = (\<Sum>f\<leftarrow>fs. 2 + length f)"
  by (induction fs) (simp_all add: frame_Cons AppendField_def PutU16_def)

text \<open>The last two fields of a seal transcript: the body may be longer than its length field says.\<close>

lemma frame_body_slots:
  assumes "frame (fs @ [b, s]) = frame (gs @ [b', s'])" and "length fs = length gs"
    and "list_all short fs" and "list_all short gs" and "length s = length s'"
  shows "fs = gs \<and> b = b' \<and> s = s'"
proof -
  have fg: "fs = gs" "frame [b, s] = frame [b', s']"
    using assms frame_inject [of fs gs "frame [b, s]" "frame [b', s']"] by (simp_all add: frame_append)
  from fg(2) have "length (frame [b, s]) = length (frame [b', s'])" by (rule arg_cong)
  then have "length b = length b'"
    using assms(5) by (simp add: length_frame)
  with fg assms(5) show ?thesis by (simp add: frame_def AppendField_def PutU16_def)
qed

text \<open>The transcript of a version 2 body, as fields.\<close>

definition sig_fields :: "int \<Rightarrow> bytes \<Rightarrow> bytes \<Rightarrow> bytes \<Rightarrow> nat \<Rightarrow> bytes list \<Rightarrow> bytes list" where
  "sig_fields when s d eph n tags =
     [kLabelSig, [kSealVersion], PutTime when, s, d, take kSealEphLen eph, [word_of_nat n], take (n * kSealRTagLen) (concat tags)]"

lemma TranscriptV2_sig:
  "TranscriptV2 w4 kLabelSig src dst kSealVersion when eph n (concat tags) None body = Some t \<longleftrightarrow>
     (\<exists>s d. SealUtf8FromWide w4 src = Some s \<and> SealUtf8FromWide w4 dst = Some d
        \<and> t = frame (sig_fields when s d eph n tags @ [body]))"
  by (auto simp: TranscriptV2_frame sig_fields_def)

lemma sig_fields_short: "short s \<Longrightarrow> short d \<Longrightarrow> n \<le> kSealMaxReaders \<Longrightarrow> list_all short (sig_fields when s d eph n tags)"
  by (auto simp: sig_fields_def seal_sizes short_def [of "take _ _"] min_less_iff_disj)

text \<open>A version 2 body that opens is signed, and its reader has a slot.\<close>

lemma OpenV2_fields_accepts:
  assumes "OpenV2_fields cr r sp src dst kSealVersion when eph n slots body sig m = Inr (plain, t)"
    and "EcdhPublic cr r = Some rp"
  defines "tags \<equiv> map (\<lambda>r. block_at (r * kSealSlotLen) kSealRTagLen slots) [0..<n]"
  obtains s d i where "SealUtf8FromWide (wchar4 cr) src = Some s" and "SealUtf8FromWide (wchar4 cr) dst = Some d"
    and "EcdsaVerify cr sp (frame (sig_fields when s d eph n tags @ [body, slots])) sig" and "EcdsaImportOk cr sp"
    and "i < n" and "SealSlotTag cr eph rp = Some (tags ! i)" and "t = when"
proof -
  have "length tags = n" by (simp add: tags_def)
  then show thesis
    using assms(1) unfolding OpenV2_fields_def tags_def [symmetric] Let_def
    by (auto simp: assms(2) TranscriptV2_sig frame_snoc slot_index_iff passes intro!: that)
qed

lemma OpenV1_accepts:
  assumes "OpenV1 cr r sp src dst p cb = Inr res"
  obtains tr sig fs where "EcdsaVerify cr sp tr sig" and "tr = frame (kLabelSig # [kSealVersion1] # fs)"
  using assms by (auto simp: OpenV1_def SealTranscript_frame passes Let_def intro!: that)

text \<open>The same message was signed by a sealer: then the body is the one it wrote.\<close>

lemma call_signs_fields:
  assumes "crypto_ok cr" and "call_signs cr c = Some msg" and "is_i64 (call_time c)"
  obtains e eph tags cek aad body slots s d where "c_eph c = Some e" and "EcdhPublic cr e = Some eph"
    and "all_tags cr eph (c_readers c) = Some tags" and "c_cek c = Some cek" and "distinct (c_readers c)"
    and "TranscriptV2 (wchar4 cr) kLabelAad (c_src c) (c_dst c) kSealVersion (call_time c) eph (length (c_readers c)) (concat tags) None [] = Some aad"
    and "GcmSeal cr cek aad (c_plain c) = Some body"
    and "seal_slots cr (c_src c) (c_dst c) (call_time c) e eph (length (c_readers c)) tags cek (zip (c_readers c) tags) = Inr slots"
    and "SealUtf8FromWide (wchar4 cr) (c_src c) = Some s" and "SealUtf8FromWide (wchar4 cr) (c_dst c) = Some d"
    and "msg = frame (sig_fields (call_time c) s d eph (length (c_readers c)) tags @ [body, slots])"
    and "v2_parts_ok (call_time c) eph (length (c_readers c)) slots body (replicate 64 0) (length (c_plain c))"
proof -
  obtain pre where u: "SealUnsigned cr (c_now c) (c_eph c) (c_cek c) (c_readers c) (c_src c) (c_dst c) (c_plain c) (c_room c) (c_when c) = Inr (pre, msg)"
    using assms(2) by (auto simp: call_signs_def split: sum.splits)
  show thesis
  proof (rule SealUnsigned_parts [OF assms(1) u])
    show "is_i64 (seal_time (c_now c) (c_when c))" using assms(3) by (simp add: call_time_def)
  qed (auto simp: call_time_def TranscriptV2_sig frame_snoc seal_sizes intro!: that)
qed

text \<open>The hypotheses on the sealing calls of a sender, for a reader with public key \<open>rp\<close>.\<close>

definition call_ok :: "crypto \<Rightarrow> bytes \<Rightarrow> seal_call \<Rightarrow> bool" where
  "call_ok cr rp c \<longleftrightarrow>
     is_i64 (call_time c) \<and> address_ok (wchar4 cr) (c_src c) \<and> address_ok (wchar4 cr) (c_dst c)
   \<and> (case c_cek c of None \<Rightarrow> True | Some k \<Rightarrow> length k = kSealCekLen)
   \<and> (case c_eph c of None \<Rightarrow> True | Some e \<Rightarrow>
        (case EcdhPublic cr e of None \<Rightarrow> True | Some eph \<Rightarrow> tags_separate cr eph (rp # c_readers c)))"

lemma sig_frame_inject:
  assumes eq: "frame (sig_fields w s d eph n tags @ [body, slots]) = frame (sig_fields w' s' d' eph' n' tags' @ [body', slots'])"
    and parts: "v2_parts_ok w eph n slots body sig m" "v2_parts_ok w' eph' n' slots' body' sig' m'"
    and sh: "short s" "short d" "short s'" "short d'"
  shows "w = w' \<and> s = s' \<and> d = d' \<and> eph = eph' \<and> n = n' \<and> body = body' \<and> slots = slots' \<and> m = m'"
proof -
  note P = parts [unfolded v2_parts_ok_def]
  have l: "length (sig_fields a b c d e f) = 8" for a b c d e f by (simp add: sig_fields_def)
  have sf: "list_all short (sig_fields w s d eph n tags)" "list_all short (sig_fields w' s' d' eph' n' tags')"
    using sig_fields_short sh P by blast+
  have "sig_fields w s d eph n tags = sig_fields w' s' d' eph' n' tags'"
    using eq frame_inject [OF _ sf, of "frame [body, slots]" "frame [body', slots']"] by (simp add: l frame_append)
  then have f: "PutTime w = PutTime w'" "s = s'" "d = d'" "eph = eph'" "word_of_nat n = (word_of_nat n' :: byte)"
    using P by (simp_all add: sig_fields_def)
  have "unat (word_of_nat n :: byte) = n" "unat (word_of_nat n' :: byte) = n'"
    using P by (simp_all add: unat_of_nat seal_sizes)
  with f(5) have n: "n = n'" by metis
  have b: "body = body' \<and> slots = slots'"
    using frame_body_slots [OF eq _ sf] P n by (simp add: l)
  with P have "m = m'" by (simp add: seal_sizes)
  with f n b P time64.put_inject show ?thesis by blast
qed

lemma opened_call:
  assumes cr: "crypto_ok cr" and msg: "call_signs cr c = Some msg" and c: "call_ok cr rp c"
    and msg': "msg = frame (sig_fields when s d eph n (map (\<lambda>r. block_at (r * kSealSlotLen) kSealRTagLen slots) [0..<n]) @ [body, slots])"
    and parts: "v2_parts_ok when eph n slots body sig m"
    and adr: "address_ok (wchar4 cr) src" "address_ok (wchar4 cr) dst"
      "SealUtf8FromWide (wchar4 cr) src = Some s" "SealUtf8FromWide (wchar4 cr) dst = Some d"
    and open': "OpenV2_fields cr r sp src dst kSealVersion when eph n slots body sig m = Inr (plain, t)"
    and ver: "EcdsaVerify cr sp msg sig" "EcdsaImportOk cr sp"
    and rdr: "EcdhPublic cr r = Some rp" "i < n"
      "SealSlotTag cr eph rp = Some (map (\<lambda>r. block_at (r * kSealSlotLen) kSealRTagLen slots) [0..<n] ! i)"
  shows "c_src c = src \<and> c_dst c = dst \<and> c_plain c = plain \<and> call_time c = t \<and> rp \<in> set (c_readers c)"
proof (rule call_signs_fields [OF cr msg])
  show "is_i64 (call_time c)" using c by (simp add: call_ok_def)
next
  fix e eph' tags cek aad body' slots' s' d'
  let ?n = "length (c_readers c)"
  assume q: "c_eph c = Some e" "EcdhPublic cr e = Some eph'" "all_tags cr eph' (c_readers c) = Some tags" "c_cek c = Some cek"
    "distinct (c_readers c)"
    "TranscriptV2 (wchar4 cr) kLabelAad (c_src c) (c_dst c) kSealVersion (call_time c) eph' ?n (concat tags) None [] = Some aad"
    "GcmSeal cr cek aad (c_plain c) = Some body'"
    "seal_slots cr (c_src c) (c_dst c) (call_time c) e eph' ?n tags cek (zip (c_readers c) tags) = Inr slots'"
    "SealUtf8FromWide (wchar4 cr) (c_src c) = Some s'" "SealUtf8FromWide (wchar4 cr) (c_dst c) = Some d'"
    "msg = frame (sig_fields (call_time c) s' d' eph' ?n tags @ [body', slots'])"
    "v2_parts_ok (call_time c) eph' ?n slots' body' (replicate 64 0) (length (c_plain c))"
  have ca: "address_ok (wchar4 cr) (c_src c)" "address_ok (wchar4 cr) (c_dst c)" using c by (simp_all add: call_ok_def)
  have sh: "short s" "short d" "short s'" "short d'"
    using address_ok_seal(1) adr ca q(9,10) by blast+
  let ?tags = "map (\<lambda>r. block_at (r * kSealSlotLen) kSealRTagLen slots) [0..<n]"
  have same: "when = call_time c" "s = s'" "d = d'" "eph = eph'" "n = ?n" "body = body'" "slots = slots'" "m = length (c_plain c)"
    using sig_frame_inject [OF _ parts q(12) sh] msg' q(11) by metis+
  have route: "c_src c = src" "c_dst c = dst"
    using address_ok_seal(2) adr ca q(9,10) same(2,3) Utf8FromWide_inject by (metis address_ok_def)+
  have t: "t = call_time c" using OpenV2_fields_accepts [OF open' rdr(1)] same(1) by metis
  have tagsq: "?tags = tags"
    using tags_in_slots [OF cr q(3,8)] same(5,7) by metis
  have "SealSlotTag cr eph rp = SealSlotTag cr eph (c_readers c ! i)"
    using rdr(2,3) [unfolded tagsq] all_tags_nth [OF q(3)] same(4,5) by simp
  moreover have "tags_separate cr eph (rp # c_readers c)"
    using c q(1,2) same(4) by (simp add: call_ok_def)
  ultimately have mem: "rp \<in> set (c_readers c)" and sep: "tags_separate cr eph' (c_readers c)"
    using rdr(2) same(5) nth_mem [of i "c_readers c"] same(4) by (auto simp: tags_separate_def)
  obtain sg where sg: "TranscriptV2 (wchar4 cr) kLabelSig (c_src c) (c_dst c) kSealVersion (call_time c) eph' ?n (concat tags) None body' = Some sg"
      "AppendField sg slots' = msg"
    using q(9,10,11) by (auto simp: TranscriptV2_sig frame_snoc)
  have cek: "length cek = kSealCekLen" using c q(4) by (simp add: call_ok_def)
  have "OpenV2_fields cr r sp (c_src c) (c_dst c) kSealVersion (call_time c) eph' ?n slots' body' sig (length (c_plain c))
      = Inr (c_plain c, call_time c)"
    by (rule OpenV2_fields_sealed [OF cr q(2,3,6,7) cek q(8) sg(1) ver(2) ver(1) [folded sg(2)] rdr(1) mem q(5) sep])
  then have "c_plain c = plain" using open' same route by simp
  with route t mem show ?thesis by simp
qed

text \<open>
  C1: What opens was sealed, by the sender, for this reader, on this route.  Suppose every message
  that verifies under the sender's public key is one that a call of \<open>SealTo\<close> signed, or a login, ack,
  relay attestation or revocation list.  Whatever \<open>Open\<close> then accepts carries the plaintext, the source,
  the destination and the time of one of those calls, and the reader is among its readers: no field of
  a body can be changed, no signature of the identity key made for another purpose is a body, and no
  version 1 body opens if none was signed.
\<close>

theorem Open_only_what_was_sealed:
  assumes "crypto_ok cr" and "EcdhPublic cr r = Some rp"
    and "\<forall>m sig. EcdsaVerify cr sp m sig \<longrightarrow>
           (\<exists>c \<in> set calls. call_signs cr c = Some m) \<or> other_purpose (wchar4 cr) (Sha256 cr) m"
    and "list_all (call_ok cr rp) calls" and "address_ok (wchar4 cr) src" and "address_ok (wchar4 cr) dst"
    and "Open cr r sp src dst blob cbOut = Inr (plain, t)"
  shows "\<exists>c \<in> set calls. c_src c = src \<and> c_dst c = dst \<and> c_plain c = plain \<and> call_time c = t \<and> rp \<in> set (c_readers c)"
proof -
  have signed: "\<exists>c \<in> set calls. call_signs cr c = Some m" if "EcdsaVerify cr sp m sig" "m = frame (kLabelSig # fs)" for m sig fs
    using assms(3) that other_purpose_label by blast
  have callok: "call_ok cr rp c" if "c \<in> set calls" for c
    using assms(4) that by (simp add: list_all_iff)
  consider "OpenV1 cr r sp src dst blob cbOut = Inr (plain, t)" | "OpenV2 cr r sp src dst blob cbOut = Inr (plain, t)"
    using assms(7) by (auto simp: Open_def split: if_splits)
  then show ?thesis
  proof cases
    case 1
    then obtain tr sig fs where tr: "EcdsaVerify cr sp tr sig" "tr = frame (kLabelSig # [kSealVersion1] # fs)"
      by (rule OpenV1_accepts)
    then obtain c where c: "c \<in> set calls" "call_signs cr c = Some tr" using signed by blast
    have "is_i64 (call_time c)" using callok [OF c(1)] by (simp add: call_ok_def)
    from call_signs_fields [OF assms(1) c(2) this]
    obtain gs where "tr = frame (kLabelSig # [kSealVersion] # gs)" by (metis sig_fields_def append_Cons)
    then have False using tr(2) by (simp add: frame_Cons_eq kSealVersion_def kSealVersion1_def)
    then show ?thesis ..
  next
    case 2
    then obtain n where n: "SealReaderCount blob = n" "0 < n" by (auto simp: OpenV2_def Let_def split: if_splits)
    then obtain w eph slots body sig m where b: "blob = v2_body w eph n slots body sig"
      and parts: "v2_parts_ok w eph n slots body sig m"
      by (rule v2_body_parse)
    have op: "OpenV2_fields cr r sp src dst kSealVersion w eph n slots body sig m = Inr (plain, t)"
      using 2 [unfolded b OpenV2_v2_body [OF parts]] by (simp split: if_splits)
    from OpenV2_fields_accepts [OF op assms(2)] obtain s d i where a:
      "SealUtf8FromWide (wchar4 cr) src = Some s" "SealUtf8FromWide (wchar4 cr) dst = Some d"
      "EcdsaVerify cr sp (frame (sig_fields w s d eph n
          (map (\<lambda>r. block_at (r * kSealSlotLen) kSealRTagLen slots) [0..<n]) @ [body, slots])) sig"
      "EcdsaImportOk cr sp" "i < n"
      "SealSlotTag cr eph rp = Some (map (\<lambda>r. block_at (r * kSealSlotLen) kSealRTagLen slots) [0..<n] ! i)"
      by blast
    then obtain c where c: "c \<in> set calls" "call_signs cr c = Some (frame (sig_fields w s d eph n
          (map (\<lambda>r. block_at (r * kSealSlotLen) kSealRTagLen slots) [0..<n]) @ [body, slots]))"
      using signed [OF a(3)] by (auto simp: sig_fields_def)
    show ?thesis
      using opened_call [OF assms(1) c(2) callok [OF c(1)] refl parts assms(5,6) a(1,2) op a(3,4) assms(2) a(5,6)] c(1) by blast
  qed
qed

lemma example_unsigned:
  "\<exists>pre msg. \<forall>V. SealUnsigned (example_crypto V) 0 (Some (replicate 64 2)) (Some (replicate 32 1)) [replicate 64 3] [65] [66] [1, 2] 400 7
     = Inr (pre, msg)"
proof -
  have t: "all_tags (example_crypto V) (replicate 64 2) [replicate 64 3] = Some [replicate 8 3]" for V
    by (simp add: example_SealSlotTag)
  show ?thesis
    by (simp add: SealUnsigned_def seal_slot_def DeriveKek_def or_fail_def seal_sizes t Let_def
        TranscriptV2_def next_code_point_def utf8_bytes_def del: all_tags.simps)
qed

theorem Open_only_what_was_sealed_witness:
  "\<exists>V blob c. Open (example_crypto V) (replicate 64 3) (replicate 64 4) [65] [66] blob 5 = Inr ([1, 2], 7)
     \<and> c_plain c = [1, 2] \<and> call_time c = 7 \<and> call_signs (example_crypto V) c \<noteq> None"
proof -
  let ?e = "replicate 64 (2::byte)" and ?k = "replicate 32 (1::byte)" and ?r = "replicate 64 (3::byte)" and ?s = "replicate 64 (4::byte)"
  obtain pre msg where u: "\<And>V. SealUnsigned (example_crypto V) 0 (Some ?e) (Some ?k) [?r] [65] [66] [1, 2] 400 7 = Inr (pre, msg)"
    using example_unsigned by blast
  define cr where "cr = example_crypto (\<lambda>m. m = msg)"
  define c where "c = \<lparr> c_now = 0, c_eph = Some ?e, c_cek = Some ?k, c_readers = [?r], c_src = [65], c_dst = [66], c_plain = [1, 2],
    c_room = 400, c_when = 7 \<rparr>"
  have cr: "crypto_ok cr" by (simp add: cr_def example_crypto_ok)
  have cs: "call_signs cr c = Some msg" using u by (simp add: cr_def c_def call_signs_def)
  have sep: "tags_separate cr eph [?r]" "tags_separate cr eph [?r, ?r]" for eph by (simp_all add: tags_separate_def)
  have "SealTo cr 0 (Some ?e) (Some ?k) ?s [?r] [65] [66] [1, 2] 400 7 = Inr (pre @ ?s)"
    using u by (simp add: SealTo_split cr_def)
  then have "Open cr ?r ?s [65] [66] (pre @ ?s) 5 = Inr ([1, 2], seal_time 0 7)"
    using SealTo_opens [OF cr, of ?s ?s 0 ?e ?k "[?r]" "[65]" "[66]" "[1, 2]" 400 7 _ ?r ?r ?e 5] sep
    by (simp add: cr_def seal_sizes seal_time_def is_i64_def)
  then have op: "Open cr ?r ?s [65] [66] (pre @ ?s) 5 = Inr ([1, 2], 7)" by (simp add: seal_time_def)
  have "\<exists>c' \<in> set [c]. c_src c' = [65] \<and> c_dst c' = [66] \<and> c_plain c' = [1, 2] \<and> call_time c' = 7 \<and> ?r \<in> set (c_readers c')"
  proof (rule Open_only_what_was_sealed [OF cr _ _ _ _ _ op])
    show "list_all (call_ok cr ?r) [c]" using sep
      by (simp add: call_ok_def c_def call_time_def seal_time_def is_i64_def address_ok_def wide_units_ok_def
          next_code_point_def utf8_bytes_def short_def seal_sizes cr_def)
  qed (use cs in \<open>simp_all add: cr_def address_ok_def wide_units_ok_def next_code_point_def utf8_bytes_def short_def\<close>)
  then show ?thesis using op cs cr_def by auto
qed

text \<open>
  A body does not open for anyone else.  The holder of a key that is not among the readers is
  told \<open>SealErrNotAReader\<close>; a reader whose buffer is too small is told \<open>SealErrArgs\<close> before anything is
  decrypted; under another sender's key, one the signature does not verify under, the body is refused
  with \<open>SealErrSignature\<close>, reader or not; and a body cut short or with another version byte is refused
  as such.
\<close>

theorem Open_refuses_others:
  assumes "crypto_ok cr" and "EcdsaPublic cr sk = Some sp"
    and "SealTo cr now (Some e) (Some cek) sk rdrs src dst plain cb when = Inr blob"
    and "EcdhPublic cr e = Some eph" and "is_i64 (seal_time now when)"
    and "EcdhPublic cr r = Some rp" and "SealSlotTag cr eph rp \<noteq> None"
    and "\<forall>q \<in> set rdrs. SealSlotTag cr eph q \<noteq> SealSlotTag cr eph rp"
    and "EcdsaImportOk cr sp'" and "\<forall>m sig. EcdsaSign cr sk m = Some sig \<longrightarrow> \<not> EcdsaVerify cr sp' m sig"
  shows "Open cr r sp src dst blob cbOut = Inl (if cbOut < length plain then SealErrArgs else SealErrNotAReader)
    \<and> Open cr k sp' src dst blob cbOut = Inl (if cbOut < length plain then SealErrArgs else SealErrSignature)
    \<and> Open cr r sp src dst [] cbOut = Inl SealErrFormat
    \<and> Open cr r sp src dst (take 73 blob) cbOut = Inl SealErrFormat
    \<and> (v \<notin> {kSealVersion, kSealVersion1} \<longrightarrow> Open cr r sp src dst (v # tl blob) cbOut = Inl SealErrVersion)"
proof -
  obtain pre msg sig where u: "SealUnsigned cr now (Some e) (Some cek) rdrs src dst plain cb when = Inr (pre, msg)"
    and s: "EcdsaSign cr sk msg = Some sig" and blob: "blob = pre @ sig"
    using assms(3) by (auto simp: SealTo_split)
  have sig: "length sig = kSealSigLen" "EcdsaVerify cr sp msg sig" "EcdsaImportOk cr sp"
    using crypto_okD(1,2) [OF assms(1)] assms(2) s by auto
  obtain w where w: "SealSlotTag cr eph rp = Some w" using assms(7) by blast
  show ?thesis
  proof (rule SealUnsigned_parts [OF assms(1) u assms(5)])
    fix e' eph' tags cek' aad body slots sig0
    let ?t = "seal_time now when" and ?n = "length rdrs"
    assume q: "Some e = Some e'" "EcdhPublic cr e' = Some eph'" "all_tags cr eph' rdrs = Some tags" "Some cek = Some cek'"
      "distinct rdrs"
      "TranscriptV2 (wchar4 cr) kLabelAad src dst kSealVersion ?t eph' ?n (concat tags) None [] = Some aad"
      "GcmSeal cr cek' aad plain = Some body" "seal_slots cr src dst ?t e' eph' ?n tags cek' (zip rdrs tags) = Inr slots"
      "TranscriptV2 (wchar4 cr) kLabelSig src dst kSealVersion ?t eph' ?n (concat tags) None body = Some sig0"
      "msg = AppendField sig0 slots" "pre = [kSealVersion] @ PutTime ?t @ eph' @ [word_of_nat ?n] @ slots @ body"
      "\<And>sig. length sig = kSealSigLen \<Longrightarrow> v2_parts_ok ?t eph' ?n slots body sig (length plain)"
    have e: "e' = e" "eph' = eph" using q(1,2) assms(4) by auto
    have parts: "v2_parts_ok ?t eph ?n slots body sig (length plain)" using q(12) sig(1) e by simp
    have b: "blob = v2_body ?t eph ?n slots body sig" using blob q(11) e by (simp add: v2_body_def)
    have tags: "map (\<lambda>r. block_at (r * kSealSlotLen) kSealRTagLen slots) [0..<?n] = tags"
      using tags_in_slots [OF assms(1) q(3,8)] by metis
    have "w \<notin> set tags"
      using all_tags_nth [OF q(3)] assms(8) w e by (metis in_set_conv_nth nth_mem)
    then have "OpenV2_fields cr r sp src dst kSealVersion ?t eph ?n slots body sig (length plain) = Inl SealErrNotAReader"
      unfolding OpenV2_fields_def Let_def tags
      using q(9,10) sig e by (simp add: or_fail_def assms(6) w slot_index_None [THEN iffD2])
    moreover have "OpenV2_fields cr k sp' src dst kSealVersion ?t eph ?n slots body sig (length plain) = Inl SealErrSignature"
      unfolding OpenV2_fields_def Let_def tags
      using q(9,10) s assms(9,10) e by (simp add: or_fail_def)
    moreover have "take 1 blob = [kSealVersion]" "length blob \<ge> 73"
      using parts by (simp_all add: b v2_body_def v2_parts_ok_def seal_sizes)
    ultimately show ?thesis
      using Open_v2_body [OF parts, folded b]
      by (cases blob) (simp_all add: Open_def OpenV2_def SealReaderCount_def seal_sizes)
  qed
qed

theorem Open_refuses_others_witness:
  "\<exists>blob. Open (example_crypto (\<lambda>m. True)) (replicate 64 5) (replicate 64 4) [65] [66] blob 5 = Inl SealErrNotAReader
     \<and> Open (example_crypto (\<lambda>m. True)) (replicate 64 3) (replicate 64 6) [65] [66] blob 5 = Inl SealErrSignature"
proof -
  let ?cr = "example_crypto (\<lambda>m. True)" and ?e = "replicate 64 (2::byte)" and ?k = "replicate 32 (1::byte)"
    and ?r = "replicate 64 (3::byte)" and ?s = "replicate 64 (4::byte)" and ?o = "replicate 64 (5::byte)" and ?f = "replicate 64 (6::byte)"
  obtain pre msg where "SealUnsigned ?cr 0 (Some ?e) (Some ?k) [?r] [65] [66] [1, 2] 400 7 = Inr (pre, msg)"
    using example_unsigned by blast
  then have b: "SealTo ?cr 0 (Some ?e) (Some ?k) ?s [?r] [65] [66] [1, 2] 400 7 = Inr (pre @ ?s)"
    by (simp add: SealTo_split)
  have "Open ?cr ?o ?s [65] [66] (pre @ ?s) 5 = Inl (if 5 < length [1, 2 :: byte] then SealErrArgs else SealErrNotAReader)
    \<and> Open ?cr ?r ?f [65] [66] (pre @ ?s) 5 = Inl (if 5 < length [1, 2 :: byte] then SealErrArgs else SealErrSignature)
    \<and> Open ?cr ?o ?s [65] [66] [] 5 = Inl SealErrFormat
    \<and> Open ?cr ?o ?s [65] [66] (take 73 (pre @ ?s)) 5 = Inl SealErrFormat
    \<and> (3 \<notin> {kSealVersion, kSealVersion1} \<longrightarrow> Open ?cr ?o ?s [65] [66] (3 # tl (pre @ ?s)) 5 = Inl SealErrVersion)"
    by (rule Open_refuses_others [OF example_crypto_ok _ b, of ?s ?e ?o ?o ?f])
       (simp_all add: example_SealSlotTag seal_time_def is_i64_def)
  then show ?thesis by auto
qed

end
