(* ===== verification/AuthPolicy.thy ===== *)
theory AuthPolicy
  imports Seal IdentityStore
begin

text \<open>
  The state of \<open>AuthPolicy\<close> (P2PAuthLogin.cpp) and its configuration: keys, allow-list, revocation list
  and authority, link policy, arming; and how a peer's keys are looked up and a signature is checked
  against them.  A \<open>policy\<close> is one object.  A key and the flag beside it (\<open>m_bHaveIdentity\<close> and so on),
  which the code always sets together, are one optional field; a path is its bytes.  The clock an
  operation reads is its argument \<open>now\<close>, one value for the whole operation, and the file behind a path
  is an argument too.  Pointers the callers always pass are values.
\<close>

type_synonym mark = "bytes \<times> int"

record policy =
  m_pIdentity :: "bytes option"
  m_pAgreement :: "bytes option"
  m_bRequired :: bool
  m_aLinkPolicy :: "nat list"
  m_nTrustFloor :: nat
  m_bRelayRequired :: bool
  m_bRelayReplay :: bool
  m_bSealReplay :: bool
  m_bSealRequired :: bool
  m_bSealBroadcastRequired :: bool
  m_bSealUpcastRequired :: bool
  m_bWaiveE2EInProcess :: bool
  m_pSealReaders :: "wstr list"
  m_nWindow :: int
  m_nSealWindow :: int
  m_llSealFloor :: int
  m_pAllow :: "allow_line list"
  m_pSeen :: "mark list"
  m_pSeenRel :: "mark list"
  m_pSeenSeal :: "mark list"
  m_nSealNext :: nat
  m_pszAllowPath :: "bytes option"
  m_bAllowUsable :: bool
  m_pRevoked :: "bytes list"
  m_pszRevokePath :: "bytes option"
  m_bRevokeConfigured :: bool
  m_bRevokeUsable :: bool
  m_bRevokeRequired :: bool
  m_aAuthority :: "bytes option"
  m_llRevEpoch :: int
  m_tRevApplied :: int
  m_nRevMaxStale :: int

datatype AuthResult = AuthOk | AuthOff | AuthErrArgs | AuthErrNoIdentity | AuthErrFormat | AuthErrVersion
  | AuthErrUnknownPeer | AuthErrSignature | AuthErrSkew | AuthErrReplay | AuthErrRevoked | AuthErrInternal

datatype ArmResult = ArmOk | ArmNotRequired | ArmNoIdentity | ArmNoAllowList | ArmAllowUnusable | ArmEmptyAllow
  | ArmNoRevocation | ArmRevocationUnusable | ArmNotRequiredByPolicy

datatype RevResult = RevOk | RevErrArgs | RevErrFormat | RevErrVersion | RevErrNoAuthority | RevErrIssuer
  | RevErrSignature | RevErrStale | RevErrNoIdentity | RevErrNoList | RevErrInternal

definition kAuthWindowDefault :: int where "kAuthWindowDefault = 300"
definition kSealWindowDefault :: int where "kSealWindowDefault = 86400"

definition policy_new :: policy where
  "policy_new =
     \<lparr> m_pIdentity = None, m_pAgreement = None, m_bRequired = True, m_aLinkPolicy = [0, 0, 0], m_nTrustFloor = 0,
       m_bRelayRequired = True, m_bRelayReplay = True, m_bSealReplay = True, m_bSealRequired = True,
       m_bSealBroadcastRequired = True, m_bSealUpcastRequired = True, m_bWaiveE2EInProcess = False,
       m_pSealReaders = [], m_nWindow = kAuthWindowDefault, m_nSealWindow = kSealWindowDefault, m_llSealFloor = 0,
       m_pAllow = [], m_pSeen = [], m_pSeenRel = [], m_pSeenSeal = [], m_nSealNext = 0,
       m_pszAllowPath = None, m_bAllowUsable = False, m_pRevoked = [], m_pszRevokePath = None,
       m_bRevokeConfigured = False, m_bRevokeUsable = True, m_bRevokeRequired = True, m_aAuthority = None,
       m_llRevEpoch = 0, m_tRevApplied = 0, m_nRevMaxStale = 0 \<rparr>"

subsection \<open>Settings\<close>

definition SetWindow :: "int \<Rightarrow> policy \<Rightarrow> policy" where
  "SetWindow nSeconds p = p\<lparr>m_nWindow := (if nSeconds < 0 then 0 else nSeconds)\<rparr>"

definition SetSealWindow :: "int \<Rightarrow> policy \<Rightarrow> policy" where
  "SetSealWindow nSeconds p = p\<lparr>m_nSealWindow := (if nSeconds < 0 then 0 else nSeconds)\<rparr>"

definition SetMaxRevocationStaleness :: "int \<Rightarrow> policy \<Rightarrow> policy" where
  "SetMaxRevocationStaleness nSeconds p = p\<lparr>m_nRevMaxStale := (if nSeconds < 0 then 0 else nSeconds)\<rparr>"

text \<open>Trust classes are 1 and 2; class 0 cannot be opened.\<close>

definition SetLinkPolicy :: "int \<Rightarrow> int \<Rightarrow> policy \<Rightarrow> policy" where
  "SetLinkPolicy nTrustClass nPolicy p =
     (if nTrustClass \<le> 0 \<or> nTrustClass \<ge> int (length (m_aLinkPolicy p)) then p
      else p\<lparr>m_aLinkPolicy := (m_aLinkPolicy p)[nat nTrustClass := (if nPolicy = 0 then 0 else 1)]\<rparr>)"

definition GetLinkPolicy :: "int \<Rightarrow> policy \<Rightarrow> int" where
  "GetLinkPolicy nTrustClass p =
     (if nTrustClass < 0 \<or> nTrustClass \<ge> int (length (m_aLinkPolicy p)) then 0
      else int (m_aLinkPolicy p ! nat nTrustClass))"

definition SetTrustFloor :: "int \<Rightarrow> policy \<Rightarrow> policy" where
  "SetTrustFloor nTrustClass p =
     (if nTrustClass < 0 \<or> nTrustClass \<ge> int (length (m_aLinkPolicy p)) then p
      else p\<lparr>m_nTrustFloor := nat nTrustClass\<rparr>)"

definition LinkPolicyOpensAllHeld :: "policy \<Rightarrow> bool" where
  "LinkPolicyOpensAllHeld p =
     (if m_nTrustFloor p = 0 then False
      else list_all (\<lambda>i. m_aLinkPolicy p ! i \<noteq> 0) [m_nTrustFloor p..<length (m_aLinkPolicy p)])"

definition Arm :: "policy \<Rightarrow> ArmResult" where
  "Arm p =
     (if \<not> m_bRequired p then ArmNotRequired
      else if LinkPolicyOpensAllHeld p then ArmNotRequiredByPolicy
      else if m_pIdentity p = None then ArmNoIdentity
      else if m_pszAllowPath p = None then ArmNoAllowList
      else if \<not> m_bAllowUsable p then ArmAllowUnusable
      else if m_pAllow p = [] then ArmEmptyAllow
      else if m_bRevokeConfigured p \<and> \<not> m_bRevokeUsable p then ArmRevocationUnusable
      else if m_bRevokeRequired p \<and> \<not> m_bRevokeConfigured p then ArmNoRevocation
      else ArmOk)"

subsection \<open>Revocation\<close>

definition IsRevocationFresh :: "policy \<Rightarrow> int \<Rightarrow> bool" where
  "IsRevocationFresh p now =
     (if m_nRevMaxStale p \<le> 0 \<or> m_aAuthority p = None then True
      else if m_tRevApplied p = 0 then False
      else if now < m_tRevApplied p then True
      else now - m_tRevApplied p \<le> m_nRevMaxStale p)"

definition IsRevocationUsable :: "policy \<Rightarrow> int \<Rightarrow> bool" where
  "IsRevocationUsable p now = (if \<not> m_bRevokeConfigured p then True else m_bRevokeUsable p \<and> IsRevocationFresh p now)"

definition IsRevokedPointRaw :: "policy \<Rightarrow> bytes \<Rightarrow> bool" where
  "IsRevokedPointRaw p pPoint = list_ex (\<lambda>q. q = take kIdRevokePointLen pPoint) (m_pRevoked p)"

definition IsRevokedPoint :: "policy \<Rightarrow> int \<Rightarrow> bytes \<Rightarrow> bool" where
  "IsRevokedPoint p now pPoint =
     (if \<not> m_bRevokeConfigured p then False
      else if \<not> m_bRevokeUsable p \<or> \<not> IsRevocationFresh p now then True
      else list_ex (\<lambda>q. q = take kIdRevokePointLen pPoint) (m_pRevoked p))"

definition SelfKeyRevoked :: "crypto \<Rightarrow> policy \<Rightarrow> int \<Rightarrow> bool" where
  "SelfKeyRevoked cr p now =
     (if \<not> m_bRevokeConfigured p \<or> \<not> m_bRevokeUsable p then False
      else if (case Option.bind (m_pIdentity p) (EcdsaPublic cr) of None \<Rightarrow> False | Some pub \<Rightarrow> IsRevokedPoint p now pub) then True
      else (case Option.bind (m_pAgreement p) (EcdhPublic cr) of None \<Rightarrow> False | Some pub \<Rightarrow> IsRevokedPoint p now pub))"

definition ReloadRevocationList :: "crypto \<Rightarrow> int \<Rightarrow> disk_file \<Rightarrow> policy \<Rightarrow> IdResult \<times> policy" where
  "ReloadRevocationList cr now f p =
     (if m_pszRevokePath p = None then (IdErrArgs, p)
      else (case LoadRevocationList f (\<lambda>pt w v. v @ [pt]) [] of (eResult, vNew) \<Rightarrow>
        if eResult \<noteq> IdOk then (eResult, p\<lparr>m_bRevokeUsable := False\<rparr>)
        else (let p' = p\<lparr>m_pRevoked := vNew, m_bRevokeUsable := True\<rparr>
              in if SelfKeyRevoked cr p' now then (IdErrRevoked, p') else (IdOk, p'))))"

text \<open>\<open>mem\<close>: the copy of the path could be allocated.\<close>

definition SetRevocationList :: "crypto \<Rightarrow> int \<Rightarrow> bool \<Rightarrow> disk_file \<Rightarrow> bytes \<Rightarrow> policy \<Rightarrow> IdResult \<times> policy" where
  "SetRevocationList cr now mem f pszPath p =
     (if pszPath = [] then (IdErrArgs, p)
      else if \<not> mem then (IdErrIo, p\<lparr>m_pszRevokePath := None, m_bRevokeConfigured := True, m_bRevokeUsable := False\<rparr>)
      else ReloadRevocationList cr now f (p\<lparr>m_pszRevokePath := Some pszPath, m_bRevokeConfigured := True\<rparr>))"

definition SetRevocationAuthority :: "crypto \<Rightarrow> bytes option \<Rightarrow> policy \<Rightarrow> IdResult \<times> policy" where
  "SetRevocationAuthority cr pIssuerPub p =
     (case pIssuerPub of None \<Rightarrow> (IdOk, p\<lparr>m_aAuthority := None\<rparr>)
      | Some pub \<Rightarrow>
          if IsRevokedPointRaw p pub then (IdErrRevoked, p)
          else if \<not> EcdsaImportOk cr pub then (IdErrKey, p)
          else (IdOk, p\<lparr>m_aAuthority := Some (take kEcdsaPubLen pub)\<rparr>))"

subsection \<open>Keys and the allow-list\<close>

text \<open>
  \<open>load\<close> is what \<open>LoadIdentity\<close> or \<open>LoadOrCreateIdentity\<close> (\<open>LoadAgreement\<close> or \<open>LoadOrCreateAgreement\<close>)
  answers for the path; both are \<open>LoadKeyFile\<close> and \<open>LoadOrCreateKeyFile\<close> of the identity store.
\<close>

definition SetIdentity :: "crypto \<Rightarrow> int \<Rightarrow> (bytes \<Rightarrow> IdResult + bytes) \<Rightarrow> bytes \<Rightarrow> policy \<Rightarrow> IdResult \<times> policy" where
  "SetIdentity cr now load pszPath p =
     (if pszPath = [] then (IdErrArgs, p)
      else (case load pszPath of Inl eResult \<Rightarrow> (eResult, p)
        | Inr pKey \<Rightarrow>
            if (case EcdsaPublic cr pKey of None \<Rightarrow> False | Some selfPub \<Rightarrow> IsRevokedPoint p now selfPub)
            then (IdErrRevoked, p)
            else (IdOk, p\<lparr>m_pIdentity := Some pKey\<rparr>)))"

definition SetAgreement :: "crypto \<Rightarrow> int \<Rightarrow> (bytes \<Rightarrow> IdResult + bytes) \<Rightarrow> bytes \<Rightarrow> policy \<Rightarrow> IdResult \<times> policy" where
  "SetAgreement cr now load pszPath p =
     (if pszPath = [] then (IdErrArgs, p)
      else (case load pszPath of Inl eResult \<Rightarrow> (eResult, p)
        | Inr pKey \<Rightarrow>
            if (case EcdhPublic cr pKey of None \<Rightarrow> False | Some selfPub \<Rightarrow> IsRevokedPoint p now selfPub)
            then (IdErrRevoked, p)
            else (IdOk, p\<lparr>m_pAgreement := Some pKey\<rparr>)))"

definition GetAgreementPublic :: "crypto \<Rightarrow> policy \<Rightarrow> bytes option" where
  "GetAgreementPublic cr p = Option.bind (m_pAgreement p) (EcdhPublic cr)"

definition AllowSink :: "allow_line \<Rightarrow> allow_line list \<Rightarrow> allow_line list" where
  "AllowSink oEntry v = v @ [oEntry]"

definition ReloadAllowList :: "disk_file \<Rightarrow> policy \<Rightarrow> IdResult \<times> policy" where
  "ReloadAllowList f p =
     (if m_pszAllowPath p = None then (IdErrArgs, p)
      else (case LoadAllowList f AllowSink [] of (eResult, vNew) \<Rightarrow>
        if eResult \<noteq> IdOk then (eResult, p\<lparr>m_bAllowUsable := False\<rparr>)
        else (IdOk, p\<lparr>m_pAllow := vNew, m_bAllowUsable := True\<rparr>)))"

definition SetAllowList :: "bool \<Rightarrow> disk_file \<Rightarrow> bytes \<Rightarrow> policy \<Rightarrow> IdResult \<times> policy" where
  "SetAllowList mem f pszPath p =
     (if pszPath = [] then (IdErrArgs, p)
      else if \<not> mem then (IdErrIo, p\<lparr>m_pszAllowPath := None\<rparr>)
      else ReloadAllowList f (p\<lparr>m_pszAllowPath := Some pszPath\<rparr>))"

definition AddSealReader :: "wstr \<Rightarrow> policy \<Rightarrow> IdResult \<times> policy" where
  "AddSealReader pAddr p =
     (if pAddr = [] then (IdErrArgs, p)
      else if length (m_pSealReaders p) + 1 \<ge> kSealMaxReaders then (IdErrFormat, p)
      else if pAddr \<in> set (m_pSealReaders p) then (IdErrFormat, p)
      else (IdOk, p\<lparr>m_pSealReaders := m_pSealReaders p @ [pAddr]\<rparr>))"

definition ClearSealReaders :: "policy \<Rightarrow> policy" where
  "ClearSealReaders p = p\<lparr>m_pSealReaders := []\<rparr>"

subsection \<open>A peer's keys\<close>

text \<open>The loop of \<open>PeerKeyAt\<close>, from an entry on, \<open>nSeen\<close> live keys of the address passed.\<close>

fun key_at_from :: "policy \<Rightarrow> int \<Rightarrow> bytes \<Rightarrow> nat \<Rightarrow> nat \<Rightarrow> allow_line list \<Rightarrow> bytes option" where
  "key_at_from p now sAddr nIndex nSeen [] = None"
| "key_at_from p now sAddr nIndex nSeen (e # es) =
     (if al_identity e \<noteq> sAddr then key_at_from p now sAddr nIndex nSeen es
      else if IsRevokedPoint p now (al_pub e) then key_at_from p now sAddr nIndex nSeen es
      else if nSeen \<noteq> nIndex then key_at_from p now sAddr nIndex (Suc nSeen) es
      else Some (al_pub e))"

definition PeerKeyAt :: "crypto \<Rightarrow> int \<Rightarrow> policy \<Rightarrow> wstr \<Rightarrow> nat \<Rightarrow> bytes option" where
  "PeerKeyAt cr now p pAddr nIndex =
     (case Utf8FromWide (wchar4 cr) pAddr of None \<Rightarrow> None
      | Some sAddr \<Rightarrow> key_at_from p now sAddr nIndex 0 (m_pAllow p))"

fun key_count_from :: "policy \<Rightarrow> int \<Rightarrow> bytes \<Rightarrow> nat \<times> nat \<Rightarrow> allow_line list \<Rightarrow> nat \<times> nat" where
  "key_count_from p now sAddr nn [] = nn"
| "key_count_from p now sAddr (nListed, nLive) (e # es) =
     (if al_identity e \<noteq> sAddr then key_count_from p now sAddr (nListed, nLive) es
      else key_count_from p now sAddr
             (Suc nListed, if IsRevokedPoint p now (al_pub e) then nLive else Suc nLive) es)"

text \<open>How many keys of the address are live, and whether it has keys and all are revoked.\<close>

definition PeerKeyCount :: "crypto \<Rightarrow> int \<Rightarrow> policy \<Rightarrow> wstr \<Rightarrow> nat \<times> bool" where
  "PeerKeyCount cr now p pAddr =
     (case Utf8FromWide (wchar4 cr) pAddr of None \<Rightarrow> (0, False)
      | Some sAddr \<Rightarrow> (case key_count_from p now sAddr (0, 0) (m_pAllow p) of (nListed, nLive) \<Rightarrow>
          (nLive, nListed > 0 \<and> nLive = 0)))"

text \<open>The loop of \<open>VerifyAgainstPeer\<close>, \<open>k\<close> rounds from index \<open>i\<close>.\<close>

fun verify_from :: "crypto \<Rightarrow> int \<Rightarrow> policy \<Rightarrow> wstr \<Rightarrow> bytes \<Rightarrow> bytes \<Rightarrow> nat \<Rightarrow> nat \<Rightarrow> AuthResult" where
  "verify_from cr now p pAddr pTr pSig i 0 = AuthErrSignature"
| "verify_from cr now p pAddr pTr pSig i (Suc k) =
     (case PeerKeyAt cr now p pAddr i of None \<Rightarrow> AuthErrSignature
      | Some pub \<Rightarrow>
          if \<not> EcdsaImportOk cr pub then AuthErrInternal
          else if EcdsaVerify cr pub pTr pSig then AuthOk
          else verify_from cr now p pAddr pTr pSig (Suc i) k)"

definition VerifyAgainstPeer :: "crypto \<Rightarrow> int \<Rightarrow> policy \<Rightarrow> wstr \<Rightarrow> bytes \<Rightarrow> bytes \<Rightarrow> AuthResult" where
  "VerifyAgainstPeer cr now p pAddr pTr pSig =
     (case PeerKeyCount cr now p pAddr of (nLive, bAllRevoked) \<Rightarrow>
        if bAllRevoked then AuthErrRevoked
        else if nLive = 0 then AuthErrUnknownPeer
        else verify_from cr now p pAddr pTr pSig 0 nLive)"

fun agreement_from :: "policy \<Rightarrow> int \<Rightarrow> bytes \<Rightarrow> allow_line list \<Rightarrow> bytes option" where
  "agreement_from p now sAddr [] = None"
| "agreement_from p now sAddr (e # es) =
     (if al_identity e \<noteq> sAddr then agreement_from p now sAddr es
      else (case al_agree e of None \<Rightarrow> agreement_from p now sAddr es
        | Some a \<Rightarrow> if IsRevokedPoint p now a then agreement_from p now sAddr es else Some a))"

definition FindAgreement :: "crypto \<Rightarrow> int \<Rightarrow> policy \<Rightarrow> wstr \<Rightarrow> bytes option" where
  "FindAgreement cr now p pAddr =
     (case Utf8FromWide (wchar4 cr) pAddr of None \<Rightarrow> None
      | Some sAddr \<Rightarrow> agreement_from p now sAddr (m_pAllow p))"

subsection \<open>Distributed revocation lists\<close>

definition AddRevokedPoint ::
  "crypto \<Rightarrow> int \<Rightarrow> bool \<Rightarrow> disk_file \<Rightarrow> policy \<Rightarrow> bytes \<Rightarrow> int \<Rightarrow> bool \<times> policy \<times> disk_file" where
  "AddRevokedPoint cr now wr f p pPoint llAt =
     (if m_pszRevokePath p = None then (False, p, f)
      else (case AppendRevocationList (Sha256 cr) now wr f pPoint llAt (Some (narrow ''distributed'')) of (r, f') \<Rightarrow>
        if r \<noteq> IdOk then (False, p, f')
        else (True, p\<lparr>m_pRevoked := m_pRevoked p @ [take kIdRevokePointLen pPoint]\<rparr>, f')))"

definition IssueRevocationList :: "crypto \<Rightarrow> policy \<Rightarrow> int \<Rightarrow> nat \<Rightarrow> RevResult + bytes" where
  "IssueRevocationList cr p llEpoch cbOut =
     (case m_pIdentity p of None \<Rightarrow> Inl RevErrNoIdentity
      | Some key \<Rightarrow>
        if \<not> m_bRevokeConfigured p then Inl RevErrNoList
        else (let nCount = length (m_pRevoked p) in
          if nCount > kRevMaxEntries then Inl RevErrInternal
          else if cbOut < RevListLen nCount then Inl RevErrArgs
          else (let llUse = (if llEpoch \<noteq> 0 then llEpoch else int nCount);
                    entries = concat (map (\<lambda>pt. pt @ PutI64 0) (m_pRevoked p)) in
            (case EcdsaPublic cr key of None \<Rightarrow> Inl RevErrInternal
             | Some issuer \<Rightarrow>
               (case RevListTranscript (Sha256 cr) llUse nCount entries issuer of None \<Rightarrow> Inl RevErrInternal
                | Some sTr \<Rightarrow>
                  (case EcdsaSign cr key sTr of None \<Rightarrow> Inl RevErrInternal
                   | Some sig \<Rightarrow>
                       Inr ([kRevMagic0, kRevMagic1, kRevVersion] @ PutI64 llUse
                            @ [word_of_nat (drop_bit 8 nCount AND 255), word_of_nat (nCount AND 255)]
                            @ entries @ issuer @ sig)))))))"

text \<open>The entries of a block that are not on the list yet are added one by one.\<close>

fun apply_entries ::
  "crypto \<Rightarrow> int \<Rightarrow> (bytes \<times> int) list \<Rightarrow> bool list \<Rightarrow> nat \<Rightarrow> policy \<Rightarrow> disk_file \<Rightarrow> (nat option) \<times> policy \<times> disk_file" where
  "apply_entries cr now [] wrs nAdded p f = (Some nAdded, p, f)"
| "apply_entries cr now ((pE, at) # es) wrs nAdded p f =
     (if IsRevokedPointRaw p pE then apply_entries cr now es wrs nAdded p f
      else (case AddRevokedPoint cr now (case wrs of [] \<Rightarrow> True | w # _ \<Rightarrow> w) f p pE at of (ok, p', f') \<Rightarrow>
        if \<not> ok then (None, p', f')
        else apply_entries cr now es (tl wrs) (Suc nAdded) p' f'))"

text \<open>The checks of \<open>ApplyRevocationList\<close>: the epoch and the entries of a block that passes them.\<close>

definition CheckRevocationList :: "crypto \<Rightarrow> policy \<Rightarrow> bytes \<Rightarrow> RevResult + int \<times> (bytes \<times> int) list" where
  "CheckRevocationList cr p pIn =
     (if length pIn < kRevFixedLen then Inl RevErrFormat
      else if pIn ! 0 \<noteq> kRevMagic0 \<or> pIn ! 1 \<noteq> kRevMagic1 then Inl RevErrFormat
      else if pIn ! 2 \<noteq> kRevVersion then Inl RevErrVersion
      else (let nCount = push_bit 8 (unat (pIn ! kOffRevCount)) OR unat (pIn ! (kOffRevCount + 1)) in
        if nCount > kRevMaxEntries then Inl RevErrFormat
        else if length pIn \<noteq> RevListLen nCount then Inl RevErrFormat
        else if m_aAuthority p = None then Inl RevErrNoAuthority
        else if \<not> m_bRevokeConfigured p \<or> m_pszRevokePath p = None then Inl RevErrNoList
        else (let pIssuer = block_at (OffRevIssuer nCount) 64 pIn in
          if m_aAuthority p \<noteq> Some pIssuer then Inl RevErrIssuer
          else (let llEpoch = GetI64 (drop kOffRevEpoch pIn);
                    pEntries = block_at kOffRevEntries (nCount * kRevEntryLen) pIn in
            (case RevListTranscript (Sha256 cr) llEpoch nCount pEntries pIssuer of None \<Rightarrow> Inl RevErrInternal
             | Some sTr \<Rightarrow>
               if \<not> EcdsaImportOk cr pIssuer then Inl RevErrInternal
               else if \<not> EcdsaVerify cr pIssuer sTr (block_at (OffRevSig nCount) kEcdsaSigLen pIn) then Inl RevErrSignature
               else if llEpoch \<le> m_llRevEpoch p then Inl RevErrStale
               else Inr (llEpoch, map (\<lambda>i. let pE = block_at (i * kRevEntryLen) kRevEntryLen pEntries
                                           in (take kRevPointLen pE, GetI64 (drop kRevPointLen pE))) [0..<nCount]))))))"

text \<open>\<open>wrs\<close>: which of the writes to the list file succeed.\<close>

definition ApplyRevocationList ::
  "crypto \<Rightarrow> int \<Rightarrow> bool list \<Rightarrow> disk_file \<Rightarrow> policy \<Rightarrow> bytes \<Rightarrow> (RevResult \<times> nat) \<times> policy \<times> disk_file" where
  "ApplyRevocationList cr now wrs f p pIn =
     (case CheckRevocationList cr p pIn of Inl r \<Rightarrow> ((r, 0), p, f)
      | Inr (llEpoch, es) \<Rightarrow>
        (case apply_entries cr now es wrs 0 p f of
           (None, p', f') \<Rightarrow> ((RevErrInternal, 0), p'\<lparr>m_bRevokeUsable := False\<rparr>, f')
         | (Some nAdded, p', f') \<Rightarrow>
             (let p2 = p'\<lparr>m_llRevEpoch := llEpoch, m_tRevApplied := now\<rparr>;
                  p3 = (case m_aAuthority p2 of None \<Rightarrow> p2
                        | Some a \<Rightarrow> if IsRevokedPointRaw p2 a then p2\<lparr>m_aAuthority := None\<rparr> else p2)
              in ((RevOk, nAdded), p3, f'))))"

subsection \<open>Looking up keys\<close>

definition live_keys :: "policy \<Rightarrow> int \<Rightarrow> bytes \<Rightarrow> bytes list" where
  "live_keys p now sAddr = map al_pub (filter (\<lambda>e. al_identity e = sAddr \<and> \<not> IsRevokedPoint p now (al_pub e)) (m_pAllow p))"

lemma key_at_from_live:
  "i \<le> n \<Longrightarrow> key_at_from p now a n i es =
     (let ks = map al_pub (filter (\<lambda>e. al_identity e = a \<and> \<not> IsRevokedPoint p now (al_pub e)) es)
      in if n - i < length ks then Some (ks ! (n - i)) else None)"
proof (induction es arbitrary: i)
  case (Cons e es)
  from Cons.prems obtain m where "n = i + m" using le_Suc_ex by blast
  with Cons.IH show ?case by (cases m) (auto simp: Let_def)
qed simp

lemma key_count_from_live:
  "key_count_from p now a (l, n) es =
     (l + length (filter (\<lambda>e. al_identity e = a) es),
      n + length (filter (\<lambda>e. al_identity e = a \<and> \<not> IsRevokedPoint p now (al_pub e)) es))"
  by (induction es arbitrary: l n) simp_all

lemma PeerKeyAt_live:
  "Utf8FromWide (wchar4 cr) pAddr = Some a \<Longrightarrow> PeerKeyAt cr now p pAddr i =
     (if i < length (live_keys p now a) then Some (live_keys p now a ! i) else None)"
  by (simp add: PeerKeyAt_def key_at_from_live live_keys_def Let_def)

lemma PeerKeyCount_live:
  "Utf8FromWide (wchar4 cr) pAddr = Some a \<Longrightarrow> PeerKeyCount cr now p pAddr =
     (length (live_keys p now a), (\<exists>e \<in> set (m_pAllow p). al_identity e = a) \<and> live_keys p now a = [])"
  by (auto simp: PeerKeyCount_def key_count_from_live live_keys_def filter_empty_conv)

lemma verify_from_live:
  assumes "Utf8FromWide (wchar4 cr) pAddr = Some a" and "\<forall>k \<in> set (live_keys p now a). EcdsaImportOk cr k"
    and "i + k = length (live_keys p now a)"
  shows "verify_from cr now p pAddr tr sig i k =
    (if list_ex (\<lambda>pub. EcdsaVerify cr pub tr sig) (drop i (live_keys p now a)) then AuthOk else AuthErrSignature)"
  using assms(3)
proof (induction k arbitrary: i)
  case (Suc k)
  then have "drop i (live_keys p now a) = live_keys p now a ! i # drop (Suc i) (live_keys p now a)"
    by (simp add: Cons_nth_drop_Suc)
  moreover have "EcdsaImportOk cr (live_keys p now a ! i)" using assms(2) Suc.prems by simp
  ultimately show ?case using Suc by (simp add: PeerKeyAt_live [OF assms(1)])
qed simp

lemma verify_from_sound:
  assumes "Utf8FromWide (wchar4 cr) pAddr = Some a" and "verify_from cr now p pAddr tr sig i k = AuthOk"
  shows "\<exists>pub \<in> set (live_keys p now a). EcdsaVerify cr pub tr sig"
  using assms(2)
proof (induction k arbitrary: i)
  case (Suc k)
  then show ?case
    by (auto simp: PeerKeyAt_live [OF assms(1)] split: if_splits)
qed simp

lemma VerifyAgainstPeer_sound:
  assumes "VerifyAgainstPeer cr now p pAddr tr sig = AuthOk"
  obtains a pub where "Utf8FromWide (wchar4 cr) pAddr = Some a" and "pub \<in> set (live_keys p now a)" and "EcdsaVerify cr pub tr sig"
proof (cases "Utf8FromWide (wchar4 cr) pAddr")
  case None
  then show thesis using assms by (simp add: VerifyAgainstPeer_def PeerKeyCount_def)
next
  case (Some a)
  then have "\<exists>k. verify_from cr now p pAddr tr sig 0 k = AuthOk"
    using assms by (auto simp: VerifyAgainstPeer_def PeerKeyCount_live split: if_splits)
  then show thesis using verify_from_sound [OF Some] that Some by blast
qed

text \<open>
  Checking a signature against a peer, whose listed keys are all valid points, answers exactly: ok
  when some listed key of the address that is not revoked verifies it, so that a key can be replaced by
  adding the new one beside the old; revoked when the address has keys and all are revoked; unknown
  when it has none; and otherwise that the signature is bad.
\<close>

theorem VerifyAgainstPeer_iff:
  assumes "Utf8FromWide (wchar4 cr) pAddr = Some a" and "list_all (\<lambda>e. EcdsaImportOk cr (al_pub e)) (m_pAllow p)"
  defines "listed \<equiv> filter (\<lambda>e. al_identity e = a) (m_pAllow p)"
  shows "VerifyAgainstPeer cr now p pAddr tr sig =
    (if list_ex (\<lambda>e. \<not> IsRevokedPoint p now (al_pub e) \<and> EcdsaVerify cr (al_pub e) tr sig) listed then AuthOk
     else if listed = [] then AuthErrUnknownPeer
     else if list_all (\<lambda>e. IsRevokedPoint p now (al_pub e)) listed then AuthErrRevoked
     else AuthErrSignature)"
proof -
  have imp: "\<forall>k \<in> set (live_keys p now a). EcdsaImportOk cr k"
    using assms(2) by (auto simp: live_keys_def list_all_iff)
  have e: "(\<exists>e \<in> set (m_pAllow p). al_identity e = a) \<longleftrightarrow> listed \<noteq> []"
    by (auto simp: listed_def filter_empty_conv)
  have l: "live_keys p now a = [] \<longleftrightarrow> list_all (\<lambda>e. IsRevokedPoint p now (al_pub e)) listed"
    by (auto simp: live_keys_def listed_def filter_empty_conv list_all_iff)
  have v: "list_ex (\<lambda>pub. EcdsaVerify cr pub tr sig) (live_keys p now a)
      \<longleftrightarrow> list_ex (\<lambda>e. \<not> IsRevokedPoint p now (al_pub e) \<and> EcdsaVerify cr (al_pub e) tr sig) listed"
    by (auto simp: live_keys_def listed_def list_ex_iff)
  show ?thesis
    using verify_from_live [OF assms(1) imp, of 0] v [symmetric]
    by (auto simp: VerifyAgainstPeer_def PeerKeyCount_live [OF assms(1)] e l list_all_iff list_ex_iff)
qed

text \<open>A key that was replaced and revoked, and its successor.\<close>

definition example_rotation :: policy where
  "example_rotation =
     policy_new\<lparr>m_pAllow := [\<lparr>al_identity = [65], al_pub = replicate 64 4, al_agree = None\<rparr>,
                             \<lparr>al_identity = [65], al_pub = replicate 64 6, al_agree = None\<rparr>],
                m_pRevoked := [replicate 64 4], m_bRevokeConfigured := True\<rparr>"

theorem VerifyAgainstPeer_iff_witness:
  "VerifyAgainstPeer (example_crypto (\<lambda>m. True)) 100 example_rotation [65] [1, 2] (replicate 64 6) = AuthOk
   \<and> VerifyAgainstPeer (example_crypto (\<lambda>m. True)) 100 example_rotation [65] [1, 2] (replicate 64 4) = AuthErrSignature"
proof -
  have u: "Utf8FromWide (wchar4 (example_crypto (\<lambda>m. True))) [65] = Some [65]"
    by (simp add: next_code_point_def utf8_bytes_def)
  have a: "list_all (\<lambda>e. EcdsaImportOk (example_crypto (\<lambda>m. True)) (al_pub e)) (m_pAllow example_rotation)"
    by (simp add: example_rotation_def)
  have r: "IsRevokedPoint example_rotation 100 (replicate 64 4)" "\<not> IsRevokedPoint example_rotation 100 (replicate 64 6)"
    by (simp_all add: IsRevokedPoint_def IsRevocationFresh_def example_rotation_def policy_new_def kIdRevokePointLen_def)
  have al: "m_pAllow example_rotation = [\<lparr>al_identity = [65], al_pub = replicate 64 4, al_agree = None\<rparr>,
                             \<lparr>al_identity = [65], al_pub = replicate 64 6, al_agree = None\<rparr>]"
    by (simp add: example_rotation_def)
  show ?thesis
    using VerifyAgainstPeer_iff [OF u a, of 100 "[1, 2]" "replicate 64 6"] VerifyAgainstPeer_iff [OF u a, of 100 "[1, 2]" "replicate 64 4"]
    by (simp add: al r)
qed

subsection \<open>Revocation lists from an issuer to a receiver\<close>

lemmas rev_sizes = kRevFixedLen_def kRevEntryLen_def kRevPointLen_def kOffRevEpoch_def kOffRevCount_def kOffRevEntries_def
  OffRevIssuer_def OffRevSig_def RevListLen_def kRevMaxEntries_def kIdRevokePointLen_def

definition rev_block :: "int \<Rightarrow> nat \<Rightarrow> bytes \<Rightarrow> bytes \<Rightarrow> bytes \<Rightarrow> bytes" where
  "rev_block ep n entries issuer sig =
     [kRevMagic0, kRevMagic1, kRevVersion] @ PutI64 ep @ PutU16 n @ entries @ issuer @ sig"

definition rev_entries :: "bytes list \<Rightarrow> bytes" where
  "rev_entries pts = concat (map (\<lambda>pt. pt @ PutI64 0) pts)"

lemma IssueRevocationList_parts:
  assumes "IssueRevocationList cr p epoch cbOut = Inr blk" and "m_pIdentity p = Some k" and "EcdsaPublic cr k = Some pub"
  obtains tr sig where "blk = rev_block (if epoch \<noteq> 0 then epoch else int (length (m_pRevoked p))) (length (m_pRevoked p))
        (rev_entries (m_pRevoked p)) pub sig"
    and "length (m_pRevoked p) \<le> kRevMaxEntries" and "EcdsaSign cr k tr = Some sig"
    and "RevListTranscript (Sha256 cr) (if epoch \<noteq> 0 then epoch else int (length (m_pRevoked p))) (length (m_pRevoked p))
           (rev_entries (m_pRevoked p)) pub = Some tr"
  using assms by (auto simp: IssueRevocationList_def rev_block_def rev_entries_def PutU16_def Let_def split: if_splits option.splits)

lemma length_PutI64 [simp]: "length (PutI64 v) = 8"
  by (simp add: PutI64_def)

lemma rev_entries_sizes: "list_all (\<lambda>pt. length pt = 64) pts \<Longrightarrow> list_all (\<lambda>xs. length xs = 72) (map (\<lambda>pt. pt @ PutI64 0) pts)"
  by (simp add: list_all_iff)

lemma length_rev_entries: "list_all (\<lambda>pt. length pt = 64) pts \<Longrightarrow> length (rev_entries pts) = 72 * length pts"
  using length_concat_const [OF rev_entries_sizes] by (simp add: rev_entries_def)

lemma rev_entries_read:
  assumes "list_all (\<lambda>pt. length pt = 64) pts" and "i < length pts"
  shows "take 64 (block_at (i * 72) 72 (rev_entries pts)) = pts ! i"
  using concat_slice [OF rev_entries_sizes [OF assms(1)], of i 0 72] assms
  by (simp add: rev_entries_def block_at_def list_all_length)

text \<open>Where \<open>ApplyRevocationList\<close> finds the parts of a block.\<close>

lemma rev_block_fields:
  assumes "length entries = 72 * n" and "length issuer = 64" and "length sig = 64" and "n \<le> kRevMaxEntries" and "is_i64 ep"
  defines "b \<equiv> rev_block ep n entries issuer sig"
  shows "length b = RevListLen n" and "b ! 0 = kRevMagic0" and "b ! 1 = kRevMagic1" and "b ! 2 = kRevVersion"
    and "push_bit 8 (unat (b ! kOffRevCount)) OR unat (b ! (kOffRevCount + 1)) = n"
    and "GetI64 (drop kOffRevEpoch b) = ep"
    and "block_at kOffRevEntries (n * kRevEntryLen) b = entries"
    and "block_at (OffRevIssuer n) 64 b = issuer" and "block_at (OffRevSig n) kEcdsaSigLen b = sig"
proof -
  have c: "b ! 11 = PutU16 n ! 0" "b ! 12 = PutU16 n ! 1"
    by (simp_all add: b_def rev_block_def nth_append PutU16_def)
  have "be_get (PutU16 n) = n" using assms(4) u16.get_put [of n] by (simp add: rev_sizes)
  then show "push_bit 8 (unat (b ! kOffRevCount)) OR unat (b ! (kOffRevCount + 1)) = n"
    by (simp add: rev_sizes c) (simp add: be_get_def PutU16_def)
  show "GetI64 (drop kOffRevEpoch b) = ep"
    using assms(5) GetI64_PutI64_append by (simp add: b_def rev_block_def rev_sizes)
  have u: "length (PutU16 n) = 2" by (simp add: PutU16_def)
  let ?pre = "[kRevMagic0, kRevMagic1, kRevVersion] @ PutI64 ep @ PutU16 n"
  have e: "b = ?pre @ entries @ issuer @ sig" "length ?pre = 13" by (simp_all add: b_def rev_block_def u)
  have i: "b = (?pre @ entries) @ issuer @ sig" "length (?pre @ entries) = 13 + 72 * n" using e assms(1) by simp_all
  have s: "b = (?pre @ entries @ issuer) @ sig" "length (?pre @ entries @ issuer) = 77 + 72 * n" using e assms(1,2) by simp_all
  have at: "block_at (length xs) (length ys) (xs @ ys @ zs) = ys" for xs ys zs :: bytes
    by (simp add: block_at_def)
  show "block_at kOffRevEntries (n * kRevEntryLen) b = entries"
    using at [of ?pre entries "issuer @ sig"] e assms(1) by (simp add: rev_sizes mult.commute)
  show "block_at (OffRevIssuer n) 64 b = issuer"
    using at [of "?pre @ entries" issuer sig] i assms(2) by (simp add: rev_sizes mult.commute)
  show "block_at (OffRevSig n) kEcdsaSigLen b = sig"
    using at [of "?pre @ entries @ issuer" sig "[]"] s assms(3) by (simp add: rev_sizes mult.commute kEcdsaSigLen_def)
qed (use assms in \<open>simp_all add: b_def rev_block_def rev_sizes PutU16_def\<close>)

subsection \<open>Applying a list\<close>

lemma AddRevokedPoint_effect:
  assumes "AddRevokedPoint cr now wr f p pt at = (ok, p', f')"
  shows "p' = (if ok then p\<lparr>m_pRevoked := m_pRevoked p @ [take kIdRevokePointLen pt]\<rparr> else p)"
  using assms by (auto simp: AddRevokedPoint_def split: if_splits prod.splits)

lemma IsRevokedPointRaw_grows: "set (m_pRevoked p) \<subseteq> set (m_pRevoked p') \<Longrightarrow> IsRevokedPointRaw p x \<Longrightarrow> IsRevokedPointRaw p' x"
  by (auto simp: IsRevokedPointRaw_def list_ex_iff)

lemma apply_entries_effect:
  assumes "apply_entries cr now es wrs n p f = (r, p', f')"
  shows "\<exists>new. p' = p\<lparr>m_pRevoked := m_pRevoked p @ new\<rparr>
     \<and> (\<forall>k. r = Some k \<longrightarrow> k = n + length new \<and> list_all (\<lambda>e. IsRevokedPointRaw p' (fst e)) es)"
  using assms
proof (induction cr now es wrs n p f rule: apply_entries.induct)
  case (1 cr now wrs n p f)
  then show ?case by (intro exI [of _ "[]"]) auto
next
  case (2 cr now pE at es wrs n p f)
  show ?case
  proof (cases "IsRevokedPointRaw p pE")
    case True
    with 2(1,3) obtain new where n: "p' = p\<lparr>m_pRevoked := m_pRevoked p @ new\<rparr>"
      "\<forall>k. r = Some k \<longrightarrow> k = n + length new \<and> list_all (\<lambda>e. IsRevokedPointRaw p' (fst e)) es" by auto
    then have "IsRevokedPointRaw p' pE" using True IsRevokedPointRaw_grows [of p p'] by simp
    with n show ?thesis by (intro exI [of _ new]) auto
  next
    case False
    obtain ok q g where a: "AddRevokedPoint cr now (case wrs of [] \<Rightarrow> True | w # _ \<Rightarrow> w) f p pE at = (ok, q, g)"
      by (metis prod_cases3)
    note q = AddRevokedPoint_effect [OF a]
    show ?thesis
    proof (cases ok)
      case True
      with q have q': "q = p\<lparr>m_pRevoked := m_pRevoked p @ [take kIdRevokePointLen pE]\<rparr>" by simp
      from 2(2) [OF False a [symmetric] refl] 2(3) False a True obtain new where n: "p' = q\<lparr>m_pRevoked := m_pRevoked q @ new\<rparr>"
        "\<forall>k. r = Some k \<longrightarrow> k = Suc n + length new \<and> list_all (\<lambda>e. IsRevokedPointRaw p' (fst e)) es" by auto
      then have "IsRevokedPointRaw p' pE" using q' by (simp add: IsRevokedPointRaw_def)
      with n q' show ?thesis by (intro exI [of _ "take kIdRevokePointLen pE # new"]) auto
    next
      case False
      with \<open>\<not> IsRevokedPointRaw p pE\<close> 2(3) a q show ?thesis by (intro exI [of _ "[]"]) auto
    qed
  qed
qed

lemma CheckRevocationList_epoch:
  "CheckRevocationList cr p blk = Inr (ep, es) \<Longrightarrow> ep = GetI64 (drop kOffRevEpoch blk) \<and> m_llRevEpoch p < ep"
  by (auto simp: CheckRevocationList_def Let_def split: if_splits option.splits)

lemma CheckRevocationList_refuses: "CheckRevocationList cr p blk \<noteq> Inl RevOk"
  by (auto simp: CheckRevocationList_def Let_def split: if_splits option.splits)

text \<open>What an application changes: points are added, and on success the epoch advances.\<close>

lemma ApplyRevocationList_effect:
  assumes "ApplyRevocationList cr now wrs f p blk = ((r, n), p', f')"
  shows "\<exists>new. m_pRevoked p' = m_pRevoked p @ new \<and> m_bRevokeConfigured p' = m_bRevokeConfigured p
     \<and> (if r = RevOk then m_llRevEpoch p < m_llRevEpoch p' \<and> m_llRevEpoch p' = GetI64 (drop kOffRevEpoch blk)
        else m_llRevEpoch p' = m_llRevEpoch p)"
proof (cases "CheckRevocationList cr p blk")
  case (Inl e)
  then show ?thesis
    using assms CheckRevocationList_refuses [of cr p blk] by (auto simp: ApplyRevocationList_def)
next
  case (Inr x)
  obtain ep es where x: "x = (ep, es)" by (cases x)
  obtain m q g where a: "apply_entries cr now es wrs 0 p f = (m, q, g)" by (metis prod_cases3)
  from apply_entries_effect [OF a] obtain new where q: "q = p\<lparr>m_pRevoked := m_pRevoked p @ new\<rparr>" by blast
  show ?thesis
    using assms Inr a q CheckRevocationList_epoch [of cr p blk ep es]
    by (auto simp: ApplyRevocationList_def x Let_def split: option.splits if_splits)
qed

text \<open>Blocks that arrive one after the other: what each is answered.\<close>

fun apply_run :: "crypto \<Rightarrow> (int \<times> bool list \<times> bytes) list \<Rightarrow> policy \<Rightarrow> disk_file \<Rightarrow> RevResult list \<times> policy \<times> disk_file" where
  "apply_run cr [] p f = ([], p, f)"
| "apply_run cr ((now, wrs, blk) # bs) p f =
     (case ApplyRevocationList cr now wrs f p blk of ((r, n), p', f') \<Rightarrow>
       (case apply_run cr bs p' f' of (rs, p'', f'') \<Rightarrow> (r # rs, p'', f'')))"

definition accepted_epochs :: "(int \<times> bool list \<times> bytes) list \<Rightarrow> RevResult list \<Rightarrow> int list" where
  "accepted_epochs bs rs = map (\<lambda>(b, r). GetI64 (drop kOffRevEpoch (snd (snd b)))) (filter (\<lambda>(b, r). r = RevOk) (zip bs rs))"

text \<open>
  Over any sequence of revocation list blocks, whoever sent them, the epochs of the accepted ones
  strictly increase from the epoch the receiver started at, so that no block is accepted twice and no
  older list after a newer one, and no revoked point is ever dropped.
\<close>

theorem revocation_epochs_increase:
  "case apply_run cr bs p f of (rs, p', f') \<Rightarrow>
     length rs = length bs
     \<and> sorted_wrt (<) (m_llRevEpoch p # accepted_epochs bs rs)
     \<and> m_llRevEpoch p' = last (m_llRevEpoch p # accepted_epochs bs rs)
     \<and> (\<exists>new. m_pRevoked p' = m_pRevoked p @ new)"
proof (induction cr bs p f rule: apply_run.induct)
  case (1 cr p f)
  then show ?case by (simp add: accepted_epochs_def)
next
  case (2 cr now wrs blk bs p f)
  obtain r n p' f' where a: "ApplyRevocationList cr now wrs f p blk = ((r, n), p', f')" by (metis prod.exhaust)
  obtain rs q g where b: "apply_run cr bs p' f' = (rs, q, g)" by (metis prod_cases3)
  have c: "accepted_epochs ((now, wrs, blk) # bs) (r # rs) =
      (if r = RevOk then [GetI64 (drop kOffRevEpoch blk)] else []) @ accepted_epochs bs rs"
    by (simp add: accepted_epochs_def)
  show ?case
    using 2 [OF a [symmetric] refl refl] b ApplyRevocationList_effect [OF a]
    by (auto simp: a b c split: if_splits)
qed

lemma CheckRevocationList_issued:
  assumes "crypto_ok cr" and "EcdsaPublic cr k = Some pub" and "EcdsaSign cr k tr = Some sig"
    and "RevListTranscript (Sha256 cr) ep (length pts) (rev_entries pts) pub = Some tr"
    and "list_all (\<lambda>pt. length pt = 64) pts" and "length pts \<le> kRevMaxEntries" and "is_i64 ep"
    and "m_aAuthority p = Some pub" and "m_bRevokeConfigured p" and "m_pszRevokePath p \<noteq> None" and "m_llRevEpoch p < ep"
  shows "\<exists>es. CheckRevocationList cr p (rev_block ep (length pts) (rev_entries pts) pub sig) = Inr (ep, es) \<and> map fst es = pts"
proof -
  have l: "length (rev_entries pts) = 72 * length pts" "length pub = 64" "length sig = 64"
    using length_rev_entries [OF assms(5)] crypto_okD(1,2) [OF assms(1)] assms(2,3) by (auto simp: seal_sizes)
  note b = rev_block_fields [OF l assms(6,7)]
  have v: "EcdsaImportOk cr pub" "EcdsaVerify cr pub tr sig"
    using crypto_okD(1,2) [OF assms(1)] assms(2,3) by auto
  let ?e = "\<lambda>i. let pE = block_at (i * kRevEntryLen) kRevEntryLen (rev_entries pts) in (take kRevPointLen pE, GetI64 (drop kRevPointLen pE))"
  have e: "map fst (map ?e [0..<length pts]) = pts"
    using rev_entries_read [OF assms(5)] by (intro nth_equalityI) (simp_all add: Let_def rev_sizes)
  have "\<not> RevListLen (length pts) < kRevFixedLen" by (simp add: rev_sizes)
  then have "CheckRevocationList cr p (rev_block ep (length pts) (rev_entries pts) pub sig) = Inr (ep, map ?e [0..<length pts])"
    unfolding CheckRevocationList_def b Let_def using assms(4,6,8-11) v by simp
  with e show ?thesis by blast
qed

text \<open>
  Revocation reaches the receivers, or they close.  A receiver that trusts the issuer's key and
  holds an older epoch either accepts the issuer's list, and then every point on it and every point it
  had revoked before is refused from then on, at the epoch of the list; or, when a write to its own list
  file fails on the way, it marks its list unusable, and then refuses every point.
\<close>

theorem revocation_distributed:
  assumes "crypto_ok cr" and "m_pIdentity pi = Some k" and "EcdsaPublic cr k = Some pub"
    and "list_all (\<lambda>pt. length pt = 64) (m_pRevoked pi)"
    and "IssueRevocationList cr pi epoch cbOut = Inr blk"
    and "ep = (if epoch \<noteq> 0 then epoch else int (length (m_pRevoked pi)))" and "is_i64 ep"
    and "m_aAuthority pr = Some pub" and "m_bRevokeConfigured pr" and "m_pszRevokePath pr \<noteq> None" and "m_llRevEpoch pr < ep"
    and "ApplyRevocationList cr now wrs f pr blk = ((r, n), p', f')"
  shows "(r = RevOk \<and> m_llRevEpoch p' = ep \<and> m_tRevApplied p' = now
            \<and> list_all (IsRevokedPoint p' t) (m_pRevoked pi) \<and> list_all (IsRevokedPointRaw p') (m_pRevoked pi))
       \<or> (r = RevErrInternal \<and> IsRevokedPoint p' t x)"
proof -
  obtain tr sig where b: "blk = rev_block ep (length (m_pRevoked pi)) (rev_entries (m_pRevoked pi)) pub sig"
    "length (m_pRevoked pi) \<le> kRevMaxEntries" "EcdsaSign cr k tr = Some sig"
    "RevListTranscript (Sha256 cr) ep (length (m_pRevoked pi)) (rev_entries (m_pRevoked pi)) pub = Some tr"
    by (rule IssueRevocationList_parts [OF assms(5,2,3), folded assms(6)])
  obtain es where c: "CheckRevocationList cr pr blk = Inr (ep, es)" "map fst es = m_pRevoked pi"
    using CheckRevocationList_issued [OF assms(1,3) b(3,4) assms(4) b(2) assms(7-11)] b(1) by blast
  obtain m q g where a: "apply_entries cr now es wrs 0 pr f = (m, q, g)" by (metis prod_cases3)
  from apply_entries_effect [OF a] obtain new where q: "q = pr\<lparr>m_pRevoked := m_pRevoked pr @ new\<rparr>"
    "\<forall>k. m = Some k \<longrightarrow> list_all (\<lambda>e. IsRevokedPointRaw q (fst e)) es" by blast
  show ?thesis
  proof (cases m)
    case None
    then show ?thesis
      using assms(12) [unfolded ApplyRevocationList_def c(1) sum.case prod.case a None option.case] assms(9) q(1)
      by (auto simp: IsRevokedPoint_def)
  next
    case (Some k)
    have all: "list_all (IsRevokedPointRaw q) (m_pRevoked pi)"
      using q(2) Some c(2) [symmetric] by (simp add: list_all_iff)
    have p': "r = RevOk" "m_llRevEpoch p' = ep" "m_tRevApplied p' = now" "m_pRevoked p' = m_pRevoked q" "m_bRevokeConfigured p'"
      using assms(12) [unfolded ApplyRevocationList_def c(1) sum.case prod.case a Some option.case Let_def] assms(9) q(1)
      by (auto split: option.splits if_splits)
    have "list_all (IsRevokedPointRaw p') (m_pRevoked pi)"
      using all p'(4) by (simp add: list_all_iff IsRevokedPointRaw_def)
    moreover from this have "list_all (IsRevokedPoint p' t) (m_pRevoked pi)"
      using p'(5) by (simp add: list_all_iff IsRevokedPointRaw_def IsRevokedPoint_def)
    ultimately show ?thesis using p' by blast
  qed
qed

definition example_issuer :: policy where
  "example_issuer = policy_new\<lparr>m_pIdentity := Some (replicate 64 4), m_pRevoked := [replicate 64 7], m_bRevokeConfigured := True\<rparr>"

definition example_receiver :: policy where
  "example_receiver = policy_new\<lparr>m_aAuthority := Some (replicate 64 4), m_bRevokeConfigured := True, m_pszRevokePath := Some [1]\<rparr>"

theorem revocation_distributed_witness:
  "\<exists>blk. IssueRevocationList (example_crypto (\<lambda>m. True)) example_issuer 0 300 = Inr blk
     \<and> (case ApplyRevocationList (example_crypto (\<lambda>m. True)) 100 [True] NoFile example_receiver blk of
          ((r, n), p', f') \<Rightarrow> r = RevOk \<and> IsRevokedPoint p' 200 (replicate 64 7) \<or> r = RevErrInternal \<and> IsRevokedPoint p' 200 [])"
proof -
  let ?cr = "example_crypto (\<lambda>m. True)" and ?k = "replicate 64 (4::byte)"
  obtain blk where b: "IssueRevocationList ?cr example_issuer 0 300 = Inr blk"
    by (simp add: IssueRevocationList_def example_issuer_def policy_new_def rev_sizes RevListTranscript_def)
  obtain r n p' f' where a: "ApplyRevocationList ?cr 100 [True] NoFile example_receiver blk = ((r, n), p', f')"
    by (metis prod.exhaust)
  have "(r = RevOk \<and> m_llRevEpoch p' = 1 \<and> m_tRevApplied p' = 100
            \<and> list_all (IsRevokedPoint p' 200) (m_pRevoked example_issuer)
            \<and> list_all (IsRevokedPointRaw p') (m_pRevoked example_issuer))
       \<or> (r = RevErrInternal \<and> IsRevokedPoint p' 200 [])"
    by (rule revocation_distributed [OF example_crypto_ok _ _ _ b _ _ _ _ _ _ a, of ?k ?k])
       (simp_all add: example_issuer_def example_receiver_def policy_new_def is_i64_def)
  then show ?thesis using a b by (auto simp: example_issuer_def)
qed

subsection \<open>Link policy and arming\<close>

datatype link_setting = LinkPolicy int int | TrustFloor int

definition apply_link :: "link_setting \<Rightarrow> policy \<Rightarrow> policy" where
  "apply_link s p = (case s of LinkPolicy c v \<Rightarrow> SetLinkPolicy c v p | TrustFloor c \<Rightarrow> SetTrustFloor c p)"

text \<open>What the last settings, newest first, say.\<close>

fun opened :: "int \<Rightarrow> link_setting list \<Rightarrow> bool" where
  "opened c [] = False"
| "opened c (LinkPolicy d v # ss) = (if d = c then v \<noteq> 0 else opened c ss)"
| "opened c (TrustFloor d # ss) = opened c ss"

fun held_from :: "link_setting list \<Rightarrow> int" where
  "held_from [] = 0"
| "held_from (TrustFloor c # ss) = (if c \<in> {0, 1, 2} then c else held_from ss)"
| "held_from (LinkPolicy d v # ss) = held_from ss"

lemma link_settings_state:
  "m_aLinkPolicy (foldr apply_link ss policy_new) = [0, if opened 1 ss then 1 else 0, if opened 2 ss then 1 else 0]
   \<and> m_nTrustFloor (foldr apply_link ss policy_new) = nat (held_from ss) \<and> held_from ss \<in> {0, 1, 2}
   \<and> m_bRequired (foldr apply_link ss policy_new) \<and> m_pIdentity (foldr apply_link ss policy_new) = None"
proof (induction ss)
  case Nil
  show ?case by (simp add: policy_new_def)
next
  case (Cons s ss)
  define q where "q = foldr apply_link ss policy_new"
  have q: "foldr apply_link (s # ss) policy_new = apply_link s q" by (simp add: q_def)
  note h = Cons [folded q_def]
  show ?case
  proof (cases s)
    case (LinkPolicy c v)
    consider "c = 1" | "c = 2" | "c \<noteq> 1" "c \<noteq> 2" "c \<le> 0 \<or> 3 \<le> c" by linarith
    then show ?thesis
      unfolding q unfolding apply_link_def LinkPolicy by cases (use h in \<open>simp_all add: SetLinkPolicy_def\<close>)
  next
    case (TrustFloor c)
    consider "c = 0" | "c = 1" | "c = 2" | "c \<noteq> 0" "c \<noteq> 1" "c \<noteq> 2" "c < 0 \<or> 3 \<le> c" by linarith
    then show ?thesis
      unfolding q unfolding apply_link_def TrustFloor by cases (use h in \<open>simp_all add: SetTrustFloor_def\<close>)
  qed
qed

text \<open>
  Which links a hub opens without login.  After any sequence of \<open>SetLinkPolicy\<close> and
  \<open>SetTrustFloor\<close> calls on a new policy, a trust class is open exactly when it is 1 or 2 and the last
  call for it opened it, class 0 never; and the hub counts as armed without an identity exactly when it
  holds from class 1 or 2 on and every class it holds is open.  Calls with a class out of range change
  nothing.
\<close>

theorem link_policy_opens:
  "GetLinkPolicy c (foldr apply_link ss policy_new) = (if (c = 1 \<or> c = 2) \<and> opened c ss then 1 else 0)
   \<and> Arm (foldr apply_link ss policy_new) =
       (if held_from ss = 1 \<and> opened 1 ss \<and> opened 2 ss \<or> held_from ss = 2 \<and> opened 2 ss
        then ArmNotRequiredByPolicy else ArmNoIdentity)"
proof -
  let ?l = "[0, if opened 1 ss then 1 else 0, if opened 2 ss then 1 else 0] :: nat list"
  let ?p = "foldr apply_link ss policy_new"
  have p: "m_aLinkPolicy ?p = ?l" "m_nTrustFloor ?p = nat (held_from ss)" "m_bRequired ?p" "m_pIdentity ?p = None"
    using link_settings_state [of ss] by simp_all
  have c: "c = 0 \<or> c = 1 \<or> c = 2 \<or> c < 0 \<or> 3 \<le> c" by linarith
  then have g: "GetLinkPolicy c ?p = (if (c = 1 \<or> c = 2) \<and> opened c ss then 1 else 0)"
    by (elim disjE) (simp_all add: GetLinkPolicy_def p(1))
  have u: "[Suc 0..<3] = [1, 2]" "[2..<3::nat] = [2]" by (simp_all add: upt_rec)
  have "held_from ss = 0 \<or> held_from ss = 1 \<or> held_from ss = 2"
    using link_settings_state [of ss] by simp
  then have "LinkPolicyOpensAllHeld ?p \<longleftrightarrow> held_from ss = 1 \<and> opened 1 ss \<and> opened 2 ss \<or> held_from ss = 2 \<and> opened 2 ss"
    by (elim disjE) (simp_all add: LinkPolicyOpensAllHeld_def p u)
  with g p show ?thesis by (simp add: Arm_def)
qed

end
