(* ===== verification/LoginRelay.thy ===== *)
theory LoginRelay
  imports AuthPolicy
begin

text \<open>
  P2PAuthLogin.cpp: login and ack blocks, relay attestations, and the two caches that refuse replays of
  them.  A verification answers with the result, the nonce or attester handed out, the clock skew, and
  the policy after it.  \<open>long\<close> has \<open>long_bits\<close> bits: conversions to it keep that many (the overflow of
  a subtraction, which C++ leaves undefined, wraps).
\<close>

definition kSeenMax :: nat where "kSeenMax = 4096"

subsection \<open>Caches\<close>

text \<open>The age trim, kept in order: entries at most twice the window away from the clock.\<close>

definition keep_recent :: "int \<Rightarrow> int \<Rightarrow> mark list \<Rightarrow> mark list" where
  "keep_recent nWindow tNow v = filter (\<lambda>(k, t). \<bar>tNow - t\<bar> \<le> 2 * nWindow) v"

definition NoteNonce_marks :: "int \<Rightarrow> mark \<Rightarrow> mark list \<Rightarrow> mark list" where
  "NoteNonce_marks nWindow m v =
     (if nWindow > 0 then keep_recent nWindow (snd m) v else drop (Suc (length v) - kSeenMax) v) @ [m]"

definition SeenNonce :: "policy \<Rightarrow> bytes \<Rightarrow> bool" where
  "SeenNonce p pNonce = list_ex (\<lambda>(k, t). k = take kAuthNonceLen pNonce) (m_pSeen p)"

definition NoteNonce :: "bytes \<Rightarrow> int \<Rightarrow> policy \<Rightarrow> policy" where
  "NoteNonce pNonce tNow p = p\<lparr>m_pSeen := NoteNonce_marks (m_nWindow p) (take kAuthNonceLen pNonce, tNow) (m_pSeen p)\<rparr>"

definition NoteRelaySig_marks :: "int \<Rightarrow> mark \<Rightarrow> mark list \<Rightarrow> mark list" where
  "NoteRelaySig_marks nWindow m v =
     (let v1 = (if nWindow > 0 then keep_recent nWindow (snd m) v else v);
          v2 = (if length v1 \<ge> kSeenMax then drop (length v1 - kSeenMax + 1) v1 else v1)
      in v2 @ [m])"

definition SeenRelaySig :: "policy \<Rightarrow> bytes \<Rightarrow> bool" where
  "SeenRelaySig p pSig = list_ex (\<lambda>(k, t). k = take kEcdsaSigLen pSig) (m_pSeenRel p)"

definition NoteRelaySig :: "bytes \<Rightarrow> int \<Rightarrow> policy \<Rightarrow> policy" where
  "NoteRelaySig pSig tNow p = p\<lparr>m_pSeenRel := NoteRelaySig_marks (m_nWindow p) (take kEcdsaSigLen pSig, tNow) (m_pSeenRel p)\<rparr>"

definition mark_near :: "int \<Rightarrow> mark \<Rightarrow> mark \<Rightarrow> bool" where
  "mark_near w m m' \<longleftrightarrow> w > 0 \<and> \<bar>snd m' - snd m\<bar> \<le> 2 * w"

lemma keep_recent_near: "mark_near w m m' \<Longrightarrow> m \<in> set v \<Longrightarrow> m \<in> set (keep_recent w (snd m') v)"
  by (auto simp: keep_recent_def mark_near_def)

interpretation nonces: replay_cache "NoteNonce_marks w" "\<lambda>v m. m \<in> set v" "\<lambda>n m v. m \<in> set v" "mark_near w" None for w
proof unfold_locales
  fix m m' :: mark and v n
  show "m \<in> set v \<Longrightarrow> mark_near w m m' \<Longrightarrow> m \<in> set (NoteNonce_marks w m' v)"
    using keep_recent_near [of w m m' v] by (simp add: NoteNonce_marks_def mark_near_def)
qed (simp_all add: NoteNonce_marks_def)

text \<open>A mark of the second cache is guarded while fewer than \<open>kSeenMax\<close> were noted after it.\<close>

definition relay_guards :: "nat \<Rightarrow> mark \<Rightarrow> mark list \<Rightarrow> bool" where
  "relay_guards n m v \<longleftrightarrow> (\<exists>pre post. v = pre @ m # post \<and> length post + n < kSeenMax)"

definition relay_near :: "int \<Rightarrow> mark \<Rightarrow> mark \<Rightarrow> bool" where
  "relay_near w m m' \<longleftrightarrow> (w > 0 \<longrightarrow> \<bar>snd m' - snd m\<bar> \<le> 2 * w)"

lemma relay_guards_step:
  assumes "relay_guards (Suc n) m v" and "relay_near w m m'"
  shows "relay_guards n m (NoteRelaySig_marks w m' v)"
proof -
  obtain pre post where v: "v = pre @ m # post" "length post + Suc n < kSeenMax"
    using assms(1) by (auto simp: relay_guards_def)
  define v1 where "v1 = (if w > 0 then keep_recent w (snd m') v else v)"
  obtain pre1 post1 where v1: "v1 = pre1 @ m # post1" "length post1 \<le> length post"
  proof (cases "w > 0")
    case True
    with assms(2) have "(case m of (k, t) \<Rightarrow> \<bar>snd m' - t\<bar> \<le> 2 * w)"
      by (cases m) (simp add: relay_near_def)
    with True v(1) show thesis
      by (intro that [of "keep_recent w (snd m') pre" "keep_recent w (snd m') post"])
         (auto simp: v1_def keep_recent_def)
  next
    case False
    with v(1) that show thesis by (simp add: v1_def)
  qed
  define k where "k = (if length v1 \<ge> kSeenMax then length v1 - kSeenMax + 1 else 0)"
  have "k \<le> length pre1" using v1 v(2) by (auto simp: k_def)
  then have "NoteRelaySig_marks w m' v = drop k pre1 @ m # (post1 @ [m'])"
    by (auto simp: NoteRelaySig_marks_def Let_def v1_def [symmetric] v1(1) k_def)
  then show ?thesis using v(2) v1(2) unfolding relay_guards_def by fastforce
qed

interpretation relays: replay_cache "NoteRelaySig_marks w" "\<lambda>v m. m \<in> set v" relay_guards "relay_near w" "Some (kSeenMax - 1)" for w
proof unfold_locales
  fix m m' :: mark and v n
  show "fits n (Some (kSeenMax - 1)) \<Longrightarrow> relay_guards n m (NoteRelaySig_marks w m v)"
    unfolding relay_guards_def NoteRelaySig_marks_def Let_def
    by (rule exI, rule exI [of _ "[]"]) (auto simp: kSeenMax_def fits_def)
  show "relay_guards n m v \<Longrightarrow> m \<in> set v" by (auto simp: relay_guards_def)
qed (rule relay_guards_step)

subsection \<open>Login and ack\<close>

definition LooksLikeBlock :: "bytes \<Rightarrow> bool" where
  "LooksLikeBlock p \<longleftrightarrow> length p \<ge> 3 \<and> p ! 0 = kMagic0 \<and> p ! 1 = kMagic1"

definition AuthChannelBind :: "crypto \<Rightarrow> bytes \<Rightarrow> bytes \<Rightarrow> bytes option" where
  "AuthChannelBind cr pClientPub pServerPub = Sha256 cr (kLabelBind @ take kEcdhPubLen pClientPub @ take kEcdhPubLen pServerPub)"

text \<open>\<open>rand\<close> is what \<open>CngRandom\<close> fills the nonce with; the answer is the block and the nonce.\<close>

definition BuildLogin ::
  "crypto \<Rightarrow> int \<Rightarrow> bytes option \<Rightarrow> policy \<Rightarrow> wstr \<Rightarrow> wstr \<Rightarrow> nat \<Rightarrow> bytes option \<Rightarrow> AuthResult + bytes \<times> bytes" where
  "BuildLogin cr now rand p pSrc pDst cbOut pBind =
     (if cbOut < kAuthLoginLen then Inl AuthErrArgs
      else (case m_pIdentity p of None \<Rightarrow> Inl AuthErrNoIdentity
      | Some key \<Rightarrow>
      (case rand of None \<Rightarrow> Inl AuthErrInternal
      | Some nonce \<Rightarrow>
      (case Transcript (wchar4 cr) kLabelLogin pSrc pDst nonce (Some now) pBind of None \<Rightarrow> Inl AuthErrInternal
      | Some sTr \<Rightarrow>
      (case EcdsaSign cr key sTr of None \<Rightarrow> Inl AuthErrInternal
      | Some sig \<Rightarrow> Inr ([kMagic0, kMagic1, kVersion] @ nonce @ PutI64 now @ sig, nonce))))))"

definition BuildAck ::
  "crypto \<Rightarrow> policy \<Rightarrow> wstr \<Rightarrow> wstr \<Rightarrow> bytes \<Rightarrow> nat \<Rightarrow> bytes option \<Rightarrow> AuthResult + bytes" where
  "BuildAck cr p pSrc pDst pNonce cbOut pBind =
     (if cbOut < kAuthAckLen then Inl AuthErrArgs
      else (case m_pIdentity p of None \<Rightarrow> Inl AuthErrNoIdentity
      | Some key \<Rightarrow>
      (case Transcript (wchar4 cr) kLabelAck pSrc pDst pNonce None pBind of None \<Rightarrow> Inl AuthErrInternal
      | Some sTr \<Rightarrow>
      (case EcdsaSign cr key sTr of None \<Rightarrow> Inl AuthErrInternal
      | Some sig \<Rightarrow> Inr ([kMagic0, kMagic1, kVersion] @ sig)))))"

definition clock_skew :: "crypto \<Rightarrow> int \<Rightarrow> int \<Rightarrow> int" where
  "clock_skew cr tNow llTs = signed_take_bit (long_bits cr - 1) (signed_take_bit 63 (tNow - llTs))"

definition skew_refused :: "crypto \<Rightarrow> int \<Rightarrow> int \<Rightarrow> bool" where
  "skew_refused cr nWindow nSkew =
     (if nWindow > 0 then
        (let nAbs = (if nSkew < 0 then signed_take_bit (long_bits cr - 1) (- nSkew) else nSkew) in nAbs > nWindow)
      else False)"

text \<open>The checks of \<open>VerifyLogin\<close>, in order, and the skew it reports.\<close>

definition CheckLogin ::
  "crypto \<Rightarrow> int \<Rightarrow> policy \<Rightarrow> wstr \<Rightarrow> wstr \<Rightarrow> bytes \<Rightarrow> bytes option \<Rightarrow> AuthResult \<times> int" where
  "CheckLogin cr now p pSrc pDst pIn pBind =
     (if length pIn < kAuthLoginLen then (AuthErrFormat, 0)
      else (case HeaderOk pIn of HeaderFormat \<Rightarrow> (AuthErrFormat, 0) | HeaderVersion \<Rightarrow> (AuthErrVersion, 0)
      | HeaderGood \<Rightarrow>
      (case PeerKeyCount cr now p pSrc of (nLive, bAllRevoked) \<Rightarrow>
        if bAllRevoked then (AuthErrRevoked, 0)
        else if nLive = 0 then (AuthErrUnknownPeer, 0)
        else (let llTs = GetI64 (drop kOffTs pIn);
                  nSkew = clock_skew cr now llTs;
                  nonce = block_at kOffNonce kAuthNonceLen pIn in
          if skew_refused cr (m_nWindow p) nSkew then (AuthErrSkew, nSkew)
          else if SeenNonce p nonce then (AuthErrReplay, nSkew)
          else (case Transcript (wchar4 cr) kLabelLogin pSrc pDst nonce (Some llTs) pBind of None \<Rightarrow> (AuthErrInternal, nSkew)
            | Some sTr \<Rightarrow> (VerifyAgainstPeer cr now p pSrc sTr (block_at kOffSig kEcdsaSigLen pIn), nSkew))))))"

definition VerifyLogin ::
  "crypto \<Rightarrow> int \<Rightarrow> policy \<Rightarrow> wstr \<Rightarrow> wstr \<Rightarrow> bytes \<Rightarrow> bytes option \<Rightarrow> (AuthResult \<times> bytes option \<times> int) \<times> policy" where
  "VerifyLogin cr now p pSrc pDst pIn pBind =
     (case CheckLogin cr now p pSrc pDst pIn pBind of (e, nSkew) \<Rightarrow>
        if e \<noteq> AuthOk then ((e, None, nSkew), p)
        else (let nonce = block_at kOffNonce kAuthNonceLen pIn
              in ((AuthOk, Some nonce, nSkew), NoteNonce nonce now p)))"

definition VerifyAck ::
  "crypto \<Rightarrow> int \<Rightarrow> policy \<Rightarrow> wstr \<Rightarrow> wstr \<Rightarrow> bytes \<Rightarrow> bytes \<Rightarrow> bytes option \<Rightarrow> AuthResult" where
  "VerifyAck cr now p pSrc pDst pNonce pIn pBind =
     (if length pIn < kAuthAckLen then AuthErrFormat
      else (case HeaderOk pIn of HeaderFormat \<Rightarrow> AuthErrFormat | HeaderVersion \<Rightarrow> AuthErrVersion
      | HeaderGood \<Rightarrow>
      (case Transcript (wchar4 cr) kLabelAck pSrc pDst pNonce None pBind of None \<Rightarrow> AuthErrInternal
      | Some sTr \<Rightarrow> VerifyAgainstPeer cr now p pSrc sTr (block_at kOffAckSig kEcdsaSigLen pIn))))"

subsection \<open>Relay attestations\<close>

definition LooksLikeRelayBlock :: "bytes \<Rightarrow> bool" where
  "LooksLikeRelayBlock p \<longleftrightarrow> length p \<ge> kRelayFixedLen \<and> p ! 0 = kRelayMagic0 \<and> p ! 1 = kRelayMagic1"

definition BuildRelay ::
  "crypto \<Rightarrow> int \<Rightarrow> policy \<Rightarrow> wstr \<Rightarrow> wstr \<Rightarrow> wstr \<Rightarrow> wstr option \<Rightarrow> bytes \<Rightarrow> nat \<Rightarrow> AuthResult + bytes" where
  "BuildRelay cr now p pAttester pSrc pDst pMsgName pBody cbOut =
     (case m_pIdentity p of None \<Rightarrow> Inl AuthErrNoIdentity
      | Some key \<Rightarrow>
      (case Utf8FromWide (wchar4 cr) pAttester of None \<Rightarrow> Inl AuthErrArgs
      | Some sAtt \<Rightarrow>
        if sAtt = [] then Inl AuthErrArgs
        else if length sAtt > kRelayAttesterMax then Inl AuthErrArgs
        else if cbOut < RelayLen (length sAtt) then Inl AuthErrArgs
        else if SelfKeyRevoked cr p now then Inl AuthErrRevoked
        else if \<not> m_bRevokeUsable p then Inl AuthErrRevoked
        else (case RelayTranscript (Sha256 cr) (wchar4 cr) pAttester pSrc pDst pMsgName pBody now of None \<Rightarrow> Inl AuthErrInternal
          | Some sTr \<Rightarrow>
          (case EcdsaSign cr key sTr of None \<Rightarrow> Inl AuthErrInternal
          | Some sig \<Rightarrow>
              Inr ([kRelayMagic0, kRelayMagic1, kRelayVersion]
                   @ [word_of_nat (drop_bit 8 (length sAtt) AND 255), word_of_nat (length sAtt AND 255)]
                   @ sAtt @ PutI64 now @ sig)))))"

text \<open>The checks of \<open>VerifyRelay\<close> up to the signature: the attester and its signature when they pass.\<close>

definition CheckRelay ::
  "crypto \<Rightarrow> int \<Rightarrow> policy \<Rightarrow> wstr \<Rightarrow> wstr \<Rightarrow> wstr option \<Rightarrow> bytes \<Rightarrow> bytes \<Rightarrow> (AuthResult + wstr \<times> bytes) \<times> int" where
  "CheckRelay cr now p pSrc pDst pMsgName pBody pIn =
     (if length pIn < kRelayFixedLen then (Inl AuthErrFormat, 0)
      else if pIn ! 0 \<noteq> kRelayMagic0 \<or> pIn ! 1 \<noteq> kRelayMagic1 then (Inl AuthErrFormat, 0)
      else if pIn ! 2 \<noteq> kRelayVersion then (Inl AuthErrVersion, 0)
      else (let cbAddr = push_bit 8 (unat (pIn ! kOffRelayAlen)) OR unat (pIn ! (kOffRelayAlen + 1)) in
        if cbAddr = 0 \<or> cbAddr > kRelayAttesterMax then (Inl AuthErrFormat, 0)
        else if length pIn < RelayLen cbAddr then (Inl AuthErrFormat, 0)
        else (case WideFromUtf8 (wchar4 cr) (block_at kOffRelayAddr cbAddr pIn) (kRelayAttesterMax + 1) of None \<Rightarrow> (Inl AuthErrFormat, 0)
        | Some wszAtt \<Rightarrow>
        (case PeerKeyCount cr now p wszAtt of (nLive, bAllRevoked) \<Rightarrow>
          if bAllRevoked then (Inl AuthErrRevoked, 0)
          else if nLive = 0 then (Inl AuthErrUnknownPeer, 0)
          else (let llTs = GetI64 (drop (OffRelayTs cbAddr) pIn);
                    nSkew = clock_skew cr now llTs;
                    pSig = block_at (OffRelaySig cbAddr) kEcdsaSigLen pIn in
            if skew_refused cr (m_nWindow p) nSkew then (Inl AuthErrSkew, nSkew)
            else (case RelayTranscript (Sha256 cr) (wchar4 cr) wszAtt pSrc pDst pMsgName pBody llTs of
                None \<Rightarrow> (Inl AuthErrInternal, nSkew)
              | Some sTr \<Rightarrow>
                  (let e = VerifyAgainstPeer cr now p wszAtt sTr pSig
                   in if e \<noteq> AuthOk then (Inl e, nSkew) else (Inr (wszAtt, pSig), nSkew))))))))"

text \<open>\<open>cchOut\<close>: the room for the attester, which the caller gives as at least one code unit.\<close>

definition VerifyRelay ::
  "crypto \<Rightarrow> int \<Rightarrow> policy \<Rightarrow> wstr \<Rightarrow> wstr \<Rightarrow> wstr option \<Rightarrow> bytes \<Rightarrow> bytes \<Rightarrow> nat
   \<Rightarrow> (AuthResult \<times> wstr option \<times> int) \<times> policy" where
  "VerifyRelay cr now p pSrc pDst pMsgName pBody pIn cchOut =
     (if cchOut = 0 then ((AuthErrArgs, None, 0), p)
      else (case CheckRelay cr now p pSrc pDst pMsgName pBody pIn of
          (Inl e, nSkew) \<Rightarrow> ((e, None, nSkew), p)
        | (Inr (wszAtt, pSig), nSkew) \<Rightarrow>
            if m_bRelayReplay p \<and> SeenRelaySig p pSig then ((AuthErrReplay, None, nSkew), p)
            else (let p' = (if m_bRelayReplay p then NoteRelaySig pSig now p else p)
                  in if length wszAtt + 1 > cchOut then ((AuthErrArgs, None, nSkew), p')
                     else ((AuthOk, Some wszAtt, nSkew), p'))))"

subsection \<open>The freshness window\<close>

lemma signed_take_bit_small: "- (2 ^ n) \<le> d \<Longrightarrow> d < 2 ^ n \<Longrightarrow> signed_take_bit n d = (d :: int)"
  by (simp add: signed_take_bit_int_eq_self)

lemma skew_exact:
  assumes "1 < long_bits cr" and "long_bits cr \<le> 64" and "is_i64 (now - ts)"
  defines "d \<equiv> signed_take_bit (long_bits cr - 1) (now - ts)"
  shows "(skew_refused cr w (clock_skew cr now ts) \<longleftrightarrow> w > 0 \<and> \<bar>d\<bar> > w \<and> d \<noteq> - (2 ^ (long_bits cr - 1)))
    \<and> (\<bar>now - ts\<bar> < 2 ^ (long_bits cr - 1) \<longrightarrow> (skew_refused cr w (clock_skew cr now ts) \<longleftrightarrow> w > 0 \<and> \<bar>now - ts\<bar> > w))"
proof -
  let ?n = "long_bits cr - 1"
  have k: "clock_skew cr now ts = d"
    using assms(3) by (simp add: clock_skew_def d_def signed_take_bit_small is_i64_def)
  have b: "- (2 ^ ?n) \<le> d" "d < 2 ^ ?n"
    unfolding d_def by (rule signed_take_bit_int_greater_eq_minus_exp, rule signed_take_bit_int_less_exp)
  define M where "M = (2::int) ^ ?n"
  have M: "0 < M" by (simp add: M_def)
  have neg: "signed_take_bit ?n (- d) = (if d = - M then d else - d)"
  proof (cases "d = - M")
    case True
    have "signed_take_bit ?n (2 ^ ?n :: int) = - (2 ^ ?n)"
      by (simp add: signed_take_bit_eq_take_bit_minus take_bit_int_eq_self bit_exp_iff)
    with True show ?thesis by (simp add: M_def)
  next
    case False
    with b show ?thesis by (simp add: signed_take_bit_small M_def)
  qed
  have main: "skew_refused cr w (clock_skew cr now ts) \<longleftrightarrow> w > 0 \<and> \<bar>d\<bar> > w \<and> d \<noteq> - M"
    using neg M by (auto simp: skew_refused_def k Let_def)
  have "d = now - ts" if "\<bar>now - ts\<bar> < M"
    using that by (simp add: d_def signed_take_bit_small M_def)
  with main M show ?thesis unfolding M_def [symmetric] by auto
qed

lemma skew_refused_exact:
  "1 < long_bits cr \<Longrightarrow> long_bits cr \<le> 64 \<Longrightarrow> is_i64 (now - ts) \<Longrightarrow> \<bar>now - ts\<bar> < 2 ^ (long_bits cr - 1)
   \<Longrightarrow> skew_refused cr w (clock_skew cr now ts) \<longleftrightarrow> w > 0 \<and> \<bar>now - ts\<bar> > w"
  using skew_exact by blast

text \<open>
  The freshness test is exact as long as the distance between the clock and the timestamp fits a
  \<open>long\<close>: with a window set, precisely the stamps more than the window away are refused.  Outside that
  range it is the distance modulo the size of a \<open>long\<close> that is compared, and one distance, half that
  size, passes every window.
\<close>

theorem skew_window_exact:
  assumes "1 < long_bits cr" and "long_bits cr \<le> 64" and "is_i64 (now - ts)"
  defines "d \<equiv> signed_take_bit (long_bits cr - 1) (now - ts)"
  shows "(skew_refused cr w (clock_skew cr now ts) \<longleftrightarrow> w > 0 \<and> \<bar>d\<bar> > w \<and> d \<noteq> - (2 ^ (long_bits cr - 1)))
    \<and> (\<bar>now - ts\<bar> < 2 ^ (long_bits cr - 1) \<longrightarrow> (skew_refused cr w (clock_skew cr now ts) \<longleftrightarrow> w > 0 \<and> \<bar>now - ts\<bar> > w))"
  unfolding d_def by (rule skew_exact [OF assms(1-3)])

text \<open>On a platform whose \<open>long\<close> has 32 bits, a stamp \<open>2 ^ 31\<close> seconds old passes a window of 300.\<close>

theorem skew_window_exact_witness:
  "\<not> skew_refused (example_crypto (\<lambda>m. True)\<lparr>long_bits := 32\<rparr>) 300 (clock_skew (example_crypto (\<lambda>m. True)\<lparr>long_bits := 32\<rparr>) (2 ^ 31 + 5) 5)
   \<and> skew_refused (example_crypto (\<lambda>m. True)) 300 (clock_skew (example_crypto (\<lambda>m. True)) (2 ^ 31 + 5) 5)"
  using skew_window_exact [of "example_crypto (\<lambda>m. True)\<lparr>long_bits := 32\<rparr>" "2 ^ 31 + 5" 5 300]
    skew_window_exact [of "example_crypto (\<lambda>m. True)" "2 ^ 31 + 5" 5 300]
  by (simp add: is_i64_def signed_take_bit_eq_take_bit_minus take_bit_int_eq_self)

subsection \<open>What a login verification does\<close>

lemma VerifyLogin_ok:
  assumes "VerifyLogin cr now p src dst blk bnd = ((AuthOk, n, sk), p')"
  defines "nonce \<equiv> block_at kOffNonce kAuthNonceLen blk" and "ts \<equiv> GetI64 (drop kOffTs blk)"
  obtains tr a pub where "n = Some nonce" and "p' = NoteNonce nonce now p" and "kAuthLoginLen \<le> length blk"
    and "\<not> skew_refused cr (m_nWindow p) (clock_skew cr now ts)" and "\<not> SeenNonce p nonce"
    and "Transcript (wchar4 cr) kLabelLogin src dst nonce (Some ts) bnd = Some tr"
    and "Utf8FromWide (wchar4 cr) src = Some a" and "pub \<in> set (live_keys p now a)"
    and "EcdsaVerify cr pub tr (block_at kOffSig kEcdsaSigLen blk)"
proof -
  have c: "CheckLogin cr now p src dst blk bnd = (AuthOk, sk)" and r: "n = Some nonce" "p' = NoteNonce nonce now p"
    using assms by (auto simp: VerifyLogin_def Let_def split: prod.splits if_splits)
  then obtain tr where t: "Transcript (wchar4 cr) kLabelLogin src dst nonce (Some ts) bnd = Some tr"
      "VerifyAgainstPeer cr now p src tr (block_at kOffSig kEcdsaSigLen blk) = AuthOk"
      "\<not> skew_refused cr (m_nWindow p) (clock_skew cr now ts)" "\<not> SeenNonce p nonce" "kAuthLoginLen \<le> length blk"
    by (auto simp: CheckLogin_def nonce_def ts_def Let_def split: if_splits auth_header.splits prod.splits option.splits)
  from VerifyAgainstPeer_sound [OF t(2)] show thesis using r t that by metis
qed

lemma VerifyLogin_fails: "VerifyLogin cr now p src dst blk bnd = ((e, n, sk), p') \<Longrightarrow> e \<noteq> AuthOk \<Longrightarrow> p' = p \<and> n = None"
  by (auto simp: VerifyLogin_def Let_def split: prod.splits if_splits)

lemma NoteNonce_simps [simp]:
  "m_nWindow (NoteNonce n t p) = m_nWindow p" "m_pSeen (NoteNonce n t p) = NoteNonce_marks (m_nWindow p) (take kAuthNonceLen n, t) (m_pSeen p)"
  by (simp_all add: NoteNonce_def)

lemma SeenNonce_mem: "(take kAuthNonceLen n, t) \<in> set (m_pSeen p) \<Longrightarrow> SeenNonce p n"
  by (auto simp: SeenNonce_def list_ex_iff)

subsection \<open>A login and its ack\<close>

lemma BuildLogin_parts:
  assumes "BuildLogin cr t rand p src dst cbOut bnd = Inr (blk, nonce)" and "m_pIdentity p = Some k"
  obtains tr sig where "Transcript (wchar4 cr) kLabelLogin src dst nonce (Some t) bnd = Some tr" and "EcdsaSign cr k tr = Some sig"
    and "rand = Some nonce" and "blk = [kMagic0, kMagic1, kVersion] @ nonce @ PutI64 t @ sig"
  using assms by (auto simp: BuildLogin_def split: if_splits option.splits)

lemma BuildAck_parts:
  assumes "BuildAck cr p src dst nonce cbOut bnd = Inr blk" and "m_pIdentity p = Some k"
  obtains tr sig where "Transcript (wchar4 cr) kLabelAck src dst nonce None bnd = Some tr" and "EcdsaSign cr k tr = Some sig"
    and "blk = [kMagic0, kMagic1, kVersion] @ sig"
  using assms by (auto simp: BuildAck_def split: if_splits option.splits)

lemmas block_sizes = kAuthLoginLen_def kAuthAckLen_def kAuthNonceLen_def kOffNonce_def kOffTs_def kOffSig_def kOffAckSig_def
  kEcdsaSigLen_def kSealSigLen_def

lemma Transcript_utf8:
  "Transcript w4 l src dst n ts b = Some tr \<Longrightarrow> (\<exists>a. Utf8FromWide w4 src = Some a) \<and> (\<exists>a. Utf8FromWide w4 dst = Some a)"
  by (auto simp: Transcript_frame)

text \<open>The address has a live key \<open>K\<close>, and no listed key is malformed.\<close>

definition trusts :: "crypto \<Rightarrow> int \<Rightarrow> policy \<Rightarrow> wstr \<Rightarrow> bytes \<Rightarrow> bool" where
  "trusts cr now p adr K \<longleftrightarrow>
     list_all (\<lambda>e. EcdsaImportOk cr (al_pub e)) (m_pAllow p)
   \<and> (case Utf8FromWide (wchar4 cr) adr of None \<Rightarrow> False | Some a \<Rightarrow> K \<in> set (live_keys p now a))"

lemma trusts_verifies:
  assumes "trusts cr now p adr K" and "EcdsaVerify cr K tr sig"
  shows "VerifyAgainstPeer cr now p adr tr sig = AuthOk" and "\<exists>n. n \<noteq> 0 \<and> PeerKeyCount cr now p adr = (n, False)"
proof -
  obtain a where a: "Utf8FromWide (wchar4 cr) adr = Some a" and k: "K \<in> set (live_keys p now a)"
    using assms(1) by (auto simp: trusts_def split: option.splits)
  have imp: "\<forall>k \<in> set (live_keys p now a). EcdsaImportOk cr k"
    using assms(1) by (auto simp: trusts_def live_keys_def list_all_iff)
  have "length (live_keys p now a) \<noteq> 0" "live_keys p now a \<noteq> []" using k by auto
  then show c: "\<exists>n. n \<noteq> 0 \<and> PeerKeyCount cr now p adr = (n, False)"
    by (simp add: PeerKeyCount_live [OF a])
  have "list_ex (\<lambda>pub. EcdsaVerify cr pub tr sig) (live_keys p now a)" using k assms(2) by (auto simp: list_ex_iff)
  then show "VerifyAgainstPeer cr now p adr tr sig = AuthOk"
    using k verify_from_live [OF a imp, of 0] by (auto simp: VerifyAgainstPeer_def PeerKeyCount_live [OF a])
qed

lemma login_goes_through:
  assumes "crypto_ok cr" and "m_pIdentity pc = Some kc" and "EcdsaPublic cr kc = Some Kc"
    and "m_pIdentity ps = Some ks" and "EcdsaPublic cr ks = Some Ks"
    and "trusts cr now ps client Kc" and "trusts cr later pc hub Ks"
    and "BuildLogin cr t rand pc client hub cbLogin bnd = Inr (login, nonce)" and "length nonce = kAuthNonceLen" and "is_i64 t"
    and "\<not> skew_refused cr (m_nWindow ps) (clock_skew cr now t)" and "\<not> SeenNonce ps nonce"
    and "BuildAck cr ps hub client nonce cbAck bnd = Inr ack"
  shows "VerifyLogin cr now ps client hub login bnd = ((AuthOk, Some nonce, clock_skew cr now t), NoteNonce nonce now ps)
    \<and> VerifyAck cr later pc hub client nonce ack bnd = AuthOk
    \<and> length login = kAuthLoginLen \<and> length ack = kAuthAckLen"
proof -
  obtain tr sig where l: "Transcript (wchar4 cr) kLabelLogin client hub nonce (Some t) bnd = Some tr" "EcdsaSign cr kc tr = Some sig"
    "login = [kMagic0, kMagic1, kVersion] @ nonce @ PutI64 t @ sig"
    by (rule BuildLogin_parts [OF assms(8,2)])
  obtain tr' sig' where a: "Transcript (wchar4 cr) kLabelAck hub client nonce None bnd = Some tr'" "EcdsaSign cr ks tr' = Some sig'"
    "ack = [kMagic0, kMagic1, kVersion] @ sig'"
    by (rule BuildAck_parts [OF assms(13,4)])
  have s: "length sig = kSealSigLen" "EcdsaVerify cr Kc tr sig" "length sig' = kSealSigLen" "EcdsaVerify cr Ks tr' sig'"
    using crypto_okD(2) [OF assms(1)] assms(3,5) l(2) a(2) by blast+
  have n: "block_at kOffNonce kAuthNonceLen login = nonce" "GetI64 (drop kOffTs login) = t"
    "block_at kOffSig kEcdsaSigLen login = sig" "HeaderOk login = HeaderGood" "length login = kAuthLoginLen"
    using assms(9,10) s(1) GetI64_PutI64_append [of t] by (simp_all add: l(3) block_sizes block_at_def HeaderOk_def)
  have "CheckLogin cr now ps client hub login bnd = (AuthOk, clock_skew cr now t)"
    using trusts_verifies [OF assms(6) s(2)] l(1) assms(11,12) by (auto simp: CheckLogin_def n Let_def)
  then have "VerifyLogin cr now ps client hub login bnd = ((AuthOk, Some nonce, clock_skew cr now t), NoteNonce nonce now ps)"
    by (simp add: VerifyLogin_def n Let_def)
  moreover have "VerifyAck cr later pc hub client nonce ack bnd = AuthOk" "length ack = kAuthAckLen"
    using trusts_verifies [OF assms(7) s(4)] a(1) s(3)
    by (simp_all add: VerifyAck_def a(3) block_sizes block_at_def HeaderOk_def)
  ultimately show ?thesis using n(5) by blast
qed

text \<open>
  A login goes through, and so does its ack.  A client whose key the hub lists under the client's
  address and has not revoked, whose clock is within the window and whose nonce was not seen, is
  accepted, whatever other keys the address has; the hub reads back the client's nonce and remembers
  it.  The ack the hub then builds for that nonce is accepted by a client that lists the hub's key.
  Both sides must have derived the same channel binding.
\<close>

theorem login_handshake:
  assumes "crypto_ok cr" and "m_pIdentity pc = Some kc" and "EcdsaPublic cr kc = Some Kc"
    and "m_pIdentity ps = Some ks" and "EcdsaPublic cr ks = Some Ks"
    and "trusts cr now ps client Kc" and "trusts cr later pc hub Ks"
    and "BuildLogin cr t rand pc client hub cbLogin bnd = Inr (login, nonce)" and "length nonce = kAuthNonceLen" and "is_i64 t"
    and "\<not> skew_refused cr (m_nWindow ps) (clock_skew cr now t)" and "\<not> SeenNonce ps nonce"
    and "BuildAck cr ps hub client nonce cbAck bnd = Inr ack"
  shows "VerifyLogin cr now ps client hub login bnd = ((AuthOk, Some nonce, clock_skew cr now t), NoteNonce nonce now ps)
    \<and> VerifyAck cr later pc hub client nonce ack bnd = AuthOk
    \<and> length login = kAuthLoginLen \<and> length ack = kAuthAckLen"
  by (rule login_goes_through [OF assms])

definition example_client :: policy where
  "example_client = policy_new\<lparr>m_pIdentity := Some (replicate 64 4),
     m_pAllow := [\<lparr>al_identity = [66], al_pub = replicate 64 5, al_agree = None\<rparr>]\<rparr>"

definition example_hub :: policy where
  "example_hub = policy_new\<lparr>m_pIdentity := Some (replicate 64 5),
     m_pAllow := [\<lparr>al_identity = [65], al_pub = replicate 64 4, al_agree = None\<rparr>]\<rparr>"

lemma example_utf8 [simp]: "Utf8FromWide w4 [65] = Some [65]" "Utf8FromWide w4 [66] = Some [66]"
  by (simp_all add: next_code_point_def utf8_bytes_def)

lemma example_trusts:
  "trusts (example_crypto V) now example_client [66] (replicate 64 5)" "trusts (example_crypto V) now example_hub [65] (replicate 64 4)"
  by (simp_all add: trusts_def live_keys_def example_client_def example_hub_def policy_new_def IsRevokedPoint_def del: Utf8FromWide.simps)

lemma example_fresh:
  "\<not> skew_refused (example_crypto V) (m_nWindow example_hub) (clock_skew (example_crypto V) 110 100)" "\<not> SeenNonce example_hub n"
  by (simp_all add: skew_refused_def clock_skew_def example_hub_def policy_new_def kAuthWindowDefault_def signed_take_bit_small
      SeenNonce_def Let_def)

theorem login_handshake_witness:
  "\<exists>login ack p'. BuildLogin (example_crypto (\<lambda>m. True)) 100 (Some (replicate 16 7)) example_client [65] [66] 91 None = Inr (login, replicate 16 7)
     \<and> VerifyLogin (example_crypto (\<lambda>m. True)) 110 example_hub [65] [66] login None = ((AuthOk, Some (replicate 16 7), 10), p')
     \<and> VerifyAck (example_crypto (\<lambda>m. True)) 120 example_client [66] [65] (replicate 16 7) ack None = AuthOk"
proof -
  let ?cr = "example_crypto (\<lambda>m. True)" and ?n = "replicate 16 (7::byte)" and ?c = "replicate 64 (4::byte)" and ?h = "replicate 64 (5::byte)"
  obtain login where l: "BuildLogin ?cr 100 (Some ?n) example_client [65] [66] 91 None = Inr (login, ?n)"
    by (simp add: BuildLogin_def example_client_def policy_new_def Transcript_def block_sizes del: Utf8FromWide.simps)
  obtain ack where a: "BuildAck ?cr example_hub [66] [65] ?n 67 None = Inr ack"
    by (simp add: BuildAck_def example_hub_def policy_new_def Transcript_def block_sizes del: Utf8FromWide.simps)
  have "VerifyLogin ?cr 110 example_hub [65] [66] login None = ((AuthOk, Some ?n, clock_skew ?cr 110 100), NoteNonce ?n 110 example_hub)
    \<and> VerifyAck ?cr 120 example_client [66] [65] ?n ack None = AuthOk \<and> length login = kAuthLoginLen \<and> length ack = kAuthAckLen"
    by (rule login_handshake [OF example_crypto_ok _ _ _ _ _ _ l _ _ _ _ a, of ?c ?c ?h ?h])
       (simp_all only: example_trusts example_fresh not_False_eq_True,
        simp_all add: example_client_def example_hub_def policy_new_def kAuthNonceLen_def is_i64_def)
  then show ?thesis using l by (auto simp: clock_skew_def signed_take_bit_small)
qed

subsection \<open>What is accepted was signed\<close>

record login_call =
  lc_src :: wstr
  lc_dst :: wstr
  lc_nonce :: bytes
  lc_ts :: int
  lc_bind :: "bytes option"

definition login_signs :: "crypto \<Rightarrow> login_call \<Rightarrow> bytes option" where
  "login_signs cr c = Transcript (wchar4 cr) kLabelLogin (lc_src c) (lc_dst c) (lc_nonce c) (Some (lc_ts c)) (lc_bind c)"

definition login_call_ok :: "crypto \<Rightarrow> login_call \<Rightarrow> bool" where
  "login_call_ok cr c \<longleftrightarrow> address_ok (wchar4 cr) (lc_src c) \<and> address_ok (wchar4 cr) (lc_dst c)
     \<and> length (lc_nonce c) = kAuthNonceLen \<and> is_i64 (lc_ts c)
     \<and> (case lc_bind c of None \<Rightarrow> True | Some b \<Rightarrow> length b = kAuthBindLen)"

text \<open>What else an identity key signs.\<close>

definition other_than_login :: "crypto \<Rightarrow> bytes \<Rightarrow> bool" where
  "other_than_login cr m \<longleftrightarrow>
     (\<exists>src dst n b. Transcript (wchar4 cr) kLabelAck src dst n None b = Some m)
   \<or> (\<exists>att src dst nam body ts. RelayTranscript (Sha256 cr) (wchar4 cr) att src dst nam body ts = Some m)
   \<or> (\<exists>epoch n entries issuer. RevListTranscript (Sha256 cr) epoch n entries issuer = Some m)
   \<or> (\<exists>src dst w eph n tags body t slots. TranscriptV2 (wchar4 cr) kLabelSig src dst kSealVersion w eph n tags None body = Some t
        \<and> m = AppendField t slots)"

lemma other_than_login_label: "other_than_login cr m \<Longrightarrow> m \<noteq> frame (kLabelLogin # fs)"
proof -
  assume "other_than_login cr m"
  then obtain l gs where l: "m = frame (l # gs)" "l \<in> {kLabelAck, kLabelRelay, kLabelRevList, kLabelSig}"
    unfolding other_than_login_def
    by (elim disjE exE conjE)
       (fastforce simp: Transcript_frame RelayTranscript_frame RevListTranscript_frame TranscriptV2_frame login_fields_def frame_snoc)+
  have "l \<noteq> kLabelLogin" "short l" using l(2) labels_distinct by auto
  then show ?thesis using l(1) by (simp add: frame_Cons_eq)
qed

lemma login_signed_as_presented:
  assumes "VerifyLogin cr now p src dst blk bnd = ((AuthOk, nonce, sk), p')"
    and "Utf8FromWide (wchar4 cr) src = Some a"
    and "\<forall>K \<in> set (live_keys p now a). \<forall>m sig. EcdsaVerify cr K m sig \<longrightarrow>
           (\<exists>c \<in> set calls. login_signs cr c = Some m) \<or> other_than_login cr m"
    and "list_all (login_call_ok cr) calls" and "address_ok (wchar4 cr) src" and "address_ok (wchar4 cr) dst"
    and "case bnd of None \<Rightarrow> True | Some b \<Rightarrow> length b = kAuthBindLen"
  shows "\<exists>c \<in> set calls. c = \<lparr>lc_src = src, lc_dst = dst, lc_nonce = block_at kOffNonce kAuthNonceLen blk,
            lc_ts = GetI64 (drop kOffTs blk), lc_bind = bnd\<rparr> \<and> nonce = Some (lc_nonce c)"
proof -
  let ?n = "block_at kOffNonce kAuthNonceLen blk" and ?t = "GetI64 (drop kOffTs blk)"
  obtain tr a' K where v: "nonce = Some ?n" "kAuthLoginLen \<le> length blk"
    "Transcript (wchar4 cr) kLabelLogin src dst ?n (Some ?t) bnd = Some tr"
    "Utf8FromWide (wchar4 cr) src = Some a'" "K \<in> set (live_keys p now a')"
    "EcdsaVerify cr K tr (block_at kOffSig kEcdsaSigLen blk)"
    using VerifyLogin_ok [OF assms(1)] by metis
  have "\<not> other_than_login cr tr" using v(3) other_than_login_label by (auto simp: Transcript_frame login_fields_def)
  then obtain c where c: "c \<in> set calls" "login_signs cr c = Some tr"
    using assms(2,3) v(4-6) by auto
  have ok: "login_call_ok cr c" using assms(4) c(1) by (simp add: list_all_iff)
  have n: "length ?n = kAuthNonceLen" using v(2) by (simp add: block_at_def block_sizes)
  have "kLabelLogin = kLabelLogin \<and> src = lc_src c \<and> dst = lc_dst c \<and> ?n = lc_nonce c \<and> Some ?t = Some (lc_ts c) \<and> bnd = lc_bind c"
    by (rule Transcript_determines [OF v(3) c(2) [unfolded login_signs_def]])
       (use ok assms(5-7) n in \<open>auto simp: login_call_ok_def split: option.splits\<close>)
  then have "c = \<lparr>lc_src = src, lc_dst = dst, lc_nonce = ?n, lc_ts = ?t, lc_bind = bnd\<rparr>" by simp
  with c(1) v(1) show ?thesis by auto
qed

text \<open>The same for an ack, which carries the nonce of the login it answers and no time.\<close>

record ack_call =
  ac_src :: wstr
  ac_dst :: wstr
  ac_nonce :: bytes
  ac_bind :: "bytes option"

definition ack_signs :: "crypto \<Rightarrow> ack_call \<Rightarrow> bytes option" where
  "ack_signs cr c = Transcript (wchar4 cr) kLabelAck (ac_src c) (ac_dst c) (ac_nonce c) None (ac_bind c)"

definition ack_call_ok :: "crypto \<Rightarrow> ack_call \<Rightarrow> bool" where
  "ack_call_ok cr c \<longleftrightarrow> address_ok (wchar4 cr) (ac_src c) \<and> address_ok (wchar4 cr) (ac_dst c)
     \<and> length (ac_nonce c) = kAuthNonceLen \<and> (case ac_bind c of None \<Rightarrow> True | Some b \<Rightarrow> length b = kAuthBindLen)"

definition other_than_ack :: "crypto \<Rightarrow> bytes \<Rightarrow> bool" where
  "other_than_ack cr m \<longleftrightarrow>
     (\<exists>src dst n t b. Transcript (wchar4 cr) kLabelLogin src dst n (Some t) b = Some m)
   \<or> (\<exists>att src dst nam body ts. RelayTranscript (Sha256 cr) (wchar4 cr) att src dst nam body ts = Some m)
   \<or> (\<exists>epoch n entries issuer. RevListTranscript (Sha256 cr) epoch n entries issuer = Some m)
   \<or> (\<exists>src dst w eph n tags body t slots. TranscriptV2 (wchar4 cr) kLabelSig src dst kSealVersion w eph n tags None body = Some t
        \<and> m = AppendField t slots)"

lemma other_than_ack_label: "other_than_ack cr m \<Longrightarrow> m \<noteq> frame (kLabelAck # fs)"
proof -
  assume "other_than_ack cr m"
  then obtain l gs where l: "m = frame (l # gs)" "l \<in> {kLabelLogin, kLabelRelay, kLabelRevList, kLabelSig}"
    unfolding other_than_ack_def
    by (elim disjE exE conjE)
       (fastforce simp: Transcript_frame RelayTranscript_frame RevListTranscript_frame TranscriptV2_frame login_fields_def frame_snoc)+
  have "l \<noteq> kLabelAck" "short l" using l(2) labels_distinct by auto
  then show ?thesis using l(1) by (simp add: frame_Cons_eq)
qed

lemma VerifyAck_ok:
  assumes "VerifyAck cr now p src dst nonce blk bnd = AuthOk" and "Utf8FromWide (wchar4 cr) src = Some a"
  obtains tr K where "Transcript (wchar4 cr) kLabelAck src dst nonce None bnd = Some tr" and "K \<in> set (live_keys p now a)"
    and "EcdsaVerify cr K tr (block_at kOffAckSig kEcdsaSigLen blk)"
proof -
  obtain tr where tr: "Transcript (wchar4 cr) kLabelAck src dst nonce None bnd = Some tr"
    "VerifyAgainstPeer cr now p src tr (block_at kOffAckSig kEcdsaSigLen blk) = AuthOk"
    using assms(1) by (auto simp: VerifyAck_def split: if_splits auth_header.splits option.splits)
  from VerifyAgainstPeer_sound [OF tr(2)] that tr(1) assms(2) show thesis by auto
qed

lemma ack_signed_as_presented:
  assumes "VerifyAck cr now p src dst nonce blk bnd = AuthOk"
    and "Utf8FromWide (wchar4 cr) src = Some a"
    and "\<forall>K \<in> set (live_keys p now a). \<forall>m sig. EcdsaVerify cr K m sig \<longrightarrow>
           (\<exists>c \<in> set calls. ack_signs cr c = Some m) \<or> other_than_ack cr m"
    and "list_all (ack_call_ok cr) calls" and "address_ok (wchar4 cr) src" and "address_ok (wchar4 cr) dst"
    and "case bnd of None \<Rightarrow> True | Some b \<Rightarrow> length b = kAuthBindLen" and "length nonce = kAuthNonceLen"
  shows "\<lparr>ac_src = src, ac_dst = dst, ac_nonce = nonce, ac_bind = bnd\<rparr> \<in> set calls"
proof -
  obtain tr K where v: "Transcript (wchar4 cr) kLabelAck src dst nonce None bnd = Some tr" "K \<in> set (live_keys p now a)"
    "EcdsaVerify cr K tr (block_at kOffAckSig kEcdsaSigLen blk)"
    by (rule VerifyAck_ok [OF assms(1,2)])
  have "\<not> other_than_ack cr tr" using v(1) other_than_ack_label by (auto simp: Transcript_frame login_fields_def)
  then obtain c where c: "c \<in> set calls" "ack_signs cr c = Some tr" using assms(3) v(2,3) by auto
  have ok: "ack_call_ok cr c" using assms(4) c(1) by (simp add: list_all_iff)
  have "kLabelAck = kLabelAck \<and> src = ac_src c \<and> dst = ac_dst c \<and> nonce = ac_nonce c \<and> None = (None :: int option) \<and> bnd = ac_bind c"
    by (rule Transcript_determines [OF v(1) c(2) [unfolded ack_signs_def]])
       (use ok assms(5-8) in \<open>auto simp: ack_call_ok_def split: option.splits\<close>)
  then have "c = \<lparr>ac_src = src, ac_dst = dst, ac_nonce = nonce, ac_bind = bnd\<rparr>" by simp
  with c(1) show ?thesis by simp
qed

text \<open>
  C9: A login or an ack that is accepted was signed as presented.  Suppose every message that verifies under a
  live key of the claimed source is a login that source signed, or one of the other things an identity key
  signs.  Then a login the hub accepts is one of those logins, with the same source, destination, nonce,
  timestamp and channel binding: an attacker can neither alter a login nor replay it to another hub or over
  another channel, nor pass an ack, attestation, revocation list or sealed body off as one.  In the same way an
  ack the client accepts for the nonce of its login is an ack that the claimed source signed, for this client,
  this nonce and this channel binding.
\<close>

theorem login_only_what_was_signed:
  assumes "Utf8FromWide (wchar4 cr) src = Some a" and "address_ok (wchar4 cr) src" and "address_ok (wchar4 cr) dst"
    and "case bnd of None \<Rightarrow> True | Some b \<Rightarrow> length b = kAuthBindLen"
    and "list_all (login_call_ok cr) logins" and "list_all (ack_call_ok cr) acks" and "length own = kAuthNonceLen"
  shows "(VerifyLogin cr now p src dst blk bnd = ((AuthOk, nonce, sk), p')
      \<and> (\<forall>K \<in> set (live_keys p now a). \<forall>m sig. EcdsaVerify cr K m sig \<longrightarrow>
           (\<exists>c \<in> set logins. login_signs cr c = Some m) \<or> other_than_login cr m) \<longrightarrow>
      (\<exists>c \<in> set logins. c = \<lparr>lc_src = src, lc_dst = dst, lc_nonce = block_at kOffNonce kAuthNonceLen blk,
            lc_ts = GetI64 (drop kOffTs blk), lc_bind = bnd\<rparr> \<and> nonce = Some (lc_nonce c)))
    \<and> (VerifyAck cr now p src dst own blk bnd = AuthOk
      \<and> (\<forall>K \<in> set (live_keys p now a). \<forall>m sig. EcdsaVerify cr K m sig \<longrightarrow>
           (\<exists>c \<in> set acks. ack_signs cr c = Some m) \<or> other_than_ack cr m) \<longrightarrow>
      \<lparr>ac_src = src, ac_dst = dst, ac_nonce = own, ac_bind = bnd\<rparr> \<in> set acks)"
proof (rule conjI; rule impI; elim conjE)
qed (rule login_signed_as_presented [OF _ assms(1) _ assms(5,2,3,4)] ack_signed_as_presented [OF _ assms(1) _ assms(6,2,3,4,7)], assumption+)+

lemma example_address_ok [simp]: "address_ok w4 []" "address_ok w4 [65]" "address_ok w4 [66]"
  by (simp_all add: address_ok_def wide_units_ok_def short_def del: Utf8FromWide.simps(2))

text \<open>An accepted login of the example hub.\<close>

definition example_login :: bytes where
  "example_login = [kMagic0, kMagic1, kVersion] @ replicate 16 7 @ PutI64 100 @ replicate 64 4"

lemma example_login_fields:
  "block_at kOffNonce kAuthNonceLen example_login = replicate 16 7" "GetI64 (drop kOffTs example_login) = 100"
  "block_at kOffSig kEcdsaSigLen example_login = replicate 64 4" "HeaderOk example_login = HeaderGood" "length example_login = kAuthLoginLen"
  using GetI64_PutI64_append [of 100] by (simp_all add: example_login_def block_sizes block_at_def HeaderOk_def is_i64_def)

lemma example_login_accepted:
  assumes "Transcript True kLabelLogin [65] [66] (replicate 16 7) (Some 100) None = Some tr" and "V tr"
  shows "VerifyLogin (example_crypto V) 110 example_hub [65] [66] example_login None
    = ((AuthOk, Some (replicate 16 7), 10), NoteNonce (replicate 16 7) 110 example_hub)"
proof -
  have "trusts (example_crypto V) 110 example_hub [65] (replicate 64 4)" "EcdsaVerify (example_crypto V) (replicate 64 4) tr (replicate 64 4)"
    using assms(2) by (simp_all add: example_trusts)
  from trusts_verifies [OF this] show ?thesis
    using assms(1) example_fresh(1) [of V] example_fresh(2)
    by (auto simp: VerifyLogin_def CheckLogin_def example_login_fields Let_def clock_skew_def signed_take_bit_small)
qed

definition example_ack :: bytes where "example_ack = [kMagic0, kMagic1, kVersion] @ replicate 64 5"

lemma example_ack_accepted:
  assumes "Transcript True kLabelAck [66] [65] (replicate 16 7) None None = Some tr" and "V tr"
  shows "VerifyAck (example_crypto V) 120 example_client [66] [65] (replicate 16 7) example_ack None = AuthOk"
proof -
  have "trusts (example_crypto V) 120 example_client [66] (replicate 64 5)" "EcdsaVerify (example_crypto V) (replicate 64 5) tr (replicate 64 5)"
    using assms(2) by (simp_all add: example_trusts)
  from trusts_verifies [OF this] show ?thesis
    using assms(1) by (simp add: VerifyAck_def example_ack_def block_sizes block_at_def HeaderOk_def)
qed

theorem login_only_what_was_signed_witness:
  "(\<exists>V p'. VerifyLogin (example_crypto V) 110 example_hub [65] [66] example_login None = ((AuthOk, Some (replicate 16 7), 10), p') \<and> (\<exists>m. \<not> V m))
     \<and> (\<exists>V. VerifyAck (example_crypto V) 120 example_client [66] [65] (replicate 16 7) example_ack None = AuthOk \<and> (\<exists>m. \<not> V m))"
proof -
  let ?n = "replicate 16 (7::byte)"
  define l where "l = \<lparr>lc_src = [65], lc_dst = [66], lc_nonce = ?n, lc_ts = 100, lc_bind = None\<rparr>"
  define k where "k = \<lparr>ac_src = [66], ac_dst = [65], ac_nonce = ?n, ac_bind = None\<rparr>"
  obtain tr where tr: "Transcript True kLabelLogin [65] [66] ?n (Some 100) None = Some tr"
    by (simp add: Transcript_def del: Utf8FromWide.simps)
  obtain ta where ta: "Transcript True kLabelAck [66] [65] ?n None None = Some ta"
    by (simp add: Transcript_def del: Utf8FromWide.simps)
  define cr where "cr = example_crypto (\<lambda>m. m = tr)"
  define ca where "ca = example_crypto (\<lambda>m. m = ta)"
  have v: "VerifyLogin cr 110 example_hub [65] [66] example_login None = ((AuthOk, Some ?n, 10), NoteNonce ?n 110 example_hub)"
    using example_login_accepted [OF tr] by (simp add: cr_def)
  have va: "VerifyAck ca 120 example_client [66] [65] ?n example_ack None = AuthOk"
    using example_ack_accepted [OF ta] by (simp add: ca_def)
  have ok: "list_all (login_call_ok cr) [l]" "list_all (ack_call_ok ca) [k]" "length ?n = kAuthNonceLen"
    by (simp_all add: cr_def ca_def l_def k_def login_call_ok_def ack_call_ok_def kAuthNonceLen_def is_i64_def del: Utf8FromWide.simps)
  have only: "\<forall>m sig. EcdsaVerify cr K m sig \<longrightarrow> (\<exists>c \<in> set [l]. login_signs cr c = Some m) \<or> other_than_login cr m"
    "\<forall>m sig. EcdsaVerify ca K m sig \<longrightarrow> (\<exists>c \<in> set [k]. ack_signs ca c = Some m) \<or> other_than_ack ca m" for K
    using tr ta by (simp_all add: cr_def ca_def l_def k_def login_signs_def ack_signs_def del: Utf8FromWide.simps)
  have "\<exists>c \<in> set [l]. c = \<lparr>lc_src = [65], lc_dst = [66], lc_nonce = block_at kOffNonce kAuthNonceLen example_login,
            lc_ts = GetI64 (drop kOffTs example_login), lc_bind = None\<rparr> \<and> Some ?n = Some (lc_nonce c)"
    by (rule login_only_what_was_signed [of cr "[65]" "[65]" "[66]" None "[l]" "[]" ?n, THEN conjunct1, THEN mp])
      (use v ok(1,3) only(1) in \<open>simp_all add: cr_def del: Utf8FromWide.simps\<close>)
  moreover have "\<lparr>ac_src = [66], ac_dst = [65], ac_nonce = ?n, ac_bind = None\<rparr> \<in> set [k]"
    by (rule login_only_what_was_signed [of ca "[66]" "[66]" "[65]" None "[]" "[k]" ?n, THEN conjunct2, THEN mp])
      (use va ok(2,3) only(2) in \<open>simp_all add: ca_def del: Utf8FromWide.simps\<close>)
  moreover have "\<exists>m. m \<noteq> tr" "\<exists>m. m \<noteq> ta" by (metis not_Cons_self)+
  ultimately show ?thesis using v va cr_def ca_def by blast
qed

subsection \<open>No login is accepted twice\<close>

text \<open>Logins that arrive one after the other, at the times of the clock: the policy after them.\<close>

type_synonym login_attempt = "int \<times> wstr \<times> wstr \<times> bytes \<times> bytes option"

fun login_run :: "crypto \<Rightarrow> login_attempt list \<Rightarrow> policy \<Rightarrow> policy" where
  "login_run cr [] p = p"
| "login_run cr ((now, src, dst, blk, bnd) # as) p = login_run cr as (snd (VerifyLogin cr now p src dst blk bnd))"

lemma VerifyLogin_marks:
  "\<exists>ms. m_nWindow (snd (VerifyLogin cr now p src dst blk bnd)) = m_nWindow p
     \<and> m_pSeen (snd (VerifyLogin cr now p src dst blk bnd)) = fold (NoteNonce_marks (m_nWindow p)) ms (m_pSeen p)
     \<and> list_all (\<lambda>m. snd m = now) ms"
proof (cases "CheckLogin cr now p src dst blk bnd")
  case (Pair e sk)
  show ?thesis
  proof (cases "e = AuthOk")
    case True
    with Pair show ?thesis
      by (intro exI [of _ "[(take kAuthNonceLen (block_at kOffNonce kAuthNonceLen blk), now)]"]) (simp add: VerifyLogin_def Let_def)
  next
    case False
    with Pair show ?thesis by (intro exI [of _ "[]"]) (simp add: VerifyLogin_def)
  qed
qed

lemma login_run_marks:
  assumes "list_all (\<lambda>a. lo \<le> fst a \<and> fst a \<le> hi) as"
  shows "\<exists>ms. m_nWindow (login_run cr as p) = m_nWindow p
     \<and> m_pSeen (login_run cr as p) = fold (NoteNonce_marks (m_nWindow p)) ms (m_pSeen p)
     \<and> list_all (\<lambda>m. lo \<le> snd m \<and> snd m \<le> hi) ms"
  using assms
proof (induction cr as p rule: login_run.induct)
  case (1 cr p)
  show ?case by (intro exI [of _ "[]"]) simp
next
  case (2 cr now src dst blk bnd as p)
  let ?q = "snd (VerifyLogin cr now p src dst blk bnd)"
  obtain ms where m: "m_nWindow ?q = m_nWindow p" "m_pSeen ?q = fold (NoteNonce_marks (m_nWindow p)) ms (m_pSeen p)"
    "list_all (\<lambda>m. snd m = now) ms"
    using VerifyLogin_marks by blast
  obtain ns where n: "m_nWindow (login_run cr as ?q) = m_nWindow ?q"
    "m_pSeen (login_run cr as ?q) = fold (NoteNonce_marks (m_nWindow ?q)) ns (m_pSeen ?q)"
    "list_all (\<lambda>m. lo \<le> snd m \<and> snd m \<le> hi) ns"
    using 2 by auto
  from 2(2) have "lo \<le> now" "now \<le> hi" by simp_all
  with m(3) have "list_all (\<lambda>m. lo \<le> snd m \<and> snd m \<le> hi) ms" by (simp add: list_all_iff)
  with m n show ?case by (intro exI [of _ "ms @ ns"]) simp
qed

text \<open>
  C8: No login is accepted twice.  With a window set and a clock that does not run backwards, once a
  login is accepted every block with the same nonce and timestamp is refused from then on: for a
  replay, or, once the clock has left the window, for its age.  It makes no difference how many other
  logins arrive in between, from whom, or whether they are accepted.
\<close>

theorem login_not_replayed:
  assumes "VerifyLogin cr now p src dst blk bnd = ((AuthOk, n, sk), p')"
    and "m_nWindow p > 0" and "1 < long_bits cr" and "long_bits cr \<le> 64"
    and "list_all (\<lambda>a. now \<le> fst a \<and> fst a \<le> now') as" and "now \<le> now'"
    and "block_at kOffNonce kAuthNonceLen blk' = block_at kOffNonce kAuthNonceLen blk"
    and "GetI64 (drop kOffTs blk') = GetI64 (drop kOffTs blk)"
    and "\<bar>now - GetI64 (drop kOffTs blk)\<bar> < 2 ^ (long_bits cr - 1)" and "\<bar>now' - GetI64 (drop kOffTs blk)\<bar> < 2 ^ (long_bits cr - 1)"
  shows "fst (fst (VerifyLogin cr now' (login_run cr as p') src' dst' blk' bnd')) \<noteq> AuthOk"
proof
  let ?t = "GetI64 (drop kOffTs blk)" and ?n = "block_at kOffNonce kAuthNonceLen blk"
  let ?w = "m_nWindow p" and ?m = "(take kAuthNonceLen ?n, now)"
  assume "fst (fst (VerifyLogin cr now' (login_run cr as p') src' dst' blk' bnd')) = AuthOk"
  then obtain n2 sk2 p2 where v2: "VerifyLogin cr now' (login_run cr as p') src' dst' blk' bnd' = ((AuthOk, n2, sk2), p2)"
    by (metis prod.collapse)
  have p': "p' = NoteNonce ?n now p" and s1: "\<not> skew_refused cr ?w (clock_skew cr now ?t)"
    using VerifyLogin_ok [OF assms(1)] by metis+
  obtain ms where r: "m_nWindow (login_run cr as p') = ?w"
    "m_pSeen (login_run cr as p') = fold (NoteNonce_marks ?w) ms (NoteNonce_marks ?w ?m (m_pSeen p))"
    "list_all (\<lambda>m. now \<le> snd m \<and> snd m \<le> now') ms"
    using login_run_marks [OF assms(5), of cr p'] p' by auto
  have s2: "\<not> skew_refused cr ?w (clock_skew cr now' ?t)" and unseen: "\<not> SeenNonce (login_run cr as p') ?n"
    using VerifyLogin_ok [OF v2] assms(7,8) r(1) by metis+
  have "(2::int) ^ (long_bits cr - 1) \<le> 2 ^ 63"
    by (rule power_increasing) (use assms(4) in simp_all)
  then have small: "is_i64 (now - ?t)" "is_i64 (now' - ?t)"
    using assms(9,10) unfolding is_i64_def by linarith+
  have "\<bar>now - ?t\<bar> \<le> ?w" "\<bar>now' - ?t\<bar> \<le> ?w"
    using s1 s2 small assms(2,9,10) skew_refused_exact [OF assms(3,4)] by (metis not_less)+
  then have "now' \<le> now + 2 * ?w" by linarith
  then have "list_all (mark_near ?w ?m) ms"
    using r(3) assms(2) by (auto simp: list_all_iff mark_near_def)
  then have "?m \<in> set (m_pSeen (login_run cr as p'))"
    using nonces.replay_refused [of ms ?w ?m "m_pSeen p"] r(2) by (simp add: fits_def)
  then show False using SeenNonce_mem unseen by blast
qed

theorem login_not_replayed_witness:
  "fst (fst (VerifyLogin (example_crypto (\<lambda>m. True)) 110 example_hub [65] [66] example_login None)) = AuthOk
   \<and> fst (fst (VerifyLogin (example_crypto (\<lambda>m. True)) 130
        (login_run (example_crypto (\<lambda>m. True)) [(120, [65], [66], [], None)] (NoteNonce (replicate 16 7) 110 example_hub))
        [65] [66] example_login None)) \<noteq> AuthOk"
proof -
  obtain tr where tr: "Transcript True kLabelLogin [65] [66] (replicate 16 7) (Some 100) None = Some tr"
    by (simp add: Transcript_def del: Utf8FromWide.simps)
  have v: "VerifyLogin (example_crypto (\<lambda>m. True)) 110 example_hub [65] [66] example_login None
    = ((AuthOk, Some (replicate 16 7), 10), NoteNonce (replicate 16 7) 110 example_hub)"
    by (rule example_login_accepted [OF tr]) simp
  have "fst (fst (VerifyLogin (example_crypto (\<lambda>m. True)) 130
        (login_run (example_crypto (\<lambda>m. True)) [(120, [65], [66], [], None)] (NoteNonce (replicate 16 7) 110 example_hub))
        [65] [66] example_login None)) \<noteq> AuthOk"
    by (rule login_not_replayed [OF v])
       (simp_all add: example_login_fields example_hub_def policy_new_def kAuthWindowDefault_def)
  with v show ?thesis by simp
qed

subsection \<open>Relay attestations\<close>

record relay_call =
  rc_attester :: wstr
  rc_src :: wstr
  rc_dst :: wstr
  rc_name :: "wstr option"
  rc_body :: bytes
  rc_ts :: int

definition relay_signs :: "crypto \<Rightarrow> relay_call \<Rightarrow> bytes option" where
  "relay_signs cr c = RelayTranscript (Sha256 cr) (wchar4 cr) (rc_attester c) (rc_src c) (rc_dst c) (rc_name c) (rc_body c) (rc_ts c)"

definition name_of :: "wstr option \<Rightarrow> wstr" where
  "name_of n = (case n of None \<Rightarrow> [] | Some w \<Rightarrow> w)"

definition relay_call_ok :: "crypto \<Rightarrow> relay_call \<Rightarrow> bool" where
  "relay_call_ok cr c \<longleftrightarrow> list_all (address_ok (wchar4 cr)) [rc_attester c, rc_src c, rc_dst c, name_of (rc_name c)] \<and> is_i64 (rc_ts c)"

definition other_than_relay :: "crypto \<Rightarrow> bytes \<Rightarrow> bool" where
  "other_than_relay cr m \<longleftrightarrow>
     (\<exists>l \<in> {kLabelLogin, kLabelAck}. \<exists>src dst n t b. Transcript (wchar4 cr) l src dst n t b = Some m)
   \<or> (\<exists>epoch n entries issuer. RevListTranscript (Sha256 cr) epoch n entries issuer = Some m)
   \<or> (\<exists>src dst w eph n tags body t slots. TranscriptV2 (wchar4 cr) kLabelSig src dst kSealVersion w eph n tags None body = Some t
        \<and> m = AppendField t slots)"

lemma other_than_relay_label: "other_than_relay cr m \<Longrightarrow> m \<noteq> frame (kLabelRelay # fs)"
proof -
  assume "other_than_relay cr m"
  then obtain l gs where l: "m = frame (l # gs)" "l \<in> {kLabelLogin, kLabelAck, kLabelRevList, kLabelSig}"
    unfolding other_than_relay_def
    by (elim disjE exE conjE bexE)
       (fastforce simp: Transcript_frame RevListTranscript_frame TranscriptV2_frame login_fields_def frame_snoc)+
  have "l \<noteq> kLabelRelay" "short l" using l(2) labels_distinct by auto
  then show ?thesis using l(1) by (simp add: frame_Cons_eq)
qed

text \<open>The timestamp a block carries.\<close>

definition relay_stamp :: "bytes \<Rightarrow> int" where
  "relay_stamp blk = GetI64 (drop (OffRelayTs (push_bit 8 (unat (blk ! kOffRelayAlen)) OR unat (blk ! (kOffRelayAlen + 1)))) blk)"

text \<open>What passing the checks means, whatever the caller's buffer.\<close>

lemma CheckRelay_reads:
  assumes "CheckRelay cr now p src dst nam body blk = (Inr (att, sig), sk)"
  defines "n \<equiv> push_bit 8 (unat (blk ! kOffRelayAlen)) OR unat (blk ! (kOffRelayAlen + 1))"
  defines "ts \<equiv> GetI64 (drop (OffRelayTs n) blk)"
  shows "sig = block_at (OffRelaySig n) kEcdsaSigLen blk \<and> \<not> skew_refused cr (m_nWindow p) (clock_skew cr now ts)
    \<and> WideFromUtf8 (wchar4 cr) (block_at kOffRelayAddr n blk) (kRelayAttesterMax + 1) = Some att
    \<and> n \<le> kRelayAttesterMax \<and> RelayLen n \<le> length blk
    \<and> (\<exists>tr. RelayTranscript (Sha256 cr) (wchar4 cr) att src dst nam body ts = Some tr \<and> VerifyAgainstPeer cr now p att tr sig = AuthOk)"
  using assms(1) unfolding CheckRelay_def n_def [symmetric] Let_def ts_def
  by (auto split: if_splits option.splits prod.splits)

lemma CheckRelay_ok:
  assumes "CheckRelay cr now p src dst nam body blk = (Inr (att, sig), sk)"
  obtains ts tr a K n where "RelayTranscript (Sha256 cr) (wchar4 cr) att src dst nam body ts = Some tr"
    and "\<not> skew_refused cr (m_nWindow p) (clock_skew cr now ts)" and "is_i64 ts"
    and "Utf8FromWide (wchar4 cr) att = Some a" and "K \<in> set (live_keys p now a)" and "EcdsaVerify cr K tr sig"
    and "wide_units_ok (wchar4 cr) att" and "a = block_at kOffRelayAddr n blk" and "n \<le> kRelayAttesterMax"
proof -
  define n where "n = push_bit 8 (unat (blk ! kOffRelayAlen)) OR unat (blk ! (kOffRelayAlen + 1))"
  let ?ts = "GetI64 (drop (OffRelayTs n) blk)"
  note w = CheckRelay_reads [OF assms, folded n_def]
  then obtain tr where tr: "RelayTranscript (Sha256 cr) (wchar4 cr) att src dst nam body ?ts = Some tr"
    "VerifyAgainstPeer cr now p att tr sig = AuthOk" by blast
  obtain a K where a: "Utf8FromWide (wchar4 cr) att = Some a" "K \<in> set (live_keys p now a)" "EcdsaVerify cr K tr sig"
    by (rule VerifyAgainstPeer_sound [OF tr(2)])
  have "Utf8FromWide (wchar4 cr) att = Some (block_at kOffRelayAddr n blk)" "wide_units_ok (wchar4 cr) att"
    using w WideFromUtf8_from_strict [of "wchar4 cr" "kRelayAttesterMax + 1" 0 "block_at kOffRelayAddr n blk" att]
    by (auto simp: WideFromUtf8_def)
  with a(1) w show thesis
    using that [OF tr(1) _ _ a, of n] by simp
qed

lemma VerifyRelay_cases:
  "VerifyRelay cr now p src dst nam body blk cch = (r, p') \<Longrightarrow>
     (case CheckRelay cr now p src dst nam body blk of
        (Inl e, sk) \<Rightarrow> p' = p \<and> fst r \<in> {e, AuthErrArgs}
      | (Inr (att, sig), sk) \<Rightarrow>
          cch = 0 \<and> p' = p \<and> fst r = AuthErrArgs
        \<or> m_bRelayReplay p \<and> SeenRelaySig p sig \<and> p' = p \<and> fst r = AuthErrReplay
        \<or> \<not> (m_bRelayReplay p \<and> SeenRelaySig p sig) \<and> p' = (if m_bRelayReplay p then NoteRelaySig sig now p else p)
          \<and> r = (if length att + 1 > cch then (AuthErrArgs, None, sk) else (AuthOk, Some att, sk)))"
  by (auto simp: VerifyRelay_def Let_def split: if_splits sum.splits prod.splits)

lemma CheckRelay_not_ok: "CheckRelay cr now p src dst nam body blk \<noteq> (Inl AuthOk, sk)"
  by (auto simp: CheckRelay_def Let_def split: if_splits option.splits prod.splits)

lemma VerifyRelay_ok:
  assumes "VerifyRelay cr now p src dst nam body blk cch = ((AuthOk, att, sk), p')"
  obtains a sig where "CheckRelay cr now p src dst nam body blk = (Inr (a, sig), sk)" and "att = Some a"
    and "\<not> (m_bRelayReplay p \<and> SeenRelaySig p sig)" and "p' = (if m_bRelayReplay p then NoteRelaySig sig now p else p)"
proof (cases "CheckRelay cr now p src dst nam body blk")
  case (Pair x sk')
  show thesis
  proof (cases x)
    case (Inl e)
    then have "e \<noteq> AuthOk" using Pair CheckRelay_not_ok by metis
    then show thesis using VerifyRelay_cases [OF assms] Pair Inl by auto
  next
    case (Inr y)
    obtain a sig where y: "y = (a, sig)" by (cases y)
    then show thesis using VerifyRelay_cases [OF assms] Pair Inr by (intro that [of a sig]) (auto split: if_splits)
  qed
qed

text \<open>A block that \<open>BuildRelay\<close> made passes the checks of a hub that trusts its attester.\<close>

lemma CheckRelay_built:
  assumes "crypto_ok cr" and "m_pIdentity pa = Some k" and "EcdsaPublic cr k = Some K"
    and "BuildRelay cr t pa att src dst nam body cb = Inr blk" and "is_i64 t" and "wide_units_ok (wchar4 cr) att"
    and "trusts cr now p att K" and "\<not> skew_refused cr (m_nWindow p) (clock_skew cr now t)"
  obtains sig where "CheckRelay cr now p src dst nam body blk = (Inr (att, sig), clock_skew cr now t)" and "relay_stamp blk = t"
proof -
  obtain a tr sig where u: "Utf8FromWide (wchar4 cr) att = Some a" "a \<noteq> []" "length a \<le> kRelayAttesterMax"
    "RelayTranscript (Sha256 cr) (wchar4 cr) att src dst nam body t = Some tr" "EcdsaSign cr k tr = Some sig"
    "blk = [kRelayMagic0, kRelayMagic1, kRelayVersion] @ PutU16 (length a) @ a @ PutI64 t @ sig"
    using assms(2,4) by (auto simp: BuildRelay_def PutU16_def Let_def split: option.splits if_splits)
  have s: "length sig = 64" "EcdsaVerify cr K tr sig"
    using crypto_okD(2) [OF assms(1,3) u(5)] by (simp_all add: seal_sizes)
  define n where "n = length a"
  have sz: "0 < n" "n \<le> 255" using u(2,3) by (simp_all add: n_def kRelayAttesterMax_def)
  have "be_get (PutU16 n) = n" using sz u16.get_put [of n] by simp
  then have cnt: "push_bit 8 (unat (blk ! kOffRelayAlen)) OR unat (blk ! (kOffRelayAlen + 1)) = n"
    by (simp add: u(6) n_def kOffRelayAlen_def be_get_def PutU16_def)
  have pu: "length (PutU16 n) = 2" by (simp add: PutU16_def)
  have e: "blk = ([kRelayMagic0, kRelayMagic1, kRelayVersion] @ PutU16 n) @ a @ PutI64 t @ sig" by (simp add: u(6) n_def)
  let ?pre = "[kRelayMagic0, kRelayMagic1, kRelayVersion] @ PutU16 n @ a" and ?pts = "([kRelayMagic0, kRelayMagic1, kRelayVersion] @ PutU16 n @ a) @ PutI64 t"
  have dr: "drop (length xs) (xs @ ys) = ys" for xs ys :: bytes by simp
  have "length ?pre = OffRelayTs n" "length ?pts = OffRelaySig n" "blk = ?pre @ PutI64 t @ sig" "blk = ?pts @ sig"
    using pu e by (simp_all add: n_def OffRelayTs_def OffRelaySig_def kOffRelayAddr_def)
  then have dp: "drop (OffRelayTs n) blk = PutI64 t @ sig" "drop (OffRelaySig n) blk = sig"
    using dr [of ?pre "PutI64 t @ sig"] dr [of ?pts sig] by metis+
  have at: "block_at kOffRelayAddr n blk = a" "drop (OffRelayTs n) blk = PutI64 t @ sig" "block_at (OffRelaySig n) kEcdsaSigLen blk = sig"
    "length blk = RelayLen n"
    using s(1) pu dp by (simp_all add: e n_def block_at_def kOffRelayAddr_def RelayLen_def kRelayFixedLen_def kEcdsaSigLen_def)
  have w: "WideFromUtf8 (wchar4 cr) a (kRelayAttesterMax + 1) = Some att"
    using WideFromUtf8_from_complete [OF u(1) assms(6), of 0 "kRelayAttesterMax + 1"] Utf8FromWide_length [OF u(1)] u(3)
    by (simp add: WideFromUtf8_def)
  have m: "blk ! 0 = kRelayMagic0" "blk ! 1 = kRelayMagic1" "blk ! 2 = kRelayVersion" by (simp_all add: u(6))
  have ts: "GetI64 (drop (OffRelayTs n) blk) = t" using at(2) assms(5) GetI64_PutI64_append by simp
  from trusts_verifies [OF assms(7) s(2)] obtain c where c: "c \<noteq> 0" "PeerKeyCount cr now p att = (c, False)"
    and v: "VerifyAgainstPeer cr now p att tr sig = AuthOk" by blast
  have "CheckRelay cr now p src dst nam body blk = (Inr (att, sig), clock_skew cr now t)"
    unfolding CheckRelay_def cnt Let_def
    using sz c u(3,4) v assms(8)
    by (simp add: m [simplified] at(1,3,4) ts w [simplified] n_def [symmetric] RelayLen_def kRelayFixedLen_def)
  moreover have "relay_stamp blk = t" unfolding relay_stamp_def cnt by (rule ts)
  ultimately show thesis by (rule that)
qed

text \<open>An attestation by the example client, presented to the example hub.\<close>

lemma example_relay:
  assumes "RelayTranscript (Sha256 (example_crypto (\<lambda>m. True))) True [65] [65] [66] None [1, 2] 100 = Some tr" and "V tr"
  obtains blk where "BuildRelay (example_crypto V) 100 example_client [65] [65] [66] None [1, 2] 200 = Inr blk" and "relay_stamp blk = 100"
    and "\<exists>sig. VerifyRelay (example_crypto V) 110 example_hub [65] [66] None [1, 2] blk 10 = ((AuthOk, Some [65], 10), NoteRelaySig sig 110 example_hub)"
proof -
  have sha: "Sha256 (example_crypto V) = Sha256 (example_crypto (\<lambda>m. True))" by (simp add: fun_eq_iff)
  obtain blk where b: "BuildRelay (example_crypto V) 100 example_client [65] [65] [66] None [1, 2] 200 = Inr blk"
    using assms by (simp add: BuildRelay_def example_client_def policy_new_def SelfKeyRevoked_def RelayLen_def
        kRelayFixedLen_def kRelayAttesterMax_def sha del: Utf8FromWide.simps)
  obtain sig where "CheckRelay (example_crypto V) 110 example_hub [65] [66] None [1, 2] blk = (Inr ([65], sig), clock_skew (example_crypto V) 110 100)"
    and st: "relay_stamp blk = 100"
    by (rule CheckRelay_built [OF example_crypto_ok _ _ b, of "replicate 64 4" "replicate 64 4" 110 example_hub])
       (simp_all only: example_trusts example_fresh not_False_eq_True,
        simp_all add: example_client_def policy_new_def is_i64_def wide_units_ok_def)
  then have "VerifyRelay (example_crypto V) 110 example_hub [65] [66] None [1, 2] blk 10 = ((AuthOk, Some [65], 10), NoteRelaySig sig 110 example_hub)"
    by (simp add: VerifyRelay_def example_hub_def policy_new_def SeenRelaySig_def clock_skew_def signed_take_bit_small)
  with b st show thesis using that by blast
qed

lemma example_relay_signed:
  obtains tr where "RelayTranscript (Sha256 (example_crypto (\<lambda>m. True))) True [65] [65] [66] None [1, 2] 100 = Some tr"
  by (simp add: RelayTranscript_def del: Utf8FromWide.simps) (simp add: Utf8FromWide.simps)

lemma relay_attested_as_presented:
  assumes "VerifyRelay cr now p src dst nam body blk cch = ((AuthOk, Some att, sk), p')" and "crypto_ok cr"
    and "\<forall>a. Utf8FromWide (wchar4 cr) att = Some a \<longrightarrow> (\<forall>K \<in> set (live_keys p now a). \<forall>m sig. EcdsaVerify cr K m sig \<longrightarrow>
           (\<exists>c \<in> set calls. relay_signs cr c = Some m) \<or> other_than_relay cr m)"
    and "list_all (relay_call_ok cr) calls" and "list_all (address_ok (wchar4 cr)) [src, dst, name_of nam]"
  shows "\<exists>c \<in> set calls. rc_attester c = att \<and> rc_src c = src \<and> rc_dst c = dst \<and> name_of (rc_name c) = name_of nam
     \<and> Sha256 cr (rc_body c) = Sha256 cr body \<and> \<not> skew_refused cr (m_nWindow p) (clock_skew cr now (rc_ts c))"
proof -
  obtain a sig where c: "CheckRelay cr now p src dst nam body blk = (Inr (a, sig), sk)" "att = a"
    by (rule VerifyRelay_ok [OF assms(1)]) simp
  obtain ts tr u K n where k: "RelayTranscript (Sha256 cr) (wchar4 cr) att src dst nam body ts = Some tr"
    "\<not> skew_refused cr (m_nWindow p) (clock_skew cr now ts)" "is_i64 ts"
    "Utf8FromWide (wchar4 cr) att = Some u" "K \<in> set (live_keys p now u)" "EcdsaVerify cr K tr sig"
    "wide_units_ok (wchar4 cr) att" "u = block_at kOffRelayAddr n blk" "n \<le> kRelayAttesterMax"
    using CheckRelay_ok [OF c(1)] c(2) by metis
  have "length u \<le> kRelayAttesterMax" using k(8,9) by (simp add: block_at_def)
  then have att: "address_ok (wchar4 cr) att"
    using k(4,7) by (simp add: address_ok_def short_def kRelayAttesterMax_def)
  have "\<not> other_than_relay cr tr" using k(1) other_than_relay_label by (auto simp: RelayTranscript_frame)
  then obtain d where d: "d \<in> set calls" "relay_signs cr d = Some tr" using assms(3) k(4-6) by blast
  have ok: "relay_call_ok cr d" using assms(4) d(1) by (simp add: list_all_iff)
  have "att = rc_attester d \<and> src = rc_src d \<and> dst = rc_dst d
      \<and> (case nam of None \<Rightarrow> [] | Some n \<Rightarrow> n) = (case rc_name d of None \<Rightarrow> [] | Some n \<Rightarrow> n)
      \<and> Sha256 cr body = Sha256 cr (rc_body d) \<and> ts = rc_ts d"
    by (rule RelayTranscript_determines [OF k(1) d(2) [unfolded relay_signs_def]])
       (use ok assms(5) att k(3) crypto_okD(3) [OF assms(2)] in \<open>simp_all add: relay_call_ok_def name_of_def\<close>)
  then show ?thesis using d(1) k(2) by (auto simp: name_of_def)
qed

text \<open>
  An attestation that is accepted was made for this message.  Suppose every message that verifies
  under a live key of an attester is an attestation it signed, or one of the other things an identity
  key signs.  Then the attester \<open>VerifyRelay\<close> reports has attested exactly this source, destination and
  message name, a body with the same hash, and the timestamp in the block, which is within the window.
\<close>

theorem relay_only_what_was_attested:
  assumes "VerifyRelay cr now p src dst nam body blk cch = ((AuthOk, Some att, sk), p')" and "crypto_ok cr"
    and "\<forall>a. Utf8FromWide (wchar4 cr) att = Some a \<longrightarrow> (\<forall>K \<in> set (live_keys p now a). \<forall>m sig. EcdsaVerify cr K m sig \<longrightarrow>
           (\<exists>c \<in> set calls. relay_signs cr c = Some m) \<or> other_than_relay cr m)"
    and "list_all (relay_call_ok cr) calls" and "list_all (address_ok (wchar4 cr)) [src, dst, name_of nam]"
  shows "\<exists>c \<in> set calls. rc_attester c = att \<and> rc_src c = src \<and> rc_dst c = dst \<and> name_of (rc_name c) = name_of nam
     \<and> Sha256 cr (rc_body c) = Sha256 cr body \<and> \<not> skew_refused cr (m_nWindow p) (clock_skew cr now (rc_ts c))"
  by (rule relay_attested_as_presented [OF assms])

theorem relay_only_what_was_attested_witness:
  "\<exists>V blk p'. VerifyRelay (example_crypto V) 110 example_hub [65] [66] None [1, 2] blk 10 = ((AuthOk, Some [65], 10), p') \<and> (\<exists>m. \<not> V m)"
proof -
  obtain tr where tr: "RelayTranscript (Sha256 (example_crypto (\<lambda>m. True))) True [65] [65] [66] None [1, 2] 100 = Some tr"
    by (rule example_relay_signed)
  define cr where "cr = example_crypto (\<lambda>m. m = tr)"
  obtain blk sig where v: "VerifyRelay cr 110 example_hub [65] [66] None [1, 2] blk 10 = ((AuthOk, Some [65], 10), NoteRelaySig sig 110 example_hub)"
    using example_relay [OF tr, of "\<lambda>m. m = tr"] unfolding cr_def by blast
  define c where "c = \<lparr>rc_attester = [65], rc_src = [65], rc_dst = [66], rc_name = None, rc_body = [1, 2], rc_ts = 100\<rparr>"
  have "Sha256 cr = Sha256 (example_crypto (\<lambda>m. True))" by (simp add: cr_def fun_eq_iff)
  then have "relay_signs cr c = Some tr" using tr by (simp add: relay_signs_def c_def cr_def del: Utf8FromWide.simps)
  then have "\<exists>c' \<in> set [c]. rc_attester c' = [65] \<and> rc_src c' = [65] \<and> rc_dst c' = [66] \<and> name_of (rc_name c') = name_of None
     \<and> Sha256 cr (rc_body c') = Sha256 cr [1, 2] \<and> \<not> skew_refused cr (m_nWindow example_hub) (clock_skew cr 110 (rc_ts c'))"
    by (intro relay_only_what_was_attested [OF v])
       (auto simp: cr_def example_crypto_ok relay_call_ok_def c_def name_of_def is_i64_def)
  moreover have "\<exists>m. m \<noteq> tr" by (metis not_Cons_self)
  ultimately show ?thesis using v cr_def by blast
qed

type_synonym relay_attempt = "int \<times> wstr \<times> wstr \<times> wstr option \<times> bytes \<times> bytes \<times> nat"

fun relay_run :: "crypto \<Rightarrow> relay_attempt list \<Rightarrow> policy \<Rightarrow> policy" where
  "relay_run cr [] p = p"
| "relay_run cr ((now, src, dst, nam, body, blk, cch) # as) p =
     relay_run cr as (snd (VerifyRelay cr now p src dst nam body blk cch))"

lemma NoteRelaySig_simps [simp]:
  "m_nWindow (NoteRelaySig s t p) = m_nWindow p" "m_bRelayReplay (NoteRelaySig s t p) = m_bRelayReplay p"
  "m_pSeenRel (NoteRelaySig s t p) = NoteRelaySig_marks (m_nWindow p) (take kEcdsaSigLen s, t) (m_pSeenRel p)"
  by (simp_all add: NoteRelaySig_def)

lemma VerifyRelay_marks:
  "\<exists>ms. length ms \<le> 1 \<and> m_nWindow (snd (VerifyRelay cr now p src dst nam body blk cch)) = m_nWindow p
     \<and> m_bRelayReplay (snd (VerifyRelay cr now p src dst nam body blk cch)) = m_bRelayReplay p
     \<and> m_pSeenRel (snd (VerifyRelay cr now p src dst nam body blk cch)) = fold (NoteRelaySig_marks (m_nWindow p)) ms (m_pSeenRel p)
     \<and> list_all (\<lambda>m. snd m = now) ms"
proof -
  obtain r p' where v: "VerifyRelay cr now p src dst nam body blk cch = (r, p')" by (metis prod.exhaust)
  have "p' = p \<or> (\<exists>sig. p' = NoteRelaySig sig now p)"
  proof (cases "CheckRelay cr now p src dst nam body blk")
    case (Pair x sk)
    then show ?thesis using v by (cases x) (auto simp: VerifyRelay_def Let_def split: if_splits)
  qed
  then show ?thesis
  proof
    assume "p' = p"
    then show ?thesis using v by (intro exI [of _ "[]"]) simp
  next
    assume "\<exists>sig. p' = NoteRelaySig sig now p"
    then obtain sig where "p' = NoteRelaySig sig now p" ..
    then show ?thesis using v by (intro exI [of _ "[(take kEcdsaSigLen sig, now)]"]) simp
  qed
qed

lemma relay_run_marks:
  assumes "list_all (\<lambda>a. lo \<le> fst a \<and> fst a \<le> hi) as"
  shows "\<exists>ms. length ms \<le> length as \<and> m_nWindow (relay_run cr as p) = m_nWindow p
     \<and> m_bRelayReplay (relay_run cr as p) = m_bRelayReplay p
     \<and> m_pSeenRel (relay_run cr as p) = fold (NoteRelaySig_marks (m_nWindow p)) ms (m_pSeenRel p)
     \<and> list_all (\<lambda>m. lo \<le> snd m \<and> snd m \<le> hi) ms"
  using assms
proof (induction cr as p rule: relay_run.induct)
  case (1 cr p)
  show ?case by (intro exI [of _ "[]"]) simp
next
  case (2 cr now src dst nam body blk cch as p)
  let ?q = "snd (VerifyRelay cr now p src dst nam body blk cch)"
  obtain ms where m: "length ms \<le> 1" "m_nWindow ?q = m_nWindow p" "m_bRelayReplay ?q = m_bRelayReplay p"
    "m_pSeenRel ?q = fold (NoteRelaySig_marks (m_nWindow p)) ms (m_pSeenRel p)" "list_all (\<lambda>m. snd m = now) ms"
    using VerifyRelay_marks by blast
  obtain ns where n: "length ns \<le> length as" "m_nWindow (relay_run cr as ?q) = m_nWindow ?q"
    "m_bRelayReplay (relay_run cr as ?q) = m_bRelayReplay ?q"
    "m_pSeenRel (relay_run cr as ?q) = fold (NoteRelaySig_marks (m_nWindow ?q)) ns (m_pSeenRel ?q)"
    "list_all (\<lambda>m. lo \<le> snd m \<and> snd m \<le> hi) ns"
    using 2 by auto
  from 2(2) have "lo \<le> now" "now \<le> hi" by simp_all
  with m(5) have "list_all (\<lambda>m. lo \<le> snd m \<and> snd m \<le> hi) ms" by (simp add: list_all_iff)
  with m n show ?case by (intro exI [of _ "ms @ ns"]) simp
qed

text \<open>
  No attestation is accepted twice while the cache has room.  With replays refused and a clock that
  does not run backwards, a block that was accepted is not accepted again as long as fewer than
  \<open>kSeenMax\<close> blocks came in between, whoever attested them and whether or not they were accepted: it is a
  replay, or outside the window.  Without a window the count alone decides.
\<close>

theorem relay_not_replayed:
  assumes "VerifyRelay cr now p src dst nam body blk cch = ((AuthOk, att, sk), p')"
    and "m_bRelayReplay p" and "length as < kSeenMax"
    and "1 < long_bits cr" and "long_bits cr \<le> 64"
    and "list_all (\<lambda>a. now \<le> fst a \<and> fst a \<le> now') as" and "now \<le> now'"
    and "\<bar>now - relay_stamp blk\<bar> < 2 ^ (long_bits cr - 1)" and "\<bar>now' - relay_stamp blk\<bar> < 2 ^ (long_bits cr - 1)"
  shows "fst (fst (VerifyRelay cr now' (relay_run cr as p') src' dst' nam' body' blk cch')) \<noteq> AuthOk"
proof
  let ?w = "m_nWindow p"
  assume "fst (fst (VerifyRelay cr now' (relay_run cr as p') src' dst' nam' body' blk cch')) = AuthOk"
  then obtain att2 sk2 p2 where v2: "VerifyRelay cr now' (relay_run cr as p') src' dst' nam' body' blk cch' = ((AuthOk, att2, sk2), p2)"
    by (metis prod.collapse)
  obtain a sig where c1: "CheckRelay cr now p src dst nam body blk = (Inr (a, sig), sk)" and p': "p' = NoteRelaySig sig now p"
    by (rule VerifyRelay_ok [OF assms(1)]) (use assms(2) in simp)
  obtain ms where r: "length ms \<le> length as" "m_nWindow (relay_run cr as p') = ?w" "m_bRelayReplay (relay_run cr as p')"
    "m_pSeenRel (relay_run cr as p') = fold (NoteRelaySig_marks ?w) ms (NoteRelaySig_marks ?w (take kEcdsaSigLen sig, now) (m_pSeenRel p))"
    "list_all (\<lambda>m. now \<le> snd m \<and> snd m \<le> now') ms"
    using relay_run_marks [OF assms(6), of cr p'] p' assms(2) by auto
  obtain a2 sig2 where c2: "CheckRelay cr now' (relay_run cr as p') src' dst' nam' body' blk = (Inr (a2, sig2), sk2)"
    and unseen: "\<not> SeenRelaySig (relay_run cr as p') sig2"
    by (rule VerifyRelay_ok [OF v2]) (use r(3) in blast)
  define n where "n = push_bit 8 (unat (blk ! kOffRelayAlen)) OR unat (blk ! (kOffRelayAlen + 1))"
  let ?t = "relay_stamp blk"
  have k: "sig = block_at (OffRelaySig n) kEcdsaSigLen blk" "\<not> skew_refused cr ?w (clock_skew cr now ?t)"
    "sig2 = block_at (OffRelaySig n) kEcdsaSigLen blk" "\<not> skew_refused cr ?w (clock_skew cr now' ?t)"
    using CheckRelay_reads [OF c1] CheckRelay_reads [OF c2] r(2) by (simp_all add: n_def relay_stamp_def)
  have "\<bar>now - ?t\<bar> \<le> ?w \<and> \<bar>now' - ?t\<bar> \<le> ?w" if "?w > 0"
  proof -
    have "(2::int) ^ (long_bits cr - 1) \<le> 2 ^ 63" by (rule power_increasing) (use assms(5) in simp_all)
    then have "is_i64 (now - ?t)" "is_i64 (now' - ?t)"
      using assms(8,9) unfolding is_i64_def by linarith+
    then show ?thesis
      using k(2,4) that assms(8,9) skew_refused_exact [OF assms(4,5)] by (metis not_less)
  qed
  then have "?w > 0 \<longrightarrow> now' \<le> now + 2 * ?w" by linarith
  then have "list_all (relay_near ?w (take kEcdsaSigLen sig, now)) ms"
    using r(5) by (auto simp: list_all_iff relay_near_def)
  then have "(take kEcdsaSigLen sig, now) \<in> set (m_pSeenRel (relay_run cr as p'))"
    using relays.replay_refused [of ms ?w "(take kEcdsaSigLen sig, now)"] r(1,4) assms(3) by (simp add: fits_def)
  then have "SeenRelaySig (relay_run cr as p') sig" by (auto simp: SeenRelaySig_def list_ex_iff)
  then show False using unseen k(1,3) by simp
qed

theorem relay_not_replayed_witness:
  "\<exists>blk sig. VerifyRelay (example_crypto (\<lambda>m. True)) 110 example_hub [65] [66] None [1, 2] blk 10
       = ((AuthOk, Some [65], 10), NoteRelaySig sig 110 example_hub)
     \<and> fst (fst (VerifyRelay (example_crypto (\<lambda>m. True)) 130
          (relay_run (example_crypto (\<lambda>m. True)) [(120, [65], [66], None, [], [], 9)] (NoteRelaySig sig 110 example_hub))
          [65] [66] None [1, 2] blk 10)) \<noteq> AuthOk"
proof -
  let ?cr = "example_crypto (\<lambda>m. True)"
  obtain tr where tr: "RelayTranscript (Sha256 ?cr) True [65] [65] [66] None [1, 2] 100 = Some tr"
    by (rule example_relay_signed)
  obtain blk sig where v: "VerifyRelay ?cr 110 example_hub [65] [66] None [1, 2] blk 10 = ((AuthOk, Some [65], 10), NoteRelaySig sig 110 example_hub)"
    and st: "relay_stamp blk = 100"
    using example_relay [OF tr, of "\<lambda>m. True"] by blast
  have "fst (fst (VerifyRelay ?cr 130
          (relay_run ?cr [(120, [65], [66], None, [], [], 9)] (NoteRelaySig sig 110 example_hub)) [65] [66] None [1, 2] blk 10)) \<noteq> AuthOk"
    by (rule relay_not_replayed [OF v]) (simp_all add: example_hub_def policy_new_def kSeenMax_def st)
  with v show ?thesis by blast
qed

end
