(* ===== verification/SealPolicy.thy ===== *)
theory SealPolicy
  imports LoginRelay
begin

text \<open>
  \<open>AuthPolicy::Seal\<close> and \<open>AuthPolicy::Open\<close> (P2PAuthLogin.cpp): which readers a body is sealed for, whose
  keys it is opened under, the freshness window, and the ring of signatures with its floor that refuses
  a body opened before.
\<close>

subsection \<open>The ring of opened bodies\<close>

text \<open>The marks, the next slot to overwrite once full, and the floor.\<close>

type_synonym seal_ring = "mark list \<times> nat \<times> int"

definition ring_note :: "mark \<Rightarrow> seal_ring \<Rightarrow> seal_ring" where
  "ring_note m c =
     (case c of (v, nNext, llFloor) \<Rightarrow>
        if length v < kSeenMax then (v @ [m], 0, llFloor)
        else (let i = (if nNext \<ge> kSeenMax then 0 else nNext);
                  llEvicted = snd (v ! i)
              in (v[i := m], Suc i, if llEvicted > llFloor then llEvicted else llFloor)))"

definition ring_of :: "policy \<Rightarrow> seal_ring" where
  "ring_of p = (m_pSeenSeal p, m_nSealNext p, m_llSealFloor p)"

definition NoteSealSig :: "bytes \<Rightarrow> int \<Rightarrow> policy \<Rightarrow> policy" where
  "NoteSealSig pSig llWhen p =
     (case ring_note (take kEcdsaSigLen pSig, llWhen) (ring_of p) of
        (v, nNext, llFloor) \<Rightarrow> p\<lparr>m_pSeenSeal := v, m_nSealNext := nNext, m_llSealFloor := llFloor\<rparr>)"

definition SeenSealSig :: "policy \<Rightarrow> bytes \<Rightarrow> bool" where
  "SeenSealSig p pSig = list_ex (\<lambda>(k, t). k = take kEcdsaSigLen pSig) (m_pSeenSeal p)"

text \<open>A noted mark stays in the ring, or the floor has reached its stamp.\<close>

definition ring_guards :: "mark \<Rightarrow> seal_ring \<Rightarrow> bool" where
  "ring_guards m c \<longleftrightarrow> (case c of (v, nNext, llFloor) \<Rightarrow> m \<in> set v \<or> snd m \<le> llFloor)"

lemma ring_guards_step: "ring_guards m c \<Longrightarrow> ring_guards m (ring_note m' c)"
proof -
  obtain v i f where c: "c = (v, i, f)" by (cases c)
  define j where "j = (if i \<ge> kSeenMax then 0 else i)"
  assume g: "ring_guards m c"
  show ?thesis
  proof (cases "length v < kSeenMax")
    case True
    with g show ?thesis by (auto simp: ring_guards_def ring_note_def c)
  next
    case False
    have j: "j < length v" using False by (auto simp: j_def kSeenMax_def)
    have "m \<in> set v \<Longrightarrow> m = v ! j \<or> m \<in> set (v[j := m'])"
      using j by (metis in_set_conv_nth length_list_update nth_list_update_neq)
    with g False show ?thesis
      by (auto simp: ring_guards_def ring_note_def c Let_def j_def [symmetric])
  qed
qed

interpretation seals: replay_cache ring_note "\<lambda>c m. ring_guards m c" "\<lambda>n. ring_guards" "\<lambda>m m'. True" None
proof unfold_locales
  fix m :: mark and c
  show "ring_guards m (ring_note m c)"
    by (cases c) (auto simp: ring_guards_def ring_note_def Let_def kSeenMax_def intro: set_update_memI)
qed (simp_all add: ring_guards_step)

subsection \<open>Sealing\<close>

text \<open>The further readers of a hub's policy: their agreement keys, each once.\<close>

fun collect_readers :: "crypto \<Rightarrow> int \<Rightarrow> policy \<Rightarrow> wstr list \<Rightarrow> bytes list \<Rightarrow> SealResult + bytes list" where
  "collect_readers cr now p [] aReaders = Inr aReaders"
| "collect_readers cr now p (pName # ns) aReaders =
     (case FindAgreement cr now p pName of
        None \<Rightarrow>
          if \<not> IsRevocationUsable p now then Inl SealErrRevoked
          else Inl (if snd (PeerKeyCount cr now p pName) then SealErrRevoked else SealErrNoAgreement)
      | Some aOne \<Rightarrow>
          if aOne \<in> set aReaders then collect_readers cr now p ns aReaders
          else if length aReaders \<ge> kSealMaxReaders then Inl SealErrReaders
          else collect_readers cr now p ns (aReaders @ [aOne]))"

definition AuthSeal ::
  "crypto \<Rightarrow> int \<Rightarrow> bytes option \<Rightarrow> bytes option \<Rightarrow> policy \<Rightarrow> wstr \<Rightarrow> wstr \<Rightarrow> bytes \<Rightarrow> nat \<Rightarrow> int \<Rightarrow> SealResult + bytes" where
  "AuthSeal cr now eph cek p pSrc pDst pPlain cbOut llWhen =
     (case m_pIdentity p of None \<Rightarrow> Inl SealErrNoIdentity
      | Some key \<Rightarrow>
        (case FindAgreement cr now p pDst of
           None \<Rightarrow>
             if \<not> IsRevocationUsable p now then Inl SealErrRevoked
             else if snd (PeerKeyCount cr now p pDst) then Inl SealErrRevoked
             else Inl SealErrNoAgreement
         | Some agree \<Rightarrow>
             (case collect_readers cr now p (m_pSealReaders p) [agree] of
                Inl e \<Rightarrow> Inl e
              | Inr aReaders \<Rightarrow> SealTo cr now eph cek key aReaders pSrc pDst pPlain cbOut llWhen)))"

subsection \<open>Opening\<close>

text \<open>Why a body that opened is refused after all.\<close>

definition open_refusal :: "int \<Rightarrow> policy \<Rightarrow> bytes \<Rightarrow> int \<Rightarrow> SealResult option" where
  "open_refusal now p pSig llWhen =
     (if m_nSealWindow p > 0 \<and> (if now > llWhen then now - llWhen else llWhen - now) > m_nSealWindow p then Some SealErrStale
      else if m_bSealReplay p then
        (if m_llSealFloor p \<noteq> 0 \<and> llWhen < m_llSealFloor p then Some SealErrReplay
         else if SeenSealSig p pSig then Some SealErrReplay
         else None)
      else None)"

text \<open>The loop over the sender's keys, \<open>k\<close> rounds from index \<open>i\<close>; \<open>eFirst\<close> is the answer when none fits.\<close>

fun open_from ::
  "crypto \<Rightarrow> int \<Rightarrow> policy \<Rightarrow> bytes \<Rightarrow> wstr \<Rightarrow> wstr \<Rightarrow> bytes \<Rightarrow> nat \<Rightarrow> SealResult \<Rightarrow> nat \<Rightarrow> nat
   \<Rightarrow> (SealResult + bytes) \<times> policy" where
  "open_from cr now p agree pSrc pDst pIn cbOut eFirst i 0 = (Inl eFirst, p)"
| "open_from cr now p agree pSrc pDst pIn cbOut eFirst i (Suc k) =
     (case PeerKeyAt cr now p pSrc i of None \<Rightarrow> (Inl eFirst, p)
      | Some sender \<Rightarrow>
          (case Open cr agree sender pSrc pDst pIn cbOut of
             Inr (plain, llWhen) \<Rightarrow>
               (let pSig = drop (length pIn - kSealSigLen) pIn in
                case open_refusal now p pSig llWhen of
                  Some e \<Rightarrow> (Inl e, p)
                | None \<Rightarrow> (Inr plain, if m_bSealReplay p then NoteSealSig pSig llWhen p else p))
           | Inl e \<Rightarrow>
               if e \<noteq> SealErrSignature then (Inl e, p)
               else open_from cr now p agree pSrc pDst pIn cbOut (if i = 0 then e else eFirst) (Suc i) k))"

definition AuthOpen ::
  "crypto \<Rightarrow> int \<Rightarrow> policy \<Rightarrow> wstr \<Rightarrow> wstr \<Rightarrow> bytes \<Rightarrow> nat \<Rightarrow> (SealResult + bytes) \<times> policy" where
  "AuthOpen cr now p pSrc pDst pIn cbOut =
     (case m_pAgreement p of None \<Rightarrow> (Inl SealErrNoAgreement, p)
      | Some agree \<Rightarrow>
        (case PeerKeyCount cr now p pSrc of (nLive, bAllRevoked) \<Rightarrow>
           if bAllRevoked then (Inl SealErrRevoked, p)
           else if \<not> IsRevocationUsable p now then (Inl SealErrRevoked, p)
           else if nLive = 0 then (Inl SealErrNoIdentity, p)
           else open_from cr now p agree pSrc pDst pIn cbOut SealErrSignature 0 nLive))"

subsection \<open>Whom a body is sealed for\<close>

lemma collect_readers_result:
  assumes "collect_readers cr now p ns rs = Inr rs'" and "distinct rs" and "length rs \<le> kSealMaxReaders"
  shows "distinct rs' \<and> length rs' \<le> kSealMaxReaders
    \<and> set rs' = set rs \<union> {k. \<exists>n \<in> set ns. FindAgreement cr now p n = Some k}
    \<and> (\<forall>n \<in> set ns. FindAgreement cr now p n \<noteq> None)"
  using assms
proof (induction cr now p ns rs rule: collect_readers.induct)
  case (2 cr now p n ns rs)
  then obtain k where k: "FindAgreement cr now p n = Some k" by (auto split: option.splits if_splits)
  show ?case
  proof (cases "k \<in> set rs")
    case True
    with 2 k show ?thesis by auto
  next
    case False
    with 2 k show ?thesis by (auto split: if_splits)
  qed
qed auto

lemma agreement_from_listed:
  "agreement_from p now a es = Some k \<Longrightarrow> \<exists>e \<in> set es. al_identity e = a \<and> al_agree e = Some k \<and> \<not> IsRevokedPoint p now k"
  by (induction es) (auto split: if_splits option.splits)

lemma FindAgreement_listed: "FindAgreement cr now p n = Some k \<Longrightarrow> \<exists>e \<in> set (m_pAllow p). al_agree e = Some k \<and> \<not> IsRevokedPoint p now k"
  using agreement_from_listed by (fastforce simp: FindAgreement_def split: option.splits)

lemma FindAgreement_agreed: "FindAgreement cr now p n = Some k \<Longrightarrow> k \<in> set (List.map_filter al_agree (m_pAllow p))"
proof -
  assume "FindAgreement cr now p n = Some k"
  then obtain e where "e \<in> set (m_pAllow p)" "al_agree e = Some k" using FindAgreement_listed by blast
  then show ?thesis by (force simp: List.map_filter_def image_iff)
qed

lemma AuthSeal_parts:
  assumes "AuthSeal cr now eph cek p src dst plain cb when = Inr blob"
  obtains key rdrs where "m_pIdentity p = Some key" and "SealTo cr now eph cek key rdrs src dst plain cb when = Inr blob"
    and "set rdrs = {k. \<exists>n \<in> set (dst # m_pSealReaders p). FindAgreement cr now p n = Some k}"
    and "\<forall>n \<in> set (dst # m_pSealReaders p). FindAgreement cr now p n \<noteq> None"
proof -
  obtain key agree rdrs where k: "m_pIdentity p = Some key" "FindAgreement cr now p dst = Some agree"
    "collect_readers cr now p (m_pSealReaders p) [agree] = Inr rdrs" "SealTo cr now eph cek key rdrs src dst plain cb when = Inr blob"
    using assms by (auto simp: AuthSeal_def split: option.splits if_splits sum.splits)
  have "set rdrs = set [agree] \<union> {k. \<exists>n \<in> set (m_pSealReaders p). FindAgreement cr now p n = Some k}"
    and "\<forall>n \<in> set (m_pSealReaders p). FindAgreement cr now p n \<noteq> None"
    using collect_readers_result [OF k(3)] by (simp_all add: kSealMaxReaders_def)
  then show thesis using k(1,2,4) by (intro that [of key rdrs]) auto
qed

subsection \<open>End to end\<close>

text \<open>Another key of the sender either opens the body to the same plaintext or does not verify it.\<close>

lemma Open_v2_other_key:
  assumes "Open cr r sp src dst p cb = Inr (plain, t)" and "p ! 0 = kSealVersion" and "EcdsaImportOk cr sp'"
  shows "Open cr r sp' src dst p cb = Inr (plain, t) \<or> Open cr r sp' src dst p cb = Inl SealErrSignature"
proof -
  have "OpenV2 cr r sp src dst p cb = Inr (plain, t)" using assms(1,2) by (simp add: Open_def split: if_splits)
  then have n: "0 < SealReaderCount p" "\<not> cb < length p - SealOverhead (SealReaderCount p)"
    by (auto simp: OpenV2_def Let_def split: if_splits)
  have f: "OpenV2_fields cr r sp' src dst ver w eph n sl b sg m = Inr (plain, t) \<or> OpenV2_fields cr r sp' src dst ver w eph n sl b sg m = Inl SealErrSignature"
    if ok: "OpenV2_fields cr r sp src dst ver w eph n sl b sg m = Inr (plain, t)" for ver w eph n sl b sg m
  proof -
    obtain tr where tr: "TranscriptV2 (wchar4 cr) kLabelSig src dst ver w eph n
        (concat (map (\<lambda>r. block_at (r * kSealSlotLen) kSealRTagLen sl) [0..<n])) None b = Some tr"
      using ok by (auto simp: OpenV2_fields_def Let_def passes)
    have "EcdsaImportOk cr sp" "EcdsaVerify cr sp (AppendField tr sl) sg"
      using ok tr by (auto simp: OpenV2_fields_def Let_def passes)
    with ok assms(3) show ?thesis
      by (cases "EcdsaVerify cr sp' (AppendField tr sl) sg") (simp_all add: OpenV2_fields_def Let_def tr or_fail_def)
  qed
  have "length p \<ge> kSealVerLen" using assms(1) by (auto simp: Open_def split: if_splits)
  with f assms(1,2) n show ?thesis by (simp add: Open_def OpenV2_def Let_def)
qed

lemma Open_stamp:
  assumes "Open cr r sp src dst p cb = Inr (plain, t)"
  shows "t = GetTime (drop kSealVerLen p)"
  using assms
  by (auto simp: Open_def OpenV1_def OpenV2_def OpenV2_fields_def Let_def passes split: if_splits)

definition opened :: "int \<Rightarrow> policy \<Rightarrow> bytes \<Rightarrow> bytes \<Rightarrow> int \<Rightarrow> (SealResult + bytes) \<times> policy" where
  "opened now p blob plain t =
     (let sig = drop (length blob - kSealSigLen) blob in
      case open_refusal now p sig t of
        Some e \<Rightarrow> (Inl e, p)
      | None \<Rightarrow> (Inr plain, if m_bSealReplay p then NoteSealSig sig t p else p))"

lemma open_from_finds:
  assumes a: "Utf8FromWide (wchar4 cr) src = Some a" and "\<forall>K \<in> set (live_keys p now a). EcdsaImportOk cr K"
    and K: "live_keys p now a ! j = K" and o: "Open cr r K src dst blob cb = Inr (plain, t)" and v: "blob ! 0 = kSealVersion"
    and "i \<le> j" and "j < i + k" and "i + k = length (live_keys p now a)"
  shows "open_from cr now p r src dst blob cb e0 i k = opened now p blob plain t"
  using assms(6-8)
proof (induction k arbitrary: i e0)
  case (Suc k)
  have l: "i < length (live_keys p now a)" using Suc.prems by simp
  then have imp: "EcdsaImportOk cr (live_keys p now a ! i)" using assms(2) by simp
  from Open_v2_other_key [OF o v imp] show ?case
  proof
    assume "Open cr r (live_keys p now a ! i) src dst blob cb = Inr (plain, t)"
    then show ?thesis using l by (simp add: PeerKeyAt_live [OF a] opened_def)
  next
    assume s: "Open cr r (live_keys p now a ! i) src dst blob cb = Inl SealErrSignature"
    then have "i \<noteq> j" using K o by auto
    then have "open_from cr now p r src dst blob cb (if i = 0 then SealErrSignature else e0) (Suc i) k = opened now p blob plain t"
      using Suc by simp
    with s l show ?thesis by (simp add: PeerKeyAt_live [OF a])
  qed
qed simp

lemma AuthOpen_trusted:
  assumes "m_pAgreement pr = Some r" and "trusts cr now pr src K"
    and op: "Open cr r K src dst blob cbOut = Inr (plain, t)" and v: "blob ! 0 = kSealVersion"
  shows "AuthOpen cr now pr src dst blob cbOut =
    (if IsRevocationUsable pr now then opened now pr blob plain t else (Inl SealErrRevoked, pr))"
proof -
  obtain a where a: "Utf8FromWide (wchar4 cr) src = Some a" and "K \<in> set (live_keys pr now a)"
    and imp: "\<forall>K \<in> set (live_keys pr now a). EcdsaImportOk cr K"
    using assms(2) by (auto simp: trusts_def live_keys_def list_all_iff split: option.splits)
  then obtain j where j: "j < length (live_keys pr now a)" "live_keys pr now a ! j = K" by (auto simp: in_set_conv_nth)
  then have "live_keys pr now a \<noteq> []" by auto
  with open_from_finds [OF a imp j(2) op v, of 0 "length (live_keys pr now a)"] j(1) show ?thesis
    by (auto simp: AuthOpen_def assms(1) PeerKeyCount_live [OF a])
qed

text \<open>A hub that seals for one reader, and the reader, at a concrete point of the library.\<close>

definition example_sealer :: policy where
  "example_sealer = policy_new\<lparr>m_pIdentity := Some (replicate 64 4),
     m_pAllow := [\<lparr>al_identity = [66], al_pub = replicate 64 8, al_agree = Some (replicate 64 3)\<rparr>]\<rparr>"

definition example_opener :: policy where
  "example_opener = policy_new\<lparr>m_pAgreement := Some (replicate 64 3), m_bSealReplay := True, m_nSealWindow := 0,
     m_pAllow := [\<lparr>al_identity = [65], al_pub = replicate 64 4, al_agree = None\<rparr>]\<rparr>"

lemma example_opener_trusts: "trusts (example_crypto V) now example_opener [65] (replicate 64 4)"
  by (simp add: trusts_def live_keys_def example_opener_def policy_new_def IsRevokedPoint_def del: Utf8FromWide.simps)

lemma example_agreement: "FindAgreement (example_crypto V) now example_sealer [66] = Some (replicate 64 3)"
  by (simp add: FindAgreement_def example_sealer_def policy_new_def IsRevokedPoint_def IsRevocationUsable_def del: Utf8FromWide.simps)

lemma example_sealed:
  obtains blob where "AuthSeal (example_crypto (\<lambda>m. True)) 0 (Some (replicate 64 2)) (Some (replicate 32 1)) example_sealer
    [65] [66] [1, 2] 400 7 = Inr blob"
proof -
  obtain pre msg where "\<And>V. SealUnsigned (example_crypto V) 0 (Some (replicate 64 2)) (Some (replicate 32 1)) [replicate 64 3]
      [65] [66] [1, 2] 400 7 = Inr (pre, msg)"
    using example_unsigned by blast
  then have "AuthSeal (example_crypto (\<lambda>m. True)) 0 (Some (replicate 64 2)) (Some (replicate 32 1)) example_sealer
    [65] [66] [1, 2] 400 7 = Inr (pre @ replicate 64 4)"
    unfolding AuthSeal_def example_agreement by (simp add: SealTo_split example_sealer_def policy_new_def)
  then show thesis by (rule that)
qed

lemma example_blob_opens:
  obtains blob where "Open (example_crypto (\<lambda>m. True)) (replicate 64 3) (replicate 64 4) [65] [66] blob 5 = Inr ([1, 2], 7)"
    and "blob ! 0 = kSealVersion"
proof -
  let ?cr = "example_crypto (\<lambda>m. True)"
  obtain blob where b: "AuthSeal ?cr 0 (Some (replicate 64 2)) (Some (replicate 32 1)) example_sealer [65] [66] [1, 2] 400 7 = Inr blob"
    by (rule example_sealed)
  then have s: "SealTo ?cr 0 (Some (replicate 64 2)) (Some (replicate 32 1)) (replicate 64 4) [replicate 64 3] [65] [66] [1, 2] 400 7 = Inr blob"
    unfolding AuthSeal_def example_agreement by (simp add: example_sealer_def policy_new_def)
  have "Open ?cr (replicate 64 3) (replicate 64 4) [65] [66] blob 5 = Inr ([1, 2], seal_time 0 7) \<and> SealReaderCount blob = 1"
    using SealTo_opens [OF example_crypto_ok _ s, of "replicate 64 4" "replicate 64 3" "replicate 64 3" "replicate 64 2" 5]
    by (simp add: tags_separate_def seal_sizes seal_time_def is_i64_def)
  moreover from this have "blob ! 0 = kSealVersion"
    by (auto simp: SealReaderCount_def split: if_splits)
  ultimately show thesis by (intro that) (simp_all add: seal_time_def)
qed

lemma sealed_body_opens:
  assumes "crypto_ok cr" and "m_pIdentity pa = Some k" and "EcdsaPublic cr k = Some K"
    and "AuthSeal cr t (Some e) (Some cek) pa src dst plain cb when = Inr blob"
    and "length cek = kSealCekLen" and "EcdhPublic cr e = Some eph" and "is_i64 (seal_time t when)"
    and "tags_separate cr eph (List.map_filter al_agree (m_pAllow pa))"
    and "m_pAgreement pr = Some r" and "EcdhPublic cr r = Some rp"
    and "n \<in> set (dst # m_pSealReaders pa)" and "FindAgreement cr t pa n = Some rp"
    and "trusts cr now pr src K" and "length plain \<le> cbOut"
  shows "AuthOpen cr now pr src dst blob cbOut =
    (if IsRevocationUsable pr now then opened now pr blob plain (seal_time t when) else (Inl SealErrRevoked, pr))"
proof -
  obtain key rdrs where s: "m_pIdentity pa = Some key" "SealTo cr t (Some e) (Some cek) key rdrs src dst plain cb when = Inr blob"
    "set rdrs = {k. \<exists>n \<in> set (dst # m_pSealReaders pa). FindAgreement cr t pa n = Some k}"
    by (rule AuthSeal_parts [OF assms(4)])
  have key: "key = k" using s(1) assms(2) by simp
  have rp: "rp \<in> set rdrs" using s(3) assms(11,12) by blast
  have "set rdrs \<subseteq> set (List.map_filter al_agree (m_pAllow pa))"
    unfolding s(3) using FindAgreement_agreed by auto
  then have sep: "tags_separate cr eph rdrs" using assms(8) unfolding tags_separate_def by blast
  have op: "Open cr r K src dst blob cbOut = Inr (plain, seal_time t when)" and cnt: "SealReaderCount blob = length rdrs"
    using SealTo_opens [OF assms(1,3) s(2) [unfolded key] assms(10) rp assms(6) sep assms(5,7,14)] by simp_all
  have "SealReaderCount blob \<noteq> 0" using cnt rp by auto
  then have v: "blob ! 0 = kSealVersion" by (rule contrapos_np) (simp add: SealReaderCount_def)
  show ?thesis by (rule AuthOpen_trusted [OF assms(9,13) op v])
qed

text \<open>
  C11: A sealed body reaches its readers.  When one hub seals a body for a destination, every hub that
  holds the agreement key the sender lists for the destination or for one of its further readers, and
  that trusts the sender's identity key, opens it to the same plaintext under the same route, whatever
  other keys the sender has, unless it refuses it as stale or as a replay; a hub whose revocation list
  is unusable refuses.
\<close>

theorem body_end_to_end:
  assumes "crypto_ok cr" and "m_pIdentity pa = Some k" and "EcdsaPublic cr k = Some K"
    and "AuthSeal cr t (Some e) (Some cek) pa src dst plain cb when = Inr blob"
    and "length cek = kSealCekLen" and "EcdhPublic cr e = Some eph" and "is_i64 (seal_time t when)"
    and "tags_separate cr eph (List.map_filter al_agree (m_pAllow pa))"
    and "m_pAgreement pr = Some r" and "EcdhPublic cr r = Some rp"
    and "n \<in> set (dst # m_pSealReaders pa)" and "FindAgreement cr t pa n = Some rp"
    and "trusts cr now pr src K" and "length plain \<le> cbOut"
  shows "AuthOpen cr now pr src dst blob cbOut =
    (if IsRevocationUsable pr now then opened now pr blob plain (seal_time t when) else (Inl SealErrRevoked, pr))"
  by (rule sealed_body_opens [OF assms])

theorem body_end_to_end_witness:
  "\<exists>blob. AuthSeal (example_crypto (\<lambda>m. True)) 0 (Some (replicate 64 2)) (Some (replicate 32 1)) example_sealer
      [65] [66] [1, 2] 400 7 = Inr blob
    \<and> fst (AuthOpen (example_crypto (\<lambda>m. True)) 0 example_opener [65] [66] blob 5) = Inr [1, 2]"
proof -
  let ?cr = "example_crypto (\<lambda>m. True)" and ?e = "replicate 64 (2::byte)" and ?k = "replicate 32 (1::byte)"
    and ?r = "replicate 64 (3::byte)" and ?s = "replicate 64 (4::byte)"
  obtain blob where b: "AuthSeal ?cr 0 (Some ?e) (Some ?k) example_sealer [65] [66] [1, 2] 400 7 = Inr blob"
    by (rule example_sealed)
  have "AuthOpen ?cr 0 example_opener [65] [66] blob 5 =
    (if IsRevocationUsable example_opener 0 then opened 0 example_opener blob [1, 2] (seal_time 0 7) else (Inl SealErrRevoked, example_opener))"
    by (rule body_end_to_end [OF example_crypto_ok _ _ b _ _ _ _ _ _ _ example_agreement example_opener_trusts, where k = ?s and eph = ?e and r = ?r])
       (simp_all add: example_sealer_def example_opener_def policy_new_def tags_separate_def List.map_filter_def
         kSealCekLen_def seal_time_def is_i64_def)
  moreover have "fst (opened 0 example_opener blob [1, 2] (seal_time 0 7)) = Inr [1, 2]" "IsRevocationUsable example_opener 0"
    by (simp_all add: opened_def Let_def open_refusal_def example_opener_def policy_new_def SeenSealSig_def IsRevocationUsable_def)
  ultimately show ?thesis using b by auto
qed

subsection \<open>No body is opened twice\<close>

text \<open>Bodies that arrive one after the other, at the times of the clock: the policy after them.\<close>

type_synonym open_attempt = "int \<times> wstr \<times> wstr \<times> bytes \<times> nat"

fun open_run :: "crypto \<Rightarrow> open_attempt list \<Rightarrow> policy \<Rightarrow> policy" where
  "open_run cr [] p = p"
| "open_run cr ((now, src, dst, blob, cb) # as) p = open_run cr as (snd (AuthOpen cr now p src dst blob cb))"

lemma ring_of_note: "ring_of (NoteSealSig sig t p) = ring_note (take kEcdsaSigLen sig, t) (ring_of p)"
  by (simp add: NoteSealSig_def ring_of_def split: prod.splits)

lemma m_bSealReplay_note [simp]: "m_bSealReplay (NoteSealSig sig t p) = m_bSealReplay p"
  by (simp add: NoteSealSig_def split: prod.splits)

definition ring_after :: "policy \<Rightarrow> policy \<Rightarrow> bool" where
  "ring_after p q \<longleftrightarrow> m_bSealReplay q = m_bSealReplay p \<and> (\<exists>ms. ring_of q = fold ring_note ms (ring_of p))"

lemma ring_after_refl: "ring_after p p"
  unfolding ring_after_def by (intro conjI exI [of _ "[]"]) simp_all

lemma ring_after_note: "ring_after p (NoteSealSig sig t p)"
  unfolding ring_after_def by (intro conjI exI [of _ "[(take kEcdsaSigLen sig, t)]"]) (simp_all add: ring_of_note)

lemma ring_after_trans:
  assumes "ring_after p q" and "ring_after q r"
  shows "ring_after p r"
proof -
  obtain ms ns where "m_bSealReplay q = m_bSealReplay p" "ring_of q = fold ring_note ms (ring_of p)"
    "m_bSealReplay r = m_bSealReplay q" "ring_of r = fold ring_note ns (ring_of q)"
    using assms unfolding ring_after_def by blast
  then show ?thesis unfolding ring_after_def by (intro conjI exI [of _ "ms @ ns"]) simp_all
qed

lemma open_from_ring: "ring_after p (snd (open_from cr now p agree src dst blob cb e i k))"
proof (induction k arbitrary: e i)
  case (Suc k)
  show ?case
  proof (cases "PeerKeyAt cr now p src i")
    case (Some K)
    show ?thesis
    proof (cases "Open cr agree K src dst blob cb")
      case (Inl er)
      with Some Suc.IH show ?thesis by (simp add: ring_after_refl)
    next
      case (Inr b)
      obtain q u where b: "b = (q, u)" by (cases b)
      show ?thesis
        by (cases "open_refusal now p (drop (length blob - kSealSigLen) blob) u")
           (simp_all add: Some Inr b Let_def ring_after_refl ring_after_note)
    qed
  qed (simp add: ring_after_refl)
qed (simp add: ring_after_refl)

lemma AuthOpen_ring: "ring_after p (snd (AuthOpen cr now p src dst blob cb))"
  by (simp add: AuthOpen_def ring_after_refl open_from_ring split: option.split prod.split)

lemma open_run_ring: "ring_after p (open_run cr as p)"
proof (induction cr as p rule: open_run.induct)
  case (2 cr now src dst blob cb as p)
  then show ?case using ring_after_trans [OF AuthOpen_ring] by simp
qed (simp add: ring_after_refl)

lemma open_from_accepts:
  assumes "open_from cr now p agree src dst blob cb e i k = (Inr plain, p')"
  defines "t \<equiv> GetTime (drop kSealVerLen blob)" and "sig \<equiv> drop (length blob - kSealSigLen) blob"
  shows "open_refusal now p sig t = None \<and> p' = (if m_bSealReplay p then NoteSealSig sig t p else p)"
  using assms(1)
proof (induction k arbitrary: e i)
  case (Suc k)
  obtain K where K: "PeerKeyAt cr now p src i = Some K" using Suc.prems by (auto split: option.splits)
  show ?case
  proof (cases "Open cr agree K src dst blob cb")
    case (Inl er)
    with Suc K show ?thesis by (auto split: if_splits)
  next
    case (Inr b)
    obtain q u where b: "b = (q, u)" by (cases b)
    have "u = t" using Open_stamp Inr b by (metis t_def)
    with Suc.prems K Inr b show ?thesis by (auto simp: Let_def sig_def split: option.splits)
  qed
qed simp

lemma AuthOpen_accepts:
  assumes "AuthOpen cr now p src dst blob cb = (Inr plain, p')"
  defines "t \<equiv> GetTime (drop kSealVerLen blob)" and "sig \<equiv> drop (length blob - kSealSigLen) blob"
  shows "open_refusal now p sig t = None" and "p' = (if m_bSealReplay p then NoteSealSig sig t p else p)"
proof -
  obtain a n where "open_from cr now p a src dst blob cb SealErrSignature 0 n = (Inr plain, p')"
    using assms(1) by (auto simp: AuthOpen_def split: option.splits prod.splits if_splits)
  then show "open_refusal now p sig t = None" and "p' = (if m_bSealReplay p then NoteSealSig sig t p else p)"
    unfolding t_def sig_def using open_from_accepts by blast+
qed

text \<open>
  No body is opened twice.  With replay refusal on, once a hub opens a body it refuses every body
  with the same signature and timestamp from then on, however many others arrive in between, from whom,
  and although only the latest few thousand signatures are kept: a signature that has been pushed out
  has left its timestamp in the floor.  The one exception is a body whose timestamp is exactly the
  floor, which is opened again once its signature has been pushed out.
\<close>

theorem seal_not_replayed:
  assumes "AuthOpen cr now p src dst blob cb = (Inr plain, p')" and "m_bSealReplay p"
    and "drop (length blob' - kSealSigLen) blob' = drop (length blob - kSealSigLen) blob"
    and "GetTime (drop kSealVerLen blob') = GetTime (drop kSealVerLen blob)"
    and "GetTime (drop kSealVerLen blob) > 0" and "m_llSealFloor (open_run cr as p') \<noteq> GetTime (drop kSealVerLen blob)"
  shows "fst (AuthOpen cr now' (open_run cr as p') src' dst' blob' cb') \<noteq> Inr plain'"
proof
  let ?t = "GetTime (drop kSealVerLen blob)" and ?s = "drop (length blob - kSealSigLen) blob" and ?q = "open_run cr as p'"
  assume "fst (AuthOpen cr now' ?q src' dst' blob' cb') = Inr plain'"
  then obtain p2 where a: "AuthOpen cr now' ?q src' dst' blob' cb' = (Inr plain', p2)" by (metis prod.collapse)
  have p': "ring_of p' = ring_note (take kEcdsaSigLen ?s, ?t) (ring_of p)" "m_bSealReplay p'"
    using AuthOpen_accepts(2) [OF assms(1)] assms(2) by (simp_all add: ring_of_note)
  obtain ms where r: "m_bSealReplay ?q" "ring_of ?q = fold ring_note ms (ring_note (take kEcdsaSigLen ?s, ?t) (ring_of p))"
    using open_run_ring [of p' cr as] p' by (auto simp: ring_after_def)
  have "ring_guards (take kEcdsaSigLen ?s, ?t) (ring_of ?q)"
    unfolding r(2) by (rule seals.replay_refused) (simp_all add: fits_def list_all_iff)
  moreover have "open_refusal now' ?q ?s ?t = None"
    using AuthOpen_accepts(1) [OF a] assms(3,4) by simp
  ultimately show False
    using r(1) assms(5,6)
    by (auto simp: open_refusal_def ring_guards_def ring_of_def SeenSealSig_def list_ex_iff split: if_splits)
qed

lemma short_body_kept: "snd (open_from cr now p a src dst [] cb e i k) = p"
  by (cases k) (simp_all add: Open_def kSealVerLen_def split: option.split)

lemma empty_body_kept: "snd (AuthOpen cr now p src dst [] cb) = p"
  by (simp add: AuthOpen_def short_body_kept split: option.split prod.split)

theorem seal_not_replayed_witness:
  "\<exists>blob p. AuthOpen (example_crypto (\<lambda>m. True)) 0 example_opener [65] [66] blob 5 = (Inr [1, 2], p)
    \<and> fst (AuthOpen (example_crypto (\<lambda>m. True)) 1 (open_run (example_crypto (\<lambda>m. True)) [(0, [65], [66], [], 5)] p) [65] [66] blob 5)
        \<noteq> Inr [1, 2]"
proof -
  let ?cr = "example_crypto (\<lambda>m. True)" and ?r = "replicate 64 (3::byte)" and ?s = "replicate 64 (4::byte)"
  obtain blob where b: "Open ?cr ?r ?s [65] [66] blob 5 = Inr ([1, 2], 7)" "blob ! 0 = kSealVersion"
    by (rule example_blob_opens)
  define p where "p = NoteSealSig (drop (length blob - kSealSigLen) blob) 7 example_opener"
  have o: "AuthOpen ?cr 0 example_opener [65] [66] blob 5 = (Inr [1, 2], p)"
    using AuthOpen_trusted [OF _ example_opener_trusts b, of 0]
    by (simp add: example_opener_def policy_new_def opened_def open_refusal_def SeenSealSig_def IsRevocationUsable_def Let_def p_def)
  have t: "GetTime (drop kSealVerLen blob) = 7" using Open_stamp [OF b(1)] by simp
  have "fst (AuthOpen ?cr 1 (open_run ?cr [(0, [65], [66], [], 5)] p) [65] [66] blob 5) \<noteq> Inr [1, 2]"
    by (rule seal_not_replayed [OF o])
       (simp_all add: empty_body_kept t, simp_all add: p_def example_opener_def policy_new_def NoteSealSig_def ring_of_def ring_note_def kSeenMax_def)
  with o show ?thesis by blast
qed

end
