(* ===== verification/ConQueue.thy ===== *)
theory ConQueue
  imports MsgQue PeerMsg
begin

text \<open>
  The outgoing side of a connection (P2PeerCon.cpp): the queue of messages that wait to be sent, how
  application and handshake messages enter it, and what a connection that has not logged in lets out.
  The operations run under the lock \<open>m_oCSectMsgQue\<close>.
\<close>

definition P2Pmsg_Login :: wstr where "P2Pmsg_Login = wide ''P2PmsgLogin''"
definition P2Pmsg_LoginAck :: wstr where "P2Pmsg_LoginAck = wide ''P2PmsgLoginAck''"
definition P2Pmsg_CypherEx :: wstr where "P2Pmsg_CypherEx = wide ''P2PmsgCypherEx''"
definition P2Pmsg_KeyX :: wstr where "P2Pmsg_KeyX = wide ''P2PmsgKeyX''"
definition P2Pmsg_KeyXAck :: wstr where "P2Pmsg_KeyXAck = wide ''P2PmsgKeyXAck''"

datatype con_mode = P2PeerCon_Unknown | P2PeerCon_CLIENT | P2PeerCon_SERVICE | P2PeerCon_Accept

definition IsHandshakeP2PeerMsg :: "peer_msg \<Rightarrow> bool" where
  "IsHandshakeP2PeerMsg pMsg \<longleftrightarrow>
     Map_MatchName (m_name pMsg) P2Pmsg_Login \<or> Map_MatchName (m_name pMsg) P2Pmsg_LoginAck
     \<or> Map_MatchName (m_name pMsg) P2Pmsg_KeyX \<or> Map_MatchName (m_name pMsg) P2Pmsg_KeyXAck
     \<or> Map_MatchName (m_name pMsg) P2Pmsg_CypherEx"

text \<open>
  The queue, the message being sent, and the send request: \<open>None\<close> when there is none, else whether it
  is queued on the completion port.
\<close>

record out_que =
  m_oCListMsgQue :: "peer_msg list"
  m_pP2PeerMsgSend :: "peer_msg option"
  m_pOVERLAPPEDsend :: "bool option"

definition wake_send :: "out_que \<Rightarrow> out_que" where
  "wake_send q =
     (if m_pP2PeerMsgSend q = None \<and> m_pOVERLAPPEDsend q = Some False
      then q\<lparr>m_pOVERLAPPEDsend := Some True\<rparr> else q)"

text \<open>The walk from the tail: \<open>before\<close> is what it has not passed, tail first.\<close>

fun post_scan :: "peer_msg list \<Rightarrow> peer_msg \<Rightarrow> peer_msg list \<Rightarrow> peer_msg list" where
  "post_scan [] pMsg passed = pMsg # passed"
| "post_scan (x # before) pMsg passed =
     (if Priority x \<le> Priority pMsg then rev before @ x # pMsg # passed
      else post_scan before pMsg (x # passed))"

definition PostP2PeerMsg :: "out_que \<Rightarrow> peer_msg \<Rightarrow> out_que" where
  "PostP2PeerMsg q pMsg =
     (let v = m_oCListMsgQue q; nP2Pri = Priority pMsg in
      wake_send (q\<lparr>m_oCListMsgQue :=
        (if v = [] \<or> Priority (last v) \<le> nP2Pri \<or> Priority (hd v) > nP2Pri then v @ [pMsg]
         else post_scan (rev v) pMsg [])\<rparr>))"

text \<open>Behind the handshake messages at the head.\<close>

fun hs_insert :: "peer_msg \<Rightarrow> peer_msg list \<Rightarrow> peer_msg list" where
  "hs_insert pMsg [] = [pMsg]"
| "hs_insert pMsg (x # v) = (if IsHandshakeP2PeerMsg x then x # hs_insert pMsg v else pMsg # x # v)"

definition PostHandshakeP2PeerMsg :: "out_que \<Rightarrow> peer_msg \<Rightarrow> out_que" where
  "PostHandshakeP2PeerMsg q pMsg = wake_send (q\<lparr>m_oCListMsgQue := hs_insert pMsg (m_oCListMsgQue q)\<rparr>)"

definition GetP2PeerMsg :: "out_que \<Rightarrow> peer_msg option \<times> out_que" where
  "GetP2PeerMsg q =
     (case m_oCListMsgQue q of [] \<Rightarrow> (None, q) | m # v \<Rightarrow> (Some m, q\<lparr>m_oCListMsgQue := v\<rparr>))"

text \<open>The first handshake message and the queue without it.\<close>

fun first_handshake :: "peer_msg list \<Rightarrow> (peer_msg \<times> peer_msg list) option" where
  "first_handshake [] = None"
| "first_handshake (x # v) =
     (if IsHandshakeP2PeerMsg x then Some (x, v) else map_option (\<lambda>(m, w). (m, x # w)) (first_handshake v))"

text \<open>The message, whether messages are held back for the login, and the queue.\<close>

definition GetSendableP2PeerMsg :: "con_mode \<Rightarrow> bool \<Rightarrow> out_que \<Rightarrow> (peer_msg option \<times> bool) \<times> out_que" where
  "GetSendableP2PeerMsg eMode bLogin q =
     (case m_oCListMsgQue q of [] \<Rightarrow> ((None, False), q)
      | m # v \<Rightarrow>
          if eMode \<noteq> P2PeerCon_CLIENT \<or> bLogin then ((Some m, False), q\<lparr>m_oCListMsgQue := v\<rparr>)
          else (case first_handshake (m # v) of
                  Some (h, w) \<Rightarrow> ((Some h, False), q\<lparr>m_oCListMsgQue := w\<rparr>)
                | None \<Rightarrow> ((None, True), q)))"

subsection \<open>Handshake names\<close>

lemma Map_MatchName_literal: "set p \<inter> {chStar, chQuery, chHash} = {} \<Longrightarrow> Map_MatchName p p"
  using match_from_literal [of p "[]"] by (simp add: Map_MatchName_def wild_loop.simps [of hash_elem False])

lemma handshake_names [simp]:
  "m_name m = P2Pmsg_Login \<Longrightarrow> IsHandshakeP2PeerMsg m" "m_name m = P2Pmsg_LoginAck \<Longrightarrow> IsHandshakeP2PeerMsg m"
  "m_name m = P2Pmsg_KeyX \<Longrightarrow> IsHandshakeP2PeerMsg m" "m_name m = P2Pmsg_KeyXAck \<Longrightarrow> IsHandshakeP2PeerMsg m"
  using Map_MatchName_literal [of P2Pmsg_Login] Map_MatchName_literal [of P2Pmsg_LoginAck]
    Map_MatchName_literal [of P2Pmsg_KeyX] Map_MatchName_literal [of P2Pmsg_KeyXAck]
  by (simp_all add: IsHandshakeP2PeerMsg_def P2Pmsg_Login_def P2Pmsg_LoginAck_def P2Pmsg_KeyX_def P2Pmsg_KeyXAck_def wide_def)

subsection \<open>The queue is a message queue by priority\<close>

abbreviation pri :: "peer_msg \<Rightarrow> nat" where
  "pri m \<equiv> unat (Priority m)"

lemma content_wake [simp]: "m_oCListMsgQue (wake_send q) = m_oCListMsgQue q"
  by (simp add: wake_send_def)

lemma post_scan_append_scan: "post_scan before m passed = append_scan pri before m passed"
  by (induction before m passed rule: post_scan.induct) (auto simp: word_le_nat_alt)

lemma content_Post:
  "m_oCListMsgQue (PostP2PeerMsg q m) =
     (let v = m_oCListMsgQue q in
      if v = [] \<or> pri (last v) \<le> pri m \<or> pri m < pri (hd v) then v @ [m] else ins_back pri m v)"
  by (simp add: PostP2PeerMsg_def Let_def post_scan_append_scan append_scan_eq ins_back_def word_le_nat_alt word_less_nat_alt)

interpretation out: message_queue PostP2PeerMsg GetP2PeerMsg m_oCListMsgQue pri
proof
  show "mset (m_oCListMsgQue (PostP2PeerMsg q m)) = add_mset m (mset (m_oCListMsgQue q))" for q m
    by (simp add: content_Post Let_def mset_ins_back)
next
  show "filter (\<lambda>x. pri x = k) (m_oCListMsgQue (PostP2PeerMsg q m)) =
          filter (\<lambda>x. pri x = k) (m_oCListMsgQue q) @ filter (\<lambda>x. pri x = k) [m]" for q m k
    by (simp add: content_Post Let_def filter_ins_back)
qed (simp_all add: GetP2PeerMsg_def)

text \<open>
  Posting keeps a connection's queue in priority order, most urgent (lowest) first, unless the
  message is more urgent than everything that waits: such a message, the one that should leave next,
  is put last.  A sleeping sender is woken exactly when nothing is being sent.
\<close>

theorem post_order:
  assumes "sorted (map pri (m_oCListMsgQue q))"
  shows "(sorted (map pri (m_oCListMsgQue (PostP2PeerMsg q m)))
      \<longleftrightarrow> (m_oCListMsgQue q = [] \<or> pri (hd (m_oCListMsgQue q)) \<le> pri m))
    \<and> (m_oCListMsgQue q \<noteq> [] \<and> (\<forall>x \<in> set (m_oCListMsgQue q). pri m < pri x) \<longrightarrow>
         m_oCListMsgQue (PostP2PeerMsg q m) = m_oCListMsgQue q @ [m])
    \<and> (m_pOVERLAPPEDsend (PostP2PeerMsg q m) =
         (if m_pP2PeerMsgSend q = None \<and> m_pOVERLAPPEDsend q = Some False then Some True else m_pOVERLAPPEDsend q))"
proof (intro conjI)
  let ?v = "m_oCListMsgQue q"
  have first: "?v \<noteq> [] \<Longrightarrow> pri (hd ?v) \<le> pri (last ?v)"
    using assms by (cases ?v) (auto simp: last_in_set)
  show "sorted (map pri (m_oCListMsgQue (PostP2PeerMsg q m))) \<longleftrightarrow> (?v = [] \<or> pri (hd ?v) \<le> pri m)"
  proof (cases "?v = [] \<or> pri (last ?v) \<le> pri m \<or> pri m < pri (hd ?v)")
    case False
    then show ?thesis using sorted_ins_back [OF assms, of m] by (auto simp: content_Post Let_def)
  next
    case True
    then have c: "m_oCListMsgQue (PostP2PeerMsg q m) = ?v @ [m]" by (simp add: content_Post Let_def)
    show ?thesis
    proof (cases "?v = []")
      case False
      have "sorted (map pri (?v @ [m])) \<longleftrightarrow> pri (last ?v) \<le> pri m"
      proof -
        have "pri (last ?v) \<le> pri m \<Longrightarrow> x \<in> set ?v \<Longrightarrow> pri x \<le> pri m" for x
          using assms False by (cases ?v rule: rev_cases) (auto simp: sorted_append intro: order_trans)
        then show ?thesis using assms False by (auto simp: sorted_append)
      qed
      then show ?thesis using c True first False by auto
    qed (use c in simp)
  qed
next
  show "m_oCListMsgQue q \<noteq> [] \<and> (\<forall>x \<in> set (m_oCListMsgQue q). pri m < pri x) \<longrightarrow>
      m_oCListMsgQue (PostP2PeerMsg q m) = m_oCListMsgQue q @ [m]"
    by (simp add: content_Post Let_def)
  show "m_pOVERLAPPEDsend (PostP2PeerMsg q m) =
      (if m_pP2PeerMsgSend q = None \<and> m_pOVERLAPPEDsend q = Some False then Some True else m_pOVERLAPPEDsend q)"
    by (simp add: PostP2PeerMsg_def Let_def wake_send_def)
qed

text \<open>Messages for the examples.\<close>

definition example_msg :: "wstr \<Rightarrow> 8 word \<Rightarrow> peer_msg" where
  "example_msg nam p =
     (msg_between \<lparr>eType = 0, nSourceID = 0, dwAddrTag = 0, nDestinID = 0, nMsg = 0, uiCtrl = 0, ucPriority = p,
        uiState = 0, uiP2Pexpump = 0\<rparr> [65] [66] nam [1, 2])"

lemma example_Priority [simp]: "Priority (example_msg nam p) = p"
  by (simp add: example_msg_def Priority_def msg_between_def msg_between_fields_def SetSource_field_def SetDestin_field_def)

lemma example_name [simp]: "m_name (example_msg nam p) = nam"
  by (simp add: example_msg_def msg_between_def msg_between_fields_def SetSource_field_def SetDestin_field_def)

theorem post_order_witness:
  "m_oCListMsgQue (PostP2PeerMsg
       \<lparr>m_oCListMsgQue = [example_msg [97] 5, example_msg [98] 7], m_pP2PeerMsgSend = None, m_pOVERLAPPEDsend = None\<rparr> (example_msg [99] 2))
     = [example_msg [97] 5, example_msg [98] 7, example_msg [99] 2]"
  using post_order [of "\<lparr>m_oCListMsgQue = [example_msg [97] 5, example_msg [98] 7], m_pP2PeerMsgSend = None, m_pOVERLAPPEDsend = None\<rparr>"
      "example_msg [99] 2"] by simp

subsection \<open>The login leaves first\<close>

lemma hs_insert_split:
  "hs_insert m v = takeWhile IsHandshakeP2PeerMsg v @ m # dropWhile IsHandshakeP2PeerMsg v"
  by (induction v) auto

lemma first_handshake_None: "first_handshake v = None \<longleftrightarrow> list_all (\<lambda>m. \<not> IsHandshakeP2PeerMsg m) v"
  by (induction v) auto

lemma first_handshake_Some:
  "first_handshake v = Some (h, w) \<Longrightarrow>
     \<exists>xs ys. v = xs @ h # ys \<and> w = xs @ ys \<and> IsHandshakeP2PeerMsg h \<and> list_all (\<lambda>m. \<not> IsHandshakeP2PeerMsg m) xs"
proof (induction v arbitrary: h w)
  case (Cons x v)
  show ?case
  proof (cases "IsHandshakeP2PeerMsg x")
    case True
    with Cons.prems show ?thesis by (intro exI [of _ "[]"] exI [of _ v]) simp
  next
    case False
    with Cons.prems obtain w' where w: "first_handshake v = Some (h, w')" "w = x # w'" by auto
    from Cons.IH [OF w(1)] obtain xs ys where "v = xs @ h # ys" "w' = xs @ ys" "IsHandshakeP2PeerMsg h"
      "list_all (\<lambda>m. \<not> IsHandshakeP2PeerMsg m) xs" by blast
    with False w(2) show ?thesis by (intro exI [of _ "x # xs"] exI [of _ ys]) simp
  qed
qed simp

text \<open>Calls on the queue, in the order they get the lock; \<open>Take\<close> carries whether the login has completed.\<close>

datatype out_call = Post peer_msg | PostHs peer_msg | Take bool

fun out_step :: "con_mode \<Rightarrow> out_call \<Rightarrow> out_que \<Rightarrow> peer_msg list \<times> out_que" where
  "out_step eMode (Post m) q = ([], PostP2PeerMsg q m)"
| "out_step eMode (PostHs m) q = ([], PostHandshakeP2PeerMsg q m)"
| "out_step eMode (Take bLogin) q =
     (case GetSendableP2PeerMsg eMode bLogin q of ((m, held), q') \<Rightarrow> (case m of None \<Rightarrow> [] | Some x \<Rightarrow> [x], q'))"

fun out_run :: "con_mode \<Rightarrow> out_call list \<Rightarrow> out_que \<Rightarrow> peer_msg list \<times> out_que" where
  "out_run eMode [] q = ([], q)"
| "out_run eMode (c # cs) q =
     (let (o1, q1) = out_step eMode c q; (o2, q2) = out_run eMode cs q1 in (o1 @ o2, q2))"

definition out_inputs :: "out_call list \<Rightarrow> peer_msg list" where
  "out_inputs cs = concat (map (\<lambda>c. case c of Post m \<Rightarrow> [m] | PostHs m \<Rightarrow> [m] | Take l \<Rightarrow> []) cs)"

abbreviation app_of :: "peer_msg list \<Rightarrow> peer_msg list" where
  "app_of v \<equiv> filter (\<lambda>m. \<not> IsHandshakeP2PeerMsg m) v"

lemma GetSendable_cases:
  assumes "GetSendableP2PeerMsg eMode bLogin q = ((mo, held), q')"
  obtains "m_oCListMsgQue q = []" "mo = None" "\<not> held" "q' = q"
  | "mo = None" "held" "q' = q" "eMode = P2PeerCon_CLIENT" "\<not> bLogin" "m_oCListMsgQue q \<noteq> []"
      "list_all (\<lambda>m. \<not> IsHandshakeP2PeerMsg m) (m_oCListMsgQue q)"
  | xs m ys where "mo = Some m" "\<not> held" "m_oCListMsgQue q = xs @ m # ys" "m_oCListMsgQue q' = xs @ ys"
      "list_all (\<lambda>m. \<not> IsHandshakeP2PeerMsg m) xs" "eMode \<noteq> P2PeerCon_CLIENT \<or> bLogin \<Longrightarrow> xs = []"
      "eMode = P2PeerCon_CLIENT \<Longrightarrow> \<not> bLogin \<Longrightarrow> IsHandshakeP2PeerMsg m"
proof (cases "m_oCListMsgQue q")
  case Nil
  with assms have "mo = None" "\<not> held" "q' = q" by (simp_all add: GetSendableP2PeerMsg_def)
  with Nil show thesis by (rule that(1))
next
  case (Cons x v)
  show thesis
  proof (cases "eMode \<noteq> P2PeerCon_CLIENT \<or> bLogin")
    case True
    then have "mo = Some x" "\<not> held" "m_oCListMsgQue q' = v"
      using assms Cons by (auto simp: GetSendableP2PeerMsg_def)
    then show thesis by (intro that(3) [of x "[]" v]) (use Cons True in simp_all)
  next
    case False
    show thesis
    proof (cases "first_handshake (x # v)")
      case None
      have "mo = None" "held" "q' = q"
        using assms Cons False None by (simp_all add: GetSendableP2PeerMsg_def)
      moreover have "list_all (\<lambda>m. \<not> IsHandshakeP2PeerMsg m) (m_oCListMsgQue q)"
        using None Cons by (simp only: first_handshake_None)
      ultimately show thesis by (intro that(2)) (use Cons False in simp_all)
    next
      case (Some hw)
      obtain h w where hw: "hw = (h, w)" by (cases hw)
      have g: "mo = Some h" "\<not> held" "m_oCListMsgQue q' = w"
        using assms Cons False Some hw by (auto simp: GetSendableP2PeerMsg_def)
      from first_handshake_Some [OF Some [unfolded hw]] obtain xs ys where
        s: "x # v = xs @ h # ys" "w = xs @ ys" "IsHandshakeP2PeerMsg h" "list_all (\<lambda>m. \<not> IsHandshakeP2PeerMsg m) xs"
        by blast
      show thesis by (rule that(3)) (use g s Cons False in simp_all)
    qed
  qed
qed

lemma out_step_conserves:
  "mset (fst (out_step eMode c q)) + mset (m_oCListMsgQue (snd (out_step eMode c q)))
   = mset (m_oCListMsgQue q) + mset (case c of Post m \<Rightarrow> [m] | PostHs m \<Rightarrow> [m] | Take l \<Rightarrow> [])"
proof (cases c)
  case (PostHs m)
  have "mset (takeWhile IsHandshakeP2PeerMsg v) + mset (dropWhile IsHandshakeP2PeerMsg v) = mset v" for v
    by (metis mset_append takeWhile_dropWhile_id)
  with PostHs show ?thesis by (simp add: PostHandshakeP2PeerMsg_def hs_insert_split)
next
  case (Take l)
  obtain mo held q' where g: "GetSendableP2PeerMsg eMode l q = ((mo, held), q')" by (metis prod.collapse)
  then have s: "out_step eMode (Take l) q = (case mo of None \<Rightarrow> [] | Some x \<Rightarrow> [x], q')" by simp
  show ?thesis unfolding Take s by (rule GetSendable_cases [OF g]) simp_all
qed (simp add: out.add_mset)

lemma out_run_conserves:
  "mset (fst (out_run eMode cs q)) + mset (m_oCListMsgQue (snd (out_run eMode cs q)))
   = mset (m_oCListMsgQue q) + mset (out_inputs cs)"
proof (induction cs arbitrary: q)
  case (Cons c cs)
  let ?q1 = "snd (out_step eMode c q)"
  have r: "out_run eMode (c # cs) q = (fst (out_step eMode c q) @ fst (out_run eMode cs ?q1), snd (out_run eMode cs ?q1))"
    by (simp add: Let_def split: prod.split)
  have i: "mset (out_inputs (c # cs)) = mset (case c of Post m \<Rightarrow> [m] | PostHs m \<Rightarrow> [m] | Take l \<Rightarrow> []) + mset (out_inputs cs)"
    by (simp add: out_inputs_def)
  show ?case
    unfolding r i fst_conv snd_conv mset_append using Cons.IH [of ?q1] out_step_conserves [of eMode c q]
    by (metis (no_types, lifting) add.assoc add.left_commute)
qed (simp add: out_inputs_def)

lemma out_step_held:
  "Take True \<noteq> c \<Longrightarrow> list_all IsHandshakeP2PeerMsg (fst (out_step P2PeerCon_CLIENT c q))"
proof (cases c)
  case (Take l)
  assume "Take True \<noteq> c"
  with Take have l: "\<not> l" by simp
  obtain mo held q' where g: "GetSendableP2PeerMsg P2PeerCon_CLIENT l q = ((mo, held), q')" by (metis prod.collapse)
  then have s: "out_step P2PeerCon_CLIENT (Take l) q = (case mo of None \<Rightarrow> [] | Some x \<Rightarrow> [x], q')" by simp
  show ?thesis unfolding Take s by (rule GetSendable_cases [OF g]) (use l in simp_all)
qed simp_all

text \<open>
  C38: Nothing is lost and nothing overtakes the login.  Over any run of posts and sends a message is
  sent once or still waits; a client connection that has not logged in sends handshake messages only,
  and as long as one waits it is sent; a handshake message is queued before every application message.
\<close>

theorem login_leaves_first:
  "mset (fst (out_run eMode cs q)) + mset (m_oCListMsgQue (snd (out_run eMode cs q)))
     = mset (m_oCListMsgQue q) + mset (out_inputs cs)
   \<and> (Take True \<notin> set cs \<longrightarrow> list_all IsHandshakeP2PeerMsg (fst (out_run P2PeerCon_CLIENT cs q)))
   \<and> (list_ex IsHandshakeP2PeerMsg (m_oCListMsgQue q) \<longrightarrow>
        (\<exists>m. fst (out_step eMode (Take l) q) = [m]))
   \<and> (\<exists>hs rest. m_oCListMsgQue q = hs @ rest \<and> list_all IsHandshakeP2PeerMsg hs
        \<and> (rest = [] \<or> \<not> IsHandshakeP2PeerMsg (hd rest))
        \<and> m_oCListMsgQue (PostHandshakeP2PeerMsg q m) = hs @ m # rest)"
proof (intro conjI impI)
  show "list_all IsHandshakeP2PeerMsg (fst (out_run P2PeerCon_CLIENT cs q))" if "Take True \<notin> set cs"
    using that
  proof (induction cs arbitrary: q)
    case (Cons c cs)
    have "fst (out_run P2PeerCon_CLIENT (c # cs) q) =
        fst (out_step P2PeerCon_CLIENT c q) @ fst (out_run P2PeerCon_CLIENT cs (snd (out_step P2PeerCon_CLIENT c q)))"
      by (simp add: Let_def split: prod.split)
    with Cons show ?case using out_step_held [of c q] by (simp del: out_run.simps)
  qed simp
  show "\<exists>m. fst (out_step eMode (Take l) q) = [m]" if "list_ex IsHandshakeP2PeerMsg (m_oCListMsgQue q)"
  proof -
    obtain mo held q' where g: "GetSendableP2PeerMsg eMode l q = ((mo, held), q')" by (metis prod.collapse)
    then have s: "out_step eMode (Take l) q = (case mo of None \<Rightarrow> [] | Some x \<Rightarrow> [x], q')" by simp
    show ?thesis unfolding s
      by (rule GetSendable_cases [OF g]) (use that in \<open>auto simp: list_ex_iff list_all_iff\<close>)
  qed
  let ?v = "m_oCListMsgQue q"
  have h: "dropWhile IsHandshakeP2PeerMsg ?v = [] \<or> \<not> IsHandshakeP2PeerMsg (hd (dropWhile IsHandshakeP2PeerMsg ?v))"
    using hd_dropWhile [of IsHandshakeP2PeerMsg ?v] by blast
  show "\<exists>hs rest. ?v = hs @ rest \<and> list_all IsHandshakeP2PeerMsg hs \<and> (rest = [] \<or> \<not> IsHandshakeP2PeerMsg (hd rest))
      \<and> m_oCListMsgQue (PostHandshakeP2PeerMsg q m) = hs @ m # rest"
    by (rule exI [of _ "takeWhile IsHandshakeP2PeerMsg ?v"], rule exI [of _ "dropWhile IsHandshakeP2PeerMsg ?v"])
       (use h in \<open>auto simp: PostHandshakeP2PeerMsg_def hs_insert_split list_all_iff dest: set_takeWhileD\<close>)
qed (rule out_run_conserves)

theorem login_leaves_first_witness:
  "fst (out_step P2PeerCon_CLIENT (Take False)
       (PostHandshakeP2PeerMsg \<lparr>m_oCListMsgQue = [example_msg [97] 5], m_pP2PeerMsgSend = None, m_pOVERLAPPEDsend = None\<rparr>
          (example_msg P2Pmsg_Login 3))) \<noteq> []
   \<and> list_all IsHandshakeP2PeerMsg (fst (out_run P2PeerCon_CLIENT [Post (example_msg [97] 5), Take False, PostHs (example_msg P2Pmsg_Login 3), Take False]
        \<lparr>m_oCListMsgQue = [], m_pP2PeerMsgSend = None, m_pOVERLAPPEDsend = None\<rparr>))"
proof -
  let ?q = "\<lparr>m_oCListMsgQue = [example_msg [97] 5], m_pP2PeerMsgSend = None, m_pOVERLAPPEDsend = None\<rparr>"
  let ?e = "\<lparr>m_oCListMsgQue = [], m_pP2PeerMsgSend = None, m_pOVERLAPPEDsend = None\<rparr>"
  let ?l = "example_msg P2Pmsg_Login 3"
  have "?l \<in> set (m_oCListMsgQue (PostHandshakeP2PeerMsg ?q ?l))"
    by (simp add: PostHandshakeP2PeerMsg_def hs_insert_split)
  then have "list_ex IsHandshakeP2PeerMsg (m_oCListMsgQue (PostHandshakeP2PeerMsg ?q ?l))"
    unfolding list_ex_iff by (rule rev_bexI) simp
  then have "\<exists>m. fst (out_step P2PeerCon_CLIENT (Take False) (PostHandshakeP2PeerMsg ?q ?l)) = [m]"
    using login_leaves_first [of P2PeerCon_CLIENT "[]" "PostHandshakeP2PeerMsg ?q ?l" False ?l] by blast
  moreover have "list_all IsHandshakeP2PeerMsg (fst (out_run P2PeerCon_CLIENT
      [Post (example_msg [97] 5), Take False, PostHs ?l, Take False] ?e))"
    using login_leaves_first [of P2PeerCon_CLIENT "[Post (example_msg [97] 5), Take False, PostHs ?l, Take False]" ?e False ?l]
    by simp
  ultimately show ?thesis by auto
qed

end
