(* ===== verification/SourceFilter.thy ===== *)
theory SourceFilter
  imports Targetcore_Prelude
begin

text \<open>
  Whom a listening socket accepts (P2PeerConWsa.cpp): the text of a rule, the list of prefixes and the
  match of an address against it, the accounting key of an origin, its trust class, and the address a
  service binds.

  A socket address is its family with the address bytes in network order and the port; one too short for
  its family, of another family, or none at all, is \<open>SockOther\<close>.  \<open>inet_pton\<close> of the socket library parses
  IPv6 text: it is the argument \<open>pton6\<close>.  A key reads an IPv4 address as the little-endian machine does.
\<close>

datatype sockaddr = SockIn "16 word" bytes | SockIn6 "16 word" bytes | SockOther

datatype addr_family = AF_INET | AF_INET6

definition MAX_P2PeerConPrefix :: nat where "MAX_P2PeerConPrefix = 64"

abbreviation is_digit8 :: "byte \<Rightarrow> bool" where
  "is_digit8 c \<equiv> 48 \<le> c \<and> c \<le> 57"

subsection \<open>The text of a rule\<close>

fun read_digits :: "bytes \<Rightarrow> nat \<Rightarrow> nat option" where
  "read_digits [] n = Some n"
| "read_digits (c # s) n = (if is_digit8 c then read_digits s (n * 10 + unat (c - 48)) else None)"

text \<open>The address part and the number of bits, all of them when the text names none.\<close>

definition SplitP2PeerConPrefix :: "bytes \<Rightarrow> nat \<Rightarrow> nat \<Rightarrow> (bytes \<times> nat) option" where
  "SplitP2PeerConPrefix lpszPrefix cchAddr nMaxBits =
     (let led = dropWhile (\<lambda>c. c = 32 \<or> c = 9) lpszPrefix;
          text = rev (dropWhile (\<lambda>c. c = 32 \<or> c = 9 \<or> c = 13 \<or> c = 10) (rev led));
          addr = takeWhile (\<lambda>c. c \<noteq> 47) text;
          rest = dropWhile (\<lambda>c. c \<noteq> 47) text
      in if text = [] \<or> length text \<ge> cchAddr then None
         else (case rest of [] \<Rightarrow> Some (addr, nMaxBits)
               | c # bits \<Rightarrow>
                   if 47 \<in> set bits then None
                   else if bits = [] \<or> length bits > 3 then None
                   else (case read_digits bits 0 of None \<Rightarrow> None
                         | Some nBits \<Rightarrow> if nBits > nMaxBits then None else if addr = [] then None else Some (addr, nBits))))"

text \<open>
  The dotted address: digits of the octet at hand, its value, octets so far, the address.  A dot is put
  behind the text; after it an address of fewer octets meets a dot without digits and is refused.
\<close>

fun addr4_from :: "bytes \<Rightarrow> nat \<Rightarrow> nat \<Rightarrow> nat \<Rightarrow> 32 word \<Rightarrow> 32 word option" where
  "addr4_from [] nDigits nValue nOctet ulAddr =
     (if nDigits = 0 \<or> nOctet > 3 then None
      else if Suc nOctet = 4 then Some (push_bit 8 ulAddr OR word_of_nat nValue) else None)"
| "addr4_from (c # s) nDigits nValue nOctet ulAddr =
     (if is_digit8 c
      then (let nValue' = nValue * 10 + unat (c - 48) in
            if Suc nDigits > 3 then None else if nValue' > 255 then None
            else addr4_from s (Suc nDigits) nValue' nOctet ulAddr)
      else if c = 46
      then (if nDigits = 0 \<or> nOctet > 3 then None
            else addr4_from s 0 0 (Suc nOctet) (push_bit 8 ulAddr OR word_of_nat nValue))
      else None)"

definition ParseP2PeerConAddr4 :: "bytes \<Rightarrow> bytes option" where
  "ParseP2PeerConAddr4 pszAddr =
     (case addr4_from pszAddr 0 0 0 0 of None \<Rightarrow> None
      | Some ulAddr \<Rightarrow> Some [ucast (drop_bit 24 ulAddr AND 255), ucast (drop_bit 16 ulAddr AND 255),
                            ucast (drop_bit 8 ulAddr AND 255), ucast (ulAddr AND 255)])"

text \<open>The family, the address in a block of 16 bytes, and the bits; a colon makes it IPv6.\<close>

definition ParseP2PeerConPrefix :: "(bytes \<Rightarrow> bytes option) \<Rightarrow> bytes \<Rightarrow> (addr_family \<times> bytes \<times> nat) option" where
  "ParseP2PeerConPrefix pton6 lpszPrefix =
     (let fam = (if 58 \<in> set lpszPrefix then AF_INET6 else AF_INET) in
      case SplitP2PeerConPrefix lpszPrefix MAX_P2PeerConPrefix (if fam = AF_INET6 then 128 else 32) of
        None \<Rightarrow> None
      | Some (szAddr, nBits) \<Rightarrow>
          (case (if fam = AF_INET6 then pton6 szAddr
                 else map_option (\<lambda>a. a @ replicate 12 0) (ParseP2PeerConAddr4 szAddr)) of
             None \<Rightarrow> None
           | Some pucAddr \<Rightarrow> Some (fam, pucAddr, nBits)))"

subsection \<open>The filter\<close>

record prefix_rule =
  nFamily :: addr_family
  nBits :: nat
  ucNetwork :: bytes

definition high_mask :: "nat \<Rightarrow> byte" where
  "high_mask nRest = ucast (push_bit (8 - nRest) (255 :: 32 word))"

definition BitsEqual :: "bytes \<Rightarrow> bytes \<Rightarrow> nat \<Rightarrow> bool" where
  "BitsEqual pucLeft pucRight n =
     (let nWhole = n div 8; nRest = n mod 8 in
      if nWhole \<noteq> 0 \<and> take nWhole pucLeft \<noteq> take nWhole pucRight then False
      else if nRest \<noteq> 0 \<and> (pucLeft ! nWhole) AND high_mask nRest \<noteq> (pucRight ! nWhole) AND high_mask nRest then False
      else True)"

definition filter_Add :: "addr_family \<Rightarrow> bytes \<Rightarrow> nat \<Rightarrow> prefix_rule list \<Rightarrow> prefix_rule list" where
  "filter_Add fam pucNetwork n rules =
     (let nWhole = n div 8; nRest = n mod 8;
          net = take nWhole pucNetwork @ replicate (16 - nWhole) 0
      in rules @ [\<lparr>nFamily = fam, nBits = n,
           ucNetwork = (if nRest \<noteq> 0 then net[nWhole := (pucNetwork ! nWhole) AND high_mask nRest] else net)\<rparr>])"

definition filter_Matches :: "addr_family \<Rightarrow> bytes \<Rightarrow> prefix_rule list \<Rightarrow> bool" where
  "filter_Matches fam pucAddress rules =
     list_ex (\<lambda>it. nFamily it = fam \<and> BitsEqual pucAddress (ucNetwork it) (nBits it)) rules"

text \<open>A rule that does not parse is reported and changes nothing.\<close>

definition AllowAcceptFrom :: "(bytes \<Rightarrow> bytes option) \<Rightarrow> bytes \<Rightarrow> prefix_rule list \<Rightarrow> bool \<times> prefix_rule list" where
  "AllowAcceptFrom pton6 lpszPrefix rules =
     (case ParseP2PeerConPrefix pton6 lpszPrefix of None \<Rightarrow> (False, rules)
      | Some (fam, a, n) \<Rightarrow> (True, filter_Add fam a n rules))"

definition AllowAcceptLoopback :: "(bytes \<Rightarrow> bytes option) \<Rightarrow> prefix_rule list \<Rightarrow> prefix_rule list" where
  "AllowAcceptLoopback pton6 rules =
     snd (AllowAcceptFrom pton6 (narrow ''::1'') (snd (AllowAcceptFrom pton6 (narrow ''127.0.0.0/8'') rules)))"

definition AllowAcceptPrivate :: "(bytes \<Rightarrow> bytes option) \<Rightarrow> prefix_rule list \<Rightarrow> prefix_rule list" where
  "AllowAcceptPrivate pton6 rules =
     fold (\<lambda>t r. snd (AllowAcceptFrom pton6 (narrow t) r))
       [''127.0.0.0/8'', ''10.0.0.0/8'', ''172.16.0.0/12'', ''192.168.0.0/16'', ''169.254.0.0/16'', ''::1'', ''fc00::/7'', ''fe80::/10'']
       rules"

definition HasAcceptSourceFilter :: "prefix_rule list \<Rightarrow> bool" where
  "HasAcceptSourceFilter rules \<longleftrightarrow> rules \<noteq> []"

subsection \<open>Origins\<close>

definition P2PeerConAddrBytes :: "sockaddr \<Rightarrow> (addr_family \<times> bytes) option" where
  "P2PeerConAddrBytes a =
     (case a of SockIn port b \<Rightarrow> Some (AF_INET, b) | SockIn6 port b \<Rightarrow> Some (AF_INET6, b) | SockOther \<Rightarrow> None)"

definition NormaliseP2PeerConSockaddr :: "sockaddr \<Rightarrow> sockaddr" where
  "NormaliseP2PeerConSockaddr a =
     (case a of SockIn6 port b \<Rightarrow>
        if take 12 b = replicate 10 0 @ [0xFF, 0xFF] then SockIn port (take 4 (drop 12 b)) else a
      | _ \<Rightarrow> a)"

definition IsP2PeerConSockaddrLoopback :: "sockaddr \<Rightarrow> bool" where
  "IsP2PeerConSockaddrLoopback a =
     (case P2PeerConAddrBytes a of Some (AF_INET, b) \<Rightarrow> b ! 0 = 127
      | Some (AF_INET6, b) \<Rightarrow> b = replicate 15 0 @ [1]
      | None \<Rightarrow> False)"

definition FoldP2PeerConV6Key :: "bytes \<Rightarrow> 64 word" where
  "FoldP2PeerConV6Key pucAddr =
     fold (\<lambda>c h. (h XOR ucast c) * 1099511628211) (take 8 pucAddr) 14695981039346656037 OR push_bit 63 1"

definition KeyP2PeerConSource :: "sockaddr \<Rightarrow> 64 word" where
  "KeyP2PeerConSource a =
     (case P2PeerConAddrBytes a of
        Some (AF_INET, b) \<Rightarrow> ucast (b ! 0) OR push_bit 8 (ucast (b ! 1)) OR push_bit 16 (ucast (b ! 2)) OR push_bit 24 (ucast (b ! 3))
      | Some (AF_INET6, b) \<Rightarrow> FoldP2PeerConV6Key b
      | None \<Rightarrow> 0)"

definition IsAcceptSourceAllowed :: "prefix_rule list \<Rightarrow> sockaddr \<Rightarrow> bool" where
  "IsAcceptSourceAllowed rules a =
     (if \<not> HasAcceptSourceFilter rules then True
      else (case P2PeerConAddrBytes (NormaliseP2PeerConSockaddr a) of None \<Rightarrow> False
            | Some (fam, b) \<Rightarrow> filter_Matches fam b rules))"

text \<open>The form that takes a key: only an IPv4 key can be turned back into an address.\<close>

definition IsAcceptSourceAllowed_key :: "prefix_rule list \<Rightarrow> 64 word \<Rightarrow> bool" where
  "IsAcceptSourceAllowed_key rules xSource =
     (if \<not> HasAcceptSourceFilter rules then True
      else if xSource = 0 \<or> xSource AND push_bit 63 1 \<noteq> 0 then False
      else IsAcceptSourceAllowed rules
             (SockIn 0 [ucast xSource, ucast (drop_bit 8 xSource), ucast (drop_bit 16 xSource), ucast (drop_bit 24 xSource)]))"

text \<open>What \<open>getpeername\<close> of the accepted socket gives, when it gives anything, is normalised.\<close>

definition AcceptSourceAddress :: "sockaddr option \<Rightarrow> sockaddr" where
  "AcceptSourceAddress peer =
     (case peer of None \<Rightarrow> SockOther
      | Some a \<Rightarrow> (case P2PeerConAddrBytes (NormaliseP2PeerConSockaddr a) of None \<Rightarrow> SockOther
                  | Some x \<Rightarrow> NormaliseP2PeerConSockaddr a))"

definition AcceptSourceKey :: "sockaddr option \<Rightarrow> 64 word" where
  "AcceptSourceKey peer = KeyP2PeerConSource (AcceptSourceAddress peer)"

subsection \<open>What a rule admits\<close>

text \<open>The bits of an address, the first one the highest of the first byte.\<close>

definition addr_bit :: "bytes \<Rightarrow> nat \<Rightarrow> bool" where
  "addr_bit b j = bit (b ! (j div 8)) (7 - j mod 8)"

definition agree_on :: "bytes \<Rightarrow> bytes \<Rightarrow> nat \<Rightarrow> bool" where
  "agree_on a b n = list_all (\<lambda>j. addr_bit a j = addr_bit b j) [0..<n]"

lemma bit_high_mask: "r \<le> 8 \<Longrightarrow> bit (high_mask r) i \<longleftrightarrow> 8 - r \<le> i \<and> i < 8"
proof -
  assume r: "r \<le> 8"
  have m: "(255 :: 32 word) = mask 8" by (simp add: mask_eq_exp_minus_1)
  show ?thesis
    unfolding high_mask_def m by (auto simp: bit_ucast_iff bit_push_bit_iff bit_mask_iff)
qed

lemma byte_eq_iff: "(x :: byte) = y \<longleftrightarrow> (\<forall>k < 8. bit x (7 - k) = bit y (7 - k))"
proof
  assume a: "\<forall>k < 8. bit x (7 - k) = bit y (7 - k)"
  show "x = y"
  proof (rule bit_word_eqI)
    fix n assume "n < LENGTH(8)"
    then have "n < 8" by simp
    with a [rule_format, of "7 - n"] show "bit x n = bit y n" by simp
  qed
qed simp

lemma masked_eq_iff:
  assumes "r < 8"
  shows "x AND high_mask r = y AND high_mask r \<longleftrightarrow> (\<forall>k < r. bit x (7 - k) = bit y (7 - k))"
proof -
  have h: "bit (high_mask r) (7 - k) \<longleftrightarrow> k < r" if "k < 8" for k
    using assms that by (auto simp: bit_high_mask)
  have "(bit x (7 - k) \<and> bit (high_mask r) (7 - k)) = (bit y (7 - k) \<and> bit (high_mask r) (7 - k))
      \<longleftrightarrow> (k < r \<longrightarrow> bit x (7 - k) = bit y (7 - k))" if "k < 8" for k
    using h [OF that] by blast
  then have "x AND high_mask r = y AND high_mask r \<longleftrightarrow> (\<forall>k < 8. k < r \<longrightarrow> bit x (7 - k) = bit y (7 - k))"
    unfolding byte_eq_iff [of "x AND high_mask r"] bit_and_iff by simp
  also have "\<dots> \<longleftrightarrow> (\<forall>k < r. bit x (7 - k) = bit y (7 - k))" using assms by (meson less_trans)
  finally show ?thesis .
qed

lemma agree_on_iff: "agree_on a b n \<longleftrightarrow> (\<forall>j < n. addr_bit a j = addr_bit b j)"
  by (auto simp: agree_on_def list_all_iff)

lemma agree_on_split:
  "agree_on a b n \<longleftrightarrow> (\<forall>i < n div 8. a ! i = b ! i) \<and> (\<forall>k < n mod 8. bit (a ! (n div 8)) (7 - k) = bit (b ! (n div 8)) (7 - k))"
  (is "_ \<longleftrightarrow> ?w \<and> ?r")
proof
  assume g: "agree_on a b n"
  have "bit (a ! i) (7 - k) = bit (b ! i) (7 - k)" if "i < n div 8" "k < 8" for i k
  proof -
    have "8 * i + k < n" using that by linarith
    then have "addr_bit a (8 * i + k) = addr_bit b (8 * i + k)" using g by (simp add: agree_on_iff)
    moreover have "(8 * i + k) div 8 = i" "(8 * i + k) mod 8 = k" using that(2) by simp_all
    ultimately show ?thesis by (simp add: addr_bit_def)
  qed
  then have ?w by (simp add: byte_eq_iff)
  moreover have ?r
  proof (intro allI impI)
    fix k assume k: "k < n mod 8"
    then have k8: "k < 8" by (rule order_less_trans) simp
    have "8 * (n div 8) + k < n" using k by (metis add_less_cancel_left mult_div_mod_eq)
    then have "addr_bit a (8 * (n div 8) + k) = addr_bit b (8 * (n div 8) + k)" using g by (simp add: agree_on_iff)
    moreover have "(8 * (n div 8) + k) div 8 = n div 8" "(8 * (n div 8) + k) mod 8 = k" using k8 by simp_all
    ultimately show "bit (a ! (n div 8)) (7 - k) = bit (b ! (n div 8)) (7 - k)" by (simp add: addr_bit_def)
  qed
  ultimately show "?w \<and> ?r" by simp
next
  assume wr: "?w \<and> ?r"
  show "agree_on a b n"
    unfolding agree_on_iff addr_bit_def
  proof (intro allI impI)
    fix j assume j: "j < n"
    show "bit (a ! (j div 8)) (7 - j mod 8) = bit (b ! (j div 8)) (7 - j mod 8)"
    proof (cases "j div 8 < n div 8")
      case False
      then have d: "j div 8 = n div 8" using j by (metis div_le_mono le_neq_implies_less less_imp_le)
      then have "j mod 8 < n mod 8" using j by (metis add_less_cancel_left mult_div_mod_eq)
      with wr d show ?thesis by simp
    qed (use wr in simp)
  qed
qed

lemma BitsEqual_iff:
  assumes "n div 8 \<le> length a" and "n div 8 \<le> length b"
  shows "BitsEqual a b n \<longleftrightarrow> agree_on a b n"
proof -
  have "take (n div 8) a = take (n div 8) b \<longleftrightarrow> (\<forall>i < n div 8. a ! i = b ! i)"
    using assms by (auto simp: list_eq_iff_nth_eq)
  moreover have "n mod 8 < 8" by simp
  ultimately show ?thesis
    unfolding agree_on_split BitsEqual_def Let_def by (auto simp: masked_eq_iff)
qed

lemma filter_Add_network:
  assumes "n \<le> 8 * length a" and "length a \<le> 16"
  shows "\<exists>net. filter_Add fam a n rules = rules @ [\<lparr>nFamily = fam, nBits = n, ucNetwork = net\<rparr>] \<and> length net = 16
    \<and> agree_on a net n"
proof -
  let ?w = "n div 8" and ?r = "n mod 8"
  define base where "base = take ?w a @ replicate (16 - ?w) 0"
  define net where "net = (if ?r \<noteq> 0 then base[?w := (a ! ?w) AND high_mask ?r] else base)"
  have w: "?w \<le> length a" using assms by linarith
  have len: "length base = 16" "length net = 16" using w assms by (simp_all add: base_def net_def)
  have "\<forall>i < ?w. a ! i = net ! i" using w by (simp add: net_def base_def nth_append)
  moreover have "\<forall>k < ?r. bit (a ! ?w) (7 - k) = bit (net ! ?w) (7 - k)"
  proof (cases "?r = 0")
    case False
    moreover have "n = 128 \<Longrightarrow> ?r = 0" by simp
    ultimately have "n < 16 * 8" using assms by fastforce
    then have "?w < 16" by (rule less_mult_imp_div_less)
    then have "net ! ?w = (a ! ?w) AND high_mask ?r" using False len(1) by (simp add: net_def)
    moreover have "?r < 8" by simp
    ultimately show ?thesis by (simp add: masked_eq_iff [symmetric] and.assoc)
  qed simp
  ultimately have "agree_on a net n" by (simp only: agree_on_split simp_thms)
  then show ?thesis using len by (intro exI [of _ net]) (simp add: filter_Add_def Let_def net_def base_def)
qed

text \<open>The rules a service holds after a list of texts, and the texts that are rules.\<close>

definition rules_of :: "(bytes \<Rightarrow> bytes option) \<Rightarrow> bytes list \<Rightarrow> prefix_rule list" where
  "rules_of pton6 texts = fold (\<lambda>t r. snd (AllowAcceptFrom pton6 t r)) texts []"

definition sockaddr_ok :: "sockaddr \<Rightarrow> bool" where
  "sockaddr_ok a = (case a of SockIn port b \<Rightarrow> length b = 4 | SockIn6 port b \<Rightarrow> length b = 16 | SockOther \<Rightarrow> True)"

lemma Split_bits: "SplitP2PeerConPrefix t m k = Some (a, n) \<Longrightarrow> n \<le> k"
  by (auto simp: SplitP2PeerConPrefix_def Let_def split: if_splits list.splits option.splits)

lemma ParseAddr4_length: "ParseP2PeerConAddr4 s = Some a \<Longrightarrow> length a = 4"
  by (auto simp: ParseP2PeerConAddr4_def split: option.splits)

lemma Parse_sizes:
  assumes "ParseP2PeerConPrefix pton6 t = Some (fam, a, n)" and "\<forall>s b. pton6 s = Some b \<longrightarrow> length b = 16"
  shows "length a = 16 \<and> n \<le> (if fam = AF_INET6 then 128 else 32)"
  using assms Split_bits ParseAddr4_length
  by (fastforce simp: ParseP2PeerConPrefix_def Let_def split: option.splits if_splits)

lemma Normalise_bytes:
  assumes "sockaddr_ok a" and "P2PeerConAddrBytes (NormaliseP2PeerConSockaddr a) = Some (fam, b)"
  shows "length b = (if fam = AF_INET6 then 16 else 4)"
  using assms
  by (auto simp: sockaddr_ok_def NormaliseP2PeerConSockaddr_def P2PeerConAddrBytes_def split: sockaddr.splits if_splits)

lemma agree_on_common: "agree_on a net n \<Longrightarrow> agree_on b net n \<longleftrightarrow> agree_on b a n"
  by (auto simp: agree_on_iff)

lemma rules_of_match:
  assumes "\<forall>s b. pton6 s = Some b \<longrightarrow> length b = 16" and "length b = (if fam = AF_INET6 then 16 else 4)"
  shows "filter_Matches fam b (rules_of pton6 texts) \<longleftrightarrow>
      (\<exists>t \<in> set texts. \<exists>a n. ParseP2PeerConPrefix pton6 t = Some (fam, a, n) \<and> agree_on b a n)"
    and "rules_of pton6 texts = [] \<longleftrightarrow> list_all (\<lambda>t. ParseP2PeerConPrefix pton6 t = None) texts"
proof -
  have step: "filter_Matches fam b (snd (AllowAcceptFrom pton6 t rules)) \<longleftrightarrow> filter_Matches fam b rules
      \<or> (\<exists>a n. ParseP2PeerConPrefix pton6 t = Some (fam, a, n) \<and> agree_on b a n)" for t rules
  proof (cases "ParseP2PeerConPrefix pton6 t")
    case (Some x)
    obtain fam' a n where x: "x = (fam', a, n)" by (cases x)
    have s: "length a = 16" "n \<le> (if fam' = AF_INET6 then 128 else 32)"
      using Parse_sizes [OF Some [unfolded x] assms(1)] by simp_all
    then have "n \<le> 8 * length a" by (simp split: if_splits)
    with s obtain net where net: "filter_Add fam' a n rules = rules @ [\<lparr>nFamily = fam', nBits = n, ucNetwork = net\<rparr>]"
      "length net = 16" "agree_on a net n"
      using filter_Add_network [of n a fam' rules] by auto
    have "fam' = fam \<Longrightarrow> BitsEqual b net n \<longleftrightarrow> agree_on b a n"
      using net s assms(2) BitsEqual_iff [of n b net] agree_on_common [OF net(3)] by (auto split: if_splits)
    then show ?thesis using Some x net(1) by (auto simp: AllowAcceptFrom_def filter_Matches_def)
  qed (simp add: AllowAcceptFrom_def)
  have "filter_Matches fam b (fold (\<lambda>t r. snd (AllowAcceptFrom pton6 t r)) texts rules) \<longleftrightarrow> filter_Matches fam b rules
      \<or> (\<exists>t \<in> set texts. \<exists>a n. ParseP2PeerConPrefix pton6 t = Some (fam, a, n) \<and> agree_on b a n)" for rules
    by (induction texts arbitrary: rules) (auto simp: step)
  then show "filter_Matches fam b (rules_of pton6 texts) \<longleftrightarrow>
      (\<exists>t \<in> set texts. \<exists>a n. ParseP2PeerConPrefix pton6 t = Some (fam, a, n) \<and> agree_on b a n)"
    by (simp add: rules_of_def filter_Matches_def)
  have "fold (\<lambda>t r. snd (AllowAcceptFrom pton6 t r)) texts rules = [] \<longleftrightarrow>
      rules = [] \<and> list_all (\<lambda>t. ParseP2PeerConPrefix pton6 t = None) texts" for rules
    by (induction texts arbitrary: rules) (auto simp: AllowAcceptFrom_def filter_Add_def Let_def split: option.splits)
  then show "rules_of pton6 texts = [] \<longleftrightarrow> list_all (\<lambda>t. ParseP2PeerConPrefix pton6 t = None) texts"
    by (simp add: rules_of_def)
qed

text \<open>
  C37: The accept filter admits exactly what its rules say.  After any texts have been offered as
  rules, an origin is admitted if no text was a rule, or if it has an address that, as IPv4 when it is
  an IPv4 address mapped into IPv6, agrees with some rule of its family in as many leading bits as the rule
  names; an origin without an address is refused as soon as there is a rule.
\<close>

theorem source_filter_denotes:
  assumes "\<forall>s b. pton6 s = Some b \<longrightarrow> length b = 16" and "sockaddr_ok a"
  shows "IsAcceptSourceAllowed (rules_of pton6 texts) a \<longleftrightarrow>
      list_all (\<lambda>t. ParseP2PeerConPrefix pton6 t = None) texts
    \<or> (\<exists>t \<in> set texts. \<exists>fam net n b. ParseP2PeerConPrefix pton6 t = Some (fam, net, n)
         \<and> P2PeerConAddrBytes (NormaliseP2PeerConSockaddr a) = Some (fam, b) \<and> agree_on b net n)"
proof (cases "P2PeerConAddrBytes (NormaliseP2PeerConSockaddr a)")
  case None
  then show ?thesis
    using rules_of_match(2) [OF assms(1), of "replicate 4 0" AF_INET]
    by (simp add: IsAcceptSourceAllowed_def HasAcceptSourceFilter_def)
next
  case (Some x)
  obtain fam b where x: "x = (fam, b)" by (cases x)
  have "length b = (if fam = AF_INET6 then 16 else 4)" using Normalise_bytes [OF assms(2)] Some x by simp
  from rules_of_match [OF assms(1) this, of texts] show ?thesis
    using Some x by (auto simp: IsAcceptSourceAllowed_def HasAcceptSourceFilter_def)
qed

subsection \<open>Reading a rule\<close>

text \<open>An octet the way an operator writes it, without leading zeros, and the dotted address.\<close>

definition digit8 :: "nat \<Rightarrow> byte" where
  "digit8 d = word_of_nat (48 + d)"

definition octet_text :: "nat \<Rightarrow> bytes" where
  "octet_text n = (if n < 10 then [digit8 n] else if n < 100 then [digit8 (n div 10), digit8 (n mod 10)]
     else [digit8 (n div 100), digit8 (n div 10 mod 10), digit8 (n mod 10)])"

fun dotted :: "bytes \<Rightarrow> bytes" where
  "dotted [] = []"
| "dotted [b] = octet_text (unat b)"
| "dotted (b # bs) = octet_text (unat b) @ 46 # dotted bs"

lemma digit8_read:
  assumes "d < 10"
  shows "is_digit8 (digit8 d)" and "unat (digit8 d - 48) = d" and "digit8 d \<notin> {32, 9, 13, 10, 46, 47, 58}"
proof -
  have "d \<in> {0, 1, 2, 3, 4, 5, 6, 7, 8, 9}" using assms by auto
  then show "is_digit8 (digit8 d)" "unat (digit8 d - 48) = d" "digit8 d \<notin> {32, 9, 13, 10, 46, 47, 58}"
    by (auto simp: digit8_def)
qed

lemma octet_cases:
  assumes "n < 256"
  obtains "n < 10" "octet_text n = [digit8 n]"
  | a b where "a < 10" "b < 10" "n = 10 * a + b" "octet_text n = [digit8 a, digit8 b]"
  | a b c where "a < 10" "b < 10" "c < 10" "n = 100 * a + 10 * b + c" "octet_text n = [digit8 a, digit8 b, digit8 c]"
proof -
  consider "n < 10" | "10 \<le> n" "n < 100" | "100 \<le> n" by linarith
  then show thesis
  proof cases
    case 1
    then show thesis using that(1) by (simp add: octet_text_def)
  next
    case 2
    then show thesis by (intro that(2) [of "n div 10" "n mod 10"]) (auto simp: octet_text_def)
  next
    case 3
    have "n div 100 = n div 10 div 10" using div_mult2_eq [of n 10 10] by simp
    then have "n div 10 = n div 100 * 10 + n div 10 mod 10" using div_mult_mod_eq [of "n div 10" 10] by simp
    then have "n = 100 * (n div 100) + 10 * (n div 10 mod 10) + n mod 10"
      using div_mult_mod_eq [of n 10] by linarith
    with 3 assms show thesis by (intro that(3) [of "n div 100" "n div 10 mod 10" "n mod 10"]) (auto simp: octet_text_def)
  qed
qed

lemma addr4_octet:
  assumes "n < 256"
  shows "\<exists>k. 0 < k \<and> (\<forall>s oc u. addr4_from (octet_text n @ s) 0 0 oc u = addr4_from s k n oc u)"
  using assms
proof (rule octet_cases)
  assume "n < 10" "octet_text n = [digit8 n]"
  then show ?thesis by (intro exI [of _ 1]) (simp add: digit8_read Let_def)
next
  fix a b assume "a < 10" "b < 10" "n = 10 * a + b" "octet_text n = [digit8 a, digit8 b]"
  then show ?thesis by (intro exI [of _ 2]) (simp add: digit8_read Let_def mult.commute numeral_2_eq_2)
next
  fix a b c assume o: "a < 10" "b < 10" "c < 10" "n = 100 * a + 10 * b + c" "octet_text n = [digit8 a, digit8 b, digit8 c]"
  then have "(a * 10 + b) * 10 + c = n" "a * 10 + b \<le> 255" using assms by simp_all
  with o assms show ?thesis by (intro exI [of _ 3]) (simp add: digit8_read Let_def numeral_3_eq_3 mult.commute)
qed

lemma dotted_addr4:
  obtains u k where "\<And>s. addr4_from (dotted [a, b, c, d] @ s) 0 0 0 0 = addr4_from s k (unat d) (Suc (Suc (Suc 0))) u" "0 < k"
    and "push_bit 8 u OR ucast d = (push_bit 8 (push_bit 8 (push_bit 8 (ucast a) OR ucast b) OR ucast c) OR ucast d :: 32 word)"
    and "addr4_from (dotted [a, b, c]) 0 0 0 0 = None"
proof -
  note o = unat_byte_less
  obtain ka where ka: "0 < ka" "\<And>s oc u. addr4_from (octet_text (unat a) @ s) 0 0 oc u = addr4_from s ka (unat a) oc u"
    using addr4_octet [OF o [of a]] by blast
  obtain kb where kb: "0 < kb" "\<And>s oc u. addr4_from (octet_text (unat b) @ s) 0 0 oc u = addr4_from s kb (unat b) oc u"
    using addr4_octet [OF o [of b]] by blast
  obtain kc where kc: "0 < kc" "\<And>s oc u. addr4_from (octet_text (unat c) @ s) 0 0 oc u = addr4_from s kc (unat c) oc u"
    using addr4_octet [OF o [of c]] by blast
  obtain kd where kd: "0 < kd" "\<And>s oc u. addr4_from (octet_text (unat d) @ s) 0 0 oc u = addr4_from s kd (unat d) oc u"
    using addr4_octet [OF o [of d]] by blast
  show thesis
    by (rule that [of kd "push_bit 8 (push_bit 8 (ucast a) OR ucast b) OR ucast c"])
       (use kc(2) [of "[]"] ka(1) kb(1) kc(1) kd(1) in
         \<open>simp_all add: ka(2) kb(2) kc(2) kd(2) unsigned_of_nat\<close>)
qed

lemma dotted_read:
  "ParseP2PeerConAddr4 (dotted [a, b, c, d]) = Some [a, b, c, d]" "ParseP2PeerConAddr4 (dotted [a, b, c]) = None"
  "ParseP2PeerConAddr4 (dotted [a, b, c, d] @ [46]) = None"
proof -
  obtain v k where v: "\<And>s. addr4_from (dotted [a, b, c, d] @ s) 0 0 0 0 = addr4_from s k (unat d) (Suc (Suc (Suc 0))) v" "0 < k"
    "push_bit 8 v OR ucast d = (push_bit 8 (push_bit 8 (push_bit 8 (ucast a) OR ucast b) OR ucast c) OR ucast d :: 32 word)"
    "addr4_from (dotted [a, b, c]) 0 0 0 0 = None"
    using dotted_addr4 [of a b c d] by blast
  define u where "u = push_bit 8 v OR ucast d"
  have "addr4_from (dotted [a, b, c, d]) 0 0 0 0 = Some u"
    using v(1) [of "[]"] v(2) by (simp add: u_def unsigned_of_nat del: dotted.simps)
  moreover have "ucast (drop_bit 24 u AND 255) = a" "ucast (drop_bit 16 u AND 255) = b"
    "ucast (drop_bit 8 u AND 255) = c" "ucast (u AND 255) = d"
  proof -
    have m: "(255 :: 32 word) = mask 8" by (simp add: mask_eq_exp_minus_1)
    show "ucast (drop_bit 24 u AND 255) = a"
      unfolding m u_def v(3) by (rule bit_word_eqI) (auto simp: bit_simps dest: bit_imp_le_length)
    show "ucast (drop_bit 16 u AND 255) = b"
      unfolding m u_def v(3) by (rule bit_word_eqI) (auto simp: bit_simps dest: bit_imp_le_length)
    show "ucast (drop_bit 8 u AND 255) = c"
      unfolding m u_def v(3) by (rule bit_word_eqI) (auto simp: bit_simps dest: bit_imp_le_length)
    show "ucast (u AND 255) = d"
      unfolding m u_def v(3) by (rule bit_word_eqI) (auto simp: bit_simps dest: bit_imp_le_length)
  qed
  ultimately show "ParseP2PeerConAddr4 (dotted [a, b, c, d]) = Some [a, b, c, d]"
    by (simp add: ParseP2PeerConAddr4_def)
  show "ParseP2PeerConAddr4 (dotted [a, b, c]) = None" using v(4) by (simp add: ParseP2PeerConAddr4_def)
  show "ParseP2PeerConAddr4 (dotted [a, b, c, d] @ [46]) = None"
    using v(1) [of "[46]"] v(2) by (simp add: ParseP2PeerConAddr4_def del: dotted.simps)
qed

abbreviation rule_char :: "byte \<Rightarrow> bool" where
  "rule_char c \<equiv> c \<notin> {32, 9, 13, 10, 47, 58}"

lemma octet_text_chars:
  assumes "n < 256"
  shows "list_all rule_char (octet_text n)" and "octet_text n \<noteq> []" and "length (octet_text n) \<le> 3"
    and "read_digits (octet_text n) 0 = Some n"
proof -
  show "list_all rule_char (octet_text n)"
    using assms by (rule octet_cases) (use digit8_read(3) in auto)
  show "octet_text n \<noteq> []" "length (octet_text n) \<le> 3" by (simp_all add: octet_text_def)
  show "read_digits (octet_text n) 0 = Some n"
    using assms by (rule octet_cases) (simp_all add: digit8_read algebra_simps)
qed

lemma dotted_chars: "list_all rule_char (dotted bs)" "length (dotted bs) \<le> 4 * length bs"
proof (induction bs rule: dotted.induct)
  case (3 b c bs)
  case 1 show ?case using 3 octet_text_chars(1) [OF unat_byte_less, of b] by simp
  case 2 show ?case using 3 octet_text_chars(3) [OF unat_byte_less, of b] by simp
next
  case (2 b)
  case 1 show ?case using octet_text_chars(1) [OF unat_byte_less, of b] by simp
  case 2 show ?case using octet_text_chars(3) [OF unat_byte_less, of b] by simp
qed simp_all

lemma Split_plain:
  assumes "list_all rule_char a" and "a \<noteq> []" and "length a < m"
  shows "SplitP2PeerConPrefix a m k = Some (a, k)"
proof -
  have "hd a \<in> set a" "last a \<in> set a" using assms(2) by simp_all
  then have "dropWhile (\<lambda>c. c = 32 \<or> c = 9) a = a" "dropWhile (\<lambda>c. c = 32 \<or> c = 9 \<or> c = 13 \<or> c = 10) (rev a) = rev a"
    using assms(1,2) by (auto simp: list_all_iff dropWhile_eq_self_iff hd_rev)
  moreover have "takeWhile (\<lambda>c. c \<noteq> 47) a = a" "dropWhile (\<lambda>c. c \<noteq> 47) a = []"
    using assms(1) by (auto simp: list_all_iff takeWhile_eq_all_conv dropWhile_eq_Nil_conv)
  ultimately have "SplitP2PeerConPrefix a m k = (if a = [] \<or> length a \<ge> m then None else Some (a, k))"
    by (simp only: SplitP2PeerConPrefix_def Let_def rev_rev_ident list.case)
  then show ?thesis using assms(2,3) by simp
qed

lemma Split_bits_part:
  assumes "list_all rule_char a" and "a \<noteq> []" and "n < 256" and "length a + 4 < m"
  shows "SplitP2PeerConPrefix (a @ 47 # octet_text n) m k = (if n \<le> k then Some (a, n) else None)"
proof -
  note o = octet_text_chars [OF assms(3)]
  let ?t = "a @ 47 # octet_text n"
  have "hd ?t = hd a" "last ?t = last (octet_text n)" "hd a \<in> set a" "last (octet_text n) \<in> set (octet_text n)"
    using assms(2) o(2) by simp_all
  then have "dropWhile (\<lambda>c. c = 32 \<or> c = 9) ?t = ?t"
    "dropWhile (\<lambda>c. c = 32 \<or> c = 9 \<or> c = 13 \<or> c = 10) (rev ?t) = rev ?t"
    using assms(1,2) o(1,2) by (auto simp: list_all_iff dropWhile_eq_self_iff hd_rev simp del: rev_append)
  moreover have "takeWhile (\<lambda>c. c \<noteq> 47) ?t = a" "dropWhile (\<lambda>c. c \<noteq> 47) ?t = 47 # octet_text n"
    using assms(1) by (auto simp: list_all_iff takeWhile_append dropWhile_append)
  moreover have "47 \<notin> set (octet_text n)" using o(1) by (auto simp: list_all_iff)
  ultimately show ?thesis using assms o(2-4) by (simp add: SplitP2PeerConPrefix_def Let_def)
qed

text \<open>
  A rule is read as it is written: a dotted IPv4 address is that one host, with \<open>/n\<close> behind it the
  network of its first \<open>n\<close> bits, up to 32; more bits than that, a missing octet or a trailing dot is
  no rule.
\<close>

theorem rule_read:
  shows "ParseP2PeerConPrefix pton6 (dotted [a, b, c, d]) = Some (AF_INET, [a, b, c, d] @ replicate 12 0, 32)
    \<and> (n < 256 \<longrightarrow> ParseP2PeerConPrefix pton6 (dotted [a, b, c, d] @ 47 # octet_text n) =
         (if n \<le> 32 then Some (AF_INET, [a, b, c, d] @ replicate 12 0, n) else None))
    \<and> ParseP2PeerConPrefix pton6 (dotted [a, b, c]) = None
    \<and> ParseP2PeerConPrefix pton6 (dotted [a, b, c, d] @ [46]) = None"
proof (intro conjI impI)
  note len = dotted_chars(2) [of "[a, b, c, d]"] dotted_chars(2) [of "[a, b, c]"]
  have ne: "dotted [a, b, c, d] \<noteq> []" "dotted [a, b, c] \<noteq> []"
    by (simp_all add: octet_text_chars(2) [OF unat_byte_less])
  have colon: "58 \<notin> set (dotted bs)" for bs using dotted_chars(1) [of bs] by (auto simp: list_all_iff)
  note p = ParseP2PeerConPrefix_def Let_def MAX_P2PeerConPrefix_def dotted_read
  show "ParseP2PeerConPrefix pton6 (dotted [a, b, c, d]) = Some (AF_INET, [a, b, c, d] @ replicate 12 0, 32)"
    using Split_plain [OF dotted_chars(1) ne(1), of 64 32] colon len by (simp add: p del: dotted.simps)
  show "ParseP2PeerConPrefix pton6 (dotted [a, b, c]) = None"
    using Split_plain [OF dotted_chars(1) ne(2), of 64 32] colon len by (simp add: p del: dotted.simps)
  show "ParseP2PeerConPrefix pton6 (dotted [a, b, c, d] @ [46]) = None"
    using Split_plain [of "dotted [a, b, c, d] @ [46]" 64 32] dotted_chars(1) [of "[a, b, c, d]"] colon len
    by (simp add: p del: dotted.simps)
  show "ParseP2PeerConPrefix pton6 (dotted [a, b, c, d] @ 47 # octet_text n) =
      (if n \<le> 32 then Some (AF_INET, [a, b, c, d] @ replicate 12 0, n) else None)" if n: "n < 256"
  proof -
    have "58 \<notin> set (octet_text n)" using octet_text_chars(1) [OF n] by (auto simp: list_all_iff)
    then show ?thesis
      using Split_bits_part [OF dotted_chars(1) ne(1) n, of 64 32] colon len by (simp add: p del: dotted.simps)
  qed
qed

theorem rule_read_witness:
  "ParseP2PeerConPrefix (\<lambda>s. None) (narrow ''10.0.0.0/8'') = Some (AF_INET, [10, 0, 0, 0] @ replicate 12 0, 8)"
  using rule_read [of "\<lambda>s. None" 10 0 0 0 8] by (simp add: narrow_def octet_text_def digit8_def)

text \<open>
  The filter at work: a service that admits its private neighbours refuses a public address and admits
  a private one, also mapped into IPv6.
\<close>

theorem source_filter_denotes_witness:
  "IsAcceptSourceAllowed (rules_of (\<lambda>s. None) [narrow ''10.0.0.0/8'']) (SockIn6 80 (replicate 10 0 @ [255, 255, 10, 1, 2, 3]))
   \<and> \<not> IsAcceptSourceAllowed (rules_of (\<lambda>s. None) [narrow ''10.0.0.0/8'']) (SockIn 80 [11, 1, 2, 3])"
proof -
  have p: "ParseP2PeerConPrefix (\<lambda>s. None) (narrow ''10.0.0.0/8'') = Some (AF_INET, [10, 0, 0, 0] @ replicate 12 0, 8)"
    by code_simp
  have b: "agree_on [10, 1, 2, 3] ([10, 0, 0, 0] @ replicate 12 0) 8" "\<not> agree_on [11, 1, 2, 3] ([10, 0, 0, 0] @ replicate 12 0) 8"
    by code_simp+
  have "IsAcceptSourceAllowed (rules_of (\<lambda>s. None) [narrow ''10.0.0.0/8'']) (SockIn6 80 (replicate 10 0 @ [255, 255, 10, 1, 2, 3]))"
    by (subst source_filter_denotes) (use p b(1) in \<open>auto simp: sockaddr_ok_def NormaliseP2PeerConSockaddr_def P2PeerConAddrBytes_def numeral_eq_Suc\<close>)
  moreover have "\<not> IsAcceptSourceAllowed (rules_of (\<lambda>s. None) [narrow ''10.0.0.0/8'']) (SockIn 80 [11, 1, 2, 3])"
    by (subst source_filter_denotes) (use p b(2) in \<open>auto simp: sockaddr_ok_def NormaliseP2PeerConSockaddr_def P2PeerConAddrBytes_def\<close>)
  ultimately show ?thesis by simp
qed

end
