(* ===== verification/AuthHub.thy ===== *)
theory AuthHub
  imports SealPolicy
begin

text \<open>
  The security interface of a hub (P2PeerHub.cpp): every call forwards to the hub's policy under its
  lock, and has an answer of its own for a hub without one.  The hub's policy is an argument,
  \<open>None\<close> when it has none; settings and checks that change it return it.
\<close>

type_synonym hub_policy = "policy option"

text \<open>Trust classes of a link, and what a hub asks of one.\<close>

definition P2PeerConTrust_Wire :: nat where "P2PeerConTrust_Wire = 0"
definition P2PeerConTrust_Local :: nat where "P2PeerConTrust_Local = 1"
definition P2PeerConTrust_InProcess :: nat where "P2PeerConTrust_InProcess = 2"

datatype link_policy = P2PeerLinkPolicy_Full | P2PeerLinkPolicy_Open

abbreviation ask :: "'a \<Rightarrow> (policy \<Rightarrow> 'a) \<Rightarrow> hub_policy \<Rightarrow> 'a" where
  "ask d f h \<equiv> (case h of None \<Rightarrow> d | Some p \<Rightarrow> f p)"

subsection \<open>Settings\<close>

definition RequireAuth :: "bool \<Rightarrow> hub_policy \<Rightarrow> hub_policy" where
  "RequireAuth b h = map_option (\<lambda>p. p\<lparr>m_bRequired := b\<rparr>) h"

definition hub_SetLinkPolicy :: "nat \<Rightarrow> link_policy \<Rightarrow> hub_policy \<Rightarrow> hub_policy" where
  "hub_SetLinkPolicy eClass ePolicy h =
     map_option (SetLinkPolicy (int eClass) (if ePolicy = P2PeerLinkPolicy_Full then 0 else 1)) h"

definition RequireTrustAtLeast :: "nat \<Rightarrow> hub_policy \<Rightarrow> hub_policy" where
  "RequireTrustAtLeast eClass h = map_option (SetTrustFloor (int eClass)) h"

definition RequireRelayAuth :: "bool \<Rightarrow> hub_policy \<Rightarrow> hub_policy" where
  "RequireRelayAuth b h = map_option (\<lambda>p. p\<lparr>m_bRelayRequired := b\<rparr>) h"

definition RequireRevocation :: "bool \<Rightarrow> hub_policy \<Rightarrow> hub_policy" where
  "RequireRevocation b h = map_option (\<lambda>p. p\<lparr>m_bRevokeRequired := b\<rparr>) h"

definition RequireSeal :: "bool \<Rightarrow> hub_policy \<Rightarrow> hub_policy" where
  "RequireSeal b h = map_option (\<lambda>p. p\<lparr>m_bSealRequired := b\<rparr>) h"

definition RequireSealBroadcast :: "bool \<Rightarrow> hub_policy \<Rightarrow> hub_policy" where
  "RequireSealBroadcast b h = map_option (\<lambda>p. p\<lparr>m_bSealBroadcastRequired := b\<rparr>) h"

definition RequireSealUpcast :: "bool \<Rightarrow> hub_policy \<Rightarrow> hub_policy" where
  "RequireSealUpcast b h = map_option (\<lambda>p. p\<lparr>m_bSealUpcastRequired := b\<rparr>) h"

definition WaiveEndToEndInProcess :: "bool \<Rightarrow> hub_policy \<Rightarrow> hub_policy" where
  "WaiveEndToEndInProcess b h = map_option (\<lambda>p. p\<lparr>m_bWaiveE2EInProcess := b\<rparr>) h"

definition RefuseRelayReplay :: "bool \<Rightarrow> hub_policy \<Rightarrow> hub_policy" where
  "RefuseRelayReplay b h = map_option (\<lambda>p. p\<lparr>m_bRelayReplay := b\<rparr>) h"

definition RefuseSealReplay :: "bool \<Rightarrow> hub_policy \<Rightarrow> hub_policy" where
  "RefuseSealReplay b h = map_option (\<lambda>p. p\<lparr>m_bSealReplay := b\<rparr>) h"

subsection \<open>Questions\<close>

definition IsAuthRequired :: "hub_policy \<Rightarrow> bool" where "IsAuthRequired h = ask False m_bRequired h"
definition CanAuthSign :: "hub_policy \<Rightarrow> bool" where "CanAuthSign h = ask False (\<lambda>p. m_pIdentity p \<noteq> None) h"
definition IsRelayAuthRequired :: "hub_policy \<Rightarrow> bool" where "IsRelayAuthRequired h = ask False m_bRelayRequired h"
definition IsRevocationRequired :: "hub_policy \<Rightarrow> bool" where "IsRevocationRequired h = ask False m_bRevokeRequired h"
definition IsSealRequired :: "hub_policy \<Rightarrow> bool" where "IsSealRequired h = ask False m_bSealRequired h"
definition IsSealBroadcastRequired :: "hub_policy \<Rightarrow> bool" where
  "IsSealBroadcastRequired h = ask False m_bSealBroadcastRequired h"
definition IsSealUpcastRequired :: "hub_policy \<Rightarrow> bool" where
  "IsSealUpcastRequired h = ask False m_bSealUpcastRequired h"
definition IsEndToEndWaivedInProcess :: "hub_policy \<Rightarrow> bool" where
  "IsEndToEndWaivedInProcess h = ask False m_bWaiveE2EInProcess h"
definition CanSeal :: "hub_policy \<Rightarrow> bool" where "CanSeal h = ask False (\<lambda>p. m_pIdentity p \<noteq> None) h"
definition CanOpen :: "hub_policy \<Rightarrow> bool" where "CanOpen h = ask False (\<lambda>p. m_pAgreement p \<noteq> None) h"

definition hub_GetLinkPolicy :: "nat \<Rightarrow> hub_policy \<Rightarrow> link_policy" where
  "hub_GetLinkPolicy eClass h =
     ask P2PeerLinkPolicy_Full
       (\<lambda>p. if GetLinkPolicy (int eClass) p = 0 then P2PeerLinkPolicy_Full else P2PeerLinkPolicy_Open) h"

definition GetRequiredTrust :: "hub_policy \<Rightarrow> nat" where
  "GetRequiredTrust h =
     ask P2PeerConTrust_Wire
       (\<lambda>p. if m_nTrustFloor p \<ge> P2PeerConTrust_InProcess then P2PeerConTrust_InProcess
            else if m_nTrustFloor p \<ge> P2PeerConTrust_Local then P2PeerConTrust_Local
            else P2PeerConTrust_Wire) h"

definition AuthArm :: "hub_policy \<Rightarrow> ArmResult" where
  "AuthArm h = ask ArmNotRequired Arm h"

text \<open>Whether the hub may start, and whether it is warned that it cannot open what is sealed for it.\<close>

definition AuthArmOrRefuse :: "hub_policy \<Rightarrow> bool \<times> bool" where
  "AuthArmOrRefuse h =
     (if AuthArm h \<in> {ArmOk, ArmNotRequired, ArmNotRequiredByPolicy}
      then (True, IsSealRequired h \<and> \<not> CanOpen h) else (False, False))"

subsection \<open>Signing, checking and sealing\<close>

definition AttestRelay ::
  "crypto \<Rightarrow> int \<Rightarrow> hub_policy \<Rightarrow> wstr \<Rightarrow> wstr \<Rightarrow> wstr \<Rightarrow> wstr option \<Rightarrow> bytes \<Rightarrow> nat \<Rightarrow> AuthResult + bytes" where
  "AttestRelay cr now h pAttester pSrc pDst pMsgName pBody cbOut =
     ask (Inl AuthErrInternal) (\<lambda>p. BuildRelay cr now p pAttester pSrc pDst pMsgName pBody cbOut) h"

definition hub_VerifyRelay ::
  "crypto \<Rightarrow> int \<Rightarrow> hub_policy \<Rightarrow> wstr \<Rightarrow> wstr \<Rightarrow> wstr option \<Rightarrow> bytes \<Rightarrow> bytes \<Rightarrow> nat
   \<Rightarrow> (AuthResult \<times> wstr option \<times> int) \<times> hub_policy" where
  "hub_VerifyRelay cr now h pSrc pDst pMsgName pBody pIn cch =
     ask ((AuthErrInternal, None, 0), h)
       (\<lambda>p. case VerifyRelay cr now p pSrc pDst pMsgName pBody pIn cch of (r, p') \<Rightarrow> (r, Some p')) h"

definition AuthBuildLogin ::
  "crypto \<Rightarrow> int \<Rightarrow> bytes option \<Rightarrow> hub_policy \<Rightarrow> wstr \<Rightarrow> wstr \<Rightarrow> nat \<Rightarrow> bytes option \<Rightarrow> AuthResult + bytes \<times> bytes" where
  "AuthBuildLogin cr now rnd h pSrc pDst cbOut pBind =
     ask (Inl AuthErrInternal) (\<lambda>p. BuildLogin cr now rnd p pSrc pDst cbOut pBind) h"

definition AuthVerifyLogin ::
  "crypto \<Rightarrow> int \<Rightarrow> hub_policy \<Rightarrow> wstr \<Rightarrow> wstr \<Rightarrow> bytes \<Rightarrow> bytes option
   \<Rightarrow> (AuthResult \<times> bytes option \<times> int) \<times> hub_policy" where
  "AuthVerifyLogin cr now h pSrc pDst pIn pBind =
     ask ((AuthErrInternal, None, 0), h)
       (\<lambda>p. case VerifyLogin cr now p pSrc pDst pIn pBind of (r, p') \<Rightarrow> (r, Some p')) h"

definition AuthBuildAck ::
  "crypto \<Rightarrow> hub_policy \<Rightarrow> wstr \<Rightarrow> wstr \<Rightarrow> bytes \<Rightarrow> nat \<Rightarrow> bytes option \<Rightarrow> AuthResult + bytes" where
  "AuthBuildAck cr h pSrc pDst pNonce cbOut pBind =
     ask (Inl AuthErrInternal) (\<lambda>p. BuildAck cr p pSrc pDst pNonce cbOut pBind) h"

definition AuthVerifyAck ::
  "crypto \<Rightarrow> int \<Rightarrow> hub_policy \<Rightarrow> wstr \<Rightarrow> wstr \<Rightarrow> bytes \<Rightarrow> bytes \<Rightarrow> bytes option \<Rightarrow> AuthResult" where
  "AuthVerifyAck cr now h pSrc pDst pNonce pIn pBind =
     ask AuthErrInternal (\<lambda>p. VerifyAck cr now p pSrc pDst pNonce pIn pBind) h"

definition SealFor ::
  "crypto \<Rightarrow> int \<Rightarrow> bytes option \<Rightarrow> bytes option \<Rightarrow> hub_policy \<Rightarrow> wstr \<Rightarrow> wstr \<Rightarrow> bytes \<Rightarrow> nat \<Rightarrow> SealResult + bytes" where
  "SealFor cr now eph cek h pSrc pDst pPlain cbOut =
     ask (Inl SealErrInternal) (\<lambda>p. AuthSeal cr now eph cek p pSrc pDst pPlain cbOut 0) h"

definition OpenFrom ::
  "crypto \<Rightarrow> int \<Rightarrow> hub_policy \<Rightarrow> wstr \<Rightarrow> wstr \<Rightarrow> bytes \<Rightarrow> nat \<Rightarrow> (SealResult + bytes) \<times> hub_policy" where
  "OpenFrom cr now h pSrc pDst pIn cbOut =
     ask (Inl SealErrInternal, h)
       (\<lambda>p. case AuthOpen cr now p pSrc pDst pIn cbOut of (r, p') \<Rightarrow> (r, Some p')) h"

end
