(* ===== verification/ConAccept.thy ===== *)
theory ConAccept
  imports SourceFilter AuthHub "HOL-Library.Multiset"
begin

text \<open>
  Admission of inbound connections (P2PeerCon.cpp, P2PeerConWsa.cpp): the count of accepted connections a
  service and its connections share, the tally by origin, the trust fence, and the decision of
  \<open>P2PeerConWsa::AcceptSpawn\<close>.
\<close>

subsection \<open>Trust\<close>

text \<open>The class a transport grants, lowered to the ceiling of the connection.\<close>

definition DemoteTrust :: "nat \<Rightarrow> nat \<Rightarrow> nat" where
  "DemoteTrust eNoBetterThan eTrustCeiling = (if eNoBetterThan < eTrustCeiling then eNoBetterThan else eTrustCeiling)"

definition EffectiveTrust :: "nat \<Rightarrow> nat \<Rightarrow> nat" where
  "EffectiveTrust eClass eTrustCeiling = (if eClass < eTrustCeiling then eClass else eTrustCeiling)"

text \<open>The hub that governs a connection, \<open>None\<close> before it is posted to one.\<close>

definition TrustFenceFloor :: "hub_policy option \<Rightarrow> nat" where
  "TrustFenceFloor pHub = (case pHub of None \<Rightarrow> P2PeerConTrust_Wire | Some h \<Rightarrow> GetRequiredTrust h)"

definition TrustFenceRefusesClass :: "hub_policy option \<Rightarrow> nat \<Rightarrow> nat \<Rightarrow> bool" where
  "TrustFenceRefusesClass pHub eTrustCeiling eClass =
     (let eFloor = TrustFenceFloor pHub in
      if eFloor \<le> P2PeerConTrust_Wire then False
      else (if eTrustCeiling < eClass then eTrustCeiling else eClass) < eFloor)"

text \<open>The class of a socket: by its peer once it has one, else by whether it listens on loopback only.\<close>

definition WsaTrustClass :: "sockaddr option \<Rightarrow> bool \<Rightarrow> nat" where
  "WsaTrustClass peer bLoopbackScope =
     (case peer of
        Some a \<Rightarrow> if IsP2PeerConSockaddrLoopback (NormaliseP2PeerConSockaddr a) then P2PeerConTrust_Local else P2PeerConTrust_Wire
      | None \<Rightarrow> if bLoopbackScope then P2PeerConTrust_Local else P2PeerConTrust_Wire)"

subsection \<open>The tally by origin\<close>

type_synonym source_tally = "64 word \<Rightarrow> int option"

definition tally_Count :: "source_tally \<Rightarrow> 64 word \<Rightarrow> int" where
  "tally_Count t xSource = (if xSource = 0 then 0 else (case t xSource of None \<Rightarrow> 0 | Some n \<Rightarrow> n))"

definition tally_Add :: "64 word \<Rightarrow> source_tally \<Rightarrow> source_tally" where
  "tally_Add xSource t =
     (if xSource = 0 then t else t(xSource \<mapsto> (case t xSource of None \<Rightarrow> 0 | Some n \<Rightarrow> n) + 1))"

definition tally_Sub :: "64 word \<Rightarrow> source_tally \<Rightarrow> source_tally" where
  "tally_Sub xSource t =
     (if xSource = 0 then t
      else (case t xSource of None \<Rightarrow> t
            | Some n \<Rightarrow> if n - 1 \<le> 0 then t(xSource := None) else t(xSource \<mapsto> n - 1)))"

subsection \<open>A service\<close>

text \<open>
  What a service and the connections it spawned share (\<open>m_pxAccepted\<close>, \<open>m_pxSourceTally\<close>), its limits
  (0: none), its filter and ceiling; and, to say what the counts mean, the origins of its connections that live.
\<close>

record service =
  m_pxAccepted :: int
  m_pxSourceTally :: source_tally
  m_xMaxAccepted :: int
  m_xMaxAcceptedPerSource :: int
  m_pxSourceFilter :: "prefix_rule list"
  m_eTrustCeiling :: nat
  sv_live :: "64 word list"

definition DEF_P2PeerConAccept :: int where "DEF_P2PeerConAccept = 1024"
definition DEF_P2PeerConAcceptSource :: int where "DEF_P2PeerConAcceptSource = 0"

definition service_new :: service where
  "service_new =
     \<lparr>m_pxAccepted = 0, m_pxSourceTally = (\<lambda>s. None), m_xMaxAccepted = DEF_P2PeerConAccept,
      m_xMaxAcceptedPerSource = DEF_P2PeerConAcceptSource, m_pxSourceFilter = [],
      m_eTrustCeiling = P2PeerConTrust_InProcess, sv_live = []\<rparr>"

definition SetMaxAccepted :: "int \<Rightarrow> service \<Rightarrow> service" where
  "SetMaxAccepted xMax s = s\<lparr>m_xMaxAccepted := (if xMax < 0 then 0 else xMax)\<rparr>"

definition SetMaxAcceptedPerSource :: "int \<Rightarrow> service \<Rightarrow> service" where
  "SetMaxAcceptedPerSource xMax s = s\<lparr>m_xMaxAcceptedPerSource := (if xMax < 0 then 0 else xMax)\<rparr>"

definition GetAcceptedCountFromSource :: "service \<Rightarrow> 64 word \<Rightarrow> int" where
  "GetAcceptedCountFromSource s xSource = tally_Count (m_pxSourceTally s) xSource"

definition AcceptAtCapacity :: "service \<Rightarrow> bool" where
  "AcceptAtCapacity s \<longleftrightarrow> m_xMaxAccepted s > 0 \<and> m_pxAccepted s \<ge> m_xMaxAccepted s"

definition SourceAtCapacity :: "service \<Rightarrow> 64 word \<Rightarrow> bool" where
  "SourceAtCapacity s xSource \<longleftrightarrow>
     xSource \<noteq> 0 \<and> m_xMaxAcceptedPerSource s > 0 \<and> GetAcceptedCountFromSource s xSource \<ge> m_xMaxAcceptedPerSource s"

text \<open>The part of \<open>P2PeerCon::AcceptSpawn\<close> and of the destructor that counts.\<close>

definition count_spawn :: "64 word \<Rightarrow> service \<Rightarrow> service" where
  "count_spawn xSource s =
     s\<lparr>m_pxAccepted := m_pxAccepted s + 1, m_pxSourceTally := tally_Add xSource (m_pxSourceTally s),
       sv_live := xSource # sv_live s\<rparr>"

definition count_destroy :: "64 word \<Rightarrow> service \<Rightarrow> service" where
  "count_destroy xSource s =
     s\<lparr>m_pxAccepted := m_pxAccepted s - 1, m_pxSourceTally := tally_Sub xSource (m_pxSourceTally s),
       sv_live := remove1 xSource (sv_live s)\<rparr>"

datatype accept_result = Admitted | NotAllowed | ServiceFull | SourceFull | Fenced

definition WsaAdmit :: "hub_policy option \<Rightarrow> service \<Rightarrow> sockaddr option \<Rightarrow> accept_result" where
  "WsaAdmit pHub s peer =
     (let oSource = AcceptSourceAddress peer; xSource = KeyP2PeerConSource oSource in
      if \<not> IsAcceptSourceAllowed (m_pxSourceFilter s) oSource then NotAllowed
      else if AcceptAtCapacity s then ServiceFull
      else if SourceAtCapacity s xSource then SourceFull
      else if TrustFenceRefusesClass pHub (m_eTrustCeiling s)
                (if IsP2PeerConSockaddrLoopback oSource then P2PeerConTrust_Local else P2PeerConTrust_Wire) then Fenced
      else Admitted)"

text \<open>The spawned connection asks the socket for its origin again; it answers the same.\<close>

definition WsaAcceptSpawn :: "hub_policy option \<Rightarrow> service \<Rightarrow> sockaddr option \<Rightarrow> accept_result \<times> service" where
  "WsaAcceptSpawn pHub s peer =
     (case WsaAdmit pHub s peer of
        Admitted \<Rightarrow> (Admitted, count_spawn (AcceptSourceKey peer) s)
      | r \<Rightarrow> (r, s))"

subsection \<open>The counts are exact and the limits hold\<close>

text \<open>A service in the course of accepts, and of its connections being destroyed.\<close>

inductive serving :: "hub_policy option \<Rightarrow> service \<Rightarrow> service \<Rightarrow> bool" for pHub s0 where
  start: "serving pHub s0 s0"
| accept: "serving pHub s0 s \<Longrightarrow> serving pHub s0 (snd (WsaAcceptSpawn pHub s peer))"
| destroy: "serving pHub s0 s \<Longrightarrow> xSource \<in> set (sv_live s) \<Longrightarrow> serving pHub s0 (count_destroy xSource s)"

definition live_from :: "service \<Rightarrow> 64 word \<Rightarrow> nat" where
  "live_from s x = count (mset (sv_live s)) x"

definition counts_exact :: "service \<Rightarrow> bool" where
  "counts_exact s \<longleftrightarrow> m_pxAccepted s = int (length (sv_live s))
     \<and> (\<forall>x. m_pxSourceTally s x = (if x = 0 \<or> live_from s x = 0 then None else Some (int (live_from s x))))"

lemma counts_exact_Count: "counts_exact s \<Longrightarrow> x \<noteq> 0 \<Longrightarrow> tally_Count (m_pxSourceTally s) x = int (live_from s x)"
  by (auto simp: counts_exact_def tally_Count_def)

lemma counts_exact_spawn:
  assumes "counts_exact s"
  shows "counts_exact (count_spawn k s)"
  using assms by (auto simp: counts_exact_def count_spawn_def live_from_def tally_Add_def)

lemma counts_exact_destroy:
  assumes "counts_exact s" and "k \<in> set (sv_live s)"
  shows "counts_exact (count_destroy k s)"
proof -
  have n: "live_from s k \<noteq> 0" "live_from (count_destroy k s) x = live_from s x - (if x = k then 1 else 0)" for x
    using assms(2) by (simp_all add: live_from_def count_destroy_def)
  have t: "m_pxSourceTally s x = (if x = 0 \<or> live_from s x = 0 then None else Some (int (live_from s x)))" for x
    using assms(1) by (simp add: counts_exact_def)
  have "m_pxSourceTally (count_destroy k s) x =
      (if x = 0 \<or> live_from (count_destroy k s) x = 0 then None else Some (int (live_from (count_destroy k s) x)))" for x
    using n(1) unfolding n(2) by (auto simp: count_destroy_def tally_Sub_def t of_nat_diff)
  moreover have "m_pxAccepted (count_destroy k s) = int (length (sv_live (count_destroy k s)))"
    using assms by (simp add: count_destroy_def counts_exact_def length_remove1) (metis One_nat_def Suc_leI length_pos_if_in_set of_nat_1 of_nat_diff)
  ultimately show ?thesis by (simp add: counts_exact_def)
qed

text \<open>
  C36: A service counts what it holds and holds no more than it may.  However accepts and the ends of
  connections interleave, the shared count is the number of connections that live and the tally of an
  origin the number of those from it; a limit that is set is never exceeded, in all or from one origin;
  and an accept that finds a limit reached is refused, unless the filter refuses it first.
\<close>

theorem accept_limits:
  assumes "serving pHub s0 s" and "counts_exact s0"
    and "m_xMaxAccepted s0 \<le> 0 \<or> int (length (sv_live s0)) \<le> m_xMaxAccepted s0"
    and "\<forall>x. x = 0 \<or> m_xMaxAcceptedPerSource s0 \<le> 0 \<or> int (live_from s0 x) \<le> m_xMaxAcceptedPerSource s0"
  shows "m_pxAccepted s = int (length (sv_live s))
    \<and> (x \<noteq> 0 \<longrightarrow> GetAcceptedCountFromSource s x = int (live_from s x))
    \<and> (m_xMaxAccepted s0 \<le> 0 \<or> int (length (sv_live s)) \<le> m_xMaxAccepted s0)
    \<and> (x = 0 \<or> m_xMaxAcceptedPerSource s0 \<le> 0 \<or> int (live_from s x) \<le> m_xMaxAcceptedPerSource s0)
    \<and> (m_xMaxAccepted s0 > 0 \<and> int (length (sv_live s)) = m_xMaxAccepted s0 \<longrightarrow>
         WsaAdmit pHub s peer \<in> {NotAllowed, ServiceFull})"
proof -
  have "counts_exact s \<and> m_xMaxAccepted s = m_xMaxAccepted s0 \<and> m_xMaxAcceptedPerSource s = m_xMaxAcceptedPerSource s0
    \<and> (m_xMaxAccepted s0 \<le> 0 \<or> int (length (sv_live s)) \<le> m_xMaxAccepted s0)
    \<and> (\<forall>x. x = 0 \<or> m_xMaxAcceptedPerSource s0 \<le> 0 \<or> int (live_from s x) \<le> m_xMaxAcceptedPerSource s0)"
    using assms(1)
  proof induction
    case start
    show ?case using assms(2-4) by simp
  next
    case (accept s peer)
    let ?k = "AcceptSourceKey peer"
    show ?case
    proof (cases "WsaAdmit pHub s peer")
      case Admitted
      then have f: "\<not> AcceptAtCapacity s" "\<not> SourceAtCapacity s ?k"
        by (auto simp: WsaAdmit_def Let_def AcceptSourceKey_def split: if_splits)
      have l: "live_from (count_spawn ?k s) x = live_from s x + (if x = ?k then 1 else 0)" for x
        by (simp add: live_from_def count_spawn_def)
      have "?k = 0 \<or> m_xMaxAcceptedPerSource s0 \<le> 0 \<or> int (live_from s ?k) < m_xMaxAcceptedPerSource s0"
        using f(2) accept.IH counts_exact_Count [of s ?k]
        by (auto simp: SourceAtCapacity_def GetAcceptedCountFromSource_def)
      moreover have "m_xMaxAccepted s0 \<le> 0 \<or> int (length (sv_live s)) < m_xMaxAccepted s0"
        using f(1) accept.IH by (auto simp: AcceptAtCapacity_def counts_exact_def)
      ultimately show ?thesis
        using accept.IH counts_exact_spawn [of s ?k]
        by (auto simp: WsaAcceptSpawn_def Admitted l) (auto simp: count_spawn_def)
    qed (use accept.IH in \<open>simp_all add: WsaAcceptSpawn_def\<close>)
  next
    case (destroy s k)
    have "live_from (count_destroy k s) x \<le> live_from s x" "length (sv_live (count_destroy k s)) \<le> length (sv_live s)" for x
      by (simp_all add: live_from_def count_destroy_def length_remove1)
    then show ?case
      using destroy.IH counts_exact_destroy [OF _ destroy.hyps(2)]
      by (auto simp: count_destroy_def intro: order_trans [OF of_nat_mono])
  qed
  then show ?thesis
    using counts_exact_Count [of s x]
    by (auto simp: GetAcceptedCountFromSource_def counts_exact_def WsaAdmit_def Let_def AcceptAtCapacity_def)
qed

theorem accept_limits_witness:
  "let s0 = SetMaxAccepted 1 service_new; s = snd (WsaAcceptSpawn None s0 (Some (SockIn 80 [10, 0, 0, 1]))) in
     m_pxAccepted s = 1 \<and> GetAcceptedCountFromSource s 16777226 = 1
     \<and> WsaAdmit None s (Some (SockIn 80 [10, 0, 0, 2])) = ServiceFull"
proof -
  define s0 where "s0 = SetMaxAccepted 1 service_new"
  define s where "s = snd (WsaAcceptSpawn None s0 (Some (SockIn 80 [10, 0, 0, 1])))"
  have key: "AcceptSourceKey (Some (SockIn 80 [10, 0, 0, 1])) = 16777226"
    by (simp add: AcceptSourceKey_def AcceptSourceAddress_def NormaliseP2PeerConSockaddr_def P2PeerConAddrBytes_def KeyP2PeerConSource_def)
  have adm: "WsaAdmit None s0 (Some (SockIn 80 [10, 0, 0, 1])) = Admitted"
    by (simp add: WsaAdmit_def Let_def s0_def SetMaxAccepted_def service_new_def IsAcceptSourceAllowed_def HasAcceptSourceFilter_def
        AcceptAtCapacity_def SourceAtCapacity_def DEF_P2PeerConAcceptSource_def TrustFenceRefusesClass_def TrustFenceFloor_def)
  have s: "s = count_spawn 16777226 s0" by (simp add: s_def WsaAcceptSpawn_def adm key)
  have live: "sv_live s = [16777226]" "m_pxSourceFilter s = []"
    by (simp_all add: s count_spawn_def s0_def SetMaxAccepted_def service_new_def)
  have "serving None s0 s" unfolding s_def by (intro serving.intros)
  moreover have "counts_exact s0"
    by (simp add: counts_exact_def s0_def SetMaxAccepted_def service_new_def live_from_def)
  moreover have "m_xMaxAccepted s0 \<le> 0 \<or> int (length (sv_live s0)) \<le> m_xMaxAccepted s0"
    "\<forall>x. x = 0 \<or> m_xMaxAcceptedPerSource s0 \<le> 0 \<or> int (live_from s0 x) \<le> m_xMaxAcceptedPerSource s0"
    by (simp_all add: s0_def SetMaxAccepted_def service_new_def DEF_P2PeerConAcceptSource_def)
  ultimately have h: "m_pxAccepted s = int (length (sv_live s)) \<and> GetAcceptedCountFromSource s 16777226 = int (live_from s 16777226)
    \<and> (m_xMaxAccepted s0 > 0 \<and> int (length (sv_live s)) = m_xMaxAccepted s0 \<longrightarrow>
         WsaAdmit None s (Some (SockIn 80 [10, 0, 0, 2])) \<in> {NotAllowed, ServiceFull})"
    using accept_limits [of None s0 s "16777226" "Some (SockIn 80 [10, 0, 0, 2])"] by simp
  have "WsaAdmit None s (Some (SockIn 80 [10, 0, 0, 2])) \<noteq> NotAllowed"
    by (simp add: WsaAdmit_def Let_def live IsAcceptSourceAllowed_def HasAcceptSourceFilter_def)
  with h have "m_pxAccepted s = 1 \<and> GetAcceptedCountFromSource s 16777226 = 1
     \<and> WsaAdmit None s (Some (SockIn 80 [10, 0, 0, 2])) = ServiceFull"
    by (auto simp: live live_from_def s0_def SetMaxAccepted_def)
  then show ?thesis unfolding s_def s0_def Let_def .
qed

end
