(* ===== verification/ConLink.thy ===== *)
theory ConLink
  imports ConQueue ConAccept Address
begin

text \<open>
  The link layer of a connection (P2PeerCon.cpp): its state word, the key agreement, the login and its
  acknowledgement, the gate that checks them, and what a restart forgets.

  An operation that throws in the source answers the reason and the connection as it stands at the
  throw; the caller then drops the connection.  \<open>pHub\<close> is the policy of the hub that governs the
  connection (\<open>GetAuthHub\<close>), \<open>None\<close> when no hub does; \<open>pfx\<close> the prefix a new message gets; \<open>eph\<close> the
  private half of a generated key pair and \<open>rnd\<close> the random bytes of a nonce, each \<open>None\<close> when the
  generator fails.  A handler state that an operation requires of its caller is the argument \<open>bPump\<close>.
\<close>

datatype id_map = P2PeerIDmap_NONE | P2PeerIDmap_Normal | P2PeerIDmap_Discontinuous | P2PeerIDmap_STATIC
  | P2PeerIDmap_Recursive | P2PeerIDmap_FRACTAL

datatype con_error = WrongHandler | NullRemote | NullLocal | NotInDomain | SwapPeer | SwapHub | WrongMapping
  | KeyGenFailed | KeyXOnRelaxed | KeyXDuplicate | KeyXSize | KeyXUnasked | KeyAgreeFailed | BindFailed | SessionKeyFailed
  | NoTransport | CypherNotConsulted | CannotSign AuthResult
  | NoGoverningHub | NotKeyed | LoginMapped | LoginRefused AuthResult
  | WrongMode | UnclearedEvent | Destroyed
  | BeforeLogin | SourceNotIdentity | RelayMapped | RelayNotEntitled | RelayRefused AuthResult
  | SealedTooShort | SealedUnopened SealResult

definition ConState_BCasts :: "32 word" where "ConState_BCasts = push_bit 0 1"
definition ConState_UCasts :: "32 word" where "ConState_UCasts = push_bit 1 1"
definition ConState_Recv :: "32 word" where "ConState_Recv = push_bit 2 1"
definition ConState_Send :: "32 word" where "ConState_Send = push_bit 3 1"
definition ConState_PKey :: "32 word" where "ConState_PKey = push_bit 4 1"
definition ConState_Login :: "32 word" where "ConState_Login = push_bit 5 1"
definition ConState_CloseOnIdle :: "32 word" where "ConState_CloseOnIdle = push_bit 6 1"
definition ConState_AcceptUnnamed :: "32 word" where "ConState_AcceptUnnamed = push_bit 7 1"
definition ConState_LoginHold :: "32 word" where "ConState_LoginHold = push_bit 8 1"
definition ConState_LoginParked :: "32 word" where "ConState_LoginParked = push_bit 9 1"
definition ON_ConClose :: "32 word" where
  "ON_ConClose = ConState_Send OR ConState_Recv OR ConState_Login OR ConState_CloseOnIdle"

text \<open>
  The fields of a connection that decide.  \<open>m_oP2Padomain\<close> is \<open>None\<close> when empty, else the predicate
  \<open>IsMapped\<close> of the domain; \<open>con_hub_addr\<close> is \<open>GetP2PaddrHub\<close>, empty before the connection is
  registered; \<open>con_class\<close> is \<open>TrustClass\<close> of the transport; the transport is \<open>None\<close> or whether its frames
  leave the process and whether it consults a cypher; \<open>m_pP2Pcrypto\<close> the installed send and receive keys.
\<close>

record con =
  m_eP2PeerConMode :: con_mode
  m_dwState :: "32 word"
  m_oThatP2Paddr :: wstr
  m_oP2Padomain :: "(wstr \<Rightarrow> bool) option"
  m_oVNetPeer :: wstr
  m_eP2PeerIDmap :: id_map
  m_oThisP2Paddr1 :: wstr
  m_oThatP2Paddr1 :: wstr
  con_hub_addr :: wstr
  con_class :: nat
  con_ceiling :: nat
  m_AuthNonce :: bytes
  m_bAuthNonce :: bool
  m_cbAuthStrip :: nat
  m_oAuthPeer :: wstr
  m_pKeyX :: "bytes option"
  m_KeyXPubThis :: bytes
  m_KeyXPubThat :: bytes
  m_KeyXBind :: bytes
  m_bKeyXBound :: bool
  m_bKeyXDone :: bool
  m_bKeyXClient :: bool
  m_pLoginDefer :: "bytes option"
  m_bLoginDefer :: bool
  m_pP2Peerio :: "(bool \<times> bool) option"
  m_pP2Pcrypto :: "(bytes \<times> bytes) option"
  con_que :: out_que

type_synonym con_result = "con_error option \<times> con"

abbreviation con_then :: "con_result \<Rightarrow> (con \<Rightarrow> con_result) \<Rightarrow> con_result" where
  "con_then r f \<equiv> (case r of (e, c) \<Rightarrow> case e of None \<Rightarrow> f c | Some x \<Rightarrow> (Some x, c))"

subsection \<open>The state word\<close>

definition SetState :: "32 word \<Rightarrow> 32 word \<Rightarrow> con \<Rightarrow> con" where
  "SetState dwAdd dwRemove c = c\<lparr>m_dwState := (m_dwState c AND NOT dwRemove) OR dwAdd\<rparr>"

definition GetState :: "32 word \<Rightarrow> con \<Rightarrow> 32 word" where
  "GetState dwMask c = m_dwState c AND dwMask"

definition HasState :: "32 word \<Rightarrow> con \<Rightarrow> bool" where
  "HasState dwStateMask c \<longleftrightarrow> m_dwState c AND dwStateMask = dwStateMask"

text \<open>The receive loop stops for a login the pump still owes; the login lets it go on.\<close>

definition ParkForLogin :: "con \<Rightarrow> bool \<times> con" where
  "ParkForLogin c =
     (if m_dwState c AND ConState_LoginHold = 0 then (False, c)
      else (True, c\<lparr>m_dwState := (m_dwState c AND NOT ConState_LoginHold) OR ConState_LoginParked\<rparr>))"

definition ReleaseLoginHold :: "con \<Rightarrow> bool \<times> con" where
  "ReleaseLoginHold c =
     (let c1 = c\<lparr>con_que := (if m_oCListMsgQue (con_que c) \<noteq> [] then wake_send (con_que c) else con_que c)\<rparr>;
          dwBits = ConState_LoginHold OR ConState_LoginParked
      in if m_dwState c1 AND dwBits = 0 then (False, c1)
         else (m_dwState c1 AND ConState_LoginParked \<noteq> 0, c1\<lparr>m_dwState := m_dwState c1 AND NOT dwBits\<rparr>))"

subsection \<open>New connections\<close>

definition con_new :: "nat \<Rightarrow> (bool \<times> bool) option \<Rightarrow> con" where
  "con_new eClass io =
     \<lparr> m_eP2PeerConMode = P2PeerCon_Unknown, m_dwState = 0, m_oThatP2Paddr = [], m_oP2Padomain = None, m_oVNetPeer = [],
       m_eP2PeerIDmap = P2PeerIDmap_NONE, m_oThisP2Paddr1 = [], m_oThatP2Paddr1 = [], con_hub_addr = [],
       con_class = eClass, con_ceiling = P2PeerConTrust_InProcess,
       m_AuthNonce = replicate kAuthNonceLen 0, m_bAuthNonce = False, m_cbAuthStrip = 0, m_oAuthPeer = [],
       m_pKeyX = None, m_KeyXPubThis = replicate kEcdhPubLen 0, m_KeyXPubThat = replicate kEcdhPubLen 0,
       m_KeyXBind = replicate kAuthBindLen 0, m_bKeyXBound = False, m_bKeyXDone = False, m_bKeyXClient = False,
       m_pLoginDefer = None, m_bLoginDefer = False, m_pP2Peerio = io, m_pP2Pcrypto = None,
       con_que = \<lparr>m_oCListMsgQue = [], m_pP2PeerMsgSend = None, m_pOVERLAPPEDsend = None\<rparr> \<rparr>"

text \<open>What a service's accepted connection takes from it; the counting is \<open>count_spawn\<close>.\<close>

definition AcceptSpawn :: "con \<Rightarrow> con \<Rightarrow> con" where
  "AcceptSpawn c pConSpawn =
     pConSpawn\<lparr>m_pP2Peerio := m_pP2Peerio c, m_oThisP2Paddr1 := [], m_oThatP2Paddr1 := [],
       m_oThatP2Paddr := (if HasState ConState_AcceptUnnamed c then [] else m_oThatP2Paddr c),
       m_eP2PeerIDmap := m_eP2PeerIDmap c, m_eP2PeerConMode := P2PeerCon_Accept, m_oP2Padomain := m_oP2Padomain c,
       con_ceiling := con_ceiling c, m_oVNetPeer := m_oVNetPeer c,
       m_dwState := m_dwState c AND NOT (ConState_Recv OR ConState_Send OR ConState_Login OR ConState_AcceptUnnamed)\<rparr>"

subsection \<open>Mounted networks\<close>

definition IsVNetMount :: "con \<Rightarrow> bool" where
  "IsVNetMount c \<longleftrightarrow> m_oVNetPeer c \<noteq> []"

definition SetVNetMount :: "wstr \<Rightarrow> con \<Rightarrow> con" where
  "SetVNetMount strPeerHub c = c\<lparr>m_oVNetPeer := strPeerHub\<rparr>"

definition VNetWireSrc :: "con \<Rightarrow> wstr \<Rightarrow> wstr" where
  "VNetWireSrc c strSrc = m_oVNetPeer c @ [chColon] @ strSrc"

definition VNetWireDst :: "con \<Rightarrow> wstr \<Rightarrow> wstr" where
  "VNetWireDst c strDst = (if HasVNet strDst \<and> con_hub_addr c = GetVNet strDst then GetVNetAddr strDst else strDst)"

subsection \<open>The key agreement\<close>

definition AuthLinkRelaxed :: "hub_policy option \<Rightarrow> con \<Rightarrow> bool" where
  "AuthLinkRelaxed pHub c =
     (case pHub of None \<Rightarrow> False
      | Some h \<Rightarrow> if \<not> IsAuthRequired h then False
                  else hub_GetLinkPolicy (EffectiveTrust (con_class c) (con_ceiling c)) h \<noteq> P2PeerLinkPolicy_Full)"

definition KeyXWanted :: "hub_policy option \<Rightarrow> con \<Rightarrow> bool" where
  "KeyXWanted pHub c =
     (case pHub of None \<Rightarrow> False | Some h \<Rightarrow> IsAuthRequired h \<and> \<not> AuthLinkRelaxed pHub c)"

definition con_post :: "p2p_prefix \<Rightarrow> wstr \<Rightarrow> bytes \<Rightarrow> con \<Rightarrow> con" where
  "con_post pfx nam data c =
     c\<lparr>con_que := PostP2PeerMsg (con_que c) (msg_between pfx (con_hub_addr c) (m_oThatP2Paddr c) nam data)\<rparr>"

definition con_post_handshake :: "p2p_prefix \<Rightarrow> wstr \<Rightarrow> bytes \<Rightarrow> con \<Rightarrow> con" where
  "con_post_handshake pfx nam data c =
     c\<lparr>con_que := PostHandshakeP2PeerMsg (con_que c) (msg_between pfx (con_hub_addr c) (m_oThatP2Paddr c) nam data)\<rparr>"

definition szInfoC2S :: bytes where "szInfoC2S = narrow ''P2P-session-v1-c2s''"
definition szInfoS2C :: bytes where "szInfoS2C = narrow ''P2P-session-v1-s2c''"

definition KeyXBegin :: "crypto \<Rightarrow> p2p_prefix \<Rightarrow> bytes option \<Rightarrow> con \<Rightarrow> con_result" where
  "KeyXBegin cr pfx eph c =
     (if m_pKeyX c \<noteq> None then (None, c)
      else (case eph of None \<Rightarrow> (Some KeyGenFailed, c)
      | Some e \<Rightarrow> (case EcdhPublic cr e of None \<Rightarrow> (Some KeyGenFailed, c)
        | Some pub \<Rightarrow> (None, con_post pfx P2Pmsg_KeyX pub (c\<lparr>m_KeyXPubThis := pub, m_pKeyX := Some e, m_bKeyXClient := True\<rparr>)))))"

text \<open>The binding names both public halves; the keys come from the secret and the binding.\<close>

definition KeyXDerive :: "crypto \<Rightarrow> con \<Rightarrow> con_result" where
  "KeyXDerive cr c =
     (case (case m_pKeyX c of None \<Rightarrow> None | Some e \<Rightarrow> EcdhSecret cr e (m_KeyXPubThat c)) of
        None \<Rightarrow> (Some KeyAgreeFailed, c)
      | Some aSecret \<Rightarrow>
          (case AuthChannelBind cr (if m_bKeyXClient c then m_KeyXPubThis c else m_KeyXPubThat c)
                  (if m_bKeyXClient c then m_KeyXPubThat c else m_KeyXPubThis c) of
             None \<Rightarrow> (Some BindFailed, c)
           | Some bnd \<Rightarrow>
               (let c1 = c\<lparr>m_KeyXBind := bnd, m_bKeyXBound := True\<rparr> in
                case (HkdfSha256 cr aSecret bnd szInfoC2S, HkdfSha256 cr aSecret bnd szInfoS2C) of
                  (Some kC2S, Some kS2C) \<Rightarrow>
                    (case m_pP2Peerio c1 of None \<Rightarrow> (Some NoTransport, c1)
                     | Some (bLeaves, bConsults) \<Rightarrow>
                         (let c2 = c1\<lparr>m_pP2Pcrypto := Some (if m_bKeyXClient c then (kC2S, kS2C) else (kS2C, kC2S))\<rparr>
                          in if bLeaves \<and> \<not> bConsults then (Some CypherNotConsulted, c2)
                             else (None, c2\<lparr>m_bKeyXDone := True\<rparr>)))
                | _ \<Rightarrow> (Some SessionKeyFailed, c1))))"

definition KeyXOnRequest ::
  "crypto \<Rightarrow> hub_policy option \<Rightarrow> p2p_prefix \<Rightarrow> bytes option \<Rightarrow> peer_msg \<Rightarrow> con \<Rightarrow> con_result" where
  "KeyXOnRequest cr pHub pfx eph pMsg c =
     (if AuthLinkRelaxed pHub c then (Some KeyXOnRelaxed, c)
      else if m_bKeyXDone c \<or> m_pKeyX c \<noteq> None then (Some KeyXDuplicate, c)
      else if DataSize pMsg \<noteq> kEcdhPubLen then (Some KeyXSize, c)
      else (let c1 = c\<lparr>m_KeyXPubThat := Data pMsg\<rparr> in
        case eph of None \<Rightarrow> (Some KeyGenFailed, c1)
        | Some e \<Rightarrow> (case EcdhPublic cr e of None \<Rightarrow> (Some KeyGenFailed, c1)
          | Some pub \<Rightarrow>
              KeyXDerive cr (con_post pfx P2Pmsg_KeyXAck pub
                (c1\<lparr>m_KeyXPubThis := pub, m_pKeyX := Some e, m_bKeyXClient := False\<rparr>)))))"

text \<open>What a restart forgets.\<close>

definition KeyXReset :: "con \<Rightarrow> con" where
  "KeyXReset c =
     c\<lparr>m_pKeyX := None, m_KeyXPubThis := replicate kEcdhPubLen 0, m_KeyXPubThat := replicate kEcdhPubLen 0,
       m_KeyXBind := replicate kAuthBindLen 0, m_bKeyXBound := False, m_bKeyXDone := False, m_bKeyXClient := False,
       m_pLoginDefer := None, m_bLoginDefer := False,
       m_AuthNonce := replicate kAuthNonceLen 0, m_bAuthNonce := False, m_cbAuthStrip := 0, m_oAuthPeer := []\<rparr>"

subsection \<open>The login\<close>

definition key_bind :: "con \<Rightarrow> bytes option" where
  "key_bind c = (if m_bKeyXBound c then Some (m_KeyXBind c) else None)"

text \<open>The addresses a login is signed for: as the other end will read them.\<close>

definition login_src :: "con \<Rightarrow> wstr" where
  "login_src c = (if IsVNetMount c then VNetWireSrc c (con_hub_addr c) else con_hub_addr c)"

definition login_dst :: "con \<Rightarrow> wstr" where
  "login_dst c = (if IsVNetMount c then VNetWireDst c (m_oThatP2Paddr c) else m_oThatP2Paddr c)"

definition LoginSend ::
  "crypto \<Rightarrow> int \<Rightarrow> bytes option \<Rightarrow> hub_policy option \<Rightarrow> p2p_prefix \<Rightarrow> bytes \<Rightarrow> con \<Rightarrow> con_result" where
  "LoginSend cr now rnd pHub pfx pvLoginMsg c =
     (case pHub of
        Some h \<Rightarrow>
          if CanAuthSign h \<and> \<not> AuthLinkRelaxed pHub c
          then (case AuthBuildLogin cr now rnd h (login_src c) (login_dst c) kAuthLoginLen (key_bind c) of
                  Inl e \<Rightarrow> (Some (CannotSign e), c)
                | Inr (aBlock, nonce) \<Rightarrow>
                    (None, con_post_handshake pfx P2Pmsg_Login (aBlock @ pvLoginMsg) (c\<lparr>m_AuthNonce := nonce, m_bAuthNonce := True\<rparr>)))
          else (None, con_post_handshake pfx P2Pmsg_Login pvLoginMsg c)
      | None \<Rightarrow> (None, con_post_handshake pfx P2Pmsg_Login pvLoginMsg c))"

definition KeyXOnAck ::
  "crypto \<Rightarrow> int \<Rightarrow> bytes option \<Rightarrow> hub_policy option \<Rightarrow> p2p_prefix \<Rightarrow> peer_msg \<Rightarrow> con \<Rightarrow> con_result" where
  "KeyXOnAck cr now rnd pHub pfx pMsg c =
     (if m_bKeyXDone c \<or> m_pKeyX c = None then (Some KeyXUnasked, c)
      else if DataSize pMsg \<noteq> kEcdhPubLen then (Some KeyXSize, c)
      else con_then (KeyXDerive cr (c\<lparr>m_KeyXPubThat := Data pMsg\<rparr>)) (\<lambda>c1.
        if m_bLoginDefer c1
        then con_then (LoginSend cr now rnd pHub pfx (case m_pLoginDefer c1 of None \<Rightarrow> [] | Some d \<Rightarrow> d) (c1\<lparr>m_bLoginDefer := False\<rparr>))
               (\<lambda>c2. (None, c2\<lparr>m_pLoginDefer := None\<rparr>))
        else (None, c1)))"

definition Login ::
  "crypto \<Rightarrow> int \<Rightarrow> bytes option \<Rightarrow> bytes option \<Rightarrow> hub_policy option \<Rightarrow> p2p_prefix \<Rightarrow> bool \<Rightarrow> wstr \<Rightarrow> bytes \<Rightarrow> con \<Rightarrow> con_result" where
  "Login cr now rnd eph pHub pfx bPump strThatP2Paddr pvLoginMsg c =
     (let oThat = (if strThatP2Paddr = [] then m_oThatP2Paddr c else strThatP2Paddr) in
      if \<not> bPump then (Some WrongHandler, c)
      else (let c1 = (if oThat \<noteq> [] then c\<lparr>m_oThatP2Paddr := oThat\<rparr> else c) in
        if KeyXWanted pHub c1 \<and> \<not> m_bKeyXDone c1
        then KeyXBegin cr pfx eph
               (c1\<lparr>m_pLoginDefer := (if pvLoginMsg = [] then None else Some pvLoginMsg), m_bLoginDefer := True\<rparr>)
        else LoginSend cr now rnd pHub pfx pvLoginMsg c1))"

text \<open>The answer carries whether the receive loop has to be started again.\<close>

definition login_done :: "con \<Rightarrow> con" where
  "login_done c = snd (ReleaseLoginHold (SetState ConState_Login 0 c))"

definition OnLogin :: "bool \<Rightarrow> wstr \<Rightarrow> con \<Rightarrow> con_result" where
  "OnLogin bPump oThatP2Paddr c =
     (if \<not> bPump then (Some WrongHandler, c)
      else if oThatP2Paddr = [] \<and> m_oThatP2Paddr c = [] then (Some NullRemote, c)
      else if m_oThatP2Paddr c = [] then (Some NullLocal, c)
      else if oThatP2Paddr \<noteq> [] \<and> m_oThatP2Paddr c \<noteq> []
              \<and> (case m_oP2Padomain c of None \<Rightarrow> False | Some mapped \<Rightarrow> \<not> mapped oThatP2Paddr)
      then (Some NotInDomain, c)
      else (None, login_done (if oThatP2Paddr \<noteq> [] then c\<lparr>m_oThatP2Paddr := oThatP2Paddr\<rparr> else c)))"

definition LoginAck :: "crypto \<Rightarrow> hub_policy option \<Rightarrow> p2p_prefix \<Rightarrow> wstr \<Rightarrow> bytes \<Rightarrow> con \<Rightarrow> con_result" where
  "LoginAck cr pHub pfx oThatP2Paddr pvLoginAck c =
     (if oThatP2Paddr = [] \<and> m_oThatP2Paddr c = [] then (Some NullRemote, c)
      else if con_hub_addr c = [] then (Some NullLocal, c)
      else if m_eP2PeerConMode c = P2PeerCon_Accept \<and> oThatP2Paddr \<noteq> [] \<and> m_oThatP2Paddr c \<noteq> []
              \<and> (case m_oP2Padomain c of None \<Rightarrow> False | Some mapped \<Rightarrow> \<not> mapped oThatP2Paddr)
      then (Some NotInDomain, c)
      else (let c1 = (if m_eP2PeerConMode c = P2PeerCon_Accept \<and> oThatP2Paddr \<noteq> [] \<and> m_oThatP2Paddr c \<noteq> []
                      then c\<lparr>m_oThatP2Paddr := oThatP2Paddr\<rparr> else c) in
        if oThatP2Paddr \<noteq> [] \<and> m_oThatP2Paddr c1 \<noteq> [] \<and> m_oThatP2Paddr c1 \<noteq> oThatP2Paddr \<and> m_oThatP2Paddr c1 \<noteq> con_hub_addr c1
        then (Some SwapPeer, c1)
        else (let c2 = (if oThatP2Paddr \<noteq> [] then c1\<lparr>m_oThatP2Paddr := oThatP2Paddr\<rparr> else c1) in
          case (if m_bAuthNonce c2 then pHub else None) of
            Some h \<Rightarrow>
              if CanAuthSign h
              then (case AuthBuildAck cr h (login_src c2) (login_dst c2) (m_AuthNonce c2) kAuthAckLen (key_bind c2) of
                      Inl e \<Rightarrow> (Some (CannotSign e), c2)
                    | Inr aBlock \<Rightarrow> (None, login_done (con_post_handshake pfx P2Pmsg_LoginAck (aBlock @ pvLoginAck) c2)))
              else (None, login_done (con_post_handshake pfx P2Pmsg_LoginAck pvLoginAck c2))
          | None \<Rightarrow> (None, login_done (con_post_handshake pfx P2Pmsg_LoginAck pvLoginAck c2)))))"

text \<open>The hub's address belongs to the hub; the model keeps the connection's copy of it.\<close>

definition OnLoginAck_mapped :: "id_map \<Rightarrow> bool \<Rightarrow> wstr \<Rightarrow> wstr \<Rightarrow> con \<Rightarrow> con_result" where
  "OnLoginAck_mapped eMap bPump oThis1 oThat1 c =
     (if \<not> bPump then (Some WrongHandler, c)
      else if m_eP2PeerIDmap c \<noteq> eMap \<and> m_eP2PeerIDmap c \<noteq> P2PeerIDmap_NONE then (Some WrongMapping, c)
      else if oThis1 = [] \<and> m_oThisP2Paddr1 c = [] then (Some NullLocal, c)
      else if oThat1 = [] \<and> m_oThatP2Paddr1 c = [] then (Some NullRemote, c)
      else (None, login_done (c\<lparr>m_oThisP2Paddr1 := (if oThis1 \<noteq> [] then oThis1 else m_oThisP2Paddr1 c),
              m_oThatP2Paddr1 := (if oThat1 \<noteq> [] then oThat1 else m_oThatP2Paddr1 c), m_eP2PeerIDmap := eMap\<rparr>)))"

definition OnLoginAck :: "bool \<Rightarrow> wstr \<Rightarrow> wstr \<Rightarrow> con \<Rightarrow> con_result" where
  "OnLoginAck bPump oThis oThat c =
     (if \<not> bPump then (Some WrongHandler, c)
      else (case m_eP2PeerIDmap c of
        P2PeerIDmap_STATIC \<Rightarrow> OnLoginAck_mapped P2PeerIDmap_STATIC bPump oThis oThat c
      | P2PeerIDmap_FRACTAL \<Rightarrow> OnLoginAck_mapped P2PeerIDmap_FRACTAL bPump oThis oThat c
      | P2PeerIDmap_NONE \<Rightarrow>
          if oThis = [] \<and> con_hub_addr c = [] then (Some NullLocal, c)
          else if oThis \<noteq> [] \<and> con_hub_addr c \<noteq> [] \<and> con_hub_addr c \<noteq> oThis then (Some SwapHub, c)
          else (None, login_done (if oThis \<noteq> [] then c\<lparr>con_hub_addr := oThis\<rparr> else c))
      | _ \<Rightarrow> (Some WrongMapping, c)))"

end
