(* ===== verification/ConSession.thy ===== *)
theory ConSession
  imports ConLink
begin

text \<open>
  What a connection lets in (P2PeerCon.cpp): the gate every login and acknowledgement passes, what the
  pump hands to the handler of one, and the end of a session.  The lemmas follow one end of a link
  through every operation: whatever is called in whatever order, an authenticated connection has
  agreed keys with the other end, and the proof it accepted was made for those keys.
\<close>

subsection \<open>The login gate\<close>

text \<open>The answer carries the policy too, which remembers the nonce of an accepted login.\<close>

definition AuthGateInbound ::
  "crypto \<Rightarrow> int \<Rightarrow> hub_policy option \<Rightarrow> peer_msg \<Rightarrow> bool \<Rightarrow> con \<Rightarrow> con_result \<times> hub_policy option" where
  "AuthGateInbound cr now pHub pMsg bAck c =
     (case pHub of None \<Rightarrow> ((Some NoGoverningHub, c), pHub)
      | Some h \<Rightarrow>
        if \<not> KeyXWanted pHub c then ((None, c), pHub)
        else if \<not> m_bKeyXDone c then ((Some NotKeyed, c), pHub)
        else if m_eP2PeerIDmap c \<noteq> P2PeerIDmap_NONE then ((Some LoginMapped, c), pHub)
        else (let pSrc = GetSource pMsg; pDst = GetDestin pMsg; pIn = Data pMsg in
          if pIn = [] then ((Some (LoginRefused AuthErrFormat), c), pHub)
          else if \<not> bAck then
            (case AuthVerifyLogin cr now h pSrc pDst pIn (key_bind c) of ((eResult, aNonce, nSkew), h') \<Rightarrow>
               if eResult = AuthOk
               then ((None, c\<lparr>m_AuthNonce := (case aNonce of None \<Rightarrow> m_AuthNonce c | Some n \<Rightarrow> n), m_bAuthNonce := True,
                              m_cbAuthStrip := kAuthLoginLen, m_oAuthPeer := pSrc\<rparr>), Some h')
               else ((Some (LoginRefused eResult), c), Some h'))
          else if \<not> m_bAuthNonce c then ((Some (LoginRefused AuthErrArgs), c), pHub)
          else (let eResult = AuthVerifyAck cr now h pSrc pDst (m_AuthNonce c) pIn (key_bind c) in
               if eResult = AuthOk
               then ((None, c\<lparr>m_cbAuthStrip := kAuthAckLen, m_oAuthPeer := pSrc\<rparr>), pHub)
               else ((Some (LoginRefused eResult), c), pHub))))"

definition IsAuthenticated :: "con \<Rightarrow> bool" where
  "IsAuthenticated c \<longleftrightarrow> m_cbAuthStrip c \<noteq> 0"

text \<open>The pump hands the application the login's data without the block the gate read.\<close>

definition login_payload :: "con \<Rightarrow> peer_msg \<Rightarrow> bytes" where
  "login_payload c pMsg =
     (if m_cbAuthStrip c \<noteq> 0 \<and> DataSize pMsg \<ge> m_cbAuthStrip c then drop (m_cbAuthStrip c) (Data pMsg) else Data pMsg)"

subsection \<open>The other login, and the end of a session\<close>

definition Login_Fractal :: "p2p_prefix \<Rightarrow> bool \<Rightarrow> wstr \<Rightarrow> wstr \<Rightarrow> bytes \<Rightarrow> con \<Rightarrow> con_result" where
  "Login_Fractal pfx bPump strThis1 strThat1 pvLoginMsg c =
     (let oThis1 = (if strThis1 = [] then m_oThisP2Paddr1 c else strThis1);
          oThat1 = (if strThat1 = [] then m_oThatP2Paddr1 c else strThat1) in
      if \<not> bPump then (Some WrongHandler, c)
      else (None, con_post_handshake pfx P2Pmsg_Login pvLoginMsg
             (c\<lparr>m_oThisP2Paddr1 := (if oThis1 \<noteq> [] then oThis1 else m_oThisP2Paddr1 c),
                m_oThatP2Paddr1 := (if oThat1 \<noteq> [] then oThat1 else m_oThatP2Paddr1 c),
                m_eP2PeerIDmap := P2PeerIDmap_FRACTAL\<rparr>)))"

text \<open>Dropping a connection clears its state and the keys of its transport (\<open>P2Peerio::Reset\<close>).\<close>

definition con_Drop :: "con \<Rightarrow> con" where
  "con_Drop c =
     (SetState 0 (ConState_LoginHold OR ConState_LoginParked) (SetState 0 ON_ConClose c))\<lparr>m_pP2Pcrypto := None\<rparr>"

text \<open>\<open>bEvent\<close>: the error of the last session was not cleared; \<open>bDestroy\<close>: the connection is going away.\<close>

definition Restart :: "bool \<Rightarrow> bool \<Rightarrow> bool \<Rightarrow> con \<Rightarrow> con_result" where
  "Restart bPump bEvent bDestroy c =
     (if \<not> bPump then (Some WrongHandler, c)
      else if m_eP2PeerConMode c \<noteq> P2PeerCon_CLIENT \<and> m_eP2PeerConMode c \<noteq> P2PeerCon_SERVICE then (Some WrongMode, c)
      else if bEvent then (Some UnclearedEvent, c)
      else if bDestroy then (Some Destroyed, c)
      else (None, KeyXReset c))"

subsection \<open>One end of a link\<close>

text \<open>Every operation above, with what the outside supplies to it.\<close>

datatype link_call =
    CallLogin int "bytes option" "bytes option" "hub_policy option" p2p_prefix bool wstr bytes
  | CallFractal p2p_prefix bool wstr wstr bytes
  | CallKeyX "hub_policy option" p2p_prefix "bytes option" peer_msg
  | CallKeyXAck int "bytes option" "hub_policy option" p2p_prefix peer_msg
  | CallGate int "hub_policy option" peer_msg bool
  | CallOnLogin bool wstr
  | CallLoginAck "hub_policy option" p2p_prefix wstr bytes
  | CallOnLoginAck bool wstr wstr
  | CallState "32 word" "32 word"
  | CallHold
  | CallPost p2p_prefix wstr bytes
  | CallTake bool
  | CallMount wstr
  | CallRegister wstr
  | CallDrop
  | CallRestart bool bool bool

fun link_step :: "crypto \<Rightarrow> link_call \<Rightarrow> con \<Rightarrow> con_result" where
  "link_step cr (CallLogin now rnd eph pHub pfx b a d) c = Login cr now rnd eph pHub pfx b a d c"
| "link_step cr (CallFractal pfx b a1 a2 d) c = Login_Fractal pfx b a1 a2 d c"
| "link_step cr (CallKeyX pHub pfx eph m) c = KeyXOnRequest cr pHub pfx eph m c"
| "link_step cr (CallKeyXAck now rnd pHub pfx m) c = KeyXOnAck cr now rnd pHub pfx m c"
| "link_step cr (CallGate now pHub m bAck) c = fst (AuthGateInbound cr now pHub m bAck c)"
| "link_step cr (CallOnLogin b a) c = OnLogin b a c"
| "link_step cr (CallLoginAck pHub pfx a d) c = LoginAck cr pHub pfx a d c"
| "link_step cr (CallOnLoginAck b a1 a2) c = OnLoginAck b a1 a2 c"
| "link_step cr (CallState dwAdd dwRemove) c = (None, SetState dwAdd dwRemove c)"
| "link_step cr CallHold c = (None, snd (ParkForLogin c))"
| "link_step cr (CallPost pfx nam d) c = (None, con_post pfx nam d c)"
| "link_step cr (CallTake b) c = (None, c\<lparr>con_que := snd (GetSendableP2PeerMsg (m_eP2PeerConMode c) b (con_que c))\<rparr>)"
| "link_step cr (CallMount a) c = (None, SetVNetMount a c)"
| "link_step cr (CallRegister a) c = (None, c\<lparr>con_hub_addr := a\<rparr>)"
| "link_step cr CallDrop c = (None, con_Drop c)"
| "link_step cr (CallRestart b1 b2 b3) c = Restart b1 b2 b3 c"

text \<open>The connections there can be, failed calls included.\<close>

inductive linked :: "crypto \<Rightarrow> con \<Rightarrow> bool" for cr where
  created: "linked cr (con_new eClass io)"
| spawned: "linked cr (AcceptSpawn service (con_new eClass io))"
| called: "linked cr c \<Longrightarrow> linked cr (snd (link_step cr call c))"

text \<open>The keys of a link, and what was accepted on it.\<close>

definition client_half :: "con \<Rightarrow> bytes" where
  "client_half c = (if m_bKeyXClient c then m_KeyXPubThis c else m_KeyXPubThat c)"

definition server_half :: "con \<Rightarrow> bytes" where
  "server_half c = (if m_bKeyXClient c then m_KeyXPubThat c else m_KeyXPubThis c)"

definition keys_agreed :: "crypto \<Rightarrow> con \<Rightarrow> bool" where
  "keys_agreed cr c \<longleftrightarrow>
     m_bKeyXBound c \<and> length (m_KeyXPubThat c) = kEcdhPubLen
   \<and> (\<exists>e sec kC2S kS2C. m_pKeyX c = Some e \<and> EcdhPublic cr e = Some (m_KeyXPubThis c)
        \<and> EcdhSecret cr e (m_KeyXPubThat c) = Some sec
        \<and> AuthChannelBind cr (client_half c) (server_half c) = Some (m_KeyXBind c)
        \<and> HkdfSha256 cr sec (m_KeyXBind c) szInfoC2S = Some kC2S \<and> HkdfSha256 cr sec (m_KeyXBind c) szInfoS2C = Some kS2C
        \<and> m_pP2Pcrypto c \<in> {None, Some (if m_bKeyXClient c then (kC2S, kS2C) else (kS2C, kC2S))})"

definition proof_accepted :: "crypto \<Rightarrow> con \<Rightarrow> bool" where
  "proof_accepted cr c \<longleftrightarrow>
     (\<exists>now h dst blk. fst (fst (AuthVerifyLogin cr now h (m_oAuthPeer c) dst blk (Some (m_KeyXBind c)))) = AuthOk
        \<or> (\<exists>n. AuthVerifyAck cr now h (m_oAuthPeer c) dst n blk (Some (m_KeyXBind c)) = AuthOk))"

text \<open>An end that holds a private half has its public half too.\<close>

definition half_ok :: "crypto \<Rightarrow> con \<Rightarrow> bool" where
  "half_ok cr c \<longleftrightarrow> (\<forall>e. m_pKeyX c = Some e \<longrightarrow> EcdhPublic cr e = Some (m_KeyXPubThis c))"

definition link_ok :: "crypto \<Rightarrow> con \<Rightarrow> bool" where
  "link_ok cr c \<longleftrightarrow> (m_bKeyXDone c \<longrightarrow> keys_agreed cr c) \<and> (IsAuthenticated c \<longrightarrow> m_bKeyXDone c \<and> proof_accepted cr c) \<and> half_ok cr c"

text \<open>Most operations leave the fields of the session alone.\<close>

definition session_of :: "con \<Rightarrow> (bytes option \<times> bytes \<times> bytes \<times> bytes \<times> bool \<times> bool \<times> bool) \<times> (nat \<times> wstr)" where
  "session_of c = ((m_pKeyX c, m_KeyXPubThis c, m_KeyXPubThat c, m_KeyXBind c, m_bKeyXBound c, m_bKeyXDone c, m_bKeyXClient c),
     (m_cbAuthStrip c, m_oAuthPeer c))"

lemma link_ok_frame:
  assumes "link_ok cr c" and "session_of c' = session_of c" and "m_pP2Pcrypto c' \<in> {None, m_pP2Pcrypto c}"
  shows "link_ok cr c'"
  using assms
  by (auto simp: link_ok_def half_ok_def session_of_def keys_agreed_def client_half_def server_half_def IsAuthenticated_def proof_accepted_def
      split: option.splits)

lemma session_frames [simp]:
  "session_of (SetState a r c) = session_of c" "session_of (c\<lparr>con_que := q\<rparr>) = session_of c"
  "session_of (c\<lparr>m_oThatP2Paddr := x\<rparr>) = session_of c" "session_of (c\<lparr>m_dwState := w\<rparr>) = session_of c"
  "session_of (c\<lparr>m_AuthNonce := n, m_bAuthNonce := b\<rparr>) = session_of c"
  "session_of (con_post_handshake pfx nam d c) = session_of c" "session_of (con_post pfx nam d c) = session_of c"
  "session_of (login_done c) = session_of c" "session_of (SetVNetMount x c) = session_of c"
  "session_of (snd (ParkForLogin c)) = session_of c" "session_of (con_Drop c) = session_of c"
  "session_of (c\<lparr>m_pLoginDefer := p\<rparr>) = session_of c" "session_of (c\<lparr>m_bLoginDefer := l\<rparr>) = session_of c"
  "session_of (c\<lparr>con_hub_addr := x\<rparr>) = session_of c" "session_of (c\<lparr>m_eP2PeerIDmap := i\<rparr>) = session_of c"
  "session_of (c\<lparr>m_oThisP2Paddr1 := x\<rparr>) = session_of c" "session_of (c\<lparr>m_oThatP2Paddr1 := y\<rparr>) = session_of c"
  by (simp_all add: session_of_def SetState_def con_post_handshake_def con_post_def login_done_def ReleaseLoginHold_def Let_def
      SetVNetMount_def ParkForLogin_def con_Drop_def)

lemma crypto_frames [simp]:
  "m_pP2Pcrypto (SetState a r c) = m_pP2Pcrypto c"
  "m_pP2Pcrypto (con_post_handshake pfx nam d c) = m_pP2Pcrypto c" "m_pP2Pcrypto (con_post pfx nam d c) = m_pP2Pcrypto c"
  "m_pP2Pcrypto (login_done c) = m_pP2Pcrypto c" "m_pP2Pcrypto (SetVNetMount x c) = m_pP2Pcrypto c"
  "m_pP2Pcrypto (snd (ParkForLogin c)) = m_pP2Pcrypto c" "m_pP2Pcrypto (con_Drop c) = None"
  by (simp_all add: SetState_def con_post_handshake_def con_post_def login_done_def ReleaseLoginHold_def Let_def
      SetVNetMount_def ParkForLogin_def con_Drop_def)

text \<open>The calls that agree no keys and pass no login through the gate.\<close>

lemma plain_calls:
  "session_of (snd (LoginSend cr now rnd pHub pfx d c)) = session_of c \<and> m_pP2Pcrypto (snd (LoginSend cr now rnd pHub pfx d c)) = m_pP2Pcrypto c"
  "session_of (snd (Login_Fractal pfx b a1 a2 d c)) = session_of c \<and> m_pP2Pcrypto (snd (Login_Fractal pfx b a1 a2 d c)) = m_pP2Pcrypto c"
  "session_of (snd (OnLogin b a c)) = session_of c \<and> m_pP2Pcrypto (snd (OnLogin b a c)) = m_pP2Pcrypto c"
  "session_of (snd (LoginAck cr pHub pfx a d c)) = session_of c \<and> m_pP2Pcrypto (snd (LoginAck cr pHub pfx a d c)) = m_pP2Pcrypto c"
  "session_of (snd (OnLoginAck b a1 a2 c)) = session_of c \<and> m_pP2Pcrypto (snd (OnLoginAck b a1 a2 c)) = m_pP2Pcrypto c"
  subgoal by (auto simp: LoginSend_def split: option.split sum.split)
  subgoal by (auto simp: Login_Fractal_def Let_def)
  subgoal by (auto simp: OnLogin_def)
  subgoal by (auto simp: LoginAck_def Let_def split: option.split sum.split)
  subgoal by (auto simp: OnLoginAck_def OnLoginAck_mapped_def split: id_map.split)
  done

text \<open>The handler tests the peer's address where its message and its variable speak of the hub's.\<close>

lemma OnLogin_unnamed:
  "m_oThatP2Paddr c = [] \<Longrightarrow> OnLogin True a c = (Some (if a = [] then NullRemote else NullLocal), c)"
  by (simp add: OnLogin_def)

subsection \<open>Keys\<close>

lemma KeyXDerive_done:
  assumes "KeyXDerive cr c = (None, c')" and "length (m_KeyXPubThat c) = kEcdhPubLen"
    and "m_pKeyX c = Some e" and "EcdhPublic cr e = Some (m_KeyXPubThis c)"
  shows "keys_agreed cr c' \<and> m_bKeyXDone c' \<and> m_pKeyX c' = Some e \<and> m_cbAuthStrip c' = m_cbAuthStrip c \<and> m_oAuthPeer c' = m_oAuthPeer c"
  using assms
  by (auto simp: KeyXDerive_def keys_agreed_def client_half_def server_half_def Let_def split: option.splits prod.splits if_splits)

lemma KeyXDerive_kept:
  "m_pKeyX (snd (KeyXDerive cr c)) = m_pKeyX c" "m_KeyXPubThis (snd (KeyXDerive cr c)) = m_KeyXPubThis c"
  "m_cbAuthStrip (snd (KeyXDerive cr c)) = m_cbAuthStrip c"
  "\<not> m_bKeyXDone c \<Longrightarrow> fst (KeyXDerive cr c) \<noteq> None \<Longrightarrow> \<not> m_bKeyXDone (snd (KeyXDerive cr c))"
  by (auto simp: KeyXDerive_def Let_def split: option.splits prod.splits if_splits)

lemma link_ok_unkeyed: "\<not> m_bKeyXDone c \<Longrightarrow> m_cbAuthStrip c = 0 \<Longrightarrow> half_ok cr c \<Longrightarrow> link_ok cr c"
  by (simp add: link_ok_def IsAuthenticated_def)

text \<open>A derivation on a connection without keys leaves it in order, whether it succeeds or not.\<close>

lemma link_ok_derive:
  assumes "\<not> m_bKeyXDone c" and "m_cbAuthStrip c = 0" and "length (m_KeyXPubThat c) = kEcdhPubLen"
    and "m_pKeyX c = Some e" and "EcdhPublic cr e = Some (m_KeyXPubThis c)"
  shows "link_ok cr (snd (KeyXDerive cr c))"
proof (cases "KeyXDerive cr c")
  case (Pair x c')
  have h: "half_ok cr c'" using KeyXDerive_kept(1,2) [of cr c] Pair assms by (simp add: half_ok_def)
  show ?thesis
  proof (cases x)
    case None
    with Pair KeyXDerive_done [of cr c c' e] assms h show ?thesis by (simp add: link_ok_def IsAuthenticated_def)
  next
    case (Some y)
    with Pair KeyXDerive_kept [where c = c and cr = cr] assms h show ?thesis
      by (intro link_ok_unkeyed) auto
  qed
qed

lemma link_ok_request:
  assumes "link_ok cr c"
  shows "link_ok cr (snd (KeyXOnRequest cr pHub pfx eph m c))"
proof (cases "m_bKeyXDone c")
  case True
  with assms show ?thesis by (auto simp: KeyXOnRequest_def)
next
  case False
  then have a: "m_cbAuthStrip c = 0" using assms by (simp add: link_ok_def IsAuthenticated_def)
  define d where "d pub e = con_post pfx P2Pmsg_KeyXAck pub
    (c\<lparr>m_KeyXPubThat := Data m, m_KeyXPubThis := pub, m_pKeyX := Some e, m_bKeyXClient := False\<rparr>)" for pub e
  have d: "DataSize m = kEcdhPubLen \<Longrightarrow> EcdhPublic cr e = Some pub \<Longrightarrow> link_ok cr (snd (KeyXDerive cr (d pub e)))" for e pub
    by (rule link_ok_derive) (use False a in \<open>simp_all add: d_def con_post_def DataSize_def\<close>)
  have k: "link_ok cr (c\<lparr>m_KeyXPubThat := Data m\<rparr>)"
    using False a assms by (intro link_ok_unkeyed) (simp_all add: link_ok_def half_ok_def)
  show ?thesis
    using d assms k by (auto simp: KeyXOnRequest_def Let_def d_def [symmetric] split: option.split)
qed

lemma link_ok_ack:
  assumes "link_ok cr c"
  shows "link_ok cr (snd (KeyXOnAck cr now rnd pHub pfx m c))"
proof (cases "\<not> m_bKeyXDone c \<and> m_pKeyX c \<noteq> None \<and> DataSize m = kEcdhPubLen")
  case False
  with assms show ?thesis by (auto simp: KeyXOnAck_def)
next
  case True
  then obtain e where e: "m_pKeyX c = Some e" "EcdhPublic cr e = Some (m_KeyXPubThis c)"
    using assms by (auto simp: link_ok_def half_ok_def)
  have a: "m_cbAuthStrip c = 0" using assms True by (simp add: link_ok_def IsAuthenticated_def)
  obtain x c1 where d: "KeyXDerive cr (c\<lparr>m_KeyXPubThat := Data m\<rparr>) = (x, c1)" by fastforce
  have k: "link_ok cr c1"
    using link_ok_derive [of "c\<lparr>m_KeyXPubThat := Data m\<rparr>" e cr] True e a d by (simp add: DataSize_def)
  define c2 where "c2 = snd (LoginSend cr now rnd pHub pfx (case m_pLoginDefer c1 of None \<Rightarrow> [] | Some p \<Rightarrow> p) (c1\<lparr>m_bLoginDefer := False\<rparr>))"
  have "session_of c2 = session_of c1 \<and> m_pP2Pcrypto c2 = m_pP2Pcrypto c1"
    unfolding c2_def by (simp add: plain_calls)
  then have l: "link_ok cr c2" "link_ok cr (c2\<lparr>m_pLoginDefer := None\<rparr>)"
    by (auto intro: link_ok_frame [OF k])
  show ?thesis
    using True k l d c2_def by (auto simp: KeyXOnAck_def split: option.split prod.split)
qed

lemma link_ok_begin:
  "link_ok cr c \<Longrightarrow> link_ok cr (snd (KeyXBegin cr pfx eph c))"
proof -
  assume k: "link_ok cr c"
  have "m_pKeyX c = None \<Longrightarrow> EcdhPublic cr e = Some pub
      \<Longrightarrow> link_ok cr (con_post pfx nam d (c\<lparr>m_KeyXPubThis := pub, m_pKeyX := Some e, m_bKeyXClient := True\<rparr>))" for nam d pub e
    using k by (intro link_ok_unkeyed) (auto simp: link_ok_def IsAuthenticated_def con_post_def half_ok_def keys_agreed_def)
  then show ?thesis using k by (auto simp: KeyXBegin_def split: option.split)
qed

lemma link_ok_login:
  assumes "link_ok cr c"
  shows "link_ok cr (snd (Login cr now rnd eph pHub pfx b a d c))"
proof -
  have f: "link_ok cr (if x then c\<lparr>m_oThatP2Paddr := y\<rparr> else c)" for x y
    by (auto intro: link_ok_frame [OF assms])
  have g: "link_ok cr (c\<lparr>m_pLoginDefer := p, m_bLoginDefer := l\<rparr>)" if "link_ok cr c" for c p l
    by (rule link_ok_frame [OF that]) (simp_all add: session_of_def)
  have h: "link_ok cr (snd (LoginSend cr now rnd pHub pfx d c))" if "link_ok cr c" for c
    by (rule link_ok_frame [OF that]) (simp_all add: plain_calls)
  show ?thesis unfolding Login_def Let_def using assms f g h by (simp add: link_ok_begin)
qed

subsection \<open>The gate\<close>

lemma AuthGate_cases:
  assumes "AuthGateInbound cr now pHub m bAck c = ((e, c'), pHub')"
  obtains (kept) "c' = c" and "e = None \<Longrightarrow> pHub \<noteq> None \<and> \<not> KeyXWanted pHub c"
  | (login) h nonce sk h' where "pHub = Some h" and "e = None" and "KeyXWanted pHub c" and "m_bKeyXDone c" and "\<not> bAck"
      and "AuthVerifyLogin cr now h (GetSource m) (GetDestin m) (Data m) (key_bind c) = ((AuthOk, nonce, sk), h')"
      and "pHub' = Some h'" and "m_eP2PeerIDmap c = P2PeerIDmap_NONE"
      and "c' = c\<lparr>m_AuthNonce := (case nonce of None \<Rightarrow> m_AuthNonce c | Some n \<Rightarrow> n), m_bAuthNonce := True,
             m_cbAuthStrip := kAuthLoginLen, m_oAuthPeer := GetSource m\<rparr>"
  | (ack) h where "pHub = Some h" and "e = None" and "KeyXWanted pHub c" and "m_bKeyXDone c" and bAck and "m_bAuthNonce c"
      and "AuthVerifyAck cr now h (GetSource m) (GetDestin m) (m_AuthNonce c) (Data m) (key_bind c) = AuthOk"
      and "c' = c\<lparr>m_cbAuthStrip := kAuthAckLen, m_oAuthPeer := GetSource m\<rparr>" and "m_eP2PeerIDmap c = P2PeerIDmap_NONE"
proof -
  note g = assms [unfolded AuthGateInbound_def Let_def]
  show thesis
  proof (cases "pHub")
    case None
    with g show thesis by (intro kept) auto
  next
    case (Some h)
    show thesis
    proof (cases "KeyXWanted pHub c \<and> m_bKeyXDone c \<and> m_eP2PeerIDmap c = P2PeerIDmap_NONE \<and> Data m \<noteq> [] \<and> (bAck \<longrightarrow> m_bAuthNonce c)")
      case False
      with g Some show thesis by (intro kept) (auto split: if_splits)
    next
      case True
      show thesis
      proof (cases bAck)
        case True
        with \<open>KeyXWanted pHub c \<and> _\<close> g Some show thesis by (cases "AuthVerifyAck cr now h (GetSource m) (GetDestin m) (m_AuthNonce c) (Data m) (key_bind c) = AuthOk")
            (auto intro: kept ack)
      next
        case False
        obtain r n sk h' where v: "AuthVerifyLogin cr now h (GetSource m) (GetDestin m) (Data m) (key_bind c) = ((r, n, sk), h')"
          by (metis prod.exhaust)
        with False \<open>KeyXWanted pHub c \<and> _\<close> g Some show thesis
          by (cases "r = AuthOk") (auto intro: kept login)
      qed
    qed
  qed
qed

lemma keys_agreed_bind: "keys_agreed cr c \<Longrightarrow> key_bind c = Some (m_KeyXBind c)"
  by (simp add: keys_agreed_def key_bind_def)

lemma link_ok_gate:
  assumes "link_ok cr c"
  shows "link_ok cr (snd (fst (AuthGateInbound cr now pHub m bAck c)))"
proof -
  obtain e c' pHub' where g: "AuthGateInbound cr now pHub m bAck c = ((e, c'), pHub')" by (metis prod.exhaust)
  have f: "keys_agreed cr (c\<lparr>m_AuthNonce := n, m_bAuthNonce := b, m_cbAuthStrip := k, m_oAuthPeer := a\<rparr>) = keys_agreed cr c" for n b k a
    by (simp add: keys_agreed_def client_half_def server_half_def)
  have f2: "keys_agreed cr (c\<lparr>m_cbAuthStrip := k, m_oAuthPeer := a\<rparr>) = keys_agreed cr c" for k a
    by (simp add: keys_agreed_def client_half_def server_half_def)
  from g show ?thesis
  proof (cases rule: AuthGate_cases)
    case kept
    with assms g show ?thesis by simp
  next
    case (login h nonce sk h')
    have k: "keys_agreed cr c" using login assms by (simp add: link_ok_def)
    have "fst (fst (AuthVerifyLogin cr now h (GetSource m) (GetDestin m) (Data m) (Some (m_KeyXBind c)))) = AuthOk"
      using login(6) by (simp add: keys_agreed_bind [OF k])
    then have "proof_accepted cr c'" by (auto simp: login(9) proof_accepted_def)
    with k assms show ?thesis by (simp add: g login(4,9) link_ok_def f IsAuthenticated_def half_ok_def)
  next
    case (ack h)
    have k: "keys_agreed cr c" using ack assms by (simp add: link_ok_def)
    have "AuthVerifyAck cr now h (GetSource m) (GetDestin m) (m_AuthNonce c) (Data m) (Some (m_KeyXBind c)) = AuthOk"
      using ack(7) by (simp add: keys_agreed_bind [OF k])
    then have "proof_accepted cr c'" by (simp add: ack(8) proof_accepted_def) blast
    with k assms show ?thesis by (simp add: g ack(4,8) link_ok_def f2 IsAuthenticated_def half_ok_def)
  qed
qed

subsection \<open>Every connection is in order\<close>

lemma link_ok_step:
  assumes "link_ok cr c"
  shows "link_ok cr (snd (link_step cr call c))"
proof (cases call)
  case (CallRestart b1 b2 b3)
  have "link_ok cr (KeyXReset c)" by (rule link_ok_unkeyed) (simp_all add: KeyXReset_def half_ok_def)
  with assms CallRestart show ?thesis by (simp add: Restart_def)
qed (use link_ok_frame [OF assms] plain_calls in
      \<open>simp_all add: link_ok_login link_ok_request link_ok_ack link_ok_gate assms\<close>)

lemma linked_ok: "linked cr c \<Longrightarrow> link_ok cr c"
proof (induction rule: linked.induct)
  case (created eClass io)
  show ?case by (rule link_ok_unkeyed) (simp_all add: con_new_def half_ok_def)
next
  case (spawned s eClass io)
  show ?case by (rule link_ok_unkeyed) (simp_all add: AcceptSpawn_def con_new_def half_ok_def)
qed (rule link_ok_step)


subsection \<open>No one in the middle\<close>

lemma keys_agreed_same:
  assumes "crypto_ok cr" and c: "keys_agreed cr c" "\<not> m_bKeyXClient c" and d: "keys_agreed cr d" "m_bKeyXClient d"
    and "m_KeyXBind c = m_KeyXBind d"
    and inj: "\<forall>h. Sha256 cr (kLabelBind @ client_half c @ server_half c) = Some h
      \<and> Sha256 cr (kLabelBind @ client_half d @ server_half d) = Some h
      \<longrightarrow> client_half c @ server_half c = client_half d @ server_half d"
  shows "m_KeyXPubThat c = m_KeyXPubThis d \<and> m_KeyXPubThis c = m_KeyXPubThat d
    \<and> (\<exists>k k'. m_pP2Pcrypto c \<in> {None, Some (k, k')} \<and> m_pP2Pcrypto d \<in> {None, Some (k', k)})"
proof -
  obtain e z kc ks where c1: "length (m_KeyXPubThat c) = kEcdhPubLen" "EcdhPublic cr e = Some (m_KeyXPubThis c)"
    "EcdhSecret cr e (m_KeyXPubThat c) = Some z" "AuthChannelBind cr (client_half c) (server_half c) = Some (m_KeyXBind c)"
    "HkdfSha256 cr z (m_KeyXBind c) szInfoC2S = Some kc" "HkdfSha256 cr z (m_KeyXBind c) szInfoS2C = Some ks"
    "m_pP2Pcrypto c \<in> {None, Some (ks, kc)}"
    using c by (auto simp: keys_agreed_def)
  obtain f y lc ls where d1: "length (m_KeyXPubThat d) = kEcdhPubLen" "EcdhPublic cr f = Some (m_KeyXPubThis d)"
    "EcdhSecret cr f (m_KeyXPubThat d) = Some y" "AuthChannelBind cr (client_half d) (server_half d) = Some (m_KeyXBind d)"
    "HkdfSha256 cr y (m_KeyXBind d) szInfoC2S = Some lc" "HkdfSha256 cr y (m_KeyXBind d) szInfoS2C = Some ls"
    "m_pP2Pcrypto d \<in> {None, Some (lc, ls)}"
    using d by (auto simp: keys_agreed_def)
  have len: "length (m_KeyXPubThis c) = kEcdhPubLen" "length (m_KeyXPubThis d) = kEcdhPubLen"
    using crypto_okD(4) [OF assms(1)] c1(2) d1(2) by blast+
  have h: "client_half c = m_KeyXPubThat c" "server_half c = m_KeyXPubThis c"
    "client_half d = m_KeyXPubThis d" "server_half d = m_KeyXPubThat d"
    using c(2) d(2) by (simp_all add: client_half_def server_half_def)
  have "Sha256 cr (kLabelBind @ client_half c @ server_half c) = Some (m_KeyXBind c)"
    "Sha256 cr (kLabelBind @ client_half d @ server_half d) = Some (m_KeyXBind c)"
    using c1(1,4) d1(1,4) len assms(6) by (simp_all add: AuthChannelBind_def h)
  then have "client_half c @ server_half c = client_half d @ server_half d" using inj by blast
  then have eq: "m_KeyXPubThat c = m_KeyXPubThis d" "m_KeyXPubThis c = m_KeyXPubThat d"
    using len c1(1) d1(1) by (simp_all add: h)
  then have "y = z"
    using crypto_okD(5) [OF assms(1) c1(2) d1(2)] c1(3) d1(3) by auto
  then have "kc = lc" "ks = ls" using c1(5,6) d1(5,6) assms(6) by auto
  then show ?thesis using eq c1(7) d1(7) by blast
qed

text \<open>
  C2: The keys a login is accepted over are the keys its sender has.  Suppose every message that verifies
  under a live key of the claimed source is a login that source signed on one of its links, as the end
  that asked for the keys, or one of the other things an identity key signs.  When the gate of a hub
  accepts a login on a connection whose keys it wants agreed, the sender signed it on a link with the same
  two public halves, for the same addresses, and what either end seals the other can open: an
  intermediary that agrees keys with both ends cannot pass the login on.
\<close>

theorem login_over_the_same_keys:
  assumes "crypto_ok cr" and "linked cr c" and "\<not> m_bKeyXClient c" and "KeyXWanted (Some (Some p)) c"
    and "AuthGateInbound cr now (Some (Some p)) m False c = ((None, c'), pHub')"
    and "Utf8FromWide (wchar4 cr) (GetSource m) = Some a"
    and "\<forall>K \<in> set (live_keys p now a). \<forall>msg sig. EcdsaVerify cr K msg sig \<longrightarrow>
           (\<exists>(l, d) \<in> set calls. login_signs cr l = Some msg) \<or> other_than_login cr msg"
    and "\<forall>(l, d) \<in> set calls. login_call_ok cr l \<and> linked cr d \<and> lc_bind l = key_bind d
           \<and> (m_bKeyXBound d \<longrightarrow> m_bKeyXDone d \<and> m_bKeyXClient d)"
    and "address_ok (wchar4 cr) (GetSource m)" and "address_ok (wchar4 cr) (GetDestin m)"
    and "\<forall>(l, d) \<in> set calls. \<forall>h. Sha256 cr (kLabelBind @ client_half c @ server_half c) = Some h
           \<and> Sha256 cr (kLabelBind @ client_half d @ server_half d) = Some h
           \<longrightarrow> client_half c @ server_half c = client_half d @ server_half d"
  shows "\<exists>(l, d) \<in> set calls. lc_src l = GetSource m \<and> lc_dst l = GetDestin m
    \<and> m_KeyXPubThat c = m_KeyXPubThis d \<and> m_KeyXPubThis c = m_KeyXPubThat d
    \<and> (\<exists>k k'. m_pP2Pcrypto c \<in> {None, Some (k, k')} \<and> m_pP2Pcrypto d \<in> {None, Some (k', k)})"
  using assms(5)
proof (cases rule: AuthGate_cases)
  case kept
  then show ?thesis using assms(4) by auto
next
  case (login h nonce sk h')
  have k: "keys_agreed cr c" using linked_ok [OF assms(2)] login(4) by (simp add: link_ok_def)
  then have len: "length (m_KeyXBind c) = kAuthBindLen"
    using crypto_okD(3) [OF assms(1)] by (auto simp: keys_agreed_def AuthChannelBind_def kAuthBindLen_def kSha256Len_def)
  obtain p' where v: "VerifyLogin cr now p (GetSource m) (GetDestin m) (Data m) (Some (m_KeyXBind c)) = ((AuthOk, nonce, sk), p')"
    using login(1,6) by (auto simp: AuthVerifyLogin_def keys_agreed_bind [OF k] split: prod.splits)
  have "\<exists>l \<in> set (map fst calls). l = \<lparr>lc_src = GetSource m, lc_dst = GetDestin m, lc_nonce = block_at kOffNonce kAuthNonceLen (Data m),
      lc_ts = GetI64 (drop kOffTs (Data m)), lc_bind = Some (m_KeyXBind c)\<rparr> \<and> nonce = Some (lc_nonce l)"
    by (rule login_signed_as_presented [OF v assms(6)]) (use assms(7-10) len in \<open>force simp: list_all_iff\<close>)+
  then obtain l d where ld: "(l, d) \<in> set calls" "lc_src l = GetSource m" "lc_dst l = GetDestin m" "lc_bind l = Some (m_KeyXBind c)"
    by auto
  then have b: "linked cr d" "key_bind d = Some (m_KeyXBind c)" "m_bKeyXBound d \<longrightarrow> m_bKeyXDone d \<and> m_bKeyXClient d"
    using assms(8) by fastforce+
  then have d: "m_bKeyXBound d" "m_KeyXBind d = m_KeyXBind c" by (auto simp: key_bind_def split: if_splits)
  with b have kd: "keys_agreed cr d" "m_bKeyXClient d" using linked_ok [OF b(1)] by (auto simp: link_ok_def)
  have "m_KeyXPubThat c = m_KeyXPubThis d \<and> m_KeyXPubThis c = m_KeyXPubThat d
    \<and> (\<exists>k k'. m_pP2Pcrypto c \<in> {None, Some (k, k')} \<and> m_pP2Pcrypto d \<in> {None, Some (k', k)})"
    by (rule keys_agreed_same [OF assms(1) k assms(3) kd d(2) [symmetric]]) (use assms(11) ld(1) in fastforce)
  with ld show ?thesis by blast
qed simp

subsection \<open>A link comes up\<close>

lemma posted_mem: "m \<in> set (m_oCListMsgQue (PostP2PeerMsg q m))"
proof -
  have "mset (m_oCListMsgQue (PostP2PeerMsg q m)) = add_mset m (mset (m_oCListMsgQue q))"
    by (simp add: content_Post Let_def mset_ins_back)
  then show ?thesis by (metis set_mset_mset union_single_eq_member)
qed

lemma posted_handshake_mem: "m \<in> set (m_oCListMsgQue (PostHandshakeP2PeerMsg q m))"
  by (simp add: PostHandshakeP2PeerMsg_def hs_insert_split)

lemma between_reads [simp]:
  "Data (msg_between pfx src dst nam d) = d" "m_name (msg_between pfx src dst nam d) = nam"
  "GetSource (msg_between pfx src dst nam d) = src" "GetDestin (msg_between pfx src dst nam d) = dst"
  "DataSize (msg_between pfx src dst nam d) = length d"
  by (simp_all add: make_defs get_defs net_defs take_field_def Data_def DataSize_def)

lemma KeyXDerive_eq:
  assumes "m_pKeyX c = Some e" and "EcdhSecret cr e (m_KeyXPubThat c) = Some z"
    and "AuthChannelBind cr (client_half c) (server_half c) = Some b"
    and "HkdfSha256 cr z b szInfoC2S = Some kC" and "HkdfSha256 cr z b szInfoS2C = Some kS"
    and "m_pP2Peerio c = Some (l, k)" and "l \<longrightarrow> k"
  shows "KeyXDerive cr c = (None, c\<lparr>m_KeyXBind := b, m_bKeyXBound := True,
    m_pP2Pcrypto := Some (if m_bKeyXClient c then (kC, kS) else (kS, kC)), m_bKeyXDone := True\<rparr>)"
  using assms by (auto simp: KeyXDerive_def client_half_def server_half_def Let_def)

lemma KeyXWanted_frame:
  "con_class c' = con_class c \<Longrightarrow> con_ceiling c' = con_ceiling c \<Longrightarrow> KeyXWanted pHub c' = KeyXWanted pHub c"
  "con_class c' = con_class c \<Longrightarrow> con_ceiling c' = con_ceiling c \<Longrightarrow> AuthLinkRelaxed pHub c' = AuthLinkRelaxed pHub c"
  by (auto simp: KeyXWanted_def AuthLinkRelaxed_def split: option.splits)

text \<open>A connection of the hub at \<open>A\<close> that wants keys and has not begun its session.\<close>

definition ready :: "hub_policy option \<Rightarrow> wstr \<Rightarrow> con \<Rightarrow> bool" where
  "ready pHub A c \<longleftrightarrow>
     KeyXWanted pHub c \<and> A \<noteq> [] \<and> con_hub_addr c = A \<and> m_oThatP2Paddr c \<noteq> [] \<and> m_oVNetPeer c = []
   \<and> m_eP2PeerIDmap c = P2PeerIDmap_NONE \<and> m_pKeyX c = None \<and> \<not> m_bKeyXDone c
   \<and> (case m_pP2Peerio c of None \<Rightarrow> False | Some (bLeaves, bConsults) \<Rightarrow> bLeaves \<longrightarrow> bConsults)"

text \<open>The connection that asked for keys; the one that answered; the one that then sent its login.\<close>

definition con_asked :: "p2p_prefix \<Rightarrow> bytes \<Rightarrow> bytes \<Rightarrow> bytes \<Rightarrow> con \<Rightarrow> con" where
  "con_asked pfx e pub d c =
     con_post pfx P2Pmsg_KeyX pub
       (c\<lparr>m_pLoginDefer := (if d = [] then None else Some d), m_bLoginDefer := True,
          m_KeyXPubThis := pub, m_pKeyX := Some e, m_bKeyXClient := True\<rparr>)"

definition con_answered :: "p2p_prefix \<Rightarrow> bytes \<Rightarrow> bytes \<Rightarrow> bytes \<Rightarrow> bytes \<Rightarrow> bytes \<times> bytes \<Rightarrow> con \<Rightarrow> con" where
  "con_answered pfx e pub that b ks c =
     (con_post pfx P2Pmsg_KeyXAck pub
       (c\<lparr>m_KeyXPubThat := that, m_KeyXPubThis := pub, m_pKeyX := Some e, m_bKeyXClient := False\<rparr>))
     \<lparr>m_KeyXBind := b, m_bKeyXBound := True, m_pP2Pcrypto := Some ks, m_bKeyXDone := True\<rparr>"

definition con_keyed :: "p2p_prefix \<Rightarrow> bytes \<Rightarrow> bytes \<Rightarrow> bytes \<times> bytes \<Rightarrow> bytes \<Rightarrow> bytes \<Rightarrow> con \<Rightarrow> con" where
  "con_keyed pfx that b ks nonce login c =
     (con_post_handshake pfx P2Pmsg_Login login
       (c\<lparr>m_KeyXPubThat := that, m_KeyXBind := b, m_bKeyXBound := True, m_pP2Pcrypto := Some ks, m_bKeyXDone := True,
          m_bLoginDefer := False, m_AuthNonce := nonce, m_bAuthNonce := True\<rparr>))\<lparr>m_pLoginDefer := None\<rparr>"

lemma asks:
  assumes "ready pHub A c" and "EcdhPublic cr e = Some pub"
  shows "Login cr t rnd (Some e) pHub pfx True [] d c = (None, con_asked pfx e pub d c)"
  using assms by (auto simp: ready_def Login_def Let_def KeyXBegin_def con_asked_def)

lemma answers:
  assumes "ready pHub B s" and "EcdhPublic cr e = Some pub" and "DataSize m = kEcdhPubLen"
    and "EcdhSecret cr e (Data m) = Some z" and "AuthChannelBind cr (Data m) pub = Some b"
    and "HkdfSha256 cr z b szInfoC2S = Some kC" and "HkdfSha256 cr z b szInfoS2C = Some kS"
  shows "KeyXOnRequest cr pHub pfx (Some e) m s = (None, con_answered pfx e pub (Data m) b (kS, kC) s)"
proof -
  obtain l k where io: "m_pP2Peerio s = Some (l, k)" "l \<longrightarrow> k"
    using assms(1) by (auto simp: ready_def split: option.splits)
  have w: "\<not> AuthLinkRelaxed pHub s" using assms(1) by (auto simp: ready_def KeyXWanted_def split: option.splits)
  let ?s = "con_post pfx P2Pmsg_KeyXAck pub
       (s\<lparr>m_KeyXPubThat := Data m, m_KeyXPubThis := pub, m_pKeyX := Some e, m_bKeyXClient := False\<rparr>)"
  have "KeyXDerive cr ?s = (None, ?s\<lparr>m_KeyXBind := b, m_bKeyXBound := True,
    m_pP2Pcrypto := Some (if m_bKeyXClient ?s then (kC, kS) else (kS, kC)), m_bKeyXDone := True\<rparr>)"
    by (rule KeyXDerive_eq [of _ e _ z _ _ _ l k])
       (use assms io in \<open>simp_all add: con_post_def client_half_def server_half_def\<close>)
  then show ?thesis
    using assms w by (simp add: KeyXOnRequest_def Let_def ready_def con_answered_def con_post_def)
qed

lemma login_follows:
  assumes r: "ready (Some (Some pc)) A c0" and "length that = kEcdhPubLen"
    and "EcdhSecret cr e that = Some z" and "AuthChannelBind cr pub that = Some b"
    and "HkdfSha256 cr z b szInfoC2S = Some kC" and "HkdfSha256 cr z b szInfoS2C = Some kS"
    and "m_pIdentity pc \<noteq> None"
    and l: "BuildLogin cr t rnd pc A (m_oThatP2Paddr c0) kAuthLoginLen (Some b) = Inr (blk, nonce)"
    and "Data m = that"
  shows "KeyXOnAck cr t rnd (Some (Some pc)) pfx' m (con_asked pfx e pub d c0)
    = (None, con_keyed pfx' that b (kC, kS) nonce (blk @ d) (con_asked pfx e pub d c0))"
proof -
  obtain l k where io: "m_pP2Peerio c0 = Some (l, k)" "l \<longrightarrow> k"
    using r by (auto simp: ready_def split: option.splits)
  let ?c = "con_asked pfx e pub d c0"
  let ?d = "?c\<lparr>m_KeyXPubThat := that\<rparr>"
  have dv: "KeyXDerive cr ?d = (None, ?d\<lparr>m_KeyXBind := b, m_bKeyXBound := True,
    m_pP2Pcrypto := Some (if m_bKeyXClient ?d then (kC, kS) else (kS, kC)), m_bKeyXDone := True\<rparr>)"
    by (rule KeyXDerive_eq [of _ e _ z _ _ _ l k])
       (use assms io in \<open>simp_all add: con_asked_def con_post_def client_half_def server_half_def\<close>)
  have w: "\<not> AuthLinkRelaxed (Some (Some pc)) c" if "con_class c = con_class c0" "con_ceiling c = con_ceiling c0" for c
    using r KeyXWanted_frame(2) [OF that, of "Some (Some pc)"] by (auto simp: ready_def KeyXWanted_def split: option.splits)
  show ?thesis
    using assms dv w
    by (auto simp: KeyXOnAck_def LoginSend_def CanAuthSign_def AuthBuildLogin_def login_src_def login_dst_def IsVNetMount_def
        key_bind_def con_asked_def con_keyed_def con_post_def con_post_handshake_def ready_def DataSize_def split: option.splits)
qed

text \<open>The gate reads the block in front of the application's data.\<close>

lemma VerifyLogin_append:
  assumes "length blk = kAuthLoginLen"
  shows "VerifyLogin cr now p src dst (blk @ d) bnd = VerifyLogin cr now p src dst blk bnd"
proof -
  have f: "block_at kOffNonce kAuthNonceLen (blk @ d) = block_at kOffNonce kAuthNonceLen blk"
    "block_at kOffSig kEcdsaSigLen (blk @ d) = block_at kOffSig kEcdsaSigLen blk"
    "HeaderOk (blk @ d) = HeaderOk blk" "GetI64 (drop kOffTs (blk @ d)) = GetI64 (drop kOffTs blk)"
    using assms by (simp_all add: block_at_append_left block_sizes HeaderOk_def nth_append GetI64_def)
  show ?thesis using assms unfolding VerifyLogin_def CheckLogin_def f by simp
qed

lemma VerifyAck_append:
  assumes "length blk = kAuthAckLen"
  shows "VerifyAck cr now p src dst n (blk @ d) bnd = VerifyAck cr now p src dst n blk bnd"
proof -
  have f: "block_at kOffAckSig kEcdsaSigLen (blk @ d) = block_at kOffAckSig kEcdsaSigLen blk" "HeaderOk (blk @ d) = HeaderOk blk"
    using assms by (simp_all add: block_at_append_left block_sizes HeaderOk_def nth_append)
  show ?thesis using assms unfolding VerifyAck_def f by simp
qed

lemma HasState_login_done [simp]: "HasState ConState_Login (login_done c)"
proof -
  have "HasState ConState_Login (SetState ConState_Login 0 c)" by (simp add: HasState_def SetState_def ConState_Login_def bit_eq_iff bit_simps)
  moreover have "HasState ConState_Login (snd (ReleaseLoginHold d)) = HasState ConState_Login d" for d
  proof -
    have "NOT (ConState_LoginHold OR ConState_LoginParked) AND ConState_Login = ConState_Login"
      by (simp add: ConState_LoginHold_def ConState_LoginParked_def ConState_Login_def)
    then have "(w AND NOT (ConState_LoginHold OR ConState_LoginParked)) AND ConState_Login = w AND ConState_Login" for w
      by (metis and.assoc)
    then show ?thesis by (simp add: ReleaseLoginHold_def HasState_def Let_def)
  qed
  ultimately show ?thesis by (simp add: login_done_def)
qed

lemma login_done_simps [simp]:
  "con_hub_addr (login_done c) = con_hub_addr c" "m_oThatP2Paddr (login_done c) = m_oThatP2Paddr c"
  "m_bAuthNonce (login_done c) = m_bAuthNonce c" "m_AuthNonce (login_done c) = m_AuthNonce c"
  "m_oVNetPeer (login_done c) = m_oVNetPeer c" "m_eP2PeerConMode (login_done c) = m_eP2PeerConMode c"
  "m_bKeyXBound (login_done c) = m_bKeyXBound c" "m_KeyXBind (login_done c) = m_KeyXBind c"
  "m_cbAuthStrip (login_done c) = m_cbAuthStrip c" "m_oAuthPeer (login_done c) = m_oAuthPeer c"
  "m_pP2Pcrypto (login_done c) = m_pP2Pcrypto c" "m_eP2PeerIDmap (login_done c) = m_eP2PeerIDmap c"
  "m_oCListMsgQue (con_que (login_done c)) = m_oCListMsgQue (con_que c)"
  by (simp_all add: login_done_def ReleaseLoginHold_def SetState_def Let_def)

text \<open>The hub's side of a login: the gate, the handler and the acknowledgement.\<close>

lemma login_let_in:
  assumes "KeyXWanted (Some (Some p)) s" and "m_bKeyXDone s" and "m_eP2PeerIDmap s = P2PeerIDmap_NONE" and "key_bind s = Some b"
    and "VerifyLogin cr now p (GetSource m) (GetDestin m) (Data m) (Some b) = ((AuthOk, Some n, sk), p')" and "Data m \<noteq> []"
  shows "AuthGateInbound cr now (Some (Some p)) m False s =
    ((None, s\<lparr>m_AuthNonce := n, m_bAuthNonce := True, m_cbAuthStrip := kAuthLoginLen, m_oAuthPeer := GetSource m\<rparr>), Some (Some p'))"
  using assms by (simp add: AuthGateInbound_def AuthVerifyLogin_def Let_def)

lemma ack_let_in:
  assumes "KeyXWanted (Some (Some p)) c" and "m_bKeyXDone c" and "m_eP2PeerIDmap c = P2PeerIDmap_NONE" and "key_bind c = Some b"
    and "VerifyAck cr now p (GetSource m) (GetDestin m) (m_AuthNonce c) (Data m) (Some b) = AuthOk" and "Data m \<noteq> []" and "m_bAuthNonce c"
  shows "AuthGateInbound cr now (Some (Some p)) m True c =
    ((None, c\<lparr>m_cbAuthStrip := kAuthAckLen, m_oAuthPeer := GetSource m\<rparr>), Some (Some p))"
  using assms by (simp add: AuthGateInbound_def AuthVerifyAck_def Let_def)

lemma login_taken:
  assumes "A \<noteq> []" and "m_oThatP2Paddr s \<noteq> []" and "case m_oP2Padomain s of None \<Rightarrow> True | Some mapped \<Rightarrow> mapped A"
  shows "OnLogin True A s = (None, login_done (s\<lparr>m_oThatP2Paddr := A\<rparr>))"
  using assms by (auto simp: OnLogin_def split: option.splits)

lemma login_acked:
  assumes "m_oThatP2Paddr s \<noteq> []" and "con_hub_addr s \<noteq> []" and "m_bAuthNonce s" and "m_pIdentity p \<noteq> None" and "m_oVNetPeer s = []"
    and "BuildAck cr p (con_hub_addr s) (m_oThatP2Paddr s) (m_AuthNonce s) kAuthAckLen (key_bind s) = Inr ack"
  shows "LoginAck cr (Some (Some p)) pfx [] d s = (None, login_done (con_post_handshake pfx P2Pmsg_LoginAck (ack @ d) s))"
  using assms
  by (auto simp: LoginAck_def Let_def CanAuthSign_def AuthBuildAck_def login_src_def login_dst_def IsVNetMount_def key_bind_def)

text \<open>
  C3: A link comes up.  When two hubs that want their links keyed each hold an identity key the other
  trusts for its address, the clock and the nonce are in order and the cryptographic calls succeed, the
  exchange the receive loops drive goes through to its end: the client's \<open>Login\<close> posts a key request, the
  hub answers it, the client's parked login leaves, the gate accepts it, its handler acknowledges, the
  client's gate accepts that.  Both ends are then logged in and authenticated, each for the other's
  address; what one sends under the other receives under; and each application gets the data the other gave.
\<close>

theorem link_comes_up:
  assumes "crypto_ok cr" and "m_pIdentity pc = Some kc" and "EcdsaPublic cr kc = Some Kc"
    and "m_pIdentity ps = Some ks" and "EcdsaPublic cr ks = Some Ks" and "trusts cr now ps A Kc" and "trusts cr later pc B Ks"
    and "ready (Some (Some pc)) A c0" and "m_oThatP2Paddr c0 = B" and "ready (Some (Some ps)) B s0"
    and "case m_oP2Padomain s0 of None \<Rightarrow> True | Some mapped \<Rightarrow> mapped A"
    and "EcdhPublic cr ec = Some Pc" and "EcdhPublic cr es = Some Ps" and "EcdhSecret cr ec Ps = Some z"
    and "AuthChannelBind cr Pc Ps = Some b" and "HkdfSha256 cr z b szInfoC2S = Some kC" and "HkdfSha256 cr z b szInfoS2C = Some kS"
    and "BuildLogin cr t rnd pc A B kAuthLoginLen (Some b) = Inr (blk, nonce)" and "length nonce = kAuthNonceLen" and "is_i64 t"
    and "\<not> skew_refused cr (m_nWindow ps) (clock_skew cr now t)" and "\<not> SeenNonce ps nonce"
    and "BuildAck cr ps B A nonce kAuthAckLen (Some b) = Inr ack"
  shows "\<exists>c1 s1 c2 s2 s3 s4 c3 c4 m1 m2 m3 m4 ps'.
      Login cr t rnd (Some ec) (Some (Some pc)) pfx True [] dc c0 = (None, c1)
    \<and> m1 \<in> set (m_oCListMsgQue (con_que c1)) \<and> m_name m1 = P2Pmsg_KeyX
    \<and> KeyXOnRequest cr (Some (Some ps)) pfx (Some es) m1 s0 = (None, s1)
    \<and> m2 \<in> set (m_oCListMsgQue (con_que s1)) \<and> m_name m2 = P2Pmsg_KeyXAck
    \<and> KeyXOnAck cr t rnd (Some (Some pc)) pfx m2 c1 = (None, c2)
    \<and> m3 \<in> set (m_oCListMsgQue (con_que c2)) \<and> m_name m3 = P2Pmsg_Login
    \<and> AuthGateInbound cr now (Some (Some ps)) m3 False s1 = ((None, s2), Some (Some ps'))
    \<and> OnLogin True (GetSource m3) s2 = (None, s3)
    \<and> LoginAck cr (Some (Some ps')) pfx [] ds s3 = (None, s4)
    \<and> m4 \<in> set (m_oCListMsgQue (con_que s4)) \<and> m_name m4 = P2Pmsg_LoginAck
    \<and> AuthGateInbound cr later (Some (Some pc)) m4 True c2 = ((None, c3), Some (Some pc))
    \<and> OnLoginAck True (GetDestin m4) (GetSource m4) c3 = (None, c4)
    \<and> HasState ConState_Login s4 \<and> HasState ConState_Login c4
    \<and> IsAuthenticated s4 \<and> m_oAuthPeer s4 = A \<and> IsAuthenticated c4 \<and> m_oAuthPeer c4 = B
    \<and> m_pP2Pcrypto s4 = Some (kS, kC) \<and> m_pP2Pcrypto c4 = Some (kC, kS)
    \<and> login_payload s2 m3 = dc \<and> login_payload c3 m4 = ds"
proof -
  note len = crypto_okD(4) [OF assms(1,12)] crypto_okD(4) [OF assms(1,13)]
  have sec: "EcdhSecret cr es Pc = Some z" using crypto_okD(5) [OF assms(1,12,13,14)] .
  have adr: "A \<noteq> []" "B \<noteq> []" "con_hub_addr c0 = A" "con_hub_addr s0 = B" "m_oThatP2Paddr s0 \<noteq> []"
    "m_oVNetPeer s0 = []" "m_eP2PeerIDmap s0 = P2PeerIDmap_NONE" "m_eP2PeerIDmap c0 = P2PeerIDmap_NONE"
    "KeyXWanted (Some (Some ps)) s0" "KeyXWanted (Some (Some pc)) c0"
    using assms(8,10) by (simp_all add: ready_def)
  have L: "VerifyLogin cr now ps A B blk (Some b) = ((AuthOk, Some nonce, clock_skew cr now t), NoteNonce nonce now ps)"
    "VerifyAck cr later pc B A nonce ack (Some b) = AuthOk" "length blk = kAuthLoginLen" "length ack = kAuthAckLen"
    using login_goes_through [OF assms(1-7,18-23)] by simp_all
  have ne: "blk \<noteq> []" "ack \<noteq> []" using L(3,4) by (auto simp: kAuthLoginLen_def kAuthAckLen_def)
  define c1 s1 where "c1 = con_asked pfx ec Pc dc c0" and "s1 = con_answered pfx es Ps Pc b (kS, kC) s0"
  define c2 where "c2 = con_keyed pfx Ps b (kC, kS) nonce (blk @ dc) c1"
  define s2 where "s2 = s1\<lparr>m_AuthNonce := nonce, m_bAuthNonce := True, m_cbAuthStrip := kAuthLoginLen, m_oAuthPeer := A\<rparr>"
  define s3 where "s3 = login_done (s2\<lparr>m_oThatP2Paddr := A\<rparr>)"
  define s4 where "s4 = login_done (con_post_handshake pfx P2Pmsg_LoginAck (ack @ ds) s3)"
  define c3 where "c3 = c2\<lparr>m_cbAuthStrip := kAuthAckLen, m_oAuthPeer := B\<rparr>"
  let ?m1 = "msg_between pfx A B P2Pmsg_KeyX Pc" and ?m2 = "msg_between pfx B (m_oThatP2Paddr s0) P2Pmsg_KeyXAck Ps"
    and ?m3 = "msg_between pfx A B P2Pmsg_Login (blk @ dc)" and ?m4 = "msg_between pfx B A P2Pmsg_LoginAck (ack @ ds)"
  note states = s4_def s3_def c3_def s2_def c2_def s1_def c1_def con_asked_def con_answered_def con_keyed_def con_post_def con_post_handshake_def
  have 1: "Login cr t rnd (Some ec) (Some (Some pc)) pfx True [] dc c0 = (None, c1)"
    unfolding c1_def by (rule asks [OF assms(8,12)])
  have 2: "KeyXOnRequest cr (Some (Some ps)) pfx (Some es) ?m1 s0 = (None, s1)"
    using answers [OF assms(10,13), of ?m1 z b kC kS pfx] sec assms(15-17) len by (simp add: s1_def)
  have 3: "KeyXOnAck cr t rnd (Some (Some pc)) pfx ?m2 c1 = (None, c2)"
    unfolding c2_def c1_def by (rule login_follows [OF assms(8) len(2) assms(14-17)]) (use assms(2,9,18) in simp_all)
  have 4: "AuthGateInbound cr now (Some (Some ps)) ?m3 False s1 = ((None, s2), Some (Some (NoteNonce nonce now ps)))"
    using login_let_in [of ps s1 b cr now ?m3 nonce "clock_skew cr now t" "NoteNonce nonce now ps"] L adr
      KeyXWanted_frame(1) [of s1 s0 "Some (Some ps)"] VerifyLogin_append [of blk cr now ps A B dc "Some b"] ne
    by (auto simp: states key_bind_def kAuthLoginLen_def)
  have 5: "OnLogin True A s2 = (None, s3)"
    unfolding s3_def by (rule login_taken) (use adr assms(11) in \<open>simp_all add: states\<close>)
  have 6: "LoginAck cr (Some (Some (NoteNonce nonce now ps))) pfx [] ds s3 = (None, s4)"
    unfolding s4_def by (rule login_acked) (use adr assms(4,23) in \<open>simp_all add: states key_bind_def NoteNonce_def BuildAck_def\<close>)
  have 7: "AuthGateInbound cr later (Some (Some pc)) ?m4 True c2 = ((None, c3), Some (Some pc))"
    using ack_let_in [of pc c2 b cr later ?m4] L adr
      KeyXWanted_frame(1) [of c2 c0 "Some (Some pc)"] VerifyAck_append [of ack cr later pc B A nonce ds "Some b"] ne
    by (auto simp: states key_bind_def kAuthAckLen_def)
  have 8: "OnLoginAck True A B c3 = (None, login_done (c3\<lparr>con_hub_addr := A\<rparr>))"
    using adr by (simp add: OnLoginAck_def states)
  have q: "?m1 \<in> set (m_oCListMsgQue (con_que c1))" "?m2 \<in> set (m_oCListMsgQue (con_que s1))" "?m3 \<in> set (m_oCListMsgQue (con_que c2))"
    using adr assms(9) by (simp_all add: states posted_mem posted_handshake_mem)
  have q4: "?m4 \<in> set (m_oCListMsgQue (con_que s4))"
    using adr by (simp add: states posted_handshake_mem)
  have e: "IsAuthenticated s4 \<and> m_oAuthPeer s4 = A \<and> m_pP2Pcrypto s4 = Some (kS, kC)"
    "IsAuthenticated (login_done (c3\<lparr>con_hub_addr := A\<rparr>)) \<and> m_oAuthPeer (login_done (c3\<lparr>con_hub_addr := A\<rparr>)) = B
       \<and> m_pP2Pcrypto (login_done (c3\<lparr>con_hub_addr := A\<rparr>)) = Some (kC, kS)"
    "login_payload s2 ?m3 = dc" "login_payload c3 ?m4 = ds"
    using L by (simp_all add: states IsAuthenticated_def login_payload_def kAuthLoginLen_def kAuthAckLen_def)
  have h: "HasState ConState_Login s4" unfolding s4_def by simp
  show ?thesis
    by (intro exI conjI, rule 1, rule q(1), simp, rule 2, rule q(2), simp, rule 3, rule q(3), simp, rule 4,
        simp only: between_reads, rule 5, rule 6, rule q4, simp, rule 7, simp only: between_reads, rule 8, rule h)
      (simp_all only: e HasState_login_done)
qed

subsection \<open>Examples\<close>

definition example_con :: "wstr \<Rightarrow> wstr \<Rightarrow> con" where
  "example_con H T =
     (AcceptSpawn ((con_new 0 (Some (True, True)))\<lparr>m_oThatP2Paddr := T\<rparr>) (con_new 0 (Some (True, True))))\<lparr>con_hub_addr := H\<rparr>"

definition wanting :: "policy \<Rightarrow> policy" where
  "wanting p = p\<lparr>m_bRequired := True\<rparr>"

lemma example_con_linked: "linked cr (example_con H T)"
  using linked.called [OF linked.spawned, of cr "CallRegister H"] by (simp add: example_con_def)

lemma example_con_fields [simp]:
  "m_oThatP2Paddr (example_con H T) = T" "m_oP2Padomain (example_con H T) = None" "con_hub_addr (example_con H T) = H"
  "m_bKeyXClient (example_con H T) = False" "m_bLoginDefer (example_con H T) = False"
  by (simp_all add: example_con_def AcceptSpawn_def con_new_def HasState_def ConState_AcceptUnnamed_def)

lemma example_ready:
  assumes "H \<noteq> []" and "T \<noteq> []"
  shows "ready (Some (Some (wanting example_client))) H (example_con H T)" "ready (Some (Some (wanting example_hub))) H (example_con H T)"
  using assms
  by (simp_all add: ready_def example_con_def AcceptSpawn_def con_new_def HasState_def ConState_AcceptUnnamed_def KeyXWanted_def
      AuthLinkRelaxed_def wanting_def IsAuthRequired_def hub_GetLinkPolicy_def GetLinkPolicy_def EffectiveTrust_def
      example_client_def example_hub_def policy_new_def)

lemma wanting_trusts [simp]: "trusts cr now (wanting p) = trusts cr now p" "live_keys (wanting p) = live_keys p"
proof -
  have f: "m_bRevokeConfigured (wanting p) = m_bRevokeConfigured p" "m_bRevokeUsable (wanting p) = m_bRevokeUsable p"
    "m_nRevMaxStale (wanting p) = m_nRevMaxStale p" "m_aAuthority (wanting p) = m_aAuthority p"
    "m_tRevApplied (wanting p) = m_tRevApplied p" "m_pRevoked (wanting p) = m_pRevoked p"
    by (simp_all add: wanting_def)
  have "IsRevokedPoint (wanting p) now k = IsRevokedPoint p now k" for now k
    by (simp only: IsRevokedPoint_def IsRevocationFresh_def f)
  then show lk: "live_keys (wanting p) = live_keys p" by (simp add: fun_eq_iff live_keys_def wanting_def)
  have al: "m_pAllow (wanting p) = m_pAllow p" by (simp add: wanting_def)
  show "trusts cr now (wanting p) = trusts cr now p" by (intro ext) (simp only: trusts_def lk al)
qed

lemma wanting_simps [simp]:
  "m_pIdentity (wanting p) = m_pIdentity p" "m_nWindow (wanting p) = m_nWindow p" "SeenNonce (wanting p) n = SeenNonce p n"
  by (simp_all add: wanting_def SeenNonce_def)

definition example_bind :: bytes where
  "example_bind = take 32 (rev (kLabelBind @ replicate 64 2 @ replicate 64 3) @ replicate 32 0)"

lemma example_binds:
  "AuthChannelBind (example_crypto V) (replicate 64 2) (replicate 64 3) = Some example_bind" "length example_bind = kAuthBindLen"
  by (simp_all add: AuthChannelBind_def example_bind_def kEcdhPubLen_def kAuthBindLen_def)

theorem link_comes_up_witness:
  "\<exists>c1 s1 s2 s4 c3 c4 m3 m4 ps'.
      Login (example_crypto (\<lambda>m. True)) 100 (Some (replicate 16 7)) (Some (replicate 64 2)) (Some (Some (wanting example_client)))
        (m_prefix (example_msg [] 0)) True [] [1] (example_con [65] [66]) = (None, c1)
    \<and> AuthGateInbound (example_crypto (\<lambda>m. True)) 110 (Some (Some (wanting example_hub))) m3 False s1 = ((None, s2), Some (Some ps'))
    \<and> m_oAuthPeer s4 = [65] \<and> IsAuthenticated s4 \<and> m_oAuthPeer c4 = [66] \<and> IsAuthenticated c4
    \<and> login_payload s2 m3 = [1] \<and> login_payload c3 m4 = [2]"
proof -
  let ?cr = "example_crypto (\<lambda>m. True)" and ?n = "replicate 16 (7::byte)" and ?c = "replicate 64 (4::byte)" and ?h = "replicate 64 (5::byte)"
    and ?e = "replicate 64 (2::byte)" and ?f = "replicate 64 (3::byte)" and ?pc = "wanting example_client" and ?ps = "wanting example_hub"
    and ?cl = "example_con [65] [66]" and ?sv = "example_con [66] [65]"
  obtain blk where l: "BuildLogin ?cr 100 (Some ?n) ?pc [65] [66] kAuthLoginLen (Some example_bind) = Inr (blk, ?n)"
    by (simp add: BuildLogin_def example_client_def policy_new_def Transcript_def block_sizes del: Utf8FromWide.simps)
  obtain ack where a: "BuildAck ?cr ?ps [66] [65] ?n kAuthAckLen (Some example_bind) = Inr ack"
    by (simp add: BuildAck_def example_hub_def policy_new_def Transcript_def block_sizes del: Utf8FromWide.simps)
  obtain z where z: "EcdhSecret ?cr ?e ?f = Some z" by simp
  have h: "HkdfSha256 ?cr z example_bind szInfoC2S = Some z" "HkdfSha256 ?cr z example_bind szInfoS2C = Some z" by simp_all
  have r: "ready (Some (Some ?pc)) [65] ?cl" "m_oThatP2Paddr ?cl = [66]" "ready (Some (Some ?ps)) [66] ?sv"
    "case m_oP2Padomain ?sv of None \<Rightarrow> True | Some mapped \<Rightarrow> mapped [65]" by (simp_all add: example_ready)
  have t: "trusts ?cr 110 ?ps [65] ?c" "trusts ?cr 120 ?pc [66] ?h"
    by (simp_all only: wanting_trusts example_trusts)
  have i: "m_pIdentity ?pc = Some ?c" "EcdsaPublic ?cr ?c = Some ?c" "m_pIdentity ?ps = Some ?h" "EcdsaPublic ?cr ?h = Some ?h"
    by (simp_all add: example_client_def example_hub_def)
  have e: "EcdhPublic ?cr ?e = Some ?e" "EcdhPublic ?cr ?f = Some ?f" by simp_all
  have f: "length ?n = kAuthNonceLen" "is_i64 100" "\<not> skew_refused ?cr (m_nWindow ?ps) (clock_skew ?cr 110 100)" "\<not> SeenNonce ?ps ?n"
    using example_fresh by (simp_all add: kAuthNonceLen_def is_i64_def)
  show ?thesis
    using link_comes_up [OF example_crypto_ok i t r e z example_binds(1) h l f a, where pfx = "m_prefix (example_msg [] 0)" and dc = "[1]" and ds = "[2]"]
    by (elim exE conjE) blast
qed

text \<open>The two ends of a link once their keys are agreed.\<close>

lemma example_keyed:
  fixes V
  assumes tr: "Transcript True kLabelLogin [65] [66] (replicate 16 7) (Some 100) (Some example_bind) = Some tr" and "V tr"
  defines "cr \<equiv> example_crypto V" and "ps \<equiv> Some (Some (wanting example_hub))"
  obtains c d where "linked cr c" and "m_bKeyXDone c" and "key_bind c = Some example_bind" and "\<not> m_bKeyXClient c"
      and "client_half c = replicate 64 2" and "server_half c = replicate 64 3" and "KeyXWanted ps c" and "m_eP2PeerIDmap c = P2PeerIDmap_NONE"
      and "linked cr d" and "m_bKeyXDone d" and "key_bind d = Some example_bind" and "m_bKeyXClient d"
      and "client_half d = replicate 64 2" and "server_half d = replicate 64 3" and "m_pP2Pcrypto c \<noteq> None"
proof -
  let ?e = "replicate 64 (2::byte)" and ?f = "replicate 64 (3::byte)" and ?pfx = "m_prefix (example_msg [] 0)"
    and ?pc = "Some (Some (wanting example_client))" and ?no = "replicate 16 (7::byte)" and ?a = "example_con [65] [66]" and ?b = "example_con [66] [65]"
  let ?m = "msg_between ?pfx [] [] P2Pmsg_KeyX ?e" and ?n = "msg_between ?pfx [] [] P2Pmsg_KeyXAck ?f"
  have r: "ready ?pc [65] ?a" "ready ps [66] ?b" by (simp_all add: example_ready ps_def)
  obtain z where z: "EcdhSecret cr ?e ?f = Some z" by (simp add: cr_def)
  moreover have z': "EcdhSecret cr ?f ?e = Some z"
    by (rule crypto_okD(5) [of cr ?e ?e ?f ?f]) (use z in \<open>simp_all add: cr_def example_crypto_ok\<close>)
  have "KeyXOnRequest cr ps ?pfx (Some ?f) ?m ?b = (None, con_answered ?pfx ?f ?f (Data ?m) example_bind (z, z) ?b)"
    by (rule answers [OF r(2), where z = z]) (use z' example_binds(1) in \<open>simp_all add: cr_def kEcdhPubLen_def\<close>)
  then have c: "linked cr (con_answered ?pfx ?f ?f ?e example_bind (z, z) ?b)" (is "linked cr ?c")
    using linked.called [OF example_con_linked, of cr "CallKeyX ps ?pfx (Some ?f) ?m" "[66]" "[65]"] by simp
  have d1: "linked cr (con_asked ?pfx ?e ?e [] ?a)"
    using linked.called [OF example_con_linked, of cr "CallLogin 100 (Some ?no) (Some ?e) ?pc ?pfx True [] []" "[65]" "[66]"]
      asks [OF r(1), of cr ?e ?e 100 "Some ?no" ?pfx "[]"] by (simp add: cr_def)
  obtain blk where l: "BuildLogin cr 100 (Some ?no) (wanting example_client) [65] [66] kAuthLoginLen (Some example_bind) = Inr (blk, ?no)"
    using assms(1,2) by (simp add: BuildLogin_def example_client_def policy_new_def cr_def del: Utf8FromWide.simps)
  have "KeyXOnAck cr 100 (Some ?no) ?pc ?pfx ?n (con_asked ?pfx ?e ?e [] ?a)
      = (None, con_keyed ?pfx ?f example_bind (z, z) ?no (blk @ []) (con_asked ?pfx ?e ?e [] ?a))"
    by (rule login_follows [OF r(1) _ z]) (use l example_binds(1) in \<open>simp_all add: cr_def kEcdhPubLen_def example_client_def\<close>)
  then have d: "linked cr (con_keyed ?pfx ?f example_bind (z, z) ?no (blk @ []) (con_asked ?pfx ?e ?e [] ?a))" (is "linked cr ?d")
    using linked.called [OF d1, of "CallKeyXAck 100 (Some ?no) ?pc ?pfx ?n"] by simp
  have "KeyXWanted ps ?c" "m_eP2PeerIDmap ?c = P2PeerIDmap_NONE"
    using r(2) KeyXWanted_frame(1) [of ?c ?b ps] by (simp_all add: ready_def con_answered_def con_post_def)
  with c d show thesis
    by (intro that [of ?c ?d])
      (simp_all add: con_answered_def con_keyed_def con_asked_def con_post_def con_post_handshake_def client_half_def server_half_def key_bind_def)
qed

lemma example_accepted:
  obtains V tr c d m c' h where "V = (\<lambda>msg. msg = tr)"
      and "Transcript True kLabelLogin [65] [66] (replicate 16 7) (Some 100) (Some example_bind) = Some tr"
      and "linked (example_crypto V) c" and "\<not> m_bKeyXClient c" and "KeyXWanted (Some (Some (wanting example_hub))) c"
      and "client_half c = replicate 64 2" and "server_half c = replicate 64 3"
      and "linked (example_crypto V) d" and "m_bKeyXDone d" and "key_bind d = Some example_bind" and "m_bKeyXClient d"
      and "client_half d = replicate 64 2" and "server_half d = replicate 64 3"
      and "GetSource m = [65]" and "GetDestin m = [66]"
      and "AuthGateInbound (example_crypto V) 110 (Some (Some (wanting example_hub))) m False c = ((None, c'), h)" and "IsAuthenticated c'"
proof -
  obtain tr where tr: "Transcript True kLabelLogin [65] [66] (replicate 16 7) (Some 100) (Some example_bind) = Some tr"
    by (simp add: Transcript_def del: Utf8FromWide.simps)
  define V where "V = (\<lambda>msg. msg = tr)"
  have v: "V tr" by (simp add: V_def)
  let ?cr = "example_crypto V" and ?p = "wanting example_hub" and ?m = "msg_between (m_prefix (example_msg [] 0)) [65] [66] P2Pmsg_Login example_login"
  obtain c d where c: "linked ?cr c" "m_bKeyXDone c" "key_bind c = Some example_bind" "\<not> m_bKeyXClient c"
      "client_half c = replicate 64 2" "server_half c = replicate 64 3" "KeyXWanted (Some (Some ?p)) c" "m_eP2PeerIDmap c = P2PeerIDmap_NONE"
    and d: "linked ?cr d" "m_bKeyXDone d" "key_bind d = Some example_bind" "m_bKeyXClient d"
      "client_half d = replicate 64 2" "server_half d = replicate 64 3"
    by (rule example_keyed [OF tr, of V]) (simp add: v, blast)
  have "trusts ?cr 110 ?p [65] (replicate 64 4)" "EcdsaVerify ?cr (replicate 64 4) tr (replicate 64 4)"
    using v by (simp_all add: example_trusts)
  from trusts_verifies [OF this] have l: "VerifyLogin ?cr 110 ?p [65] [66] example_login (Some example_bind)
    = ((AuthOk, Some (replicate 16 7), 10), NoteNonce (replicate 16 7) 110 ?p)"
    using tr example_fresh(1) [of V] example_fresh(2)
    by (auto simp: VerifyLogin_def CheckLogin_def example_login_fields Let_def clock_skew_def signed_take_bit_small)
  have g: "AuthGateInbound ?cr 110 (Some (Some ?p)) ?m False c = ((None, c\<lparr>m_AuthNonce := replicate 16 7, m_bAuthNonce := True,
      m_cbAuthStrip := kAuthLoginLen, m_oAuthPeer := GetSource ?m\<rparr>), Some (Some (NoteNonce (replicate 16 7) 110 ?p)))"
    by (rule login_let_in [OF c(7,2,8,3)]) (use l in \<open>simp_all add: example_login_def\<close>)
  show thesis
    by (rule that [OF V_def tr c(1,4,7,5,6) d _ _ g]) (simp_all add: IsAuthenticated_def kAuthLoginLen_def)
qed


theorem login_over_the_same_keys_witness:
  "\<exists>V c m c' h. linked (example_crypto V) c \<and> KeyXWanted (Some (Some (wanting example_hub))) c
     \<and> AuthGateInbound (example_crypto V) 110 (Some (Some (wanting example_hub))) m False c = ((None, c'), h)
     \<and> m_KeyXPubThat c = replicate 64 2 \<and> (\<exists>msg. \<not> V msg)"
proof -
  obtain V tr c d m c' h where a: "V = (\<lambda>msg. msg = tr)" "Transcript True kLabelLogin [65] [66] (replicate 16 7) (Some 100) (Some example_bind) = Some tr"
      "linked (example_crypto V) c" "\<not> m_bKeyXClient c" "KeyXWanted (Some (Some (wanting example_hub))) c"
      "client_half c = replicate 64 2" "server_half c = replicate 64 3"
    and d: "linked (example_crypto V) d" "m_bKeyXDone d" "key_bind d = Some example_bind" "m_bKeyXClient d"
      "client_half d = replicate 64 2" "server_half d = replicate 64 3"
    and m: "GetSource m = [65]" "GetDestin m = [66]"
    and g: "AuthGateInbound (example_crypto V) 110 (Some (Some (wanting example_hub))) m False c = ((None, c'), h)"
    by (rule example_accepted)
  define l where "l = \<lparr>lc_src = [65], lc_dst = [66], lc_nonce = replicate 16 7, lc_ts = 100, lc_bind = Some example_bind\<rparr>"
  have "\<exists>(l, e) \<in> set [(l, d)]. lc_src l = GetSource m \<and> lc_dst l = GetDestin m
    \<and> m_KeyXPubThat c = m_KeyXPubThis e \<and> m_KeyXPubThis c = m_KeyXPubThat e
    \<and> (\<exists>k k'. m_pP2Pcrypto c \<in> {None, Some (k, k')} \<and> m_pP2Pcrypto e \<in> {None, Some (k', k)})"
    by (rule login_over_the_same_keys [OF example_crypto_ok a(3-5) g, of "[65]"])
       (use a(1,2,6,7) d m example_binds(2) in \<open>simp_all add: l_def login_signs_def login_call_ok_def kAuthNonceLen_def is_i64_def
          del: Utf8FromWide.simps\<close>)
  then have "m_KeyXPubThat c = m_KeyXPubThis d" by simp
  also have "\<dots> = replicate 64 2" using d(4,5) by (simp add: client_half_def)
  finally have "m_KeyXPubThat c = replicate 64 2" .
  moreover have "\<exists>msg. \<not> V msg" using a(1) by (metis not_Cons_self)
  ultimately show ?thesis using a(3,5) g by blast
qed

end
