(* ===== verification/ConGates.thy ===== *)
theory ConGates
  imports ConSession
begin

text \<open>
  What a connection does to a message that passes (P2PeerCon.cpp).  Outbound: the rewrite into a mounted
  network, the seal, the attestation of its origin.  Inbound: the address transform of a mapped
  connection, the login gates, the binding of an application message to the identity that logged in or
  to an attester entitled to its source, the opening of a sealed body.

  \<open>pHub\<close> is the policy of the hub that governs the connection and \<open>hubs\<close> the addresses of the hubs in this
  process.  A function answers \<open>None\<close> or the reason it throws, the message, and the policy it leaves.
\<close>

subsection \<open>Hubs in this process\<close>

definition IsP2PmsgHubInProcess :: "wstr list \<Rightarrow> wstr \<Rightarrow> bool" where
  "IsP2PmsgHubInProcess hubs strP2Paddr \<longleftrightarrow>
     strP2Paddr \<noteq> [] \<and> list_ex (\<lambda>a. a \<noteq> [] \<and> a = strP2Paddr) hubs"

subsection \<open>Mapped addresses\<close>

text \<open>
  The transform of a statically mapped connection.  The one of a fractally mapped connection works on
  the stacks of the address fields, which belong to the message container: \<open>fractal\<close>.
\<close>

definition PerformIFaddrTransform :: "(bool \<Rightarrow> con \<Rightarrow> peer_msg \<Rightarrow> peer_msg) \<Rightarrow> con \<Rightarrow> bool \<Rightarrow> peer_msg \<Rightarrow> peer_msg" where
  "PerformIFaddrTransform fractal c bSoR pMsg =
     (case m_eP2PeerIDmap c of
        P2PeerIDmap_NONE \<Rightarrow> pMsg
      | P2PeerIDmap_STATIC \<Rightarrow>
          if bSoR then SetDestin (SetSource pMsg (m_oThatP2Paddr c)) (con_hub_addr c)
          else (let m1 = SetDestin (SetSource pMsg (m_oThisP2Paddr1 c)) (m_oThatP2Paddr1 c)
                in if GetConmap m1 \<noteq> [] then SetDestin m1 (GetConmap m1) else m1)
      | P2PeerIDmap_FRACTAL \<Rightarrow> fractal bSoR c pMsg
      | _ \<Rightarrow> pMsg)"

subsection \<open>Outbound\<close>

text \<open>Whether the message may leave into the mounted network, and as what.\<close>

definition VNetMountOut ::
  "crypto \<Rightarrow> int \<Rightarrow> hub_policy option \<Rightarrow> con \<Rightarrow> peer_msg \<Rightarrow> (bool \<times> peer_msg) \<times> hub_policy option" where
  "VNetMountOut cr now pHub c pMsg =
     (let strSrc = GetSource pMsg; strDst = GetDestin pMsg;
          rewrite = (\<lambda>m. SetSource (SetDestin m (VNetWireDst c strDst)) (VNetWireSrc c strSrc)) in
      if IsHandshakeP2PeerMsg pMsg then ((True, rewrite pMsg), pHub)
      else if IsFannedOut pMsg then ((False, pMsg), pHub)
      else if \<not> (HasVNet strDst \<and> con_hub_addr c = GetVNet strDst) then ((False, pMsg), pHub)
      else if fst (IsSealed pMsg) then
        (case pHub of None \<Rightarrow> ((False, pMsg), pHub)
         | Some h \<Rightarrow>
            if OpenedSize (DataSize pMsg) = 0 then ((False, pMsg), pHub)
            else (case OpenFrom cr now h strSrc (GetScopeOrDestin pMsg) (Data pMsg) (OpenedSize (DataSize pMsg)) of
                (Inl e, h') \<Rightarrow> ((False, pMsg), Some h')
              | (Inr plain, h') \<Rightarrow>
                  ((True, rewrite (ClearRelayAttest (ClearSealed (SetData pMsg (Some (m_name pMsg)) plain)))), Some h')))
      else ((True, rewrite (ClearRelayAttest pMsg)), pHub))"

definition SealAppMsgOutbound ::
  "crypto \<Rightarrow> int \<Rightarrow> bytes option \<Rightarrow> bytes option \<Rightarrow> hub_policy option \<Rightarrow> wstr list \<Rightarrow> con \<Rightarrow> peer_msg \<Rightarrow> bool \<times> peer_msg" where
  "SealAppMsgOutbound cr now eph cek pHub hubs c pMsg =
     (case pHub of None \<Rightarrow> (True, pMsg)
      | Some h \<Rightarrow>
        if \<not> IsSealRequired h then (True, pMsg)
        else if Map_MatchName (m_name pMsg) P2Pmsg_Login \<or> Map_MatchName (m_name pMsg) P2Pmsg_LoginAck
             \<or> Map_MatchName (m_name pMsg) P2Pmsg_CypherEx then (True, pMsg)
        else if fst (IsSealed pMsg) then (True, pMsg)
        else if HasScope pMsg \<and> \<not> IsSealBroadcastRequired h then (True, pMsg)
        else if HasUpScope pMsg \<and> \<not> IsSealUpcastRequired h then (True, pMsg)
        else (let strScope = GetScopeOrDestin pMsg in
          if strScope = [] then (True, pMsg)
          else if m_oThatP2Paddr c = strScope then (True, pMsg)
          else if \<not> IsFannedOut pMsg \<and> IsEndToEndWaivedInProcess h \<and> IsP2PmsgHubInProcess hubs strScope then (True, pMsg)
          else if DataSize pMsg = 0 then (True, pMsg)
          else (case SealFor cr now eph cek h (GetSource pMsg) strScope (Data pMsg) (SealedSize (DataSize pMsg) kSealMaxReaders) of
              Inl e \<Rightarrow> (False, pMsg)
            | Inr vSealed \<Rightarrow>
                if vSealed = [] then (False, pMsg)
                else (True, SetSealed (SetData pMsg (Some (m_name pMsg)) vSealed) (DataSize pMsg)))))"

definition kRelayMaxLen :: nat where "kRelayMaxLen = kRelayFixedLen + kRelayAttesterMax"

definition AttestAppMsgOutbound ::
  "crypto \<Rightarrow> int \<Rightarrow> hub_policy option \<Rightarrow> wstr list \<Rightarrow> con \<Rightarrow> peer_msg \<Rightarrow> peer_msg" where
  "AttestAppMsgOutbound cr now pHub hubs c pMsg =
     (case pHub of None \<Rightarrow> pMsg
      | Some h \<Rightarrow>
        if \<not> IsRelayAuthRequired h \<or> \<not> CanAuthSign h then pMsg
        else if Map_MatchName (m_name pMsg) P2Pmsg_Login \<or> Map_MatchName (m_name pMsg) P2Pmsg_LoginAck
             \<or> Map_MatchName (m_name pMsg) P2Pmsg_CypherEx then pMsg
        else if HasRelayAttest pMsg then pMsg
        else if con_hub_addr c = [] then pMsg
        else if \<not> IsRable (con_hub_addr c) (GetSource pMsg) then pMsg
        else if \<not> IsFannedOut pMsg \<and> IsEndToEndWaivedInProcess h \<and> IsP2PmsgHubInProcess hubs (GetScopeOrDestin pMsg) then pMsg
        else (case AttestRelay cr now h (con_hub_addr c) (GetSource pMsg) (GetScopeOrDestin pMsg) (Some (m_name pMsg)) (Data pMsg) kRelayMaxLen of
            Inl e \<Rightarrow> pMsg
          | Inr aBlock \<Rightarrow> if aBlock = [] then pMsg else SetRelayAttest pMsg aBlock))"

text \<open>The send completion: what becomes of the message it took from the queue.\<close>

definition send_gates ::
  "(bool \<Rightarrow> con \<Rightarrow> peer_msg \<Rightarrow> peer_msg) \<Rightarrow> crypto \<Rightarrow> int \<Rightarrow> bytes option \<Rightarrow> bytes option \<Rightarrow> hub_policy option \<Rightarrow> wstr list
   \<Rightarrow> con \<Rightarrow> peer_msg \<Rightarrow> peer_msg option \<times> hub_policy option" where
  "send_gates fractal cr now eph cek pHub hubs c pMsg =
     (let m1 = PerformIFaddrTransform fractal c False pMsg in
      if IsVNetMount c then
        (case VNetMountOut cr now pHub c m1 of ((bCarry, m2), pHub') \<Rightarrow> (if bCarry then Some m2 else None, pHub'))
      else
        (case SealAppMsgOutbound cr now eph cek pHub hubs c m1 of (bSend, m2) \<Rightarrow>
           if bSend then (Some (AttestAppMsgOutbound cr now pHub hubs c m2), pHub) else (None, pHub)))"

subsection \<open>Inbound\<close>

definition GateRelayInbound ::
  "crypto \<Rightarrow> int \<Rightarrow> hub_policy option \<Rightarrow> wstr list \<Rightarrow> con \<Rightarrow> peer_msg \<Rightarrow> con_error option \<times> hub_policy option" where
  "GateRelayInbound cr now pHub hubs c pMsg =
     (case pHub of None \<Rightarrow> (None, pHub)
      | Some h \<Rightarrow>
        if \<not> IsRelayAuthRequired h then (None, pHub)
        else if m_eP2PeerIDmap c \<noteq> P2PeerIDmap_NONE then (Some RelayMapped, pHub)
        else if IsEndToEndWaivedInProcess h \<and> IsP2PmsgHubInProcess hubs (GetSource pMsg) then (None, pHub)
        else (case GetRelayAttest pMsg of None \<Rightarrow> (Some (RelayRefused AuthErrFormat), pHub)
          | Some pvAtt \<Rightarrow>
            (case hub_VerifyRelay cr now h (GetSource pMsg) (GetScopeOrDestin pMsg) (Some (m_name pMsg)) (Data pMsg) pvAtt (kRelayAttesterMax + 1) of
               ((eResult, oAttester, nSkew), h') \<Rightarrow>
                 if eResult = AuthOk
                 then (case oAttester of
                         Some a \<Rightarrow> if a \<noteq> [] \<and> IsRable a (GetSource pMsg) then (None, Some h') else (Some RelayNotEntitled, Some h')
                       | None \<Rightarrow> (Some RelayNotEntitled, Some h'))
                 else (Some (RelayRefused eResult), Some h'))))"

definition OpenAppMsgInbound ::
  "crypto \<Rightarrow> int \<Rightarrow> hub_policy option \<Rightarrow> con \<Rightarrow> peer_msg \<Rightarrow> (con_error option \<times> peer_msg) \<times> hub_policy option" where
  "OpenAppMsgInbound cr now pHub c pMsg =
     (if \<not> fst (IsSealed pMsg) then ((None, pMsg), pHub)
      else (case pHub of None \<Rightarrow> ((None, pMsg), pHub)
      | Some h \<Rightarrow>
        if con_hub_addr c = [] \<or> GetDestin pMsg = [] then ((None, pMsg), pHub)
        else if con_hub_addr c \<noteq> GetDestin pMsg then ((None, pMsg), pHub)
        else if OpenedSize (DataSize pMsg) = 0 then ((Some SealedTooShort, pMsg), pHub)
        else (case OpenFrom cr now h (GetSource pMsg) (GetScopeOrDestin pMsg) (Data pMsg) (OpenedSize (DataSize pMsg)) of
            (Inr vPlain, h') \<Rightarrow> ((None, ClearSealed (SetData pMsg (Some (m_name pMsg)) vPlain)), Some h')
          | (Inl e, h') \<Rightarrow> ((Some (SealedUnopened e), pMsg), Some h'))))"

definition GateAppMsgInbound ::
  "crypto \<Rightarrow> int \<Rightarrow> hub_policy option \<Rightarrow> wstr list \<Rightarrow> con \<Rightarrow> peer_msg \<Rightarrow> (con_error option \<times> peer_msg) \<times> hub_policy option" where
  "GateAppMsgInbound cr now pHub hubs c pMsg =
     (if \<not> HasState ConState_Login c then ((Some BeforeLogin, pMsg), pHub)
      else if m_oThatP2Paddr c = [] then ((None, pMsg), pHub)
      else (let strSource = GetSource pMsg;
                bBound = (if IsVNetMount c then HasVNet strSource \<and> con_hub_addr c = GetVNet strSource
                          else IsRable (m_oThatP2Paddr c) strSource) in
        if bBound then OpenAppMsgInbound cr now pHub c pMsg
        else if \<not> IsVNetMount c \<and> con_hub_addr c \<noteq> [] \<and> IsRable (m_oThatP2Paddr c) (con_hub_addr c)
        then (case GateRelayInbound cr now pHub hubs c pMsg of
                (Some e, pHub') \<Rightarrow> ((Some e, pMsg), pHub')
              | (None, pHub') \<Rightarrow> OpenAppMsgInbound cr now pHub' c pMsg)
        else ((Some SourceNotIdentity, pMsg), pHub)))"

text \<open>What the receive loop posts for a message, and the connection after it.\<close>

datatype recv_post = NothingPosted | PostLogin wstr peer_msg | PostLoginAck wstr peer_msg | PostApp wstr peer_msg

definition recv_gates ::
  "(bool \<Rightarrow> con \<Rightarrow> peer_msg \<Rightarrow> peer_msg) \<Rightarrow> crypto \<Rightarrow> int \<Rightarrow> bytes option \<Rightarrow> bytes option \<Rightarrow> p2p_prefix
   \<Rightarrow> hub_policy option \<Rightarrow> wstr list \<Rightarrow> con \<Rightarrow> peer_msg \<Rightarrow> (con_result \<times> recv_post) \<times> hub_policy option" where
  "recv_gates fractal cr now rnd eph pfx pHub hubs c pMsg0 =
     (let pMsg = PerformIFaddrTransform fractal c True pMsg0;
          hold = (\<lambda>c. SetState ConState_LoginHold 0 c) in
      if Map_MatchName (m_name pMsg) P2Pmsg_KeyX then ((KeyXOnRequest cr pHub pfx eph pMsg c, NothingPosted), pHub)
      else if Map_MatchName (m_name pMsg) P2Pmsg_KeyXAck then ((KeyXOnAck cr now rnd pHub pfx pMsg c, NothingPosted), pHub)
      else if Map_MatchName (m_name pMsg) P2Pmsg_Login then
        (case AuthGateInbound cr now pHub pMsg False c of
           ((None, c'), pHub') \<Rightarrow> (((None, hold c'), PostLogin (GetSource pMsg) pMsg), pHub')
         | ((Some e, c'), pHub') \<Rightarrow> (((Some e, c'), NothingPosted), pHub'))
      else if Map_MatchName (m_name pMsg) P2Pmsg_LoginAck then
        (case AuthGateInbound cr now pHub pMsg True c of
           ((None, c'), pHub') \<Rightarrow> (((None, hold c'), PostLoginAck (m_oThatP2Paddr c') pMsg), pHub')
         | ((Some e, c'), pHub') \<Rightarrow> (((Some e, c'), NothingPosted), pHub'))
      else
        (case GateAppMsgInbound cr now pHub hubs c pMsg of
           ((None, m'), pHub') \<Rightarrow> (((None, c), PostApp (GetSource m') m'), pHub')
         | ((Some e, m'), pHub') \<Rightarrow> (((Some e, c), NothingPosted), pHub')))"

subsection \<open>What opening and sealing change\<close>

lemma sealed_reads [simp]:
  "GetSource (SetData m (Some n) d) = GetSource m" "GetDestin (SetData m (Some n) d) = GetDestin m"
  "GetScopeOrDestin (SetData m (Some n) d) = GetScopeOrDestin m" "Data (SetData m (Some n) d) = d"
  "m_name (SetData m (Some (m_name m)) d) = m_name m"
  "GetSource (ClearSealed m) = GetSource m" "GetDestin (ClearSealed m) = GetDestin m"
  "GetScopeOrDestin (ClearSealed m) = GetScopeOrDestin m" "Data (ClearSealed m) = Data m" "m_name (ClearSealed m) = m_name m"
  "GetSource (SetSealed m k) = GetSource m" "GetDestin (SetSealed m k) = GetDestin m"
  "GetScopeOrDestin (SetSealed m k) = GetScopeOrDestin m" "Data (SetSealed m k) = Data m" "m_name (SetSealed m k) = m_name m"
  "GetRelayAttest (SetData m (Some n) d) = GetRelayAttest m"
  by (auto simp: SetData_def ClearSealed_def SetSealed_def GetScopeOrDestin_def get_defs net_defs Data_def GetRelayAttest_def Let_def split: option.splits)

lemma ClearSealed_unsealed [simp]: "\<not> fst (IsSealed (ClearSealed m))"
  by (simp add: ClearSealed_def IsSealed_def split: option.split)

lemma SetSealed_sealed [simp]: "fst (IsSealed (SetSealed m k))"
  by (simp add: SetSealed_def IsSealed_def Let_def)

lemma attested_reads [simp]:
  "GetSource (SetRelayAttest m b) = GetSource m" "GetScopeOrDestin (SetRelayAttest m b) = GetScopeOrDestin m"
  "Data (SetRelayAttest m b) = Data m" "m_name (SetRelayAttest m b) = m_name m"
  "b \<noteq> [] \<Longrightarrow> GetRelayAttest (SetRelayAttest m b) = Some b"
  by (auto simp: SetRelayAttest_def GetScopeOrDestin_def get_defs net_defs Data_def GetRelayAttest_def cong: option.case_cong)

lemma attested_sealed [simp]: "fst (IsSealed (SetRelayAttest m b)) = fst (IsSealed m)"
  by (auto simp: SetRelayAttest_def IsSealed_def net_defs split: option.splits)

lemma OpenAppMsgInbound_keeps:
  assumes "OpenAppMsgInbound cr now pHub c m = ((e, m'), h')"
  shows "GetSource m' = GetSource m \<and> GetDestin m' = GetDestin m \<and> GetScopeOrDestin m' = GetScopeOrDestin m \<and> m_name m' = m_name m"
  using assms by (auto simp: OpenAppMsgInbound_def split: if_splits option.splits prod.splits sum.splits)

subsection \<open>Inbound sources\<close>

lemma GateApp_cases:
  assumes "GateAppMsgInbound cr now pHub hubs c m = ((None, m'), h')" and "m_oThatP2Paddr c \<noteq> []"
  shows "HasState ConState_Login c \<and> GetSource m' = GetSource m \<and> m_name m' = m_name m
    \<and> (if IsVNetMount c then HasVNet (GetSource m) \<and> con_hub_addr c = GetVNet (GetSource m)
       else IsRable (m_oThatP2Paddr c) (GetSource m)
          \<or> IsRable (m_oThatP2Paddr c) (con_hub_addr c) \<and> (\<exists>h''. GateRelayInbound cr now pHub hubs c m = (None, h'')))"
  using assms OpenAppMsgInbound_keeps
  by (auto simp: GateAppMsgInbound_def Let_def split: if_splits option.splits prod.splits)

lemma GateRelay_verified:
  assumes "GateRelayInbound cr now (Some (Some p)) hubs c m = (None, h')" and "m_bRelayRequired p"
    and "\<not> (m_bWaiveE2EInProcess p \<and> IsP2PmsgHubInProcess hubs (GetSource m))"
  obtains att blk sk p' where "GetRelayAttest m = Some blk" and "att \<noteq> []" and "IsRable att (GetSource m)"
    and "VerifyRelay cr now p (GetSource m) (GetScopeOrDestin m) (Some (m_name m)) (Data m) blk (kRelayAttesterMax + 1) = ((AuthOk, Some att, sk), p')"
proof -
  obtain blk where b: "GetRelayAttest m = Some blk"
    using assms by (auto simp: GateRelayInbound_def IsRelayAuthRequired_def IsEndToEndWaivedInProcess_def split: if_splits option.splits)
  obtain r a sk p' where v: "VerifyRelay cr now p (GetSource m) (GetScopeOrDestin m) (Some (m_name m)) (Data m) blk (kRelayAttesterMax + 1) = ((r, a, sk), p')"
    by (metis prod.exhaust)
  have "r = AuthOk \<and> (\<exists>x. a = Some x \<and> x \<noteq> [] \<and> IsRable x (GetSource m))"
    using assms b v
    by (auto simp: GateRelayInbound_def IsRelayAuthRequired_def IsEndToEndWaivedInProcess_def hub_VerifyRelay_def split: if_splits option.splits)
  then show thesis using b v that by auto
qed

text \<open>
  C25: No source is let in that nobody answers for.  When the gate passes an application message of a
  named peer, the peer has logged in, and the message's source is at or below the peer; or the link is
  a mount and the source is qualified with this hub; or this hub is itself below the peer, which relays
  for others.  In the last case, when the hub requires attestations and the source is not a waived hub
  of its own process, some key holder at or above the source attested exactly this source, scope, name
  and body: supposing every message that verifies under a live key of an attester is an attestation
  made with it, or one of the other things an identity key signs.
\<close>

theorem source_answered_for:
  assumes "GateAppMsgInbound cr now (Some (Some p)) hubs c m = ((None, m'), h')" and "m_oThatP2Paddr c \<noteq> []" and "crypto_ok cr"
    and "m_bRelayRequired p" and "\<not> (m_bWaiveE2EInProcess p \<and> IsP2PmsgHubInProcess hubs (GetSource m))"
    and "\<forall>att a. Utf8FromWide (wchar4 cr) att = Some a \<longrightarrow> (\<forall>K \<in> set (live_keys p now a). \<forall>msg sig. EcdsaVerify cr K msg sig \<longrightarrow>
           (\<exists>r \<in> set calls. relay_signs cr r = Some msg) \<or> other_than_relay cr msg)"
    and "list_all (relay_call_ok cr) calls" and "list_all (address_ok (wchar4 cr)) [GetSource m, GetScopeOrDestin m, m_name m]"
  shows "HasState ConState_Login c \<and> GetSource m' = GetSource m
    \<and> (if IsVNetMount c then HasVNet (GetSource m) \<and> con_hub_addr c = GetVNet (GetSource m)
       else IsRable (m_oThatP2Paddr c) (GetSource m)
          \<or> IsRable (m_oThatP2Paddr c) (con_hub_addr c)
            \<and> (\<exists>r \<in> set calls. IsRable (rc_attester r) (GetSource m) \<and> rc_src r = GetSource m \<and> rc_dst r = GetScopeOrDestin m
                 \<and> name_of (rc_name r) = m_name m \<and> Sha256 cr (rc_body r) = Sha256 cr (Data m)))"
proof -
  have g: "HasState ConState_Login c" "GetSource m' = GetSource m"
    "if IsVNetMount c then HasVNet (GetSource m) \<and> con_hub_addr c = GetVNet (GetSource m)
     else IsRable (m_oThatP2Paddr c) (GetSource m)
        \<or> IsRable (m_oThatP2Paddr c) (con_hub_addr c) \<and> (\<exists>h''. GateRelayInbound cr now (Some (Some p)) hubs c m = (None, h''))"
    using GateApp_cases [OF assms(1,2)] by simp_all
  have att: "\<exists>r \<in> set calls. IsRable (rc_attester r) (GetSource m) \<and> rc_src r = GetSource m \<and> rc_dst r = GetScopeOrDestin m
      \<and> name_of (rc_name r) = m_name m \<and> Sha256 cr (rc_body r) = Sha256 cr (Data m)"
    if q: "GateRelayInbound cr now (Some (Some p)) hubs c m = (None, h'')" for h''
  proof -
    obtain att blk sk p' where v: "IsRable att (GetSource m)"
      "VerifyRelay cr now p (GetSource m) (GetScopeOrDestin m) (Some (m_name m)) (Data m) blk (kRelayAttesterMax + 1) = ((AuthOk, Some att, sk), p')"
      by (rule GateRelay_verified [OF q assms(4,5)])
    have "\<exists>r \<in> set calls. rc_attester r = att \<and> rc_src r = GetSource m \<and> rc_dst r = GetScopeOrDestin m
       \<and> name_of (rc_name r) = name_of (Some (m_name m)) \<and> Sha256 cr (rc_body r) = Sha256 cr (Data m)
       \<and> \<not> skew_refused cr (m_nWindow p) (clock_skew cr now (rc_ts r))"
      by (rule relay_attested_as_presented [OF v(2) assms(3) _ assms(7)]) (use assms(6,8) in \<open>simp_all add: name_of_def\<close>)
    with v(1) show ?thesis by (auto simp: name_of_def)
  qed
  show ?thesis using g att by (auto split: if_splits)
qed

subsection \<open>Sealed bodies\<close>

lemma SealApp_cases:
  assumes "SealAppMsgOutbound cr now eph cek (Some (Some p)) hubs c m = (True, m')"
  obtains (kept) "m' = m"
  | (sealed) blob where "AuthSeal cr now eph cek p (GetSource m) (GetScopeOrDestin m) (Data m) (SealedSize (DataSize m) kSealMaxReaders) 0 = Inr blob"
      and "m' = SetSealed (SetData m (Some (m_name m)) blob) (DataSize m)" and "GetScopeOrDestin m \<noteq> []" and "Data m \<noteq> []"
proof -
  show thesis
  proof (cases "m' = m")
    case False
    with assms have "\<exists>blob. AuthSeal cr now eph cek p (GetSource m) (GetScopeOrDestin m) (Data m) (SealedSize (DataSize m) kSealMaxReaders) 0 = Inr blob
      \<and> m' = SetSealed (SetData m (Some (m_name m)) blob) (DataSize m) \<and> GetScopeOrDestin m \<noteq> [] \<and> Data m \<noteq> []"
      by (auto simp: SealAppMsgOutbound_def SealFor_def Let_def DataSize_def split: if_splits sum.splits)
    then show thesis using sealed by blast
  qed (rule kept)
qed

lemma SealApp_exempt:
  assumes s: "SealAppMsgOutbound cr now eph cek (Some (Some p)) hubs c m = (True, m)" and "m_bSealRequired p" and "\<not> fst (IsSealed m)"
  shows "Map_MatchName (m_name m) P2Pmsg_Login \<or> Map_MatchName (m_name m) P2Pmsg_LoginAck \<or> Map_MatchName (m_name m) P2Pmsg_CypherEx
        \<or> HasScope m \<and> \<not> m_bSealBroadcastRequired p \<or> HasUpScope m \<and> \<not> m_bSealUpcastRequired p
        \<or> GetScopeOrDestin m \<in> {[], m_oThatP2Paddr c} \<or> Data m = []
        \<or> \<not> IsFannedOut m \<and> m_bWaiveE2EInProcess p \<and> IsP2PmsgHubInProcess hubs (GetScopeOrDestin m)"
proof (rule ccontr)
  assume n: "\<not> ?thesis"
  have w: "IsSealRequired (Some p) = True" "fst (IsSealed m) = False" "(DataSize m = 0) = False" "(GetScopeOrDestin m = []) = False"
    "(Map_MatchName (m_name m) P2Pmsg_Login \<or> Map_MatchName (m_name m) P2Pmsg_LoginAck \<or> Map_MatchName (m_name m) P2Pmsg_CypherEx) = False"
    "(HasScope m \<and> \<not> IsSealBroadcastRequired (Some p)) = False" "(HasUpScope m \<and> \<not> IsSealUpcastRequired (Some p)) = False"
    "(m_oThatP2Paddr c = GetScopeOrDestin m) = False"
    "(\<not> IsFannedOut m \<and> IsEndToEndWaivedInProcess (Some p) \<and> IsP2PmsgHubInProcess hubs (GetScopeOrDestin m)) = False"
    using n assms(2,3)
    by (auto simp: DataSize_def IsSealRequired_def IsSealBroadcastRequired_def IsSealUpcastRequired_def IsEndToEndWaivedInProcess_def)
  have "SealAppMsgOutbound cr now eph cek (Some (Some p)) hubs c m =
      (case SealFor cr now eph cek (Some p) (GetSource m) (GetScopeOrDestin m) (Data m) (SealedSize (DataSize m) kSealMaxReaders) of
         Inl e \<Rightarrow> (False, m)
       | Inr b \<Rightarrow> if b = [] then (False, m) else (True, SetSealed (SetData m (Some (m_name m)) b) (DataSize m)))"
    unfolding SealAppMsgOutbound_def Let_def option.case by (simp only: w if_False if_True simp_thms)
  with s have "\<exists>b. SetSealed (SetData m (Some (m_name m)) b) (DataSize m) = m"
    by (auto split: sum.splits if_splits)
  then show False using assms(3) SetSealed_sealed by metis
qed

lemma Attest_cases:
  obtains (kept) "AttestAppMsgOutbound cr t (Some (Some p)) hubs c m = m"
  | (attested) blk where "AttestAppMsgOutbound cr t (Some (Some p)) hubs c m = SetRelayAttest m blk" and "blk \<noteq> []"
      and "BuildRelay cr t p (con_hub_addr c) (GetSource m) (GetScopeOrDestin m) (Some (m_name m)) (Data m) kRelayMaxLen = Inr blk"
      and "IsRable (con_hub_addr c) (GetSource m)"
proof (cases "AttestAppMsgOutbound cr t (Some (Some p)) hubs c m = m")
  case False
  then have "\<exists>blk. AttestAppMsgOutbound cr t (Some (Some p)) hubs c m = SetRelayAttest m blk \<and> blk \<noteq> []
      \<and> BuildRelay cr t p (con_hub_addr c) (GetSource m) (GetScopeOrDestin m) (Some (m_name m)) (Data m) kRelayMaxLen = Inr blk
      \<and> IsRable (con_hub_addr c) (GetSource m)"
    by (auto simp: AttestAppMsgOutbound_def AttestRelay_def split: if_splits sum.splits)
  then show thesis using attested by blast
qed (rule kept)

text \<open>
  C26: A hub that requires sealing lets nothing out in clear but what its rules name.  When the send gate
  of an unmounted connection lets a message leave that is not sealed, the message is a login, its
  acknowledgement or a cypher exchange, or one that was not to be sealed: a broadcast or an upcast the hub
  does not require sealed, one for the adjacent peer itself or for no address, one for a hub of this
  process under the waiver, or one without a body.  Otherwise the hub's seal replaced the body, under
  the message's source and scope.
\<close>

theorem left_in_clear:
  assumes "send_gates fractal cr now eph cek (Some (Some p)) hubs c m = (Some m', h')" and "\<not> IsVNetMount c" and "m_eP2PeerIDmap c = P2PeerIDmap_NONE"
    and "m_bSealRequired p" and "\<not> fst (IsSealed m)"
  shows "if fst (IsSealed m')
     then AuthSeal cr now eph cek p (GetSource m) (GetScopeOrDestin m) (Data m) (SealedSize (DataSize m) kSealMaxReaders) 0 = Inr (Data m')
        \<and> GetSource m' = GetSource m \<and> GetScopeOrDestin m' = GetScopeOrDestin m \<and> m_name m' = m_name m
     else Map_MatchName (m_name m) P2Pmsg_Login \<or> Map_MatchName (m_name m) P2Pmsg_LoginAck \<or> Map_MatchName (m_name m) P2Pmsg_CypherEx
        \<or> HasScope m \<and> \<not> m_bSealBroadcastRequired p \<or> HasUpScope m \<and> \<not> m_bSealUpcastRequired p
        \<or> GetScopeOrDestin m \<in> {[], m_oThatP2Paddr c} \<or> Data m = []
        \<or> \<not> IsFannedOut m \<and> m_bWaiveE2EInProcess p \<and> IsP2PmsgHubInProcess hubs (GetScopeOrDestin m)"
proof -
  obtain m1 where s: "SealAppMsgOutbound cr now eph cek (Some (Some p)) hubs c m = (True, m1)"
    and m': "m' = AttestAppMsgOutbound cr now (Some (Some p)) hubs c m1"
    using assms(1-3) by (auto simp: send_gates_def PerformIFaddrTransform_def Let_def split: prod.splits if_splits)
  have "m' = m1 \<or> (\<exists>blk. m' = SetRelayAttest m1 blk)"
    unfolding m' by (rule Attest_cases [of cr now p hubs c m1]) auto
  then have a: "Data m' = Data m1" "GetSource m' = GetSource m1" "GetScopeOrDestin m' = GetScopeOrDestin m1" "m_name m' = m_name m1"
    "fst (IsSealed m') = fst (IsSealed m1)"
    by auto
  from s show ?thesis
  proof (cases rule: SealApp_cases)
    case kept
    then have "\<not> fst (IsSealed m')" using assms(5) a by simp
    with SealApp_exempt [OF s [unfolded kept] assms(4,5)] show ?thesis by simp
  next
    case (sealed blob)
    then show ?thesis using a by simp
  qed
qed

text \<open>
  C5: A sealed message opens where it is addressed.  An origin hub seals a message on its way out; a hub that
  receives it, however many hubs relayed it, and whose address is its destination opens it to the body
  the origin gave, with the same source, scope and name, when the reader holds the agreement key the
  origin lists for the scope or for one of its further readers and trusts the origin's key for the
  source.  It refuses it only for an unusable revocation list, for its age, or as a replay.
\<close>

theorem sealed_message_end_to_end:
  assumes "crypto_ok cr" and "m_pIdentity pa = Some k" and "EcdsaPublic cr k = Some K"
    and "SealAppMsgOutbound cr t (Some e) (Some cek) (Some (Some pa)) hubs c m = (True, m1)"
    and "\<not> fst (IsSealed m)" and "fst (IsSealed m1)"
    and "length cek = kSealCekLen" and "EcdhPublic cr e = Some eph" and "is_i64 (seal_time t 0)"
    and "tags_separate cr eph (List.map_filter al_agree (m_pAllow pa))"
    and "m_pAgreement pr = Some r" and "EcdhPublic cr r = Some rp"
    and "n \<in> set (GetScopeOrDestin m # m_pSealReaders pa)" and "FindAgreement cr t pa n = Some rp"
    and "trusts cr now pr (GetSource m) K"
    and "Data m2 = Data m1" and "GetSource m2 = GetSource m1" and "GetScopeOrDestin m2 = GetScopeOrDestin m1" and "m_name m2 = m_name m1"
    and "fst (IsSealed m2)" and "con_hub_addr d = GetDestin m2" and "GetDestin m2 \<noteq> []"
  shows "\<exists>m3. Data m3 = Data m \<and> GetSource m3 = GetSource m \<and> GetScopeOrDestin m3 = GetScopeOrDestin m \<and> m_name m3 = m_name m
     \<and> \<not> fst (IsSealed m3)
     \<and> fst (OpenAppMsgInbound cr now (Some (Some pr)) d m2) =
         (if \<not> IsRevocationUsable pr now then (Some (SealedUnopened SealErrRevoked), m2)
          else case open_refusal now pr (drop (length (Data m2) - kSealSigLen) (Data m2)) (seal_time t 0) of
                 Some x \<Rightarrow> (Some (SealedUnopened x), m2)
               | None \<Rightarrow> (None, m3))"
  using assms(4)
proof (cases rule: SealApp_cases)
  case kept
  then show ?thesis using assms(5,6) by simp
next
  case (sealed blob)
  have d: "Data m2 = blob" "GetSource m2 = GetSource m" "GetScopeOrDestin m2 = GetScopeOrDestin m" "m_name m2 = m_name m"
    using assms(16-19) by (simp_all add: sealed(2))
  have len: "length (Data m) \<le> OpenedSize (length blob)" "OpenedSize (length blob) \<noteq> 0"
  proof -
    obtain key rdrs where s: "m_pIdentity pa = Some key"
      "SealTo cr t (Some e) (Some cek) key rdrs (GetSource m) (GetScopeOrDestin m) (Data m) (SealedSize (DataSize m) kSealMaxReaders) 0 = Inr blob"
      "set rdrs = {k. \<exists>n \<in> set (GetScopeOrDestin m # m_pSealReaders pa). FindAgreement cr t pa n = Some k}"
      by (rule AuthSeal_parts [OF sealed(1)])
    have "set rdrs \<subseteq> set (List.map_filter al_agree (m_pAllow pa))" unfolding s(3) using FindAgreement_agreed by auto
    then have sep: "tags_separate cr eph rdrs" using assms(10) unfolding tags_separate_def by blast
    have rp: "rp \<in> set rdrs" using s(3) assms(13,14) by blast
    have "SealTo cr t (Some e) (Some cek) k rdrs (GetSource m) (GetScopeOrDestin m) (Data m) (SealedSize (DataSize m) kSealMaxReaders) 0 = Inr blob"
      using s(1,2) assms(2) by simp
    from SealTo_opens [OF assms(1,3) this assms(12) rp assms(8) sep assms(7,9) order.refl]
    have "length blob = SealedSize (length (Data m)) (length rdrs)" by simp
    moreover have "0 < length rdrs" using rp by (cases rdrs) auto
    ultimately show "length (Data m) \<le> OpenedSize (length blob)" "OpenedSize (length blob) \<noteq> 0"
      by (simp_all add: seal_sizes)
  qed
  have o: "AuthOpen cr now pr (GetSource m) (GetScopeOrDestin m) blob (OpenedSize (length blob)) =
    (if IsRevocationUsable pr now then opened now pr blob (Data m) (seal_time t 0) else (Inl SealErrRevoked, pr))"
    by (rule sealed_body_opens [OF assms(1-3) sealed(1) assms(7-15) len(1)])
  define m3 where "m3 = ClearSealed (SetData m2 (Some (m_name m2)) (Data m))"
  have f: "fst (OpenAppMsgInbound cr now (Some (Some pr)) d m2) =
         (if \<not> IsRevocationUsable pr now then (Some (SealedUnopened SealErrRevoked), m2)
          else case open_refusal now pr (drop (length (Data m2) - kSealSigLen) (Data m2)) (seal_time t 0) of
                 Some x \<Rightarrow> (Some (SealedUnopened x), m2)
               | None \<Rightarrow> (None, m3))"
    using assms(20-22) len(2) o
    by (auto simp: OpenAppMsgInbound_def OpenFrom_def d m3_def DataSize_def opened_def Let_def split: option.splits)
  have "m_name m3 = m_name m2" by (simp add: m3_def)
  then have "m_name m3 = m_name m" using d(4) by simp
  moreover have "Data m3 = Data m" "GetSource m3 = GetSource m" "GetScopeOrDestin m3 = GetScopeOrDestin m" "\<not> fst (IsSealed m3)"
    using d(2,3) by (simp_all add: m3_def)
  ultimately show ?thesis
    by (intro exI [of _ m3] conjI f)
qed

subsection \<open>Attested sources\<close>

lemma attested_relay_passes:
  assumes "crypto_ok cr" and "m_pIdentity pa = Some k" and "EcdsaPublic cr k = Some K"
    and "m1 = AttestAppMsgOutbound cr t (Some (Some pa)) hubs c m" and "\<not> HasRelayAttest m" and "HasRelayAttest m1"
    and "is_i64 t" and "wide_units_ok (wchar4 cr) (con_hub_addr c)"
    and "trusts cr now p (con_hub_addr c) K" and "\<not> skew_refused cr (m_nWindow p) (clock_skew cr now t)"
    and "GetRelayAttest m2 = GetRelayAttest m1" and "GetSource m2 = GetSource m" and "GetScopeOrDestin m2 = GetScopeOrDestin m"
    and "m_name m2 = m_name m" and "Data m2 = Data m" and "m_eP2PeerIDmap d = P2PeerIDmap_NONE" and "con_hub_addr c \<noteq> []"
  shows "fst (GateRelayInbound cr now (Some (Some p)) hubs' d m2) = None
    \<or> m_bRelayReplay p \<and> fst (GateRelayInbound cr now (Some (Some p)) hubs' d m2) = Some (RelayRefused AuthErrReplay)
      \<and> (\<exists>sig. SeenRelaySig p sig)"
proof (rule Attest_cases [of cr t pa hubs c m])
  assume "AttestAppMsgOutbound cr t (Some (Some pa)) hubs c m = m"
  then show ?thesis using assms(4-6) by simp
next
  fix blk
  assume a: "AttestAppMsgOutbound cr t (Some (Some pa)) hubs c m = SetRelayAttest m blk" "blk \<noteq> []"
    "BuildRelay cr t pa (con_hub_addr c) (GetSource m) (GetScopeOrDestin m) (Some (m_name m)) (Data m) kRelayMaxLen = Inr blk"
    "IsRable (con_hub_addr c) (GetSource m)"
  obtain sig where s: "CheckRelay cr now p (GetSource m) (GetScopeOrDestin m) (Some (m_name m)) (Data m) blk
      = (Inr (con_hub_addr c, sig), clock_skew cr now t)"
    by (rule CheckRelay_built [OF assms(1-3) a(3) assms(7-10)])
  obtain u where "Utf8FromWide (wchar4 cr) (con_hub_addr c) = Some u" "length u \<le> kRelayAttesterMax"
    using a(3) assms(2) by (auto simp: BuildRelay_def Let_def split: option.splits if_splits)
  then have len: "length (con_hub_addr c) \<le> kRelayAttesterMax" using Utf8FromWide_length by fastforce
  have g: "GetRelayAttest m2 = Some blk" using a(1,2) assms(4,11) by simp
  have v: "VerifyRelay cr now p (GetSource m) (GetScopeOrDestin m) (Some (m_name m)) (Data m) blk (Suc kRelayAttesterMax) =
    (if m_bRelayReplay p \<and> SeenRelaySig p sig then ((AuthErrReplay, None, clock_skew cr now t), p)
     else ((AuthOk, Some (con_hub_addr c), clock_skew cr now t), if m_bRelayReplay p then NoteRelaySig sig now p else p))"
    using s len by (simp add: VerifyRelay_def Let_def)
  show ?thesis
    using g assms(12-17) a(4) by (auto simp: GateRelayInbound_def hub_VerifyRelay_def v split: if_splits)
qed

text \<open>
  An attested message passes the gates of the hubs it is relayed to.  When the send gate of the hub
  at \<open>A\<close> attached an attestation to a message of its own, a hub that requires attestations, trusts A's
  key for A, and has a clock within the window lets the message through its relay gate, unless it has
  seen the attestation before and refuses repeats.
\<close>

theorem attested_message_passes:
  assumes "crypto_ok cr" and "m_pIdentity pa = Some k" and "EcdsaPublic cr k = Some K"
    and "m1 = AttestAppMsgOutbound cr t (Some (Some pa)) hubs c m" and "\<not> HasRelayAttest m" and "HasRelayAttest m1"
    and "is_i64 t" and "wide_units_ok (wchar4 cr) (con_hub_addr c)"
    and "trusts cr now p (con_hub_addr c) K" and "\<not> skew_refused cr (m_nWindow p) (clock_skew cr now t)"
    and "GetRelayAttest m2 = GetRelayAttest m1" and "GetSource m2 = GetSource m" and "GetScopeOrDestin m2 = GetScopeOrDestin m"
    and "m_name m2 = m_name m" and "Data m2 = Data m" and "m_eP2PeerIDmap d = P2PeerIDmap_NONE" and "con_hub_addr c \<noteq> []"
  shows "fst (GateRelayInbound cr now (Some (Some p)) hubs' d m2) = None
    \<or> m_bRelayReplay p \<and> fst (GateRelayInbound cr now (Some (Some p)) hubs' d m2) = Some (RelayRefused AuthErrReplay)
      \<and> (\<exists>sig. SeenRelaySig p sig)"
  by (rule attested_relay_passes [OF assms])

subsection \<open>Examples\<close>

definition relay_origin :: policy where "relay_origin = example_client\<lparr>m_bRelayRequired := True\<rparr>"
definition relay_hub :: policy where "relay_hub = example_hub\<lparr>m_bRelayRequired := True\<rparr>"

definition relay_msg :: peer_msg where
  "relay_msg = msg_between (m_prefix (example_msg [] 0)) [65] [66] [80] [1, 2]"

lemma relay_msg_reads [simp]:
  "GetSource relay_msg = [65]" "GetDestin relay_msg = [66]" "GetScopeOrDestin relay_msg = [66]" "m_name relay_msg = [80]" "Data relay_msg = [1, 2]"
  "GetRelayAttest relay_msg = None" "\<not> fst (IsSealed relay_msg)" "\<not> IsFannedOut relay_msg" "\<not> HasScope relay_msg" "\<not> HasUpScope relay_msg"
  by (simp_all add: relay_msg_def)
    (simp_all add: make_defs GetScopeOrDestin_def net_defs take_field_def GetRelayAttest_def IsSealed_def IsFannedOut_def HasScope_def HasUpScope_def)

lemma relay_msg_name [simp]: "\<not> Map_MatchName [80] P2Pmsg_Login" "\<not> Map_MatchName [80] P2Pmsg_LoginAck" "\<not> Map_MatchName [80] P2Pmsg_CypherEx"
  by (simp_all add: P2Pmsg_Login_def P2Pmsg_LoginAck_def P2Pmsg_CypherEx_def wide_def Map_MatchName_def wild_loop.simps [of hash_elem False] hash_elem_def)

lemma relay_trusts: "trusts (example_crypto V) now relay_hub [65] (replicate 64 4)"
  by (simp add: trusts_def live_keys_def relay_hub_def example_hub_def policy_new_def IsRevokedPoint_def del: Utf8FromWide.simps)

lemma relay_signed:
  obtains tr where "RelayTranscript (Sha256 (example_crypto (\<lambda>m. True))) True [65] [65] [66] (Some [80]) [1, 2] 100 = Some tr"
  by (simp add: RelayTranscript_def del: Utf8FromWide.simps) (simp add: Utf8FromWide.simps next_code_point_def utf8_bytes_def)

lemma relay_attested:
  fixes V
  assumes "RelayTranscript (Sha256 (example_crypto (\<lambda>m. True))) True [65] [65] [66] (Some [80]) [1, 2] 100 = Some tr" and "V tr"
  defines "cr \<equiv> example_crypto V"
  obtains blk where "AttestAppMsgOutbound cr 100 (Some (Some relay_origin)) [] (example_con [65] [66]) relay_msg = SetRelayAttest relay_msg blk"
    and "blk \<noteq> []"
proof -
  have sha: "Sha256 (example_crypto V) = Sha256 (example_crypto (\<lambda>m. True))" by (simp add: fun_eq_iff)
  obtain blk where b: "BuildRelay cr 100 relay_origin [65] [65] [66] (Some [80]) [1, 2] kRelayMaxLen = Inr blk"
    using assms(1,2) by (simp add: BuildRelay_def relay_origin_def example_client_def policy_new_def SelfKeyRevoked_def RelayLen_def
        kRelayMaxLen_def kRelayFixedLen_def kRelayAttesterMax_def sha cr_def del: Utf8FromWide.simps)
  have ne: "blk \<noteq> []" using b by (auto simp: BuildRelay_def Let_def split: option.splits if_splits)
  have "AttestAppMsgOutbound cr 100 (Some (Some relay_origin)) [] (example_con [65] [66]) relay_msg = SetRelayAttest relay_msg blk"
    using b ne by (simp add: AttestAppMsgOutbound_def AttestRelay_def IsRelayAuthRequired_def CanAuthSign_def IsP2PmsgHubInProcess_def
        HasRelayAttest_def relay_origin_def example_client_def)
  with ne show thesis by (rule that [rotated])
qed

text \<open>A connection of the hub \<open>[66]\<close> to a peer above it that has logged in.\<close>

definition relay_con :: con where
  "relay_con = SetState ConState_Login 0 (example_con [66] [66])"

lemma relay_con_fields [simp]:
  "HasState ConState_Login relay_con" "m_oThatP2Paddr relay_con = [66]" "con_hub_addr relay_con = [66]" "\<not> IsVNetMount relay_con"
  "m_eP2PeerIDmap relay_con = P2PeerIDmap_NONE" "m_eP2PeerIDmap (example_con H T) = P2PeerIDmap_NONE" "\<not> IsVNetMount (example_con H T)"
  using example_con_fields(1,3) [of "[66]" "[66]"]
  by (simp_all add: relay_con_def SetState_def HasState_def ConState_Login_def bit_eq_iff bit_simps IsVNetMount_def)
    (simp_all add: example_con_def AcceptSpawn_def con_new_def)

lemma address_ok_80 [simp]: "address_ok w4 [80]"
  by (simp add: address_ok_def wide_units_ok_def short_def next_code_point_def utf8_bytes_def)

lemma relay_premises:
  "m_pIdentity relay_origin = Some (replicate 64 4)" "EcdsaPublic (example_crypto V) (replicate 64 4) = Some (replicate 64 4)"
  "\<not> HasRelayAttest relay_msg" "is_i64 100" "wide_units_ok (wchar4 (example_crypto V)) (con_hub_addr (example_con [65] [66]))"
  "trusts (example_crypto V) 110 relay_hub (con_hub_addr (example_con [65] [66])) (replicate 64 4)"
  "\<not> skew_refused (example_crypto V) (m_nWindow relay_hub) (clock_skew (example_crypto V) 110 100)"
  using example_fresh(1) [of V] relay_trusts [of V 110]
  by (simp_all add: relay_origin_def example_client_def HasRelayAttest_def is_i64_def wide_units_ok_def) (simp add: relay_hub_def)

lemma relay_unseen: "\<not> SeenRelaySig relay_hub sig"
  by (simp_all add: SeenRelaySig_def relay_hub_def example_hub_def policy_new_def)

lemma relay_gate_passes:
  assumes "AttestAppMsgOutbound (example_crypto V) 100 (Some (Some relay_origin)) [] (example_con [65] [66]) relay_msg = SetRelayAttest relay_msg blk"
    and "blk \<noteq> []"
  obtains h where "GateAppMsgInbound (example_crypto V) 110 (Some (Some relay_hub)) [] relay_con (SetRelayAttest relay_msg blk)
    = ((None, SetRelayAttest relay_msg blk), h)"
proof -
  have h: "HasRelayAttest (SetRelayAttest relay_msg blk)" using assms(2) by (simp add: HasRelayAttest_def)
  have "fst (GateRelayInbound (example_crypto V) 110 (Some (Some relay_hub)) [] relay_con (SetRelayAttest relay_msg blk)) = None"
    using attested_relay_passes [OF example_crypto_ok relay_premises(1,2) assms(1) [symmetric] relay_premises(3) h relay_premises(4-7),
        where ?m2.0 = "SetRelayAttest relay_msg blk" and d = relay_con and hubs' = "[]"] relay_unseen
    by simp
  then obtain h' where g: "GateRelayInbound (example_crypto V) 110 (Some (Some relay_hub)) [] relay_con (SetRelayAttest relay_msg blk) = (None, h')"
    by (metis prod.collapse)
  have "\<not> IsRable [66] [65]" by (simp add: IsRable_def)
  then show thesis using g by (intro that [of h']) (simp add: GateAppMsgInbound_def OpenAppMsgInbound_def Let_def)
qed

theorem attested_message_passes_witness:
  "\<exists>m. HasRelayAttest m \<and> fst (GateRelayInbound (example_crypto (\<lambda>m. True)) 110 (Some (Some relay_hub)) [] relay_con m) = None"
proof -
  let ?cr = "example_crypto (\<lambda>m. True)"
  obtain tr where tr: "RelayTranscript (Sha256 ?cr) True [65] [65] [66] (Some [80]) [1, 2] 100 = Some tr" by (rule relay_signed)
  obtain blk where a: "AttestAppMsgOutbound ?cr 100 (Some (Some relay_origin)) [] (example_con [65] [66]) relay_msg = SetRelayAttest relay_msg blk"
    "blk \<noteq> []" by (rule relay_attested [OF tr, of "\<lambda>m. True"]) simp
  have h: "HasRelayAttest (SetRelayAttest relay_msg blk)" using a(2) by (simp add: HasRelayAttest_def)
  show ?thesis
    using attested_message_passes [OF example_crypto_ok relay_premises(1,2) a(1) [symmetric] relay_premises(3) h relay_premises(4-7),
        where ?m2.0 = "SetRelayAttest relay_msg blk" and d = relay_con and hubs' = "[]"] relay_unseen h
    by auto
qed

theorem source_answered_for_witness:
  "\<exists>V m h. GateAppMsgInbound (example_crypto V) 110 (Some (Some relay_hub)) [] relay_con m = ((None, m), h)
     \<and> \<not> IsRable (m_oThatP2Paddr relay_con) (GetSource m) \<and> (\<exists>msg. \<not> V msg)"
proof -
  obtain tr where tr: "RelayTranscript (Sha256 (example_crypto (\<lambda>m. True))) True [65] [65] [66] (Some [80]) [1, 2] 100 = Some tr"
    by (rule relay_signed)
  define V where "V = (\<lambda>m. m = tr)"
  obtain blk where a: "AttestAppMsgOutbound (example_crypto V) 100 (Some (Some relay_origin)) [] (example_con [65] [66]) relay_msg = SetRelayAttest relay_msg blk"
    "blk \<noteq> []" by (rule relay_attested [OF tr, of V]) (simp add: V_def)
  obtain h where g: "GateAppMsgInbound (example_crypto V) 110 (Some (Some relay_hub)) [] relay_con (SetRelayAttest relay_msg blk)
    = ((None, SetRelayAttest relay_msg blk), h)" by (rule relay_gate_passes [OF a])
  define r where "r = \<lparr>rc_attester = [65], rc_src = [65], rc_dst = [66], rc_name = Some [80], rc_body = [1, 2], rc_ts = 100\<rparr>"
  have "Sha256 (example_crypto V) = Sha256 (example_crypto (\<lambda>m. True))" by (simp add: fun_eq_iff)
  then have sg: "relay_signs (example_crypto V) r = Some tr" using tr by (simp add: relay_signs_def r_def del: Utf8FromWide.simps)
  let ?m = "SetRelayAttest relay_msg blk"
  have "HasState ConState_Login relay_con \<and> GetSource ?m = GetSource ?m
    \<and> (if IsVNetMount relay_con then HasVNet (GetSource ?m) \<and> con_hub_addr relay_con = GetVNet (GetSource ?m)
       else IsRable (m_oThatP2Paddr relay_con) (GetSource ?m)
          \<or> IsRable (m_oThatP2Paddr relay_con) (con_hub_addr relay_con)
            \<and> (\<exists>r \<in> set [r]. IsRable (rc_attester r) (GetSource ?m) \<and> rc_src r = GetSource ?m \<and> rc_dst r = GetScopeOrDestin ?m
                 \<and> name_of (rc_name r) = m_name ?m \<and> Sha256 (example_crypto V) (rc_body r) = Sha256 (example_crypto V) (Data ?m)))"
    by (rule source_answered_for [OF g _ example_crypto_ok])
       (use sg in \<open>auto simp: V_def relay_call_ok_def r_def name_of_def is_i64_def IsP2PmsgHubInProcess_def relay_hub_def\<close>)
  moreover have "\<not> IsRable [66] [65]" by (simp add: IsRable_def)
  moreover have "\<exists>msg. \<not> V msg" unfolding V_def by (metis not_Cons_self)
  ultimately show ?thesis using g by fastforce
qed

text \<open>A hub that seals, and its message to a hub two links away.\<close>

definition seal_origin :: policy where "seal_origin = example_sealer\<lparr>m_bSealRequired := True, m_bRelayRequired := False\<rparr>"

lemma seal_origin_agreement: "FindAgreement (example_crypto V) now seal_origin [66] = Some (replicate 64 3)"
  by (simp add: FindAgreement_def seal_origin_def example_sealer_def policy_new_def IsRevokedPoint_def IsRevocationUsable_def del: Utf8FromWide.simps)

lemma seal_origin_seals:
  obtains blob where "SealAppMsgOutbound (example_crypto (\<lambda>m. True)) 7 (Some (replicate 64 2)) (Some (replicate 32 1)) (Some (Some seal_origin)) []
      (example_con [65] [67]) relay_msg = (True, SetSealed (SetData relay_msg (Some [80]) blob) 2)"
proof -
  let ?cr = "example_crypto (\<lambda>m. True)" and ?e = "Some (replicate 64 (2::byte))" and ?k = "Some (replicate 32 (1::byte))"
  have t: "all_tags ?cr (replicate 64 2) [replicate 64 3] = Some [replicate 8 3]" by (simp add: example_SealSlotTag)
  obtain pre msg where "SealUnsigned ?cr 7 ?e ?k [replicate 64 3] [65] [66] [1, 2] (SealedSize 2 kSealMaxReaders) 0 = Inr (pre, msg)"
    by (simp add: SealUnsigned_def seal_slot_def DeriveKek_def or_fail_def seal_sizes t Let_def
        TranscriptV2_def next_code_point_def utf8_bytes_def del: all_tags.simps)
  then have a: "AuthSeal ?cr 7 ?e ?k seal_origin [65] [66] [1, 2] (SealedSize 2 kSealMaxReaders) 0 = Inr (pre @ replicate 64 4)"
    unfolding AuthSeal_def seal_origin_agreement by (simp add: SealTo_split seal_origin_def example_sealer_def policy_new_def)
  have "SealAppMsgOutbound ?cr 7 ?e ?k (Some (Some seal_origin)) [] (example_con [65] [67]) relay_msg
      = (True, SetSealed (SetData relay_msg (Some [80]) (pre @ replicate 64 4)) 2)"
    using a by (simp add: SealAppMsgOutbound_def SealFor_def IsSealRequired_def IsP2PmsgHubInProcess_def DataSize_def numeral_2_eq_2)
      (simp add: seal_origin_def)
  then show thesis by (rule that)
qed

theorem left_in_clear_witness:
  "\<exists>m' h. send_gates (\<lambda>b c m. m) (example_crypto (\<lambda>m. True)) 7 (Some (replicate 64 2)) (Some (replicate 32 1)) (Some (Some seal_origin)) []
      (example_con [65] [67]) relay_msg = (Some m', h)
    \<and> fst (IsSealed m') \<and> GetSource m' = [65]
    \<and> AuthSeal (example_crypto (\<lambda>m. True)) 7 (Some (replicate 64 2)) (Some (replicate 32 1)) seal_origin [65] [66] [1, 2]
        (SealedSize 2 kSealMaxReaders) 0 = Inr (Data m')"
proof -
  let ?cr = "example_crypto (\<lambda>m. True)" and ?e = "replicate 64 (2::byte)" and ?k = "replicate 32 (1::byte)"
  obtain blob where b: "SealAppMsgOutbound ?cr 7 (Some ?e) (Some ?k) (Some (Some seal_origin)) [] (example_con [65] [67]) relay_msg
      = (True, SetSealed (SetData relay_msg (Some [80]) blob) 2)" (is "_ = (True, ?m)")
    by (rule seal_origin_seals)
  have r: "\<not> m_bRelayRequired seal_origin" by (simp add: seal_origin_def)
  then have s: "send_gates (\<lambda>b c m. m) ?cr 7 (Some ?e) (Some ?k) (Some (Some seal_origin)) [] (example_con [65] [67]) relay_msg
      = (Some ?m, Some (Some seal_origin))"
    using b by (simp add: send_gates_def PerformIFaddrTransform_def AttestAppMsgOutbound_def IsRelayAuthRequired_def)
  show ?thesis
    using left_in_clear [OF s] s by (simp add: seal_origin_def DataSize_def numeral_2_eq_2)
qed

theorem sealed_message_end_to_end_witness:
  "\<exists>m1 m3. SealAppMsgOutbound (example_crypto (\<lambda>m. True)) 7 (Some (replicate 64 2)) (Some (replicate 32 1)) (Some (Some seal_origin)) []
      (example_con [65] [67]) relay_msg = (True, m1) \<and> fst (IsSealed m1)
    \<and> fst (OpenAppMsgInbound (example_crypto (\<lambda>m. True)) 9 (Some (Some example_opener)) (example_con [66] [67]) m1) = (None, m3)
    \<and> Data m3 = [1, 2]"
proof -
  let ?cr = "example_crypto (\<lambda>m. True)" and ?e = "replicate 64 (2::byte)" and ?k = "replicate 32 (1::byte)" and ?r = "replicate 64 (3::byte)"
    and ?s = "replicate 64 (4::byte)"
  obtain blob where b: "SealAppMsgOutbound ?cr 7 (Some ?e) (Some ?k) (Some (Some seal_origin)) [] (example_con [65] [67]) relay_msg
      = (True, SetSealed (SetData relay_msg (Some [80]) blob) 2)" (is "_ = (True, ?m)")
    by (rule seal_origin_seals)
  have "m_name ?m = [80]" using sealed_reads(5) [of relay_msg blob] by simp
  note p = this example_opener_trusts [of "\<lambda>m. True" 9]
  have id: "m_pIdentity seal_origin = Some ?s" "EcdsaPublic ?cr ?s = Some ?s" "m_pAgreement example_opener = Some ?r" "EcdhPublic ?cr ?r = Some ?r"
    "m_pSealReaders seal_origin = []" "EcdhPublic ?cr ?e = Some ?e" "length ?k = kSealCekLen" "is_i64 (seal_time 7 0)"
    "tags_separate ?cr ?e (List.map_filter al_agree (m_pAllow seal_origin))"
    by (simp_all add: seal_origin_def example_sealer_def example_opener_def policy_new_def tags_separate_def List.map_filter_def
         kSealCekLen_def seal_time_def is_i64_def)
  have o: "IsRevocationUsable example_opener 9" "open_refusal 9 example_opener x 7 = None" for x
    by (simp_all add: open_refusal_def example_opener_def policy_new_def SeenSealSig_def IsRevocationUsable_def)
  obtain m3 where "Data m3 = Data relay_msg" "fst (OpenAppMsgInbound ?cr 9 (Some (Some example_opener)) (example_con [66] [67]) ?m) =
         (if \<not> IsRevocationUsable example_opener 9 then (Some (SealedUnopened SealErrRevoked), ?m)
          else case open_refusal 9 example_opener (drop (length (Data ?m) - kSealSigLen) (Data ?m)) (seal_time 7 0) of
                 Some x \<Rightarrow> (Some (SealedUnopened x), ?m)
               | None \<Rightarrow> (None, m3))"
    using sealed_message_end_to_end [OF example_crypto_ok id(1,2) b _ _ id(7,6,8,9,3,4) _ seal_origin_agreement, where now = 9
        and ?m2.0 = ?m and d = "example_con [66] [67]"] p(2) by auto
  then show ?thesis using b o by (simp add: seal_time_def)
qed

end
