(* ===== verification/HubRouting.thy ===== *)
theory HubRouting
  imports ConGates
begin

text \<open>
  Routing in a hub and between hubs (P2PeerHub.cpp, with the connection list of P2Pwin32.cpp and the
  default handlers of P2PeerTarget.cpp).  A hub is its address and the list of its connections, oldest
  first; a connection names the hub at its other end.
\<close>

subsection \<open>The connections of a hub\<close>

text \<open>The manager's list holds pointers: an element is a connection's identity.\<close>

definition hub_PostP2PmsgCon :: "'c \<Rightarrow> 'c list \<Rightarrow> 'c list" where
  "hub_PostP2PmsgCon pCon v = (if pCon \<in> set v then v else v @ [pCon])"

definition hub_DropP2PmsgCon :: "'c \<Rightarrow> 'c list \<Rightarrow> 'c list" where
  "hub_DropP2PmsgCon pCon v = filter (\<lambda>x. x \<noteq> pCon) v"

text \<open>The connection behind \<open>pCon\<close>, found by walking the list anew.\<close>

fun enum_after :: "'c list \<Rightarrow> 'c \<Rightarrow> 'c option" where
  "enum_after (x # y # v) pCon = (if x = pCon then Some y else enum_after (y # v) pCon)"
| "enum_after _ pCon = None"

definition EnumP2PmsgCon :: "'c list \<Rightarrow> 'c option \<Rightarrow> 'c option" where
  "EnumP2PmsgCon v ppCon =
     (case ppCon of None \<Rightarrow> (case v of [] \<Rightarrow> None | x # _ \<Rightarrow> Some x) | Some c \<Rightarrow> enum_after v c)"

text \<open>The loops \<open>while ( EnumP2PmsgCon(m_nHubID,&pCon) )\<close>: what they visit; \<open>None\<close> if they do not end.\<close>

partial_function (option) enum_walk :: "'c list \<Rightarrow> 'c option \<Rightarrow> 'c list option" where
  "enum_walk v ppCon =
     (case EnumP2PmsgCon v ppCon of None \<Rightarrow> Some []
      | Some c \<Rightarrow> Option.bind (enum_walk v (Some c)) (\<lambda>cs. Some (c # cs)))"

lemma enum_after_next: "distinct (xs @ c # d # ys) \<Longrightarrow> enum_after (xs @ c # d # ys) c = Some d"
proof (induction xs)
  case (Cons x xs)
  then show ?case by (cases xs) auto
qed simp

lemma enum_after_last: "distinct (xs @ [c]) \<Longrightarrow> enum_after (xs @ [c]) c = None"
proof (induction xs)
  case (Cons x xs)
  then show ?case by (cases xs) auto
qed simp

lemma enum_after_gone: "c \<notin> set v \<Longrightarrow> enum_after v c = None"
  by (induction v c rule: enum_after.induct) auto

lemma enum_walk_from: "distinct (xs @ c # ys) \<Longrightarrow> enum_walk (xs @ c # ys) (Some c) = Some ys"
proof (induction ys arbitrary: xs c)
  case Nil
  then show ?case
    using enum_after_last [of xs c] by (subst enum_walk.simps) (simp add: EnumP2PmsgCon_def)
next
  case (Cons d ys)
  have "enum_walk ((xs @ [c]) @ d # ys) (Some d) = Some ys" using Cons.prems by (intro Cons.IH) simp
  then show ?case
    using enum_after_next [OF Cons.prems] by (subst enum_walk.simps) (simp add: EnumP2PmsgCon_def)
qed

lemma enum_walk_all: "distinct v \<Longrightarrow> enum_walk v None = Some v"
proof (cases v)
  case Nil
  then show ?thesis by (subst enum_walk.simps) (simp add: EnumP2PmsgCon_def)
next
  case (Cons c ys)
  moreover assume "distinct v"
  ultimately show ?thesis
    using enum_walk_from [of "[]" c ys] by (subst enum_walk.simps) (simp add: EnumP2PmsgCon_def)
qed

text \<open>What connections are posted to a hub and dropped from it, in any order.\<close>

datatype 'c con_call = PostCon 'c | DropCon 'c

fun con_run :: "'c con_call list \<Rightarrow> 'c list \<Rightarrow> 'c list" where
  "con_run [] v = v"
| "con_run (PostCon c # cs) v = con_run cs (hub_PostP2PmsgCon c v)"
| "con_run (DropCon c # cs) v = con_run cs (hub_DropP2PmsgCon c v)"

lemma con_run_distinct: "distinct v \<Longrightarrow> distinct (con_run cs v)"
  by (induction cs v rule: con_run.induct) (auto simp: hub_PostP2PmsgCon_def hub_DropP2PmsgCon_def)

lemma con_run_append: "con_run (cs @ ds) v = con_run ds (con_run cs v)"
  by (induction cs v rule: con_run.induct) auto

text \<open>
  A walk over the connections of a hub ends, and visits each once, oldest first, whatever was
  posted and dropped before, posting twice included.  When the connection the walk stands on is
  dropped under it, the walk ends there: the connections behind it are not visited.
\<close>

theorem connection_walk:
  "enum_walk (con_run cs []) None = Some (con_run cs []) \<and> distinct (con_run cs [])
   \<and> EnumP2PmsgCon (con_run (cs @ [DropCon c]) []) (Some c) = None"
proof (intro conjI)
  show d: "distinct (con_run cs [])" by (simp add: con_run_distinct)
  then show "enum_walk (con_run cs []) None = Some (con_run cs [])" by (rule enum_walk_all)
  show "EnumP2PmsgCon (con_run (cs @ [DropCon c]) []) (Some c) = None"
    by (simp add: EnumP2PmsgCon_def con_run_append enum_after_gone hub_DropP2PmsgCon_def)
qed

subsection \<open>Routing\<close>

text \<open>The connection, by its place in the list, that the loop stops at.\<close>

fun route_cons :: "wstr \<Rightarrow> wstr \<Rightarrow> bool \<Rightarrow> con list \<Rightarrow> nat option" where
  "route_cons hub dst bDstMounted [] = None"
| "route_cons hub dst bDstMounted (pCon # v) =
     (let oP2PaddrCon = m_oThatP2Paddr pCon; later = map_option Suc (route_cons hub dst bDstMounted v) in
      if m_eP2PeerConMode pCon = P2PeerCon_SERVICE then later
      else if IsVNetMount pCon then (if bDstMounted \<and> IsRable oP2PaddrCon dst then Some 0 else later)
      else if oP2PaddrCon = dst then Some 0
      else if IsChild hub oP2PaddrCon \<and> IsRable oP2PaddrCon dst then Some 0
      else if IsChild oP2PaddrCon hub \<and> \<not> IsRable hub dst then Some 0
      else later)"

fun any_mount :: "con list \<Rightarrow> nat option" where
  "any_mount [] = None"
| "any_mount (pCon # v) =
     (if m_eP2PeerConMode pCon \<noteq> P2PeerCon_SERVICE \<and> IsVNetMount pCon then Some 0 else map_option Suc (any_mount v))"

definition route_to :: "wstr \<Rightarrow> con list \<Rightarrow> wstr \<Rightarrow> nat option" where
  "route_to hub v dst =
     (let bDstMounted = (HasVNet dst \<and> hub = GetVNet dst) in
      case route_cons hub dst bDstMounted v of Some i \<Rightarrow> Some i
      | None \<Rightarrow> if bDstMounted then any_mount v else None)"

text \<open>
  The report of an undeliverable message; \<open>None\<close> when the message is itself a report.  It comes from the
  hub that could not deliver, if the hub has an address.
\<close>

definition StampReportOrigin :: "wstr \<Rightarrow> peer_msg \<Rightarrow> peer_msg" where
  "StampReportOrigin strHub pReport = (if strHub = [] then pReport else SetSource pReport strHub)"

definition target_RouteP2PeerMsg ::
  "(peer_msg \<Rightarrow> bytes) \<Rightarrow> p2p_prefix \<Rightarrow> bytes \<Rightarrow> wstr \<Rightarrow> peer_msg \<Rightarrow> peer_msg option" where
  "target_RouteP2PeerMsg to_image pfx pEVT hub pMsg =
     (if Map_MatchName (m_name pMsg) P2Pmsg_Exception then None
      else Some (StampReportOrigin hub (ExceptionFactory to_image pfx pMsg pEVT)))"

text \<open>
  What becomes of a message for another hub: an application that peeks takes it, the pump posts it to a
  connection, or a report is posted to the hub.  \<open>peek\<close> is \<open>PeekP2PeerMsg\<close>, which answers
  \<open>msgCONTINUE\<close>, here \<open>None\<close>, unless an application overrides it.
\<close>

datatype 'r routed = Peeked 'r | Carried "con list" | Reported "peer_msg option"

definition hub_RouteP2PeerMsg ::
  "(peer_msg \<Rightarrow> 'r option) \<Rightarrow> (peer_msg \<Rightarrow> bytes) \<Rightarrow> p2p_prefix \<Rightarrow> bytes \<Rightarrow> wstr \<Rightarrow> con list \<Rightarrow> peer_msg \<Rightarrow> 'r routed" where
  "hub_RouteP2PeerMsg peek to_image pfx pEVT hub v pMsg =
     (case peek pMsg of Some r \<Rightarrow> Peeked r
      | None \<Rightarrow> (case route_to hub v (GetDestin pMsg) of
          Some i \<Rightarrow> Carried (v[i := (v ! i)\<lparr>con_que := PostP2PeerMsg (con_que (v ! i)) pMsg\<rparr>])
        | None \<Rightarrow> Reported (target_RouteP2PeerMsg to_image pfx pEVT hub pMsg)))"

text \<open>When the loop stops at a connection.\<close>

definition route_stop :: "wstr \<Rightarrow> wstr \<Rightarrow> bool \<Rightarrow> con \<Rightarrow> bool" where
  "route_stop hub dst b c \<longleftrightarrow> m_eP2PeerConMode c \<noteq> P2PeerCon_SERVICE
     \<and> (if IsVNetMount c then b \<and> IsRable (m_oThatP2Paddr c) dst
        else m_oThatP2Paddr c = dst \<or> IsChild hub (m_oThatP2Paddr c) \<and> IsRable (m_oThatP2Paddr c) dst
          \<or> IsChild (m_oThatP2Paddr c) hub \<and> \<not> IsRable hub dst)"

lemma route_cons_Cons:
  "route_cons hub dst b (c # v) = (if route_stop hub dst b c then Some 0 else map_option Suc (route_cons hub dst b v))"
  by (simp add: Let_def route_stop_def)

lemma route_cons_sound: "route_cons hub dst b v = Some i \<Longrightarrow> i < length v \<and> route_stop hub dst b (v ! i)"
  by (induction v arbitrary: i) (auto simp: route_cons_Cons simp del: route_cons.simps(2) split: if_splits)

lemma route_cons_complete: "route_cons hub dst b v = None \<Longrightarrow> c \<in> set v \<Longrightarrow> \<not> route_stop hub dst b c"
  by (induction v) (auto simp: route_cons_Cons simp del: route_cons.simps(2) split: if_splits)

lemma any_mount_sound: "any_mount v = Some i \<Longrightarrow> i < length v \<and> IsVNetMount (v ! i)"
  by (induction v arbitrary: i) (auto split: if_splits)

lemma route_to_sound:
  assumes "route_to hub v dst = Some i" and "\<not> IsVNetMount (v ! i)"
  shows "i < length v \<and> m_eP2PeerConMode (v ! i) \<noteq> P2PeerCon_SERVICE
     \<and> (m_oThatP2Paddr (v ! i) = dst \<or> IsChild hub (m_oThatP2Paddr (v ! i)) \<and> IsRable (m_oThatP2Paddr (v ! i)) dst
        \<or> IsChild (m_oThatP2Paddr (v ! i)) hub \<and> \<not> IsRable hub dst)"
  using assms route_cons_sound [of hub dst "HasVNet dst \<and> hub = GetVNet dst" v i] any_mount_sound [of v i]
  by (auto simp: route_to_def Let_def route_stop_def split: option.splits if_splits)

subsection \<open>The way of a message\<close>

text \<open>
  The network: the connections of the hub at each address.  A message for \<open>d\<close> that is dispatched at the
  hub \<open>a\<close> is taken there when it is for it; else it goes over the connection \<open>RouteP2PeerMsg\<close> picks
  to the hub that connection names, unless the connection is a mount, which leads to another network.
\<close>

type_synonym network = "wstr \<Rightarrow> con list"

datatype way_end = Arrived | Mounted con | NoRoute

definition way_left :: "wstr \<Rightarrow> wstr \<Rightarrow> nat" where
  "way_left a d = (if a = d then 0 else if IsRable a d then 1 + length d - length a else 2 + length d + length a)"

lemma way_left_less:
  assumes "a \<noteq> d" and "route_to a v d = Some i" and "\<not> IsVNetMount (v ! i)"
  shows "way_left (m_oThatP2Paddr (v ! i)) d < way_left a d"
proof -
  let ?b = "m_oThatP2Paddr (v ! i)"
  have "?b = d \<or> IsChild a ?b \<and> IsRable ?b d \<or> IsChild ?b a \<and> \<not> IsRable a d"
    using route_to_sound [OF assms(2,3)] by simp
  then consider "?b = d" | "?b \<noteq> d" "IsChild a ?b" "IsRable ?b d" | "?b \<noteq> d" "IsChild ?b a" "\<not> IsRable a d" by blast
  then show ?thesis
  proof cases
    case 1
    then show ?thesis using assms(1) by (auto simp: way_left_def IsRable_iff dest: IsChild_shorter)
  next
    case 2
    then have "IsRable a d" using IsRable_trans [of a ?b d] by (simp add: IsRable_iff)
    moreover have "length ?b < length d" using 2 by (auto simp: IsRable_iff dest: IsChild_shorter)
    ultimately show ?thesis using 2 assms(1) IsChild_shorter [of a ?b] by (simp add: way_left_def)
  next
    case 3
    then show ?thesis using assms(1) IsChild_shorter [of ?b a] by (auto simp: way_left_def)
  qed
qed

function way :: "network \<Rightarrow> wstr \<Rightarrow> wstr \<Rightarrow> wstr list \<times> way_end" where
  "way net a d =
     (if a = d then ([a], Arrived)
      else (case route_to a (net a) d of None \<Rightarrow> ([a], NoRoute)
        | Some i \<Rightarrow> if IsVNetMount (net a ! i) then ([a], Mounted (net a ! i))
                    else (case way net (m_oThatP2Paddr (net a ! i)) d of (p, e) \<Rightarrow> (a # p, e))))"
  by pat_completeness auto

termination way
  by (relation "measure (\<lambda>(net, a, d). way_left a d)") (auto intro: way_left_less)

declare way.simps [simp del]

text \<open>A connection that carries routed messages of its own network.\<close>

definition carries :: "con \<Rightarrow> bool" where
  "carries c \<longleftrightarrow> m_eP2PeerConMode c \<noteq> P2PeerCon_SERVICE \<and> \<not> IsVNetMount c"

lemma way_hop:
  assumes "a \<noteq> d" and "route_to a (net a) d = Some i" and "\<not> IsVNetMount (net a ! i)"
  shows "way net a d = (a # fst (way net (m_oThatP2Paddr (net a ! i)) d), snd (way net (m_oThatP2Paddr (net a ! i)) d))"
    and "net a ! i \<in> set (net a)" and "carries (net a ! i)"
  using assms route_to_sound [OF assms(2,3)] by (simp_all add: way.simps [of net a d] carries_def split: prod.split)

lemma way_mount:
  assumes "a \<noteq> d" and "route_to a (net a) d = Some i" and "IsVNetMount (net a ! i)"
  shows "way net a d = ([a], Mounted (net a ! i))" and "HasVNet d"
  using assms route_cons_sound [of a d "HasVNet d \<and> a = GetVNet d" "net a" i] any_mount_sound [of "net a" i]
  by (auto simp: way.simps [of net a d] route_to_def Let_def route_stop_def split: option.splits if_splits)

lemma way_lost: "a \<noteq> d \<Longrightarrow> route_to a (net a) d = None \<Longrightarrow> way net a d = ([a], NoRoute)"
  by (simp add: way.simps)

lemma way_here [simp]: "way net d d = ([d], Arrived)"
  by (simp add: way.simps)

lemma way_start: "\<exists>p. fst (way net a d) = a # p"
  by (subst way.simps) (auto split: option.split prod.split)

text \<open>The six ways to go on, as a rule for inductions along the way.\<close>

lemma way_cases [case_names here lost mounted up down across]:
  obtains "a = d"
  | "a \<noteq> d" "way net a d = ([a], NoRoute)" "route_to a (net a) d = None"
  | c where "a \<noteq> d" "way net a d = ([a], Mounted c)" "HasVNet d"
  | c where "a \<noteq> d" "way net a d = (a # fst (way net (m_oThatP2Paddr c) d), snd (way net (m_oThatP2Paddr c) d))"
      "c \<in> set (net a)" "carries c" "IsChild (m_oThatP2Paddr c) a" "\<not> IsRable a d"
  | c where "a \<noteq> d" "way net a d = (a # fst (way net (m_oThatP2Paddr c) d), snd (way net (m_oThatP2Paddr c) d))"
      "c \<in> set (net a)" "carries c" "IsChild a (m_oThatP2Paddr c)" "IsRable (m_oThatP2Paddr c) d"
  | c where "a \<noteq> d" "way net a d = ([a, d], Arrived)" "c \<in> set (net a)" "carries c" "m_oThatP2Paddr c = d"
proof (cases "a = d \<or> route_to a (net a) d = None")
  case True
  then show ?thesis using that(1,2) way_lost by blast
next
  case False
  then obtain i where i: "a \<noteq> d" "route_to a (net a) d = Some i" by auto
  show ?thesis
  proof (cases "IsVNetMount (net a ! i)")
    case True
    with i show ?thesis using that(3) way_mount by metis
  next
    case mount: False
    let ?b = "m_oThatP2Paddr (net a ! i)"
    note hop = way_hop [of a d net i, OF i mount]
    from route_to_sound [OF i(2) mount] consider "?b = d" | "IsChild a ?b" "IsRable ?b d" | "IsChild ?b a" "\<not> IsRable a d"
      by blast
    then show ?thesis
    proof cases
      case 1
      with hop i(1) show ?thesis using that(6) by simp
    next
      case 2
      show ?thesis by (rule that(5) [OF i(1) hop 2])
    next
      case 3
      show ?thesis by (rule that(4) [OF i(1) hop 3])
    qed
  qed
qed

lemma way_induct [case_names here lost mounted up down across]:
  assumes "P d"
    and "\<And>a. a \<noteq> d \<Longrightarrow> way net a d = ([a], NoRoute) \<Longrightarrow> route_to a (net a) d = None \<Longrightarrow> P a"
    and "\<And>a c. a \<noteq> d \<Longrightarrow> way net a d = ([a], Mounted c) \<Longrightarrow> HasVNet d \<Longrightarrow> P a"
    and "\<And>a c. way net a d = (a # fst (way net (m_oThatP2Paddr c) d), snd (way net (m_oThatP2Paddr c) d)) \<Longrightarrow>
      c \<in> set (net a) \<Longrightarrow> carries c \<Longrightarrow> IsChild (m_oThatP2Paddr c) a \<Longrightarrow> \<not> IsRable a d \<Longrightarrow> P (m_oThatP2Paddr c) \<Longrightarrow> P a"
    and "\<And>a c. way net a d = (a # fst (way net (m_oThatP2Paddr c) d), snd (way net (m_oThatP2Paddr c) d)) \<Longrightarrow>
      c \<in> set (net a) \<Longrightarrow> carries c \<Longrightarrow> IsChild a (m_oThatP2Paddr c) \<Longrightarrow> IsRable (m_oThatP2Paddr c) d \<Longrightarrow> P (m_oThatP2Paddr c) \<Longrightarrow> P a"
    and "\<And>a c. a \<noteq> d \<Longrightarrow> way net a d = ([a, d], Arrived) \<Longrightarrow> c \<in> set (net a) \<Longrightarrow> carries c \<Longrightarrow> m_oThatP2Paddr c = d \<Longrightarrow> P a"
  shows "P a"
proof (induction "way_left a d" arbitrary: a rule: less_induct)
  case less
  show ?case
  proof (cases rule: way_cases [where a = a and d = d and net = net])
    case here
    with assms(1) show ?thesis by simp
  next
    case lost
    then show ?thesis by (rule assms(2))
  next
    case (mounted c)
    then show ?thesis by (rule assms(3))
  next
    case (up c)
    have "way_left (m_oThatP2Paddr c) d < way_left a d"
      using up IsChild_shorter [OF up(5)] by (auto simp: way_left_def)
    from less [OF this] show ?thesis by (rule assms(4) [OF up(2-6)])
  next
    case (down c)
    have "way_left (m_oThatP2Paddr c) d < way_left a d"
      using down IsChild_shorter [OF down(5)] IsRable_trans [of a "m_oThatP2Paddr c" d]
      by (auto simp: way_left_def IsRable_iff dest: IsChild_shorter)
    from less [OF this] show ?thesis by (rule assms(5) [OF down(2-6)])
  next
    case (across c)
    then show ?thesis by (rule assms(6))
  qed
qed

lemma way_down:
  "IsRable a d \<Longrightarrow> sorted_wrt IsChild (fst (way net a d)) \<and> list_all (\<lambda>x. IsRable a x \<and> IsRable x d) (fst (way net a d))"
proof (induction a rule: way_induct [where d = d and net = net])
  case (down a c)
  have "IsChild a x" if "IsRable (m_oThatP2Paddr c) x" for x
    using that down(4) by (auto simp: IsRable_iff intro: IsChild_trans)
  with down(5-7) show ?case unfolding down(1) by (auto simp: list_all_iff IsRable_iff)
qed (auto simp: IsRable_iff)

lemma way_nonempty [simp]: "fst (way net a d) \<noteq> []"
  using way_start [of net a d] by auto

lemma way_end:
  "(snd (way net a d) = Arrived \<longrightarrow> last (fst (way net a d)) = d)
   \<and> (snd (way net a d) = NoRoute \<longrightarrow> route_to (last (fst (way net a d))) (net (last (fst (way net a d)))) d = None)"
proof (induction a rule: way_induct [where d = d and net = net])
  case (up a c)
  then show ?case unfolding up(1) by simp
next
  case (down a c)
  then show ?case unfolding down(1) by simp
qed simp_all

text \<open>Up to hubs that do not have \<open>d\<close> below them, then down to \<open>d\<close>; over a hop the peer answers for the source.\<close>

definition up_and_down :: "wstr \<Rightarrow> wstr \<Rightarrow> wstr list \<Rightarrow> wstr list \<Rightarrow> bool" where
  "up_and_down a d us ds \<longleftrightarrow> sorted_wrt (\<lambda>x y. IsChild y x) us \<and> list_all (\<lambda>x. IsRable x a \<and> \<not> IsRable x d) us
     \<and> sorted_wrt IsChild ds \<and> list_all (\<lambda>x. IsRable x d) ds"

lemma up_and_down_distinct: "up_and_down a d us ds \<Longrightarrow> distinct (us @ ds)"
proof -
  have "sorted_wrt IsChild xs \<Longrightarrow> distinct xs" "sorted_wrt (\<lambda>x y. IsChild y x) xs \<Longrightarrow> distinct xs" for xs
    by (induction xs) auto
  then show "up_and_down a d us ds \<Longrightarrow> distinct (us @ ds)" by (auto simp: up_and_down_def list_all_iff)
qed

lemma way_shape:
  "\<exists>us ds. fst (way net a d) = us @ ds \<and> up_and_down a d us ds
     \<and> successively (\<lambda>x y. IsRable x a \<or> IsRable x y) (fst (way net a d))"
proof (induction a rule: way_induct [where d = d and net = net])
  case (up a c)
  let ?b = "m_oThatP2Paddr c"
  obtain us ds where ih: "fst (way net ?b d) = us @ ds" "up_and_down ?b d us ds"
    "successively (\<lambda>x y. IsRable x ?b \<or> IsRable x y) (fst (way net ?b d))" using up(6) by blast
  have above: "IsChild x a" if "IsRable x ?b" for x
    using that up(4) by (auto simp: IsRable_iff intro: IsChild_trans)
  have "successively (\<lambda>x y. IsRable x a \<or> IsRable x y) (fst (way net ?b d))"
    using ih(3) above by (auto simp: IsRable_iff elim!: successively_mono)
  then have "successively (\<lambda>x y. IsRable x a \<or> IsRable x y) (a # fst (way net ?b d))"
    by (simp add: successively_Cons)
  moreover have "up_and_down a d (a # us) ds"
    using ih(2) above up(5) by (auto simp: up_and_down_def list_all_iff IsRable_iff)
  ultimately show ?case unfolding up(1) using ih(1) by (intro exI [of _ "a # us"] exI [of _ ds]) simp
next
  case (down a c)
  have "IsRable a d" using down(4,5) by (auto simp: IsRable_iff intro: IsChild_trans)
  from way_down [OF this, of net] have s: "sorted_wrt IsChild (fst (way net a d))" "list_all (\<lambda>x. IsRable x d) (fst (way net a d))"
    by (auto simp: list_all_iff)
  have "successively (\<lambda>x y. IsRable x a \<or> IsRable x y) xs" if "sorted_wrt IsChild xs" for xs
    using that by (induction xs rule: induct_list012) (auto simp: IsRable_iff)
  with s show ?case by (intro exI [of _ "[]"] exI [of _ "fst (way net a d)"]) (simp add: up_and_down_def)
next
  case here
  show ?case by (intro exI [of _ "[]"] exI [of _ "[d]"]) (simp add: up_and_down_def)
next
  case (across a c)
  show ?case
  proof (cases "IsRable a d")
    case True
    with across show ?thesis by (intro exI [of _ "[]"] exI [of _ "[a, d]"]) (auto simp: up_and_down_def IsRable_iff)
  next
    case False
    with across show ?thesis by (intro exI [of _ "[a]"] exI [of _ "[d]"]) (simp add: up_and_down_def)
  qed
next
  case (lost a)
  show ?case
    using lost by (cases "IsRable a d"; intro exI [of _ "if IsRable a d then [] else [a]"] exI [of _ "if IsRable a d then [a] else []"])
      (simp_all add: up_and_down_def)
next
  case (mounted a c)
  show ?case
    using mounted by (cases "IsRable a d"; intro exI [of _ "if IsRable a d then [] else [a]"] exI [of _ "if IsRable a d then [a] else []"])
      (simp_all add: up_and_down_def)
qed

text \<open>
  C28: Routing has no loops, whatever connections the hubs have, cyclic or stale ones included: a
  message passes hubs above its origin that do not have the destination below them, each above the one
  before, and then hubs above the destination, each below the one before; no hub twice, and no more
  hubs than the two addresses have characters.
\<close>

theorem routing_has_no_loops:
  "\<exists>us ds. fst (way net a d) = us @ ds \<and> up_and_down a d us ds \<and> distinct (us @ ds)
     \<and> length us \<le> length a + 1 \<and> length ds \<le> length d + 1"
proof -
  obtain us ds where s: "fst (way net a d) = us @ ds" "up_and_down a d us ds" using way_shape by blast
  have up: "length xs \<le> n + 1" if "sorted_wrt (\<lambda>x y. IsChild y x) xs" "list_all (\<lambda>x. length x \<le> n) xs" for xs :: "wstr list" and n
    using that
  proof (induction xs arbitrary: n)
    case (Cons x xs)
    have "length xs \<le> length x" if "xs \<noteq> []"
    proof -
      have "0 < length x" using Cons.prems(1) that IsChild_shorter by (cases xs) fastforce+
      then show ?thesis using Cons.IH [of "length x - 1"] Cons.prems IsChild_shorter by (fastforce simp: list_all_iff)
    qed
    with Cons.prems show ?case by (cases xs) auto
  qed simp
  have down: "length xs \<le> n + 1" if "sorted_wrt IsChild xs" "list_all (\<lambda>x. length x \<le> n) xs" for xs n
    using up [of "rev xs" n] that by (simp add: sorted_wrt_rev list_all_iff)
  have "length x \<le> length y" if "IsRable x y" for x y using that IsChild_shorter by (fastforce simp: IsRable_iff)
  with s up [of us "length a"] down [of ds "length d"] up_and_down_distinct [OF s(2)] show ?thesis
    by (intro exI [of _ us] exI [of _ ds]) (auto simp: up_and_down_def list_all_iff)
qed

subsection \<open>A tree of hubs\<close>

text \<open>
  The hubs of a network, each linked to the nearest hub above it and the nearest ones below it, and to
  no others.
\<close>

definition parent_of :: "wstr list \<Rightarrow> wstr \<Rightarrow> wstr \<Rightarrow> bool" where
  "parent_of hubs p x \<longleftrightarrow> p \<in> set hubs \<and> x \<in> set hubs \<and> IsChild p x \<and> list_all (\<lambda>q. \<not> (IsChild p q \<and> IsChild q x)) hubs"

definition tree_network :: "wstr list \<Rightarrow> wstr \<Rightarrow> network \<Rightarrow> bool" where
  "tree_network hubs r net \<longleftrightarrow> r \<in> set hubs \<and> list_all (IsRable r) hubs
     \<and> list_all (\<lambda>a. set (map m_oThatP2Paddr (filter carries (net a)))
          = set (filter (\<lambda>b. parent_of hubs b a \<or> parent_of hubs a b) hubs)) hubs"

lemma child_towards:
  assumes "a \<in> set hubs" and "d \<in> set hubs" and "IsChild a d"
  shows "\<exists>b. parent_of hubs a b \<and> IsRable b d"
proof -
  let ?P = "\<lambda>b. b \<in> set hubs \<and> IsChild a b \<and> IsRable b d"
  obtain b where b: "?P b" "\<forall>x. ?P x \<longrightarrow> length b \<le> length x"
    using ex_has_least_nat [of ?P d length] assms by (auto simp: IsRable_iff)
  have "\<not> (IsChild a q \<and> IsChild q b)" if "q \<in> set hubs" for q
  proof
    assume q: "IsChild a q \<and> IsChild q b"
    then have "IsRable q d" using b(1) by (auto simp: IsRable_iff intro: IsChild_trans)
    with q that b(2) IsChild_shorter [of q b] show False by fastforce
  qed
  with b(1) assms(1) show ?thesis by (auto simp: parent_of_def list_all_iff)
qed

lemma parent_exists:
  assumes "a \<in> set hubs" and "p \<in> set hubs" and "IsChild p a"
  shows "\<exists>b. parent_of hubs b a \<and> IsRable p b"
proof -
  let ?P = "\<lambda>b. b \<in> set hubs \<and> IsChild b a \<and> IsRable p b"
  obtain b where b: "?P b" "\<forall>x. ?P x \<longrightarrow> length a - length b \<le> length a - length x"
    using ex_has_least_nat [of ?P p "\<lambda>x. length a - length x"] assms by auto
  have "\<not> (IsChild b q \<and> IsChild q a)" if "q \<in> set hubs" for q
  proof
    assume q: "IsChild b q \<and> IsChild q a"
    then have "IsRable p q" using b(1) by (auto simp: IsRable_iff intro: IsChild_trans)
    with q that b(2) have "length a - length b \<le> length a - length q" by blast
    with q IsChild_shorter [of b q] IsChild_shorter [of q a] show False by simp
  qed
  with b(1) assms(1) show ?thesis by (auto simp: parent_of_def list_all_iff)
qed

lemma tree_linked:
  assumes "tree_network hubs r net" and "a \<in> set hubs"
  shows "c \<in> set (net a) \<Longrightarrow> carries c \<Longrightarrow> m_oThatP2Paddr c \<in> set hubs"
    and "parent_of hubs a b \<or> parent_of hubs b a \<Longrightarrow> \<exists>c \<in> set (net a). carries c \<and> m_oThatP2Paddr c = b"
proof -
  have e: "m_oThatP2Paddr ` {c \<in> set (net a). carries c} = {b \<in> set hubs. parent_of hubs b a \<or> parent_of hubs a b}"
    using assms by (simp add: tree_network_def list_all_iff)
  show "m_oThatP2Paddr c \<in> set hubs" if "c \<in> set (net a)" "carries c" using that e by blast
  show "\<exists>c \<in> set (net a). carries c \<and> m_oThatP2Paddr c = b" if "parent_of hubs a b \<or> parent_of hubs b a"
  proof -
    have "b \<in> m_oThatP2Paddr ` {c \<in> set (net a). carries c}" using that e by (auto simp: parent_of_def)
    then show ?thesis by auto
  qed
qed

lemma tree_routes:
  assumes "tree_network hubs r net" and "a \<in> set hubs" and "d \<in> set hubs" and "a \<noteq> d"
  shows "route_to a (net a) d \<noteq> None"
proof -
  obtain b where "parent_of hubs a b \<and> IsRable b d \<or> parent_of hubs b a \<and> \<not> IsRable a d"
  proof (cases "IsChild a d")
    case True
    then show ?thesis using that child_towards [OF assms(2,3)] by blast
  next
    case False
    have r: "r \<in> set hubs" "IsRable r a" "IsRable r d" using assms(1-3) by (auto simp: tree_network_def list_all_iff)
    have "r \<noteq> a" using False assms(4) r(3) by (auto simp: IsRable_iff)
    then show ?thesis using that parent_exists [OF assms(2) r(1)] r(2) False assms(4) by (auto simp: IsRable_iff)
  qed
  then obtain c where "c \<in> set (net a)" "carries c"
    "IsChild a (m_oThatP2Paddr c) \<and> IsRable (m_oThatP2Paddr c) d \<or> IsChild (m_oThatP2Paddr c) a \<and> \<not> IsRable a d"
    using tree_linked(2) [OF assms(1,2), of b] by (fastforce simp: parent_of_def)
  then show ?thesis
    using route_cons_complete [of a d "HasVNet d \<and> a = GetVNet d" "net a" c]
    by (auto simp: route_to_def Let_def route_stop_def carries_def split: option.splits)
qed

lemma way_in_tree:
  assumes "tree_network hubs r net" and "a \<in> set hubs" and "\<not> HasVNet d"
  shows "set (fst (way net a d)) \<subseteq> set hubs \<and> snd (way net a d) = (if d \<in> set hubs then Arrived else NoRoute)"
  using assms(2)
proof (induction a rule: way_induct [where d = d and net = net])
  case (lost a)
  with tree_routes [OF assms(1) lost(4), of d] show ?case by auto
next
  case (up a c)
  from up(6) [OF tree_linked(1) [OF assms(1) up(7,2,3)]] up(7) show ?case unfolding up(1) by auto
next
  case (down a c)
  from down(6) [OF tree_linked(1) [OF assms(1) down(7,2,3)]] down(7) show ?case unfolding down(1) by auto
next
  case (across a c)
  with tree_linked(1) [OF assms(1) across(6,3,4)] show ?case by auto
qed (use assms(3) in auto)

lemma report_reads:
  "GetDestin (ExceptionFactory to_image pfx m pEVT) = GetSource m" "m_name (ExceptionFactory to_image pfx m pEVT) = P2Pmsg_Exception"
  by (auto simp: ExceptionFactory_def WrappedResponseFactory_def AttachP2Pevent_def Let_def get_defs net_defs make_defs)

lemma stamped_reads:
  "GetDestin (StampReportOrigin h m) = GetDestin m" "m_name (StampReportOrigin h m) = m_name m"
  "h \<noteq> [] \<Longrightarrow> GetSource (StampReportOrigin h m) = h"
  by (auto simp: StampReportOrigin_def get_defs net_defs make_defs split: option.splits)

text \<open>
  C27: In a tree of hubs every message arrives or is reported.  A message from one hub to another passes
  hubs of the tree only and ends at its destination.  If there is no such hub, the hub where it ends
  posts a report to the message's source, which says where it comes from and arrives; only a message
  that is itself a report is dropped in silence.
\<close>

theorem routed_or_reported:
  assumes "tree_network hubs r net" and "GetSource m \<in> set hubs" and "[] \<notin> set hubs"
    and "\<not> HasVNet (GetDestin m)" and "\<not> HasVNet (GetSource m)" and "way net (GetSource m) (GetDestin m) = (p, e)"
  shows "set p \<subseteq> set hubs
    \<and> (if GetDestin m \<in> set hubs then e = Arrived \<and> last p = GetDestin m
       else \<exists>rep. hub_RouteP2PeerMsg (\<lambda>_. None) to_image pfx pEVT (last p) (net (last p)) m = Reported rep
         \<and> (case rep of None \<Rightarrow> Map_MatchName (m_name m) P2Pmsg_Exception
            | Some x \<Rightarrow> GetSource x = last p \<and> GetDestin x = GetSource m \<and> m_name x = P2Pmsg_Exception
                \<and> snd (way net (last p) (GetDestin x)) = Arrived))"
proof -
  note w = way_in_tree [OF assms(1,2,4)] way_end [of net "GetSource m" "GetDestin m"]
  have "p \<noteq> []" using assms(6) way_nonempty [of net "GetSource m" "GetDestin m"] by simp
  then have h: "last p \<in> set hubs" "last p \<noteq> []" using w(1) assms(3,6) by (auto dest: last_in_set)
  from h(1) have ret: "snd (way net (last p) (GetSource m)) = Arrived"
    using way_in_tree [OF assms(1) _ assms(5)] assms(2) by simp
  show ?thesis
    using w ret h assms(6)
    by (auto simp: hub_RouteP2PeerMsg_def target_RouteP2PeerMsg_def stamped_reads report_reads)
qed

lemma Open_not_a_source_refusal:
  "fst (fst (OpenAppMsgInbound cr now pHub c m)) \<notin> {Some BeforeLogin, Some SourceNotIdentity}"
  by (auto simp: OpenAppMsgInbound_def split: option.splits sum.splits prod.splits)

lemma Relay_not_a_source_refusal:
  "fst (GateRelayInbound cr now pHub hubs c m) \<notin> {Some BeforeLogin, Some SourceNotIdentity}"
  by (auto simp: GateRelayInbound_def Let_def split: option.splits prod.splits if_splits)

text \<open>
  The gates let in what routing sends.  On the way of a message from its source, the gate of each
  hub finds that the peer that sent it answers for the source, or that the peer is above this hub and
  relays: it never refuses the message as one whose source nobody answers for, and where the hub does
  not require attestations nothing but the opening of a sealed body decides.
\<close>

theorem routed_messages_let_in:
  assumes "fst (way net (GetSource m) d) = ps @ x # y # qs"
    and "m_oThatP2Paddr c = x" and "con_hub_addr c = y" and "y \<noteq> []" and "HasState ConState_Login c" and "\<not> IsVNetMount c"
  shows "fst (fst (GateAppMsgInbound cr now pHub hubs c m)) \<notin> {Some BeforeLogin, Some SourceNotIdentity}
    \<and> ((case pHub of None \<Rightarrow> True | Some h \<Rightarrow> \<not> IsRelayAuthRequired h) \<and> x \<noteq> [] \<longrightarrow>
         GateAppMsgInbound cr now pHub hubs c m = OpenAppMsgInbound cr now pHub c m)"
proof -
  have "successively (\<lambda>x y. IsRable x (GetSource m) \<or> IsRable x y) (ps @ x # y # qs)"
    using way_shape [of net "GetSource m" d] assms(1) by auto
  then have "IsRable x (GetSource m) \<or> IsRable x y"
    by (auto simp: successively_append_iff successively_Cons)
  moreover have "GateRelayInbound cr now pHub hubs c m = (None, pHub)"
    if "case pHub of None \<Rightarrow> True | Some h \<Rightarrow> \<not> IsRelayAuthRequired h"
    using that by (auto simp: GateRelayInbound_def split: option.splits)
  ultimately show ?thesis
    using assms(2-6) Open_not_a_source_refusal [of cr now _ c m] Relay_not_a_source_refusal [of cr now pHub hubs c m]
    by (auto simp: GateAppMsgInbound_def Let_def split: prod.split option.split)
qed

subsection \<open>Broadcasts and upcasts\<close>

definition ConBCasts_OK :: "32 word" where "ConBCasts_OK = ConState_Send OR ConState_Login OR ConState_BCasts"
definition ConUCasts_OK :: "32 word" where "ConUCasts_OK = ConState_Send OR ConState_Login OR ConState_UCasts"

text \<open>The message with its scope stamped, and the connections with the copies posted.\<close>

definition On_P2PeerBCast :: "wstr \<Rightarrow> con list \<Rightarrow> peer_msg \<Rightarrow> peer_msg \<times> con list" where
  "On_P2PeerBCast hub v pMsg =
     (let pMsg1 = (if \<not> IsFannedOut pMsg then SetScope pMsg (GetDestin pMsg) else pMsg) in
      (pMsg1, map (\<lambda>pCon. if \<not> IsChild hub (m_oThatP2Paddr pCon) \<or> \<not> HasState ConBCasts_OK pCon then pCon
                          else pCon\<lparr>con_que := PostP2PeerMsg (con_que pCon) (RedirectFactory pMsg1 (m_oThatP2Paddr pCon))\<rparr>) v))"

definition On_P2PeerUCast :: "wstr \<Rightarrow> con list \<Rightarrow> peer_msg \<Rightarrow> peer_msg \<times> con list" where
  "On_P2PeerUCast hub v pMsg =
     (let pMsg1 = (if \<not> IsFannedOut pMsg then SetUpScope pMsg (GetDestin pMsg) else pMsg) in
      (pMsg1, map (\<lambda>pCon. if \<not> IsChild (m_oThatP2Paddr pCon) hub \<or> \<not> HasState ConUCasts_OK pCon then pCon
                          else pCon\<lparr>con_que := PostP2PeerMsg (con_que pCon) (RedirectFactory pMsg1 (m_oThatP2Paddr pCon))\<rparr>) v))"

text \<open>
  What a hub's connections, nothing waiting on them, are given by a handler, and by which peer; and what
  then arrives anywhere when every hub that gets a copy handles it the same way, over at most \<open>n\<close> hops.
\<close>

definition drained :: "con list \<Rightarrow> con list" where
  "drained v = map (\<lambda>c. c\<lparr>con_que := (con_que c)\<lparr>m_oCListMsgQue := []\<rparr>\<rparr>) v"

definition waiting :: "con list \<Rightarrow> (wstr \<times> peer_msg) list" where
  "waiting v = concat (map (\<lambda>c. map (Pair (m_oThatP2Paddr c)) (m_oCListMsgQue (con_que c))) v)"

definition bcast_copies :: "network \<Rightarrow> wstr \<Rightarrow> peer_msg \<Rightarrow> (wstr \<times> peer_msg) list" where
  "bcast_copies net a m = waiting (snd (On_P2PeerBCast a (drained (net a)) m))"

definition ucast_copies :: "network \<Rightarrow> wstr \<Rightarrow> peer_msg \<Rightarrow> (wstr \<times> peer_msg) list" where
  "ucast_copies net a m = waiting (snd (On_P2PeerUCast a (drained (net a)) m))"

fun spread :: "(wstr \<Rightarrow> peer_msg \<Rightarrow> (wstr \<times> peer_msg) list) \<Rightarrow> nat \<Rightarrow> wstr \<Rightarrow> peer_msg \<Rightarrow> (wstr \<times> peer_msg) list" where
  "spread copies 0 a m = []"
| "spread copies (Suc n) a m = concat (map (\<lambda>(b, x). (b, x) # spread copies n b x) (copies a m))"

lemma waiting_posted:
  "waiting (map (\<lambda>c. if \<not> P (m_oThatP2Paddr c) \<or> \<not> HasState s c then c
       else c\<lparr>con_que := PostP2PeerMsg (con_que c) (g (m_oThatP2Paddr c))\<rparr>) (drained v))
     = map (\<lambda>c. (m_oThatP2Paddr c, g (m_oThatP2Paddr c))) (filter (\<lambda>c. P (m_oThatP2Paddr c) \<and> HasState s c) v)"
proof (induction v)
  case (Cons c v)
  have "m_oCListMsgQue (PostP2PeerMsg (q\<lparr>m_oCListMsgQue := []\<rparr>) x) = [x]" for q x
    by (simp add: PostP2PeerMsg_def Let_def content_wake)
  moreover have "HasState s (c\<lparr>con_que := q\<rparr>) = HasState s c" for q by (simp add: HasState_def)
  ultimately show ?case using Cons by (simp add: waiting_def drained_def)
qed (simp add: waiting_def drained_def)

lemma copies_posted:
  "bcast_copies net a m = map (\<lambda>c. (m_oThatP2Paddr c, RedirectFactory (fst (On_P2PeerBCast a (net a) m)) (m_oThatP2Paddr c)))
     (filter (\<lambda>c. IsChild a (m_oThatP2Paddr c) \<and> HasState ConBCasts_OK c) (net a))"
  "ucast_copies net a m = map (\<lambda>c. (m_oThatP2Paddr c, RedirectFactory (fst (On_P2PeerUCast a (net a) m)) (m_oThatP2Paddr c)))
     (filter (\<lambda>c. IsChild (m_oThatP2Paddr c) a \<and> HasState ConUCasts_OK c) (net a))"
  unfolding bcast_copies_def ucast_copies_def On_P2PeerBCast_def On_P2PeerUCast_def Let_def fst_conv snd_conv
  by (rule waiting_posted)+

lemma distinct_blocks:
  "distinct bs \<Longrightarrow> (\<And>b. b \<in> set bs \<Longrightarrow> distinct (f b))
     \<Longrightarrow> (\<And>b c. b \<in> set bs \<Longrightarrow> c \<in> set bs \<Longrightarrow> b \<noteq> c \<Longrightarrow> set (f b) \<inter> set (f c) = {}) \<Longrightarrow> distinct (concat (map f bs))"
  by (induction bs) auto

text \<open>
  Spreading along \<open>next\<close>, the steps of a tree order \<open>below\<close>, reaches what is below, each hub once: no two
  steps from a hub lead to the same one, and every step is one of at most \<open>n\<close>.
\<close>

lemma spread_once:
  assumes nx: "\<And>a m. map fst (copies a m) = nx a"
    and ok: "\<And>a. a \<in> H \<Longrightarrow> distinct (nx a) \<and> set (nx a) \<subseteq> H"
    and step: "\<And>a b. a \<in> H \<Longrightarrow> b \<in> set (nx a) \<Longrightarrow> below a b \<and> height b < height a"
    and to: "\<And>a x. a \<in> H \<Longrightarrow> x \<in> H \<Longrightarrow> below a x \<Longrightarrow> \<exists>b \<in> set (nx a). x = b \<or> below b x"
    and tree: "\<And>a b c x. a \<in> H \<Longrightarrow> b \<in> set (nx a) \<Longrightarrow> c \<in> set (nx a) \<Longrightarrow> b \<noteq> c \<Longrightarrow> x = b \<or> below b x \<Longrightarrow> \<not> (x = c \<or> below c x)"
    and ord: "\<And>a b c. below a b \<Longrightarrow> below b c \<Longrightarrow> below a c" "\<And>a. \<not> below a a"
  shows "a \<in> H \<Longrightarrow> height a \<le> n \<Longrightarrow>
    distinct (map fst (spread copies n a m)) \<and> set (map fst (spread copies n a m)) = {x \<in> H. below a x}"
proof (induction n arbitrary: a m)
  case 0
  then have "\<not> below a x" if "x \<in> H" for x using to [of a x] step [of a] that by fastforce
  then show ?case by auto
next
  case (Suc n)
  have ih: "distinct (map fst (spread copies n b x))" "set (map fst (spread copies n b x)) = {y \<in> H. below b y}"
    if "b \<in> set (nx a)" for b x
    using Suc.IH [of b x] ok [OF Suc.prems(1)] step [OF Suc.prems(1) that] Suc.prems(2) that by auto
  let ?f = "\<lambda>p. fst p # map fst (spread copies n (fst p) (snd p))"
  have "map fst (spread copies (Suc n) a m) = concat (map (\<lambda>(b, x). b # map fst (spread copies n b x)) (copies a m))"
    by (simp add: map_concat comp_def split_def)
  then have e: "map fst (spread copies (Suc n) a m) = concat (map ?f (copies a m))" by (simp add: split_def)
  have mem: "fst p \<in> set (nx a)" if "p \<in> set (copies a m)" for p
    using that by (simp flip: nx [of a m])
  have s: "set (?f p) = {y \<in> H. y = fst p \<or> below (fst p) y}" if "p \<in> set (copies a m)" for p
    using ih(2) [OF mem [OF that]] ok [OF Suc.prems(1)] mem [OF that] by auto
  have d: "distinct (copies a m)" "\<And>p q. p \<in> set (copies a m) \<Longrightarrow> q \<in> set (copies a m) \<Longrightarrow> p \<noteq> q \<Longrightarrow> fst p \<noteq> fst q"
    using ok [OF Suc.prems(1)] unfolding nx [of a m, symmetric] by (auto simp: distinct_map dest: inj_onD)
  show ?case
  proof
    show "distinct (map fst (spread copies (Suc n) a m))"
      unfolding e
    proof (rule distinct_blocks [OF d(1)])
      show "distinct (?f p)" if "p \<in> set (copies a m)" for p
        using ih [OF mem [OF that]] ord(2) by simp
      show "set (?f p) \<inter> set (?f q) = {}" if "p \<in> set (copies a m)" "q \<in> set (copies a m)" "p \<noteq> q" for p q
        using tree [OF Suc.prems(1) mem [OF that(1)] mem [OF that(2)] d(2) [OF that]]
        unfolding s [OF that(1)] s [OF that(2)] by blast
    qed
    have "set (map fst (spread copies (Suc n) a m)) = (\<Union>p \<in> set (copies a m). {y \<in> H. y = fst p \<or> below (fst p) y})"
      unfolding e set_concat set_map image_image using s by (intro SUP_cong) auto
    also have "\<dots> = {y \<in> H. \<exists>b \<in> set (nx a). y = b \<or> below b y}"
      by (auto simp flip: nx [of a m])
    also have "\<dots> = {y \<in> H. below a y}" using to step ord(1) Suc.prems(1) by blast
    finally show "set (map fst (spread copies (Suc n) a m)) = {x \<in> H. below a x}" .
  qed
qed

text \<open>What every copy keeps of the message, whatever hubs relay it: only its destination changes.\<close>

definition copy_of :: "peer_msg \<Rightarrow> wstr \<Rightarrow> peer_msg \<Rightarrow> bool" where
  "copy_of m b x \<longleftrightarrow> GetDestin x = b \<and> GetSource x = GetSource m \<and> GetScopeOrDestin x = GetScopeOrDestin m \<and> IsFannedOut x
     \<and> m_name x = m_name m \<and> Data x = Data m"

lemma fan_copy:
  "copy_of m b (RedirectFactory (fst (On_P2PeerBCast a v m)) b) \<and> (HasUpScope (RedirectFactory (fst (On_P2PeerBCast a v m)) b) = HasUpScope m)"
  "copy_of m b (RedirectFactory (fst (On_P2PeerUCast a v m)) b) \<and> (HasScope (RedirectFactory (fst (On_P2PeerUCast a v m)) b) = HasScope m)"
  by (auto simp: copy_of_def On_P2PeerBCast_def On_P2PeerUCast_def Let_def RedirectFactory_def IsFannedOut_def HasUpScope_def HasScope_def
      GetScopeOrDestin_def Data_def get_defs net_defs make_defs split: option.splits)

lemma spread_copies:
  assumes "\<And>a m b x. (b, x) \<in> set (copies a m) \<Longrightarrow> copy_of m b x \<and> Q x = Q m"
  shows "list_all (\<lambda>(b, x). copy_of m b x \<and> Q x = Q m) (spread copies n a m)"
proof (induction n arbitrary: a m)
  case (Suc n)
  have "copy_of m c y \<and> Q y = Q m" if "(b, x) \<in> set (copies a m)" "(c, y) \<in> set (spread copies n b x)" for b x c y
    using assms [OF that(1)] Suc.IH [of x b] that(2) by (fastforce simp: list_all_iff copy_of_def)
  with assms show ?case by (auto simp: list_all_iff)
qed simp

definition down_links :: "wstr list \<Rightarrow> network \<Rightarrow> bool" where
  "down_links hubs net \<longleftrightarrow> list_all (\<lambda>a.
     let bs = map m_oThatP2Paddr (filter (\<lambda>c. IsChild a (m_oThatP2Paddr c) \<and> HasState ConBCasts_OK c) (net a))
     in distinct bs \<and> set bs = set (filter (parent_of hubs a) hubs)) hubs"

definition up_links :: "wstr list \<Rightarrow> network \<Rightarrow> bool" where
  "up_links hubs net \<longleftrightarrow> list_all (\<lambda>a.
     let bs = map m_oThatP2Paddr (filter (\<lambda>c. IsChild (m_oThatP2Paddr c) a \<and> HasState ConUCasts_OK c) (net a))
     in distinct bs \<and> set bs = set (filter (\<lambda>p. parent_of hubs p a) hubs)) hubs"

lemma parent_unique: "parent_of hubs p x \<Longrightarrow> parent_of hubs q x \<Longrightarrow> p = q"
  using IsChild_chain [of p x q] by (auto simp: parent_of_def list_all_iff IsRable_iff)

text \<open>
  C29: A broadcast reaches every hub below its origin, once.  When every hub has one connection that
  takes broadcasts to each of the hubs next below it, the copies the hubs hand on arrive at each hub
  below the origin exactly once and nowhere else, addressed to the hub they arrive at, with the source,
  name and body of the message, and with the address its origin gave it as their scope.
\<close>

theorem broadcast_reaches_each_once:
  assumes "down_links hubs net" and "a \<in> set hubs" and "list_all (\<lambda>x. length x \<le> length a + n) hubs"
  shows "distinct (map fst (spread (bcast_copies net) n a m))
    \<and> set (map fst (spread (bcast_copies net) n a m)) = set (filter (IsChild a) hubs)
    \<and> list_all (\<lambda>(b, x). copy_of m b x \<and> HasUpScope x = HasUpScope m) (spread (bcast_copies net) n a m)"
proof (intro conjI)
  let ?nx = "\<lambda>a. map m_oThatP2Paddr (filter (\<lambda>c. IsChild a (m_oThatP2Paddr c) \<and> HasState ConBCasts_OK c) (net a))"
  let ?top = "Max (length ` set hubs)"
  have nx: "distinct (?nx x) \<and> set (?nx x) = {b. parent_of hubs x b}" if "x \<in> set hubs" for x
    using that assms(1) by (auto simp: down_links_def list_all_iff Let_def parent_of_def)
  have top: "length x \<le> ?top" if "x \<in> set hubs" for x using that by simp
  have "?top \<in> length ` set hubs" using assms(2) by (intro Max_in) auto
  then have "?top \<le> length a + n" using assms(3) by (auto simp: list_all_iff)
  have "distinct (map fst (spread (bcast_copies net) n a m)) \<and> set (map fst (spread (bcast_copies net) n a m)) = {x \<in> set hubs. IsChild a x}"
  proof (rule spread_once [where nx = ?nx and height = "\<lambda>x. ?top - length x"])
    show "map fst (bcast_copies net x y) = ?nx x" for x y by (simp add: copies_posted)
    show "distinct (?nx x) \<and> set (?nx x) \<subseteq> set hubs" if "x \<in> set hubs" for x
      using nx [OF that] by (auto simp: parent_of_def)
    show "IsChild x b \<and> ?top - length b < ?top - length x" if "x \<in> set hubs" "b \<in> set (?nx x)" for x b
    proof -
      have "parent_of hubs x b" using nx [OF that(1)] that(2) by blast
      then have "IsChild x b" "length b \<le> ?top" using top [of b] by (auto simp: parent_of_def)
      then show ?thesis using IsChild_shorter [of x b] by simp
    qed
    show "\<exists>b \<in> set (?nx x). y = b \<or> IsChild b y" if "x \<in> set hubs" "y \<in> set hubs" "IsChild x y" for x y
      using child_towards [OF that] nx [OF that(1)] by (auto simp: IsRable_iff)
    show "\<not> (y = c \<or> IsChild c y)" if "x \<in> set hubs" "b \<in> set (?nx x)" "c \<in> set (?nx x)" "b \<noteq> c" "y = b \<or> IsChild b y" for x b c y
    proof -
      have "parent_of hubs x b" "parent_of hubs x c" using nx [OF that(1)] that(2,3) by blast+
      then show ?thesis using that(4,5) IsChild_chain [of b y c] by (auto simp: parent_of_def list_all_iff IsRable_iff)
    qed
    show "?top - length a \<le> n" using \<open>?top \<le> length a + n\<close> by simp
  qed (use assms(2) in \<open>auto intro: IsChild_trans\<close>)
  then show "distinct (map fst (spread (bcast_copies net) n a m))"
    and "set (map fst (spread (bcast_copies net) n a m)) = set (filter (IsChild a) hubs)" by auto
  show "list_all (\<lambda>(b, x). copy_of m b x \<and> HasUpScope x = HasUpScope m) (spread (bcast_copies net) n a m)"
    by (rule spread_copies) (auto simp: copies_posted fan_copy)
qed

text \<open>
  An upcast reaches every hub above its origin, once, over one connection to the nearest hub above
  that takes upcasts; its copies carry the address its origin gave it as upcast scope, never as the
  scope of a broadcast.
\<close>

theorem upcast_reaches_each_once:
  assumes "up_links hubs net" and "a \<in> set hubs" and "length a \<le> n"
  shows "distinct (map fst (spread (ucast_copies net) n a m))
    \<and> set (map fst (spread (ucast_copies net) n a m)) = set (filter (\<lambda>x. IsChild x a) hubs)
    \<and> list_all (\<lambda>(b, x). copy_of m b x \<and> HasScope x = HasScope m) (spread (ucast_copies net) n a m)"
proof (intro conjI)
  let ?nx = "\<lambda>a. map m_oThatP2Paddr (filter (\<lambda>c. IsChild (m_oThatP2Paddr c) a \<and> HasState ConUCasts_OK c) (net a))"
  have nx: "distinct (?nx x) \<and> set (?nx x) = {b. parent_of hubs b x}" if "x \<in> set hubs" for x
    using that assms(1) by (auto simp: up_links_def list_all_iff Let_def parent_of_def)
  have "distinct (map fst (spread (ucast_copies net) n a m)) \<and> set (map fst (spread (ucast_copies net) n a m)) = {x \<in> set hubs. IsChild x a}"
  proof (rule spread_once [where nx = ?nx and height = length and below = "\<lambda>x y. IsChild y x"])
    show "map fst (ucast_copies net x y) = ?nx x" for x y by (simp add: copies_posted)
    show "distinct (?nx x) \<and> set (?nx x) \<subseteq> set hubs" if "x \<in> set hubs" for x
      using nx [OF that] by (auto simp: parent_of_def)
    show "IsChild b x \<and> length b < length x" if "x \<in> set hubs" "b \<in> set (?nx x)" for x b
    proof -
      have "parent_of hubs b x" using nx [OF that(1)] that(2) by blast
      then show ?thesis by (auto simp: parent_of_def dest: IsChild_shorter)
    qed
    show "\<exists>b \<in> set (?nx x). y = b \<or> IsChild y b" if "x \<in> set hubs" "y \<in> set hubs" "IsChild y x" for x y
      using parent_exists [OF that] nx [OF that(1)] by (auto simp: IsRable_iff)
    show "\<not> (y = c \<or> IsChild y c)" if "x \<in> set hubs" "b \<in> set (?nx x)" "c \<in> set (?nx x)" "b \<noteq> c" "y = b \<or> IsChild y b" for x b c y
    proof -
      have "parent_of hubs b x" "parent_of hubs c x" using nx [OF that(1)] that(2,3) by blast+
      then show ?thesis using parent_unique that(4) by blast
    qed
  qed (use assms(2,3) in \<open>auto intro: IsChild_trans\<close>)
  then show "distinct (map fst (spread (ucast_copies net) n a m))"
    and "set (map fst (spread (ucast_copies net) n a m)) = set (filter (\<lambda>x. IsChild x a) hubs)" by auto
  show "list_all (\<lambda>(b, x). copy_of m b x \<and> HasScope x = HasScope m) (spread (ucast_copies net) n a m)"
    by (rule spread_copies) (auto simp: copies_posted fan_copy)
qed

subsection \<open>An example network\<close>

text \<open>The hubs \<open>A\<close>, \<open>A.B\<close>, \<open>A.C\<close> and \<open>A.B.D\<close>, linked as a tree.\<close>

definition link_to :: "wstr \<Rightarrow> con" where
  "link_to b = (con_new 0 None)\<lparr>m_oThatP2Paddr := b, m_eP2PeerConMode := P2PeerCon_CLIENT,
     m_dwState := ConState_Send OR ConState_Login OR ConState_BCasts OR ConState_UCasts\<rparr>"

definition example_hubs :: "wstr list" where
  "example_hubs = [[65], [65, 46, 66], [65, 46, 67], [65, 46, 66, 46, 68]]"

definition example_net :: network where
  "example_net a =
     (if a = [65] then map link_to [[65, 46, 66], [65, 46, 67]]
      else if a = [65, 46, 66] then map link_to [[65], [65, 46, 66, 46, 68]]
      else if a = [65, 46, 67] then map link_to [[65]]
      else if a = [65, 46, 66, 46, 68] then map link_to [[65, 46, 66]] else [])"

lemma link_to_reads [simp]:
  "m_oThatP2Paddr (link_to b) = b" "carries (link_to b)" "\<not> IsVNetMount (link_to b)" "m_eP2PeerConMode (link_to b) = P2PeerCon_CLIENT"
  "HasState ConBCasts_OK (link_to b)" "HasState ConUCasts_OK (link_to b)" "HasState ConState_Login (link_to b)"
  by (simp_all add: link_to_def con_new_def carries_def IsVNetMount_def HasState_def ConBCasts_OK_def ConUCasts_OK_def
      ConState_Send_def ConState_Login_def ConState_BCasts_def ConState_UCasts_def)

lemmas address_evals = IsChild_def IsRable_def P2PaddrIsHopBoundary_def

lemma example_tree: "tree_network example_hubs [65] example_net" "down_links example_hubs example_net" "up_links example_hubs example_net"
  by (simp_all add: tree_network_def down_links_def up_links_def example_hubs_def example_net_def parent_of_def address_evals Let_def
      insert_commute del: set_map set_filter)

lemma example_ways:
  "way example_net [65, 46, 67] [65, 46, 66, 46, 68] = ([[65, 46, 67], [65], [65, 46, 66], [65, 46, 66, 46, 68]], Arrived)"
  "way example_net [65, 46, 67] [65, 46, 66, 46, 69] = ([[65, 46, 67], [65], [65, 46, 66]], NoRoute)"
  by (simp_all add: way.simps example_net_def route_to_def Let_def HasVNet_def P2PaddrVNetColon_def address_evals)

definition msg_from_to :: "wstr \<Rightarrow> wstr \<Rightarrow> peer_msg" where
  "msg_from_to s d = msg_between (m_prefix (example_msg [] 0)) s d [80] [1, 2]"

lemma msg_from_to_reads [simp]:
  "GetSource (msg_from_to s d) = s" "GetDestin (msg_from_to s d) = d" "m_name (msg_from_to s d) = [80]"
  "GetScopeOrDestin (msg_from_to s d) = d" "\<not> HasScope (msg_from_to s d)" "\<not> HasUpScope (msg_from_to s d)"
  "\<not> fst (IsSealed (msg_from_to s d))"
  by (simp_all add: msg_from_to_def get_defs net_defs make_defs GetScopeOrDestin_def HasScope_def HasUpScope_def IsSealed_def)

theorem routed_or_reported_witness:
  "\<exists>x. hub_RouteP2PeerMsg (\<lambda>_. None) (\<lambda>_. []) (m_prefix (example_msg [] 0)) [] [65, 46, 66] (example_net [65, 46, 66])
        (msg_from_to [65, 46, 67] [65, 46, 66, 46, 69]) = Reported (Some x)
     \<and> GetSource x = [65, 46, 66] \<and> GetDestin x = [65, 46, 67] \<and> snd (way example_net [65, 46, 66] [65, 46, 67]) = Arrived"
proof -
  have "\<not> Map_MatchName [80] P2Pmsg_Exception" by code_simp
  then show ?thesis
    using routed_or_reported [OF example_tree(1), of "msg_from_to [65, 46, 67] [65, 46, 66, 46, 69]" _ _ "\<lambda>_. []" "m_prefix (example_msg [] 0)" "[]",
        unfolded msg_from_to_reads, OF _ _ _ _ example_ways(2)]
    by (simp add: example_hubs_def HasVNet_def P2PaddrVNetColon_def split: option.splits) auto
qed

theorem routed_messages_let_in_witness:
  "GateAppMsgInbound (example_crypto (\<lambda>m. True)) 7 None [] ((link_to [65])\<lparr>con_hub_addr := [65, 46, 66]\<rparr>) (msg_from_to [65, 46, 67] [65, 46, 66, 46, 68])
     = ((None, msg_from_to [65, 46, 67] [65, 46, 66, 46, 68]), None)"
proof -
  have "HasState ConState_Login ((link_to b)\<lparr>con_hub_addr := h\<rparr>) \<and> \<not> IsVNetMount ((link_to b)\<lparr>con_hub_addr := h\<rparr>)" for b h
    using link_to_reads(3,7) [of b] by (simp add: HasState_def IsVNetMount_def)
  then show ?thesis
    using routed_messages_let_in [of example_net "msg_from_to [65, 46, 67] [65, 46, 66, 46, 68]" "[65, 46, 66, 46, 68]" "[[65, 46, 67]]"
        "[65]" "[65, 46, 66]" "[[65, 46, 66, 46, 68]]" "(link_to [65])\<lparr>con_hub_addr := [65, 46, 66]\<rparr>" "example_crypto (\<lambda>m. True)" 7 None "[]"]
    by (simp add: example_ways OpenAppMsgInbound_def)
qed

theorem broadcast_reaches_each_once_witness:
  "distinct (map fst (spread (bcast_copies example_net) 5 [65] (msg_from_to [65] [65])))
   \<and> set (map fst (spread (bcast_copies example_net) 5 [65] (msg_from_to [65] [65]))) = {[65, 46, 66], [65, 46, 67], [65, 46, 66, 46, 68]}"
  using broadcast_reaches_each_once [OF example_tree(2), of "[65]" 5 "msg_from_to [65] [65]"]
  by (simp add: example_hubs_def address_evals insert_commute del: set_map)

theorem upcast_reaches_each_once_witness:
  "set (map fst (spread (ucast_copies example_net) 7 [65, 46, 66, 46, 68] (msg_from_to [65, 46, 66, 46, 68] [65]))) = {[65], [65, 46, 66]}"
  using upcast_reaches_each_once [OF example_tree(3), of "[65, 46, 66, 46, 68]" 7 "msg_from_to [65, 46, 66, 46, 68] [65]"]
  by (simp add: example_hubs_def address_evals insert_commute del: set_map)

end
