(* ===== verification/Pump.thy ===== *)
theory Pump
  imports PeerMsg
begin

text \<open>
  The message pumps of P2Pwin32.cpp: a pump per thread, its queue of posted messages, its timers, the
  budget all pumps share, and how a poster wakes a pump.

  A \<open>P2Pmsg\<close> is what it carries and, for a timer, when it is due and its identifier.  The queue of a
  pump is under the pump's lock, its timers and the table of pumps under the table's lock, so callers
  interleave as sequences of the operations below.
\<close>

record p2pmsg =
  pm_pMsg :: "peer_msg option"
  pm_pCon :: "nat option"
  iPitime :: int
  iPitimeID :: "32 word"

text \<open>\<open>m_hIOCP\<close> and \<open>m_hQueEvent\<close> as whether they are there.\<close>

record pump =
  m_nThreadId :: "32 word"
  m_nHubID :: "32 word"
  m_hIOCP :: bool
  m_hQueEvent :: bool
  m_bWakePosted :: bool
  m_oCListP2Pmsg :: "p2pmsg list"
  m_nPitimeID :: "16 word"
  m_oCListP2PmsgPit :: "p2pmsg list"

definition pump_new :: "32 word \<Rightarrow> 32 word \<Rightarrow> pump" where
  "pump_new nThreadId nHubID =
     \<lparr>m_nThreadId = nThreadId, m_nHubID = nHubID, m_hIOCP = False, m_hQueEvent = False, m_bWakePosted = False,
      m_oCListP2Pmsg = [], m_nPitimeID = 0, m_oCListP2PmsgPit = []\<rparr>"

subsection \<open>The queue\<close>

text \<open>The answer, and whether the pump's thread is signalled; it never is by itself.\<close>

definition Wakeup :: "32 word \<Rightarrow> 32 word \<Rightarrow> pump \<Rightarrow> bool \<times> bool" where
  "Wakeup self nP2PumpID p =
     (if nP2PumpID = self then (True, False)
      else if m_hIOCP p then (False, True)
      else if m_hQueEvent p then (True, True)
      else (False, False))"

text \<open>Whether the pump is signalled, and the pump, after a post by the thread \<open>self\<close>.\<close>

definition PutP2Pmsg :: "32 word \<Rightarrow> p2pmsg \<Rightarrow> bool \<Rightarrow> pump \<Rightarrow> bool \<times> pump" where
  "PutP2Pmsg self pP2Pmsg bPrepend p =
     (let p1 = p\<lparr>m_oCListP2Pmsg := (if bPrepend then pP2Pmsg # m_oCListP2Pmsg p else m_oCListP2Pmsg p @ [pP2Pmsg])\<rparr>
      in if \<not> m_bWakePosted p1 then (snd (Wakeup self (m_nThreadId p1) p1), p1\<lparr>m_bWakePosted := True\<rparr>) else (False, p1))"

definition GetP2Pmsg :: "pump \<Rightarrow> p2pmsg option \<times> pump" where
  "GetP2Pmsg p = (case m_oCListP2Pmsg p of [] \<Rightarrow> (None, p) | x # v \<Rightarrow> (Some x, p\<lparr>m_oCListP2Pmsg := v\<rparr>))"

text \<open>What the loops of \<open>PumpP2Pmsg\<close> take: an empty queue disarms the wake under the same lock.\<close>

definition pump_take :: "pump \<Rightarrow> p2pmsg option \<times> pump" where
  "pump_take p =
     (case GetP2Pmsg p of (None, p') \<Rightarrow> (None, p'\<lparr>m_bWakePosted := False\<rparr>) | (Some x, p') \<Rightarrow> (Some x, p'))"

text \<open>\<open>FlushP2Pmsg\<close> drops what is for a connection and puts back the rest, each message once.\<close>

fun flush_loop :: "32 word \<Rightarrow> nat \<Rightarrow> pump \<Rightarrow> pump" where
  "flush_loop self 0 p = p"
| "flush_loop self (Suc cMsg) p =
     (case GetP2Pmsg p of (None, p') \<Rightarrow> p'
      | (Some x, p') \<Rightarrow> flush_loop self cMsg (if pm_pCon x \<noteq> None then p' else snd (PutP2Pmsg self x False p')))"

definition FlushP2Pmsg :: "32 word \<Rightarrow> pump \<Rightarrow> pump" where
  "FlushP2Pmsg self p = flush_loop self (length (m_oCListP2Pmsg p)) p"

subsection \<open>Timers\<close>

definition timer_id :: "32 word \<Rightarrow> 16 word \<Rightarrow> 32 word" where
  "timer_id nThreadId nPitimeID = nThreadId * 0x100 + ucast nPitimeID"

text \<open>The first free identifier and the counter behind it; \<open>None\<close> if the search does not end.\<close>

partial_function (option) MakeTimerID :: "32 word \<Rightarrow> p2pmsg list \<Rightarrow> 16 word \<Rightarrow> (32 word \<times> 16 word) option" where
  "MakeTimerID nThreadId pit nPitimeID =
     (if timer_id nThreadId nPitimeID \<in> set (map iPitimeID pit) then MakeTimerID nThreadId pit (nPitimeID + 1)
      else Some (timer_id nThreadId nPitimeID, nPitimeID + 1))"

text \<open>
  The walk of \<open>SetTimer\<close> from the tail.  \<open>GetPrev\<close> answers an element and steps to the one before it, so
  what is inserted goes behind the element before the one that was compared.  Before the head there is
  none: \<open>after_null\<close> is what the list class does with a null position.
\<close>

fun timer_walk :: "(p2pmsg \<Rightarrow> p2pmsg list \<Rightarrow> p2pmsg list) \<Rightarrow> p2pmsg list \<Rightarrow> p2pmsg \<Rightarrow> p2pmsg list \<Rightarrow> p2pmsg list" where
  "timer_walk after_null [] pP2Pmsg passed = pP2Pmsg # passed"
| "timer_walk after_null (x # before) pP2Pmsg passed =
     (if iPitime x \<le> iPitime pP2Pmsg
      then (if before = [] then after_null pP2Pmsg (x # passed) else rev before @ pP2Pmsg # x # passed)
      else timer_walk after_null before pP2Pmsg (x # passed))"

definition SetTimer ::
  "(p2pmsg \<Rightarrow> p2pmsg list \<Rightarrow> p2pmsg list) \<Rightarrow> p2pmsg \<Rightarrow> pump \<Rightarrow> (32 word \<times> pump) option" where
  "SetTimer after_null pP2Pmsg p =
     (case MakeTimerID (m_nThreadId p) (m_oCListP2PmsgPit p) (m_nPitimeID p) of None \<Rightarrow> None
      | Some (i, n) \<Rightarrow> Some (i, p\<lparr>m_nPitimeID := n,
          m_oCListP2PmsgPit := timer_walk after_null (rev (m_oCListP2PmsgPit p)) (pP2Pmsg\<lparr>iPitimeID := i\<rparr>) []\<rparr>))"

fun kill_timer :: "32 word \<Rightarrow> p2pmsg list \<Rightarrow> p2pmsg option \<times> p2pmsg list" where
  "kill_timer uPitimerID [] = (None, [])"
| "kill_timer uPitimerID (x # v) =
     (if iPitimeID x \<noteq> uPitimerID then (case kill_timer uPitimerID v of (r, w) \<Rightarrow> (r, x # w)) else (Some x, v))"

definition KillTimer :: "32 word \<Rightarrow> pump \<Rightarrow> p2pmsg option \<times> pump" where
  "KillTimer uPitimerID p =
     (case kill_timer uPitimerID (m_oCListP2PmsgPit p) of (r, v) \<Rightarrow> (r, p\<lparr>m_oCListP2PmsgPit := v\<rparr>))"

text \<open>How long until a timer is due, by the clock in seconds; \<open>0xFFFFFFFF\<close> without timers.\<close>

definition PollTimer :: "int \<Rightarrow> pump \<Rightarrow> int" where
  "PollTimer now p = (case m_oCListP2PmsgPit p of [] \<Rightarrow> 0xFFFFFFFF | x # _ \<Rightarrow> iPitime x - now * 1000)"

text \<open>\<open>GetTimer\<close>, called only when \<open>PollTimer\<close> says the head is due.\<close>

definition GetTimer :: "pump \<Rightarrow> p2pmsg option \<times> pump" where
  "GetTimer p =
     (case m_oCListP2PmsgPit p of [] \<Rightarrow> (None, p) | x # v \<Rightarrow> (Some x, p\<lparr>m_oCListP2PmsgPit := v\<rparr>))"

subsection \<open>The process\<close>

record process =
  s_ThreadID_P2PmsgPump :: "32 word \<Rightarrow> pump option"
  s_cP2Pmsg :: "32 word"
  s_cP2PmsgHIGH :: "32 word"
  s_cP2PmsgLOW :: "32 word"

datatype pump_error = BadMarks | PumpNotStarted | CrossHub | Reposted | QueueFull | TimerLimit

definition s_cP2PmsgMAX :: "32 word" where "s_cP2PmsgMAX = 50000"

definition SetP2PmsgBudgetMarks :: "32 word \<Rightarrow> 32 word \<Rightarrow> process \<Rightarrow> pump_error option \<times> process" where
  "SetP2PmsgBudgetMarks dwHigh dwLow s =
     (if dwHigh = 0 \<or> dwLow = 0 \<or> dwLow \<ge> dwHigh \<or> dwHigh \<ge> s_cP2PmsgMAX then (Some BadMarks, s)
      else (None, s\<lparr>s_cP2PmsgHIGH := dwHigh, s_cP2PmsgLOW := dwLow\<rparr>))"

definition P2PmsgBudgetPressed :: "process \<Rightarrow> bool" where "P2PmsgBudgetPressed s \<longleftrightarrow> s_cP2Pmsg s \<ge> s_cP2PmsgHIGH s"
definition P2PmsgBudgetRelieved :: "process \<Rightarrow> bool" where "P2PmsgBudgetRelieved s \<longleftrightarrow> s_cP2Pmsg s \<le> s_cP2PmsgLOW s"

definition P2PmsgFactory :: "process \<Rightarrow> process" where "P2PmsgFactory s = s\<lparr>s_cP2Pmsg := s_cP2Pmsg s + 1\<rparr>"
definition ReleaseP2Pmsg :: "process \<Rightarrow> process" where "ReleaseP2Pmsg s = s\<lparr>s_cP2Pmsg := s_cP2Pmsg s - 1\<rparr>"

definition to_pump :: "32 word \<Rightarrow> pump \<Rightarrow> process \<Rightarrow> process" where
  "to_pump t p s = s\<lparr>s_ThreadID_P2PmsgPump := (s_ThreadID_P2PmsgPump s)(t \<mapsto> p)\<rparr>"

definition mark_posted :: "peer_msg \<Rightarrow> peer_msg" where
  "mark_posted m = m\<lparr>m_prefix := (m_prefix m)\<lparr>uiState := uiState (m_prefix m) OR P2PeerMsgState_Posted\<rparr>\<rparr>"

definition p2pmsg_of :: "peer_msg \<Rightarrow> p2pmsg" where
  "p2pmsg_of m = \<lparr>pm_pMsg = Some m, pm_pCon = None, iPitime = 0, iPitimeID = 0\<rparr>"

text \<open>A post by the thread \<open>self\<close>: the error thrown, whether the pump is signalled, and the process.\<close>

type_synonym posting = "(pump_error option \<times> bool) \<times> process"

definition PostP2Pmsg :: "32 word \<Rightarrow> peer_msg \<Rightarrow> 32 word \<Rightarrow> bool \<Rightarrow> process \<Rightarrow> posting" where
  "PostP2Pmsg self pMsg nPumpID bPrepend s =
     (case s_ThreadID_P2PmsgPump s nPumpID of None \<Rightarrow> ((Some PumpNotStarted, False), s)
      | Some p \<Rightarrow>
        if (case s_ThreadID_P2PmsgPump s self of None \<Rightarrow> False | Some this \<Rightarrow> m_nHubID this \<noteq> m_nHubID p) then ((Some CrossHub, False), s)
        else if P2PeerMsg_IsPosted pMsg then ((Some Reposted, False), s)
        else if s_cP2Pmsg s > s_cP2PmsgMAX then ((Some QueueFull, False), s)
        else (case PutP2Pmsg self (p2pmsg_of (mark_posted pMsg)) bPrepend p of
                (w, p') \<Rightarrow> ((None, w), to_pump nPumpID p' (P2PmsgFactory s))))"

text \<open>The batch keeps what it posted when it fails on the way; null entries are skipped.\<close>

fun post_batch :: "32 word \<Rightarrow> 32 word \<Rightarrow> peer_msg option list \<Rightarrow> bool \<Rightarrow> pump \<Rightarrow> process \<Rightarrow> posting" where
  "post_batch self nPumpID [] w p s = ((None, w), s)"
| "post_batch self nPumpID (None # ms) w p s = post_batch self nPumpID ms w p s"
| "post_batch self nPumpID (Some pMsg # ms) w p s =
     (if P2PeerMsg_IsPosted pMsg then ((Some Reposted, w), s)
      else if s_cP2Pmsg s > s_cP2PmsgMAX then ((Some QueueFull, w), s)
      else (case PutP2Pmsg self (p2pmsg_of (mark_posted pMsg)) False p of
              (w', p') \<Rightarrow> post_batch self nPumpID ms (w \<or> w') p' (to_pump nPumpID p' (P2PmsgFactory s))))"

definition PostP2PmsgBatch :: "32 word \<Rightarrow> peer_msg option list \<Rightarrow> 32 word \<Rightarrow> process \<Rightarrow> posting" where
  "PostP2PmsgBatch self apMsg nPumpID s =
     (if apMsg = [] then ((None, False), s)
      else (case s_ThreadID_P2PmsgPump s nPumpID of None \<Rightarrow> ((Some PumpNotStarted, False), s)
      | Some p \<Rightarrow>
        if (case s_ThreadID_P2PmsgPump s self of None \<Rightarrow> False | Some this \<Rightarrow> m_nHubID this \<noteq> m_nHubID p) then ((Some CrossHub, False), s)
        else post_batch self nPumpID apMsg False p s))"

text \<open>A timer on a pump, for a connection; and its cancellation, which finds the pump by the identifier.\<close>

definition SetP2PmsgTimer ::
  "(p2pmsg \<Rightarrow> p2pmsg list \<Rightarrow> p2pmsg list) \<Rightarrow> int \<Rightarrow> 32 word \<Rightarrow> nat option \<Rightarrow> int \<Rightarrow> process
   \<Rightarrow> ((pump_error + 32 word) \<times> process) option" where
  "SetP2PmsgTimer after_null now nPumpID pCon uMSecDelay s =
     (case s_ThreadID_P2PmsgPump s nPumpID of None \<Rightarrow> Some (Inl PumpNotStarted, s)
      | Some p \<Rightarrow>
        if length (m_oCListP2PmsgPit p) > 1024 then Some (Inl TimerLimit, s)
        else (case SetTimer after_null \<lparr>pm_pMsg = None, pm_pCon = pCon, iPitime = now * 1000 + uMSecDelay, iPitimeID = 0\<rparr> p of
                None \<Rightarrow> None
              | Some (i, p') \<Rightarrow> Some (Inr i, to_pump nPumpID p' (P2PmsgFactory s))))"

definition KillP2PmsgTimer :: "32 word \<Rightarrow> process \<Rightarrow> (pump_error + 32 word) \<times> process" where
  "KillP2PmsgTimer nTimerID s =
     (case s_ThreadID_P2PmsgPump s (nTimerID div 0x100) of None \<Rightarrow> (Inl PumpNotStarted, s)
      | Some p \<Rightarrow> (case KillTimer nTimerID p of
          (None, p') \<Rightarrow> (Inr nTimerID, s)
        | (Some x, p') \<Rightarrow> (Inr 0, ReleaseP2Pmsg (to_pump (nTimerID div 0x100) p' s))))"


subsection \<open>The pump's loop\<close>

text \<open>
  \<open>PumpP2Pmsg\<close> on its thread, with the posts of the other threads between any two of its steps.
  \<open>Idle\<close> is outside the function, \<open>Top\<close> at its start, \<open>Draining n\<close> in the loop that takes at most 64 more,
  \<open>Poll\<close> a look at the completion port that does not wait (an event is not looked at), \<open>Waiting\<close> one that does.
  While a message, a timer or a completion is handled (\<open>Handling\<close>, with where the thread goes on), the
  thread itself may post.  \<open>r_signals\<close> counts the packets of the completion port, or is 1 when the event is
  set.
\<close>

datatype pump_at = Idle | Top | Handling pump_at | Draining nat | Poll | Waiting

record running =
  r_at :: pump_at
  r_pump :: pump
  r_signals :: nat

text \<open>A signal: a packet more, or the event set.\<close>

definition signalled :: "bool \<Rightarrow> running \<Rightarrow> running" where
  "signalled w r = (if w then r\<lparr>r_signals := (if m_hIOCP (r_pump r) then Suc (r_signals r) else 1)\<rparr> else r)"

definition put_by :: "32 word \<Rightarrow> p2pmsg \<Rightarrow> bool \<Rightarrow> running \<Rightarrow> running" where
  "put_by self x bPrepend r =
     (case PutP2Pmsg self x bPrepend (r_pump r) of (w, p) \<Rightarrow> signalled w (r\<lparr>r_pump := p\<rparr>))"

definition kMaxPumpBatch :: nat where "kMaxPumpBatch = 64"

inductive pump_step :: "running \<Rightarrow> running \<Rightarrow> bool" where
  other_posts: "self \<noteq> m_nThreadId (r_pump r) \<Longrightarrow> pump_step r (put_by self x bPrepend r)"
| own_posts: "r_at r = Handling a \<or> r_at r = Idle \<Longrightarrow> pump_step r (put_by (m_nThreadId (r_pump r)) x bPrepend r)"
| enter: "r_at r = Idle \<Longrightarrow> pump_step r (r\<lparr>r_at := Top\<rparr>)"
| timer: "r_at r = Top \<Longrightarrow> GetTimer (r_pump r) = (Some x, p) \<Longrightarrow>
    pump_step r (r\<lparr>r_at := Handling (Draining 0), r_pump := p\<rparr>)"
| top_message: "r_at r = Top \<Longrightarrow> pump_take (r_pump r) = (Some x, p) \<Longrightarrow>
    pump_step r (r\<lparr>r_at := Handling (Draining 0), r_pump := p\<rparr>)"
| top_nothing: "r_at r = Top \<Longrightarrow> pump_take (r_pump r) = (None, p) \<Longrightarrow> a = Waiting \<or> a = Poll \<Longrightarrow>
    pump_step r (r\<lparr>r_at := a, r_pump := p\<rparr>)"
| handled: "r_at r = Handling a \<Longrightarrow> pump_step r (r\<lparr>r_at := a\<rparr>)"
| drain_message: "r_at r = Draining n \<Longrightarrow> n < kMaxPumpBatch \<Longrightarrow> pump_take (r_pump r) = (Some x, p) \<Longrightarrow>
    pump_step r (r\<lparr>r_at := Handling (Draining (Suc n)), r_pump := p\<rparr>)"
| drain_nothing: "r_at r = Draining n \<Longrightarrow> n < kMaxPumpBatch \<Longrightarrow> pump_take (r_pump r) = (None, p) \<Longrightarrow>
    pump_step r (r\<lparr>r_at := Poll, r_pump := p\<rparr>)"
| drain_full: "r_at r = Draining n \<Longrightarrow> \<not> n < kMaxPumpBatch \<Longrightarrow> pump_step r (r\<lparr>r_at := Poll\<rparr>)"
| signal_taken: "r_at r = Poll \<and> m_hIOCP (r_pump r) \<or> r_at r = Waiting \<Longrightarrow> r_signals r > 0 \<Longrightarrow>
    pump_step r (r\<lparr>r_at := (if m_hIOCP (r_pump r) then Idle else Top), r_signals := r_signals r - 1\<rparr>)"
| completion: "r_at r = Poll \<or> r_at r = Waiting \<Longrightarrow> m_hIOCP (r_pump r) \<Longrightarrow> pump_step r (r\<lparr>r_at := Handling Idle\<rparr>)"
| timed_out: "r_at r = Poll \<or> r_at r = Waiting \<Longrightarrow>
    pump_step r (r\<lparr>r_at := (if r_at r = Poll \<or> m_hIOCP (r_pump r) then Idle else Top)\<rparr>)"

inductive pump_run :: "running \<Rightarrow> running \<Rightarrow> bool" where
  here: "pump_run r r"
| further: "pump_run r r' \<Longrightarrow> pump_step r' r'' \<Longrightarrow> pump_run r r''"

definition pump_started :: "running \<Rightarrow> bool" where
  "pump_started r \<longleftrightarrow> r_at r = Idle \<and> m_oCListP2Pmsg (r_pump r) = [] \<and> \<not> m_bWakePosted (r_pump r) \<and>
     (m_hIOCP (r_pump r) \<or> m_hQueEvent (r_pump r))"

text \<open>
  What every step keeps: a message in the queue has armed the wake, and while the thread waits an armed wake
  has left a signal.  The second does not hold elsewhere: the thread's own posts arm without a signal.
\<close>

definition wake_armed :: "running \<Rightarrow> bool" where
  "wake_armed r \<longleftrightarrow> (m_hIOCP (r_pump r) \<or> m_hQueEvent (r_pump r)) \<and>
     (m_oCListP2Pmsg (r_pump r) \<noteq> [] \<longrightarrow> m_bWakePosted (r_pump r)) \<and>
     (r_at r = Waiting \<longrightarrow> m_bWakePosted (r_pump r) \<longrightarrow> r_signals r > 0)"

lemma pump_take_None: "pump_take p = (None, p') \<Longrightarrow> p' = p\<lparr>m_bWakePosted := False\<rparr> \<and> m_oCListP2Pmsg p = []"
  by (auto simp: pump_take_def GetP2Pmsg_def split: list.splits)

lemma pump_take_Some:
  "pump_take p = (Some x, p') \<Longrightarrow> \<exists>v. m_oCListP2Pmsg p = x # v \<and> p' = p\<lparr>m_oCListP2Pmsg := v\<rparr>"
  by (auto simp: pump_take_def GetP2Pmsg_def split: list.splits)

lemma GetTimer_Some: "GetTimer p = (Some x, p') \<Longrightarrow> \<exists>v. p' = p\<lparr>m_oCListP2PmsgPit := v\<rparr>"
  by (auto simp: GetTimer_def split: list.splits)

lemma put_by_at [simp]: "r_at (put_by self x b r) = r_at r"
  by (simp add: put_by_def signalled_def split: prod.splits)

lemma put_by_other_armed:
  assumes "self \<noteq> m_nThreadId (r_pump r)" "wake_armed r"
  shows "wake_armed (put_by self x b r)"
  using assms by (auto simp: wake_armed_def put_by_def signalled_def PutP2Pmsg_def Wakeup_def Let_def)

lemma put_by_own_armed:
  assumes "r_at r \<noteq> Waiting" "wake_armed r"
  shows "wake_armed (put_by self x b r)"
  using assms by (auto simp: wake_armed_def put_by_def signalled_def PutP2Pmsg_def Wakeup_def Let_def)

lemma pump_step_armed: "pump_step r r' \<Longrightarrow> wake_armed r \<Longrightarrow> r_at r \<noteq> Handling Waiting \<Longrightarrow> wake_armed r'"
proof (induction rule: pump_step.induct)
  case (other_posts self r x b)
  then show ?case by (simp add: put_by_other_armed)
next
  case (own_posts r a x b)
  then show ?case by (auto intro: put_by_own_armed)
next
  case (timer r x p)
  then show ?case by (auto simp: wake_armed_def dest: GetTimer_Some)
next
  case (top_message r x p)
  then show ?case by (auto simp: wake_armed_def dest!: pump_take_Some)
next
  case (top_nothing r p a)
  then show ?case by (auto simp: wake_armed_def dest!: pump_take_None)
next
  case (drain_message r n x p)
  then show ?case by (auto simp: wake_armed_def dest!: pump_take_Some)
next
  case (drain_nothing r n p)
  then show ?case by (auto simp: wake_armed_def dest!: pump_take_None)
next
  case (timed_out r)
  then show ?case by (auto simp: wake_armed_def)
qed (auto simp: wake_armed_def)

text \<open>No step hands over to \<open>Waiting\<close> after a handler.\<close>

fun waits_after :: "pump_at \<Rightarrow> bool" where
  "waits_after (Handling a) = (a = Waiting \<or> waits_after a)"
| "waits_after a = False"

lemma pump_step_not_waits_after: "pump_step r r' \<Longrightarrow> \<not> waits_after (r_at r) \<Longrightarrow> \<not> waits_after (r_at r')"
  by (induction rule: pump_step.induct) auto

lemma pump_run_armed: "pump_run r r' \<Longrightarrow> pump_started r \<Longrightarrow> wake_armed r' \<and> \<not> waits_after (r_at r')"
proof (induction rule: pump_run.induct)
  case (here r)
  then show ?case by (auto simp: pump_started_def wake_armed_def)
next
  case (further r r' r'')
  then have "wake_armed r'" "\<not> waits_after (r_at r')" by auto
  moreover from this have "r_at r' \<noteq> Handling Waiting" by auto
  ultimately show ?case using further.hyps by (auto intro: pump_step_armed dest: pump_step_not_waits_after)
qed

text \<open>
  C33: No wake is lost.  Whatever the other threads post between any two steps of a pump's loop, and whatever
  its own handlers post, the thread never waits with a message in its queue and no signal pending: coalescing
  the wakes of a burst into one does not leave a posted message behind a sleeping pump.
\<close>
theorem no_lost_wakeup:
  assumes "pump_started r" "pump_run r r'" "r_at r' = Waiting" "m_oCListP2Pmsg (r_pump r') \<noteq> []"
  shows "r_signals r' > 0"
  using pump_run_armed[OF assms(2,1)] assms(3,4) by (auto simp: wake_armed_def)

definition example_pump :: pump where
  "example_pump = (pump_new 8 1)\<lparr>m_hIOCP := True, m_hQueEvent := True\<rparr>"

definition plain_p2pmsg :: p2pmsg where
  "plain_p2pmsg = \<lparr>pm_pMsg = None, pm_pCon = None, iPitime = 0, iPitimeID = 0\<rparr>"

lemma example_pump_waits:
  "pump_run \<lparr>r_at = Idle, r_pump = example_pump, r_signals = 0\<rparr>
     (put_by 9 plain_p2pmsg False \<lparr>r_at = Waiting, r_pump = example_pump, r_signals = 0\<rparr>)"
proof -
  let ?r = "\<lparr>r_at = Idle, r_pump = example_pump, r_signals = 0\<rparr>"
  have 1: "pump_step ?r \<lparr>r_at = Top, r_pump = example_pump, r_signals = 0\<rparr>"
    using enter[of ?r] by simp
  have 2: "pump_step \<lparr>r_at = Top, r_pump = example_pump, r_signals = 0\<rparr> \<lparr>r_at = Waiting, r_pump = example_pump, r_signals = 0\<rparr>"
    using top_nothing[of "\<lparr>r_at = Top, r_pump = example_pump, r_signals = 0\<rparr>" example_pump Waiting]
    by (simp add: example_pump_def pump_new_def pump_take_def GetP2Pmsg_def)
  show ?thesis
    by (rule further[OF further[OF further[OF here 1] 2] other_posts]) (simp add: example_pump_def pump_new_def)
qed

theorem no_lost_wakeup_witness:
  "r_signals (put_by 9 plain_p2pmsg False \<lparr>r_at = Waiting, r_pump = example_pump, r_signals = 0\<rparr>) > 0"
  by (rule no_lost_wakeup[OF _ example_pump_waits])
    (simp_all add: pump_started_def example_pump_def pump_new_def put_by_def signalled_def PutP2Pmsg_def Wakeup_def Let_def)


subsection \<open>Timer identifiers\<close>

lemma timer_id_inj: "timer_id t a = timer_id t b \<longleftrightarrow> a = b"
proof -
  have "ucast (ucast x :: 32 word) = x" for x :: "16 word" by (rule ucast_up_ucast_id) (simp add: is_up)
  then have "(ucast a :: 32 word) = ucast b \<longleftrightarrow> a = b" by metis
  then show ?thesis by (simp add: timer_id_def)
qed

lemma MakeTimerID_Some:
  "MakeTimerID t pit c = Some (i, n) \<Longrightarrow> i \<notin> set (map iPitimeID pit) \<and> i = timer_id t (n - 1)"
proof -
  assume "MakeTimerID t pit c = Some (i, n)"
  then have "fst (i, n) \<notin> set (map iPitimeID pit) \<and> fst (i, n) = timer_id t (snd (i, n) - 1)"
    by (rule MakeTimerID.raw_induct
          [where P = "\<lambda>t pit c r. fst r \<notin> set (map iPitimeID pit) \<and> fst r = timer_id t (snd r - 1)", rotated])
      (auto simp del: set_map split: if_splits)
  then show ?thesis by auto
qed

lemma MakeTimerID_steps:
  assumes "timer_id t (c + of_nat k) \<notin> set (map iPitimeID pit)"
  shows "MakeTimerID t pit c \<noteq> None"
  using assms
proof (induction k arbitrary: c)
  case 0
  then show ?case by (subst MakeTimerID.simps) (simp del: set_map)
next
  case (Suc k)
  then have "timer_id t ((c + 1) + of_nat k) \<notin> set (map iPitimeID pit)" by (simp add: add.assoc)
  then have "MakeTimerID t pit (c + 1) \<noteq> None" by (rule Suc.IH)
  then show ?case by (subst MakeTimerID.simps) (simp del: set_map)
qed

lemma MakeTimerID_ends:
  assumes "length pit < 65536"
  shows "\<exists>i n. MakeTimerID t pit c = Some (i, n)"
proof -
  have "card (range (timer_id t)) = 65536"
    by (subst card_image) (auto intro: injI simp: timer_id_inj card_word)
  moreover have "card (set (map iPitimeID pit)) < 65536"
    using assms card_length[of "map iPitimeID pit"] by simp
  ultimately have "\<not> range (timer_id t) \<subseteq> set (map iPitimeID pit)"
    by (metis List.finite_set card_mono not_le)
  then obtain d where d: "timer_id t d \<notin> set (map iPitimeID pit)" by blast
  have "c + of_nat (unat (d - c)) = d" by simp
  with d have "MakeTimerID t pit c \<noteq> None" by (metis MakeTimerID_steps)
  then show ?thesis by auto
qed


text \<open>
  Arming a timer ends, whatever timers are pending: the search for a free identifier stops because the
  limit on pending timers is below the number of identifiers.  The identifier is none of the pump's pending
  timers', and a refused timer changes nothing.
\<close>
theorem SetP2PmsgTimer_ends:
  "case SetP2PmsgTimer after_null now t pCon d s of
     None \<Rightarrow> False
   | Some (Inl e, s') \<Rightarrow> s' = s
   | Some (Inr i, s') \<Rightarrow> (\<exists>p. s_ThreadID_P2PmsgPump s t = Some p \<and> i \<notin> set (map iPitimeID (m_oCListP2PmsgPit p)))"
proof (cases "s_ThreadID_P2PmsgPump s t")
  case None
  then show ?thesis by (simp add: SetP2PmsgTimer_def)
next
  case (Some p)
  show ?thesis
  proof (cases "length (m_oCListP2PmsgPit p) > 1024")
    case True
    with Some show ?thesis by (simp add: SetP2PmsgTimer_def)
  next
    case False
    then obtain i n where "MakeTimerID (m_nThreadId p) (m_oCListP2PmsgPit p) (m_nPitimeID p) = Some (i, n)"
      using MakeTimerID_ends[of "m_oCListP2PmsgPit p" "m_nThreadId p" "m_nPitimeID p"] by auto
    moreover from this have "i \<notin> set (map iPitimeID (m_oCListP2PmsgPit p))" by (blast dest: MakeTimerID_Some)
    ultimately show ?thesis using Some False by (simp add: SetP2PmsgTimer_def SetTimer_def)
  qed
qed

subsection \<open>The order of the timers\<close>

lemma SetP2PmsgTimer_Inr:
  assumes "SetP2PmsgTimer after_null now t pCon d s = Some (Inr i, s')" "s_ThreadID_P2PmsgPump s t = Some p"
  shows "\<exists>n x. MakeTimerID (m_nThreadId p) (m_oCListP2PmsgPit p) (m_nPitimeID p) = Some (i, n) \<and>
    x = \<lparr>pm_pMsg = None, pm_pCon = pCon, iPitime = now * 1000 + d, iPitimeID = i\<rparr> \<and>
    s' = to_pump t (p\<lparr>m_nPitimeID := n,
      m_oCListP2PmsgPit := timer_walk after_null (rev (m_oCListP2PmsgPit p)) x []\<rparr>) (P2PmsgFactory s)"
  using assms by (auto simp: SetP2PmsgTimer_def SetTimer_def split: if_splits option.splits prod.splits)

lemma timer_walk_later:
  "\<forall>y\<in>set b. iPitime x < iPitime y \<Longrightarrow>
   timer_walk after_null (rev b @ r) x passed = timer_walk after_null r x (b @ passed)"
  by (induction b arbitrary: passed rule: rev_induct) auto

text \<open>
  Where a timer is put.  Behind all timers that are due later, the walk stops at the last one that is due
  no later, and unless that is the first it puts the new timer in front of it: the earlier timer now waits
  behind the later one, and is handled only when that is due.
\<close>
theorem timer_put_before_an_earlier:
  assumes "s_ThreadID_P2PmsgPump s t = Some p" "m_oCListP2PmsgPit p = a @ x # b" "a \<noteq> []"
    and "iPitime x \<le> now * 1000 + d" "\<forall>y\<in>set b. now * 1000 + d < iPitime y"
    and "SetP2PmsgTimer after_null now t pCon d s = Some (Inr i, s')"
  shows "\<exists>p' y. s_ThreadID_P2PmsgPump s' t = Some p' \<and> m_oCListP2PmsgPit p' = a @ y # x # b \<and>
    iPitimeID y = i \<and> iPitime y = now * 1000 + d \<and>
    PollTimer now (p'\<lparr>m_oCListP2PmsgPit := drop (length a) (m_oCListP2PmsgPit p')\<rparr>) = d"
proof -
  from SetP2PmsgTimer_Inr[OF assms(6,1)] obtain n y where y:
    "y = \<lparr>pm_pMsg = None, pm_pCon = pCon, iPitime = now * 1000 + d, iPitimeID = i\<rparr>"
    "s' = to_pump t (p\<lparr>m_nPitimeID := n,
      m_oCListP2PmsgPit := timer_walk after_null (rev (m_oCListP2PmsgPit p)) y []\<rparr>) (P2PmsgFactory s)"
    by blast
  have "timer_walk after_null (rev (m_oCListP2PmsgPit p)) y [] = a @ y # x # b"
    using assms(2-5) timer_walk_later[of b y after_null "x # rev a" "[]"] by (simp add: y(1))
  then show ?thesis by (simp add: y to_pump_def P2PmsgFactory_def PollTimer_def)
qed

definition at_time :: "int \<Rightarrow> 32 word \<Rightarrow> p2pmsg" where
  "at_time d i = plain_p2pmsg\<lparr>iPitime := d, iPitimeID := i\<rparr>"

definition ping :: peer_msg where
  "ping = \<lparr>m_name = [80], m_prefix = \<lparr>eType = 0, nSourceID = 0, dwAddrTag = 0, nDestinID = 0, nMsg = 0, uiCtrl = 0,
     ucPriority = 0, uiState = 0, uiP2Pexpump = 0\<rparr>, m_net = None, m_msg = None, m_wrp = None, m_evt = None\<rparr>"

definition one_pump :: "pump \<Rightarrow> process" where
  "one_pump p = \<lparr>s_ThreadID_P2PmsgPump = [m_nThreadId p \<mapsto> p], s_cP2Pmsg = 2, s_cP2PmsgHIGH = 37500, s_cP2PmsgLOW = 25000\<rparr>"

lemmas run_timer = at_time_def plain_p2pmsg_def one_pump_def example_pump_def pump_new_def SetP2PmsgTimer_def
  SetTimer_def MakeTimerID.simps timer_id_def to_pump_def P2PmsgFactory_def

theorem timer_put_before_an_earlier_witness:
  "\<exists>p' y. s_ThreadID_P2PmsgPump (snd (the (SetP2PmsgTimer (\<lambda>x v. v @ [x]) 0 8 None 30
       (one_pump (example_pump\<lparr>m_oCListP2PmsgPit := [at_time 10 1, at_time 20 2]\<rparr>))))) 8 = Some p' \<and>
     m_oCListP2PmsgPit p' = [at_time 10 1] @ y # at_time 20 2 # [] \<and> iPitimeID y = 0x800 \<and> iPitime y = 0 * 1000 + 30 \<and>
     PollTimer 0 (p'\<lparr>m_oCListP2PmsgPit := drop (length [at_time 10 1]) (m_oCListP2PmsgPit p')\<rparr>) = 30"
  by (rule timer_put_before_an_earlier[where p = "example_pump\<lparr>m_oCListP2PmsgPit := [at_time 10 1, at_time 20 2]\<rparr>"
        and s = "one_pump (example_pump\<lparr>m_oCListP2PmsgPit := [at_time 10 1, at_time 20 2]\<rparr>)" and pCon = None
        and after_null = "\<lambda>x v. v @ [x]"])
    (simp_all add: run_timer)


subsection \<open>Cancelling a timer\<close>

text \<open>What the list class promises of an insertion at a null position: the element is in, the others stay.\<close>

definition inserts :: "(p2pmsg \<Rightarrow> p2pmsg list \<Rightarrow> p2pmsg list) \<Rightarrow> bool" where
  "inserts after_null \<longleftrightarrow> (\<forall>x v. \<exists>a b. v = a @ b \<and> after_null x v = a @ x # b)"

lemma timer_walk_inserts:
  assumes "inserts after_null"
  shows "\<exists>a b. rev r @ passed = a @ b \<and> timer_walk after_null r x passed = a @ x # b"
proof (induction r arbitrary: passed)
  case Nil
  show ?case by (rule exI[of _ "[]"]) simp
next
  case (Cons y r)
  consider "iPitime y \<le> iPitime x" "r = []" | "iPitime y \<le> iPitime x" "r \<noteq> []" | "\<not> iPitime y \<le> iPitime x" by blast
  then show ?case
  proof cases
    case 1
    then show ?thesis using assms by (simp add: inserts_def)
  next
    case 2
    then show ?thesis by (intro exI[of _ "rev r"] exI[of _ "y # passed"]) simp
  next
    case 3
    then show ?thesis using Cons.IH[of "y # passed"] by simp
  qed
qed

lemma kill_timer_at: "iPitimeID x = i \<Longrightarrow> i \<notin> set (map iPitimeID a) \<Longrightarrow> kill_timer i (a @ x # b) = (Some x, a @ b)"
  by (induction a) auto

lemma kill_timer_absent: "i \<notin> set (map iPitimeID v) \<Longrightarrow> kill_timer i v = (None, v)"
  by (induction v) auto

lemma unat_ucast_16_32: "unat (ucast c :: 32 word) = unat (c :: 16 word)"
proof -
  have "unat c < 2 ^ 16" using unsigned_less[of c] by simp
  then show ?thesis by (simp add: unsigned_ucast_eq take_bit_nat_eq_self)
qed

lemma timer_id_unat:
  assumes "t < 0xFFFF00"
  shows "unat (timer_id t c) = unat t * 256 + unat c"
proof -
  have "unat t < 0xFFFF00" "unat c < 65536" using assms unsigned_less[of c] by (simp_all add: word_less_nat_alt)
  then show ?thesis by (simp add: timer_id_def unat_word_ariths unat_ucast_16_32)
qed

lemma timer_id_div:
  assumes "t < 0xFFFF00"
  shows "timer_id t c div 0x100 = t + ucast (c div 0x100)"
proof -
  have t: "unat t < 0xFFFF00" using assms by (simp add: word_less_nat_alt)
  have c: "unat c < 65536" using unsigned_less[of c] by simp
  have "unat (timer_id t c div 0x100) = unat t + unat c div 256"
    using timer_id_unat[OF assms, of c] by (simp add: unat_div)
  also have "\<dots> = unat (t + ucast (c div 0x100))"
    using t c by (simp add: unat_word_ariths unat_ucast_16_32 unat_div)
  finally show ?thesis by (simp add: word_unat_eq_iff)
qed

lemma timer_id_nonzero: "t < 0xFFFF00 \<Longrightarrow> 0 < t \<Longrightarrow> timer_id t c \<noteq> 0"
proof
  assume a: "t < 0xFFFF00" "0 < t" "timer_id t c = 0"
  then have "unat t * 256 + unat c = 0" using timer_id_unat[OF a(1), of c] by simp
  then show False using a(2) by (simp add: word_less_nat_alt)
qed

text \<open>A timer that was set is in the table of its pump, once, under an identifier that names a thread.\<close>

lemma new_timer:
  assumes "inserts after_null" "s_ThreadID_P2PmsgPump s t = Some p" "m_nThreadId p = t" "t < 0xFFFF00"
    and "SetP2PmsgTimer after_null now t pCon d s = Some (Inr i, s')"
  shows "\<exists>q x. s' = to_pump t q (P2PmsgFactory s) \<and> KillTimer i q = (Some x, p\<lparr>m_nPitimeID := m_nPitimeID q\<rparr>) \<and> pm_pCon x = pCon \<and>
    i div 0x100 = t + ucast ((m_nPitimeID q - 1) div 0x100) \<and> (0 < t \<longrightarrow> i \<noteq> 0)"
proof -
  from SetP2PmsgTimer_Inr[OF assms(5,2)] obtain n x where x:
    "MakeTimerID (m_nThreadId p) (m_oCListP2PmsgPit p) (m_nPitimeID p) = Some (i, n)"
    "x = \<lparr>pm_pMsg = None, pm_pCon = pCon, iPitime = now * 1000 + d, iPitimeID = i\<rparr>"
    "s' = to_pump t (p\<lparr>m_nPitimeID := n,
      m_oCListP2PmsgPit := timer_walk after_null (rev (m_oCListP2PmsgPit p)) x []\<rparr>) (P2PmsgFactory s)"
    by blast
  from MakeTimerID_Some[OF x(1)] assms(3) have i: "i \<notin> set (map iPitimeID (m_oCListP2PmsgPit p))" "i = timer_id t (n - 1)"
    by auto
  obtain a b where ab: "m_oCListP2PmsgPit p = a @ b" "timer_walk after_null (rev (m_oCListP2PmsgPit p)) x [] = a @ x # b"
    using timer_walk_inserts[OF assms(1), of "rev (m_oCListP2PmsgPit p)" "[]" x] by auto
  have "kill_timer i (a @ x # b) = (Some x, a @ b)" using i(1) ab(1) by (intro kill_timer_at) (simp_all add: x(2))
  then have k: "KillTimer i (p\<lparr>m_nPitimeID := n, m_oCListP2PmsgPit := a @ x # b\<rparr>) = (Some x, p\<lparr>m_nPitimeID := n, m_oCListP2PmsgPit := a @ b\<rparr>)"
    by (simp add: KillTimer_def)
  have same: "p\<lparr>m_nPitimeID := n, m_oCListP2PmsgPit := a @ b\<rparr> = p\<lparr>m_nPitimeID := n\<rparr>" unfolding ab(1)[symmetric] by simp
  show ?thesis
    using k[unfolded same] i(2) timer_id_div[OF assms(4)] timer_id_nonzero[OF assms(4)] x(2,3) ab(2)
    by (intro exI[of _ "p\<lparr>m_nPitimeID := n, m_oCListP2PmsgPit := a @ x # b\<rparr>"] exI[of _ x]) simp
qed

text \<open>Identifiers from the 257th on name another thread.\<close>

lemma late_timer: "\<not> c < 0x100 \<Longrightarrow> t + ucast (c div 0x100 :: 16 word) \<noteq> (t :: 32 word)"
proof -
  assume "\<not> c < 0x100"
  then have "\<not> unat c < 256" by (simp add: word_less_nat_alt)
  moreover have "unat c < 65536" using unsigned_less[of c] by simp
  ultimately have "unat (ucast (c div 0x100) :: 32 word) \<noteq> 0" by (simp add: unat_ucast_16_32 unat_div)
  then have "ucast (c div 0x100) \<noteq> (0 :: 32 word)" by (metis unat_0)
  then show ?thesis by simp
qed

lemma early_timer: "c < 0x100 \<Longrightarrow> t + ucast (c div 0x100 :: 16 word) = (t :: 32 word)"
proof -
  assume "c < 0x100"
  then have "c div 0x100 = 0" by (simp add: word_arith_nat_div unat_div word_less_nat_alt)
  then show ?thesis by simp
qed

text \<open>
  Cancelling a timer finds its pump by the identifier's upper part.  That is the pump's thread only while
  the pump's counter was below 256 when the identifier was made: then the cancellation takes exactly this
  timer out and gives back its place in the budget.  Later identifiers belong to another thread number, and if
  no pump runs there the cancellation fails as if the timer's pump had not been started, and the timer stays.
\<close>
theorem KillP2PmsgTimer_finds_the_first_256:
  assumes "inserts after_null" "s_ThreadID_P2PmsgPump s t = Some p" "m_nThreadId p = t" "t < 0xFFFF00"
    and "SetP2PmsgTimer after_null now t pCon d s = Some (Inr i, s')"
    and "s_ThreadID_P2PmsgPump s' t = Some p'"
  shows "(if m_nPitimeID p' - 1 < 0x100 then KillP2PmsgTimer i s' = (Inr 0, to_pump t (p\<lparr>m_nPitimeID := m_nPitimeID p'\<rparr>) s)
     else s_ThreadID_P2PmsgPump s (t + ucast ((m_nPitimeID p' - 1) div 0x100)) = None \<longrightarrow>
       KillP2PmsgTimer i s' = (Inl PumpNotStarted, s'))"
proof -
  from new_timer[OF assms(1-5)] obtain q x where q: "s' = to_pump t q (P2PmsgFactory s)"
    "KillTimer i q = (Some x, p\<lparr>m_nPitimeID := m_nPitimeID q\<rparr>)" "i div 0x100 = t + ucast ((m_nPitimeID q - 1) div 0x100)"
    by blast
  have n: "m_nPitimeID p' = m_nPitimeID q" using assms(6) by (simp add: q(1) to_pump_def)
  show ?thesis
  proof (cases "m_nPitimeID q - 1 < 0x100")
    case True
    then have "i div 0x100 = t" using q(3) early_timer by simp
    then show ?thesis using True q(2)
      by (simp add: KillP2PmsgTimer_def q(1) n to_pump_def P2PmsgFactory_def ReleaseP2Pmsg_def)
  next
    case False
    then show ?thesis using late_timer[OF False, of t]
      by (auto simp: KillP2PmsgTimer_def q(3) n) (simp_all add: q(1) to_pump_def P2PmsgFactory_def)
  qed
qed

lemma inserts_at_end: "inserts (\<lambda>x v. v @ [x])"
  unfolding inserts_def by (metis append.right_neutral)

theorem KillP2PmsgTimer_finds_the_first_256_witness:
  "KillP2PmsgTimer 0x900 (snd (the (SetP2PmsgTimer (\<lambda>x v. v @ [x]) 0 8 None 30 (one_pump (example_pump\<lparr>m_nPitimeID := 0x100\<rparr>))))) =
     (Inl PumpNotStarted, snd (the (SetP2PmsgTimer (\<lambda>x v. v @ [x]) 0 8 None 30 (one_pump (example_pump\<lparr>m_nPitimeID := 0x100\<rparr>)))))"
proof -
  let ?s = "one_pump (example_pump\<lparr>m_nPitimeID := 0x100\<rparr>)"
  let ?r = "the (SetP2PmsgTimer (\<lambda>x v. v @ [x]) 0 8 None 30 ?s)"
  have "SetP2PmsgTimer (\<lambda>x v. v @ [x]) 0 8 None 30 ?s = Some (Inr 0x900, snd ?r)" by (simp add: run_timer)
  moreover obtain p' where "s_ThreadID_P2PmsgPump (snd ?r) 8 = Some p'" "m_nPitimeID p' = 0x101" by (simp add: run_timer)
  moreover have "s_ThreadID_P2PmsgPump ?s 8 = Some (example_pump\<lparr>m_nPitimeID := 0x100\<rparr>)" by (simp add: run_timer)
  moreover have "s_ThreadID_P2PmsgPump ?s 9 = None" by (simp add: run_timer)
  ultimately show ?thesis
    using KillP2PmsgTimer_finds_the_first_256[OF inserts_at_end, where s = ?s and t = 8
          and p = "example_pump\<lparr>m_nPitimeID := 0x100\<rparr>" and now = 0 and pCon = None and d = 30 and i = "0x900"
          and s' = "snd ?r" and p' = p']
    by (simp add: example_pump_def pump_new_def)
qed


subsection \<open>The batch and the budget\<close>

text \<open>Posting one by one until the first failure; the pump is signalled if any of the posts signals it.\<close>

fun post_each :: "32 word \<Rightarrow> 32 word \<Rightarrow> peer_msg list \<Rightarrow> bool \<Rightarrow> process \<Rightarrow> posting" where
  "post_each self nPumpID [] w s = ((None, w), s)"
| "post_each self nPumpID (m # ms) w s =
     (case PostP2Pmsg self m nPumpID False s of
        ((Some e, w'), s') \<Rightarrow> ((Some e, w \<or> w'), s')
      | ((None, w'), s') \<Rightarrow> post_each self nPumpID ms (w \<or> w') s')"

definition crosses_hub :: "32 word \<Rightarrow> pump \<Rightarrow> process \<Rightarrow> bool" where
  "crosses_hub self p s \<longleftrightarrow>
     (case s_ThreadID_P2PmsgPump s self of None \<Rightarrow> False | Some this \<Rightarrow> m_nHubID this \<noteq> m_nHubID p)"

lemma PutP2Pmsg_keeps: "PutP2Pmsg self x b p = (w, p') \<Longrightarrow> m_nHubID p' = m_nHubID p \<and> m_nThreadId p' = m_nThreadId p"
  by (auto simp: PutP2Pmsg_def Let_def split: if_splits)

lemma post_batch_each:
  "s_ThreadID_P2PmsgPump s t = Some p \<Longrightarrow> \<not> crosses_hub self p s \<Longrightarrow>
   post_batch self t ms w p s = post_each self t (map the (filter (\<lambda>m. m \<noteq> None) ms)) w s"
proof (induction self t ms w p s rule: post_batch.induct)
  case (3 self t m ms w p s)
  obtain w' p' where put: "PutP2Pmsg self (p2pmsg_of (mark_posted m)) False p = (w', p')" by fastforce
  let ?s = "to_pump t p' (P2PmsgFactory s)"
  have "s_ThreadID_P2PmsgPump ?s t = Some p'" by (simp add: to_pump_def)
  moreover have "\<not> crosses_hub self p' ?s"
    using 3(3) PutP2Pmsg_keeps[OF put] by (auto simp: crosses_hub_def to_pump_def P2PmsgFactory_def split: option.splits)
  ultimately show ?case using 3 put by (simp add: PostP2Pmsg_def crosses_hub_def)
qed (auto simp: crosses_hub_def)

text \<open>
  The batch is its posts.  Posting a batch that holds a message has the outcome of posting its messages
  one after the other until the first failure: the same error, the same queues and budget, and the pump
  signalled when one of the single posts would have signalled it, although the pump is looked up and its lock
  taken only once.
\<close>
theorem PostP2PmsgBatch_is_its_posts:
  assumes "filter (\<lambda>m. m \<noteq> None) apMsg \<noteq> []"
  shows "PostP2PmsgBatch self apMsg t s = post_each self t (map the (filter (\<lambda>m. m \<noteq> None) apMsg)) False s"
proof -
  obtain m ms where f: "map the (filter (\<lambda>m. m \<noteq> None) apMsg) = m # ms"
    using assms by (cases "filter (\<lambda>m. m \<noteq> None) apMsg") auto
  have ne: "apMsg \<noteq> []" using assms by auto
  show ?thesis
  proof (cases "s_ThreadID_P2PmsgPump s t")
    case None
    then show ?thesis using ne f by (simp add: PostP2PmsgBatch_def PostP2Pmsg_def)
  next
    case (Some p)
    show ?thesis
    proof (cases "crosses_hub self p s")
      case True
      then show ?thesis using ne f Some by (simp add: PostP2PmsgBatch_def PostP2Pmsg_def crosses_hub_def)
    next
      case False
      then show ?thesis using ne Some post_batch_each[OF Some False, of apMsg False]
        by (simp add: PostP2PmsgBatch_def crosses_hub_def)
    qed
  qed
qed

theorem PostP2PmsgBatch_is_its_posts_witness:
  "PostP2PmsgBatch 8 [None, Some ping, Some ping] 8 (one_pump example_pump) =
   post_each 8 8 (map the (filter (\<lambda>m. m \<noteq> None) [None, Some ping, Some ping])) False (one_pump example_pump)"
  by (rule PostP2PmsgBatch_is_its_posts) simp

text \<open>
  The budget of live messages.  Posting never takes the count of live messages past one more than the
  limit, however long the batch: the count is compared with the limit before it is raised, so the message that
  finds exactly the limit is still taken, and from then on the queue is full and the process does not change.
\<close>
theorem budget_bounds_posts:
  assumes "s_cP2Pmsg s \<le> s_cP2PmsgMAX + 1"
  shows "s_cP2Pmsg (snd (PostP2PmsgBatch self apMsg t s)) \<le> s_cP2PmsgMAX + 1 \<and>
    (s_cP2Pmsg s = s_cP2PmsgMAX + 1 \<longrightarrow> snd (PostP2PmsgBatch self apMsg t s) = s)"
proof -
  have "s_cP2Pmsg s \<le> s_cP2PmsgMAX + 1 \<Longrightarrow>
    s_cP2Pmsg (snd (post_batch self t ms w p s)) \<le> s_cP2PmsgMAX + 1 \<and>
    (s_cP2Pmsg s = s_cP2PmsgMAX + 1 \<longrightarrow> snd (post_batch self t ms w p s) = s)" for ms w p s
  proof (induction self t ms w p s rule: post_batch.induct)
    case (3 self t m ms w p s)
    obtain w' p' where put: "PutP2Pmsg self (p2pmsg_of (mark_posted m)) False p = (w', p')" by fastforce
    have "\<not> s_cP2Pmsg s > s_cP2PmsgMAX \<Longrightarrow> s_cP2Pmsg s + 1 \<le> s_cP2PmsgMAX + 1"
      by (simp add: s_cP2PmsgMAX_def word_le_nat_alt word_less_nat_alt unat_word_ariths)
    moreover have "s_cP2PmsgMAX + 1 > s_cP2PmsgMAX" by (simp add: s_cP2PmsgMAX_def)
    moreover have "s_cP2Pmsg (to_pump t p' (P2PmsgFactory s)) = s_cP2Pmsg s + 1"
      by (simp add: to_pump_def P2PmsgFactory_def)
    ultimately show ?case using 3 put by auto
  qed auto
  then show ?thesis using assms by (auto simp: PostP2PmsgBatch_def split: option.splits)
qed

theorem budget_bounds_posts_witness:
  "s_cP2Pmsg (snd (PostP2PmsgBatch 8 [Some ping] 8 ((one_pump example_pump)\<lparr>s_cP2Pmsg := 50001\<rparr>))) \<le> s_cP2PmsgMAX + 1 \<and>
    (s_cP2Pmsg ((one_pump example_pump)\<lparr>s_cP2Pmsg := 50001\<rparr>) = s_cP2PmsgMAX + 1 \<longrightarrow>
     snd (PostP2PmsgBatch 8 [Some ping] 8 ((one_pump example_pump)\<lparr>s_cP2Pmsg := 50001\<rparr>)) =
       (one_pump example_pump)\<lparr>s_cP2Pmsg := 50001\<rparr>)"
  by (rule budget_bounds_posts) (simp add: s_cP2PmsgMAX_def)

end
