(* ===== verification/Targets.thy ===== *)
theory Targets
  imports Targetcore_Prelude
begin

text \<open>
  The hierarchy of targets, P2PeerTarget.cpp: a target keeps two lists of child targets, those asked before
  it (priority at most 0) and those asked after it, linked through the children themselves.

  The objects are a store of their linkage by address; a pointer is \<open>None\<close> for null.  A list in the store is
  described by \<open>seg\<close>: the chain of next pointers from a first one, with matching previous pointers.
\<close>

record tgt =
  m_pTargetParent :: "nat option"
  m_pTargetChildHi :: "nat option"
  m_pTargetChildLo :: "nat option"
  m_pTargetPrev :: "nat option"
  m_pTargetNext :: "nat option"
  m_nPriority :: int

type_synonym tgts = "nat \<Rightarrow> tgt"

datatype target_error = AlreadyRegistered | NotRegisteredHere

definition set_prev :: "nat \<Rightarrow> nat option \<Rightarrow> tgts \<Rightarrow> tgts" where
  "set_prev a v s = s(a := (s a)\<lparr>m_pTargetPrev := v\<rparr>)"
definition set_next :: "nat \<Rightarrow> nat option \<Rightarrow> tgts \<Rightarrow> tgts" where
  "set_next a v s = s(a := (s a)\<lparr>m_pTargetNext := v\<rparr>)"
definition set_hi :: "nat \<Rightarrow> nat option \<Rightarrow> tgts \<Rightarrow> tgts" where
  "set_hi a v s = s(a := (s a)\<lparr>m_pTargetChildHi := v\<rparr>)"
definition set_lo :: "nat \<Rightarrow> nat option \<Rightarrow> tgts \<Rightarrow> tgts" where
  "set_lo a v s = s(a := (s a)\<lparr>m_pTargetChildLo := v\<rparr>)"

lemmas store_defs = set_prev_def set_next_def set_hi_def set_lo_def

subsection \<open>Registration\<close>

text \<open>The loops of \<open>RegisterTarget\<close>, with \<open>pTargetNext\<close> and \<open>pTargetPrev\<close>; a cyclic list would not end them.\<close>

partial_function (option) hi_walk ::
  "tgts \<Rightarrow> int \<Rightarrow> nat option \<Rightarrow> nat option \<Rightarrow> nat option \<Rightarrow> (nat option \<times> nat option) option" where
  "hi_walk s nPriority pTarget pTargetNext pTargetPrev =
     (case pTarget of None \<Rightarrow> Some (pTargetNext, pTargetPrev)
      | Some a \<Rightarrow> if m_nPriority (s a) < nPriority then hi_walk s nPriority (m_pTargetNext (s a)) (m_pTargetNext (s a)) (Some a)
                  else Some (pTargetNext, pTargetPrev))"

partial_function (option) lo_walk ::
  "tgts \<Rightarrow> int \<Rightarrow> nat option \<Rightarrow> nat option \<Rightarrow> nat option \<Rightarrow> (nat option \<times> nat option) option" where
  "lo_walk s nPriority pTarget pTargetNext pTargetPrev =
     (case pTarget of None \<Rightarrow> Some (pTargetNext, pTargetPrev)
      | Some a \<Rightarrow> if m_nPriority (s a) > nPriority
                  then lo_walk s nPriority (m_pTargetNext (s a)) (m_pTargetNext (s a)) (m_pTargetPrev (s a))
                  else Some (pTargetNext, pTargetPrev))"

text \<open>The new child behind the front of a list, whose head is set by \<open>set_head\<close>.\<close>

definition link_child ::
  "(nat option \<Rightarrow> tgts \<Rightarrow> tgts) \<Rightarrow> nat \<Rightarrow> nat option \<Rightarrow> nat option \<Rightarrow> tgts \<Rightarrow> tgts" where
  "link_child set_head pTargetChild pTargetNext pTargetPrev s =
     (let s = (case pTargetNext of None \<Rightarrow> s | Some a \<Rightarrow> set_prev a (Some pTargetChild) s)
      in case pTargetPrev of None \<Rightarrow> set_head (Some pTargetChild) s | Some a \<Rightarrow> set_next a (Some pTargetChild) s)"

text \<open>
  In the list of low priority the child's previous pointer stays null, the source's statement there has no
  effect.  The answer is the error thrown or the store; \<open>None\<close> if a loop does not end.
\<close>

definition RegisterTarget :: "nat \<Rightarrow> nat \<Rightarrow> int \<Rightarrow> tgts \<Rightarrow> (target_error + tgts) option" where
  "RegisterTarget this pTargetChild nPriority s0 =
     (if m_pTargetParent (s0 pTargetChild) \<noteq> None then Some (Inl AlreadyRegistered)
      else let s = s0(pTargetChild := (s0 pTargetChild)\<lparr>m_pTargetParent := Some this, m_nPriority := nPriority,
                                        m_pTargetNext := None, m_pTargetPrev := None\<rparr>)
      in if nPriority \<le> 0
      then (case hi_walk s nPriority (m_pTargetChildHi (s this)) (m_pTargetChildHi (s this)) None of None \<Rightarrow> None
            | Some (n, p) \<Rightarrow> Some (Inr (link_child (set_hi this) pTargetChild n p (set_prev pTargetChild p (set_next pTargetChild n s)))))
      else (case lo_walk s nPriority (m_pTargetChildLo (s this)) (m_pTargetChildLo (s this)) None of None \<Rightarrow> None
            | Some (n, p) \<Rightarrow> Some (Inr (link_child (set_lo this) pTargetChild n p (set_next pTargetChild n s)))))"

definition RemoveTarget :: "nat \<Rightarrow> nat \<Rightarrow> tgts \<Rightarrow> target_error + tgts" where
  "RemoveTarget this pTargetChild s =
     (if m_pTargetParent (s pTargetChild) \<noteq> None \<and> m_pTargetParent (s pTargetChild) \<noteq> Some this then Inl NotRegisteredHere
      else let s = (if m_pTargetChildHi (s this) = Some pTargetChild then set_hi this (m_pTargetNext (s pTargetChild)) s else s);
               s = (if m_pTargetChildLo (s this) = Some pTargetChild then set_lo this (m_pTargetNext (s pTargetChild)) s else s);
               s = (case m_pTargetPrev (s pTargetChild) of None \<Rightarrow> s | Some a \<Rightarrow> set_next a (m_pTargetNext (s pTargetChild)) s);
               s = (case m_pTargetNext (s pTargetChild) of None \<Rightarrow> s | Some a \<Rightarrow> set_prev a (m_pTargetPrev (s pTargetChild)) s)
           in Inr (s(pTargetChild := (s pTargetChild)\<lparr>m_pTargetPrev := None, m_pTargetNext := None, m_pTargetParent := None\<rparr>)))"

subsection \<open>Lists in the store\<close>

fun seg :: "tgts \<Rightarrow> nat option \<Rightarrow> nat option \<Rightarrow> nat list \<Rightarrow> nat option \<Rightarrow> bool" where
  "seg s p f [] r \<longleftrightarrow> f = r"
| "seg s p f (x # xs) r \<longleftrightarrow> f = Some x \<and> m_pTargetPrev (s x) = p \<and> seg s (Some x) (m_pTargetNext (s x)) xs r"

fun forward :: "tgts \<Rightarrow> nat option \<Rightarrow> nat list \<Rightarrow> nat option \<Rightarrow> bool" where
  "forward s f [] r \<longleftrightarrow> f = r"
| "forward s f (x # xs) r \<longleftrightarrow> f = Some x \<and> forward s (m_pTargetNext (s x)) xs r"

definition last_or :: "nat option \<Rightarrow> nat list \<Rightarrow> nat option" where
  "last_or p xs = (if xs = [] then p else Some (last xs))"

definition first_or :: "nat option \<Rightarrow> nat list \<Rightarrow> nat option" where
  "first_or r xs = (case xs of [] \<Rightarrow> r | x # _ \<Rightarrow> Some x)"

lemma last_or_simps [simp]: "last_or p [] = p" "last_or p (x # xs) = last_or (Some x) xs" "last_or p (xs @ [x]) = Some x"
  by (simp_all add: last_or_def)

lemma first_or_simps [simp]: "first_or r [] = r" "first_or r (x # xs) = Some x"
  by (simp_all add: first_or_def)

lemma seg_first: "seg s p f xs r \<Longrightarrow> f = first_or r xs"
  by (cases xs) auto

lemma seg_append: "seg s p f (xs @ ys) r \<longleftrightarrow> seg s p f xs (first_or r ys) \<and> seg s (last_or p xs) (first_or r ys) ys r"
  by (induction xs arbitrary: p f) (auto dest: seg_first)

lemma seg_same:
  "(\<And>x. x \<in> set xs \<Longrightarrow> m_pTargetPrev (s' x) = m_pTargetPrev (s x) \<and> m_pTargetNext (s' x) = m_pTargetNext (s x)) \<Longrightarrow>
   seg s' p f xs r = seg s p f xs r"
  by (induction xs arbitrary: p f) auto

lemma forward_append: "forward s f (xs @ ys) r \<longleftrightarrow> (\<exists>m. forward s f xs m \<and> forward s m ys r)"
  by (induction xs arbitrary: f) auto

lemma seg_forward: "seg s p f xs r \<Longrightarrow> forward s f xs r"
  by (induction xs arbitrary: p f) auto

lemma forward_same:
  "(\<And>x. x \<in> set xs \<Longrightarrow> m_pTargetNext (s' x) = m_pTargetNext (s x)) \<Longrightarrow> forward s' f xs r = forward s f xs r"
  by (induction xs arbitrary: f) auto

text \<open>The two lists of a target: linked both ways, without repetition, of children that name it as parent.\<close>

definition hi_children :: "tgts \<Rightarrow> nat \<Rightarrow> nat list \<Rightarrow> bool" where
  "hi_children s this xs \<longleftrightarrow> seg s None (m_pTargetChildHi (s this)) xs None \<and> distinct (this # xs) \<and>
     (\<forall>x\<in>set xs. m_pTargetParent (s x) = Some this)"

definition lo_children :: "tgts \<Rightarrow> nat \<Rightarrow> nat list \<Rightarrow> bool" where
  "lo_children s this xs \<longleftrightarrow> seg s None (m_pTargetChildLo (s this)) xs None \<and> distinct (this # xs) \<and>
     (\<forall>x\<in>set xs. m_pTargetParent (s x) = Some this)"

text \<open>Where a list of priorities is cut by a new one.\<close>

abbreviation before_hi :: "tgts \<Rightarrow> int \<Rightarrow> nat list \<Rightarrow> nat list" where
  "before_hi s n \<equiv> takeWhile (\<lambda>x. m_nPriority (s x) < n)"
abbreviation after_hi :: "tgts \<Rightarrow> int \<Rightarrow> nat list \<Rightarrow> nat list" where
  "after_hi s n \<equiv> dropWhile (\<lambda>x. m_nPriority (s x) < n)"

lemma hi_walk_seg:
  "seg s p f xs None \<Longrightarrow> hi_walk s n f f p = Some (first_or None (after_hi s n xs), last_or p (before_hi s n xs))"
proof (induction xs arbitrary: p f)
  case Nil
  then show ?case by (simp add: hi_walk.simps)
next
  case (Cons x xs)
  then show ?case by (subst hi_walk.simps) auto
qed

lemma lo_walk_seg:
  "seg s p f (xs @ ys) None \<Longrightarrow> \<forall>x\<in>set xs. m_nPriority (s x) > n \<Longrightarrow>
   ys = [] \<or> \<not> m_nPriority (s (hd ys)) > n \<Longrightarrow>
   lo_walk s n f f q = Some (first_or None ys, if xs = [] then q else last_or p (butlast xs))"
proof (induction xs arbitrary: p f q)
  case Nil
  then show ?case by (cases ys) (auto simp: lo_walk.simps)
next
  case (Cons x xs)
  then show ?case by (subst lo_walk.simps) auto
qed


subsection \<open>Registration keeps the list of high priority\<close>

lemma seg_link:
  assumes seg: "seg s p f (xs @ ys) None" and d: "distinct (c # xs @ ys)"
    and s': "m_pTargetPrev (s' c) = last_or p xs" "m_pTargetNext (s' c) = first_or None ys"
      "\<And>x. x \<in> set (xs @ ys) \<Longrightarrow> m_pTargetPrev (s' x) = (if Some x = first_or None ys then Some c else m_pTargetPrev (s x))"
      "\<And>x. x \<in> set (xs @ ys) \<Longrightarrow> m_pTargetNext (s' x) = (if xs \<noteq> [] \<and> x = last xs then Some c else m_pTargetNext (s x))"
    and f': "f' = (if xs = [] then Some c else f)"
  shows "seg s' p f' (xs @ c # ys) None"
proof -
  have sx: "seg s p f xs (first_or None ys)" and sy: "seg s (last_or p xs) (first_or None ys) ys None"
    using seg by (simp_all add: seg_append)
  have l: "last xs \<in> set xs \<and> last xs \<notin> set ys" if "xs \<noteq> []"
    using that d by (metis disjoint_iff distinct.simps(2) distinct_append last_in_set)
  have "seg s' p f' xs (Some c)"
  proof (cases xs rule: rev_cases)
    case Nil
    then show ?thesis using f' by simp
  next
    case (snoc zs z)
    have "seg s' p f zs (Some z) = seg s p f zs (Some z)"
      using d s'(3,4) snoc by (intro seg_same) (cases ys; auto)
    moreover have "m_pTargetPrev (s' z) = m_pTargetPrev (s z)" "m_pTargetNext (s' z) = Some c"
      using d s'(3,4) snoc by (cases ys; auto)+
    ultimately show ?thesis using sx snoc f' by (simp add: seg_append)
  qed
  moreover have "seg s' (Some c) (first_or None ys) ys None"
  proof (cases ys)
    case Nil
    then show ?thesis by simp
  next
    case (Cons z zs)
    have "seg s' (Some z) (m_pTargetNext (s z)) zs None = seg s (Some z) (m_pTargetNext (s z)) zs None"
      using d l s'(3,4) Cons by (intro seg_same) auto
    moreover have "m_pTargetPrev (s' z) = Some c" "m_pTargetNext (s' z) = m_pTargetNext (s z)"
      using d l s'(3,4) Cons by auto
    ultimately show ?thesis using sy Cons by simp
  qed
  ultimately show ?thesis using s'(1,2) by (simp add: seg_append)
qed

lemma before_after_hi: "before_hi s n xs @ after_hi s n xs = xs"
  by simp

lemma seg_unlink:
  assumes "seg s p f xs (Some c)" "seg s (Some c) (first_or None ys) ys None" "distinct (c # xs @ ys)"
    and "\<And>x. x \<noteq> c \<Longrightarrow> m_pTargetNext (s' x) = (if last_or None xs = Some x then first_or None ys else m_pTargetNext (s x))"
    and "\<And>x. x \<noteq> c \<Longrightarrow> m_pTargetPrev (s' x) = (if first_or None ys = Some x then last_or p xs else m_pTargetPrev (s x))"
    and "f' = (if f = Some c then first_or None ys else f)"
  shows "seg s' p f' (xs @ ys) None"
proof -
  have "seg s' p f' xs (first_or None ys)"
  proof (cases xs rule: rev_cases)
    case Nil
    then show ?thesis using assms(1,6) by simp
  next
    case (snoc zs z)
    have z: "z \<noteq> c" "z \<notin> set zs" "z \<notin> set ys" using assms(3) snoc by auto
    have n: "first_or None ys \<noteq> Some x" if "x \<in> set xs" for x using that assms(3) by (cases ys) auto
    have zc: "x \<noteq> c \<and> x \<noteq> z \<and> first_or None ys \<noteq> Some x" if "x \<in> set zs" for x
      using that assms(3) snoc n[of x] z by auto
    have "seg s' p f zs (Some z) = seg s p f zs (Some z)"
      using snoc by (intro seg_same) (auto dest!: zc simp: assms(4,5))
    moreover have "f \<noteq> Some c" using assms(1,3) snoc by (cases zs) auto
    ultimately show ?thesis using assms(1,4-6) snoc z n by (simp add: seg_append)
  qed
  moreover have "seg s' (last_or p xs) (first_or None ys) ys None"
  proof (cases ys)
    case Nil
    then show ?thesis by simp
  next
    case (Cons z zs)
    have l: "last_or None xs \<noteq> Some x" if "x \<in> set ys" for x
      using that assms(3) last_in_set[of xs] by (auto simp: last_or_def disjoint_iff split: if_splits)
    have z: "z \<noteq> c" "z \<notin> set zs" "c \<notin> set zs" using assms(3) Cons by auto
    have "seg s' (Some z) (m_pTargetNext (s z)) zs None = seg s (Some z) (m_pTargetNext (s z)) zs None"
    proof (rule seg_same)
      fix x assume x: "x \<in> set zs"
      then have "x \<noteq> c" "x \<noteq> z" using z by auto
      then show "m_pTargetPrev (s' x) = m_pTargetPrev (s x) \<and> m_pTargetNext (s' x) = m_pTargetNext (s x)"
        using Cons x l[of x] by (simp add: assms(4,5))
    qed
    then show ?thesis using assms(2,4,5) Cons z l by simp
  qed
  ultimately show ?thesis by (simp add: seg_append)
qed

lemma sorted_cut:
  fixes g :: "nat \<Rightarrow> int"
  assumes "sorted (map g xs)" "g c = n"
  shows "sorted (map g (takeWhile (\<lambda>x. g x < n) xs @ c # dropWhile (\<lambda>x. g x < n) xs))"
proof -
  let ?a = "takeWhile (\<lambda>x. g x < n) xs" and ?b = "dropWhile (\<lambda>x. g x < n) xs"
  have s: "sorted (map g (?a @ ?b))" using assms(1) by simp
  have "\<forall>x\<in>set ?a. g x < n" by (auto dest: set_takeWhileD)
  moreover have "\<forall>x\<in>set ?b. n \<le> g x"
  proof (cases ?b)
    case (Cons z zs)
    then have "n \<le> g z" using hd_dropWhile[of "\<lambda>x. g x < n" xs] by auto
    then show ?thesis using s Cons by (auto simp: sorted_append)
  qed (metis empty_iff list.set(1))
  ultimately show ?thesis using s assms(2) by (fastforce simp: sorted_append simp del: takeWhile_dropWhile_id)
qed

lemma link_child_fields:
  assumes "c \<noteq> this" "n \<noteq> Some c" "p \<noteq> Some c" "n \<noteq> Some this" "p \<noteq> Some this"
    and "set_head = set_hi this \<or> set_head = set_lo this"
  shows "m_pTargetNext (link_child set_head c n p s x) = (if p = Some x then Some c else m_pTargetNext (s x))"
    and "m_pTargetPrev (link_child set_head c n p s x) = (if n = Some x then Some c else m_pTargetPrev (s x))"
    and "m_pTargetParent (link_child set_head c n p s x) = m_pTargetParent (s x)"
    and "m_nPriority (link_child set_head c n p s x) = m_nPriority (s x)"
    and "m_pTargetChildHi (link_child (set_hi this) c n p s x) =
      (if p = None \<and> x = this then Some c else m_pTargetChildHi (s x))"
    and "m_pTargetChildLo (link_child (set_lo this) c n p s x) =
      (if p = None \<and> x = this then Some c else m_pTargetChildLo (s x))"
  using assms by (auto simp: link_child_def Let_def store_defs split: option.splits)

text \<open>
  C35: Registration before the parent.  A child of priority at most 0 is put behind the children of lower
  priority and before the others, so the children stay in ascending order with the latest first among equals,
  and the list stays linked both ways; the walk that finds the place ends.  This is the order of the code, and
  the reverse of the documented one: messages are offered from the head of the list, so a child of priority -2
  is asked before one of -1, where the comments at RegisterTarget and at the walk of On_P2PeerMsg say that -1
  comes before -231 and -2, and examples.md that a lower value comes later.
\<close>
theorem RegisterTarget_hi_inserts:
  assumes "hi_children s this xs" "sorted (map (m_nPriority \<circ> s) xs)" "c \<notin> set (this # xs)"
    and "m_pTargetParent (s c) = None" "n \<le> 0"
  shows "\<exists>s'. RegisterTarget this c n s = Some (Inr s') \<and> hi_children s' this (before_hi s n xs @ c # after_hi s n xs) \<and>
    m_nPriority (s' c) = n \<and> sorted (map (m_nPriority \<circ> s') (before_hi s n xs @ c # after_hi s n xs))"
proof -
  let ?a = "before_hi s n xs" and ?b = "after_hi s n xs"
  let ?n = "first_or None ?b" and ?p = "last_or None ?a"
  define s1 where "s1 = s(c := (s c)\<lparr>m_pTargetParent := Some this, m_nPriority := n, m_pTargetNext := None, m_pTargetPrev := None\<rparr>)"
  have "seg s1 None (m_pTargetChildHi (s1 this)) xs None = seg s None (m_pTargetChildHi (s1 this)) xs None"
    using assms(3) by (intro seg_same) (auto simp: s1_def)
  then have seg1: "seg s1 None (m_pTargetChildHi (s1 this)) xs None"
    using assms(1,3) by (auto simp: hi_children_def s1_def)
  have cut: "before_hi s1 n xs = ?a" "after_hi s1 n xs = ?b"
    using assms(3) by (auto simp: s1_def intro!: takeWhile_cong dropWhile_cong)
  define s2 where "s2 = set_prev c ?p (set_next c ?n s1)"
  define s3 where "s3 = link_child (set_hi this) c ?n ?p s2"
  have reg: "RegisterTarget this c n s = Some (Inr s3)"
    using assms(4,5) hi_walk_seg[OF seg1, of n] cut
    by (simp add: RegisterTarget_def Let_def s1_def[symmetric] s2_def[symmetric] s3_def[symmetric])
  have mem: "set ?a \<union> set ?b = set xs" by (metis before_after_hi set_append)
  have n: "?n \<noteq> Some c" "?n \<noteq> Some this"
    using assms(1,3) mem by (cases ?b; auto simp: hi_children_def)+
  have p: "?p \<noteq> Some c" "?p \<noteq> Some this"
    using assms(1,3) mem by (cases ?a rule: rev_cases; auto simp: hi_children_def)+
  have ct: "c \<noteq> this" using assms(3) by auto
  note f = link_child_fields[OF ct n(1) p(1) n(2) p(2), of "set_hi this" s2, simplified, folded s3_def]
  have d: "distinct (c # ?a @ ?b)" "distinct (this # xs)" using assms(1,3) by (auto simp: hi_children_def)
  have "seg s3 None (m_pTargetChildHi (s3 this)) (?a @ c # ?b) None"
  proof (rule seg_link)
    show "seg s1 None (m_pTargetChildHi (s1 this)) (?a @ ?b) None" using seg1 by simp
    show "distinct (c # ?a @ ?b)" by (rule d(1))
    show "m_pTargetPrev (s3 c) = ?p" "m_pTargetNext (s3 c) = ?n"
      using n p by (simp_all add: f s2_def store_defs)
    fix x assume "x \<in> set (?a @ ?b)"
    then have xc: "x \<noteq> c" using d(1) by auto
    show "m_pTargetPrev (s3 x) = (if Some x = ?n then Some c else m_pTargetPrev (s1 x))"
      using xc by (auto simp: f s2_def store_defs)
    show "m_pTargetNext (s3 x) = (if ?a \<noteq> [] \<and> x = last ?a then Some c else m_pTargetNext (s1 x))"
      using xc by (auto simp: f s2_def store_defs last_or_def)
  next
    show "m_pTargetChildHi (s3 this) = (if ?a = [] then Some c else m_pTargetChildHi (s1 this))"
      using ct by (auto simp: f s2_def store_defs last_or_def)
  qed
  moreover have "\<forall>x\<in>set (?a @ c # ?b). m_pTargetParent (s3 x) = Some this"
    using assms(1) mem by (auto simp: f s2_def store_defs s1_def hi_children_def)
  moreover have "distinct (?a @ ?b)" "this \<notin> set xs" using assms(1) by (simp_all add: hi_children_def)
  then have "distinct (this # ?a @ c # ?b)" using assms(3) mem by (auto simp del: takeWhile_dropWhile_id)
  ultimately have "hi_children s3 this (?a @ c # ?b)" by (simp add: hi_children_def)
  moreover have pri: "m_nPriority (s3 x) = (if x = c then n else m_nPriority (s x))" for x
    by (simp add: f s2_def store_defs s1_def)
  moreover have "sorted (map (m_nPriority \<circ> s3) (?a @ c # ?b))"
  proof -
    have "map (m_nPriority \<circ> s3) xs = map (m_nPriority \<circ> s) xs" using assms(3) by (auto simp: pri)
    then have "sorted (map (m_nPriority \<circ> s3) xs)" using assms(2) by metis
    moreover have "takeWhile (\<lambda>x. (m_nPriority \<circ> s3) x < n) xs = ?a" "dropWhile (\<lambda>x. (m_nPriority \<circ> s3) x < n) xs = ?b"
      using assms(3) by (auto simp: pri intro!: takeWhile_cong dropWhile_cong)
    moreover have "(m_nPriority \<circ> s3) c = n" by (simp add: pri)
    ultimately show ?thesis using sorted_cut[where g = "m_nPriority \<circ> s3" and xs = xs and n = n and c = c] by metis
  qed
  ultimately show ?thesis using reg by auto
qed


text \<open>A target with two children, the second of higher priority value, and a target of its own.\<close>

definition free_tgt :: tgt where
  "free_tgt = \<lparr>m_pTargetParent = None, m_pTargetChildHi = None, m_pTargetChildLo = None, m_pTargetPrev = None,
     m_pTargetNext = None, m_nPriority = 0\<rparr>"

definition family :: tgts where
  "family = (\<lambda>_. free_tgt)
     (0 := free_tgt\<lparr>m_pTargetChildHi := Some 1, m_pTargetChildLo := Some 3\<rparr>,
      1 := free_tgt\<lparr>m_pTargetParent := Some 0, m_nPriority := -9, m_pTargetNext := Some 2\<rparr>,
      2 := free_tgt\<lparr>m_pTargetParent := Some 0, m_nPriority := -1, m_pTargetPrev := Some 1\<rparr>,
      3 := free_tgt\<lparr>m_pTargetParent := Some 0, m_nPriority := 9\<rparr>)"

lemma family_children: "hi_children family 0 [1, 2]" "lo_children family 0 [3]"
  by (simp_all add: hi_children_def lo_children_def family_def free_tgt_def)

theorem RegisterTarget_hi_inserts_witness:
  "\<exists>s'. RegisterTarget 0 4 (- 5) family = Some (Inr s') \<and>
    hi_children s' 0 (before_hi family (- 5) [1, 2] @ 4 # after_hi family (- 5) [1, 2]) \<and>
    m_nPriority (s' 4) = - 5 \<and> sorted (map (m_nPriority \<circ> s') (before_hi family (- 5) [1, 2] @ 4 # after_hi family (- 5) [1, 2]))"
  by (rule RegisterTarget_hi_inserts[OF family_children(1)]) (simp_all add: family_def free_tgt_def)

subsection \<open>Removal\<close>

text \<open>
  Removal.  Taking a child out of the list of children asked before the parent leaves the others, in their
  order and linked both ways, and the child without parent and neighbours, ready to be registered again.
\<close>
theorem RemoveTarget_hi_removes:
  assumes "hi_children s this (xs @ c # ys)" "m_pTargetChildLo (s this) \<noteq> Some c"
  shows "\<exists>s'. RemoveTarget this c s = Inr s' \<and> hi_children s' this (xs @ ys) \<and>
    m_pTargetParent (s' c) = None \<and> m_pTargetPrev (s' c) = None \<and> m_pTargetNext (s' c) = None"
proof -
  let ?n = "first_or None ys" and ?p = "last_or None xs"
  have sx: "seg s None (m_pTargetChildHi (s this)) xs (Some c)" and sy': "seg s (Some c) (m_pTargetNext (s c)) ys None"
    and c': "m_pTargetPrev (s c) = ?p" "m_pTargetParent (s c) = Some this"
    and d: "distinct (this # xs @ c # ys)"
    using assms(1) by (auto simp: hi_children_def seg_append)
  have c: "m_pTargetPrev (s c) = ?p" "m_pTargetNext (s c) = ?n" "m_pTargetParent (s c) = Some this"
    using c' seg_first[OF sy'] by auto
  have sy: "seg s (Some c) ?n ys None" using sy' by (simp add: c(2))
  define s1 where "s1 = (if m_pTargetChildHi (s this) = Some c then set_hi this (m_pTargetNext (s c)) s else s)"
  define t where "t = (if m_pTargetChildLo (s1 this) = Some c then set_lo this (m_pTargetNext (s1 c)) s1 else s1)"
  define s2 where "s2 = (case m_pTargetPrev (t c) of None \<Rightarrow> t | Some a \<Rightarrow> set_next a (m_pTargetNext (t c)) t)"
  define s3 where "s3 = (case m_pTargetNext (s2 c) of None \<Rightarrow> s2 | Some a \<Rightarrow> set_prev a (m_pTargetPrev (s2 c)) s2)"
  define s4 where "s4 = s3(c := (s3 c)\<lparr>m_pTargetPrev := None, m_pTargetNext := None, m_pTargetParent := None\<rparr>)"
  have run: "RemoveTarget this c s = Inr s4"
    unfolding RemoveTarget_def Let_def s4_def s3_def s2_def t_def s1_def using c(3) by simp
  have cn: "?n \<noteq> Some c" "?p \<noteq> Some c" "?n \<noteq> Some this" "?p \<noteq> Some this"
    using d last_in_set[of xs] by (cases ys; auto simp: last_or_def)+
  have t: "t = (if m_pTargetChildHi (s this) = Some c then set_hi this ?n s else s)"
    using assms(2) c by (simp add: t_def s1_def store_defs)
  have tc: "m_pTargetPrev (t c) = ?p" "m_pTargetNext (t c) = ?n" using c d by (auto simp: t store_defs)
  have s2: "s2 = (case ?p of None \<Rightarrow> t | Some a \<Rightarrow> set_next a ?n t)" by (simp only: s2_def tc)
  have sc: "m_pTargetPrev (s2 c) = ?p" "m_pTargetNext (s2 c) = ?n"
    using tc cn by (auto simp: s2 store_defs split: option.splits)
  have s3: "s3 = (case ?n of None \<Rightarrow> s2 | Some a \<Rightarrow> set_prev a ?p s2)" by (simp only: s3_def sc)
  have f: "m_pTargetNext (s4 x) = (if x = c then None else if ?p = Some x then ?n else m_pTargetNext (s x))"
    "m_pTargetPrev (s4 x) = (if x = c then None else if ?n = Some x then ?p else m_pTargetPrev (s x))"
    "m_pTargetParent (s4 x) = (if x = c then None else m_pTargetParent (s x))" for x
    by (auto simp: t s2 s3 s4_def store_defs split: option.splits)
  have h: "m_pTargetChildHi (s4 this) = (if m_pTargetChildHi (s this) = Some c then ?n else m_pTargetChildHi (s this))"
    using d cn by (auto simp: t s2 s3 s4_def store_defs split: option.splits)
  have "seg s4 None (m_pTargetChildHi (s4 this)) (xs @ ys) None"
    by (rule seg_unlink[OF sx sy]) (use d f h in auto)
  moreover have "distinct (this # xs @ ys)" "\<forall>x\<in>set (xs @ ys). m_pTargetParent (s4 x) = Some this"
    using d assms(1) by (auto simp: f hi_children_def)
  ultimately show ?thesis using run by (auto simp: hi_children_def f)
qed

theorem RemoveTarget_hi_removes_witness:
  "\<exists>s'. RemoveTarget 0 2 family = Inr s' \<and> hi_children s' 0 ([1] @ []) \<and>
    m_pTargetParent (s' 2) = None \<and> m_pTargetPrev (s' 2) = None \<and> m_pTargetNext (s' 2) = None"
  by (rule RemoveTarget_hi_removes) (use family_children in \<open>simp_all add: family_def free_tgt_def\<close>)


subsection \<open>Registration behind the parent\<close>

text \<open>
  Registration after the parent.  Children of positive priority are to stand in descending order.  A child
  that belongs behind others is put in the place of the last of them: the walk hands over that one's
  predecessor instead of itself.  The child before it leaves the list, although it still names the parent, and
  is asked for no message or connection any more; its neighbours keep their order.
\<close>
theorem RegisterTarget_lo_displaces:
  assumes "lo_children s this (xs @ y # ys)" "\<forall>x\<in>set (xs @ [y]). m_nPriority (s x) > n"
    and "ys = [] \<or> \<not> m_nPriority (s (hd ys)) > n" "c \<notin> set (this # xs @ y # ys)" "m_pTargetParent (s c) = None" "n > 0"
  shows "\<exists>s'. RegisterTarget this c n s = Some (Inr s') \<and> forward s' (m_pTargetChildLo (s' this)) (xs @ c # ys) None \<and>
    y \<notin> set (xs @ c # ys) \<and> m_pTargetParent (s' y) = Some this"
proof -
  let ?n = "first_or None ys" and ?p = "last_or None xs"
  define s1 where "s1 = s(c := (s c)\<lparr>m_pTargetParent := Some this, m_nPriority := n, m_pTargetNext := None, m_pTargetPrev := None\<rparr>)"
  have "seg s1 None (m_pTargetChildLo (s1 this)) (xs @ y # ys) None = seg s None (m_pTargetChildLo (s1 this)) (xs @ y # ys) None"
    using assms(4) by (intro seg_same) (auto simp: s1_def)
  then have seg1: "seg s1 None (m_pTargetChildLo (s1 this)) ((xs @ [y]) @ ys) None"
    using assms(1,4) by (auto simp: lo_children_def s1_def)
  have d: "distinct (this # xs @ y # ys)" using assms(1) by (simp add: lo_children_def)
  have "\<forall>x\<in>set (xs @ [y]). m_nPriority (s1 x) > n" "ys = [] \<or> \<not> m_nPriority (s1 (hd ys)) > n"
    using assms(2-4) by (auto simp: s1_def)
  then have walk: "lo_walk s1 n (m_pTargetChildLo (s1 this)) (m_pTargetChildLo (s1 this)) None = Some (?n, ?p)"
    using lo_walk_seg[OF seg1] by simp
  define s2 where "s2 = link_child (set_lo this) c ?n ?p (set_next c ?n s1)"
  have reg: "RegisterTarget this c n s = Some (Inr s2)"
    using assms(5,6) walk by (simp add: RegisterTarget_def Let_def s1_def[symmetric] s2_def)
  have ne: "c \<noteq> this" "?n \<noteq> Some c" "?p \<noteq> Some c" "?n \<noteq> Some this" "?p \<noteq> Some this"
    using assms(4) d last_in_set[of xs] by (cases ys; auto simp: last_or_def)+
  note f = link_child_fields[OF ne(1-5), of "set_lo this" "set_next c ?n s1", simplified, folded s2_def]
  have "forward s2 (m_pTargetChildLo (s2 this)) xs (Some c)"
  proof (cases xs rule: rev_cases)
    case Nil
    then show ?thesis by (simp add: f)
  next
    case (snoc zs z)
    have fz: "forward s1 (m_pTargetChildLo (s1 this)) (zs @ [z]) (Some y)"
      using seg_forward[of s1 None "m_pTargetChildLo (s1 this)" "zs @ [z]" "Some y"] seg1 snoc by (simp add: seg_append)
    have "forward s2 (m_pTargetChildLo (s1 this)) zs (Some z) = forward s1 (m_pTargetChildLo (s1 this)) zs (Some z)"
      using d assms(4) snoc by (intro forward_same) (auto simp: f store_defs)
    then show ?thesis using fz snoc d ne(1) by (auto simp: forward_append f store_defs)
  qed
  moreover have "forward s2 ?n ys None = forward s1 ?n ys None"
    using d assms(4) last_in_set[of xs] by (intro forward_same) (auto simp: f store_defs last_or_def disjoint_iff)
  then have "forward s2 ?n ys None" using seg_forward seg1 by (simp add: seg_append) (metis seg_first seg_forward)
  moreover have "m_pTargetNext (s2 c) = ?n" using ne by (simp add: f store_defs)
  moreover have "m_pTargetParent (s2 y) = Some this" using assms(1,4) by (auto simp: f store_defs s1_def lo_children_def)
  ultimately show ?thesis using reg d assms(4) by (auto simp: forward_append)
qed

theorem RegisterTarget_lo_displaces_witness:
  "\<exists>s'. RegisterTarget 0 4 5 family = Some (Inr s') \<and> forward s' (m_pTargetChildLo (s' 0)) ([] @ 4 # []) None \<and>
    (3::nat) \<notin> set ([] @ 4 # []) \<and> m_pTargetParent (s' 3) = Some 0"
  by (rule RegisterTarget_lo_displaces) (use family_children in \<open>simp_all add: family_def free_tgt_def\<close>)

end
