(* ===== verification/Dispatch.thy ===== *)
theory Dispatch
  imports PeerMsg
begin

text \<open>
  Message maps and the walk over the targets: P2PmsgMaps.h, \<open>FindP2PeerMsgEntry\<close> and \<open>DispatchP2PeerMsg\<close> of
  P2Pwin32.cpp and \<open>P2PeerTarget::On_P2PeerMsg\<close>.

  A map is the list of its entries without the end entry; a pointer into it is what is left of the list.  A
  handler is a number; what handlers do is the parameter \<open>call\<close>: given the target, the handler and the
  message with the application's state it answers a result, or \<open>None\<close> for an exception, and the message and
  state it leaves.  The hierarchy is a tree that handlers do not change while a message walks it.
\<close>

datatype p2psig = P2PSig_Unwrap | P2PSig_Msg | P2PSig_MsgPeek | P2PSig_MsgMapcast | P2PSig_MsgCatch
  | P2PSig_MsgReflect | P2PSig_MsgReflectCatch | P2PSig_MsgAck | P2PSig_MsgAckCatch | P2PSig_MsgTimer
  | P2PSig_MsgTimerCatch | P2PSig_MsgNotify | P2PSig_MsgNotifyCatch | P2PSig_MsgBroadcast | P2PSig_MsgEvent
  | P2PSig_MsgEventCatch

record map_entry =
  sMsg :: wstr
  uMsgState :: "16 word"
  me_nCode :: "32 word"
  nSig :: p2psig
  pfn :: nat
  me_bMapcast :: bool
  nOSets :: nat

definition CN_P2PeerMsg :: "32 word" where "CN_P2PeerMsg = 2"
definition CN_P2PeerExp :: "32 word" where "CN_P2PeerExp = 16"
definition CN_Mask :: "32 word" where "CN_Mask = 15"
definition CM_Mapcast :: "32 word" where "CM_Mapcast = 0x80000000"

definition msgCONTINUE :: "32 word" where "msgCONTINUE = 0"
definition msgHANDLED :: "32 word" where "msgHANDLED = 1"
definition msgSWAP :: "32 word" where "msgSWAP = 7"
definition msgREDIRECT :: "32 word" where "msgREDIRECT = 8"
definition msgREPUMP :: "32 word" where "msgREPUMP = 9"

lemmas msg_results = msgCONTINUE_def msgHANDLED_def msgSWAP_def msgREDIRECT_def msgREPUMP_def

subsection \<open>What the macros put into a map\<close>

definition map_entry_of :: "wstr \<Rightarrow> 16 word \<Rightarrow> p2psig \<Rightarrow> nat \<Rightarrow> bool \<Rightarrow> nat \<Rightarrow> map_entry" where
  "map_entry_of message st sig f bMapcast n =
     \<lparr>sMsg = message, uMsgState = st, me_nCode = CN_P2PeerMsg, nSig = sig, pfn = f, me_bMapcast = bMapcast, nOSets = n\<rparr>"

definition ON_P2PeerMsg :: "wstr \<Rightarrow> nat \<Rightarrow> map_entry list" where
  "ON_P2PeerMsg message memberFxn = [map_entry_of message 0 P2PSig_Msg memberFxn False 1]"

definition ON_P2PeerMsg_MAPCAST :: "wstr \<Rightarrow> nat \<Rightarrow> map_entry list" where
  "ON_P2PeerMsg_MAPCAST message memberFxn = [map_entry_of message 0 P2PSig_Msg memberFxn True 1]"

definition ON_P2PeerMsg_CATCH :: "wstr \<Rightarrow> nat \<Rightarrow> map_entry list" where
  "ON_P2PeerMsg_CATCH message catchFxn =
     [map_entry_of P2Pmsg_Exception 0 P2PSig_Unwrap 0 False 2, map_entry_of message 0 P2PSig_MsgCatch catchFxn False 1]"

definition ON_P2PeerMsg_CATCH_CATCH :: "wstr \<Rightarrow> nat \<Rightarrow> map_entry list" where
  "ON_P2PeerMsg_CATCH_CATCH message catchFxn =
     [map_entry_of P2Pmsg_Exception 0 P2PSig_Unwrap 0 False 3, map_entry_of P2Pmsg_Exception 0 P2PSig_Unwrap 0 False 2,
      map_entry_of message 0 P2PSig_MsgCatch catchFxn False 1]"

definition ON_P2PeerMsg_REFLECT :: "wstr \<Rightarrow> nat \<Rightarrow> map_entry list" where
  "ON_P2PeerMsg_REFLECT message memberFxn = [map_entry_of message P2P_Reflected P2PSig_MsgReflect memberFxn False 1]"

definition ON_P2PeerMsg_REFLECT_CATCH :: "wstr \<Rightarrow> nat \<Rightarrow> map_entry list" where
  "ON_P2PeerMsg_REFLECT_CATCH message catchFxn =
     [map_entry_of P2Pmsg_Exception 0 P2PSig_Unwrap 0 False 2,
      map_entry_of message P2P_Reflected P2PSig_MsgReflectCatch catchFxn False 1]"

definition ON_P2PeerMsg_ACK :: "wstr \<Rightarrow> nat \<Rightarrow> map_entry list" where
  "ON_P2PeerMsg_ACK message memberFxn = [map_entry_of message P2P_Reflected P2PSig_MsgAck memberFxn False 1]"

lemmas map_macros = ON_P2PeerMsg_def ON_P2PeerMsg_MAPCAST_def ON_P2PeerMsg_CATCH_def ON_P2PeerMsg_CATCH_CATCH_def
  ON_P2PeerMsg_REFLECT_def ON_P2PeerMsg_REFLECT_CATCH_def ON_P2PeerMsg_ACK_def

subsection \<open>The search in a map\<close>

text \<open>
  \<open>NoOffset\<close>: an entry of offset 0 would be tried again and again; the macros make none.  \<open>NotUnwrapped\<close> is
  what \<open>operator[]\<close> throws, \<open>HandlerThrew\<close> what a handler does.
\<close>

datatype dispatch_stop = NoOffset | NotUnwrapped index_error | HandlerThrew

datatype found = Stopped dispatch_stop | NotFound | Found map_entry "map_entry list"

definition entry_matches :: "map_entry \<Rightarrow> peer_msg \<Rightarrow> 32 word \<Rightarrow> bool" where
  "entry_matches e pMsg nCode \<longleftrightarrow> Map_MatchName (m_name pMsg) (sMsg e) \<and> Map_MatchState pMsg (uMsgState e) \<and> me_nCode e = nCode"

fun FindP2PeerMsgEntry :: "(bytes \<Rightarrow> peer_msg) \<Rightarrow> map_entry list \<Rightarrow> peer_msg \<Rightarrow> 32 word \<Rightarrow> found" where
  "FindP2PeerMsgEntry parse [] pMsg nCode = NotFound"
| "FindP2PeerMsgEntry parse (e # v) pMsg nCode =
     (if entry_matches e pMsg nCode
      then (if nSig e \<noteq> P2PSig_Unwrap then Found e v
            else (case wrapped_at parse pMsg 1 of Inl x \<Rightarrow> Stopped (NotUnwrapped x)
                  | Inr pMsg1 \<Rightarrow> (case FindP2PeerMsgEntry parse v pMsg1 nCode of
                      NotFound \<Rightarrow> if nOSets e = 0 then NotFound else FindP2PeerMsgEntry parse (drop (nOSets e - 1) v) pMsg nCode
                    | r \<Rightarrow> r)))
      else if nOSets e = 0 then Stopped NoOffset else FindP2PeerMsgEntry parse (drop (nOSets e - 1) v) pMsg nCode)"

lemma Find_shorter: "FindP2PeerMsgEntry parse v pMsg nCode = Found e w \<Longrightarrow> length w < length v"
proof (induction parse v pMsg nCode rule: FindP2PeerMsgEntry.induct)
  case (2 parse x v pMsg nCode)
  then show ?case
    by (auto split: if_splits sum.splits found.splits)
qed simp

subsection \<open>The walk\<close>

type_synonym 's handlers = "nat \<Rightarrow> nat \<Rightarrow> peer_msg \<times> 's \<Rightarrow> 32 word option \<times> (peer_msg \<times> 's)"

text \<open>Handlers of the other signatures are not called, the message counts as handled.\<close>

definition DispatchP2PeerMsg :: "'s handlers \<Rightarrow> nat \<Rightarrow> map_entry \<Rightarrow> peer_msg \<times> 's \<Rightarrow> 32 word option \<times> (peer_msg \<times> 's)" where
  "DispatchP2PeerMsg call this e ms =
     (if nSig e \<in> {P2PSig_Msg, P2PSig_MsgMapcast, P2PSig_MsgCatch, P2PSig_MsgReflect, P2PSig_MsgReflectCatch, P2PSig_MsgAck,
                   P2PSig_MsgAckCatch}
      then call this (pfn e) ms else (Some msgHANDLED, ms))"

text \<open>\<open>bMapcast\<close> of \<open>On_P2PeerMsg\<close> is throughout whether this bit of \<open>nCode\<close> is set.\<close>

definition mapcast :: "32 word \<Rightarrow> bool" where "mapcast nCode \<longleftrightarrow> nCode AND CM_Mapcast \<noteq> 0"

text \<open>How the loop over one map ends: behind the map, handled, returning at once, or stopped.\<close>

datatype map_end = Behind | Handled | Returned | Broken dispatch_stop

function map_loop ::
  "(bytes \<Rightarrow> peer_msg) \<Rightarrow> 's handlers \<Rightarrow> nat \<Rightarrow> map_entry list \<Rightarrow> 32 word \<Rightarrow> 32 word \<Rightarrow> peer_msg \<times> 's
   \<Rightarrow> map_end \<times> 32 word \<times> 32 word \<times> (peer_msg \<times> 's)" where
  "map_loop parse call this v nCode bResult ms =
     (if bResult \<noteq> 0 \<and> \<not> mapcast nCode then (Behind, nCode, bResult, ms)
      else (case FindP2PeerMsgEntry parse v (fst ms) (nCode AND CN_Mask) of
        Stopped x \<Rightarrow> (Broken x, nCode, bResult, ms)
      | NotFound \<Rightarrow> (Behind, nCode, bResult, ms)
      | Found e w \<Rightarrow>
          (case DispatchP2PeerMsg call this e ms of
            (None, ms') \<Rightarrow> (Broken HandlerThrew, nCode, bResult, ms')
          | (Some r, ms') \<Rightarrow>
              if r = msgCONTINUE then (if nOSets e = 0 then (Broken NoOffset, nCode, r, ms')
                                       else map_loop parse call this (drop (nOSets e - 1) w) nCode r ms')
              else if r = msgSWAP \<or> r = msgREDIRECT \<or> r = msgREPUMP then (Returned, nCode, r, ms')
              else (Handled, (if me_bMapcast e then nCode OR CM_Mapcast else nCode), msgHANDLED, ms'))))"
  by pat_completeness auto

termination
  by (relation "measure (\<lambda>(_, _, _, v, _). length v)") (auto dest: Find_shorter)

declare map_loop.simps [simp del]

fun maps_walk ::
  "(bytes \<Rightarrow> peer_msg) \<Rightarrow> 's handlers \<Rightarrow> nat \<Rightarrow> map_entry list list \<Rightarrow> 32 word \<Rightarrow> 32 word \<Rightarrow> peer_msg \<times> 's
   \<Rightarrow> map_end \<times> 32 word \<times> 32 word \<times> (peer_msg \<times> 's)" where
  "maps_walk parse call this [] nCode bResult ms = (Behind, nCode, bResult, ms)"
| "maps_walk parse call this (v # base) nCode bResult ms =
     (if bResult \<noteq> 0 \<and> \<not> mapcast nCode then (Behind, nCode, bResult, ms)
      else (case map_loop parse call this v nCode bResult ms of
              (Behind, nCode', r, ms') \<Rightarrow> maps_walk parse call this base nCode' r ms'
            | other \<Rightarrow> other))"

text \<open>A target: its number, the maps of its class and base classes, its children before and behind it.\<close>

datatype target = Target nat "map_entry list list" "target list" "target list"

type_synonym 's walk_result = "(dispatch_stop + 32 word) \<times> (peer_msg \<times> 's)"

fun On_P2PeerMsg :: "(bytes \<Rightarrow> peer_msg) \<Rightarrow> 's handlers \<Rightarrow> target \<Rightarrow> 32 word \<Rightarrow> peer_msg \<times> 's \<Rightarrow> 's walk_result"
  and children_walk :: "(bytes \<Rightarrow> peer_msg) \<Rightarrow> 's handlers \<Rightarrow> target list \<Rightarrow> 32 word \<Rightarrow> 32 word \<Rightarrow> peer_msg \<times> 's \<Rightarrow> 's walk_result"
where
  "On_P2PeerMsg parse call (Target this maps hi lo) nCode ms =
     (case children_walk parse call hi nCode msgCONTINUE ms of
        (Inl x, ms') \<Rightarrow> (Inl x, ms')
      | (Inr r, ms') \<Rightarrow>
          (case maps_walk parse call this maps nCode r ms' of
             (Broken x, _, _, ms'') \<Rightarrow> (Inl x, ms'')
           | (Returned, _, r', ms'') \<Rightarrow> (Inr r', ms'')
           | (_, nCode', r', ms'') \<Rightarrow> children_walk parse call lo nCode' r' ms''))"
| "children_walk parse call [] nCode bResult ms = (Inr bResult, ms)"
| "children_walk parse call (t # ts) nCode bResult ms =
     (if bResult \<noteq> 0 \<and> \<not> mapcast nCode then (Inr bResult, ms)
      else (case On_P2PeerMsg parse call t nCode ms of
              (Inl x, ms') \<Rightarrow> (Inl x, ms')
            | (Inr r, ms') \<Rightarrow> children_walk parse call ts nCode (bResult OR r) ms'))"


subsection \<open>The order of a walk\<close>

text \<open>
  What a message is offered to, in order: the children before a target, its maps from the derived class down,
  the children behind it; \<open>Inl\<close> where the search stops the walk.
\<close>

function map_offers ::
  "(bytes \<Rightarrow> peer_msg) \<Rightarrow> nat \<Rightarrow> map_entry list \<Rightarrow> peer_msg \<Rightarrow> 32 word \<Rightarrow> (dispatch_stop + nat \<times> map_entry) list" where
  "map_offers parse this v pMsg nCode =
     (case FindP2PeerMsgEntry parse v pMsg nCode of
        Stopped x \<Rightarrow> [Inl x]
      | NotFound \<Rightarrow> []
      | Found e w \<Rightarrow> Inr (this, e) # (if nOSets e = 0 then [Inl NoOffset]
                                     else map_offers parse this (drop (nOSets e - 1) w) pMsg nCode))"
  by pat_completeness auto

termination
  by (relation "measure (\<lambda>(_, _, v, _). length v)") (auto dest: Find_shorter)

declare map_offers.simps [simp del]

fun target_offers :: "(bytes \<Rightarrow> peer_msg) \<Rightarrow> target \<Rightarrow> peer_msg \<Rightarrow> 32 word \<Rightarrow> (dispatch_stop + nat \<times> map_entry) list" where
  "target_offers parse (Target this maps hi lo) pMsg nCode =
     concat (map (\<lambda>t. target_offers parse t pMsg nCode) hi)
     @ concat (map (\<lambda>v. map_offers parse this v pMsg nCode) maps)
     @ concat (map (\<lambda>t. target_offers parse t pMsg nCode) lo)"

text \<open>Offering until the first handler that does not continue.\<close>

fun run_offers :: "'s handlers \<Rightarrow> (dispatch_stop + nat \<times> map_entry) list \<Rightarrow> peer_msg \<times> 's \<Rightarrow> 's walk_result" where
  "run_offers call [] ms = (Inr msgCONTINUE, ms)"
| "run_offers call (Inl x # rest) ms = (Inl x, ms)"
| "run_offers call (Inr (t, e) # rest) ms =
     (case DispatchP2PeerMsg call t e ms of
        (None, ms') \<Rightarrow> (Inl HandlerThrew, ms')
      | (Some r, ms') \<Rightarrow> if r = msgCONTINUE then run_offers call rest ms'
                        else (Inr (if r = msgSWAP \<or> r = msgREDIRECT \<or> r = msgREPUMP then r else msgHANDLED), ms'))"

definition keeps_message :: "'s handlers \<Rightarrow> bool" where
  "keeps_message call \<longleftrightarrow> (\<forall>t f ms. fst (snd (call t f ms)) = fst ms)"

fun no_mapcasts :: "target \<Rightarrow> bool" where
  "no_mapcasts (Target this maps hi lo) \<longleftrightarrow>
     (\<forall>v\<in>set maps. \<forall>e\<in>set v. \<not> me_bMapcast e) \<and> (\<forall>t\<in>set hi. no_mapcasts t) \<and> (\<forall>t\<in>set lo. no_mapcasts t)"

lemma Find_in: "FindP2PeerMsgEntry parse v pMsg nCode = Found e w \<Longrightarrow> e \<in> set v \<and> set w \<subseteq> set v"
proof (induction parse v pMsg nCode rule: FindP2PeerMsgEntry.induct)
  case (2 parse x v pMsg nCode)
  then show ?case by (auto split: if_splits sum.splits found.splits dest: in_set_dropD)
qed simp

lemma Dispatch_keeps:
  assumes "keeps_message call" "DispatchP2PeerMsg call t e ms = (r, ms')"
  shows "fst ms' = fst ms"
proof -
  have "fst (snd (call t f ms)) = fst ms" for f using assms(1) unfolding keeps_message_def by blast
  then have "fst (snd (DispatchP2PeerMsg call t e ms)) = fst ms" by (simp add: DispatchP2PeerMsg_def)
  then show ?thesis by (simp add: assms(2))
qed

lemma run_offers_keeps: "keeps_message call \<Longrightarrow> run_offers call os ms = (r, ms') \<Longrightarrow> fst ms' = fst ms"
proof (induction os arbitrary: ms)
  case (Cons x os)
  show ?case
  proof (cases x)
    case (Inr te)
    obtain t e where te: "te = (t, e)" by (cases te)
    obtain q ms1 where d: "DispatchP2PeerMsg call t e ms = (q, ms1)" by (metis surj_pair)
    have "fst ms1 = fst ms" using Dispatch_keeps[OF Cons.prems(1) d] .
    then show ?thesis using Cons.prems Cons.IH[of ms1] by (cases q) (simp_all add: Inr te d split: if_splits)
  qed (use Cons.prems in simp)
qed simp

lemma run_offers_append:
  "run_offers call (a @ b) ms =
     (case run_offers call a ms of (Inr r, ms') \<Rightarrow> if r = msgCONTINUE then run_offers call b ms' else (Inr r, ms') | other \<Rightarrow> other)"
proof (induction a arbitrary: ms)
  case (Cons x a)
  show ?case
  proof (cases x)
    case (Inr te)
    obtain t e where te: "te = (t, e)" by (cases te)
    obtain r ms' where d: "DispatchP2PeerMsg call t e ms = (r, ms')" by (metis surj_pair)
    show ?thesis using Cons.IH[of ms'] by (cases r) (simp_all add: Inr te d msg_results)
  qed simp
qed simp

definition loop_end :: "'s walk_result \<Rightarrow> 32 word \<Rightarrow> map_end \<times> 32 word \<times> 32 word \<times> (peer_msg \<times> 's)" where
  "loop_end res nCode = (case res of
      (Inl x, ms) \<Rightarrow> (Broken x, nCode, msgCONTINUE, ms)
    | (Inr r, ms) \<Rightarrow> (if r = msgCONTINUE then Behind else if r = msgHANDLED then Handled else Returned, nCode, r, ms))"

lemma map_loop_offers:
  assumes "keeps_message call" "\<not> mapcast nCode" "\<forall>e\<in>set v. \<not> me_bMapcast e"
  shows "map_loop parse call this v nCode msgCONTINUE ms =
    loop_end (run_offers call (map_offers parse this v (fst ms) (nCode AND CN_Mask)) ms) nCode"
  using assms(3)
proof (induction "length v" arbitrary: v ms rule: less_induct)
  case less
  show ?case
  proof (cases "FindP2PeerMsgEntry parse v (fst ms) (nCode AND CN_Mask)")
    case (Found e w)
    obtain r ms' where d: "DispatchP2PeerMsg call this e ms = (r, ms')" by (metis surj_pair)
    have e: "\<not> me_bMapcast e" "\<forall>x\<in>set (drop (nOSets e - 1) w). \<not> me_bMapcast x"
      using less.prems Find_in[OF Found] by (auto dest: in_set_dropD)
    have "map_loop parse call this (drop (nOSets e - 1) w) nCode msgCONTINUE ms' =
      loop_end (run_offers call (map_offers parse this (drop (nOSets e - 1) w) (fst ms') (nCode AND CN_Mask)) ms') nCode"
      using Find_shorter[OF Found] e(2) by (intro less.hyps) auto
    moreover have "fst ms' = fst ms" using Dispatch_keeps[OF assms(1) d] .
    ultimately show ?thesis
      using Found d e(1) assms(2)
      by (subst map_loop.simps, subst map_offers.simps) (auto simp: loop_end_def msg_results split: option.splits)
  qed (subst map_loop.simps, subst map_offers.simps, simp add: loop_end_def assms(2) msg_results)+
qed

lemma maps_walk_offers:
  assumes "keeps_message call" "\<not> mapcast nCode"
  shows "\<forall>v\<in>set maps. \<forall>e\<in>set v. \<not> me_bMapcast e \<Longrightarrow>
    maps_walk parse call this maps nCode msgCONTINUE ms =
      loop_end (run_offers call (concat (map (\<lambda>v. map_offers parse this v (fst ms) (nCode AND CN_Mask)) maps)) ms) nCode"
proof (induction maps arbitrary: ms)
  case Nil
  show ?case by (simp add: loop_end_def)
next
  case (Cons v maps)
  obtain r ms' where r: "run_offers call (map_offers parse this v (fst ms) (nCode AND CN_Mask)) ms = (r, ms')" by (metis surj_pair)
  have k: "fst ms' = fst ms" using run_offers_keeps[OF assms(1) r] .
  have "map_loop parse call this v nCode msgCONTINUE ms = loop_end (r, ms') nCode"
    using Cons.prems r by (subst map_loop_offers[OF assms]) auto
  then show ?case using Cons.IH[of ms'] Cons.prems r k
    by (auto simp: run_offers_append loop_end_def msg_results split: sum.splits)
qed

lemma children_walk_done: "r \<noteq> msgCONTINUE \<Longrightarrow> \<not> mapcast nCode \<Longrightarrow> children_walk parse call ts nCode r ms = (Inr r, ms)"
  by (cases ts) (auto simp: msg_results)

lemma children_walk_offers:
  assumes "keeps_message call" "\<not> mapcast nCode"
    and "\<And>t ms. t \<in> set ts \<Longrightarrow> On_P2PeerMsg parse call t nCode ms = run_offers call (target_offers parse t (fst ms) (nCode AND CN_Mask)) ms"
  shows "children_walk parse call ts nCode msgCONTINUE ms =
    run_offers call (concat (map (\<lambda>t. target_offers parse t (fst ms) (nCode AND CN_Mask)) ts)) ms"
  using assms(3)
proof (induction ts arbitrary: ms)
  case Nil
  show ?case by simp
next
  case (Cons t ts)
  obtain r ms' where r: "run_offers call (target_offers parse t (fst ms) (nCode AND CN_Mask)) ms = (r, ms')" by (metis surj_pair)
  have k: "fst ms' = fst ms" using run_offers_keeps[OF assms(1) r] .
  have "On_P2PeerMsg parse call t nCode ms = (r, ms')" using Cons.prems r by simp
  then show ?case using Cons.IH[of ms'] Cons.prems r k
    by (auto simp: children_walk_done[OF _ assms(2)] run_offers_append msg_results split: sum.splits)
qed

text \<open>
  The walk is a flat search.  Without map casting, and with handlers that leave the message as it is, the
  walk over the hierarchy with its three nested loops is the same as offering the message, one after the other,
  to the matching entries of the children before a target, of its own maps and of the children behind it, each
  at most once, and stopping at the first handler that does not continue.
\<close>
theorem On_P2PeerMsg_is_first_offer:
  assumes "keeps_message call" "\<not> mapcast nCode" "no_mapcasts t"
  shows "On_P2PeerMsg parse call t nCode ms = run_offers call (target_offers parse t (fst ms) (nCode AND CN_Mask)) ms"
  using assms(3)
proof (induction t arbitrary: ms)
  case (Target this maps hi lo)
  let ?o = "\<lambda>ts. concat (map (\<lambda>t. target_offers parse t (fst ms) (nCode AND CN_Mask)) ts)"
  have hi: "children_walk parse call hi nCode msgCONTINUE ms = run_offers call (?o hi) ms"
    using Target by (intro children_walk_offers[OF assms(1,2)]) auto
  obtain r ms1 where r: "run_offers call (?o hi) ms = (r, ms1)" by (metis surj_pair)
  have k1: "fst ms1 = fst ms" using run_offers_keeps[OF assms(1) r] .
  let ?m = "concat (map (\<lambda>v. map_offers parse this v (fst ms) (nCode AND CN_Mask)) maps)"
  have maps: "maps_walk parse call this maps nCode msgCONTINUE ms1 = loop_end (run_offers call ?m ms1) nCode"
    using Target.prems maps_walk_offers[OF assms(1,2), of maps parse this ms1] k1 by simp
  obtain r' ms2 where r': "run_offers call ?m ms1 = (r', ms2)" by (metis surj_pair)
  have k2: "fst ms2 = fst ms" using run_offers_keeps[OF assms(1) r'] k1 by simp
  have lo: "children_walk parse call lo nCode msgCONTINUE ms2 = run_offers call (?o lo) ms2"
    using Target children_walk_offers[OF assms(1,2), of lo parse ms2] k2 by simp
  have late: "maps_walk parse call this maps nCode x ms1 = (Behind, nCode, x, ms1)" if "x \<noteq> msgCONTINUE" for x
    using that assms(2) by (cases maps) (auto simp: msg_results)
  show ?case
    using hi r maps r' lo
    by (auto simp: late children_walk_done[OF _ assms(2)] run_offers_append loop_end_def msg_results split: sum.splits)
qed


text \<open>An application whose handlers only log: handler 0 continues, the others handle.\<close>

definition logging :: "nat list handlers" where
  "logging t f ms = (Some (if f = 0 then msgCONTINUE else msgHANDLED), (fst ms, snd ms @ [f]))"

definition plain_msg :: "wstr \<Rightarrow> bytes option \<Rightarrow> peer_msg" where
  "plain_msg name w = \<lparr>m_name = name, m_prefix = \<lparr>eType = 0, nSourceID = 0, dwAddrTag = 0, nDestinID = 0, nMsg = 0, uiCtrl = 0,
     ucPriority = 0, uiState = 0, uiP2Pexpump = 0\<rparr>, m_net = None, m_msg = None, m_wrp = w, m_evt = None\<rparr>"

definition two_targets :: target where
  "two_targets = Target 0 [ON_P2PeerMsg [80] 2] [Target 1 [ON_P2PeerMsg [80] 0] [] []] [Target 2 [ON_P2PeerMsg [80] 3] [] []]"

lemma logging_keeps: "keeps_message logging"
  by (simp add: keeps_message_def logging_def)

theorem On_P2PeerMsg_is_first_offer_witness:
  "On_P2PeerMsg (\<lambda>_. plain_msg [] None) logging two_targets CN_P2PeerMsg (plain_msg [80] None, []) =
   run_offers logging (target_offers (\<lambda>_. plain_msg [] None) two_targets (fst (plain_msg [80] None, [] :: nat list)) (CN_P2PeerMsg AND CN_Mask))
     (plain_msg [80] None, [])"
  by (rule On_P2PeerMsg_is_first_offer[OF logging_keeps])
    (simp_all add: mapcast_def CN_P2PeerMsg_def CM_Mapcast_def two_targets_def map_macros map_entry_of_def)

subsection \<open>Map casting\<close>

text \<open>
  A handled message reported as not handled.  While a message is cast to all maps the result of a target's
  own handler replaces what its children answered: when a child has handled the message, and the target's own
  handler then continues, the walk answers that nobody handled it, and the caller sends its source an exception.
\<close>
theorem mapcast_forgets_children:
  assumes "mapcast nCode" "children_walk parse call hi nCode msgCONTINUE ms = (Inr r, ms1)"
    and "FindP2PeerMsgEntry parse v (fst ms1) (nCode AND CN_Mask) = Found e w" "nOSets e > 0"
    and "DispatchP2PeerMsg call this e ms1 = (Some msgCONTINUE, ms2)"
    and "FindP2PeerMsgEntry parse (drop (nOSets e - 1) w) (fst ms2) (nCode AND CN_Mask) = NotFound"
  shows "On_P2PeerMsg parse call (Target this [v] hi []) nCode ms = (Inr msgCONTINUE, ms2)"
proof -
  have "map_loop parse call this (drop (nOSets e - 1) w) nCode msgCONTINUE ms2 = (Behind, nCode, msgCONTINUE, ms2)"
    using assms(6) by (subst map_loop.simps) (simp add: msg_results)
  then have "map_loop parse call this v nCode r ms1 = (Behind, nCode, msgCONTINUE, ms2)"
    using assms(1,3-5) by (subst map_loop.simps) (simp add: msg_results)
  then show ?thesis using assms(1,2) by simp
qed

theorem mapcast_forgets_children_witness:
  "On_P2PeerMsg (\<lambda>_. plain_msg [] None) logging (Target 0 [ON_P2PeerMsg [80] 0] [Target 1 [ON_P2PeerMsg [80] 2] [] []] [])
     (CN_P2PeerMsg OR CM_Mapcast) (plain_msg [80] None, []) = (Inr msgCONTINUE, (plain_msg [80] None, [2, 0]))"
proof (rule mapcast_forgets_children)
  have m: "Map_MatchName [80] [80]"
    by (simp add: Map_MatchName_def wild_loop.simps hash_elem_def)
  let ?c = "CN_P2PeerMsg OR CM_Mapcast"
  have c: "mapcast ?c" "?c AND CN_Mask = CN_P2PeerMsg" by (simp_all add: mapcast_def CN_P2PeerMsg_def CM_Mapcast_def CN_Mask_def)
  show "mapcast ?c" by (rule c)
  have f: "FindP2PeerMsgEntry (\<lambda>_. plain_msg [] None) (ON_P2PeerMsg [80] n) (plain_msg [80] None) CN_P2PeerMsg =
    Found (map_entry_of [80] 0 P2PSig_Msg n False 1) []" for n
    using m by (simp add: ON_P2PeerMsg_def map_entry_of_def entry_matches_def plain_msg_def Map_MatchState_def)
  show "children_walk (\<lambda>_. plain_msg [] None) logging [Target 1 [ON_P2PeerMsg [80] 2] [] []] ?c msgCONTINUE (plain_msg [80] None, []) =
    (Inr msgHANDLED, (plain_msg [80] None, [2]))"
    by (simp add: c f map_loop.simps DispatchP2PeerMsg_def map_entry_of_def logging_def msg_results)
  show "FindP2PeerMsgEntry (\<lambda>_. plain_msg [] None) (ON_P2PeerMsg [80] 0) (fst (plain_msg [80] None, [2])) (?c AND CN_Mask) =
    Found (map_entry_of [80] 0 P2PSig_Msg 0 False 1) []" by (simp add: f c)
qed (simp_all add: map_entry_of_def DispatchP2PeerMsg_def logging_def)


subsection \<open>Exceptions and what they wrap\<close>

text \<open>Maps as the macros build them, and the message some levels down.\<close>

inductive built :: "map_entry list \<Rightarrow> bool" where
  built_end: "built []"
| built_msg: "built v \<Longrightarrow> built (ON_P2PeerMsg m f @ v)"
| built_mapcast: "built v \<Longrightarrow> built (ON_P2PeerMsg_MAPCAST m f @ v)"
| built_catch: "built v \<Longrightarrow> built (ON_P2PeerMsg_CATCH m f @ v)"
| built_catch_catch: "built v \<Longrightarrow> built (ON_P2PeerMsg_CATCH_CATCH m f @ v)"
| built_reflect: "built v \<Longrightarrow> built (ON_P2PeerMsg_REFLECT m f @ v)"
| built_reflect_catch: "built v \<Longrightarrow> built (ON_P2PeerMsg_REFLECT_CATCH m f @ v)"
| built_ack: "built v \<Longrightarrow> built (ON_P2PeerMsg_ACK m f @ v)"

fun levels_down :: "(bytes \<Rightarrow> peer_msg) \<Rightarrow> peer_msg \<Rightarrow> nat \<Rightarrow> peer_msg option" where
  "levels_down parse m 0 = Some m"
| "levels_down parse m (Suc k) =
     (case wrapped_at parse m 1 of Inl x \<Rightarrow> None | Inr m1 \<Rightarrow> levels_down parse m1 k)"

lemma Find_at_a_level:
  "FindP2PeerMsgEntry parse v m c = Found e w \<Longrightarrow> \<exists>k m'. levels_down parse m k = Some m' \<and> entry_matches e m' c"
proof (induction parse v m c rule: FindP2PeerMsgEntry.induct)
  case (2 parse x v m c)
  show ?case
  proof (cases "entry_matches x m c \<and> nSig x \<noteq> P2PSig_Unwrap")
    case True
    then show ?thesis using 2(4) by (intro exI[of _ 0] exI[of _ m]) auto
  next
    case False
    show ?thesis
    proof (cases "entry_matches x m c")
      case True
      then obtain m1 where m1: "wrapped_at parse m 1 = Inr m1" using False 2(4) by (auto split: sum.splits)
      show ?thesis
      proof (cases "FindP2PeerMsgEntry parse v m1 c")
        case (Found e' w')
        then have "FindP2PeerMsgEntry parse v m1 c = Found e w" using True False m1 2(4) by simp
        then have "\<exists>k m'. levels_down parse m1 k = Some m' \<and> entry_matches e m' c"
          using 2(1)[OF True _ m1] True False by simp
        then obtain k m' where "levels_down parse m1 k = Some m'" "entry_matches e m' c" by blast
        then show ?thesis using m1 by (intro exI[of _ "Suc k"] exI[of _ m']) simp
      next
        case NotFound
        then show ?thesis using True False m1 2 by (auto split: if_splits)
      qed (use True False m1 2(4) in simp)
    next
      case no: False
      then show ?thesis using 2 by (auto split: if_splits)
    qed
  qed
qed simp

definition is_catch :: "map_entry \<Rightarrow> bool" where
  "is_catch e \<longleftrightarrow> nSig e = P2PSig_MsgCatch \<or> nSig e = P2PSig_MsgReflectCatch"

text \<open>An unwrapping entry in front of \<open>v\<close>: what it finds is found in a wrapped message.\<close>

lemma Find_unwrapping:
  assumes "FindP2PeerMsgEntry parse (map_entry_of P2Pmsg_Exception 0 P2PSig_Unwrap 0 False (Suc n) # v) m c = Found e w"
  shows "(\<exists>k m'. levels_down parse m (Suc k) = Some m' \<and> entry_matches e m' c \<and> Map_MatchName (m_name m) P2Pmsg_Exception)
    \<or> FindP2PeerMsgEntry parse (drop n v) m c = Found e w"
proof -
  consider m1 where "wrapped_at parse m 1 = Inr m1" "FindP2PeerMsgEntry parse v m1 c = Found e w" "Map_MatchName (m_name m) P2Pmsg_Exception"
    | "FindP2PeerMsgEntry parse (drop n v) m c = Found e w"
    using assms by (auto simp: map_entry_of_def entry_matches_def split: if_splits sum.splits found.splits)
  then show ?thesis
  proof cases
    case 1
    then show ?thesis using Find_at_a_level[OF 1(2)] by fastforce
  qed simp
qed

text \<open>
  C34: Catch handlers catch.  In a map made of the macros the search answers a catch entry only for an exception
  that wraps, one or more levels down, a message of the entry's name and state; a catch handler is never called
  with any other message.
\<close>
theorem catch_only_wrapped:
  assumes "built v" "FindP2PeerMsgEntry parse v m c = Found e w" "is_catch e"
  shows "Map_MatchName (m_name m) P2Pmsg_Exception \<and>
    (\<exists>k m'. levels_down parse m (Suc k) = Some m' \<and> Map_MatchName (m_name m') (sMsg e) \<and> Map_MatchState m' (uMsgState e))"
  using assms
proof (induction v rule: built.induct)
  case (built_catch v a f)
  then show ?case
    using Find_unwrapping[of parse 1 "map_entry_of a 0 P2PSig_MsgCatch f False 1 # v" m c e w]
    by (auto simp: ON_P2PeerMsg_CATCH_def entry_matches_def numeral_2_eq_2)
next
  case (built_catch_catch v a f)
  then show ?case
    using Find_unwrapping[of parse 2 "map_entry_of P2Pmsg_Exception 0 P2PSig_Unwrap 0 False 2 # map_entry_of a 0 P2PSig_MsgCatch f False 1 # v" m c e w]
    by (auto simp: ON_P2PeerMsg_CATCH_CATCH_def entry_matches_def numeral_3_eq_3 numeral_2_eq_2)
next
  case (built_reflect_catch v a f)
  then show ?case
    using Find_unwrapping[of parse 1 "map_entry_of a P2P_Reflected P2PSig_MsgReflectCatch f False 1 # v" m c e w]
    by (auto simp: ON_P2PeerMsg_REFLECT_CATCH_def entry_matches_def numeral_2_eq_2)
qed (auto simp: ON_P2PeerMsg_def ON_P2PeerMsg_MAPCAST_def ON_P2PeerMsg_REFLECT_def ON_P2PeerMsg_ACK_def map_entry_of_def is_catch_def
    split: if_splits)

text \<open>
  An exception taken for the message it wraps.  Behind a catch entry the search goes on through the whole
  rest of the map with the wrapped message, so a plain handler for that message's name is found for the
  exception: it is called with the exception, as if the message had arrived.
\<close>
theorem exception_taken_for_its_content:
  assumes "Map_MatchName (m_name m) P2Pmsg_Exception" "Map_MatchState m 0" "wrapped_at parse m 1 = Inr m1"
    and "\<not> Map_MatchName (m_name m1) a" "Map_MatchName (m_name m1) b" "Map_MatchState m1 0"
  shows "FindP2PeerMsgEntry parse (ON_P2PeerMsg_CATCH a f @ ON_P2PeerMsg b g) m CN_P2PeerMsg = Found (map_entry_of b 0 P2PSig_Msg g False 1) []"
  using assms by (simp add: map_macros map_entry_of_def entry_matches_def)


theorem exception_taken_for_its_content_witness:
  "FindP2PeerMsgEntry (\<lambda>_. plain_msg [81] None) (ON_P2PeerMsg_CATCH [80] 1 @ ON_P2PeerMsg [81] 2)
     (plain_msg P2Pmsg_Exception (Some [1])) CN_P2PeerMsg = Found (map_entry_of [81] 0 P2PSig_Msg 2 False 1) []"
  by (rule exception_taken_for_its_content[where ?m1.0 = "image_msg (\<lambda>_. plain_msg [81] None) [1]"])
    (simp_all add: plain_msg_def image_msg_def clear_posted_def P2Pmsg_Exception_def wide_def Map_MatchName_def wild_loop.simps hash_elem_def
      Map_MatchState_def)

theorem catch_only_wrapped_witness:
  "Map_MatchName (m_name (plain_msg P2Pmsg_Exception (Some [1]))) P2Pmsg_Exception \<and>
    (\<exists>k m'. levels_down (\<lambda>_. plain_msg [80] None) (plain_msg P2Pmsg_Exception (Some [1])) (Suc k) = Some m' \<and>
      Map_MatchName (m_name m') (sMsg (map_entry_of [80] 0 P2PSig_MsgCatch 1 False 1)) \<and>
      Map_MatchState m' (uMsgState (map_entry_of [80] 0 P2PSig_MsgCatch 1 False 1)))"
proof (rule catch_only_wrapped)
  show "built (ON_P2PeerMsg_CATCH [80] 1 @ [])" by (intro built.intros)
  show "FindP2PeerMsgEntry (\<lambda>_. plain_msg [80] None) (ON_P2PeerMsg_CATCH [80] 1 @ []) (plain_msg P2Pmsg_Exception (Some [1])) CN_P2PeerMsg =
    Found (map_entry_of [80] 0 P2PSig_MsgCatch 1 False 1) []"
    by (simp add: map_macros map_entry_of_def entry_matches_def plain_msg_def image_msg_def clear_posted_def P2Pmsg_Exception_def wide_def
        Map_MatchName_def wild_loop.simps hash_elem_def Map_MatchState_def)
qed (simp add: is_catch_def map_entry_of_def)

subsection \<open>The map of a hub\<close>

definition P2Pmsg_Error :: wstr where "P2Pmsg_Error = wide ''P2PmsgError''"
definition P2Pmsg_Undeliv :: wstr where "P2Pmsg_Undeliv = wide ''P2PmsgUndeliv''"

text \<open>The handlers of the maps, as numbers.\<close>

definition fn_On_P2PeerBCast :: nat where "fn_On_P2PeerBCast = 1"
definition fn_On_P2PeerUCast :: nat where "fn_On_P2PeerUCast = 2"
definition fn_On_P2PeerError :: nat where "fn_On_P2PeerError = 3"
definition fn_On_MsgCatch :: nat where "fn_On_MsgCatch = 4"
definition fn_On_MsgCatchCatch :: nat where "fn_On_MsgCatchCatch = 5"

definition P2PeerHub_MsgMap :: "map_entry list" where
  "P2PeerHub_MsgMap = ON_P2PeerMsg P2Pmsg_BCast fn_On_P2PeerBCast @ ON_P2PeerMsg_CATCH P2Pmsg_BCast fn_On_MsgCatch @
     ON_P2PeerMsg P2Pmsg_UCast fn_On_P2PeerUCast @ ON_P2PeerMsg_CATCH P2Pmsg_UCast fn_On_MsgCatch @
     ON_P2PeerMsg P2Pmsg_Error fn_On_P2PeerError"

definition P2PeerTarget_MsgMap :: "map_entry list" where
  "P2PeerTarget_MsgMap = ON_P2PeerMsg_CATCH P2Pmsg_Undeliv fn_On_MsgCatch @ ON_P2PeerMsg_CATCH P2Pmsg_Exception fn_On_MsgCatchCatch"

text \<open>Which handler the search finds, if any.\<close>

definition found_fn :: "found \<Rightarrow> nat option" where
  "found_fn r = (case r of Found e w \<Rightarrow> Some (pfn e) | _ \<Rightarrow> None)"

lemma hub_matches:
  "\<not> Map_MatchName P2Pmsg_Exception P2Pmsg_BCast" "\<not> Map_MatchName P2Pmsg_Exception P2Pmsg_UCast" "\<not> Map_MatchName P2Pmsg_Exception P2Pmsg_Error"
  "\<not> Map_MatchName P2Pmsg_UCast P2Pmsg_BCast" "\<not> Map_MatchName P2Pmsg_Error P2Pmsg_BCast" "\<not> Map_MatchName P2Pmsg_Error P2Pmsg_UCast"
  "\<not> Map_MatchName P2Pmsg_Error P2Pmsg_Exception" "\<not> Map_MatchName P2Pmsg_Undeliv P2Pmsg_BCast" "\<not> Map_MatchName P2Pmsg_Undeliv P2Pmsg_UCast"
  "\<not> Map_MatchName P2Pmsg_Undeliv P2Pmsg_Error" "\<not> Map_MatchName P2Pmsg_Undeliv P2Pmsg_Exception" "Map_MatchName P2Pmsg_Exception P2Pmsg_Exception"
  "Map_MatchName P2Pmsg_BCast P2Pmsg_BCast" "Map_MatchName P2Pmsg_UCast P2Pmsg_UCast" "Map_MatchName P2Pmsg_Error P2Pmsg_Error"
  "Map_MatchName P2Pmsg_Undeliv P2Pmsg_Undeliv"
  by code_simp+

text \<open>
  What a hub does with an exception.  Of the exceptions that come back for the messages its own map
  handles, only one that wraps a broadcast reaches the catch handler; one that wraps an upcast is given to
  \<open>On_P2PeerUCast\<close>, which sends it on to every parent, and one that wraps an error report to the error handler.
  The catch entry for upcasts, behind the plain one, is never reached.
\<close>
theorem hub_map_on_exceptions:
  assumes "m_name m = P2Pmsg_Exception" "Map_MatchState m 0" "wrapped_at parse m 1 = Inr m1" "Map_MatchState m1 0"
  shows "(m_name m1 = P2Pmsg_BCast \<longrightarrow> found_fn (FindP2PeerMsgEntry parse P2PeerHub_MsgMap m CN_P2PeerMsg) = Some fn_On_MsgCatch) \<and>
    (m_name m1 = P2Pmsg_UCast \<longrightarrow> found_fn (FindP2PeerMsgEntry parse P2PeerHub_MsgMap m CN_P2PeerMsg) = Some fn_On_P2PeerUCast) \<and>
    (m_name m1 = P2Pmsg_Error \<longrightarrow> found_fn (FindP2PeerMsgEntry parse P2PeerHub_MsgMap m CN_P2PeerMsg) = Some fn_On_P2PeerError) \<and>
    (m_name m1 = P2Pmsg_Undeliv \<longrightarrow> FindP2PeerMsgEntry parse P2PeerHub_MsgMap m CN_P2PeerMsg = NotFound \<and>
      found_fn (FindP2PeerMsgEntry parse P2PeerTarget_MsgMap m CN_P2PeerMsg) = Some fn_On_MsgCatch)"
  using assms hub_matches
  by (simp_all add: P2PeerHub_MsgMap_def P2PeerTarget_MsgMap_def map_macros map_entry_of_def entry_matches_def found_fn_def)

theorem hub_map_on_exceptions_witness:
  "found_fn (FindP2PeerMsgEntry (\<lambda>_. plain_msg P2Pmsg_UCast None) P2PeerHub_MsgMap (plain_msg P2Pmsg_Exception (Some [1])) CN_P2PeerMsg)
     = Some fn_On_P2PeerUCast"
proof -
  have "wrapped_at (\<lambda>_. plain_msg P2Pmsg_UCast None) (plain_msg P2Pmsg_Exception (Some [1])) 1 = Inr (image_msg (\<lambda>_. plain_msg P2Pmsg_UCast None) [1])"
    by (simp add: plain_msg_def)
  from hub_map_on_exceptions[OF _ _ this] show ?thesis
    by (simp add: plain_msg_def image_msg_def clear_posted_def Map_MatchState_def)
qed

end
