(* ===== verification/Framing.thy ===== *)
theory Framing
  imports Seal
begin

text \<open>
  The framing of a link: \<open>P2Peerio\<close> (P2Peerio.cpp) and its cypher \<open>P2PeerioGcm\<close> (P2PeerioGcm.cpp).

  A frame is a message image: a packed header of two words, the second the complement of the first, and
  what follows.  The header and its words belong to the container library, outside src/: the record
  \<open>image_lib\<close> holds what the code uses of it.  The bytes of the link arrive in pieces, each no longer than
  was asked for.
\<close>

record image_lib =
  sync_words :: "bytes \<Rightarrow> 32 word \<times> 32 word"
  sync_bytes :: "32 word \<times> 32 word \<Rightarrow> bytes"
  VBLock_SyncNative :: "32 word \<Rightarrow> bool"
  VBLock_SyncMake :: "nat \<Rightarrow> 8 word \<Rightarrow> 32 word"
  VBLock_SyncAddr :: "32 word \<Rightarrow> 8 word"
  sizeof_VBListIOmage :: nat

definition sizeof_oSync :: nat where "sizeof_oSync = 8"

definition size_of_sync :: "32 word \<Rightarrow> nat" where "size_of_sync uiSync1 = unat (uiSync1 AND 0x00FFFFFF)"

text \<open>\<open>P2Piomage_Sizeof\<close>, \<open>IOmage_Sizeof\<close> and the bytes from \<open>cIOmage\<close> on, which follow the header.\<close>

definition P2Piomage_Sizeof :: "image_lib \<Rightarrow> bytes \<Rightarrow> nat" where
  "P2Piomage_Sizeof lib p = size_of_sync (fst (sync_words lib (take sizeof_oSync p)))"

definition IOmage_Sizeof :: "image_lib \<Rightarrow> bytes \<Rightarrow> nat" where
  "IOmage_Sizeof lib p = P2Piomage_Sizeof lib p - sizeof_oSync"

definition cIOmage :: "bytes \<Rightarrow> bytes" where "cIOmage p = drop sizeof_oSync p"

subsection \<open>The cypher\<close>

record gcm =
  m_bKeyed :: bool
  m_oGcmSend :: bytes
  m_oGcmRecv :: bytes
  m_uSealCount :: "64 word"
  m_uSealCeiling :: "64 word"

definition kGcmMaxSeals :: "64 word" where "kGcmMaxSeals = 0x100000000"
definition kAesKeyLen :: nat where "kAesKeyLen = 32"

definition gcm_new :: gcm where
  "gcm_new = \<lparr>m_bKeyed = False, m_oGcmSend = [], m_oGcmRecv = [], m_uSealCount = 0, m_uSealCeiling = kGcmMaxSeals\<rparr>"

text \<open>The keys are installed by the library, which may fail: \<open>key_ok\<close>.  The first component: nothing thrown.\<close>

definition SetKeyPair :: "(bytes \<Rightarrow> bool) \<Rightarrow> bytes option \<Rightarrow> bytes option \<Rightarrow> gcm \<Rightarrow> bool \<times> gcm" where
  "SetKeyPair key_ok pSendKey pRecvKey g0 =
     (let g = g0\<lparr>m_bKeyed := False\<rparr> in
      case (pSendKey, pRecvKey) of
        (Some s, Some r) \<Rightarrow>
          if length s \<noteq> kAesKeyLen \<or> length r \<noteq> kAesKeyLen then (False, g)
          else if \<not> key_ok s then (False, g)
          else if \<not> key_ok r then (False, g\<lparr>m_oGcmSend := s\<rparr>)
          else (True, g\<lparr>m_oGcmSend := s, m_oGcmRecv := r, m_uSealCount := 0, m_bKeyed := True\<rparr>)
      | _ \<Rightarrow> (False, g))"

definition SetKey :: "(bytes \<Rightarrow> bool) \<Rightarrow> bytes option \<Rightarrow> gcm \<Rightarrow> bool \<times> gcm" where
  "SetKey key_ok pPKey g = SetKeyPair key_ok pPKey pPKey g"

definition SetSealCeiling :: "64 word \<Rightarrow> gcm \<Rightarrow> gcm" where "SetSealCeiling uSeals g = g\<lparr>m_uSealCeiling := uSeals\<rparr>"

definition GcmOpenedSize :: "nat \<Rightarrow> nat" where
  "GcmOpenedSize cbSealed = (if cbSealed \<ge> 12 + 16 then cbSealed - (12 + 16) else 0)"

text \<open>\<open>None\<close> is FALSE.  An attempt counts whether or not it seals.\<close>

definition Encrypt :: "crypto \<Rightarrow> bytes \<Rightarrow> gcm \<Rightarrow> bytes option \<times> gcm" where
  "Encrypt cr pcBufferIn g =
     (if \<not> m_bKeyed g then (None, g)
      else let uPrev = m_uSealCount g; g' = g\<lparr>m_uSealCount := m_uSealCount g + 1\<rparr> in
      if uPrev \<ge> m_uSealCeiling g then (None, g')
      else (case GcmSeal cr (m_oGcmSend g) [] pcBufferIn of None \<Rightarrow> (None, g')
            | Some c \<Rightarrow> (if length c = GcmSealedSize (length pcBufferIn) then Some c else None, g')))"

definition Decrypt :: "crypto \<Rightarrow> bytes \<Rightarrow> gcm \<Rightarrow> bytes option" where
  "Decrypt cr pcBufferIn g =
     (if \<not> m_bKeyed g then None
      else if GcmOpenedSize (length pcBufferIn) = 0 then None
      else (case GcmOpen cr (m_oGcmRecv g) [] pcBufferIn of None \<Rightarrow> None
            | Some p \<Rightarrow> if length p = GcmOpenedSize (length pcBufferIn) then Some p else None))"

subsection \<open>Sending\<close>

record peerio =
  m_pP2Pcrypto :: "gcm option"
  m_bSealDecided :: bool
  m_dwMaxRecvSize :: nat

datatype io_error = NonsensicalSize | EncryptionFailed | NothingDecided | LayoutNotNative | AboveMaximum | Undersized | Overrun





subsection \<open>Receiving\<close>

text \<open>
  \<open>pUserDB1\<close>: the bytes of the header so far; \<open>pUserDB2\<close>: those of the image once its size is known; \<open>dwBytes\<close>
  counts what has arrived of either.  The buffers have 4 bytes more than \<open>sizeof(VBListIOmage)\<close> and the size.
\<close>

record receiving =
  pUserDB1 :: bytes
  pUserDB2 :: "bytes option"
  dwBytes :: nat

definition recv_new :: receiving where "recv_new = \<lparr>pUserDB1 = [], pUserDB2 = None, dwBytes = 0\<rparr>"

text \<open>
  What a call comes to: a read was issued for so many bytes, a message image is complete, the cypher refused
  the image and \<open>P2P_CypherEx\<close> was posted, or an event is thrown.
\<close>

datatype received = Reading nat | Message bytes | CypherRefused | Refused io_error

definition DecryptP2PiomageSwap :: "crypto \<Rightarrow> image_lib \<Rightarrow> bytes \<Rightarrow> peerio \<Rightarrow> bytes option" where
  "DecryptP2PiomageSwap cr lib pRecv io =
     (case m_pP2Pcrypto io of None \<Rightarrow> Some pRecv
      | Some g \<Rightarrow>
        let nPlainIOmage = GcmOpenedSize (IOmage_Sizeof lib pRecv);
            uiSync1 = VBLock_SyncMake lib (nPlainIOmage + sizeof_oSync) (VBLock_SyncAddr lib (fst (sync_words lib (take sizeof_oSync pRecv))))
        in if nPlainIOmage = 0 then None
        else map_option (\<lambda>c. sync_bytes lib (uiSync1, NOT uiSync1) @ c) (Decrypt cr (take (IOmage_Sizeof lib pRecv) (cIOmage pRecv)) g))"

text \<open>
  What is left of an image whose first header word is set to zero.  The reset at the end of a call goes through
  \<open>pIOmage\<close>: without a cypher this is the header in the receive buffer, which is read again from its first
  byte, and the message stays as it was; behind a decryption it has been pointed at the decrypted image, which
  the message has taken over by then.
\<close>

definition sync1_cleared :: "image_lib \<Rightarrow> bytes \<Rightarrow> bytes" where
  "sync1_cleared lib p = sync_bytes lib (0, snd (sync_words lib (take sizeof_oSync p))) @ cIOmage p"

definition handed_up :: "image_lib \<Rightarrow> peerio \<Rightarrow> bytes \<Rightarrow> bytes" where
  "handed_up lib io p = (if m_pP2Pcrypto io = None then p else sync1_cleared lib p)"

definition recv_body :: "crypto \<Rightarrow> image_lib \<Rightarrow> peerio \<Rightarrow> receiving \<Rightarrow> received \<times> receiving" where
  "recv_body cr lib io o1 =
     (let nSizeof = size_of_sync (fst (sync_words lib (pUserDB1 o1))) in
      if dwBytes o1 < nSizeof then (Reading (nSizeof - dwBytes o1), o1)
      else (case DecryptP2PiomageSwap cr lib (case pUserDB2 o1 of None \<Rightarrow> [] | Some b \<Rightarrow> b) io of
              None \<Rightarrow> (CypherRefused, o1\<lparr>pUserDB2 := None\<rparr>)
            | Some m \<Rightarrow> (Message (handed_up lib io m), recv_new)))"

definition RecvP2PeerMsg :: "crypto \<Rightarrow> image_lib \<Rightarrow> peerio \<Rightarrow> receiving \<Rightarrow> received \<times> receiving" where
  "RecvP2PeerMsg cr lib io o1 =
     (if dwBytes o1 < sizeof_oSync then (Reading (sizeof_oSync - dwBytes o1), o1)
      else if pUserDB2 o1 \<noteq> None then recv_body cr lib io o1
      else (case sync_words lib (pUserDB1 o1) of (uiSync1, uiSync2) \<Rightarrow>
        if uiSync1 + uiSync2 = NOT 0
        then (if \<not> VBLock_SyncNative lib uiSync1 then (Refused LayoutNotNative, o1)
              else if size_of_sync uiSync1 > m_dwMaxRecvSize io then (Refused AboveMaximum, o1)
              else if size_of_sync uiSync1 < sizeof_VBListIOmage lib then (Refused Undersized, o1)
              else recv_body cr lib io (o1\<lparr>pUserDB2 := Some (pUserDB1 o1)\<rparr>))
        else (Reading 1, o1\<lparr>pUserDB1 := tl (pUserDB1 o1), dwBytes := dwBytes o1 - 1\<rparr>)))"

text \<open>A read completes with some bytes, where the call asked for them; the completion handler counts them.\<close>

definition recv_bytes :: "bytes \<Rightarrow> receiving \<Rightarrow> receiving" where
  "recv_bytes c o1 =
     (case pUserDB2 o1 of
        None \<Rightarrow> o1\<lparr>pUserDB1 := pUserDB1 o1 @ c, dwBytes := dwBytes o1 + length c\<rparr>
      | Some b \<Rightarrow> o1\<lparr>pUserDB2 := Some (b @ c), dwBytes := dwBytes o1 + length c\<rparr>)"

text \<open>
  A link at work: its state, the bytes still to come, the messages handed up.  Every read may bring any number
  of bytes up to what it asked for.
\<close>

inductive link_run :: "crypto \<Rightarrow> image_lib \<Rightarrow> peerio \<Rightarrow> receiving \<Rightarrow> bytes \<Rightarrow> bytes list \<Rightarrow> receiving \<Rightarrow> bytes \<Rightarrow> bool"
  for cr lib io where
  link_stops: "link_run cr lib io o1 s [] o1 s"
| link_reads: "RecvP2PeerMsg cr lib io o1 = (Reading n, o2) \<Longrightarrow> c \<noteq> [] \<Longrightarrow> length c \<le> n \<Longrightarrow>
    link_run cr lib io (recv_bytes c o2) s out o3 rest \<Longrightarrow> link_run cr lib io o1 (c @ s) out o3 rest"
| link_hands_up: "RecvP2PeerMsg cr lib io o1 = (Message m, o2) \<Longrightarrow>
    link_run cr lib io o2 s out o3 rest \<Longrightarrow> link_run cr lib io o1 s (m # out) o3 rest"

subsection \<open>No byte outside the buffers\<close>

text \<open>
  What holds between two calls, whatever the peer sends: before the size is known at most the header has
  arrived; afterwards the size is within the limits and no more than the image has arrived.
\<close>

definition within_buffers :: "image_lib \<Rightarrow> peerio \<Rightarrow> receiving \<Rightarrow> bool" where
  "within_buffers lib io o1 \<longleftrightarrow>
     (case pUserDB2 o1 of
        None \<Rightarrow> dwBytes o1 = length (pUserDB1 o1) \<and> dwBytes o1 \<le> sizeof_oSync
      | Some b \<Rightarrow> length (pUserDB1 o1) = sizeof_oSync \<and> dwBytes o1 = length b \<and> sizeof_oSync \<le> length b \<and>
          length b \<le> size_of_sync (fst (sync_words lib (pUserDB1 o1))) \<and>
          size_of_sync (fst (sync_words lib (pUserDB1 o1))) \<le> m_dwMaxRecvSize io)"

definition room :: "image_lib \<Rightarrow> receiving \<Rightarrow> nat" where
  "room lib o1 = (case pUserDB2 o1 of None \<Rightarrow> sizeof_VBListIOmage lib + 4
     | Some b \<Rightarrow> size_of_sync (fst (sync_words lib (pUserDB1 o1))) + 4)"

definition lib_ok :: "image_lib \<Rightarrow> bool" where
  "lib_ok lib \<longleftrightarrow> sizeof_VBListIOmage lib \<ge> sizeof_oSync \<and>
     (\<forall>w. length (sync_bytes lib w) = sizeof_oSync \<and> sync_words lib (sync_bytes lib w) = w) \<and>
     (\<forall>n a. n < 2 ^ 24 \<longrightarrow> size_of_sync (VBLock_SyncMake lib n a) = n \<and> VBLock_SyncNative lib (VBLock_SyncMake lib n a)) \<and>
     (\<forall>n w. n < 2 ^ 24 \<longrightarrow> VBLock_SyncNative lib w \<longrightarrow> size_of_sync w = n \<longrightarrow> VBLock_SyncMake lib n (VBLock_SyncAddr lib w) = w) \<and>
     (\<forall>n w. n < 2 ^ 24 \<longrightarrow> VBLock_SyncAddr lib (VBLock_SyncMake lib n (VBLock_SyncAddr lib w)) = VBLock_SyncAddr lib w)"

lemma recv_within:
  assumes "lib_ok lib" "within_buffers lib io o1" "RecvP2PeerMsg cr lib io o1 = (Reading n, o2)"
  shows "within_buffers lib io o2 \<and> dwBytes o2 + n \<le> room lib o2 \<and> n > 0 \<and>
    (\<forall>c. length c \<le> n \<longrightarrow> within_buffers lib io (recv_bytes c o2))"
  using assms
  by (auto simp: within_buffers_def RecvP2PeerMsg_def recv_body_def Let_def recv_bytes_def room_def lib_ok_def sizeof_oSync_def recv_new_def
      split: option.splits if_splits prod.splits)

lemma recv_within_message:
  "RecvP2PeerMsg cr lib io o1 = (Message m, o2) \<Longrightarrow> within_buffers lib io o2"
  by (auto simp: within_buffers_def RecvP2PeerMsg_def recv_body_def Let_def recv_new_def sizeof_oSync_def split: option.splits if_splits prod.splits)


lemma recv_new_within: "within_buffers lib io recv_new"
  by (simp add: within_buffers_def recv_new_def sizeof_oSync_def)

lemma link_run_within:
  "link_run cr lib io o1 s out o2 rest \<Longrightarrow> lib_ok lib \<Longrightarrow> within_buffers lib io o1 \<Longrightarrow> within_buffers lib io o2"
proof (induction rule: link_run.induct)
  case (link_reads o1 n o2 c s out o3 rest)
  then show ?case using recv_within[OF link_reads.prems(1,2) link_reads.hyps(1)] by simp
next
  case (link_hands_up o1 m o2 s out o3 rest)
  then show ?case using recv_within_message by blast
qed simp

text \<open>
  C7: No read leaves its buffer.  Whatever bytes a peer sends and however they are cut, every read the framing
  issues asks for at least one byte and ends inside the buffer it reads into, and that buffer is no larger than
  the header's or the configured maximum with four bytes to spare.
\<close>
theorem reads_stay_in_buffers:
  assumes "lib_ok lib" "link_run cr lib io recv_new s out o1 rest" "RecvP2PeerMsg cr lib io o1 = (Reading n, o2)"
  shows "n > 0 \<and> dwBytes o2 + n \<le> room lib o2 \<and> room lib o2 \<le> max (sizeof_VBListIOmage lib) (m_dwMaxRecvSize io) + 4"
proof -
  have w: "within_buffers lib io o1" using link_run_within[OF assms(2,1) recv_new_within] .
  have "within_buffers lib io o2" "n > 0" "dwBytes o2 + n \<le> room lib o2" using recv_within[OF assms(1) w assms(3)] by auto
  then show ?thesis by (auto simp: room_def within_buffers_def split: option.splits)
qed

subsection \<open>What a stream carries\<close>

text \<open>A whole image the receiver accepts, and what it hands up for it.\<close>

definition accepted_image :: "crypto \<Rightarrow> image_lib \<Rightarrow> peerio \<Rightarrow> bytes \<Rightarrow> bytes \<Rightarrow> bool" where
  "accepted_image cr lib io f m \<longleftrightarrow>
     (case sync_words lib (take sizeof_oSync f) of (uiSync1, uiSync2) \<Rightarrow>
        uiSync1 + uiSync2 = NOT 0 \<and> VBLock_SyncNative lib uiSync1 \<and> size_of_sync uiSync1 = length f \<and>
        sizeof_VBListIOmage lib \<le> length f \<and> length f \<le> m_dwMaxRecvSize io) \<and>
     map_option (handed_up lib io) (DecryptP2PiomageSwap cr lib f io) = Some m"

text \<open>
  Reading a stream from a place where no image is under way: an accepted image is handed up; a byte from which
  no header starts is skipped.
\<close>

inductive carries :: "crypto \<Rightarrow> image_lib \<Rightarrow> peerio \<Rightarrow> bytes \<Rightarrow> bytes list \<Rightarrow> bool" for cr lib io where
  carries_none: "carries cr lib io [] []"
| carries_image: "accepted_image cr lib io f m \<Longrightarrow> carries cr lib io s ms \<Longrightarrow> carries cr lib io (f @ s) (m # ms)"
| carries_noise: "sizeof_oSync \<le> length (x # s) \<Longrightarrow>
    fst (sync_words lib (take sizeof_oSync (x # s))) + snd (sync_words lib (take sizeof_oSync (x # s))) \<noteq> NOT 0 \<Longrightarrow>
    carries cr lib io s ms \<Longrightarrow> carries cr lib io (x # s) ms"

definition sync_at :: "image_lib \<Rightarrow> bytes \<Rightarrow> bool" where
  "sync_at lib b \<longleftrightarrow> fst (sync_words lib (take sizeof_oSync b)) + snd (sync_words lib (take sizeof_oSync b)) = NOT 0"

lemma carries_cases:
  assumes "carries cr lib io b ms" "lib_ok lib"
  obtains (nothing) "b = []" "ms = []"
  | (image) f m s ms' where "b = f @ s" "ms = m # ms'" "accepted_image cr lib io f m" "carries cr lib io s ms'" "sync_at lib b"
      "sizeof_oSync \<le> length f" "take sizeof_oSync b = take sizeof_oSync f"
  | (noise) "sizeof_oSync \<le> length b" "\<not> sync_at lib b" "carries cr lib io (tl b) ms"
  using assms(1)
proof cases
  case (carries_image f m s ms')
  have l: "sizeof_oSync \<le> length f"
    using carries_image(3) assms(2) by (auto simp: accepted_image_def lib_ok_def split: prod.splits)
  then have "take sizeof_oSync b = take sizeof_oSync f" using carries_image(1) by simp
  moreover from this have "sync_at lib b" using carries_image(3) by (auto simp: accepted_image_def sync_at_def split: prod.splits)
  ultimately show ?thesis using image carries_image l by blast
qed (auto intro: nothing noise simp: sync_at_def)

text \<open>The bytes that have arrived and are not handed up.\<close>

definition arrived :: "receiving \<Rightarrow> bytes" where
  "arrived o1 = (case pUserDB2 o1 of None \<Rightarrow> pUserDB1 o1 | Some b \<Rightarrow> b)"

text \<open>The header is what arrived first, and was accepted.\<close>

definition on_course :: "image_lib \<Rightarrow> peerio \<Rightarrow> receiving \<Rightarrow> bool" where
  "on_course lib io o1 \<longleftrightarrow> within_buffers lib io o1 \<and>
     (pUserDB2 o1 \<noteq> None \<longrightarrow> pUserDB1 o1 = take sizeof_oSync (arrived o1) \<and> sync_at lib (arrived o1))"

lemma recv_bytes_course:
  assumes "on_course lib io o1" "within_buffers lib io (recv_bytes c o1)"
  shows "on_course lib io (recv_bytes c o1)" "arrived (recv_bytes c o1) = arrived o1 @ c"
  using assms by (auto simp: on_course_def arrived_def recv_bytes_def within_buffers_def sync_at_def split: option.splits)


definition steps_on :: "crypto \<Rightarrow> image_lib \<Rightarrow> peerio \<Rightarrow> bytes \<Rightarrow> bytes list \<Rightarrow> received \<times> receiving \<Rightarrow> bool" where
  "steps_on cr lib io s ms r = (case r of
      (Reading n, o2) \<Rightarrow> on_course lib io o2 \<and> carries cr lib io (arrived o2 @ s) ms
    | (Message m, o2) \<Rightarrow> o2 = recv_new \<and> (\<exists>ms'. ms = m # ms' \<and> carries cr lib io s ms')
    | _ \<Rightarrow> False)"

lemma body_step:
  assumes "lib_ok lib" "pUserDB2 o1 = Some b" "on_course lib io o1" "carries cr lib io (b @ s) ms"
  shows "steps_on cr lib io s ms (recv_body cr lib io o1)"
proof -
  have b: "pUserDB1 o1 = take sizeof_oSync b" "sync_at lib b" "dwBytes o1 = length b" "sizeof_oSync \<le> length b"
    "length b \<le> size_of_sync (fst (sync_words lib (take sizeof_oSync b)))"
    using assms(2,3) by (auto simp: on_course_def within_buffers_def arrived_def)
  then have sync: "sync_at lib (b @ s)" by (simp add: sync_at_def)
  obtain f m s' ms' where f: "b @ s = f @ s'" "ms = m # ms'" "accepted_image cr lib io f m"
      "carries cr lib io s' ms'" "take sizeof_oSync b = take sizeof_oSync f"
    using assms(4,1)
  proof (cases rule: carries_cases)
    case nothing
    then show ?thesis using b(4) by (simp add: sizeof_oSync_def)
  next
    case (image f m s' ms')
    have "take sizeof_oSync b = take sizeof_oSync f" using image(7) b(4) by simp
    then show ?thesis using that image by blast
  next
    case noise
    then show ?thesis using sync by simp
  qed
  then have size: "size_of_sync (fst (sync_words lib (take sizeof_oSync b))) = length f"
    and dec: "\<exists>p. DecryptP2PiomageSwap cr lib f io = Some p \<and> m = handed_up lib io p"
    by (auto simp: accepted_image_def split: prod.splits)
  show ?thesis
  proof (cases "length b < length f")
    case True
    then show ?thesis using b size assms(2-4) by (simp add: steps_on_def recv_body_def arrived_def)
  next
    case False
    then have "length b = length f" using b(5) size by simp
    then have "b = f" "s = s'" using f(1) by auto
    then show ?thesis using b size dec f(2,4) assms(2) by (auto simp: steps_on_def recv_body_def Let_def)
  qed
qed

lemma recv_step:
  assumes "lib_ok lib" "on_course lib io o1" "carries cr lib io (arrived o1 @ s) ms"
  shows "steps_on cr lib io s ms (RecvP2PeerMsg cr lib io o1)"
proof (cases "pUserDB2 o1")
  case (Some b)
  then have "\<not> dwBytes o1 < sizeof_oSync" using assms(2) by (simp add: on_course_def within_buffers_def)
  then show ?thesis using body_step[OF assms(1) Some assms(2)] assms(3) Some by (simp add: RecvP2PeerMsg_def arrived_def)
next
  case None
  let ?b = "pUserDB1 o1"
  have b: "dwBytes o1 = length ?b" "length ?b \<le> sizeof_oSync" "arrived o1 = ?b"
    using None assms(2) by (auto simp: on_course_def within_buffers_def arrived_def)
  show ?thesis
  proof (cases "length ?b < sizeof_oSync")
    case True
    then show ?thesis using None b assms by (simp add: RecvP2PeerMsg_def steps_on_def)
  next
    case False
    then have l: "length ?b = sizeof_oSync" "take sizeof_oSync (?b @ s) = ?b" using b(2) by auto
    from assms(3)[unfolded b(3)] assms(1) show ?thesis
    proof (cases rule: carries_cases)
      case nothing
      then show ?thesis using l(1) by (simp add: sizeof_oSync_def)
    next
      case (image f m s' ms')
      have h: "take sizeof_oSync f = ?b" using image(7) l(2) by simp
      let ?o = "o1\<lparr>pUserDB2 := Some ?b\<rparr>"
      have r: "RecvP2PeerMsg cr lib io o1 = recv_body cr lib io ?o" and
        sz: "size_of_sync (fst (sync_words lib ?b)) = length f" "length f \<le> m_dwMaxRecvSize io"
        using image(3) None b(1) l(1) h by (auto simp: RecvP2PeerMsg_def accepted_image_def split: prod.splits)
      have "on_course lib io ?o"
        using b(1) l(1) sz image(5,6) l(2) by (simp add: on_course_def within_buffers_def arrived_def sync_at_def)
      then show ?thesis using body_step[OF assms(1), of ?o ?b io cr s ms] assms(3) b(3) r by simp
    next
      case noise
      have "RecvP2PeerMsg cr lib io o1 = (Reading 1, o1\<lparr>pUserDB1 := tl ?b, dwBytes := dwBytes o1 - 1\<rparr>)"
        using noise(2) None b(1) l by (auto simp: RecvP2PeerMsg_def sync_at_def split: prod.splits)
      moreover have "?b \<noteq> []" using l(1) by (auto simp: sizeof_oSync_def)
      ultimately show ?thesis using noise(3) None b(1,2)
        by (simp add: steps_on_def on_course_def within_buffers_def arrived_def)
    qed
  qed
qed

lemma link_run_carries:
  "link_run cr lib io o1 s out o2 rest \<Longrightarrow> lib_ok lib \<Longrightarrow> on_course lib io o1 \<Longrightarrow> carries cr lib io (arrived o1 @ s) ms \<Longrightarrow>
   \<exists>ms'. ms = out @ ms' \<and> on_course lib io o2 \<and> carries cr lib io (arrived o2 @ rest) ms'"
proof (induction arbitrary: ms rule: link_run.induct)
  case (link_reads o1 n o2 c s out o3 rest)
  then have "on_course lib io o2" "carries cr lib io (arrived o2 @ c @ s) ms"
    using recv_step[OF link_reads.prems(1,2,3)] by (simp_all add: steps_on_def)
  moreover have "within_buffers lib io (recv_bytes c o2)"
    using recv_within[OF link_reads.prems(1) _ link_reads.hyps(1)] link_reads.prems(2) link_reads.hyps(3) by (simp add: on_course_def)
  ultimately show ?case using link_reads.IH[OF link_reads.prems(1)] recv_bytes_course by simp
next
  case (link_hands_up o1 m o2 s out o3 rest)
  then obtain ms' where m: "ms = m # ms'" "carries cr lib io s ms'" "o2 = recv_new"
    using recv_step[OF link_hands_up.prems(1,2,3)] by (auto simp: steps_on_def)
  have "on_course lib io recv_new" "arrived recv_new = []"
    using recv_new_within by (simp_all add: on_course_def recv_new_def arrived_def)
  then show ?case using link_hands_up.IH[OF link_hands_up.prems(1)] m by simp
qed auto

lemma recv_body_reading:
  assumes "recv_body cr lib io o1 = (Reading n, o2)" "sizeof_oSync \<le> dwBytes o1"
  shows "o2 = o1 \<and> dwBytes o1 < size_of_sync (fst (sync_words lib (pUserDB1 o1)))"
  using assms by (simp add: recv_body_def Let_def split: if_splits option.splits)

lemma reading_is_short:
  assumes "RecvP2PeerMsg cr lib io o1 = (Reading n, o2)" "on_course lib io o1"
  shows "case pUserDB2 o2 of None \<Rightarrow> length (pUserDB1 o2) < sizeof_oSync
    | Some b \<Rightarrow> length b < size_of_sync (fst (sync_words lib (pUserDB1 o2)))"
proof (cases "pUserDB2 o1")
  case (Some b)
  then have "dwBytes o1 = length b" "sizeof_oSync \<le> length b" using assms(2) by (simp_all add: on_course_def within_buffers_def)
  then show ?thesis using recv_body_reading[of cr lib io o1 n o2] assms(1) Some by (simp add: RecvP2PeerMsg_def)
next
  case None
  then have d: "dwBytes o1 = length (pUserDB1 o1)" "length (pUserDB1 o1) \<le> sizeof_oSync"
    using assms(2) by (simp_all add: on_course_def within_buffers_def)
  let ?o = "o1\<lparr>pUserDB2 := Some (pUserDB1 o1)\<rparr>"
  consider "dwBytes o1 < sizeof_oSync" "o2 = o1" | "o2 = o1\<lparr>pUserDB1 := tl (pUserDB1 o1), dwBytes := dwBytes o1 - 1\<rparr>"
    | "sizeof_oSync \<le> dwBytes o1" "recv_body cr lib io ?o = (Reading n, o2)"
    using assms(1) None by (auto simp: RecvP2PeerMsg_def split: if_splits prod.splits)
  then show ?thesis
  proof cases
    case 1
    then show ?thesis using None d by simp
  next
    case 2
    then show ?thesis using None d(2) by (simp add: sizeof_oSync_def)
  next
    case 3
    then show ?thesis using recv_body_reading[OF 3(2)] d by simp
  qed
qed

lemma reading_nothing_left:
  assumes "lib_ok lib" "RecvP2PeerMsg cr lib io o1 = (Reading n, o2)" "on_course lib io o1" "on_course lib io o2"
    and "carries cr lib io (arrived o2) ms"
  shows "ms = []"
  using assms(5,1)
proof (cases rule: carries_cases)
  case (image f m s ms')
  show ?thesis
  proof (cases "pUserDB2 o2")
    case None
    then show ?thesis using reading_is_short[OF assms(2,3)] image(1,6) by (simp add: arrived_def)
  next
    case (Some b)
    then have "b = f @ s" "pUserDB1 o2 = take sizeof_oSync f"
      using image assms(4) by (auto simp: arrived_def on_course_def)
    then show ?thesis using reading_is_short[OF assms(2,3)] Some image(3)
      by (auto simp: accepted_image_def split: prod.splits)
  qed
next
  case noise
  show ?thesis
  proof (cases "pUserDB2 o2")
    case None
    then show ?thesis using reading_is_short[OF assms(2,3)] noise(1) by (simp add: arrived_def)
  next
    case (Some b)
    then show ?thesis using noise(2) assms(4) by (simp add: on_course_def)
  qed
qed

subsection \<open>A sealed link\<close>










lemma delivered:
  assumes "lib_ok lib" "carries cr lib io s ms" "link_run cr lib io recv_new s out o1 rest"
  shows "prefix out ms \<and> (case RecvP2PeerMsg cr lib io o1 of
      (Reading n, o2) \<Rightarrow> rest = [] \<longrightarrow> out = ms
    | (Message m, o2) \<Rightarrow> prefix (out @ [m]) ms
    | _ \<Rightarrow> False)"
proof -
  have "on_course lib io recv_new" "arrived recv_new = []"
    using recv_new_within by (simp_all add: on_course_def recv_new_def arrived_def)
  then obtain ms' where m: "ms = out @ ms'" "on_course lib io o1" "carries cr lib io (arrived o1 @ rest) ms'"
    using link_run_carries[OF assms(3,1)] assms(2) by auto
  obtain r o2 where r: "RecvP2PeerMsg cr lib io o1 = (r, o2)" by (metis surj_pair)
  have step: "steps_on cr lib io rest ms' (r, o2)" using recv_step[OF assms(1) m(2,3)] r by simp
  show ?thesis
  proof (cases r)
    case (Reading n)
    then have "ms' = []" if "rest = []"
      using that reading_nothing_left[OF assms(1) _ m(2)] r step by (simp add: steps_on_def)
    then show ?thesis using Reading r m(1) by simp
  next
    case (Message x)
    then show ?thesis using r m(1) step by (auto simp: steps_on_def)
  qed (use step in \<open>simp_all add: steps_on_def\<close>)
qed

text \<open>
  The framing delivers what a stream carries.  From any stream of accepted images, with noise between them
  in which no header starts, and however the stream is cut into reads, the link hands up exactly one message for
  each image (the image itself where there is no cypher), in order, and never refuses one; when the whole stream has been read and the next call waits for bytes, all of
  them have been handed up.
\<close>
theorem framing_delivers:
  assumes "lib_ok lib" "carries cr lib io s ms" "link_run cr lib io recv_new s out o1 rest"
  shows "prefix out ms \<and> (case RecvP2PeerMsg cr lib io o1 of
      (Reading n, o2) \<Rightarrow> rest = [] \<longrightarrow> out = ms
    | (Message m, o2) \<Rightarrow> prefix (out @ [m]) ms
    | _ \<Rightarrow> False)"
  using assms by (rule delivered)






subsection \<open>The budget of a key\<close>

fun Encrypts :: "crypto \<Rightarrow> bytes list \<Rightarrow> gcm \<Rightarrow> bytes option list" where
  "Encrypts cr [] g = []"
| "Encrypts cr (p # ps) g = (case Encrypt cr p g of (r, g') \<Rightarrow> r # Encrypts cr ps g')"

lemma Encrypt_counts:
  "Encrypt cr p g = (r, g') \<Longrightarrow> m_uSealCeiling g' = m_uSealCeiling g \<and> m_bKeyed g' = m_bKeyed g \<and> (m_bKeyed g \<longrightarrow> m_uSealCount g' = m_uSealCount g + 1) \<and>
    (r \<noteq> None \<longrightarrow> m_bKeyed g \<and> m_uSealCount g < m_uSealCeiling g)"
  by (auto simp: Encrypt_def Let_def split: if_splits option.splits)

lemma Encrypts_bounded:
  "unat (m_uSealCount g) + length ps \<le> 2 ^ 64 \<Longrightarrow>
   length (filter (\<lambda>r. r \<noteq> None) (Encrypts cr ps g)) \<le> unat (m_uSealCeiling g) - unat (m_uSealCount g)"
proof (induction ps arbitrary: g)
  case (Cons p ps)
  obtain r g' where e: "Encrypt cr p g = (r, g')" by (metis surj_pair)
  note c = Encrypt_counts[OF e]
  show ?case
  proof (cases "m_bKeyed g \<and> ps \<noteq> []")
    case True
    then have "unat (m_uSealCount g) + 1 < 2 ^ 64" using Cons.prems by (cases ps) auto
    then have u: "unat (m_uSealCount g') = unat (m_uSealCount g) + 1" using True c by (simp add: unat_word_ariths)
    then have "length (filter (\<lambda>r. r \<noteq> None) (Encrypts cr ps g')) \<le> unat (m_uSealCeiling g) - (unat (m_uSealCount g) + 1)"
      using Cons.IH[of g'] Cons.prems c by simp
    moreover have "unat (m_uSealCount g) < unat (m_uSealCeiling g)" if "r \<noteq> None" using that c by (simp add: word_less_nat_alt)
    ultimately show ?thesis using e by auto
  next
    case False
    show ?thesis
    proof (cases "ps = []")
      case True
      then show ?thesis using e c by (auto simp: word_less_nat_alt)
    next
      case False
      with \<open>\<not> (m_bKeyed g \<and> ps \<noteq> [])\<close> have k: "\<not> m_bKeyed g" by simp
      then have "r = None" "g' = g" using e by (simp_all add: Encrypt_def)
      then show ?thesis using Cons.IH[of g] Cons.prems e by simp
    qed
  qed
qed simp

text \<open>
  A key seals at most its ceiling.  From the moment a pair of keys is installed, whatever is to be sealed,
  no more than \<open>m_uSealCeiling\<close> bodies are sealed under it, and so many nonces drawn; unless the counter wraps,
  after 2^64 attempts.
\<close>
theorem key_seals_at_most:
  assumes "SetKeyPair key_ok sk rk g0 = (True, g)" "length ps \<le> 2 ^ 64"
  shows "length (filter (\<lambda>r. r \<noteq> None) (Encrypts cr ps g)) \<le> unat (m_uSealCeiling g0)"
proof -
  have "m_uSealCount g = 0" "m_uSealCeiling g = m_uSealCeiling g0"
    using assms(1) by (auto simp: SetKeyPair_def Let_def split: if_splits option.splits)
  then show ?thesis using Encrypts_bounded[of g ps cr] assms(2) by simp
qed

subsection \<open>An instance of the container library\<close>

definition example_lib :: image_lib where
  "example_lib = \<lparr>sync_words = (\<lambda>b. (word_of_nat (be_get (take 4 b)), word_of_nat (be_get (drop 4 b)))),
     sync_bytes = (\<lambda>w. be_put 4 (unat (fst w)) @ be_put 4 (unat (snd w))),
     VBLock_SyncNative = (\<lambda>w. True),
     VBLock_SyncMake = (\<lambda>n a. (word_of_nat n AND 0x00FFFFFF) OR push_bit 24 (ucast a)),
     VBLock_SyncAddr = (\<lambda>w. ucast (drop_bit 24 w)), sizeof_VBListIOmage = 12\<rparr>"

lemma low_mask: "(0x00FFFFFF :: 32 word) = mask 24" by (simp add: mask_eq_exp_minus_1)

lemma example_size:
  assumes "n < 2 ^ 24"
  shows "size_of_sync ((word_of_nat n AND 0x00FFFFFF) OR push_bit 24 (ucast (a :: 8 word))) = n"
proof -
  let ?w = "(word_of_nat n :: 32 word)"
  have "((?w AND mask 24) OR push_bit 24 (ucast a)) AND mask 24 = ?w AND mask 24"
    by (rule bit_word_eqI) (auto simp: bit_simps)
  moreover have "unat (?w AND mask 24) = n"
    using assms by (simp add: unat_of_nat take_bit_nat_eq_self flip: take_bit_eq_mask) (simp add: unsigned_take_bit_eq unat_of_nat take_bit_nat_eq_self)
  ultimately show ?thesis unfolding size_of_sync_def low_mask by simp
qed

lemma example_addr:
  "ucast (drop_bit 24 (push_bit 24 (ucast (ucast (drop_bit 24 (w :: 32 word)) :: 8 word) :: 32 word))) = (ucast (drop_bit 24 w) :: 8 word)"
  by (rule bit_word_eqI) (auto simp: bit_simps)

lemma example_make: "(word_of_nat (size_of_sync w) AND 0x00FFFFFF) OR push_bit 24 (ucast (ucast (drop_bit 24 w) :: 8 word)) = (w :: 32 word)"
  unfolding low_mask size_of_sync_def by (rule bit_word_eqI) (auto simp: bit_simps)

lemma example_lib_ok: "lib_ok example_lib"
proof -
  have "unat (w :: 32 word) mod 4294967296 = unat w" for w using unsigned_less[of w, where ?'a = nat] by simp
  then have "be_get (be_put 4 (unat (w :: 32 word))) = unat w" for w by (simp add: be_get_put)
  then show ?thesis
    by (auto simp: lib_ok_def example_lib_def sizeof_oSync_def example_size example_addr example_make)
qed

text \<open>A byte of noise, and an image of four bytes; no cypher.\<close>

definition example_io :: peerio where "example_io = \<lparr>m_pP2Pcrypto = None, m_bSealDecided = False, m_dwMaxRecvSize = 100\<rparr>"

definition example_image :: bytes where "example_image = [0, 0, 0, 12, 255, 255, 255, 243, 1, 2, 3, 4]"

lemmas example_run_simps = RecvP2PeerMsg_def recv_body_def recv_new_def recv_bytes_def example_lib_def sizeof_oSync_def size_of_sync_def
  example_io_def example_image_def handed_up_def DecryptP2PiomageSwap_def be_get_def push_bit_eq_mult

lemma example_run:
  "link_run cr example_lib example_io recv_new (7 # example_image) [example_image] recv_new []"
proof -
  let ?b = "[7, 0, 0, 0, 12, 255, 255, 255] :: bytes" and ?h = "[0, 0, 0, 12, 255, 255, 255, 243] :: bytes"
  let ?r1 = "\<lparr>pUserDB1 = ?b, pUserDB2 = None, dwBytes = 8\<rparr>" and ?r2 = "\<lparr>pUserDB1 = tl ?b, pUserDB2 = None, dwBytes = 7\<rparr>"
  let ?r3 = "\<lparr>pUserDB1 = ?h, pUserDB2 = None, dwBytes = 8\<rparr>" and ?r4 = "\<lparr>pUserDB1 = ?h, pUserDB2 = Some ?h, dwBytes = 8\<rparr>"
  let ?r5 = "\<lparr>pUserDB1 = ?h, pUserDB2 = Some example_image, dwBytes = 12\<rparr>"
  have "RecvP2PeerMsg cr example_lib example_io ?r5 = (Message example_image, recv_new)" by (simp add: example_run_simps)
  then have 5: "link_run cr example_lib example_io ?r5 [] [example_image] recv_new []" by (rule link_hands_up) (rule link_stops)
  have "RecvP2PeerMsg cr example_lib example_io ?r3 = (Reading 4, ?r4)" by (simp add: example_run_simps)
  from link_reads[OF this, of "[1, 2, 3, 4]" "[]"] 5
  have 3: "link_run cr example_lib example_io ?r3 [1, 2, 3, 4] [example_image] recv_new []" by (simp add: recv_bytes_def example_image_def)
  have "RecvP2PeerMsg cr example_lib example_io ?r1 = (Reading 1, ?r2)" by (simp add: example_run_simps)
  from link_reads[OF this, of "[243]" "[1, 2, 3, 4]"] 3
  have 1: "link_run cr example_lib example_io ?r1 [243, 1, 2, 3, 4] [example_image] recv_new []" by (simp add: recv_bytes_def)
  have "RecvP2PeerMsg cr example_lib example_io recv_new = (Reading 8, recv_new)" by (simp add: example_run_simps)
  from link_reads[OF this, of ?b "[243, 1, 2, 3, 4]"] 1 show ?thesis by (simp add: recv_bytes_def recv_new_def example_image_def eval_nat_numeral)
qed

lemma example_carries: "carries cr example_lib example_io (7 # example_image) [example_image]"
proof -
  have "accepted_image cr example_lib example_io example_image example_image" by (simp add: accepted_image_def example_run_simps)
  from carries_image[OF this carries_none] have "carries cr example_lib example_io example_image [example_image]" by simp
  then show ?thesis by (rule carries_noise[rotated 2]) (simp_all add: example_run_simps)
qed

theorem reads_stay_in_buffers_witness:
  "RecvP2PeerMsg (example_crypto (\<lambda>m. True)) example_lib example_io recv_new = (Reading 8, recv_new) \<and> dwBytes recv_new + 8 \<le> room example_lib recv_new"
proof -
  have r: "RecvP2PeerMsg (example_crypto (\<lambda>m. True)) example_lib example_io recv_new = (Reading 8, recv_new)" by (simp add: example_run_simps)
  show ?thesis using reads_stay_in_buffers[OF example_lib_ok example_run r] r by simp
qed

theorem framing_delivers_witness: "prefix [example_image] [example_image]"
  using framing_delivers[OF example_lib_ok example_carries example_run, of "example_crypto (\<lambda>m. True)"] by blast






theorem key_seals_at_most_witness:
  "length (filter (\<lambda>r. r \<noteq> None) (Encrypts (example_crypto (\<lambda>m. True)) [[1], [2], [3]]
     (snd (SetKeyPair (\<lambda>k. True) (Some (replicate 32 1)) (Some (replicate 32 2)) (SetSealCeiling 2 gcm_new))))) \<le> 2"
proof -
  let ?g = "snd (SetKeyPair (\<lambda>k. True) (Some (replicate 32 1)) (Some (replicate 32 2)) (SetSealCeiling 2 gcm_new))"
  have "SetKeyPair (\<lambda>k. True) (Some (replicate 32 1)) (Some (replicate 32 2)) (SetSealCeiling 2 gcm_new) = (True, ?g)"
    by (simp add: SetKeyPair_def kAesKeyLen_def)
  from key_seals_at_most[OF this, of "[[1], [2], [3]]" "example_crypto (\<lambda>m. True)"] show ?thesis by (simp add: SetSealCeiling_def)
qed

end
