(* ===== verification/ConFlow.thy ===== *)
theory ConFlow
  imports ConSession
begin

text \<open>
  The receive side of a connection at work (P2PeerCon.cpp): the completion of a read, the loop that takes
  messages off the link, the hold for a login the pump still owes, the hold while the process has too many
  messages, and what resumes reading after each.

  The loop and the pump may be two threads; their steps interleave at the compare-exchanges and posts of the
  code.  A drop is a step of the loop's own thread, or comes while the loop is stopped.
\<close>

record recv_ov =
  bQueued :: bool
  bParked :: bool
  bDelete :: bool
  bRecvSubmitted :: bool

record flow =
  fl_con :: con
  m_pOVERLAPPEDrecv :: "recv_ov option"
  m_bRecvThrottled :: bool
  m_uThrottleTimerID :: nat
  m_cRecvThrottled :: nat
  m_hCPort :: bool
  m_hFileCPort :: bool
  m_bDestroy :: bool

definition MakeOVERLAPPED :: recv_ov where
  "MakeOVERLAPPED = \<lparr>bQueued = False, bParked = False, bDelete = False, bRecvSubmitted = False\<rparr>"

definition prepareOVERLAPPED :: "recv_ov \<Rightarrow> recv_ov" where "prepareOVERLAPPED o1 = o1\<lparr>bQueued := True\<rparr>"
definition releaseOVERLAPPED :: "recv_ov \<Rightarrow> recv_ov" where "releaseOVERLAPPED o1 = o1\<lparr>bQueued := False\<rparr>"

text \<open>Whether a completion was posted, which then carries no bytes.\<close>

definition RearmRecv :: "flow \<Rightarrow> bool \<times> flow" where
  "RearmRecv f =
     (case m_pOVERLAPPEDrecv f of None \<Rightarrow> (False, f)
      | Some o1 \<Rightarrow> if bQueued o1 \<or> bParked o1 \<or> bDelete o1 \<or> \<not> m_hCPort f then (False, f)
                  else (True, f\<lparr>m_pOVERLAPPEDrecv := Some (prepareOVERLAPPED o1)\<rparr>))"

text \<open>\<open>pressed\<close>: the process is at its high mark; \<open>t\<close>: the identifier of the timer it arms.\<close>

definition HoldRecvForBackpressure :: "bool \<Rightarrow> nat \<Rightarrow> flow \<Rightarrow> bool \<times> flow" where
  "HoldRecvForBackpressure pressed t f =
     (if m_bRecvThrottled f then (True, f)
      else if \<not> pressed then (False, f)
      else if m_bDestroy f then (False, f)
      else (True, f\<lparr>m_bRecvThrottled := True, m_cRecvThrottled := m_cRecvThrottled f + 1, m_uThrottleTimerID := t\<rparr>))"

text \<open>The branch of \<open>On_PITimer\<close> for \<open>m_uThrottleTimerID\<close>; whether a completion was posted.\<close>

definition On_PITimer :: "bool \<Rightarrow> bool \<Rightarrow> nat \<Rightarrow> flow \<Rightarrow> bool \<times> flow" where
  "On_PITimer bCancel relieved t f0 =
     (let f = f0\<lparr>m_uThrottleTimerID := 0\<rparr> in
      if bCancel \<or> m_bDestroy f then (False, f)
      else if \<not> relieved then (False, f\<lparr>m_uThrottleTimerID := t\<rparr>)
      else RearmRecv (f\<lparr>m_bRecvThrottled := False\<rparr>))"

text \<open>
  Cancelling a timer that is armed calls its handler with \<open>bCancel\<close>.  The case that its message is in the
  queue already is the timer firing before the close.
\<close>

definition OnClose :: "flow \<Rightarrow> flow" where
  "OnClose f0 = (let f = f0\<lparr>fl_con := SetState 0 ON_ConClose (fl_con f0)\<rparr> in
     if m_uThrottleTimerID f = 0 then f else snd (On_PITimer True False 0 f))"

definition flow_Drop :: "flow \<Rightarrow> flow" where
  "flow_Drop f = f\<lparr>fl_con := con_Drop (fl_con f), m_hFileCPort := False,
     m_pOVERLAPPEDrecv := (case m_pOVERLAPPEDrecv f of None \<Rightarrow> None | Some o1 \<Rightarrow> if bQueued o1 then Some o1 else None)\<rparr>"

text \<open>A connection that comes up, for the first time or again; whether a completion was posted.\<close>

definition OnConnect :: "flow \<Rightarrow> bool \<times> flow" where
  "OnConnect f0 =
     (let f = f0\<lparr>m_hFileCPort := True, fl_con := SetState (ConState_Send OR ConState_Recv) 0 (fl_con f0)\<rparr>;
          o1 = (case m_pOVERLAPPEDrecv f of None \<Rightarrow> MakeOVERLAPPED | Some o1 \<Rightarrow> o1)
      in (\<not> bQueued o1, f\<lparr>m_pOVERLAPPEDrecv := Some (prepareOVERLAPPED o1)\<rparr>))"

text \<open>The completion of the receive: the loop is entered, an event is thrown, or it was cancelled.\<close>

datatype completion = EnterLoop | Failure | Cancellation

definition recv_completed :: "bool \<Rightarrow> nat \<Rightarrow> bool \<Rightarrow> flow \<Rightarrow> completion \<times> flow" where
  "recv_completed failed dwBytes RecvZeroIsOrderlyClose f =
     (case m_pOVERLAPPEDrecv f of None \<Rightarrow> (Cancellation, f)
      | Some o1 \<Rightarrow>
        let bRecvCompleted = bRecvSubmitted o1;
            hr = failed \<or> (dwBytes = 0 \<and> bRecvCompleted \<and> RecvZeroIsOrderlyClose);
            f = f\<lparr>m_pOVERLAPPEDrecv := Some (releaseOVERLAPPED (o1\<lparr>bRecvSubmitted := False\<rparr>))\<rparr>
        in if \<not> hr \<and> m_hFileCPort f then (EnterLoop, f)
           else if hr \<and> m_hFileCPort f then (Failure, f)
           else (Cancellation, f\<lparr>m_pOVERLAPPEDrecv := None\<rparr>))"

text \<open>The top of the loop: it stops, or it asks the framing for a message, which issues a read if there is none.\<close>

definition loop_top :: "bool \<Rightarrow> nat \<Rightarrow> flow \<Rightarrow> bool \<times> flow" where
  "loop_top pressed t f =
     (case ParkForLogin (fl_con f) of (b, c) \<Rightarrow>
        if b then (True, f\<lparr>fl_con := c\<rparr>) else HoldRecvForBackpressure pressed t (f\<lparr>fl_con := c\<rparr>))"

definition read_issued :: "flow \<Rightarrow> flow" where
  "read_issued f = f\<lparr>m_pOVERLAPPEDrecv := map_option (\<lambda>o1. (prepareOVERLAPPED o1)\<lparr>bRecvSubmitted := True\<rparr>) (m_pOVERLAPPEDrecv f)\<rparr>"

subsection \<open>The two threads\<close>

datatype posted = Armed | OnWire
datatype looping = Stopped | AtTop | AtPost
datatype pumping = PumpIdle | LoginSet | Rearming

text \<open>
  \<open>outstanding\<close>: completions of the receive still to come; \<open>owed\<close>: logins posted to the pump and not applied;
  \<open>cypher_due\<close>: a \<open>P2P_CypherEx\<close> posted to the pump and not handled; \<open>closed\<close>: the close handler has run.
\<close>

record link =
  fl :: flow
  loop :: looping
  pump_at :: pumping
  outstanding :: "posted list"
  owed :: nat
  cypher_due :: bool
  closed :: bool

datatype event = Completes posted bool nat bool | Stops bool nat | IssuesRead | RefusesImage | TakesKeyX | TakesLogin | PostsLogin | TakesApp
  | Throws | AppliesLogin | RefusesLogin | ReleasesHold | Rearms | DropsOnCypherEx | KeepsOnCypherEx
  | TimerFires bool nat | Drops | Closes | Connects | Destroys

definition dropped :: "link \<Rightarrow> link" where "dropped s = s\<lparr>fl := flow_Drop (fl s), loop := Stopped\<rparr>"

definition complete :: "posted \<Rightarrow> bool \<Rightarrow> nat \<Rightarrow> bool \<Rightarrow> link \<Rightarrow> link" where
  "complete p failed n z s =
     (let s' = s\<lparr>outstanding := remove1 p (outstanding s)\<rparr> in
      case recv_completed failed n z (fl s) of
        (EnterLoop, f) \<Rightarrow> s'\<lparr>fl := f, loop := AtTop\<rparr>
      | (Failure, f) \<Rightarrow> dropped (s'\<lparr>fl := f\<rparr>)
      | (Cancellation, f) \<Rightarrow> s'\<lparr>fl := f\<rparr>)"

definition armed :: "bool \<times> flow \<Rightarrow> link \<Rightarrow> link" where
  "armed r s = s\<lparr>fl := snd r, outstanding := (if fst r then outstanding s @ [Armed] else outstanding s)\<rparr>"

text \<open>The loop goes on when neither hold stops it.\<close>

definition goes_on :: "link \<Rightarrow> bool" where
  "goes_on s \<longleftrightarrow> loop s = AtTop \<and> \<not> fst (loop_top False 0 (fl s))"

text \<open>
  \<open>can\<close> says when an event may happen, \<open>after\<close> what it does.  A read that is armed carries no bytes; timers have
  identifiers other than 0.  The pump takes what is posted in order, so it closes a dropped connection when it has
  applied or refused the logins posted before, and handled the cypher exception; a closed connection comes up
  again when its completions are drained.

  \<open>RefusesImage\<close>: the framing asks the cypher to open an image and the cypher refuses.  It posts \<open>P2P_CypherEx\<close>
  to the pump and returns no message, and no read has been issued; the loop ends.  The handler of the library
  throws, which drops the connection (\<open>DropsOnCypherEx\<close>); one that the application maps in its place may return
  (\<open>KeepsOnCypherEx\<close>).
\<close>

fun can :: "event \<Rightarrow> link \<Rightarrow> bool" where
  "can (Completes p failed n z) s \<longleftrightarrow> p \<in> set (outstanding s) \<and> loop s = Stopped \<and> (p = Armed \<longrightarrow> n = 0)"
| "can (Stops pressed t) s \<longleftrightarrow> loop s = AtTop \<and> t \<noteq> 0 \<and> fst (loop_top pressed t (fl s))"
| "can IssuesRead s \<longleftrightarrow> goes_on s"
| "can RefusesImage s \<longleftrightarrow> goes_on s"
| "can TakesKeyX s \<longleftrightarrow> goes_on s"
| "can TakesLogin s \<longleftrightarrow> goes_on s"
| "can PostsLogin s \<longleftrightarrow> loop s = AtPost"
| "can TakesApp s \<longleftrightarrow> goes_on s"
| "can Throws s \<longleftrightarrow> goes_on s"
| "can AppliesLogin s \<longleftrightarrow> pump_at s = PumpIdle \<and> owed s > 0"
| "can RefusesLogin s \<longleftrightarrow> pump_at s = PumpIdle \<and> owed s > 0 \<and> loop s = Stopped"
| "can ReleasesHold s \<longleftrightarrow> pump_at s = LoginSet"
| "can Rearms s \<longleftrightarrow> pump_at s = Rearming"
| "can DropsOnCypherEx s \<longleftrightarrow> pump_at s = PumpIdle \<and> cypher_due s \<and> loop s = Stopped"
| "can KeepsOnCypherEx s \<longleftrightarrow> pump_at s = PumpIdle \<and> cypher_due s \<and> loop s = Stopped"
| "can (TimerFires relieved t) s \<longleftrightarrow> pump_at s = PumpIdle \<and> t \<noteq> 0 \<and> m_uThrottleTimerID (fl s) \<noteq> 0"
| "can Drops s \<longleftrightarrow> pump_at s = PumpIdle \<and> loop s = Stopped"
| "can Closes s \<longleftrightarrow> pump_at s = PumpIdle \<and> loop s = Stopped \<and> owed s = 0 \<and> \<not> cypher_due s \<and> \<not> m_hFileCPort (fl s)"
| "can Connects s \<longleftrightarrow> pump_at s = PumpIdle \<and> closed s \<and> outstanding s = []"
| "can Destroys s \<longleftrightarrow> True"

definition set_con :: "con \<Rightarrow> link \<Rightarrow> link" where "set_con c s = s\<lparr>fl := (fl s)\<lparr>fl_con := c\<rparr>\<rparr>"

text \<open>The framing returns no message for the image, behind the post of \<open>P2P_CypherEx\<close>; no read is issued.\<close>

definition image_refused :: "link \<Rightarrow> link" where
  [simp]: "image_refused s = s\<lparr>cypher_due := True, loop := Stopped\<rparr>"

fun after :: "event \<Rightarrow> link \<Rightarrow> link" where
  "after (Completes p failed n z) s = complete p failed n z s"
| "after (Stops pressed t) s = s\<lparr>fl := snd (loop_top pressed t (fl s)), loop := Stopped\<rparr>"
| "after IssuesRead s = s\<lparr>fl := read_issued (fl s), outstanding := outstanding s @ [OnWire], loop := Stopped\<rparr>"
| "after RefusesImage s = image_refused s"
| "after TakesKeyX s = s"
| "after TakesLogin s = (set_con (SetState ConState_LoginHold 0 (fl_con (fl s))) s)\<lparr>loop := AtPost\<rparr>"
| "after PostsLogin s = s\<lparr>owed := owed s + 1, loop := AtTop\<rparr>"
| "after TakesApp s = s"
| "after Throws s = dropped s"
| "after AppliesLogin s = (set_con (SetState ConState_Login 0 (fl_con (fl s))) s)\<lparr>owed := owed s - 1, pump_at := LoginSet\<rparr>"
| "after RefusesLogin s = (dropped s)\<lparr>owed := owed s - 1\<rparr>"
| "after ReleasesHold s = (case ReleaseLoginHold (fl_con (fl s)) of (b, c) \<Rightarrow> (set_con c s)\<lparr>pump_at := if b then Rearming else PumpIdle\<rparr>)"
| "after Rearms s = (armed (RearmRecv (fl s)) s)\<lparr>pump_at := PumpIdle\<rparr>"
| "after DropsOnCypherEx s = (dropped s)\<lparr>cypher_due := False\<rparr>"
| "after KeepsOnCypherEx s = s\<lparr>cypher_due := False\<rparr>"
| "after (TimerFires relieved t) s = armed (On_PITimer False relieved t (fl s)) s"
| "after Drops s = dropped s"
| "after Closes s = s\<lparr>fl := OnClose (fl s), closed := True\<rparr>"
| "after Connects s = (armed (OnConnect (fl s)) s)\<lparr>closed := False\<rparr>"
| "after Destroys s = s\<lparr>fl := (fl s)\<lparr>m_bDestroy := True\<rparr>\<rparr>"

text \<open>A connection at rest, before it first comes up.\<close>

definition flow_new :: "con \<Rightarrow> flow" where
  "flow_new c = \<lparr>fl_con = c, m_pOVERLAPPEDrecv = None, m_bRecvThrottled = False, m_uThrottleTimerID = 0, m_cRecvThrottled = 0,
     m_hCPort = True, m_hFileCPort = False, m_bDestroy = False\<rparr>"

definition link_new :: "con \<Rightarrow> link" where
  "link_new c = \<lparr>fl = flow_new c, loop = Stopped, pump_at = PumpIdle, outstanding = [], owed = 0, cypher_due = False, closed = True\<rparr>"

inductive flows :: "link \<Rightarrow> event list \<Rightarrow> link \<Rightarrow> bool" where
  flows_none: "flows s [] s"
| flows_more: "flows s es s1 \<Longrightarrow> can e s1 \<Longrightarrow> flows s (es @ [e]) (after e s1)"

subsection \<open>The two bits of the login hold\<close>

definition held :: "con \<Rightarrow> bool" where "held c \<longleftrightarrow> bit (m_dwState c) 8"
definition parked :: "con \<Rightarrow> bool" where "parked c \<longleftrightarrow> bit (m_dwState c) 9"

lemmas hold_bits = ConState_LoginHold_def ConState_LoginParked_def ConState_Login_def ConState_Send_def ConState_Recv_def
  ConState_CloseOnIdle_def ON_ConClose_def

lemma bit_test: "(w :: 32 word) AND push_bit n 1 = 0 \<longleftrightarrow> \<not> bit w n"
  by (simp add: push_bit_eq_mult and_exp_eq_0_iff_not_bit)

lemma hold_test: "m_dwState c AND ConState_LoginHold = 0 \<longleftrightarrow> \<not> held c" "m_dwState c AND ConState_LoginParked = 0 \<longleftrightarrow> \<not> parked c"
  unfolding held_def parked_def ConState_LoginHold_def ConState_LoginParked_def by (rule bit_test)+

lemma hold_test_both: "m_dwState c AND (ConState_LoginHold OR ConState_LoginParked) = 0 \<longleftrightarrow> \<not> held c \<and> \<not> parked c"
  using hold_test[of c] by (simp add: bit.conj_disj_distrib or_eq_0_iff)

lemma hold_frames [simp]:
  "held (SetState ConState_LoginHold 0 c)" "parked (SetState ConState_LoginHold 0 c) = parked c"
  "held (SetState ConState_Login 0 c) = held c" "parked (SetState ConState_Login 0 c) = parked c"
  "held (SetState (ConState_Send OR ConState_Recv) 0 c) = held c" "parked (SetState (ConState_Send OR ConState_Recv) 0 c) = parked c"
  "held (SetState 0 ON_ConClose c) = held c" "parked (SetState 0 ON_ConClose c) = parked c"
  "\<not> held (con_Drop c)" "\<not> parked (con_Drop c)"
  by (simp_all add: held_def parked_def SetState_def con_Drop_def hold_bits bit_simps)

lemma park_cases:
  "ParkForLogin c = (held c, snd (ParkForLogin c))" "\<not> held c \<Longrightarrow> snd (ParkForLogin c) = c"
  "held c \<Longrightarrow> \<not> held (snd (ParkForLogin c))" "held c \<Longrightarrow> parked (snd (ParkForLogin c))"
  using hold_test[of c] by (auto simp: ParkForLogin_def) (auto simp: held_def parked_def hold_bits bit_simps)

lemma release_cases:
  "fst (ReleaseLoginHold c) = parked c" "\<not> held (snd (ReleaseLoginHold c))" "\<not> parked (snd (ReleaseLoginHold c))"
proof -
  let ?b = "ConState_LoginHold OR ConState_LoginParked"
  let ?c1 = "c\<lparr>con_que := (if m_oCListMsgQue (con_que c) \<noteq> [] then wake_send (con_que c) else con_que c)\<rparr>"
  have w: "m_dwState ?c1 = m_dwState c" by simp
  have off: "\<not> bit (w AND NOT ?b) 8" "\<not> bit (w AND NOT ?b) 9" for w by (simp_all add: hold_bits bit_simps)
  have r: "ReleaseLoginHold c = (if m_dwState c AND ?b = 0 then (False, ?c1)
      else (m_dwState c AND ConState_LoginParked \<noteq> 0, ?c1\<lparr>m_dwState := m_dwState c AND NOT ?b\<rparr>))"
    unfolding ReleaseLoginHold_def Let_def w ..
  show "fst (ReleaseLoginHold c) = parked c" "\<not> held (snd (ReleaseLoginHold c))" "\<not> parked (snd (ReleaseLoginHold c))"
    using hold_test[of c] hold_test_both[of c] off[of "m_dwState c"] unfolding r held_def parked_def by (simp_all del: bit.de_Morgan_disj)
qed

subsection \<open>Who may resume reading\<close>

text \<open>The receive buffer agrees with what is outstanding.\<close>

definition ov_fits :: "recv_ov option \<Rightarrow> posted list \<Rightarrow> bool \<Rightarrow> bool" where
  "ov_fits r out hFile \<longleftrightarrow> (case r of
     None \<Rightarrow> out = [] \<and> \<not> hFile
   | Some o1 \<Rightarrow> \<not> bParked o1 \<and> \<not> bDelete o1 \<and> (bQueued o1 \<or> hFile) \<and>
       out = (if bQueued o1 then [if bRecvSubmitted o1 then OnWire else Armed] else []) \<and> (bRecvSubmitted o1 \<longrightarrow> bQueued o1))"

definition ov_ok :: "link \<Rightarrow> bool" where
  "ov_ok s \<longleftrightarrow> m_hCPort (fl s) \<and> ov_fits (m_pOVERLAPPEDrecv (fl s)) (outstanding s) (m_hFileCPort (fl s))"

definition login_due :: "link \<Rightarrow> bool" where
  "login_due s \<longleftrightarrow> owed s > 0 \<or> pump_at s = LoginSet"

text \<open>The loop, the pump for a login and the timer: at most one of them is in charge of the next read.\<close>

definition loop_ok :: "link \<Rightarrow> bool" where
  "loop_ok s \<longleftrightarrow> (loop s \<noteq> Stopped \<longrightarrow> outstanding s = [] \<and> m_hFileCPort (fl s) \<and> \<not> parked (fl_con (fl s)) \<and>
       pump_at s \<noteq> Rearming \<and> m_uThrottleTimerID (fl s) = 0) \<and>
     (loop s = AtPost \<longrightarrow> held (fl_con (fl s)) \<and> \<not> login_due s)"

definition login_ok :: "link \<Rightarrow> bool" where
  "login_ok s \<longleftrightarrow> owed s \<le> 1 \<and> (owed s > 0 \<longrightarrow> pump_at s = PumpIdle) \<and>
     (held (fl_con (fl s)) \<longrightarrow> loop s = AtPost \<or> loop s = AtTop \<and> login_due s) \<and>
     (parked (fl_con (fl s)) \<longrightarrow> login_due s \<and> outstanding s = [] \<and> m_hFileCPort (fl s) \<and> m_uThrottleTimerID (fl s) = 0) \<and>
     (login_due s \<and> m_hFileCPort (fl s) \<longrightarrow> held (fl_con (fl s)) \<or> parked (fl_con (fl s))) \<and>
     (pump_at s = Rearming \<longrightarrow> outstanding s = [] \<and> m_hFileCPort (fl s) \<and> m_uThrottleTimerID (fl s) = 0)"

definition timer_ok :: "link \<Rightarrow> bool" where
  "timer_ok s \<longleftrightarrow> (m_uThrottleTimerID (fl s) \<noteq> 0 \<longrightarrow> m_bRecvThrottled (fl s) \<and> (m_hFileCPort (fl s) \<longrightarrow> outstanding s = []) \<and> \<not> closed s) \<and>
     (closed s \<longrightarrow> \<not> m_hFileCPort (fl s) \<and> \<not> login_due s)"

definition flow_ok :: "link \<Rightarrow> bool" where
  "flow_ok s \<longleftrightarrow> ov_ok s \<and> loop_ok s \<and> login_ok s \<and> timer_ok s"

lemmas flow_ok_defs = flow_ok_def ov_ok_def loop_ok_def login_ok_def timer_ok_def login_due_def

lemma goes_on_iff: "goes_on s \<longleftrightarrow> loop s = AtTop \<and> \<not> held (fl_con (fl s)) \<and> \<not> m_bRecvThrottled (fl s)"
  using park_cases(1,2)[of "fl_con (fl s)"] by (auto simp: goes_on_def loop_top_def HoldRecvForBackpressure_def split: prod.splits)

lemma loop_top_held: "held (fl_con f) \<Longrightarrow> loop_top b t f = (True, f\<lparr>fl_con := snd (ParkForLogin (fl_con f))\<rparr>)"
  by (subst loop_top_def, subst park_cases(1)) simp

lemma loop_top_free: "\<not> held (fl_con f) \<Longrightarrow> loop_top b t f = HoldRecvForBackpressure b t f"
  by (subst loop_top_def, subst park_cases(1)) (simp add: park_cases(2))

lemma drop_ok:
  assumes "ov_ok s" "loop s = Stopped \<or> outstanding s = []" "owed s \<le> 1" "owed s > 0 \<longrightarrow> pump_at s = PumpIdle" "pump_at s \<noteq> Rearming" "timer_ok s"
  shows "flow_ok (dropped s)"
  using assms by (auto simp: flow_ok_defs ov_fits_def dropped_def flow_Drop_def split: option.splits if_splits)

lemma complete_ok:
  assumes "flow_ok s" "p \<in> set (outstanding s)" "loop s = Stopped"
  shows "flow_ok (complete p failed n z s)"
proof -
  obtain o1 where o1: "m_pOVERLAPPEDrecv (fl s) = Some o1" "bQueued o1" "outstanding s = [p]"
    using assms(1,2) by (auto simp: flow_ok_defs ov_fits_def split: option.splits if_splits)
  let ?f = "(fl s)\<lparr>m_pOVERLAPPEDrecv := Some (releaseOVERLAPPED (o1\<lparr>bRecvSubmitted := False\<rparr>))\<rparr>"
  have r: "recv_completed failed n z (fl s) = (EnterLoop, ?f) \<and> m_hFileCPort (fl s) \<or>
     recv_completed failed n z (fl s) = (Failure, ?f) \<and> m_hFileCPort (fl s) \<or>
     recv_completed failed n z (fl s) = (Cancellation, ?f\<lparr>m_pOVERLAPPEDrecv := None\<rparr>) \<and> \<not> m_hFileCPort (fl s)"
    using o1 by (auto simp: recv_completed_def Let_def)
  have l: "\<not> held (fl_con (fl s))" "\<not> parked (fl_con (fl s))" "pump_at s \<noteq> Rearming" using assms(1,3) o1(3) by (auto simp: flow_ok_defs)
  from r show ?thesis
  proof (elim disjE conjE)
    assume "recv_completed failed n z (fl s) = (EnterLoop, ?f)" "m_hFileCPort (fl s)"
    then show ?thesis using assms o1 l by (auto simp: flow_ok_defs ov_fits_def complete_def releaseOVERLAPPED_def)
  next
    assume c: "recv_completed failed n z (fl s) = (Failure, ?f)" "m_hFileCPort (fl s)"
    have "flow_ok (dropped (s\<lparr>outstanding := [], fl := ?f\<rparr>))"
      using assms o1 l c(2) by (intro drop_ok) (auto simp: flow_ok_defs ov_fits_def releaseOVERLAPPED_def)
    then show ?thesis using c o1 by (simp add: complete_def)
  next
    assume "recv_completed failed n z (fl s) = (Cancellation, ?f\<lparr>m_pOVERLAPPEDrecv := None\<rparr>)" "\<not> m_hFileCPort (fl s)"
    then show ?thesis using assms o1 l by (auto simp: flow_ok_defs ov_fits_def complete_def)
  qed
qed

lemma stops_ok:
  assumes "flow_ok s" "loop s = AtTop" "t \<noteq> 0" "fst (loop_top b t (fl s))"
  shows "flow_ok (s\<lparr>fl := snd (loop_top b t (fl s)), loop := Stopped\<rparr>)"
proof (cases "held (fl_con (fl s))")
  case True
  then show ?thesis using assms park_cases(3,4)[OF True] by (auto simp: flow_ok_defs loop_top_held)
next
  case False
  then show ?thesis using assms
    by (auto simp: flow_ok_defs loop_top_free HoldRecvForBackpressure_def split: if_splits)
qed

lemma rearm_ok:
  assumes "ov_ok s" "m_hFileCPort (fl s)" "outstanding s = []"
  shows "ov_ok (armed (RearmRecv (fl s)) s)" "outstanding (armed (RearmRecv (fl s)) s) = [Armed]"
  using assms by (auto simp: ov_ok_def ov_fits_def armed_def RearmRecv_def prepareOVERLAPPED_def split: option.splits if_splits)

lemma rearm_frames:
  "fl_con (snd (RearmRecv f)) = fl_con f" "m_hFileCPort (snd (RearmRecv f)) = m_hFileCPort f" "m_bRecvThrottled (snd (RearmRecv f)) = m_bRecvThrottled f"
  "m_uThrottleTimerID (snd (RearmRecv f)) = m_uThrottleTimerID f" "m_bDestroy (snd (RearmRecv f)) = m_bDestroy f"
  by (simp_all add: RearmRecv_def split: option.split)

lemma armed_frames [simp]:
  "fl (armed r s) = snd r" "loop (armed r s) = loop s" "pump_at (armed r s) = pump_at s" "owed (armed r s) = owed s" "closed (armed r s) = closed s"
  "cypher_due (armed r s) = cypher_due s"
  by (simp_all add: armed_def)

lemma rearm_idle:
  assumes "ov_ok s" "\<not> m_hFileCPort (fl s)"
  shows "RearmRecv (fl s) = (False, fl s)"
  using assms by (auto simp: ov_ok_def ov_fits_def RearmRecv_def split: option.splits)

lemma rearms_ok:
  assumes "flow_ok s" "pump_at s = Rearming"
  shows "flow_ok ((armed (RearmRecv (fl s)) s)\<lparr>pump_at := PumpIdle\<rparr>)"
  using assms rearm_ok[of s] by (auto simp: flow_ok_defs rearm_frames)

lemma timer_fires_ok:
  assumes "flow_ok s" "pump_at s = PumpIdle" "t \<noteq> 0" "m_uThrottleTimerID (fl s) \<noteq> 0"
  shows "flow_ok (armed (On_PITimer False relieved t (fl s)) s)"
proof -
  let ?f = "(fl s)\<lparr>m_uThrottleTimerID := 0\<rparr>" and ?g = "(fl s)\<lparr>m_uThrottleTimerID := 0, m_bRecvThrottled := False\<rparr>"
  have l: "loop s = Stopped" "\<not> held (fl_con (fl s))" "\<not> parked (fl_con (fl s))" using assms by (auto simp: flow_ok_defs)
  consider "On_PITimer False relieved t (fl s) = (False, ?f)" | "On_PITimer False relieved t (fl s) = (False, (fl s)\<lparr>m_uThrottleTimerID := t\<rparr>)"
    | "On_PITimer False relieved t (fl s) = RearmRecv ?g"
  proof (cases "m_bDestroy (fl s)"; cases relieved)
  qed (auto simp: On_PITimer_def Let_def)
  then show ?thesis
  proof cases
    case 1
    then show ?thesis using assms l by (auto simp: flow_ok_defs armed_def)
  next
    case 2
    then show ?thesis using assms l by (auto simp: flow_ok_defs armed_def)
  next
    case 3
    let ?s = "s\<lparr>fl := ?g\<rparr>"
    have ok: "flow_ok ?s" using assms l by (auto simp: flow_ok_defs)
    have e: "armed (RearmRecv (fl ?s)) ?s = armed (On_PITimer False relieved t (fl s)) s" by (simp add: 3 armed_def)
    show ?thesis
    proof (cases "m_hFileCPort (fl s)")
      case True
      then have "outstanding ?s = []" using assms by (auto simp: flow_ok_defs)
      then have "flow_ok (armed (RearmRecv (fl ?s)) ?s)"
        using ok assms l True rearm_ok[of ?s] by (auto simp: flow_ok_defs rearm_frames)
      then show ?thesis unfolding e .
    next
      case False
      then have "flow_ok (armed (RearmRecv (fl ?s)) ?s)" using rearm_idle[of ?s] ok by (auto simp: flow_ok_def armed_def)
      then show ?thesis unfolding e .
    qed
  qed
qed

lemma connects_ok:
  assumes "flow_ok s" "pump_at s = PumpIdle" "closed s" "outstanding s = []"
  shows "flow_ok ((armed (OnConnect (fl s)) s)\<lparr>closed := False\<rparr>)"
proof -
  have "m_pOVERLAPPEDrecv (fl s) = None" using assms by (auto simp: flow_ok_defs ov_fits_def split: option.splits if_splits)
  then show ?thesis using assms by (auto simp: flow_ok_defs ov_fits_def OnConnect_def Let_def armed_def prepareOVERLAPPED_def MakeOVERLAPPED_def)
qed

lemma releases_ok:
  assumes "flow_ok s" "pump_at s = LoginSet"
  shows "flow_ok (after ReleasesHold s)"
  using assms release_cases[of "fl_con (fl s)"]
  by (auto simp: flow_ok_defs set_con_def split: prod.splits)

lemma closes_ok:
  assumes "flow_ok s" "can Closes s"
  shows "flow_ok (after Closes s)"
  using assms by (auto simp: flow_ok_defs OnClose_def On_PITimer_def Let_def)

lemma step_ok: "flow_ok s \<Longrightarrow> can e s \<Longrightarrow> flow_ok (after e s)"
proof (cases e)
  case (Completes p failed n z)
  then show "flow_ok s \<Longrightarrow> can e s \<Longrightarrow> ?thesis" using complete_ok by simp
next
  case (Stops b t)
  then show "flow_ok s \<Longrightarrow> can e s \<Longrightarrow> ?thesis" using stops_ok by simp
next
  case IssuesRead
  then show "flow_ok s \<Longrightarrow> can e s \<Longrightarrow> ?thesis"
    by (auto simp: goes_on_iff flow_ok_defs ov_fits_def read_issued_def prepareOVERLAPPED_def split: option.splits)
next
  case RefusesImage
  then show "flow_ok s \<Longrightarrow> can e s \<Longrightarrow> ?thesis" by (auto simp: goes_on_iff flow_ok_defs)
next
  case DropsOnCypherEx
  show "flow_ok s \<Longrightarrow> can e s \<Longrightarrow> ?thesis" unfolding DropsOnCypherEx
  proof -
    assume a: "flow_ok s" "can DropsOnCypherEx s"
    then have "flow_ok (dropped s)" by (intro drop_ok) (auto simp: flow_ok_defs)
    then show "flow_ok (after DropsOnCypherEx s)" by (auto simp: flow_ok_defs)
  qed
next
  case KeepsOnCypherEx
  then show "flow_ok s \<Longrightarrow> can e s \<Longrightarrow> ?thesis" by (auto simp: flow_ok_defs)
next
  case TakesLogin
  then show "flow_ok s \<Longrightarrow> can e s \<Longrightarrow> ?thesis" by (auto simp: goes_on_iff flow_ok_defs set_con_def)
next
  case PostsLogin
  then show "flow_ok s \<Longrightarrow> can e s \<Longrightarrow> ?thesis" by (cases "pump_at s") (auto simp: flow_ok_defs)
next
  case Throws
  show "flow_ok s \<Longrightarrow> can e s \<Longrightarrow> ?thesis" unfolding Throws
    by (simp, rule drop_ok) (auto simp: goes_on_iff flow_ok_defs)
next
  case AppliesLogin
  then show "flow_ok s \<Longrightarrow> can e s \<Longrightarrow> ?thesis" by (auto simp: flow_ok_defs set_con_def)
next
  case RefusesLogin
  show "flow_ok s \<Longrightarrow> can e s \<Longrightarrow> ?thesis" unfolding RefusesLogin
  proof -
    assume a: "flow_ok s" "can RefusesLogin s"
    then have "flow_ok (dropped s)" by (intro drop_ok) (auto simp: flow_ok_defs)
    then show "flow_ok (after RefusesLogin s)" by (auto simp: flow_ok_defs dropped_def flow_Drop_def split: option.splits)
  qed
next
  case ReleasesHold
  then show "flow_ok s \<Longrightarrow> can e s \<Longrightarrow> ?thesis" using releases_ok by simp
next
  case Rearms
  then show "flow_ok s \<Longrightarrow> can e s \<Longrightarrow> ?thesis" using rearms_ok by simp
next
  case (TimerFires r t)
  then show "flow_ok s \<Longrightarrow> can e s \<Longrightarrow> ?thesis" using timer_fires_ok by simp
next
  case Drops
  show "flow_ok s \<Longrightarrow> can e s \<Longrightarrow> ?thesis" unfolding Drops by (simp, rule drop_ok) (auto simp: flow_ok_defs)
next
  case Closes
  then show "flow_ok s \<Longrightarrow> can e s \<Longrightarrow> ?thesis" using closes_ok by simp
next
  case Connects
  then show "flow_ok s \<Longrightarrow> can e s \<Longrightarrow> ?thesis" using connects_ok by simp
next
  case Destroys
  then show "flow_ok s \<Longrightarrow> can e s \<Longrightarrow> ?thesis" by (auto simp: flow_ok_defs)
qed simp_all

lemma flows_ok: "flows s0 es s \<Longrightarrow> flow_ok s0 \<Longrightarrow> flow_ok s"
  by (induction rule: flows.induct) (auto intro: step_ok)

definition at_rest :: "con \<Rightarrow> bool" where "at_rest c \<longleftrightarrow> m_dwState c AND (ConState_LoginHold OR ConState_LoginParked) = 0"

lemma new_ok: "at_rest c \<Longrightarrow> flow_ok (link_new c)"
  unfolding at_rest_def hold_test_both by (simp add: flow_ok_defs ov_fits_def link_new_def flow_new_def)

text \<open>
  C10: One owner of the read.  However the loop, the pump, the timer and the peer interleave, at most one
  completion of the receive is outstanding, and none while the loop runs: neither a login that is applied nor a
  budget that recovers posts a completion for a buffer the loop is still in.
\<close>
theorem one_owner_of_the_read:
  assumes "at_rest c" "flows (link_new c) es s"
  shows "length (outstanding s) + (if loop s = Stopped then 0 else 1) \<le> 1"
  using flows_ok[OF assms(2) new_ok[OF assms(1)]] by (auto simp: flow_ok_defs ov_fits_def split: option.splits if_splits)

text \<open>
  C11: Nothing is read past a login.  When the loop takes a message off the link, of whatever kind, or has its
  image refused by the cypher, no login it took before is still with the pump: each was applied, with the state the gates ask for, or refused.
\<close>
theorem nothing_read_past_a_login:
  assumes "at_rest c" "flows (link_new c) es s" "e \<in> {TakesApp, TakesLogin, TakesKeyX, IssuesRead, RefusesImage}" "can e s"
  shows "owed s = 0 \<and> pump_at s \<noteq> LoginSet"
proof -
  have "goes_on s" using assms(3,4) by auto
  then show ?thesis using flows_ok[OF assms(2) new_ok[OF assms(1)]] by (auto simp: goes_on_iff flow_ok_defs)
qed

subsection \<open>What resumes reading\<close>

definition forgotten :: "link \<Rightarrow> bool" where
  "forgotten s \<longleftrightarrow> m_bRecvThrottled (fl s) \<and> m_uThrottleTimerID (fl s) = 0"

definition resumes :: "link \<Rightarrow> bool" where
  "resumes s \<longleftrightarrow> outstanding s \<noteq> [] \<or> parked (fl_con (fl s)) \<and> login_due s \<or> pump_at s = Rearming \<or> m_uThrottleTimerID (fl s) \<noteq> 0 \<or> cypher_due s"

text \<open>\<open>b\<close>: the close handler has run, or a handler has kept a connection whose image was refused.\<close>

definition resume_ok :: "bool \<Rightarrow> link \<Rightarrow> bool" where
  "resume_ok b s \<longleftrightarrow> (m_hFileCPort (fl s) \<and> \<not> m_bDestroy (fl s) \<and> loop s = Stopped \<longrightarrow> resumes s \<or> b) \<and>
     (forgotten s \<and> \<not> m_bDestroy (fl s) \<longrightarrow> b)"

lemma complete_resumes:
  "resume_ok b s \<Longrightarrow> flow_ok s \<Longrightarrow> p \<in> set (outstanding s) \<Longrightarrow> loop s = Stopped \<Longrightarrow> resume_ok b (complete p failed n z s)"
  by (auto simp: resume_ok_def complete_def recv_completed_def dropped_def flow_Drop_def forgotten_def Let_def flow_ok_defs ov_fits_def
      split: option.splits completion.splits prod.splits if_splits)

lemma stops_resumes:
  assumes "resume_ok b s" "flow_ok s" "loop s = AtTop" "t \<noteq> 0" "fst (loop_top pr t (fl s))"
  shows "resume_ok b (s\<lparr>fl := snd (loop_top pr t (fl s)), loop := Stopped\<rparr>)"
proof (cases "held (fl_con (fl s))")
  case True
  then show ?thesis using assms park_cases(3,4)[OF True] by (auto simp: resume_ok_def resumes_def forgotten_def loop_top_held flow_ok_defs)
next
  case False
  then show ?thesis using assms
    by (auto simp: resume_ok_def resumes_def forgotten_def loop_top_free HoldRecvForBackpressure_def flow_ok_defs split: if_splits)
qed

lemma rearm_resumes:
  "ov_ok s \<Longrightarrow> m_hFileCPort (fl s) \<Longrightarrow> outstanding s = [] \<Longrightarrow> resumes (armed (RearmRecv (fl s)) s)"
  using rearm_ok[of s] by (simp add: resumes_def)

lemma timer_resumes:
  assumes "resume_ok b s" "flow_ok s" "pump_at s = PumpIdle" "t \<noteq> 0" "m_uThrottleTimerID (fl s) \<noteq> 0"
  shows "resume_ok b (armed (On_PITimer False relieved t (fl s)) s)"
proof (cases "m_bDestroy (fl s) \<or> \<not> relieved")
  case True
  then show ?thesis using assms
    by (auto simp: resume_ok_def resumes_def forgotten_def On_PITimer_def Let_def armed_def flow_ok_defs)
next
  case False
  let ?g = "(fl s)\<lparr>m_uThrottleTimerID := 0, m_bRecvThrottled := False\<rparr>" and ?s = "s\<lparr>fl := (fl s)\<lparr>m_uThrottleTimerID := 0, m_bRecvThrottled := False\<rparr>\<rparr>"
  have r: "On_PITimer False relieved t (fl s) = RearmRecv ?g" using False by (simp add: On_PITimer_def Let_def)
  have "\<not> forgotten (armed (RearmRecv ?g) s)" by (simp add: forgotten_def rearm_frames)
  moreover have "m_hFileCPort (fl s) \<Longrightarrow> resumes (armed (RearmRecv ?g) s)"
    using rearm_resumes[of ?s] assms(2,5) by (auto simp: flow_ok_defs resumes_def armed_def)
  ultimately show ?thesis unfolding r by (auto simp: resume_ok_def rearm_frames)
qed

lemma step_resumes:
  assumes "resume_ok b s" "flow_ok s" "can e s"
  shows "resume_ok (e \<in> {Closes, KeepsOnCypherEx} \<or> b) (after e s)"
proof (cases e)
  case (Completes p failed n z)
  then show ?thesis using complete_resumes assms by simp
next
  case (Stops pr t)
  then show ?thesis using stops_resumes assms by simp
next
  case IssuesRead
  then show ?thesis using assms by (auto simp: resume_ok_def resumes_def forgotten_def read_issued_def)
next
  case RefusesImage
  then show ?thesis using assms by (auto simp: resume_ok_def resumes_def forgotten_def)
next
  case DropsOnCypherEx
  then show ?thesis using assms by (auto simp: resume_ok_def forgotten_def dropped_def flow_Drop_def)
next
  case KeepsOnCypherEx
  then show ?thesis by (simp add: resume_ok_def)
next
  case TakesLogin
  then show ?thesis using assms by (auto simp: resume_ok_def forgotten_def set_con_def)
next
  case PostsLogin
  then show ?thesis using assms by (auto simp: resume_ok_def forgotten_def)
next
  case Throws
  then show ?thesis using assms by (auto simp: resume_ok_def forgotten_def dropped_def flow_Drop_def)
next
  case AppliesLogin
  then show ?thesis using assms by (auto simp: resume_ok_def resumes_def forgotten_def set_con_def login_due_def)
next
  case RefusesLogin
  then show ?thesis using assms by (auto simp: resume_ok_def forgotten_def dropped_def flow_Drop_def)
next
  case ReleasesHold
  then show ?thesis using assms release_cases(1)[of "fl_con (fl s)"]
    by (auto simp: resume_ok_def resumes_def forgotten_def set_con_def login_due_def split: prod.splits)
next
  case Rearms
  then have "outstanding (armed (RearmRecv (fl s)) s) = [Armed]" using assms(2,3) rearm_ok(2)[of s] by (auto simp: flow_ok_def login_ok_def)
  then show ?thesis using assms Rearms by (auto simp: resume_ok_def resumes_def forgotten_def rearm_frames)
next
  case (TimerFires r t)
  then show ?thesis using timer_resumes[OF assms(1,2)] assms(3) by simp
next
  case Drops
  then show ?thesis using assms by (auto simp: resume_ok_def forgotten_def dropped_def flow_Drop_def)
next
  case Closes
  then show ?thesis using assms by (auto simp: resume_ok_def OnClose_def On_PITimer_def Let_def)
next
  case Connects
  then have "outstanding (armed (OnConnect (fl s)) s) \<noteq> []" using assms(2,3)
    by (auto simp: flow_ok_defs ov_fits_def OnConnect_def Let_def armed_def MakeOVERLAPPED_def split: option.splits)
  then show ?thesis using assms Connects by (auto simp: resume_ok_def resumes_def forgotten_def OnConnect_def Let_def)
next
  case Destroys
  then show ?thesis using assms by (auto simp: resume_ok_def forgotten_def)
qed (use assms in \<open>auto simp: resume_ok_def\<close>)

lemma flows_resume: "flows s0 es s \<Longrightarrow> flow_ok s0 \<Longrightarrow> resume_ok False s0 \<Longrightarrow> resume_ok (Closes \<in> set es \<or> KeepsOnCypherEx \<in> set es) s"
proof (induction rule: flows.induct)
  case (flows_more s es s1 e)
  then have "resume_ok (e \<in> {Closes, KeepsOnCypherEx} \<or> Closes \<in> set es \<or> KeepsOnCypherEx \<in> set es) (after e s1)"
    using step_resumes[of "Closes \<in> set es \<or> KeepsOnCypherEx \<in> set es" s1 e] flows_ok by blast
  then show ?case by (simp add: disj_ac eq_commute)
qed simp

text \<open>
  C12: Reading is taken up again.  While a connection is up, is not being destroyed and its loop is stopped,
  something brings the loop back or ends the connection: a completion is outstanding, or the loop is parked and
  the pump has the login to apply, or the pump is about to rearm the read, or the timer of the backpressure poll
  is armed, or the cypher has refused an image and the exception is still with the pump, whose handler in the
  library drops the connection.  There are two exceptions: a connection whose close handler has run before, and
  one whose application handles the cypher exception itself and keeps the connection.
\<close>
theorem reading_is_taken_up:
  assumes "at_rest c" "flows (link_new c) es s" "m_hFileCPort (fl s)" "\<not> m_bDestroy (fl s)" "loop s = Stopped"
    and "Closes \<notin> set es" "KeepsOnCypherEx \<notin> set es"
  shows "outstanding s \<noteq> [] \<or> parked (fl_con (fl s)) \<and> (owed s > 0 \<or> pump_at s = LoginSet) \<or> pump_at s = Rearming \<or>
    m_uThrottleTimerID (fl s) \<noteq> 0 \<or> cypher_due s \<and> \<not> m_hFileCPort (fl (after DropsOnCypherEx s))"
proof -
  have "resume_ok False (link_new c)" by (simp add: resume_ok_def forgotten_def link_new_def flow_new_def)
  from flows_resume[OF assms(2) new_ok[OF assms(1)] this] show ?thesis
    using assms(3-7) by (auto simp: resume_ok_def resumes_def login_due_def dropped_def flow_Drop_def)
qed

text \<open>Between the refusal and its handler nothing else is under way on the receive side.\<close>

definition cypher_alone :: "link \<Rightarrow> bool" where
  "cypher_alone s \<longleftrightarrow> (cypher_due s \<longrightarrow> loop s = Stopped \<and> \<not> closed s \<and> (m_hFileCPort (fl s) \<longrightarrow> outstanding s = [] \<and>
     \<not> parked (fl_con (fl s)) \<and> \<not> login_due s \<and> pump_at s = PumpIdle \<and> m_uThrottleTimerID (fl s) = 0))"

lemma step_alone: "flow_ok s \<Longrightarrow> cypher_alone s \<Longrightarrow> can e s \<Longrightarrow> cypher_alone (after e s)"
proof (cases e)
  case (Completes p failed n z)
  then show "flow_ok s \<Longrightarrow> cypher_alone s \<Longrightarrow> can e s \<Longrightarrow> ?thesis"
    by (auto simp: cypher_alone_def complete_def recv_completed_def dropped_def flow_Drop_def Let_def split: option.splits)
next
  case (TimerFires r t)
  then show "flow_ok s \<Longrightarrow> cypher_alone s \<Longrightarrow> can e s \<Longrightarrow> ?thesis"
    by (auto simp: cypher_alone_def On_PITimer_def Let_def rearm_frames login_due_def)
next
  case RefusesImage
  then show "flow_ok s \<Longrightarrow> cypher_alone s \<Longrightarrow> can e s \<Longrightarrow> ?thesis"
    by (cases "pump_at s") (auto simp: cypher_alone_def goes_on_iff flow_ok_defs)
qed (auto simp: cypher_alone_def goes_on_iff dropped_def flow_Drop_def set_con_def login_due_def rearm_frames OnClose_def On_PITimer_def
    OnConnect_def Let_def split: prod.splits)

lemma flows_alone: "flows s0 es s \<Longrightarrow> flow_ok s0 \<Longrightarrow> cypher_alone s0 \<Longrightarrow> cypher_alone s"
  by (induction rule: flows.induct) (auto intro: step_alone dest: flows_ok)

text \<open>
  A connection kept after a refused image does not read.  When the handler of a cypher exception returns and
  the connection is up, its loop is stopped and nothing is under way that would start it.
\<close>
theorem kept_connection_is_deaf:
  assumes "at_rest c" "flows (link_new c) es s" "can KeepsOnCypherEx s" "m_hFileCPort (fl s)"
  shows "loop (after KeepsOnCypherEx s) = Stopped \<and> m_hFileCPort (fl (after KeepsOnCypherEx s)) \<and> \<not> resumes (after KeepsOnCypherEx s)"
proof -
  have "cypher_alone (link_new c)" by (simp add: cypher_alone_def link_new_def)
  from flows_alone[OF assms(2) new_ok[OF assms(1)] this] show ?thesis
    using assms(3,4) by (auto simp: cypher_alone_def resumes_def login_due_def)
qed

lemma forgotten_stays: "forgotten s \<Longrightarrow> can e s \<Longrightarrow> forgotten (after e s)"
proof (cases e)
  case (Completes p failed n z)
  then show "forgotten s \<Longrightarrow> can e s \<Longrightarrow> ?thesis"
    by (auto simp: forgotten_def complete_def recv_completed_def dropped_def flow_Drop_def Let_def split: option.splits)
next
  case (Stops b t)
  then show "forgotten s \<Longrightarrow> can e s \<Longrightarrow> ?thesis"
    by (auto simp: forgotten_def loop_top_def HoldRecvForBackpressure_def split: prod.splits)
qed (auto simp: forgotten_def read_issued_def set_con_def dropped_def flow_Drop_def rearm_frames OnClose_def On_PITimer_def OnConnect_def Let_def goes_on_iff
    split: prod.splits)

lemma forgotten_flows: "flows s0 es s \<Longrightarrow> forgotten s0 \<Longrightarrow> forgotten s"
  by (induction rule: flows.induct) (auto intro: forgotten_stays)

text \<open>
  A connection closed while its read is withheld never reads again.  The close handler cancels the timer of
  the poll and leaves the connection marked as withheld; no later event clears the mark, so that after a restart
  the loop stops at its top each time it is entered and takes no message, whatever the budget is.
\<close>
theorem closed_while_withheld:
  assumes "can Closes s" "m_bRecvThrottled (fl s)" "flows (after Closes s) es s'" "e \<in> {IssuesRead, TakesKeyX, TakesLogin, TakesApp}"
  shows "\<not> can e s'"
proof -
  have "forgotten (after Closes s)" using assms(2) by (auto simp: forgotten_def OnClose_def On_PITimer_def Let_def)
  then have "forgotten s'" using forgotten_flows[OF assms(3)] by simp
  then show ?thesis using assms(4) by (auto simp: goes_on_iff forgotten_def)
qed

text \<open>
  An orderly close is told from an armed read.  A read that was put on the wire and completes without bytes
  drops the connection, where the transport says that this is how a close looks; a completion that only arms a
  read starts the loop.
\<close>
theorem orderly_close_recognised:
  assumes "at_rest c" "flows (link_new c) es s" "m_hFileCPort (fl s)"
  shows "(can (Completes OnWire False 0 True) s \<longrightarrow> \<not> m_hFileCPort (fl (after (Completes OnWire False 0 True) s))) \<and>
    (can (Completes Armed False 0 True) s \<longrightarrow> loop (after (Completes Armed False 0 True) s) = AtTop \<and>
       m_hFileCPort (fl (after (Completes Armed False 0 True) s)))"
  using flows_ok[OF assms(2) new_ok[OF assms(1)]] assms(3)
  by (auto simp: flow_ok_def ov_ok_def ov_fits_def complete_def recv_completed_def dropped_def flow_Drop_def Let_def split: option.splits if_splits)

subsection \<open>Runs\<close>

fun run :: "event list \<Rightarrow> link \<Rightarrow> link option" where
  "run [] s = Some s"
| "run (e # es) s = (if can e s then run es (after e s) else None)"

lemma flows_trans: "flows s1 es s2 \<Longrightarrow> flows s ds s1 \<Longrightarrow> flows s (ds @ es) s2"
proof (induction rule: flows.induct)
  case (flows_more s1 es s2 e)
  then show ?case using flows.flows_more[of s "ds @ es" s2 e] by simp
qed simp

lemma run_flows: "run es s = Some s' \<Longrightarrow> flows s es s'"
proof (induction es arbitrary: s)
  case (Cons e es)
  then have "can e s" "flows (after e s) es s'" by (auto split: if_splits)
  moreover from this have "flows s [e] (after e s)" using flows_more[OF flows_none, of e s] by simp
  ultimately show ?case using flows_trans[of "after e s" es s' s "[e]"] by simp
qed (simp add: flows_none)

definition resting_con :: con where "resting_con = con_new 0 None"

lemma example_rest: "at_rest resting_con" "\<not> held resting_con" "\<not> parked resting_con"
  by (simp_all add: at_rest_def resting_con_def con_new_def held_def parked_def)

lemmas run_simps = goes_on_iff link_new_def flow_new_def armed_def OnConnect_def Let_def MakeOVERLAPPED_def prepareOVERLAPPED_def
  complete_def recv_completed_def releaseOVERLAPPED_def loop_top_held loop_top_free HoldRecvForBackpressure_def set_con_def
  RearmRecv_def park_cases(3,4) release_cases case_prod_beta example_rest dropped_def flow_Drop_def OnClose_def On_PITimer_def

definition up :: "event list" where "up = [Connects, Completes Armed False 0 False]"

lemma example_login:
  "\<exists>s. run (up @ [TakesLogin, PostsLogin, Stops False 1, AppliesLogin, ReleasesHold, Rearms]) (link_new resting_con) = Some s \<and>
    outstanding s = [Armed] \<and> m_hFileCPort (fl s) \<and> \<not> m_bDestroy (fl s) \<and> loop s = Stopped"
  by (simp add: up_def run_simps)

lemma example_withheld:
  "\<exists>s. run (up @ [Stops True 5, Drops]) (link_new resting_con) = Some s \<and> can Closes s \<and> m_bRecvThrottled (fl s) \<and>
    (\<exists>s'. run [Connects, Completes Armed False 0 False, Stops False 1] (after Closes s) = Some s' \<and> m_hFileCPort (fl s'))"
  by (simp add: up_def run_simps)

theorem one_owner_of_the_read_witness:
  "\<exists>s. flows (link_new resting_con) (up @ [TakesLogin, PostsLogin, Stops False 1, AppliesLogin, ReleasesHold, Rearms]) s \<and> outstanding s = [Armed] \<and>
    length (outstanding s) + (if loop s = Stopped then 0 else 1) \<le> 1"
proof -
  obtain s where s: "flows (link_new resting_con) (up @ [TakesLogin, PostsLogin, Stops False 1, AppliesLogin, ReleasesHold, Rearms]) s"
      "outstanding s = [Armed]" using example_login run_flows by blast
  from one_owner_of_the_read[OF example_rest(1) s(1)] s show ?thesis by blast
qed

theorem nothing_read_past_a_login_witness:
  "\<exists>s. flows (link_new resting_con) up s \<and> can TakesApp s \<and> owed s = 0 \<and> pump_at s \<noteq> LoginSet"
proof -
  have "\<exists>s. run up (link_new resting_con) = Some s \<and> can TakesApp s" by (simp add: up_def run_simps)
  then obtain s where s: "flows (link_new resting_con) up s" "can TakesApp s" using run_flows by blast
  from nothing_read_past_a_login[OF example_rest(1) s(1) _ s(2)] s show ?thesis by auto
qed

theorem reading_is_taken_up_witness:
  "\<exists>s. flows (link_new resting_con) (up @ [RefusesImage]) s \<and> outstanding s = [] \<and> \<not> parked (fl_con (fl s)) \<and> pump_at s = PumpIdle \<and>
    m_uThrottleTimerID (fl s) = 0 \<and> cypher_due s \<and> \<not> m_hFileCPort (fl (after DropsOnCypherEx s))"
proof -
  have "\<exists>s. run (up @ [RefusesImage]) (link_new resting_con) = Some s \<and> outstanding s = [] \<and> \<not> parked (fl_con (fl s)) \<and> pump_at s = PumpIdle \<and>
      m_uThrottleTimerID (fl s) = 0 \<and> m_hFileCPort (fl s) \<and> \<not> m_bDestroy (fl s) \<and> loop s = Stopped"
    by (simp add: up_def run_simps)
  then obtain s where s: "flows (link_new resting_con) (up @ [RefusesImage]) s" "outstanding s = []" "\<not> parked (fl_con (fl s))"
      "pump_at s = PumpIdle" "m_uThrottleTimerID (fl s) = 0" "m_hFileCPort (fl s)" "\<not> m_bDestroy (fl s)" "loop s = Stopped"
    using run_flows by blast
  from reading_is_taken_up[OF example_rest(1) s(1,6-8)] s show ?thesis by (auto simp: up_def)
qed

theorem kept_connection_is_deaf_witness:
  "\<exists>s. flows (link_new resting_con) (up @ [RefusesImage]) s \<and> can KeepsOnCypherEx s \<and> m_hFileCPort (fl s) \<and> \<not> resumes (after KeepsOnCypherEx s)"
proof -
  have "\<exists>s. run (up @ [RefusesImage]) (link_new resting_con) = Some s \<and> can KeepsOnCypherEx s \<and> m_hFileCPort (fl s)"
    by (simp add: up_def run_simps)
  then obtain s where s: "flows (link_new resting_con) (up @ [RefusesImage]) s" "can KeepsOnCypherEx s" "m_hFileCPort (fl s)" using run_flows by blast
  from kept_connection_is_deaf[OF example_rest(1) s] s show ?thesis by blast
qed

theorem closed_while_withheld_witness:
  "\<exists>s s'. can Closes s \<and> m_bRecvThrottled (fl s) \<and> flows (after Closes s) [Connects, Completes Armed False 0 False, Stops False 1] s' \<and>
    m_hFileCPort (fl s') \<and> \<not> can TakesApp s'"
proof -
  obtain s s' where s: "can Closes s" "m_bRecvThrottled (fl s)" "flows (after Closes s) [Connects, Completes Armed False 0 False, Stops False 1] s'"
      "m_hFileCPort (fl s')" using example_withheld run_flows by blast
  from closed_while_withheld[OF s(1-3), of TakesApp] s show ?thesis by auto
qed

theorem orderly_close_recognised_witness:
  "\<exists>s. flows (link_new resting_con) (up @ [IssuesRead]) s \<and> can (Completes OnWire False 0 True) s \<and>
    \<not> m_hFileCPort (fl (after (Completes OnWire False 0 True) s))"
proof -
  have "\<exists>s. run (up @ [IssuesRead]) (link_new resting_con) = Some s \<and> m_hFileCPort (fl s) \<and> can (Completes OnWire False 0 True) s"
    by (simp add: up_def run_simps read_issued_def)
  then obtain s where s: "flows (link_new resting_con) (up @ [IssuesRead]) s" "m_hFileCPort (fl s)" "can (Completes OnWire False 0 True) s"
    using run_flows by blast
  from orderly_close_recognised[OF example_rest(1) s(1,2)] s show ?thesis by auto
qed

end
