(* ===== verification/ConDmx.thy ===== *)
theory ConDmx
  imports Targetcore_Prelude
begin

text \<open>
  A pair of in-process connections (P2PeerConDmx.cpp, P2PeerioDmx.cpp): each end leaves its message where the
  other takes it, and an end that finds nothing parks its read, to be posted by the other's next send.

  The ends are \<open>True\<close> and \<open>False\<close>, each with a pump of its own; every operation that touches both runs under
  \<open>g_oCSectP2PeerConDmx\<close> and is one step.  A message is of any type.  The links are logged in and their messages
  of one priority, so that the queue (ConQueue) is first in, first out; the gates a message passes are those of
  ConGates, the holds of the loop those of ConFlow.
\<close>

record port_ov =
  bQueued :: bool
  bParked :: bool
  ov_ok :: bool

record 'm dmx =
  m_pConThat :: bool
  m_hFileCPort :: bool
  m_bDestroy :: bool
  io_recv :: bool
  io_send :: "'m option"
  m_pOVERLAPPEDrecv :: "port_ov option"
  m_pOVERLAPPEDsend :: "port_ov option"
  m_pP2PeerMsgSend :: "'m option"
  m_oCListMsgQue :: "'m list"
  refs :: nat
  looping :: bool
  posted :: "'m list"
  got :: "'m list"

type_synonym 'm ends = "bool \<Rightarrow> 'm dmx"

definition MakeOVERLAPPED :: port_ov where "MakeOVERLAPPED = \<lparr>bQueued = False, bParked = False, ov_ok = True\<rparr>"

text \<open>\<open>PostOVERLAPPED\<close> of the receive and of the send; \<open>None\<close>: it throws, the buffer is in the port already.\<close>

definition PostRecv :: "bool \<Rightarrow> 'm dmx \<Rightarrow> 'm dmx option" where
  "PostRecv ok d = (case m_pOVERLAPPEDrecv d of None \<Rightarrow> None
     | Some o1 \<Rightarrow> if bQueued o1 then None
                 else Some (d\<lparr>m_pOVERLAPPEDrecv := Some (o1\<lparr>bQueued := True, ov_ok := ok\<rparr>), refs := refs d + 1\<rparr>))"

definition PostSend :: "bool \<Rightarrow> 'm dmx \<Rightarrow> 'm dmx option" where
  "PostSend ok d = (case m_pOVERLAPPEDsend d of None \<Rightarrow> None
     | Some o1 \<Rightarrow> if bQueued o1 then None
                 else Some (d\<lparr>m_pOVERLAPPEDsend := Some (o1\<lparr>bQueued := True, ov_ok := ok\<rparr>), refs := refs d + 1\<rparr>))"

text \<open>The parked read goes back to the port, with the status; the reference of the park is given back.\<close>

definition UnparkRecv :: "bool \<Rightarrow> 'm dmx \<Rightarrow> 'm dmx option" where
  "UnparkRecv ok d =
     (if \<not> io_recv d then Some d
      else (case m_pOVERLAPPEDrecv d of None \<Rightarrow> Some d
        | Some o1 \<Rightarrow> if \<not> bParked o1 then Some d
            else map_option (\<lambda>d. d\<lparr>refs := refs d - 1\<rparr>)
                   (PostRecv ok (d\<lparr>io_recv := False, m_pOVERLAPPEDrecv := Some (o1\<lparr>bParked := False\<rparr>)\<rparr>))))"

definition SendP2PeerMsg :: "bool \<Rightarrow> 'm \<Rightarrow> 'm ends \<Rightarrow> 'm ends option" where
  "SendP2PeerMsg x m s =
     (if io_send (s x) \<noteq> None then None
      else if \<not> m_pConThat (s x) then map_option (\<lambda>d. s(x := d)) (PostSend False (s x))
      else map_option (\<lambda>d. (s(x := (s x)\<lparr>io_send := Some m\<rparr>))(\<not> x := d)) (UnparkRecv True (s (\<not> x))))"

text \<open>The message taken, if any; else the read is parked, or has failed.\<close>

definition RecvP2PeerMsg :: "bool \<Rightarrow> 'm ends \<Rightarrow> ('m option \<times> 'm ends) option" where
  "RecvP2PeerMsg x s =
     (if \<not> m_pConThat (s x) then map_option (\<lambda>d. (None, s(x := d))) (PostRecv False (s x))
      else (case io_send (s (\<not> x)) of
        Some m \<Rightarrow> map_option (\<lambda>d. (Some m, (s(x := (s x)\<lparr>io_recv := False\<rparr>))(\<not> x := d))) (PostSend True ((s (\<not> x))\<lparr>io_send := None\<rparr>))
      | None \<Rightarrow> Some (None, s(x := (s x)\<lparr>io_recv := True, refs := refs (s x) + 1,
          m_pOVERLAPPEDrecv := map_option (\<lambda>o1. o1\<lparr>bParked := True\<rparr>) (m_pOVERLAPPEDrecv (s x))\<rparr>))))"

definition Reset :: "'m dmx \<Rightarrow> 'm dmx option" where
  "Reset d = map_option (\<lambda>d. d\<lparr>io_recv := False\<rparr>) (UnparkRecv False (d\<lparr>io_send := None\<rparr>))"

text \<open>Each end is told on its own pump: only its parked read is touched.\<close>

definition BREAK_PAIR :: "bool \<Rightarrow> 'm ends \<Rightarrow> 'm ends option" where
  "BREAK_PAIR x s0 =
     (let s = s0(x := (s0 x)\<lparr>m_pConThat := False, m_hFileCPort := False\<rparr>) in
      if m_pConThat (s0 x) \<and> m_pConThat (s (\<not> x))
      then (let d = (s (\<not> x))\<lparr>m_pConThat := False\<rparr> in
            if m_bDestroy d then Some (s(\<not> x := d)) else map_option (\<lambda>d. s(\<not> x := d)) (UnparkRecv False d))
      else Some s)"

definition drop_unqueued :: "port_ov option \<Rightarrow> port_ov option" where
  "drop_unqueued r = (case r of None \<Rightarrow> None | Some o1 \<Rightarrow> if bQueued o1 then Some o1 else None)"

definition Drop :: "bool \<Rightarrow> 'm ends \<Rightarrow> 'm ends option" where
  "Drop x s = Option.bind (BREAK_PAIR x s) (\<lambda>s.
     map_option (\<lambda>d. s(x := d\<lparr>m_pOVERLAPPEDsend := drop_unqueued (m_pOVERLAPPEDsend d), m_pOVERLAPPEDrecv := drop_unqueued (m_pOVERLAPPEDrecv d),
                              looping := False\<rparr>)) (Reset (s x)))"

text \<open>The completion of the receive: the loop is entered, the end drops itself, or the buffer is freed.\<close>

definition recv_completed :: "bool \<Rightarrow> 'm ends \<Rightarrow> 'm ends option" where
  "recv_completed x s =
     (case m_pOVERLAPPEDrecv (s x) of None \<Rightarrow> None
      | Some o1 \<Rightarrow>
        let d = (s x)\<lparr>m_pOVERLAPPEDrecv := Some (o1\<lparr>bQueued := False\<rparr>), refs := refs (s x) - 1\<rparr> in
        if ov_ok o1 \<and> m_hFileCPort d then Some (s(x := d\<lparr>looping := True\<rparr>))
        else if \<not> ov_ok o1 \<and> m_hFileCPort d then Drop x (s(x := d))
        else Some (s(x := d\<lparr>m_pOVERLAPPEDrecv := None\<rparr>)))"

text \<open>One pass of the receive loop.\<close>

definition recv_pass :: "bool \<Rightarrow> 'm ends \<Rightarrow> 'm ends option" where
  "recv_pass x s =
     map_option (\<lambda>(r, s). case r of None \<Rightarrow> s(x := (s x)\<lparr>looping := False\<rparr>) | Some m \<Rightarrow> s(x := (s x)\<lparr>got := got (s x) @ [m]\<rparr>))
       (RecvP2PeerMsg x s)"

text \<open>The completion of the send: what was sent is done with, the next is sent.\<close>

definition send_completed :: "bool \<Rightarrow> 'm ends \<Rightarrow> 'm ends option" where
  "send_completed x s =
     (case m_pOVERLAPPEDsend (s x) of None \<Rightarrow> None
      | Some o1 \<Rightarrow>
        let d = (s x)\<lparr>m_pOVERLAPPEDsend := Some (o1\<lparr>bQueued := False\<rparr>), refs := refs (s x) - 1\<rparr> in
        if ov_ok o1 \<and> m_hFileCPort d
        then (case m_oCListMsgQue d of
                [] \<Rightarrow> Some (s(x := d\<lparr>m_pP2PeerMsgSend := None\<rparr>))
              | m # q \<Rightarrow> SendP2PeerMsg x m (s(x := d\<lparr>m_pP2PeerMsgSend := Some m, m_oCListMsgQue := q\<rparr>)))
        else if \<not> ov_ok o1 \<and> m_hFileCPort d then Drop x (s(x := d))
        else Some (s(x := d\<lparr>m_pOVERLAPPEDsend := None\<rparr>)))"

text \<open>A message is queued, and the send woken if it is idle.\<close>

definition PostP2PeerMsg :: "bool \<Rightarrow> 'm \<Rightarrow> 'm ends \<Rightarrow> 'm ends option" where
  "PostP2PeerMsg x m s =
     (let d = (s x)\<lparr>m_oCListMsgQue := m_oCListMsgQue (s x) @ [m], posted := posted (s x) @ [m]\<rparr> in
      if m_pP2PeerMsgSend d = None \<and> (case m_pOVERLAPPEDsend d of None \<Rightarrow> False | Some o1 \<Rightarrow> \<not> bQueued o1)
      then map_option (\<lambda>d. s(x := d)) (PostSend True d) else Some (s(x := d)))"

subsection \<open>Steps\<close>

datatype 'm event = RecvCompletes bool | RecvPass bool | SendCompletes bool | Posts bool 'm | Drops bool | Destroys bool

fun can :: "'m event \<Rightarrow> 'm ends \<Rightarrow> bool" where
  "can (RecvCompletes x) s \<longleftrightarrow> (case m_pOVERLAPPEDrecv (s x) of None \<Rightarrow> False | Some o1 \<Rightarrow> bQueued o1)"
| "can (RecvPass x) s \<longleftrightarrow> looping (s x)"
| "can (SendCompletes x) s \<longleftrightarrow> (case m_pOVERLAPPEDsend (s x) of None \<Rightarrow> False | Some o1 \<Rightarrow> bQueued o1)"
| "can (Posts x m) s \<longleftrightarrow> True"
| "can (Drops x) s \<longleftrightarrow> True"
| "can (Destroys x) s \<longleftrightarrow> True"

fun after :: "'m event \<Rightarrow> 'm ends \<Rightarrow> 'm ends option" where
  "after (RecvCompletes x) s = recv_completed x s"
| "after (RecvPass x) s = recv_pass x s"
| "after (SendCompletes x) s = send_completed x s"
| "after (Posts x m) s = PostP2PeerMsg x m s"
| "after (Drops x) s = Drop x s"
| "after (Destroys x) s = Some (s(x := (s x)\<lparr>m_bDestroy := True\<rparr>))"

text \<open>Two ends just joined: each has its receive in the port.\<close>

definition joined_end :: "'m dmx" where
  "joined_end = \<lparr>m_pConThat = True, m_hFileCPort = True, m_bDestroy = False, io_recv = False, io_send = None,
     m_pOVERLAPPEDrecv = Some (MakeOVERLAPPED\<lparr>bQueued := True\<rparr>), m_pOVERLAPPEDsend = Some MakeOVERLAPPED, m_pP2PeerMsgSend = None,
     m_oCListMsgQue = [], refs = 2, looping = False, posted = [], got = []\<rparr>"

definition joined :: "'m ends" where "joined = (\<lambda>x. joined_end)"

inductive reached :: "'m ends \<Rightarrow> bool" where
  reached_joined: "reached joined"
| reached_step: "reached s \<Longrightarrow> can e s \<Longrightarrow> after e s = Some s' \<Longrightarrow> reached s'"

subsection \<open>What holds between the steps\<close>

definition in_port :: "port_ov option \<Rightarrow> bool" where "in_port r \<longleftrightarrow> (case r of None \<Rightarrow> False | Some o1 \<Rightarrow> bQueued o1)"
definition in_park :: "port_ov option \<Rightarrow> bool" where "in_park r \<longleftrightarrow> (case r of None \<Rightarrow> False | Some o1 \<Rightarrow> bParked o1)"
definition in_hand :: "'m dmx \<Rightarrow> 'm list" where "in_hand d = (case io_send d of None \<Rightarrow> [] | Some m \<Rightarrow> [m])"

lemma port_simps [simp]:
  "\<not> in_port None" "in_port (Some o1) = bQueued o1" "\<not> in_park None" "in_park (Some o1) = bParked o1"
  "in_port (drop_unqueued r) = in_port r" "in_port r \<Longrightarrow> in_park (drop_unqueued r) = in_park r" "\<not> in_port r \<Longrightarrow> drop_unqueued r = None"
  by (auto simp: in_port_def in_park_def drop_unqueued_def split: option.splits)

text \<open>One end, by itself: its buffers, its state and its references agree; and while it is up something is under way.\<close>

definition end_safe :: "'m dmx \<Rightarrow> bool" where
  "end_safe d \<longleftrightarrow>
     (m_pConThat d \<longrightarrow> m_hFileCPort d) \<and> io_recv d = in_park (m_pOVERLAPPEDrecv d) \<and>
     (in_park (m_pOVERLAPPEDrecv d) \<longrightarrow> \<not> in_port (m_pOVERLAPPEDrecv d) \<and> \<not> looping d \<and> m_hFileCPort d \<and> (m_pConThat d \<or> m_bDestroy d)) \<and>
     (looping d \<longrightarrow> m_hFileCPort d \<and> m_pOVERLAPPEDrecv d \<noteq> None \<and> \<not> in_port (m_pOVERLAPPEDrecv d)) \<and>
     (m_hFileCPort d \<longrightarrow> m_pOVERLAPPEDsend d \<noteq> None) \<and>
     (io_send d \<noteq> None \<longrightarrow> m_pP2PeerMsgSend d = io_send d \<and> \<not> in_port (m_pOVERLAPPEDsend d) \<and> m_hFileCPort d) \<and>
     refs d = 1 + of_bool (in_port (m_pOVERLAPPEDrecv d)) + of_bool (in_port (m_pOVERLAPPEDsend d)) + of_bool (in_park (m_pOVERLAPPEDrecv d))"

definition end_live :: "'m dmx \<Rightarrow> bool" where
  "end_live d \<longleftrightarrow> (m_hFileCPort d \<longrightarrow>
     (looping d \<or> in_port (m_pOVERLAPPEDrecv d) \<or> in_park (m_pOVERLAPPEDrecv d)) \<and>
     (m_pP2PeerMsgSend d \<noteq> None \<or> m_oCListMsgQue d \<noteq> [] \<longrightarrow> in_port (m_pOVERLAPPEDsend d) \<or> io_send d \<noteq> None))"

definition end_ok :: "'m dmx \<Rightarrow> bool" where "end_ok d \<longleftrightarrow> end_safe d \<and> end_live d"

text \<open>An end and the other one.\<close>

definition towards :: "'m dmx \<Rightarrow> 'm dmx \<Rightarrow> bool" where
  "towards d e \<longleftrightarrow> m_pConThat d = m_pConThat e \<and> (in_park (m_pOVERLAPPEDrecv e) \<and> m_pConThat e \<longrightarrow> io_send d = None) \<and>
     (m_pConThat d \<longrightarrow> posted d = got e @ in_hand d @ m_oCListMsgQue d) \<and> prefix (got e) (posted d)"

definition ends_ok :: "'m ends \<Rightarrow> bool" where "ends_ok s \<longleftrightarrow> (\<forall>x. end_ok (s x) \<and> towards (s x) (s (\<not> x)))"

lemma ends_ok_iff: "ends_ok s \<longleftrightarrow> end_ok (s x) \<and> end_ok (s (\<not> x)) \<and> towards (s x) (s (\<not> x)) \<and> towards (s (\<not> x)) (s x)"
  unfolding ends_ok_def by (cases x) (auto simp: all_bool_eq)

lemmas end_defs = end_ok_def end_safe_def end_live_def

lemma joined_ok: "ends_ok joined"
  by (simp add: ends_ok_iff[of _ True] joined_def joined_end_def end_defs towards_def in_hand_def MakeOVERLAPPED_def)

definition same_but_park :: "'m dmx \<Rightarrow> 'm dmx \<Rightarrow> bool" where
  "same_but_park d d' \<longleftrightarrow> m_pConThat d' = m_pConThat d \<and> m_hFileCPort d' = m_hFileCPort d \<and> m_bDestroy d' = m_bDestroy d \<and> io_send d' = io_send d \<and>
     m_pOVERLAPPEDsend d' = m_pOVERLAPPEDsend d \<and> m_pP2PeerMsgSend d' = m_pP2PeerMsgSend d \<and> m_oCListMsgQue d' = m_oCListMsgQue d \<and>
     looping d' = looping d \<and> posted d' = posted d \<and> got d' = got d \<and> \<not> in_park (m_pOVERLAPPEDrecv d') \<and> io_recv d' = False \<and>
     in_port (m_pOVERLAPPEDrecv d') = (in_port (m_pOVERLAPPEDrecv d) \<or> in_park (m_pOVERLAPPEDrecv d)) \<and>
     (m_pOVERLAPPEDrecv d' = None) = (m_pOVERLAPPEDrecv d = None) \<and> refs d' = refs d"

text \<open>What an unparking needs, and what it leaves.\<close>

lemma Unpark_same:
  assumes "io_recv d = in_park (m_pOVERLAPPEDrecv d)" "in_park (m_pOVERLAPPEDrecv d) \<longrightarrow> \<not> in_port (m_pOVERLAPPEDrecv d)"
  shows "\<exists>d'. UnparkRecv ok d = Some d' \<and> same_but_park d d'"
proof (cases "in_park (m_pOVERLAPPEDrecv d)")
  case True
  then obtain o1 where o1: "m_pOVERLAPPEDrecv d = Some o1" "bParked o1" "\<not> bQueued o1" "io_recv d"
    using assms by (cases "m_pOVERLAPPEDrecv d") auto
  then show ?thesis by (auto simp: UnparkRecv_def PostRecv_def same_but_park_def)
next
  case False
  then show ?thesis using assms by (auto simp: UnparkRecv_def same_but_park_def)
qed

lemma Unpark_safe:
  assumes "end_safe d"
  obtains d' where "UnparkRecv ok d = Some d'" "same_but_park d d'" "end_safe d'" "end_live d \<Longrightarrow> end_live d'"
proof -
  obtain d' where d': "UnparkRecv ok d = Some d'" "same_but_park d d'" using Unpark_same assms unfolding end_safe_def by blast
  have "end_safe d'" "end_live d \<Longrightarrow> end_live d'" using d'(2) assms by (auto simp: end_safe_def end_live_def same_but_park_def)
  with d' that show thesis by blast
qed

text \<open>A drop, of an end whose buffers may be idle.\<close>

lemma Drop_ok:
  assumes "end_safe (s x)" "end_ok (s (\<not> x))" "towards (s x) (s (\<not> x))" "towards (s (\<not> x)) (s x)"
  shows "\<exists>s'. Drop x s = Some s' \<and> ends_ok s'"
proof -
  let ?d = "(s x)\<lparr>m_pConThat := False, m_hFileCPort := False\<rparr>" and ?e = "(s (\<not> x))\<lparr>m_pConThat := False\<rparr>"
  have "\<exists>e'. BREAK_PAIR x s = Some (s(x := ?d, (\<not> x) := e')) \<and> end_ok e' \<and> \<not> m_pConThat e' \<and> got e' = got (s (\<not> x)) \<and> posted e' = posted (s (\<not> x))"
  proof (cases "m_pConThat (s x)")
    case True
    then have p: "m_pConThat (s (\<not> x))" using assms(3) by (simp add: towards_def)
    show ?thesis
    proof (cases "m_bDestroy (s (\<not> x))")
      case True
      then have "end_ok ?e" using assms(2) by (auto simp: end_defs)
      then show ?thesis using True \<open>m_pConThat (s x)\<close> p by (auto simp: BREAK_PAIR_def Let_def)
    next
      case False
      obtain e' where e': "UnparkRecv False ?e = Some e'" "same_but_park ?e e'"
        using Unpark_same[of ?e False] assms(2) by (auto simp: end_defs)
      then have "end_ok e'" using assms(2) by (auto simp: end_defs same_but_park_def)
      moreover have "BREAK_PAIR x s = Some (s(x := ?d, (\<not> x) := e'))" using False \<open>m_pConThat (s x)\<close> p e'(1) by (simp add: BREAK_PAIR_def Let_def)
      ultimately show ?thesis using e'(2) by (auto simp: same_but_park_def)
    qed
  next
    case False
    then have "BREAK_PAIR x s = Some (s(x := ?d))" by (simp add: BREAK_PAIR_def Let_def)
    moreover have "s(x := ?d) = s(x := ?d, (\<not> x) := s (\<not> x))" by auto
    moreover have "\<not> m_pConThat (s (\<not> x))" using False assms(3) by (simp add: towards_def)
    ultimately show ?thesis using assms(2) by metis
  qed
  then obtain e' where e': "BREAK_PAIR x s = Some (s(x := ?d, (\<not> x) := e'))" "end_ok e'" "\<not> m_pConThat e'"
    "got e' = got (s (\<not> x))" "posted e' = posted (s (\<not> x))" by blast
  obtain d' where d': "UnparkRecv False (?d\<lparr>io_send := None\<rparr>) = Some d'" "same_but_park (?d\<lparr>io_send := None\<rparr>) d'"
    using Unpark_same[of "?d\<lparr>io_send := None\<rparr>" False] assms(1) by (auto simp: end_safe_def)
  let ?f = "d'\<lparr>io_recv := False, m_pOVERLAPPEDsend := drop_unqueued (m_pOVERLAPPEDsend d'), m_pOVERLAPPEDrecv := drop_unqueued (m_pOVERLAPPEDrecv d'), looping := False\<rparr>"
  have "Drop x s = Some ((s(x := ?d, (\<not> x) := e'))(x := ?f))" using e'(1) d'(1) by (simp add: Drop_def Reset_def)
  moreover have "end_ok ?f"
    using d'(2) assms(1) by (cases "in_port (m_pOVERLAPPEDrecv d')") (auto simp: end_defs same_but_park_def)
  moreover have "towards ?f e'" "towards e' ?f"
    using d'(2) e'(3-5) assms(3,4) by (auto simp: towards_def same_but_park_def)
  ultimately show ?thesis using e'(2) by (auto simp: ends_ok_iff[of _ x])
qed

subsection \<open>What is left to do\<close>

text \<open>What is left to do at an end, counted so that every completion and every pass of a loop lowers it.\<close>

definition recv_weight :: "'m dmx \<Rightarrow> nat" where
  "recv_weight d = (if looping d then 2 else case m_pOVERLAPPEDrecv d of None \<Rightarrow> 0
     | Some o1 \<Rightarrow> if bQueued o1 then (if ov_ok o1 then 3 else 1) else 0)"

definition end_weight :: "'m dmx \<Rightarrow> nat" where
  "end_weight d = recv_weight d + of_bool (in_port (m_pOVERLAPPEDsend d)) + 4 * length (in_hand d) + 10 * length (m_oCListMsgQue d) +
     10 * of_bool (m_hFileCPort d)"

definition weight :: "'m ends \<Rightarrow> nat" where "weight s = end_weight (s True) + end_weight (s False)"

lemma weight_at: "weight s = end_weight (s x) + end_weight (s (\<not> x))"
  by (cases x) (simp_all add: weight_def)

lemma Unpark_weight: "UnparkRecv ok d = Some d' \<Longrightarrow> end_weight d' \<le> end_weight d + (if ok then 3 else 1)"
proof -
  assume "UnparkRecv ok d = Some d'"
  then have "d' = d \<or> (\<exists>o1. d' = d\<lparr>io_recv := False, m_pOVERLAPPEDrecv := Some (o1\<lparr>bParked := False, bQueued := True, ov_ok := ok\<rparr>), refs := refs d\<rparr>)"
    by (cases "m_pOVERLAPPEDrecv d") (auto simp: UnparkRecv_def PostRecv_def split: if_splits)
  then show ?thesis
  proof (elim disjE exE)
    fix o1
    assume d: "d' = d\<lparr>io_recv := False, m_pOVERLAPPEDrecv := Some (o1\<lparr>bParked := False, bQueued := True, ov_ok := ok\<rparr>), refs := refs d\<rparr>"
    have "recv_weight d' \<le> recv_weight d + (if ok then 3 else 1)" by (simp add: d recv_weight_def)
    then show ?thesis by (simp add: d end_weight_def in_hand_def)
  qed simp
qed

lemma Drop_weight:
  assumes "Drop x s = Some s'" "m_hFileCPort (s x)"
  shows "weight s' + 5 \<le> weight s"
proof -
  let ?d = "(s x)\<lparr>m_pConThat := False, m_hFileCPort := False\<rparr>"
  obtain s1 where s1: "BREAK_PAIR x s = Some s1" and s': "map_option (\<lambda>d. s1(x := d\<lparr>m_pOVERLAPPEDsend := drop_unqueued (m_pOVERLAPPEDsend d),
      m_pOVERLAPPEDrecv := drop_unqueued (m_pOVERLAPPEDrecv d), looping := False\<rparr>)) (Reset (s1 x)) = Some s'"
    using assms(1) by (auto simp: Drop_def bind_eq_Some_conv)
  have b: "s1 x = ?d" "end_weight (s1 (\<not> x)) \<le> end_weight (s (\<not> x)) + 1"
  proof -
    have "end_weight ((s (\<not> x))\<lparr>m_pConThat := False\<rparr>) = end_weight (s (\<not> x))" by (simp add: end_weight_def recv_weight_def in_hand_def)
    then show "s1 x = ?d" "end_weight (s1 (\<not> x)) \<le> end_weight (s (\<not> x)) + 1"
      using s1 Unpark_weight[of False "(s (\<not> x))\<lparr>m_pConThat := False\<rparr>"]
      by (auto simp: BREAK_PAIR_def Let_def split: if_splits)
  qed
  obtain d where d: "UnparkRecv False (?d\<lparr>io_send := None\<rparr>) = Some d" "s' = s1(x := d\<lparr>io_recv := False, m_pOVERLAPPEDsend := drop_unqueued (m_pOVERLAPPEDsend d),
      m_pOVERLAPPEDrecv := drop_unqueued (m_pOVERLAPPEDrecv d), looping := False\<rparr>)"
    using s' b(1) by (auto simp: Reset_def)
  have "end_weight d \<le> end_weight (?d\<lparr>io_send := None\<rparr>) + 1" using Unpark_weight[OF d(1)] by simp
  moreover have "end_weight (?d\<lparr>io_send := None\<rparr>) + 10 \<le> end_weight (s x)" using assms(2) by (simp add: end_weight_def recv_weight_def in_hand_def)
  moreover have "end_weight (s' x) \<le> end_weight d + 1"
    using d(2) by (auto simp: end_weight_def recv_weight_def in_hand_def drop_unqueued_def split: option.splits)
  moreover have "end_weight (s' (\<not> x)) = end_weight (s1 (\<not> x))" using d(2) by simp
  ultimately show ?thesis using b(2) by (simp add: weight_at[of _ x])
qed

subsection \<open>Every step keeps it\<close>

lemma recv_completed_ok:
  assumes "ends_ok s" "in_port (m_pOVERLAPPEDrecv (s x))"
  shows "\<exists>s'. recv_completed x s = Some s' \<and> ends_ok s' \<and> weight s' < weight s"
proof -
  obtain o1 where o1: "m_pOVERLAPPEDrecv (s x) = Some o1" "bQueued o1" using assms(2) by (cases "m_pOVERLAPPEDrecv (s x)") auto
  have ok: "end_ok (s x)" "end_ok (s (\<not> x))" "towards (s x) (s (\<not> x))" "towards (s (\<not> x)) (s x)" using assms(1) by (auto simp: ends_ok_iff[of s x])
  then have np: "\<not> bParked o1" "\<not> looping (s x)" using o1 by (auto simp: end_defs)
  let ?d = "(s x)\<lparr>m_pOVERLAPPEDrecv := Some (o1\<lparr>bQueued := False\<rparr>), refs := refs (s x) - 1\<rparr>"
  consider "ov_ok o1 \<and> m_hFileCPort (s x)" | "\<not> ov_ok o1 \<and> m_hFileCPort (s x)" | "\<not> m_hFileCPort (s x)" by blast
  then show ?thesis
  proof cases
    case 1
    then have "recv_completed x s = Some (s(x := ?d\<lparr>looping := True\<rparr>))" using o1 by (simp add: recv_completed_def Let_def)
    moreover have "weight (s(x := ?d\<lparr>looping := True\<rparr>)) < weight s" using 1 o1 np by (simp add: weight_at[of _ x] end_weight_def recv_weight_def in_hand_def)
    moreover have "ends_ok (s(x := ?d\<lparr>looping := True\<rparr>))" using 1 ok o1 np by (auto simp: ends_ok_iff[of _ x] end_defs towards_def in_hand_def)
    ultimately show ?thesis by blast
  next
    case 2
    then have "recv_completed x s = Drop x (s(x := ?d))" using o1 by (simp add: recv_completed_def Let_def)
    moreover have "\<exists>s'. Drop x (s(x := ?d)) = Some s' \<and> ends_ok s'"
      using ok o1 np by (intro Drop_ok) (auto simp: end_defs towards_def in_hand_def)
    moreover have "weight (s(x := ?d)) \<le> weight s" using o1 np by (simp add: weight_at[of _ x] end_weight_def recv_weight_def in_hand_def)
    ultimately show ?thesis using Drop_weight[of x "s(x := ?d)"] 2 by fastforce
  next
    case 3
    then have "recv_completed x s = Some (s(x := ?d\<lparr>m_pOVERLAPPEDrecv := None\<rparr>))" using o1 by (simp add: recv_completed_def Let_def)
    moreover have "weight (s(x := ?d\<lparr>m_pOVERLAPPEDrecv := None\<rparr>)) < weight s" using o1 np by (simp add: weight_at[of _ x] end_weight_def recv_weight_def in_hand_def)
    moreover have "ends_ok (s(x := ?d\<lparr>m_pOVERLAPPEDrecv := None\<rparr>))" using 3 ok o1 np by (auto simp: ends_ok_iff[of _ x] end_defs towards_def in_hand_def)
    ultimately show ?thesis by blast
  qed
qed

lemma recv_pass_ok:
  assumes "ends_ok s" "looping (s x)"
  shows "\<exists>s'. recv_pass x s = Some s' \<and> ends_ok s' \<and> weight s' < weight s"
proof -
  have ok: "end_ok (s x)" "end_ok (s (\<not> x))" "towards (s x) (s (\<not> x))" "towards (s (\<not> x)) (s x)" using assms(1) by (auto simp: ends_ok_iff[of s x])
  then obtain o1 where o1: "m_pOVERLAPPEDrecv (s x) = Some o1" "\<not> bQueued o1" "\<not> bParked o1" "m_hFileCPort (s x)"
    using assms(2) by (cases "m_pOVERLAPPEDrecv (s x)") (auto simp: end_defs)
  show ?thesis
  proof (cases "m_pConThat (s x)")
    case False
    let ?d = "(s x)\<lparr>m_pOVERLAPPEDrecv := Some (o1\<lparr>bQueued := True, ov_ok := False\<rparr>), refs := refs (s x) + 1, looping := False\<rparr>"
    have "recv_pass x s = Some (s(x := ?d))" using False o1 by (simp add: recv_pass_def RecvP2PeerMsg_def PostRecv_def)
    moreover have "weight (s(x := ?d)) < weight s" using assms(2) by (simp add: weight_at[of _ x] end_weight_def recv_weight_def in_hand_def)
    moreover have "ends_ok (s(x := ?d))" using False ok o1 by (auto simp: ends_ok_iff[of _ x] end_defs towards_def in_hand_def)
    ultimately show ?thesis by blast
  next
    case True
    show ?thesis
    proof (cases "io_send (s (\<not> x))")
      case None
      let ?d = "(s x)\<lparr>io_recv := True, refs := refs (s x) + 1, m_pOVERLAPPEDrecv := Some (o1\<lparr>bParked := True\<rparr>), looping := False\<rparr>"
      have "recv_pass x s = Some (s(x := ?d))" using True None o1 by (simp add: recv_pass_def RecvP2PeerMsg_def)
      moreover have "weight (s(x := ?d)) < weight s" using assms(2) o1 by (simp add: weight_at[of _ x] end_weight_def recv_weight_def in_hand_def)
      moreover have "ends_ok (s(x := ?d))" using True None ok o1 by (auto simp: ends_ok_iff[of _ x] end_defs towards_def in_hand_def)
      ultimately show ?thesis by blast
    next
      case (Some m)
      then obtain o2 where o2: "m_pOVERLAPPEDsend (s (\<not> x)) = Some o2" "\<not> bQueued o2"
        using ok(2) by (cases "m_pOVERLAPPEDsend (s (\<not> x))") (auto simp: end_defs)
      let ?d = "(s x)\<lparr>io_recv := False, got := got (s x) @ [m]\<rparr>"
      let ?e = "(s (\<not> x))\<lparr>io_send := None, m_pOVERLAPPEDsend := Some (o2\<lparr>bQueued := True, ov_ok := True\<rparr>), refs := refs (s (\<not> x)) + 1\<rparr>"
      have "recv_pass x s = Some (s(x := ?d, (\<not> x) := ?e))" using True Some o2 by (auto simp: recv_pass_def RecvP2PeerMsg_def PostSend_def)
      moreover have "end_ok ?d" using ok(1) o1 assms(2) by (simp add: end_defs)
      moreover have "end_ok ?e" using ok(2) o2 Some by (simp add: end_defs)
      moreover have "towards ?d ?e" "towards ?e ?d" using ok(3,4) o1 True Some by (auto simp: towards_def in_hand_def)
      moreover have "weight (s(x := ?d, (\<not> x) := ?e)) < weight s" using Some o2 by (simp add: weight_at[of _ x] end_weight_def recv_weight_def in_hand_def)
      ultimately show ?thesis by (auto simp: ends_ok_iff[of _ x])
    qed
  qed
qed

lemma PostP2PeerMsg_ok:
  assumes "ends_ok s"
  shows "\<exists>s'. PostP2PeerMsg x m s = Some s' \<and> ends_ok s'"
proof -
  have ok: "end_ok (s x)" "end_ok (s (\<not> x))" "towards (s x) (s (\<not> x))" "towards (s (\<not> x)) (s x)" using assms(1) by (auto simp: ends_ok_iff[of s x])
  let ?d = "(s x)\<lparr>m_oCListMsgQue := m_oCListMsgQue (s x) @ [m], posted := posted (s x) @ [m]\<rparr>"
  have t: "towards ?d (s (\<not> x))" "towards (s (\<not> x)) ?d" using ok(3,4) by (auto simp: towards_def in_hand_def)
  show ?thesis
  proof (cases "m_pP2PeerMsgSend (s x) = None \<and> (\<exists>o1. m_pOVERLAPPEDsend (s x) = Some o1 \<and> \<not> bQueued o1)")
    case True
    then obtain o1 where o1: "m_pOVERLAPPEDsend (s x) = Some o1" "\<not> bQueued o1" "m_pP2PeerMsgSend (s x) = None" by blast
    let ?f = "?d\<lparr>m_pOVERLAPPEDsend := Some (o1\<lparr>bQueued := True, ov_ok := True\<rparr>), refs := refs (s x) + 1\<rparr>"
    have "PostP2PeerMsg x m s = Some (s(x := ?f))" using o1 by (simp add: PostP2PeerMsg_def Let_def PostSend_def)
    moreover have "end_ok ?f" using ok(1) o1 by (cases "io_send (s x)") (simp_all add: end_defs)
    moreover have "towards ?f (s (\<not> x))" "towards (s (\<not> x)) ?f" using t by (auto simp: towards_def in_hand_def)
    ultimately show ?thesis using ok by (auto simp: ends_ok_iff[of _ x])
  next
    case False
    then have "PostP2PeerMsg x m s = Some (s(x := ?d))" by (auto simp: PostP2PeerMsg_def Let_def split: option.splits)
    moreover have "end_ok ?d" using ok(1) False by (cases "m_pOVERLAPPEDsend (s x)") (auto simp: end_defs)
    ultimately show ?thesis using ok t by (auto simp: ends_ok_iff[of _ x])
  qed
qed

lemma SendP2PeerMsg_ok:
  assumes "end_safe (s x)" "end_ok (s (\<not> x))" "towards (s x) (s (\<not> x))" "towards (s (\<not> x)) (s x)" "io_send (s x) = None"
    and "m_pOVERLAPPEDsend (s x) = Some o1" "\<not> bQueued o1" "m_hFileCPort (s x)"
    and "looping (s x) \<or> in_port (m_pOVERLAPPEDrecv (s x)) \<or> in_park (m_pOVERLAPPEDrecv (s x))" "m_oCListMsgQue (s x) = m # q"
  shows "\<exists>s'. SendP2PeerMsg x m (s(x := (s x)\<lparr>m_pP2PeerMsgSend := Some m, m_oCListMsgQue := q\<rparr>)) = Some s' \<and> ends_ok s' \<and> weight s' \<le> weight s"
proof -
  let ?d = "(s x)\<lparr>m_pP2PeerMsgSend := Some m, m_oCListMsgQue := q\<rparr>"
  show ?thesis
  proof (cases "m_pConThat (s x)")
    case False
    let ?f = "?d\<lparr>m_pOVERLAPPEDsend := Some (o1\<lparr>bQueued := True, ov_ok := False\<rparr>), refs := refs (s x) + 1\<rparr>"
    have "SendP2PeerMsg x m (s(x := ?d)) = Some (s(x := ?f))" using False assms(5-7) by (simp add: SendP2PeerMsg_def PostSend_def)
    moreover have "end_ok ?f" using assms(1,5-9) False by (simp add: end_defs)
    moreover have "towards ?f (s (\<not> x))" "towards (s (\<not> x)) ?f" using assms(3,4) False by (auto simp: towards_def in_hand_def)
    moreover have "weight (s(x := ?f)) \<le> weight s" using assms(6,7,10) by (simp add: weight_at[of _ x] end_weight_def recv_weight_def in_hand_def)
    ultimately show ?thesis using assms(2) by (auto simp: ends_ok_iff[of _ x])
  next
    case True
    obtain e where e: "UnparkRecv True (s (\<not> x)) = Some e" "same_but_park (s (\<not> x)) e" "end_safe e" "end_live (s (\<not> x)) \<Longrightarrow> end_live e"
      using Unpark_safe assms(2) unfolding end_ok_def by blast
    let ?f = "?d\<lparr>io_send := Some m\<rparr>"
    have "SendP2PeerMsg x m (s(x := ?d)) = Some (s(x := ?f, (\<not> x) := e))" using True assms(5) e(1) by (simp add: SendP2PeerMsg_def)
    moreover have "end_ok ?f" using assms(1,6-9) by (simp add: end_defs)
    moreover have "end_ok e" using e(3,4) assms(2) by (simp add: end_ok_def)
    moreover have "towards ?f e" using assms(3,5,10) e(2) True by (auto simp: towards_def in_hand_def same_but_park_def)
    moreover have "towards e ?f" using assms(4) e(2) True by (auto simp: towards_def in_hand_def same_but_park_def)
    moreover have "weight (s(x := ?f, (\<not> x) := e)) \<le> weight s"
      using Unpark_weight[OF e(1)] assms(5,10) by (simp add: weight_at[of _ x] end_weight_def recv_weight_def in_hand_def)
    ultimately show ?thesis by (auto simp: ends_ok_iff[of _ x])
  qed
qed

lemma send_completed_ok:
  assumes "ends_ok s" "in_port (m_pOVERLAPPEDsend (s x))"
  shows "\<exists>s'. send_completed x s = Some s' \<and> ends_ok s' \<and> weight s' < weight s"
proof -
  obtain o1 where o1: "m_pOVERLAPPEDsend (s x) = Some o1" "bQueued o1" using assms(2) by (cases "m_pOVERLAPPEDsend (s x)") auto
  have ok: "end_ok (s x)" "end_ok (s (\<not> x))" "towards (s x) (s (\<not> x))" "towards (s (\<not> x)) (s x)" using assms(1) by (auto simp: ends_ok_iff[of s x])
  then have n: "io_send (s x) = None" using o1 by (cases "io_send (s x)") (auto simp: end_defs)
  let ?d = "(s x)\<lparr>m_pOVERLAPPEDsend := Some (o1\<lparr>bQueued := False\<rparr>), refs := refs (s x) - 1\<rparr>"
  have safe: "end_safe ?d" "towards ?d (s (\<not> x))" "towards (s (\<not> x)) ?d" using ok(1,3,4) o1 n by (simp_all add: end_defs towards_def in_hand_def)
  have wd: "weight (s(x := ?d)) < weight s" using o1 by (simp add: weight_at[of _ x] end_weight_def recv_weight_def in_hand_def)
  consider "ov_ok o1 \<and> m_hFileCPort (s x)" | "\<not> ov_ok o1 \<and> m_hFileCPort (s x)" | "\<not> m_hFileCPort (s x)" by blast
  then show ?thesis
  proof cases
    case 1
    show ?thesis
    proof (cases "m_oCListMsgQue (s x)")
      case Nil
      then have "send_completed x s = Some (s(x := ?d\<lparr>m_pP2PeerMsgSend := None\<rparr>))" using 1 o1 by (simp add: send_completed_def Let_def)
      moreover have "end_ok (?d\<lparr>m_pP2PeerMsgSend := None\<rparr>)" using ok(1) o1 n Nil by (simp add: end_defs)
      moreover have "towards (?d\<lparr>m_pP2PeerMsgSend := None\<rparr>) (s (\<not> x))" "towards (s (\<not> x)) (?d\<lparr>m_pP2PeerMsgSend := None\<rparr>)"
        using ok(3,4) by (simp_all add: towards_def in_hand_def)
      moreover have "weight (s(x := ?d\<lparr>m_pP2PeerMsgSend := None\<rparr>)) < weight s" using o1 by (simp add: weight_at[of _ x] end_weight_def recv_weight_def in_hand_def)
      ultimately show ?thesis using ok(2) by (auto simp: ends_ok_iff[of _ x])
    next
      case (Cons m q)
      have "send_completed x s = SendP2PeerMsg x m (s(x := ?d\<lparr>m_pP2PeerMsgSend := Some m, m_oCListMsgQue := q\<rparr>))"
        using 1 o1 Cons by (simp add: send_completed_def Let_def)
      moreover have "looping (s x) \<or> in_port (m_pOVERLAPPEDrecv (s x)) \<or> in_park (m_pOVERLAPPEDrecv (s x))" using ok(1) 1 by (simp add: end_defs)
      ultimately show ?thesis
        using SendP2PeerMsg_ok[of "s(x := ?d)" x "o1\<lparr>bQueued := False\<rparr>" m q] safe ok(2) n 1 Cons wd by fastforce
    qed
  next
    case 2
    then have "send_completed x s = Drop x (s(x := ?d))" using o1 by (simp add: send_completed_def Let_def)
    moreover have "\<exists>s'. Drop x (s(x := ?d)) = Some s' \<and> ends_ok s'" using safe ok(2) by (intro Drop_ok) simp_all
    ultimately show ?thesis using Drop_weight[of x "s(x := ?d)"] wd 2 by fastforce
  next
    case 3
    then have "send_completed x s = Some (s(x := ?d\<lparr>m_pOVERLAPPEDsend := None\<rparr>))" using o1 by (simp add: send_completed_def Let_def)
    moreover have "end_ok (?d\<lparr>m_pOVERLAPPEDsend := None\<rparr>)" using ok(1) o1 n 3 by (simp add: end_defs)
    moreover have "towards (?d\<lparr>m_pOVERLAPPEDsend := None\<rparr>) (s (\<not> x))" "towards (s (\<not> x)) (?d\<lparr>m_pOVERLAPPEDsend := None\<rparr>)"
      using ok(3,4) by (simp_all add: towards_def in_hand_def)
    moreover have "weight (s(x := ?d\<lparr>m_pOVERLAPPEDsend := None\<rparr>)) < weight s" using o1 by (simp add: weight_at[of _ x] end_weight_def recv_weight_def in_hand_def)
    ultimately show ?thesis using ok(2) by (auto simp: ends_ok_iff[of _ x])
  qed
qed

definition completion :: "'m event \<Rightarrow> bool" where
  "completion e \<longleftrightarrow> (case e of RecvCompletes x \<Rightarrow> True | RecvPass x \<Rightarrow> True | SendCompletes x \<Rightarrow> True | _ \<Rightarrow> False)"

lemma dmx_step_ok:
  assumes "ends_ok s" "can e s"
  shows "\<exists>s'. after e s = Some s' \<and> ends_ok s' \<and> (completion e \<longrightarrow> weight s' < weight s)"
proof (cases e)
  case (RecvCompletes x)
  then show ?thesis using recv_completed_ok[of s x] assms by (simp add: in_port_def completion_def)
next
  case (RecvPass x)
  then show ?thesis using recv_pass_ok assms by (simp add: completion_def)
next
  case (SendCompletes x)
  then show ?thesis using send_completed_ok[of s x] assms by (simp add: in_port_def completion_def)
next
  case (Posts x m)
  then show ?thesis using PostP2PeerMsg_ok[OF assms(1)] by (simp add: completion_def)
next
  case (Drops x)
  then show ?thesis using Drop_ok[of s x] assms by (simp add: ends_ok_iff[of _ x] end_ok_def completion_def)
next
  case (Destroys x)
  have "ends_ok (s(x := (s x)\<lparr>m_bDestroy := True\<rparr>))"
  proof -
    have ok: "end_ok (s x)" "end_ok (s (\<not> x))" "towards (s x) (s (\<not> x))" "towards (s (\<not> x)) (s x)" using assms(1) by (auto simp: ends_ok_iff[of s x])
    let ?d = "(s x)\<lparr>m_bDestroy := True\<rparr>"
    have "end_ok ?d" using ok(1) by (simp add: end_defs)
    moreover have "towards ?d (s (\<not> x))" "towards (s (\<not> x)) ?d" using ok(3,4) by (simp_all add: towards_def in_hand_def)
    ultimately show ?thesis using ok(2) by (simp add: ends_ok_iff[of _ x])
  qed
  then show ?thesis using Destroys by (simp add: completion_def)
qed

lemma reached_ok: "reached s \<Longrightarrow> ends_ok s"
proof (induction rule: reached.induct)
  case (reached_step s e s')
  then show ?case using dmx_step_ok by fastforce
qed (rule joined_ok)

text \<open>
  Nothing is lost or sent twice.  Whatever the two ends do, in whatever order, what one end has been handed
  is the beginning of what was posted at the other, in order; and while the pair stands, the rest is still there:
  the message held out, then the queue.
\<close>
theorem dmx_in_order:
  assumes "reached s"
  shows "prefix (got (s (\<not> x))) (posted (s x)) \<and>
    (m_pConThat (s x) \<longrightarrow> posted (s x) = got (s (\<not> x)) @ in_hand (s x) @ m_oCListMsgQue (s x))"
  using reached_ok[OF assms] by (simp add: ends_ok_def towards_def)

text \<open>
  C21: References and posts.  No step throws because a buffer is in the port already or a message is still held
  out, and an end is referenced once by its owner, once by each buffer in the port and once by a parked read: it is
  not deleted while its partner may post its read, and nothing keeps it when nothing is under way.
\<close>
theorem dmx_references:
  assumes "reached s" "can e s"
  shows "after e s \<noteq> None \<and> refs (s x) = 1 + of_bool (in_port (m_pOVERLAPPEDrecv (s x))) + of_bool (in_port (m_pOVERLAPPEDsend (s x))) +
    of_bool (in_park (m_pOVERLAPPEDrecv (s x)))"
  using reached_ok[OF assms(1)] dmx_step_ok[of s e] assms(2) by (auto simp: ends_ok_def end_defs)


subsection \<open>Coming to rest\<close>

text \<open>Completions and passes of the loops alone, with their number.\<close>

inductive left_alone :: "'m ends \<Rightarrow> nat \<Rightarrow> 'm ends \<Rightarrow> bool" where
  alone_none: "left_alone s 0 s"
| alone_more: "left_alone s n s1 \<Longrightarrow> completion e \<Longrightarrow> can e s1 \<Longrightarrow> after e s1 = Some s2 \<Longrightarrow> left_alone s (Suc n) s2"

lemma left_alone_bound: "left_alone s n s' \<Longrightarrow> ends_ok s \<Longrightarrow> ends_ok s' \<and> n + weight s' \<le> weight s"
proof (induction rule: left_alone.induct)
  case (alone_more s n s1 e s2)
  then show ?case using dmx_step_ok[of s1 e] by fastforce
qed simp

lemma left_alone_posted: "left_alone s n s' \<Longrightarrow> reached s \<Longrightarrow> reached s'"
  by (induction rule: left_alone.induct) (auto intro: reached_step)

text \<open>
  C20: A pair comes to rest with everything delivered.  Left alone, the two ends take at most \<open>weight s\<close> steps;
  and where no completion is outstanding and no loop runs, an end that is not being destroyed either stands in
  its pair, with all that was posted at it handed to the other, or is down: it was told that its partner left.
\<close>
theorem dmx_comes_to_rest:
  assumes "reached s" "left_alone s n s'"
  shows "n \<le> weight s \<and> ((\<forall>e. completion e \<longrightarrow> \<not> can e s') \<longrightarrow> \<not> m_bDestroy (s' x) \<longrightarrow>
    (if m_pConThat (s' x) then got (s' (\<not> x)) = posted (s' x) else \<not> m_hFileCPort (s' x)))"
proof -
  note b = left_alone_bound[OF assms(2) reached_ok[OF assms(1)]]
  have "if m_pConThat (s' x) then got (s' (\<not> x)) = posted (s' x) else \<not> m_hFileCPort (s' x)"
    if r: "\<forall>e. completion e \<longrightarrow> \<not> can e s'" and d: "\<not> m_bDestroy (s' x)"
  proof -
    have idle: "\<not> in_port (m_pOVERLAPPEDrecv (s' y))" "\<not> in_port (m_pOVERLAPPEDsend (s' y))" "\<not> looping (s' y)" for y
      using r[rule_format, of "RecvCompletes y"] r[rule_format, of "SendCompletes y"] r[rule_format, of "RecvPass y"]
      by (simp_all add: completion_def in_port_def)
    have ok: "end_ok (s' x)" "end_ok (s' (\<not> x))" "towards (s' x) (s' (\<not> x))" using b by (simp_all add: ends_ok_iff[of _ x])
    show ?thesis
    proof (cases "m_pConThat (s' x)")
      case True
      then have up: "m_pConThat (s' (\<not> x))" "m_hFileCPort (s' x)" "m_hFileCPort (s' (\<not> x))" using ok by (simp_all add: towards_def end_defs)
      then have "io_send (s' x) = None" using ok(2,3) idle(1,3)[of "\<not> x"] by (simp add: towards_def end_defs)
      moreover from this have "m_oCListMsgQue (s' x) = []" using ok(1) idle(2)[of x] up by (simp add: end_defs)
      ultimately show ?thesis using ok(3) True by (simp add: towards_def in_hand_def)
    next
      case False
      have "m_hFileCPort (s' x) \<Longrightarrow> in_park (m_pOVERLAPPEDrecv (s' x))" using ok(1) idle[of x] unfolding end_ok_def end_live_def by blast
      moreover have "\<not> in_park (m_pOVERLAPPEDrecv (s' x))" using ok(1) d False unfolding end_ok_def end_safe_def by blast
      ultimately show ?thesis using False by auto
    qed
  qed
  then show ?thesis using b by simp
qed

subsection \<open>Examples\<close>

fun run :: "'m event list \<Rightarrow> 'm ends \<Rightarrow> 'm ends option" where
  "run [] s = Some s"
| "run (e # es) s = (if can e s then Option.bind (after e s) (run es) else None)"

lemma run_reached: "run es s = Some s' \<Longrightarrow> reached s \<Longrightarrow> reached s'"
proof (induction es arbitrary: s)
  case (Cons e es)
  then show ?case by (auto split: if_splits simp: bind_eq_Some_conv intro: reached_step)
qed simp

definition exchange :: "nat event list" where
  "exchange = [RecvCompletes True, RecvPass True, Posts False 7, SendCompletes False, Posts False 8, RecvCompletes True, RecvPass True, RecvPass True,
     SendCompletes False]"

lemma exchange_runs: "\<exists>s. run exchange joined = Some s \<and> got (s True) = [7] \<and> in_hand (s False) = [8] \<and> m_pConThat (s False) \<and> can (RecvCompletes True) s"
  by (simp add: exchange_def joined_def joined_end_def MakeOVERLAPPED_def recv_completed_def Let_def recv_pass_def RecvP2PeerMsg_def PostSend_def
      PostRecv_def PostP2PeerMsg_def send_completed_def SendP2PeerMsg_def UnparkRecv_def in_hand_def)

theorem dmx_in_order_witness:
  "\<exists>s. reached s \<and> got (s True) = [7] \<and> in_hand (s False) = [8 :: nat] \<and> posted (s False) = got (s True) @ in_hand (s False) @ m_oCListMsgQue (s False)"
proof -
  obtain s where s: "reached s" "got (s True) = [7 :: nat]" "in_hand (s False) = [8]" "m_pConThat (s False)"
    using exchange_runs run_reached reached_joined by blast
  with dmx_in_order[OF s(1), of False] show ?thesis by auto
qed

theorem dmx_references_witness:
  "\<exists>s :: nat ends. reached s \<and> can (RecvCompletes True) s \<and> after (RecvCompletes True) s \<noteq> None"
proof -
  obtain s :: "nat ends" where s: "reached s" "can (RecvCompletes True) s" using exchange_runs run_reached reached_joined by blast
  with dmx_references[OF s] show ?thesis by blast
qed

theorem dmx_comes_to_rest_witness:
  "\<exists>n s'. left_alone (joined :: nat ends) n s' \<and> n \<le> weight (joined :: nat ends)"
  using dmx_comes_to_rest[OF reached_joined alone_none, of True] alone_none by blast

end
