(* ===== verification/Domains.thy ===== *)
theory Domains
  imports Address
begin

text \<open>
  Address domains: \<open>P2Padomain\<close> (P2Peer.cpp).  A domain is a text of alternatives between bars; an alternative
  may have bracketed sets, \<open>a.<b,c>.d\<close>, and is enumerated address by address.  The state of an enumeration is
  the array of bytes \<open>pucSets\<close>, one for each set; the code keeps \<open>w\<close> of them, the size of a \<open>long\<close>, and
  does not check the index, so what is said here of a domain with more sets than that is not said of the code.
  Nor is what is said of a domain whose last bracket is open: the scan of the code steps over its end.
\<close>

abbreviation chOpen :: wchar where "chOpen \<equiv> 60"
abbreviation chClose :: wchar where "chClose \<equiv> 62"
abbreviation chComma :: wchar where "chComma \<equiv> 44"
abbreviation chBar :: wchar where "chBar \<equiv> 124"

type_synonym sets = "nat \<Rightarrow> 8 word"

text \<open>All but the first \<open>k\<close> bytes cleared, and the one before counted up.\<close>

definition next_outer :: "nat \<Rightarrow> nat \<Rightarrow> sets \<Rightarrow> sets" where
  "next_outer w k pucSets = (\<lambda>i. if i < w \<and> k \<le> i then 0 else if i = k - 1 then pucSets i + 1 else pucSets i)"

text \<open>One set, from the character behind its bracket: where it ends, the bytes, the item.\<close>

partial_function (option) GetNextItem_from ::
  "nat \<Rightarrow> wstr \<Rightarrow> nat \<Rightarrow> nat \<Rightarrow> nat \<Rightarrow> sets \<Rightarrow> wstr \<Rightarrow> (nat \<times> sets \<times> wstr) option" where
  "GetNextItem_from w lpszDomain nSet n nSetItem pucSets csSetItem =
     (case drop n lpszDomain of [] \<Rightarrow> Some (n, pucSets, csSetItem)
      | c # r \<Rightarrow>
        if c = chOpen
        then Option.bind (GetNextItem_from w (drop n lpszDomain) (nSet + 1) 1 0 pucSets [])
               (\<lambda>(k, pucSets, sub).
                  if pucSets (nSet + 1) \<noteq> 255
                  then GetNextItem_from w lpszDomain (nSet + 1) (n + k + 1) nSetItem pucSets (csSetItem @ csSetItem)
                  else GetNextItem_from w lpszDomain nSet 1 0 (next_outer w (nSet + 1) pucSets) csSetItem)
        else if c = chComma then GetNextItem_from w lpszDomain nSet (n + 1) (nSetItem + 1) pucSets csSetItem
        else if c = chClose
        then Some (n, pucSets(nSet := if nSetItem < unat (pucSets nSet) then 255 else pucSets nSet + 1), csSetItem)
        else GetNextItem_from w lpszDomain nSet (n + 1) nSetItem pucSets (if unat (pucSets nSet) = nSetItem then csSetItem @ [c] else csSetItem))"

definition GetNextItem :: "nat \<Rightarrow> wstr \<Rightarrow> nat \<Rightarrow> sets \<Rightarrow> (nat \<times> sets \<times> wstr) option" where
  "GetNextItem w lpszDomain nSet pucSets = GetNextItem_from w lpszDomain nSet 1 0 pucSets []"

partial_function (option) GetNextP2Paddr_from ::
  "nat \<Rightarrow> wstr \<Rightarrow> nat \<Rightarrow> nat \<Rightarrow> sets \<Rightarrow> wstr \<Rightarrow> (wstr option \<times> sets) option" where
  "GetNextP2Paddr_from w lpszDomain n nSet pucSets csWork =
     (case drop n lpszDomain of
        [] \<Rightarrow> Some (if csWork = [] then None else Some csWork, if pucSets 0 = 0 then pucSets(0 := 255) else pucSets)
      | c # r \<Rightarrow>
        if c = chOpen
        then Option.bind (GetNextItem w (drop n lpszDomain) nSet pucSets)
               (\<lambda>(k, pucSets, csSetItem).
                  if pucSets nSet \<noteq> 255 then GetNextP2Paddr_from w lpszDomain (n + k + 1) (nSet + 1) pucSets (csWork @ csSetItem)
                  else if nSet = 0 then Some (None, pucSets)
                  else GetNextP2Paddr_from w lpszDomain 0 0 (next_outer w nSet pucSets) [])
        else if c = chComma \<or> c = chClose then Some (None, pucSets)
        else GetNextP2Paddr_from w lpszDomain (n + 1) nSet pucSets (csWork @ [c]))"

definition GetNextP2Paddr :: "nat \<Rightarrow> wstr \<Rightarrow> sets \<Rightarrow> (wstr option \<times> sets) option" where
  "GetNextP2Paddr w lpszDomain nState =
     (if nState 0 = 255 then Some (None, nState) else GetNextP2Paddr_from w lpszDomain 0 0 nState [])"

text \<open>\<open>Tokenize\<close>: the texts between bars that are not empty.\<close>

fun tokenize :: "wstr \<Rightarrow> wstr \<Rightarrow> wstr list" where
  "tokenize acc [] = (if acc = [] then [] else [acc])"
| "tokenize acc (c # cs) = (if c = chBar then (if acc = [] then tokenize [] cs else acc # tokenize [] cs) else tokenize (acc @ [c]) cs)"

record domain =
  m_strDomain :: wstr
  m_oCListDomains :: "wstr list"
  m_bWildcard :: bool

definition RebuildDomains :: "wstr \<Rightarrow> domain" where
  "RebuildDomains s = \<lparr>m_strDomain = s, m_oCListDomains = tokenize [] s, m_bWildcard = [chStar] \<in> set (tokenize [] s)\<rparr>"

text \<open>Whether some address of the enumeration maps \<open>a\<close>.\<close>

partial_function (option) any_mapped :: "nat \<Rightarrow> wstr \<Rightarrow> sets \<Rightarrow> wstr \<Rightarrow> bool option" where
  "any_mapped w lpszDomain nState a =
     Option.bind (GetNextP2Paddr w lpszDomain nState)
       (\<lambda>(r, nState). case r of None \<Rightarrow> Some False
         | Some p \<Rightarrow> if Wildcards.IsMapped p a then Some True else any_mapped w lpszDomain nState a)"

fun domains_mapped :: "nat \<Rightarrow> wstr list \<Rightarrow> wstr \<Rightarrow> bool option" where
  "domains_mapped w [] a = Some False"
| "domains_mapped w (d # ds) a =
     (if d = a then Some True
      else Option.bind (any_mapped w d (\<lambda>_. 0) a) (\<lambda>b. if b then Some True else domains_mapped w ds a))"

definition domain_IsMapped :: "nat \<Rightarrow> domain \<Rightarrow> wstr \<Rightarrow> bool option" where
  "domain_IsMapped w d a = (if m_bWildcard d then Some True else domains_mapped w (m_oCListDomains d) a)"

definition domain_IsNull :: "domain \<Rightarrow> bool" where "domain_IsNull d \<longleftrightarrow> m_strDomain d = []"

lemma tokenize_one: "chBar \<notin> set s \<Longrightarrow> acc @ s \<noteq> [] \<Longrightarrow> tokenize acc s = [acc @ s]"
  by (induction s arbitrary: acc) auto

lemma one_alternative:
  assumes "chBar \<notin> set d" "chOpen \<in> set d"
  shows "domain_IsMapped w (RebuildDomains d) a = domains_mapped w [d] a"
proof -
  have "d \<noteq> []" "d \<noteq> [chStar]" using assms(2) by auto
  with tokenize_one[OF assms(1), of "[]"] show ?thesis by (simp add: domain_IsMapped_def RebuildDomains_def)
qed

subsection \<open>One set\<close>

definition plain :: "wstr \<Rightarrow> bool" where
  "plain s \<longleftrightarrow> chOpen \<notin> set s \<and> chClose \<notin> set s \<and> chComma \<notin> set s"

fun commas :: "wstr list \<Rightarrow> wstr" where
  "commas [] = []"
| "commas [i] = i"
| "commas (i # is) = i @ chComma # commas is"

text \<open>\<open>pre<i,...,j>post\<close>\<close>

definition set_of :: "wstr list \<Rightarrow> wstr" where "set_of is = chOpen # commas is @ [chClose]"

lemma drop_more: "drop n d = xs @ r \<Longrightarrow> drop (n + length xs) d = r"
  by (metis add.commute append_eq_conv_conj drop_drop)

lemma drop_one: "drop n d = c # r \<Longrightarrow> drop (n + 1) d = r"
  using drop_more[of n d "[c]" r] by simp

lemma item_plain:
  assumes "plain i" "drop n d = i @ r"
  shows "GetNextItem_from w d k n j st acc = GetNextItem_from w d k (n + length i) j st (if unat (st k) = j then acc @ i else acc)"
  using assms
proof (induction i arbitrary: n acc)
  case (Cons c i)
  then have d: "drop n d = c # i @ r" by simp
  note d = d drop_one[OF d]
  have "GetNextItem_from w d k n j st acc = GetNextItem_from w d k (n + 1) j st (if unat (st k) = j then acc @ [c] else acc)"
    using Cons.prems(1) d(1) by (subst GetNextItem_from.simps) (auto simp: plain_def)
  also have "\<dots> = GetNextItem_from w d k (n + 1 + length i) j st (if unat (st k) = j then acc @ c # i else acc)"
    using Cons.IH[of "n + 1"] Cons.prems(1) d(2) by (auto simp: plain_def)
  finally show ?case by simp
qed simp

definition item_at :: "wstr list \<Rightarrow> nat \<Rightarrow> wstr" where "item_at is t = (if t < length is then is ! t else [])"

lemma items_from:
  assumes "list_all plain is" "is \<noteq> []" "drop n d = commas is @ chClose # r"
  shows "GetNextItem_from w d k n j st acc = Some (n + length (commas is),
    st(k := if j + length is \<le> unat (st k) then 255 else st k + 1), if j \<le> unat (st k) then acc @ item_at is (unat (st k) - j) else acc)"
  using assms
proof (induction "is" arbitrary: n j acc rule: commas.induct)
  case (2 i)
  then have i: "plain i" "drop n d = i @ chClose # r" by simp_all
  from drop_more[OF i(2)] have "drop (n + length i) d = chClose # r" .
  then have "GetNextItem_from w d k (n + length i) j st a = Some (n + length i, st(k := if j < unat (st k) then 255 else st k + 1), a)" for a
    by (subst GetNextItem_from.simps) simp
  then show ?case using item_plain[OF i, of w k j st acc] by (auto simp: item_at_def)
next
  case (3 i i' "is")
  let ?r = "commas (i' # is) @ chClose # r"
  have i: "plain i" "drop n d = i @ chComma # ?r" using 3(2,4) by simp_all
  note c = drop_more[OF i(2)] drop_one[OF drop_more[OF i(2)]]
  have "GetNextItem_from w d k n j st acc = GetNextItem_from w d k (n + length i + 1) (j + 1) st (if unat (st k) = j then acc @ i else acc)"
    unfolding item_plain[OF i] using c(1) by (subst GetNextItem_from.simps) simp
  also have "\<dots> = Some (n + length i + 1 + length (commas (i' # is)), st(k := if j + 1 + length (i' # is) \<le> unat (st k) then 255 else st k + 1),
      if j + 1 \<le> unat (st k) then (if unat (st k) = j then acc @ i else acc) @ item_at (i' # is) (unat (st k) - (j + 1))
      else (if unat (st k) = j then acc @ i else acc))"
    using 3(1)[of "n + length i + 1" "j + 1"] 3(2) c(2) by (simp add: fun_upd_def)
  finally show ?case by (auto simp: item_at_def not_less_eq_eq nth_Cons' Suc_diff_Suc)
qed simp

lemma next_item:
  assumes "list_all plain is" "is \<noteq> []"
  shows "GetNextItem w (set_of is @ r) k st = Some (1 + length (commas is), st(k := if length is \<le> unat (st k) then 255 else st k + 1),
    item_at is (unat (st k)))"
  using items_from[OF assms, of 1 "set_of is @ r" r w k 0 st "[]"] by (simp add: GetNextItem_def set_of_def)

lemma addr_plain:
  assumes "plain s" "drop n d = s @ r"
  shows "GetNextP2Paddr_from w d n k st acc = GetNextP2Paddr_from w d (n + length s) k st (acc @ s)"
  using assms
proof (induction s arbitrary: n acc)
  case (Cons c s)
  then have d: "drop n d = c # s @ r" by simp
  note d = d drop_one[OF d]
  have "GetNextP2Paddr_from w d n k st acc = GetNextP2Paddr_from w d (n + 1) k st (acc @ [c])"
    using Cons.prems(1) d(1) by (subst GetNextP2Paddr_from.simps) (auto simp: plain_def)
  also have "\<dots> = GetNextP2Paddr_from w d (n + 1 + length s) k st (acc @ c # s)"
    using Cons.IH[of "n + 1" "acc @ [c]"] Cons.prems(1) d(2) by (simp add: plain_def)
  finally show ?case by simp
qed simp

lemma addr_end:
  assumes "drop n d = []"
  shows "GetNextP2Paddr_from w d n k st acc = Some (if acc = [] then None else Some acc, if st 0 = 0 then st(0 := 255) else st)"
  using assms by (subst GetNextP2Paddr_from.simps) simp

text \<open>A set in a domain: its item goes to the address, or it is exhausted.\<close>

lemma addr_set:
  assumes "list_all plain is" "is \<noteq> []" "drop n d = set_of is @ r"
  shows "GetNextP2Paddr_from w d n k st acc =
    (let st' = st(k := if length is \<le> unat (st k) then 255 else st k + 1) in
     if st' k \<noteq> 255 then GetNextP2Paddr_from w d (n + length (set_of is)) (k + 1) st' (acc @ item_at is (unat (st k)))
     else if k = 0 then Some (None, st') else GetNextP2Paddr_from w d 0 0 (next_outer w k st') [])"
proof -
  have "drop n d = chOpen # commas is @ chClose # r" using assms(3) by (simp add: set_of_def)
  then show ?thesis using next_item[OF assms(1,2), of w r k st] assms(3)
    by (subst GetNextP2Paddr_from.simps) (simp add: Let_def set_of_def add.commute add.left_commute)
qed

subsection \<open>Enumerations\<close>

text \<open>The addresses a loop over \<open>GetNextP2Paddr\<close> sees.\<close>

partial_function (option) addresses :: "nat \<Rightarrow> wstr \<Rightarrow> sets \<Rightarrow> wstr list option" where
  "addresses w d st = Option.bind (GetNextP2Paddr w d st)
     (\<lambda>(r, st). case r of None \<Rightarrow> Some [] | Some p \<Rightarrow> Option.bind (addresses w d st) (\<lambda>ps. Some (p # ps)))"

lemma addresses_next:
  "GetNextP2Paddr w d st = Some (Some p, st') \<Longrightarrow> addresses w d st' = Some ps \<Longrightarrow> addresses w d st = Some (p # ps)"
  "GetNextP2Paddr w d st = Some (None, st') \<Longrightarrow> addresses w d st = Some []"
  by (subst addresses.simps, simp)+

lemma any_mapped_addresses: "addresses w d st = Some ps \<Longrightarrow> any_mapped w d st a = Some (\<exists>p\<in>set ps. Wildcards.IsMapped p a)"
proof (induction ps arbitrary: st)
  case Nil
  then obtain st' where "GetNextP2Paddr w d st = Some (None, st')"
    by (subst (asm) addresses.simps) (auto simp: bind_eq_Some_conv split: option.splits)
  then show ?case by (subst any_mapped.simps) simp
next
  case (Cons p ps)
  then obtain st' where "GetNextP2Paddr w d st = Some (Some p, st')" "addresses w d st' = Some ps"
    by (subst (asm) addresses.simps) (auto simp: bind_eq_Some_conv split: option.splits)
  then show ?case using Cons.IH by (subst any_mapped.simps) simp
qed

lemma plain_domain:
  assumes "plain d" "d \<noteq> []"
  shows "addresses w d (\<lambda>_. 0) = Some [d]"
proof -
  let ?st = "(\<lambda>_. 0)(0 := 255) :: sets"
  have "GetNextP2Paddr w d (\<lambda>_. 0) = Some (Some d, ?st)"
    using addr_plain[of d 0 d "[]" w 0 "\<lambda>_. 0" "[]"] addr_end[of "length d" d w 0 "\<lambda>_. 0" d] assms by (simp add: GetNextP2Paddr_def)
  moreover have "GetNextP2Paddr w d ?st = Some (None, ?st)" by (simp add: GetNextP2Paddr_def)
  ultimately show ?thesis using addresses_next by blast
qed

lemma count_up: "unat (x :: 8 word) = t \<Longrightarrow> t < 254 \<Longrightarrow> unat (x + 1) = Suc t \<and> x + 1 \<noteq> 255 \<and> x + 1 \<noteq> 0 \<and> x \<noteq> 255"
proof -
  assume a: "unat x = t" "t < 254"
  then have u: "unat (x + 1) = Suc t" by (simp add: unat_word_ariths)
  have "x + 1 \<noteq> 255" "x + 1 \<noteq> 0" "x \<noteq> 255" using u a by (auto dest: arg_cong[where f = unat])
  with u show ?thesis by simp
qed

text \<open>
  One set in an alternative is enumerated exactly: every item once, in order, as long as the counter of the set
  does not meet the value 255, which means exhausted.
\<close>
lemma one_set_from:
  assumes "plain pre" "plain post" "list_all plain is" "is \<noteq> []" "length is < 255" "pre @ post \<noteq> []"
  shows "unat (st 0) \<le> length is \<Longrightarrow> addresses w (pre @ set_of is @ post) st = Some (map (\<lambda>i. pre @ i @ post) (drop (unat (st 0)) is))"
proof (induction "length is - unat (st 0)" arbitrary: st)
  case 0
  let ?d = "pre @ set_of is @ post"
  have n: "st 0 \<noteq> 255" using 0(2) assms(5) by auto
  have "GetNextP2Paddr w ?d st = GetNextP2Paddr_from w ?d (length pre) 0 st pre"
    using addr_plain[OF assms(1), of 0 ?d "set_of is @ post" w 0 st "[]"] n by (simp add: GetNextP2Paddr_def)
  also have "\<dots> = Some (None, st(0 := 255))"
    using addr_set[OF assms(3,4), of "length pre" ?d post w 0 st pre] 0 by simp
  finally show ?case using addresses_next(2) 0 by simp
next
  case (Suc k)
  let ?d = "pre @ set_of is @ post" and ?t = "unat (st 0)" and ?st = "st(0 := st 0 + 1)"
  have t: "?t < length is" using Suc(2) by simp
  then have c: "unat (st 0 + 1) = Suc ?t" "st 0 + 1 \<noteq> 255" "st 0 + 1 \<noteq> 0" "st 0 \<noteq> 255" using count_up[OF refl, of "st 0"] assms(5) by simp_all
  have "GetNextP2Paddr w ?d st = GetNextP2Paddr_from w ?d (length pre) 0 st pre"
    using addr_plain[OF assms(1), of 0 ?d "set_of is @ post" w 0 st "[]"] c(4) by (simp add: GetNextP2Paddr_def)
  also have "\<dots> = GetNextP2Paddr_from w ?d (length pre + length (set_of is)) 1 ?st (pre @ is ! ?t)"
    using addr_set[OF assms(3,4), of "length pre" ?d post w 0 st pre] t c by (simp add: item_at_def Let_def)
  also have "\<dots> = GetNextP2Paddr_from w ?d (length ?d) 1 ?st (pre @ is ! ?t @ post)"
    using addr_plain[OF assms(2), of "length pre + length (set_of is)" ?d "[]" w 1 ?st "pre @ is ! ?t"] by (simp add: add.assoc)
  also have "\<dots> = Some (Some (pre @ is ! ?t @ post), ?st)"
    using assms(6) c by (subst addr_end) auto
  finally have "GetNextP2Paddr w ?d st = Some (Some (pre @ is ! ?t @ post), ?st)" .
  moreover have "addresses w ?d ?st = Some (map (\<lambda>i. pre @ i @ post) (drop (Suc ?t) is))"
    using Suc(1)[of ?st] Suc(2) t c(1) by simp
  ultimately show ?case using addresses_next(1) t by (simp flip: Cons_nth_drop_Suc)
qed

text \<open>
  C22: One bracketed set is enumerated exactly.  Of a domain with one set, whatever stands before and behind it, the
  loop of \<open>IsMapped\<close> sees every item once, in order; so an address is in the domain if it is the text itself or one
  of these patterns maps it.
\<close>
theorem one_set_domain:
  assumes "plain pre" "plain post" "list_all plain is" "is \<noteq> []" "length is < 255" "pre @ post \<noteq> []"
    "chBar \<notin> set (pre @ set_of is @ post)"
  shows "addresses w (pre @ set_of is @ post) (\<lambda>_. 0) = Some (map (\<lambda>i. pre @ i @ post) is) \<and>
    domain_IsMapped w (RebuildDomains (pre @ set_of is @ post)) a = Some (a = pre @ set_of is @ post \<or> (\<exists>i\<in>set is. Wildcards.IsMapped (pre @ i @ post) a))"
proof -
  have e: "addresses w (pre @ set_of is @ post) (\<lambda>_. 0) = Some (map (\<lambda>i. pre @ i @ post) is)"
    using one_set_from[OF assms(1-6), of "\<lambda>_. 0"] by simp
  have o: "chOpen \<in> set (pre @ set_of is @ post)" by (simp add: set_of_def)
  show ?thesis unfolding one_alternative[OF assms(7) o] using e any_mapped_addresses[OF e, of a] by auto
qed

lemma two_sets_from:
  assumes "plain pre" "plain mid" "plain post" "list_all plain is" "is \<noteq> []" "list_all plain js" "length is \<le> length js" "length js < 255" "mid \<noteq> []"
  shows "unat (st 0) \<le> length is \<Longrightarrow> st 1 = st 0 \<Longrightarrow> addresses w (pre @ set_of is @ mid @ set_of js @ post) st =
    Some (map (\<lambda>(i, j). pre @ i @ mid @ j @ post) (drop (unat (st 0)) (zip is js)))"
proof (induction "length is - unat (st 0)" arbitrary: st)
  case 0
  let ?d = "pre @ set_of is @ mid @ set_of js @ post"
  have n: "st 0 \<noteq> 255" using 0(2) assms(7,8) by auto
  have "GetNextP2Paddr w ?d st = GetNextP2Paddr_from w ?d (length pre) 0 st pre"
    using addr_plain[OF assms(1), of 0 ?d "set_of is @ mid @ set_of js @ post" w 0 st "[]"] n by (simp add: GetNextP2Paddr_def)
  also have "\<dots> = Some (None, st(0 := 255))"
    using addr_set[OF assms(4,5), of "length pre" ?d "mid @ set_of js @ post" w 0 st pre] 0 by simp
  finally show ?case using addresses_next(2) 0 by simp
next
  case (Suc k)
  let ?d = "pre @ set_of is @ mid @ set_of js @ post" and ?t = "unat (st 0)" and ?s = "st(0 := st 0 + 1)"
  let ?st = "st(0 := st 0 + 1, Suc 0 := st 0 + 1)"
  let ?n = "length pre + length (set_of is)"
  have js: "js \<noteq> []" using assms(5,7) by auto
  have t: "?t < length is" "?t < length js" using Suc(2) assms(7) by simp_all
  then have c: "unat (st 0 + 1) = Suc ?t" "st 0 + 1 \<noteq> 255" "st 0 + 1 \<noteq> 0" "st 0 \<noteq> 255" using count_up[OF refl, of "st 0"] assms(8) by simp_all
  have "GetNextP2Paddr w ?d st = GetNextP2Paddr_from w ?d (length pre) 0 st pre"
    using addr_plain[OF assms(1), of 0 ?d "set_of is @ mid @ set_of js @ post" w 0 st "[]"] c(4) by (simp add: GetNextP2Paddr_def)
  also have "\<dots> = GetNextP2Paddr_from w ?d ?n 1 ?s (pre @ is ! ?t)"
    using addr_set[OF assms(4,5), of "length pre" ?d "mid @ set_of js @ post" w 0 st pre] t c by (simp add: item_at_def Let_def)
  also have "\<dots> = GetNextP2Paddr_from w ?d (?n + length mid) 1 ?s (pre @ is ! ?t @ mid)"
    using addr_plain[OF assms(2), of ?n ?d "set_of js @ post" w 1 ?s "pre @ is ! ?t"] by simp
  also have "\<dots> = GetNextP2Paddr_from w ?d (?n + length mid + length (set_of js)) 2 ?st (pre @ is ! ?t @ mid @ js ! ?t)"
    using addr_set[OF assms(6) js, of "?n + length mid" ?d post w 1 ?s "pre @ is ! ?t @ mid"] t c Suc(4)
    by (simp add: item_at_def Let_def add.assoc numeral_2_eq_2)
  also have "\<dots> = GetNextP2Paddr_from w ?d (length ?d) 2 ?st (pre @ is ! ?t @ mid @ js ! ?t @ post)"
    using addr_plain[OF assms(3), of "?n + length mid + length (set_of js)" ?d "[]" w 2 ?st "pre @ is ! ?t @ mid @ js ! ?t"] by (simp add: add.assoc)
  also have "\<dots> = Some (Some (pre @ is ! ?t @ mid @ js ! ?t @ post), ?st)"
    using assms(9) c by (subst addr_end) auto
  finally have "GetNextP2Paddr w ?d st = Some (Some (pre @ is ! ?t @ mid @ js ! ?t @ post), ?st)" .
  moreover have "addresses w ?d ?st = Some (map (\<lambda>(i, j). pre @ i @ mid @ j @ post) (drop (Suc ?t) (zip is js)))"
    using Suc(1)[of ?st] Suc(2) t c(1) by simp
  moreover have "drop ?t (zip is js) = (is ! ?t, js ! ?t) # drop (Suc ?t) (zip is js)"
    using t by (simp flip: Cons_nth_drop_Suc)
  ultimately show ?case using addresses_next(1) by simp
qed

text \<open>
  Two bracketed sets are taken in step.  Of a domain with two sets the loop sees only the first item of one
  with the first of the other, the second with the second and so on; the other combinations, which the set
  brackets stand for, are not in the domain unless a pattern happens to map them.
\<close>
theorem two_sets_in_step:
  assumes "plain pre" "plain mid" "plain post" "list_all plain is" "is \<noteq> []" "list_all plain js" "length is \<le> length js" "length js < 255" "mid \<noteq> []"
    "chBar \<notin> set (pre @ set_of is @ mid @ set_of js @ post)"
  shows "addresses w (pre @ set_of is @ mid @ set_of js @ post) (\<lambda>_. 0) = Some (map (\<lambda>(i, j). pre @ i @ mid @ j @ post) (zip is js)) \<and>
    domain_IsMapped w (RebuildDomains (pre @ set_of is @ mid @ set_of js @ post)) a = Some (a = pre @ set_of is @ mid @ set_of js @ post \<or>
      (\<exists>(i, j)\<in>set (zip is js). Wildcards.IsMapped (pre @ i @ mid @ j @ post) a))"
proof -
  have e: "addresses w (pre @ set_of is @ mid @ set_of js @ post) (\<lambda>_. 0) = Some (map (\<lambda>(i, j). pre @ i @ mid @ j @ post) (zip is js))"
    using two_sets_from[OF assms(1-9), of "\<lambda>_. 0"] by simp
  have o: "chOpen \<in> set (pre @ set_of is @ mid @ set_of js @ post)" by (simp add: set_of_def)
  show ?thesis unfolding one_alternative[OF assms(10) o] using e any_mapped_addresses[OF e, of a] by (auto split: prod.splits)
qed

theorem one_set_domain_witness:
  "addresses 8 (wide ''lan.<a,b>'') (\<lambda>_. 0) = Some [wide ''lan.a'', wide ''lan.b''] \<and>
   domain_IsMapped 8 (RebuildDomains (wide ''lan.<a,b>'')) (wide ''lan.b'') = Some True"
proof -
  have e: "wide ''lan.<a,b>'' = wide ''lan.'' @ set_of [wide ''a'', wide ''b''] @ []" by (simp add: wide_def set_of_def)
  have "Wildcards.IsMapped (wide ''lan.b'') (wide ''lan.b'')" by code_simp
  then show ?thesis unfolding e using one_set_domain[of "wide ''lan.''" "[]" "[wide ''a'', wide ''b'']" 8 "wide ''lan.b''"]
    by (simp add: plain_def wide_def set_of_def)
qed

theorem two_sets_in_step_witness:
  "addresses 8 (wide ''<a,b>.<c,d>'') (\<lambda>_. 0) = Some [wide ''a.c'', wide ''b.d''] \<and>
   domain_IsMapped 8 (RebuildDomains (wide ''<a,b>.<c,d>'')) (wide ''a.d'') = Some False"
proof -
  have e: "wide ''<a,b>.<c,d>'' = [] @ set_of [wide ''a'', wide ''b''] @ wide ''.'' @ set_of [wide ''c'', wide ''d''] @ []"
    by (simp add: wide_def set_of_def)
  have "\<not> Wildcards.IsMapped (wide ''a.c'') (wide ''a.d'')" "\<not> Wildcards.IsMapped (wide ''b.d'') (wide ''a.d'')" by code_simp+
  then show ?thesis unfolding e
    using two_sets_in_step[of "[]" "wide ''.''" "[]" "[wide ''a'', wide ''b'']" "[wide ''c'', wide ''d'']" 8 "wide ''a.d''"]
    by (simp add: plain_def wide_def set_of_def)
qed

end
