(* ===== verification/ConMaps.thy ===== *)
theory ConMaps
  imports Domains ConSession
begin

text \<open>
  Connection maps: the \<open>ON_P2PeerCon\<close> macros (P2PmsgMaps.h), \<open>FindP2PeerConEntry\<close> and \<open>DispatchP2PeerCon\<close>
  (P2Pwin32.cpp), and the walk of a notification over the targets (P2PeerTarget.cpp).

  A map is the list of its entries without the end entry.  A handler is a number; what handlers do is the
  parameter \<open>call\<close>: given target, handler and arguments it answers a result, or \<open>None\<close> for an exception, and
  the connection and the rest of the state it leaves.  \<open>w\<close> is the size of a \<open>long\<close>, see Domains.  Result codes
  and notifications are numbers as in the source.  The signature of the public key exchange, which no macro
  that compiles gives, is \<open>P2PSig_other\<close>.
\<close>

datatype con_sig = P2PSig_Con | P2PSig_ConLogin | P2PSig_ConLoginAck | P2PSig_ConPeek | P2PSig_ConCypherEx | P2PSig_other

record con_entry =
  nMessage :: "16 word"
  ce_nCode :: "32 word"
  strP2Padom :: wstr
  nMode :: "32 word"
  ce_nSig :: con_sig
  ce_pfn :: nat
  ce_nOSets :: nat

definition CN_P2PeerCon :: "32 word" where "CN_P2PeerCon = 1"
definition CM_SERVER :: "32 word" where "CM_SERVER = 1"
definition CM_CLIENT :: "32 word" where "CM_CLIENT = 2"
definition CM_ACCEPT :: "32 word" where "CM_ACCEPT = 4"

definition P2P_Listen :: "16 word" where "P2P_Listen = 1"
definition P2P_Connect :: "16 word" where "P2P_Connect = 2"
definition P2P_Accept :: "16 word" where "P2P_Accept = 3"
definition P2P_Close :: "16 word" where "P2P_Close = 5"
definition P2P_Login :: "16 word" where "P2P_Login = 7"
definition P2P_LoginAck :: "16 word" where "P2P_LoginAck = 8"
definition P2P_Notify :: "16 word" where "P2P_Notify = 9"
definition P2P_Startup :: "16 word" where "P2P_Startup = 10"
definition P2P_IdleNotify :: "16 word" where "P2P_IdleNotify = 11"
definition P2P_Destroy :: "16 word" where "P2P_Destroy = 12"
definition P2P_PITimer :: "16 word" where "P2P_PITimer = 13"
definition P2P_Shutdown :: "16 word" where "P2P_Shutdown = 14"
definition P2P_CypherEx :: "16 word" where "P2P_CypherEx = 15"

lemmas con_notifications = P2P_Listen_def P2P_Connect_def P2P_Accept_def P2P_Close_def P2P_Login_def P2P_LoginAck_def P2P_Notify_def
  P2P_Startup_def P2P_IdleNotify_def P2P_Destroy_def P2P_PITimer_def P2P_Shutdown_def P2P_CypherEx_def

definition conTINUE :: "32 word" where "conTINUE = 0"
definition conHANDLED :: "32 word" where "conHANDLED = 1"
definition conDROP :: "32 word" where "conDROP = 3"

lemmas con_results = conTINUE_def conHANDLED_def conDROP_def

subsection \<open>What the macros put into a map\<close>

definition con_entry_of :: "16 word \<Rightarrow> wstr \<Rightarrow> 32 word \<Rightarrow> con_sig \<Rightarrow> nat \<Rightarrow> con_entry list" where
  "con_entry_of n oDomain uMode sig f =
     [\<lparr>nMessage = n, ce_nCode = CN_P2PeerCon, strP2Padom = oDomain, nMode = uMode, ce_nSig = sig, ce_pfn = f, ce_nOSets = 1\<rparr>]"

definition ON_P2PeerCon :: "wstr \<Rightarrow> nat \<Rightarrow> con_entry list" where "ON_P2PeerCon s = con_entry_of P2P_Notify s 0 P2PSig_Con"
definition ON_P2PeerCon_STARTUP :: "wstr \<Rightarrow> nat \<Rightarrow> con_entry list" where "ON_P2PeerCon_STARTUP s = con_entry_of P2P_Startup s 0 P2PSig_Con"
definition ON_P2PeerSVR_STARTUP :: "wstr \<Rightarrow> nat \<Rightarrow> con_entry list" where "ON_P2PeerSVR_STARTUP s = con_entry_of P2P_Startup s CM_SERVER P2PSig_Con"
definition ON_P2PeerCon_SERVICE :: "wstr \<Rightarrow> 16 word \<Rightarrow> nat \<Rightarrow> con_entry list" where "ON_P2PeerCon_SERVICE s n = con_entry_of n s 0 P2PSig_Con"
definition ON_P2PeerCon_CLIENT :: "wstr \<Rightarrow> 16 word \<Rightarrow> nat \<Rightarrow> con_entry list" where "ON_P2PeerCon_CLIENT s n = con_entry_of n s 0 P2PSig_Con"
definition ON_P2PeerCon_CONNECT :: "wstr \<Rightarrow> nat \<Rightarrow> con_entry list" where "ON_P2PeerCon_CONNECT s = con_entry_of P2P_Connect s 0 P2PSig_Con"
definition ON_P2PeerOLD_ACCEPT :: "wstr \<Rightarrow> nat \<Rightarrow> con_entry list" where "ON_P2PeerOLD_ACCEPT s = con_entry_of P2P_Accept s 0 P2PSig_Con"
definition ON_P2PeerCon_ACCEPT :: "wstr \<Rightarrow> nat \<Rightarrow> con_entry list" where "ON_P2PeerCon_ACCEPT s = con_entry_of P2P_Accept s CM_ACCEPT P2PSig_Con"
definition ON_P2PeerSVR_ACCEPT :: "wstr \<Rightarrow> nat \<Rightarrow> con_entry list" where "ON_P2PeerSVR_ACCEPT s = con_entry_of P2P_Accept s CM_SERVER P2PSig_Con"
definition ON_P2PeerCon_LOGIN :: "wstr \<Rightarrow> nat \<Rightarrow> con_entry list" where "ON_P2PeerCon_LOGIN s = con_entry_of P2P_Login s 0 P2PSig_ConLogin"
definition ON_P2PeerCon_LOGINACK :: "wstr \<Rightarrow> nat \<Rightarrow> con_entry list" where "ON_P2PeerCon_LOGINACK s = con_entry_of P2P_LoginAck s 0 P2PSig_ConLoginAck"
definition ON_P2PeerCon_CLOSE :: "wstr \<Rightarrow> nat \<Rightarrow> con_entry list" where "ON_P2PeerCon_CLOSE s = con_entry_of P2P_Close s 0 P2PSig_Con"
definition ON_P2PeerSVR_CLOSE :: "wstr \<Rightarrow> nat \<Rightarrow> con_entry list" where "ON_P2PeerSVR_CLOSE s = con_entry_of P2P_Close s CM_SERVER P2PSig_Con"
definition ON_P2PeerCon_SHUTDOWN :: "wstr \<Rightarrow> nat \<Rightarrow> con_entry list" where "ON_P2PeerCon_SHUTDOWN s = con_entry_of P2P_Shutdown s 0 P2PSig_Con"
definition ON_P2PeerSVR_SHUTDOWN :: "wstr \<Rightarrow> nat \<Rightarrow> con_entry list" where "ON_P2PeerSVR_SHUTDOWN s = con_entry_of P2P_Shutdown s CM_SERVER P2PSig_Con"
definition ON_P2PeerCon_IDLENOTIFY :: "wstr \<Rightarrow> nat \<Rightarrow> con_entry list" where "ON_P2PeerCon_IDLENOTIFY s = con_entry_of P2P_IdleNotify s 0 P2PSig_Con"
definition ON_P2PeerCon_LISTEN :: "wstr \<Rightarrow> nat \<Rightarrow> con_entry list" where "ON_P2PeerCon_LISTEN s = con_entry_of P2P_Listen s 0 P2PSig_Con"
definition ON_P2PeerSVR_LISTEN :: "wstr \<Rightarrow> nat \<Rightarrow> con_entry list" where "ON_P2PeerSVR_LISTEN s = con_entry_of P2P_Listen s CM_SERVER P2PSig_Con"
definition ON_P2PeerCon_TIMER :: "wstr \<Rightarrow> nat \<Rightarrow> con_entry list" where "ON_P2PeerCon_TIMER s = con_entry_of P2P_PITimer s 0 P2PSig_Con"
definition ON_P2PeerSVR_TIMER :: "wstr \<Rightarrow> nat \<Rightarrow> con_entry list" where "ON_P2PeerSVR_TIMER s = con_entry_of P2P_PITimer s CM_SERVER P2PSig_Con"
definition ON_P2PeerCon_CYPHEREX :: "wstr \<Rightarrow> nat \<Rightarrow> con_entry list" where "ON_P2PeerCon_CYPHEREX s = con_entry_of P2P_CypherEx s 0 P2PSig_ConCypherEx"

lemmas con_macros = con_entry_of_def ON_P2PeerCon_def ON_P2PeerCon_STARTUP_def ON_P2PeerSVR_STARTUP_def ON_P2PeerCon_SERVICE_def
  ON_P2PeerCon_CLIENT_def ON_P2PeerCon_CONNECT_def ON_P2PeerOLD_ACCEPT_def ON_P2PeerCon_ACCEPT_def ON_P2PeerSVR_ACCEPT_def
  ON_P2PeerCon_LOGIN_def ON_P2PeerCon_LOGINACK_def ON_P2PeerCon_CLOSE_def ON_P2PeerSVR_CLOSE_def ON_P2PeerCon_SHUTDOWN_def
  ON_P2PeerSVR_SHUTDOWN_def ON_P2PeerCon_IDLENOTIFY_def ON_P2PeerCon_LISTEN_def ON_P2PeerSVR_LISTEN_def ON_P2PeerCon_TIMER_def
  ON_P2PeerSVR_TIMER_def ON_P2PeerCon_CYPHEREX_def

subsection \<open>The search in a map\<close>

text \<open>\<open>NullMessage\<close> is what the code reads through a null pointer.\<close>

datatype find_error = IncompleteLogin | InvalidLogin | IncompleteLoginAck | InvalidLoginAck | InvalidCypherEx | NullMessage

text \<open>An entry for the notification, asked for the connection and the message; \<open>None\<close> when the domain never ends.\<close>

definition entry_for_mode :: "con_entry \<Rightarrow> con \<Rightarrow> bool" where
  "entry_for_mode e c \<longleftrightarrow> nMode e AND CM_SERVER = CM_SERVER \<and> m_eP2PeerConMode c = P2PeerCon_SERVICE \<or>
     nMode e AND CM_CLIENT = CM_CLIENT \<and> m_eP2PeerConMode c = P2PeerCon_CLIENT \<or>
     nMode e AND CM_ACCEPT = CM_ACCEPT \<and> m_eP2PeerConMode c = P2PeerCon_Accept"

definition con_entry_takes :: "nat \<Rightarrow> con_entry \<Rightarrow> 16 word \<Rightarrow> con \<Rightarrow> peer_msg option \<Rightarrow> (find_error + bool) option" where
  "con_entry_takes w e nP2Pmsg c pMsg =
     (let oDomain = RebuildDomains (strP2Padom e);
          mapped = (\<lambda>a. Option.bind (domain_IsMapped w oDomain a) (\<lambda>b. Some (Inr b))) in
      if entry_for_mode e c then mapped (m_oThatP2Paddr c)
      else if nP2Pmsg = P2P_Login then
        (case pMsg of None \<Rightarrow> Some (Inl IncompleteLogin)
         | Some m \<Rightarrow> if \<not> Map_MatchName (m_name m) P2Pmsg_Login then Some (Inl InvalidLogin)
             else Option.bind (domain_IsMapped w oDomain (GetSource m)) (\<lambda>b. if b then Some (Inr True) else mapped (m_oThatP2Paddr c)))
      else if nP2Pmsg = P2P_LoginAck then
        (case pMsg of None \<Rightarrow> Some (Inl IncompleteLoginAck)
         | Some m \<Rightarrow> if \<not> Map_MatchName (m_name m) P2Pmsg_LoginAck then Some (Inl InvalidLoginAck) else mapped (GetSource m))
      else if nP2Pmsg = P2P_CypherEx then
        (case pMsg of None \<Rightarrow> Some (Inl NullMessage)
         | Some m \<Rightarrow> if \<not> Map_MatchName (m_name m) P2Pmsg_CypherEx then Some (Inl InvalidCypherEx) else mapped (GetSource m))
      else if nMode e = 0 then mapped (m_oThatP2Paddr c)
      else Some (Inr False))"

datatype con_found = ConThrows find_error | ConNotFound | ConFound con_entry

text \<open>\<open>None\<close> also when an entry with offset 0 is tried again and again; the macros make none.\<close>

fun FindP2PeerConEntry :: "nat \<Rightarrow> con_entry list \<Rightarrow> 16 word \<Rightarrow> 32 word \<Rightarrow> con \<Rightarrow> peer_msg option \<Rightarrow> con_found option" where
  "FindP2PeerConEntry w [] nP2Pmsg nCode c pMsg = Some ConNotFound"
| "FindP2PeerConEntry w (e # v) nP2Pmsg nCode c pMsg =
     (if nMessage e \<noteq> nP2Pmsg \<or> ce_nCode e \<noteq> nCode
      then if ce_nOSets e = 0 then None else FindP2PeerConEntry w (drop (ce_nOSets e - 1) v) nP2Pmsg nCode c pMsg
      else (case con_entry_takes w e nP2Pmsg c pMsg of
              None \<Rightarrow> None
            | Some (Inl x) \<Rightarrow> Some (ConThrows x)
            | Some (Inr b) \<Rightarrow> if b then Some (ConFound e) else if ce_nOSets e = 0 then None
                else FindP2PeerConEntry w (drop (ce_nOSets e - 1) v) nP2Pmsg nCode c pMsg))"

subsection \<open>The call of a handler\<close>

datatype con_args = ArgsNone | ArgsLogin wstr bytes | ArgsLoginAck wstr wstr bytes | ArgsPeek "32 word" "16 word" | ArgsCypherEx "peer_msg option"

type_synonym 's con_handlers = "nat \<Rightarrow> nat \<Rightarrow> con_args \<Rightarrow> con \<times> 's \<Rightarrow> 32 word option \<times> (con \<times> 's)"

text \<open>A login without a message, which the search throws out before, would be read through a null pointer here.\<close>

definition DispatchP2PeerCon ::
  "'s con_handlers \<Rightarrow> nat \<Rightarrow> con_entry \<Rightarrow> 32 word \<Rightarrow> 16 word \<Rightarrow> peer_msg option \<Rightarrow> con \<times> 's \<Rightarrow> 32 word option \<times> (con \<times> 's)" where
  "DispatchP2PeerCon call pTarget e nCode nP2Pmsg pExtra cs =
     (case ce_nSig e of
        P2PSig_Con \<Rightarrow> call pTarget (ce_pfn e) ArgsNone cs
      | P2PSig_ConLogin \<Rightarrow> (case pExtra of None \<Rightarrow> (None, cs)
          | Some m \<Rightarrow> call pTarget (ce_pfn e) (ArgsLogin (GetSource m) (login_payload (fst cs) m)) cs)
      | P2PSig_ConLoginAck \<Rightarrow> (case pExtra of None \<Rightarrow> (None, cs)
          | Some m \<Rightarrow> call pTarget (ce_pfn e) (ArgsLoginAck (GetDestin m) (GetSource m) (login_payload (fst cs) m)) cs)
      | P2PSig_ConPeek \<Rightarrow> call pTarget (ce_pfn e) (ArgsPeek nCode nP2Pmsg) cs
      | P2PSig_ConCypherEx \<Rightarrow> call pTarget (ce_pfn e) (ArgsCypherEx pExtra) cs
      | P2PSig_other \<Rightarrow> (Some conDROP, cs))"

subsection \<open>The walk\<close>

text \<open>
  A target: its number, the maps of its class and base classes without that of \<open>P2PeerTarget\<close>, which
  \<open>On_DefaultCon\<close> is for, its children before and behind it.
\<close>

datatype con_target = ConTarget nat "con_entry list list" "con_target list" "con_target list"

datatype con_stop = NeverReturns | FindThrew find_error | ConHandlerThrew

type_synonym 's con_walk = "(con_stop + 32 word) \<times> (con \<times> 's)"

fun con_maps_walk ::
  "nat \<Rightarrow> 's con_handlers \<Rightarrow> nat \<Rightarrow> con_entry list list \<Rightarrow> 32 word \<Rightarrow> 16 word \<Rightarrow> peer_msg option \<Rightarrow> 32 word \<Rightarrow> con \<times> 's \<Rightarrow> 's con_walk" where
  "con_maps_walk w call this [] nCode nP2Pmsg pMsg bResult cs = (Inr bResult, cs)"
| "con_maps_walk w call this (v # base) nCode nP2Pmsg pMsg bResult cs =
     (if bResult \<noteq> 0 then (Inr bResult, cs)
      else (case FindP2PeerConEntry w v nP2Pmsg nCode (fst cs) pMsg of
              None \<Rightarrow> (Inl NeverReturns, cs)
            | Some (ConThrows x) \<Rightarrow> (Inl (FindThrew x), cs)
            | Some ConNotFound \<Rightarrow> con_maps_walk w call this base nCode nP2Pmsg pMsg bResult cs
            | Some (ConFound e) \<Rightarrow>
                (case DispatchP2PeerCon call this e nCode nP2Pmsg pMsg cs of
                   (None, cs') \<Rightarrow> (Inl ConHandlerThrew, cs')
                 | (Some r, cs') \<Rightarrow> con_maps_walk w call this base nCode nP2Pmsg pMsg r cs')))"

fun On_P2PeerCon :: "nat \<Rightarrow> 's con_handlers \<Rightarrow> con_target \<Rightarrow> 32 word \<Rightarrow> 16 word \<Rightarrow> peer_msg option \<Rightarrow> con \<times> 's \<Rightarrow> 's con_walk"
  and con_children :: "nat \<Rightarrow> 's con_handlers \<Rightarrow> con_target list \<Rightarrow> 32 word \<Rightarrow> 16 word \<Rightarrow> peer_msg option \<Rightarrow> 32 word \<Rightarrow> con \<times> 's \<Rightarrow> 's con_walk"
where
  "On_P2PeerCon w call (ConTarget this maps hi lo) nCode nP2Pmsg pMsg cs =
     (case con_children w call hi nCode nP2Pmsg pMsg 0 cs of
        (Inl x, cs') \<Rightarrow> (Inl x, cs')
      | (Inr r, cs') \<Rightarrow>
          (case con_maps_walk w call this maps nCode nP2Pmsg pMsg r cs' of
             (Inl x, cs'') \<Rightarrow> (Inl x, cs'')
           | (Inr r', cs'') \<Rightarrow> con_children w call lo nCode nP2Pmsg pMsg r' cs''))"
| "con_children w call [] nCode nP2Pmsg pMsg bResult cs = (Inr bResult, cs)"
| "con_children w call (t # ts) nCode nP2Pmsg pMsg bResult cs =
     (if bResult \<noteq> 0 then (Inr bResult, cs)
      else (case On_P2PeerCon w call t nCode nP2Pmsg pMsg cs of
              (Inl x, cs') \<Rightarrow> (Inl x, cs')
            | (Inr r, cs') \<Rightarrow> con_children w call ts nCode nP2Pmsg pMsg (bResult OR r) cs'))"

subsection \<open>The map of the base target\<close>

text \<open>The handlers of \<open>P2PeerTarget\<close>, by their place in the source.\<close>

definition fn_ConStartup :: nat where "fn_ConStartup = 0"
definition fn_ConListen :: nat where "fn_ConListen = 1"
definition fn_ConAccept :: nat where "fn_ConAccept = 2"
definition fn_ConShutdown :: nat where "fn_ConShutdown = 3"
definition fn_ConConnect :: nat where "fn_ConConnect = 4"
definition fn_ConLogin :: nat where "fn_ConLogin = 5"
definition fn_ConLoginAck :: nat where "fn_ConLoginAck = 6"
definition fn_ConClose :: nat where "fn_ConClose = 7"
definition fn_ConCypherEx :: nat where "fn_ConCypherEx = 8"

lemmas con_functions = fn_ConStartup_def fn_ConListen_def fn_ConAccept_def fn_ConShutdown_def fn_ConConnect_def fn_ConLogin_def
  fn_ConLoginAck_def fn_ConClose_def fn_ConCypherEx_def

definition P2PeerTarget_ConMap :: "con_entry list" where
  "P2PeerTarget_ConMap =
     ON_P2PeerCon_SERVICE [chStar] P2P_Startup fn_ConStartup @ ON_P2PeerCon_SERVICE [chStar] P2P_Listen fn_ConListen
     @ ON_P2PeerCon_SERVICE [chStar] P2P_Accept fn_ConAccept @ ON_P2PeerCon_SERVICE [chStar] P2P_Shutdown fn_ConShutdown
     @ ON_P2PeerCon_CLIENT [chStar] P2P_Startup fn_ConStartup @ ON_P2PeerCon_CLIENT [chStar] P2P_Connect fn_ConConnect
     @ ON_P2PeerCon_CLIENT [chStar] P2P_Shutdown fn_ConShutdown
     @ ON_P2PeerCon_LOGIN [chStar] fn_ConLogin @ ON_P2PeerCon_LOGINACK [chStar] fn_ConLoginAck
     @ ON_P2PeerCon_CLOSE [chStar] fn_ConClose @ ON_P2PeerCon_CYPHEREX [chStar] fn_ConCypherEx"

definition On_DefaultCon ::
  "nat \<Rightarrow> 's con_handlers \<Rightarrow> nat \<Rightarrow> 32 word \<Rightarrow> 16 word \<Rightarrow> peer_msg option \<Rightarrow> con \<times> 's \<Rightarrow> 's con_walk" where
  "On_DefaultCon w call this nCode nP2Pmsg pMsg cs =
     (case FindP2PeerConEntry w P2PeerTarget_ConMap nP2Pmsg nCode (fst cs) pMsg of
        None \<Rightarrow> (Inl NeverReturns, cs)
      | Some (ConThrows x) \<Rightarrow> (Inl (FindThrew x), cs)
      | Some ConNotFound \<Rightarrow> (Inr conTINUE, cs)
      | Some (ConFound e) \<Rightarrow>
          (case DispatchP2PeerCon call this e nCode nP2Pmsg pMsg cs of
             (None, cs') \<Rightarrow> (Inl ConHandlerThrew, cs') | (Some r, cs') \<Rightarrow> (Inr r, cs')))"

subsection \<open>The order of a walk\<close>

text \<open>The maps a notification is offered to, in order.\<close>

fun con_maps_of :: "con_target \<Rightarrow> (nat \<times> con_entry list) list" where
  "con_maps_of (ConTarget this maps hi lo) =
     concat (map con_maps_of hi) @ map (Pair this) maps @ concat (map con_maps_of lo)"

text \<open>Offering until the first handler that does not answer \<open>conTINUE\<close>.\<close>

fun offer_maps ::
  "nat \<Rightarrow> 's con_handlers \<Rightarrow> (nat \<times> con_entry list) list \<Rightarrow> 32 word \<Rightarrow> 16 word \<Rightarrow> peer_msg option \<Rightarrow> con \<times> 's \<Rightarrow> 's con_walk" where
  "offer_maps w call [] nCode nP2Pmsg pMsg cs = (Inr conTINUE, cs)"
| "offer_maps w call ((t, v) # vs) nCode nP2Pmsg pMsg cs =
     (case FindP2PeerConEntry w v nP2Pmsg nCode (fst cs) pMsg of
        None \<Rightarrow> (Inl NeverReturns, cs)
      | Some (ConThrows x) \<Rightarrow> (Inl (FindThrew x), cs)
      | Some ConNotFound \<Rightarrow> offer_maps w call vs nCode nP2Pmsg pMsg cs
      | Some (ConFound e) \<Rightarrow>
          (case DispatchP2PeerCon call t e nCode nP2Pmsg pMsg cs of
             (None, cs') \<Rightarrow> (Inl ConHandlerThrew, cs')
           | (Some r, cs') \<Rightarrow> if r = conTINUE then offer_maps w call vs nCode nP2Pmsg pMsg cs' else (Inr r, cs')))"

definition then_offer ::
  "nat \<Rightarrow> 's con_handlers \<Rightarrow> (nat \<times> con_entry list) list \<Rightarrow> 32 word \<Rightarrow> 16 word \<Rightarrow> peer_msg option \<Rightarrow> 's con_walk \<Rightarrow> 's con_walk" where
  "then_offer w call vs nCode nP2Pmsg pMsg r =
     (case r of (Inl x, cs) \<Rightarrow> (Inl x, cs) | (Inr q, cs) \<Rightarrow> if q = conTINUE then offer_maps w call vs nCode nP2Pmsg pMsg cs else (Inr q, cs))"

lemma offer_append:
  "offer_maps w call (us @ vs) nCode nP2Pmsg pMsg cs = then_offer w call vs nCode nP2Pmsg pMsg (offer_maps w call us nCode nP2Pmsg pMsg cs)"
proof (induction w call us nCode nP2Pmsg pMsg cs rule: offer_maps.induct)
  case (2 w call t v us nCode nP2Pmsg pMsg cs)
  then show ?case
    by (cases "FindP2PeerConEntry w v nP2Pmsg nCode (fst cs) pMsg")
      (auto simp: then_offer_def split: con_found.splits option.splits prod.splits)
qed (simp add: then_offer_def)

lemma own_maps_offered:
  "con_maps_walk w call this maps nCode nP2Pmsg pMsg r cs =
     (if r \<noteq> 0 then (Inr r, cs) else offer_maps w call (map (Pair this) maps) nCode nP2Pmsg pMsg cs)"
proof (induction maps arbitrary: r cs)
  case (Cons v maps)
  then show ?case
    by (auto simp: con_results split: option.splits con_found.splits prod.splits)
qed (simp add: con_results)

lemma children_offered:
  assumes "\<And>t cs. t \<in> set ts \<Longrightarrow> On_P2PeerCon w call t nCode nP2Pmsg pMsg cs = offer_maps w call (con_maps_of t) nCode nP2Pmsg pMsg cs"
  shows "con_children w call ts nCode nP2Pmsg pMsg r cs =
     (if r \<noteq> 0 then (Inr r, cs) else offer_maps w call (concat (map con_maps_of ts)) nCode nP2Pmsg pMsg cs)"
  using assms
proof (induction ts arbitrary: r cs)
  case (Cons t ts)
  have t: "On_P2PeerCon w call t nCode nP2Pmsg pMsg cs = offer_maps w call (con_maps_of t) nCode nP2Pmsg pMsg cs" using Cons.prems by simp
  have ts: "con_children w call ts nCode nP2Pmsg pMsg q cs' =
      (if q \<noteq> 0 then (Inr q, cs') else offer_maps w call (concat (map con_maps_of ts)) nCode nP2Pmsg pMsg cs')" for q cs'
    using Cons by simp
  show ?case
    by (auto simp: t ts offer_append then_offer_def con_results split: sum.splits prod.splits)
qed (simp add: con_results)

text \<open>
  A notification goes to the first map that handles it.  The walk over the hierarchy of targets, with its nested
  loops and the results it combines, is a search in one flat list of maps: those of the children before a
  target, its own from the derived class down, those of the children behind; in each map the first entry that
  takes the notification is called, and the first answer other than \<open>conTINUE\<close> ends the walk.
\<close>
theorem On_P2PeerCon_is_first_offer:
  "On_P2PeerCon w call t nCode nP2Pmsg pMsg cs = offer_maps w call (con_maps_of t) nCode nP2Pmsg pMsg cs"
proof (induction t arbitrary: cs)
  case (ConTarget this maps hi lo)
  have hi: "con_children w call hi nCode nP2Pmsg pMsg r cs =
      (if r \<noteq> 0 then (Inr r, cs) else offer_maps w call (concat (map con_maps_of hi)) nCode nP2Pmsg pMsg cs)" for r cs
    using ConTarget by (intro children_offered) blast
  have lo: "con_children w call lo nCode nP2Pmsg pMsg r cs =
      (if r \<noteq> 0 then (Inr r, cs) else offer_maps w call (concat (map con_maps_of lo)) nCode nP2Pmsg pMsg cs)" for r cs
    using ConTarget by (intro children_offered) blast
  show ?case
    by (auto simp: hi lo own_maps_offered offer_append then_offer_def con_results split: sum.splits prod.splits)
qed

end
