(* ===== verification/ConLife.thy ===== *)
theory ConLife
  imports ConMaps Pump
begin

text \<open>
  The life of a connection on the pump of its hub: notifications, the default handlers of \<open>P2PeerTarget\<close>, the
  login deadline and the restart timer, dropping and closing (P2PeerCon.cpp, P2PeerTarget.cpp, P2Pwin32.cpp).

  The state is a connection with the world around it: the rest of its fields, the pumps with their timers, the
  notifications posted and the connections spawned.  An operation that throws answers the reason with the state
  as it stands at the throw.  The operations run for a posted message or a timer, which holds a reference, so
  \<open>PostDestroyState\<close> is the flag \<open>m_bDestroy\<close>; posts succeed.  The throttle timer of a connection is in ConFlow.
\<close>

datatype life_error = OfCon con_error | LostPump | NoPump | TooManyTimers | NoTimer | LoginTimedOut | CarriesData | AlreadyExists
  | CypherException | TransportFailed

text \<open>\<open>lf_id\<close> tells connections apart; \<open>m_pEvent\<close> is whether an event is attached, \<open>m_hFile\<close> whether a handle is open.\<close>

record life =
  lf_id :: nat
  m_hFile :: bool
  m_pEvent :: bool
  m_bDestroy :: bool
  m_uAutoRestart :: int
  m_xLoginDeadline :: int
  m_uRestartTimerID :: "32 word"
  m_uLoginTimerID :: "32 word"
  m_hCPortP2PumpID :: "32 word"

text \<open>\<open>w_at\<close>: the notification the pump is at, \<open>m_pP2Pmsg\<close>.\<close>

record world =
  w_life :: life
  w_proc :: process
  w_at :: "16 word option"
  w_posts :: "(nat \<times> 16 word) list"
  w_spawned :: "(con \<times> life) list"

type_synonym lived = "con \<times> world"
type_synonym life_result = "life_error option \<times> lived"

abbreviation life_then :: "life_result \<Rightarrow> (lived \<Rightarrow> life_result) \<Rightarrow> life_result" where
  "life_then r f \<equiv> (case r of (e, x) \<Rightarrow> case e of None \<Rightarrow> f x | Some y \<Rightarrow> (Some y, x))"

abbreviation of_con :: "con_result \<Rightarrow> world \<Rightarrow> life_result" where
  "of_con r w \<equiv> (case r of (e, c) \<Rightarrow> (map_option OfCon e, (c, w)))"

definition CheckP2PmsgPumpState :: "16 word \<Rightarrow> world \<Rightarrow> bool" where "CheckP2PmsgPumpState n w \<longleftrightarrow> w_at w = Some n"

definition with_life :: "(life \<Rightarrow> life) \<Rightarrow> world \<Rightarrow> world" where "with_life f w = w\<lparr>w_life := f (w_life w)\<rparr>"

definition Notify :: "16 word \<Rightarrow> world \<Rightarrow> world" where "Notify n w = w\<lparr>w_posts := w_posts w @ [(lf_id (w_life w), n)]\<rparr>"

subsection \<open>Dropping\<close>

text \<open>
  \<open>bEvent\<close>: whether an event is handed over.  \<open>CloseHandle\<close> of an open handle succeeds, and it is then that the
  code makes an event of it.
\<close>

definition Drop :: "bool \<Rightarrow> lived \<Rightarrow> life_result" where
  "Drop bEvent x =
     (case x of (c, w) \<Rightarrow>
      let l = w_life w in
      case (if m_uRestartTimerID l \<noteq> 0 then KillP2PmsgTimer (m_uRestartTimerID l) (w_proc w) else (Inr 0, w_proc w)) of
        (Inl _, s) \<Rightarrow> (Some LostPump, (SetState 0 (ConState_LoginHold OR ConState_LoginParked) (SetState 0 ON_ConClose c), w\<lparr>w_proc := s\<rparr>))
      | (Inr _, s) \<Rightarrow>
          (let pEVENT = (bEvent \<or> m_hFile l \<and> \<not> m_pEvent l);
               w1 = w\<lparr>w_proc := s, w_life := l\<lparr>m_uRestartTimerID := 0, m_hFile := False, m_pEvent := m_pEvent l \<or> pEVENT\<rparr>\<rparr>
           in (None, (con_Drop c,
                if \<not> m_pEvent l \<and> \<not> m_bDestroy l \<and> \<not> CheckP2PmsgPumpState P2P_Close w then Notify P2P_Close w1 else w1))))"

definition Destroy :: "lived \<Rightarrow> lived" where "Destroy x = (fst x, with_life (\<lambda>l. l\<lparr>m_bDestroy := True\<rparr>) (snd x))"

subsection \<open>Timers\<close>

definition On_PITimer :: "bool \<Rightarrow> 32 word \<Rightarrow> lived \<Rightarrow> life_result" where
  "On_PITimer bCancel nPITimerID x =
     (case x of (c, w) \<Rightarrow>
      if nPITimerID = m_uRestartTimerID (w_life w)
      then let w1 = with_life (\<lambda>l. l\<lparr>m_uRestartTimerID := 0\<rparr>) w in (None, (c, if bCancel then w1 else Notify P2P_Startup w1))
      else if nPITimerID = m_uLoginTimerID (w_life w)
      then (if bCancel \<or> m_bDestroy (w_life w) then None else Some LoginTimedOut, (c, with_life (\<lambda>l. l\<lparr>m_uLoginTimerID := 0\<rparr>) w))
      else (None, x))"

text \<open>The pump of a timer whose handler throws drops the connection.\<close>

definition timer_fires :: "32 word \<Rightarrow> lived \<Rightarrow> life_result" where
  "timer_fires nPITimerID x =
     (case On_PITimer False nPITimerID x of (None, y) \<Rightarrow> (None, y) | (Some _, y) \<Rightarrow> Drop True y)"

text \<open>
  Cancelling calls the handler with \<open>bCancel\<close>, which then does not throw; a timer found that belongs to another
  connection is that one's affair.
\<close>

definition CancelP2PmsgTimer :: "32 word \<Rightarrow> lived \<Rightarrow> life_result" where
  "CancelP2PmsgTimer nPITimerID x =
     (if nPITimerID = 0 then (None, x)
      else (case x of (c, w) \<Rightarrow>
        case s_ThreadID_P2PmsgPump (w_proc w) (nPITimerID div 0x100) of
          None \<Rightarrow> (Some LostPump, x)
        | Some p \<Rightarrow> (case KillTimer nPITimerID p of
            (None, _) \<Rightarrow> (None, x)
          | (Some m, p') \<Rightarrow>
              (let x1 = (c, w\<lparr>w_proc := to_pump (nPITimerID div 0x100) p' (w_proc w)\<rparr>);
                   y = (if pm_pCon m = Some (lf_id (w_life w)) then snd (On_PITimer True nPITimerID x1) else x1)
               in (None, (fst y, (snd y)\<lparr>w_proc := ReleaseP2Pmsg (w_proc (snd y))\<rparr>))))))"

text \<open>What stands outside: clock, randomness, the policy of the hub, the transport's part, the hub's connections.\<close>

record outside =
  o_after_null :: "p2pmsg \<Rightarrow> p2pmsg list \<Rightarrow> p2pmsg list"
  o_now :: int
  o_crypto :: crypto
  o_rnd :: "bytes option"
  o_eph :: "bytes option"
  o_pHub :: "hub_policy option"
  o_pfx :: p2p_prefix
  o_ConExists :: "wstr \<Rightarrow> bool"
  o_Listen :: "lived \<Rightarrow> life_result"
  o_Connect :: "lived \<Rightarrow> life_result"
  o_Accept :: "lived \<Rightarrow> life_result"
  o_AcceptSpawn :: "lived \<Rightarrow> (con \<times> life) option"
  o_PKeyXChange :: "(lived \<Rightarrow> life_result) option"

definition SetPITimer :: "outside \<Rightarrow> int \<Rightarrow> world \<Rightarrow> (life_error + 32 word) \<times> world" where
  "SetPITimer o1 uMSecDelay w =
     (case SetP2PmsgTimer (o_after_null o1) (o_now o1) (m_hCPortP2PumpID (w_life w)) (Some (lf_id (w_life w))) uMSecDelay (w_proc w) of
        None \<Rightarrow> (Inl NoTimer, w)
      | Some (Inl e, s) \<Rightarrow> (Inl (if e = TimerLimit then TooManyTimers else NoPump), w\<lparr>w_proc := s\<rparr>)
      | Some (Inr i, s) \<Rightarrow> (Inr i, w\<lparr>w_proc := s\<rparr>))"

definition ArmLoginDeadline :: "outside \<Rightarrow> lived \<Rightarrow> life_result" where
  "ArmLoginDeadline o1 x =
     (case x of (c, w) \<Rightarrow>
      if m_xLoginDeadline (w_life w) = 0 \<or> m_uLoginTimerID (w_life w) \<noteq> 0 then (None, x)
      else if m_eP2PeerConMode c \<noteq> P2PeerCon_Accept then (None, x)
      else (case SetPITimer o1 (m_xLoginDeadline (w_life w)) w of
              (Inl e, w1) \<Rightarrow> (Some e, (c, w1))
            | (Inr i, w1) \<Rightarrow> (None, (c, with_life (\<lambda>l. l\<lparr>m_uLoginTimerID := i\<rparr>) w1))))"

subsection \<open>The operations of a connection that a notification allows\<close>

text \<open>The state an operation requires of its caller.\<close>

definition requires :: "16 word list \<Rightarrow> lived \<Rightarrow> life_result" where
  "requires ns x = (if \<exists>n\<in>set ns. CheckP2PmsgPumpState n (snd x) then None else Some (OfCon WrongHandler), x)"

definition requires_mode :: "con_mode \<Rightarrow> lived \<Rightarrow> life_result" where
  "requires_mode md x = (if m_eP2PeerConMode (fst x) = md then None else Some (OfCon WrongMode), x)"

definition OnStartup :: "lived \<Rightarrow> life_result" where
  "OnStartup x = life_then (requires [P2P_Startup] x) (\<lambda>x. (if m_pEvent (w_life (snd x)) then Some (OfCon UnclearedEvent) else None, x))"

definition Listen :: "outside \<Rightarrow> lived \<Rightarrow> life_result" where
  "Listen o1 x = life_then (requires [P2P_Startup] x) (\<lambda>(c, w). o_Listen o1 (c\<lparr>m_eP2PeerConMode := P2PeerCon_SERVICE\<rparr>, w))"

definition OnListen :: "lived \<Rightarrow> life_result" where "OnListen x = requires [P2P_Listen] x"

definition Accept :: "outside \<Rightarrow> lived \<Rightarrow> life_result" where
  "Accept o1 x = life_then (requires [P2P_Listen, P2P_Accept] x) (\<lambda>x. life_then (requires_mode P2PeerCon_SERVICE x) (o_Accept o1))"

text \<open>The accept of a service; what was spawned, with nothing yet posted for it.\<close>

definition OnAccept :: "outside \<Rightarrow> lived \<Rightarrow> (con \<times> life) option \<times> life_result" where
  "OnAccept o1 x =
     (case life_then (requires [P2P_Accept] x) (requires_mode P2PeerCon_SERVICE) of
        (Some e, y) \<Rightarrow> (None, (Some e, y))
      | (None, (c, w)) \<Rightarrow>
          (case o_AcceptSpawn o1 (c, w) of
             None \<Rightarrow> (None, (None, (c, w)))
           | Some (c0, l0) \<Rightarrow> (Some (SetState (ConState_Send OR ConState_Recv) 0 (AcceptSpawn c c0),
               l0\<lparr>m_xLoginDeadline := m_xLoginDeadline (w_life w)\<rparr>), (None, (c, w)))))"

text \<open>The accepted connection's own accept, without an address as the default handler calls it.\<close>

definition OnAccept_unnamed :: "lived \<Rightarrow> life_result" where
  "OnAccept_unnamed x = life_then (requires [P2P_Accept] x) (\<lambda>x. life_then (requires_mode P2PeerCon_Accept x)
     (\<lambda>(c, w). (None, (SetState (ConState_Send OR ConState_Recv) 0 c, w))))"

definition Connect :: "outside \<Rightarrow> lived \<Rightarrow> life_result" where
  "Connect o1 x = life_then (requires [P2P_Startup] x) (\<lambda>x. life_then (requires_mode P2PeerCon_CLIENT x) (o_Connect o1))"

definition OnConnect :: "lived \<Rightarrow> life_result" where
  "OnConnect x = life_then (requires [P2P_Connect] x) (\<lambda>(c, w). (None, (SetState (ConState_Send OR ConState_Recv) 0 c, w)))"

definition life_Login :: "outside \<Rightarrow> lived \<Rightarrow> life_result" where
  "life_Login o1 x = of_con (Login (o_crypto o1) (o_now o1) (o_rnd o1) (o_eph o1) (o_pHub o1) (o_pfx o1)
     (CheckP2PmsgPumpState P2P_Connect (snd x) \<or> CheckP2PmsgPumpState P2P_Accept (snd x)) [] [] (fst x)) (snd x)"

definition life_OnLogin :: "wstr \<Rightarrow> lived \<Rightarrow> life_result" where
  "life_OnLogin oThatP2Paddr x =
     life_then (requires [P2P_Login] x) (\<lambda>x. life_then (CancelP2PmsgTimer (m_uLoginTimerID (w_life (snd x))) x)
       (\<lambda>(c, w). of_con (OnLogin True oThatP2Paddr c) w))"

definition life_LoginAck :: "outside \<Rightarrow> wstr \<Rightarrow> lived \<Rightarrow> life_result" where
  "life_LoginAck o1 oThatP2Paddr x = of_con (LoginAck (o_crypto o1) (o_pHub o1) (o_pfx o1) oThatP2Paddr [] (fst x)) (snd x)"

definition life_OnLoginAck :: "wstr \<Rightarrow> wstr \<Rightarrow> lived \<Rightarrow> life_result" where
  "life_OnLoginAck oThis oThat x = of_con (OnLoginAck (CheckP2PmsgPumpState P2P_LoginAck (snd x)) oThis oThat (fst x)) (snd x)"

text \<open>Closing and shutting down: the state goes, then timer, event and whatever is queued.\<close>

definition ending :: "16 word \<Rightarrow> lived \<Rightarrow> life_result" where
  "ending n x =
     life_then (requires [n] (SetState 0 ON_ConClose (fst x), snd x)) (\<lambda>x.
     life_then (CancelP2PmsgTimer (m_uLoginTimerID (w_life (snd x))) x) (\<lambda>(c, w).
       (None, (c\<lparr>con_que := (con_que c)\<lparr>m_oCListMsgQue := [], m_pP2PeerMsgSend := None\<rparr>\<rparr>, with_life (\<lambda>l. l\<lparr>m_pEvent := False\<rparr>) w))))"

definition OnClose :: "lived \<Rightarrow> life_result" where "OnClose = ending P2P_Close"
definition OnShutdown :: "lived \<Rightarrow> life_result" where "OnShutdown = ending P2P_Shutdown"

definition Close :: "lived \<Rightarrow> lived" where "Close x = (SetState 0 ON_ConClose (fst x), Notify P2P_Close (snd x))"
definition Shutdown :: "lived \<Rightarrow> lived" where "Shutdown x = (SetState 0 ON_ConClose (fst x), Notify P2P_Shutdown (snd x))"

definition life_Restart :: "outside \<Rightarrow> int \<Rightarrow> lived \<Rightarrow> life_result" where
  "life_Restart o1 uiMSecDelay x =
     life_then (of_con (Restart (CheckP2PmsgPumpState P2P_Close (snd x)) (m_pEvent (w_life (snd x))) (m_bDestroy (w_life (snd x))) (fst x)) (snd x))
     (\<lambda>x. life_then (CancelP2PmsgTimer (m_uRestartTimerID (w_life (snd x))) x) (\<lambda>(c, w).
        case SetPITimer o1 uiMSecDelay w of
          (Inl e, w1) \<Rightarrow> (Some e, (c, w1))
        | (Inr i, w1) \<Rightarrow> (if i = 0 then Some NoTimer else None, (c, with_life (\<lambda>l. l\<lparr>m_uRestartTimerID := i\<rparr>) w1))))"

subsection \<open>The default handlers\<close>

type_synonym handled = "life_error option \<times> 32 word \<times> lived"

abbreviation answer :: "32 word \<Rightarrow> life_result \<Rightarrow> handled" where
  "answer r y \<equiv> (case y of (e, x) \<Rightarrow> (e, r, x))"

definition On_ConStartup :: "outside \<Rightarrow> lived \<Rightarrow> handled" where
  "On_ConStartup o1 x = answer conHANDLED (life_then (OnStartup x) (\<lambda>x.
     if m_eP2PeerConMode (fst x) = P2PeerCon_SERVICE then Listen o1 x
     else if m_eP2PeerConMode (fst x) = P2PeerCon_CLIENT then Connect o1 x
     else (Some (OfCon WrongMode), x)))"

definition On_ConListen :: "outside \<Rightarrow> lived \<Rightarrow> handled" where
  "On_ConListen o1 x = answer conHANDLED (life_then (OnListen x) (Accept o1))"

text \<open>
  A service spawns the accepted connection, which is notified and gets its deadline, and accepts again.  That a
  service turns into the accepted connection, as pipes and serial lines do, is not modelled.
\<close>

definition On_ConAccept :: "outside \<Rightarrow> lived \<Rightarrow> handled" where
  "On_ConAccept o1 x =
     (if m_eP2PeerConMode (fst x) \<noteq> P2PeerCon_SERVICE then answer conHANDLED (OnAccept_unnamed x)
      else (case OnAccept o1 x of
        (_, (Some e, y)) \<Rightarrow> (Some e, conHANDLED, y)
      | (None, (None, y)) \<Rightarrow> answer conHANDLED (Accept o1 y)
      | (Some (c0, l0), (None, (c, w))) \<Rightarrow>
          (let w1 = w\<lparr>w_posts := w_posts w @ [(lf_id l0, P2P_Accept)]\<rparr> in
           case ArmLoginDeadline o1 (c0, w1\<lparr>w_life := l0\<rparr>) of
             (e, (c0', w2)) \<Rightarrow>
               (let y = (c, w2\<lparr>w_life := w_life w, w_spawned := w_spawned w2 @ [(c0', w_life w2)]\<rparr>) in
                case e of Some e \<Rightarrow> (Some e, conHANDLED, y) | None \<Rightarrow> answer conHANDLED (Accept o1 y)))))"

definition On_ConConnect :: "outside \<Rightarrow> lived \<Rightarrow> handled" where
  "On_ConConnect o1 x = answer conHANDLED (life_then (OnConnect x) (case o_PKeyXChange o1 of Some f \<Rightarrow> f | None \<Rightarrow> life_Login o1))"

definition On_ConLogin :: "outside \<Rightarrow> wstr \<Rightarrow> bytes \<Rightarrow> lived \<Rightarrow> handled" where
  "On_ConLogin o1 strThatP2Paddr pvLoginMsg x = answer conHANDLED
     (if pvLoginMsg \<noteq> [] then (Some CarriesData, x)
      else if strThatP2Paddr \<noteq> [] \<and> m_oThatP2Paddr (fst x) \<noteq> strThatP2Paddr \<and> o_ConExists o1 strThatP2Paddr then (Some AlreadyExists, x)
      else life_then (life_OnLogin strThatP2Paddr x) (life_LoginAck o1 strThatP2Paddr))"

definition On_ConLoginAck :: "wstr \<Rightarrow> wstr \<Rightarrow> bytes \<Rightarrow> lived \<Rightarrow> handled" where
  "On_ConLoginAck strThisP2Paddr strThatP2Paddr pvLoginAck x = answer conHANDLED
     (if pvLoginAck \<noteq> [] then (Some CarriesData, x) else life_OnLoginAck strThisP2Paddr strThatP2Paddr x)"

definition On_ConClose :: "outside \<Rightarrow> lived \<Rightarrow> handled" where
  "On_ConClose o1 x =
     (case OnClose x of
        (Some e, y) \<Rightarrow> (Some e, conDROP, y)
      | (None, y) \<Rightarrow>
          if m_uAutoRestart (w_life (snd y)) > 99 \<and> m_eP2PeerConMode (fst y) = P2PeerCon_CLIENT \<and> \<not> m_bDestroy (w_life (snd y))
          then answer conHANDLED (life_Restart o1 (m_uAutoRestart (w_life (snd y))) y)
          else (None, conDROP, y))"

definition On_ConShutdown :: "outside \<Rightarrow> lived \<Rightarrow> handled" where
  "On_ConShutdown o1 x =
     (case OnShutdown x of
        (Some e, y) \<Rightarrow> (Some e, conDROP, y)
      | (None, y) \<Rightarrow>
          if m_uAutoRestart (w_life (snd y)) > 99
             \<and> (m_eP2PeerConMode (fst y) = P2PeerCon_CLIENT \<or> m_eP2PeerConMode (fst y) = P2PeerCon_SERVICE) \<and> \<not> m_bDestroy (w_life (snd y))
          then answer conHANDLED (life_Restart o1 (m_uAutoRestart (w_life (snd y))) y)
          else (None, conDROP, y))"

definition On_ConCypherEx :: "lived \<Rightarrow> handled" where "On_ConCypherEx x = (Some CypherException, conHANDLED, x)"

text \<open>The default handlers as handlers of a map; other numbers are handlers of the application.\<close>

definition default_handlers :: "outside \<Rightarrow> world con_handlers \<Rightarrow> world con_handlers" where
  "default_handlers o1 call this f args x =
     (let thrown = (\<lambda>h. case h of (e, r, y) \<Rightarrow> (if e = None then Some r else None, y)) in
      if f = fn_ConStartup then thrown (On_ConStartup o1 x)
      else if f = fn_ConListen then thrown (On_ConListen o1 x)
      else if f = fn_ConAccept then thrown (On_ConAccept o1 x)
      else if f = fn_ConShutdown then thrown (On_ConShutdown o1 x)
      else if f = fn_ConConnect then thrown (On_ConConnect o1 x)
      else if f = fn_ConClose then thrown (On_ConClose o1 x)
      else if f = fn_ConCypherEx then thrown (On_ConCypherEx x)
      else (case args of
              ArgsLogin a d \<Rightarrow> if f = fn_ConLogin then thrown (On_ConLogin o1 a d x) else call this f args x
            | ArgsLoginAck a1 a2 d \<Rightarrow> if f = fn_ConLoginAck then thrown (On_ConLoginAck a1 a2 d x) else call this f args x
            | _ \<Rightarrow> call this f args x))"

subsection \<open>The dispatch of a notification\<close>

definition NotHandled :: "lived \<Rightarrow> life_result" where "NotHandled x = life_then (Drop True x) (\<lambda>x. (None, Destroy x))"

definition finished :: "32 word \<Rightarrow> lived \<Rightarrow> life_result" where
  "finished r x = (if r = conDROP then life_then (Drop False x) (\<lambda>x. (None, Destroy x)) else (None, x))"

text \<open>
  \<open>DispatchP2Pmsg\<close> for a connection: the walk, the default, what nobody handled; an exception drops the
  connection.  \<open>None\<close> when the walk does not return.  Handlers that swap the context are not modelled.
\<close>

definition DispatchP2Pmsg_Con ::
  "nat \<Rightarrow> world con_handlers \<Rightarrow> con_target \<Rightarrow> nat \<Rightarrow> 16 word \<Rightarrow> peer_msg option \<Rightarrow> lived \<Rightarrow> life_result option" where
  "DispatchP2Pmsg_Con w call t this n pMsg x0 =
     (let x = (fst x0, (snd x0)\<lparr>w_at := Some n\<rparr>);
          caught = (\<lambda>r. case r of (None, y) \<Rightarrow> (None, y) | (Some _, y) \<Rightarrow> Drop True y) in
      if n = P2P_Destroy then Some (caught (finished conDROP x))
      else (case On_P2PeerCon w call t CN_P2PeerCon n pMsg x of
          (Inl NeverReturns, y) \<Rightarrow> None
        | (Inl _, y) \<Rightarrow> Some (Drop True y)
        | (Inr r, y) \<Rightarrow>
            if r \<noteq> conTINUE then Some (caught (finished r y))
            else (case On_DefaultCon w call this CN_P2PeerCon n pMsg y of
                (Inl NeverReturns, z) \<Rightarrow> None
              | (Inl _, z) \<Rightarrow> Some (Drop True z)
              | (Inr r, z) \<Rightarrow> if r = conTINUE then Some (caught (NotHandled z)) else Some (caught (finished r z)))))"

subsection \<open>What the default map answers\<close>

lemma star_takes [simp]: "domain_IsMapped w (RebuildDomains [chStar]) a = Some True"
  by (simp add: domain_IsMapped_def RebuildDomains_def)

lemmas default_map = P2PeerTarget_ConMap_def con_macros con_entry_takes_def entry_for_mode_def CM_SERVER_def CM_CLIENT_def CM_ACCEPT_def

lemma default_close:
  "On_DefaultCon w (default_handlers o1 call) this CN_P2PeerCon P2P_Close pMsg x =
     (case On_ConClose o1 x of (e, r, y) \<Rightarrow> (if e = None then Inr r else Inl ConHandlerThrew, y))"
  by (simp add: On_DefaultCon_def default_map con_notifications DispatchP2PeerCon_def default_handlers_def con_functions
      split: prod.splits option.splits)

lemma default_shutdown:
  "On_DefaultCon w (default_handlers o1 call) this CN_P2PeerCon P2P_Shutdown pMsg x =
     (case On_ConShutdown o1 x of (e, r, y) \<Rightarrow> (if e = None then Inr r else Inl ConHandlerThrew, y))"
  by (simp add: On_DefaultCon_def default_map con_notifications DispatchP2PeerCon_def default_handlers_def con_functions
      split: prod.splits option.splits)

lemma default_login:
  assumes "Map_MatchName (m_name m) P2Pmsg_Login"
  shows "On_DefaultCon w (default_handlers o1 call) this CN_P2PeerCon P2P_Login (Some m) x =
     (case On_ConLogin o1 (GetSource m) (login_payload (fst x) m) x of (e, r, y) \<Rightarrow> (if e = None then Inr r else Inl ConHandlerThrew, y))"
  using assms
  by (simp add: On_DefaultCon_def default_map con_notifications DispatchP2PeerCon_def default_handlers_def con_functions
      split: prod.splits option.splits)

text \<open>A hub that intercepts nothing.\<close>

abbreviation stock :: "nat \<Rightarrow> outside \<Rightarrow> world con_handlers \<Rightarrow> 16 word \<Rightarrow> peer_msg option \<Rightarrow> lived \<Rightarrow> life_result option" where
  "stock w o1 call \<equiv> DispatchP2Pmsg_Con w (default_handlers o1 call) (ConTarget 0 [] [] []) 0"

lemma requires_at [simp]: "requires ns (c, w\<lparr>w_at := Some n\<rparr>) = (if n \<in> set ns then None else Some (OfCon WrongHandler), (c, w\<lparr>w_at := Some n\<rparr>))"
  by (auto simp: requires_def CheckP2PmsgPumpState_def)

lemma stock_default:
  assumes "n \<noteq> P2P_Destroy"
    and "On_DefaultCon w (default_handlers o1 call) 0 CN_P2PeerCon n pMsg (c, u\<lparr>w_at := Some n\<rparr>) =
      (case h of (e, r, y) \<Rightarrow> (if e = None then Inr r else Inl ConHandlerThrew, y))"
  shows "stock w o1 call n pMsg (c, u) = Some (case h of
      (None, r, y) \<Rightarrow> (case (if r = conTINUE then NotHandled y else finished r y) of (None, z) \<Rightarrow> (None, z) | (Some _, z) \<Rightarrow> Drop True z)
    | (Some _, r, y) \<Rightarrow> Drop True y)"
proof -
  obtain e r y where h: "h = (e, r, y)" by (cases h)
  show ?thesis using assms
    by (cases e) (simp_all add: h DispatchP2Pmsg_Con_def conTINUE_def)
qed

lemma not_destroy: "P2P_Close \<noteq> P2P_Destroy" "P2P_Shutdown \<noteq> P2P_Destroy" "P2P_Login \<noteq> P2P_Destroy"
  by (simp_all add: con_notifications)

lemmas stock_close = stock_default[OF not_destroy(1) default_close]
lemmas stock_shutdown = stock_default[OF not_destroy(2) default_shutdown]
lemmas stock_login = stock_default[OF not_destroy(3) default_login]

subsection \<open>A dropped connection ends\<close>

text \<open>Cancelling what is cancellable changes nothing but the timers and their identifiers.\<close>

definition cancellable :: "32 word \<Rightarrow> process \<Rightarrow> bool" where
  "cancellable i s \<longleftrightarrow> i = 0 \<or> s_ThreadID_P2PmsgPump s (i div 0x100) \<noteq> None"

lemma cancel_keeps:
  assumes "cancellable (m_uLoginTimerID (w_life u)) (w_proc u)" "m_uRestartTimerID (w_life u) = 0"
  shows "\<exists>s i. CancelP2PmsgTimer (m_uLoginTimerID (w_life u)) (c, u) = (None, (c, u\<lparr>w_proc := s, w_life := (w_life u)\<lparr>m_uLoginTimerID := i\<rparr>\<rparr>)) \<and>
    (m_uLoginTimerID (w_life u) = 0 \<longrightarrow> i = 0)"
proof -
  let ?i = "m_uLoginTimerID (w_life u)"
  have same: "u = u\<lparr>w_proc := w_proc u, w_life := (w_life u)\<lparr>m_uLoginTimerID := ?i\<rparr>\<rparr>" by simp
  show ?thesis
  proof (cases "?i = 0")
    case True
    then have "CancelP2PmsgTimer ?i (c, u) = (None, (c, u))" by (simp add: CancelP2PmsgTimer_def)
    then show ?thesis using same by metis
  next
    case False
    then obtain p where p: "s_ThreadID_P2PmsgPump (w_proc u) (?i div 0x100) = Some p" using assms(1) by (auto simp: cancellable_def)
    obtain r p' where k: "KillTimer ?i p = (r, p')" by (cases "KillTimer ?i p")
    show ?thesis
    proof (cases r)
      case None
      then have "CancelP2PmsgTimer ?i (c, u) = (None, (c, u))" using False p k by (simp add: CancelP2PmsgTimer_def)
      then show ?thesis using same by metis
    next
      case (Some m)
      let ?s = "ReleaseP2Pmsg (to_pump (?i div 0x100) p' (w_proc u))" and ?j = "if pm_pCon m = Some (lf_id (w_life u)) then 0 else ?i"
      have "CancelP2PmsgTimer ?i (c, u) = (None, (c, u\<lparr>w_proc := ?s, w_life := (w_life u)\<lparr>m_uLoginTimerID := ?j\<rparr>\<rparr>))"
        using False p k Some assms(2)
        by (cases "pm_pCon m = Some (lf_id (w_life u))") (simp_all add: CancelP2PmsgTimer_def On_PITimer_def with_life_def)
      then show ?thesis using False by blast
    qed
  qed
qed

lemma ending_keeps:
  assumes "cancellable (m_uLoginTimerID (w_life u)) (w_proc u)" "m_uRestartTimerID (w_life u) = 0"
  shows "\<exists>c' s i. ending n (c, u\<lparr>w_at := Some n\<rparr>) =
    (None, (c', u\<lparr>w_at := Some n, w_proc := s, w_life := (w_life u)\<lparr>m_uLoginTimerID := i, m_pEvent := False\<rparr>\<rparr>)) \<and> m_eP2PeerConMode c' = m_eP2PeerConMode c \<and> (m_uLoginTimerID (w_life u) = 0 \<longrightarrow> i = 0)"
proof -
  have "cancellable (m_uLoginTimerID (w_life (u\<lparr>w_at := Some n\<rparr>))) (w_proc (u\<lparr>w_at := Some n\<rparr>))"
    "m_uRestartTimerID (w_life (u\<lparr>w_at := Some n\<rparr>)) = 0" using assms by simp_all
  from cancel_keeps[OF this, of "SetState 0 ON_ConClose c"] obtain s i where
    "CancelP2PmsgTimer (m_uLoginTimerID (w_life u)) (SetState 0 ON_ConClose c, u\<lparr>w_at := Some n\<rparr>) =
      (None, (SetState 0 ON_ConClose c, u\<lparr>w_at := Some n, w_proc := s, w_life := (w_life u)\<lparr>m_uLoginTimerID := i\<rparr>\<rparr>))" and i: "m_uLoginTimerID (w_life u) = 0 \<longrightarrow> i = 0" by auto
  from this(1) have e: "ending n (c, u\<lparr>w_at := Some n\<rparr>) = (None, ((SetState 0 ON_ConClose c)\<lparr>con_que := (con_que c)\<lparr>m_oCListMsgQue := [], m_pP2PeerMsgSend := None\<rparr>\<rparr>,
      u\<lparr>w_at := Some n, w_proc := s, w_life := (w_life u)\<lparr>m_uLoginTimerID := i, m_pEvent := False\<rparr>\<rparr>))"
    by (simp add: ending_def with_life_def SetState_def)
  show ?thesis by (intro exI conjI, rule e) (use i in \<open>simp_all add: SetState_def\<close>)
qed

lemma drop_free:
  assumes "m_uRestartTimerID (w_life u) = 0"
  shows "Drop bEvent (c, u) = (None, (con_Drop c,
    (let l = w_life u; u1 = u\<lparr>w_life := l\<lparr>m_hFile := False, m_pEvent := m_pEvent l \<or> bEvent \<or> m_hFile l\<rparr>\<rparr> in
     if \<not> m_pEvent l \<and> \<not> m_bDestroy l \<and> w_at u \<noteq> Some P2P_Close then Notify P2P_Close u1 else u1)))"
proof -
  have same: "(w_life u)\<lparr>m_uRestartTimerID := 0\<rparr> = w_life u" using assms by (cases "w_life u") simp
  show ?thesis
    by (cases "m_pEvent (w_life u)") (simp_all add: Drop_def Let_def CheckP2PmsgPumpState_def same assms)
qed

text \<open>The close of a connection that is not restarted destroys it.\<close>

lemma close_destroys:
  assumes "cancellable (m_uLoginTimerID (w_life u)) (w_proc u)" "m_uRestartTimerID (w_life u) = 0"
    and "m_eP2PeerConMode c \<noteq> P2PeerCon_CLIENT \<or> m_uAutoRestart (w_life u) \<le> 99"
  shows "\<exists>c' u'. stock w o1 call P2P_Close pMsg (c, u) = Some (None, (c', u')) \<and> m_bDestroy (w_life u') \<and> w_posts u' = w_posts u"
proof -
  obtain c' s i where e: "OnClose (c, u\<lparr>w_at := Some P2P_Close\<rparr>) =
      (None, (c', u\<lparr>w_at := Some P2P_Close, w_proc := s, w_life := (w_life u)\<lparr>m_uLoginTimerID := i, m_pEvent := False\<rparr>\<rparr>))"
    "m_eP2PeerConMode c' = m_eP2PeerConMode c"
    using ending_keeps[OF assms(1,2), of P2P_Close c] by (auto simp: OnClose_def)
  then have "On_ConClose o1 (c, u\<lparr>w_at := Some P2P_Close\<rparr>) = (None, conDROP,
      (c', u\<lparr>w_at := Some P2P_Close, w_proc := s, w_life := (w_life u)\<lparr>m_uLoginTimerID := i, m_pEvent := False\<rparr>\<rparr>))"
    using assms(3) by (auto simp: On_ConClose_def)
  then show ?thesis using assms(2)
    by (simp add: stock_close finished_def con_results drop_free Destroy_def with_life_def Let_def)
qed

text \<open>
  C18: A dropped connection ends.  A live connection that is dropped, for whatever reason, has exactly one close
  posted, and where no handler intercepts it the close destroys the connection without anything else being
  posted; unless it is a client that restarts itself.  This is so as long as the timer of its login can be
  cancelled.
\<close>
theorem dropped_connection_ends:
  assumes "\<not> m_pEvent (w_life u)" "\<not> m_bDestroy (w_life u)" "w_at u \<noteq> Some P2P_Close" "m_uRestartTimerID (w_life u) = 0"
    and "cancellable (m_uLoginTimerID (w_life u)) (w_proc u)" "m_eP2PeerConMode c \<noteq> P2PeerCon_CLIENT \<or> m_uAutoRestart (w_life u) \<le> 99"
  shows "\<exists>c1 u1 c2 u2. Drop bEvent (c, u) = (None, (c1, u1)) \<and> w_posts u1 = w_posts u @ [(lf_id (w_life u), P2P_Close)] \<and>
    stock w o1 call P2P_Close pMsg (c1, u1) = Some (None, (c2, u2)) \<and> m_bDestroy (w_life u2) \<and> w_posts u2 = w_posts u1"
proof -
  let ?u1 = "Notify P2P_Close (u\<lparr>w_life := (w_life u)\<lparr>m_hFile := False, m_pEvent := m_pEvent (w_life u) \<or> bEvent \<or> m_hFile (w_life u)\<rparr>\<rparr>)"
  have d: "Drop bEvent (c, u) = (None, (con_Drop c, ?u1))" using assms(1-3) by (simp add: drop_free[OF assms(4)] Let_def)
  have u1: "w_posts ?u1 = w_posts u @ [(lf_id (w_life u), P2P_Close)]" by (simp add: Notify_def)
  have "cancellable (m_uLoginTimerID (w_life ?u1)) (w_proc ?u1)" "m_uRestartTimerID (w_life ?u1) = 0"
    "m_eP2PeerConMode (con_Drop c) \<noteq> P2PeerCon_CLIENT \<or> m_uAutoRestart (w_life ?u1) \<le> 99"
    using assms(4-6) by (simp_all add: Notify_def con_Drop_def SetState_def)
  from close_destroys[OF this] d u1 show ?thesis by blast
qed

text \<open>
  A service that is shut down is not restarted.  The default handler of the shutdown asks for the restart, but
  a restart is only allowed while a close is handled: it throws, the connection is dropped, and the close that
  follows destroys it, however long its restart delay.
\<close>
theorem shut_down_service_is_not_restarted:
  assumes "\<not> m_bDestroy (w_life u)" "m_uRestartTimerID (w_life u) = 0" "m_uLoginTimerID (w_life u) = 0"
    and "m_eP2PeerConMode c = P2PeerCon_SERVICE" "m_uAutoRestart (w_life u) > 99"
  shows "\<exists>c1 u1 c2 u2. stock w o1 call P2P_Shutdown pMsg (c, u) = Some (None, (c1, u1)) \<and> w_posts u1 = w_posts u @ [(lf_id (w_life u), P2P_Close)] \<and>
    stock w o1 call P2P_Close pMsg (c1, u1) = Some (None, (c2, u2)) \<and> m_bDestroy (w_life u2) \<and> w_posts u2 = w_posts u1"
proof -
  have k: "cancellable (m_uLoginTimerID (w_life u)) (w_proc u)" using assms(3) by (simp add: cancellable_def)
  obtain c' s i where e: "OnShutdown (c, u\<lparr>w_at := Some P2P_Shutdown\<rparr>) =
      (None, (c', u\<lparr>w_at := Some P2P_Shutdown, w_proc := s, w_life := (w_life u)\<lparr>m_uLoginTimerID := i, m_pEvent := False\<rparr>\<rparr>))"
    "m_eP2PeerConMode c' = m_eP2PeerConMode c" "i = 0"
    using ending_keeps[OF k assms(2), of P2P_Shutdown c] assms(3) by (auto simp: OnShutdown_def)
  let ?u = "u\<lparr>w_at := Some P2P_Shutdown, w_proc := s, w_life := (w_life u)\<lparr>m_uLoginTimerID := i, m_pEvent := False\<rparr>\<rparr>"
  have "On_ConShutdown o1 (c, u\<lparr>w_at := Some P2P_Shutdown\<rparr>) = (Some (OfCon WrongHandler), conHANDLED, (c', ?u))"
    using e assms(1,4,5) by (simp add: On_ConShutdown_def life_Restart_def Restart_def CheckP2PmsgPumpState_def con_notifications)
  then have "stock w o1 call P2P_Shutdown pMsg (c, u) = Some (Drop True (c', ?u))" by (simp add: stock_shutdown)
  moreover obtain u1 where d: "Drop True (c', ?u) = (None, (con_Drop c', u1))" "w_posts u1 = w_posts u @ [(lf_id (w_life u), P2P_Close)]"
    "m_uRestartTimerID (w_life u1) = 0" "cancellable (m_uLoginTimerID (w_life u1)) (w_proc u1)"
    using assms(1,2) e(3) by (simp add: cancellable_def drop_free Let_def Notify_def con_notifications)
  moreover have "m_eP2PeerConMode (con_Drop c') \<noteq> P2PeerCon_CLIENT \<or> m_uAutoRestart (w_life u1) \<le> 99"
    using e(2) assms(4) by (simp add: con_Drop_def SetState_def)
  ultimately show ?thesis using close_destroys[of u1 "con_Drop c'" w o1 call pMsg] by metis
qed

subsection \<open>Deadlines\<close>

lemma arms:
  assumes "s_ThreadID_P2PmsgPump (w_proc u) t = Some p" "length (m_oCListP2PmsgPit p) \<le> 1024" "m_hCPortP2PumpID (w_life u) = t"
    and "m_xLoginDeadline (w_life u) \<noteq> 0" "m_uLoginTimerID (w_life u) = 0" "m_eP2PeerConMode c = P2PeerCon_Accept"
  shows "\<exists>i s. SetP2PmsgTimer (o_after_null o1) (o_now o1) t (Some (lf_id (w_life u))) (m_xLoginDeadline (w_life u)) (w_proc u) = Some (Inr i, s) \<and>
    ArmLoginDeadline o1 (c, u) = (None, (c, u\<lparr>w_proc := s, w_life := (w_life u)\<lparr>m_uLoginTimerID := i\<rparr>\<rparr>))"
proof -
  obtain i n where "MakeTimerID (m_nThreadId p) (m_oCListP2PmsgPit p) (m_nPitimeID p) = Some (i, n)"
    using MakeTimerID_ends[of "m_oCListP2PmsgPit p" "m_nThreadId p" "m_nPitimeID p"] assms(2) by auto
  then have "\<exists>s. SetP2PmsgTimer (o_after_null o1) (o_now o1) t (Some (lf_id (w_life u))) (m_xLoginDeadline (w_life u)) (w_proc u) = Some (Inr i, s)"
    using assms(1,2) by (simp add: SetP2PmsgTimer_def SetTimer_def)
  then show ?thesis using assms(3-6) by (auto simp: ArmLoginDeadline_def SetPITimer_def with_life_def)
qed

lemma lost_timer:
  assumes "i \<noteq> 0" "s_ThreadID_P2PmsgPump (w_proc u) (i div 0x100) = None"
  shows "CancelP2PmsgTimer i (c, u) = (Some LostPump, (c, u))"
  using assms by (simp add: CancelP2PmsgTimer_def)

text \<open>An accepted connection whose deadline cannot be cancelled: the login fails, and so does the close.\<close>

lemma lost_deadline:
  assumes "m_uLoginTimerID (w_life u) \<noteq> 0" "s_ThreadID_P2PmsgPump (w_proc u) (m_uLoginTimerID (w_life u) div 0x100) = None"
    and "m_uRestartTimerID (w_life u) = 0" "\<not> m_pEvent (w_life u)" "\<not> m_bDestroy (w_life u)" "Map_MatchName (m_name m) P2Pmsg_Login"
  shows "\<exists>c2 u2 c3 u3. stock w o1 call P2P_Login (Some m) (c, u) = Some (None, (con_Drop c2, u2)) \<and> w_posts u2 = w_posts u @ [(lf_id (w_life u), P2P_Close)] \<and>
    stock w o1 call P2P_Close pMsg (con_Drop c2, u2) = Some (None, (c3, u3)) \<and> \<not> m_bDestroy (w_life u3) \<and> w_posts u3 = w_posts u2 \<and>
    (\<forall>b. w_posts (snd (snd (Drop b (c3, u3)))) = w_posts u3)"
proof -
  let ?u = "u\<lparr>w_at := Some P2P_Login\<rparr>"
  have "life_OnLogin a (c, ?u) = (Some LostPump, (c, ?u))" for a
    using assms(1,2) by (simp add: life_OnLogin_def lost_timer)
  then have "\<exists>e. On_ConLogin o1 (GetSource m) (login_payload c m) (c, ?u) = (Some e, conHANDLED, (c, ?u))"
    by (auto simp: On_ConLogin_def)
  then obtain e where "On_ConLogin o1 (GetSource m) (login_payload c m) (c, ?u) = (Some e, conHANDLED, (c, ?u))" by blast
  then have l: "stock w o1 call P2P_Login (Some m) (c, u) = Some (Drop True (c, ?u))" by (simp add: stock_login[OF assms(6)])
  obtain u2 where u2: "Drop True (c, ?u) = (None, (con_Drop c, u2))" "w_posts u2 = w_posts u @ [(lf_id (w_life u), P2P_Close)]" "w_proc u2 = w_proc u"
    "m_uLoginTimerID (w_life u2) = m_uLoginTimerID (w_life u)" "m_pEvent (w_life u2)" "\<not> m_bDestroy (w_life u2)" "m_uRestartTimerID (w_life u2) = 0"
    using assms(3-5) by (simp add: drop_free Let_def Notify_def con_notifications)
  let ?c = "SetState 0 ON_ConClose (con_Drop c)" and ?u2 = "u2\<lparr>w_at := Some P2P_Close\<rparr>"
  have "OnClose (con_Drop c, ?u2) = (Some LostPump, (?c, ?u2))"
    using assms(1,2) u2(3,4) by (simp add: OnClose_def ending_def lost_timer)
  then have "On_ConClose o1 (con_Drop c, ?u2) = (Some LostPump, conDROP, (?c, ?u2))" by (simp add: On_ConClose_def)
  then have "stock w o1 call P2P_Close pMsg (con_Drop c, u2) = Some (Drop True (?c, ?u2))" by (simp add: stock_close)
  moreover obtain u3 where u3: "Drop True (?c, ?u2) = (None, (con_Drop ?c, u3))" "w_posts u3 = w_posts u2" "\<not> m_bDestroy (w_life u3)" "m_pEvent (w_life u3)"
    "m_uRestartTimerID (w_life u3) = 0" using u2(5-7) by (simp add: drop_free Let_def)
  moreover have "w_posts (snd (snd (Drop b (con_Drop ?c, u3)))) = w_posts u3" for b using u3(4,5) by (simp add: drop_free)
  ultimately show ?thesis using l u2(1,2) by metis
qed

text \<open>
  C17: The login deadline works for the first 256 timers of a hub.  This is about one accepted connection with a
  deadline, whose timer is numbered by the 16 bit counter of its pump.  If that number is below 256, its login
  takes exactly the timer of the deadline away, and goes on.  If it is from 256 to 65535, the identifier of the
  timer decodes to the number of another thread, the pump's own plus the number divided by 256.  If no pump runs
  under that number, the login is refused and the connection dropped; its close fails for the same reason, so
  that the connection is not destroyed, and no drop of it posts a close again.  Nothing is said of the case that
  a pump does run there; and the counter wraps, so that after 65536 timers the numbers are below 256 again.
\<close>
theorem login_deadline_of_the_first_256:
  assumes "inserts (o_after_null o1)" "s_ThreadID_P2PmsgPump (w_proc u) t = Some p" "m_nThreadId p = t" "t < 0xFFFF00" "0 < t"
    and "length (m_oCListP2PmsgPit p) \<le> 1024" "m_hCPortP2PumpID (w_life u) = t" "m_xLoginDeadline (w_life u) \<noteq> 0" "m_uLoginTimerID (w_life u) = 0"
    and "m_uRestartTimerID (w_life u) = 0" "m_eP2PeerConMode c = P2PeerCon_Accept" "\<not> m_pEvent (w_life u)" "\<not> m_bDestroy (w_life u)"
    and "Map_MatchName (m_name m) P2Pmsg_Login"
  shows "\<exists>u1 q. ArmLoginDeadline o1 (c, u) = (None, (c, u1)) \<and> s_ThreadID_P2PmsgPump (w_proc u1) t = Some q \<and>
    (if m_nPitimeID q - 1 < 0x100
     then life_OnLogin a (c, u1\<lparr>w_at := Some P2P_Login\<rparr>) = of_con (OnLogin True a c)
        (u\<lparr>w_at := Some P2P_Login, w_proc := to_pump t (p\<lparr>m_nPitimeID := m_nPitimeID q\<rparr>) (w_proc u)\<rparr>)
     else s_ThreadID_P2PmsgPump (w_proc u) (t + ucast ((m_nPitimeID q - 1) div 0x100)) = None \<longrightarrow>
        (\<exists>c2 u2 c3 u3. stock w o1 call P2P_Login (Some m) (c, u1) = Some (None, (con_Drop c2, u2)) \<and>
          stock w o1 call P2P_Close pMsg (con_Drop c2, u2) = Some (None, (c3, u3)) \<and> \<not> m_bDestroy (w_life u3) \<and> w_posts u3 = w_posts u2 \<and>
          (\<forall>b. w_posts (snd (snd (Drop b (c3, u3)))) = w_posts u3)))"
proof -
  obtain i s where i: "SetP2PmsgTimer (o_after_null o1) (o_now o1) t (Some (lf_id (w_life u))) (m_xLoginDeadline (w_life u)) (w_proc u) = Some (Inr i, s)"
    "ArmLoginDeadline o1 (c, u) = (None, (c, u\<lparr>w_proc := s, w_life := (w_life u)\<lparr>m_uLoginTimerID := i\<rparr>\<rparr>))"
    using arms[OF assms(2,6-9,11)] by blast
  let ?u1 = "u\<lparr>w_proc := s, w_life := (w_life u)\<lparr>m_uLoginTimerID := i\<rparr>\<rparr>"
  obtain q x where q: "s = to_pump t q (P2PmsgFactory (w_proc u))" "KillTimer i q = (Some x, p\<lparr>m_nPitimeID := m_nPitimeID q\<rparr>)"
    "pm_pCon x = Some (lf_id (w_life u))" "i div 0x100 = t + ucast ((m_nPitimeID q - 1) div 0x100)" "i \<noteq> 0"
    using new_timer[OF assms(1-4) i(1)] assms(5) by blast
  have p: "s_ThreadID_P2PmsgPump (w_proc ?u1) t = Some q" by (simp add: q(1) to_pump_def)
  show ?thesis
  proof (cases "m_nPitimeID q - 1 < 0x100")
    case True
    then have d: "i div 0x100 = t" using q(4) early_timer by simp
    have same: "(w_life u)\<lparr>m_uLoginTimerID := 0\<rparr> = w_life u" using assms(9) by (cases "w_life u") simp
    have "CancelP2PmsgTimer i (c, ?u1\<lparr>w_at := Some P2P_Login\<rparr>) =
      (None, (c, u\<lparr>w_at := Some P2P_Login, w_proc := to_pump t (p\<lparr>m_nPitimeID := m_nPitimeID q\<rparr>) (w_proc u)\<rparr>))"
      using q(5) d p q(2,3) assms(10) same
      by (simp add: CancelP2PmsgTimer_def On_PITimer_def with_life_def) (simp add: q(1) to_pump_def P2PmsgFactory_def ReleaseP2Pmsg_def)
    then show ?thesis using True i(2) p by (intro exI[of _ ?u1] exI[of _ q]) (simp add: life_OnLogin_def)
  next
    case False
    show ?thesis
    proof (cases "s_ThreadID_P2PmsgPump (w_proc u) (i div 0x100) = None")
      case None: True
      have d: "i div 0x100 \<noteq> t" using late_timer[OF False] q(4) by simp
      have l: "s_ThreadID_P2PmsgPump (w_proc ?u1) (i div 0x100) = None" using None d by (simp add: q(1) to_pump_def P2PmsgFactory_def)
      show ?thesis using lost_deadline[of ?u1 m w o1 call c pMsg] q(5) l assms(10,12-14) False i(2) p
        by (intro exI[of _ ?u1] exI[of _ q]) auto
    next
      case other: False
      then show ?thesis using False i(2) p q(4) by (intro exI[of _ ?u1] exI[of _ q]) auto
    qed
  qed
qed

subsection \<open>Examples\<close>

definition example_outside :: outside where
  "example_outside = \<lparr>o_after_null = (\<lambda>x v. v @ [x]), o_now = 0, o_crypto = example_crypto (\<lambda>_. True), o_rnd = None, o_eph = None,
     o_pHub = None, o_pfx = m_prefix (example_msg [] 0), o_ConExists = (\<lambda>_. False), o_Listen = (\<lambda>x. (None, x)),
     o_Connect = (\<lambda>x. (None, x)), o_Accept = (\<lambda>x. (None, x)), o_AcceptSpawn = (\<lambda>_. None), o_PKeyXChange = None\<rparr>"

text \<open>A hub whose pump has set \<open>n\<close> timers.\<close>

definition example_world :: "16 word \<Rightarrow> world" where
  "example_world n = \<lparr>w_life = \<lparr>lf_id = 1, m_hFile = True, m_pEvent = False, m_bDestroy = False, m_uAutoRestart = 20000, m_xLoginDeadline = 5000,
       m_uRestartTimerID = 0, m_uLoginTimerID = 0, m_hCPortP2PumpID = 8\<rparr>,
     w_proc = one_pump (example_pump\<lparr>m_nPitimeID := n\<rparr>), w_at = None, w_posts = [], w_spawned = []\<rparr>"

definition no_handlers :: "world con_handlers" where "no_handlers this f args x = (Some conHANDLED, x)"

lemma example_world_fields [simp]:
  "w_proc (example_world n) = one_pump (example_pump\<lparr>m_nPitimeID := n\<rparr>)" "w_at (example_world n) = None" "w_posts (example_world n) = []"
  "m_pEvent (w_life (example_world n)) = False" "m_bDestroy (w_life (example_world n)) = False" "m_uRestartTimerID (w_life (example_world n)) = 0"
  "m_uLoginTimerID (w_life (example_world n)) = 0" "lf_id (w_life (example_world n)) = 1" "m_uAutoRestart (w_life (example_world n)) = 20000"
  "m_hCPortP2PumpID (w_life (example_world n)) = 8" "m_xLoginDeadline (w_life (example_world n)) = 5000"
  by (simp_all add: example_world_def)

lemma example_registered_life: "m_eP2PeerConMode (example_con H T) = P2PeerCon_Accept"
  by (simp add: example_con_def AcceptSpawn_def)

theorem dropped_connection_ends_witness:
  "\<exists>c1 u1 c2 u2. Drop False (example_con [65] [66], example_world 0) = (None, (c1, u1)) \<and> w_posts u1 = [(1, P2P_Close)] \<and>
    stock 8 example_outside no_handlers P2P_Close None (c1, u1) = Some (None, (c2, u2)) \<and> m_bDestroy (w_life u2) \<and> w_posts u2 = w_posts u1"
  using dropped_connection_ends[of "example_world 0" "example_con [65] [66]" False 8 example_outside no_handlers None]
  by (simp add: cancellable_def example_registered_life)

theorem shut_down_service_is_not_restarted_witness:
  "\<exists>c1 u1 c2 u2. stock 8 example_outside no_handlers P2P_Shutdown None ((con_new 0 None)\<lparr>m_eP2PeerConMode := P2PeerCon_SERVICE\<rparr>, example_world 0) =
      Some (None, (c1, u1)) \<and> w_posts u1 = [(1, P2P_Close)] \<and>
    stock 8 example_outside no_handlers P2P_Close None (c1, u1) = Some (None, (c2, u2)) \<and> m_bDestroy (w_life u2) \<and> w_posts u2 = w_posts u1"
  using shut_down_service_is_not_restarted[of "example_world 0" "(con_new 0 None)\<lparr>m_eP2PeerConMode := P2PeerCon_SERVICE\<rparr>" 8 example_outside no_handlers None]
  by simp

theorem login_deadline_of_the_first_256_witness:
  "\<exists>u1 c2 u2 c3 u3. ArmLoginDeadline example_outside (example_con [65] [66], example_world 0x100) = (None, (example_con [65] [66], u1)) \<and>
    stock 8 example_outside no_handlers P2P_Login (Some (example_msg P2Pmsg_Login 0)) (example_con [65] [66], u1) = Some (None, (con_Drop c2, u2)) \<and>
    stock 8 example_outside no_handlers P2P_Close None (con_Drop c2, u2) = Some (None, (c3, u3)) \<and> \<not> m_bDestroy (w_life u3) \<and> w_posts u3 = w_posts u2 \<and>
    (\<forall>b. w_posts (snd (snd (Drop b (c3, u3)))) = w_posts u3)"
proof -
  let ?c = "example_con [65] [66]" and ?u = "example_world 0x100"
  have m: "Map_MatchName (m_name (example_msg P2Pmsg_Login 0)) P2Pmsg_Login" by (simp only: example_name) code_simp
  have p: "s_ThreadID_P2PmsgPump (w_proc ?u) 8 = Some (example_pump\<lparr>m_nPitimeID := 0x100\<rparr>)" by (simp add: run_timer)
  obtain u1 q where a: "ArmLoginDeadline example_outside (?c, ?u) = (None, (?c, u1))" "s_ThreadID_P2PmsgPump (w_proc u1) 8 = Some q"
    "if m_nPitimeID q - 1 < 0x100
     then life_OnLogin [] (?c, u1\<lparr>w_at := Some P2P_Login\<rparr>) = of_con (OnLogin True [] ?c)
        (?u\<lparr>w_at := Some P2P_Login, w_proc := to_pump 8 ((example_pump\<lparr>m_nPitimeID := 0x100\<rparr>)\<lparr>m_nPitimeID := m_nPitimeID q\<rparr>) (w_proc ?u)\<rparr>)
     else s_ThreadID_P2PmsgPump (w_proc ?u) (8 + ucast ((m_nPitimeID q - 1) div 0x100)) = None \<longrightarrow>
        (\<exists>c2 u2 c3 u3. stock 8 example_outside no_handlers P2P_Login (Some (example_msg P2Pmsg_Login 0)) (?c, u1) = Some (None, (con_Drop c2, u2)) \<and>
          stock 8 example_outside no_handlers P2P_Close None (con_Drop c2, u2) = Some (None, (c3, u3)) \<and> \<not> m_bDestroy (w_life u3) \<and> w_posts u3 = w_posts u2 \<and>
          (\<forall>b. w_posts (snd (snd (Drop b (c3, u3)))) = w_posts u3))"
    using login_deadline_of_the_first_256[of example_outside ?u 8 "example_pump\<lparr>m_nPitimeID := 0x100\<rparr>" ?c "example_msg P2Pmsg_Login 0" "[]" 8 no_handlers None]
      inserts_at_end p m by (auto simp: example_outside_def example_pump_def pump_new_def example_registered_life)
  have "m_nPitimeID q = 0x101"
    using a(1,2) by (auto simp: ArmLoginDeadline_def SetPITimer_def example_outside_def example_registered_life run_timer with_life_def)
  then show ?thesis using a(1,3) by (auto simp: run_timer)
qed

end
