(* ===== verification/ConRefs.thy ===== *)
theory ConRefs
  imports Targetcore_Prelude
begin

text \<open>
  The reference count a connection lives by: \<open>P2PeerConPlc\<close> (P2PeerCon.h, P2PeerCon.cpp), the unlinking in
  \<open>DropP2PmsgCon\<close> and the two walks that take a reference from the list of the hub, \<open>RetainP2PmsgCons\<close> and
  \<open>CloseP2PmsgHub\<close> (P2Pwin32.cpp).

  The model is one connection and the threads that use it.  A step is one access to an atomic field, one
  critical section of the hub's lock, or the \<open>delete\<close>; between its steps a thread may be overtaken by any other.
  An increment and a decrement are one step, as \<open>++\<close> and \<open>--\<close> of \<open>std::atomic\<close> are; counts stay far below
  \<open>2 ^ 30\<close> in magnitude, so \<open>m_cRef\<close> is an integer.  A thread counts the references it holds; \<open>AddRef\<close>, \<open>Destroy\<close> and
  \<open>Release\<close> are called by a thread that holds one, which is the contract the header of the class states.  The
  closing walk of the hub is the exception the source makes: it calls \<open>AddRef\<close> on what it finds in the list.
  The hub outlives the connection.
\<close>

section \<open>A connection and its threads\<close>

text \<open>Where a thread stands: in the loop of \<open>TryAddRef\<close> with the count it has seen, or in the tail of \<open>Release\<close>
  with the count its own decrement produced.\<close>

datatype pc = Idle | Trying int | Decremented int | Looked int | Claiming int | Claimed | Unlinked

type_synonym thread = "pc \<times> nat"

text \<open>\<open>listed\<close>: the connection is in the list of its hub; \<open>owner\<close>: the thread in \<open>s_oCSectionP2PmsgHub\<close>;
  \<open>deletes\<close> counts the times \<open>delete this\<close> ran.\<close>

record refs =
  m_cRef :: int
  m_bDestroy :: bool
  m_nP2PconID :: nat
  listed :: bool
  owner :: "nat option"
  deletes :: nat
  threads :: "thread list"

definition kDyingRef :: int where
  "kDyingRef = - 0x40000000"

definition moves :: "nat \<Rightarrow> pc \<Rightarrow> nat \<Rightarrow> refs \<Rightarrow> refs" where
  "moves t p h s = s\<lparr>threads := (threads s)[t := (p, h)]\<rparr>"

definition holds_hub :: "nat \<Rightarrow> refs \<Rightarrow> bool" where
  "holds_hub t s \<longleftrightarrow> owner s = Some t"

text \<open>A critical section is recursive: its owner enters it again.\<close>

definition may_enter :: "nat \<Rightarrow> refs \<Rightarrow> bool" where
  "may_enter t s \<longleftrightarrow> owner s = None \<or> holds_hub t s"

section \<open>The steps\<close>

text \<open>\<open>AddRef\<close> and \<open>Destroy\<close> are a single access each.\<close>

definition AddRef_step :: "nat \<Rightarrow> nat \<Rightarrow> refs \<Rightarrow> refs" where
  "AddRef_step t h s = moves t Idle (Suc h) (s\<lparr>m_cRef := m_cRef s + 1\<rparr>)"

definition Destroy_step :: "refs \<Rightarrow> refs" where
  "Destroy_step s = s\<lparr>m_bDestroy := True\<rparr>"

text \<open>\<open>TryAddRef\<close>: \<open>load\<close> the count, then exchange it for its successor until that succeeds or the count read is
  below zero.  A weak exchange may fail although the count is the one expected; a failure reads the count anew.\<close>

definition TryAddRef_load :: "nat \<Rightarrow> nat \<Rightarrow> refs \<Rightarrow> refs" where
  "TryAddRef_load t h s = moves t (if 0 \<le> m_cRef s then Trying (m_cRef s) else Idle) h s"

definition TryAddRef_exchange :: "bool \<Rightarrow> nat \<Rightarrow> int \<Rightarrow> nat \<Rightarrow> refs \<Rightarrow> refs" where
  "TryAddRef_exchange spurious t v h s =
    (if m_cRef s = v \<and> \<not> spurious then moves t Idle (Suc h) (s\<lparr>m_cRef := v + 1\<rparr>)
     else TryAddRef_load t h s)"

text \<open>\<open>Release\<close>, access by access: the decrement; \<open>m_nP2PconID == 0\<close>, which calls \<open>Destroy\<close>; \<open>m_bDestroy\<close>; the claim.
  A count above zero ends the call without another look at the object.\<close>

definition Release_decrement :: "nat \<Rightarrow> nat \<Rightarrow> refs \<Rightarrow> refs" where
  "Release_decrement t h s =
    moves t (if m_cRef s - 1 \<le> 0 then Decremented (m_cRef s - 1) else Idle) (h - 1) (s\<lparr>m_cRef := m_cRef s - 1\<rparr>)"

definition Release_id :: "nat \<Rightarrow> int \<Rightarrow> nat \<Rightarrow> refs \<Rightarrow> refs" where
  "Release_id t v h s = moves t (Looked v) h (if m_nP2PconID s = 0 then Destroy_step s else s)"

definition Release_flag :: "nat \<Rightarrow> int \<Rightarrow> nat \<Rightarrow> refs \<Rightarrow> refs" where
  "Release_flag t v h s = moves t (if m_bDestroy s then Claiming v else Idle) h s"

definition Release_claim :: "nat \<Rightarrow> int \<Rightarrow> nat \<Rightarrow> refs \<Rightarrow> refs" where
  "Release_claim t v h s =
    (if m_cRef s = v then moves t Claimed h (s\<lparr>m_cRef := kDyingRef\<rparr>) else moves t Idle h s)"

text \<open>\<open>DropP2PmsgCon\<close> looks the address up in the registry; a connection that is not there is left alone.\<close>

definition DropP2PmsgCon :: "nat \<Rightarrow> nat \<Rightarrow> refs \<Rightarrow> refs" where
  "DropP2PmsgCon t h s =
    moves t Unlinked h (if listed s then (Destroy_step s)\<lparr>listed := False, m_nP2PconID := 0\<rparr> else s)"

definition delete_this :: "nat \<Rightarrow> nat \<Rightarrow> refs \<Rightarrow> refs" where
  "delete_this t h s = moves t Idle h (s\<lparr>deletes := Suc (deletes s)\<rparr>)"

text \<open>The calls a thread may make, and the next step inside one.\<close>

datatype act = EnterHub | LeaveHub | CallAddRef | CallDestroy | CallTryAddRef | CallRelease | Continue bool
  | PinListed

text \<open>The next step of a call that is under way.\<close>

fun continues :: "bool \<Rightarrow> nat \<Rightarrow> pc \<Rightarrow> nat \<Rightarrow> refs \<Rightarrow> refs option" where
  "continues spurious t Idle h s = None"
| "continues spurious t (Trying v) h s = Some (TryAddRef_exchange spurious t v h s)"
| "continues spurious t (Decremented v) h s = Some (Release_id t v h s)"
| "continues spurious t (Looked v) h s = Some (Release_flag t v h s)"
| "continues spurious t (Claiming v) h s = Some (Release_claim t v h s)"
| "continues spurious t Claimed h s = (if may_enter t s then Some (DropP2PmsgCon t h s) else None)"
| "continues spurious t Unlinked h s = Some (delete_this t h s)"

text \<open>A call that begins: references come from one the thread holds, or from the list under the lock of the hub.\<close>

fun begins :: "act \<Rightarrow> nat \<Rightarrow> nat \<Rightarrow> refs \<Rightarrow> refs option" where
  "begins EnterHub t h s = (if owner s = None then Some (s\<lparr>owner := Some t\<rparr>) else None)"
| "begins LeaveHub t h s = (if holds_hub t s then Some (s\<lparr>owner := None\<rparr>) else None)"
| "begins CallAddRef t h s = (if 0 < h then Some (AddRef_step t h s) else None)"
| "begins CallDestroy t h s = (if 0 < h then Some (Destroy_step s) else None)"
| "begins CallTryAddRef t h s = (if holds_hub t s \<and> listed s then Some (TryAddRef_load t h s) else None)"
| "begins CallRelease t h s = (if 0 < h then Some (Release_decrement t h s) else None)"
| "begins PinListed t h s = (if holds_hub t s \<and> listed s then Some (AddRef_step t h s) else None)"
| "begins (Continue spurious) t h s = None"

definition exec :: "nat \<Rightarrow> act \<Rightarrow> refs \<Rightarrow> refs option" where
  "exec t a s =
    (if length (threads s) \<le> t then None
     else case threads s ! t of (p, h) \<Rightarrow>
       (case a of Continue spurious \<Rightarrow> continues spurious t p h s
        | _ \<Rightarrow> if p = Idle then begins a t h s else None))"

fun execs :: "(nat \<times> act) list \<Rightarrow> refs \<Rightarrow> refs option" where
  "execs [] s = Some s"
| "execs ((t, a) # as) s = (case exec t a s of None \<Rightarrow> None | Some s' \<Rightarrow> execs as s')"

text \<open>Every thread idle, the count the references held: a connection that was posted, or one nobody posted yet.\<close>

definition holds :: "refs \<Rightarrow> nat" where
  "holds s = sum_list (map snd (threads s))"

definition at_rest :: "refs \<Rightarrow> bool" where
  "at_rest s \<longleftrightarrow> m_cRef s = int (holds s) \<and> \<not> m_bDestroy s \<and> (listed s \<longleftrightarrow> m_nP2PconID s \<noteq> 0) \<and> owner s = None
    \<and> deletes s = 0 \<and> list_all (\<lambda>th. fst th = Idle) (threads s)"

text \<open>The states reached from \<open>s\<^sub>0\<close> when references from the list are taken with \<open>TryAddRef\<close> only.\<close>

inductive reached :: "refs \<Rightarrow> refs \<Rightarrow> bool" for s\<^sub>0 where
  reached_refl: "at_rest s\<^sub>0 \<Longrightarrow> reached s\<^sub>0 s\<^sub>0"
| reached_step: "reached s\<^sub>0 s \<Longrightarrow> a \<noteq> PinListed \<Longrightarrow> exec t a s = Some s' \<Longrightarrow> reached s\<^sub>0 s'"

section \<open>What holds throughout\<close>

text \<open>The tail of \<open>Release\<close> before the claim, after a decrement to zero; the tail after the claim.\<close>

fun let_go :: "pc \<Rightarrow> bool" where
  "let_go (Decremented v) = (v = 0)"
| "let_go (Looked v) = (v = 0)"
| "let_go (Claiming v) = (v = 0)"
| "let_go _ = False"

fun pc_ok :: "refs \<Rightarrow> nat \<Rightarrow> pc \<Rightarrow> bool" where
  "pc_ok s t (Trying v) = (0 \<le> v \<and> owner s = Some t \<and> listed s)"
| "pc_ok s t (Decremented v) = (v = 0)"
| "pc_ok s t (Looked v) = (v = 0)"
| "pc_ok s t (Claiming v) = (v = 0)"
| "pc_ok s t Unlinked = (\<not> listed s)"
| "pc_ok s t _ = True"

definition dying :: "thread \<Rightarrow> nat" where
  "dying th = (if fst th = Claimed \<or> fst th = Unlinked then 1 else 0)"

definition takers :: "refs \<Rightarrow> nat" where
  "takers s = sum_list (map dying (threads s))"

text \<open>The count is the references held until the claim; the claim is made once, by a thread that then deletes; what
  was marked and let go of has a thread that looks after it.\<close>

definition refs_ok :: "refs \<Rightarrow> bool" where
  "refs_ok s \<longleftrightarrow> (if 0 \<le> m_cRef s then m_cRef s = int (holds s) \<and> takers s + deletes s = 0
      else m_cRef s = kDyingRef \<and> holds s = 0 \<and> takers s + deletes s = 1)
    \<and> (0 < deletes s \<longrightarrow> \<not> listed s)
    \<and> (\<forall>t < length (threads s). pc_ok s t (fst (threads s ! t)))
    \<and> (m_bDestroy s \<and> m_cRef s = 0 \<longrightarrow> (\<exists>t < length (threads s). let_go (fst (threads s ! t))))"

subsection \<open>A step of one thread\<close>

lemma sum_list_moves:
  assumes "t < length ths"
  shows "sum_list (map f (ths[t := x])) + f (ths ! t) = sum_list (map f ths) + (f x :: nat)"
proof -
  have "f (ths ! t) \<le> sum_list (map f ths)"
    using assms by (intro member_le_sum_list) auto
  then show ?thesis using assms by (simp add: map_update sum_list_update)
qed

lemma moves_simps [simp]:
  "m_cRef (moves t p h s) = m_cRef s" "m_bDestroy (moves t p h s) = m_bDestroy s"
  "m_nP2PconID (moves t p h s) = m_nP2PconID s" "listed (moves t p h s) = listed s"
  "owner (moves t p h s) = owner s" "deletes (moves t p h s) = deletes s"
  "threads (moves t p h s) = (threads s)[t := (p, h)]"
  by (simp_all add: moves_def)

lemma holds_moves:
  "t < length (threads s) \<Longrightarrow> threads s ! t = (q, k) \<Longrightarrow> holds (moves t p h s) + k = holds s + h"
  using sum_list_moves [of t "threads s" snd "(p, h)"] by (simp add: holds_def)

lemma takers_moves:
  "t < length (threads s) \<Longrightarrow> threads s ! t = (q, k) \<Longrightarrow> takers (moves t p h s) + dying (q, k) = takers s + dying (p, h)"
  using sum_list_moves [of t "threads s" dying "(p, h)"] by (simp add: takers_def)

lemma holds_at:
  assumes "t < length (threads s)" "threads s ! t = (q, k)"
  shows "k \<le> holds s"
  using sum_list_moves [of t "threads s" snd "(q, 0)"] assms by (simp add: holds_def)

lemma takers_at:
  assumes "t < length (threads s)" "threads s ! t = (q, k)"
  shows "dying (q, k) \<le> takers s"
  using sum_list_moves [of t "threads s" dying "(Idle, 0)"] assms by (simp add: takers_def dying_def)

text \<open>The invariant after a step of thread \<open>t\<close> that changes the object from \<open>s\<close> to \<open>u\<close>.\<close>

lemma refs_ok_moves:
  assumes "refs_ok s" and t: "t < length (threads s)" "threads s ! t = (q, k)" and u: "threads u = threads s"
    and count: "if 0 \<le> m_cRef u then m_cRef u + int k = int (holds s) + int h \<and> takers s + dying (p, h) + deletes u = dying (q, k)
      else m_cRef u = kDyingRef \<and> holds s + h = k \<and> takers s + dying (p, h) + deletes u = dying (q, k) + 1"
    and gone: "0 < deletes u \<Longrightarrow> \<not> listed u"
    and others: "\<And>t' p'. t' \<noteq> t \<Longrightarrow> t' < length (threads s) \<Longrightarrow> fst (threads s ! t') = p' \<Longrightarrow> pc_ok s t' p' \<Longrightarrow> pc_ok u t' p'"
    and own: "pc_ok u t p"
    and after: "m_bDestroy u \<Longrightarrow> m_cRef u = 0 \<Longrightarrow> let_go p \<or> (m_bDestroy s \<and> m_cRef s = 0 \<and> \<not> let_go q)"
  shows "refs_ok (moves t p h u)"
proof -
  have H: "holds (moves t p h u) + k = holds s + h" "takers (moves t p h u) + dying (q, k) = takers s + dying (p, h)"
    using holds_moves [of t u q k p h] takers_moves [of t u q k p h] t u by (simp_all add: holds_def takers_def)
  have pcs: "pc_ok (moves t p h u) t' x \<longleftrightarrow> pc_ok u t' x" for t' x
    by (cases x) simp_all
  have 1: "pc_ok (moves t p h u) t' (fst (threads (moves t p h u) ! t'))" if "t' < length (threads (moves t p h u))" for t'
    using that assms(1) others own t u unfolding pcs by (cases "t' = t") (auto simp: refs_ok_def)
  have 2: "\<exists>t' < length (threads (moves t p h u)). let_go (fst (threads (moves t p h u) ! t'))"
    if d: "m_bDestroy u" "m_cRef u = 0"
  proof (cases "let_go p")
    case True
    then show ?thesis using t u by (intro exI [of _ t]) simp
  next
    case False
    then obtain t' where "t' < length (threads s)" "let_go (fst (threads s ! t'))"
      using after [OF d] assms(1) by (auto simp: refs_ok_def)
    moreover have "t' \<noteq> t" using after [OF d] False t calculation(2) by auto
    ultimately show ?thesis using u by (intro exI [of _ t']) simp
  qed
  show ?thesis unfolding refs_ok_def using count gone 1 2 H by (auto split: if_splits)
qed

lemma kDyingRef_neg [simp]: "kDyingRef < 0" "\<not> 0 \<le> kDyingRef" "kDyingRef \<noteq> 0"
  by (simp_all add: kDyingRef_def)

lemma dying_simps [simp]:
  "dying (Idle, k) = 0" "dying (Trying v, k) = 0" "dying (Decremented v, k) = 0" "dying (Looked v, k) = 0"
  "dying (Claiming v, k) = 0" "dying (Claimed, k) = 1" "dying (Unlinked, k) = 1"
  by (simp_all add: dying_def)

lemma refs_ok_at: "refs_ok s \<Longrightarrow> t < length (threads s) \<Longrightarrow> threads s ! t = (q, k) \<Longrightarrow> pc_ok s t q"
  unfolding refs_ok_def by (metis fst_conv)

text \<open>A thread that holds a reference sees a count above zero; one that claimed sees the claim.\<close>

lemma holder_counted:
  assumes "refs_ok s" "t < length (threads s)" "threads s ! t = (q, k)" "0 < k"
  shows "m_cRef s = int (holds s)" "1 \<le> m_cRef s" "takers s = 0" "deletes s = 0"
  using assms holds_at [OF assms(2,3)] by (auto simp: refs_ok_def split: if_splits)

lemma claimant_counted:
  assumes "refs_ok s" "t < length (threads s)" "threads s ! t = (q, k)" "dying (q, k) = 1"
  shows "m_cRef s = kDyingRef" "holds s = 0" "takers s = 1" "deletes s = 0" "k = 0"
  using assms takers_at [OF assms(2,3)] holds_at [OF assms(2,3)] by (auto simp: refs_ok_def split: if_splits)

text \<open>The step keeps what the invariant says of the other threads when lock and list do not change.\<close>

lemma pc_ok_same: "owner u = owner s \<Longrightarrow> listed u = listed s \<Longrightarrow> pc_ok s t p \<Longrightarrow> pc_ok u t p"
  by (cases p) auto

lemma refs_ok_calls:
  assumes s: "refs_ok s" and t: "t < length (threads s)" "threads s ! t = (Idle, k)"
  shows "0 < k \<Longrightarrow> refs_ok (AddRef_step t k s)" and "0 < k \<Longrightarrow> refs_ok (Release_decrement t k s)"
    and "holds_hub t s \<Longrightarrow> listed s \<Longrightarrow> refs_ok (TryAddRef_load t k s)"
proof -
  show "refs_ok (AddRef_step t k s)" if "0 < k"
    unfolding AddRef_step_def using holder_counted [OF s t that]
    by (intro refs_ok_moves [OF s t]) (auto intro: pc_ok_same [of _ s])
  show "refs_ok (Release_decrement t k s)" if "0 < k"
    unfolding Release_decrement_def using holder_counted [OF s t that] that
    by (intro refs_ok_moves [OF s t]) (auto intro: pc_ok_same [of _ s])
  show "refs_ok (TryAddRef_load t k s)" if "holds_hub t s" "listed s"
    unfolding TryAddRef_load_def using s that
    by (intro refs_ok_moves [OF s t]) (auto simp: refs_ok_def holds_hub_def split: if_splits)
qed

lemma refs_ok_tails:
  assumes s: "refs_ok s" and t: "t < length (threads s)" "threads s ! t = (q, k)"
  shows "q = Trying v \<Longrightarrow> refs_ok (TryAddRef_exchange b t v k s)" and "q = Decremented v \<Longrightarrow> refs_ok (Release_id t v k s)"
    and "q = Looked v \<Longrightarrow> refs_ok (Release_flag t v k s)" and "q = Claiming v \<Longrightarrow> refs_ok (Release_claim t v k s)"
proof -
  note at = refs_ok_at [OF s t] and s' = s [unfolded refs_ok_def]
  note load = refs_ok_moves [OF s t] and same = pc_ok_same [of _ s]
  show "refs_ok (TryAddRef_exchange b t v k s)" if q: "q = Trying v"
  proof (cases "m_cRef s = v \<and> \<not> b")
    case True
    then show ?thesis
      unfolding TryAddRef_exchange_def if_P [OF True] using s' at q
      by (intro load) (auto intro: same split: if_splits)
  next
    case False
    then show ?thesis
      unfolding TryAddRef_exchange_def if_not_P [OF False] TryAddRef_load_def using s' at q
      by (intro load) (auto intro: same split: if_splits)
  qed
  show "refs_ok (Release_id t v k s)" if "q = Decremented v"
    unfolding Release_id_def Destroy_step_def using s' at that
    by (intro load) (auto intro: same split: if_splits)
  show "refs_ok (Release_flag t v k s)" if "q = Looked v"
    unfolding Release_flag_def using s' at that
    by (intro load) (auto split: if_splits)
  show "refs_ok (Release_claim t v k s)" if q: "q = Claiming v"
  proof (cases "m_cRef s = v")
    case True
    then show ?thesis
      unfolding Release_claim_def if_P [OF True] using s' at q
      by (intro load) (auto intro: same split: if_splits)
  next
    case False
    then show ?thesis
      unfolding Release_claim_def if_not_P [OF False] using s' at q
      by (intro load) (auto intro: same split: if_splits)
  qed
qed

lemma refs_ok_ends:
  assumes s: "refs_ok s" and t: "t < length (threads s)" "threads s ! t = (q, k)"
  shows "q = Claimed \<Longrightarrow> may_enter t s \<Longrightarrow> refs_ok (DropP2PmsgCon t k s)" and "q = Unlinked \<Longrightarrow> refs_ok (delete_this t k s)"
proof -
  note at = refs_ok_at [OF s t]
  show "refs_ok (DropP2PmsgCon t k s)" if q: "q = Claimed" and enter: "may_enter t s"
  proof -
    define u where "u = (if listed s then (Destroy_step s)\<lparr>listed := False, m_nP2PconID := 0\<rparr> else s)"
    have u: "m_cRef u = m_cRef s" "threads u = threads s" "deletes u = deletes s" "\<not> listed u" "owner u = owner s"
      by (simp_all add: u_def Destroy_step_def)
    have others: "pc_ok u t' p'" if "t' \<noteq> t" "pc_ok s t' p'" for t' p'
      using that enter u by (cases p') (auto simp: may_enter_def holds_hub_def)
    show ?thesis
      unfolding DropP2PmsgCon_def u_def [symmetric] using claimant_counted [OF s t] q others u
      by (intro refs_ok_moves [OF s t]) auto
  qed
  show "refs_ok (delete_this t k s)" if "q = Unlinked"
    unfolding delete_this_def using claimant_counted [OF s t] at that
    by (intro refs_ok_moves [OF s t]) (auto intro: pc_ok_same [of _ s])
qed

text \<open>The lock changes hands between calls of its owner only; \<open>Destroy\<close> marks what somebody still holds.\<close>

lemma refs_ok_hub:
  assumes s: "refs_ok s" and t: "t < length (threads s)" "threads s ! t = (Idle, k)"
  shows "owner s = None \<Longrightarrow> refs_ok (s\<lparr>owner := Some t\<rparr>)" and "holds_hub t s \<Longrightarrow> refs_ok (s\<lparr>owner := None\<rparr>)"
    and "0 < k \<Longrightarrow> refs_ok (Destroy_step s)"
proof -
  have 1: "pc_ok (s\<lparr>owner := w\<rparr>) t' p'"
    if "pc_ok s t' p'" "owner s = None \<or> owner s = Some t \<and> (t' = t \<longrightarrow> p' = Idle)" for t' p' w
    using that by (cases p') auto
  have sums: "holds (s\<lparr>owner := w\<rparr>) = holds s" "takers (s\<lparr>owner := w\<rparr>) = takers s" "holds (Destroy_step s) = holds s"
      "takers (Destroy_step s) = takers s" for w
    by (simp_all add: holds_def takers_def Destroy_step_def)
  show "refs_ok (s\<lparr>owner := Some t\<rparr>)" if "owner s = None"
    unfolding refs_ok_def sums using s 1 that by (simp add: refs_ok_def)
  show "refs_ok (s\<lparr>owner := None\<rparr>)" if "holds_hub t s"
    unfolding refs_ok_def sums using s 1 that t by (auto simp: refs_ok_def holds_hub_def)
  show "refs_ok (Destroy_step s)" if "0 < k"
    unfolding refs_ok_def sums using s holder_counted [OF s t that] pc_ok_same [of "Destroy_step s" s]
    by (simp add: refs_ok_def Destroy_step_def)
qed

lemma refs_ok_continues:
  assumes "refs_ok s" "t < length (threads s)" "threads s ! t = (q, k)" "continues b t q k s = Some s'"
  shows "refs_ok s'"
  using assms(4) refs_ok_tails [OF assms(1-3)] refs_ok_ends [OF assms(1-3)]
  by (cases q) (auto split: if_splits)

lemma refs_ok_begins:
  assumes "refs_ok s" "t < length (threads s)" "threads s ! t = (Idle, k)" "begins a t k s = Some s'" "a \<noteq> PinListed"
  shows "refs_ok s'"
  using assms(4,5) refs_ok_calls [OF assms(1-3)] refs_ok_hub [OF assms(1-3)]
  by (cases a) (auto split: if_splits)

lemma refs_ok_exec:
  assumes "refs_ok s" "exec t a s = Some s'" "a \<noteq> PinListed"
  shows "refs_ok s'"
proof -
  obtain q k where t: "t < length (threads s)" "threads s ! t = (q, k)"
    using assms(2) by (cases "threads s ! t") (auto simp: exec_def split: if_splits)
  then have "(\<exists>b. continues b t q k s = Some s') \<or> q = Idle \<and> begins a t k s = Some s'"
    using assms(2) by (cases a) (auto simp: exec_def simp del: begins.simps continues.simps split: if_splits)
  then show ?thesis
    using refs_ok_continues [OF assms(1) t] refs_ok_begins [OF assms(1) t(1)] assms(3) t(2) by auto
qed

lemma takers_none:
  assumes "\<And>t. t < length (threads s) \<Longrightarrow> fst (threads s ! t) = Idle"
  shows "takers s = 0"
proof -
  have "map dying (threads s) = replicate (length (threads s)) 0"
    using assms by (intro nth_equalityI) (auto simp: dying_def)
  then show ?thesis by (simp add: takers_def)
qed

lemma refs_ok_rest: "at_rest s \<Longrightarrow> refs_ok s"
  using takers_none [of s] by (auto simp: at_rest_def refs_ok_def list_all_length)

lemma refs_ok_reached: "reached s\<^sub>0 s \<Longrightarrow> refs_ok s"
  by (induction rule: reached.induct) (auto intro: refs_ok_rest refs_ok_exec)

section \<open>A connection is deleted once, when nobody holds it\<close>

fun touches :: "pc \<Rightarrow> bool" where
  "touches Idle = False"
| "touches _ = True"

lemma takers_zero:
  assumes "takers s = 0" "t < length (threads s)"
  shows "dying (threads s ! t) = 0"
  using assms sum_list_moves [of t "threads s" dying "(Idle, 0)"] by (simp add: takers_def)

lemma let_go_or_taker: "pc_ok s t p \<Longrightarrow> \<not> listed s \<Longrightarrow> touches p \<Longrightarrow> let_go p \<or> dying (p, h) = 1"
  by (cases p) auto

text \<open>
  C13: references from the list taken with \<open>TryAddRef\<close>, a connection is deleted at most once, and then nobody holds a
  reference to it, it is in no list and its count reads as dying; a thread that has yet to look at it is in the
  tail of a \<open>Release\<close> that brought the count to zero.
\<close>
theorem deleted_once_unheld:
  assumes "reached s\<^sub>0 s"
  shows "deletes s \<le> 1 \<and> (0 < deletes s \<longrightarrow> holds s = 0 \<and> \<not> listed s \<and> m_cRef s = kDyingRef
    \<and> (\<forall>t < length (threads s). touches (fst (threads s ! t)) \<longrightarrow> let_go (fst (threads s ! t))))"
proof -
  note s = refs_ok_reached [OF assms, unfolded refs_ok_def]
  have "let_go (fst (threads s ! t))"
    if "0 < deletes s" "t < length (threads s)" "touches (fst (threads s ! t))" for t
  proof -
    have "takers s = 0" using s that(1) by (auto split: if_splits)
    then have "dying (threads s ! t) = 0" using takers_zero that(2) by blast
    then show ?thesis
      using let_go_or_taker [of s t "fst (threads s ! t)" "snd (threads s ! t)"] s that by auto
  qed
  then show ?thesis using s by (auto split: if_splits)
qed

text \<open>Two threads hold one reference each to a listed connection; one of them walks the list as well.\<close>

definition example_refs :: refs where
  "example_refs = \<lparr>m_cRef = 1, m_bDestroy = False, m_nP2PconID = 7, listed = True, owner = None, deletes = 0,
    threads = [(Idle, 1), (Idle, 0)]\<rparr>"

lemma reached_execs:
  "reached s\<^sub>0 s \<Longrightarrow> execs as s = Some s' \<Longrightarrow> list_all (\<lambda>x. snd x \<noteq> PinListed) as \<Longrightarrow> reached s\<^sub>0 s'"
proof (induction as arbitrary: s)
  case (Cons x as)
  then show ?case by (cases x) (auto split: option.splits intro: reached_step)
qed simp

definition tail_of :: "nat \<Rightarrow> (nat \<times> act) list" where
  "tail_of t = replicate 5 (t, Continue False)"

definition overtaken :: "(nat \<times> act) list" where
  "overtaken = [(0, CallDestroy), (0, CallRelease), (1, EnterHub), (1, CallTryAddRef), (1, Continue False), (1, LeaveHub),
    (1, CallRelease)] @ tail_of 0"

lemmas run_defs = exec_def holds_hub_def may_enter_def moves_def AddRef_step_def Destroy_step_def TryAddRef_load_def
  TryAddRef_exchange_def Release_decrement_def Release_id_def Release_flag_def Release_claim_def DropP2PmsgCon_def delete_this_def

lemma example_at_rest: "at_rest example_refs"
  by (simp add: at_rest_def example_refs_def holds_def)

lemma overtaken_runs:
  "execs overtaken example_refs = Some \<lparr>m_cRef = kDyingRef, m_bDestroy = True, m_nP2PconID = 0, listed = False, owner = None,
    deletes = 1, threads = [(Idle, 0), (Decremented 0, 0)]\<rparr>"
  by (simp add: overtaken_def tail_of_def example_refs_def numeral_eq_Suc run_defs)

lemma overtaken_reached:
  "reached example_refs \<lparr>m_cRef = kDyingRef, m_bDestroy = True, m_nP2PconID = 0, listed = False, owner = None,
    deletes = 1, threads = [(Idle, 0), (Decremented 0, 0)]\<rparr>"
  by (rule reached_execs [OF reached_refl [OF example_at_rest] overtaken_runs]) (simp add: overtaken_def tail_of_def numeral_eq_Suc)

lemma deleted_once_unheld_witness:
  "holds \<lparr>m_cRef = kDyingRef, m_bDestroy = True, m_nP2PconID = 0, listed = False, owner = None, deletes = 1,
    threads = [(Idle, 0), (Decremented 0, 0)]\<rparr> = 0"
  using deleted_once_unheld [OF overtaken_reached] by simp

text \<open>
  a thread may look at a connection that another has deleted: the count rests at zero between the decrement of
  one \<open>Release\<close> and its claim, a walk of the list takes a reference and lets it go in between, and both
  calls of \<open>Release\<close> brought the count to zero; the first to claim deletes, the other goes on to read \<open>m_nP2PconID\<close>.
\<close>
theorem released_after_free:
  "\<exists>s. reached example_refs s \<and> deletes s = 1 \<and> holds s = 0 \<and> fst (threads s ! 1) = Decremented 0"
  by (rule exI, rule conjI, rule overtaken_reached) (simp add: holds_def)

text \<open>
  The walk of \<open>CloseP2PmsgHub\<close> calls \<open>AddRef\<close> on what it finds in the list, also on a connection whose last
  reference another thread has let go of and claimed: its pin makes the count dying plus one, letting go of it makes
  the count dying, the claim of that \<open>Release\<close> finds what it expects, and both threads delete the connection.
\<close>
definition pinned_dying :: "(nat \<times> act) list" where
  "pinned_dying = [(0, CallDestroy), (0, CallRelease), (0, Continue False), (0, Continue False), (1, EnterHub),
    (0, Continue False), (1, PinListed), (1, CallDestroy), (1, CallRelease)] @ tail_of 1
    @ [(1, LeaveHub), (0, Continue False), (0, Continue False)]"

theorem pinned_connection_deleted_twice:
  "map_option deletes (execs pinned_dying example_refs) = Some 2"
  by (simp add: pinned_dying_def tail_of_def example_refs_def numeral_eq_Suc run_defs kDyingRef_def)

section \<open>What was marked and let go of is deleted\<close>

text \<open>A thread in the tail of \<open>Release\<close> runs it to the end when nothing overtakes it.\<close>

fun rest :: "pc \<Rightarrow> nat" where
  "rest Unlinked = 1"
| "rest Claimed = 2"
| "rest (Claiming v) = 3"
| "rest (Looked v) = 4"
| "rest (Decremented v) = 5"
| "rest _ = 0"

lemma exec_Continue:
  "t < length (threads s) \<Longrightarrow> threads s ! t = (q, k) \<Longrightarrow> exec t (Continue b) s = continues b t q k s"
  by (simp add: exec_def)

lemma tail_deletes:
  assumes "t < length (threads s)" "threads s ! t = (q, k)" "owner s = None" "deletes s = 0"
    and "dying (q, k) = 1 \<or> let_go q \<and> m_cRef s = 0 \<and> m_bDestroy s"
  shows "\<exists>s'. execs (replicate (rest q) (t, Continue False)) s = Some s' \<and> deletes s' = 1"
proof -
  have U: "\<exists>s'. execs [(t, Continue False)] s = Some s' \<and> deletes s' = 1"
    if "t < length (threads s)" "threads s ! t = (Unlinked, k)" "deletes s = 0" for s
    using that by (simp add: exec_Continue delete_this_def)
  have C: "\<exists>s'. execs (replicate 2 (t, Continue False)) s = Some s' \<and> deletes s' = 1"
    if "t < length (threads s)" "threads s ! t = (Claimed, k)" "deletes s = 0" "owner s = None" for s
    using that U [of "DropP2PmsgCon t k s"]
    by (simp add: exec_Continue numeral_eq_Suc DropP2PmsgCon_def may_enter_def Destroy_step_def)
  have G: "\<exists>s'. execs (replicate 3 (t, Continue False)) s = Some s' \<and> deletes s' = 1"
    if "t < length (threads s)" "threads s ! t = (Claiming 0, k)" "deletes s = 0" "owner s = None" "m_cRef s = 0" for s
    using that C [of "Release_claim t 0 k s"]
    by (simp add: exec_Continue numeral_eq_Suc Release_claim_def)
  have L: "\<exists>s'. execs (replicate 4 (t, Continue False)) s = Some s' \<and> deletes s' = 1"
    if "t < length (threads s)" "threads s ! t = (Looked 0, k)" "deletes s = 0" "owner s = None" "m_cRef s = 0"
      "m_bDestroy s" for s
    using that G [of "Release_flag t 0 k s"]
    by (simp add: exec_Continue numeral_eq_Suc Release_flag_def)
  have D: "\<exists>s'. execs (replicate 5 (t, Continue False)) s = Some s' \<and> deletes s' = 1"
    if "t < length (threads s)" "threads s ! t = (Decremented 0, k)" "deletes s = 0" "owner s = None" "m_cRef s = 0"
      "m_bDestroy s" for s
    using that L [of "Release_id t 0 k s"]
    by (simp add: exec_Continue numeral_eq_Suc Release_id_def Destroy_step_def)
  show ?thesis
    using assms U C G L D by (cases q) (auto simp: dying_def)
qed

lemma taker_exists:
  assumes "takers s \<noteq> 0"
  shows "\<exists>t < length (threads s). dying (threads s ! t) = 1"
proof (rule ccontr)
  assume "\<not> ?thesis"
  moreover have "dying x = 0 \<or> dying x = 1" for x by (simp add: dying_def)
  ultimately have "\<forall>x \<in> set (threads s). dying x = 0" by (metis in_set_conv_nth)
  then show False using assms by (simp add: takers_def)
qed

text \<open>
  C14: a connection that was marked and that nobody holds has been deleted, or a thread is in its last \<open>Release\<close> and
  deletes it when it runs on; so no connection is left over once every thread has returned.
\<close>
theorem marked_connection_is_deleted:
  assumes "reached s\<^sub>0 s" "m_bDestroy s" "holds s = 0" "owner s = None"
  shows "deletes s = 1 \<or> (\<exists>t s'. t < length (threads s) \<and> touches (fst (threads s ! t))
    \<and> execs (replicate (rest (fst (threads s ! t))) (t, Continue False)) s = Some s' \<and> deletes s' = 1)"
proof (cases "deletes s = 0")
  case True
  note s = refs_ok_reached [OF assms(1), unfolded refs_ok_def]
  have "\<exists>t < length (threads s). dying (threads s ! t) = 1 \<or> let_go (fst (threads s ! t)) \<and> m_cRef s = 0"
    using s True assms taker_exists [of s] by (auto split: if_splits)
  then obtain t where t: "t < length (threads s)" "dying (threads s ! t) = 1 \<or> let_go (fst (threads s ! t)) \<and> m_cRef s = 0"
    by blast
  obtain q k where q: "threads s ! t = (q, k)" by (cases "threads s ! t")
  have "touches q" using t(2) q by (cases q) (auto simp: dying_def)
  then show ?thesis
    using tail_deletes [OF t(1) q assms(4) True] t q assms(2) by (intro disjI2 exI [of _ t]) auto
next
  case False
  then show ?thesis using refs_ok_reached [OF assms(1)] by (auto simp: refs_ok_def split: if_splits)
qed

definition let_go_run :: "(nat \<times> act) list" where
  "let_go_run = [(0, CallDestroy), (0, CallRelease)]"

lemma let_go_runs:
  "execs let_go_run example_refs = Some (example_refs\<lparr>m_cRef := 0, m_bDestroy := True, threads := [(Decremented 0, 0), (Idle, 0)]\<rparr>)"
  by (simp add: let_go_run_def example_refs_def run_defs)

lemma let_go_reached:
  "reached example_refs (example_refs\<lparr>m_cRef := 0, m_bDestroy := True, threads := [(Decremented 0, 0), (Idle, 0)]\<rparr>)"
  by (rule reached_execs [OF reached_refl [OF example_at_rest] let_go_runs]) (simp add: let_go_run_def)

lemma marked_connection_is_deleted_witness:
  "\<exists>t s'. execs (replicate 5 (t, Continue False))
    (example_refs\<lparr>m_cRef := 0, m_bDestroy := True, threads := [(Decremented 0, 0), (Idle, 0)]\<rparr>) = Some s' \<and> deletes s' = 1"
  using marked_connection_is_deleted [OF let_go_reached]
  by (fastforce simp: holds_def example_refs_def less_Suc_eq)

end
