(* ===== verification/ConIo.thy ===== *)
theory ConIo
  imports Targetcore_Prelude "HOL-Library.Monad_Syntax"
begin

text \<open>
  The overlapped operations of connections (P2PeerCon.cpp), their completion on the pump (P2Pwin32.cpp) and the
  closing of a hub that drains its port.

  Connections and \<open>OVERLAPPEDcon\<close> objects are cells of a store, so that the life of each shows: an access to a cell
  that was deleted has no result.  An operation the transport or the port still has is one whose \<open>bQueued\<close> is set;
  it holds a reference to its connection.  The steps are those of one thread; ConRefs is about several.  Contents
  of buffers, the receive loop (ConFlow) and the gates of a sent message (ConGates) are left to those theories:
  what they decide here is an argument, as is whether posting to the port succeeds.  Assertions are comments of
  the code: they are not part of what runs.
\<close>

type_synonym addr = nat

datatype member = SendOv | RecvOv | ConnectOv | AcceptOv

record ovl =
  bQueued :: bool
  bParked :: bool
  bDelete :: bool
  bRecvSubmitted :: bool
  hr :: "32 word"
  nSigID :: nat
  dwBytesMax :: nat
  pBuffer :: bool
  pOwnerCon :: addr

text \<open>\<open>m_pOVERLAPPED\<close>: the four pointers a connection has to its own objects; \<open>m_nP2PconID\<close> is zero unless listed.\<close>

record tcon =
  m_cRef :: int
  m_bDestroy :: bool
  m_nP2PconID :: nat
  m_hFile :: bool
  m_hFileCPort :: bool
  m_hCPort :: bool
  m_pOVERLAPPED :: "member \<Rightarrow> addr option"
  m_pP2PeerMsgSend :: bool
  close_on_idle :: bool
  m_pEvent :: bool

text \<open>What the port hands out: the wake packet of the pump, or an operation with its key, which may be missing.\<close>

datatype packet = Wake | Packet "addr option" addr

datatype notif = P2P_Accept | P2P_Connect | P2P_Login | P2P_LoginAck | P2P_Close | P2P_Shutdown

record io =
  ovs :: "addr \<Rightarrow> ovl option"
  cons :: "addr \<Rightarrow> tcon option"
  fresh :: addr
  port :: "packet list"
  m_oCListP2PmsgCon :: "addr list"
  noted :: "(addr \<times> notif) list"

definition on_con :: "addr \<Rightarrow> (tcon \<Rightarrow> tcon) \<Rightarrow> io \<Rightarrow> io option" where
  "on_con c f w = (case cons w c of None \<Rightarrow> None | Some x \<Rightarrow> Some (w\<lparr>cons := (cons w)(c \<mapsto> f x)\<rparr>))"

definition on_ov :: "addr \<Rightarrow> (ovl \<Rightarrow> ovl) \<Rightarrow> io \<Rightarrow> io option" where
  "on_ov v f w = (case ovs w v of None \<Rightarrow> None | Some x \<Rightarrow> Some (w\<lparr>ovs := (ovs w)(v \<mapsto> f x)\<rparr>))"

section \<open>Objects and references\<close>

definition MakeOVERLAPPED :: "addr \<Rightarrow> nat \<Rightarrow> io \<Rightarrow> addr \<times> io" where
  "MakeOVERLAPPED c n w = (fresh w, w\<lparr>fresh := Suc (fresh w), ovs := (ovs w)(fresh w \<mapsto>
    \<lparr>bQueued = False, bParked = False, bDelete = False, bRecvSubmitted = False, hr = 0, nSigID = 0, dwBytesMax = n,
     pBuffer = 0 < n, pOwnerCon = c\<rparr>)\<rparr>)"

definition forget :: "addr \<Rightarrow> (member \<Rightarrow> addr option) \<Rightarrow> member \<Rightarrow> addr option" where
  "forget v m =
    (if m SendOv = Some v then m(SendOv := None)
     else if m RecvOv = Some v then m(RecvOv := None)
     else if m ConnectOv = Some v then m(ConnectOv := None)
     else if m AcceptOv = Some v then m(AcceptOv := None)
     else m)"

definition DropOVERLAPPED :: "addr \<Rightarrow> addr \<Rightarrow> io \<Rightarrow> io option" where
  "DropOVERLAPPED c v w = do {
     w \<leftarrow> on_con c (\<lambda>x. x\<lparr>m_pOVERLAPPED := forget v (m_pOVERLAPPED x)\<rparr>) w;
     w \<leftarrow> on_ov v id w;
     Some (w\<lparr>ovs := (ovs w)(v := None)\<rparr>) }"

text \<open>The objects a connection still has when it goes: reclaimed by its destructor, whatever their state.\<close>

definition drop_member :: "addr \<Rightarrow> member \<Rightarrow> io \<Rightarrow> io option" where
  "drop_member c k w = do {
     x \<leftarrow> cons w c;
     case m_pOVERLAPPED x k of None \<Rightarrow> Some w | Some v \<Rightarrow> DropOVERLAPPED c v w }"

definition delete_con :: "addr \<Rightarrow> io \<Rightarrow> io option" where
  "delete_con c w = do {
     w \<leftarrow> drop_member c SendOv w;
     w \<leftarrow> drop_member c RecvOv w;
     w \<leftarrow> drop_member c AcceptOv w;
     w \<leftarrow> drop_member c ConnectOv w;
     Some (w\<lparr>cons := (cons w)(c := None), m_oCListP2PmsgCon := removeAll c (m_oCListP2PmsgCon w)\<rparr>) }"

definition AddRef :: "addr \<Rightarrow> io \<Rightarrow> io option" where
  "AddRef c = on_con c (\<lambda>x. x\<lparr>m_cRef := m_cRef x + 1\<rparr>)"

definition Destroy :: "addr \<Rightarrow> io \<Rightarrow> io option" where
  "Destroy c = on_con c (\<lambda>x. x\<lparr>m_bDestroy := True\<rparr>)"

definition Release :: "addr \<Rightarrow> io \<Rightarrow> io option" where
  "Release c w = do {
     x \<leftarrow> cons w c;
     let r = m_cRef x - 1;
     let x = x\<lparr>m_cRef := r, m_bDestroy := m_bDestroy x \<or> (r \<le> 0 \<and> m_nP2PconID x = 0)\<rparr>;
     let w = w\<lparr>cons := (cons w)(c \<mapsto> x)\<rparr>;
     if r \<le> 0 \<and> m_bDestroy x then delete_con c w else Some w }"

definition prepareOVERLAPPED :: "addr \<Rightarrow> addr \<Rightarrow> io \<Rightarrow> io option" where
  "prepareOVERLAPPED c v w = do { w \<leftarrow> on_ov v (\<lambda>x. x\<lparr>bQueued := True, hr := 0\<rparr>) w; AddRef c w }"

definition releaseOVERLAPPED :: "addr \<Rightarrow> addr \<Rightarrow> io \<Rightarrow> io option" where
  "releaseOVERLAPPED c v w = do { w \<leftarrow> on_ov v (\<lambda>x. x\<lparr>bQueued := False\<rparr>) w; Release c w }"

definition is_member :: "addr \<Rightarrow> tcon \<Rightarrow> bool" where
  "is_member v x \<longleftrightarrow> m_pOVERLAPPED x SendOv = Some v \<or> m_pOVERLAPPED x RecvOv = Some v
    \<or> m_pOVERLAPPED x AcceptOv = Some v \<or> m_pOVERLAPPED x ConnectOv = Some v"

definition DrainOVERLAPPED :: "addr \<Rightarrow> addr \<Rightarrow> io \<Rightarrow> io option" where
  "DrainOVERLAPPED c v w = do {
     o1 \<leftarrow> ovs w v;
     if \<not> bQueued o1 then Some w
     else do {
       x \<leftarrow> cons w c;
       w \<leftarrow> on_ov v (\<lambda>x. x\<lparr>bQueued := False, bRecvSubmitted := False\<rparr>) w;
       w \<leftarrow> (if is_member v x then Some w else DropOVERLAPPED c v w);
       Release c w } }"

definition queued_member :: "io \<Rightarrow> tcon \<Rightarrow> member \<Rightarrow> bool option" where
  "queued_member w x k = (case m_pOVERLAPPED x k of None \<Rightarrow> Some False | Some v \<Rightarrow> map_option bQueued (ovs w v))"

definition HasQueuedOVERLAPPED :: "addr \<Rightarrow> io \<Rightarrow> bool option" where
  "HasQueuedOVERLAPPED c w = do {
     x \<leftarrow> cons w c;
     s \<leftarrow> queued_member w x SendOv;
     if s then Some True else do {
     s \<leftarrow> queued_member w x RecvOv;
     if s then Some True else do {
     s \<leftarrow> queued_member w x AcceptOv;
     if s then Some True else queued_member w x ConnectOv } } }"

section \<open>Posting and dropping\<close>

text \<open>A notification holds a reference to its connection until the pump is done with it.\<close>

definition PostP2Pmsg :: "addr \<Rightarrow> notif \<Rightarrow> io \<Rightarrow> io option" where
  "PostP2Pmsg c n w = do { w \<leftarrow> AddRef c w; Some (w\<lparr>noted := noted w @ [(c, n)]\<rparr>) }"

fun post_all :: "addr \<Rightarrow> notif list \<Rightarrow> io \<Rightarrow> io option" where
  "post_all c [] w = Some w"
| "post_all c (n # ns) w = do { w \<leftarrow> PostP2Pmsg c n w; post_all c ns w }"

text \<open>The pump at the next notification: its handlers, an argument here, run under the reference it gives back.\<close>

definition finish_note :: "io \<Rightarrow> io option" where
  "finish_note w = (case noted w of [] \<Rightarrow> Some w | (c, n) # ns \<Rightarrow> Release c (w\<lparr>noted := ns\<rparr>))"

text \<open>
  \<open>posted\<close>: whether \<open>PostQueuedCompletionStatus\<close> succeeds.  The first component of what these operations answer is
  whether they throw.
\<close>

definition hand_over :: "bool \<Rightarrow> addr \<Rightarrow> addr \<Rightarrow> io \<Rightarrow> (bool \<times> io) option" where
  "hand_over posted c v w =
    (if posted then Some (False, w\<lparr>port := port w @ [Packet (Some c) v]\<rparr>)
     else do { w \<leftarrow> releaseOVERLAPPED c v w; Some (True, w) })"

definition PostOVERLAPPED :: "bool \<Rightarrow> addr \<Rightarrow> addr \<Rightarrow> 32 word \<Rightarrow> io \<Rightarrow> (bool \<times> io) option" where
  "PostOVERLAPPED posted c v h w = do {
     o1 \<leftarrow> ovs w v;
     if bQueued o1 \<or> (0 < dwBytesMax o1 \<and> \<not> pBuffer o1) then Some (True, w)
     else do {
       w \<leftarrow> prepareOVERLAPPED c v w;
       w \<leftarrow> on_ov v (\<lambda>x. x\<lparr>hr := h\<rparr>) w;
       hand_over posted c v w } }"

definition RearmRecv :: "bool \<Rightarrow> addr \<Rightarrow> io \<Rightarrow> (bool \<times> io) option" where
  "RearmRecv posted c w = do {
     x \<leftarrow> cons w c;
     case m_pOVERLAPPED x RecvOv of None \<Rightarrow> Some (False, w)
     | Some v \<Rightarrow> do {
         o1 \<leftarrow> ovs w v;
         if bQueued o1 \<or> bParked o1 \<or> bDelete o1 \<or> \<not> m_hCPort x then Some (False, w)
         else do { w \<leftarrow> prepareOVERLAPPED c v w; hand_over posted c v w } } }"

definition P2PsigCon_CLOSE :: nat where "P2PsigCon_CLOSE = 1"
definition P2PsigCon_MSG :: nat where "P2PsigCon_MSG = 2"
definition P2PsigCon_DESTROY :: nat where "P2PsigCon_DESTROY = 3"
definition P2PsigCon_SHUTDOWN :: nat where "P2PsigCon_SHUTDOWN = 4"
definition P2PsigCon_CLOSEONIDLE :: nat where "P2PsigCon_CLOSEONIDLE = 5"
definition P2PsigCon_RECV :: nat where "P2PsigCon_RECV = 6"
definition P2PsigIO_ACK :: nat where "P2PsigIO_ACK = 7"
definition P2PsigCon_WAKEUP :: nat where "P2PsigCon_WAKEUP = 9"

definition Signal :: "bool \<Rightarrow> addr \<Rightarrow> nat \<Rightarrow> nat \<Rightarrow> io \<Rightarrow> (bool \<times> io) option" where
  "Signal posted c sig iDataSize w =
    (if sig = P2PsigCon_RECV then RearmRecv posted c w
     else do {
       let (v, w) = MakeOVERLAPPED c iDataSize w;
       w \<leftarrow> on_ov v (\<lambda>x. x\<lparr>nSigID := sig\<rparr>) w;
       w \<leftarrow> prepareOVERLAPPED c v w;
       (failed, w) \<leftarrow> hand_over posted c v w;
       w \<leftarrow> (if failed then DropOVERLAPPED c v w else Some w);
       Some (failed, w) })"

text \<open>
  \<open>Drop\<close>: objects that are not under way are reclaimed, the handle is closed, which cancels what is, and a close is
  posted unless an event was latched, the connection is being destroyed or the pump is at its close already.
\<close>

definition reclaim :: "addr \<Rightarrow> member \<Rightarrow> io \<Rightarrow> io option" where
  "reclaim c k w = do {
     x \<leftarrow> cons w c;
     case m_pOVERLAPPED x k of None \<Rightarrow> Some w
     | Some v \<Rightarrow> do { o1 \<leftarrow> ovs w v; if bQueued o1 then Some w else DropOVERLAPPED c v w } }"

definition Drop :: "bool \<Rightarrow> bool \<Rightarrow> addr \<Rightarrow> io \<Rightarrow> io option" where
  "Drop bEvent at_close c w = do {
     w \<leftarrow> on_con c (\<lambda>x. x\<lparr>close_on_idle := False\<rparr>) w;
     w \<leftarrow> reclaim c AcceptOv w;
     w \<leftarrow> reclaim c ConnectOv w;
     w \<leftarrow> reclaim c SendOv w;
     w \<leftarrow> reclaim c RecvOv w;
     x \<leftarrow> cons w c;
     w \<leftarrow> on_con c (\<lambda>x. x\<lparr>m_pEvent := m_pEvent x \<or> bEvent \<or> m_hFile x, m_hFile := False, m_hFileCPort := False\<rparr>) w;
     if \<not> m_pEvent x \<and> \<not> (m_bDestroy x \<or> m_cRef x \<le> 0) \<and> \<not> at_close then PostP2Pmsg c P2P_Close w else Some w }"

section \<open>Completions\<close>

text \<open>
  What the parts of the connection that are not modelled here decide at a completion: \<open>eof\<close>, the completion carries no
  byte and the transport takes that for an orderly close; \<open>arrived\<close>, the login notifications the received messages
  give; \<open>refused\<close>, a gate throws; \<open>again\<close>, the receive loop issues another read or the send half another message;
  \<open>held\<close>, a message waits for the login; \<open>max_recv\<close>, the size of the framing's buffer; \<open>at_close\<close>, the pump is at a close already.
\<close>

record verdict =
  eof :: bool
  arrived :: "notif list"
  refused :: bool
  again :: bool
  held :: bool
  max_recv :: nat
  at_close :: bool

definition ERROR_HANDLE_EOF :: "32 word" where "ERROR_HANDLE_EOF = 38"

text \<open>An operation that failed after the connection lost its port is a cancelled one, and its object goes.\<close>

definition settle :: "32 word \<Rightarrow> addr \<Rightarrow> addr \<Rightarrow> (io \<Rightarrow> (bool \<times> io) option) \<Rightarrow> io \<Rightarrow> (bool \<times> io) option" where
  "settle h c v ok w = do {
     w \<leftarrow> releaseOVERLAPPED c v w;
     x \<leftarrow> cons w c;
     if h = 0 \<and> m_hFileCPort x then ok w
     else if h \<noteq> 0 \<and> m_hFileCPort x then Some (True, w)
     else do { w \<leftarrow> DropOVERLAPPED c v w; Some (False, w) } }"

definition received :: "verdict \<Rightarrow> addr \<Rightarrow> addr \<Rightarrow> io \<Rightarrow> (bool \<times> io) option" where
  "received d c v w = do {
     w \<leftarrow> post_all c (arrived d) w;
     if refused d then Some (True, w)
     else if again d then do {
       w \<leftarrow> prepareOVERLAPPED c v w;
       w \<leftarrow> on_ov v (\<lambda>x. x\<lparr>bRecvSubmitted := True\<rparr>) w;
       Some (False, w) }
     else Some (False, w) }"

definition sent :: "verdict \<Rightarrow> addr \<Rightarrow> addr \<Rightarrow> io \<Rightarrow> (bool \<times> io) option" where
  "sent d c v w = do {
     w \<leftarrow> on_con c (\<lambda>x. x\<lparr>m_pP2PeerMsgSend := again d\<rparr>) w;
     x \<leftarrow> cons w c;
     if again d then do { w \<leftarrow> prepareOVERLAPPED c v w; Some (False, w) }
     else if \<not> held d \<and> close_on_idle x then do { w \<leftarrow> Drop False (at_close d) c w; Some (False, w) }
     else Some (False, w) }"

definition accept_done :: "addr \<Rightarrow> io \<Rightarrow> (bool \<times> io) option" where
  "accept_done c w = do { w \<leftarrow> PostP2Pmsg c P2P_Accept w; Some (False, w) }"

definition make_member :: "addr \<Rightarrow> member \<Rightarrow> nat \<Rightarrow> io \<Rightarrow> io option" where
  "make_member c k n w = do {
     x \<leftarrow> cons w c;
     if m_pOVERLAPPED x k \<noteq> None then Some w
     else do {
       let (v, w) = MakeOVERLAPPED c n w;
       on_con c (\<lambda>x. x\<lparr>m_pOVERLAPPED := (m_pOVERLAPPED x)(k := Some v)\<rparr>) w } }"

definition connected :: "verdict \<Rightarrow> addr \<Rightarrow> io \<Rightarrow> (bool \<times> io) option" where
  "connected d c w = do {
     w \<leftarrow> make_member c SendOv 0 w;
     w \<leftarrow> make_member c RecvOv (max_recv d) w;
     w \<leftarrow> PostP2Pmsg c P2P_Connect w;
     Some (False, w) }"

text \<open>The objects of signals are used once.\<close>

definition signalled :: "nat \<Rightarrow> verdict \<Rightarrow> addr \<Rightarrow> io \<Rightarrow> (bool \<times> io) option" where
  "signalled sig d c w =
    (if sig = P2PsigCon_MSG then do { w \<leftarrow> post_all c (arrived d) w; Some (refused d, w) }
     else if sig = P2PsigCon_CLOSE then do { w \<leftarrow> Drop False (at_close d) c w; Some (False, w) }
     else if sig = P2PsigCon_CLOSEONIDLE then do {
       w \<leftarrow> on_con c (\<lambda>x. x\<lparr>close_on_idle := True\<rparr>) w;
       x \<leftarrow> cons w c;
       if m_pP2PeerMsgSend x then Some (False, w) else do { w \<leftarrow> Drop False (at_close d) c w; Some (False, w) } }
     else if sig = P2PsigCon_WAKEUP then do { w \<leftarrow> on_con c (\<lambda>x. x\<lparr>close_on_idle := False\<rparr>) w; Some (False, w) }
     else do {
       w \<leftarrow> Destroy c w;
       x \<leftarrow> cons w c;
       w \<leftarrow> PostP2Pmsg c (if m_hFile x then P2P_Close else P2P_Shutdown) w;
       Some (False, w) })"

definition signals :: "nat set" where
  "signals = {P2PsigCon_MSG, P2PsigCon_CLOSE, P2PsigCon_CLOSEONIDLE, P2PsigCon_WAKEUP, P2PsigCon_SHUTDOWN, P2PsigCon_DESTROY}"

text \<open>The framing takes the completion of an acknowledgement, whose object it may keep.\<close>

definition acknowledged :: "bool \<Rightarrow> addr \<Rightarrow> addr \<Rightarrow> io \<Rightarrow> (bool \<times> io) option" where
  "acknowledged deletes c v w = do {
     w \<leftarrow> releaseOVERLAPPED c v w;
     w \<leftarrow> (if deletes then DropOVERLAPPED c v w else Some w);
     Some (False, w) }"

definition On_QueuedCompletionStatus :: "32 word \<Rightarrow> verdict \<Rightarrow> addr \<Rightarrow> addr \<Rightarrow> io \<Rightarrow> (bool \<times> io) option" where
  "On_QueuedCompletionStatus dwError d c v w = do {
     x \<leftarrow> cons w c;
     o1 \<leftarrow> ovs w v;
     let h = (if dwError = 0 then hr o1 else dwError);
     if m_pOVERLAPPED x RecvOv = Some v then do {
       w \<leftarrow> on_ov v (\<lambda>x. x\<lparr>bRecvSubmitted := False\<rparr>) w;
       settle (if h = 0 \<and> eof d \<and> bRecvSubmitted o1 then ERROR_HANDLE_EOF else h) c v (received d c v) w }
     else if m_pOVERLAPPED x SendOv = Some v then settle h c v (sent d c v) w
     else if m_pOVERLAPPED x AcceptOv = Some v then settle h c v (accept_done c) w
     else if m_pOVERLAPPED x ConnectOv = Some v then settle h c v (connected d c) w
     else if nSigID o1 \<in> signals then do {
       w \<leftarrow> releaseOVERLAPPED c v w;
       w \<leftarrow> DropOVERLAPPED c v w;
       signalled (nSigID o1) d c w }
     else if nSigID o1 = P2PsigIO_ACK then acknowledged (bDelete o1) c v w
     else do {
       w \<leftarrow> releaseOVERLAPPED c v w;
       w \<leftarrow> DropOVERLAPPED c v w;
       Some (True, w) } }"

text \<open>
  The pump at a packet: its own reference covers the handler and, should that throw, the drop.  A packet without a key is
  none it can attribute: the operation stays under way, whatever the pump then reports.
\<close>

definition pump_packet :: "32 word \<Rightarrow> verdict \<Rightarrow> packet \<Rightarrow> io \<Rightarrow> io option" where
  "pump_packet dwError d p w =
    (case p of Packet (Some c) v \<Rightarrow> do {
        w \<leftarrow> AddRef c w;
        w \<leftarrow> on_con c (\<lambda>x. x\<lparr>m_hCPort := True\<rparr>) w;
        (threw, w) \<leftarrow> On_QueuedCompletionStatus dwError d c v w;
        w \<leftarrow> (if threw then Drop True (at_close d) c w else Some w);
        Release c w }
      | _ \<Rightarrow> Some w)"

section \<open>What operations leave alone\<close>

lemma on_con_Some: "on_con c f w = Some w' \<longleftrightarrow> (\<exists>x. cons w c = Some x \<and> w' = w\<lparr>cons := (cons w)(c \<mapsto> f x)\<rparr>)"
  by (auto simp: on_con_def split: option.splits)

lemma on_ov_Some: "on_ov v f w = Some w' \<longleftrightarrow> (\<exists>x. ovs w v = Some x \<and> w' = w\<lparr>ovs := (ovs w)(v \<mapsto> f x)\<rparr>)"
  by (auto simp: on_ov_def split: option.splits)

lemmas io_Some = bind_eq_Some_conv on_con_Some on_ov_Some Let_def

lemma DropOVERLAPPED_frame:
  "DropOVERLAPPED c v w = Some w' \<Longrightarrow> port w' = port w \<and> m_oCListP2PmsgCon w' = m_oCListP2PmsgCon w \<and> noted w' = noted w"
  by (auto simp: DropOVERLAPPED_def io_Some)

lemma drop_member_frame:
  "drop_member c k w = Some w' \<Longrightarrow> port w' = port w \<and> m_oCListP2PmsgCon w' = m_oCListP2PmsgCon w"
  by (auto simp: drop_member_def io_Some split: option.splits dest: DropOVERLAPPED_frame)

lemma delete_con_port: "delete_con c w = Some w' \<Longrightarrow> port w' = port w"
  by (auto simp: delete_con_def io_Some dest!: drop_member_frame)

lemma Release_port: "Release c w = Some w' \<Longrightarrow> port w' = port w"
  by (auto simp: Release_def io_Some split: if_splits dest!: delete_con_port)

lemma DrainOVERLAPPED_port: "DrainOVERLAPPED c v w = Some w' \<Longrightarrow> port w' = port w"
  by (auto simp: DrainOVERLAPPED_def io_Some split: if_splits dest!: Release_port DropOVERLAPPED_frame)

lemma reclaim_list: "reclaim c k w = Some w' \<Longrightarrow> m_oCListP2PmsgCon w' = m_oCListP2PmsgCon w"
  by (auto simp: reclaim_def io_Some split: option.splits if_splits dest!: DropOVERLAPPED_frame)

lemma Drop_list: "Drop bEvent close c w = Some w' \<Longrightarrow> m_oCListP2PmsgCon w' = m_oCListP2PmsgCon w"
  by (auto simp: Drop_def PostP2Pmsg_def AddRef_def io_Some split: if_splits dest!: reclaim_list)

lemma Destroy_list: "Destroy c w = Some w' \<Longrightarrow> m_oCListP2PmsgCon w' = m_oCListP2PmsgCon w"
  by (auto simp: Destroy_def io_Some)

section \<open>Closing a hub\<close>

definition DrainConOfOVERLAPPED :: "addr option \<Rightarrow> addr \<Rightarrow> io \<Rightarrow> addr option" where
  "DrainConOfOVERLAPPED key v w = (case key of Some c \<Rightarrow> Some c | None \<Rightarrow> map_option pOwnerCon (ovs w v))"

definition drain_packet :: "packet \<Rightarrow> io \<Rightarrow> io option" where
  "drain_packet p w =
    (case p of Wake \<Rightarrow> Some w | Packet key v \<Rightarrow> do { c \<leftarrow> DrainConOfOVERLAPPED key v w; DrainOVERLAPPED c v w })"

lemma drain_packet_port: "drain_packet p w = Some w' \<Longrightarrow> port w' = port w"
  by (auto simp: drain_packet_def io_Some split: packet.splits dest: DrainOVERLAPPED_port)

fun owed :: "addr list \<Rightarrow> io \<Rightarrow> bool option" where
  "owed [] w = Some False"
| "owed (c # cs) w = do { b \<leftarrow> HasQueuedOVERLAPPED c w; if b then Some True else owed cs w }"

definition nDrainSlicesMax :: nat where "nDrainSlicesMax = 50"

text \<open>
  The loop over the port.  \<open>late\<close> is what the transport does while the port is empty and the loop waits: \<open>None\<close>, a slice
  passes, or a completion arrives; then nothing more arrives.  Each wait that runs out spends one of fifty.
\<close>

function DrainPortOfOVERLAPPED :: "addr list \<Rightarrow> packet option list \<Rightarrow> nat \<Rightarrow> io \<Rightarrow> io option" where
  "DrainPortOfOVERLAPPED pins late n w =
    (case port w of
       p # ps \<Rightarrow> (case drain_packet p (w\<lparr>port := ps\<rparr>) of None \<Rightarrow> None
         | Some w' \<Rightarrow> DrainPortOfOVERLAPPED pins late n w')
     | [] \<Rightarrow> (case (if n < nDrainSlicesMax then owed pins w else Some False) of None \<Rightarrow> None
         | Some False \<Rightarrow> Some w
         | Some True \<Rightarrow> (case late of [] \<Rightarrow> DrainPortOfOVERLAPPED pins [] (Suc n) w
             | None # late \<Rightarrow> DrainPortOfOVERLAPPED pins late (Suc n) w
             | Some p # late \<Rightarrow> DrainPortOfOVERLAPPED pins late n (w\<lparr>port := [p]\<rparr>))))"
  by pat_completeness auto
termination
  by (relation "measures [\<lambda>(pins, late, n, w). length late, \<lambda>(pins, late, n, w). nDrainSlicesMax - n, \<lambda>(pins, late, n, w). length (port w)]")
    (auto split: if_splits dest: drain_packet_port)

fun each :: "(addr \<Rightarrow> io \<Rightarrow> io option) \<Rightarrow> addr list \<Rightarrow> io \<Rightarrow> io option" where
  "each f [] w = Some w"
| "each f (c # cs) w = (case f c w of None \<Rightarrow> None | Some w \<Rightarrow> each f cs w)"

text \<open>The walk that marks and drops: by index, which stays when a connection left the list.\<close>

function sweep :: "nat \<Rightarrow> io \<Rightarrow> io option" where
  "sweep i w =
    (if i < length (m_oCListP2PmsgCon w)
     then (let c = m_oCListP2PmsgCon w ! i in
       case Destroy c w of None \<Rightarrow> None
       | Some w1 \<Rightarrow> (case Drop False False c w1 of None \<Rightarrow> None
         | Some w2 \<Rightarrow> if length (m_oCListP2PmsgCon w) \<le> length (m_oCListP2PmsgCon w2) then sweep (Suc i) w2
            else sweep i w2))
     else Some w)"
  by pat_completeness auto
termination
  by (relation "measure (\<lambda>(i, w). length (m_oCListP2PmsgCon w) - i)") (auto dest!: Drop_list Destroy_list)

definition CloseP2PmsgHub :: "packet option list \<Rightarrow> io \<Rightarrow> io option" where
  "CloseP2PmsgHub late w = (let pins = m_oCListP2PmsgCon w in do {
     w \<leftarrow> each AddRef pins w;
     w \<leftarrow> sweep 0 w;
     w \<leftarrow> DrainPortOfOVERLAPPED pins late 0 w;
     each Release pins w })"

declare DrainPortOfOVERLAPPED.simps [simp del] sweep.simps [simp del]

section \<open>Every operation under way holds one reference\<close>

definition queued_by :: "addr \<Rightarrow> io \<Rightarrow> addr set" where
  "queued_by c w = {v. \<exists>o1. ovs w v = Some o1 \<and> bQueued o1 \<and> pOwnerCon o1 = c}"

definition noted_for :: "addr \<Rightarrow> io \<Rightarrow> nat" where
  "noted_for c w = length (filter (\<lambda>n. fst n = c) (noted w))"

fun packet_of :: "packet \<Rightarrow> addr list" where
  "packet_of Wake = []"
| "packet_of (Packet key v) = [v]"

definition in_port :: "io \<Rightarrow> addr list" where
  "in_port w = concat (map packet_of (port w))"

text \<open>\<open>h c\<close>: the references to \<open>c\<close> held by others than operations and notifications.\<close>

definition members_ok :: "io \<Rightarrow> addr \<Rightarrow> tcon \<Rightarrow> bool" where
  "members_ok w c x \<longleftrightarrow> (\<forall>k v. m_pOVERLAPPED x k = Some v \<longrightarrow> (\<exists>o1. ovs w v = Some o1 \<and> pOwnerCon o1 = c)
    \<and> (\<forall>k'. m_pOVERLAPPED x k' = Some v \<longrightarrow> k' = k))"

definition con_ok :: "(addr \<Rightarrow> nat) \<Rightarrow> io \<Rightarrow> addr \<Rightarrow> tcon \<Rightarrow> bool" where
  "con_ok h w c x \<longleftrightarrow> m_cRef x = int (h c + noted_for c w + card (queued_by c w))
    \<and> (m_nP2PconID x \<noteq> 0 \<longleftrightarrow> c \<in> set (m_oCListP2PmsgCon w)) \<and> members_ok w c x"

text \<open>An object that is not under way is one of the four of its connection; \<open>E\<close> are those in between.\<close>

definition ov_ok :: "addr set \<Rightarrow> io \<Rightarrow> addr \<Rightarrow> ovl \<Rightarrow> bool" where
  "ov_ok E w v o1 \<longleftrightarrow> v < fresh w \<and> nSigID o1 \<noteq> P2PsigIO_ACK \<and> (if bQueued o1 then cons w (pOwnerCon o1) \<noteq> None
     else v \<in> E \<or> (\<exists>x k. cons w (pOwnerCon o1) = Some x \<and> m_pOVERLAPPED x k = Some v))"

fun packet_ok :: "io \<Rightarrow> packet \<Rightarrow> bool" where
  "packet_ok w Wake = True"
| "packet_ok w (Packet key v) = (\<exists>o1. ovs w v = Some o1 \<and> bQueued o1 \<and> (key = None \<or> key = Some (pOwnerCon o1)))"

definition io_ok :: "addr set \<Rightarrow> (addr \<Rightarrow> nat) \<Rightarrow> io \<Rightarrow> bool" where
  "io_ok E h w \<longleftrightarrow> (\<forall>c x. cons w c = Some x \<longrightarrow> con_ok h w c x) \<and> (\<forall>v o1. ovs w v = Some o1 \<longrightarrow> ov_ok E w v o1)
    \<and> distinct (in_port w) \<and> (\<forall>p \<in> set (port w). packet_ok w p)
    \<and> (\<forall>c. 0 < h c + noted_for c w \<longrightarrow> cons w c \<noteq> None)
    \<and> distinct (m_oCListP2PmsgCon w) \<and> (\<forall>c \<in> set (m_oCListP2PmsgCon w). cons w c \<noteq> None)"

text \<open>The operations under way, with their connections.\<close>

definition ops :: "io \<Rightarrow> addr \<Rightarrow> addr option" where
  "ops w v = (case ovs w v of None \<Rightarrow> None | Some o1 \<Rightarrow> if bQueued o1 then Some (pOwnerCon o1) else None)"

lemma queued_by_ops: "queued_by c w = {v. ops w v = Some c}"
  by (auto simp: queued_by_def ops_def split: option.splits if_splits)

text \<open>An operation that has a result, which is as \<open>Q\<close> says.\<close>

definition ends :: "'a option \<Rightarrow> ('a \<Rightarrow> bool) \<Rightarrow> bool" where
  "ends r Q \<longleftrightarrow> (\<exists>x. r = Some x \<and> Q x)"

lemma ends_Some [simp]: "ends (Some x) Q \<longleftrightarrow> Q x" by (simp add: ends_def)
lemma ends_bind [simp]: "ends (Option.bind m f) Q \<longleftrightarrow> ends m (\<lambda>x. ends (f x) Q)"
  by (cases m) (auto simp: ends_def)
lemma ends_mono: "ends r P \<Longrightarrow> (\<And>x. P x \<Longrightarrow> Q x) \<Longrightarrow> ends r Q" by (auto simp: ends_def)

lemma io_ok_con: "io_ok E h w \<Longrightarrow> cons w c = Some x \<Longrightarrow> con_ok h w c x" by (simp add: io_ok_def)
lemma io_ok_ov: "io_ok E h w \<Longrightarrow> ovs w v = Some o1 \<Longrightarrow> ov_ok E w v o1" by (simp add: io_ok_def)
lemma io_ok_live: "io_ok E h w \<Longrightarrow> 0 < h c \<Longrightarrow> \<exists>x. cons w c = Some x" by (auto simp: io_ok_def)

lemma queued_by_finite: "io_ok E h w \<Longrightarrow> finite (queued_by c w)"
  by (rule finite_subset [of _ "{..<fresh w}"]) (auto simp: queued_by_def io_ok_def ov_ok_def)

lemma io_ok_member:
  "io_ok E h w \<Longrightarrow> cons w c = Some x \<Longrightarrow> m_pOVERLAPPED x k = Some v \<Longrightarrow> \<exists>o1. ovs w v = Some o1 \<and> pOwnerCon o1 = c"
  unfolding io_ok_def con_ok_def members_ok_def by blast

lemma io_ok_member_once:
  "io_ok E h w \<Longrightarrow> cons w c = Some x \<Longrightarrow> m_pOVERLAPPED x k = Some v \<Longrightarrow> m_pOVERLAPPED x k' = Some v \<Longrightarrow> k' = k"
  unfolding io_ok_def con_ok_def members_ok_def by blast

lemma members_okI:
  assumes "members_ok w c x" "\<And>k v. m_pOVERLAPPED y k = Some v \<Longrightarrow> m_pOVERLAPPED x k = Some v"
    and "\<And>k v o1. m_pOVERLAPPED y k = Some v \<Longrightarrow> ovs w v = Some o1 \<Longrightarrow> \<exists>o2. ovs w' v = Some o2 \<and> pOwnerCon o2 = pOwnerCon o1"
  shows "members_ok w' c y"
  using assms unfolding members_ok_def by metis

lemma io_ok_weaken: "io_ok E h w \<Longrightarrow> E \<subseteq> E' \<Longrightarrow> io_ok E' h w"
  unfolding io_ok_def ov_ok_def by (meson subsetD)

lemma not_in_port: "io_ok E h w \<Longrightarrow> ovs w v = Some o1 \<Longrightarrow> \<not> bQueued o1 \<Longrightarrow> v \<notin> set (in_port w)"
proof
  assume a: "io_ok E h w" "ovs w v = Some o1" "\<not> bQueued o1" and "v \<in> set (in_port w)"
  then obtain p where p: "p \<in> set (port w)" "v \<in> set (packet_of p)" by (auto simp: in_port_def)
  then have "packet_ok w p" using a(1) by (auto simp: io_ok_def)
  then show False using a(2,3) p(2) by (induction p) auto
qed

subsection \<open>Steps on a single cell\<close>

lemma packets_same:
  assumes "\<forall>p \<in> set ps. packet_ok w p" "\<And>v. v \<in> set (concat (map packet_of ps)) \<Longrightarrow> ovs w' v = ovs w v"
  shows "\<forall>p \<in> set ps. packet_ok w' p"
proof
  fix p assume p: "p \<in> set ps"
  have "packet_ok w p \<Longrightarrow> (\<And>v. v \<in> set (packet_of p) \<Longrightarrow> ovs w' v = ovs w v) \<Longrightarrow> packet_ok w' p" by (induction p) auto
  then show "packet_ok w' p" using assms p by auto
qed

text \<open>The invariant after the cell of a connection changed, its references along with \<open>h\<close>.\<close>

lemma io_ok_on_con:
  assumes ok: "io_ok E h w" and c: "cons w c = Some x"
    and f: "m_pOVERLAPPED y = m_pOVERLAPPED x" "m_nP2PconID y = m_nP2PconID x" "m_cRef y + int (h c) = m_cRef x + int (h' c)"
    and h: "\<And>d. d \<noteq> c \<Longrightarrow> h' d = h d"
  shows "io_ok E h' (w\<lparr>cons := (cons w)(c \<mapsto> y)\<rparr>)" (is "io_ok E h' ?w")
proof -
  have same: "noted_for d ?w = noted_for d w" "queued_by d ?w = queued_by d w" "in_port ?w = in_port w" for d
    by (simp_all add: noted_for_def queued_by_def in_port_def)
  have con: "con_ok h' ?w d z" if "cons ?w d = Some z" for d z
    using that io_ok_con [OF ok, of d] io_ok_con [OF ok c] f h [of d] unfolding con_ok_def same
    by (cases "d = c") (auto intro: members_okI)
  have ov: "ov_ok E ?w v o1" if "ovs ?w v = Some o1" for v o1
    using io_ok_ov [OF ok, of v o1] that c f unfolding ov_ok_def by auto
  have "packet_ok ?w p \<longleftrightarrow> packet_ok w p" for p by (induction p) auto
  then show ?thesis
    using con ov ok c h unfolding io_ok_def same by (auto split: if_splits)
qed

text \<open>The invariant after an object changed, which may begin or end an operation.\<close>

lemma io_ok_on_ov:
  assumes ok: "io_ok E h w" and v: "ovs w v = Some o1"
    and f: "pOwnerCon o2 = pOwnerCon o1" "nSigID o2 = nSigID o1 \<or> nSigID o2 \<noteq> P2PsigIO_ACK"
    and n: "h' (pOwnerCon o1) + (if bQueued o2 then 1 else 0) = h (pOwnerCon o1) + (if bQueued o1 then 1 else 0)"
    and h: "\<And>d. d \<noteq> pOwnerCon o1 \<Longrightarrow> h' d = h d" and live: "bQueued o1 \<or> bQueued o2 \<Longrightarrow> cons w (pOwnerCon o1) \<noteq> None"
    and out: "v \<in> set (in_port w) \<Longrightarrow> bQueued o2"
  shows "io_ok (if bQueued o2 then E - {v} else insert v E) h' (w\<lparr>ovs := (ovs w)(v \<mapsto> o2)\<rparr>)" (is "io_ok ?E h' ?w")
proof -
  let ?c = "pOwnerCon o1"
  have same: "noted_for d ?w = noted_for d w" "in_port ?w = in_port w" for d
    by (simp_all add: noted_for_def in_port_def)
  have "queued_by ?c ?w = (if bQueued o2 then insert v (queued_by ?c w) else queued_by ?c w - {v})"
    using v f by (auto simp: queued_by_def)
  moreover have "v \<in> queued_by ?c w \<longleftrightarrow> bQueued o1" using v by (auto simp: queued_by_def)
  ultimately have q: "h' ?c + card (queued_by ?c ?w) = h ?c + card (queued_by ?c w)"
    using n queued_by_finite [OF ok, of ?c] card_Suc_Diff1 [of "queued_by ?c w" v]
    by (cases "bQueued o1"; cases "bQueued o2") (simp_all add: insert_absorb)
  have q': "queued_by d ?w = queued_by d w" if "d \<noteq> ?c" for d
    using v f that by (auto simp: queued_by_def)
  have con: "con_ok h' ?w d z" if "cons ?w d = Some z" for d z
  proof -
    have z: "con_ok h w d z" using that io_ok_con [OF ok] by simp
    then have "members_ok ?w d z" unfolding con_ok_def by (elim conjE members_okI) (use v f in auto)
    then show ?thesis
      using z q q' [of d] h [of d] unfolding con_ok_def same by (cases "d = ?c") auto
  qed
  have ov: "ov_ok ?E ?w u o3" if "ovs ?w u = Some o3" for u o3
    using io_ok_ov [OF ok v] io_ok_ov [OF ok, of u o3] that f live unfolding ov_ok_def
    by (cases "u = v") (auto split: if_splits)
  have "packet_ok ?w p" if "p \<in> set (port w)" for p
  proof -
    have "packet_ok w p" using ok that by (simp add: io_ok_def)
    moreover have "v \<in> set (packet_of p) \<Longrightarrow> bQueued o2" using out that by (auto simp: in_port_def)
    ultimately show ?thesis using v f by (induction p) auto
  qed
  moreover have "0 < h' d + noted_for d w \<Longrightarrow> cons w d \<noteq> None" for d
    using ok live h [of d] n unfolding io_ok_def by (cases "d = ?c") (auto split: if_splits)
  ultimately show ?thesis
    using con ov ok unfolding io_ok_def same by simp
qed

text \<open>An object of a connection that is not under way goes.\<close>

lemma io_ok_off:
  assumes "io_ok (insert v E) h w" "cons w c = Some x" "m_pOVERLAPPED x k = Some v"
  shows "io_ok E h w"
proof -
  obtain o1 where "ovs w v = Some o1" "pOwnerCon o1 = c" using io_ok_member [OF assms] by blast
  then have "ov_ok E w u o3" if "ovs w u = Some o3" for u o3
    using io_ok_ov [OF assms(1) that] that assms(2,3) by (cases "u = v") (auto simp: ov_ok_def split: if_splits)
  then show ?thesis
    using assms(1) unfolding io_ok_def by simp
qed

lemma forget_D: "forget v m k = Some u \<Longrightarrow> m k = Some u"
  by (auto simp: forget_def split: if_splits)

lemma forget_None: "m k = None \<Longrightarrow> forget v m k = None"
  by (auto simp: forget_def)

lemma forget_keeps: "m k = Some u \<Longrightarrow> u \<noteq> v \<Longrightarrow> forget v m k = Some u"
  by (auto simp: forget_def)

lemma forget_gone:
  assumes "\<And>k k'. m k = Some v \<Longrightarrow> m k' = Some v \<Longrightarrow> k' = k"
  shows "forget v m k \<noteq> Some v"
proof (cases "m k = Some v")
  case True
  then have "m k' \<noteq> Some v" if "k' \<noteq> k" for k' using assms that by blast
  then show ?thesis using True by (cases k) (auto simp: forget_def)
next
  case False
  then show ?thesis using forget_D by metis
qed

lemma io_ok_DropOVERLAPPED:
  assumes ok: "io_ok E h w" and v: "ovs w v = Some o1" "\<not> bQueued o1" and c: "cons w (pOwnerCon o1) = Some x"
  shows "ends (DropOVERLAPPED (pOwnerCon o1) v w) (\<lambda>w'. io_ok (E - {v}) h w' \<and> ovs w' = (ovs w)(v := None)
    \<and> cons w' = (cons w)(pOwnerCon o1 \<mapsto> x\<lparr>m_pOVERLAPPED := forget v (m_pOVERLAPPED x)\<rparr>)
    \<and> noted w' = noted w \<and> port w' = port w \<and> m_oCListP2PmsgCon w' = m_oCListP2PmsgCon w)"
proof -
  let ?c = "pOwnerCon o1"
  let ?w = "w\<lparr>cons := (cons w)(?c \<mapsto> x\<lparr>m_pOVERLAPPED := forget v (m_pOVERLAPPED x)\<rparr>), ovs := (ovs w)(v := None)\<rparr>"
  have same: "noted_for d ?w = noted_for d w" "in_port ?w = in_port w" "queued_by d ?w = queued_by d w" for d
    using v by (auto simp: noted_for_def in_port_def queued_by_def)
  have gone: "forget v (m_pOVERLAPPED x) k \<noteq> Some v" for k
    by (rule forget_gone) (use io_ok_member_once [OF ok c] in blast)
  have other: "u \<noteq> v" if "m_pOVERLAPPED y k = Some u" "cons w d = Some y" "d \<noteq> ?c" for u y k d
    using io_ok_member [OF ok that(2,1)] that(3) v by auto
  have con: "con_ok h ?w d z" if d: "cons ?w d = Some z" for d z
  proof (cases "d = ?c")
    case True
    have "members_ok ?w ?c (x\<lparr>m_pOVERLAPPED := forget v (m_pOVERLAPPED x)\<rparr>)"
      using io_ok_con [OF ok c] unfolding con_ok_def
      by (elim conjE members_okI) (use gone in \<open>auto dest: forget_D\<close>)
    then show ?thesis
      using True d io_ok_con [OF ok c] unfolding con_ok_def same by auto
  next
    case False
    then have z: "con_ok h w d z" "cons w d = Some z" using d io_ok_con [OF ok] by simp_all
    then have "members_ok ?w d z"
      using other [OF _ z(2) False] unfolding con_ok_def by (auto intro!: members_okI [of w d z])
    then show ?thesis using z unfolding con_ok_def same by auto
  qed
  have ov: "ov_ok (E - {v}) ?w u o3" if "ovs ?w u = Some o3" for u o3
  proof -
    have "u \<noteq> v" "ovs w u = Some o3" using that by (auto split: if_splits)
    then show ?thesis
      using io_ok_ov [OF ok, of u o3] c unfolding ov_ok_def by (auto dest: forget_keeps split: if_splits)
  qed
  have "packet_ok ?w p" if "p \<in> set (port w)" for p
  proof -
    have "packet_ok w p" using ok that by (simp add: io_ok_def)
    then show ?thesis using v by (induction p) auto
  qed
  then have "io_ok (E - {v}) h ?w"
    using con ov ok c unfolding io_ok_def same by auto
  then show ?thesis
    using v c by (simp add: DropOVERLAPPED_def on_con_def on_ov_def)
qed

subsection \<open>Taking and giving back references\<close>

lemma io_ok_AddRef:
  assumes "io_ok E h w" "cons w c = Some x"
  shows "AddRef c w = Some (w\<lparr>cons := (cons w)(c \<mapsto> x\<lparr>m_cRef := m_cRef x + 1\<rparr>)\<rparr>)"
    "io_ok E (h(c := Suc (h c))) (w\<lparr>cons := (cons w)(c \<mapsto> x\<lparr>m_cRef := m_cRef x + 1\<rparr>)\<rparr>)"
  by (simp add: AddRef_def on_con_def assms(2), rule io_ok_on_con [OF assms]) simp_all

lemma io_ok_drop_member:
  assumes ok: "io_ok E h w" and c: "cons w c = Some x" and idle: "queued_by c w = {}"
  shows "ends (drop_member c k w) (\<lambda>w'. io_ok E h w' \<and> ops w' = ops w \<and> queued_by c w' = {} \<and> noted w' = noted w
    \<and> (\<exists>y. cons w' = (cons w)(c \<mapsto> y) \<and> m_pOVERLAPPED y k = None \<and> m_nP2PconID y = m_nP2PconID x
        \<and> (\<forall>k'. m_pOVERLAPPED x k' = None \<longrightarrow> m_pOVERLAPPED y k' = None)))"
proof (cases "m_pOVERLAPPED x k")
  case None
  then show ?thesis using assms by (auto simp: drop_member_def fun_upd_idem intro!: exI [of _ x])
next
  case (Some v)
  obtain o1 where o1: "ovs w v = Some o1" "pOwnerCon o1 = c" using io_ok_member [OF ok c Some] by blast
  have nq: "\<not> bQueued o1" using idle o1 by (auto simp: queued_by_def)
  have once: "forget v (m_pOVERLAPPED x) k = None"
    using forget_gone [of "m_pOVERLAPPED x" v k] forget_D [of v "m_pOVERLAPPED x" k] io_ok_member_once [OF ok c] Some
    by (metis not_None_eq option.inject)
  show ?thesis
    unfolding drop_member_def using c Some apply simp
    apply (rule ends_mono [OF io_ok_DropOVERLAPPED [OF ok o1(1) nq, of x, unfolded o1(2), OF c]])
    using idle once by (auto simp: queued_by_def forget_None ops_def fun_eq_iff o1 nq intro: io_ok_weaken split: if_splits intro!: exI [of _ "x\<lparr>m_pOVERLAPPED := forget v (m_pOVERLAPPED x)\<rparr>"])
qed

text \<open>A connection nobody refers to is deleted along with its objects.\<close>

lemma io_ok_delete_con:
  assumes ok: "io_ok E h w" and c: "cons w c = Some x" and idle: "queued_by c w = {}" "h c = 0" "noted_for c w = 0"
  shows "ends (delete_con c w) (\<lambda>w'. io_ok E h w' \<and> ops w' = ops w \<and> cons w' = (cons w)(c := None) \<and> noted w' = noted w)"
proof -
  define U where "U ks w' \<longleftrightarrow> io_ok E h w' \<and> ops w' = ops w \<and> queued_by c w' = {} \<and> noted w' = noted w
      \<and> (\<exists>y. cons w' = (cons w)(c \<mapsto> y) \<and> (\<forall>k \<in> ks. m_pOVERLAPPED y k = None))" for ks w'
  have step: "ends (drop_member c k w') (U (insert k ks))" if U: "U ks w'" for k ks w'
  proof -
    obtain y where y: "io_ok E h w'" "cons w' = (cons w)(c \<mapsto> y)" "queued_by c w' = {}" "noted w' = noted w"
        "\<forall>k \<in> ks. m_pOVERLAPPED y k = None"
      using U by (fastforce simp: U_def)
    then have c': "cons w' c = Some y" by simp
    show ?thesis
    proof (rule ends_mono [OF io_ok_drop_member [OF y(1) c' y(3), of k]])
      fix w'' assume a: "io_ok E h w'' \<and> ops w'' = ops w' \<and> queued_by c w'' = {} \<and> noted w'' = noted w'
        \<and> (\<exists>z. cons w'' = (cons w')(c \<mapsto> z) \<and> m_pOVERLAPPED z k = None \<and> m_nP2PconID z = m_nP2PconID y
          \<and> (\<forall>k'. m_pOVERLAPPED y k' = None \<longrightarrow> m_pOVERLAPPED z k' = None))"
      then obtain z where "cons w'' = (cons w')(c \<mapsto> z)" "m_pOVERLAPPED z k = None"
          "\<forall>k'. m_pOVERLAPPED y k' = None \<longrightarrow> m_pOVERLAPPED z k' = None" by blast
      then show "U (insert k ks) w''" using a y U unfolding U_def by (auto intro!: exI [of _ z])
    qed
  qed
  have 0: "U {} w" using ok c idle(1) by (auto simp: U_def fun_upd_idem intro!: exI [of _ x])
  obtain w1 where 1: "drop_member c SendOv w = Some w1" "U {SendOv} w1" using step [OF 0, of SendOv] by (auto simp: ends_def)
  obtain w2 where 2: "drop_member c RecvOv w1 = Some w2" "U {RecvOv, SendOv} w2" using step [OF 1(2), of RecvOv] by (auto simp: ends_def)
  obtain w3 where 3: "drop_member c AcceptOv w2 = Some w3" "U {AcceptOv, RecvOv, SendOv} w3"
    using step [OF 2(2), of AcceptOv] by (auto simp: ends_def)
  obtain w4 where 4: "drop_member c ConnectOv w3 = Some w4" "U {ConnectOv, AcceptOv, RecvOv, SendOv} w4"
    using step [OF 3(2), of ConnectOv] by (auto simp: ends_def)
  have last: "io_ok E h (w'\<lparr>cons := (cons w')(c := None), m_oCListP2PmsgCon := removeAll c (m_oCListP2PmsgCon w')\<rparr>)
      \<and> ops w' = ops w \<and> (cons w')(c := None) = (cons w)(c := None) \<and> noted w' = noted w"
    if U: "U {ConnectOv, AcceptOv, RecvOv, SendOv} w'" for w'
  proof -
    let ?w = "w'\<lparr>cons := (cons w')(c := None), m_oCListP2PmsgCon := removeAll c (m_oCListP2PmsgCon w')\<rparr>"
    obtain y where y: "io_ok E h w'" "cons w' = (cons w)(c \<mapsto> y)" "queued_by c w' = {}" "noted w' = noted w"
        "\<forall>k \<in> {ConnectOv, AcceptOv, RecvOv, SendOv}. m_pOVERLAPPED y k = None"
      using U by (fastforce simp: U_def)
    have none: "m_pOVERLAPPED y k = None" for k using y(5) by (cases k) auto
    have same: "noted_for d ?w = noted_for d w'" "in_port ?w = in_port w'" "queued_by d ?w = queued_by d w'" for d
      by (auto simp: noted_for_def in_port_def queued_by_def)
    have con: "con_ok h ?w d z" if "cons ?w d = Some z" for d z
      using that io_ok_con [OF y(1), of d z] unfolding con_ok_def same members_ok_def by (auto split: if_splits)
    have ov: "ov_ok E ?w v o1" if "ovs ?w v = Some o1" for v o1
      using that io_ok_ov [OF y(1), of v o1] y(2,3) none unfolding ov_ok_def queued_by_def
      by (auto split: if_splits)
    have pk: "packet_ok ?w p \<longleftrightarrow> packet_ok w' p" for p by (induction p) auto
    have "noted_for c w' = 0" using idle(3) y(4) by (simp add: noted_for_def)
    then have live: "cons ?w d \<noteq> None" if "0 < h d + noted_for d w'" for d
      using that y(1) idle(2) unfolding io_ok_def by (cases "d = c") auto
    have "io_ok E h ?w"
      unfolding io_ok_def same using con ov live y(1) pk by (simp add: io_ok_def distinct_removeAll del: fun_upd_apply) (simp add: fun_upd_apply)
    then show ?thesis using y(2,4) U by (simp add: U_def)
  qed
  have same: "ops (w'\<lparr>cons := m, m_oCListP2PmsgCon := l\<rparr>) = ops w'" for w' m l by (simp add: ops_def fun_eq_iff)
  show ?thesis
    unfolding delete_con_def using same 1(1) 2(1) 3(1) 4(1) last [OF 4(2)] by auto
qed

lemma io_ok_Release:
  assumes ok: "io_ok E h w" and h: "h c = Suc n" and c: "cons w c = Some x"
  shows "ends (Release c w) (\<lambda>w'. io_ok E (h(c := n)) w' \<and> ops w' = ops w \<and> noted w' = noted w \<and> (\<forall>d. d \<noteq> c \<longrightarrow> cons w' d = cons w d)
    \<and> (cons w' c = None \<longleftrightarrow> n = 0 \<and> noted_for c w = 0 \<and> queued_by c w = {} \<and> (m_bDestroy x \<or> m_nP2PconID x = 0))
    \<and> (\<forall>z. cons w' c = Some z \<longrightarrow> (m_bDestroy x \<longrightarrow> m_bDestroy z) \<and> m_pOVERLAPPED z = m_pOVERLAPPED x))"
proof -
  let ?r = "m_cRef x - 1"
  let ?y = "x\<lparr>m_cRef := ?r, m_bDestroy := m_bDestroy x \<or> (?r \<le> 0 \<and> m_nP2PconID x = 0)\<rparr>"
  let ?w = "w\<lparr>cons := (cons w)(c \<mapsto> ?y)\<rparr>"
  have ok1: "io_ok E (h(c := n)) ?w" by (rule io_ok_on_con [OF ok c]) (simp_all add: h)
  have same: "queued_by c ?w = queued_by c w" "noted_for c ?w = noted_for c w" "queued_by c (w\<lparr>cons := m\<rparr>) = queued_by c w" for m
    by (simp_all add: queued_by_def noted_for_def)
  have ops1: "ops ?w = ops w" by (simp add: ops_def fun_eq_iff)
  have r: "?r = int (n + noted_for c w + card (queued_by c w))" using io_ok_con [OF ok c] h by (simp add: con_ok_def)
  show ?thesis
  proof (cases "?r \<le> 0 \<and> m_bDestroy ?y")
    case True
    then have "n + noted_for c w + card (queued_by c w) = 0" using r by linarith
    then have z: "n = 0" "noted_for c w = 0" "queued_by c w = {}"
      using queued_by_finite [OF ok, of c] by simp_all
    then have "ends (delete_con c ?w) (\<lambda>w'. io_ok E (h(c := n)) w' \<and> ops w' = ops w \<and> cons w' = (cons ?w)(c := None) \<and> noted w' = noted ?w)"
      using io_ok_delete_con [OF ok1, of c ?y] same ops1 by simp
    then show ?thesis
      unfolding Release_def using c True z by (auto simp: Let_def elim!: ends_mono split: if_splits)
  next
    case False
    then have "Release c w = Some ?w" using c by (auto simp: Release_def Let_def)
    moreover have "\<not> (n = 0 \<and> noted_for c w = 0 \<and> queued_by c w = {} \<and> (m_bDestroy x \<or> m_nP2PconID x = 0))"
      using False r by auto
    ultimately show ?thesis using ok1 ops1 by simp
  qed
qed

lemma io_ok_prepare:
  assumes ok: "io_ok E h w" and v: "ovs w v = Some o1" "\<not> bQueued o1" and c: "cons w (pOwnerCon o1) = Some x"
  shows "ends (prepareOVERLAPPED (pOwnerCon o1) v w) (\<lambda>w'. io_ok (E - {v}) h w' \<and> noted w' = noted w
    \<and> ovs w' = (ovs w)(v \<mapsto> o1\<lparr>bQueued := True, hr := 0\<rparr>) \<and> port w' = port w
    \<and> cons w' = (cons w)(pOwnerCon o1 \<mapsto> x\<lparr>m_cRef := m_cRef x + 1\<rparr>))"
proof -
  let ?c = "pOwnerCon o1"
  note a = io_ok_AddRef [OF ok c]
  have "io_ok (E - {v}) h (w\<lparr>cons := (cons w)(?c \<mapsto> x\<lparr>m_cRef := m_cRef x + 1\<rparr>), ovs := (ovs w)(v \<mapsto> o1\<lparr>bQueued := True, hr := 0\<rparr>)\<rparr>)"
    using io_ok_on_ov [OF a(2), of v o1 "o1\<lparr>bQueued := True, hr := 0\<rparr>" h] v by simp
  moreover have "w\<lparr>cons := m, ovs := n\<rparr> = w\<lparr>ovs := n, cons := m\<rparr>" for m n by simp
  ultimately show ?thesis
    using v c by (simp add: prepareOVERLAPPED_def on_ov_def AddRef_def on_con_def)
qed

text \<open>The reference of an operation that ended passes to the thread that handles it.\<close>

lemma io_ok_ended:
  assumes ok: "io_ok E h w" and v: "ovs w v = Some o1" "bQueued o1" "v \<notin> set (in_port w)"
    and f: "pOwnerCon o2 = pOwnerCon o1" "nSigID o2 = nSigID o1" "\<not> bQueued o2"
  shows "io_ok (insert v E) (h(pOwnerCon o1 := Suc (h (pOwnerCon o1)))) (w\<lparr>ovs := (ovs w)(v \<mapsto> o2)\<rparr>)"
  using io_ok_on_ov [OF ok v(1) f(1) disjI1 [OF f(2)], of "h(pOwnerCon o1 := Suc (h (pOwnerCon o1)))"] io_ok_ov [OF ok v(1)] v f
  by (auto simp: ov_ok_def)

lemma io_ok_release:
  assumes ok: "io_ok E h w" and v: "ovs w v = Some o1" "bQueued o1" "v \<notin> set (in_port w)" and held: "0 < h (pOwnerCon o1)"
    and c: "cons w (pOwnerCon o1) = Some x"
  shows "ends (releaseOVERLAPPED (pOwnerCon o1) v w) (\<lambda>w'. io_ok (insert v E) h w' \<and> noted w' = noted w
    \<and> ovs w' = (ovs w)(v \<mapsto> o1\<lparr>bQueued := False\<rparr>) \<and> port w' = port w
    \<and> cons w' = (cons w)(pOwnerCon o1 \<mapsto> x\<lparr>m_cRef := m_cRef x - 1\<rparr>))"
proof -
  let ?c = "pOwnerCon o1"
  let ?w = "w\<lparr>ovs := (ovs w)(v \<mapsto> o1\<lparr>bQueued := False\<rparr>)\<rparr>"
  have e: "io_ok (insert v E) (h(?c := Suc (h ?c))) ?w" by (rule io_ok_ended [OF ok v]) simp_all
  have "io_ok (insert v E) h (?w\<lparr>cons := (cons ?w)(?c \<mapsto> x\<lparr>m_cRef := m_cRef x - 1\<rparr>)\<rparr>)"
    by (rule io_ok_on_con [OF e]) (simp_all add: c)
  moreover have "0 < m_cRef x - 1" using io_ok_con [OF e, of ?c x] c held by (simp add: con_ok_def)
  moreover have "x\<lparr>m_cRef := r, m_bDestroy := m_bDestroy x\<rparr> = x\<lparr>m_cRef := r\<rparr>" for r by simp
  ultimately show ?thesis
    using v(1) c by (simp add: releaseOVERLAPPED_def on_ov_def Release_def Let_def)
qed

subsection \<open>Operations called under a reference\<close>

lemma io_ok_noted:
  assumes ok: "io_ok E h w" and c: "h c = Suc n"
  shows "io_ok E (h(c := n)) (w\<lparr>noted := noted w @ [(c, k)]\<rparr>)" (is "io_ok E ?h ?w")
proof -
  have same: "in_port ?w = in_port w" "queued_by d ?w = queued_by d w"
      "noted_for d ?w = (if d = c then Suc (noted_for d w) else noted_for d w)" for d
    by (simp_all add: noted_for_def in_port_def queued_by_def)
  have live: "cons w c \<noteq> None" using ok c by (auto simp: io_ok_def)
  have "con_ok ?h ?w d z" if "cons w d = Some z" for d z
    using io_ok_con [OF ok that] c unfolding con_ok_def same members_ok_def by (auto split: if_splits)
  moreover have "ov_ok E ?w v o1 \<longleftrightarrow> ov_ok E w v o1" for v o1 by (simp add: ov_ok_def)
  moreover have "packet_ok ?w p \<longleftrightarrow> packet_ok w p" for p by (induction p) auto
  ultimately show ?thesis using ok c live unfolding io_ok_def same by (auto split: if_splits)
qed

lemma io_ok_PostP2Pmsg:
  assumes ok: "io_ok E h w" and c: "cons w c = Some x"
  shows "ends (PostP2Pmsg c k w) (\<lambda>w'. io_ok E h w' \<and> ovs w' = ovs w \<and> port w' = port w
    \<and> m_oCListP2PmsgCon w' = m_oCListP2PmsgCon w \<and> cons w' = (cons w)(c \<mapsto> x\<lparr>m_cRef := m_cRef x + 1\<rparr>))"
  using io_ok_noted [OF io_ok_AddRef(2) [OF assms], of c "h c" k] io_ok_AddRef(1) [OF assms]
  by (simp add: PostP2Pmsg_def)

lemma io_ok_post_all:
  assumes "io_ok E h w" "cons w c = Some x"
  shows "ends (post_all c ks w) (\<lambda>w'. io_ok E h w' \<and> ovs w' = ovs w \<and> (\<exists>r. cons w' c = Some (x\<lparr>m_cRef := r\<rparr>)))"
  using assms
proof (induction ks arbitrary: w x)
  case Nil
  then show ?case by (auto intro!: exI [of _ "m_cRef x"])
next
  case (Cons k ks)
  show ?case
    unfolding post_all.simps ends_bind
  proof (rule ends_mono [OF io_ok_PostP2Pmsg [OF Cons.prems]])
    fix w' assume a: "io_ok E h w' \<and> ovs w' = ovs w \<and> port w' = port w \<and> m_oCListP2PmsgCon w' = m_oCListP2PmsgCon w \<and> cons w' = (cons w)(c \<mapsto> x\<lparr>m_cRef := m_cRef x + 1\<rparr>)"
    show "ends (post_all c ks w') (\<lambda>w'. io_ok E h w' \<and> ovs w' = ovs w \<and> (\<exists>r. cons w' c = Some (x\<lparr>m_cRef := r\<rparr>)))"
      by (rule ends_mono [OF Cons.IH [of w' "x\<lparr>m_cRef := m_cRef x + 1\<rparr>"]]) (use a in auto)
  qed
qed

definition owns :: "io \<Rightarrow> addr \<Rightarrow> member \<Rightarrow> addr \<Rightarrow> bool" where
  "owns w c k v \<longleftrightarrow> (\<exists>x. cons w c = Some x \<and> m_pOVERLAPPED x k = Some v)"

definition same_ops :: "io \<Rightarrow> io \<Rightarrow> bool" where
  "same_ops w w' \<longleftrightarrow> ops w' = ops w \<and> port w' = port w \<and> m_oCListP2PmsgCon w' = m_oCListP2PmsgCon w
    \<and> (\<forall>c k v. owns w c k v \<longrightarrow> ops w v \<noteq> None \<longrightarrow> owns w' c k v)"

lemma same_ops_refl [simp]: "same_ops w w" by (simp add: same_ops_def)
lemma same_ops_trans [trans]: "same_ops w v \<Longrightarrow> same_ops v u \<Longrightarrow> same_ops w u" by (simp add: same_ops_def)

lemma same_ops_con:
  assumes "cons v c = Some y" "m_pOVERLAPPED z = m_pOVERLAPPED y"
  shows "same_ops w (v\<lparr>cons := (cons v)(c \<mapsto> z)\<rparr>) \<longleftrightarrow> same_ops w v" "same_ops (v\<lparr>cons := (cons v)(c \<mapsto> z)\<rparr>) u \<longleftrightarrow> same_ops v u"
proof -
  have "owns (v\<lparr>cons := (cons v)(c \<mapsto> z)\<rparr>) = owns v" "ops (v\<lparr>cons := (cons v)(c \<mapsto> z)\<rparr>) = ops v"
    using assms by (auto simp: owns_def ops_def fun_eq_iff)
  then show "same_ops w (v\<lparr>cons := (cons v)(c \<mapsto> z)\<rparr>) \<longleftrightarrow> same_ops w v" "same_ops (v\<lparr>cons := (cons v)(c \<mapsto> z)\<rparr>) u \<longleftrightarrow> same_ops v u"
    by (auto simp: same_ops_def)
qed

lemma same_ops_drop:
  assumes v: "ovs w v = Some o1" "\<not> bQueued o1" and w': "ovs w' = (ovs w)(v := None)" "port w' = port w"
      "m_oCListP2PmsgCon w' = m_oCListP2PmsgCon w" "cons w' = (cons w)(c \<mapsto> x\<lparr>m_pOVERLAPPED := forget v (m_pOVERLAPPED x)\<rparr>)"
    and c: "cons w c = Some x"
  shows "same_ops w w'"
proof -
  have "ops w' = ops w" using v w'(1) by (auto simp: ops_def fun_eq_iff)
  moreover have "owns w' d k u" if o: "owns w d k u" "ops w u \<noteq> None" for d k u
  proof -
    have "u \<noteq> v" using o(2) v by (auto simp: ops_def)
    then show ?thesis using o(1) c w'(4) forget_keeps [of "m_pOVERLAPPED x" k u v] by (cases "d = c") (auto simp: owns_def)
  qed
  ultimately show ?thesis using w' by (simp add: same_ops_def)
qed

lemma same_ops_note:
  assumes "ovs w' = ovs w" "port w' = port w" "m_oCListP2PmsgCon w' = m_oCListP2PmsgCon w"
    "cons w' = (cons w)(c \<mapsto> x\<lparr>m_cRef := r\<rparr>)" "cons w c = Some x"
  shows "same_ops w w'"
proof -
  have "ops w' = ops w" using assms(1) by (simp add: ops_def fun_eq_iff)
  moreover have "owns w' = owns w" using assms(4,5) by (auto simp: owns_def fun_eq_iff)
  ultimately show ?thesis using assms(2,3) by (simp add: same_ops_def)
qed

text \<open>A connection's own object goes unless it is under way.\<close>

lemma io_ok_reclaim:
  assumes ok: "io_ok E h w" and c: "cons w c = Some x"
  shows "ends (reclaim c k w) (\<lambda>w'. io_ok E h w' \<and> same_ops w w' \<and> noted w' = noted w
    \<and> (\<exists>m. cons w' = (cons w)(c \<mapsto> x\<lparr>m_pOVERLAPPED := m\<rparr>)))"
proof (cases "m_pOVERLAPPED x k")
  case None
  then show ?thesis using assms by (auto simp: reclaim_def fun_upd_idem intro!: exI [of _ "m_pOVERLAPPED x"])
next
  case (Some v)
  obtain o1 where o1: "ovs w v = Some o1" "pOwnerCon o1 = c" using io_ok_member [OF ok c Some] by blast
  show ?thesis
  proof (cases "bQueued o1")
    case True
    then show ?thesis
      using ok c Some o1 by (auto simp: reclaim_def fun_upd_idem intro!: exI [of _ "m_pOVERLAPPED x"])
  next
    case False
    have "ends (DropOVERLAPPED c v w) (\<lambda>w'. io_ok E h w' \<and> same_ops w w' \<and> noted w' = noted w
        \<and> (\<exists>m. cons w' = (cons w)(c \<mapsto> x\<lparr>m_pOVERLAPPED := m\<rparr>)))"
      using c o1(1) False by (intro ends_mono [OF io_ok_DropOVERLAPPED [OF ok o1(1) False, of x, unfolded o1(2)]])
        (auto intro: io_ok_weaken same_ops_drop [OF o1(1) False])
    then show ?thesis using c Some o1(1) False by (simp add: reclaim_def)
  qed
qed

text \<open>What a drop leaves of a connection: its objects, its event and its handles may have gone; a mark stays.\<close>

lemma io_ok_Drop:
  assumes ok: "io_ok E h w" and c: "cons w c = Some x"
  shows "ends (Drop bEvent close c w) (\<lambda>w'. io_ok E h w' \<and> same_ops w w' \<and> (m_bDestroy x \<longrightarrow> noted w' = noted w)
    \<and> (\<exists>y. cons w' = (cons w)(c \<mapsto> y) \<and> m_bDestroy y = m_bDestroy x \<and> m_nP2PconID y = m_nP2PconID x))"
proof -
  define U where "U w' \<longleftrightarrow> io_ok E h w' \<and> same_ops w w' \<and> (m_bDestroy x \<longrightarrow> noted w' = noted w) \<and> (\<exists>y. cons w' = (cons w)(c \<mapsto> y) \<and> m_bDestroy y = m_bDestroy x
      \<and> m_nP2PconID y = m_nP2PconID x)" for w'
  have live: "\<exists>y. cons w' c = Some y \<and> m_bDestroy y = m_bDestroy x \<and> m_nP2PconID y = m_nP2PconID x" if "U w'" for w'
    using that by (auto simp: U_def)
  have con: "U (w'\<lparr>cons := (cons w')(c \<mapsto> f y)\<rparr>)"
    if "U w'" "cons w' c = Some y" "\<And>z. m_pOVERLAPPED (f z) = m_pOVERLAPPED z \<and> m_nP2PconID (f z) = m_nP2PconID z
      \<and> m_cRef (f z) = m_cRef z \<and> m_bDestroy (f z) = m_bDestroy z" for w' y f
    using that io_ok_on_con [of E h w' c y "f y" h] same_ops_con(1) [of w' c y "f y" w] by (auto simp: U_def)
  have reclaimed: "ends (reclaim c k w') U" if u: "U w'" for k w'
  proof -
    obtain y where y: "cons w' c = Some y" "m_bDestroy y = m_bDestroy x" "m_nP2PconID y = m_nP2PconID x" using live [OF u] by blast
    show ?thesis
      by (rule ends_mono [OF io_ok_reclaim [of E h w' c y k]]) (use u y in \<open>auto simp: U_def intro: same_ops_trans\<close>)
  qed
  have posted: "ends (PostP2Pmsg c k w') U" if u: "U w'" and unmarked: "\<not> m_bDestroy x" for k w'
  proof -
    obtain y where y: "cons w' c = Some y" "m_bDestroy y = m_bDestroy x" "m_nP2PconID y = m_nP2PconID x" using live [OF u] by blast
    show ?thesis
      by (rule ends_mono [OF io_ok_PostP2Pmsg [of E h w' c y k]])
        (use u y unmarked in \<open>auto simp: U_def intro: same_ops_trans same_ops_note\<close>)
  qed
  have last: "ends (do { x \<leftarrow> cons w' c;
       w' \<leftarrow> on_con c (\<lambda>x. x\<lparr>m_pEvent := m_pEvent x \<or> bEvent \<or> m_hFile x, m_hFile := False, m_hFileCPort := False\<rparr>) w';
       if \<not> m_pEvent x \<and> \<not> (m_bDestroy x \<or> m_cRef x \<le> 0) \<and> \<not> close then PostP2Pmsg c P2P_Close w' else Some w' }) U" if u: "U w'" for w'
  proof -
    obtain y where y: "cons w' c = Some y" "m_bDestroy y = m_bDestroy x" using live [OF u] by blast
    show ?thesis
      using con [OF u y(1), of "\<lambda>z. z\<lparr>m_pEvent := m_pEvent z \<or> bEvent \<or> m_hFile z, m_hFile := False, m_hFileCPort := False\<rparr>"]
        posted y by (auto simp: on_con_def)
  qed
  have "U (w\<lparr>cons := (cons w)(c \<mapsto> x\<lparr>close_on_idle := False\<rparr>)\<rparr>)"
    by (rule con [of w x "\<lambda>x. x\<lparr>close_on_idle := False\<rparr>"]) (use ok c in \<open>auto simp: U_def fun_upd_idem intro!: exI [of _ x]\<close>)
  then have first: "ends (on_con c (\<lambda>x. x\<lparr>close_on_idle := False\<rparr>) w) U"
    using c by (simp add: on_con_def)
  have "ends (Drop bEvent close c w) U"
    unfolding Drop_def ends_bind by (rule ends_mono [OF first] ends_mono [OF reclaimed] last [unfolded ends_bind] | assumption)+
  then show ?thesis by (rule ends_mono) (simp add: U_def)
qed

lemma io_ok_in_port:
  assumes ok: "io_ok E h w" and v: "ovs w v = Some o1" "bQueued o1" "v \<notin> set (in_port w)"
  shows "io_ok E h (w\<lparr>port := port w @ [Packet (Some (pOwnerCon o1)) v]\<rparr>)" (is "io_ok E h ?w")
proof -
  have same: "noted_for d ?w = noted_for d w" "queued_by d ?w = queued_by d w" "in_port ?w = in_port w @ [v]" for d
    by (simp_all add: noted_for_def in_port_def queued_by_def)
  have "con_ok h ?w d z \<longleftrightarrow> con_ok h w d z" "ov_ok E ?w u o2 \<longleftrightarrow> ov_ok E w u o2" for d z u o2
    unfolding con_ok_def ov_ok_def members_ok_def same by simp_all
  moreover have "packet_ok ?w p \<longleftrightarrow> packet_ok w p" for p by (induction p) auto
  ultimately show ?thesis using ok v unfolding io_ok_def same by simp
qed

text \<open>An operation is handed to the port, or ends at once when the port does not take it.\<close>

lemma io_ok_hand_over:
  assumes ok: "io_ok E h w" "0 < h c" and v: "ovs w v = Some o1" "bQueued o1" "pOwnerCon o1 = c" "v \<notin> set (in_port w)"
    and c: "cons w c = Some x"
  shows "ends (hand_over posted c v w) (\<lambda>(t, w'). (t \<longleftrightarrow> \<not> posted) \<and> (if posted then io_ok E h w' else io_ok (insert v E) h w')
    \<and> (\<exists>r. cons w' c = Some (x\<lparr>m_cRef := r\<rparr>)) \<and> (\<exists>o2. ovs w' v = Some o2 \<and> (bQueued o2 \<longleftrightarrow> posted) \<and> pOwnerCon o2 = c))"
proof (cases posted)
  case True
  then show ?thesis
    using io_ok_in_port [OF ok(1) v(1,2,4)] v c by (auto simp: hand_over_def intro!: exI [of _ "m_cRef x"])
next
  case False
  have "ends (releaseOVERLAPPED c v w) (\<lambda>w'. io_ok (insert v E) h w' \<and> (\<exists>r. cons w' c = Some (x\<lparr>m_cRef := r\<rparr>))
      \<and> (\<exists>o2. ovs w' v = Some o2 \<and> \<not> bQueued o2 \<and> pOwnerCon o2 = c))"
    by (rule ends_mono [OF io_ok_release [OF ok(1) v(1,2,4), unfolded v(3), OF ok(2) c]]) (use v in auto)
  then show ?thesis using False by (simp add: hand_over_def)
qed

lemma io_ok_PostOVERLAPPED:
  assumes ok: "io_ok E h w" "0 < h c" and c: "cons w c = Some x" and v: "m_pOVERLAPPED x k = Some v"
  shows "ends (PostOVERLAPPED posted c v e w) (\<lambda>(t, w'). io_ok E h w')"
proof -
  obtain o1 where o1: "ovs w v = Some o1" "pOwnerCon o1 = c" using io_ok_member [OF ok(1) c v] by blast
  show ?thesis
  proof (cases "bQueued o1 \<or> (0 < dwBytesMax o1 \<and> \<not> pBuffer o1)")
    case True
    then show ?thesis using ok o1 by (simp add: PostOVERLAPPED_def)
  next
    case False
    let ?o = "o1\<lparr>bQueued := True, hr := e\<rparr>"
    note out = not_in_port [OF ok(1) o1(1)]
    have "ends (do { w \<leftarrow> prepareOVERLAPPED c v w; w \<leftarrow> on_ov v (\<lambda>x. x\<lparr>hr := e\<rparr>) w; hand_over posted c v w }) (\<lambda>(t, w'). io_ok E h w')"
      unfolding ends_bind
    proof (rule ends_mono [OF io_ok_prepare [OF ok(1) o1(1) _ c [folded o1(2)], unfolded o1(2)]])
      fix w1 assume a: "io_ok (E - {v}) h w1 \<and> noted w1 = noted w \<and> ovs w1 = (ovs w)(v \<mapsto> o1\<lparr>bQueued := True, hr := 0\<rparr>)
        \<and> port w1 = port w \<and> cons w1 = (cons w)(c \<mapsto> x\<lparr>m_cRef := m_cRef x + 1\<rparr>)"
      let ?w = "w1\<lparr>ovs := (ovs w1)(v \<mapsto> ?o)\<rparr>"
      have ok2: "io_ok (E - {v}) h ?w"
        using io_ok_on_ov [of "E - {v}" h w1 v "o1\<lparr>bQueued := True, hr := 0\<rparr>" ?o h] a o1 by simp
      have "ends (hand_over posted c v ?w) (\<lambda>(t, w'). io_ok E h w')"
      proof (rule ends_mono [OF io_ok_hand_over [OF ok2 ok(2), of v ?o "x\<lparr>m_cRef := m_cRef x + 1\<rparr>" posted]])
        show "v \<notin> set (in_port ?w)" using out False a by (simp add: in_port_def)
        fix r :: "bool \<times> io" assume "case r of (t, w') \<Rightarrow> (t \<longleftrightarrow> \<not> posted) \<and> (if posted then io_ok (E - {v}) h w' else io_ok (insert v (E - {v})) h w')
          \<and> (\<exists>r. cons w' c = Some (x\<lparr>m_cRef := m_cRef x + 1, m_cRef := r\<rparr>))
          \<and> (\<exists>o2. ovs w' v = Some o2 \<and> (bQueued o2 \<longleftrightarrow> posted) \<and> pOwnerCon o2 = c)"
        then show "case r of (t, w') \<Rightarrow> io_ok E h w'"
          using v by (auto split: if_splits intro: io_ok_weaken io_ok_off)
      qed (use a o1 in simp_all)
      then show "ends (on_ov v (\<lambda>x. x\<lparr>hr := e\<rparr>) w1) (\<lambda>w. ends (hand_over posted c v w) (\<lambda>(t, w'). io_ok E h w'))"
        using a by (simp add: on_ov_def)
    qed (use False in simp)
    then show ?thesis using False o1 by (auto simp: PostOVERLAPPED_def)
  qed
qed

lemma io_ok_prepare_hand_over:
  assumes ok: "io_ok E h w" "0 < h c" and c: "cons w c = Some x" and v: "ovs w v = Some o1" "pOwnerCon o1 = c" "\<not> bQueued o1"
  shows "ends (do { w \<leftarrow> prepareOVERLAPPED c v w; hand_over posted c v w })
    (\<lambda>(t, w'). (t \<longleftrightarrow> \<not> posted) \<and> (if posted then io_ok (E - {v}) h w' else io_ok (insert v E) h w') \<and> (\<exists>r. cons w' c = Some (x\<lparr>m_cRef := r\<rparr>))
      \<and> (\<exists>o2. ovs w' v = Some o2 \<and> (bQueued o2 \<longleftrightarrow> posted) \<and> pOwnerCon o2 = c))"
  unfolding ends_bind
proof (rule ends_mono [OF io_ok_prepare [OF ok(1) v(1,3) c [folded v(2)], unfolded v(2)]])
  fix w1 assume a: "io_ok (E - {v}) h w1 \<and> noted w1 = noted w \<and> ovs w1 = (ovs w)(v \<mapsto> o1\<lparr>bQueued := True, hr := 0\<rparr>)
    \<and> port w1 = port w \<and> cons w1 = (cons w)(c \<mapsto> x\<lparr>m_cRef := m_cRef x + 1\<rparr>)"
  have "ends (hand_over posted c v w1) (\<lambda>(t, w'). (t \<longleftrightarrow> \<not> posted) \<and> (if posted then io_ok (E - {v}) h w' else io_ok (insert v (E - {v})) h w')
      \<and> (\<exists>r. cons w' c = Some (x\<lparr>m_cRef := m_cRef x + 1, m_cRef := r\<rparr>))
      \<and> (\<exists>o2. ovs w' v = Some o2 \<and> (bQueued o2 \<longleftrightarrow> posted) \<and> pOwnerCon o2 = c))"
    by (rule io_ok_hand_over [of "E - {v}" h w1 c v "o1\<lparr>bQueued := True, hr := 0\<rparr>", OF _ ok(2)])
      (use a v not_in_port [OF ok(1) v(1,3)] in \<open>simp_all add: in_port_def\<close>)
  then show "ends (hand_over posted c v w1) (\<lambda>(t, w'). (t \<longleftrightarrow> \<not> posted) \<and> (if posted then io_ok (E - {v}) h w' else io_ok (insert v E) h w')
      \<and> (\<exists>r. cons w' c = Some (x\<lparr>m_cRef := r\<rparr>)) \<and> (\<exists>o2. ovs w' v = Some o2 \<and> (bQueued o2 \<longleftrightarrow> posted) \<and> pOwnerCon o2 = c))"
    by (rule ends_mono) (auto split: if_splits)
qed

lemma io_ok_RearmRecv:
  assumes ok: "io_ok E h w" "0 < h c"
  shows "ends (RearmRecv posted c w) (\<lambda>(t, w'). io_ok E h w')"
proof -
  obtain x where c: "cons w c = Some x" using io_ok_live [OF ok] by blast
  show ?thesis
  proof (cases "m_pOVERLAPPED x RecvOv")
    case None
    then show ?thesis using ok c by (simp add: RearmRecv_def)
  next
    case (Some v)
    obtain o1 where o1: "ovs w v = Some o1" "pOwnerCon o1 = c" using io_ok_member [OF ok(1) c Some] by blast
    show ?thesis
    proof (cases "bQueued o1 \<or> bParked o1 \<or> bDelete o1 \<or> \<not> m_hCPort x")
      case True
      then show ?thesis using ok c Some o1 by (simp add: RearmRecv_def)
    next
      case False
      have "ends (do { w \<leftarrow> prepareOVERLAPPED c v w; hand_over posted c v w }) (\<lambda>(t, w'). io_ok E h w')"
        using False Some o1 by (intro ends_mono [OF io_ok_prepare_hand_over [OF ok c]])
          (auto split: if_splits intro: io_ok_weaken io_ok_off)
      then show ?thesis using False c Some o1 by (auto simp: RearmRecv_def)
    qed
  qed
qed

lemma io_ok_Make:
  assumes ok: "io_ok E h w"
  shows "MakeOVERLAPPED c n w = (v, w') \<Longrightarrow> v = fresh w \<and> ovs w v = None \<and> io_ok (insert v E) h w' \<and> cons w' = cons w \<and> port w' = port w
    \<and> noted w' = noted w \<and> (\<exists>o1. ovs w' = (ovs w)(v \<mapsto> o1) \<and> \<not> bQueued o1 \<and> pOwnerCon o1 = c)"
proof -
  assume m: "MakeOVERLAPPED c n w = (v, w')"
  then have v: "v = fresh w" "cons w' = cons w" "port w' = port w" "noted w' = noted w" "fresh w' = Suc (fresh w)"
      "m_oCListP2PmsgCon w' = m_oCListP2PmsgCon w"
    and o1: "\<exists>o1. ovs w' = (ovs w)(v \<mapsto> o1) \<and> \<not> bQueued o1 \<and> pOwnerCon o1 = c \<and> nSigID o1 = 0"
    by (auto simp: MakeOVERLAPPED_def)
  have new: "ovs w v = None" using ok v(1) by (cases "ovs w v") (auto simp: io_ok_def ov_ok_def)
  have same: "noted_for d w' = noted_for d w" "in_port w' = in_port w" "queued_by d w' = queued_by d w" for d
    using v o1 new by (auto simp: noted_for_def in_port_def queued_by_def split: if_splits)
  have con: "con_ok h w' d z" if "cons w d = Some z" for d z
  proof -
    have z: "con_ok h w d z" using io_ok_con [OF ok that] .
    then have "members_ok w' d z" unfolding con_ok_def by (elim conjE members_okI) (use o1 new in auto)
    then show ?thesis using z v unfolding con_ok_def same by simp
  qed
  have ov: "ov_ok (insert v E) w' u o2" if "ovs w' u = Some o2" for u o2
    using that o1 v io_ok_ov [OF ok, of u o2] unfolding ov_ok_def by (auto simp: P2PsigIO_ACK_def split: if_splits)
  have "packet_ok w' p" if "packet_ok w p" for p using that o1 new by (induction p) auto
  then have "io_ok (insert v E) h w'" using con ov ok v unfolding io_ok_def same by simp
  then show ?thesis using v o1 new by auto
qed

lemma io_ok_Signal:
  assumes ok: "io_ok E h w" "0 < h c" and sig: "sig \<noteq> P2PsigIO_ACK"
  shows "ends (Signal posted c sig n w) (\<lambda>(t, w'). io_ok E h w')"
proof (cases "sig = P2PsigCon_RECV")
  case True
  then show ?thesis using io_ok_RearmRecv [OF ok] by (simp add: Signal_def)
next
  case False
  obtain x where c: "cons w c = Some x" using io_ok_live [OF ok] by blast
  obtain v w1 where m: "MakeOVERLAPPED c n w = (v, w1)" by (cases "MakeOVERLAPPED c n w")
  obtain o1 where w1: "io_ok (insert v E) h w1" "cons w1 c = Some x" "ovs w1 v = Some o1" "\<not> bQueued o1" "pOwnerCon o1 = c" "ovs w v = None"
    using io_ok_Make [OF ok(1) m] c by auto
  let ?o = "o1\<lparr>nSigID := sig\<rparr>"
  let ?w = "w1\<lparr>ovs := (ovs w1)(v \<mapsto> ?o)\<rparr>"
  have w2: "io_ok (insert v E) h ?w"
    using io_ok_on_ov [OF w1(1,3), of ?o h] w1 sig not_in_port [OF w1(1,3)] by simp
  have "ends (do { w \<leftarrow> prepareOVERLAPPED c v ?w; hand_over posted c v w })
      (\<lambda>(t, w'). ends (if t then DropOVERLAPPED c v w' else Some w') (\<lambda>w'. io_ok E h w'))"
  proof (rule ends_mono [OF io_ok_prepare_hand_over [OF w2 ok(2), of x v ?o posted]])
    fix r :: "bool \<times> io" assume a: "case r of (t, w') \<Rightarrow> (t \<longleftrightarrow> \<not> posted) \<and> (if posted then io_ok (insert v E - {v}) h w' else io_ok (insert v (insert v E)) h w')
      \<and> (\<exists>r. cons w' c = Some (x\<lparr>m_cRef := r\<rparr>)) \<and> (\<exists>o2. ovs w' v = Some o2 \<and> (bQueued o2 \<longleftrightarrow> posted) \<and> pOwnerCon o2 = c)"
    obtain t w' where r: "r = (t, w')" by (cases r)
    show "case r of (t, w') \<Rightarrow> ends (if t then DropOVERLAPPED c v w' else Some w') (\<lambda>w'. io_ok E h w')"
    proof (cases posted)
      case True
      then show ?thesis using a r by (auto intro: io_ok_weaken)
    next
      case False
      then obtain o2 y where o2: "t" "io_ok (insert v E) h w'" "ovs w' v = Some o2" "\<not> bQueued o2" "pOwnerCon o2 = c" "cons w' c = Some y"
        using a r by auto
      have "ends (DropOVERLAPPED c v w') (\<lambda>w'. io_ok E h w')"
        by (rule ends_mono [OF io_ok_DropOVERLAPPED [OF o2(2-4), of y, unfolded o2(5), OF o2(6)]]) (auto intro: io_ok_weaken)
      then show ?thesis using r o2(1) by simp
    qed
  qed (use w1 in simp_all)
  then show ?thesis
    using False m w1(3) unfolding Signal_def by (auto simp: on_ov_def case_prod_beta' elim!: ends_mono split: if_splits)
qed

lemma io_ok_make_member:
  assumes ok: "io_ok {} h w" "0 < h c"
  shows "ends (make_member c k n w) (io_ok {} h)"
proof -
  obtain x where c: "cons w c = Some x" using io_ok_live [OF ok] by blast
  show ?thesis
  proof (cases "m_pOVERLAPPED x k = None")
    case False
    then show ?thesis using ok c by (simp add: make_member_def)
  next
    case True
    obtain v w1 where m: "MakeOVERLAPPED c n w = (v, w1)" by (cases "MakeOVERLAPPED c n w")
    obtain o1 where w1: "io_ok {v} h w1" "cons w1 = cons w" "ovs w1 = (ovs w)(v \<mapsto> o1)" "\<not> bQueued o1" "pOwnerCon o1 = c" "ovs w v = None"
      using io_ok_Make [OF ok(1) m] by auto
    let ?y = "x\<lparr>m_pOVERLAPPED := (m_pOVERLAPPED x)(k \<mapsto> v)\<rparr>"
    let ?w = "w1\<lparr>cons := (cons w1)(c \<mapsto> ?y)\<rparr>"
    have same: "noted_for d ?w = noted_for d w1" "in_port ?w = in_port w1" "queued_by d ?w = queued_by d w1" for d
      by (simp_all add: noted_for_def in_port_def queued_by_def)
    have new: "m_pOVERLAPPED x k' \<noteq> Some v" for k' using io_ok_member [OF ok(1) c, of k' v] w1(6) by auto
    have mem: "members_ok w1 c x" using io_ok_con [OF w1(1), of c x] c w1(2) by (simp add: con_ok_def)
    then have "members_ok ?w c ?y" using w1(3,5) new unfolding members_ok_def by auto
    moreover have "members_ok ?w d z" if "members_ok w1 d z" for d z using that by (simp add: members_ok_def)
    ultimately have con: "con_ok h ?w d z" if "cons ?w d = Some z" for d z
      using that c w1(2) io_ok_con [OF w1(1), of d] unfolding con_ok_def same by (auto split: if_splits)
    have ov: "ov_ok {} ?w u o2" if u: "ovs ?w u = Some o2" for u o2
    proof (cases "u = v")
      case True
      then show ?thesis using u w1 io_ok_ov [OF w1(1), of v o1] unfolding ov_ok_def by auto
    next
      case False
      then show ?thesis
        using u io_ok_ov [OF w1(1), of u o2] c w1(2) True unfolding ov_ok_def
        by (auto split: if_splits) (metis option.distinct(1))
    qed
    have "packet_ok ?w p \<longleftrightarrow> packet_ok w1 p" for p by (induction p) auto
    then have "io_ok {} h ?w" using con ov w1(1) unfolding io_ok_def same by auto
    then show ?thesis using True c m w1(2) by (simp add: make_member_def on_con_def)
  qed
qed

text \<open>What a handler finds of its operation once it gave the operation's reference back.\<close>

lemma io_ok_settle:
  assumes ok: "io_ok {} h w" "0 < h c" and v: "ovs w v = Some o1" "bQueued o1" "pOwnerCon o1 = c" "v \<notin> set (in_port w)"
    and c: "cons w c = Some x" "m_pOVERLAPPED x k = Some v"
    and cont: "\<And>w' y o2. io_ok {} h w' \<Longrightarrow> cons w' c = Some y \<Longrightarrow> m_pOVERLAPPED y k = Some v \<Longrightarrow> ovs w' v = Some o2 \<Longrightarrow> \<not> bQueued o2
      \<Longrightarrow> pOwnerCon o2 = c \<Longrightarrow> ends (f w') (\<lambda>(t, w'). io_ok {} h w')"
  shows "ends (settle e c v f w) (\<lambda>(t, w'). io_ok {} h w')"
  unfolding settle_def ends_bind
proof (rule ends_mono [OF io_ok_release [OF ok(1) v(1,2,4), unfolded v(3), OF ok(2) c(1)]])
  fix w1 assume a: "io_ok (insert v {}) h w1 \<and> noted w1 = noted w \<and> ovs w1 = (ovs w)(v \<mapsto> o1\<lparr>bQueued := False\<rparr>)
    \<and> port w1 = port w \<and> cons w1 = (cons w)(c \<mapsto> x\<lparr>m_cRef := m_cRef x - 1\<rparr>)"
  let ?x = "x\<lparr>m_cRef := m_cRef x - 1\<rparr>" and ?o = "o1\<lparr>bQueued := False\<rparr>"
  have w1: "cons w1 c = Some ?x" "ovs w1 v = Some ?o" using a by simp_all
  have ok1: "io_ok {} h w1" by (rule io_ok_off [of v "{}" h w1 c ?x k]) (use a c in auto)
  have "ends (f w1) (\<lambda>(t, w'). io_ok {} h w')"
    by (rule cont [OF ok1 w1(1) _ w1(2)]) (use c v in simp_all)
  moreover have "ends (DropOVERLAPPED c v w1) (io_ok {} h)"
    using io_ok_DropOVERLAPPED [OF ok1 w1(2)] w1 v by (auto elim!: ends_mono)
  ultimately show "ends (cons w1 c) (\<lambda>x. ends (if e = 0 \<and> m_hFileCPort x then f w1
      else if e \<noteq> 0 \<and> m_hFileCPort x then Some (True, w1) else DropOVERLAPPED c v w1 \<bind> (\<lambda>w. Some (False, w))) (\<lambda>(t, w'). io_ok {} h w'))"
    using w1 ok1 by (auto elim!: ends_mono)
qed

lemma io_ok_received:
  assumes ok: "io_ok {} h w" "0 < h c" and c: "cons w c = Some x" "m_pOVERLAPPED x k = Some v"
    and v: "ovs w v = Some o1" "\<not> bQueued o1" "pOwnerCon o1 = c"
  shows "ends (received d c v w) (\<lambda>(t, w'). io_ok {} h w')"
  unfolding received_def ends_bind
proof (rule ends_mono [OF io_ok_post_all [OF ok(1) c(1)]])
  fix w1 assume a: "io_ok {} h w1 \<and> ovs w1 = ovs w \<and> (\<exists>r. cons w1 c = Some (x\<lparr>m_cRef := r\<rparr>))"
  then obtain r where r: "cons w1 c = Some (x\<lparr>m_cRef := r\<rparr>)" "io_ok {} h w1" "ovs w1 v = Some o1" using v by auto
  have "ends (do { w \<leftarrow> prepareOVERLAPPED c v w1; w \<leftarrow> on_ov v (\<lambda>x. x\<lparr>bRecvSubmitted := True\<rparr>) w; Some (False, w) }) (\<lambda>(t, w'). io_ok {} h w')"
    unfolding ends_bind
  proof (rule ends_mono [OF io_ok_prepare [OF r(2,3) v(2) r(1) [folded v(3)], unfolded v(3)]])
    fix w2 assume b: "io_ok ({} - {v}) h w2 \<and> noted w2 = noted w1 \<and> ovs w2 = (ovs w1)(v \<mapsto> o1\<lparr>bQueued := True, hr := 0\<rparr>)
      \<and> port w2 = port w1 \<and> cons w2 = (cons w1)(c \<mapsto> x\<lparr>m_cRef := r, m_cRef := m_cRef (x\<lparr>m_cRef := r\<rparr>) + 1\<rparr>)"
    then have "io_ok {} h (w2\<lparr>ovs := (ovs w2)(v \<mapsto> o1\<lparr>bQueued := True, hr := 0, bRecvSubmitted := True\<rparr>)\<rparr>)"
      using io_ok_on_ov [of "{}" h w2 v "o1\<lparr>bQueued := True, hr := 0\<rparr>" "o1\<lparr>bQueued := True, hr := 0, bRecvSubmitted := True\<rparr>" h] v
      by simp
    then show "ends (on_ov v (\<lambda>x. x\<lparr>bRecvSubmitted := True\<rparr>) w2) (\<lambda>w. ends (Some (False, w)) (\<lambda>(t, w'). io_ok {} h w'))"
      using b by (simp add: on_ov_def)
  qed
  then show "ends (if refused d then Some (True, w1) else if again d then do { w \<leftarrow> prepareOVERLAPPED c v w1;
      w \<leftarrow> on_ov v (\<lambda>x. x\<lparr>bRecvSubmitted := True\<rparr>) w; Some (False, w) } else Some (False, w1)) (\<lambda>(t, w'). io_ok {} h w')"
    using r(2) by simp
qed

lemma io_ok_Drop_held: "io_ok E h w \<Longrightarrow> 0 < h c \<Longrightarrow> ends (Drop b close c w) (io_ok E h)"
  using io_ok_live [of E h w c] by (auto intro: ends_mono [OF io_ok_Drop])

lemma io_ok_Post_held: "io_ok E h w \<Longrightarrow> 0 < h c \<Longrightarrow> ends (PostP2Pmsg c k w) (io_ok E h)"
  using io_ok_live [of E h w c] by (auto intro: ends_mono [OF io_ok_PostP2Pmsg])

lemma io_ok_con_held:
  "io_ok E h w \<Longrightarrow> 0 < h c \<Longrightarrow> (\<And>x. m_pOVERLAPPED (f x) = m_pOVERLAPPED x \<and> m_nP2PconID (f x) = m_nP2PconID x \<and> m_cRef (f x) = m_cRef x)
    \<Longrightarrow> ends (on_con c f w) (io_ok E h)"
  using io_ok_live [of E h w c] io_ok_on_con [of E h w c _ _ h] by (auto simp: on_con_def)

lemma io_ok_sent:
  assumes ok: "io_ok {} h w" "0 < h c" and c: "cons w c = Some x" "m_pOVERLAPPED x k = Some v"
    and v: "ovs w v = Some o1" "\<not> bQueued o1" "pOwnerCon o1 = c"
  shows "ends (sent d c v w) (\<lambda>(t, w'). io_ok {} h w')"
proof -
  let ?x = "x\<lparr>m_pP2PeerMsgSend := again d\<rparr>"
  let ?w = "w\<lparr>cons := (cons w)(c \<mapsto> ?x)\<rparr>"
  have ok1: "io_ok {} h ?w" by (rule io_ok_on_con [OF ok(1) c(1)]) simp_all
  have "ends (prepareOVERLAPPED c v ?w) (io_ok {} h)"
    using io_ok_prepare [OF ok1, of v o1 ?x] v by (auto elim!: ends_mono)
  moreover have "ends (Drop False (at_close d) c ?w) (io_ok {} h)" by (rule io_ok_Drop_held [OF ok1 ok(2)])
  ultimately show ?thesis using c ok1 by (auto simp: sent_def on_con_def elim!: ends_mono)
qed

lemma io_ok_connected:
  assumes "io_ok {} h w" "0 < h c"
  shows "ends (connected d c w) (\<lambda>(t, w'). io_ok {} h w')"
proof -
  have make: "ends (make_member c k n w') (io_ok {} h)" if "io_ok {} h w'" for k n w'
    using that assms(2) by (rule io_ok_make_member)
  have post: "ends (PostP2Pmsg c k w') (io_ok {} h)" if "io_ok {} h w'" for k w'
    using that assms(2) by (rule io_ok_Post_held)
  show ?thesis
    unfolding connected_def ends_bind using assms(1)
    by (auto intro!: ends_mono [OF make] ends_mono [OF post])
qed

lemma io_ok_signalled:
  assumes ok: "io_ok {} h w" "0 < h c"
  shows "ends (signalled sig d c w) (\<lambda>(t, w'). io_ok {} h w')"
proof -
  obtain x where c: "cons w c = Some x" using io_ok_live [OF ok] by blast
  have drop: "ends (Drop b close c w') (io_ok {} h)" if "io_ok {} h w'" for b close w'
    using that ok(2) by (rule io_ok_Drop_held)
  have post: "ends (PostP2Pmsg c k w') (io_ok {} h)" if "io_ok {} h w'" for k w'
    using that ok(2) by (rule io_ok_Post_held)
  have idle: "io_ok {} h (w\<lparr>cons := (cons w)(c \<mapsto> x\<lparr>close_on_idle := b\<rparr>)\<rparr>)" for b
    by (rule io_ok_on_con [OF ok(1) c]) simp_all
  have marked: "io_ok {} h (w\<lparr>cons := (cons w)(c \<mapsto> x\<lparr>m_bDestroy := True\<rparr>)\<rparr>)"
    by (rule io_ok_on_con [OF ok(1) c]) simp_all
  have msg: "ends (post_all c (arrived d) w) (io_ok {} h)"
    by (rule ends_mono [OF io_ok_post_all [OF ok(1) c]]) simp
  show ?thesis
    unfolding signalled_def using msg drop [OF ok(1)] drop [OF idle] post [OF marked] idle c
    by (simp add: on_con_def Destroy_def)
qed

text \<open>A completion, under the reference of the pump.\<close>

lemma io_ok_completed:
  assumes ok: "io_ok {} h w" "0 < h c" and v: "ovs w v = Some o1" "bQueued o1" "pOwnerCon o1 = c" "v \<notin> set (in_port w)"
  shows "ends (On_QueuedCompletionStatus e d c v w) (\<lambda>(t, w'). io_ok {} h w')"
proof -
  obtain x where c: "cons w c = Some x" using io_ok_live [OF ok] by blast
  have accept: "ends (do { w' \<leftarrow> PostP2Pmsg c P2P_Accept w'; Some (False, w') }) (\<lambda>(t, w'). io_ok {} h w')" if "io_ok {} h w'" for w'
    using io_ok_Post_held [OF that, of c] ok(2) by simp
  note settled = io_ok_settle [OF ok v c]
  have recv: "ends (settle f c v (received d c v) (w\<lparr>ovs := (ovs w)(v \<mapsto> o1\<lparr>bRecvSubmitted := False\<rparr>)\<rparr>)) (\<lambda>(t, w'). io_ok {} h w')"
    if k: "m_pOVERLAPPED x RecvOv = Some v" for f
  proof -
    have "io_ok {} h (w\<lparr>ovs := (ovs w)(v \<mapsto> o1\<lparr>bRecvSubmitted := False\<rparr>)\<rparr>)" (is "io_ok {} h ?w")
      using io_ok_on_ov [OF ok(1) v(1), of "o1\<lparr>bRecvSubmitted := False\<rparr>" h] io_ok_ov [OF ok(1) v(1)] v by (simp add: ov_ok_def)
    then show ?thesis
      by (rule io_ok_settle [of h ?w c v "o1\<lparr>bRecvSubmitted := False\<rparr>" x RecvOv]) (use v c k ok(2) in \<open>auto simp: in_port_def intro: io_ok_received\<close>)
  qed
  have loose: "ends (releaseOVERLAPPED c v w) (\<lambda>w'. ends (DropOVERLAPPED c v w') (io_ok {} h))"
  proof (rule ends_mono [OF io_ok_release [OF ok(1) v(1,2,4), unfolded v(3), OF ok(2) c]])
    fix w1 assume a: "io_ok {v} h w1 \<and> noted w1 = noted w \<and> ovs w1 = (ovs w)(v \<mapsto> o1\<lparr>bQueued := False\<rparr>)
      \<and> port w1 = port w \<and> cons w1 = (cons w)(c \<mapsto> x\<lparr>m_cRef := m_cRef x - 1\<rparr>)"
    show "ends (DropOVERLAPPED c v w1) (io_ok {} h)"
      using io_ok_DropOVERLAPPED [of "{v}" h w1 v "o1\<lparr>bQueued := False\<rparr>"] a v(3) by (auto elim!: ends_mono)
  qed
  have sig: "ends (signalled (nSigID o1) d c w') (\<lambda>(t, w'). io_ok {} h w')" if "io_ok {} h w'" for w'
    using that ok(2) by (rule io_ok_signalled)
  have ack: "nSigID o1 \<noteq> P2PsigIO_ACK" using io_ok_ov [OF ok(1) v(1)] by (simp add: ov_ok_def)
  have sent: "ends (settle f c v (sent d c v) w) (\<lambda>(t, w'). io_ok {} h w')" if "m_pOVERLAPPED x SendOv = Some v" for f
    using that ok(2) by (intro settled) (auto intro: io_ok_sent)
  have accepted: "ends (settle f c v (\<lambda>w. do { w \<leftarrow> PostP2Pmsg c P2P_Accept w; Some (False, w) }) w) (\<lambda>(t, w'). io_ok {} h w')"
    if "m_pOVERLAPPED x AcceptOv = Some v" for f
    using that accept by (intro settled)
  have conn: "ends (settle f c v (connected d c) w) (\<lambda>(t, w'). io_ok {} h w')" if "m_pOVERLAPPED x ConnectOv = Some v" for f
    using that ok(2) by (intro settled) (auto intro: io_ok_connected)
  have rest1: "ends (releaseOVERLAPPED c v w) (\<lambda>w'. ends (DropOVERLAPPED c v w') (\<lambda>w'. ends (signalled (nSigID o1) d c w') (\<lambda>(t, w'). io_ok {} h w')))"
    using loose sig by (auto elim!: ends_mono)
  show ?thesis
    unfolding On_QueuedCompletionStatus_def accept_done_def acknowledged_def using recv sent accepted conn rest1 loose c v ack
    by (simp add: Let_def on_ov_def)
qed

text \<open>The pump at the first packet of the port.\<close>

lemma io_ok_pop:
  assumes ok: "io_ok E h w" and p: "port w = p # ps"
  shows "io_ok E h (w\<lparr>port := ps\<rparr>)" "set (packet_of p) \<inter> set (in_port (w\<lparr>port := ps\<rparr>)) = {}" "packet_ok w p"
proof -
  let ?w = "w\<lparr>port := ps\<rparr>"
  have same: "noted_for d ?w = noted_for d w" "queued_by d ?w = queued_by d w" "in_port w = packet_of p @ in_port ?w" for d
    using p by (simp_all add: noted_for_def in_port_def queued_by_def)
  have "con_ok h ?w d z \<longleftrightarrow> con_ok h w d z" "ov_ok E ?w u o2 \<longleftrightarrow> ov_ok E w u o2" for d z u o2
    unfolding con_ok_def ov_ok_def members_ok_def same by simp_all
  moreover have "packet_ok ?w q \<longleftrightarrow> packet_ok w q" for q by (induction q) auto
  ultimately show "io_ok E h ?w" "set (packet_of p) \<inter> set (in_port ?w) = {}" "packet_ok w p"
    using ok p same(3) unfolding io_ok_def same(1,2) by auto
qed

lemma io_ok_pump:
  assumes ok: "io_ok {} h w" and p: "port w = p # ps"
  shows "ends (pump_packet e d p (w\<lparr>port := ps\<rparr>)) (io_ok {} h)"
proof (cases "\<exists>c v. p = Packet (Some c) v")
  case False
  then show ?thesis
    using io_ok_pop(1) [OF assms] by (cases p; cases "case p of Packet k v \<Rightarrow> k | _ \<Rightarrow> None") (auto simp: pump_packet_def)
next
  case True
  then obtain c v where p': "p = Packet (Some c) v" by blast
  let ?w = "w\<lparr>port := ps\<rparr>"
  note q = io_ok_pop [OF assms]
  obtain o1 where o1: "ovs w v = Some o1" "bQueued o1" "pOwnerCon o1 = c" using q(3) p' by auto
  obtain x where c: "cons w c = Some x" using io_ok_ov [OF ok o1(1)] o1 by (auto simp: ov_ok_def)
  let ?h = "h(c := Suc (h c))" and ?x = "x\<lparr>m_cRef := m_cRef x + 1, m_hCPort := True\<rparr>"
  let ?v = "?w\<lparr>cons := (cons w)(c \<mapsto> ?x)\<rparr>"
  have ok1: "io_ok {} ?h ?v" using io_ok_on_con [OF q(1), of c x ?x ?h] c by simp
  have drop: "ends (Drop True close c w') (io_ok {} ?h)" if "io_ok {} ?h w'" for close w'
    using io_ok_Drop_held [OF that, of c] by simp
  have rel: "ends (Release c w') (io_ok {} h)" if r: "io_ok {} ?h w'" for w'
  proof -
    obtain y where "cons w' c = Some y" using io_ok_live [OF r, of c] by auto
    from io_ok_Release [OF r _ this, of "h c"] show ?thesis by (auto elim!: ends_mono)
  qed
  have "ends (On_QueuedCompletionStatus e d c v ?v) (\<lambda>(t, w'). io_ok {} ?h w')"
    by (rule io_ok_completed [OF ok1, of c v o1]) (use o1 q(2) p' in \<open>auto simp: in_port_def\<close>)
  then have "ends (On_QueuedCompletionStatus e d c v ?v) (\<lambda>(t, w'). ends (if t then Drop True (at_close d) c w' else Some w')
      (\<lambda>w'. ends (Release c w') (io_ok {} h)))"
    by (rule ends_mono) (auto intro!: ends_mono [OF drop] rel split: if_splits)
  then show ?thesis using p' c by (simp add: pump_packet_def AddRef_def on_con_def case_prod_beta' split_beta)
qed

section \<open>Nothing deleted is touched\<close>

text \<open>
  What may happen to connections: calls by those who hold a reference, the transport completing an operation, the pump
  taking a packet or being done with a notification.  A connection is created by one who then holds it.
\<close>

datatype event = Creates addr | Registers addr nat | Holds addr | LetsGo addr | Marks addr | Opens addr
  | Makes addr member nat | Posts addr member "32 word" bool | Rearms addr bool | Signals addr nat nat bool
  | Drops addr bool bool | Completes "addr option" addr | Pumps "32 word" verdict | Finishes

definition con_new :: tcon where
  "con_new = \<lparr>m_cRef = 1, m_bDestroy = False, m_nP2PconID = 0, m_hFile = False, m_hFileCPort = False, m_hCPort = True,
    m_pOVERLAPPED = (\<lambda>_. None), m_pP2PeerMsgSend = False, close_on_idle = False, m_pEvent = False\<rparr>"

fun can :: "event \<Rightarrow> (addr \<Rightarrow> nat) \<Rightarrow> io \<Rightarrow> bool" where
  "can (Creates c) h w = (cons w c = None)"
| "can (Registers c i) h w = (0 < h c \<and> 0 < i \<and> c \<notin> set (m_oCListP2PmsgCon w))"
| "can (Holds c) h w = (0 < h c)"
| "can (LetsGo c) h w = (0 < h c)"
| "can (Marks c) h w = (0 < h c)"
| "can (Opens c) h w = (0 < h c)"
| "can (Makes c k n) h w = (0 < h c)"
| "can (Posts c k e posted) h w = (0 < h c \<and> (case cons w c of None \<Rightarrow> False | Some x \<Rightarrow> m_pOVERLAPPED x k \<noteq> None))"
| "can (Rearms c posted) h w = (0 < h c)"
| "can (Signals c sig n posted) h w = (0 < h c \<and> sig \<noteq> P2PsigIO_ACK)"
| "can (Drops c bEvent close) h w = (0 < h c)"
| "can (Completes key v) h w = (case ops w v of None \<Rightarrow> False | Some c \<Rightarrow> v \<notin> set (in_port w) \<and> (key = None \<or> key = Some c))"
| "can (Pumps e d) h w = (port w \<noteq> [])"
| "can Finishes h w = (noted w \<noteq> [])"

fun does :: "event \<Rightarrow> io \<Rightarrow> io option" where
  "does (Creates c) w = Some (w\<lparr>cons := (cons w)(c \<mapsto> con_new)\<rparr>)"
| "does (Registers c i) w = do {
     w \<leftarrow> on_con c (\<lambda>x. x\<lparr>m_nP2PconID := i\<rparr>) w;
     Some (w\<lparr>m_oCListP2PmsgCon := m_oCListP2PmsgCon w @ [c]\<rparr>) }"
| "does (Holds c) w = AddRef c w"
| "does (LetsGo c) w = Release c w"
| "does (Marks c) w = Destroy c w"
| "does (Opens c) w = on_con c (\<lambda>x. x\<lparr>m_hFile := True, m_hFileCPort := True\<rparr>) w"
| "does (Makes c k n) w = make_member c k n w"
| "does (Posts c k e posted) w = do {
     x \<leftarrow> cons w c;
     v \<leftarrow> m_pOVERLAPPED x k;
     (t, w) \<leftarrow> PostOVERLAPPED posted c v e w;
     Some w }"
| "does (Rearms c posted) w = do { (t, w) \<leftarrow> RearmRecv posted c w; Some w }"
| "does (Signals c sig n posted) w = do { (t, w) \<leftarrow> Signal posted c sig n w; Some w }"
| "does (Drops c bEvent close) w = Drop bEvent close c w"
| "does (Completes key v) w = Some (w\<lparr>port := port w @ [Packet key v]\<rparr>)"
| "does (Pumps e d) w = (case port w of [] \<Rightarrow> Some w | p # ps \<Rightarrow> pump_packet e d p (w\<lparr>port := ps\<rparr>))"
| "does Finishes w = finish_note w"

fun after :: "event \<Rightarrow> (addr \<Rightarrow> nat) \<Rightarrow> addr \<Rightarrow> nat" where
  "after (Creates c) h = h(c := 1)"
| "after (Holds c) h = h(c := Suc (h c))"
| "after (LetsGo c) h = h(c := h c - 1)"
| "after _ h = h"

text \<open>A run: what cannot happen does not.\<close>

fun run :: "event list \<Rightarrow> (addr \<Rightarrow> nat) \<Rightarrow> io \<Rightarrow> ((addr \<Rightarrow> nat) \<times> io) option" where
  "run [] h w = Some (h, w)"
| "run (e # es) h w =
    (if can e h w then (case does e w of None \<Rightarrow> None | Some w' \<Rightarrow> run es (after e h) w') else run es h w)"

definition io_new :: io where
  "io_new = \<lparr>ovs = (\<lambda>_. None), cons = (\<lambda>_. None), fresh = 0, port = [], m_oCListP2PmsgCon = [], noted = []\<rparr>"

lemma io_ok_Creates:
  assumes ok: "io_ok E h w" and c: "cons w c = None"
  shows "io_ok E (h(c := 1)) (w\<lparr>cons := (cons w)(c \<mapsto> con_new)\<rparr>)" (is "io_ok E ?h ?w")
proof -
  have same: "noted_for d ?w = noted_for d w" "queued_by d ?w = queued_by d w" "in_port ?w = in_port w" for d
    by (simp_all add: noted_for_def in_port_def queued_by_def)
  have "queued_by c w = {}" using ok c unfolding io_ok_def ov_ok_def queued_by_def by fastforce
  moreover have z: "h c = 0 \<and> noted_for c w = 0" "c \<notin> set (m_oCListP2PmsgCon w)" using ok c unfolding io_ok_def by auto
  ultimately have "con_ok ?h ?w d x" if "cons ?w d = Some x" for d x
    using that io_ok_con [OF ok, of d x] unfolding con_ok_def same members_ok_def by (auto simp: con_new_def split: if_splits)
  moreover have "ov_ok E ?w v o1" if "ovs w v = Some o1" for v o1
    using io_ok_ov [OF ok that] c unfolding ov_ok_def by (auto split: if_splits)
  moreover have "packet_ok ?w q \<longleftrightarrow> packet_ok w q" for q by (induction q) auto
  ultimately show ?thesis using ok z unfolding io_ok_def same by auto
qed

lemma io_ok_Registers:
  assumes ok: "io_ok E h w" and c: "cons w c = Some x" and i: "0 < i" "c \<notin> set (m_oCListP2PmsgCon w)"
  shows "io_ok E h (w\<lparr>cons := (cons w)(c \<mapsto> x\<lparr>m_nP2PconID := i\<rparr>), m_oCListP2PmsgCon := m_oCListP2PmsgCon w @ [c]\<rparr>)" (is "io_ok E h ?w")
proof -
  have same: "noted_for d ?w = noted_for d w" "queued_by d ?w = queued_by d w" "in_port ?w = in_port w" for d
    by (simp_all add: noted_for_def in_port_def queued_by_def)
  have "con_ok h ?w d y" if "cons ?w d = Some y" for d y
    using that io_ok_con [OF ok, of d] c i unfolding con_ok_def same members_ok_def by (auto split: if_splits)
  moreover have "ov_ok E ?w v o1" if "ovs w v = Some o1" for v o1
    using io_ok_ov [OF ok that] c unfolding ov_ok_def by (auto split: if_splits)
  moreover have "packet_ok ?w q \<longleftrightarrow> packet_ok w q" for q by (induction q) auto
  ultimately show ?thesis using ok i unfolding io_ok_def same by auto
qed

lemma io_ok_Release_held:
  assumes "io_ok E h w" "h c = Suc n"
  shows "ends (Release c w) (io_ok E (h(c := n)))"
proof -
  obtain x where "cons w c = Some x" using io_ok_live [OF assms(1), of c] assms(2) by auto
  from io_ok_Release [OF assms this] show ?thesis by (auto elim: ends_mono)
qed

lemma io_ok_Completes:
  assumes ok: "io_ok E h w" and v: "ops w v = Some c" "v \<notin> set (in_port w)" "key = None \<or> key = Some c"
  shows "io_ok E h (w\<lparr>port := port w @ [Packet key v]\<rparr>)" (is "io_ok E h ?w")
proof -
  have same: "noted_for d ?w = noted_for d w" "queued_by d ?w = queued_by d w" "in_port ?w = in_port w @ [v]" for d
    by (simp_all add: noted_for_def in_port_def queued_by_def)
  have "con_ok h ?w d z \<longleftrightarrow> con_ok h w d z" "ov_ok E ?w u o2 \<longleftrightarrow> ov_ok E w u o2" for d z u o2
    unfolding con_ok_def ov_ok_def members_ok_def same by simp_all
  moreover have "packet_ok ?w q \<longleftrightarrow> packet_ok w q" for q by (induction q) auto
  moreover have "packet_ok w (Packet key v)" using v by (auto simp: ops_def split: option.splits if_splits)
  ultimately show ?thesis using ok v unfolding io_ok_def same by simp
qed

lemma io_ok_Finishes:
  assumes ok: "io_ok E h w"
  shows "ends (finish_note w) (io_ok E h)"
proof (cases "noted w")
  case (Cons n ns)
  obtain c k where n: "n = (c, k)" by (cases n)
  let ?w = "w\<lparr>noted := ns\<rparr>"
  have same: "in_port ?w = in_port w" "queued_by d ?w = queued_by d w"
      "noted_for d w = (if d = c then Suc (noted_for d ?w) else noted_for d ?w)" for d
    using Cons n by (simp_all add: noted_for_def in_port_def queued_by_def)
  have "con_ok (h(c := Suc (h c))) ?w d x" if "cons w d = Some x" for d x
    using io_ok_con [OF ok that] unfolding con_ok_def same(1,2) same(3) [of d] members_ok_def by (auto split: if_splits)
  moreover have "ov_ok E ?w v o1 \<longleftrightarrow> ov_ok E w v o1" for v o1 by (simp add: ov_ok_def)
  moreover have "packet_ok ?w q \<longleftrightarrow> packet_ok w q" for q by (induction q) auto
  moreover have "cons w d \<noteq> None" if "0 < (h(c := Suc (h c))) d + noted_for d ?w" for d
    using that ok same(3) [of d] unfolding io_ok_def by (auto split: if_splits)
  ultimately have "io_ok E (h(c := Suc (h c))) ?w" using ok unfolding io_ok_def same(1,2) by simp
  from io_ok_Release_held [OF this, of c "h c"] show ?thesis using Cons n by (simp add: finish_note_def)
qed (simp add: finish_note_def ok)

lemma io_ok_event:
  assumes ok: "io_ok {} h w" and e: "can e h w"
  shows "ends (does e w) (io_ok {} (after e h))"
proof (cases e)
  case (Posts c k f posted)
  then obtain x v where "0 < h c" "cons w c = Some x" "m_pOVERLAPPED x k = Some v" using e by (auto split: option.splits)
  then show ?thesis using Posts io_ok_PostOVERLAPPED [OF ok, of c x k v posted f] by (auto simp: case_prod_beta' elim!: ends_mono)
next
  case (Completes key v)
  then show ?thesis using e io_ok_Completes [OF ok, of v _ key] by (auto split: option.splits)
next
  case (LetsGo c)
  then show ?thesis using e io_ok_Release_held [OF ok, of c "h c - 1"] by simp
next
  case (Holds c)
  then obtain x where "cons w c = Some x" using e io_ok_live [OF ok] by auto
  then show ?thesis using Holds io_ok_AddRef [OF ok] by simp
next
  case (Registers c i)
  then obtain x where "cons w c = Some x" using e io_ok_live [OF ok] by auto
  then show ?thesis using Registers e io_ok_Registers [OF ok, of c x i] by (simp add: on_con_def)
next
  case (Pumps f d)
  then show ?thesis using e io_ok_pump [OF ok] by (cases "port w") auto
next
  case (Rearms c posted)
  then show ?thesis using e io_ok_RearmRecv [OF ok, of c posted] by (auto simp: case_prod_beta' elim!: ends_mono)
next
  case (Signals c sig n posted)
  then show ?thesis using e io_ok_Signal [OF ok, of c sig posted n] by (auto simp: case_prod_beta' elim!: ends_mono)
next
  case (Makes c k n)
  then show ?thesis using e io_ok_make_member [OF ok, of c k n] by simp
qed (use e io_ok_Creates [OF ok] io_ok_con_held [OF ok] io_ok_Drop_held [OF ok] io_ok_Finishes [OF ok] in \<open>auto simp: Destroy_def\<close>)

lemma io_ok_run:
  "io_ok {} h w \<Longrightarrow> ends (run es h w) (\<lambda>(h, w). io_ok {} h w)"
proof (induction es arbitrary: h w)
  case (Cons e es)
  show ?case
  proof (cases "can e h w")
    case True
    then show ?thesis using io_ok_event [OF Cons.prems True] Cons.IH by (auto simp: ends_def)
  qed (use Cons in simp)
qed simp

lemma io_ok_new: "io_ok {} (\<lambda>_. 0) io_new"
  by (simp add: io_ok_def io_new_def in_port_def noted_for_def)

lemmas run_evals = con_new_def io_new_def make_member_def MakeOVERLAPPED_def on_con_def on_ov_def RearmRecv_def prepareOVERLAPPED_def
  hand_over_def AddRef_def Release_def in_port_def

text \<open>
  C15: whatever happens to connections, in any order and however the transport completes operations, no deleted
  connection and no deleted operation is touched; the count of a connection is the references of its holders, of its
  notifications and of its operations under way, and each operation under way belongs to a connection that is there.
\<close>
theorem no_access_after_delete:
  "\<exists>h w. run es (\<lambda>_. 0) io_new = Some (h, w)
    \<and> (\<forall>c x. cons w c = Some x \<longrightarrow> m_cRef x = int (h c + noted_for c w + card (queued_by c w)))
    \<and> (\<forall>c. queued_by c w \<noteq> {} \<longrightarrow> cons w c \<noteq> None)"
proof -
  obtain h w where w: "run es (\<lambda>_. 0) io_new = Some (h, w)" "io_ok {} h w"
    using io_ok_run [OF io_ok_new, of es] by (auto simp: ends_def)
  have "cons w c \<noteq> None" if "queued_by c w \<noteq> {}" for c
    using that io_ok_ov [OF w(2)] unfolding queued_by_def ov_ok_def by fastforce
  then show ?thesis using w io_ok_con [OF w(2)] by (auto simp: con_ok_def)
qed

theorem no_access_after_delete_witness:
  "\<exists>h w x. run [Creates 0, Opens 0, Makes 0 RecvOv 16, Rearms 0 True, LetsGo 0] (\<lambda>_. 0) io_new = Some (h, w)
    \<and> cons w 0 = Some x \<and> h 0 = 0 \<and> m_cRef x = int (card (queued_by 0 w))"
  (is "\<exists>h w x. ?run = Some (h, w) \<and> _ w x \<and> _")
proof -
  obtain h w where w: "?run = Some (h, w)" "\<forall>c x. cons w c = Some x \<longrightarrow> m_cRef x = int (h c + noted_for c w + card (queued_by c w))"
    using no_access_after_delete [of "[Creates 0, Opens 0, Makes 0 RecvOv 16, Rearms 0 True, LetsGo 0]"] by blast
  have "\<exists>x. cons w 0 = Some x" "h 0 = 0" "noted w = []"
    using w(1) by (auto simp: run_evals)
  then show ?thesis using w by (auto simp: noted_for_def)
qed

section \<open>Closing a hub\<close>

definition held_by :: "addr list \<Rightarrow> (addr \<Rightarrow> nat) \<Rightarrow> addr \<Rightarrow> nat" where
  "held_by pins h c = (if c \<in> set pins then Suc (h c) else h c)"

definition marked :: "addr set \<Rightarrow> io \<Rightarrow> bool" where
  "marked C w \<longleftrightarrow> (\<forall>c \<in> C. \<exists>x. cons w c = Some x \<and> m_bDestroy x)"

lemma pins_taken:
  assumes "io_ok E h w" "distinct pins" "\<forall>c \<in> set pins. cons w c \<noteq> None"
  shows "ends (each AddRef pins w) (\<lambda>w'. io_ok E (held_by pins h) w' \<and> same_ops w w' \<and> noted w' = noted w)"
  using assms
proof (induction pins arbitrary: h w)
  case Nil
  then show ?case by (simp add: held_by_def)
next
  case (Cons c pins)
  obtain x where c: "cons w c = Some x" using Cons.prems(3) by auto
  let ?w = "w\<lparr>cons := (cons w)(c \<mapsto> x\<lparr>m_cRef := m_cRef x + 1\<rparr>)\<rparr>"
  have h: "held_by pins (h(c := Suc (h c))) = held_by (c # pins) h" using Cons.prems(2) by (auto simp: held_by_def)
  have "ends (each AddRef pins ?w) (\<lambda>w'. io_ok E (held_by pins (h(c := Suc (h c)))) w' \<and> same_ops ?w w' \<and> noted w' = noted ?w)"
    by (rule Cons.IH [OF io_ok_AddRef(2) [OF Cons.prems(1) c]]) (use Cons.prems in auto)
  moreover have "same_ops ?w w' = same_ops w w'" for w' by (rule same_ops_con(2) [OF c]) simp
  ultimately show ?case unfolding h using io_ok_AddRef(1) [OF Cons.prems(1) c] by simp
qed

text \<open>The sweep marks every connection of the list and drops it; nothing leaves the list, no operation ends.\<close>

lemma swept:
  assumes "io_ok E h w" "\<forall>c \<in> set (m_oCListP2PmsgCon w). 0 < h c" "marked (set (take i (m_oCListP2PmsgCon w))) w"
  shows "ends (sweep i w) (\<lambda>w'. io_ok E h w' \<and> same_ops w w' \<and> noted w' = noted w \<and> marked (set (m_oCListP2PmsgCon w)) w')"
  using assms
proof (induction i w rule: sweep.induct)
  case (1 i w)
  show ?case
  proof (cases "i < length (m_oCListP2PmsgCon w)")
    case False
    then show ?thesis using 1 by (simp add: sweep.simps [of i w])
  next
    case True
    define c where "c = m_oCListP2PmsgCon w ! i"
    have c: "c \<in> set (m_oCListP2PmsgCon w)" "0 < h c" using True 1 by (auto simp: c_def)
    then obtain x where x: "cons w c = Some x" using io_ok_live [OF "1.prems"(1)] by blast
    let ?x = "x\<lparr>m_bDestroy := True\<rparr>"
    let ?w = "w\<lparr>cons := (cons w)(c \<mapsto> ?x)\<rparr>"
    have d: "Destroy c w = Some ?w" using x by (simp add: Destroy_def on_con_def)
    have ok: "io_ok E h ?w" by (rule io_ok_on_con [OF "1.prems"(1) x]) simp_all
    have op: "same_ops ?w w' \<longleftrightarrow> same_ops w w'" for w' by (rule same_ops_con(2) [OF x]) simp
    obtain w2 y where w2: "Drop False False c ?w = Some w2" "io_ok E h w2" "same_ops w w2" "noted w2 = noted w"
        "cons w2 = (cons ?w)(c \<mapsto> y)" "m_bDestroy y"
      using io_ok_Drop [OF ok, of c ?x False False] op by (auto simp: ends_def)
    have list: "m_oCListP2PmsgCon w2 = m_oCListP2PmsgCon w" using w2(3) by (simp add: same_ops_def)
    have "take (Suc i) (m_oCListP2PmsgCon w) = take i (m_oCListP2PmsgCon w) @ [c]" using True by (simp add: take_Suc_conv_app_nth c_def)
    then have "marked (set (take (Suc i) (m_oCListP2PmsgCon w2))) w2"
      using "1.prems"(3) w2(5,6) list by (auto simp: marked_def)
    then have "ends (sweep (Suc i) w2) (\<lambda>w'. io_ok E h w' \<and> same_ops w2 w' \<and> noted w' = noted w2 \<and> marked (set (m_oCListP2PmsgCon w2)) w')"
      using "1.IH"(1) [OF True c_def d w2(1)] "1.prems"(2) w2(2) list by simp
    then show ?thesis
      using True d w2(1,3,4) list by (auto simp: sweep.simps [of i w] c_def [symmetric] Let_def elim!: ends_mono intro: same_ops_trans)
  qed
qed

text \<open>One completion at the drain: the operation ends, its object goes if it was a signal's.\<close>

lemma drained:
  assumes ok: "io_ok {} h w" and p: "packet_ok w p" "set (packet_of p) \<inter> set (in_port w) = {}" and C: "\<forall>c \<in> C. 0 < h c" "marked C w"
  shows "ends (drain_packet p w) (\<lambda>w'. io_ok {} h w' \<and> ops w' = (\<lambda>v. if v \<in> set (packet_of p) then None else ops w v)
    \<and> noted w' = noted w \<and> port w' = port w \<and> marked C w'
    \<and> (\<forall>c k u. 0 < h c \<longrightarrow> u \<notin> set (packet_of p) \<longrightarrow> owns w c k u \<longrightarrow> owns w' c k u))"
proof (cases p)
  case Wake
  then show ?thesis using ok C by (simp add: drain_packet_def)
next
  case (Packet key v)
  obtain o1 where o1: "ovs w v = Some o1" "bQueued o1" "key = None \<or> key = Some (pOwnerCon o1)" using p(1) Packet by auto
  let ?c = "pOwnerCon o1" and ?o = "o1\<lparr>bQueued := False, bRecvSubmitted := False\<rparr>"
  let ?w = "w\<lparr>ovs := (ovs w)(v \<mapsto> ?o)\<rparr>" and ?h = "h(pOwnerCon o1 := Suc (h (pOwnerCon o1)))"
  obtain x where x: "cons w ?c = Some x" using io_ok_ov [OF ok o1(1)] o1(2) by (auto simp: ov_ok_def)
  have key: "DrainConOfOVERLAPPED key v w = Some ?c" using o1 by (auto simp: DrainConOfOVERLAPPED_def)
  have e: "io_ok {v} ?h ?w" by (rule io_ok_ended [OF ok o1(1,2)]) (use p(2) Packet in auto)
  have op: "ops ?w = (ops w)(v := None)" by (auto simp: ops_def fun_eq_iff)
  define Q where "Q w' \<longleftrightarrow> io_ok {} ?h w' \<and> ops w' = (ops w)(v := None) \<and> noted w' = noted w \<and> port w' = port w
      \<and> (\<exists>y. cons w' = (cons w)(?c \<mapsto> y) \<and> m_bDestroy y = m_bDestroy x
        \<and> (\<forall>k u. m_pOVERLAPPED x k = Some u \<and> u \<noteq> v \<longrightarrow> m_pOVERLAPPED y k = Some u))" for w'
  have "ends (if is_member v x then Some ?w else DropOVERLAPPED ?c v ?w) Q"
  proof (cases "is_member v x")
    case True
    then obtain k where "m_pOVERLAPPED x k = Some v" by (auto simp: is_member_def)
    then have "io_ok {} ?h ?w" using io_ok_off [OF e, of ?c x k] x by simp
    then show ?thesis using True op x by (auto simp: Q_def fun_upd_idem intro!: exI [of _ x])
  next
    case False
    have "ends (DropOVERLAPPED ?c v ?w) Q"
      using io_ok_DropOVERLAPPED [OF e, of v ?o x] x op
      by (auto simp: Q_def ops_def fun_eq_iff intro: forget_keeps elim!: ends_mono)
    then show ?thesis using False by simp
  qed
  moreover have "ends (Release ?c w') (\<lambda>w'. io_ok {} h w' \<and> ops w' = (\<lambda>u. if u \<in> set (packet_of p) then None else ops w u) \<and> noted w' = noted w \<and> port w' = port w \<and> marked C w'
      \<and> (\<forall>c k u. 0 < h c \<longrightarrow> u \<notin> set (packet_of p) \<longrightarrow> owns w c k u \<longrightarrow> owns w' c k u))"
    if q: "Q w'" for w'
  proof -
    obtain y where y: "io_ok {} ?h w'" "ops w' = (ops w)(v := None)" "noted w' = noted w" "port w' = port w" "cons w' = (cons w)(?c \<mapsto> y)"
        "m_bDestroy y = m_bDestroy x" "\<forall>k u. m_pOVERLAPPED x k = Some u \<and> u \<noteq> v \<longrightarrow> m_pOVERLAPPED y k = Some u"
      using q by (fastforce simp: Q_def)
    have c: "cons w' ?c = Some y" using y(5) by simp
    have h: "?h(?c := h ?c) = h" by simp
    obtain w2 where w2: "Release ?c w' = Some w2" "io_ok {} h w2" "ops w2 = ops w'" "noted w2 = noted w'"
        "\<forall>d. d \<noteq> ?c \<longrightarrow> cons w2 d = cons w' d" "cons w2 ?c = None \<longrightarrow> h ?c = 0"
        "\<forall>z. cons w2 ?c = Some z \<longrightarrow> (m_bDestroy y \<longrightarrow> m_bDestroy z) \<and> m_pOVERLAPPED z = m_pOVERLAPPED y"
      using io_ok_Release [OF y(1) _ c, of "h ?c", unfolded h] by (auto simp: ends_def)
    have "\<exists>z. cons w2 d = Some z \<and> m_bDestroy z" if "d \<in> C" for d
    proof (cases "d = ?c")
      case True
      then have "m_bDestroy y" "cons w2 ?c \<noteq> None" using that C w2(6) x y(6) by (auto simp: marked_def)
      then show ?thesis using True w2(7) by auto
    next
      case False
      then show ?thesis using that C(2) w2(5) y(5) by (auto simp: marked_def)
    qed
    moreover have "owns w2 d k u" if "0 < h d" "u \<noteq> v" "owns w d k u" for d k u
      using that w2(5,6,7) y(5,7) x by (cases "d = ?c") (auto simp: owns_def)
    ultimately show ?thesis using w2 y Release_port [OF w2(1)] by (simp add: marked_def Packet fun_eq_iff)
  qed
  ultimately show ?thesis
    using key o1 x unfolding drain_packet_def DrainOVERLAPPED_def on_ov_def Packet by (auto elim!: ends_mono)
qed

text \<open>Whether a connection is owed a completion.\<close>

lemma HasQueuedOVERLAPPED_iff:
  assumes ok: "io_ok E h w" and c: "cons w c = Some x"
  shows "HasQueuedOVERLAPPED c w = Some (\<exists>k v. owns w c k v \<and> ops w v = Some c)"
proof -
  have "queued_member w x k = Some (\<exists>v. owns w c k v \<and> ops w v = Some c)" for k
    using io_ok_member [OF ok c, of k] c by (cases "m_pOVERLAPPED x k") (auto simp: queued_member_def owns_def ops_def)
  moreover have "(\<exists>k. P k) \<longleftrightarrow> P SendOv \<or> P RecvOv \<or> P AcceptOv \<or> P ConnectOv" for P by (metis member.exhaust)
  ultimately show ?thesis using c by (auto simp: HasQueuedOVERLAPPED_def)
qed

lemma owed_iff:
  assumes "io_ok E h w" "\<forall>c \<in> set pins. 0 < h c"
  shows "owed pins w = Some (\<exists>c \<in> set pins. \<exists>k v. owns w c k v \<and> ops w v = Some c)"
  using assms
proof (induction pins)
  case (Cons c pins)
  obtain x where "cons w c = Some x" using io_ok_live [OF Cons.prems(1), of c] Cons.prems(2) by auto
  then show ?case using Cons HasQueuedOVERLAPPED_iff [OF Cons.prems(1)] by auto
qed simp

definition late_ops :: "packet option list \<Rightarrow> addr list" where
  "late_ops late = concat (map (\<lambda>s. case s of None \<Rightarrow> [] | Some p \<Rightarrow> packet_of p) late)"

text \<open>What arrives late are operations the transport still has.\<close>

definition late_ok :: "packet option list \<Rightarrow> io \<Rightarrow> bool" where
  "late_ok late w \<longleftrightarrow> distinct (in_port w @ late_ops late) \<and> (\<forall>p. Some p \<in> set late \<longrightarrow> packet_ok w p)"

text \<open>Every operation of the connections in \<open>pins\<close> arrives before the waiting is over.\<close>

definition all_arrive :: "addr list \<Rightarrow> packet option list \<Rightarrow> nat \<Rightarrow> io \<Rightarrow> bool" where
  "all_arrive pins late n w \<longleftrightarrow> n + count_list late None < nDrainSlicesMax
    \<and> (\<forall>c \<in> set pins. \<forall>v. ops w v = Some c \<longrightarrow> v \<in> set (in_port w @ late_ops late))
    \<and> (\<forall>v \<in> set (late_ops late). \<exists>c \<in> set pins. \<exists>k. ops w v = Some c \<and> owns w c k v)"

lemma packet_ok_ops: "packet_ok w p \<longleftrightarrow> (case p of Wake \<Rightarrow> True | Packet key v \<Rightarrow> \<exists>c. ops w v = Some c \<and> (key = None \<or> key = Some c))"
  by (cases p) (auto simp: ops_def split: option.splits)

lemma port_same [simp]:
  "ops (w\<lparr>port := ps\<rparr>) = ops w" "owns (w\<lparr>port := ps\<rparr>) = owns w" "marked C (w\<lparr>port := ps\<rparr>) = marked C w"
  "packet_ok (w\<lparr>port := ps\<rparr>) p = packet_ok w p"
  by (auto simp: ops_def owns_def marked_def fun_eq_iff packet_ok_ops split: packet.splits)

lemma io_ok_arrives:
  assumes ok: "io_ok E h w" and e: "port w = []" and p: "packet_ok w p"
  shows "io_ok E h (w\<lparr>port := [p]\<rparr>)"
proof (cases p)
  case Wake
  have same: "noted_for d (w\<lparr>port := [p]\<rparr>) = noted_for d w" "queued_by d (w\<lparr>port := [p]\<rparr>) = queued_by d w"
      "in_port (w\<lparr>port := [p]\<rparr>) = []" for d
    using Wake by (simp_all add: noted_for_def in_port_def queued_by_ops)
  have "con_ok h (w\<lparr>port := [p]\<rparr>) d z \<longleftrightarrow> con_ok h w d z" "ov_ok E (w\<lparr>port := [p]\<rparr>) u o2 \<longleftrightarrow> ov_ok E w u o2" for d z u o2
    unfolding con_ok_def ov_ok_def members_ok_def same by simp_all
  then show ?thesis using ok Wake unfolding io_ok_def same by simp
next
  case (Packet key v)
  then obtain c where "ops w v = Some c" "key = None \<or> key = Some c" using p by (auto simp: packet_ok_ops)
  then show ?thesis using io_ok_Completes [OF ok, of v c key] e Packet by (simp add: in_port_def)
qed

text \<open>The next packet leaves the assumptions about the rest as they were.\<close>

lemma drained_late:
  assumes ok: "io_ok {} h w" and p: "port w = p # ps" and w': "port w' = ps"
    and op: "ops w' = (\<lambda>v. if v \<in> set (packet_of p) then None else ops w v)"
    and own: "\<forall>c k u. 0 < h c \<longrightarrow> u \<notin> set (packet_of p) \<longrightarrow> owns w c k u \<longrightarrow> owns w' c k u"
    and pins: "\<forall>c \<in> set pins. 0 < h c" and late: "late_ok late w"
  shows "late_ok late w'" "all_arrive pins late n w \<Longrightarrow> all_arrive pins late n w'"
proof -
  have port: "in_port w = packet_of p @ in_port w'" using p w' by (simp add: in_port_def)
  then have away: "v \<notin> set (packet_of p)" if "v \<in> set (late_ops late)" for v
    using late that by (auto simp: late_ok_def)
  have "packet_ok w' q" if "Some q \<in> set late" for q
  proof (cases q)
    case (Packet key v)
    then have "v \<in> set (late_ops late)" using that by (force simp: late_ops_def)
    then show ?thesis using that late Packet away [of v] op by (auto simp: late_ok_def packet_ok_ops)
  qed simp
  then show "late_ok late w'" using late port by (auto simp: late_ok_def)
  show "all_arrive pins late n w'" if a: "all_arrive pins late n w"
    unfolding all_arrive_def
  proof (intro conjI ballI allI impI)
    show "n + count_list late None < nDrainSlicesMax" using a by (simp add: all_arrive_def)
    fix c v assume "c \<in> set pins" "ops w' v = Some c"
    then show "v \<in> set (in_port w' @ late_ops late)" using a op port by (auto simp: all_arrive_def split: if_splits)
  next
    fix v assume v: "v \<in> set (late_ops late)"
    then obtain c k where c: "c \<in> set pins" "ops w v = Some c" "owns w c k v" using a by (auto simp: all_arrive_def)
    then have "owns w' c k v" using own pins away [OF v] by blast
    then show "\<exists>c \<in> set pins. \<exists>k. ops w' v = Some c \<and> owns w' c k v" using away [OF v] op c by auto
  qed
qed

definition done_with :: "addr list \<Rightarrow> packet option list \<Rightarrow> nat \<Rightarrow> (addr \<Rightarrow> nat) \<Rightarrow> addr set \<Rightarrow> io \<Rightarrow> io \<Rightarrow> bool" where
  "done_with pins late n h C w w' \<longleftrightarrow> io_ok {} h w' \<and> noted w' = noted w \<and> marked C w' \<and> (\<forall>v c. ops w' v = Some c \<longrightarrow> ops w v = Some c)
    \<and> (all_arrive pins late n w \<longrightarrow> (\<forall>c \<in> set pins. queued_by c w' = {}))"

lemma port_drained:
  assumes "io_ok {} h w" "\<forall>c \<in> set pins. 0 < h c" "marked C w" "\<forall>c \<in> C. 0 < h c" "late_ok late w"
  shows "ends (DrainPortOfOVERLAPPED pins late n w) (done_with pins late n h C w)"
  using assms
proof (induction pins late n w rule: DrainPortOfOVERLAPPED.induct)
  case (1 pins late n w)
  note ok = "1.prems"(1) and pins = "1.prems"(2) and C = "1.prems"(3,4) and late = "1.prems"(5)
  show ?case
  proof (cases "port w")
    case (Cons p ps)
    let ?w = "w\<lparr>port := ps\<rparr>"
    note pop = io_ok_pop [OF ok Cons]
    obtain w1 where w1: "drain_packet p ?w = Some w1" "io_ok {} h w1" "ops w1 = (\<lambda>v. if v \<in> set (packet_of p) then None else ops w v)"
        "noted w1 = noted w" "port w1 = ps" "marked C w1"
        "\<forall>c k u. 0 < h c \<longrightarrow> u \<notin> set (packet_of p) \<longrightarrow> owns w c k u \<longrightarrow> owns w1 c k u"
      using drained [OF pop(1), of p C] pop(2,3) C by (auto simp: ends_def cong: if_cong)
    note keep = drained_late [OF ok Cons w1(5,3,7) pins late]
    have kept: "ops w1 v = Some c \<Longrightarrow> ops w v = Some c" for v c using w1(3) by (auto split: if_splits)
    have "ends (DrainPortOfOVERLAPPED pins late n w1) (done_with pins late n h C w1)"
      using "1.IH"(4) [OF Cons w1(1) w1(2) pins w1(6) C(2) keep(1)] .
    moreover have "done_with pins late n h C w w'" if "done_with pins late n h C w1 w'" for w'
      using that kept w1(4) keep(2) unfolding done_with_def by simp
    ultimately show ?thesis using Cons w1(1) by (auto simp: DrainPortOfOVERLAPPED.simps [of pins late n w] elim!: ends_mono)
  next
    case Nil
    define due where "due \<longleftrightarrow> n < nDrainSlicesMax \<and> (\<exists>c \<in> set pins. \<exists>k v. owns w c k v \<and> ops w v = Some c)"
    have test: "(if n < nDrainSlicesMax then owed pins w else Some False) = Some due"
      using owed_iff [OF ok pins] by (simp add: due_def)
    note loop = DrainPortOfOVERLAPPED.simps [of pins late n w, unfolded Nil list.case test option.case]
    show ?thesis
    proof (cases due)
      case False
      have "queued_by c w = {}" if a: "all_arrive pins late n w" and c: "c \<in> set pins" for c
      proof -
        have "late_ops late = []" using a False unfolding due_def all_arrive_def by (cases "late_ops late") auto
        then show ?thesis using a c Nil by (auto simp: all_arrive_def in_port_def queued_by_ops)
      qed
      then show ?thesis using loop False ok C(1) by (simp add: done_with_def)
    next
      case True
      then have t: "due = True" by simp
      show ?thesis
      proof (cases late)
        case late0: Nil
        have "\<not> all_arrive pins [] n w"
          using True Nil by (auto simp: due_def all_arrive_def in_port_def late_ops_def)
        then show ?thesis
          using "1.IH"(1) [OF Nil test t late0 ok pins C] loop True late0 late by (auto simp: done_with_def elim!: ends_mono)
      next
        case (Cons s late')
        show ?thesis
        proof (cases s)
          case None
          have l: "late_ops late = late_ops late'" using Cons None by (simp add: late_ops_def)
          then have "late_ok late' w" using late Cons by (auto simp: late_ok_def)
          then have "ends (DrainPortOfOVERLAPPED pins late' (Suc n) w) (done_with pins late' (Suc n) h C w)"
            using "1.IH"(2) [OF Nil test t Cons None ok pins C] by simp
          moreover have "all_arrive pins late n w \<Longrightarrow> all_arrive pins late' (Suc n) w"
            using l Cons None by (simp add: all_arrive_def)
          ultimately show ?thesis using loop True Cons None by (auto simp: done_with_def elim!: ends_mono)
        next
          case (Some p)
          let ?w = "w\<lparr>port := [p]\<rparr>"
          have l: "late_ops late = packet_of p @ late_ops late'" using Cons Some by (simp add: late_ops_def)
          have in_p: "in_port ?w = packet_of p" "in_port w = []" using Nil by (simp_all add: in_port_def)
          have "packet_ok w p" using late Cons Some by (simp add: late_ok_def)
          then have ok': "io_ok {} h ?w" using io_ok_arrives [OF ok Nil] by simp
          have "late_ok late' ?w" using late l in_p Cons by (auto simp: late_ok_def)
          then have "ends (DrainPortOfOVERLAPPED pins late' n ?w) (done_with pins late' n h C ?w)"
            using "1.IH"(3) [OF Nil test t Cons Some ok' pins _ C(2)] C(1) by simp
          moreover have "all_arrive pins late n w \<Longrightarrow> all_arrive pins late' n ?w"
            using l in_p Cons Some by (auto simp: all_arrive_def)
          ultimately show ?thesis using loop True Cons Some by (auto simp: done_with_def elim!: ends_mono)
        qed
      qed
    qed
  qed
qed

lemma pins_released:
  assumes "io_ok {} (held_by pins h) w" "distinct pins" "marked (set pins) w"
  shows "ends (each Release pins w) (\<lambda>w'. io_ok {} h w' \<and> ops w' = ops w \<and> noted w' = noted w
    \<and> (\<forall>d. d \<notin> set pins \<longrightarrow> cons w' d = cons w d)
    \<and> (\<forall>c \<in> set pins. cons w' c = None \<longleftrightarrow> h c = 0 \<and> noted_for c w = 0 \<and> queued_by c w = {}))"
  using assms
proof (induction pins arbitrary: w)
  case Nil
  then show ?case by (simp add: held_by_def)
next
  case (Cons c pins)
  obtain x where x: "cons w c = Some x" "m_bDestroy x" using Cons.prems(3) by (auto simp: marked_def)
  have c: "c \<notin> set pins" using Cons.prems(2) by simp
  then have h: "(held_by (c # pins) h)(c := h c) = held_by pins h" by (auto simp: held_by_def)
  obtain w1 where w1: "Release c w = Some w1" "io_ok {} (held_by pins h) w1" "ops w1 = ops w" "noted w1 = noted w"
      "\<forall>d. d \<noteq> c \<longrightarrow> cons w1 d = cons w d" "cons w1 c = None \<longleftrightarrow> h c = 0 \<and> noted_for c w = 0 \<and> queued_by c w = {}"
  proof -
    have "held_by (c # pins) h c = Suc (h c)" by (simp add: held_by_def)
    note r = io_ok_Release [OF Cons.prems(1) this x(1), unfolded h]
    obtain w1 where w1: "Release c w = Some w1" "io_ok {} (held_by pins h) w1" "ops w1 = ops w" "noted w1 = noted w"
        "\<forall>d. d \<noteq> c \<longrightarrow> cons w1 d = cons w d" and gone: "cons w1 c = None \<longleftrightarrow> h c = 0 \<and> noted_for c w = 0 \<and> queued_by c w = {}"
      using r unfolding ends_def by (elim exE conjE) (rule that, simp_all add: x(2))
    then show thesis by (rule that)
  qed
  have m: "marked (set pins) w1" using Cons.prems(3) c w1(5) by (auto simp: marked_def)
  obtain w2 where w2: "each Release pins w1 = Some w2" "io_ok {} h w2" "ops w2 = ops w1" "noted w2 = noted w1"
      "\<forall>d. d \<notin> set pins \<longrightarrow> cons w2 d = cons w1 d"
      "\<forall>c \<in> set pins. cons w2 c = None \<longleftrightarrow> h c = 0 \<and> noted_for c w1 = 0 \<and> queued_by c w1 = {}"
    using Cons.IH [OF w1(2) _ m] Cons.prems(2) by (auto simp: ends_def)
  have same: "noted_for d w1 = noted_for d w" "queued_by d w1 = queued_by d w" for d
    using w1(3,4) by (simp_all add: noted_for_def queued_by_ops)
  show ?case using w1 w2 c same by (auto simp: queued_by_ops)
qed

lemma late_same:
  assumes "same_ops w w'"
  shows "late_ok late w \<Longrightarrow> late_ok late w'" "all_arrive pins late n w \<Longrightarrow> all_arrive pins late n w'"
proof -
  have same: "ops w' = ops w" "in_port w' = in_port w" using assms by (simp_all add: same_ops_def in_port_def)
  then have "packet_ok w' p \<longleftrightarrow> packet_ok w p" for p by (cases p) (simp_all add: packet_ok_ops)
  then show "late_ok late w \<Longrightarrow> late_ok late w'" by (simp add: late_ok_def same)
  show "all_arrive pins late n w'" if a: "all_arrive pins late n w"
    unfolding all_arrive_def same
  proof (intro conjI ballI allI impI)
    fix v assume "v \<in> set (late_ops late)"
    then obtain c k where c: "c \<in> set pins" "ops w v = Some c" "owns w c k v" using a by (auto simp: all_arrive_def)
    then have "owns w' c k v" using assms by (simp add: same_ops_def)
    then show "\<exists>c \<in> set pins. \<exists>k. ops w v = Some c \<and> owns w' c k v" using c by blast
  qed (use a in \<open>auto simp: all_arrive_def\<close>)
qed

text \<open>
  C16: closing a hub whose connections nobody else holds touches nothing deleted; a connection is deleted by it exactly
  if no operation of it is under way any more, and if the transport completes every operation before the waiting is
  over all of them are deleted and no object of theirs is left.
\<close>
theorem hub_closed:
  assumes "io_ok {} h w" "\<forall>c \<in> set (m_oCListP2PmsgCon w). h c = 0 \<and> noted_for c w = 0" "late_ok late w"
  shows "\<exists>w'. CloseP2PmsgHub late w = Some w' \<and> (\<forall>c \<in> set (m_oCListP2PmsgCon w). cons w' c = None \<longleftrightarrow> queued_by c w' = {})
    \<and> (all_arrive (m_oCListP2PmsgCon w) late 0 w \<longrightarrow> (\<forall>c \<in> set (m_oCListP2PmsgCon w). cons w' c = None \<and> (\<forall>v o1. ovs w' v = Some o1 \<longrightarrow> pOwnerCon o1 \<noteq> c)))"
proof -
  let ?pins = "m_oCListP2PmsgCon w"
  let ?h = "held_by ?pins h"
  have pins: "distinct ?pins" "\<forall>c \<in> set ?pins. cons w c \<noteq> None" using assms(1) by (auto simp: io_ok_def)
  obtain w1 where w1: "each AddRef ?pins w = Some w1" "io_ok {} ?h w1" "same_ops w w1" "noted w1 = noted w"
    using pins_taken [OF assms(1) pins] by (auto simp: ends_def)
  then have list: "m_oCListP2PmsgCon w1 = ?pins" by (simp add: same_ops_def)
  have held: "\<forall>c \<in> set ?pins. 0 < ?h c" by (simp add: held_by_def)
  obtain w2 where w2: "sweep 0 w1 = Some w2" "io_ok {} ?h w2" "same_ops w1 w2" "noted w2 = noted w1" "marked (set ?pins) w2"
    using swept [OF w1(2), of 0] held list by (auto simp: ends_def marked_def)
  have same: "same_ops w w2" using w1(3) w2(3) by (rule same_ops_trans)
  obtain w3 where w3: "DrainPortOfOVERLAPPED ?pins late 0 w2 = Some w3" "done_with ?pins late 0 ?h (set ?pins) w2 w3"
    using port_drained [OF w2(2) held w2(5) held late_same(1) [OF same assms(3)], of 0] by (auto simp: ends_def)
  then have d: "io_ok {} ?h w3" "noted w3 = noted w" "marked (set ?pins) w3" using w1(4) w2(4) by (simp_all add: done_with_def)
  obtain w4 where w4: "each Release ?pins w3 = Some w4" "io_ok {} h w4" "ops w4 = ops w3"
      "\<forall>c \<in> set ?pins. cons w4 c = None \<longleftrightarrow> h c = 0 \<and> noted_for c w3 = 0 \<and> queued_by c w3 = {}"
    using pins_released [OF d(1) pins(1) d(3)] by (auto simp: ends_def)
  have q: "queued_by c w4 = queued_by c w3" "noted_for c w3 = noted_for c w" for c
    using w4(3) d(2) by (simp_all add: queued_by_ops noted_for_def)
  have gone: "cons w4 c = None \<longleftrightarrow> queued_by c w4 = {}" if "c \<in> set ?pins" for c
    using w4(4) assms(2) q that by auto
  have "cons w4 c = None \<and> (\<forall>v o1. ovs w4 v = Some o1 \<longrightarrow> pOwnerCon o1 \<noteq> c)" if "all_arrive ?pins late 0 w" "c \<in> set ?pins" for c
  proof -
    have "queued_by c w4 = {}" using w3(2) late_same(2) [OF same that(1)] that(2) q by (auto simp: done_with_def)
    moreover have "cons w4 c = None" using gone [OF that(2)] calculation by simp
    ultimately show ?thesis using io_ok_ov [OF w4(2)] by (fastforce simp: ov_ok_def queued_by_def split: if_splits)
  qed
  then show ?thesis using w1(1) w2(1) w3(1) w4(1) gone by (auto simp: CloseP2PmsgHub_def Let_def)
qed

lemmas pump_evals = run_evals pump_packet_def On_QueuedCompletionStatus_def settle_def releaseOVERLAPPED_def received_def

theorem hub_closed_witness:
  "\<exists>h w w'. run [Creates 0, Registers 0 7, Opens 0, Makes 0 RecvOv 16, Rearms 0 True,
      Pumps 0 \<lparr>eof = False, arrived = [], refused = False, again = True, held = False, max_recv = 16, at_close = False\<rparr>, LetsGo 0]
      (\<lambda>_. 0) io_new = Some (h, w)
    \<and> queued_by 0 w = {0} \<and> CloseP2PmsgHub [None, Some (Packet None 0)] w = Some w' \<and> cons w' 0 = None"
  (is "\<exists>h w w'. run ?es _ _ = _ \<and> _")
proof -
  obtain h w where w: "run ?es (\<lambda>_. 0) io_new = Some (h, w)" "io_ok {} h w"
    using io_ok_run [OF io_ok_new, of ?es] by (auto simp: ends_def)
  have v: "h 0 = 0" "noted w = []" "port w = []" "m_oCListP2PmsgCon w = [0]" and q: "ops w = [0 \<mapsto> 0]"
    and o: "\<exists>x. cons w 0 = Some x \<and> m_pOVERLAPPED x RecvOv = Some 0"
    using w(1) by (auto simp: pump_evals ops_def fun_eq_iff)
  have "late_ok [None, Some (Packet None 0)] w" "all_arrive [0] [None, Some (Packet None 0)] 0 w"
    using v q o by (auto simp: late_ok_def all_arrive_def late_ops_def in_port_def packet_ok_ops nDrainSlicesMax_def owns_def split: if_splits)
  then show ?thesis
    using hub_closed [OF w(2), of "[None, Some (Packet None 0)]"] v w(1) q by (auto simp: noted_for_def queued_by_ops)
qed

end
