(* ===== verification/Registry.thy ===== *)
theory Registry
  imports Address "HOL-Library.AList"
begin

text \<open>
  The registries of the process, P2Pwin32.cpp: which thread runs which pump, which hubs there are and which connections
  they list.

  A hub or pump is identified by the thread that created it, so \<open>self\<close>, the calling thread, is an argument.  Each
  operation runs under the locks of the registries, so operations of several threads are a sequence of operations.
  The operating system gives the thread identifier of a thread that ended to a new one.  Connections are addresses;
  what closing a hub does to them is the subject of ConIo, here it is the list of those it deletes.
\<close>

type_synonym thread = "32 word"

record pump_mgr =
  m_nHubID :: thread
  m_bP2Pexplorer :: bool
  m_csName :: wstr
  m_strFunc :: wstr
  m_dwExpumpMask :: "32 word"
  m_oCListP2PsigID :: "nat list"
  GetCount :: nat

record hub_mgr =
  m_oP2Paddr :: wstr
  m_oP2Padomain :: wstr
  m_nPumpsMax :: nat
  m_oCListP2PmsgPump :: "thread list"
  m_pP2Pexplorer :: "thread option"
  m_oCListP2PmsgCon :: "nat list"
  m_oCListP2PexpCon :: "nat list"

text \<open>\<open>m_nP2PconID\<close>: the connections that carry the position of their place in a list.\<close>

record registry =
  s_uxP2PmsgHubMgr :: "nat option"
  s_ThreadID_P2PmsgPump :: "thread \<rightharpoonup> pump_mgr"
  s_ThreadID_P2PmsgHub :: "(thread \<times> hub_mgr) list"
  s_P2PmsgCon_HubID :: "nat \<rightharpoonup> thread"
  s_P2PexpCon_HubID :: "nat \<rightharpoonup> thread"
  m_nP2PconID :: "nat set"

datatype registry_error = AlreadyStarted | HubsOutOfRange | NotStarted | PumpExists | PumpsOutOfRange | HubLimit
  | PortFailed | NoPumpContext | NoHubContext | NotPosted | AlreadyPosted | PumpLimit | ExplorerExists
  | FromHubContext | FromPumpContext | NoExplorerContext

definition MAX_P2PmsgHub :: nat where "MAX_P2PmsgHub = 256"
definition MAX_P2PmsgPump :: nat where "MAX_P2PmsgPump = 256"

definition hub :: "registry \<Rightarrow> thread \<Rightarrow> hub_mgr option" where
  "hub s = map_of (s_ThreadID_P2PmsgHub s)"

definition set_hub :: "thread \<Rightarrow> hub_mgr \<Rightarrow> registry \<Rightarrow> registry" where
  "set_hub h m s = s\<lparr>s_ThreadID_P2PmsgHub := AList.update h m (s_ThreadID_P2PmsgHub s)\<rparr>"

section \<open>Start and end of the environment\<close>

text \<open>The error the function throws, if any.  The array of hubs is allocated and cleared, and never filled.\<close>

definition StartupP2Pmsg :: "nat \<Rightarrow> registry \<Rightarrow> registry_error option \<times> registry" where
  "StartupP2Pmsg nMaxHubs s =
    (if s_uxP2PmsgHubMgr s \<noteq> None then (Some AlreadyStarted, s)
     else if nMaxHubs < 1 \<or> nMaxHubs > MAX_P2PmsgHub then (Some HubsOutOfRange, s)
     else (None, s\<lparr>s_uxP2PmsgHubMgr := Some nMaxHubs\<rparr>))"

definition CleanupP2Pmsg :: "registry \<Rightarrow> registry" where
  "CleanupP2Pmsg s = s\<lparr>s_uxP2PmsgHubMgr := None\<rparr>"

section \<open>Hubs and their pumps\<close>

definition P2PmsgPump :: "thread \<Rightarrow> bool \<Rightarrow> pump_mgr" where
  "P2PmsgPump h bExplorer = \<lparr>m_nHubID = h, m_bP2Pexplorer = bExplorer, m_csName = [], m_strFunc = [], m_dwExpumpMask = 0,
     m_oCListP2PsigID = [], GetCount = 0\<rparr>"

definition set_pump :: "thread \<Rightarrow> pump_mgr \<Rightarrow> registry \<Rightarrow> registry" where
  "set_pump t p s = s\<lparr>s_ThreadID_P2PmsgPump := (s_ThreadID_P2PmsgPump s)(t \<mapsto> p)\<rparr>"

definition drop_pump :: "thread \<Rightarrow> registry \<Rightarrow> registry" where
  "drop_pump t s = s\<lparr>s_ThreadID_P2PmsgPump := (s_ThreadID_P2PmsgPump s)(t := None)\<rparr>"

text \<open>\<open>CreateP2PmsgPump\<close> and \<open>CreateP2Pexplorer\<close> of a hub: the pump is that of the calling thread.\<close>

definition hub_CreateP2PmsgPump :: "thread \<Rightarrow> thread \<Rightarrow> hub_mgr \<Rightarrow> registry \<Rightarrow> registry" where
  "hub_CreateP2PmsgPump self h m s = set_pump self (P2PmsgPump h False)
     (set_hub h (m\<lparr>m_oCListP2PmsgPump := m_oCListP2PmsgPump m @ [self]\<rparr>) s)"

definition hub_CreateP2Pexplorer :: "thread \<Rightarrow> thread \<Rightarrow> hub_mgr \<Rightarrow> registry \<Rightarrow> registry" where
  "hub_CreateP2Pexplorer self h m s = set_pump self (P2PmsgPump h True)
     (set_hub h (m\<lparr>m_oCListP2PmsgPump := m_oCListP2PmsgPump m @ [self], m_pP2Pexplorer := Some self\<rparr>) s)"

definition hub_new :: "nat \<Rightarrow> hub_mgr" where
  "hub_new nPumpsMax = \<lparr>m_oP2Paddr = [], m_oP2Padomain = [], m_nPumpsMax = nPumpsMax, m_oCListP2PmsgPump = [], m_pP2Pexplorer = None,
     m_oCListP2PmsgCon = [], m_oCListP2PexpCon = []\<rparr>"

definition Factory :: "thread \<Rightarrow> nat \<Rightarrow> registry \<Rightarrow> registry" where
  "Factory self nPumpsMax s = hub_CreateP2PmsgPump self self (hub_new nPumpsMax) (set_hub self (hub_new nPumpsMax) s)"

text \<open>\<open>~P2PmsgHubMgr\<close>: the hub leaves the registry, its pumps are deleted and leave theirs.\<close>

definition delete_hub :: "thread \<Rightarrow> registry \<Rightarrow> registry" where
  "delete_hub h s = (case hub s h of None \<Rightarrow> s
     | Some m \<Rightarrow> (fold drop_pump (m_oCListP2PmsgPump m) s)\<lparr>s_ThreadID_P2PmsgHub := AList.delete h (s_ThreadID_P2PmsgHub s)\<rparr>)"

text \<open>\<open>port_ok\<close>: whether \<open>CreateIoCompletionPort\<close> succeeds.\<close>

definition CreateP2PmsgHub :: "thread \<Rightarrow> bool \<Rightarrow> wstr \<Rightarrow> nat \<Rightarrow> registry \<Rightarrow> (registry_error + thread) \<times> registry" where
  "CreateP2PmsgHub self port_ok strP2Paddr nMaxPumps s =
    (case s_uxP2PmsgHubMgr s of None \<Rightarrow> (Inl NotStarted, s)
     | Some nHubsMax \<Rightarrow>
        if s_ThreadID_P2PmsgPump s self \<noteq> None then (Inl PumpExists, s)
        else if nMaxPumps < 1 \<or> nMaxPumps > MAX_P2PmsgPump then (Inl PumpsOutOfRange, s)
        else if length (s_ThreadID_P2PmsgHub s) \<ge> nHubsMax then (Inl HubLimit, s)
        else (let s1 = Factory self nMaxPumps s;
                  s2 = set_hub self ((the (hub s1 self))\<lparr>m_oP2Paddr := strP2Paddr\<rparr>) s1;
                  s3 = set_pump self ((P2PmsgPump self False)\<lparr>m_csName := c_name strP2Paddr\<rparr>) s2
              in if port_ok then (Inr self, s3) else (Inl PortFailed, delete_hub self s3)))"

definition CreateP2PmsgPump :: "thread \<Rightarrow> thread \<Rightarrow> wstr \<Rightarrow> registry \<Rightarrow> (registry_error + thread) \<times> registry" where
  "CreateP2PmsgPump self nHubID lpszName s =
    (if s_ThreadID_P2PmsgPump s self \<noteq> None then (Inl PumpExists, s)
     else (case hub s nHubID of None \<Rightarrow> (Inl NoHubContext, s)
       | Some m \<Rightarrow>
          if length (m_oCListP2PmsgPump m) \<ge> m_nPumpsMax m then (Inl PumpLimit, s)
          else (Inr self, set_pump self ((P2PmsgPump nHubID False)\<lparr>m_csName := lpszName\<rparr>) (hub_CreateP2PmsgPump self nHubID m s))))"

definition Expump :: wstr where "Expump = wide ''Expump''"
definition Anon :: wstr where "Anon = wide ''Anon''"

definition CreateP2Pexpump :: "thread \<Rightarrow> bool \<Rightarrow> thread \<Rightarrow> registry \<Rightarrow> (registry_error + thread) \<times> registry" where
  "CreateP2Pexpump self port_ok nHubID s =
    (if s_ThreadID_P2PmsgPump s self \<noteq> None then (Inl PumpExists, s)
     else (case hub s nHubID of None \<Rightarrow> (Inl NoHubContext, s)
       | Some m \<Rightarrow>
          if m_pP2Pexplorer m \<noteq> None then (Inl ExplorerExists, s)
          else (let s1 = set_pump self ((P2PmsgPump nHubID True)\<lparr>m_csName := Expump, m_strFunc := Anon\<rparr>) (hub_CreateP2Pexplorer self nHubID m s)
                in (if port_ok then Inr self else Inl PortFailed, s1))))"

text \<open>A pump leaves its hub's list and is deleted; the hub forgets its explorer only when told it is that.\<close>

definition RemoveP2PmsgPump :: "thread \<Rightarrow> hub_mgr \<Rightarrow> hub_mgr" where
  "RemoveP2PmsgPump t m = m\<lparr>m_oCListP2PmsgPump := remove1 t (m_oCListP2PmsgPump m)\<rparr>"

definition RemoveP2Pexplorer :: "thread \<Rightarrow> hub_mgr \<Rightarrow> hub_mgr" where
  "RemoveP2Pexplorer t m = m\<lparr>m_pP2Pexplorer := None, m_oCListP2PmsgPump := remove1 t (m_oCListP2PmsgPump m)\<rparr>"

definition CloseP2PmsgPump :: "thread \<Rightarrow> registry \<Rightarrow> registry_error option \<times> registry" where
  "CloseP2PmsgPump self s =
    (case s_ThreadID_P2PmsgPump s self of None \<Rightarrow> (None, s)
     | Some p \<Rightarrow>
        if self = m_nHubID p then (Some FromHubContext, s)
        else (case hub s (m_nHubID p) of None \<Rightarrow> (None, drop_pump self s)
          | Some m \<Rightarrow> (None, drop_pump self (set_hub (m_nHubID p) (RemoveP2PmsgPump self m) s))))"

section \<open>Connections of a hub\<close>

definition hub_PostP2PmsgCon :: "thread \<Rightarrow> hub_mgr \<Rightarrow> nat \<Rightarrow> registry \<Rightarrow> registry" where
  "hub_PostP2PmsgCon h m c s =
    (if c \<in> set (m_oCListP2PmsgCon m) then s
     else (set_hub h (m\<lparr>m_oCListP2PmsgCon := m_oCListP2PmsgCon m @ [c]\<rparr>) s)
       \<lparr>s_P2PmsgCon_HubID := (s_P2PmsgCon_HubID s)(c \<mapsto> h), m_nP2PconID := insert c (m_nP2PconID s)\<rparr>)"

definition hub_PostP2PexpCon :: "thread \<Rightarrow> hub_mgr \<Rightarrow> nat \<Rightarrow> registry \<Rightarrow> registry" where
  "hub_PostP2PexpCon h m c s =
    (if c \<in> set (m_oCListP2PexpCon m) then s
     else (set_hub h (m\<lparr>m_oCListP2PexpCon := m_oCListP2PexpCon m @ [c]\<rparr>) s)
       \<lparr>s_P2PexpCon_HubID := (s_P2PexpCon_HubID s)(c \<mapsto> h), m_nP2PconID := insert c (m_nP2PconID s)\<rparr>)"

text \<open>The walks remove every entry of the connection; without one nothing happens.\<close>

definition hub_DropP2PmsgCon :: "thread \<Rightarrow> hub_mgr \<Rightarrow> nat \<Rightarrow> registry \<Rightarrow> registry" where
  "hub_DropP2PmsgCon h m c s =
    (if c \<in> set (m_oCListP2PmsgCon m)
     then (set_hub h (m\<lparr>m_oCListP2PmsgCon := removeAll c (m_oCListP2PmsgCon m)\<rparr>) s)
       \<lparr>s_P2PmsgCon_HubID := (s_P2PmsgCon_HubID s)(c := None), m_nP2PconID := m_nP2PconID s - {c}\<rparr>
     else s)"

definition hub_DropP2PexpCon :: "thread \<Rightarrow> hub_mgr \<Rightarrow> nat \<Rightarrow> registry \<Rightarrow> registry" where
  "hub_DropP2PexpCon h m c s =
    (if c \<in> set (m_oCListP2PexpCon m)
     then (set_hub h (m\<lparr>m_oCListP2PexpCon := removeAll c (m_oCListP2PexpCon m)\<rparr>) s)
       \<lparr>s_P2PexpCon_HubID := (s_P2PexpCon_HubID s)(c := None), m_nP2PconID := m_nP2PconID s - {c}\<rparr>
     else s)"

text \<open>The hub a number names: that of the pump of the calling thread if it is zero.\<close>

definition hub_named :: "thread \<Rightarrow> thread \<Rightarrow> registry \<Rightarrow> registry_error + thread \<times> hub_mgr" where
  "hub_named self nHubID s =
    (case (if nHubID = 0 then map_option m_nHubID (s_ThreadID_P2PmsgPump s self) else Some nHubID) of
       None \<Rightarrow> Inl NoPumpContext
     | Some h \<Rightarrow> (case hub s h of None \<Rightarrow> Inl NoHubContext | Some m \<Rightarrow> Inr (h, m)))"

definition PostP2PmsgCon :: "thread \<Rightarrow> thread \<Rightarrow> nat \<Rightarrow> registry \<Rightarrow> registry_error option \<times> registry" where
  "PostP2PmsgCon self nHubID c s =
    (case hub_named self nHubID s of Inl e \<Rightarrow> (Some e, s)
     | Inr (h, m) \<Rightarrow>
        if s_P2PmsgCon_HubID s c \<noteq> None \<or> s_P2PexpCon_HubID s c \<noteq> None then (Some AlreadyPosted, s)
        else if (case s_ThreadID_P2PmsgPump s self of None \<Rightarrow> False | Some p \<Rightarrow> m_bP2Pexplorer p)
        then (None, hub_PostP2PexpCon h m c s)
        else (None, hub_PostP2PmsgCon h m c s))"

definition PostP2PexpCon :: "thread \<Rightarrow> thread \<Rightarrow> nat \<Rightarrow> registry \<Rightarrow> registry_error option \<times> registry" where
  "PostP2PexpCon self nExpumpID c s =
    (case s_ThreadID_P2PmsgPump s (if nExpumpID = 0 then self else nExpumpID) of None \<Rightarrow> (Some NoExplorerContext, s)
     | Some p \<Rightarrow>
        if \<not> m_bP2Pexplorer p then (Some NoExplorerContext, s)
        else (case hub s (m_nHubID p) of None \<Rightarrow> (Some NoHubContext, s)
          | Some m \<Rightarrow> if s_P2PexpCon_HubID s c \<noteq> None then (Some AlreadyPosted, s)
              else (None, hub_PostP2PexpCon (m_nHubID p) m c s)))"

definition DropP2PmsgCon :: "nat \<Rightarrow> registry \<Rightarrow> registry" where
  "DropP2PmsgCon c s =
    (case s_P2PmsgCon_HubID s c of
       Some h \<Rightarrow> (case hub s h of Some m \<Rightarrow> hub_DropP2PmsgCon h m c s
         | None \<Rightarrow> s\<lparr>s_P2PmsgCon_HubID := (s_P2PmsgCon_HubID s)(c := None)\<rparr>)
     | None \<Rightarrow> (case s_P2PexpCon_HubID s c of None \<Rightarrow> s
         | Some h \<Rightarrow> (case hub s h of Some m \<Rightarrow> hub_DropP2PexpCon h m c s
             | None \<Rightarrow> s\<lparr>s_P2PexpCon_HubID := (s_P2PexpCon_HubID s)(c := None)\<rparr>)))"

text \<open>
  The closing of a hub and of an explorer, by their own thread; \<open>gone\<close> are the connections whose last reference goes
  while it closes.
\<close>

definition CloseP2PmsgHub :: "thread \<Rightarrow> nat list \<Rightarrow> registry \<Rightarrow> registry_error option \<times> registry" where
  "CloseP2PmsgHub self gone s =
    (case s_ThreadID_P2PmsgPump s self of None \<Rightarrow> (None, s)
     | Some p \<Rightarrow> if self \<noteq> m_nHubID p then (Some FromPumpContext, s)
        else (None, delete_hub self (fold DropP2PmsgCon gone s)))"

definition CloseP2Pexpump :: "thread \<Rightarrow> nat list \<Rightarrow> registry \<Rightarrow> (registry_error + bool) \<times> registry" where
  "CloseP2Pexpump self gone s =
    (case s_ThreadID_P2PmsgPump s self of None \<Rightarrow> (Inr False, s)
     | Some p \<Rightarrow> if self = m_nHubID p then (Inl FromHubContext, s)
        else if hub s (m_nHubID p) = None then (Inr False, drop_pump self s)
        else (let s = fold DropP2PmsgCon gone s
              in (Inr True, drop_pump self (set_hub (m_nHubID p) (RemoveP2Pexplorer self (the (hub s (m_nHubID p)))) s))))"

section \<open>Looking things up\<close>

definition GetP2PmsgHubID :: "thread \<Rightarrow> registry \<Rightarrow> registry_error + thread" where
  "GetP2PmsgHubID self s = (case s_ThreadID_P2PmsgPump s self of None \<Rightarrow> Inl NoPumpContext | Some p \<Rightarrow> Inr (m_nHubID p))"

definition GetP2PmsgHubContext :: "thread \<Rightarrow> registry \<Rightarrow> thread" where
  "GetP2PmsgHubContext self s = (case s_ThreadID_P2PmsgPump s self of None \<Rightarrow> 0 | Some p \<Rightarrow> m_nHubID p)"

text \<open>The two functions that find the hub of a connection.  A lookup that fails leaves the number as it was.\<close>

definition GetP2PmsgHubID_con :: "nat \<Rightarrow> registry \<Rightarrow> registry_error + thread" where
  "GetP2PmsgHubID_con c s =
    (case s_P2PmsgCon_HubID s c of None \<Rightarrow> Inl NotPosted
     | Some _ \<Rightarrow> (case s_P2PexpCon_HubID s c of None \<Rightarrow> Inl NotPosted
         | Some h \<Rightarrow> if h = 0 then Inl NotPosted else Inr h))"

definition GetP2PmsgHubAddr_con :: "nat \<Rightarrow> registry \<Rightarrow> registry_error + wstr" where
  "GetP2PmsgHubAddr_con c s =
    (case (case s_P2PmsgCon_HubID s c of None \<Rightarrow> s_P2PexpCon_HubID s c | h \<Rightarrow> h) of None \<Rightarrow> Inl NotPosted
     | Some h \<Rightarrow> if h = 0 then Inl NotPosted
        else (case hub s h of None \<Rightarrow> Inl NoHubContext | Some m \<Rightarrow> Inr (m_oP2Paddr m)))"

text \<open>The properties of a hub.\<close>

definition of_hub :: "(hub_mgr \<Rightarrow> 'a) \<Rightarrow> thread \<Rightarrow> thread \<Rightarrow> registry \<Rightarrow> registry_error + 'a" where
  "of_hub f self nHubID s = (case hub_named self nHubID s of Inl e \<Rightarrow> Inl e | Inr (h, m) \<Rightarrow> Inr (f m))"

definition on_hub :: "(hub_mgr \<Rightarrow> hub_mgr) \<Rightarrow> thread \<Rightarrow> thread \<Rightarrow> registry \<Rightarrow> registry_error option \<times> registry" where
  "on_hub f self nHubID s = (case hub_named self nHubID s of Inl e \<Rightarrow> (Some e, s) | Inr (h, m) \<Rightarrow> (None, set_hub h (f m) s))"

definition GetP2PmsgHubAdom :: "thread \<Rightarrow> thread \<Rightarrow> registry \<Rightarrow> registry_error + wstr" where
  "GetP2PmsgHubAdom = of_hub m_oP2Padomain"

definition GetP2PmsgHubAddr :: "thread \<Rightarrow> thread \<Rightarrow> registry \<Rightarrow> registry_error + wstr" where
  "GetP2PmsgHubAddr = of_hub m_oP2Paddr"

definition GetP2PmsgHubName :: "thread \<Rightarrow> thread \<Rightarrow> registry \<Rightarrow> registry_error + wstr" where
  "GetP2PmsgHubName = of_hub (\<lambda>m. c_name (m_oP2Paddr m))"

definition SetP2PmsgHubAdom :: "thread \<Rightarrow> thread \<Rightarrow> wstr \<Rightarrow> registry \<Rightarrow> registry_error option \<times> registry" where
  "SetP2PmsgHubAdom self nHubID a = on_hub (\<lambda>m. m\<lparr>m_oP2Padomain := a\<rparr>) self nHubID"

definition SetP2PmsgHubAddr :: "thread \<Rightarrow> thread \<Rightarrow> wstr \<Rightarrow> registry \<Rightarrow> registry_error option \<times> registry" where
  "SetP2PmsgHubAddr self nHubID a = on_hub (\<lambda>m. m\<lparr>m_oP2Paddr := a\<rparr>) self nHubID"

definition GetP2PmsgHubConCount :: "thread \<Rightarrow> thread \<Rightarrow> registry \<Rightarrow> registry_error + nat" where
  "GetP2PmsgHubConCount = of_hub (\<lambda>m. length (m_oCListP2PmsgCon m))"

definition IsP2PmsgHubInProcess :: "wstr \<Rightarrow> registry \<Rightarrow> bool" where
  "IsP2PmsgHubInProcess a s \<longleftrightarrow> a \<noteq> [] \<and> list_ex (\<lambda>(h, m). m_oP2Paddr m \<noteq> [] \<and> m_oP2Paddr m = a) (s_ThreadID_P2PmsgHub s)"

definition P2PmsgHubExists :: "thread \<Rightarrow> registry \<Rightarrow> bool" where
  "P2PmsgHubExists h s \<longleftrightarrow> s_ThreadID_P2PmsgHub s \<noteq> [] \<and> hub s h \<noteq> None"

text \<open>The figures of a hub.  They answer zero where the others throw.\<close>

definition LookupP2PmsgHubMgr :: "thread \<Rightarrow> thread \<Rightarrow> registry \<Rightarrow> (thread \<times> hub_mgr) option" where
  "LookupP2PmsgHubMgr self nHubID s =
    (case (if nHubID = 0 then (case s_ThreadID_P2PmsgPump s self of None \<Rightarrow> None
             | Some p \<Rightarrow> Some (if m_nHubID p \<noteq> 0 then m_nHubID p else self)) else Some nHubID) of
       None \<Rightarrow> None | Some h \<Rightarrow> map_option (Pair h) (hub s h))"

definition figure :: "(thread \<Rightarrow> hub_mgr \<Rightarrow> nat) \<Rightarrow> thread \<Rightarrow> thread \<Rightarrow> registry \<Rightarrow> nat" where
  "figure f self nHubID s = (if s_uxP2PmsgHubMgr s = None then 0
     else (case LookupP2PmsgHubMgr self nHubID s of None \<Rightarrow> 0 | Some (h, m) \<Rightarrow> f h m))"

definition queue_of :: "registry \<Rightarrow> thread \<Rightarrow> nat" where
  "queue_of s t = (case s_ThreadID_P2PmsgPump s t of None \<Rightarrow> 0 | Some p \<Rightarrow> GetCount p)"

definition GetP2PmsgHubQueCount :: "thread \<Rightarrow> thread \<Rightarrow> registry \<Rightarrow> nat" where
  "GetP2PmsgHubQueCount self nHubID s =
    figure (\<lambda>h m. queue_of s h + sum_list (map (queue_of s) (filter (\<lambda>t. t \<noteq> h) (m_oCListP2PmsgPump m)))) self nHubID s"

text \<open>\<open>service\<close>, \<open>accepted\<close> and \<open>held\<close>: the mode and the counters of the connections.\<close>

definition GetP2PmsgHubAcceptedCount :: "(nat \<Rightarrow> bool) \<Rightarrow> (nat \<Rightarrow> nat) \<Rightarrow> thread \<Rightarrow> thread \<Rightarrow> registry \<Rightarrow> nat" where
  "GetP2PmsgHubAcceptedCount service accepted = figure (\<lambda>h m. sum_list (map accepted (filter service (m_oCListP2PmsgCon m))))"

definition GetP2PmsgHubHeldCount :: "(nat \<Rightarrow> nat) \<Rightarrow> thread \<Rightarrow> thread \<Rightarrow> registry \<Rightarrow> nat" where
  "GetP2PmsgHubHeldCount held = figure (\<lambda>h m. sum_list (map held (m_oCListP2PmsgCon m)))"

definition GetP2PmsgHubPumpsMax :: "thread \<Rightarrow> thread \<Rightarrow> registry \<Rightarrow> nat" where
  "GetP2PmsgHubPumpsMax = figure (\<lambda>h m. m_nPumpsMax m)"

section \<open>Enumerations\<close>

text \<open>
  An enumeration is driven by its caller, who hands in what was answered last: null or zero to begin with.
  The answer is \<open>None\<close> at the end.
\<close>

fun next_con :: "nat \<Rightarrow> nat list \<Rightarrow> nat option" where
  "next_con c [] = None"
| "next_con c (d # ds) = (case ds of [] \<Rightarrow> None | e # _ \<Rightarrow> if d = c then Some e else next_con c ds)"

definition enum_con :: "nat option \<Rightarrow> nat list \<Rightarrow> nat option" where
  "enum_con ppCon cs = (case ppCon of None \<Rightarrow> (case cs of [] \<Rightarrow> None | c # _ \<Rightarrow> Some c) | Some c \<Rightarrow> next_con c cs)"

definition EnumP2PmsgCon :: "thread \<Rightarrow> thread \<Rightarrow> nat option \<Rightarrow> registry \<Rightarrow> registry_error + nat option" where
  "EnumP2PmsgCon self nHubID ppCon s = of_hub (\<lambda>m. enum_con ppCon (m_oCListP2PmsgCon m)) self nHubID s"

definition EnumP2PexpCon :: "thread \<Rightarrow> thread \<Rightarrow> nat option \<Rightarrow> registry \<Rightarrow> registry_error + nat option" where
  "EnumP2PexpCon self nExpumpID ppCon s =
    (case s_ThreadID_P2PmsgPump s (if nExpumpID = 0 then self else nExpumpID) of None \<Rightarrow> Inl NoExplorerContext
     | Some p \<Rightarrow> if \<not> m_bP2Pexplorer p then Inl NoExplorerContext
        else (case hub s (m_nHubID p) of None \<Rightarrow> Inl NoHubContext | Some m \<Rightarrow> Inr (enum_con ppCon (m_oCListP2PexpCon m))))"

text \<open>The pumps are enumerated by their number; the end gives the number of all ones.\<close>

fun next_pump :: "thread \<Rightarrow> thread list \<Rightarrow> bool \<times> thread" where
  "next_pump n [] = (False, -1)"
| "next_pump n (t # ts) = (if n = 0 then (True, t) else next_pump (if n = t then 0 else n) ts)"

definition EnumP2PmsgPump :: "thread \<Rightarrow> thread \<Rightarrow> registry \<Rightarrow> bool \<times> thread" where
  "EnumP2PmsgPump nHubID nPumpID s = (case hub s nHubID of None \<Rightarrow> (False, nPumpID) | Some m \<Rightarrow> next_pump nPumpID (m_oCListP2PmsgPump m))"

text \<open>What is collected under one lock; \<open>live\<close>: \<open>TryAddRef\<close> of ConRefs.\<close>

definition RetainP2PmsgCons :: "(nat \<Rightarrow> bool) \<Rightarrow> thread \<Rightarrow> thread \<Rightarrow> registry \<Rightarrow> registry_error + nat list" where
  "RetainP2PmsgCons live = of_hub (\<lambda>m. filter live (m_oCListP2PmsgCon m))"

section \<open>Pumps by their number\<close>

definition pump_named :: "thread \<Rightarrow> thread \<Rightarrow> registry \<Rightarrow> (thread \<times> pump_mgr) option" where
  "pump_named self n s = (let t = (if n = 0 then self else n) in map_option (Pair t) (s_ThreadID_P2PmsgPump s t))"

definition P2PmsgPumpExists :: "thread \<Rightarrow> registry \<Rightarrow> bool" where
  "P2PmsgPumpExists n s \<longleftrightarrow> s_ThreadID_P2PmsgPump s n \<noteq> None"

definition IsP2PmsgPumping :: "thread \<Rightarrow> thread \<Rightarrow> registry \<Rightarrow> bool" where
  "IsP2PmsgPumping self n s \<longleftrightarrow> pump_named self n s \<noteq> None"

definition GetP2PmsgPumpID :: "thread \<Rightarrow> registry \<Rightarrow> registry_error + thread" where
  "GetP2PmsgPumpID self s = (case s_ThreadID_P2PmsgPump s self of None \<Rightarrow> Inl NoPumpContext | Some _ \<Rightarrow> Inr self)"

definition GetP2PmsgPumpName :: "thread \<Rightarrow> thread \<Rightarrow> registry \<Rightarrow> registry_error + wstr" where
  "GetP2PmsgPumpName self n s = (case pump_named self n s of None \<Rightarrow> Inl NoPumpContext | Some (t, p) \<Rightarrow> Inr (m_csName p))"

definition SetP2PmsgPumpFunc :: "thread \<Rightarrow> thread \<Rightarrow> wstr \<Rightarrow> registry \<Rightarrow> registry_error option \<times> registry" where
  "SetP2PmsgPumpFunc self n f s = (case pump_named self n s of None \<Rightarrow> (Some NoPumpContext, s)
     | Some (t, p) \<Rightarrow> (None, set_pump t (p\<lparr>m_strFunc := f\<rparr>) s))"

definition SignalP2PmsgPump :: "thread \<Rightarrow> nat \<Rightarrow> registry \<Rightarrow> bool \<times> registry" where
  "SignalP2PmsgPump n nSigID s = (case s_ThreadID_P2PmsgPump s n of None \<Rightarrow> (False, s)
     | Some p \<Rightarrow> (True, set_pump n (p\<lparr>m_oCListP2PsigID := m_oCListP2PsigID p @ [nSigID]\<rparr>) s))"

definition RegisterP2Pexpump :: "thread \<Rightarrow> 32 word \<Rightarrow> bool \<Rightarrow> registry \<Rightarrow> (registry_error + 32 word) \<times> registry" where
  "RegisterP2Pexpump self dwMask bRegister s =
    (case s_ThreadID_P2PmsgPump s self of None \<Rightarrow> (Inl NoExplorerContext, s)
     | Some p \<Rightarrow> if \<not> m_bP2Pexplorer p then (Inl NoExplorerContext, s)
        else (let n = (if bRegister then or (m_dwExpumpMask p) dwMask else and (m_dwExpumpMask p) (not dwMask))
              in (Inr n, set_pump self (p\<lparr>m_dwExpumpMask := n\<rparr>) s)))"

section \<open>The registries agree\<close>

lemma hub_set_hub [simp]: "hub (set_hub h m s) = (hub s)(h \<mapsto> m)"
  by (simp add: hub_def set_hub_def update_conv')

lemma set_hub_frame [simp]:
  "s_uxP2PmsgHubMgr (set_hub h m s) = s_uxP2PmsgHubMgr s" "s_ThreadID_P2PmsgPump (set_hub h m s) = s_ThreadID_P2PmsgPump s"
  "s_P2PmsgCon_HubID (set_hub h m s) = s_P2PmsgCon_HubID s" "s_P2PexpCon_HubID (set_hub h m s) = s_P2PexpCon_HubID s"
  by (simp_all add: set_hub_def)

lemma set_pump_frame [simp]:
  "hub (set_pump t p s) = hub s" "s_ThreadID_P2PmsgPump (set_pump t p s) = (s_ThreadID_P2PmsgPump s)(t \<mapsto> p)"
  "s_P2PmsgCon_HubID (set_pump t p s) = s_P2PmsgCon_HubID s" "s_P2PexpCon_HubID (set_pump t p s) = s_P2PexpCon_HubID s"
  by (simp_all add: set_pump_def hub_def)

lemma drop_pump_frame [simp]:
  "hub (drop_pump t s) = hub s" "s_ThreadID_P2PmsgPump (drop_pump t s) = (s_ThreadID_P2PmsgPump s)(t := None)"
  "s_P2PmsgCon_HubID (drop_pump t s) = s_P2PmsgCon_HubID s" "s_P2PexpCon_HubID (drop_pump t s) = s_P2PexpCon_HubID s"
  by (simp_all add: drop_pump_def hub_def)

lemma hub_update [simp]:
  "hub (s\<lparr>s_P2PmsgCon_HubID := a\<rparr>) = hub s" "hub (s\<lparr>s_P2PexpCon_HubID := a\<rparr>) = hub s" "hub (s\<lparr>m_nP2PconID := b\<rparr>) = hub s"
  "hub (s\<lparr>s_uxP2PmsgHubMgr := u\<rparr>) = hub s" "hub (s\<lparr>s_ThreadID_P2PmsgHub := AList.delete h (s_ThreadID_P2PmsgHub s)\<rparr>) = (hub s)(h := None)"
  by (simp_all add: hub_def delete_conv')

lemma drop_pumps_frame:
  "hub (fold drop_pump ts s) = hub s" "s_P2PmsgCon_HubID (fold drop_pump ts s) = s_P2PmsgCon_HubID s"
  "s_P2PexpCon_HubID (fold drop_pump ts s) = s_P2PexpCon_HubID s" "s_ThreadID_P2PmsgHub (fold drop_pump ts s) = s_ThreadID_P2PmsgHub s"
  "s_ThreadID_P2PmsgPump (fold drop_pump ts s) = (\<lambda>t. if t \<in> set ts then None else s_ThreadID_P2PmsgPump s t)"
  by (induction ts arbitrary: s) (auto simp: fun_eq_iff drop_pump_def hub_def)

text \<open>
  A pump is in the list of its hub and only there; the pump of the hub's own thread is always in it; at most one pump is
  the explorer, over and above the limit; every listed connection has the hub as its key.
\<close>

definition pumps_ok :: "registry \<Rightarrow> thread \<Rightarrow> hub_mgr \<Rightarrow> bool" where
  "pumps_ok s h m \<longleftrightarrow> distinct (m_oCListP2PmsgPump m) \<and> h \<in> set (m_oCListP2PmsgPump m) \<and> m_pP2Pexplorer m \<noteq> Some h
    \<and> (\<forall>t \<in> set (m_oCListP2PmsgPump m). \<exists>p. s_ThreadID_P2PmsgPump s t = Some p \<and> m_nHubID p = h
        \<and> (m_bP2Pexplorer p \<longleftrightarrow> m_pP2Pexplorer m = Some t))
    \<and> (\<forall>t. m_pP2Pexplorer m = Some t \<longrightarrow> t \<in> set (m_oCListP2PmsgPump m))
    \<and> 0 < m_nPumpsMax m \<and> m_nPumpsMax m \<le> MAX_P2PmsgPump
    \<and> length (m_oCListP2PmsgPump m) \<le> m_nPumpsMax m + (if m_pP2Pexplorer m = None then 0 else 1)"

definition cons_ok :: "registry \<Rightarrow> thread \<Rightarrow> hub_mgr \<Rightarrow> bool" where
  "cons_ok s h m \<longleftrightarrow> distinct (m_oCListP2PmsgCon m) \<and> (\<forall>c \<in> set (m_oCListP2PmsgCon m). s_P2PmsgCon_HubID s c = Some h)
    \<and> distinct (m_oCListP2PexpCon m) \<and> (\<forall>c \<in> set (m_oCListP2PexpCon m). s_P2PexpCon_HubID s c = Some h)"

definition registry_ok :: "registry \<Rightarrow> bool" where
  "registry_ok s \<longleftrightarrow> distinct (map fst (s_ThreadID_P2PmsgHub s))
    \<and> (\<forall>h m. hub s h = Some m \<longrightarrow> pumps_ok s h m \<and> cons_ok s h m)
    \<and> (\<forall>t p. s_ThreadID_P2PmsgPump s t = Some p \<longrightarrow> t \<noteq> 0 \<and> (\<exists>m. hub s (m_nHubID p) = Some m \<and> t \<in> set (m_oCListP2PmsgPump m)))"

lemma registry_ok_pump:
  "registry_ok s \<Longrightarrow> s_ThreadID_P2PmsgPump s t = Some p \<Longrightarrow> \<exists>m. hub s (m_nHubID p) = Some m \<and> t \<in> set (m_oCListP2PmsgPump m)"
  by (simp add: registry_ok_def)

lemma registry_ok_hub: "registry_ok s \<Longrightarrow> hub s h = Some m \<Longrightarrow> pumps_ok s h m \<and> cons_ok s h m"
  by (simp add: registry_ok_def)

text \<open>A change of a hub that keeps its pumps, and of the keys along with it.\<close>

lemma registry_ok_hub_changed:
  assumes ok: "registry_ok s" and h: "hub s h = Some m"
    and d: "distinct (map fst (s_ThreadID_P2PmsgHub s'))" "hub s' = (hub s)(h \<mapsto> m')" "s_ThreadID_P2PmsgPump s' = s_ThreadID_P2PmsgPump s"
    and p: "m_oCListP2PmsgPump m' = m_oCListP2PmsgPump m" "m_pP2Pexplorer m' = m_pP2Pexplorer m" "m_nPumpsMax m' = m_nPumpsMax m"
    and c: "cons_ok s' h m'" "\<And>g n. g \<noteq> h \<Longrightarrow> hub s g = Some n \<Longrightarrow> cons_ok s g n \<Longrightarrow> cons_ok s' g n"
  shows "registry_ok s'"
proof -
  have "pumps_ok s' g n \<and> cons_ok s' g n" if "hub s' g = Some n" for g n
  proof (cases "g = h")
    case True
    then show ?thesis using that d(2,3) registry_ok_hub [OF ok h] p c(1) by (simp add: pumps_ok_def)
  next
    case False
    then show ?thesis using that d(2,3) registry_ok_hub [OF ok, of g n] c(2) by (simp add: pumps_ok_def)
  qed
  moreover have "t \<noteq> 0 \<and> (\<exists>n. hub s' (m_nHubID q) = Some n \<and> t \<in> set (m_oCListP2PmsgPump n))" if "s_ThreadID_P2PmsgPump s' t = Some q" for t q
    using that ok d(2,3) h p(1) unfolding registry_ok_def by (cases "m_nHubID q = h") fastforce+
  ultimately show ?thesis using d(1) by (simp add: registry_ok_def)
qed

lemma distinct_set_hub [simp]:
  "distinct (map fst (s_ThreadID_P2PmsgHub s)) \<Longrightarrow> distinct (map fst (s_ThreadID_P2PmsgHub (set_hub h m s)))"
  by (simp add: set_hub_def distinct_update)

lemma registry_ok_distinct: "registry_ok s \<Longrightarrow> distinct (map fst (s_ThreadID_P2PmsgHub s))"
  by (simp add: registry_ok_def)

lemma cons_ok_other: "cons_ok s g n \<Longrightarrow> (\<And>c. c \<in> set (m_oCListP2PmsgCon n) \<Longrightarrow> s_P2PmsgCon_HubID s' c = s_P2PmsgCon_HubID s c)
    \<Longrightarrow> (\<And>c. c \<in> set (m_oCListP2PexpCon n) \<Longrightarrow> s_P2PexpCon_HubID s' c = s_P2PexpCon_HubID s c) \<Longrightarrow> cons_ok s' g n"
  by (simp add: cons_ok_def)

lemma registry_ok_hub_PostP2PmsgCon:
  assumes ok: "registry_ok s" and h: "hub s h = Some m" and c: "s_P2PmsgCon_HubID s c = None"
  shows "registry_ok (hub_PostP2PmsgCon h m c s)"
proof -
  have "c \<notin> set (m_oCListP2PmsgCon n)" if "hub s g = Some n" for g n
    using registry_ok_hub [OF ok that] c by (auto simp: cons_ok_def)
  then show ?thesis
    using registry_ok_hub [OF ok h] registry_ok_distinct [OF ok] c h unfolding hub_PostP2PmsgCon_def
    by (auto intro!: registry_ok_hub_changed [OF ok h] simp: set_hub_def distinct_update hub_def update_conv' cons_ok_def fun_eq_iff)
qed

lemma registry_ok_hub_PostP2PexpCon:
  assumes ok: "registry_ok s" and h: "hub s h = Some m" and c: "s_P2PexpCon_HubID s c = None"
  shows "registry_ok (hub_PostP2PexpCon h m c s)"
proof -
  have "c \<notin> set (m_oCListP2PexpCon n)" if "hub s g = Some n" for g n
    using registry_ok_hub [OF ok that] c by (auto simp: cons_ok_def)
  then show ?thesis
    using registry_ok_hub [OF ok h] registry_ok_distinct [OF ok] c h unfolding hub_PostP2PexpCon_def
    by (auto intro!: registry_ok_hub_changed [OF ok h] simp: set_hub_def distinct_update hub_def update_conv' cons_ok_def fun_eq_iff)
qed

lemma registry_ok_hub_DropP2PmsgCon:
  assumes ok: "registry_ok s" and h: "hub s h = Some m" and c: "s_P2PmsgCon_HubID s c = Some h"
  shows "registry_ok (hub_DropP2PmsgCon h m c s)"
proof -
  have "c \<notin> set (m_oCListP2PmsgCon n)" if "hub s g = Some n" "g \<noteq> h" for g n
    using registry_ok_hub [OF ok that(1)] c that(2) by (auto simp: cons_ok_def)
  then show ?thesis
    using registry_ok_hub [OF ok h] registry_ok_distinct [OF ok] c h ok unfolding hub_DropP2PmsgCon_def
    by (auto intro!: registry_ok_hub_changed [OF ok h] simp: set_hub_def distinct_update hub_def update_conv' cons_ok_def fun_eq_iff distinct_removeAll)
qed

lemma registry_ok_hub_DropP2PexpCon:
  assumes ok: "registry_ok s" and h: "hub s h = Some m" and c: "s_P2PexpCon_HubID s c = Some h"
  shows "registry_ok (hub_DropP2PexpCon h m c s)"
proof -
  have "c \<notin> set (m_oCListP2PexpCon n)" if "hub s g = Some n" "g \<noteq> h" for g n
    using registry_ok_hub [OF ok that(1)] c that(2) by (auto simp: cons_ok_def)
  then show ?thesis
    using registry_ok_hub [OF ok h] registry_ok_distinct [OF ok] c h ok unfolding hub_DropP2PexpCon_def
    by (auto intro!: registry_ok_hub_changed [OF ok h] simp: set_hub_def distinct_update hub_def update_conv' cons_ok_def fun_eq_iff distinct_removeAll)
qed

text \<open>Changes of the keys of connections no hub lists.\<close>

lemma registry_ok_keys:
  assumes ok: "registry_ok s" and d: "s_ThreadID_P2PmsgHub s' = s_ThreadID_P2PmsgHub s" "s_ThreadID_P2PmsgPump s' = s_ThreadID_P2PmsgPump s"
    and c: "\<And>h m. hub s h = Some m \<Longrightarrow> cons_ok s h m \<Longrightarrow> cons_ok s' h m"
  shows "registry_ok s'"
proof -
  have "hub s' = hub s" using d(1) by (simp add: hub_def)
  then show ?thesis using ok d c unfolding registry_ok_def pumps_ok_def by simp
qed

lemma registry_ok_DropP2PmsgCon: "registry_ok s \<Longrightarrow> registry_ok (DropP2PmsgCon c s)"
proof -
  assume ok: "registry_ok s"
  have msg: "cons_ok (s\<lparr>s_P2PmsgCon_HubID := (s_P2PmsgCon_HubID s)(c := None)\<rparr>) g n"
    if "s_P2PmsgCon_HubID s c = Some h" "hub s h = None" "hub s g = Some n" "cons_ok s g n" for g n h
    using that by (auto simp: cons_ok_def)
  have exp: "cons_ok (s\<lparr>s_P2PexpCon_HubID := (s_P2PexpCon_HubID s)(c := None)\<rparr>) g n"
    if "s_P2PexpCon_HubID s c = Some h" "hub s h = None" "hub s g = Some n" "cons_ok s g n" for g n h
    using that by (auto simp: cons_ok_def)
  have "registry_ok (s\<lparr>s_P2PmsgCon_HubID := (s_P2PmsgCon_HubID s)(c := None)\<rparr>)"
    if "s_P2PmsgCon_HubID s c = Some h" "hub s h = None" for h
    by (rule registry_ok_keys [OF ok]) (use msg [OF that] in auto)
  moreover have "registry_ok (s\<lparr>s_P2PexpCon_HubID := (s_P2PexpCon_HubID s)(c := None)\<rparr>)"
    if "s_P2PexpCon_HubID s c = Some h" "hub s h = None" for h
    by (rule registry_ok_keys [OF ok]) (use exp [OF that] in auto)
  ultimately show ?thesis
    using ok registry_ok_hub_DropP2PmsgCon [OF ok] registry_ok_hub_DropP2PexpCon [OF ok]
    by (auto simp: DropP2PmsgCon_def split: option.splits)
qed

lemma registry_ok_drops: "registry_ok s \<Longrightarrow> registry_ok (fold DropP2PmsgCon cs s)"
  by (induction cs arbitrary: s) (auto intro: registry_ok_DropP2PmsgCon)

text \<open>A new pump in the list of a hub; \<open>e\<close>: it becomes the explorer.\<close>

lemma registry_ok_new_pump:
  assumes ok: "registry_ok s" and h: "hub s h = Some m" and t: "s_ThreadID_P2PmsgPump s t = None" "t \<noteq> 0"
    and p: "m_nHubID p = h" "m_bP2Pexplorer p = e"
    and e: "if e then m_pP2Pexplorer m = None else length (m_oCListP2PmsgPump m) < m_nPumpsMax m"
    and m': "m' = m\<lparr>m_oCListP2PmsgPump := m_oCListP2PmsgPump m @ [t], m_pP2Pexplorer := if e then Some t else m_pP2Pexplorer m\<rparr>"
  shows "registry_ok (set_pump t p (set_hub h m' s))" (is "registry_ok ?s")
proof -
  have away: "t \<notin> set (m_oCListP2PmsgPump n)" if "hub s g = Some n" for g n
    using registry_ok_hub [OF ok that] t(1) by (auto simp: pumps_ok_def)
  then have ne: "m_pP2Pexplorer m \<noteq> Some t" using registry_ok_hub [OF ok h] h by (auto simp: pumps_ok_def)
  have "pumps_ok ?s g n" if g: "hub ?s g = Some n" for g n
  proof (cases "g = h")
    case True
    then show ?thesis using g registry_ok_hub [OF ok h] away [OF h] ne p e m' by (auto simp: pumps_ok_def)
  next
    case False
    then have "hub s g = Some n" using g by simp
    then show ?thesis using registry_ok_hub [OF ok, of g n] away [of g n] by (auto simp: pumps_ok_def)
  qed
  moreover have "cons_ok ?s g n" if g: "hub ?s g = Some n" for g n
    using g registry_ok_hub [OF ok h] registry_ok_hub [OF ok, of g n] m' by (cases "g = h") (auto simp: cons_ok_def)
  moreover have "\<exists>n. hub ?s (m_nHubID q) = Some n \<and> u \<in> set (m_oCListP2PmsgPump n)" if "s_ThreadID_P2PmsgPump ?s u = Some q" for u q
    using that registry_ok_pump [OF ok, of u q] h p(1) m' by (cases "u = t"; cases "m_nHubID q = h") auto
  ultimately show ?thesis using ok t(2) registry_ok_distinct [OF ok] unfolding registry_ok_def
    by (auto simp: set_pump_def set_hub_def distinct_update)
qed

text \<open>A pump other than the hub's own leaves.\<close>

lemma registry_ok_pump_gone:
  assumes ok: "registry_ok s" and t: "s_ThreadID_P2PmsgPump s t = Some p" "t \<noteq> m_nHubID p" and h: "hub s (m_nHubID p) = Some m"
    and e: "e \<longleftrightarrow> m_bP2Pexplorer p"
    and m': "m' = m\<lparr>m_oCListP2PmsgPump := remove1 t (m_oCListP2PmsgPump m), m_pP2Pexplorer := if e then None else m_pP2Pexplorer m\<rparr>"
  shows "registry_ok (drop_pump t (set_hub (m_nHubID p) m' s))" (is "registry_ok ?s")
proof -
  let ?h = "m_nHubID p"
  note hok = registry_ok_hub [OF ok h]
  have t_in: "t \<in> set (m_oCListP2PmsgPump m)" using registry_ok_pump [OF ok t(1)] h by simp
  have away: "t \<notin> set (m_oCListP2PmsgPump n)" if "hub s g = Some n" "g \<noteq> ?h" for g n
    using registry_ok_hub [OF ok that(1)] t(1) that(2) by (auto simp: pumps_ok_def)
  have ex: "m_pP2Pexplorer m = Some t \<longleftrightarrow> e" using hok t(1) t_in e by (auto simp: pumps_ok_def)
  have one: "m_pP2Pexplorer m' = Some u \<longleftrightarrow> m_pP2Pexplorer m = Some u" if "u \<noteq> t" for u
    using m' ex that by auto
  have "pumps_ok ?s g n" if g: "hub ?s g = Some n" for g n
  proof (cases "g = ?h")
    case True
    have "\<exists>q. s_ThreadID_P2PmsgPump ?s u = Some q \<and> m_nHubID q = ?h \<and> (m_bP2Pexplorer q \<longleftrightarrow> m_pP2Pexplorer m' = Some u)"
      if "u \<in> set (m_oCListP2PmsgPump m)" "u \<noteq> t" for u
      using hok that one [of u] by (simp add: pumps_ok_def)
    moreover have "m_pP2Pexplorer m' = Some u \<Longrightarrow> u \<in> set (remove1 t (m_oCListP2PmsgPump m))" for u
      using hok m' ex by (auto simp: pumps_ok_def split: if_splits)
    moreover have "length (remove1 t (m_oCListP2PmsgPump m)) \<le> m_nPumpsMax m + (if m_pP2Pexplorer m' = None then 0 else 1)"
      using hok m' t_in by (auto simp: pumps_ok_def length_remove1 split: if_splits)
    moreover have "m_oCListP2PmsgPump m' = remove1 t (m_oCListP2PmsgPump m)" "m_nPumpsMax m' = m_nPumpsMax m" "m_pP2Pexplorer m' \<noteq> Some ?h"
      using m' hok by (auto simp: pumps_ok_def)
    moreover have "n = m'" using g True by simp
    ultimately show ?thesis using True hok t(2) unfolding pumps_ok_def by (intro conjI) (auto simp: distinct_remove1)
  next
    case False
    then show ?thesis using g registry_ok_hub [OF ok, of g n] away [of g n] by (auto simp: pumps_ok_def)
  qed
  moreover have "cons_ok ?s g n" if g: "hub ?s g = Some n" for g n
    using g hok registry_ok_hub [OF ok, of g n] m' by (cases "g = ?h") (auto simp: cons_ok_def)
  moreover have "\<exists>n. hub ?s (m_nHubID q) = Some n \<and> u \<in> set (m_oCListP2PmsgPump n)" if u: "s_ThreadID_P2PmsgPump ?s u = Some q" for u q
  proof -
    have "u \<noteq> t" using u by auto
    then show ?thesis using u registry_ok_pump [OF ok, of u q] h m' hok by (cases "m_nHubID q = ?h") (auto simp: pumps_ok_def)
  qed
  ultimately show ?thesis using ok unfolding registry_ok_def by (auto simp: drop_pump_def set_hub_def distinct_update)
qed

lemma registry_ok_delete_hub:
  assumes ok: "registry_ok s"
  shows "registry_ok (delete_hub h s)"
proof (cases "hub s h")
  case None
  then show ?thesis using ok by (simp add: delete_hub_def)
next
  case (Some m)
  let ?s = "delete_hub h s"
  have hubs: "hub ?s = (hub s)(h := None)"
    by (simp add: delete_hub_def Some) (simp add: hub_def delete_conv')
  have pumps: "s_ThreadID_P2PmsgPump ?s = (\<lambda>t. if t \<in> set (m_oCListP2PmsgPump m) then None else s_ThreadID_P2PmsgPump s t)"
    and keys: "s_P2PmsgCon_HubID ?s = s_P2PmsgCon_HubID s" "s_P2PexpCon_HubID ?s = s_P2PexpCon_HubID s"
    by (simp_all add: delete_hub_def Some drop_pumps_frame)
  have away: "t \<notin> set (m_oCListP2PmsgPump m)" if "hub s g = Some n" "g \<noteq> h" "t \<in> set (m_oCListP2PmsgPump n)" for g n t
    using registry_ok_hub [OF ok that(1)] registry_ok_hub [OF ok Some] that(2,3) by (fastforce simp: pumps_ok_def)
  have "pumps_ok ?s g n \<and> cons_ok ?s g n" if g: "hub s g = Some n" "g \<noteq> h" for g n
    using registry_ok_hub [OF ok g(1)] away [OF g] unfolding pumps_ok_def cons_ok_def pumps keys by auto
  moreover have "m_nHubID q \<noteq> h" if "s_ThreadID_P2PmsgPump s u = Some q" "u \<notin> set (m_oCListP2PmsgPump m)" for u q
    using registry_ok_pump [OF ok that(1)] that(2) Some by auto
  moreover have "distinct (map fst (s_ThreadID_P2PmsgHub ?s))"
    using registry_ok_distinct [OF ok] by (simp add: delete_hub_def Some drop_pumps_frame distinct_delete)
  ultimately show ?thesis
    using ok unfolding registry_ok_def hubs pumps by (auto split: if_splits)
qed

lemma registry_ok_new_hub:
  assumes ok: "registry_ok s" and h: "s_ThreadID_P2PmsgPump s h = None" "h \<noteq> 0"
    and m: "m_oCListP2PmsgPump m = [h]" "m_pP2Pexplorer m = None" "0 < m_nPumpsMax m" "m_nPumpsMax m \<le> MAX_P2PmsgPump"
      "m_oCListP2PmsgCon m = []" "m_oCListP2PexpCon m = []" and p: "m_nHubID p = h" "\<not> m_bP2Pexplorer p"
  shows "registry_ok (set_pump h p (set_hub h m s))"
proof -
  have none: "hub s h = None"
  proof (cases "hub s h")
    case (Some n)
    then show ?thesis using registry_ok_hub [OF ok Some] h(1) by (auto simp: pumps_ok_def)
  qed
  have away: "h \<notin> set (m_oCListP2PmsgPump n)" if "hub s g = Some n" for g n
    using registry_ok_hub [OF ok that] h(1) by (auto simp: pumps_ok_def)
  have "\<exists>n. hub (set_pump h p (set_hub h m s)) (m_nHubID q) = Some n \<and> u \<in> set (m_oCListP2PmsgPump n)"
    if "s_ThreadID_P2PmsgPump (set_pump h p (set_hub h m s)) u = Some q" for u q
    using that registry_ok_pump [OF ok, of u q] none m(1) p(1) by (cases "u = h"; cases "m_nHubID q = h") auto
  moreover have "pumps_ok (set_pump h p (set_hub h m s)) g n \<and> cons_ok (set_pump h p (set_hub h m s)) g n"
    if g: "hub (set_pump h p (set_hub h m s)) g = Some n" for g n
  proof (cases "g = h")
    case True
    then show ?thesis using g m p by (auto simp: pumps_ok_def cons_ok_def)
  next
    case False
    then have "hub s g = Some n" using g by simp
    then show ?thesis using registry_ok_hub [OF ok, of g n] away [of g n] by (auto simp: pumps_ok_def cons_ok_def)
  qed
  ultimately show ?thesis using ok h(2) registry_ok_distinct [OF ok] unfolding registry_ok_def
    by (auto simp: set_pump_def set_hub_def distinct_update)
qed

lemma registry_ok_set_pump:
  assumes ok: "registry_ok s" and t: "s_ThreadID_P2PmsgPump s t = Some p" and q: "m_nHubID q = m_nHubID p" "m_bP2Pexplorer q = m_bP2Pexplorer p"
  shows "registry_ok (set_pump t q s)"
proof -
  have "pumps_ok (set_pump t q s) h m \<longleftrightarrow> pumps_ok s h m" for h m using t q by (auto simp: pumps_ok_def)
  moreover have "cons_ok (set_pump t q s) h m \<longleftrightarrow> cons_ok s h m" for h m by (simp add: cons_ok_def)
  ultimately show ?thesis using ok t q unfolding registry_ok_def by (auto simp: set_pump_def hub_def)
qed

lemma registry_ok_CreateP2PmsgHub:
  assumes ok: "registry_ok s" and t: "self \<noteq> 0"
  shows "registry_ok (snd (CreateP2PmsgHub self port_ok a n s))"
proof -
  let ?m = "(hub_new n)\<lparr>m_oP2Paddr := a, m_oCListP2PmsgPump := [self]\<rparr>"
  let ?s = "set_pump self ((P2PmsgPump self False)\<lparr>m_csName := c_name a\<rparr>) (set_hub self ?m s)"
  have made: "set_pump self ((P2PmsgPump self False)\<lparr>m_csName := c_name a\<rparr>)
      (set_hub self ((the (hub (Factory self n s) self))\<lparr>m_oP2Paddr := a\<rparr>) (Factory self n s)) = ?s"
    by (simp add: Factory_def hub_CreateP2PmsgPump_def hub_def set_pump_def set_hub_def update_conv' update_last hub_new_def)
  have "registry_ok ?s" if "s_ThreadID_P2PmsgPump s self = None" "0 < n" "n \<le> MAX_P2PmsgPump"
    using that t by (intro registry_ok_new_hub [OF ok]) (auto simp: hub_new_def P2PmsgPump_def)
  then show ?thesis
    using ok by (auto simp: CreateP2PmsgHub_def Let_def made not_less Suc_le_eq intro!: registry_ok_delete_hub split: option.splits)
qed

lemma registry_ok_CreateP2PmsgPump:
  assumes ok: "registry_ok s" and t: "self \<noteq> 0"
  shows "registry_ok (snd (CreateP2PmsgPump self h a s))"
proof -
  have "registry_ok (set_pump self ((P2PmsgPump h False)\<lparr>m_csName := a\<rparr>) (hub_CreateP2PmsgPump self h m s))"
    if "s_ThreadID_P2PmsgPump s self = None" "hub s h = Some m" "length (m_oCListP2PmsgPump m) < m_nPumpsMax m" for m
  proof -
    have "set_pump self q (hub_CreateP2PmsgPump self h m s) = set_pump self q (set_hub h (m\<lparr>m_oCListP2PmsgPump := m_oCListP2PmsgPump m @ [self]\<rparr>) s)" for q
      by (simp add: hub_CreateP2PmsgPump_def set_pump_def)
    then show ?thesis using that t by (auto intro!: registry_ok_new_pump [OF ok, where e = False] simp: P2PmsgPump_def)
  qed
  then show ?thesis using ok by (auto simp: CreateP2PmsgPump_def split: option.splits)
qed

lemma registry_ok_CreateP2Pexpump:
  assumes ok: "registry_ok s" and t: "self \<noteq> 0"
  shows "registry_ok (snd (CreateP2Pexpump self port_ok h s))"
proof -
  have "registry_ok (set_pump self ((P2PmsgPump h True)\<lparr>m_csName := Expump, m_strFunc := Anon\<rparr>) (hub_CreateP2Pexplorer self h m s))"
    if "s_ThreadID_P2PmsgPump s self = None" "hub s h = Some m" "m_pP2Pexplorer m = None" for m
  proof -
    have "set_pump self q (hub_CreateP2Pexplorer self h m s)
        = set_pump self q (set_hub h (m\<lparr>m_oCListP2PmsgPump := m_oCListP2PmsgPump m @ [self], m_pP2Pexplorer := Some self\<rparr>) s)" for q
      by (simp add: hub_CreateP2Pexplorer_def set_pump_def)
    then show ?thesis using that t by (auto intro!: registry_ok_new_pump [OF ok, where e = True] simp: P2PmsgPump_def)
  qed
  then show ?thesis using ok by (auto simp: CreateP2Pexpump_def Let_def split: option.splits)
qed

lemma registry_ok_CloseP2PmsgPump:
  assumes ok: "registry_ok s" and e: "\<forall>p. s_ThreadID_P2PmsgPump s self = Some p \<longrightarrow> \<not> m_bP2Pexplorer p"
  shows "registry_ok (snd (CloseP2PmsgPump self s))"
proof (cases "s_ThreadID_P2PmsgPump s self")
  case (Some p)
  obtain m where m: "hub s (m_nHubID p) = Some m" using registry_ok_pump [OF ok Some] by blast
  have "registry_ok (drop_pump self (set_hub (m_nHubID p) (RemoveP2PmsgPump self m) s))" if "self \<noteq> m_nHubID p"
    by (rule registry_ok_pump_gone [OF ok Some that m, of False]) (use e Some in \<open>simp_all add: RemoveP2PmsgPump_def\<close>)
  then show ?thesis using ok Some m by (simp add: CloseP2PmsgPump_def)
qed (simp add: CloseP2PmsgPump_def ok)

lemma drop_con_frame:
  "s_ThreadID_P2PmsgPump (DropP2PmsgCon c s) = s_ThreadID_P2PmsgPump s" "hub (DropP2PmsgCon c s) h = None \<longleftrightarrow> hub s h = None"
  by (auto simp: DropP2PmsgCon_def hub_DropP2PmsgCon_def hub_DropP2PexpCon_def split: option.splits if_splits)

lemma drop_cons_frame:
  "s_ThreadID_P2PmsgPump (fold DropP2PmsgCon cs s) = s_ThreadID_P2PmsgPump s" "hub (fold DropP2PmsgCon cs s) h = None \<longleftrightarrow> hub s h = None"
  by (induction cs arbitrary: s) (simp_all add: drop_con_frame)

lemma registry_ok_CloseP2Pexpump:
  assumes ok: "registry_ok s" and e: "\<forall>p. s_ThreadID_P2PmsgPump s self = Some p \<longrightarrow> m_bP2Pexplorer p"
  shows "registry_ok (snd (CloseP2Pexpump self gone s))"
proof (cases "s_ThreadID_P2PmsgPump s self")
  case (Some p)
  let ?s = "fold DropP2PmsgCon gone s"
  have ok': "registry_ok ?s" using registry_ok_drops [OF ok] .
  have p: "s_ThreadID_P2PmsgPump ?s self = Some p" using Some by (simp add: drop_cons_frame)
  obtain m where m: "hub ?s (m_nHubID p) = Some m" using registry_ok_pump [OF ok' p] by blast
  have "registry_ok (drop_pump self (set_hub (m_nHubID p) (RemoveP2Pexplorer self m) ?s))" if "self \<noteq> m_nHubID p"
    by (rule registry_ok_pump_gone [OF ok' p that m, of True]) (use e Some in \<open>simp_all add: RemoveP2Pexplorer_def\<close>)
  moreover have "hub s (m_nHubID p) \<noteq> None" using drop_cons_frame(2) [of gone s "m_nHubID p"] m by auto
  ultimately show ?thesis using ok Some m by (auto simp: CloseP2Pexpump_def Let_def)
qed (simp add: CloseP2Pexpump_def ok)

lemma hub_named_SomeD: "hub_named self n s = Inr (h, m) \<Longrightarrow> hub s h = Some m"
  by (auto simp: hub_named_def split: option.splits)

lemma registry_ok_PostP2PmsgCon: "registry_ok s \<Longrightarrow> registry_ok (snd (PostP2PmsgCon self n c s))"
  by (auto simp: PostP2PmsgCon_def intro: registry_ok_hub_PostP2PmsgCon registry_ok_hub_PostP2PexpCon dest: hub_named_SomeD split: sum.splits option.splits)

lemma registry_ok_PostP2PexpCon: "registry_ok s \<Longrightarrow> registry_ok (snd (PostP2PexpCon self n c s))"
  by (auto simp: PostP2PexpCon_def intro: registry_ok_hub_PostP2PexpCon split: option.splits)

lemma registry_ok_on_hub:
  assumes ok: "registry_ok s" and f: "\<And>m. m_oCListP2PmsgPump (f m) = m_oCListP2PmsgPump m" "\<And>m. m_pP2Pexplorer (f m) = m_pP2Pexplorer m"
    "\<And>m. m_nPumpsMax (f m) = m_nPumpsMax m" "\<And>m. m_oCListP2PmsgCon (f m) = m_oCListP2PmsgCon m" "\<And>m. m_oCListP2PexpCon (f m) = m_oCListP2PexpCon m"
  shows "registry_ok (snd (on_hub f self n s))"
proof -
  have "registry_ok (set_hub h (f m) s)" if h: "hub s h = Some m" for h m
    using registry_ok_hub [OF ok h] f registry_ok_distinct [OF ok] by (intro registry_ok_hub_changed [OF ok h, where m' = "f m"]) (auto simp: cons_ok_def)
  then show ?thesis using ok by (auto simp: on_hub_def dest: hub_named_SomeD split: sum.splits)
qed

text \<open>
  What threads may do, in any order: \<open>ClosesPump\<close> and \<open>ClosesExplorer\<close> are for the kind of pump the code asserts, and
  thread numbers are not zero.
\<close>

datatype registry_event = Starts nat | Cleans | MakesHub thread bool wstr nat | MakesPump thread thread wstr
  | MakesExplorer thread bool thread | ClosesPump thread | ClosesHub thread "nat list" | ClosesExplorer thread "nat list"
  | Posts thread thread nat | PostsExp thread thread nat | Drops nat | Addresses thread thread wstr | Adomains thread thread wstr
  | Functions thread thread wstr | Signals thread nat | Masks thread "32 word" bool

fun allowed :: "registry_event \<Rightarrow> registry \<Rightarrow> bool" where
  "allowed (MakesHub t b a n) s = (t \<noteq> 0)"
| "allowed (MakesPump t h a) s = (t \<noteq> 0)"
| "allowed (MakesExplorer t b h) s = (t \<noteq> 0)"
| "allowed (ClosesPump t) s = (case s_ThreadID_P2PmsgPump s t of None \<Rightarrow> True | Some p \<Rightarrow> \<not> m_bP2Pexplorer p)"
| "allowed (ClosesExplorer t gone) s = (case s_ThreadID_P2PmsgPump s t of None \<Rightarrow> True | Some p \<Rightarrow> m_bP2Pexplorer p)"
| "allowed _ s = True"

fun performs :: "registry_event \<Rightarrow> registry \<Rightarrow> registry" where
  "performs (Starts n) s = snd (StartupP2Pmsg n s)"
| "performs Cleans s = CleanupP2Pmsg s"
| "performs (MakesHub t b a n) s = snd (CreateP2PmsgHub t b a n s)"
| "performs (MakesPump t h a) s = snd (CreateP2PmsgPump t h a s)"
| "performs (MakesExplorer t b h) s = snd (CreateP2Pexpump t b h s)"
| "performs (ClosesPump t) s = snd (CloseP2PmsgPump t s)"
| "performs (ClosesHub t gone) s = snd (CloseP2PmsgHub t gone s)"
| "performs (ClosesExplorer t gone) s = snd (CloseP2Pexpump t gone s)"
| "performs (Posts t h c) s = snd (PostP2PmsgCon t h c s)"
| "performs (PostsExp t h c) s = snd (PostP2PexpCon t h c s)"
| "performs (Drops c) s = DropP2PmsgCon c s"
| "performs (Addresses t h a) s = snd (SetP2PmsgHubAddr t h a s)"
| "performs (Adomains t h a) s = snd (SetP2PmsgHubAdom t h a s)"
| "performs (Functions t n f) s = snd (SetP2PmsgPumpFunc t n f s)"
| "performs (Signals t k) s = snd (SignalP2PmsgPump t k s)"
| "performs (Masks t m b) s = snd (RegisterP2Pexpump t m b s)"

definition performed :: "registry_event list \<Rightarrow> registry \<Rightarrow> registry" where
  "performed = fold (\<lambda>e s. if allowed e s then performs e s else s)"

definition registry_new :: registry where
  "registry_new = \<lparr>s_uxP2PmsgHubMgr = None, s_ThreadID_P2PmsgPump = Map.empty, s_ThreadID_P2PmsgHub = [], s_P2PmsgCon_HubID = Map.empty,
    s_P2PexpCon_HubID = Map.empty, m_nP2PconID = {}\<rparr>"

lemma registry_ok_performs:
  assumes ok: "registry_ok s" and a: "allowed e s"
  shows "registry_ok (performs e s)"
proof (cases e)
  case (Starts n)
  have "registry_ok (s\<lparr>s_uxP2PmsgHubMgr := u\<rparr>)" for u by (rule registry_ok_keys [OF ok]) (simp_all add: cons_ok_def)
  then show ?thesis using Starts ok by (simp add: StartupP2Pmsg_def)
next
  case Cleans
  have "registry_ok (s\<lparr>s_uxP2PmsgHubMgr := u\<rparr>)" for u by (rule registry_ok_keys [OF ok]) (simp_all add: cons_ok_def)
  then show ?thesis using Cleans by (simp add: CleanupP2Pmsg_def)
next
  case (ClosesHub t gone)
  then show ?thesis using ok registry_ok_delete_hub [OF registry_ok_drops [OF ok]] by (auto simp: CloseP2PmsgHub_def split: option.splits)
next
  case (Functions t n f)
  then show ?thesis using ok
    by (auto simp: SetP2PmsgPumpFunc_def pump_named_def Let_def intro!: registry_ok_set_pump [OF ok] split: option.splits if_splits)
next
  case (Signals t k)
  then show ?thesis using ok by (auto simp: SignalP2PmsgPump_def intro!: registry_ok_set_pump [OF ok] split: option.splits)
next
  case (Masks t m b)
  then show ?thesis using ok by (auto simp: RegisterP2Pexpump_def Let_def intro!: registry_ok_set_pump [OF ok] split: option.splits)
next
  case (ClosesPump t)
  then show ?thesis using a registry_ok_CloseP2PmsgPump [OF ok, of t] by (auto split: option.splits)
next
  case (ClosesExplorer t gone)
  then show ?thesis using a registry_ok_CloseP2Pexpump [OF ok, of t gone] by (auto split: option.splits)
qed (use ok a in \<open>simp_all add: registry_ok_CreateP2PmsgHub registry_ok_CreateP2PmsgPump registry_ok_CreateP2Pexpump registry_ok_PostP2PmsgCon
  registry_ok_PostP2PexpCon registry_ok_DropP2PmsgCon SetP2PmsgHubAddr_def SetP2PmsgHubAdom_def registry_ok_on_hub\<close>)

lemma registry_ok_performed: "registry_ok s \<Longrightarrow> registry_ok (performed es s)"
  by (induction es arbitrary: s) (auto simp: performed_def registry_ok_performs)

lemma registry_ok_new: "registry_ok registry_new"
  by (simp add: registry_ok_def registry_new_def hub_def)

text \<open>
  C30: over any sequence of what threads do, the registries agree: a thread's pump is in the list of one hub, which exists and
  has its own pump; pumps stay within the limit of their hub, the explorer not counted; and the connections a hub lists are
  listed once and keyed to it, so no two hubs list the same.
\<close>
theorem registries_agree:
  assumes "s = performed es registry_new"
  shows "(\<forall>t p. s_ThreadID_P2PmsgPump s t = Some p \<longrightarrow> (\<exists>m. hub s (m_nHubID p) = Some m \<and> t \<in> set (m_oCListP2PmsgPump m)))
    \<and> (\<forall>h m. hub s h = Some m \<longrightarrow> h \<in> set (m_oCListP2PmsgPump m) \<and> distinct (m_oCListP2PmsgPump m)
        \<and> length (m_oCListP2PmsgPump m) \<le> m_nPumpsMax m + (if m_pP2Pexplorer m = None then 0 else 1)
        \<and> (\<forall>t \<in> set (m_oCListP2PmsgPump m). \<exists>p. s_ThreadID_P2PmsgPump s t = Some p \<and> m_nHubID p = h)
        \<and> distinct (m_oCListP2PmsgCon m) \<and> (\<forall>c \<in> set (m_oCListP2PmsgCon m). s_P2PmsgCon_HubID s c = Some h))"
  using registry_ok_performed [OF registry_ok_new, of es, folded assms]
  unfolding registry_ok_def pumps_ok_def cons_ok_def by blast

theorem registries_agree_witness:
  "\<exists>m. hub (performed [Starts 2, MakesHub 7 True [1, 2] 2, MakesPump 8 7 [], Posts 8 0 3] registry_new) 7 = Some m
    \<and> m_oCListP2PmsgPump m = [7, 8] \<and> s_P2PmsgCon_HubID (performed [Starts 2, MakesHub 7 True [1, 2] 2, MakesPump 8 7 [], Posts 8 0 3] registry_new) 3 = Some 7"
  (is "\<exists>m. hub ?s 7 = Some m \<and> _ \<and> _")
proof -
  have "\<exists>m. hub ?s 7 = Some m \<and> m_oCListP2PmsgPump m = [7, 8] \<and> m_oCListP2PmsgCon m = [3]"
    by (simp add: performed_def registry_new_def StartupP2Pmsg_def MAX_P2PmsgHub_def MAX_P2PmsgPump_def CreateP2PmsgHub_def Let_def
      Factory_def hub_new_def hub_CreateP2PmsgPump_def set_hub_def set_pump_def hub_def P2PmsgPump_def CreateP2PmsgPump_def
      PostP2PmsgCon_def hub_named_def hub_PostP2PmsgCon_def)
  then show ?thesis using registries_agree [of ?s, OF refl] by auto
qed

section \<open>The hub of a connection\<close>

definition posts_exp :: "registry_event \<Rightarrow> bool" where
  "posts_exp e = (case e of PostsExp _ _ _ \<Rightarrow> True | _ \<Rightarrow> False)"

definition one_key :: "registry \<Rightarrow> bool" where
  "one_key s \<longleftrightarrow> (\<forall>c. s_P2PmsgCon_HubID s c = None \<or> s_P2PexpCon_HubID s c = None)"

lemma one_key_less:
  "one_key s \<Longrightarrow> (\<And>c. s_P2PmsgCon_HubID s' c = s_P2PmsgCon_HubID s c \<or> s_P2PmsgCon_HubID s' c = None)
    \<Longrightarrow> (\<And>c. s_P2PexpCon_HubID s' c = s_P2PexpCon_HubID s c \<or> s_P2PexpCon_HubID s' c = None) \<Longrightarrow> one_key s'"
  unfolding one_key_def by metis

lemma one_key_same: "one_key s \<Longrightarrow> s_P2PmsgCon_HubID s' = s_P2PmsgCon_HubID s \<Longrightarrow> s_P2PexpCon_HubID s' = s_P2PexpCon_HubID s \<Longrightarrow> one_key s'"
  by (simp add: one_key_def)

lemma one_key_drop: "one_key s \<Longrightarrow> one_key (DropP2PmsgCon c s)"
  by (erule one_key_less) (auto simp: DropP2PmsgCon_def hub_DropP2PmsgCon_def hub_DropP2PexpCon_def split: option.splits)

lemma one_key_drops: "one_key s \<Longrightarrow> one_key (fold DropP2PmsgCon cs s)"
  by (induction cs arbitrary: s) (simp_all add: one_key_drop)

lemma one_key_delete_hub: "one_key s \<Longrightarrow> one_key (delete_hub h s)"
  by (erule one_key_same) (auto simp: delete_hub_def drop_pumps_frame split: option.splits)

lemma one_key_PostP2PmsgCon: "one_key s \<Longrightarrow> one_key (snd (PostP2PmsgCon self n c s))"
  by (auto simp: one_key_def PostP2PmsgCon_def hub_PostP2PmsgCon_def hub_PostP2PexpCon_def split: sum.splits option.splits)

lemma one_key_CreateP2PmsgHub: "one_key s \<Longrightarrow> one_key (snd (CreateP2PmsgHub self b a n s))"
proof -
  assume k: "one_key s"
  have "one_key (set_pump t p (set_hub h m (Factory u i s)))" for t p h m u i
    using k by (rule one_key_same) (simp_all add: Factory_def hub_CreateP2PmsgPump_def)
  then show ?thesis using k by (auto simp: CreateP2PmsgHub_def Let_def intro!: one_key_delete_hub split: option.splits)
qed

lemma one_key_performs: "one_key s \<Longrightarrow> \<not> posts_exp e \<Longrightarrow> one_key (performs e s)"
proof (cases e)
  case (ClosesHub t gone)
  then show "one_key s \<Longrightarrow> one_key (performs e s)"
    by (auto simp: CloseP2PmsgHub_def intro: one_key_delete_hub one_key_drops split: option.splits)
next
  case (ClosesExplorer t gone)
  have "one_key s \<Longrightarrow> one_key (drop_pump t (set_hub h m (fold DropP2PmsgCon gone s)))" for h m
    using one_key_drops [of s gone] by (auto elim: one_key_same)
  moreover have "one_key s \<Longrightarrow> one_key (drop_pump t s)" by (erule one_key_same) simp_all
  ultimately show "one_key s \<Longrightarrow> one_key (performs e s)" using ClosesExplorer by (auto simp: CloseP2Pexpump_def Let_def split: option.splits)
qed (auto simp: posts_exp_def one_key_drop one_key_PostP2PmsgCon one_key_CreateP2PmsgHub StartupP2Pmsg_def CleanupP2Pmsg_def CreateP2PmsgPump_def
  CreateP2Pexpump_def CloseP2PmsgPump_def hub_CreateP2PmsgPump_def hub_CreateP2Pexplorer_def SetP2PmsgHubAddr_def SetP2PmsgHubAdom_def
  on_hub_def SetP2PmsgPumpFunc_def pump_named_def SignalP2PmsgPump_def RegisterP2Pexpump_def Let_def elim!: one_key_same split: option.splits sum.splits)

lemma one_key_performed: "one_key s \<Longrightarrow> list_all (\<lambda>e. \<not> posts_exp e) es \<Longrightarrow> one_key (performed es s)"
  by (induction es arbitrary: s) (auto simp: performed_def one_key_performs)

text \<open>
  C31: the hub of a connection is never found: as long as connections are posted by \<open>PostP2PmsgCon\<close> only, which refuses one that
  has a key, \<open>GetP2PmsgHubID\<close> throws for each of them, and \<open>GetP2PmsgHubAddr\<close> answers the address of its hub.
\<close>
theorem hub_of_connection_not_found:
  assumes "s = performed es registry_new" "list_all (\<lambda>e. \<not> posts_exp e) es"
    and "hub s h = Some m" "c \<in> set (m_oCListP2PmsgCon m)"
  shows "GetP2PmsgHubID_con c s = Inl NotPosted \<and> GetP2PmsgHubAddr_con c s = Inr (m_oP2Paddr m)"
proof
  have "one_key registry_new" by (simp add: one_key_def registry_new_def)
  then have "one_key s" using one_key_performed assms(1,2) by simp
  then show "GetP2PmsgHubID_con c s = Inl NotPosted" by (auto simp: one_key_def GetP2PmsgHubID_con_def split: option.splits)
  have ok: "registry_ok s" using registry_ok_performed [OF registry_ok_new] assms(1) by simp
  then have "h \<in> set (m_oCListP2PmsgPump m)" "s_P2PmsgCon_HubID s c = Some h"
    using registry_ok_hub [OF ok assms(3)] assms(4) by (auto simp: pumps_ok_def cons_ok_def)
  moreover have "h \<noteq> 0" using registry_ok_hub [OF ok assms(3)] calculation(1) ok by (fastforce simp: pumps_ok_def registry_ok_def)
  ultimately show "GetP2PmsgHubAddr_con c s = Inr (m_oP2Paddr m)" using assms(3) by (simp add: GetP2PmsgHubAddr_con_def)
qed

lemmas registry_evals = performed_def registry_new_def StartupP2Pmsg_def MAX_P2PmsgHub_def MAX_P2PmsgPump_def CreateP2PmsgHub_def Let_def
  Factory_def hub_new_def hub_CreateP2PmsgPump_def set_hub_def set_pump_def hub_def P2PmsgPump_def CloseP2PmsgHub_def delete_hub_def drop_pump_def
  PostP2PmsgCon_def hub_named_def hub_PostP2PmsgCon_def DropP2PmsgCon_def hub_DropP2PmsgCon_def

theorem hub_of_connection_not_found_witness:
  "\<exists>m. hub (performed [Starts 2, MakesHub 7 True [1, 2] 2, Posts 7 0 3] registry_new) 7 = Some m \<and> 3 \<in> set (m_oCListP2PmsgCon m)
    \<and> GetP2PmsgHubID_con 3 (performed [Starts 2, MakesHub 7 True [1, 2] 2, Posts 7 0 3] registry_new) = Inl NotPosted"
  (is "\<exists>m. hub ?s 7 = Some m \<and> _ \<and> _")
proof -
  have "\<exists>m. hub ?s 7 = Some m \<and> 3 \<in> set (m_oCListP2PmsgCon m)" by (simp add: registry_evals)
  then show ?thesis using hub_of_connection_not_found [of ?s "[Starts 2, MakesHub 7 True [1, 2] 2, Posts 7 0 3]" 7 _ 3] by (auto simp: posts_exp_def)
qed

text \<open>
  A connection that outlives its hub keeps its key; when the system gives the thread number of the hub to the thread of a new
  hub, the deletion of the connection finds that hub, in whose list it is not, and leaves the key.  The next connection at that
  address is refused.
\<close>
theorem stale_key_refuses:
  assumes "h \<noteq> 0"
  shows "fst (PostP2PmsgCon h 0 c (performed [Starts 4, MakesHub h True a 2, Posts h 0 c, ClosesHub h [], MakesHub h True b 2, Drops c] registry_new))
    = Some AlreadyPosted"
  using assms by (simp add: registry_evals)

section \<open>Enumerations visit everything once\<close>

fun visited :: "nat \<Rightarrow> nat option \<Rightarrow> nat list \<Rightarrow> nat list" where
  "visited 0 pp cs = []"
| "visited (Suc n) pp cs = (case enum_con pp cs of None \<Rightarrow> [] | Some c \<Rightarrow> c # visited n (Some c) cs)"

lemma next_con_split: "c \<notin> set xs \<Longrightarrow> next_con c (xs @ c # ys) = (case ys of [] \<Rightarrow> None | y # _ \<Rightarrow> Some y)"
proof (induction xs)
  case (Cons x xs)
  then show ?case by (cases xs) (auto split: list.splits)
qed (auto split: list.splits)

lemma visited_rest: "distinct (xs @ c # ys) \<Longrightarrow> length ys < n \<Longrightarrow> visited n (Some c) (xs @ c # ys) = ys"
proof (induction ys arbitrary: xs c n)
  case Nil
  then show ?case by (cases n) (auto simp: enum_con_def next_con_split)
next
  case (Cons y ys)
  then obtain k where n: "n = Suc k" "length ys < k" by (cases n) auto
  have "visited k (Some y) ((xs @ [c]) @ y # ys) = ys" using Cons.IH [of "xs @ [c]" y k] Cons.prems(1) n by simp
  then show ?case using Cons.prems(1) n by (simp add: enum_con_def next_con_split)
qed

lemma visited_all: "distinct cs \<Longrightarrow> length cs < n \<Longrightarrow> visited n None cs = cs"
proof (cases cs)
  case (Cons c ds)
  assume a: "distinct cs" "length cs < n"
  then obtain k where "n = Suc k" "length ds < k" using Cons by (cases n) auto
  then show ?thesis using a Cons visited_rest [of "[]" c ds k] by (simp add: enum_con_def)
qed (cases n; simp add: enum_con_def)

lemma next_pump_split: "0 \<notin> set (xs @ t # ys) \<Longrightarrow> t \<notin> set xs \<Longrightarrow> next_pump t (xs @ t # ys) = (case ys of [] \<Rightarrow> (False, -1) | y # _ \<Rightarrow> (True, y))"
  by (induction xs) (auto split: list.splits)

text \<open>
  In every state threads can reach, the caller who hands back what he was given visits each connection of a hub once, in the order of
  their posting, and is then told the end; and each pump has its successor in the same way.
\<close>
theorem enumerations_are_complete:
  assumes "s = performed es registry_new" "hub s h = Some m"
  shows "visited (Suc (length (m_oCListP2PmsgCon m))) None (m_oCListP2PmsgCon m) = m_oCListP2PmsgCon m"
    "visited (Suc (length (m_oCListP2PexpCon m))) None (m_oCListP2PexpCon m) = m_oCListP2PexpCon m"
    "m_oCListP2PmsgPump m = xs @ t # ys \<Longrightarrow> EnumP2PmsgPump h t s = (case ys of [] \<Rightarrow> (False, -1) | y # _ \<Rightarrow> (True, y))"
proof -
  have ok: "registry_ok s" using registry_ok_performed [OF registry_ok_new] assms(1) by simp
  note o = registry_ok_hub [OF ok assms(2)]
  show "visited (Suc (length (m_oCListP2PmsgCon m))) None (m_oCListP2PmsgCon m) = m_oCListP2PmsgCon m"
    "visited (Suc (length (m_oCListP2PexpCon m))) None (m_oCListP2PexpCon m) = m_oCListP2PexpCon m"
    using o by (auto simp: cons_ok_def intro!: visited_all simp del: visited.simps)
  assume l: "m_oCListP2PmsgPump m = xs @ t # ys"
  have "0 \<notin> set (m_oCListP2PmsgPump m)" using o ok by (fastforce simp: pumps_ok_def registry_ok_def)
  then show "EnumP2PmsgPump h t s = (case ys of [] \<Rightarrow> (False, -1) | y # _ \<Rightarrow> (True, y))"
    using next_pump_split [of xs t ys] l o assms(2) by (auto simp: EnumP2PmsgPump_def pumps_ok_def)
qed

end
