(* ===== verification/Sinks.thy ===== *)
theory Sinks
  imports Registry "HOL-Library.Monad_Syntax"
begin

text \<open>
  Domain sinks, P2Pwin32.cpp and P2PeerTarget.cpp: targets register with a sink of their hub for notifications, a posting to
  the sink is a message for each of them, and the maps of the target are searched for its handler.

  A target is an address; \<open>targets\<close> are those that were not destroyed.  Random numbers are a list the loop draws
  from; handlers are an argument.
\<close>

type_synonym sinkid = "32 word"

record sink_reg =
  nSysID :: "32 word"
  nPumpID :: thread
  reg_pTarget :: nat

record sink =
  m_strSinkname :: wstr
  m_oP2PmsgSinkReglist :: "sink_reg list"

text \<open>A message of a sink; its number has 16 bits.\<close>

record snc =
  nMsg :: "16 word"
  pTarget :: nat
  nHubThreadID :: thread
  wParam :: nat
  lParam :: nat
  pP3PmsgItem :: "nat option"

text \<open>
  \<open>m_pP2PmsgSinkmap\<close>: the sinks of each hub by number; \<open>m_oCListP2Pmsg\<close>: what is put on the queue of a pump;
  \<open>m_pP2PmsgSinkIDmap\<close>: the names a target knows its own sinks by.
\<close>

record sinks =
  registry_of :: registry
  m_pP2PmsgSinkmap :: "thread \<rightharpoonup> (sinkid \<times> sink) list"
  m_oCListP2Pmsg :: "thread \<Rightarrow> snc list"
  targets :: "nat set"
  m_pTargetParent :: "nat \<rightharpoonup> nat"
  m_pP2PmsgSinkIDmap :: "nat \<rightharpoonup> (wstr \<times> sinkid) list"

definition m_nSinksMax :: nat where "m_nSinksMax = 255"

datatype sink_error = NoThreadContext | NoHub | SinkLimit | NoSink

section \<open>Registrations of a sink\<close>

definition P2PmsgSink :: "wstr \<Rightarrow> sink" where
  "P2PmsgSink name = \<lparr>m_strSinkname = name, m_oP2PmsgSinkReglist = []\<rparr>"

definition RegisterTarget :: "nat \<Rightarrow> 32 word \<Rightarrow> sink \<Rightarrow> sink" where
  "RegisterTarget t n k =
    (if list_ex (\<lambda>r. reg_pTarget r = t \<and> nSysID r = n) (m_oP2PmsgSinkReglist k) then k
     else k\<lparr>m_oP2PmsgSinkReglist := m_oP2PmsgSinkReglist k @ [\<lparr>nSysID = n, nPumpID = 0, reg_pTarget = t\<rparr>]\<rparr>)"

text \<open>A null target stands for every target, number zero for every number.\<close>

definition cancelled :: "nat option \<Rightarrow> 32 word \<Rightarrow> sink_reg \<Rightarrow> bool" where
  "cancelled t n r \<longleftrightarrow> (case t of None \<Rightarrow> True | Some a \<Rightarrow> reg_pTarget r = a) \<and> (n = 0 \<or> n = nSysID r)"

definition CancelTarget :: "nat option \<Rightarrow> 32 word \<Rightarrow> sink \<Rightarrow> nat \<times> sink" where
  "CancelTarget t n k = (length (filter (cancelled t n) (m_oP2PmsgSinkReglist k)),
     k\<lparr>m_oP2PmsgSinkReglist := filter (\<lambda>r. \<not> cancelled t n r) (m_oP2PmsgSinkReglist k)\<rparr>)"

section \<open>Sinks of a hub\<close>

text \<open>The hub of the calling thread.\<close>

definition hub_context :: "thread \<Rightarrow> sinks \<Rightarrow> sink_error + thread" where
  "hub_context self s = (case GetP2PmsgHubID self (registry_of s) of Inl _ \<Rightarrow> Inl NoThreadContext
     | Inr h \<Rightarrow> if hub (registry_of s) h = None then Inl NoHub else Inr h)"

definition sinkmap :: "thread \<Rightarrow> sinks \<Rightarrow> (sinkid \<times> sink) list" where
  "sinkmap h s = (case m_pP2PmsgSinkmap s h of None \<Rightarrow> [] | Some m \<Rightarrow> m)"

definition GetP2PmsgSink :: "thread \<Rightarrow> sinkid \<Rightarrow> sinks \<Rightarrow> sink option" where
  "GetP2PmsgSink h n s = map_of (sinkmap h s) n"

definition set_sinkmap :: "thread \<Rightarrow> (sinkid \<times> sink) list \<Rightarrow> sinks \<Rightarrow> sinks" where
  "set_sinkmap h m s = s\<lparr>m_pP2PmsgSinkmap := (m_pP2PmsgSinkmap s)(h \<mapsto> m)\<rparr>"

definition set_sink :: "thread \<Rightarrow> sinkid \<Rightarrow> sink \<Rightarrow> sinks \<Rightarrow> sinks" where
  "set_sink h n k s = set_sinkmap h (AList.update n k (sinkmap h s)) s"

text \<open>The loop that draws numbers until one is free; \<open>rands\<close>: the values of \<open>rand() & rand()\<close> in turn.\<close>

fun draw :: "sinkid list \<Rightarrow> (sinkid \<times> sink) list \<Rightarrow> sinkid option" where
  "draw [] m = None"
| "draw (n # ns) m = (if n = 0 \<or> map_of m n \<noteq> None then draw ns m else Some n)"

definition insert_sink :: "sinkid \<Rightarrow> sink \<Rightarrow> (sinkid \<times> sink) list \<Rightarrow> (sinkid \<times> sink) list" where
  "insert_sink n k m = insort_key fst (n, k) m"

text \<open>The outer option: whether the loop ends.\<close>

definition P2PmsgSinkCreate :: "thread \<Rightarrow> sinkid list \<Rightarrow> wstr \<Rightarrow> sinks \<Rightarrow> ((sink_error + sinkid) \<times> sinks) option" where
  "P2PmsgSinkCreate self rands name s =
    (case hub_context self s of Inl e \<Rightarrow> Some (Inl e, s)
     | Inr h \<Rightarrow> if m_pP2PmsgSinkmap s h \<noteq> None \<and> length (sinkmap h s) \<ge> m_nSinksMax then Some (Inl SinkLimit, s)
        else (case draw rands (sinkmap h s) of None \<Rightarrow> None
          | Some n \<Rightarrow> Some (Inr n, set_sinkmap h (insert_sink n (P2PmsgSink name) (sinkmap h s)) s)))"

definition with_sink :: "thread \<Rightarrow> sinkid \<Rightarrow> (thread \<Rightarrow> sink \<Rightarrow> 'a \<times> sinks) \<Rightarrow> sinks \<Rightarrow> (sink_error + 'a) \<times> sinks" where
  "with_sink self n f s =
    (case hub_context self s of Inl e \<Rightarrow> (Inl e, s)
     | Inr h \<Rightarrow> (case GetP2PmsgSink h n s of None \<Rightarrow> (Inl NoSink, s) | Some k \<Rightarrow> (case f h k of (x, s') \<Rightarrow> (Inr x, s'))))"

definition P2PmsgSinkRegister :: "thread \<Rightarrow> sinkid \<Rightarrow> nat \<Rightarrow> 32 word \<Rightarrow> sinks \<Rightarrow> (sink_error + bool) \<times> sinks" where
  "P2PmsgSinkRegister self n t sys s = with_sink self n (\<lambda>h k. (True, set_sink h n (RegisterTarget t sys k) s)) s"

definition P2PmsgSinkCancel :: "thread \<Rightarrow> sinkid \<Rightarrow> nat option \<Rightarrow> 32 word \<Rightarrow> sinks \<Rightarrow> (sink_error + nat) \<times> sinks" where
  "P2PmsgSinkCancel self n t sys s =
    with_sink self n (\<lambda>h k. case CancelTarget t sys k of (c, k') \<Rightarrow> (c, set_sink h n k' s)) s"

definition P2PmsgSinkClose :: "thread \<Rightarrow> sinkid \<Rightarrow> sinks \<Rightarrow> (sink_error + bool) \<times> sinks" where
  "P2PmsgSinkClose self n s =
    (case hub_context self s of Inl e \<Rightarrow> (Inl e, s)
     | Inr h \<Rightarrow> (case GetP2PmsgSink h n s of None \<Rightarrow> (Inr False, s)
        | Some _ \<Rightarrow> (Inr True, set_sinkmap h (AList.delete n (sinkmap h s)) s)))"

definition P2PmsgSinkIsValid :: "thread \<Rightarrow> sinkid \<Rightarrow> sinks \<Rightarrow> sink_error + bool" where
  "P2PmsgSinkIsValid self n s = (case hub_context self s of Inl e \<Rightarrow> Inl e | Inr h \<Rightarrow> Inr (GetP2PmsgSink h n s \<noteq> None))"

text \<open>The end of a hub closes its sinks one by one, from the first; \<open>None\<close>: the loop does not end, or an exception leaves it.\<close>

partial_function (option) CleanupP2PmsgSink :: "thread \<Rightarrow> thread \<Rightarrow> nat \<Rightarrow> sinks \<Rightarrow> (nat \<times> sinks) option" where
  "CleanupP2PmsgSink self h nSinks s =
    (case m_pP2PmsgSinkmap s h of None \<Rightarrow> Some (nSinks, s)
     | Some [] \<Rightarrow> Some (nSinks, s\<lparr>m_pP2PmsgSinkmap := (m_pP2PmsgSinkmap s)(h := None)\<rparr>)
     | Some ((n, k) # m) \<Rightarrow> (case P2PmsgSinkClose self n s of (Inl e, _) \<Rightarrow> None
         | (Inr b, s') \<Rightarrow> CleanupP2PmsgSink self h (Suc nSinks) s'))"

section \<open>Posting\<close>

definition addressed :: "32 word \<Rightarrow> nat option \<Rightarrow> sink_reg \<Rightarrow> bool" where
  "addressed n t r \<longleftrightarrow> (nSysID r = 0 \<or> nSysID r = n) \<and> (case t of None \<Rightarrow> True | Some a \<Rightarrow> reg_pTarget r = a)"

definition pump_for :: "sinks \<Rightarrow> thread \<Rightarrow> sink_reg \<Rightarrow> thread" where
  "pump_for s h r = (if s_ThreadID_P2PmsgPump (registry_of s) (nPumpID r) \<noteq> None then nPumpID r else h)"

definition snc_for :: "thread \<Rightarrow> 32 word \<Rightarrow> nat \<Rightarrow> nat \<Rightarrow> nat option \<Rightarrow> sink_reg \<Rightarrow> snc" where
  "snc_for h n w l i r = \<lparr>nMsg = ucast n, pTarget = reg_pTarget r, nHubThreadID = h, wParam = w, lParam = l, pP3PmsgItem = i\<rparr>"

definition put_snc :: "thread \<Rightarrow> snc \<Rightarrow> sinks \<Rightarrow> sinks" where
  "put_snc t x s = s\<lparr>m_oCListP2Pmsg := (m_oCListP2Pmsg s)(t := m_oCListP2Pmsg s t @ [x])\<rparr>"

fun post_regs :: "thread \<Rightarrow> 32 word \<Rightarrow> nat option \<Rightarrow> nat \<Rightarrow> nat \<Rightarrow> nat option \<Rightarrow> sink_reg list \<Rightarrow> nat \<Rightarrow> sinks \<Rightarrow> nat \<times> sinks" where
  "post_regs h n t w l i [] nItems s = (nItems, s)"
| "post_regs h n t w l i (r # rs) nItems s =
    (if \<not> addressed n t r then post_regs h n t w l i rs nItems s
     else post_regs h n t w l i rs (Suc nItems) (put_snc (pump_for s h r) (snc_for h n w l i r) s))"

definition PostP2PmsgSink :: "thread \<Rightarrow> sinkid \<Rightarrow> 32 word \<Rightarrow> nat option \<Rightarrow> nat option \<Rightarrow> nat \<Rightarrow> nat \<Rightarrow> sinks \<Rightarrow> (sink_error + nat) \<times> sinks" where
  "PostP2PmsgSink self n sys t i w l s =
    with_sink self n (\<lambda>h k. post_regs h sys t w l i (m_oP2PmsgSinkReglist k) 0 s) s"

section \<open>Sinks of a target\<close>

definition CreateTargetSink :: "thread \<Rightarrow> sinkid list \<Rightarrow> nat \<Rightarrow> wstr \<Rightarrow> sinks \<Rightarrow> ((sink_error + sinkid) \<times> sinks) option" where
  "CreateTargetSink self rands t name s =
    (let m = (case m_pP2PmsgSinkIDmap s t of None \<Rightarrow> [] | Some m \<Rightarrow> m);
         s = s\<lparr>m_pP2PmsgSinkIDmap := (m_pP2PmsgSinkIDmap s)(t \<mapsto> m)\<rparr>
     in case map_of m name of Some n \<Rightarrow> Some (Inr n, s)
        | None \<Rightarrow> (case P2PmsgSinkCreate self rands name s of None \<Rightarrow> None
            | Some (Inl e, s') \<Rightarrow> Some (Inl e, s')
            | Some (Inr n, s') \<Rightarrow> Some (Inr n, s'\<lparr>m_pP2PmsgSinkIDmap := (m_pP2PmsgSinkIDmap s')(t \<mapsto> (name, n) # m)\<rparr>)))"

text \<open>The walk of \<open>CloseTargetSink\<close>; an exception leaves it with the rest of the names kept.\<close>

fun close_sinks :: "thread \<Rightarrow> sinkid \<Rightarrow> (wstr \<times> sinkid) list \<Rightarrow> sinks \<Rightarrow> (wstr \<times> sinkid) list \<times> sinks" where
  "close_sinks self keep [] s = ([], s)"
| "close_sinks self keep ((a, n) # m) s =
    (if keep = 0 \<or> n \<noteq> keep
     then (case P2PmsgSinkClose self n s of (Inl e, _) \<Rightarrow> ((a, n) # m, s) | (Inr b, s') \<Rightarrow> close_sinks self keep m s')
     else (case close_sinks self keep m s of (m', s') \<Rightarrow> ((a, n) # m', s')))"

definition CloseTargetSink :: "thread \<Rightarrow> nat \<Rightarrow> sinkid \<Rightarrow> sinks \<Rightarrow> sinks" where
  "CloseTargetSink self t n s =
    (case m_pP2PmsgSinkIDmap s t of None \<Rightarrow> s
     | Some m \<Rightarrow> (case close_sinks self n (AList.delete [] m) s of (m', s') \<Rightarrow>
         s'\<lparr>m_pP2PmsgSinkIDmap := (m_pP2PmsgSinkIDmap s')(t \<mapsto> m')\<rparr>))"

text \<open>A name is looked up from the target upwards; parents that go in a circle would not end it.\<close>

partial_function (option) LookupTargetSink :: "nat \<Rightarrow> wstr \<Rightarrow> sinks \<Rightarrow> sinkid option" where
  "LookupTargetSink t name s =
    (case m_pP2PmsgSinkIDmap s t \<bind> (\<lambda>m. map_of m name) of Some n \<Rightarrow> Some n
     | None \<Rightarrow> (case m_pTargetParent s t of None \<Rightarrow> Some 0 | Some p \<Rightarrow> LookupTargetSink p name s))"

text \<open>The end of a target closes the sinks it named and leaves its registrations where they are.\<close>

definition delete_target :: "thread \<Rightarrow> nat \<Rightarrow> sinks \<Rightarrow> sinks" where
  "delete_target self t s =
    (let s = (case m_pP2PmsgSinkIDmap s t of None \<Rightarrow> s | Some m \<Rightarrow> snd (close_sinks self 0 m s))
     in s\<lparr>targets := targets s - {t}, m_pP2PmsgSinkIDmap := (m_pP2PmsgSinkIDmap s)(t := None), m_pTargetParent := (m_pTargetParent s)(t := None)\<rparr>)"

section \<open>What holds of sinks\<close>

definition regs_ok :: "sink \<Rightarrow> bool" where
  "regs_ok k \<longleftrightarrow> distinct (map (\<lambda>r. (reg_pTarget r, nSysID r)) (m_oP2PmsgSinkReglist k)) \<and> (\<forall>r \<in> set (m_oP2PmsgSinkReglist k). nPumpID r = 0)"

definition sinkmap_ok :: "(sinkid \<times> sink) list \<Rightarrow> bool" where
  "sinkmap_ok m \<longleftrightarrow> distinct (map fst m) \<and> 0 \<notin> fst ` set m \<and> length m \<le> m_nSinksMax \<and> (\<forall>x \<in> set m. regs_ok (snd x))"

definition sinks_ok :: "sinks \<Rightarrow> bool" where
  "sinks_ok s \<longleftrightarrow> (\<forall>h m. m_pP2PmsgSinkmap s h = Some m \<longrightarrow> sinkmap_ok m) \<and> registry_ok (registry_of s)"

lemma sinkmap_ok_here: "sinks_ok s \<Longrightarrow> sinkmap_ok (sinkmap h s)"
proof (cases "m_pP2PmsgSinkmap s h")
  case None
  then show ?thesis by (simp add: sinkmap_def sinkmap_ok_def)
qed (simp add: sinks_ok_def sinkmap_def)

lemma sinks_ok_set_sinkmap: "sinks_ok s \<Longrightarrow> sinkmap_ok m \<Longrightarrow> sinks_ok (set_sinkmap h m s)"
  by (simp add: sinks_ok_def set_sinkmap_def)

lemma sinks_ok_same: "sinks_ok s \<Longrightarrow> m_pP2PmsgSinkmap s' = m_pP2PmsgSinkmap s \<Longrightarrow> registry_of s' = registry_of s \<Longrightarrow> sinks_ok s'"
  by (simp add: sinks_ok_def)

lemma sinks_ok_targets [simp]:
  "sinks_ok (s\<lparr>m_pP2PmsgSinkIDmap := a\<rparr>) = sinks_ok s" "sinks_ok (s\<lparr>targets := b\<rparr>) = sinks_ok s" "sinks_ok (s\<lparr>m_pTargetParent := c\<rparr>) = sinks_ok s"
  by (simp_all add: sinks_ok_def)

lemma regs_ok_RegisterTarget: "regs_ok k \<Longrightarrow> regs_ok (RegisterTarget t n k)"
  by (auto simp: regs_ok_def RegisterTarget_def list_ex_iff)

lemma regs_ok_CancelTarget: "regs_ok k \<Longrightarrow> regs_ok (snd (CancelTarget t n k))"
  by (auto simp: regs_ok_def CancelTarget_def distinct_map_filter)

lemma sinkmap_ok_update:
  assumes m: "sinkmap_ok m" "map_of m n = Some k" and k: "regs_ok k'"
  shows "sinkmap_ok (AList.update n k' m)"
proof -
  have n: "(n, k) \<in> set m" using m(2) by (rule map_of_SomeD)
  then have "n \<in> fst ` set m" by force
  then have "fst ` set (AList.update n k' m) = fst ` set m" by (auto simp: dom_update)
  moreover have "length (AList.update n k' m) = length m" using n by (induction m) auto
  moreover have "x \<in> set (AList.update n k' m) \<Longrightarrow> x = (n, k') \<or> x \<in> set m" for x by (induction m) (auto split: if_splits)
  then have "regs_ok (snd x)" if "x \<in> set (AList.update n k' m)" for x
    using that m(1) k by (fastforce simp: sinkmap_ok_def)
  ultimately show ?thesis using m unfolding sinkmap_ok_def by (auto simp: distinct_update)
qed

lemma map_fst_insort: "map fst (insort_key fst x m) = insort (fst x) (map fst m)"
  by (induction m) auto

lemma sinkmap_ok_insert:
  assumes "sinkmap_ok m" "length m < m_nSinksMax" "n \<noteq> 0" "map_of m n = None"
  shows "sinkmap_ok (insert_sink n (P2PmsgSink name) m)"
proof -
  have "n \<notin> fst ` set m" using assms(4) by (simp add: map_of_eq_None_iff)
  then show ?thesis
    using assms by (auto simp: sinkmap_ok_def insert_sink_def map_fst_insort distinct_insort set_insort_key P2PmsgSink_def regs_ok_def)
qed

lemma sinkmap_ok_delete: "sinkmap_ok m \<Longrightarrow> sinkmap_ok (AList.delete n m)"
proof -
  have "x \<in> set (AList.delete n m) \<Longrightarrow> x \<in> set m" for x by (induction m) (auto split: if_splits)
  then show "sinkmap_ok m \<Longrightarrow> sinkmap_ok (AList.delete n m)"
    using length_delete_le [of n m] by (force simp: sinkmap_ok_def distinct_delete)
qed

lemma draw_free: "draw ns m = Some n \<Longrightarrow> n \<noteq> 0 \<and> map_of m n = None"
  by (induction ns) (auto split: if_splits)

lemma hub_context_hub: "hub_context self s = Inr h \<Longrightarrow> hub (registry_of s) h \<noteq> None"
  by (auto simp: hub_context_def split: sum.splits if_splits)

lemma sinks_ok_P2PmsgSinkCreate:
  assumes ok: "sinks_ok s" and c: "P2PmsgSinkCreate self ns name s = Some (r, s')"
  shows "sinks_ok s'"
proof (cases "hub_context self s")
  case (Inr h)
  note m = sinkmap_ok_here [OF ok, of h]
  have "length (sinkmap h s) < m_nSinksMax" if "\<not> (m_pP2PmsgSinkmap s h \<noteq> None \<and> length (sinkmap h s) \<ge> m_nSinksMax)"
    using that by (cases "m_pP2PmsgSinkmap s h") (auto simp: sinkmap_def m_nSinksMax_def)
  then show ?thesis using ok c Inr sinkmap_ok_insert [OF m]
    by (auto simp: P2PmsgSinkCreate_def intro: sinks_ok_set_sinkmap dest!: draw_free split: if_splits option.splits)
qed (use ok c in \<open>simp add: P2PmsgSinkCreate_def\<close>)

lemma sinks_ok_set_sink: "sinks_ok s \<Longrightarrow> GetP2PmsgSink h n s = Some k \<Longrightarrow> regs_ok k' \<Longrightarrow> sinks_ok (set_sink h n k' s)"
  unfolding set_sink_def GetP2PmsgSink_def by (intro sinks_ok_set_sinkmap sinkmap_ok_update sinkmap_ok_here)

lemma regs_ok_GetP2PmsgSink: "sinks_ok s \<Longrightarrow> GetP2PmsgSink h n s = Some k \<Longrightarrow> regs_ok k"
  using sinkmap_ok_here [of s h] by (force simp: GetP2PmsgSink_def sinkmap_ok_def dest: map_of_SomeD)

lemma sinks_ok_P2PmsgSinkRegister: "sinks_ok s \<Longrightarrow> sinks_ok (snd (P2PmsgSinkRegister self n t sys s))"
  unfolding P2PmsgSinkRegister_def
  by (auto simp: with_sink_def intro!: sinks_ok_set_sink regs_ok_RegisterTarget regs_ok_GetP2PmsgSink split: sum.splits option.splits)

lemma sinks_ok_P2PmsgSinkCancel: "sinks_ok s \<Longrightarrow> sinks_ok (snd (P2PmsgSinkCancel self n t sys s))"
proof -
  assume ok: "sinks_ok s"
  have "sinks_ok (set_sink h n (snd (CancelTarget t sys k)) s)" if "GetP2PmsgSink h n s = Some k" for h k
    using sinks_ok_set_sink [OF ok that] regs_ok_CancelTarget [OF regs_ok_GetP2PmsgSink [OF ok that]] .
  then show ?thesis using ok unfolding P2PmsgSinkCancel_def with_sink_def
    by (simp add: case_prod_beta split: sum.splits option.splits)
qed

lemma sinks_ok_P2PmsgSinkClose: "sinks_ok s \<Longrightarrow> sinks_ok (snd (P2PmsgSinkClose self n s))"
  by (auto simp: P2PmsgSinkClose_def intro!: sinks_ok_set_sinkmap sinkmap_ok_delete sinkmap_ok_here split: sum.splits option.splits)

lemma post_regs_frame:
  "post_regs h n t w l i rs c s = (c', s') \<Longrightarrow> m_pP2PmsgSinkmap s' = m_pP2PmsgSinkmap s \<and> registry_of s' = registry_of s
    \<and> targets s' = targets s \<and> m_pTargetParent s' = m_pTargetParent s \<and> m_pP2PmsgSinkIDmap s' = m_pP2PmsgSinkIDmap s"
  by (induction rs arbitrary: c s) (auto simp: put_snc_def split: if_splits)

lemma sinks_ok_PostP2PmsgSink: "sinks_ok s \<Longrightarrow> sinks_ok (snd (PostP2PmsgSink self n sys t i w l s))"
  unfolding PostP2PmsgSink_def
  by (auto simp: with_sink_def split: sum.splits option.splits prod.splits dest!: post_regs_frame elim!: sinks_ok_same)

text \<open>A posting puts one message for each registration it addresses on the queue of the hub, in the order of registration.\<close>

lemma post_regs_all:
  assumes "\<forall>r \<in> set rs. nPumpID r = 0" "s_ThreadID_P2PmsgPump (registry_of s) 0 = None"
  shows "post_regs h n t w l i rs c s = (c + length (filter (addressed n t) rs),
    s\<lparr>m_oCListP2Pmsg := (m_oCListP2Pmsg s)(h := m_oCListP2Pmsg s h @ map (snc_for h n w l i) (filter (addressed n t) rs))\<rparr>)"
  using assms
  by (induction rs arbitrary: c s) (auto simp: pump_for_def put_snc_def fun_upd_idem)

lemma no_thread_0: "registry_ok r \<Longrightarrow> s_ThreadID_P2PmsgPump r 0 = None"
  by (metis not_Some_eq registry_ok_def)

section \<open>Closing\<close>

lemma close_frame:
  "P2PmsgSinkClose self n s = (r, s') \<Longrightarrow> registry_of s' = registry_of s \<and> targets s' = targets s \<and> m_pP2PmsgSinkIDmap s' = m_pP2PmsgSinkIDmap s
    \<and> m_pTargetParent s' = m_pTargetParent s \<and> m_oCListP2Pmsg s' = m_oCListP2Pmsg s"
  by (auto simp: P2PmsgSinkClose_def set_sinkmap_def split: sum.splits option.splits)

lemma hub_context_same: "registry_of s' = registry_of s \<Longrightarrow> hub_context self s' = hub_context self s"
  unfolding hub_context_def by (simp only:)

text \<open>In the thread of the hub the end of its sinks is reached, and none is left.\<close>

lemma CleanupP2PmsgSink_ends:
  assumes "sinkmap_ok (sinkmap h s)" "hub_context self s = Inr h"
  shows "\<exists>s'. CleanupP2PmsgSink self h c s = Some (c + length (sinkmap h s), s') \<and> m_pP2PmsgSinkmap s' = (m_pP2PmsgSinkmap s)(h := None)
    \<and> registry_of s' = registry_of s"
  using assms
proof (induction "sinkmap h s" arbitrary: s c)
  case Nil
  have e: "sinkmap h s = []" using Nil.hyps by simp
  show ?case
  proof (cases "m_pP2PmsgSinkmap s h")
    case None
    then show ?thesis using e by (auto simp: CleanupP2PmsgSink.simps)
  next
    case (Some m)
    then have "m = []" using e by (simp add: sinkmap_def)
    then show ?thesis using Some e by (auto simp: CleanupP2PmsgSink.simps fun_eq_iff)
  qed
next
  case (Cons x m)
  obtain n k where x: "x = (n, k)" by (cases x)
  have m: "sinkmap h s = (n, k) # m" using Cons.hyps(2) x by simp
  then have Some: "m_pP2PmsgSinkmap s h = Some ((n, k) # m)" by (auto simp: sinkmap_def split: option.splits)
  let ?s = "set_sinkmap h (AList.delete n (sinkmap h s)) s"
  have c: "P2PmsgSinkClose self n s = (Inr True, ?s)"
    using Cons.prems(2) m by (simp add: P2PmsgSinkClose_def GetP2PmsgSink_def)
  have "n \<notin> fst ` set m" using Cons.prems(1) m by (simp add: sinkmap_ok_def)
  then have rest: "sinkmap h ?s = m" using m by (simp add: sinkmap_def set_sinkmap_def)
  have "hub_context self ?s = Inr h" using Cons.prems(2) hub_context_same [of ?s s self] by (simp add: set_sinkmap_def)
  moreover have "sinkmap_ok (sinkmap h ?s)" using Cons.prems(1) m rest by (auto simp: sinkmap_ok_def)
  ultimately obtain s' where "CleanupP2PmsgSink self h (Suc c) ?s = Some (Suc c + length m, s')"
      "m_pP2PmsgSinkmap s' = (m_pP2PmsgSinkmap ?s)(h := None)" "registry_of s' = registry_of ?s"
    using Cons.hyps(1) [of ?s "Suc c"] rest by auto
  then show ?case using Some c m by (subst CleanupP2PmsgSink.simps) (simp add: set_sinkmap_def)
qed

lemma close_sinks_frame:
  "close_sinks self keep m s = (m', s') \<Longrightarrow> registry_of s' = registry_of s \<and> targets s' = targets s \<and> m_pTargetParent s' = m_pTargetParent s
    \<and> m_oCListP2Pmsg s' = m_oCListP2Pmsg s"
  by (induction m arbitrary: m' s) (auto dest!: close_frame split: if_splits sum.splits prod.splits)

lemma sinks_ok_close_sinks: "sinks_ok s \<Longrightarrow> sinks_ok (snd (close_sinks self keep m s))"
proof (induction m arbitrary: s)
  case (Cons x m)
  then show ?case using sinks_ok_P2PmsgSinkClose [OF Cons.prems, of self "snd x"]
    by (cases x) (auto simp: case_prod_beta split: sum.splits prod.splits)
qed simp

text \<open>The end of a hub, in its own thread: its sinks, then the registry.\<close>

definition CloseHub :: "thread \<Rightarrow> nat list \<Rightarrow> sinks \<Rightarrow> sinks option" where
  "CloseHub self gone s =
    (case s_ThreadID_P2PmsgPump (registry_of s) self of None \<Rightarrow> Some s
     | Some p \<Rightarrow> if self \<noteq> m_nHubID p then Some s
        else do { (c, s) \<leftarrow> CleanupP2PmsgSink self self 0 s;
                  Some (s\<lparr>registry_of := snd (CloseP2PmsgHub self gone (registry_of s))\<rparr>) })"

lemma CloseHub_ends:
  assumes ok: "sinks_ok s"
  shows "\<exists>s'. CloseHub self gone s = Some s' \<and> sinks_ok s'"
proof (cases "\<exists>p. s_ThreadID_P2PmsgPump (registry_of s) self = Some p \<and> self = m_nHubID p")
  case True
  then obtain p where p: "s_ThreadID_P2PmsgPump (registry_of s) self = Some p" "m_nHubID p = self" by auto
  have r: "registry_ok (registry_of s)" using ok by (simp add: sinks_ok_def)
  obtain m where "hub (registry_of s) self = Some m" using registry_ok_pump [OF r p(1)] p(2) by auto
  then have "hub_context self s = Inr self" using p by (simp add: hub_context_def GetP2PmsgHubID_def)
  then obtain s1 where s1: "CleanupP2PmsgSink self self 0 s = Some (length (sinkmap self s), s1)"
      "m_pP2PmsgSinkmap s1 = (m_pP2PmsgSinkmap s)(self := None)" "registry_of s1 = registry_of s"
    using CleanupP2PmsgSink_ends [OF sinkmap_ok_here [OF ok], of self self 0] by auto
  have "registry_ok (snd (CloseP2PmsgHub self gone (registry_of s)))"
    using registry_ok_performs [OF r, of "ClosesHub self gone"] by simp
  then show ?thesis using p s1 ok by (auto simp: CloseHub_def sinks_ok_def split: if_splits)
next
  case False
  then have "CloseHub self gone s = Some s" by (auto simp: CloseHub_def split: option.splits)
  then show ?thesis using ok by simp
qed

section \<open>What threads do\<close>

datatype sink_event = Process registry_event | EndsHub thread "nat list" | CreatesSink thread "sinkid list" wstr
  | RegistersWith thread sinkid nat "32 word" | CancelsWith thread sinkid "nat option" "32 word" | ClosesSink thread sinkid
  | PostsSink thread sinkid "32 word" "nat option" "nat option" nat nat
  | CreatesNamed thread "sinkid list" nat wstr | ClosesNamed thread nat sinkid | MakesTarget nat "nat option" | EndsTarget thread nat

text \<open>\<open>None\<close>: the thread does not come back.\<close>

fun sink_step :: "sink_event \<Rightarrow> sinks \<Rightarrow> sinks option" where
  "sink_step (Process e) s = (if allowed e (registry_of s) \<and> (\<forall>t gone. e \<noteq> ClosesHub t gone)
     then Some (s\<lparr>registry_of := performs e (registry_of s)\<rparr>) else Some s)"
| "sink_step (EndsHub t gone) s = CloseHub t gone s"
| "sink_step (CreatesSink t ns a) s = map_option snd (P2PmsgSinkCreate t ns a s)"
| "sink_step (RegistersWith t n a sys) s = Some (if a \<in> targets s then snd (P2PmsgSinkRegister t n a sys s) else s)"
| "sink_step (CancelsWith t n a sys) s = Some (snd (P2PmsgSinkCancel t n a sys s))"
| "sink_step (ClosesSink t n) s = Some (snd (P2PmsgSinkClose t n s))"
| "sink_step (PostsSink t n sys a i w l) s = Some (snd (PostP2PmsgSink t n sys a i w l s))"
| "sink_step (CreatesNamed t ns a name) s = (if a \<in> targets s then map_option snd (CreateTargetSink t ns a name s) else Some s)"
| "sink_step (ClosesNamed t a n) s = Some (if a \<in> targets s then CloseTargetSink t a n s else s)"
| "sink_step (MakesTarget a p) s = Some (if a \<in> targets s then s
     else s\<lparr>targets := insert a (targets s), m_pTargetParent := (m_pTargetParent s)(a := p)\<rparr>)"
| "sink_step (EndsTarget t a) s = Some (delete_target t a s)"

fun sink_run :: "sink_event list \<Rightarrow> sinks \<Rightarrow> sinks option" where
  "sink_run [] s = Some s"
| "sink_run (e # es) s = sink_step e s \<bind> sink_run es"

definition sinks_new :: sinks where
  "sinks_new = \<lparr>registry_of = registry_new, m_pP2PmsgSinkmap = Map.empty, m_oCListP2Pmsg = (\<lambda>_. []), targets = {}, m_pTargetParent = Map.empty,
    m_pP2PmsgSinkIDmap = Map.empty\<rparr>"

lemma sinks_ok_CreateTargetSink:
  assumes ok: "sinks_ok s" and c: "CreateTargetSink self ns t name s = Some (r, s')"
  shows "sinks_ok s'"
proof -
  define m where "m = (case m_pP2PmsgSinkIDmap s t of None \<Rightarrow> [] | Some m \<Rightarrow> m)"
  let ?s = "s\<lparr>m_pP2PmsgSinkIDmap := (m_pP2PmsgSinkIDmap s)(t \<mapsto> m)\<rparr>"
  have ok': "sinks_ok ?s" using ok by (rule sinks_ok_same) simp_all
  note made = sinks_ok_P2PmsgSinkCreate [OF ok', of self ns name]
  show ?thesis
  proof (cases "map_of m name")
    case None
    then show ?thesis using c made unfolding CreateTargetSink_def m_def [symmetric] Let_def
      by (auto simp: split: option.splits sum.splits elim!: sinks_ok_same)
  next
    case (Some n)
    then show ?thesis using c ok' unfolding CreateTargetSink_def m_def [symmetric] Let_def by simp
  qed
qed

lemma sinks_ok_sink_step:
  assumes ok: "sinks_ok s" and e: "sink_step e s = Some s'"
  shows "sinks_ok s'"
proof (cases e)
  case (Process f)
  then show ?thesis using ok e by (auto simp: sinks_ok_def registry_ok_performs split: if_splits)
next
  case (EndsHub t gone)
  then show ?thesis using CloseHub_ends [OF ok, of t gone] e by auto
next
  case (ClosesNamed t a n)
  then show ?thesis using ok e sinks_ok_close_sinks [OF ok]
    by (auto simp: CloseTargetSink_def case_prod_beta split: option.splits if_splits)
next
  case (EndsTarget t a)
  then show ?thesis using ok e sinks_ok_close_sinks [OF ok]
    by (auto simp: delete_target_def Let_def split: option.splits)
next
  case (MakesTarget a p)
  then show ?thesis using ok e by (auto split: if_splits)
qed (use ok e in \<open>auto simp: sinks_ok_P2PmsgSinkRegister sinks_ok_P2PmsgSinkCancel sinks_ok_P2PmsgSinkClose sinks_ok_PostP2PmsgSink
  dest: sinks_ok_P2PmsgSinkCreate sinks_ok_CreateTargetSink split: if_splits\<close>)

lemma sinks_ok_run: "sinks_ok s \<Longrightarrow> sink_run es s = Some s' \<Longrightarrow> sinks_ok s'"
  by (induction es arbitrary: s) (auto simp: bind_eq_Some_conv dest: sinks_ok_sink_step)

lemma sinks_ok_new: "sinks_ok sinks_new"
  using registry_ok_new by (simp add: sinks_ok_def sinks_new_def)

text \<open>
  C32: whatever threads did before, a posting to a sink of the calling thread's hub puts exactly one message for each registration it
  addresses on the queue of the hub, in the order of registration, and answers their number; nothing else changes, and no target is
  registered twice for the same number.
\<close>
theorem posted_to_each_registration:
  assumes "sink_run es sinks_new = Some s" "hub_context self s = Inr h" "GetP2PmsgSink h n s = Some k"
  shows "PostP2PmsgSink self n sys t i w l s = (Inr (length (filter (addressed sys t) (m_oP2PmsgSinkReglist k))),
      s\<lparr>m_oCListP2Pmsg := (m_oCListP2Pmsg s)(h := m_oCListP2Pmsg s h @ map (snc_for h sys w l i) (filter (addressed sys t) (m_oP2PmsgSinkReglist k)))\<rparr>)
    \<and> distinct (map (\<lambda>r. (reg_pTarget r, nSysID r)) (m_oP2PmsgSinkReglist k))"
proof -
  have ok: "sinks_ok s" using sinks_ok_run [OF sinks_ok_new assms(1)] .
  have "regs_ok k" using regs_ok_GetP2PmsgSink [OF ok assms(3)] .
  moreover have "s_ThreadID_P2PmsgPump (registry_of s) 0 = None" using ok no_thread_0 by (simp add: sinks_ok_def)
  ultimately show ?thesis using post_regs_all [of "m_oP2PmsgSinkReglist k" s h sys t w l i 0] assms(2,3)
    by (simp add: PostP2PmsgSink_def with_sink_def regs_ok_def)
qed

lemmas sink_evals = sinks_new_def P2PmsgSinkCreate_def hub_context_def GetP2PmsgHubID_def insert_sink_def sinkmap_def set_sinkmap_def
  P2PmsgSinkRegister_def with_sink_def GetP2PmsgSink_def set_sink_def RegisterTarget_def P2PmsgSink_def m_nSinksMax_def

theorem posted_to_each_registration_witness:
  "\<exists>s k. sink_run [Process (Starts 1), Process (MakesHub 7 True [] 1), CreatesSink 7 [0, 5] [], MakesTarget 1 None, MakesTarget 2 None,
      RegistersWith 7 5 1 0, RegistersWith 7 5 2 9, RegistersWith 7 5 1 0] sinks_new = Some s
    \<and> hub_context 7 s = Inr 7 \<and> GetP2PmsgSink 7 5 s = Some k
    \<and> fst (PostP2PmsgSink 7 5 9 None None 0 0 s) = Inr 2 \<and> fst (PostP2PmsgSink 7 5 8 None None 0 0 s) = Inr 1"
proof -
  have "\<exists>s. sink_run [Process (Starts 1), Process (MakesHub 7 True [] 1), CreatesSink 7 [0, 5] [], MakesTarget 1 None, MakesTarget 2 None,
      RegistersWith 7 5 1 0, RegistersWith 7 5 2 9, RegistersWith 7 5 1 0] sinks_new = Some s \<and> hub_context 7 s = Inr 7
      \<and> GetP2PmsgSink 7 5 s = Some \<lparr>m_strSinkname = [], m_oP2PmsgSinkReglist
          = [\<lparr>nSysID = 0, nPumpID = 0, reg_pTarget = 1\<rparr>, \<lparr>nSysID = 9, nPumpID = 0, reg_pTarget = 2\<rparr>]\<rparr>"
    by (simp add: sink_evals registry_evals)
  then obtain s where s: "sink_run [Process (Starts 1), Process (MakesHub 7 True [] 1), CreatesSink 7 [0, 5] [], MakesTarget 1 None, MakesTarget 2 None,
      RegistersWith 7 5 1 0, RegistersWith 7 5 2 9, RegistersWith 7 5 1 0] sinks_new = Some s" "hub_context 7 s = Inr 7"
      "GetP2PmsgSink 7 5 s = Some \<lparr>m_strSinkname = [], m_oP2PmsgSinkReglist
          = [\<lparr>nSysID = 0, nPumpID = 0, reg_pTarget = 1\<rparr>, \<lparr>nSysID = 9, nPumpID = 0, reg_pTarget = 2\<rparr>]\<rparr>" by blast
  then show ?thesis using posted_to_each_registration [OF s, of 9 None None 0 0] posted_to_each_registration [OF s, of 8 None None 0 0]
    by (intro exI [of _ s]) (simp add: addressed_def)
qed

text \<open>
  A target that ends without cancelling stays registered: the next posting is a message for the destroyed object, which the
  dispatcher reads to ask whether it is valid.
\<close>
theorem posted_to_a_destroyed_target:
  assumes "h \<noteq> 0" "n \<noteq> 0"
  shows "\<exists>s. sink_run [Process (Starts 1), Process (MakesHub h True [] 1), CreatesSink h [n] [], MakesTarget t None, RegistersWith h n t sys,
      EndsTarget h t, PostsSink h n sys None None w l] sinks_new = Some s
    \<and> t \<notin> targets s \<and> map pTarget (m_oCListP2Pmsg s h) = [t]"
  using assms
  by (simp add: sink_evals registry_evals delete_target_def PostP2PmsgSink_def addressed_def snc_for_def put_snc_def pump_for_def)

section \<open>Sinks by name\<close>

lemma closed_sink:
  assumes "hub_context self s = Inr h"
  shows "\<exists>b s1. P2PmsgSinkClose self z s = (Inr b, s1) \<and> GetP2PmsgSink h x s1 = (if x = z then None else GetP2PmsgSink h x s)"
proof (cases "GetP2PmsgSink h z s")
  case (Some k)
  then show ?thesis using assms by (auto simp: P2PmsgSinkClose_def) (auto simp: GetP2PmsgSink_def sinkmap_def set_sinkmap_def delete_conv')
qed (use assms in \<open>auto simp: P2PmsgSinkClose_def\<close>)

text \<open>
  \<open>CloseTargetSink\<close>, documented to close the sink it is given, closes every other sink of the target and keeps that one.
\<close>
theorem CloseTargetSink_closes_the_others:
  assumes "hub_context self s = Inr h" "m_pP2PmsgSinkIDmap s t = Some m" "[] \<notin> fst ` set m" "n \<noteq> 0"
  shows "GetP2PmsgSink h x (CloseTargetSink self t n s) = (if x \<in> snd ` set m \<and> x \<noteq> n then None else GetP2PmsgSink h x s)
    \<and> m_pP2PmsgSinkIDmap (CloseTargetSink self t n s) t = Some (filter (\<lambda>(a, y). y = n) m)"
proof -
  have "fst (close_sinks self n m s) = filter (\<lambda>(a, y). y = n) m
      \<and> GetP2PmsgSink h x (snd (close_sinks self n m s)) = (if x \<in> snd ` set m \<and> x \<noteq> n then None else GetP2PmsgSink h x s)"
    if "hub_context self s = Inr h" for m s
    using that
  proof (induction m arbitrary: s)
    case (Cons y m)
    obtain a z where y: "y = (a, z)" by (cases y)
    show ?case
    proof (cases "z = n")
      case True
      then show ?thesis using Cons.IH [OF Cons.prems] assms(4) y by (auto simp: case_prod_beta)
    next
      case False
      obtain b s1 where s1: "P2PmsgSinkClose self z s = (Inr b, s1)" "GetP2PmsgSink h x s1 = (if x = z then None else GetP2PmsgSink h x s)"
        using closed_sink [OF Cons.prems] by blast
      then have "hub_context self s1 = Inr h" using Cons.prems hub_context_same close_frame [OF s1(1)] by metis
      then show ?thesis using Cons.IH [of s1] s1 False y by (auto simp: case_prod_beta)
    qed
  qed simp
  note this [OF assms(1), of m]
  moreover have "AList.delete [] m = m" using assms(3) by simp
  ultimately show ?thesis using assms(2) by (auto simp: CloseTargetSink_def case_prod_beta GetP2PmsgSink_def sinkmap_def)
qed

text \<open>The targets upwards, as far as parents go.\<close>

inductive ancestors :: "sinks \<Rightarrow> nat \<Rightarrow> nat list \<Rightarrow> bool" for s where
  top: "m_pTargetParent s t = None \<Longrightarrow> ancestors s t [t]"
| up: "m_pTargetParent s t = Some p \<Longrightarrow> ancestors s p ts \<Longrightarrow> ancestors s t (t # ts)"

text \<open>A lookup answers the sink of the nearest target upwards that has one of the name, or zero.\<close>

lemma LookupTargetSink_nearest:
  assumes "ancestors s t ts"
  shows "LookupTargetSink t name s = Some (case List.map_filter (\<lambda>t. m_pP2PmsgSinkIDmap s t \<bind> (\<lambda>m. map_of m name)) ts of [] \<Rightarrow> 0 | n # _ \<Rightarrow> n)"
  using assms
  by (induction rule: ancestors.induct) (subst LookupTargetSink.simps; auto simp: map_filter_simps split: option.splits)+

end
