(* ===== verification/SncMaps.thy ===== *)
theory SncMaps
  imports Targetcore_Prelude
begin

text \<open>
  The maps of sink and system messages: \<open>FindP2PeerSnkEntry\<close>, \<open>DispatchP2PeerSnk\<close>, \<open>FindP2PeerSysEntry\<close> and
  \<open>DispatchP2PeerSys\<close> of P2Pwin32.cpp, \<open>On_P2PeerSnc\<close> and \<open>On_P2PeerSys\<close> of P2PeerTarget.cpp.

  A map is the list of its entries without the end entry; a pointer into it is what is left of the list.  Handlers are
  numbers; \<open>call\<close> says what the handler of a target answers and makes of the application's state.
\<close>

datatype snc_sig = Sig_Unwrap | Sig_Sys | Sig_Snc | Sig_SncP2PmsgItem | Sig_SncP2PmsgNode

record snc_entry =
  nMessage :: "16 word"
  se_nCode :: "32 word"
  se_nSig :: snc_sig
  se_pfn :: nat
  se_bMapcast :: bool
  se_nOSets :: nat

type_synonym 's snc_handlers = "nat \<Rightarrow> nat \<Rightarrow> 's \<Rightarrow> 32 word \<times> 's"

definition CN_P2PeerSys :: "32 word" where "CN_P2PeerSys = 4"
definition CN_P2PeerSnc :: "32 word" where "CN_P2PeerSnc = 8"
definition CN_Mask :: "32 word" where "CN_Mask = 15"
definition CM_Mapcast :: "32 word" where "CM_Mapcast = 0x80000000"

definition sncCONTINUE :: "32 word" where "sncCONTINUE = 0"
definition sncHANDLED :: "32 word" where "sncHANDLED = 1"
definition sncSWAP :: "32 word" where "sncSWAP = 7"
definition sncREDIRECT :: "32 word" where "sncREDIRECT = 8"
definition sncREPUMP :: "32 word" where "sncREPUMP = 9"

lemmas snc_results = sncCONTINUE_def sncHANDLED_def sncSWAP_def sncREDIRECT_def sncREPUMP_def

text \<open>What the macros put into a map.\<close>

definition ON_P2PeerSnk :: "16 word \<Rightarrow> nat \<Rightarrow> snc_entry" where
  "ON_P2PeerSnk message f = \<lparr>nMessage = message, se_nCode = CN_P2PeerSnc, se_nSig = Sig_Snc, se_pfn = f, se_bMapcast = False, se_nOSets = 1\<rparr>"

definition ON_SncP2PmsgItem :: "16 word \<Rightarrow> nat \<Rightarrow> snc_entry" where
  "ON_SncP2PmsgItem message f = (ON_P2PeerSnk message f)\<lparr>se_nSig := Sig_SncP2PmsgItem\<rparr>"

definition ON_SncP2PmsgNode :: "16 word \<Rightarrow> nat \<Rightarrow> snc_entry" where
  "ON_SncP2PmsgNode message f = (ON_P2PeerSnk message f)\<lparr>se_nSig := Sig_SncP2PmsgNode\<rparr>"

definition ON_P2PeerSys :: "16 word \<Rightarrow> nat \<Rightarrow> snc_entry" where
  "ON_P2PeerSys message f = \<lparr>nMessage = message, se_nCode = CN_P2PeerSys, se_nSig = Sig_Sys, se_pfn = f, se_bMapcast = False, se_nOSets = 1\<rparr>"

section \<open>The search\<close>

text \<open>
  The comparison with \<open>~0\<close> is of a 16 bit number, widened to int, with minus one.  A search that does not advance does not
  end; one that leaves the map reads what is behind it.
\<close>

definition snc_matches :: "16 word \<Rightarrow> 32 word \<Rightarrow> snc_entry \<Rightarrow> bool" where
  "snc_matches nMsg nCode e \<longleftrightarrow> (nMessage e = nMsg \<or> uint (nMessage e) = - 1) \<and> se_nCode e = nCode"

datatype snc_found = Endless | Behind_map | Nothing | At snc_entry "snc_entry list"

function FindP2PeerSnkEntry :: "snc_entry list \<Rightarrow> 16 word \<Rightarrow> 32 word \<Rightarrow> snc_found" where
  "FindP2PeerSnkEntry v nMsg nCode =
    (case v of [] \<Rightarrow> Nothing
     | e # w \<Rightarrow> if snc_matches nMsg nCode e \<and> se_nSig e \<noteq> Sig_Unwrap then At e (e # w)
        else if se_nOSets e = 0 then Endless
        else if length (e # w) < se_nOSets e then Behind_map
        else FindP2PeerSnkEntry (drop (se_nOSets e) (e # w)) nMsg nCode)"
  by pat_completeness auto
termination by (relation "measure (\<lambda>(v, _, _). length v)") auto

declare FindP2PeerSnkEntry.simps [simp del]

lemma Find_suffix: "FindP2PeerSnkEntry v nMsg nCode = At e w \<Longrightarrow> length w \<le> length v \<and> w \<noteq> []"
proof (induction v nMsg nCode rule: FindP2PeerSnkEntry.induct)
  case (1 v nMsg nCode)
  show ?case
  proof (cases v)
    case (Cons d u)
    show ?thesis
    proof (cases "snc_matches nMsg nCode d \<and> se_nSig d \<noteq> Sig_Unwrap")
      case False
      then show ?thesis using "1.prems" Cons "1.IH" [OF Cons False] by (subst (asm) FindP2PeerSnkEntry.simps) (auto split: if_splits)
    qed (use "1.prems" Cons in \<open>subst (asm) FindP2PeerSnkEntry.simps; auto\<close>)
  qed (use "1.prems" in \<open>simp add: FindP2PeerSnkEntry.simps\<close>)
qed

text \<open>What a handler answers; the node signature asserts and counts as handled, an unknown one as not handled.\<close>

definition DispatchP2PeerSnk :: "'s snc_handlers \<Rightarrow> nat \<Rightarrow> snc_entry \<Rightarrow> 's \<Rightarrow> 32 word \<times> 's" where
  "DispatchP2PeerSnk call this e s =
    (case se_nSig e of Sig_Snc \<Rightarrow> call this (se_pfn e) s | Sig_SncP2PmsgItem \<Rightarrow> call this (se_pfn e) s
     | Sig_SncP2PmsgNode \<Rightarrow> (1, s) | _ \<Rightarrow> (0, s))"

definition DispatchP2PeerSys :: "'s snc_handlers \<Rightarrow> nat \<Rightarrow> snc_entry \<Rightarrow> 's \<Rightarrow> 32 word \<times> 's" where
  "DispatchP2PeerSys call this e s = (if se_nSig e = Sig_Sys then call this (se_pfn e) s else (0, s))"

section \<open>Sink messages\<close>

text \<open>
  How the loop over one map ends: it is behind it, a result is returned at once, the message is handled, or the search
  fails.  \<open>bMapcast\<close> is switched on by entries and asked where the loop goes on.
\<close>

datatype snc_end = Behind bool | Return "32 word" | Done bool | Fails snc_found

function snc_loop :: "'s snc_handlers \<Rightarrow> nat \<Rightarrow> snc_entry list \<Rightarrow> 16 word \<Rightarrow> 32 word \<Rightarrow> 32 word \<Rightarrow> bool \<Rightarrow> 's \<Rightarrow> snc_end \<times> 's" where
  "snc_loop call this v nMsg nCode bResult bMapcast s =
    (if bResult \<noteq> 0 \<and> \<not> bMapcast then (Behind bMapcast, s)
     else (case FindP2PeerSnkEntry v nMsg (and nCode CN_Mask) of
       Nothing \<Rightarrow> (Behind bMapcast, s)
     | At e w \<Rightarrow> (case DispatchP2PeerSnk call this e s of (r, s') \<Rightarrow>
         if r = sncCONTINUE
         then (if se_nOSets e = 0 then (Fails Endless, s') else if length w < se_nOSets e then (Fails Behind_map, s')
               else snc_loop call this (drop (se_nOSets e) w) nMsg nCode r bMapcast s')
         else if r = sncSWAP \<or> r = sncREDIRECT \<or> r = sncREPUMP then (Return r, s')
         else (Done (bMapcast \<or> se_bMapcast e), s'))
     | x \<Rightarrow> (Fails x, s)))"
  by pat_completeness auto
termination
  by (relation "measure (\<lambda>(_, _, v, _). length v)") (auto dest!: Find_suffix)

declare snc_loop.simps [simp del]

fun snc_maps :: "'s snc_handlers \<Rightarrow> nat \<Rightarrow> snc_entry list list \<Rightarrow> 16 word \<Rightarrow> 32 word \<Rightarrow> bool \<Rightarrow> 's \<Rightarrow> (snc_found + 32 word) \<times> 's" where
  "snc_maps call this [] nMsg nCode bMapcast s = (Inr 0, s)"
| "snc_maps call this (v # base) nMsg nCode bMapcast s =
    (case snc_loop call this v nMsg nCode 0 bMapcast s of
       (Behind b, s') \<Rightarrow> snc_maps call this base nMsg nCode b s'
     | (Return r, s') \<Rightarrow> (Inr r, s')
     | (Done b, s') \<Rightarrow> (Inr sncHANDLED, s')
     | (Fails x, s') \<Rightarrow> (Inl x, s'))"

definition On_P2PeerSnc :: "'s snc_handlers \<Rightarrow> nat \<Rightarrow> snc_entry list list \<Rightarrow> 32 word \<Rightarrow> 16 word \<Rightarrow> 's \<Rightarrow> (snc_found + 32 word) \<times> 's" where
  "On_P2PeerSnc call this maps nCode nMsg s = snc_maps call this maps nMsg nCode (and nCode CM_Mapcast \<noteq> 0) s"

section \<open>System messages\<close>

text \<open>The same search, over the target's children too.\<close>

definition FindP2PeerSysEntry :: "snc_entry list \<Rightarrow> 16 word \<Rightarrow> 32 word \<Rightarrow> snc_found" where
  "FindP2PeerSysEntry = FindP2PeerSnkEntry"

text \<open>What the loop over one map leaves: whether it found a handler, and the code with the map casting it switched on.\<close>

function sys_loop :: "'s snc_handlers \<Rightarrow> nat \<Rightarrow> snc_entry list \<Rightarrow> 16 word \<Rightarrow> 32 word \<Rightarrow> 's \<Rightarrow> (snc_found + bool \<times> 32 word) \<times> 's" where
  "sys_loop call this v nMsg nCode s =
    (case FindP2PeerSysEntry v nMsg (and nCode CN_Mask) of
       Nothing \<Rightarrow> (Inr (False, nCode), s)
     | At e w \<Rightarrow> (case DispatchP2PeerSys call this e s of (r, s') \<Rightarrow>
         if r = 0
         then (if se_nOSets e = 0 then (Inl Endless, s') else if length w < se_nOSets e then (Inl Behind_map, s')
               else sys_loop call this (drop (se_nOSets e) w) nMsg nCode s')
         else (Inr (True, if se_bMapcast e then or nCode CM_Mapcast else nCode), s'))
     | x \<Rightarrow> (Inl x, s))"
  by pat_completeness auto
termination
  by (relation "measure (\<lambda>(_, _, v, _). length v)") (auto simp: FindP2PeerSysEntry_def dest!: Find_suffix)

declare sys_loop.simps [simp del]

definition sys_on :: "32 word \<Rightarrow> 32 word \<Rightarrow> bool" where
  "sys_on nCode bResult \<longleftrightarrow> bResult = 0 \<or> and nCode CM_Mapcast \<noteq> 0"

text \<open>The maps of a target: after a handler the base classes are not asked, whatever map casting says.\<close>

fun sys_maps :: "'s snc_handlers \<Rightarrow> nat \<Rightarrow> snc_entry list list \<Rightarrow> 16 word \<Rightarrow> 32 word \<Rightarrow> 32 word \<Rightarrow> 's
    \<Rightarrow> (snc_found + 32 word \<times> 32 word) \<times> 's" where
  "sys_maps call this [] nMsg nCode bResult s = (Inr (nCode, bResult), s)"
| "sys_maps call this (v # base) nMsg nCode bResult s =
    (if \<not> sys_on nCode bResult then (Inr (nCode, bResult), s)
     else (case sys_loop call this v nMsg nCode s of
       (Inl x, s') \<Rightarrow> (Inl x, s')
     | (Inr (True, nCode'), s') \<Rightarrow> (Inr (nCode', 1), s')
     | (Inr (False, _), s') \<Rightarrow> sys_maps call this base nMsg nCode bResult s'))"

datatype sys_target = SysTarget nat "snc_entry list list" "sys_target list" "sys_target list"

fun On_P2PeerSys :: "'s snc_handlers \<Rightarrow> sys_target \<Rightarrow> 32 word \<Rightarrow> 16 word \<Rightarrow> 's \<Rightarrow> (snc_found + 32 word) \<times> 's"
  and sys_children :: "'s snc_handlers \<Rightarrow> sys_target list \<Rightarrow> 32 word \<Rightarrow> 16 word \<Rightarrow> 32 word \<Rightarrow> 's \<Rightarrow> (snc_found + 32 word) \<times> 's" where
  "On_P2PeerSys call (SysTarget this maps hi lo) nCode nMsg s =
    (case sys_children call hi nCode nMsg 0 s of
       (Inl x, s') \<Rightarrow> (Inl x, s')
     | (Inr r, s') \<Rightarrow> (case sys_maps call this maps nMsg nCode r s' of
         (Inl x, s'') \<Rightarrow> (Inl x, s'')
       | (Inr (nCode', r'), s'') \<Rightarrow> sys_children call lo nCode' nMsg r' s''))"
| "sys_children call [] nCode nMsg bResult s = (Inr bResult, s)"
| "sys_children call (t # ts) nCode nMsg bResult s =
    (if \<not> sys_on nCode bResult then (Inr bResult, s)
     else (case On_P2PeerSys call t nCode nMsg s of
       (Inl x, s') \<Rightarrow> (Inl x, s')
     | (Inr r, s') \<Rightarrow> sys_children call ts nCode nMsg (or bResult r) s'))"

section \<open>What the searches come to\<close>

lemma snc_matches_iff: "snc_matches nMsg nCode e \<longleftrightarrow> nMessage e = nMsg \<and> se_nCode e = nCode"
  using uint_ge_0 [of "nMessage e"] unfolding snc_matches_def by linarith

text \<open>With the macros' offsets a search finds the first entry of its number, code and a signature.\<close>

definition found_by :: "16 word \<Rightarrow> 32 word \<Rightarrow> snc_entry \<Rightarrow> bool" where
  "found_by nMsg nCode e \<longleftrightarrow> snc_matches nMsg nCode e \<and> se_nSig e \<noteq> Sig_Unwrap"

definition plain :: "snc_entry list \<Rightarrow> bool" where
  "plain v \<longleftrightarrow> (\<forall>e \<in> set v. se_nOSets e = 1)"

lemma Find_plain:
  "plain v \<Longrightarrow> FindP2PeerSnkEntry v nMsg nCode = (case dropWhile (\<lambda>e. \<not> found_by nMsg nCode e) v of [] \<Rightarrow> Nothing | e # w \<Rightarrow> At e (e # w))"
proof (induction v)
  case (Cons d v)
  then have "se_nOSets d = 1" "plain v" by (simp_all add: plain_def)
  then show ?case using Cons.IH by (subst FindP2PeerSnkEntry.simps) (simp add: found_by_def)
qed (simp add: FindP2PeerSnkEntry.simps)

lemma plain_rest: "plain v \<Longrightarrow> dropWhile P v = e # w \<Longrightarrow> plain w \<and> se_nOSets e = 1 \<and> length w < length v"
proof -
  assume a: "plain v" "dropWhile P v = e # w"
  have "set (e # w) \<subseteq> set v" using a(2) by (metis set_dropWhileD subsetI)
  moreover have "length (e # w) \<le> length v" using a(2) length_dropWhile_le by metis
  ultimately show ?thesis using a(1) by (auto simp: plain_def)
qed

lemma filter_dropWhile: "filter P v = filter P (dropWhile (\<lambda>e. \<not> P e) v)"
  by (induction v) auto

fun run_snc :: "'s snc_handlers \<Rightarrow> nat \<Rightarrow> snc_entry list \<Rightarrow> 's \<Rightarrow> 32 word \<times> 's" where
  "run_snc call this [] s = (0, s)"
| "run_snc call this (e # es) s = (case DispatchP2PeerSnk call this e s of (r, s') \<Rightarrow>
     if r = sncCONTINUE then run_snc call this es s'
     else (if r = sncSWAP \<or> r = sncREDIRECT \<or> r = sncREPUMP then r else sncHANDLED, s'))"

lemma run_snc_append:
  "run_snc call this (xs @ ys) s = (case run_snc call this xs s of (r, s') \<Rightarrow> if r = 0 then run_snc call this ys s' else (r, s'))"
  by (induction xs arbitrary: s) (auto simp: snc_results split: prod.splits)

fun outcome :: "snc_end \<times> 's \<Rightarrow> (32 word \<times> 's) option" where
  "outcome (Behind b, s) = Some (0, s)"
| "outcome (Return r, s) = (if r = 0 then None else Some (r, s))"
| "outcome (Done b, s) = Some (sncHANDLED, s)"
| "outcome (Fails x, s) = None"

lemma snc_loop_runs:
  assumes "plain v"
  shows "outcome (snc_loop call this v nMsg nCode 0 b s) = Some (run_snc call this (filter (found_by nMsg (and nCode CN_Mask)) v) s)"
  using assms
proof (induction "length v" arbitrary: v s rule: less_induct)
  case less
  let ?P = "found_by nMsg (and nCode CN_Mask)"
  note find = Find_plain [OF less.prems, of nMsg "and nCode CN_Mask"]
  show ?case
  proof (cases "dropWhile (\<lambda>e. \<not> ?P e) v")
    case Nil
    then have "filter ?P v = []" using filter_dropWhile [of ?P v] by simp
    then show ?thesis using find Nil by (subst snc_loop.simps) simp
  next
    case (Cons e w)
    note w = plain_rest [OF less.prems Cons]
    have "?P e" using hd_dropWhile [of "\<lambda>e. \<not> ?P e" v] Cons by simp
    then have f: "filter ?P v = e # filter ?P w" using filter_dropWhile [of ?P v] Cons by simp
    obtain r s' where r: "DispatchP2PeerSnk call this e s = (r, s')" by fastforce
    have "outcome (snc_loop call this w nMsg nCode 0 b s') = Some (run_snc call this (filter ?P w) s')"
      using less.hyps [of w s'] w by blast
    then show ?thesis using find Cons w r f by (subst snc_loop.simps) (simp add: snc_results)
  qed
qed

text \<open>
  A sink message is offered to the entries of its number, from the derived class down and in the order of the maps, until a handler does
  not continue; map casting changes nothing.
\<close>
theorem sink_message_finds_its_handler:
  assumes "\<forall>v \<in> set maps. plain v"
  shows "On_P2PeerSnc call this maps nCode nMsg s
    = (case run_snc call this (filter (found_by nMsg (and nCode CN_Mask)) (concat maps)) s of (r, s') \<Rightarrow> (Inr r, s'))"
proof -
  have "snc_maps call this maps nMsg nCode b s
      = (case run_snc call this (filter (found_by nMsg (and nCode CN_Mask)) (concat maps)) s of (r, s') \<Rightarrow> (Inr r, s'))" for b
    using assms
  proof (induction maps arbitrary: b s)
    case (Cons v maps)
    obtain x s1 where x: "snc_loop call this v nMsg nCode 0 b s = (x, s1)" by fastforce
    have "outcome (x, s1) = Some (run_snc call this (filter (found_by nMsg (and nCode CN_Mask)) v) s)"
      using snc_loop_runs [where v = v and b = b and s = s and call = call and this = this and nMsg = nMsg and nCode = nCode] Cons.prems x by simp
    then show ?case using x Cons
      by (cases x) (auto simp: run_snc_append sncHANDLED_def split: prod.splits if_splits)
  qed simp
  then show ?thesis by (simp add: On_P2PeerSnc_def)
qed

text \<open>
  A system message is posted through a sink as a sink message, so a target whose map has entries for system messages only never handles
  it.
\<close>
theorem system_message_not_handled:
  assumes "\<forall>v \<in> set maps. \<forall>e \<in> set v. \<exists>n f. e = ON_P2PeerSys n f"
  shows "On_P2PeerSnc call this maps CN_P2PeerSnc nMsg s = (Inr sncCONTINUE, s)"
proof -
  have "plain v" if "v \<in> set maps" for v
    using assms that by (fastforce simp: plain_def ON_P2PeerSys_def)
  moreover have "\<not> found_by nMsg (and CN_P2PeerSnc CN_Mask) e" if "v \<in> set maps" "e \<in> set v" for v e
    using assms that by (fastforce simp: found_by_def snc_matches_iff ON_P2PeerSys_def CN_P2PeerSnc_def CN_P2PeerSys_def CN_Mask_def)
  then have "filter (found_by nMsg (and CN_P2PeerSnc CN_Mask)) (concat maps) = []" by (auto simp: filter_empty_conv)
  ultimately show ?thesis using sink_message_finds_its_handler [of maps call this CN_P2PeerSnc nMsg s] by (simp add: sncCONTINUE_def)
qed

section \<open>The order of a system message\<close>

fun sys_offers :: "16 word \<Rightarrow> 32 word \<Rightarrow> sys_target \<Rightarrow> (nat \<times> snc_entry) list" where
  "sys_offers nMsg nCode (SysTarget this maps hi lo) = concat (map (sys_offers nMsg nCode) hi)
     @ map (Pair this) (filter (found_by nMsg nCode) (concat maps)) @ concat (map (sys_offers nMsg nCode) lo)"

fun run_sys :: "'s snc_handlers \<Rightarrow> (nat \<times> snc_entry) list \<Rightarrow> 's \<Rightarrow> bool \<times> 's" where
  "run_sys call [] s = (False, s)"
| "run_sys call ((t, e) # es) s = (case DispatchP2PeerSys call t e s of (r, s') \<Rightarrow> if r = 0 then run_sys call es s' else (True, s'))"

lemma run_sys_append:
  "run_sys call (xs @ ys) s = (case run_sys call xs s of (b, s') \<Rightarrow> if b then (b, s') else run_sys call ys s')"
  by (induction xs arbitrary: s) (auto split: prod.splits)

fun plain_sys :: "sys_target \<Rightarrow> bool" where
  "plain_sys (SysTarget this maps hi lo) \<longleftrightarrow> (\<forall>v \<in> set maps. plain v \<and> (\<forall>e \<in> set v. \<not> se_bMapcast e))
     \<and> (\<forall>t \<in> set hi. plain_sys t) \<and> (\<forall>t \<in> set lo. plain_sys t)"

definition answer :: "bool \<times> 's \<Rightarrow> (snc_found + 32 word) \<times> 's" where
  "answer x = (Inr (if fst x then 1 else 0), snd x)"

lemma sys_loop_runs:
  assumes "plain v" "\<forall>e \<in> set v. \<not> se_bMapcast e"
  shows "sys_loop call this v nMsg nCode s
    = (case run_sys call (map (Pair this) (filter (found_by nMsg (and nCode CN_Mask)) v)) s of (b, s') \<Rightarrow> (Inr (b, nCode), s'))"
  using assms
proof (induction "length v" arbitrary: v s rule: less_induct)
  case less
  let ?P = "found_by nMsg (and nCode CN_Mask)"
  note find = Find_plain [OF less.prems(1), of nMsg "and nCode CN_Mask"]
  show ?case
  proof (cases "dropWhile (\<lambda>e. \<not> ?P e) v")
    case Nil
    then have "filter ?P v = []" using filter_dropWhile [of ?P v] by simp
    then show ?thesis using find Nil by (subst sys_loop.simps) (simp add: FindP2PeerSysEntry_def)
  next
    case (Cons e w)
    note w = plain_rest [OF less.prems(1) Cons]
    have sub: "set (e # w) \<subseteq> set v" using Cons by (metis set_dropWhileD subsetI)
    have "?P e" using hd_dropWhile [of "\<lambda>e. \<not> ?P e" v] Cons by simp
    then have f: "filter ?P v = e # filter ?P w" using filter_dropWhile [of ?P v] Cons by simp
    obtain r s' where r: "DispatchP2PeerSys call this e s = (r, s')" by fastforce
    have "sys_loop call this w nMsg nCode s' = (case run_sys call (map (Pair this) (filter ?P w)) s' of (b, s') \<Rightarrow> (Inr (b, nCode), s'))"
      using less.hyps [of w s'] w less.prems(2) sub by auto
    then show ?thesis using find Cons w r f sub less.prems(2)
      by (subst sys_loop.simps) (auto simp: FindP2PeerSysEntry_def split: prod.splits)
  qed
qed

lemma sys_maps_runs:
  assumes "\<forall>v \<in> set maps. plain v \<and> (\<forall>e \<in> set v. \<not> se_bMapcast e)" "and nCode CM_Mapcast = 0"
  shows "sys_maps call this maps nMsg nCode 0 s
    = (case run_sys call (map (Pair this) (filter (found_by nMsg (and nCode CN_Mask)) (concat maps))) s of (b, s') \<Rightarrow> (Inr (nCode, if b then 1 else 0), s'))"
  using assms
proof (induction maps arbitrary: s)
  case (Cons v maps)
  then show ?case using sys_loop_runs [of v call this nMsg nCode s]
    by (auto simp: sys_on_def run_sys_append split: prod.splits bool.splits)
qed simp

lemma sys_children_run:
  assumes "\<And>t s. t \<in> set ts \<Longrightarrow> On_P2PeerSys call t nCode nMsg s = answer (run_sys call (sys_offers nMsg m t) s)" "and nCode CM_Mapcast = 0"
  shows "sys_children call ts nCode nMsg 0 s = answer (run_sys call (concat (map (sys_offers nMsg m) ts)) s)"
  using assms(1)
proof (induction ts arbitrary: s)
  case Nil
  show ?case by (simp add: answer_def)
next
  case (Cons t ts)
  have "sys_children call ts nCode nMsg 0 s' = answer (run_sys call (concat (map (sys_offers nMsg m) ts)) s')" for s'
    using Cons.prems by (intro Cons.IH) simp
  moreover have "sys_children call ts nCode nMsg 1 s' = (Inr 1, s')" for s'
    using assms(2) by (cases ts) (simp_all add: sys_on_def)
  ultimately show ?case using Cons.prems [of t s]
    by (cases "run_sys call (sys_offers nMsg m t) s") (auto simp: answer_def sys_on_def run_sys_append)
qed

lemma sys_children_off: "and nCode CM_Mapcast = 0 \<Longrightarrow> sys_children call ts nCode nMsg 1 s = (Inr 1, s)"
  by (cases ts) (simp_all add: sys_on_def)

lemma sys_maps_off: "and nCode CM_Mapcast = 0 \<Longrightarrow> sys_maps call this maps nMsg nCode 1 s = (Inr (nCode, 1), s)"
  by (cases maps) (simp_all add: sys_on_def)

text \<open>
  Without map casting a system message is offered to the children before a target, to its own maps and to the children behind it,
  until one handles it.
\<close>

theorem system_message_in_order:
  assumes "plain_sys t" "and nCode CM_Mapcast = 0"
  shows "On_P2PeerSys call t nCode nMsg s = answer (run_sys call (sys_offers nMsg (and nCode CN_Mask) t) s)"
  using assms(1)
proof (induction t arbitrary: s)
  case (SysTarget this maps hi lo)
  let ?o = "sys_offers nMsg (and nCode CN_Mask)"
  have hi: "sys_children call hi nCode nMsg 0 s = answer (run_sys call (concat (map ?o hi)) s)" for s
    using SysTarget by (intro sys_children_run [OF _ assms(2)]) simp
  have lo: "sys_children call lo nCode nMsg 0 s = answer (run_sys call (concat (map ?o lo)) s)" for s
    using SysTarget by (intro sys_children_run [OF _ assms(2)]) simp
  have own: "sys_maps call this maps nMsg nCode 0 s
      = (case run_sys call (map (Pair this) (filter (found_by nMsg (and nCode CN_Mask)) (concat maps))) s of (b, s') \<Rightarrow> (Inr (nCode, if b then 1 else 0), s'))" for s
    using SysTarget.prems by (intro sys_maps_runs [OF _ assms(2)]) simp
  show ?case
    by (simp add: hi own lo answer_def run_sys_append sys_children_off [OF assms(2)] sys_maps_off [OF assms(2)] split: prod.splits)
qed

end
