(* ===== verification/ConMeet.thy ===== *)
theory ConMeet
  imports Address
begin

text \<open>
  How in-process connections meet, P2PeerConDmx.cpp: a service registers in a list of the process, a client that dials finds it
  there, joins the two and wakes the service; the service hands the client to a connection it spawns, or refuses it.  Each end
  is run by the thread of its hub; what touches two of them runs under \<open>g_oCSectP2PeerConDmx\<close> and is one step.

  \<open>OnAccept\<close> of a service takes the lock several times, so it is three steps: the look at who is there, the decision, and the
  arming that \<open>On_ConAccept\<close> ends with.  Overlapped objects are numbered as they are made, so that a completion of a deleted one
  shows.  What a joined pair does is the subject of ConDmx: the parked read that breaking a pair hands back is left out here, as
  are the counting of accepted connections (ConAccept) and the holders of references, of which only operations and notifications
  are seen.
\<close>

type_synonym con = nat
type_synonym ovid = nat

datatype con_mode = Service | Client | Accepted
datatype notice = P2P_Listen | P2P_Accept | P2P_Connect | P2P_Close
datatype stage = Idle | Dialling | Latched | Deciding | Rearming
datatype meet_error = DuplicateListen | DuplicateAccept | PreviouslyConnected | ConnectionFailed | BufferLocked
  | AcceptFailed | ConnectFailed

text \<open>\<open>answered\<close> remembers, for the theorems, that the connect of a dial was posted.\<close>

record dcon =
  m_eP2PeerConMode :: con_mode
  m_sServiceName :: wstr
  m_pConThat :: "con option"
  m_hFile :: "con option"
  m_hFileCPort :: "con option"
  m_pOVERLAPPEDaccept :: "ovid option"
  m_pOVERLAPPEDconnect :: "ovid option"
  m_pEvent :: bool
  m_bDestroy :: bool
  notices :: "notice list"
  stage :: stage
  answered :: bool

text \<open>Of an overlapped object: whether it is queued, and whether its result is \<open>S_OK\<close>.\<close>

record ov =
  bQueued :: bool
  hr_ok :: bool

record meeting =
  alive :: "con set"
  cons :: "con \<Rightarrow> dcon"
  g_oCListP2PeerConDmx :: "con list"
  ovs :: "ovid \<Rightarrow> ov option"
  next_ov :: nat
  port :: "(con \<times> ovid) list"
  thrown :: "(con \<times> meet_error) list"
  freed_read :: bool

definition upd :: "con \<Rightarrow> (dcon \<Rightarrow> dcon) \<Rightarrow> meeting \<Rightarrow> meeting" where
  "upd c f s = s\<lparr>cons := (cons s)(c := f (cons s c))\<rparr>"

definition note_to :: "con \<Rightarrow> notice \<Rightarrow> meeting \<Rightarrow> meeting" where
  "note_to c n = upd c (\<lambda>d. d\<lparr>notices := notices d @ [n]\<rparr>)"

section \<open>Overlapped objects\<close>

definition MakeOVERLAPPED :: "meeting \<Rightarrow> ovid \<times> meeting" where
  "MakeOVERLAPPED s = (next_ov s, s\<lparr>ovs := (ovs s)(next_ov s \<mapsto> \<lparr>bQueued = False, hr_ok = True\<rparr>), next_ov := next_ov s + 1\<rparr>)"

definition queued :: "meeting \<Rightarrow> ovid \<Rightarrow> bool" where
  "queued s i = (case ovs s i of None \<Rightarrow> False | Some x \<Rightarrow> bQueued x)"

text \<open>Deleted whether it is in the port or not.\<close>

definition DropOVERLAPPED :: "ovid option \<Rightarrow> meeting \<Rightarrow> meeting" where
  "DropOVERLAPPED i s = (case i of None \<Rightarrow> s | Some i \<Rightarrow> s\<lparr>ovs := (ovs s)(i := None)\<rparr>)"

definition drop_accept :: "con \<Rightarrow> meeting \<Rightarrow> meeting" where
  "drop_accept c s = upd c (\<lambda>d. d\<lparr>m_pOVERLAPPEDaccept := None\<rparr>) (DropOVERLAPPED (m_pOVERLAPPEDaccept (cons s c)) s)"

definition drop_connect :: "con \<Rightarrow> meeting \<Rightarrow> meeting" where
  "drop_connect c s = upd c (\<lambda>d. d\<lparr>m_pOVERLAPPEDconnect := None\<rparr>) (DropOVERLAPPED (m_pOVERLAPPEDconnect (cons s c)) s)"

definition enqueue :: "con \<Rightarrow> ovid \<Rightarrow> bool \<Rightarrow> meeting \<Rightarrow> meeting" where
  "enqueue c i ok s = s\<lparr>ovs := (ovs s)(i \<mapsto> \<lparr>bQueued = True, hr_ok = ok\<rparr>), port := port s @ [(c, i)]\<rparr>"

text \<open>None: it throws, the object is in the port already.\<close>

definition PostOVERLAPPED :: "con \<Rightarrow> ovid \<Rightarrow> bool \<Rightarrow> meeting \<Rightarrow> meeting option" where
  "PostOVERLAPPED c i ok s = (if queued s i then None else Some (enqueue c i ok s))"

section \<open>Breaking a pair\<close>

definition unpaired :: "dcon \<Rightarrow> dcon" where
  "unpaired d = d\<lparr>m_pConThat := None, m_hFile := None, m_hFileCPort := None\<rparr>"

definition BREAK_PAIR :: "con \<Rightarrow> meeting \<Rightarrow> meeting" where
  "BREAK_PAIR c s =
    (let s1 = upd c unpaired s in
     case m_pConThat (cons s c) of None \<Rightarrow> s1
     | Some p \<Rightarrow> if m_pConThat (cons s1 p) = Some c then upd p (\<lambda>e. e\<lparr>m_pConThat := None\<rparr>) s1 else s1)"

definition reclaim :: "con \<Rightarrow> meeting \<Rightarrow> meeting" where
  "reclaim c s =
    (let s1 = (case m_pOVERLAPPEDaccept (cons s c) of Some i \<Rightarrow> if queued s i then s else drop_accept c s | None \<Rightarrow> s) in
     case m_pOVERLAPPEDconnect (cons s1 c) of Some i \<Rightarrow> if queued s1 i then s1 else drop_connect c s1 | None \<Rightarrow> s1)"

text \<open>
  A connection that nothing refers to counts as one to be destroyed; \<open>bHeld\<close>: who drops it holds a reference.  \<open>bEvent\<close>: with a
  precipitating event.  A close is posted once for an event that is latched, and never to what is to be destroyed.
\<close>

definition PostDestroyState :: "bool \<Rightarrow> con \<Rightarrow> meeting \<Rightarrow> bool" where
  "PostDestroyState bHeld c s \<longleftrightarrow> m_bDestroy (cons s c) \<or> \<not> bHeld \<and> notices (cons s c) = [] \<and> (\<forall>x \<in> set (port s). fst x \<noteq> c)"

definition Drop :: "bool \<Rightarrow> bool \<Rightarrow> con \<Rightarrow> meeting \<Rightarrow> meeting" where
  "Drop bHeld bEvent c s =
    (let s1 = reclaim c (BREAK_PAIR c s) in
     if m_pEvent (cons s1 c) then s1
     else if PostDestroyState bHeld c s1 then upd c (\<lambda>d. d\<lparr>m_pEvent := bEvent\<rparr>) s1
     else note_to c P2P_Close (upd c (\<lambda>d. d\<lparr>m_pEvent := bEvent\<rparr>) s1))"

text \<open>What the pump does with an exception of a handler.\<close>

definition throws :: "con \<Rightarrow> meet_error \<Rightarrow> meeting \<Rightarrow> meeting" where
  "throws c e s = Drop True True c (s\<lparr>thrown := thrown s @ [(c, e)]\<rparr>)"

section \<open>Services\<close>

definition dcon_new :: "con_mode \<Rightarrow> wstr \<Rightarrow> dcon" where
  "dcon_new m name = \<lparr>m_eP2PeerConMode = m, m_sServiceName = name, m_pConThat = None, m_hFile = None, m_hFileCPort = None,
     m_pOVERLAPPEDaccept = None, m_pOVERLAPPEDconnect = None, m_pEvent = False, m_bDestroy = False, notices = [], stage = Idle, answered = False\<rparr>"

definition Factory :: "con \<Rightarrow> con_mode \<Rightarrow> wstr \<Rightarrow> meeting \<Rightarrow> meeting" where
  "Factory c m name s = s\<lparr>alive := insert c (alive s), cons := (cons s)(c := dcon_new m name)\<rparr>"

definition Listen :: "con \<Rightarrow> meeting \<Rightarrow> meeting" where
  "Listen c s = (if c \<in> set (g_oCListP2PeerConDmx s) then throws c DuplicateListen s
     else note_to c P2P_Listen (s\<lparr>g_oCListP2PeerConDmx := g_oCListP2PeerConDmx s @ [c]\<rparr>))"

definition Accept :: "con \<Rightarrow> meeting \<Rightarrow> meeting" where
  "Accept c s = (if m_pConThat (cons s c) \<noteq> None \<or> m_pOVERLAPPEDaccept (cons s c) \<noteq> None then throws c DuplicateAccept s
     else (case MakeOVERLAPPED s of (i, s') \<Rightarrow> upd c (\<lambda>d. d\<lparr>m_pOVERLAPPEDaccept := Some i\<rparr>) s'))"

text \<open>\<open>OnAccept\<close> of a service, first the look, then the decision: the client is refused on its own pump, or moved to the spawned end.\<close>

definition OnAccept_looks :: "con \<Rightarrow> meeting \<Rightarrow> meeting" where
  "OnAccept_looks c s = upd c (\<lambda>d. d\<lparr>stage := if m_pConThat d = None then Rearming else Deciding\<rparr>) s"

definition refuse :: "con \<Rightarrow> meeting \<Rightarrow> meeting" where
  "refuse c s =
    (let s1 = upd c unpaired s;
         s2 = (case m_pConThat (cons s c) of None \<Rightarrow> s1
           | Some p \<Rightarrow>
              if m_pConThat (cons s1 p) \<noteq> Some c then s1
              else (let s' = upd p (\<lambda>e. e\<lparr>m_pConThat := None\<rparr>) s1 in
                case m_pOVERLAPPEDconnect (cons s' p) of
                  Some i \<Rightarrow> if \<not> queued s' i \<and> \<not> m_bDestroy (cons s' p) then upd p (\<lambda>e. e\<lparr>answered := True\<rparr>) (enqueue p i False s') else s'
                | None \<Rightarrow> s'))
     in drop_accept c s2)"

definition AcceptSpawn :: "con \<Rightarrow> con \<Rightarrow> meeting \<Rightarrow> meeting" where
  "AcceptSpawn c z s =
    (let d = cons s c;
         s1 = drop_accept c s;
         s2 = Factory z Accepted [] s1;
         s3 = upd z (\<lambda>e. e\<lparr>m_pConThat := m_pConThat d, m_hFile := m_hFile d, m_hFileCPort := m_hFileCPort d\<rparr>) (upd c unpaired s2)
     in case m_pConThat d of None \<Rightarrow> s3
        | Some p \<Rightarrow> upd p (\<lambda>e. e\<lparr>m_pConThat := Some z, m_hFile := Some z, m_hFileCPort := Some z\<rparr>) s3)"

definition OnAccept_decides :: "bool \<Rightarrow> con \<Rightarrow> con \<Rightarrow> meeting \<Rightarrow> meeting" where
  "OnAccept_decides bFull c z s = upd c (\<lambda>d. d\<lparr>stage := Rearming\<rparr>)
    (if bFull then refuse c s
     else (let s1 = AcceptSpawn c z s in
       if m_pConThat (cons s1 z) = None then Drop False False z s1 else note_to z P2P_Accept s1))"

text \<open>\<open>OnAccept\<close> of the spawned end tells the client.\<close>

definition OnAccept_spawned :: "con \<Rightarrow> meeting \<Rightarrow> meeting" where
  "OnAccept_spawned z s = (case m_pConThat (cons s z) of None \<Rightarrow> Drop True False z s
    | Some p \<Rightarrow> (case m_pOVERLAPPEDconnect (cons s p) of None \<Rightarrow> s
      | Some i \<Rightarrow> (let s1 = upd p (\<lambda>e. e\<lparr>m_hFile := Some z, m_hFileCPort := Some z\<rparr>) s in
          case PostOVERLAPPED p i True s1 of None \<Rightarrow> throws z BufferLocked s1 | Some s' \<Rightarrow> upd p (\<lambda>e. e\<lparr>answered := True\<rparr>) s')))"

section \<open>Clients\<close>

definition Connect :: "con \<Rightarrow> meeting \<Rightarrow> meeting" where
  "Connect c s = (if m_pConThat (cons s c) \<noteq> None then throws c PreviouslyConnected s
     else upd c (\<lambda>d. d\<lparr>stage := Dialling\<rparr>) s)"

text \<open>A turn of the loop: the first service of the name, if it waits for a client.\<close>

definition service_of :: "wstr \<Rightarrow> meeting \<Rightarrow> con option" where
  "service_of name s = find (\<lambda>y. m_eP2PeerConMode (cons s y) = Service \<and> m_sServiceName (cons s y) = name) (g_oCListP2PeerConDmx s)"

definition latch :: "con \<Rightarrow> con \<Rightarrow> ovid \<Rightarrow> meeting \<Rightarrow> meeting" where
  "latch c y a s =
    (let s1 = upd y (\<lambda>e. e\<lparr>m_pConThat := Some c, m_hFileCPort := Some c, m_hFile := Some c\<rparr>)
                (upd c (\<lambda>d. d\<lparr>m_pConThat := Some y, m_hFileCPort := Some y, m_hFile := Some y, stage := Latched, answered := False\<rparr>) s);
         s2 = (if m_pOVERLAPPEDconnect (cons s1 c) \<noteq> None then s1
               else (case MakeOVERLAPPED s1 of (i, s') \<Rightarrow> upd c (\<lambda>d. d\<lparr>m_pOVERLAPPEDconnect := Some i\<rparr>) s'))
     in enqueue y a True s2)"

definition Connect_turn :: "con \<Rightarrow> meeting \<Rightarrow> meeting" where
  "Connect_turn c s = (case service_of (m_sServiceName (cons s c)) s of None \<Rightarrow> s
    | Some y \<Rightarrow> (case m_pOVERLAPPEDaccept (cons s y) of None \<Rightarrow> s
      | Some a \<Rightarrow> if \<not> queued s a \<and> m_pConThat (cons s y) = None then latch c y a s else s))"

definition Connect_ends :: "con \<Rightarrow> meeting \<Rightarrow> meeting" where
  "Connect_ends c s =
    (let s1 = upd c (\<lambda>d. d\<lparr>stage := Idle\<rparr>) s in
     if m_pConThat (cons s c) = None then throws c ConnectionFailed s1
     else if m_pOVERLAPPEDconnect (cons s c) \<noteq> None then s1
     else (case MakeOVERLAPPED s1 of (i, s') \<Rightarrow> upd c (\<lambda>d. d\<lparr>m_pOVERLAPPEDconnect := Some i\<rparr>) s'))"

section \<open>Completions\<close>

definition On_QueuedCompletionStatus :: "con \<Rightarrow> ovid \<Rightarrow> meeting \<Rightarrow> meeting" where
  "On_QueuedCompletionStatus c i s =
    (case ovs s i of None \<Rightarrow> s\<lparr>freed_read := True\<rparr>
     | Some x \<Rightarrow>
        (let d = cons s c; s1 = s\<lparr>ovs := (ovs s)(i \<mapsto> x\<lparr>bQueued := False\<rparr>)\<rparr> in
         if m_pOVERLAPPEDaccept d = Some i
         then (if hr_ok x \<and> m_hFileCPort d \<noteq> None then note_to c P2P_Accept s1
               else if m_hFileCPort d \<noteq> None then throws c AcceptFailed s1 else drop_accept c s1)
         else if m_pOVERLAPPEDconnect d = Some i
         then (if hr_ok x \<and> m_hFileCPort d \<noteq> None then note_to c P2P_Connect s1
               else if m_hFileCPort d \<noteq> None then throws c ConnectFailed s1 else drop_connect c s1)
         else s1))"

text \<open>The end of a connection: the close handler, and the destructor.\<close>

definition On_ConClose :: "bool \<Rightarrow> con \<Rightarrow> meeting \<Rightarrow> meeting" where
  "On_ConClose bRestart c s =
    (let s1 = upd c (\<lambda>d. d\<lparr>m_pEvent := False\<rparr>) (BREAK_PAIR c s) in
     if bRestart \<and> m_eP2PeerConMode (cons s1 c) = Client \<and> \<not> m_bDestroy (cons s1 c) then s1
     else upd c (\<lambda>d. d\<lparr>m_bDestroy := True\<rparr>) s1)"

definition delete_con :: "con \<Rightarrow> meeting \<Rightarrow> meeting" where
  "delete_con c s = (let s1 = Drop False False c s in
    s1\<lparr>g_oCListP2PeerConDmx := remove1 c (g_oCListP2PeerConDmx s1), alive := alive s1 - {c}\<rparr>)"

section \<open>What can happen\<close>

datatype meet_event = Makes con con_mode wstr | Listens con | TakesListen con | TakesAccept con | Decides con bool con | Rearms con
  | TakesSpawned con | Dials con | Turns con | Returns con | Completes con ovid | TakesConnect con | TakesClose con bool
  | Drops con bool | Marks con | Destroys con

definition idle :: "con \<Rightarrow> meeting \<Rightarrow> bool" where
  "idle c s \<longleftrightarrow> c \<in> alive s \<and> stage (cons s c) = Idle"

definition mode_is :: "con_mode \<Rightarrow> con \<Rightarrow> meeting \<Rightarrow> bool" where
  "mode_is m c s \<longleftrightarrow> m_eP2PeerConMode (cons s c) = m"

definition next_notice :: "notice \<Rightarrow> con \<Rightarrow> meeting \<Rightarrow> bool" where
  "next_notice n c s \<longleftrightarrow> (case notices (cons s c) of [] \<Rightarrow> False | m # _ \<Rightarrow> m = n)"

definition taken :: "con \<Rightarrow> meeting \<Rightarrow> meeting" where
  "taken c = upd c (\<lambda>d. d\<lparr>notices := tl (notices d)\<rparr>)"

text \<open>
  When an event can happen.  An address and an overlapped object are not used again.  A client dials again when the completion of its
  earlier connect was taken, for which its restart leaves time.  A connection is deleted when nothing refers to it: no operation is in
  the port, and no notification is on its way.
\<close>

fun can_happen :: "meet_event \<Rightarrow> meeting \<Rightarrow> bool" where
  "can_happen (Makes c m name) s \<longleftrightarrow> m \<noteq> Accepted \<and> c \<notin> alive s \<and> (\<forall>x \<in> set (port s). fst x \<noteq> c)"
| "can_happen (Listens c) s \<longleftrightarrow> idle c s \<and> mode_is Service c s"
| "can_happen (TakesListen c) s \<longleftrightarrow> idle c s \<and> mode_is Service c s \<and> next_notice P2P_Listen c s"
| "can_happen (TakesAccept c) s \<longleftrightarrow> idle c s \<and> mode_is Service c s \<and> next_notice P2P_Accept c s"
| "can_happen (Decides c b z) s \<longleftrightarrow> c \<in> alive s \<and> stage (cons s c) = Deciding \<and> z \<notin> alive s \<and> (\<forall>x \<in> set (port s). fst x \<noteq> z)"
| "can_happen (Rearms c) s \<longleftrightarrow> c \<in> alive s \<and> stage (cons s c) = Rearming"
| "can_happen (TakesSpawned c) s \<longleftrightarrow> idle c s \<and> mode_is Accepted c s \<and> next_notice P2P_Accept c s"
| "can_happen (Dials c) s \<longleftrightarrow> idle c s \<and> mode_is Client c s \<and> m_pOVERLAPPEDconnect (cons s c) = None"
| "can_happen (Turns c) s \<longleftrightarrow> c \<in> alive s \<and> stage (cons s c) = Dialling"
| "can_happen (Returns c) s \<longleftrightarrow> c \<in> alive s \<and> stage (cons s c) \<in> {Dialling, Latched}"
| "can_happen (Completes c i) s \<longleftrightarrow> idle c s \<and> (c, i) \<in> set (port s)"
| "can_happen (TakesConnect c) s \<longleftrightarrow> idle c s \<and> next_notice P2P_Connect c s"
| "can_happen (TakesClose c b) s \<longleftrightarrow> idle c s \<and> next_notice P2P_Close c s"
| "can_happen (Drops c b) s \<longleftrightarrow> idle c s"
| "can_happen (Marks c) s \<longleftrightarrow> c \<in> alive s"
| "can_happen (Destroys c) s \<longleftrightarrow> idle c s \<and> m_bDestroy (cons s c) \<and> notices (cons s c) = [] \<and> (\<forall>x \<in> set (port s). fst x \<noteq> c)"

fun happen :: "meet_event \<Rightarrow> meeting \<Rightarrow> meeting" where
  "happen (Makes c m name) s = Factory c m name s"
| "happen (Listens c) s = Listen c s"
| "happen (TakesListen c) s = Accept c (taken c s)"
| "happen (TakesAccept c) s = OnAccept_looks c (taken c s)"
| "happen (Decides c b z) s = OnAccept_decides b c z s"
| "happen (Rearms c) s = Accept c (upd c (\<lambda>d. d\<lparr>stage := Idle\<rparr>) s)"
| "happen (TakesSpawned c) s = OnAccept_spawned c (taken c s)"
| "happen (Dials c) s = Connect c s"
| "happen (Turns c) s = Connect_turn c s"
| "happen (Returns c) s = Connect_ends c s"
| "happen (Completes c i) s = On_QueuedCompletionStatus c i (s\<lparr>port := remove1 (c, i) (port s)\<rparr>)"
| "happen (TakesConnect c) s = taken c s"
| "happen (TakesClose c b) s = On_ConClose b c (taken c s)"
| "happen (Drops c b) s = Drop b False c s"
| "happen (Marks c) s = upd c (\<lambda>d. d\<lparr>m_bDestroy := True\<rparr>) s"
| "happen (Destroys c) s = delete_con c s"

fun happens :: "meet_event list \<Rightarrow> meeting \<Rightarrow> meeting option" where
  "happens [] s = Some s"
| "happens (e # es) s = (if can_happen e s then happens es (happen e s) else None)"

definition meeting_new :: meeting where
  "meeting_new = \<lparr>alive = {}, cons = (\<lambda>c. dcon_new Client []), g_oCListP2PeerConDmx = [], ovs = (\<lambda>i. None), next_ov = 0, port = [],
     thrown = [], freed_read = False\<rparr>"

lemmas meet_defs = upd_def note_to_def MakeOVERLAPPED_def queued_def DropOVERLAPPED_def drop_accept_def drop_connect_def enqueue_def
  PostOVERLAPPED_def unpaired_def BREAK_PAIR_def reclaim_def PostDestroyState_def Drop_def throws_def dcon_new_def Factory_def Listen_def Accept_def OnAccept_looks_def
  refuse_def AcceptSpawn_def OnAccept_decides_def OnAccept_spawned_def Connect_def service_of_def latch_def Connect_turn_def Connect_ends_def
  On_QueuedCompletionStatus_def On_ConClose_def delete_con_def idle_def mode_is_def next_notice_def taken_def meeting_new_def Let_def

text \<open>The service 1 with an armed accept, and the clients 2 and 3 of its name.\<close>

definition armed :: "meet_event list" where
  "armed = [Makes 1 Service [7], Makes 2 Client [7], Makes 3 Client [7], Listens 1, TakesListen 1]"

section \<open>Pairs are symmetric, and the list has no dead entries\<close>

lemma upd_fields [simp]:
  "cons (upd c f s) x = (if x = c then f (cons s c) else cons s x)" "alive (upd c f s) = alive s"
  "g_oCListP2PeerConDmx (upd c f s) = g_oCListP2PeerConDmx s" "ovs (upd c f s) = ovs s" "next_ov (upd c f s) = next_ov s"
  "port (upd c f s) = port s" "thrown (upd c f s) = thrown s" "freed_read (upd c f s) = freed_read s"
  by (simp_all add: upd_def)

lemma enqueue_fields [simp]:
  "cons (enqueue c i ok s) = cons s" "alive (enqueue c i ok s) = alive s" "g_oCListP2PeerConDmx (enqueue c i ok s) = g_oCListP2PeerConDmx s"
  "next_ov (enqueue c i ok s) = next_ov s" "port (enqueue c i ok s) = port s @ [(c, i)]" "thrown (enqueue c i ok s) = thrown s"
  "ovs (enqueue c i ok s) = (ovs s)(i \<mapsto> \<lparr>bQueued = True, hr_ok = ok\<rparr>)"
  by (simp_all add: enqueue_def)

lemma DropOVERLAPPED_fields [simp]:
  "cons (DropOVERLAPPED i s) = cons s" "alive (DropOVERLAPPED i s) = alive s" "g_oCListP2PeerConDmx (DropOVERLAPPED i s) = g_oCListP2PeerConDmx s"
  "next_ov (DropOVERLAPPED i s) = next_ov s" "port (DropOVERLAPPED i s) = port s" "thrown (DropOVERLAPPED i s) = thrown s"
  by (simp_all add: DropOVERLAPPED_def split: option.split)

lemma note_to_fields [simp]:
  "cons (note_to c n s) x = (if x = c then (cons s c)\<lparr>notices := notices (cons s c) @ [n]\<rparr> else cons s x)" "alive (note_to c n s) = alive s"
  "g_oCListP2PeerConDmx (note_to c n s) = g_oCListP2PeerConDmx s" "ovs (note_to c n s) = ovs s" "next_ov (note_to c n s) = next_ov s"
  "port (note_to c n s) = port s" "thrown (note_to c n s) = thrown s"
  by (simp_all add: note_to_def)

lemma unpaired_fields [simp]:
  "m_pConThat (unpaired d) = None" "m_eP2PeerConMode (unpaired d) = m_eP2PeerConMode d" "m_pOVERLAPPEDaccept (unpaired d) = m_pOVERLAPPEDaccept d"
  "m_pOVERLAPPEDconnect (unpaired d) = m_pOVERLAPPEDconnect d" "notices (unpaired d) = notices d" "stage (unpaired d) = stage d"
  "answered (unpaired d) = answered d" "m_hFile (unpaired d) = None" "m_hFileCPort (unpaired d) = None" "m_bDestroy (unpaired d) = m_bDestroy d"
  "m_pEvent (unpaired d) = m_pEvent d" "m_sServiceName (unpaired d) = m_sServiceName d"
  by (simp_all add: unpaired_def)

definition core :: "dcon \<Rightarrow> con_mode \<times> con option \<times> con option \<times> con option" where
  "core d = (m_eP2PeerConMode d, m_pConThat d, m_hFile d, m_hFileCPort d)"

definition joined :: "meeting \<Rightarrow> con \<Rightarrow> con \<Rightarrow> bool" where
  "joined s x y \<longleftrightarrow> x \<in> alive s \<and> y \<in> alive s \<and> m_pConThat (cons s y) = Some x
     \<and> (m_eP2PeerConMode (cons s x) = Client) \<noteq> (m_eP2PeerConMode (cons s y) = Client)
     \<and> m_hFile (cons s x) = Some y \<and> m_hFileCPort (cons s x) = Some y"

definition pairs_ok :: "meeting \<Rightarrow> bool" where
  "pairs_ok s \<longleftrightarrow> (\<forall>x y. m_pConThat (cons s x) = Some y \<longrightarrow> joined s x y)"

definition stage_ok :: "dcon \<Rightarrow> bool" where
  "stage_ok d \<longleftrightarrow> (stage d \<in> {Dialling, Latched} \<longrightarrow> m_eP2PeerConMode d = Client)
     \<and> (stage d = Dialling \<longrightarrow> m_pConThat d = None \<and> m_pOVERLAPPEDconnect d = None)
     \<and> (stage d \<in> {Deciding, Rearming} \<longrightarrow> m_eP2PeerConMode d = Service)"

definition list_ok :: "meeting \<Rightarrow> bool" where
  "list_ok s \<longleftrightarrow> distinct (g_oCListP2PeerConDmx s) \<and> (\<forall>x \<in> set (g_oCListP2PeerConDmx s). x \<in> alive s \<and> m_eP2PeerConMode (cons s x) = Service)
     \<and> (\<forall>x. stage_ok (cons s x))"

lemma pairs_joined: "pairs_ok s \<Longrightarrow> m_pConThat (cons s x) = Some y \<Longrightarrow> joined s x y"
  by (simp add: pairs_ok_def)

lemma pairs_same:
  assumes "pairs_ok s" "alive s \<subseteq> alive s'" "\<And>x. core (cons s' x) = core (cons s x)"
  shows "pairs_ok s'"
proof -
  have eq: "m_eP2PeerConMode (cons s' x) = m_eP2PeerConMode (cons s x)" "m_pConThat (cons s' x) = m_pConThat (cons s x)"
    "m_hFile (cons s' x) = m_hFile (cons s x)" "m_hFileCPort (cons s' x) = m_hFileCPort (cons s x)" for x
    using assms(3) [of x] by (simp_all add: core_def)
  show ?thesis unfolding pairs_ok_def
  proof (intro allI impI)
    fix x y assume "m_pConThat (cons s' x) = Some y"
    then have "joined s x y" using assms(1) eq pairs_joined by simp
    then show "joined s' x y" using assms(2) by (auto simp: joined_def eq)
  qed
qed

lemma pairs_other:
  assumes "pairs_ok s" "m_pConThat (cons s x) = Some y"
  shows "y \<noteq> x \<and> m_pConThat (cons s y) = Some x"
  using pairs_joined [OF assms] by (auto simp: joined_def)

lemma BREAK_PAIR_cons:
  assumes "pairs_ok s"
  shows "cons (BREAK_PAIR c s) = (\<lambda>x. if x = c then unpaired (cons s c)
     else if m_pConThat (cons s c) = Some x then (cons s x)\<lparr>m_pConThat := None\<rparr> else cons s x)"
proof (cases "m_pConThat (cons s c)")
  case (Some p)
  then show ?thesis using pairs_other [OF assms Some] by (intro ext) (simp add: BREAK_PAIR_def Let_def)
qed (simp add: BREAK_PAIR_def Let_def fun_eq_iff)

lemma BREAK_PAIR_fields [simp]:
  "alive (BREAK_PAIR c s) = alive s" "g_oCListP2PeerConDmx (BREAK_PAIR c s) = g_oCListP2PeerConDmx s" "ovs (BREAK_PAIR c s) = ovs s"
  "next_ov (BREAK_PAIR c s) = next_ov s" "port (BREAK_PAIR c s) = port s" "thrown (BREAK_PAIR c s) = thrown s"
  by (simp_all add: BREAK_PAIR_def Let_def split: option.split)

lemma pairs_less:
  assumes "pairs_ok s" "alive s \<subseteq> alive s'"
    and "\<And>x y. m_pConThat (cons s' x) = Some y \<Longrightarrow> m_pConThat (cons s x) = Some y \<and> core (cons s' x) = core (cons s x) \<and> core (cons s' y) = core (cons s y)"
  shows "pairs_ok s'"
  unfolding pairs_ok_def
proof (intro allI impI)
  fix x y assume a: "m_pConThat (cons s' x) = Some y"
  note k = assms(3) [OF a]
  then have "joined s x y" using pairs_joined [OF assms(1)] by blast
  then show "joined s' x y" using k assms(2) by (auto simp: joined_def core_def)
qed

lemma pairs_BREAK_PAIR:
  assumes "pairs_ok s"
  shows "pairs_ok (BREAK_PAIR c s)"
proof (rule pairs_less [OF assms])
  fix x y assume a: "m_pConThat (cons (BREAK_PAIR c s) x) = Some y"
  then have x: "x \<noteq> c" "m_pConThat (cons s c) \<noteq> Some x" "m_pConThat (cons s x) = Some y"
    by (auto simp: BREAK_PAIR_cons [OF assms] split: if_splits)
  moreover have "y \<noteq> c" "m_pConThat (cons s c) \<noteq> Some y" using x pairs_other [OF assms] by (metis, metis option.inject)
  ultimately show "m_pConThat (cons s x) = Some y \<and> core (cons (BREAK_PAIR c s) x) = core (cons s x)
      \<and> core (cons (BREAK_PAIR c s) y) = core (cons s y)" by (simp add: BREAK_PAIR_cons [OF assms])
qed simp

text \<open>What reclaiming and dropping leave as it is.\<close>

definition beside :: "dcon \<Rightarrow> _" where
  "beside d = (core d, notices d, stage d, answered d, m_sServiceName d, m_bDestroy d, m_pEvent d)"

lemma drop_fields [simp]:
  "alive (drop_accept c s) = alive s" "g_oCListP2PeerConDmx (drop_accept c s) = g_oCListP2PeerConDmx s" "port (drop_accept c s) = port s"
  "next_ov (drop_accept c s) = next_ov s" "thrown (drop_accept c s) = thrown s"
  "cons (drop_accept c s) x = (if x = c then (cons s c)\<lparr>m_pOVERLAPPEDaccept := None\<rparr> else cons s x)"
  "alive (drop_connect c s) = alive s" "g_oCListP2PeerConDmx (drop_connect c s) = g_oCListP2PeerConDmx s" "port (drop_connect c s) = port s"
  "next_ov (drop_connect c s) = next_ov s" "thrown (drop_connect c s) = thrown s"
  "cons (drop_connect c s) x = (if x = c then (cons s c)\<lparr>m_pOVERLAPPEDconnect := None\<rparr> else cons s x)"
  by (simp_all add: drop_accept_def drop_connect_def)

lemma reclaim_fields [simp]:
  "alive (reclaim c s) = alive s" "g_oCListP2PeerConDmx (reclaim c s) = g_oCListP2PeerConDmx s" "port (reclaim c s) = port s"
  "next_ov (reclaim c s) = next_ov s" "thrown (reclaim c s) = thrown s" "x \<noteq> c \<Longrightarrow> cons (reclaim c s) x = cons s x"
  by (simp_all add: reclaim_def Let_def split: option.split)

lemma reclaim_beside [simp]: "beside (cons (reclaim c s) x) = beside (cons s x)"
  by (simp add: reclaim_def Let_def beside_def core_def split: option.split)

lemma besideD: "beside d = beside e \<Longrightarrow> core d = core e \<and> notices d = notices e \<and> stage d = stage e \<and> answered d = answered e
    \<and> m_bDestroy d = m_bDestroy e \<and> m_pEvent d = m_pEvent e"
  by (simp add: beside_def)

lemma Drop_fields [simp]:
  "alive (Drop h b c s) = alive s" "g_oCListP2PeerConDmx (Drop h b c s) = g_oCListP2PeerConDmx s" "port (Drop h b c s) = port s"
  "next_ov (Drop h b c s) = next_ov s" "thrown (Drop h b c s) = thrown s" "ovs (Drop h b c s) = ovs (reclaim c (BREAK_PAIR c s))"
  by (simp_all add: Drop_def Let_def)

lemma Drop_cons:
  "x \<noteq> c \<Longrightarrow> cons (Drop h b c s) x = cons (BREAK_PAIR c s) x"
  "core (cons (Drop h b c s) x) = core (cons (BREAK_PAIR c s) x)"
  "stage (cons (Drop h b c s) x) = stage (cons (BREAK_PAIR c s) x)"
  "answered (cons (Drop h b c s) x) = answered (cons (BREAK_PAIR c s) x)"
  "m_pOVERLAPPEDaccept (cons (Drop h b c s) x) = m_pOVERLAPPEDaccept (cons (reclaim c (BREAK_PAIR c s)) x)"
  "m_pOVERLAPPEDconnect (cons (Drop h b c s) x) = m_pOVERLAPPEDconnect (cons (reclaim c (BREAK_PAIR c s)) x)"
  "\<exists>ns. set ns \<subseteq> {P2P_Close} \<and> notices (cons (Drop h b c s) x) = notices (cons (BREAK_PAIR c s) x) @ ns"
  using besideD [OF reclaim_beside, of c "BREAK_PAIR c s" x] by (auto simp: Drop_def Let_def core_def)

lemma throws_Drop: "throws c e s = Drop True True c (s\<lparr>thrown := thrown s @ [(c, e)]\<rparr>)"
  by (simp add: throws_def)

lemma pairs_frame [simp]:
  "pairs_ok (s\<lparr>thrown := t\<rparr>) = pairs_ok s" "pairs_ok (s\<lparr>ovs := v\<rparr>) = pairs_ok s" "pairs_ok (s\<lparr>port := p\<rparr>) = pairs_ok s"
  "pairs_ok (s\<lparr>freed_read := b\<rparr>) = pairs_ok s" "pairs_ok (s\<lparr>g_oCListP2PeerConDmx := l\<rparr>) = pairs_ok s"
  by (simp_all add: pairs_ok_def joined_def)

lemma pairs_upd: "pairs_ok s \<Longrightarrow> core (f (cons s c)) = core (cons s c) \<Longrightarrow> pairs_ok (upd c f s)"
  by (rule pairs_same) auto

lemma pairs_simple:
  "pairs_ok s \<Longrightarrow> pairs_ok (note_to c n s)" "pairs_ok s \<Longrightarrow> pairs_ok (drop_accept c s)" "pairs_ok s \<Longrightarrow> pairs_ok (drop_connect c s)"
  "pairs_ok s \<Longrightarrow> pairs_ok (taken c s)" "pairs_ok s \<Longrightarrow> pairs_ok (enqueue c i ok s)" "pairs_ok s \<Longrightarrow> pairs_ok (snd (MakeOVERLAPPED s))"
  by (auto intro!: pairs_same [of s] simp: core_def taken_def MakeOVERLAPPED_def)

lemma pairs_Drop: "pairs_ok s \<Longrightarrow> pairs_ok (Drop h b c s)"
  by (rule pairs_same [OF pairs_BREAK_PAIR]) (simp_all add: Drop_cons)

lemma pairs_throws: "pairs_ok s \<Longrightarrow> pairs_ok (throws c e s)"
  by (simp add: throws_def pairs_Drop)

lemma refuse_core:
  assumes "pairs_ok s"
  shows "core (cons (refuse c s) x) = core (cons (BREAK_PAIR c s) x)"
proof (cases "m_pConThat (cons s c)")
  case (Some p)
  then show ?thesis using pairs_other [OF assms Some] by (simp add: refuse_def BREAK_PAIR_def Let_def core_def split: option.split)
qed (simp add: refuse_def BREAK_PAIR_def Let_def core_def)

lemma refuse_fields [simp]:
  "alive (refuse c s) = alive s" "g_oCListP2PeerConDmx (refuse c s) = g_oCListP2PeerConDmx s" "next_ov (refuse c s) = next_ov s"
  "thrown (refuse c s) = thrown s"
  by (simp_all add: refuse_def Let_def split: option.split)

lemma pairs_refuse: "pairs_ok s \<Longrightarrow> pairs_ok (refuse c s)"
  by (rule pairs_same [OF pairs_BREAK_PAIR]) (simp_all add: refuse_core)

lemma AcceptSpawn_fields [simp]:
  "alive (AcceptSpawn c z s) = insert z (alive s)" "g_oCListP2PeerConDmx (AcceptSpawn c z s) = g_oCListP2PeerConDmx s"
  "next_ov (AcceptSpawn c z s) = next_ov s" "thrown (AcceptSpawn c z s) = thrown s" "port (AcceptSpawn c z s) = port s"
  by (simp_all add: AcceptSpawn_def Factory_def Let_def split: option.split)

lemma AcceptSpawn_cons:
  assumes "pairs_ok s" "z \<notin> alive s" "c \<in> alive s"
  shows "cons (AcceptSpawn c z s) x =
    (if x = z then (dcon_new Accepted [])\<lparr>m_pConThat := m_pConThat (cons s c), m_hFile := m_hFile (cons s c), m_hFileCPort := m_hFileCPort (cons s c)\<rparr>
     else if x = c then (unpaired (cons s c))\<lparr>m_pOVERLAPPEDaccept := None\<rparr>
     else if m_pConThat (cons s c) = Some x then (cons s x)\<lparr>m_pConThat := Some z, m_hFile := Some z, m_hFileCPort := Some z\<rparr>
     else cons s x)"
proof (cases "m_pConThat (cons s c)")
  case (Some p)
  then have "p \<in> alive s" "p \<noteq> c" using pairs_joined [OF assms(1) Some] pairs_other [OF assms(1) Some] by (simp_all add: joined_def)
  then have "p \<noteq> z" "c \<noteq> z" "p \<noteq> c" using assms(2,3) by auto
  then show ?thesis using Some by (simp add: AcceptSpawn_def Factory_def Let_def unpaired_def)
next
  case None
  have "c \<noteq> z" using assms by auto
  then show ?thesis using None by (simp add: AcceptSpawn_def Factory_def Let_def unpaired_def)
qed

lemma pairs_AcceptSpawn:
  assumes "pairs_ok s" "z \<notin> alive s" "c \<in> alive s" "m_eP2PeerConMode (cons s c) = Service"
  shows "pairs_ok (AcceptSpawn c z s)"
  unfolding pairs_ok_def
proof (intro allI impI)
  fix x y assume a: "m_pConThat (cons (AcceptSpawn c z s) x) = Some y"
  note k = AcceptSpawn_cons [OF assms(1-3)]
  have dead: "m_pConThat (cons s v) \<noteq> Some z" for v using pairs_joined [OF assms(1), of v z] assms(2) by (auto simp: joined_def)
  have zdead: "m_pConThat (cons s z) = None" using pairs_joined [OF assms(1), of z] assms(2) by (cases "m_pConThat (cons s z)") (auto simp: joined_def)
  consider "x = z" | "x \<noteq> z" "m_pConThat (cons s c) = Some x" | "x \<noteq> z" "x \<noteq> c" "m_pConThat (cons s c) \<noteq> Some x" using a k by force
  then show "joined (AcceptSpawn c z s) x y"
  proof cases
    case 1
    then have y: "m_pConThat (cons s c) = Some y" using a k by simp
    note j = pairs_joined [OF assms(1) y]
    have "y \<noteq> z" "y \<noteq> c" using y dead pairs_other [OF assms(1) y] by auto
    then show ?thesis using 1 j y assms(4) by (auto simp: joined_def k dcon_new_def)
  next
    case 2
    note j = pairs_joined [OF assms(1) 2(2)]
    have "x \<noteq> c" using pairs_other [OF assms(1) 2(2)] by simp
    then have "y = z" using a 2 k by simp
    then show ?thesis using 2 j \<open>x \<noteq> c\<close> assms(4) by (auto simp: joined_def k dcon_new_def)
  next
    case 3
    then have y: "m_pConThat (cons s x) = Some y" using a k by simp
    note j = pairs_joined [OF assms(1) y] and o = pairs_other [OF assms(1) y]
    have "y \<noteq> z" "y \<noteq> c" "m_pConThat (cons s c) \<noteq> Some y" using y dead o 3 pairs_other [OF assms(1), of c y] by auto
    then show ?thesis using 3 j by (auto simp: joined_def k)
  qed
qed

lemma latch_fields [simp]:
  "alive (latch c y a s) = alive s" "g_oCListP2PeerConDmx (latch c y a s) = g_oCListP2PeerConDmx s" "thrown (latch c y a s) = thrown s"
  by (simp_all add: latch_def Let_def MakeOVERLAPPED_def)

lemma latch_core:
  assumes "c \<noteq> y"
  shows "core (cons (latch c y a s) x) = (if x = c then (m_eP2PeerConMode (cons s c), Some y, Some y, Some y)
    else if x = y then (m_eP2PeerConMode (cons s y), Some c, Some c, Some c) else core (cons s x))"
  using assms by (auto simp: latch_def Let_def MakeOVERLAPPED_def core_def)

lemma core_iff: "core d = (m, p, h, q) \<longleftrightarrow> m_eP2PeerConMode d = m \<and> m_pConThat d = p \<and> m_hFile d = h \<and> m_hFileCPort d = q"
  by (simp add: core_def)

lemma pairs_latch:
  assumes "pairs_ok s" "c \<in> alive s" "y \<in> alive s" "m_eP2PeerConMode (cons s c) = Client" "m_eP2PeerConMode (cons s y) = Service"
    "m_pConThat (cons s c) = None" "m_pConThat (cons s y) = None"
  shows "pairs_ok (latch c y a s)"
  unfolding pairs_ok_def
proof (intro allI impI)
  fix x v assume b: "m_pConThat (cons (latch c y a s) x) = Some v"
  have n: "c \<noteq> y" using assms(4,5) by auto
  have two: "m_pConThat (cons (latch c y a s) c) = Some y" "m_pConThat (cons (latch c y a s) y) = Some c"
    "m_hFile (cons (latch c y a s) c) = Some y" "m_hFile (cons (latch c y a s) y) = Some c"
    "m_hFileCPort (cons (latch c y a s) c) = Some y" "m_hFileCPort (cons (latch c y a s) y) = Some c"
    "m_eP2PeerConMode (cons (latch c y a s) c) = Client" "m_eP2PeerConMode (cons (latch c y a s) y) = Service"
    using latch_core [OF n, of a s c] latch_core [OF n, of a s y] n assms(4,5) by (simp_all add: core_iff)
  have rest: "m_pConThat (cons (latch c y a s) u) = m_pConThat (cons s u)" "m_hFile (cons (latch c y a s) u) = m_hFile (cons s u)"
    "m_hFileCPort (cons (latch c y a s) u) = m_hFileCPort (cons s u)" "m_eP2PeerConMode (cons (latch c y a s) u) = m_eP2PeerConMode (cons s u)"
    if "u \<noteq> c" "u \<noteq> y" for u
    using latch_core [OF n, of a s u] that by (simp_all add: core_def)
  show "joined (latch c y a s) x v"
  proof (cases "x = c \<or> x = y")
    case True
    then have "x = c \<and> v = y \<or> x = y \<and> v = c" using b two by auto
    then show ?thesis using n assms(2,3) two by (elim disjE conjE) (simp_all add: joined_def)
  next
    case False
    then have v: "m_pConThat (cons s x) = Some v" using b by (simp add: rest)
    note j = pairs_joined [OF assms(1) v]
    have "v \<noteq> c" "v \<noteq> y" using j assms(6,7) by (auto simp: joined_def)
    then show ?thesis using j False by (simp add: joined_def rest)
  qed
qed

section \<open>Overlapped objects have one owner, and are in the port when they are queued\<close>

definition owns :: "meeting \<Rightarrow> con \<Rightarrow> ovid \<Rightarrow> bool" where
  "owns s x i \<longleftrightarrow> m_pOVERLAPPEDaccept (cons s x) = Some i \<or> m_pOVERLAPPEDconnect (cons s x) = Some i"

definition ovs_ok :: "meeting \<Rightarrow> bool" where
  "ovs_ok s \<longleftrightarrow> (\<forall>x i. owns s x i \<longrightarrow> x \<in> alive s \<and> i < next_ov s \<and> ovs s i \<noteq> None)
    \<and> (\<forall>x y i. owns s x i \<longrightarrow> owns s y i \<longrightarrow> x = y)
    \<and> (\<forall>x. (m_pOVERLAPPEDaccept (cons s x) \<noteq> None \<longrightarrow> m_eP2PeerConMode (cons s x) = Service)
         \<and> (m_pOVERLAPPEDconnect (cons s x) \<noteq> None \<longrightarrow> m_eP2PeerConMode (cons s x) = Client))
    \<and> (\<forall>x i. (x, i) \<in> set (port s) \<longrightarrow> i < next_ov s \<and> (ovs s i \<noteq> None \<longrightarrow> owns s x i \<and> queued s i))
    \<and> (\<forall>x i. owns s x i \<longrightarrow> queued s i \<longrightarrow> (x, i) \<in> set (port s))
    \<and> distinct (port s)"

lemma ovs_okD:
  assumes "ovs_ok s"
  shows "owns s x i \<Longrightarrow> x \<in> alive s \<and> i < next_ov s \<and> ovs s i \<noteq> None" "owns s x i \<Longrightarrow> owns s y i \<Longrightarrow> x = y"
    "m_pOVERLAPPEDaccept (cons s x) = Some i \<Longrightarrow> m_eP2PeerConMode (cons s x) = Service"
    "m_pOVERLAPPEDconnect (cons s x) = Some i \<Longrightarrow> m_eP2PeerConMode (cons s x) = Client"
    "(x, i) \<in> set (port s) \<Longrightarrow> i < next_ov s \<and> (ovs s i \<noteq> None \<longrightarrow> owns s x i \<and> queued s i)"
    "owns s x i \<Longrightarrow> queued s i \<Longrightarrow> (x, i) \<in> set (port s)" "distinct (port s)"
proof -
  note a = assms [unfolded ovs_ok_def]
  have 1: "\<forall>x i. owns s x i \<longrightarrow> x \<in> alive s \<and> i < next_ov s \<and> ovs s i \<noteq> None" by (rule a [THEN conjunct1])
  have 2: "\<forall>x y i. owns s x i \<longrightarrow> owns s y i \<longrightarrow> x = y" by (rule a [THEN conjunct2, THEN conjunct1])
  have 3: "\<forall>x. (m_pOVERLAPPEDaccept (cons s x) \<noteq> None \<longrightarrow> m_eP2PeerConMode (cons s x) = Service)
         \<and> (m_pOVERLAPPEDconnect (cons s x) \<noteq> None \<longrightarrow> m_eP2PeerConMode (cons s x) = Client)" by (rule a [THEN conjunct2, THEN conjunct2, THEN conjunct1])
  have 4: "\<forall>x i. (x, i) \<in> set (port s) \<longrightarrow> i < next_ov s \<and> (ovs s i \<noteq> None \<longrightarrow> owns s x i \<and> queued s i)" by (rule a [THEN conjunct2, THEN conjunct2, THEN conjunct2, THEN conjunct1])
  have 5: "\<forall>x i. owns s x i \<longrightarrow> queued s i \<longrightarrow> (x, i) \<in> set (port s)" by (rule a [THEN conjunct2, THEN conjunct2, THEN conjunct2, THEN conjunct2, THEN conjunct1])
  show "owns s x i \<Longrightarrow> x \<in> alive s \<and> i < next_ov s \<and> ovs s i \<noteq> None" by (rule 1 [rule_format])
  show "owns s x i \<Longrightarrow> owns s y i \<Longrightarrow> x = y" by (rule 2 [rule_format])
  show "m_pOVERLAPPEDaccept (cons s x) = Some i \<Longrightarrow> m_eP2PeerConMode (cons s x) = Service"
    "m_pOVERLAPPEDconnect (cons s x) = Some i \<Longrightarrow> m_eP2PeerConMode (cons s x) = Client" using 3 [rule_format, of x] by simp_all
  show "(x, i) \<in> set (port s) \<Longrightarrow> i < next_ov s \<and> (ovs s i \<noteq> None \<longrightarrow> owns s x i \<and> queued s i)" using 4 [rule_format, of x i] by simp
  show "owns s x i \<Longrightarrow> queued s i \<Longrightarrow> (x, i) \<in> set (port s)" by (rule 5 [rule_format])
  show "distinct (port s)" by (rule a [THEN conjunct2, THEN conjunct2, THEN conjunct2, THEN conjunct2, THEN conjunct2])
qed

text \<open>Only what a connection owns, its mode and the objects count.\<close>

definition gear :: "dcon \<Rightarrow> con_mode \<times> ovid option \<times> ovid option" where
  "gear d = (m_eP2PeerConMode d, m_pOVERLAPPEDaccept d, m_pOVERLAPPEDconnect d)"

lemma gearD: "gear d = gear e \<Longrightarrow> m_eP2PeerConMode d = m_eP2PeerConMode e \<and> m_pOVERLAPPEDaccept d = m_pOVERLAPPEDaccept e
    \<and> m_pOVERLAPPEDconnect d = m_pOVERLAPPEDconnect e"
  by (simp add: gear_def)

text \<open>Objects may go, with the member that names them.\<close>

lemma ovs_less:
  assumes "ovs_ok s" "alive s \<subseteq> alive s'" "next_ov s' = next_ov s" "port s' = port s"
    and "\<And>x. m_eP2PeerConMode (cons s' x) = m_eP2PeerConMode (cons s x)
      \<or> m_pOVERLAPPEDaccept (cons s' x) = None \<and> m_pOVERLAPPEDconnect (cons s' x) = None"
    and "\<And>x. m_pOVERLAPPEDaccept (cons s' x) \<in> {m_pOVERLAPPEDaccept (cons s x), None}"
    and "\<And>x. m_pOVERLAPPEDconnect (cons s' x) \<in> {m_pOVERLAPPEDconnect (cons s x), None}"
    and "\<And>i. ovs s' i = ovs s i \<or> ovs s' i = None" "\<And>x i. owns s x i \<Longrightarrow> (ovs s' i \<noteq> None) = owns s' x i"
  shows "ovs_ok s'"
proof -
  have less: "owns s' x i \<Longrightarrow> owns s x i" for x i using assms(6) [of x] assms(7) [of x] by (auto simp: owns_def)
  have q: "ovs s' i \<noteq> None \<Longrightarrow> queued s' i = queued s i" for i using assms(8) [of i] by (auto simp: queued_def)
  note d = ovs_okD [OF assms(1)]
  have own: "owns s' x i \<Longrightarrow> ovs s' i \<noteq> None \<and> owns s x i" for x i using less [of x i] assms(9) [of x i] by blast
  show ?thesis unfolding ovs_ok_def
  proof (intro conjI allI impI)
    fix x i assume o: "owns s' x i"
    then show "x \<in> alive s'" "i < next_ov s'" "ovs s' i \<noteq> None" using own [OF o] d(1) assms(2,3) by auto
    show "y = x" if "owns s' y i" for y using own [OF o] own [OF that] d(2) by blast
    show "(x, i) \<in> set (port s')" if "queued s' i" using own [OF o] q that d(6) assms(4) by auto
  next
    fix x assume a: "m_pOVERLAPPEDaccept (cons s' x) \<noteq> None"
    then have "m_pOVERLAPPEDaccept (cons s x) \<noteq> None" using assms(6) [of x] by auto
    then show "m_eP2PeerConMode (cons s' x) = Service" using a d(3) assms(5) [of x] by auto
  next
    fix x assume a: "m_pOVERLAPPEDconnect (cons s' x) \<noteq> None"
    then have "m_pOVERLAPPEDconnect (cons s x) \<noteq> None" using assms(7) [of x] by auto
    then show "m_eP2PeerConMode (cons s' x) = Client" using a d(4) assms(5) [of x] by auto
  next
    fix x i assume p: "(x, i) \<in> set (port s')"
    then have pi: "i < next_ov s \<and> (ovs s i \<noteq> None \<longrightarrow> owns s x i \<and> queued s i)" using d(5) assms(4) by simp
    then show "i < next_ov s'" using assms(3) by simp
    assume n: "ovs s' i \<noteq> None"
    then have "ovs s i \<noteq> None" using assms(8) [of i] by auto
    then have "owns s x i" "queued s i" using pi by auto
    then show "owns s' x i" "queued s' i" using assms(9) n q by auto
  qed (use d(7) assms(4) in simp)
qed

lemma ovs_same:
  assumes "ovs_ok s" "alive s \<subseteq> alive s'" "\<And>x. gear (cons s' x) = gear (cons s x)" "ovs s' = ovs s" "next_ov s' = next_ov s" "port s' = port s"
  shows "ovs_ok s'"
proof -
  have g: "m_eP2PeerConMode (cons s' x) = m_eP2PeerConMode (cons s x)" "m_pOVERLAPPEDaccept (cons s' x) = m_pOVERLAPPEDaccept (cons s x)"
    "m_pOVERLAPPEDconnect (cons s' x) = m_pOVERLAPPEDconnect (cons s x)" for x
    using gearD [OF assms(3), of x] by simp_all
  have "owns s' x i = owns s x i" for x i by (simp add: owns_def g)
  then show ?thesis using ovs_okD(1) [OF assms(1)] by (intro ovs_less [OF assms(1,2,5,6)]) (simp_all add: g assms(4))
qed

lemma ovs_drop_accept: "ovs_ok s \<Longrightarrow> ovs_ok (drop_accept c s)"
proof -
  assume ok: "ovs_ok s"
  note d = ovs_okD [OF ok]
  have "m_pOVERLAPPEDaccept (cons s x) = Some i \<Longrightarrow> m_pOVERLAPPEDconnect (cons s y) \<noteq> Some i" for x y i
    using d(2) [of x i y] d(3) [of x i] d(4) [of y i] by (auto simp: owns_def)
  moreover have "m_pOVERLAPPEDaccept (cons s x) = Some i \<Longrightarrow> m_pOVERLAPPEDaccept (cons s y) = Some i \<Longrightarrow> x = y" for x y i
    using d(2) by (auto simp: owns_def)
  ultimately show ?thesis using d(1)
    by (intro ovs_less [OF ok]) (auto simp: drop_accept_def DropOVERLAPPED_def owns_def split: option.splits)
qed

lemma ovs_drop_connect: "ovs_ok s \<Longrightarrow> ovs_ok (drop_connect c s)"
proof -
  assume ok: "ovs_ok s"
  note d = ovs_okD [OF ok]
  have "m_pOVERLAPPEDaccept (cons s x) = Some i \<Longrightarrow> m_pOVERLAPPEDconnect (cons s y) \<noteq> Some i" for x y i
    using d(2) [of x i y] d(3) [of x i] d(4) [of y i] by (auto simp: owns_def)
  moreover have "m_pOVERLAPPEDconnect (cons s x) = Some i \<Longrightarrow> m_pOVERLAPPEDconnect (cons s y) = Some i \<Longrightarrow> x = y" for x y i
    using d(2) by (auto simp: owns_def)
  ultimately show ?thesis using d(1)
    by (intro ovs_less [OF ok]) (auto simp: drop_connect_def DropOVERLAPPED_def owns_def split: option.splits)
qed

lemma ovs_enqueue:
  assumes "ovs_ok s" "owns s c i" "\<not> queued s i"
  shows "ovs_ok (enqueue c i ok s)"
proof -
  note d = ovs_okD [OF assms(1)]
  have o: "owns (enqueue c i ok s) x j = owns s x j" "queued (enqueue c i ok s) j = (j = i \<or> queued s j)" for x j
    by (auto simp: owns_def queued_def)
  have new: "(x, i) \<notin> set (port s)" for x using d(5) [of x i] d(1) [OF assms(2)] assms(3) by auto
  show ?thesis unfolding ovs_ok_def
  proof (intro conjI allI impI)
    fix x j assume w: "owns (enqueue c i ok s) x j"
    then show "x \<in> alive (enqueue c i ok s)" "j < next_ov (enqueue c i ok s)" "ovs (enqueue c i ok s) j \<noteq> None" using d(1) [of x j] by (simp_all add: o)
    show "y = x" if "owns (enqueue c i ok s) y j" for y using w that d(2) [of x j y] by (simp add: o)
    show "(x, j) \<in> set (port (enqueue c i ok s))" if "queued (enqueue c i ok s) j"
      using w that d(2) [OF assms(2), of x] d(6) [of x j] by (auto simp: o)
  next
    fix x j assume p: "(x, j) \<in> set (port (enqueue c i ok s))"
    then show "j < next_ov (enqueue c i ok s)" using d(5) [of x j] d(1) [OF assms(2)] by auto
    assume n: "ovs (enqueue c i ok s) j \<noteq> None"
    show "owns (enqueue c i ok s) x j" using p n d(5) [of x j] new assms(2) by (auto simp: o split: if_splits)
    show "queued (enqueue c i ok s) j" using p n d(5) [of x j] by (auto simp: o split: if_splits)
  qed (use d(3,4,7) new in auto)
qed

lemma ovs_make:
  assumes "ovs_ok s" "c \<in> alive s" "s' = upd c f (snd (MakeOVERLAPPED s))"
    and "gear (f (cons s c)) = (Service, Some (next_ov s), m_pOVERLAPPEDconnect (cons s c)) \<and> m_eP2PeerConMode (cons s c) = Service \<and> m_pOVERLAPPEDaccept (cons s c) = None
      \<or> gear (f (cons s c)) = (Client, m_pOVERLAPPEDaccept (cons s c), Some (next_ov s)) \<and> m_eP2PeerConMode (cons s c) = Client \<and> m_pOVERLAPPEDconnect (cons s c) = None"
  shows "ovs_ok s'"
proof -
  note d = ovs_okD [OF assms(1)]
  have fields: "cons s' x = (if x = c then f (cons s c) else cons s x)" "alive s' = alive s" "port s' = port s" "next_ov s' = next_ov s + 1"
    "ovs s' = (ovs s)(next_ov s \<mapsto> \<lparr>bQueued = False, hr_ok = True\<rparr>)" for x
    by (simp_all add: assms(3) MakeOVERLAPPED_def)
  have new: "\<not> owns s x (next_ov s)" "(x, next_ov s) \<notin> set (port s)" for x using d(1) [of x "next_ov s"] d(5) [of x "next_ov s"] by auto
  have o: "owns s' x i \<Longrightarrow> x = c \<and> i = next_ov s \<or> owns s x i \<and> i \<noteq> next_ov s" for x i
    using assms(4) new(1) [of x] by (auto simp: owns_def fields gear_def split: if_splits)
  have q: "queued s' i = (i \<noteq> next_ov s \<and> queued s i)" for i by (simp add: queued_def fields)
  show ?thesis unfolding ovs_ok_def
  proof (intro conjI allI impI)
    fix x i assume w: "owns s' x i"
    show "x \<in> alive s'" "i < next_ov s'" "ovs s' i \<noteq> None" using o [OF w] d(1) [of x i] assms(2) by (auto simp: fields)
    show "y = x" if "owns s' y i" for y using o [OF w] o [OF that] d(2) [of x i y] by auto
    show "(x, i) \<in> set (port s')" if "queued s' i" using o [OF w] that d(6) [of x i] by (auto simp: q fields)
  next
    fix x show "m_pOVERLAPPEDaccept (cons s' x) \<noteq> None \<Longrightarrow> m_eP2PeerConMode (cons s' x) = Service"
      "m_pOVERLAPPEDconnect (cons s' x) \<noteq> None \<Longrightarrow> m_eP2PeerConMode (cons s' x) = Client"
      using d(3,4) [of x] assms(4) by (auto simp: fields gear_def split: if_splits)
  next
    fix x i assume "(x, i) \<in> set (port s')"
    then have p: "(x, i) \<in> set (port s)" "i \<noteq> next_ov s" using new by (auto simp: fields)
    note k = d(5) [OF p(1)]
    then show "i < next_ov s'" by (simp add: fields)
    assume "ovs s' i \<noteq> None"
    then have n: "ovs s i \<noteq> None" using p(2) by (simp add: fields)
    then show "queued s' i" using k p(2) by (simp add: q)
    show "owns s' x i" using n k p(2) assms(4) by (auto simp: owns_def fields gear_def)
  qed (use d(7) in \<open>simp add: fields\<close>)
qed

lemma ovs_make_accept:
  "ovs_ok s \<Longrightarrow> c \<in> alive s \<Longrightarrow> m_eP2PeerConMode (cons s c) = Service \<Longrightarrow> m_pOVERLAPPEDaccept (cons s c) = None
    \<Longrightarrow> ovs_ok (case MakeOVERLAPPED s of (i, s') \<Rightarrow> upd c (\<lambda>d. d\<lparr>m_pOVERLAPPEDaccept := Some i\<rparr>) s')"
  by (rule ovs_make [of s c _ "\<lambda>d. d\<lparr>m_pOVERLAPPEDaccept := Some (next_ov s)\<rparr>"]) (simp_all add: MakeOVERLAPPED_def gear_def)

lemma ovs_make_connect:
  "ovs_ok s \<Longrightarrow> c \<in> alive s \<Longrightarrow> m_eP2PeerConMode (cons s c) = Client \<Longrightarrow> m_pOVERLAPPEDconnect (cons s c) = None
    \<Longrightarrow> ovs_ok (case MakeOVERLAPPED s of (i, s') \<Rightarrow> upd c (\<lambda>d. d\<lparr>m_pOVERLAPPEDconnect := Some i\<rparr>) s')"
  by (rule ovs_make [of s c _ "\<lambda>d. d\<lparr>m_pOVERLAPPEDconnect := Some (next_ov s)\<rparr>"]) (simp_all add: MakeOVERLAPPED_def gear_def)

lemma ovs_release:
  assumes "ovs_ok s" "(c, i) \<in> set (port s)" "ovs s i = Some x"
  shows "ovs_ok (s\<lparr>port := remove1 (c, i) (port s), ovs := (ovs s)(i \<mapsto> x\<lparr>bQueued := False\<rparr>)\<rparr>)" (is "ovs_ok ?s")
proof -
  note d = ovs_okD [OF assms(1)]
  have c: "owns s c i" "queued s i" using d(5) [OF assms(2)] assms(3) by auto
  have only: "(y, i) \<in> set (port s) \<Longrightarrow> y = c" for y using d(5) [of y i] d(2) [OF c(1)] assms(3) by auto
  have o: "owns ?s y j = owns s y j" "queued ?s j = (j \<noteq> i \<and> queued s j)" for y j by (auto simp: owns_def queued_def)
  show ?thesis unfolding ovs_ok_def
  proof (intro conjI allI impI)
    fix y j assume w: "owns ?s y j"
    then show "y \<in> alive ?s" "j < next_ov ?s" "ovs ?s j \<noteq> None" using d(1) [of y j] by (simp_all add: o)
    show "z = y" if "owns ?s z j" for z using w that d(2) [of y j z] by (simp add: o)
    show "(y, j) \<in> set (port ?s)" if "queued ?s j" using w that d(6) [of y j] d(7) by (simp add: o)
  next
    fix y j assume "(y, j) \<in> set (port ?s)"
    then have p: "(y, j) \<in> set (port s)" "j \<noteq> i" using only d(7) by (auto simp: set_remove1_eq)
    then show "j < next_ov ?s" using d(5) by simp
    show "owns ?s y j" "queued ?s j" if "ovs ?s j \<noteq> None" using d(5) [OF p(1)] that p(2) by (simp_all add: o)
  qed (use d(3,4,7) in \<open>auto simp: distinct_remove1\<close>)
qed

lemma ovs_gone:
  assumes "ovs_ok s" "ovs s i = None"
  shows "ovs_ok (s\<lparr>port := remove1 (c, i) (port s), freed_read := b\<rparr>)" (is "ovs_ok ?s")
proof -
  note d = ovs_okD [OF assms(1)]
  have o: "owns ?s y j = owns s y j" "queued ?s j = queued s j" for y j by (auto simp: owns_def queued_def)
  show ?thesis unfolding ovs_ok_def
  proof (intro conjI allI impI)
    fix y j assume w: "owns ?s y j"
    then show "y \<in> alive ?s" "j < next_ov ?s" "ovs ?s j \<noteq> None" using d(1) [of y j] by (simp_all add: o)
    show "z = y" if "owns ?s z j" for z using w that d(2) [of y j z] by (simp add: o)
    show "(y, j) \<in> set (port ?s)" if "queued ?s j" using w that d(1,6) [of y j] d(7) assms(2) by (auto simp: o)
  next
    fix y j assume "(y, j) \<in> set (port ?s)"
    then have p: "(y, j) \<in> set (port s)" using d(7) by (auto simp: set_remove1_eq)
    then show "j < next_ov ?s" using d(5) by simp
    show "owns ?s y j" "queued ?s j" if "ovs ?s j \<noteq> None" using d(5) [OF p] that by (simp_all add: o)
  qed (use d(3,4,7) in \<open>auto simp: distinct_remove1\<close>)
qed

lemma ovs_upd: "ovs_ok s \<Longrightarrow> gear (f (cons s c)) = gear (cons s c) \<Longrightarrow> ovs_ok (upd c f s)"
  by (rule ovs_same) auto

lemma ovs_frame [simp]:
  "ovs_ok (s\<lparr>thrown := t\<rparr>) = ovs_ok s" "ovs_ok (s\<lparr>g_oCListP2PeerConDmx := l\<rparr>) = ovs_ok s"
  by (simp_all add: ovs_ok_def owns_def queued_def)

lemma ovs_note_to: "ovs_ok s \<Longrightarrow> ovs_ok (note_to c n s)"
  by (rule ovs_same) (auto simp: gear_def)

lemma ovs_taken: "ovs_ok s \<Longrightarrow> ovs_ok (taken c s)"
  unfolding taken_def by (rule ovs_upd) (auto simp: gear_def)

lemma ovs_unpaired: "ovs_ok s \<Longrightarrow> ovs_ok (upd c unpaired s)"
  by (rule ovs_upd) (auto simp: gear_def)

lemma ovs_BREAK_PAIR: "ovs_ok s \<Longrightarrow> ovs_ok (BREAK_PAIR c s)"
  by (auto simp: BREAK_PAIR_def Let_def gear_def intro!: ovs_upd ovs_unpaired split: option.split)

lemma ovs_reclaim: "ovs_ok s \<Longrightarrow> ovs_ok (reclaim c s)"
  by (auto simp: reclaim_def Let_def intro!: ovs_drop_accept ovs_drop_connect split: option.split)

lemma ovs_Drop: "ovs_ok s \<Longrightarrow> ovs_ok (Drop h b c s)"
  unfolding Drop_def Let_def by (auto intro!: ovs_note_to ovs_upd ovs_reclaim ovs_BREAK_PAIR simp: gear_def)

lemma ovs_throws: "ovs_ok s \<Longrightarrow> ovs_ok (throws c e s)"
  by (simp add: throws_def ovs_Drop)

lemma ovs_Factory: "ovs_ok s \<Longrightarrow> c \<notin> alive s \<Longrightarrow> ovs_ok (Factory c m name s)"
proof -
  assume ok: "ovs_ok s" "c \<notin> alive s"
  then have n: "m_pOVERLAPPEDaccept (cons s c) = None" "m_pOVERLAPPEDconnect (cons s c) = None"
    using ovs_okD(1) [OF ok(1), of c] by (metis owns_def option.exhaust)+
  then have "owns (Factory c m name s) x i = owns s x i" for x i by (auto simp: owns_def Factory_def dcon_new_def)
  then show ?thesis using n ovs_okD(1) [OF ok(1)] by (intro ovs_less [OF ok(1)]) (auto simp: Factory_def dcon_new_def)
qed

lemma ovs_refuse: "ovs_ok s \<Longrightarrow> ovs_ok (refuse c s)"
proof -
  assume ok: "ovs_ok s"
  have one: "ovs_ok (upd p (\<lambda>e. e\<lparr>m_pConThat := None\<rparr>) (upd c unpaired s))" for p
    using ok by (intro ovs_upd ovs_unpaired) (auto simp: gear_def)
  show ?thesis unfolding refuse_def Let_def
    by (auto intro!: ovs_drop_accept ovs_unpaired one ovs_upd ovs_enqueue ok simp: gear_def owns_def split: option.split)
qed

lemma ovs_AcceptSpawn: "ovs_ok s \<Longrightarrow> z \<notin> alive s \<Longrightarrow> ovs_ok (AcceptSpawn c z s)"
  unfolding AcceptSpawn_def Let_def
  by (auto intro!: ovs_upd ovs_unpaired ovs_Factory ovs_drop_accept simp: gear_def split: option.split)

lemma ovs_latch:
  assumes "ovs_ok s" "c \<noteq> y" "c \<in> alive s" "m_eP2PeerConMode (cons s c) = Client" "m_pOVERLAPPEDaccept (cons s y) = Some a" "\<not> queued s a"
  shows "ovs_ok (latch c y a s)"
proof -
  let ?s1 = "upd y (\<lambda>e. e\<lparr>m_pConThat := Some c, m_hFileCPort := Some c, m_hFile := Some c\<rparr>)
                (upd c (\<lambda>d. d\<lparr>m_pConThat := Some y, m_hFileCPort := Some y, m_hFile := Some y, stage := Latched, answered := False\<rparr>) s)"
  have ok: "ovs_ok ?s1" using assms(1) by (intro ovs_upd) (auto simp: gear_def)
  have a: "a < next_ov s" using ovs_okD(1) [OF assms(1), of y a] assms(5) by (simp add: owns_def)
  show ?thesis
  proof (cases "m_pOVERLAPPEDconnect (cons s c)")
    case (Some i)
    then show ?thesis using ok assms(2,5,6)
      by (auto simp: latch_def Let_def owns_def queued_def intro!: ovs_enqueue)
  next
    case None
    then have "ovs_ok (case MakeOVERLAPPED ?s1 of (i, s') \<Rightarrow> upd c (\<lambda>d. d\<lparr>m_pOVERLAPPEDconnect := Some i\<rparr>) s')"
      using assms(2-4) by (intro ovs_make_connect ok) auto
    then show ?thesis using None a assms(2,5,6)
      by (auto simp: latch_def Let_def owns_def queued_def MakeOVERLAPPED_def intro!: ovs_enqueue)
  qed
qed

section \<open>A client that waits will be told\<close>

definition waits :: "meeting \<Rightarrow> con \<Rightarrow> con \<Rightarrow> bool" where
  "waits s x y \<longleftrightarrow> m_eP2PeerConMode (cons s x) = Client \<and> m_pConThat (cons s x) = Some y \<and> \<not> answered (cons s x)"

text \<open>
  Its connect is not posted yet, and the other end is about to see to it: a service has the accept in the port, or its notification
  before it, or is at it; a spawned end has its notification before it.
\<close>

definition seen_to :: "meeting \<Rightarrow> con \<Rightarrow> bool" where
  "seen_to s y \<longleftrightarrow> m_eP2PeerConMode (cons s y) = Service
       \<and> ((\<exists>a. m_pOVERLAPPEDaccept (cons s y) = Some a \<and> queued s a) \<or> P2P_Accept \<in> set (notices (cons s y)) \<or> stage (cons s y) = Deciding)
    \<or> m_eP2PeerConMode (cons s y) = Accepted \<and> P2P_Accept \<in> set (notices (cons s y))"

definition told :: "meeting \<Rightarrow> con \<Rightarrow> con \<Rightarrow> bool" where
  "told s x y \<longleftrightarrow> (\<exists>i. m_pOVERLAPPEDconnect (cons s x) = Some i \<and> \<not> queued s i) \<and> seen_to s y"

definition answers_but :: "con set \<Rightarrow> meeting \<Rightarrow> bool" where
  "answers_but C s \<longleftrightarrow> (\<forall>x y. x \<notin> C \<longrightarrow> y \<notin> C \<longrightarrow> waits s x y \<longrightarrow> told s x y)"

definition spawned_ok :: "meeting \<Rightarrow> bool" where
  "spawned_ok s \<longleftrightarrow> (\<forall>z. m_eP2PeerConMode (cons s z) = Accepted \<longrightarrow> count_list (notices (cons s z)) P2P_Accept \<le> 1)
    \<and> (\<forall>z x. m_pConThat (cons s z) = Some x \<longrightarrow> m_eP2PeerConMode (cons s z) = Service
         \<or> m_eP2PeerConMode (cons s z) = Accepted \<and> P2P_Accept \<in> set (notices (cons s z)) \<longrightarrow> \<not> answered (cons s x))"

lemma answers_butD: "answers_but C s \<Longrightarrow> waits s x y \<Longrightarrow> x \<notin> C \<Longrightarrow> y \<notin> C \<Longrightarrow> told s x y"
  unfolding answers_but_def by blast

lemma answers_more: "answers_but C s \<Longrightarrow> C \<subseteq> D \<Longrightarrow> answers_but D s"
  unfolding answers_but_def by blast

lemma answers_step:
  assumes "answers_but C s"
    "\<And>x y. waits s' x y \<Longrightarrow> x \<notin> C' \<Longrightarrow> y \<notin> C' \<Longrightarrow> told s' x y \<or> x \<notin> C \<and> y \<notin> C \<and> waits s x y \<and> (told s x y \<longrightarrow> told s' x y)"
  shows "answers_but C' s'"
  unfolding answers_but_def using assms answers_butD [OF assms(1)] by meson

text \<open>Changes of one connection that leave what matters.\<close>

lemma answers_upd:
  assumes "answers_but C s" "gear (f (cons s c)) = gear (cons s c)" "m_pConThat (f (cons s c)) \<in> {m_pConThat (cons s c), None}"
    "answered (cons s c) \<longrightarrow> answered (f (cons s c))" "P2P_Accept \<in> set (notices (cons s c)) \<longrightarrow> P2P_Accept \<in> set (notices (f (cons s c)))"
    "stage (cons s c) = Deciding \<longrightarrow> stage (f (cons s c)) = Deciding"
  shows "answers_but C (upd c f s)"
proof (rule answers_step [OF assms(1)])
  fix x y assume w: "waits (upd c f s) x y" "x \<notin> C" "y \<notin> C"
  have q: "queued (upd c f s) i = queued s i" for i by (simp add: queued_def)
  have "waits s x y" using w(1) assms(2-4) by (auto simp: waits_def gear_def split: if_splits)
  moreover have "seen_to s y \<Longrightarrow> seen_to (upd c f s) y" using assms(2,5,6) by (auto simp: seen_to_def q gear_def)
  moreover have "told s x y \<Longrightarrow> told (upd c f s) x y" using calculation(2) assms(2) by (auto simp: told_def q gear_def)
  ultimately show "told (upd c f s) x y \<or> x \<notin> C \<and> y \<notin> C \<and> waits s x y \<and> (told s x y \<longrightarrow> told (upd c f s) x y)"
    using w by blast
qed

lemma answers_frame [simp]:
  "answers_but C (s\<lparr>thrown := t\<rparr>) = answers_but C s" "answers_but C (s\<lparr>g_oCListP2PeerConDmx := l\<rparr>) = answers_but C s"
  "answers_but C (s\<lparr>freed_read := b\<rparr>) = answers_but C s" "answers_but C (s\<lparr>port := p\<rparr>) = answers_but C s"
  "answers_but C (s\<lparr>alive := v\<rparr>) = answers_but C s"
  by (simp_all add: answers_but_def waits_def told_def seen_to_def queued_def)

lemma answers_note_to: "answers_but C s \<Longrightarrow> answers_but C (note_to c n s)"
  unfolding note_to_def by (rule answers_upd) (auto simp: gear_def)

lemma spawned_frame [simp]:
  "spawned_ok (s\<lparr>thrown := t\<rparr>) = spawned_ok s" "spawned_ok (s\<lparr>g_oCListP2PeerConDmx := l\<rparr>) = spawned_ok s"
  "spawned_ok (s\<lparr>freed_read := b\<rparr>) = spawned_ok s" "spawned_ok (s\<lparr>port := p\<rparr>) = spawned_ok s" "spawned_ok (s\<lparr>ovs := v\<rparr>) = spawned_ok s"
  "spawned_ok (s\<lparr>alive := a\<rparr>) = spawned_ok s"
  by (simp_all add: spawned_ok_def)

lemma spawned_less:
  assumes "spawned_ok s" "\<And>z. m_eP2PeerConMode (cons s' z) = m_eP2PeerConMode (cons s z)"
    "\<And>z. m_pConThat (cons s' z) \<in> {m_pConThat (cons s z), None}" "\<And>z. m_pConThat (cons s' z) \<noteq> None \<Longrightarrow> answered (cons s' z) = answered (cons s z)"
    "\<And>z. \<exists>ns. P2P_Accept \<notin> set ns \<and> notices (cons s' z) = notices (cons s z) @ ns" "pairs_ok s'"
  shows "spawned_ok s'"
proof -
  have c: "count_list (notices (cons s' z)) P2P_Accept = count_list (notices (cons s z)) P2P_Accept"
    "(P2P_Accept \<in> set (notices (cons s' z))) = (P2P_Accept \<in> set (notices (cons s z)))" for z
    using assms(5) [of z] by auto
  have "\<not> answered (cons s' x)" if "m_pConThat (cons s' z) = Some x" "m_eP2PeerConMode (cons s z) = Service
         \<or> m_eP2PeerConMode (cons s z) = Accepted \<and> P2P_Accept \<in> set (notices (cons s z))" for z x
  proof -
    have "m_pConThat (cons s' x) \<noteq> None" using pairs_other [OF assms(6) that(1)] by simp
    moreover have "m_pConThat (cons s z) = Some x" using assms(3) [of z] that(1) by auto
    ultimately show ?thesis using assms(1,4) that(2) unfolding spawned_ok_def by blast
  qed
  then show ?thesis using assms(1) unfolding spawned_ok_def assms(2) c by blast
qed

lemma answers_away:
  assumes "answers_but C s" "pairs_ok s'" "m_pConThat (cons s' c) = None" "\<And>x. x \<noteq> c \<Longrightarrow> cons s' x = cons s x"
    "\<And>x i. x \<noteq> c \<Longrightarrow> owns s x i \<Longrightarrow> ovs s' i = ovs s i"
  shows "answers_but (C - {c}) s'"
proof (rule answers_step [OF assms(1)])
  fix x y assume w: "waits s' x y" "x \<notin> C - {c}" "y \<notin> C - {c}"
  have p: "m_pConThat (cons s' x) = Some y" using w(1) by (simp add: waits_def)
  then have n: "x \<noteq> c" "y \<noteq> c" using pairs_other [OF assms(2) p] assms(3) by auto
  have q: "m_pOVERLAPPEDconnect (cons s x) = Some i \<Longrightarrow> queued s' i = queued s i" "m_pOVERLAPPEDaccept (cons s y) = Some i \<Longrightarrow> queued s' i = queued s i" for i
    using assms(5) [of x i] assms(5) [of y i] n by (simp_all add: owns_def queued_def)
  show "told s' x y \<or> x \<notin> C \<and> y \<notin> C \<and> waits s x y \<and> (told s x y \<longrightarrow> told s' x y)"
    using w n q by (auto simp: waits_def told_def seen_to_def assms(4))
qed

lemma answers_BREAK_PAIR:
  assumes "pairs_ok s" "answers_but {c} s"
  shows "answers_but {} (BREAK_PAIR c s)"
proof (rule answers_step [OF assms(2)])
  fix x y assume w: "waits (BREAK_PAIR c s) x y"
  then have a: "m_pConThat (cons (BREAK_PAIR c s) x) = Some y" by (simp add: waits_def)
  then have x: "x \<noteq> c" "m_pConThat (cons s c) \<noteq> Some x" "m_pConThat (cons s x) = Some y"
    by (auto simp: BREAK_PAIR_cons [OF assms(1)] split: if_splits)
  moreover have "y \<noteq> c" "m_pConThat (cons s c) \<noteq> Some y" using x pairs_other [OF assms(1)] by (metis, metis option.inject)
  ultimately have "cons (BREAK_PAIR c s) x = cons s x" "cons (BREAK_PAIR c s) y = cons s y" "x \<noteq> c" "y \<noteq> c"
    by (simp_all add: BREAK_PAIR_cons [OF assms(1)])
  then show "told (BREAK_PAIR c s) x y \<or> x \<notin> {c} \<and> y \<notin> {c} \<and> waits s x y \<and> (told s x y \<longrightarrow> told (BREAK_PAIR c s) x y)"
    using w by (auto simp: waits_def told_def seen_to_def queued_def)
qed

lemma spawned_BREAK_PAIR:
  assumes "pairs_ok s" "spawned_ok s"
  shows "spawned_ok (BREAK_PAIR c s)"
  by (rule spawned_less [OF assms(2) _ _ _ _ pairs_BREAK_PAIR [OF assms(1)]]) (auto simp: BREAK_PAIR_cons [OF assms(1)])

lemma drop_accept_ovs:
  assumes "ovs_ok s" "owns s x i" "x \<noteq> c"
  shows "ovs (drop_accept c s) i = ovs s i" "ovs (drop_connect c s) i = ovs s i"
  using ovs_okD(2) [OF assms(1,2)] assms(3)
  by (auto simp: drop_accept_def drop_connect_def DropOVERLAPPED_def owns_def split: option.splits)

lemma reclaim_ovs:
  assumes "ovs_ok s" "owns s x i" "x \<noteq> c"
  shows "ovs (reclaim c s) i = ovs s i"
proof -
  have "owns (drop_accept c s) x i" using assms(2,3) by (simp add: owns_def)
  then have "ovs (drop_connect c (drop_accept c s)) i = ovs s i"
    using drop_accept_ovs(1) [OF assms] drop_accept_ovs(2) [OF ovs_drop_accept [OF assms(1)] _ assms(3)] by simp
  then show ?thesis using drop_accept_ovs [OF assms] by (simp add: reclaim_def Let_def split: option.split)
qed

lemma reclaim_peer [simp]: "m_pConThat (cons (reclaim c s) x) = m_pConThat (cons s x)" "answered (cons (reclaim c s) x) = answered (cons s x)"
  "m_eP2PeerConMode (cons (reclaim c s) x) = m_eP2PeerConMode (cons s x)" "notices (cons (reclaim c s) x) = notices (cons s x)"
  "stage (cons (reclaim c s) x) = stage (cons s x)"
  using reclaim_beside [of c s x] by (simp_all add: beside_def core_def)

lemma BREAK_PAIR_self [simp]: "m_pConThat (cons (BREAK_PAIR c s) c) = None"
  by (simp add: BREAK_PAIR_def Let_def split: option.split)

definition meeting_but :: "con set \<Rightarrow> meeting \<Rightarrow> bool" where
  "meeting_but C s \<longleftrightarrow> pairs_ok s \<and> list_ok s \<and> ovs_ok s \<and> answers_but C s \<and> spawned_ok s \<and> (\<forall>c. (c, BufferLocked) \<notin> set (thrown s))"

lemma list_change:
  assumes "list_ok s" "alive s \<subseteq> alive s'" "g_oCListP2PeerConDmx s' = g_oCListP2PeerConDmx s"
    "\<And>x. m_eP2PeerConMode (cons s' x) = m_eP2PeerConMode (cons s x)" "\<And>x. stage_ok (cons s x) \<Longrightarrow> stage_ok (cons s' x)"
  shows "list_ok s'"
  using assms unfolding list_ok_def by auto

lemma list_same:
  assumes "list_ok s" "alive s \<subseteq> alive s'" "g_oCListP2PeerConDmx s' = g_oCListP2PeerConDmx s"
    "\<And>x. m_eP2PeerConMode (cons s' x) = m_eP2PeerConMode (cons s x)" "\<And>x. stage (cons s' x) \<in> {stage (cons s x), Idle}"
    "\<And>x. m_pConThat (cons s' x) \<in> {m_pConThat (cons s x), None}" "\<And>x. m_pOVERLAPPEDconnect (cons s' x) \<in> {m_pOVERLAPPEDconnect (cons s x), None}"
  shows "list_ok s'"
proof (rule list_change [OF assms(1-4)])
  fix x show "stage_ok (cons s x) \<Longrightarrow> stage_ok (cons s' x)"
    using assms(4) [of x] assms(5) [of x] assms(6) [of x] assms(7) [of x] by (auto simp: stage_ok_def)
qed

lemma list_stage: "list_ok s \<Longrightarrow> stage_ok (cons s x)"
  by (simp add: list_ok_def)

lemma list_frame [simp]: "list_ok (s\<lparr>thrown := t\<rparr>) = list_ok s" "list_ok (s\<lparr>freed_read := b\<rparr>) = list_ok s" "list_ok (s\<lparr>port := p\<rparr>) = list_ok s"
  "list_ok (s\<lparr>ovs := v\<rparr>) = list_ok s"
  by (simp_all add: list_ok_def)

lemma connect_less: "m_pOVERLAPPEDconnect (cons (reclaim c s) x) \<in> {m_pOVERLAPPEDconnect (cons s x), None}"
  by (cases "x = c") (simp_all add: reclaim_def Let_def split: option.split)

lemma BREAK_PAIR_rest [simp]:
  "m_eP2PeerConMode (cons (BREAK_PAIR c s) x) = m_eP2PeerConMode (cons s x)" "stage (cons (BREAK_PAIR c s) x) = stage (cons s x)"
  "m_pOVERLAPPEDconnect (cons (BREAK_PAIR c s) x) = m_pOVERLAPPEDconnect (cons s x)" "notices (cons (BREAK_PAIR c s) x) = notices (cons s x)"
  "m_pOVERLAPPEDaccept (cons (BREAK_PAIR c s) x) = m_pOVERLAPPEDaccept (cons s x)" "answered (cons (BREAK_PAIR c s) x) = answered (cons s x)"
  "m_pConThat (cons (BREAK_PAIR c s) x) = m_pConThat (cons s x) \<or> m_pConThat (cons (BREAK_PAIR c s) x) = None"
  by (auto simp: BREAK_PAIR_def Let_def split: option.split)

lemma meeting_butD:
  "meeting_but C s \<Longrightarrow> pairs_ok s" "meeting_but C s \<Longrightarrow> list_ok s" "meeting_but C s \<Longrightarrow> ovs_ok s" "meeting_but C s \<Longrightarrow> answers_but C s"
  "meeting_but C s \<Longrightarrow> spawned_ok s" "meeting_but C s \<Longrightarrow> (c, BufferLocked) \<notin> set (thrown s)"
  by (simp_all add: meeting_but_def)

lemma meeting_upd:
  assumes "meeting_but C s" "core (f (cons s c)) = core (cons s c)" "gear (f (cons s c)) = gear (cons s c)"
    "answered (f (cons s c)) = answered (cons s c)" "stage (f (cons s c)) = stage (cons s c) \<or> stage (f (cons s c)) = Idle \<and> stage (cons s c) \<noteq> Deciding"
    "\<exists>ns. P2P_Accept \<notin> set ns \<and> notices (f (cons s c)) = notices (cons s c) @ ns"
  shows "meeting_but C (upd c f s)"
proof -
  note s = meeting_butD [OF assms(1)]
  have p: "pairs_ok (upd c f s)" by (rule pairs_upd [of _ f c, OF s(1) assms(2)])
  have "list_ok (upd c f s)" using s(2) by (rule list_same) (use assms(2,3,5) in \<open>auto simp: core_def gear_def\<close>)
  moreover have "ovs_ok (upd c f s)" by (rule ovs_upd [of _ f c, OF s(3) assms(3)])
  moreover have "answers_but C (upd c f s)" using s(4) assms(3) by (rule answers_upd) (use assms(2,4-6) in \<open>auto simp: core_def\<close>)
  moreover have "spawned_ok (upd c f s)"
    using s(5) by (rule spawned_less [OF _ _ _ _ _ p]) (use assms(2,4,6) in \<open>auto simp: core_def\<close>)
  ultimately show ?thesis using p s(6) by (simp add: meeting_but_def)
qed

lemma meeting_Drop:
  assumes "meeting_but {c} s"
  shows "meeting_but {} (Drop h b c s)"
proof -
  note s = meeting_butD [OF assms]
  let ?b = "BREAK_PAIR c s" and ?r = "reclaim c (BREAK_PAIR c s)"
  have p: "pairs_ok ?r" by (rule pairs_same [OF pairs_BREAK_PAIR [OF s(1)]]) (use besideD [OF reclaim_beside] in \<open>simp_all\<close>)
  have "m_pOVERLAPPEDconnect (cons ?r x) \<in> {m_pOVERLAPPEDconnect (cons s x), None}" for x using connect_less [of c ?b x] by simp
  then have l: "list_ok ?r" by (intro list_same [OF s(2)]) simp_all
  have a: "answers_but {} ?r"
    using answers_away [OF answers_BREAK_PAIR [OF s(1,4)] p, of c] reclaim_ovs [OF ovs_BREAK_PAIR [OF s(3)]] by simp
  have w: "spawned_ok ?r" by (rule spawned_less [OF spawned_BREAK_PAIR [OF s(1,5), of c] _ _ _ _ p]) simp_all
  have r: "meeting_but {} ?r"
    using s(6) p l a w ovs_reclaim [OF ovs_BREAK_PAIR [OF s(3)], of c c] by (simp add: meeting_but_def)
  have e: "meeting_but {} (upd c (\<lambda>d. d\<lparr>m_pEvent := b\<rparr>) ?r)" by (rule meeting_upd [OF r]) (simp_all add: core_def gear_def)
  have "meeting_but {} (note_to c P2P_Close (upd c (\<lambda>d. d\<lparr>m_pEvent := b\<rparr>) ?r))"
    unfolding note_to_def by (rule meeting_upd [OF e]) (simp_all add: core_def gear_def)
  then show ?thesis using r e by (simp add: Drop_def Let_def)
qed

section \<open>Every event keeps it\<close>

lemma meeting_more: "meeting_but C s \<Longrightarrow> C \<subseteq> D \<Longrightarrow> meeting_but D s"
  by (auto simp: meeting_but_def intro: answers_more)

lemma meeting_frame [simp]: "meeting_but C (s\<lparr>freed_read := b\<rparr>) = meeting_but C s" if "\<And>b. ovs_ok (s\<lparr>freed_read := b\<rparr>) = ovs_ok s"
  using that by (simp add: meeting_but_def)

lemma meeting_throws: "meeting_but {c} s \<Longrightarrow> e \<noteq> BufferLocked \<Longrightarrow> meeting_but {} (throws c e s)"
  unfolding throws_def by (rule meeting_Drop) (simp add: meeting_but_def)

lemma meeting_note:
  assumes "meeting_but C s" "n \<noteq> P2P_Accept \<or> m_eP2PeerConMode (cons s c) = Service"
  shows "meeting_but C (note_to c n s)"
proof -
  note s = meeting_butD [OF assms(1)]
  have "list_ok (note_to c n s)" by (rule list_same [OF s(2)]) simp_all
  moreover have "spawned_ok (note_to c n s)" using s(5) assms(2) unfolding spawned_ok_def by auto
  ultimately show ?thesis using s by (simp add: meeting_but_def pairs_simple ovs_note_to answers_note_to)
qed

lemma meeting_Factory:
  assumes "meeting_but {} s" "c \<notin> alive s"
  shows "meeting_but {} (Factory c m name s)"
proof -
  note s = meeting_butD [OF assms(1)]
  have f: "cons (Factory c m name s) = (cons s)(c := dcon_new m name)" "alive (Factory c m name s) = insert c (alive s)"
    "g_oCListP2PeerConDmx (Factory c m name s) = g_oCListP2PeerConDmx s" "ovs (Factory c m name s) = ovs s" by (simp_all add: Factory_def)
  have n: "x \<noteq> c \<and> y \<noteq> c" if "m_pConThat (cons s x) = Some y" for x y using pairs_joined [OF s(1) that] assms(2) by (auto simp: joined_def)
  have new: "m_pConThat (dcon_new m name) = None" "stage (dcon_new m name) = Idle" "m_eP2PeerConMode (dcon_new m name) = m" "stage_ok (dcon_new m name)"
    by (simp_all add: dcon_new_def stage_ok_def)
  have p: "pairs_ok (Factory c m name s)" by (rule pairs_less [OF s(1)]) (auto simp: f new dest: n split: if_splits)
  have "answers_but ({} - {c}) (Factory c m name s)" by (rule answers_away [OF s(4) p]) (simp_all add: f new)
  moreover have "list_ok (Factory c m name s)" using s(2) assms(2) by (auto simp: list_ok_def f new)
  moreover have "spawned_ok (Factory c m name s)" using s(5) n unfolding spawned_ok_def by (auto simp: f dcon_new_def)
  ultimately show ?thesis using p s(6) ovs_Factory [OF s(3) assms(2), of m name] by (simp add: meeting_but_def) (simp add: Factory_def)
qed

lemma meeting_make:
  assumes "meeting_but C s" "ovs_ok s'" "cons s' = (cons s)(c := d)" "core d = core (cons s c)" "notices d = notices (cons s c)"
    "stage d = stage (cons s c)" "answered d = answered (cons s c)" "alive s' = alive s" "g_oCListP2PeerConDmx s' = g_oCListP2PeerConDmx s" "thrown s' = thrown s"
    and "\<And>i. i < next_ov s \<Longrightarrow> ovs s' i = ovs s i" "stage d = Dialling \<Longrightarrow> m_pOVERLAPPEDconnect d = None"
    and "\<And>a. m_pOVERLAPPEDaccept (cons s c) = Some a \<Longrightarrow> m_pOVERLAPPEDaccept d = Some a"
    and "\<And>a. m_pOVERLAPPEDconnect (cons s c) = Some a \<Longrightarrow> m_pOVERLAPPEDconnect d = Some a"
  shows "meeting_but C s'"
proof -
  note s = meeting_butD [OF assms(1)]
  have p: "pairs_ok s'" by (rule pairs_same [OF s(1)]) (auto simp: assms(3,4,8))
  have q: "queued s' i = queued s i" if "owns s x i" for x i using ovs_okD(1) [OF s(3) that] assms(11) by (simp add: queued_def)
  have "answers_but C s'"
  proof (rule answers_step [OF s(4)])
    fix x y assume w: "waits s' x y" "x \<notin> C" "y \<notin> C"
    have c: "m_eP2PeerConMode (cons s' z) = m_eP2PeerConMode (cons s z)" "m_pConThat (cons s' z) = m_pConThat (cons s z)"
      "notices (cons s' z) = notices (cons s z)" "stage (cons s' z) = stage (cons s z)" "answered (cons s' z) = answered (cons s z)" for z
      using assms(4-7) by (simp_all add: assms(3) core_def)
    have o: "m_pOVERLAPPEDaccept (cons s z) = Some a \<Longrightarrow> m_pOVERLAPPEDaccept (cons s' z) = Some a \<and> queued s' a = queued s a"
      "m_pOVERLAPPEDconnect (cons s z) = Some a \<Longrightarrow> m_pOVERLAPPEDconnect (cons s' z) = Some a \<and> queued s' a = queued s a" for z a
      using assms(13,14) q [of z a] by (auto simp: assms(3) owns_def)
    show "told s' x y \<or> x \<notin> C \<and> y \<notin> C \<and> waits s x y \<and> (told s x y \<longrightarrow> told s' x y)"
      using w o [of y] o [of x] by (auto simp: waits_def told_def seen_to_def c)
  qed
  moreover have "list_ok s'" by (rule list_change [OF s(2)]) (use assms(4,6,12) in \<open>auto simp: assms(3,8,9) core_def stage_ok_def\<close>)
  moreover have "spawned_ok s'" by (rule spawned_less [OF s(5) _ _ _ _ p]) (use assms(4,5,7) in \<open>auto simp: assms(3) core_def\<close>)
  ultimately show ?thesis using p s(6) assms(2) by (simp add: meeting_but_def assms(10))
qed

lemma meeting_Accept:
  assumes "meeting_but {} s" "c \<in> alive s" "m_eP2PeerConMode (cons s c) = Service"
  shows "meeting_but {} (Accept c s)"
proof (cases "m_pConThat (cons s c) \<noteq> None \<or> m_pOVERLAPPEDaccept (cons s c) \<noteq> None")
  case True
  then show ?thesis using meeting_throws [OF meeting_more [OF assms(1)]] by (simp add: Accept_def)
next
  case False
  note s = meeting_butD [OF assms(1)]
  let ?d = "(cons s c)\<lparr>m_pOVERLAPPEDaccept := Some (next_ov s)\<rparr>"
  have "stage (cons s c) \<noteq> Dialling" using list_stage [OF s(2), of c] assms(3) by (auto simp: stage_ok_def)
  moreover have "ovs_ok (case MakeOVERLAPPED s of (i, s') \<Rightarrow> upd c (\<lambda>d. d\<lparr>m_pOVERLAPPEDaccept := Some i\<rparr>) s')"
    using False by (intro ovs_make_accept s(3) assms(2,3)) simp
  ultimately have "meeting_but {} (case MakeOVERLAPPED s of (i, s') \<Rightarrow> upd c (\<lambda>d. d\<lparr>m_pOVERLAPPEDaccept := Some i\<rparr>) s')"
    using False by (intro meeting_make [OF assms(1), where d = ?d and c = c]) (auto simp: MakeOVERLAPPED_def upd_def core_def)
  then show ?thesis using False by (simp add: Accept_def)
qed

lemma meeting_local:
  assumes "meeting_but C s" "core (f (cons s c)) = core (cons s c)" "gear (f (cons s c)) = gear (cons s c)" "answered (f (cons s c)) = answered (cons s c)"
    "stage_ok (cons s c) \<Longrightarrow> stage_ok (f (cons s c))"
    "m_pConThat (cons s c) \<noteq> None \<Longrightarrow> seen_to s c \<Longrightarrow> seen_to (upd c f s) c"
    "m_eP2PeerConMode (cons s c) = Accepted \<Longrightarrow> count_list (notices (f (cons s c))) P2P_Accept \<le> count_list (notices (cons s c)) P2P_Accept
      \<and> (P2P_Accept \<in> set (notices (f (cons s c))) \<longrightarrow> P2P_Accept \<in> set (notices (cons s c)))"
  shows "meeting_but C (upd c f s)"
proof -
  note s = meeting_butD [OF assms(1)]
  have same: "m_eP2PeerConMode (cons (upd c f s) x) = m_eP2PeerConMode (cons s x)" "m_pConThat (cons (upd c f s) x) = m_pConThat (cons s x)"
    "m_pOVERLAPPEDaccept (cons (upd c f s) x) = m_pOVERLAPPEDaccept (cons s x)" "answered (cons (upd c f s) x) = answered (cons s x)"
    "m_pOVERLAPPEDconnect (cons (upd c f s) x) = m_pOVERLAPPEDconnect (cons s x)" "queued (upd c f s) i = queued s i" for x i
    using assms(2-4) by (auto simp: core_def gear_def queued_def)
  have other: "x \<noteq> c \<Longrightarrow> notices (cons (upd c f s) x) = notices (cons s x) \<and> stage (cons (upd c f s) x) = stage (cons s x)" for x by simp
  have p: "pairs_ok (upd c f s)" by (rule pairs_upd [of _ f c, OF s(1) assms(2)])
  have "answers_but C (upd c f s)"
  proof (rule answers_step [OF s(4)])
    fix x y assume w: "waits (upd c f s) x y" "x \<notin> C" "y \<notin> C"
    then have "waits s x y" by (simp add: waits_def same del: upd_fields)
    moreover from this have "m_pConThat (cons s y) \<noteq> None" using pairs_other [OF s(1), of x y] by (simp add: waits_def)
    moreover have "y \<noteq> c \<Longrightarrow> seen_to s y \<Longrightarrow> seen_to (upd c f s) y" using other [of y] by (simp add: seen_to_def same del: upd_fields)
    ultimately show "told (upd c f s) x y \<or> x \<notin> C \<and> y \<notin> C \<and> waits s x y \<and> (told s x y \<longrightarrow> told (upd c f s) x y)"
      using w assms(6) by (cases "y = c") (auto simp: told_def same simp del: upd_fields)
  qed
  moreover have "list_ok (upd c f s)"
  proof (rule list_change [OF s(2)])
    fix x show "stage_ok (cons s x) \<Longrightarrow> stage_ok (cons (upd c f s) x)" using assms(5) by (cases "x = c") simp_all
  qed (simp_all add: same del: upd_fields(1))
  moreover have "spawned_ok (upd c f s)" unfolding spawned_ok_def same using s(5) assms(7) unfolding spawned_ok_def
    by (simp, metis le_trans)
  ultimately show ?thesis using p s(6) ovs_upd [of s f c, OF s(3) assms(3)] by (simp add: meeting_but_def)
qed

lemma meeting_away:
  assumes "meeting_but C s" "ovs_ok s'" "m_pConThat (cons s c) = None" "m_pConThat (cons s' c) = None" "\<And>x. x \<noteq> c \<Longrightarrow> cons s' x = cons s x"
    "\<And>x i. x \<noteq> c \<Longrightarrow> owns s x i \<Longrightarrow> ovs s' i = ovs s i" "m_eP2PeerConMode (cons s' c) = m_eP2PeerConMode (cons s c)"
    "notices (cons s' c) = notices (cons s c)" "stage (cons s' c) = stage (cons s c)" "stage (cons s c) = Dialling \<Longrightarrow> m_pOVERLAPPEDconnect (cons s' c) = None"
    "alive s' = alive s" "g_oCListP2PeerConDmx s' = g_oCListP2PeerConDmx s" "thrown s' = thrown s"
  shows "meeting_but (C - {c}) s'"
proof -
  note s = meeting_butD [OF assms(1)]
  have n: "x \<noteq> c \<and> y \<noteq> c" if "m_pConThat (cons s' x) = Some y" for x y
  proof -
    have "x \<noteq> c" using that assms(4) by auto
    then have x: "m_pConThat (cons s x) = Some y" using that assms(5) by simp
    then show ?thesis using pairs_other [OF s(1) x] assms(3) \<open>x \<noteq> c\<close> by auto
  qed
  have p: "pairs_ok s'"
  proof (rule pairs_less [OF s(1)])
    fix x y assume a: "m_pConThat (cons s' x) = Some y"
    show "m_pConThat (cons s x) = Some y \<and> core (cons s' x) = core (cons s x) \<and> core (cons s' y) = core (cons s y)"
      using n [OF a] a assms(5) by simp
  qed (simp add: assms(11))
  have same: "m_eP2PeerConMode (cons s' x) = m_eP2PeerConMode (cons s x)" "m_pConThat (cons s' x) = m_pConThat (cons s x)"
    "notices (cons s' x) = notices (cons s x)" "stage (cons s' x) = stage (cons s x)" for x
    using assms(3,4,7-9) assms(5) [of x] by (cases "x = c"; simp)+
  have "list_ok s'"
  proof (rule list_change [OF s(2)])
    fix x show "stage_ok (cons s x) \<Longrightarrow> stage_ok (cons s' x)"
      using assms(4,7,9,10) assms(5) [of x] by (cases "x = c") (auto simp: stage_ok_def)
  qed (simp_all add: assms(11,12) same)
  moreover have "spawned_ok s'"
  proof (rule spawned_less [OF s(5) _ _ _ _ p])
    fix z assume "m_pConThat (cons s' z) \<noteq> None"
    then have "z \<noteq> c" using assms(4) by auto
    then show "answered (cons s' z) = answered (cons s z)" using assms(5) by simp
  qed (simp_all add: same)
  ultimately show ?thesis using p answers_away [OF s(4) p assms(4-6)] s(6) assms(2,13) by (simp add: meeting_but_def)
qed

lemma meeting_fill:
  "meeting_but {c} s \<Longrightarrow> (\<And>x y. x = c \<or> y = c \<Longrightarrow> waits s x y \<Longrightarrow> told s x y) \<Longrightarrow> meeting_but {} s"
  unfolding meeting_but_def answers_but_def by blast

lemma no_wait: "pairs_ok s \<Longrightarrow> m_pConThat (cons s c) = None \<Longrightarrow> x = c \<or> y = c \<Longrightarrow> \<not> waits s x y"
  using pairs_other [of s x y] by (auto simp: waits_def)

lemma meeting_taken:
  assumes "meeting_but C s" "next_notice n c s" "n \<noteq> P2P_Accept"
  shows "meeting_but C (taken c s)"
proof -
  obtain ns where n: "notices (cons s c) = n # ns" using assms(2) by (auto simp: next_notice_def split: list.splits)
  note s = meeting_butD [OF assms(1)]
  have q: "queued (upd c g s) i = queued s i" for g i by (simp add: queued_def)
  show ?thesis unfolding taken_def
    by (rule meeting_local [OF assms(1)]) (use n assms(3) s(2) in \<open>auto simp: core_def gear_def seen_to_def q stage_ok_def\<close>)
qed

lemma meeting_looks:
  assumes "meeting_but {} s" "m_eP2PeerConMode (cons s c) = Service"
  shows "meeting_but {} (OnAccept_looks c (taken c s))"
proof -
  have "OnAccept_looks c (taken c s) = upd c (\<lambda>d. d\<lparr>notices := tl (notices d), stage := if m_pConThat d = None then Rearming else Deciding\<rparr>) s"
    by (simp add: OnAccept_looks_def taken_def upd_def)
  moreover have "meeting_but {} (upd c (\<lambda>d. d\<lparr>notices := tl (notices d), stage := if m_pConThat d = None then Rearming else Deciding\<rparr>) s)"
    by (rule meeting_local [OF assms(1)]) (use assms(2) in \<open>auto simp: core_def gear_def seen_to_def stage_ok_def split: if_splits\<close>)
  ultimately show ?thesis by simp
qed

lemma meeting_BREAK_PAIR: "meeting_but {c} s \<Longrightarrow> meeting_but {} (BREAK_PAIR c s)"
proof -
  assume m: "meeting_but {c} s"
  note s = meeting_butD [OF m]
  have "list_ok (BREAK_PAIR c s)" by (rule list_same [OF s(2)]) simp_all
  then show ?thesis using s(6) pairs_BREAK_PAIR [OF s(1)] ovs_BREAK_PAIR [OF s(3)] answers_BREAK_PAIR [OF s(1,4)] spawned_BREAK_PAIR [OF s(1,5)]
    by (simp add: meeting_but_def)
qed

lemma refuse_eq:
  assumes "pairs_ok s"
  shows "refuse c s = drop_accept c (case m_pConThat (cons s c) of None \<Rightarrow> BREAK_PAIR c s
    | Some p \<Rightarrow> (case m_pOVERLAPPEDconnect (cons (BREAK_PAIR c s) p) of
        Some i \<Rightarrow> if \<not> queued (BREAK_PAIR c s) i \<and> \<not> m_bDestroy (cons (BREAK_PAIR c s) p)
          then upd p (\<lambda>e. e\<lparr>answered := True\<rparr>) (enqueue p i False (BREAK_PAIR c s)) else BREAK_PAIR c s
      | None \<Rightarrow> BREAK_PAIR c s))"
proof (cases "m_pConThat (cons s c)")
  case (Some p)
  then have "BREAK_PAIR c s = upd p (\<lambda>e. e\<lparr>m_pConThat := None\<rparr>) (upd c unpaired s)"
    using pairs_other [OF assms Some] by (simp add: BREAK_PAIR_def Let_def)
  then show ?thesis using Some pairs_other [OF assms Some] by (cases "m_pOVERLAPPEDconnect (cons s p)") (simp_all add: refuse_def Let_def)
qed (simp add: refuse_def BREAK_PAIR_def Let_def)

lemma meeting_drop_accept:
  assumes "meeting_but {} s" "m_pConThat (cons s c) = None"
  shows "meeting_but {} (drop_accept c s)"
proof -
  note s = meeting_butD [OF assms(1)]
  have "meeting_but ({} - {c}) (drop_accept c s)"
    by (rule meeting_away [OF assms(1) ovs_drop_accept [OF s(3)] assms(2)])
      (use assms(2) drop_accept_ovs [OF s(3)] list_stage [OF s(2), of c] in \<open>simp_all add: stage_ok_def\<close>)
  then show ?thesis by simp
qed

lemma meeting_drop_connect:
  assumes "meeting_but {} s" "m_pConThat (cons s c) = None"
  shows "meeting_but {} (drop_connect c s)"
proof -
  note s = meeting_butD [OF assms(1)]
  have "meeting_but ({} - {c}) (drop_connect c s)"
    by (rule meeting_away [OF assms(1) ovs_drop_connect [OF s(3)] assms(2)]) (use assms(2) drop_accept_ovs [OF s(3)] in simp_all)
  then show ?thesis by simp
qed

lemma meeting_post_refusal:
  assumes "meeting_but {} s" "m_pConThat (cons s p) = None" "m_pOVERLAPPEDconnect (cons s p) = Some i" "\<not> queued s i"
  shows "meeting_but {} (upd p (\<lambda>e. e\<lparr>answered := True\<rparr>) (enqueue p i ok s))"
proof -
  note s = meeting_butD [OF assms(1)]
  have o: "owns s p i" using assms(3) by (simp add: owns_def)
  have g: "ovs_ok (upd p (\<lambda>e. e\<lparr>answered := True\<rparr>) (enqueue p i ok s))"
    by (rule ovs_upd [OF ovs_enqueue [OF s(3) o assms(4)]]) (simp add: gear_def)
  have "meeting_but ({} - {p}) (upd p (\<lambda>e. e\<lparr>answered := True\<rparr>) (enqueue p i ok s))"
  proof (rule meeting_away [OF assms(1) g assms(2)])
    fix x j assume "x \<noteq> p" "owns s x j"
    then show "ovs (upd p (\<lambda>e. e\<lparr>answered := True\<rparr>) (enqueue p i ok s)) j = ovs s j" using ovs_okD(2) [OF s(3) o, of x] by auto
  qed (use assms(2,3) list_stage [OF s(2), of p] in \<open>simp_all add: stage_ok_def\<close>)
  then show ?thesis by simp
qed

lemma BREAK_PAIR_both: "pairs_ok s \<Longrightarrow> m_pConThat (cons s c) = Some p \<Longrightarrow> m_pConThat (cons (BREAK_PAIR c s) p) = None"
  by (simp add: BREAK_PAIR_cons)

lemma meeting_refuse:
  assumes "meeting_but {} s"
  shows "meeting_but {} (refuse c s)"
proof -
  note s = meeting_butD [OF assms]
  have b: "meeting_but {} (BREAK_PAIR c s)" by (rule meeting_BREAK_PAIR [OF meeting_more [OF assms]]) simp
  have k: "m_pConThat (cons (upd p (\<lambda>e. e\<lparr>answered := True\<rparr>) (enqueue p i False (BREAK_PAIR c s))) c) = None" for p i by simp
  show ?thesis unfolding refuse_eq [OF s(1)]
    by (rule meeting_drop_accept)
      (use b k BREAK_PAIR_both [OF s(1)] in \<open>auto intro: meeting_post_refusal simp del: upd_fields BREAK_PAIR_rest split: option.split\<close>)
qed

lemma meeting_rearming:
  assumes "meeting_but {} s" "m_eP2PeerConMode (cons s c) = Service" "m_pConThat (cons s c) = None"
  shows "meeting_but {} (upd c (\<lambda>d. d\<lparr>stage := Rearming\<rparr>) s)"
  by (rule meeting_local [OF assms(1)]) (use assms(2,3) in \<open>simp_all add: core_def gear_def stage_ok_def\<close>)

text \<open>The client goes over to the spawned end, which is then told to see to it.\<close>

lemma meeting_spawn:
  assumes "meeting_but {} s" "z \<notin> alive s" "c \<in> alive s" "m_eP2PeerConMode (cons s c) = Service" "m_pConThat (cons s c) = Some p"
  shows "meeting_but {} (note_to z P2P_Accept (AcceptSpawn c z s))"
proof -
  note s = meeting_butD [OF assms(1)]
  define t where "t = note_to z P2P_Accept (AcceptSpawn c z s)"
  note j = pairs_joined [OF s(1) assms(5)] and k = AcceptSpawn_cons [OF s(1) assms(2,3)]
  have n: "p \<noteq> z" "p \<noteq> c" "c \<noteq> z" using j assms(2,3) pairs_other [OF s(1) assms(5)] by (auto simp: joined_def)
  have pc: "m_pConThat (cons s p) = Some c" "m_eP2PeerConMode (cons s p) = Client" using j assms(4) by (auto simp: joined_def)
  have fr: "\<not> answered (cons s p)" using s(5) assms(4,5) unfolding spawned_ok_def by blast
  have cz: "cons t z = (dcon_new Accepted [])\<lparr>m_pConThat := Some p, m_hFile := m_hFile (cons s c), m_hFileCPort := m_hFileCPort (cons s c), notices := [P2P_Accept]\<rparr>"
    and cc: "cons t c = (unpaired (cons s c))\<lparr>m_pOVERLAPPEDaccept := None\<rparr>"
    and cp: "cons t p = (cons s p)\<lparr>m_pConThat := Some z, m_hFile := Some z, m_hFileCPort := Some z\<rparr>"
    and cx: "x \<noteq> z \<Longrightarrow> x \<noteq> c \<Longrightarrow> x \<noteq> p \<Longrightarrow> cons t x = cons s x" for x
    using n assms(5) by (simp_all add: t_def k dcon_new_def)
  have dead: "m_pConThat (cons s v) \<noteq> Some z" for v using pairs_joined [OF s(1), of v z] assms(2) by (auto simp: joined_def)
  have p: "pairs_ok t" unfolding t_def by (rule pairs_simple(1) [OF pairs_AcceptSpawn [OF s(1) assms(2-4)]])
  have ov: "ovs_ok t" unfolding t_def by (rule ovs_note_to [OF ovs_AcceptSpawn [OF s(3) assms(2)]])
  have ovx: "ovs t i = ovs s i" if "owns s x i" "x \<noteq> c" for x i
    using drop_accept_ovs(1) [OF s(3) that] by (simp add: t_def AcceptSpawn_def Let_def Factory_def split: option.split)
  have q: "queued t i = queued s i" if "owns s x i" "x \<noteq> c" for x i using ovx [OF that] by (simp add: queued_def)
  have pair: "m_pConThat (cons s x) = Some y \<and> x \<noteq> z \<and> y \<noteq> z \<and> x \<noteq> c \<and> y \<noteq> c \<and> x \<noteq> p \<and> y \<noteq> p"
    if "m_pConThat (cons t x) = Some y" "\<not> (x = p \<and> y = z)" "\<not> (x = z \<and> y = p)" for x y
  proof -
    have x: "x \<noteq> z" "x \<noteq> c" "x \<noteq> p" using that by (auto simp: cz cc cp)
    then have y: "m_pConThat (cons s x) = Some y" using that(1) cx by simp
    then show ?thesis using x dead pairs_other [OF s(1) y] pc(1) assms(5) by auto
  qed
  have fields: "alive t = insert z (alive s)" "g_oCListP2PeerConDmx t = g_oCListP2PeerConDmx s" "thrown t = thrown s" by (simp_all add: t_def)
  have "answers_but {} t"
  proof (rule answers_step [OF s(4)])
    fix x y assume w: "waits t x y"
    show "told t x y \<or> x \<notin> {} \<and> y \<notin> {} \<and> waits s x y \<and> (told s x y \<longrightarrow> told t x y)"
    proof (cases "x = p \<and> y = z")
      case True
      have "told s p c" using answers_butD [OF s(4), of p c] pc fr by (simp add: waits_def)
      then obtain i where i: "m_pOVERLAPPEDconnect (cons s p) = Some i" "\<not> queued s i" by (auto simp: told_def)
      then have "\<not> queued t i" using q [of p i] n by (simp add: owns_def)
      then show ?thesis using True i by (simp add: told_def seen_to_def cz cp dcon_new_def)
    next
      case False
      have "\<not> (x = z \<and> y = p)" using w by (auto simp: waits_def cz dcon_new_def)
      then have o: "m_pConThat (cons s x) = Some y \<and> x \<noteq> z \<and> y \<noteq> z \<and> x \<noteq> c \<and> y \<noteq> c \<and> x \<noteq> p \<and> y \<noteq> p"
        using pair [of x y] w False by (simp add: waits_def)
      then have "cons t x = cons s x" "cons t y = cons s y" using cx by simp_all
      then show ?thesis using w o q [of x] q [of y] by (auto simp: waits_def told_def seen_to_def owns_def)
    qed
  qed
  moreover have "list_ok t" unfolding list_ok_def
  proof (intro conjI ballI allI)
    fix x assume "x \<in> set (g_oCListP2PeerConDmx t)"
    then have x: "x \<in> alive s" "m_eP2PeerConMode (cons s x) = Service" using s(2) by (auto simp: list_ok_def fields)
    then show "x \<in> alive t" by (simp add: fields)
    have "x \<noteq> z" "x \<noteq> p" using x assms(2) pc by auto
    then show "m_eP2PeerConMode (cons t x) = Service" using x cx cc by (cases "x = c") (simp_all)
  next
    fix x
    have "stage (cons s p) \<noteq> Dialling" using list_stage [OF s(2), of p] pc by (auto simp: stage_ok_def)
    then show "stage_ok (cons t x)"
      using list_stage [OF s(2), of x] cx [of x] by (cases "x = z"; cases "x = c"; cases "x = p") (auto simp: cz cc cp stage_ok_def dcon_new_def)
  qed (use s(2) in \<open>simp add: list_ok_def fields\<close>)
  moreover have "spawned_ok t" unfolding spawned_ok_def
  proof (intro conjI allI impI)
    fix x assume a: "m_eP2PeerConMode (cons t x) = Accepted"
    then have "x \<noteq> c" "x \<noteq> p" using assms(4) pc by (auto simp: cc cp)
    then show "count_list (notices (cons t x)) P2P_Accept \<le> 1"
      using a s(5) cx [of x] by (cases "x = z") (auto simp: cz spawned_ok_def)
  next
    fix x y assume a: "m_pConThat (cons t x) = Some y" "m_eP2PeerConMode (cons t x) = Service
         \<or> m_eP2PeerConMode (cons t x) = Accepted \<and> P2P_Accept \<in> set (notices (cons t x))"
    show "\<not> answered (cons t y)"
    proof (cases "x = z \<and> y = p")
      case True
      then show ?thesis using fr by (simp add: cp)
    next
      case False
      have "x \<noteq> p" using a(2) pc by (auto simp: cp)
      then have o: "m_pConThat (cons s x) = Some y \<and> x \<noteq> z \<and> y \<noteq> z \<and> x \<noteq> c \<and> y \<noteq> c \<and> x \<noteq> p \<and> y \<noteq> p" using pair [OF a(1)] False by blast
      then have "cons t x = cons s x" "cons t y = cons s y" using cx by simp_all
      then show ?thesis using a o s(5) unfolding spawned_ok_def by metis
    qed
  qed
  ultimately have "meeting_but {} t" using p ov s(6) by (simp add: meeting_but_def fields)
  then show ?thesis by (simp add: t_def)
qed

lemma AcceptSpawn_alone:
  "m_pConThat (cons s c) = None \<Longrightarrow> c \<noteq> z \<Longrightarrow> AcceptSpawn c z s
    = upd z (\<lambda>e. e\<lparr>m_pConThat := None, m_hFile := m_hFile (cons s c), m_hFileCPort := m_hFileCPort (cons s c)\<rparr>) (upd c unpaired (Factory z Accepted [] (drop_accept c s)))"
  by (simp add: AcceptSpawn_def Let_def)

lemma meeting_decides:
  assumes "meeting_but {} s" "c \<in> alive s" "stage (cons s c) = Deciding" "z \<notin> alive s"
  shows "meeting_but {} (OnAccept_decides b c z s)"
proof -
  note s = meeting_butD [OF assms(1)]
  have m: "m_eP2PeerConMode (cons s c) = Service" using list_stage [OF s(2), of c] assms(3) by (simp add: stage_ok_def)
  have cz: "c \<noteq> z" using assms(2,4) by auto
  show ?thesis
  proof (cases b)
    case True
    have "core (cons (refuse c s) c) = core (cons (BREAK_PAIR c s) c)" by (rule refuse_core [OF s(1)])
    then have "m_pConThat (cons (refuse c s) c) = None" "m_eP2PeerConMode (cons (refuse c s) c) = Service" using m by (simp_all add: core_def)
    then show ?thesis using True meeting_rearming [OF meeting_refuse [OF assms(1)], of c c] by (simp add: OnAccept_decides_def)
  next
    case False
    show ?thesis
    proof (cases "m_pConThat (cons s c)")
      case (Some p)
      have k: "m_pConThat (cons (AcceptSpawn c z s) z) = Some p" "m_pConThat (cons (AcceptSpawn c z s) c) = None"
        "m_eP2PeerConMode (cons (AcceptSpawn c z s) c) = Service"
        using cz Some m by (simp_all add: AcceptSpawn_cons [OF s(1) assms(4,2)] dcon_new_def)
      then show ?thesis using False cz meeting_rearming [OF meeting_spawn [OF assms(1,4,2) m Some], of c] by (simp add: OnAccept_decides_def)
    next
      case None
      have a: "meeting_but {} (Factory z Accepted [] (drop_accept c s))"
        by (rule meeting_Factory [OF meeting_drop_accept [OF assms(1) None]]) (simp add: assms(4))
      have f: "cons (Factory z Accepted [] (drop_accept c s)) c = (cons s c)\<lparr>m_pOVERLAPPEDaccept := None\<rparr>"
        "cons (Factory z Accepted [] (drop_accept c s)) z = dcon_new Accepted []" using cz by (simp_all add: Factory_def)
      note n = meeting_butD [OF a]
      have "meeting_but ({} - {c}) (upd c unpaired (Factory z Accepted [] (drop_accept c s)))"
        by (rule meeting_away [OF a ovs_unpaired [OF n(3)]]) (use None f list_stage [OF n(2), of c] in \<open>simp_all add: stage_ok_def\<close>)
      then have u: "meeting_but {} (upd c unpaired (Factory z Accepted [] (drop_accept c s)))" by simp
      have "meeting_but ({} - {z}) (AcceptSpawn c z s)" unfolding AcceptSpawn_alone [OF None cz]
        by (rule meeting_away [OF u ovs_upd]) (use cz f meeting_butD(3) [OF u] in \<open>simp_all add: gear_def dcon_new_def\<close>)
      then have d: "meeting_but {} (Drop False False z (AcceptSpawn c z s))" by (intro meeting_Drop) (simp add: meeting_but_def answers_but_def)
      have k: "cons (AcceptSpawn c z s) c = (unpaired (cons s c))\<lparr>m_pOVERLAPPEDaccept := None\<rparr>" "m_pConThat (cons (AcceptSpawn c z s) z) = None"
        using cz None by (simp_all add: AcceptSpawn_cons [OF s(1) assms(4,2)] dcon_new_def)
      have "pairs_ok (AcceptSpawn c z s)" by (rule pairs_AcceptSpawn [OF s(1) assms(4,2) m])
      then have "cons (Drop False False z (AcceptSpawn c z s)) c = cons (AcceptSpawn c z s) c"
        using cz k(2) by (simp add: Drop_cons(1) BREAK_PAIR_cons)
      then show ?thesis using False None k m meeting_rearming [OF d, of c] by (simp add: OnAccept_decides_def Let_def)
    qed
  qed
qed

lemma meeting_spawned:
  assumes "meeting_but {} s" "m_eP2PeerConMode (cons s z) = Accepted" "next_notice P2P_Accept z s"
  shows "meeting_but {} (OnAccept_spawned z (taken z s))"
proof -
  note s = meeting_butD [OF assms(1)]
  obtain ns where ns: "notices (cons s z) = P2P_Accept # ns" using assms(3) by (auto simp: next_notice_def split: list.splits)
  have "count_list (notices (cons s z)) P2P_Accept \<le> 1" using s(5) assms(2) by (simp add: spawned_ok_def)
  then have z0: "P2P_Accept \<notin> set ns" using ns by (auto simp: count_list_0_iff)
  have tk: "cons (taken z s) = (cons s)(z := (cons s z)\<lparr>notices := ns\<rparr>)" by (simp add: taken_def upd_def ns)
  show ?thesis
  proof (cases "m_pConThat (cons s z)")
    case None
    have "meeting_but {} (taken z s)" unfolding taken_def
      by (rule meeting_local [OF assms(1)]) (use None ns z0 in \<open>simp_all add: core_def gear_def stage_ok_def\<close>)
    then show ?thesis using None tk meeting_Drop [OF meeting_more] by (simp add: OnAccept_spawned_def)
  next
    case (Some p)
    note j = pairs_joined [OF s(1) Some] and o = pairs_other [OF s(1) Some]
    have pm: "m_eP2PeerConMode (cons s p) = Client" "p \<noteq> z" "m_pConThat (cons s p) = Some z" using j o assms(2) by (auto simp: joined_def)
    note jp = pairs_joined [OF s(1) pm(3)]
    have "\<not> answered (cons s p)" using s(5) Some assms(2) ns unfolding spawned_ok_def by fastforce
    then have "told s p z" using answers_butD [OF s(4), of p z] pm by (simp add: waits_def)
    then obtain i where i: "m_pOVERLAPPEDconnect (cons s p) = Some i" "\<not> queued s i" by (auto simp: told_def)
    define t where "t = OnAccept_spawned z (taken z s)"
    have q0: "queued (taken z s) j = queued s j" "queued (upd p f (taken z s)) j = queued s j" for j f by (simp_all add: queued_def taken_def)
    have hf: "(cons s p)\<lparr>m_hFile := Some z, m_hFileCPort := Some z\<rparr> = cons s p" using jp by (simp add: joined_def)
    have t: "t = upd p (\<lambda>e. e\<lparr>answered := True\<rparr>) (enqueue p i True (upd p (\<lambda>e. e\<lparr>m_hFile := Some z, m_hFileCPort := Some z\<rparr>) (taken z s)))"
      using i Some pm(2) q0 by (simp add: t_def OnAccept_spawned_def tk PostOVERLAPPED_def Let_def)
    have e: "cons t x = (if x = p then (cons s p)\<lparr>answered := True\<rparr> else if x = z then (cons s z)\<lparr>notices := ns\<rparr> else cons s x)" for x
      using pm(2) hf by (simp add: t tk)
    then have ct: "cons t p = (cons s p)\<lparr>answered := True\<rparr>" "cons t z = (cons s z)\<lparr>notices := ns\<rparr>" "x \<noteq> p \<Longrightarrow> x \<noteq> z \<Longrightarrow> cons t x = cons s x" for x
      using pm(2) by simp_all
    have same: "m_eP2PeerConMode (cons t x) = m_eP2PeerConMode (cons s x)" "m_pConThat (cons t x) = m_pConThat (cons s x)"
      "m_pOVERLAPPEDaccept (cons t x) = m_pOVERLAPPEDaccept (cons s x)" "m_pOVERLAPPEDconnect (cons t x) = m_pOVERLAPPEDconnect (cons s x)"
      "stage (cons t x) = stage (cons s x)" "core (cons t x) = core (cons s x)" for x
      by (simp_all add: e core_def)
    have own: "owns (taken z s) p i" "owns s p i" using i pm(2) by (simp_all add: owns_def tk)
    have ov: "ovs_ok t" unfolding t
    proof (rule ovs_upd)
      show "ovs_ok (enqueue p i True (upd p (\<lambda>e. e\<lparr>m_hFile := Some z, m_hFileCPort := Some z\<rparr>) (taken z s)))"
        by (rule ovs_enqueue [OF ovs_upd [OF ovs_taken [OF s(3)]]]) (use i pm(2) q0 in \<open>simp_all add: gear_def owns_def tk\<close>)
    qed (simp add: gear_def)
    have q: "queued t j = (j = i \<or> queued s j)" for j by (simp add: t queued_def taken_def)
    have fields: "alive t = alive s" "g_oCListP2PeerConDmx t = g_oCListP2PeerConDmx s" "thrown t = thrown s" by (simp_all add: t taken_def)
    have p: "pairs_ok t" by (rule pairs_same [OF s(1)]) (simp_all add: fields same)
    have "answers_but {} t"
    proof (rule answers_step [OF s(4)])
      fix x y assume w: "waits t x y"
      then have x: "x \<noteq> p" "m_pConThat (cons s x) = Some y" "m_eP2PeerConMode (cons s x) = Client" by (auto simp: waits_def ct same)
      have "x \<noteq> z" using x(3) assms(2) by auto
      have "y \<noteq> z" using x pairs_other [OF s(1) x(2)] Some by auto
      have "y \<noteq> p" using x pairs_other [OF s(1) x(2)] pm(3) \<open>x \<noteq> z\<close> by auto
      have "cons t x = cons s x" "cons t y = cons s y" using ct x(1) \<open>x \<noteq> z\<close> \<open>y \<noteq> z\<close> \<open>y \<noteq> p\<close> by auto
      moreover have "owns s x j \<Longrightarrow> j \<noteq> i" for j using ovs_okD(2) [OF s(3) own(2)] x(1) by auto
      ultimately show "told t x y \<or> x \<notin> {} \<and> y \<notin> {} \<and> waits s x y \<and> (told s x y \<longrightarrow> told t x y)"
        using w by (auto simp: waits_def told_def seen_to_def q owns_def)
    qed
    moreover have "list_ok t" by (rule list_change [OF s(2)]) (simp_all add: fields same stage_ok_def)
    moreover have "spawned_ok t" unfolding spawned_ok_def
    proof (intro conjI allI impI)
      fix x assume "m_eP2PeerConMode (cons t x) = Accepted"
      then have "m_eP2PeerConMode (cons s x) = Accepted" by (simp add: same)
      moreover from this have "x \<noteq> p" using pm(1) by auto
      ultimately show "count_list (notices (cons t x)) P2P_Accept \<le> 1" using s(5) z0
        by (simp add: e spawned_ok_def count_list_0_iff)
    next
      fix x y assume a: "m_pConThat (cons t x) = Some y" "m_eP2PeerConMode (cons t x) = Service
         \<or> m_eP2PeerConMode (cons t x) = Accepted \<and> P2P_Accept \<in> set (notices (cons t x))"
      then have x: "m_pConThat (cons s x) = Some y" by (simp add: same)
      have "x \<noteq> z" using a(2) assms(2) z0 by (auto simp: ct)
      moreover have "x \<noteq> p" using a(2) pm(1) by (auto simp: ct)
      ultimately have "y \<noteq> p" "cons t x = cons s x" using pairs_other [OF s(1) x] pm(3) ct by auto
      moreover from this have "answered (cons t y) = answered (cons s y)" by (simp add: e)
      ultimately show "\<not> answered (cons t y)" using s(5) a x unfolding spawned_ok_def by metis
    qed
    ultimately have "meeting_but {} t" using p ov s(6) by (simp add: meeting_but_def fields)
    then show ?thesis by (simp add: t_def)
  qed
qed

lemma meeting_Connect:
  assumes "meeting_but {} s" "m_eP2PeerConMode (cons s c) = Client" "m_pOVERLAPPEDconnect (cons s c) = None"
  shows "meeting_but {} (Connect c s)"
proof (cases "m_pConThat (cons s c)")
  case None
  have "meeting_but {} (upd c (\<lambda>d. d\<lparr>stage := Dialling\<rparr>) s)"
    by (rule meeting_local [OF assms(1)]) (use assms(2,3) None in \<open>simp_all add: core_def gear_def stage_ok_def\<close>)
  then show ?thesis using None by (simp add: Connect_def)
next
  case (Some p)
  then show ?thesis using meeting_throws [OF meeting_more [OF assms(1)]] by (simp add: Connect_def)
qed

lemma meeting_latch:
  assumes "meeting_but {} s" "c \<in> alive s" "y \<in> alive s" "m_eP2PeerConMode (cons s c) = Client" "m_eP2PeerConMode (cons s y) = Service"
    "m_pConThat (cons s c) = None" "m_pConThat (cons s y) = None" "m_pOVERLAPPEDconnect (cons s c) = None" "m_pOVERLAPPEDaccept (cons s y) = Some a"
    "\<not> queued s a"
  shows "meeting_but {} (latch c y a s)"
proof -
  note s = meeting_butD [OF assms(1)]
  have n: "c \<noteq> y" using assms(4,5) by auto
  define t where "t = latch c y a s"
  have e: "cons t x = (if x = c then (cons s c)\<lparr>m_pConThat := Some y, m_hFileCPort := Some y, m_hFile := Some y, stage := Latched, answered := False,
        m_pOVERLAPPEDconnect := Some (next_ov s)\<rparr>
      else if x = y then (cons s y)\<lparr>m_pConThat := Some c, m_hFileCPort := Some c, m_hFile := Some c\<rparr> else cons s x)" for x
    using n assms(8) by (simp add: t_def latch_def Let_def MakeOVERLAPPED_def)
  have al: "a < next_ov s" using ovs_okD(1) [OF s(3), of y a] assms(9) by (simp add: owns_def)
  have q: "queued t i = (i = a \<or> i \<noteq> next_ov s \<and> queued s i)" for i
    using n assms(8) al by (auto simp: t_def latch_def Let_def MakeOVERLAPPED_def queued_def)
  have fields: "alive t = alive s" "g_oCListP2PeerConDmx t = g_oCListP2PeerConDmx s" "thrown t = thrown s" by (simp_all add: t_def)
  have p: "pairs_ok t" unfolding t_def by (rule pairs_latch [OF s(1) assms(2-7)])
  have ov: "ovs_ok t" unfolding t_def by (rule ovs_latch [OF s(3) n assms(2,4,9,10)])
  have pair: "m_pConThat (cons s u) = Some v \<and> u \<noteq> c \<and> v \<noteq> c \<and> u \<noteq> y \<and> v \<noteq> y"
    if "m_pConThat (cons t u) = Some v" "\<not> (u = c \<and> v = y)" "\<not> (u = y \<and> v = c)" for u v
  proof -
    have u: "u \<noteq> c" "u \<noteq> y" using that n by (auto simp: e)
    then have "m_pConThat (cons s u) = Some v" using that(1) by (simp add: e)
    then show ?thesis using u pairs_other [OF s(1), of u v] assms(6,7) by auto
  qed
  have "answers_but {} t"
  proof (rule answers_step [OF s(4)])
    fix u v assume w: "waits t u v"
    show "told t u v \<or> u \<notin> {} \<and> v \<notin> {} \<and> waits s u v \<and> (told s u v \<longrightarrow> told t u v)"
    proof (cases "u = c \<and> v = y")
      case True
      have "seen_to t y" using n assms(5,9) by (simp add: seen_to_def e q)
      then show ?thesis using True al by (simp add: told_def e q)
    next
      case False
      have "\<not> (u = y \<and> v = c)" using w n assms(5) by (auto simp: waits_def e)
      then have o: "m_pConThat (cons s u) = Some v \<and> u \<noteq> c \<and> v \<noteq> c \<and> u \<noteq> y \<and> v \<noteq> y" using pair [of u v] w False by (simp add: waits_def)
      have "queued t i = queued s i" if "owns s u i \<or> owns s v i" for i
        using that o ovs_okD(1) [OF s(3)] ovs_okD(2) [OF s(3), of y a] assms(9) by (auto simp: q owns_def)
      then show ?thesis using w o by (auto simp: waits_def told_def seen_to_def e owns_def)
    qed
  qed
  moreover have "list_ok t" by (rule list_change [OF s(2)]) (use n assms(4,5) in \<open>auto simp: fields e stage_ok_def\<close>)
  moreover have "spawned_ok t" unfolding spawned_ok_def
  proof (intro conjI allI impI)
    fix x assume "m_eP2PeerConMode (cons t x) = Accepted"
    then show "count_list (notices (cons t x)) P2P_Accept \<le> 1" using s(5) assms(4,5) by (auto simp: e spawned_ok_def split: if_splits)
  next
    fix u v assume b: "m_pConThat (cons t u) = Some v" "m_eP2PeerConMode (cons t u) = Service
         \<or> m_eP2PeerConMode (cons t u) = Accepted \<and> P2P_Accept \<in> set (notices (cons t u))"
    have "u \<noteq> c" using b(2) assms(4) by (auto simp: e)
    show "\<not> answered (cons t v)"
    proof (cases "u = y \<and> v = c")
      case False
      then have o: "m_pConThat (cons s u) = Some v \<and> u \<noteq> c \<and> v \<noteq> c \<and> u \<noteq> y \<and> v \<noteq> y" using pair [OF b(1)] \<open>u \<noteq> c\<close> by blast
      then show ?thesis using b s(5) unfolding spawned_ok_def by (auto simp: e)
    qed (simp add: e)
  qed
  ultimately have "meeting_but {} t" using p ov s(6) by (simp add: meeting_but_def fields)
  then show ?thesis by (simp add: t_def)
qed

lemma meeting_Connect_turn:
  assumes "meeting_but {} s" "c \<in> alive s" "stage (cons s c) = Dialling"
  shows "meeting_but {} (Connect_turn c s)"
proof (cases "service_of (m_sServiceName (cons s c)) s")
  case (Some y)
  note s = meeting_butD [OF assms(1)]
  have y: "y \<in> set (g_oCListP2PeerConDmx s)" "m_eP2PeerConMode (cons s y) = Service"
    using Some unfolding service_of_def by (auto simp: find_Some_iff)
  have "y \<in> alive s" using y s(2) by (simp add: list_ok_def)
  moreover have "m_eP2PeerConMode (cons s c) = Client \<and> m_pConThat (cons s c) = None \<and> m_pOVERLAPPEDconnect (cons s c) = None"
    using list_stage [OF s(2), of c] assms(3) by (simp add: stage_ok_def)
  ultimately show ?thesis using Some y meeting_latch [OF assms(1,2), of y] assms(1) by (auto simp: Connect_turn_def split: option.split)
qed (use assms(1) in \<open>simp add: Connect_turn_def\<close>)

lemma meeting_idle: "meeting_but C s \<Longrightarrow> stage (cons s c) \<noteq> Deciding \<Longrightarrow> meeting_but C (upd c (\<lambda>d. d\<lparr>stage := Idle\<rparr>) s)"
  by (rule meeting_upd) (simp_all add: core_def gear_def)

lemma meeting_Connect_ends:
  assumes "meeting_but {} s" "c \<in> alive s" "stage (cons s c) \<in> {Dialling, Latched}"
  shows "meeting_but {} (Connect_ends c s)"
proof -
  note s = meeting_butD [OF assms(1)]
  let ?s = "upd c (\<lambda>d. d\<lparr>stage := Idle\<rparr>) s"
  have m: "m_eP2PeerConMode (cons s c) = Client" using list_stage [OF s(2), of c] assms(3) by (auto simp: stage_ok_def)
  have i: "meeting_but {} ?s" by (rule meeting_idle [OF assms(1)]) (use assms(3) in auto)
  note n = meeting_butD [OF i]
  have "meeting_but {} (case MakeOVERLAPPED ?s of (i, s') \<Rightarrow> upd c (\<lambda>d. d\<lparr>m_pOVERLAPPEDconnect := Some i\<rparr>) s')" if "m_pOVERLAPPEDconnect (cons s c) = None"
  proof (rule meeting_make [OF i, where c = c and d = "(cons ?s c)\<lparr>m_pOVERLAPPEDconnect := Some (next_ov s)\<rparr>"])
    show "ovs_ok (case MakeOVERLAPPED ?s of (i, s') \<Rightarrow> upd c (\<lambda>d. d\<lparr>m_pOVERLAPPEDconnect := Some i\<rparr>) s')"
      by (rule ovs_make_connect [OF n(3)]) (use m that assms(2) in simp_all)
  qed (use that in \<open>simp_all add: MakeOVERLAPPED_def upd_def core_def\<close>)
  then show ?thesis using i meeting_throws [OF meeting_more [OF i]] by (simp add: Connect_ends_def Let_def)
qed

lemma meeting_completes:
  assumes "meeting_but {} s" "(c, i) \<in> set (port s)"
  shows "meeting_but {} (On_QueuedCompletionStatus c i (s\<lparr>port := remove1 (c, i) (port s)\<rparr>))"
proof -
  note s = meeting_butD [OF assms(1)]
  show ?thesis
  proof (cases "ovs s i")
    case None
    have "ovs_ok (s\<lparr>port := remove1 (c, i) (port s), freed_read := True\<rparr>)" by (rule ovs_gone [OF s(3) None])
    then show ?thesis using None s by (simp add: On_QueuedCompletionStatus_def meeting_but_def)
  next
    case (Some x)
    define t where "t = s\<lparr>port := remove1 (c, i) (port s), ovs := (ovs s)(i \<mapsto> x\<lparr>bQueued := False\<rparr>)\<rparr>"
    have f: "cons t = cons s" "thrown t = thrown s" by (simp_all add: t_def)
    have o: "owns s c i" "queued s i" using ovs_okD(5) [OF s(3) assms(2)] Some by auto
    have q: "queued t j = (j \<noteq> i \<and> queued s j)" for j by (simp add: t_def queued_def)
    have "ovs_ok t" unfolding t_def by (rule ovs_release [OF s(3) assms(2) Some])
    moreover have p: "pairs_ok t" "list_ok t" "spawned_ok t" using s by (simp_all add: t_def)
    moreover have "answers_but {c} t"
    proof (rule answers_step [OF s(4)])
      fix u v assume w: "waits t u v" "u \<notin> {c}" "v \<notin> {c}"
      have "owns s u j \<or> owns s v j \<Longrightarrow> j \<noteq> i" for j using ovs_okD(2) [OF s(3) o(1)] w(2,3) by blast
      then show "told t u v \<or> u \<notin> {} \<and> v \<notin> {} \<and> waits s u v \<and> (told s u v \<longrightarrow> told t u v)"
        using w(1) by (auto simp: waits_def told_def seen_to_def q f owns_def)
    qed
    ultimately have m: "meeting_but {c} t" using s(6) by (simp add: meeting_but_def f)
    have other: "told t u v" if "waits t u v" "u \<noteq> c" "v \<noteq> c" for u v using that m by (simp add: meeting_but_def answers_but_def)
    have unpaired: "meeting_but {} t \<and> m_pConThat (cons t c) = None" if "m_hFileCPort (cons s c) = None"
    proof -
      have n: "m_pConThat (cons t c) = None" using that pairs_joined [OF s(1), of c] by (cases "m_pConThat (cons s c)") (auto simp: joined_def f)
      then show ?thesis using meeting_fill [OF m] no_wait [OF p(1) n] by blast
    qed
    have eq: "On_QueuedCompletionStatus c i (s\<lparr>port := remove1 (c, i) (port s)\<rparr>) =
        (if m_pOVERLAPPEDaccept (cons t c) = Some i
         then (if hr_ok x \<and> m_hFileCPort (cons t c) \<noteq> None then note_to c P2P_Accept t
               else if m_hFileCPort (cons t c) \<noteq> None then throws c AcceptFailed t else drop_accept c t)
         else if m_pOVERLAPPEDconnect (cons t c) = Some i
         then (if hr_ok x \<and> m_hFileCPort (cons t c) \<noteq> None then note_to c P2P_Connect t
               else if m_hFileCPort (cons t c) \<noteq> None then throws c ConnectFailed t else drop_connect c t)
         else t)"
      using Some by (simp add: On_QueuedCompletionStatus_def Let_def t_def)
    show ?thesis
    proof (cases "m_pOVERLAPPEDaccept (cons s c) = Some i")
      case True
      have sv: "m_eP2PeerConMode (cons s c) = Service" by (rule ovs_okD(3) [OF s(3) True])
      have n: "meeting_but {c} (note_to c P2P_Accept t)" by (rule meeting_note [OF m]) (simp add: f sv)
      have "meeting_but {} (note_to c P2P_Accept t)"
      proof (rule meeting_fill [OF n])
        fix u v assume w: "u = c \<or> v = c" "waits (note_to c P2P_Accept t) u v"
        have "u \<noteq> c" using w(2) sv by (auto simp: waits_def f)
        then have v: "v = c" "waits s u c" using w by (auto simp: waits_def f)
        then have "told s u c" using answers_butD [OF s(4)] by simp
        then show "told (note_to c P2P_Accept t) u v" using v(1) \<open>u \<noteq> c\<close> q sv by (auto simp: told_def seen_to_def f queued_def)
      qed
      then show ?thesis using True unpaired meeting_throws [OF m] meeting_drop_accept by (simp add: eq f)
    next
      case False
      then have cn: "m_pOVERLAPPEDconnect (cons s c) = Some i" using o(1) by (simp add: owns_def)
      have cl: "m_eP2PeerConMode (cons s c) = Client" by (rule ovs_okD(4) [OF s(3) cn])
      have "meeting_but {} t"
      proof (rule meeting_fill [OF m])
        fix u v assume w: "u = c \<or> v = c" "waits t u v"
        then have ws: "waits s u v" by (simp add: waits_def f)
        then have "told s u v" using answers_butD [OF s(4)] by simp
        moreover have "v \<noteq> c" using ws cl pairs_joined [OF s(1), of u v] by (auto simp: waits_def joined_def)
        ultimately show "told t u v" using w(1) cn o(2) by (auto simp: told_def)
      qed
      then show ?thesis using False cn unpaired meeting_throws [OF m] meeting_drop_connect meeting_note [where C = "{}" and s = t and n = P2P_Connect and c = c]
        by (simp add: eq f)
    qed
  qed
qed

lemma meeting_On_ConClose: "meeting_but {} s \<Longrightarrow> meeting_but {} (On_ConClose b c s)"
proof -
  assume m: "meeting_but {} s"
  have k: "meeting_but {} (BREAK_PAIR c s)" by (rule meeting_BREAK_PAIR [OF meeting_more [OF m]]) simp
  have e: "meeting_but {} (upd c (\<lambda>d. d\<lparr>m_pEvent := False\<rparr>) (BREAK_PAIR c s))" by (rule meeting_upd [OF k]) (simp_all add: core_def gear_def)
  have "meeting_but {} (upd c (\<lambda>d. d\<lparr>m_bDestroy := True\<rparr>) (upd c (\<lambda>d. d\<lparr>m_pEvent := False\<rparr>) (BREAK_PAIR c s)))"
    by (rule meeting_upd [OF e]) (simp_all add: core_def gear_def)
  then show ?thesis using e by (simp add: On_ConClose_def Let_def)
qed

lemma meeting_delete:
  assumes "meeting_but {} s" "\<forall>x \<in> set (port s). fst x \<noteq> c" "stage (cons s c) = Idle"
  shows "meeting_but {} (delete_con c s)"
proof -
  have d: "meeting_but {} (Drop False False c s)" by (rule meeting_Drop [OF meeting_more [OF assms(1)]]) simp
  note s = meeting_butD [OF assms(1)] and k = meeting_butD [OF d]
  define t where "t = Drop False False c s"
  have n: "m_pConThat (cons t c) = None" using Drop_cons(2) [of False False c s c] by (simp add: core_def t_def)
  have none: "\<not> owns t c i" for i
  proof
    assume w: "owns t c i"
    have ok: "ovs_ok (BREAK_PAIR c s)" by (rule ovs_BREAK_PAIR [OF s(3)])
    have nq: "\<not> queued (BREAK_PAIR c s) j" if "owns (BREAK_PAIR c s) c j" for j
      using ovs_okD(6) [OF ok that] assms(2) by fastforce
    have "owns (reclaim c (BREAK_PAIR c s)) c i" using w Drop_cons(5,6) [of False False c s c] by (simp add: t_def owns_def)
    moreover have "\<not> queued (drop_accept c (BREAK_PAIR c s)) j" if "m_pOVERLAPPEDconnect (cons (BREAK_PAIR c s) c) = Some j" for j
    proof -
      have "\<not> queued (BREAK_PAIR c s) j" using nq that by (simp add: owns_def)
      then show ?thesis by (auto simp: queued_def drop_accept_def DropOVERLAPPED_def split: option.splits)
    qed
    ultimately show False using nq by (auto simp: owns_def reclaim_def Let_def split: option.splits if_splits)
  qed
  define u where "u = delete_con c s"
  have f: "cons u = cons t" "alive u = alive t - {c}" "g_oCListP2PeerConDmx u = remove1 c (g_oCListP2PeerConDmx t)" "ovs u = ovs t"
    "next_ov u = next_ov t" "port u = port t" "thrown u = thrown t"
    by (simp_all add: u_def t_def delete_con_def Let_def)
  have kt: "pairs_ok t" "list_ok t" "ovs_ok t" "answers_but {} t" "spawned_ok t" using k by (simp_all add: t_def)
  have "pairs_ok u" unfolding pairs_ok_def
  proof (intro allI impI)
    fix x y assume a: "m_pConThat (cons u x) = Some y"
    then have x: "m_pConThat (cons t x) = Some y" by (simp add: f)
    have "x \<noteq> c" "y \<noteq> c" using x n pairs_other [OF kt(1) x] by auto
    then show "joined u x y" using pairs_joined [OF kt(1) x] by (simp add: joined_def f)
  qed
  moreover have "list_ok u" using kt(2) by (auto simp: list_ok_def f)
  moreover have "ovs_ok u" unfolding ovs_ok_def
  proof (intro conjI allI impI)
    fix x i assume w: "owns u x i"
    then have x: "owns t x i" by (simp add: owns_def f)
    then have "x \<noteq> c" using none by auto
    then show "x \<in> alive u" "i < next_ov u" "ovs u i \<noteq> None" using ovs_okD(1) [OF kt(3) x] by (simp_all add: f)
    show "y = x" if "owns u y i" for y using that ovs_okD(2) [OF kt(3) x, of y] by (simp add: owns_def f)
    show "(x, i) \<in> set (port u)" if "queued u i" using that ovs_okD(6) [OF kt(3) x] by (simp add: queued_def f)
  next
    fix x i assume "(x, i) \<in> set (port u)"
    then show "i < next_ov u" "ovs u i \<noteq> None \<Longrightarrow> owns u x i" "ovs u i \<noteq> None \<Longrightarrow> queued u i"
      using ovs_okD(5) [OF kt(3), of x i] by (simp_all add: f owns_def queued_def)
  qed (use ovs_okD(3,4,7) [OF kt(3)] in \<open>auto simp: f\<close>)
  moreover have "answers_but {} u" using kt(4) by (simp add: answers_but_def waits_def told_def seen_to_def queued_def f)
  moreover have "spawned_ok u" using kt(5) by (simp add: spawned_ok_def f)
  ultimately show ?thesis using k(6) by (simp add: meeting_but_def u_def [symmetric] f t_def)
qed

lemma meeting_happen:
  assumes "meeting_but {} s" "can_happen e s"
  shows "meeting_but {} (happen e s)"
proof (cases e)
  case (Listens c)
  note s = meeting_butD [OF assms(1)]
  have k: "meeting_but {} (s\<lparr>g_oCListP2PeerConDmx := g_oCListP2PeerConDmx s @ [c]\<rparr>)" if "c \<notin> set (g_oCListP2PeerConDmx s)"
    using that assms(2) Listens s by (auto simp: meeting_but_def list_ok_def idle_def mode_is_def)
  have "meeting_but {} (throws c DuplicateListen s)" by (rule meeting_throws [OF meeting_more [OF assms(1)]]) simp_all
  then show ?thesis using Listens meeting_note [OF k, of P2P_Listen c] by (simp add: Listen_def)
next
  case (TakesListen c)
  then have "meeting_but {} (taken c s)" using assms meeting_taken [OF assms(1), of P2P_Listen c] by simp
  then show ?thesis using TakesListen assms(2) by (auto simp: idle_def mode_is_def taken_def intro: meeting_Accept)
next
  case (Rearms c)
  have "m_eP2PeerConMode (cons s c) = Service"
    using list_stage [OF meeting_butD(2) [OF assms(1)], of c] assms(2) Rearms by (simp add: stage_ok_def)
  then show ?thesis using Rearms assms(2) meeting_idle [OF assms(1), of c] by (auto intro: meeting_Accept)
next
  case (TakesConnect c)
  then show ?thesis using assms meeting_taken [OF assms(1), of P2P_Connect c] by simp
next
  case (TakesClose c b)
  then show ?thesis using assms meeting_taken [OF assms(1), of P2P_Close c] meeting_On_ConClose by simp
next
  case (Drops c b)
  then show ?thesis using meeting_Drop [OF meeting_more [OF assms(1)]] by simp
next
  case (Marks c)
  have "meeting_but {} (upd c (\<lambda>d. d\<lparr>m_bDestroy := True\<rparr>) s)" by (rule meeting_upd [OF assms(1)]) (simp_all add: core_def gear_def)
  then show ?thesis using Marks by simp
qed (use assms in \<open>simp_all add: idle_def mode_is_def meeting_Factory meeting_looks meeting_decides meeting_spawned meeting_Connect meeting_Connect_turn
  meeting_Connect_ends meeting_completes meeting_delete\<close>)

lemma meeting_happens: "happens es s = Some s' \<Longrightarrow> meeting_but {} s \<Longrightarrow> meeting_but {} s'"
  by (induction es arbitrary: s) (auto simp: meeting_happen split: if_splits)

lemma meeting_new_ok: "meeting_but {} meeting_new"
  by (simp add: meeting_but_def meeting_new_def dcon_new_def pairs_ok_def list_ok_def ovs_ok_def answers_but_def spawned_ok_def owns_def waits_def stage_ok_def)

section \<open>The theorems\<close>

text \<open>
  C19: whatever hubs, clients and services do, in any order: ends are joined in pairs of two that exist, a client with a service or a
  spawned end; the list of services has no entry twice and none that is deleted; and of a client that is joined and not told yet the
  connect is not posted, and the other end is about to post it: its service has the accept in the port, the notification before it,
  or is deciding, or the spawned end has its notification before it.  No buffer is posted twice.
\<close>

theorem joined_client_is_seen_to:
  assumes "happens es meeting_new = Some s"
  shows "(\<forall>x y. m_pConThat (cons s x) = Some y \<longrightarrow> x \<in> alive s \<and> y \<in> alive s \<and> x \<noteq> y \<and> m_pConThat (cons s y) = Some x)
    \<and> distinct (g_oCListP2PeerConDmx s) \<and> set (g_oCListP2PeerConDmx s) \<subseteq> alive s
    \<and> (\<forall>x y. waits s x y \<longrightarrow> told s x y) \<and> (\<forall>c. (c, BufferLocked) \<notin> set (thrown s))"
proof -
  note s = meeting_butD [OF meeting_happens [OF assms meeting_new_ok]]
  have 1: "\<forall>x y. m_pConThat (cons s x) = Some y \<longrightarrow> x \<in> alive s \<and> y \<in> alive s \<and> x \<noteq> y \<and> m_pConThat (cons s y) = Some x"
  proof (intro allI impI)
    fix x y assume a: "m_pConThat (cons s x) = Some y"
    show "x \<in> alive s \<and> y \<in> alive s \<and> x \<noteq> y \<and> m_pConThat (cons s y) = Some x"
      using pairs_joined [OF s(1) a] pairs_other [OF s(1) a] by (auto simp: joined_def)
  qed
  have 2: "distinct (g_oCListP2PeerConDmx s)" "set (g_oCListP2PeerConDmx s) \<subseteq> alive s" using s(2) by (auto simp: list_ok_def)
  have 3: "\<forall>x y. waits s x y \<longrightarrow> told s x y" "\<forall>c. (c, BufferLocked) \<notin> set (thrown s)" using s(4,6) by (simp_all add: answers_but_def)
  from 1 2 3 show ?thesis by (intro conjI)
qed

theorem joined_client_is_seen_to_witness:
  "\<exists>s. happens (armed @ [Dials 2, Turns 2, Returns 2]) meeting_new = Some s \<and> waits s 2 1 \<and> told s 2 1 \<and> m_pConThat (cons s 1) = Some 2"
proof -
  have "\<exists>s. happens (armed @ [Dials 2, Turns 2, Returns 2]) meeting_new = Some s \<and> waits s 2 1" by (simp add: armed_def meet_defs waits_def)
  then obtain s where s: "happens (armed @ [Dials 2, Turns 2, Returns 2]) meeting_new = Some s" "waits s 2 1" by blast
  then have "m_pConThat (cons s 2) = Some 1" by (simp add: waits_def)
  then show ?thesis using s joined_client_is_seen_to [OF s(1)] by blast
qed

text \<open>
  A client that leaves between its dial and the decision of the service closes the service: the accept it used is not dropped, arming
  throws, and the service is destroyed by the close that follows.
\<close>

theorem leaving_client_closes_the_service:
  "\<exists>s. happens (armed @ [Dials 2, Turns 2, Returns 2, Completes 1 0, Drops 2 False, TakesAccept 1, Rearms 1, TakesClose 1 b]) meeting_new = Some s
    \<and> thrown s = [(1, DuplicateAccept)] \<and> m_bDestroy (cons s 1)"
  by (simp add: armed_def meet_defs)

text \<open>
  If another client dials before the decision, the accept is in the port again when the service takes the notification of the first;
  spawning deletes it there, and its completion reads what is deleted.
\<close>

theorem accept_deleted_in_the_port:
  "\<exists>s. happens (armed @ [Dials 2, Turns 2, Returns 2, Completes 1 0, Drops 2 False, Dials 3, Turns 3, Returns 3, TakesAccept 1, Decides 1 False 4,
      Rearms 1, Completes 1 0]) meeting_new = Some s \<and> freed_read s"
  by (simp add: armed_def meet_defs)

text \<open>
  A service that closes before it decides breaks the pair and leaves the connect of its client as it is: nothing is posted to the
  client and nothing is under way to it, so it waits for good.
\<close>

theorem client_left_waiting:
  "\<exists>s. happens (armed @ [Dials 2, Turns 2, Returns 2, Drops 1 False, Completes 1 0, TakesClose 1 False]) meeting_new = Some s
    \<and> m_pConThat (cons s 2) = None \<and> port s = [] \<and> notices (cons s 2) = [] \<and> m_pOVERLAPPEDconnect (cons s 2) \<noteq> None \<and> thrown s = []"
  by (simp add: armed_def meet_defs)

text \<open>A service does not leave the list when it closes, so one that starts again finds itself there.\<close>

theorem restarted_service_refused:
  "\<exists>s. happens (armed @ [Listens 1]) meeting_new = Some s \<and> thrown s = [(1, DuplicateListen)]"
  by (simp add: armed_def meet_defs)

text \<open>A refused client is told on its own pump, and the service waits for the next.\<close>

theorem refused_client_is_told:
  "\<exists>s. happens (armed @ [Dials 2, Turns 2, Returns 2, Completes 1 0, TakesAccept 1, Decides 1 True 4, Rearms 1, Completes 2 1, Dials 3, Turns 3]) meeting_new = Some s
    \<and> thrown s = [(2, ConnectFailed)] \<and> notices (cons s 2) = [P2P_Close] \<and> m_pConThat (cons s 3) = Some 1"
  by (simp add: armed_def meet_defs)

text \<open>And an accepted one is joined with the spawned end, and told.\<close>

theorem accepted_client_is_told:
  "\<exists>s. happens (armed @ [Dials 2, Turns 2, Returns 2, Completes 1 0, TakesAccept 1, Decides 1 False 4, Rearms 1, TakesSpawned 4, Completes 2 1]) meeting_new = Some s
    \<and> m_pConThat (cons s 2) = Some 4 \<and> m_pConThat (cons s 4) = Some 2 \<and> notices (cons s 2) = [P2P_Connect] \<and> m_pConThat (cons s 1) = None \<and> thrown s = []"
  by (simp add: armed_def meet_defs)

text \<open>
  A client that leaves between the look and the decision: the spawned end has nobody to be joined with and is dropped, while nothing
  refers to it; so no close is posted, and it stays, neither closed nor to be destroyed.
\<close>

theorem lost_spawn_is_never_closed:
  "\<exists>s. happens (armed @ [Dials 2, Turns 2, Returns 2, Completes 1 0, TakesAccept 1, Drops 2 False, Decides 1 False 4, Rearms 1]) meeting_new = Some s
    \<and> 4 \<in> alive s \<and> notices (cons s 4) = [] \<and> (\<forall>x \<in> set (port s). fst x \<noteq> 4) \<and> \<not> m_bDestroy (cons s 4) \<and> thrown s = []"
  by (simp add: armed_def meet_defs)

end
