(* ===== verification/Spec2Isabelle.thy ===== *)
theory Spec2Isabelle
  imports Wildcards Address MsgQue PeerMsg Utf8 AuthWire IdentityStore SealPolicy ConGates HubRouting Pump Targets Dispatch Framing ConFlow ConDmx Domains ConLife ConRefs ConIo Registry Sinks SncMaps ConMeet
begin

text \<open>
  Targetcore is a messaging kernel: hubs joined by connections pass messages whose source, destination
  and name are texts.  An address names a hub by its path from the root, \<open>a.b.c\<close>; a message travels up and
  down this tree over the connections of each hub.  A connection agrees session keys, logs in, and then
  passes messages between its queue and a framing; hubs hand the messages that are for them to pumps,
  which dispatch them over targets and their message maps.  A policy of the hub says what must be signed,
  attested or sealed on the way.

  \<^bold>\<open>Theories and the code they model\<close>

  Addresses, messages, queues:
  \<^item> \<open>Targetcore_Prelude\<close>: lemmas on lists, bytes and results shared by the rest, and the locale
    \<open>replay_cache\<close>: the contract of a memory of things seen, used by every replay check.
  \<^item> \<open>Wildcards\<close>, \<open>Address\<close> (P2Peer.cpp, P2PeerMsg.cpp): \<open>P2Paddr\<close>: name and address patterns, with
    the meaning of a pattern as reference; routing predicates, hops and the VNet qualifier.
  \<^item> \<open>Domains\<close> (P2Peer.cpp): \<open>P2Padomain\<close>: lists of addresses with bracketed sets, their enumeration with its
    one byte of state for each set, and the mapping of an address.
  \<^item> \<open>MsgQue\<close> (P2PeerMsgQue.cpp): the priority queue of messages; its state is the list of the queued
    messages and its event.  Each operation runs under the queue's critical section, so every
    interleaving of threads is a sequence of operations, which is what the run lemmas quantify over.
  \<^item> \<open>PeerMsg\<close> (P2PeerMsg.cpp): a message as the fields the code reads and writes, its factories
    (responses, redirections, reflections, wrapping, exceptions) and its marks.

  Security:
  \<^item> \<open>Utf8\<close>, \<open>AuthWire\<close> (P2PAuthLogin.cpp, P2PeerSeal.cpp): addresses to bytes and back; the transcripts
    that are signed and the layout of the blocks.
  \<^item> \<open>IdentityStore\<close> (P2PIdentityStore.cpp): key files, allow lists and revocation lists on disk; the
    files and the protection of the operating system are arguments.
  \<^item> \<open>Seal\<close> (P2PeerSeal.cpp): sealing a body for readers and opening it, over a record \<open>crypto\<close> of the
    primitives of P2PCngCrypto.
  \<^item> \<open>AuthPolicy\<close>, \<open>LoginRelay\<close>, \<open>SealPolicy\<close> (P2PAuthLogin.cpp): the class \<open>AuthPolicy\<close>: its settings and
    lists, the login handshake and relay attestations, and sealing under a policy.  Its state is the
    record \<open>policy\<close>; clock, random bytes and files are arguments of the operations that read them.
  \<^item> \<open>AuthHub\<close> (P2PeerHub.cpp): the policy of a hub, which it may not have, and its forwarding calls.

  Connections:
  \<^item> \<open>ConQueue\<close> (P2PeerCon.cpp): posting to a connection and the choice of what may be sent before the login.
  \<^item> \<open>SourceFilter\<close>, \<open>ConAccept\<close> (P2PeerConWsa.cpp, P2PeerCon.cpp): which origins a listener admits, trust
    classes, and the limits on accepted connections.
  \<^item> \<open>ConLink\<close>, \<open>ConSession\<close> (P2PeerCon.cpp): the state of a connection (record \<open>con\<close>), key agreement, login and
    acknowledgement at both ends, the gate of the login, drop and restart.
  \<^item> \<open>ConGates\<close> (P2PeerCon.cpp): what an application message goes through on its way out (mount, seal,
    attestation) and in (login, relay, opening).
  \<^item> \<open>ConFlow\<close> (P2PeerCon.cpp): the receive loop, the holds that stop it and what resumes it, as steps of the
    loop and the pump.
  \<^item> \<open>ConMaps\<close>, \<open>ConLife\<close> (P2PmsgMaps.h, P2Pwin32.cpp, P2PeerTarget.cpp, P2PeerCon.cpp): the notifications of a
    connection, the maps they are looked up in, the default handlers; dropping, closing and restarting, and the
    login deadline on the timers of \<open>Pump\<close>.
  \<^item> \<open>ConRefs\<close> (P2PeerCon.cpp, P2Pwin32.cpp): the references that keep a connection, counted by any number of
    threads, access by access; it is deleted once, after the last reference, and what goes wrong when the count
    is brought to zero twice.
  \<^item> \<open>ConIo\<close> (P2PeerCon.cpp, P2Pwin32.cpp): the overlapped operations of connections on a store of cells, each
    holding a reference while it is under way; their completions, and the closing of a hub, which waits for
    them a bounded time.
  \<^item> \<open>Framing\<close> (P2Peerio.cpp, P2PeerioGcm.cpp): images on a stream, and the cypher of a keyed link.
  \<^item> \<open>ConDmx\<close> (P2PeerConDmx.cpp, P2PeerioDmx.cpp): a pair of in-process ends;
    \<open>ConMeet\<close> (P2PeerConDmx.cpp): how such ends meet: the list of services, dialling, accepting and refusing.

  Hubs, pumps, targets:
  \<^item> \<open>HubRouting\<close> (P2PeerHub.cpp, P2PeerTarget.cpp, P2Pwin32.cpp): the connections of a hub, routing,
    reports of undeliverable messages, broadcasts and upcasts.
  \<^item> \<open>Pump\<close> (P2Pwin32.cpp): the queue and the timers of a pump, posting, the budget of the process, waking.
  \<^item> \<open>Targets\<close> (P2PeerTarget.cpp): the registration of targets, on a store of linked objects.
  \<^item> \<open>Dispatch\<close> (P2PmsgMaps.h, P2Pwin32.cpp, P2PeerTarget.cpp): message maps, the search in them and the walk
    of a message over the targets; the maps of a hub and of the base target.

  \<^item> \<open>Registry\<close> (P2Pwin32.cpp): the registries of the process: which thread runs which pump, the hubs, their pumps and
    the connections they list; the calling thread is an argument of each operation.
  \<^item> \<open>Sinks\<close> (P2Pwin32.cpp, P2PeerTarget.cpp): the sinks of a hub, the targets registered at them and what a posting
    puts on the queue; \<open>SncMaps\<close> (P2PmsgMaps.h, P2Pwin32.cpp, P2PeerTarget.cpp): the maps such a message is looked up in, and
    those of system messages.

  \<^bold>\<open>What the lemmas show\<close>

  The matchers decide the meaning of their patterns; a set in a domain is enumerated exactly; routability
  is the tree of hop paths; the queues neither lose nor duplicate and are stable; factories reverse routes.  Transcripts are injective and separated by
  purpose, so what is accepted (a login, an attestation, a sealed body, a revocation list) was signed for
  exactly that purpose, route and content, provided signatures are unforgeable (a hypothesis of those
  theorems).  What is built by one side is accepted by the other; what was accepted once is refused
  afterwards, over any run of attempts; lists read back what was written.

  A connection that says it is authenticated holds keys of its own two halves and a proof over them; the
  exchange between two ends runs to a live link; the accept limits hold over any interleaving; what the send
  gates seal the receive gates open.  Routing has no loops, and a message arrives or is reported; what it meets
  on the way lets it in.  A pump never sleeps on a message.  The receive loop has one owner at any time, reads
  nothing past a login, and is resumed unless the connection was closed or kept after an image the cypher refused;
  the framing stays in its buffers and hands up what was sent, however the stream is cut, on a keyed link with
  the first word of the header cleared; a pair of in-process ends comes to rest with everything delivered; a client that is joined and not
  told yet is always about to be told, as long as it stays joined.  Registration
  refines insertion and removal in a list; the walk over targets is a search in a fixed order.
  A dropped connection is closed once and destroyed; the login deadline is taken away by the login, while
  the number of its timer is below 256.  The registries agree over any sequence of calls by threads; a posting to a sink is one
  message for each target registered for it, which is offered to its maps in a fixed order.

  Some theorems state what the code does where it differs from what its comments say; the list of findings
  names them.

  \<^bold>\<open>Hypotheses on outside code\<close>

  \<open>crypto_ok\<close> states what P2PCngCrypto promises: signatures verify, agreements meet, opening inverts
  sealing, and the sizes.  \<open>lib_ok\<close> states what the container library promises of image headers.  Both have
  an instance, \<open>example_crypto\<close> and \<open>example_lib\<close>, on which the witnesses run the operations.  Handlers of
  targets and maps of addresses are arguments.

  \<^bold>\<open>Bounds\<close>

  Loops are recursions on the list or counter they walk, so no fuel is needed; walks over linked objects and
  searches that might not end are partial functions whose ending is proved.  Lengths that the code
  writes into 16 bits, times in 64 bits, timer identifiers and seal counters are words or carry their wrap
  explicitly.

  \<^bold>\<open>Not modelled\<close>

  The calls of the operating system, windows, services and the start and end of hub threads (P2Pwin32,
  P2PeerService); the overlapped calls of the socket, pipe and serial transports; the explorer and the C wrappers; the framing of
  strings; event logging and the code that only prints or tests.
\<close>

end
